(* ===== verification/Cyber_Prelude.thy ===== *)
theory Cyber_Prelude
  imports Main "HOL-Library.Word" "HOL-Library.Monad_Syntax"
begin

unbundle bit_operations_syntax

text \<open>
  Shared vocabulary of the development: the machine integer types the C++ sources use,
  the collections of facts the component theories extend, and the generic lemmas on
  remainders, lists and machine words that several components need.

  A result of type \<open>'a option\<close> stands for a C++ operation that may fail to return a
  defined value: \<open>None\<close> is undefined behaviour (a null pointer read, a division by zero,
  an index past the end of an array) or a spin that nothing in the model can end.
\<close>

type_synonym u8 = "8 word"
type_synonym u32 = "32 word"
type_synonym u64 = "64 word"
type_synonym i32 = "32 word"
type_synonym i64 = "64 word"

named_theorems cyber_state "state accessors and how operations change them"

section \<open>Remainders in a window\<close>

lemma mod_window_inj:
  fixes i j n :: nat
  assumes "i mod n = j mod n" and "i \<le> j" and "j < i + n"
  shows "i = j"
proof -
  have "(j - i) mod n = 0"
    using assms(1,2) by (metis mod_eq_dvd_iff_nat dvd_imp_mod_0)
  then have "j - i = 0"
    using assms(3) by (metis add.commute less_diff_conv2 mod_less assms(2))
  with assms(2) show ?thesis by simp
qed

lemma mod_window_neq:
  fixes i j n :: nat
  shows "i < j \<Longrightarrow> j < i + n \<Longrightarrow> i mod n \<noteq> j mod n"
  using mod_window_inj [of i n j] by auto

section \<open>Lists\<close>

lemma nth_list_update_if:
  "j < length xs \<Longrightarrow> (xs[i := x]) ! j = (if i = j then x else xs ! j)"
  by (simp add: nth_list_update)

lemma map_upt_Suc: "i \<le> j \<Longrightarrow> map f [i..<Suc j] = map f [i..<j] @ [f j]"
  by simp

lemma map_upt_conv: "i < j \<Longrightarrow> map f [i..<j] = f i # map f [Suc i..<j]"
  by (simp add: upt_conv_Cons)

section \<open>Machine words\<close>

lemma unat_Suc_word:
  fixes w :: "'a::len word"
  assumes "unat w + 1 < 2 ^ LENGTH('a)"
  shows "unat (w + 1) = Suc (unat w)"
proof -
  have "w + 1 \<noteq> 0"
    using assms by (metis Suc_eq_plus1 unat_add_lem unat_1 unat_0 add_is_0 one_neq_zero)
  then show ?thesis by (simp add: add.commute unatSuc)
qed

lemma unat_lt_u64: "unat (w :: u64) < 18446744073709551616"
  by (rule order_less_le_trans [OF unsigned_less]) simp

lemma unat_lt_u32: "unat (w :: u32) < 4294967296"
  by (rule order_less_le_trans [OF unsigned_less]) simp

lemma word_sub_div_mult: "(n :: u64) - (n div m) * m = n mod m"
  by (simp add: minus_div_mult_eq_mod)

section \<open>Counting threads\<close>

text \<open>The number of threads below \<open>n\<close> whose state satisfies \<open>P\<close>.\<close>

definition cnt :: "('p \<Rightarrow> bool) \<Rightarrow> nat \<Rightarrow> (nat \<Rightarrow> 'p) \<Rightarrow> nat" where
  "cnt P n f = (\<Sum>t<n. if P (f t) then 1 else 0)"

lemma sum_upd_one:
  fixes g :: "'p \<Rightarrow> nat" and n :: nat
  assumes "t < n"
  shows "(\<Sum>u<n. g ((f(t := x)) u)) + g (f t) = (\<Sum>u<n. g (f u)) + g x"
proof -
  have "(\<Sum>u<n. g (h u)) = g (h t) + (\<Sum>u \<in> {..<n} - {t}. g (h u))" for h :: "nat \<Rightarrow> 'p"
    using assms by (intro sum.remove) auto
  from this [of f] this [of "f(t := x)"] show ?thesis
    by simp
qed

lemma cnt_upd:
  "t < n \<Longrightarrow> cnt P n (f(t := x)) + (if P (f t) then 1 else 0) = cnt P n f + (if P x then 1 else 0)"
  using sum_upd_one [of t n "\<lambda>p. if P p then 1 else 0" f x] by (simp add: cnt_def)

lemma cnt_pos: "t < n \<Longrightarrow> P (f t) \<Longrightarrow> 0 < cnt P n f"
  by (auto simp: cnt_def intro!: sum_pos2 [of _ t])

lemma cnt_le: "cnt P n f \<le> n"
  using sum_mono [of "{..<n}" "\<lambda>t. if P (f t) then 1 else 0" "\<lambda>_. 1 :: nat"] by (simp add: cnt_def)

lemma cnt_zero [simp]: "(\<And>t. \<not> P (f t)) \<Longrightarrow> cnt P n f = 0"
  by (simp add: cnt_def)

section \<open>Reachable states of a step relation\<close>

inductive reach :: "'s \<Rightarrow> ('s \<Rightarrow> 's \<Rightarrow> bool) \<Rightarrow> 's \<Rightarrow> bool" for s0 step where
  reach_init: "reach s0 step s0"
| reach_step: "reach s0 step s \<Longrightarrow> step s s' \<Longrightarrow> reach s0 step s'"

lemma reach_one: "step s0 s \<Longrightarrow> reach s0 step s"
  by (rule reach_step [OF reach_init])

lemma reach_eq: "reach s0 step s \<Longrightarrow> step s s' \<Longrightarrow> s' = s'' \<Longrightarrow> reach s0 step s''"
  by (auto intro: reach_step)

end
