(* ===== verification/Fifo_Spec.thy ===== *)
theory Fifo_Spec
  imports Cyber_Prelude
begin

text \<open>
  The contract the queues of cyber/base share (BoundedQueue, UnboundedQueue,
  ThreadSafeQueue): Enqueue appends at the back or reports that the queue is full,
  Dequeue takes from the front or reports that it is empty. The contract is a locale over
  the two operations, the list of elements a queue state stands for, its capacity (None for
  a queue without one) and a predicate \<open>fits n q\<close>: the counters of \<open>q\<close> admit \<open>n\<close> further
  Enqueues before they wrap around.

  A client is a sequence of operations; \<open>q_run\<close> runs it against an implementation and
  \<open>fifo_run\<close> against the abstract list. The locale proves once that both answer alike.
\<close>

datatype 'a queue_op = Enq 'a | Deq

datatype 'a queue_ans = EnqAns bool | DeqAns "'a option"

fun room_of :: "nat option \<Rightarrow> nat \<Rightarrow> bool" where
  "room_of None n = True"
| "room_of (Some c) n = (n < c)"

fun fifo_step :: "nat option \<Rightarrow> 'a list \<Rightarrow> 'a queue_op \<Rightarrow> 'a queue_ans \<times> 'a list" where
  "fifo_step c xs (Enq x) =
     (if room_of c (length xs) then (EnqAns True, xs @ [x]) else (EnqAns False, xs))"
| "fifo_step c [] Deq = (DeqAns None, [])"
| "fifo_step c (x # xs) Deq = (DeqAns (Some x), xs)"

fun fifo_run :: "nat option \<Rightarrow> 'a list \<Rightarrow> 'a queue_op list \<Rightarrow> 'a queue_ans list \<times> 'a list" where
  "fifo_run c xs [] = ([], xs)"
| "fifo_run c xs (p # ps) =
     (let (r, ys) = fifo_step c xs p; (rs, zs) = fifo_run c ys ps in (r # rs, zs))"

fun q_step ::
  "('a \<Rightarrow> 'q \<Rightarrow> (bool \<times> 'q) option) \<Rightarrow> ('q \<Rightarrow> ('a option \<times> 'q) option)
   \<Rightarrow> 'q \<Rightarrow> 'a queue_op \<Rightarrow> ('a queue_ans \<times> 'q) option" where
  "q_step enq deq q (Enq x) = map_option (apfst EnqAns) (enq x q)"
| "q_step enq deq q Deq = map_option (apfst DeqAns) (deq q)"

fun q_run ::
  "('a \<Rightarrow> 'q \<Rightarrow> (bool \<times> 'q) option) \<Rightarrow> ('q \<Rightarrow> ('a option \<times> 'q) option)
   \<Rightarrow> 'q \<Rightarrow> 'a queue_op list \<Rightarrow> ('a queue_ans list \<times> 'q) option" where
  "q_run enq deq q [] = Some ([], q)"
| "q_run enq deq q (p # ps) =
     do { (r, q') \<leftarrow> q_step enq deq q p;
          (rs, q'') \<leftarrow> q_run enq deq q' ps;
          Some (r # rs, q'') }"

fun n_enqs :: "'a queue_op list \<Rightarrow> nat" where
  "n_enqs [] = 0"
| "n_enqs (Enq x # ps) = Suc (n_enqs ps)"
| "n_enqs (Deq # ps) = n_enqs ps"

lemma fifo_step_bound:
  "length xs \<le> c \<Longrightarrow> length (snd (fifo_step (Some c) xs p)) \<le> c"
  by (cases p; cases xs) auto

lemma fifo_run_bound:
  "length xs \<le> c \<Longrightarrow> length (snd (fifo_run (Some c) xs ps)) \<le> c"
proof (induction ps arbitrary: xs)
  case (Cons p ps)
  have "length (snd (fifo_step (Some c) xs p)) \<le> c"
    using Cons.prems by (rule fifo_step_bound)
  from Cons.IH [OF this] show ?case by (auto simp: Let_def split: prod.splits)
qed simp

locale fifo =
  fixes enq :: "'a \<Rightarrow> 'q \<Rightarrow> (bool \<times> 'q) option"
    and deq :: "'q \<Rightarrow> ('a option \<times> 'q) option"
    and content :: "'q \<Rightarrow> 'a list"
    and cap :: "'q \<Rightarrow> nat option"
    and ok :: "'q \<Rightarrow> bool"
    and fits :: "nat \<Rightarrow> 'q \<Rightarrow> bool"
  assumes enq_room:
      "ok q \<Longrightarrow> fits (Suc n) q \<Longrightarrow> room_of (cap q) (length (content q)) \<Longrightarrow>
       \<exists>q'. enq x q = Some (True, q') \<and> ok q' \<and> fits n q' \<and> cap q' = cap q
            \<and> content q' = content q @ [x]"
    and enq_full:
      "ok q \<Longrightarrow> fits (Suc n) q \<Longrightarrow> \<not> room_of (cap q) (length (content q)) \<Longrightarrow>
       enq x q = Some (False, q)"
    and deq_Cons:
      "ok q \<Longrightarrow> fits n q \<Longrightarrow> content q = x # xs \<Longrightarrow>
       \<exists>q'. deq q = Some (Some x, q') \<and> ok q' \<and> fits n q' \<and> cap q' = cap q
            \<and> content q' = xs"
    and deq_Nil: "ok q \<Longrightarrow> content q = [] \<Longrightarrow> deq q = Some (None, q)"
    and fits_mono: "fits (Suc n) q \<Longrightarrow> fits n q"
begin

lemma step_refines:
  assumes "ok q" and "fits (n_enqs (p # ps)) q"
  shows "\<exists>q'. q_step enq deq q p = Some (fst (fifo_step (cap q) (content q) p), q')
              \<and> ok q' \<and> fits (n_enqs ps) q' \<and> cap q' = cap q
              \<and> content q' = snd (fifo_step (cap q) (content q) p)"
proof (cases p)
  case (Enq x)
  with assms(2) have f: "fits (Suc (n_enqs ps)) q" by simp
  show ?thesis
  proof (cases "room_of (cap q) (length (content q))")
    case True
    from enq_room [OF assms(1) f True, of x] True Enq show ?thesis by auto
  next
    case False
    from enq_full [OF assms(1) f False, of x] False Enq assms(1) fits_mono [OF f] show ?thesis
      by simp
  qed
next
  case Deq
  with assms(2) have f: "fits (n_enqs ps) q" by simp
  show ?thesis
  proof (cases "content q")
    case Nil
    with deq_Nil [OF assms(1)] assms(1) f Deq show ?thesis by simp
  next
    case (Cons x xs)
    from deq_Cons [OF assms(1) f Cons] Cons Deq show ?thesis by auto
  qed
qed

lemma run_refines:
  assumes "ok q" and "fits (n_enqs ps) q"
  shows "\<exists>q'. q_run enq deq q ps = Some (fst (fifo_run (cap q) (content q) ps), q')
              \<and> ok q' \<and> content q' = snd (fifo_run (cap q) (content q) ps)"
  using assms
proof (induction ps arbitrary: q)
  case (Cons p ps)
  from step_refines [OF Cons.prems] obtain q' where
    s: "q_step enq deq q p = Some (fst (fifo_step (cap q) (content q) p), q')"
      "ok q'" "fits (n_enqs ps) q'" "cap q' = cap q"
      "content q' = snd (fifo_step (cap q) (content q) p)" by blast
  from Cons.IH [OF s(2,3)] s show ?case by (auto simp: Let_def split: prod.splits)
qed simp

lemma run_content_bound:
  assumes "ok q" and "fits (n_enqs ps) q" and "cap q = Some c" and "length (content q) \<le> c"
  shows "\<exists>rs q'. q_run enq deq q ps = Some (rs, q') \<and> length (content q') \<le> c"
  using run_refines [OF assms(1,2)] fifo_run_bound [OF assms(4)] assms(3) by auto

end

end
