(* ===== verification/Bounded_Queue.thy ===== *)
theory Bounded_Queue
  imports Fifo_Spec
begin

text \<open>
  cyber/base/bounded_queue.h and cyber/base/wait_strategy.h: the bounded ring buffer with
  64-bit head, tail and commit counters, run by one thread at a time. (Interleaved runs of
  the compare-and-swap loops are modelled in \<open>Bounded_Queue_Concurrent\<close>.)

  A live queue keeps two slots of the ring unused, so \<open>bq_Init(size)\<close> allocates \<open>size + 2\<close>
  elements. The slots \<open>head + 1, ..., tail - 1\<close> modulo the ring size hold the content.
\<close>

section \<open>Wait strategies\<close>

text \<open>
  \<open>EmptyWait\<close> blocks, sleeps, yields or spins and then says whether the caller should try
  again. Only the timeout strategy can answer no; whether its wait timed out is an input.
\<close>

datatype wait_strategy =
    BlockWaitStrategy
  | SleepWaitStrategy u64
  | YieldWaitStrategy
  | BusySpinWaitStrategy
  | TimeoutBlockWaitStrategy u64

fun EmptyWait :: "wait_strategy \<Rightarrow> bool \<Rightarrow> bool" where
  "EmptyWait BlockWaitStrategy timed_out = True"
| "EmptyWait (SleepWaitStrategy us) timed_out = True"
| "EmptyWait YieldWaitStrategy timed_out = True"
| "EmptyWait BusySpinWaitStrategy timed_out = True"
| "EmptyWait (TimeoutBlockWaitStrategy ms) timed_out = (if timed_out then False else True)"

definition default_wait_strategy :: wait_strategy where
  "default_wait_strategy = SleepWaitStrategy 10000"

section \<open>State and operations\<close>

record 'a bounded_queue =
  bq_head :: u64
  bq_tail :: u64
  bq_commit :: u64
  bq_pool_size :: u64
  bq_pool :: "'a list option"
  bq_wait_strategy :: "wait_strategy option"
  bq_break_all_wait :: bool

definition bq_new :: "'a bounded_queue" where
  "bq_new = \<lparr>bq_head = 0, bq_tail = 1, bq_commit = 1, bq_pool_size = 0, bq_pool = None,
             bq_wait_strategy = None, bq_break_all_wait = False\<rparr>"

text \<open>
  \<open>bq_Init\<close>: the allocation may fail, in which case the size is already stored and the strategy
  is not installed. Every element is built by the default constructor, here \<open>d\<close>.
\<close>

definition bq_Init ::
  "(u64 \<Rightarrow> bool) \<Rightarrow> 'a \<Rightarrow> u64 \<Rightarrow> wait_strategy \<Rightarrow> 'a bounded_queue \<Rightarrow> bool \<times> 'a bounded_queue" where
  "bq_Init calloc_ok d sz strategy q =
     (let n = sz + 2; q1 = q\<lparr>bq_pool_size := n\<rparr>
      in if \<not> calloc_ok n then (False, q1\<lparr>bq_pool := None\<rparr>)
         else (True, q1\<lparr>bq_pool := Some (replicate (unat n) d),
                        bq_wait_strategy := Some strategy\<rparr>))"

definition bq_Init_default ::
  "(u64 \<Rightarrow> bool) \<Rightarrow> 'a \<Rightarrow> u64 \<Rightarrow> 'a bounded_queue \<Rightarrow> bool \<times> 'a bounded_queue" where
  "bq_Init_default calloc_ok d sz q = bq_Init calloc_ok d sz default_wait_strategy q"

definition bq_GetIndex :: "'a bounded_queue \<Rightarrow> u64 \<Rightarrow> u64 option" where
  "bq_GetIndex q num =
     (if bq_pool_size q = 0 then None
      else Some (num - (num div bq_pool_size q) * bq_pool_size q))"

definition bq_pool_write :: "'a bounded_queue \<Rightarrow> u64 \<Rightarrow> 'a \<Rightarrow> 'a bounded_queue option" where
  "bq_pool_write q i x = (case bq_pool q of None \<Rightarrow> None
     | Some p \<Rightarrow> if unat i < length p then Some (q\<lparr>bq_pool := Some (p[unat i := x])\<rparr>) else None)"

definition bq_pool_read :: "'a bounded_queue \<Rightarrow> u64 \<Rightarrow> 'a option" where
  "bq_pool_read q i = (case bq_pool q of None \<Rightarrow> None
     | Some p \<Rightarrow> if unat i < length p then Some (p ! unat i) else None)"

definition bq_NotifyOne :: "'a bounded_queue \<Rightarrow> unit option" where
  "bq_NotifyOne q = (case bq_wait_strategy q of None \<Rightarrow> None | Some s \<Rightarrow> Some ())"

text \<open>
  \<open>bq_Enqueue\<close> with no other thread at work: the first compare-and-swap finds the counter it
  loaded. The second one waits until \<open>bq_commit\<close> reaches the claimed position; alone, it
  either is there already or spins for ever.
\<close>

definition bq_Enqueue :: "'a \<Rightarrow> 'a bounded_queue \<Rightarrow> (bool \<times> 'a bounded_queue) option" where
  "bq_Enqueue element q = do {
     let old_tail = bq_tail q;
     let new_tail = old_tail + 1;
     i \<leftarrow> bq_GetIndex q new_tail;
     h \<leftarrow> bq_GetIndex q (bq_head q);
     if i = h then Some (False, q)
     else do {
       let q1 = q\<lparr>bq_tail := new_tail\<rparr>;
       j \<leftarrow> bq_GetIndex q1 old_tail;
       q2 \<leftarrow> bq_pool_write q1 j element;
       if bq_commit q2 \<noteq> old_tail then None
       else do {
         let q3 = q2\<lparr>bq_commit := new_tail\<rparr>;
         bq_NotifyOne q3;
         Some (True, q3)
       }
     }
   }"

definition bq_Dequeue :: "'a bounded_queue \<Rightarrow> ('a option \<times> 'a bounded_queue) option" where
  "bq_Dequeue q = do {
     let old_head = bq_head q;
     let new_head = old_head + 1;
     if new_head = bq_commit q then Some (None, q)
     else do {
       i \<leftarrow> bq_GetIndex q new_head;
       x \<leftarrow> bq_pool_read q i;
       Some (Some x, q\<lparr>bq_head := new_head\<rparr>)
     }
   }"

definition bq_Size :: "'a bounded_queue \<Rightarrow> u64" where
  "bq_Size q = bq_tail q - bq_head q - 1"

definition bq_Empty :: "'a bounded_queue \<Rightarrow> bool" where
  "bq_Empty q = (bq_Size q = 0)"

definition bq_SetWaitStrategy :: "wait_strategy \<Rightarrow> 'a bounded_queue \<Rightarrow> 'a bounded_queue" where
  "bq_SetWaitStrategy s q = q\<lparr>bq_wait_strategy := Some s\<rparr>"

definition bq_BreakAllWait :: "'a bounded_queue \<Rightarrow> 'a bounded_queue option" where
  "bq_BreakAllWait q = do {
     let q1 = q\<lparr>bq_break_all_wait := True\<rparr>;
     bq_NotifyOne q1;
     Some q1 }"

text \<open>The destructor wakes the waiters of a queue with a strategy and frees the ring.\<close>

definition bq_destroy :: "'a bounded_queue \<Rightarrow> 'a bounded_queue option" where
  "bq_destroy q = do {
     q1 \<leftarrow> (if bq_wait_strategy q \<noteq> None then bq_BreakAllWait q else Some q);
     Some (q1\<lparr>bq_pool := None\<rparr>) }"

text \<open>
  \<open>bq_WaitEnqueue\<close> and \<open>bq_WaitDequeue\<close> retry. Between two attempts the other threads change the
  queue and the wait may time out: one entry of \<open>env\<close> per wait. \<open>None\<close> when the entries are
  used up, that is, when the call has not returned yet, or on undefined behaviour.
\<close>

fun bq_WaitEnqueue ::
  "'a \<Rightarrow> 'a bounded_queue \<Rightarrow> (('a bounded_queue \<Rightarrow> 'a bounded_queue) \<times> bool) list
   \<Rightarrow> (bool \<times> 'a bounded_queue) option" where
  "bq_WaitEnqueue element q env =
     (if bq_break_all_wait q then Some (False, q)
      else do {
        (done, q1) \<leftarrow> bq_Enqueue element q;
        if done then Some (True, q1)
        else (case env of [] \<Rightarrow> None
          | (others, timed_out) # env' \<Rightarrow> do {
              s \<leftarrow> bq_wait_strategy q1;
              let q2 = others q1;
              if EmptyWait s timed_out then bq_WaitEnqueue element q2 env'
              else Some (False, q2) }) })"

fun bq_WaitDequeue ::
  "'a bounded_queue \<Rightarrow> (('a bounded_queue \<Rightarrow> 'a bounded_queue) \<times> bool) list
   \<Rightarrow> ('a option \<times> 'a bounded_queue) option" where
  "bq_WaitDequeue q env =
     (if bq_break_all_wait q then Some (None, q)
      else do {
        (got, q1) \<leftarrow> bq_Dequeue q;
        if got \<noteq> None then Some (got, q1)
        else (case env of [] \<Rightarrow> None
          | (others, timed_out) # env' \<Rightarrow> do {
              s \<leftarrow> bq_wait_strategy q1;
              let q2 = others q1;
              if EmptyWait s timed_out then bq_WaitDequeue q2 env'
              else Some (None, q2) }) })"

declare bq_WaitEnqueue.simps [simp del] bq_WaitDequeue.simps [simp del]

section \<open>Invariant and content\<close>

definition bq_ok :: "'a bounded_queue \<Rightarrow> bool" where
  "bq_ok q \<longleftrightarrow>
     (\<exists>p. bq_pool q = Some p \<and> length p = unat (bq_pool_size q)) \<and> 2 \<le> unat (bq_pool_size q) \<and>
     bq_wait_strategy q \<noteq> None \<and> bq_commit q = bq_tail q \<and> unat (bq_head q) < unat (bq_tail q) \<and>
     unat (bq_tail q) < unat (bq_head q) + unat (bq_pool_size q)"

definition bq_content :: "'a bounded_queue \<Rightarrow> 'a list" where
  "bq_content q = (case bq_pool q of None \<Rightarrow> []
     | Some p \<Rightarrow> map (\<lambda>i. p ! (i mod unat (bq_pool_size q)))
                     [Suc (unat (bq_head q))..<unat (bq_tail q)])"

definition bq_cap :: "'a bounded_queue \<Rightarrow> nat option" where
  "bq_cap q = Some (unat (bq_pool_size q) - 2)"

definition bq_fits :: "nat \<Rightarrow> 'a bounded_queue \<Rightarrow> bool" where
  "bq_fits n q \<longleftrightarrow> unat (bq_tail q) + n < 2 ^ 64"

lemma bq_GetIndex_mod: "bq_pool_size q \<noteq> 0 \<Longrightarrow> bq_GetIndex q n = Some (n mod bq_pool_size q)"
  by (simp add: bq_GetIndex_def word_sub_div_mult)

lemma bq_okE:
  assumes "bq_ok q"
  obtains p s where "bq_pool q = Some p" "length p = unat (bq_pool_size q)" "2 \<le> unat (bq_pool_size q)"
    "bq_pool_size q \<noteq> 0" "bq_wait_strategy q = Some s" "bq_commit q = bq_tail q"
    "unat (bq_head q) < unat (bq_tail q)" "unat (bq_tail q) < unat (bq_head q) + unat (bq_pool_size q)"
  using assms unfolding bq_ok_def by (metis not_None_eq not_numeral_le_zero unat_0)

lemma unat_tail_Suc: "bq_fits (Suc n) q \<Longrightarrow> unat (bq_tail q + 1) = Suc (unat (bq_tail q))"
  unfolding bq_fits_def by (rule unat_Suc_word) simp

lemma unat_head_Suc:
  "bq_ok q \<Longrightarrow> unat (bq_head q + 1) = Suc (unat (bq_head q))"
  using unat_lt_u64 [of "bq_tail q"] by (intro unat_Suc_word) (auto elim!: bq_okE)

lemma length_bq_content:
  "bq_ok q \<Longrightarrow> length (bq_content q) = unat (bq_tail q) - unat (bq_head q) - 1"
  by (elim bq_okE) (simp add: bq_content_def)

text \<open>The slot after the tail is the head's slot exactly when the content fills the capacity.\<close>

lemma full_iff:
  assumes "bq_ok q" and "bq_fits (Suc n) q"
  shows "(bq_tail q + 1) mod bq_pool_size q = bq_head q mod bq_pool_size q \<longleftrightarrow>
         \<not> room_of (bq_cap q) (length (bq_content q))"
proof -
  from assms(1) obtain p s where q: "2 \<le> unat (bq_pool_size q)" "unat (bq_head q) < unat (bq_tail q)"
    "unat (bq_tail q) < unat (bq_head q) + unat (bq_pool_size q)" by (elim bq_okE)
  let ?n = "unat (bq_pool_size q)" and ?h = "unat (bq_head q)" and ?t = "unat (bq_tail q)"
  have "(bq_tail q + 1) mod bq_pool_size q = bq_head q mod bq_pool_size q \<longleftrightarrow> Suc ?t mod ?n = ?h mod ?n"
    by (simp add: word_unat_eq_iff unat_mod_distrib unat_tail_Suc [OF assms(2)])
  also have "\<dots> \<longleftrightarrow> Suc ?t = ?h + ?n"
    using mod_window_neq [of ?h "Suc ?t" ?n] q by (metis Suc_lessI less_SucI mod_add_self2)
  also have "\<dots> \<longleftrightarrow> \<not> room_of (bq_cap q) (length (bq_content q))"
    using q by (auto simp: bq_cap_def length_bq_content [OF assms(1)])
  finally show ?thesis .
qed

lemma bq_GetIndex_ok: "bq_ok q \<Longrightarrow> bq_GetIndex q n = Some (n mod bq_pool_size q)"
  by (elim bq_okE) (simp add: bq_GetIndex_mod)

lemma unat_index_lt: "bq_pool_size q \<noteq> 0 \<Longrightarrow> unat (n mod bq_pool_size q) < unat (bq_pool_size q)"
  by (simp add: unat_mod_distrib unat_gt_0)

section \<open>The operations meet the queue contract\<close>

text \<open>What \<open>bq_Enqueue\<close> leaves behind when there is room.\<close>

definition bq_pushed :: "'a \<Rightarrow> 'a bounded_queue \<Rightarrow> 'a bounded_queue" where
  "bq_pushed x q =
     q\<lparr>bq_tail := bq_tail q + 1,
       bq_pool := map_option (\<lambda>p. p[unat (bq_tail q) mod unat (bq_pool_size q) := x]) (bq_pool q),
       bq_commit := bq_tail q + 1\<rparr>"

lemma bq_Enqueue_eq:
  assumes "bq_ok q" and "bq_fits (Suc n) q"
  shows "bq_Enqueue x q =
    Some (if room_of (bq_cap q) (length (bq_content q)) then (True, bq_pushed x q) else (False, q))"
proof -
  from assms(1) obtain p s where q: "bq_pool q = Some p" "length p = unat (bq_pool_size q)"
    "bq_pool_size q \<noteq> 0" "bq_wait_strategy q = Some s" "bq_commit q = bq_tail q"
    by (elim bq_okE)
  have lt: "unat (bq_tail q) mod unat (bq_pool_size q) < length p"
    using unat_index_lt [OF q(3), of "bq_tail q"] q(2) by (simp add: unat_mod_distrib)
  show ?thesis
    using full_iff [OF assms] q lt
    by (auto simp: bq_Enqueue_def Let_def bq_GetIndex_mod bq_pool_write_def bq_NotifyOne_def
        bq_pushed_def unat_mod_distrib)
qed

lemma bq_pushed_ok:
  assumes "bq_ok q" and "bq_fits (Suc n) q" and "room_of (bq_cap q) (length (bq_content q))"
  shows "bq_ok (bq_pushed x q)" and "bq_fits n (bq_pushed x q)"
    and "bq_cap (bq_pushed x q) = bq_cap q"
    and "bq_content (bq_pushed x q) = bq_content q @ [x]"
proof -
  from assms(1) obtain p s where q: "bq_pool q = Some p" "length p = unat (bq_pool_size q)"
    "2 \<le> unat (bq_pool_size q)" "bq_wait_strategy q = Some s" "bq_commit q = bq_tail q"
    "unat (bq_head q) < unat (bq_tail q)"
    "unat (bq_tail q) < unat (bq_head q) + unat (bq_pool_size q)" by (elim bq_okE)
  let ?n = "unat (bq_pool_size q)" and ?h = "unat (bq_head q)" and ?t = "unat (bq_tail q)"
  have t: "unat (bq_tail q + 1) = Suc ?t" using assms(2) by (rule unat_tail_Suc)
  have room: "Suc ?t < ?h + ?n"
    using assms(3) q by (simp add: bq_cap_def length_bq_content [OF assms(1)])
  show "bq_ok (bq_pushed x q)" using q t room by (auto simp: bq_ok_def bq_pushed_def)
  show "bq_fits n (bq_pushed x q)" using assms(2) t by (simp add: bq_fits_def bq_pushed_def)
  show "bq_cap (bq_pushed x q) = bq_cap q" by (simp add: bq_cap_def bq_pushed_def)
  have lt: "?t mod ?n < length p" using q by simp
  have "p[?t mod ?n := x] ! (i mod ?n) = p ! (i mod ?n)" if "?h < i" "i < ?t" for i
    using mod_window_neq [of i ?t ?n] that q by (metis less_trans add_strict_right_mono nth_list_update_neq)
  then have "map (\<lambda>i. p[?t mod ?n := x] ! (i mod ?n)) [Suc ?h..<?t] = map (\<lambda>i. p ! (i mod ?n)) [Suc ?h..<?t]"
    by simp
  then show "bq_content (bq_pushed x q) = bq_content q @ [x]"
    using q t lt by (simp add: bq_content_def bq_pushed_def)
qed

lemma bq_Dequeue_Cons:
  assumes "bq_ok q" and "bq_content q = x # xs"
  shows "bq_Dequeue q = Some (Some x, q\<lparr>bq_head := bq_head q + 1\<rparr>)"
    and "bq_ok (q\<lparr>bq_head := bq_head q + 1\<rparr>)"
    and "bq_content (q\<lparr>bq_head := bq_head q + 1\<rparr>) = xs"
proof -
  from assms(1) obtain p s where q: "bq_pool q = Some p" "length p = unat (bq_pool_size q)"
    "2 \<le> unat (bq_pool_size q)" "bq_pool_size q \<noteq> 0"
    "bq_wait_strategy q = Some s" "bq_commit q = bq_tail q"
    "unat (bq_head q) < unat (bq_tail q)"
    "unat (bq_tail q) < unat (bq_head q) + unat (bq_pool_size q)" by (elim bq_okE)
  let ?n = "unat (bq_pool_size q)" and ?h = "unat (bq_head q)" and ?t = "unat (bq_tail q)"
  have h: "unat (bq_head q + 1) = Suc ?h" using assms(1) by (rule unat_head_Suc)
  have lt: "Suc ?h < ?t"
    using assms(2) q(1) by (cases "Suc ?h < ?t") (simp_all add: bq_content_def)
  then have x: "p ! (Suc ?h mod ?n) = x" and xs: "map (\<lambda>i. p ! (i mod ?n)) [Suc (Suc ?h)..<?t] = xs"
    using assms(2) q(1) by (simp_all add: bq_content_def map_upt_conv)
  have "bq_head q + 1 \<noteq> bq_commit q" using h lt q(6) by (metis less_not_refl)
  then show "bq_Dequeue q = Some (Some x, q\<lparr>bq_head := bq_head q + 1\<rparr>)"
    using q x h by (simp add: bq_Dequeue_def Let_def bq_GetIndex_mod bq_pool_read_def unat_mod_distrib)
  show "bq_ok (q\<lparr>bq_head := bq_head q + 1\<rparr>)" using q h lt by (auto simp: bq_ok_def)
  show "bq_content (q\<lparr>bq_head := bq_head q + 1\<rparr>) = xs" using q(1) h xs by (simp add: bq_content_def)
qed

lemma bq_Dequeue_Nil:
  assumes "bq_ok q" and "bq_content q = []"
  shows "bq_Dequeue q = Some (None, q)"
proof -
  have "unat (bq_head q + 1) = unat (bq_commit q)"
    using assms unat_head_Suc [OF assms(1)] by (auto elim!: bq_okE simp: bq_content_def)
  then have "bq_head q + 1 = bq_commit q" by (simp add: word_unat_eq_iff)
  then show ?thesis by (simp add: bq_Dequeue_def)
qed

interpretation bqi: fifo bq_Enqueue bq_Dequeue bq_content bq_cap bq_ok bq_fits
proof
  fix q :: "'a bounded_queue" and n x
  assume "bq_ok q" "bq_fits (Suc n) q" "room_of (bq_cap q) (length (bq_content q))"
  then show "\<exists>q'. bq_Enqueue x q = Some (True, q') \<and> bq_ok q' \<and> bq_fits n q' \<and> bq_cap q' = bq_cap q
      \<and> bq_content q' = bq_content q @ [x]"
    using bq_Enqueue_eq [of q n x] bq_pushed_ok [of q n x] by auto
next
  fix q :: "'a bounded_queue" and n x xs
  assume "bq_ok q" "bq_fits n q" "bq_content q = x # xs"
  then show "\<exists>q'. bq_Dequeue q = Some (Some x, q') \<and> bq_ok q' \<and> bq_fits n q' \<and> bq_cap q' = bq_cap q
      \<and> bq_content q' = xs"
    using bq_Dequeue_Cons [of q x xs] by (auto simp: bq_fits_def bq_cap_def)
qed (auto simp: bq_Enqueue_eq bq_Dequeue_Nil bq_fits_def)

section \<open>Properties\<close>

text \<open>The queue \<open>Init\<close> leaves when the allocation succeeds.\<close>

lemma bq_Init_ok:
  assumes "unat sz + n + 3 < 2 ^ 64"
  shows "let q = snd (bq_Init (\<lambda>_. True) d sz st bq_new) in
         bq_ok q \<and> bq_content q = [] \<and> bq_cap q = Some (unat sz) \<and> bq_fits n q"
proof -
  have "unat (sz + 2) = unat sz + 2" using assms by (simp add: unat_word_ariths)
  then show ?thesis using assms
    by (simp add: bq_Init_def bq_new_def Let_def bq_ok_def bq_content_def bq_cap_def bq_fits_def)
qed

text \<open>After \<open>Init(size)\<close>, every sequence of Enqueue and Dequeue calls returns without
  undefined behaviour and answers exactly like a FIFO list bounded by \<open>size\<close>: Enqueue says
  false precisely when \<open>size\<close> elements are stored, Dequeue says false precisely when none is.\<close>

theorem bounded_queue_is_fifo:
  assumes "unat sz + n_enqs ops + 3 < 2 ^ 64"
  shows "\<exists>q. q_run bq_Enqueue bq_Dequeue (snd (bq_Init (\<lambda>_. True) d sz st bq_new)) ops
             = Some (fst (fifo_run (Some (unat sz)) [] ops), q)
           \<and> bq_content q = snd (fifo_run (Some (unat sz)) [] ops)"
  using bqi.run_refines [of "snd (bq_Init (\<lambda>_. True) d sz st bq_new)" ops]
    bq_Init_ok [OF assms, of d st] by (auto simp: Let_def)

theorem bounded_queue_is_fifo_witness:
  "\<exists>q. q_run bq_Enqueue bq_Dequeue (snd (bq_Init (\<lambda>_. True) 0 2 BlockWaitStrategy bq_new))
        [Enq 1, Enq 2, Enq 3, Deq, Enq (4 :: int), Deq, Deq, Deq]
      = Some ([EnqAns True, EnqAns True, EnqAns False, DeqAns (Some 1), EnqAns True,
               DeqAns (Some 2), DeqAns (Some 4), DeqAns None], q)"
  using bounded_queue_is_fifo
    [of 2 "[Enq 1, Enq 2, Enq 3, Deq, Enq (4 :: int), Deq, Deq, Deq]" 0 BlockWaitStrategy]
  by auto

text \<open>\<open>Size()\<close> is the number of stored elements, \<open>Empty()\<close> tells whether there is none, and
  the stored elements never exceed the capacity \<open>pool_size - 2\<close>.\<close>

theorem bounded_queue_size:
  assumes "bq_ok q"
  shows "unat (bq_Size q) = length (bq_content q) \<and> bq_Empty q = (bq_content q = []) \<and>
         length (bq_content q) \<le> unat (bq_pool_size q) - 2"
proof -
  from assms have lt: "unat (bq_head q) < unat (bq_tail q)" by (elim bq_okE)
  have "unat (bq_tail q - bq_head q - 1) = unat (bq_tail q) - unat (bq_head q) - 1"
  proof -
    have le: "bq_head q + 1 \<le> bq_tail q"
      using lt unat_head_Suc [OF assms] by (simp add: word_le_nat_alt)
    have "unat (bq_tail q - (bq_head q + 1)) = unat (bq_tail q) - unat (bq_head q + 1)"
      using le by (rule unat_sub)
    then show ?thesis by (simp add: unat_head_Suc [OF assms] diff_diff_add)
  qed
  then have size: "unat (bq_Size q) = length (bq_content q)"
    by (simp add: bq_Size_def length_bq_content [OF assms])
  have "bq_Size q = 0 \<longleftrightarrow> length (bq_content q) = 0" unfolding size [symmetric] by (simp add: unat_eq_0)
  moreover have "length (bq_content q) \<le> unat (bq_pool_size q) - 2"
    using assms by (elim bq_okE) (simp add: length_bq_content [OF assms])
  ultimately show ?thesis using size by (simp add: bq_Empty_def)
qed

theorem bounded_queue_size_witness:
  "bq_Size \<lparr>bq_head = 3, bq_tail = 6, bq_commit = 6, bq_pool_size = 4,
     bq_pool = Some [10, 11, 12, 13 :: int], bq_wait_strategy = Some BlockWaitStrategy,
     bq_break_all_wait = False\<rparr> = 2"
proof -
  let ?q = "\<lparr>bq_head = 3, bq_tail = 6, bq_commit = 6, bq_pool_size = 4,
     bq_pool = Some [10, 11, 12, 13 :: int], bq_wait_strategy = Some BlockWaitStrategy,
     bq_break_all_wait = False\<rparr>"
  have "bq_ok ?q" by (simp add: bq_ok_def)
  from bounded_queue_size [OF this] have "unat (bq_Size ?q) = 2" by (simp add: bq_content_def)
  then show ?thesis by (simp add: word_unat_eq_iff)
qed

text \<open>A waiting Dequeue gives up without an element only when all waits were broken or a wait
  timed out: with a strategy that has no timeout, whatever the other threads do, it returns
  false only from a broken queue.\<close>

theorem wait_dequeue_false:
  assumes "bq_WaitDequeue q env = Some (None, q')"
    and "\<forall>(others, timed_out) \<in> set env. \<not> timed_out"
  shows "bq_break_all_wait q'"
  using assms
proof (induction q env rule: bq_WaitDequeue.induct)
  case (1 q env)
  show ?case
  proof (cases "bq_break_all_wait q")
    case True
    with "1.prems" show ?thesis by (simp add: bq_WaitDequeue.simps [of q])
  next
    case False
    with "1.prems"(1) obtain got q1 where d: "bq_Dequeue q = Some (got, q1)"
      by (auto simp: bq_WaitDequeue.simps [of q] bind_eq_Some_conv)
    with False "1.prems"(1) have got: "got = None"
      by (auto simp: bq_WaitDequeue.simps [of q] split: if_splits)
    with False "1.prems"(1) d obtain others to env' s where e: "env = (others, to) # env'"
      "bq_wait_strategy q1 = Some s"
      by (auto simp: bq_WaitDequeue.simps [of q] bind_eq_Some_conv split: list.splits)
    have "EmptyWait s to" using e "1.prems"(2) by (cases s) auto
    with False "1.prems"(1) d got e have rec: "bq_WaitDequeue (others q1) env' = Some (None, q')"
      by (simp add: bq_WaitDequeue.simps [of q] Let_def)
    show ?thesis
      using "1.IH" [OF False d _ _ e(1) _ e(2) _ \<open>EmptyWait s to\<close>] got rec e(1) "1.prems"(2) by auto
  qed
qed

theorem wait_dequeue_false_witness:
  "bq_break_all_wait (bq_new\<lparr>bq_break_all_wait := True\<rparr> :: nat bounded_queue)"
proof -
  let ?q = "bq_new\<lparr>bq_wait_strategy := Some YieldWaitStrategy\<rparr> :: nat bounded_queue"
  let ?env = "[(\<lambda>_. bq_new\<lparr>bq_break_all_wait := True\<rparr>, False)]"
  have "bq_WaitDequeue ?q ?env = Some (None, bq_new\<lparr>bq_break_all_wait := True\<rparr>)"
    by (simp add: bq_WaitDequeue.simps bq_new_def bq_Dequeue_def)
  from wait_dequeue_false [OF this] show ?thesis by simp
qed

end
