(* ===== verification/Bounded_Queue_Concurrent.thy ===== *)
theory Bounded_Queue_Concurrent
  imports Bounded_Queue
begin

text \<open>
  Interleaved runs of \<open>BoundedQueue::Enqueue\<close> and \<open>BoundedQueue::Dequeue\<close>
  (cyber/base/bounded_queue.h): any number of threads, each at one point of the two
  functions, one atomic access per step. Steps interleave in one order (sequential
  consistency; the weaker orderings of the source are not modelled). A weak
  compare-and-swap may fail although the value is the expected one.

  The two logs are ghost state: the elements in the order their Enqueue moved the tail, and
  the elements in the order their Dequeue moved the head.
\<close>

datatype 'a bq_pc =
    Idle
  | EnqLoaded u64 'a    \<comment> \<open>old\_tail is loaded, line 111 or 117\<close>
  | EnqChecked u64 'a   \<comment> \<open>the queue was not full, line 114\<close>
  | EnqClaimed u64 'a   \<comment> \<open>the tail has moved, line 117\<close>
  | EnqWritten u64      \<comment> \<open>the slot is written, line 121\<close>
  | DeqLoaded u64       \<comment> \<open>old\_head is loaded, line 157 or 164\<close>
  | DeqChecked u64      \<comment> \<open>the queue was not empty, line 160\<close>
  | DeqRead u64 'a      \<comment> \<open>the slot is read, line 163\<close>

record 'a bq_sys =
  ring :: "'a bounded_queue"
  pcs :: "nat \<Rightarrow> 'a bq_pc"
  enq_log :: "'a list"
  deq_log :: "'a list"

abbreviation at_pc :: "'a bq_sys \<Rightarrow> nat \<Rightarrow> 'a bq_pc \<Rightarrow> nat \<Rightarrow> 'a bq_pc" where
  "at_pc s i pc \<equiv> (pcs s)(i := pc)"

inductive bq_step :: "'a bq_sys \<Rightarrow> 'a bq_sys \<Rightarrow> bool" where
  enq_load: "pcs s i = Idle \<Longrightarrow>
     bq_step s (s\<lparr>pcs := at_pc s i (EnqLoaded (bq_tail (ring s)) x)\<rparr>)"
| enq_full: "pcs s i = EnqLoaded t x \<Longrightarrow>
     bq_GetIndex (ring s) (t + 1) = bq_GetIndex (ring s) (bq_head (ring s)) \<Longrightarrow>
     bq_step s (s\<lparr>pcs := at_pc s i Idle\<rparr>)"
| enq_check: "pcs s i = EnqLoaded t x \<Longrightarrow>
     bq_GetIndex (ring s) (t + 1) \<noteq> bq_GetIndex (ring s) (bq_head (ring s)) \<Longrightarrow>
     bq_step s (s\<lparr>pcs := at_pc s i (EnqChecked t x)\<rparr>)"
| enq_cas: "pcs s i = EnqChecked t x \<Longrightarrow> bq_tail (ring s) = t \<Longrightarrow>
     bq_step s (s\<lparr>ring := (ring s)\<lparr>bq_tail := t + 1\<rparr>,
                  pcs := at_pc s i (EnqClaimed t x), enq_log := enq_log s @ [x]\<rparr>)"
| enq_cas_fail: "pcs s i = EnqChecked t x \<Longrightarrow>
     bq_step s (s\<lparr>pcs := at_pc s i (EnqLoaded (bq_tail (ring s)) x)\<rparr>)"
| enq_write: "pcs s i = EnqClaimed t x \<Longrightarrow>
     bq_GetIndex (ring s) t = Some j \<Longrightarrow> bq_pool_write (ring s) j x = Some r \<Longrightarrow>
     bq_step s (s\<lparr>ring := r, pcs := at_pc s i (EnqWritten t)\<rparr>)"
| enq_commit: "pcs s i = EnqWritten t \<Longrightarrow> bq_commit (ring s) = t \<Longrightarrow>
     bq_step s (s\<lparr>ring := (ring s)\<lparr>bq_commit := t + 1\<rparr>, pcs := at_pc s i Idle\<rparr>)"
| deq_load: "pcs s i = Idle \<Longrightarrow>
     bq_step s (s\<lparr>pcs := at_pc s i (DeqLoaded (bq_head (ring s)))\<rparr>)"
| deq_empty: "pcs s i = DeqLoaded h \<Longrightarrow> h + 1 = bq_commit (ring s) \<Longrightarrow>
     bq_step s (s\<lparr>pcs := at_pc s i Idle\<rparr>)"
| deq_check: "pcs s i = DeqLoaded h \<Longrightarrow> h + 1 \<noteq> bq_commit (ring s) \<Longrightarrow>
     bq_step s (s\<lparr>pcs := at_pc s i (DeqChecked h)\<rparr>)"
| deq_read: "pcs s i = DeqChecked h \<Longrightarrow> bq_GetIndex (ring s) (h + 1) = Some j \<Longrightarrow>
     bq_pool_read (ring s) j = Some x \<Longrightarrow>
     bq_step s (s\<lparr>pcs := at_pc s i (DeqRead h x)\<rparr>)"
| deq_cas: "pcs s i = DeqRead h x \<Longrightarrow> bq_head (ring s) = h \<Longrightarrow>
     bq_step s (s\<lparr>ring := (ring s)\<lparr>bq_head := h + 1\<rparr>, pcs := at_pc s i Idle,
                  deq_log := deq_log s @ [x]\<rparr>)"
| deq_cas_fail: "pcs s i = DeqRead h x \<Longrightarrow>
     bq_step s (s\<lparr>pcs := at_pc s i (DeqLoaded (bq_head (ring s)))\<rparr>)"

definition bq_sys_init :: "'a \<Rightarrow> u64 \<Rightarrow> wait_strategy \<Rightarrow> 'a bq_sys" where
  "bq_sys_init d sz st =
     \<lparr>ring = snd (bq_Init (\<lambda>_. True) d sz st bq_new), pcs = (\<lambda>_. Idle),
      enq_log = [], deq_log = []\<rparr>"

inductive bq_reach :: "'a \<Rightarrow> u64 \<Rightarrow> wait_strategy \<Rightarrow> 'a bq_sys \<Rightarrow> bool" for d sz st where
  init: "bq_reach d sz st (bq_sys_init d sz st)"
| step: "bq_reach d sz st s \<Longrightarrow> bq_step s s' \<Longrightarrow> bq_reach d sz st s'"

section \<open>The invariant\<close>

text \<open>
  What a thread knows at its program point, over the counters read as numbers: \<open>n\<close> the ring
  size, \<open>p\<close> the ring, \<open>h\<close>, \<open>c\<close>, \<open>t\<close> the head, commit and tail, \<open>l\<close> the Enqueue log. The
  element with position \<open>k\<close> is entry \<open>k - 1\<close> of the log.
\<close>

fun pc_ok :: "nat \<Rightarrow> 'a list \<Rightarrow> nat \<Rightarrow> nat \<Rightarrow> nat \<Rightarrow> 'a list \<Rightarrow> 'a bq_pc \<Rightarrow> bool" where
  "pc_ok n p h c t l Idle = True"
| "pc_ok n p h c t l (EnqLoaded w x) = (unat w \<le> t)"
| "pc_ok n p h c t l (EnqChecked w x) = (unat w \<le> t \<and> (unat w = t \<longrightarrow> t + 1 < h + n))"
| "pc_ok n p h c t l (EnqClaimed w x) = (c \<le> unat w \<and> unat w < t \<and> l ! (unat w - 1) = x)"
| "pc_ok n p h c t l (EnqWritten w) =
     (c \<le> unat w \<and> unat w < t \<and> p ! (unat w mod n) = l ! (unat w - 1))"
| "pc_ok n p h c t l (DeqLoaded w) = (unat w \<le> h)"
| "pc_ok n p h c t l (DeqChecked w) = (unat w \<le> h \<and> unat w + 1 < c)"
| "pc_ok n p h c t l (DeqRead w x) =
     (unat w \<le> h \<and> unat w + 1 < c \<and> (unat w = h \<longrightarrow> x = l ! h))"

fun owns :: "'a bq_pc \<Rightarrow> u64 option" where
  "owns (EnqClaimed w x) = Some w"
| "owns (EnqWritten w) = Some w"
| "owns pc = None"

definition ring_inv :: "'a bounded_queue \<Rightarrow> 'a list \<Rightarrow> 'a list \<Rightarrow> 'a list \<Rightarrow> bool" where
  "ring_inv r p l dl \<longleftrightarrow>
     bq_pool r = Some p \<and> length p = unat (bq_pool_size r) \<and> 2 \<le> unat (bq_pool_size r) \<and>
     length l + 1 = unat (bq_tail r) \<and> unat (bq_head r) < unat (bq_commit r) \<and>
     unat (bq_commit r) \<le> unat (bq_tail r) \<and>
     unat (bq_tail r) < unat (bq_head r) + unat (bq_pool_size r) \<and>
     dl = take (unat (bq_head r)) l \<and>
     (\<forall>k. unat (bq_head r) < k \<and> k < unat (bq_commit r) \<longrightarrow>
          p ! (k mod unat (bq_pool_size r)) = l ! (k - 1))"

abbreviation sys_pc_ok :: "'a bq_sys \<Rightarrow> 'a list \<Rightarrow> nat \<Rightarrow> bool" where
  "sys_pc_ok s p i \<equiv> pc_ok (unat (bq_pool_size (ring s))) p (unat (bq_head (ring s)))
      (unat (bq_commit (ring s))) (unat (bq_tail (ring s))) (enq_log s) (pcs s i)"

text \<open>Each position between commit and tail belongs to exactly one thread.\<close>

definition owners_ok :: "(nat \<Rightarrow> u64 option) \<Rightarrow> nat \<Rightarrow> nat \<Rightarrow> bool" where
  "owners_ok f c t \<longleftrightarrow>
     (\<forall>i j w. f i = Some w \<longrightarrow> f j = Some w \<longrightarrow> i = j) \<and>
     (\<forall>k. c \<le> k \<and> k < t \<longrightarrow> (\<exists>i w. f i = Some w \<and> unat w = k))"

definition sys_inv :: "'a bq_sys \<Rightarrow> bool" where
  "sys_inv s \<longleftrightarrow> (\<exists>p. ring_inv (ring s) p (enq_log s) (deq_log s) \<and> (\<forall>i. sys_pc_ok s p i)) \<and>
     owners_ok (owns \<circ> pcs s) (unat (bq_commit (ring s))) (unat (bq_tail (ring s)))"

text \<open>The counters have not wrapped while fewer than \<open>2 ^ 64 - 2\<close> elements went in.\<close>

definition in_budget :: "'a bq_sys \<Rightarrow> bool" where
  "in_budget s \<longleftrightarrow> length (enq_log s) + 2 < 2 ^ 64"

lemma bq_step_log: "bq_step s s' \<Longrightarrow> length (enq_log s) \<le> length (enq_log s')"
  by (induction rule: bq_step.induct) auto

lemma in_budget_back: "bq_step s s' \<Longrightarrow> in_budget s' \<Longrightarrow> in_budget s"
  by (auto simp: in_budget_def dest: bq_step_log)

lemma sys_inv_init:
  assumes "unat sz + 2 < 2 ^ 64"
  shows "sys_inv (bq_sys_init d sz st)"
proof -
  have "unat (sz + 2) = unat sz + 2" using assms by (simp add: unat_word_ariths)
  then show ?thesis
    by (auto simp: sys_inv_def ring_inv_def owners_ok_def bq_sys_init_def bq_Init_def bq_new_def Let_def)
qed

section \<open>Every step keeps the invariant\<close>

lemma owns_upd: "owns \<circ> at_pc s i pc = (owns \<circ> pcs s)(i := owns pc)"
  by (rule ext) simp

lemma owns_same: "owns pc = owns (pcs s i) \<Longrightarrow> owns \<circ> at_pc s i pc = owns \<circ> pcs s"
  by (rule ext) simp

lemma owners_claim:
  assumes "owners_ok f c t" and "\<And>j v. f j = Some v \<Longrightarrow> unat v < t" and "unat w = t" and "f i = None"
  shows "owners_ok (f(i := Some w)) c (Suc t)"
  unfolding owners_ok_def
proof (intro conjI allI impI)
  fix a b v
  assume "(f(i := Some w)) a = Some v" "(f(i := Some w)) b = Some v"
  then show "a = b"
    using assms(1) assms(2) [of a v] assms(2) [of b v] assms(3)
    by (auto simp: owners_ok_def split: if_splits)
next
  fix k
  assume k: "c \<le> k \<and> k < Suc t"
  show "\<exists>j v. (f(i := Some w)) j = Some v \<and> unat v = k"
  proof (cases "k = t")
    case True
    then show ?thesis using assms(3) by (intro exI [of _ i] exI [of _ w]) simp
  next
    case False
    with k assms(1) obtain j v where "f j = Some v" "unat v = k"
      unfolding owners_ok_def by (metis less_SucE)
    moreover from this assms(4) have "j \<noteq> i" by auto
    ultimately show ?thesis by (intro exI [of _ j] exI [of _ v]) simp
  qed
qed

lemma owners_release:
  assumes "owners_ok f c t" and "f i = Some w" and "unat w = c"
  shows "owners_ok (f(i := None)) (Suc c) t"
  unfolding owners_ok_def
proof (intro conjI allI impI)
  fix a b v
  assume "(f(i := None)) a = Some v" "(f(i := None)) b = Some v"
  then show "a = b" using assms(1) by (auto simp: owners_ok_def split: if_splits)
next
  fix k
  assume k: "Suc c \<le> k \<and> k < t"
  then obtain j v where "f j = Some v" "unat v = k"
    using assms(1) unfolding owners_ok_def by (metis Suc_leD)
  moreover from this k assms(2,3) have "j \<noteq> i" by auto
  ultimately show "\<exists>j v. (f(i := None)) j = Some v \<and> unat v = k"
    by (intro exI [of _ j] exI [of _ v]) simp
qed

lemma owners_other:
  "owners_ok f c t \<Longrightarrow> f i = Some w \<Longrightarrow> f j = Some v \<Longrightarrow> j \<noteq> i \<Longrightarrow> unat v \<noteq> unat w"
  unfolding owners_ok_def by (metis word_unat_eq_iff)

lemma sys_invE:
  assumes "sys_inv s"
  obtains p where "ring_inv (ring s) p (enq_log s) (deq_log s)" "\<And>i. sys_pc_ok s p i"
    "owners_ok (owns \<circ> pcs s) (unat (bq_commit (ring s))) (unat (bq_tail (ring s)))"
  using assms unfolding sys_inv_def by blast

lemma sys_invI:
  assumes "ring_inv (ring s) p (enq_log s) (deq_log s)" and "\<And>i. sys_pc_ok s p i"
    and "owners_ok (owns \<circ> pcs s) (unat (bq_commit (ring s))) (unat (bq_tail (ring s)))"
  shows "sys_inv s"
  using assms unfolding sys_inv_def by blast

text \<open>A step that only moves a thread which owns the same position before and after.\<close>

lemma sys_inv_move:
  assumes "sys_inv s" and "owns pc = owns (pcs s i)"
    and "\<And>p. ring_inv (ring s) p (enq_log s) (deq_log s) \<Longrightarrow> sys_pc_ok s p i \<Longrightarrow>
         pc_ok (unat (bq_pool_size (ring s))) p (unat (bq_head (ring s)))
           (unat (bq_commit (ring s))) (unat (bq_tail (ring s))) (enq_log s) pc"
  shows "sys_inv (s\<lparr>pcs := at_pc s i pc\<rparr>)"
proof -
  from assms(1) obtain p where p: "ring_inv (ring s) p (enq_log s) (deq_log s)" "\<And>i. sys_pc_ok s p i"
    and o: "owners_ok (owns \<circ> pcs s) (unat (bq_commit (ring s))) (unat (bq_tail (ring s)))"
    by (elim sys_invE) blast
  show ?thesis
    using p o assms(3) [OF p] by (intro sys_invI [where p = p]) (simp_all add: owns_same [OF assms(2)])
qed

lemma head_lt_commit_unat:
  "ring_inv r p l dl \<Longrightarrow> unat (bq_head r + 1) = Suc (unat (bq_head r))"
  using unat_lt_u64 [of "bq_commit r"] by (intro unat_Suc_word) (auto simp: ring_inv_def)

lemma below_unat_Suc:
  "unat (w :: u64) < unat (v :: u64) \<Longrightarrow> unat (w + 1) = Suc (unat w)"
  using unat_lt_u64 [of v] by (intro unat_Suc_word) auto

lemma enq_check_inv:
  assumes "sys_inv s" and "in_budget s" and "pcs s i = EnqLoaded t x"
    and "bq_GetIndex (ring s) (t + 1) \<noteq> bq_GetIndex (ring s) (bq_head (ring s))"
  shows "sys_inv (s\<lparr>pcs := at_pc s i (EnqChecked t x)\<rparr>)"
proof (rule sys_inv_move [OF assms(1)])
  fix p assume p: "ring_inv (ring s) p (enq_log s) (deq_log s)" and pc: "sys_pc_ok s p i"
  let ?r = "ring s"
  have "unat (bq_tail ?r) + 1 < unat (bq_head ?r) + unat (bq_pool_size ?r)"
    if e: "unat t = unat (bq_tail ?r)"
  proof -
    have t: "unat (t + 1) = Suc (unat t)"
      using assms(2) p e by (intro unat_Suc_word) (simp add: in_budget_def ring_inv_def)
    have nz: "bq_pool_size ?r \<noteq> 0" using p by (auto simp: ring_inv_def)
    have "Suc (unat (bq_tail ?r)) mod unat (bq_pool_size ?r) \<noteq> unat (bq_head ?r) mod unat (bq_pool_size ?r)"
      using assms(4) nz t e by (simp add: bq_GetIndex_mod word_unat_eq_iff unat_mod_distrib)
    then have "Suc (unat (bq_tail ?r)) \<noteq> unat (bq_head ?r) + unat (bq_pool_size ?r)" by auto
    then show ?thesis using p by (simp add: ring_inv_def)
  qed
  then show "pc_ok (unat (bq_pool_size ?r)) p (unat (bq_head ?r)) (unat (bq_commit ?r))
      (unat (bq_tail ?r)) (enq_log s) (EnqChecked t x)" using pc assms(3) by simp
qed (simp add: assms(3))

lemma enq_cas_inv:
  assumes "sys_inv s" and "in_budget (s\<lparr>enq_log := enq_log s @ [x]\<rparr>)" and "pcs s i = EnqChecked t x"
    and "bq_tail (ring s) = t"
  shows "sys_inv (s\<lparr>ring := (ring s)\<lparr>bq_tail := t + 1\<rparr>,
           pcs := at_pc s i (EnqClaimed t x), enq_log := enq_log s @ [x]\<rparr>)" (is "sys_inv ?s")
proof -
  let ?r = "ring s" and ?l = "enq_log s"
  from assms(1) obtain p where p: "ring_inv ?r p ?l (deq_log s)" "\<And>i. sys_pc_ok s p i"
    and o: "owners_ok (owns \<circ> pcs s) (unat (bq_commit ?r)) (unat (bq_tail ?r))"
    by (elim sys_invE) blast
  have room: "unat t + 1 < unat (bq_head ?r) + unat (bq_pool_size ?r)"
    using p(2) [of i] assms(3,4) by simp
  have t: "unat (t + 1) = Suc (unat t)"
    using assms(2,4) p(1) by (intro unat_Suc_word) (simp add: in_budget_def ring_inv_def)
  have len: "length ?l = unat t - 1" "1 \<le> unat t" using p(1) assms(4) by (auto simp: ring_inv_def)
  have below: "unat w < unat t" if "owns (pcs s j) = Some w" for j w
    using p(2) [of j] that assms(4) by (cases "pcs s j") auto
  have ring': "ring_inv (ring ?s) p (enq_log ?s) (deq_log ?s)"
    using p(1) room t assms(4) len by (auto simp: ring_inv_def nth_append)
  have pc': "sys_pc_ok ?s p j" for j
  proof (cases "j = i")
    case True
    then show ?thesis using p(1) t len assms(4) by (auto simp: ring_inv_def nth_append)
  next
    case False
    with p(2) [of j] p(1) t len assms(4) show ?thesis
      by (cases "pcs s j") (auto simp: ring_inv_def nth_append)
  qed
  have "owners_ok ((owns \<circ> pcs s)(i := Some t)) (unat (bq_commit ?r)) (Suc (unat (bq_tail ?r)))"
  proof (rule owners_claim [OF o])
    show "unat v < unat (bq_tail ?r)" if "(owns \<circ> pcs s) j = Some v" for j v
      using below [of j v] that assms(4) by simp
    show "unat t = unat (bq_tail ?r)" by (simp add: assms(4))
    show "(owns \<circ> pcs s) i = None" by (simp add: assms(3))
  qed
  then have o': "owners_ok (owns \<circ> pcs ?s) (unat (bq_commit (ring ?s))) (unat (bq_tail (ring ?s)))"
    by (simp add: owns_upd t assms(4))
  show ?thesis by (rule sys_invI [OF ring' pc' o'])
qed

lemma enq_write_inv:
  assumes "sys_inv s" and "pcs s i = EnqClaimed t x"
    and "bq_GetIndex (ring s) t = Some j" and "bq_pool_write (ring s) j x = Some r"
  shows "sys_inv (s\<lparr>ring := r, pcs := at_pc s i (EnqWritten t)\<rparr>)" (is "sys_inv ?s")
proof -
  let ?r = "ring s" and ?l = "enq_log s"
  from assms(1) obtain p where p: "ring_inv ?r p ?l (deq_log s)" "\<And>i. sys_pc_ok s p i"
    and o: "owners_ok (owns \<circ> pcs s) (unat (bq_commit ?r)) (unat (bq_tail ?r))"
    by (elim sys_invE) blast
  let ?n = "unat (bq_pool_size ?r)"
  have nz: "bq_pool_size ?r \<noteq> 0" using p(1) by (auto simp: ring_inv_def)
  have w: "unat (bq_commit ?r) \<le> unat t" "unat t < unat (bq_tail ?r)" "?l ! (unat t - 1) = x"
    using p(2) [of i] assms(2) by auto
  have r: "r = ?r\<lparr>bq_pool := Some (p[unat t mod ?n := x])\<rparr>"
    using assms(3,4) nz p(1)
    by (auto simp: bq_GetIndex_mod bq_pool_write_def ring_inv_def unat_mod_distrib split: if_splits)
  have lt: "unat t mod ?n < length p" using p(1) by (simp add: ring_inv_def)
  have keep: "p[unat t mod ?n := x] ! (k mod ?n) = p ! (k mod ?n)"
    if "unat (bq_head ?r) < k" "k < unat (bq_tail ?r)" "k \<noteq> unat t" for k
  proof -
    have "unat t mod ?n \<noteq> k mod ?n"
      using mod_window_neq [of k "unat t" ?n] mod_window_neq [of "unat t" k ?n] that p(1) w
      by (auto simp: ring_inv_def neq_iff)
    then show ?thesis by simp
  qed
  have ring': "ring_inv r (p[unat t mod ?n := x]) ?l (deq_log s)"
    using p(1) keep w by (auto simp: ring_inv_def r)
  have pc': "sys_pc_ok ?s (p[unat t mod ?n := x]) k" for k
  proof (cases "k = i")
    case True
    then show ?thesis using w lt by (simp add: r)
  next
    case False
    have "unat v \<noteq> unat t" if "pcs s k = EnqWritten v" for v
      using owners_other [OF o, of i t k v] that assms(2) False by simp
    with p(2) [of k] p(1) False keep show ?thesis
      by (cases "pcs s k") (auto simp: r ring_inv_def)
  qed
  have "owns \<circ> pcs ?s = owns \<circ> pcs s" using assms(2) by (simp add: owns_same)
  with o have o': "owners_ok (owns \<circ> pcs ?s) (unat (bq_commit (ring ?s))) (unat (bq_tail (ring ?s)))"
    by (simp add: r)
  from ring' have ring'': "ring_inv (ring ?s) (p[unat t mod ?n := x]) (enq_log ?s) (deq_log ?s)" by simp
  show ?thesis by (rule sys_invI [OF ring'' pc' o'])
qed

lemma enq_commit_inv:
  assumes "sys_inv s" and "pcs s i = EnqWritten t" and "bq_commit (ring s) = t"
  shows "sys_inv (s\<lparr>ring := (ring s)\<lparr>bq_commit := t + 1\<rparr>, pcs := at_pc s i Idle\<rparr>)" (is "sys_inv ?s")
proof -
  let ?r = "ring s" and ?l = "enq_log s"
  from assms(1) obtain p where p: "ring_inv ?r p ?l (deq_log s)" "\<And>i. sys_pc_ok s p i"
    and o: "owners_ok (owns \<circ> pcs s) (unat (bq_commit ?r)) (unat (bq_tail ?r))"
    by (elim sys_invE) blast
  have w: "unat t < unat (bq_tail ?r)" "p ! (unat t mod unat (bq_pool_size ?r)) = ?l ! (unat t - 1)"
    using p(2) [of i] assms(2) by auto
  have t: "unat (t + 1) = Suc (unat t)" using w(1) by (rule below_unat_Suc)
  have other: "unat v \<noteq> unat t" if "owns (pcs s k) = Some v" "k \<noteq> i" for k v
    using owners_other [OF o, of i t k v] that assms(2) by simp
  have ring': "ring_inv (ring ?s) p (enq_log ?s) (deq_log ?s)"
    using p(1) w t assms(3) by (auto simp: ring_inv_def less_Suc_eq)
  have pc': "sys_pc_ok ?s p k" for k
    using p(2) [of k] t assms(3) other [of k] by (cases "pcs s k") fastforce+
  have "owners_ok (owns \<circ> pcs ?s) (Suc (unat t)) (unat (bq_tail ?r))"
    using owners_release [OF o, of i t] assms(2,3) by (simp add: owns_upd)
  then have o': "owners_ok (owns \<circ> pcs ?s) (unat (bq_commit (ring ?s))) (unat (bq_tail (ring ?s)))"
    using t by simp
  show ?thesis by (rule sys_invI [OF ring' pc' o'])
qed

lemma deq_check_inv:
  assumes "sys_inv s" and "pcs s i = DeqLoaded h" and "h + 1 \<noteq> bq_commit (ring s)"
  shows "sys_inv (s\<lparr>pcs := at_pc s i (DeqChecked h)\<rparr>)"
proof (rule sys_inv_move [OF assms(1)])
  fix p assume p: "ring_inv (ring s) p (enq_log s) (deq_log s)" and pc: "sys_pc_ok s p i"
  have le: "unat h \<le> unat (bq_head (ring s))" using pc assms(2) by simp
  have "unat h < unat (bq_commit (ring s))" using le p by (simp add: ring_inv_def)
  then have "unat (h + 1) = Suc (unat h)" by (rule below_unat_Suc)
  then have "unat h + 1 \<noteq> unat (bq_commit (ring s))" using assms(3) by (simp add: word_unat_eq_iff)
  with le p show "pc_ok (unat (bq_pool_size (ring s))) p (unat (bq_head (ring s)))
      (unat (bq_commit (ring s))) (unat (bq_tail (ring s))) (enq_log s) (DeqChecked h)"
    by (simp add: ring_inv_def)
qed (simp add: assms(2))

lemma deq_read_inv:
  assumes "sys_inv s" and "pcs s i = DeqChecked h" and "bq_GetIndex (ring s) (h + 1) = Some j"
    and "bq_pool_read (ring s) j = Some x"
  shows "sys_inv (s\<lparr>pcs := at_pc s i (DeqRead h x)\<rparr>)"
proof (rule sys_inv_move [OF assms(1)])
  fix p assume p: "ring_inv (ring s) p (enq_log s) (deq_log s)" and pc: "sys_pc_ok s p i"
  let ?r = "ring s"
  have le: "unat h \<le> unat (bq_head ?r)" "unat h + 1 < unat (bq_commit ?r)" using pc assms(2) by auto
  have "unat h < unat (bq_commit ?r)" using le by simp
  then have h: "unat (h + 1) = Suc (unat h)" by (rule below_unat_Suc)
  have nz: "bq_pool_size ?r \<noteq> 0" using p by (auto simp: ring_inv_def)
  have "x = p ! (Suc (unat h) mod unat (bq_pool_size ?r))"
    using assms(3,4) nz p h
    by (auto simp: bq_GetIndex_mod bq_pool_read_def ring_inv_def unat_mod_distrib split: if_splits)
  with le p show "pc_ok (unat (bq_pool_size ?r)) p (unat (bq_head ?r))
      (unat (bq_commit ?r)) (unat (bq_tail ?r)) (enq_log s) (DeqRead h x)"
    by (auto simp: ring_inv_def)
qed (simp add: assms(2))

lemma deq_cas_inv:
  assumes "sys_inv s" and "pcs s i = DeqRead h x" and "bq_head (ring s) = h"
  shows "sys_inv (s\<lparr>ring := (ring s)\<lparr>bq_head := h + 1\<rparr>, pcs := at_pc s i Idle,
           deq_log := deq_log s @ [x]\<rparr>)" (is "sys_inv ?s")
proof -
  let ?r = "ring s" and ?l = "enq_log s"
  from assms(1) obtain p where p: "ring_inv ?r p ?l (deq_log s)" "\<And>i. sys_pc_ok s p i"
    and o: "owners_ok (owns \<circ> pcs s) (unat (bq_commit ?r)) (unat (bq_tail ?r))"
    by (elim sys_invE) blast
  have x: "x = ?l ! unat h" "unat h + 1 < unat (bq_commit ?r)" using p(2) [of i] assms(2,3) by auto
  have h: "unat (h + 1) = Suc (unat h)" using head_lt_commit_unat [OF p(1)] assms(3) by simp
  have ring': "ring_inv (ring ?s) p ?l (deq_log ?s)"
    using p(1) x h assms(3) by (auto simp: ring_inv_def take_Suc_conv_app_nth)
  have pc': "sys_pc_ok ?s p k" for k
    using p(2) [of k] h assms(3) by (cases "pcs s k") auto
  have "owns \<circ> pcs ?s = owns \<circ> pcs s" using assms(2) by (simp add: owns_same)
  with o have o': "owners_ok (owns \<circ> pcs ?s) (unat (bq_commit (ring ?s))) (unat (bq_tail (ring ?s)))"
    by simp
  from ring' have ring'': "ring_inv (ring ?s) p (enq_log ?s) (deq_log ?s)" by simp
  show ?thesis by (rule sys_invI [OF ring'' pc' o'])
qed

theorem bq_step_inv:
  assumes "bq_step s s'" and "sys_inv s" and "in_budget s'"
  shows "sys_inv s'"
  using assms
proof (induction rule: bq_step.induct)
  case (enq_check s i t x)
  then show ?case by (intro enq_check_inv) (auto simp: in_budget_def)
next
  case (enq_cas s i t x)
  then show ?case by (intro enq_cas_inv) (auto simp: in_budget_def)
next
  case (enq_write s i t x j r)
  then show ?case by (intro enq_write_inv)
next
  case (enq_commit s i t)
  then show ?case by (intro enq_commit_inv)
next
  case (deq_check s i h)
  then show ?case by (intro deq_check_inv)
next
  case (deq_read s i h j x)
  then show ?case by (intro deq_read_inv)
next
  case (deq_cas s i h x)
  then show ?case by (intro deq_cas_inv)
qed (auto intro!: sys_inv_move)

theorem bq_reach_inv:
  assumes "bq_reach d sz st s" and "unat sz + 2 < 2 ^ 64" and "in_budget s"
  shows "sys_inv s"
  using assms
proof (induction rule: bq_reach.induct)
  case init
  then show ?case by (intro sys_inv_init)
next
  case (step s s')
  then show ?case using in_budget_back bq_step_inv by blast
qed

lemma bq_step_pool_size: "bq_step s s' \<Longrightarrow> bq_pool_size (ring s') = bq_pool_size (ring s)"
  by (induction rule: bq_step.induct) (auto simp: bq_pool_write_def split: option.splits if_splits)

lemma bq_reach_pool_size: "bq_reach d sz st s \<Longrightarrow> bq_pool_size (ring s) = sz + 2"
  by (induction rule: bq_reach.induct)
     (simp_all add: bq_step_pool_size bq_sys_init_def bq_Init_def Let_def)

section \<open>Properties of interleaved runs\<close>

text \<open>C5: With any number of threads enqueueing and dequeueing at once, the elements taken out are
  a prefix of the elements put in, in the same order: nothing is lost, duplicated or
  reordered, and at most \<open>size\<close> elements are in the queue. The number of Enqueues stays below
  the width of the counters.\<close>

theorem bq_concurrent_fifo:
  assumes "bq_reach d sz st s" and "unat sz + 2 < 2 ^ 64" and "length (enq_log s) + 2 < 2 ^ 64"
  shows "deq_log s = take (length (deq_log s)) (enq_log s) \<and>
         length (enq_log s) \<le> length (deq_log s) + unat sz"
proof -
  from assms(3) have "in_budget s" by (simp add: in_budget_def)
  from bq_reach_inv [OF assms(1,2) this] obtain p where p: "ring_inv (ring s) p (enq_log s) (deq_log s)"
    by (elim sys_invE) blast
  have "unat (bq_pool_size (ring s)) = unat sz + 2"
    using assms(2) by (simp add: bq_reach_pool_size [OF assms(1)] unat_word_ariths)
  with p show ?thesis by (auto simp: ring_inv_def min_def)
qed

text \<open>A run of a queue of size 1 in explicit states: thread 0 enqueues 7, thread 1 takes it.\<close>

definition demo :: "u64 \<Rightarrow> u64 \<Rightarrow> u64 \<Rightarrow> u64 list \<Rightarrow> u64 bq_pc \<Rightarrow> u64 bq_pc \<Rightarrow> u64 list \<Rightarrow> u64 list \<Rightarrow> u64 bq_sys" where
  "demo t c h pool p q e d =
     \<lparr>ring = \<lparr>bq_head = h, bq_tail = t, bq_commit = c, bq_pool_size = 3, bq_pool = Some pool,
              bq_wait_strategy = Some BusySpinWaitStrategy, bq_break_all_wait = False\<rparr>,
      pcs = (\<lambda>i. if i = 0 then p else if i = 1 then q else Idle), enq_log = e, deq_log = d\<rparr>"

lemma demo_pcs:
  "(\<lambda>i. if i = 0 then p else if i = (1 :: nat) then q else Idle)(0 := p') = (\<lambda>i. if i = 0 then p' else if i = 1 then q else Idle)"
  "(\<lambda>i. if i = 0 then p else if i = (1 :: nat) then q else Idle)(1 := q') = (\<lambda>i. if i = 0 then p else if i = 1 then q' else Idle)"
  by auto

lemmas demo_eval = demo_def demo_pcs [simplified] bq_GetIndex_def bq_pool_write_def bq_pool_read_def

lemma demo_init: "bq_sys_init 0 1 BusySpinWaitStrategy = (demo 1 1 0 [0, 0, 0] Idle Idle [] [])"
  by (simp add: demo_def bq_sys_init_def bq_Init_def bq_new_def Let_def fun_eq_iff)
     (simp add: numeral_3_eq_3)

lemma demo_step1: "bq_step (demo 1 1 0 [0, 0, 0] Idle Idle [] []) (demo 1 1 0 [0, 0, 0] (EnqLoaded 1 7) Idle [] [])"
  using bq_step.enq_load [of "demo 1 1 0 [0, 0, 0] Idle Idle [] []" 0 7] by (simp add: demo_eval)

lemma demo_step2: "bq_step (demo 1 1 0 [0, 0, 0] (EnqLoaded 1 7) Idle [] []) (demo 1 1 0 [0, 0, 0] (EnqChecked 1 7) Idle [] [])"
  using bq_step.enq_check [of "demo 1 1 0 [0, 0, 0] (EnqLoaded 1 7) Idle [] []" 0 1 7] by (simp add: demo_eval)

lemma demo_step3: "bq_step (demo 1 1 0 [0, 0, 0] (EnqChecked 1 7) Idle [] []) (demo 2 1 0 [0, 0, 0] (EnqClaimed 1 7) Idle [7] [])"
  using bq_step.enq_cas [of "demo 1 1 0 [0, 0, 0] (EnqChecked 1 7) Idle [] []" 0 1 7] by (simp add: demo_eval)

lemma demo_step4: "bq_step (demo 2 1 0 [0, 0, 0] (EnqClaimed 1 7) Idle [7] []) (demo 2 1 0 [0, 7, 0] (EnqWritten 1) Idle [7] [])"
  using bq_step.enq_write [of "demo 2 1 0 [0, 0, 0] (EnqClaimed 1 7) Idle [7] []" 0 1 7 1] by (simp add: demo_eval)

lemma demo_step5: "bq_step (demo 2 1 0 [0, 7, 0] (EnqWritten 1) Idle [7] []) (demo 2 2 0 [0, 7, 0] Idle Idle [7] [])"
  using bq_step.enq_commit [of "demo 2 1 0 [0, 7, 0] (EnqWritten 1) Idle [7] []" 0 1] by (simp add: demo_eval)

lemma demo_step6: "bq_step (demo 2 2 0 [0, 7, 0] Idle Idle [7] []) (demo 2 2 0 [0, 7, 0] Idle (DeqLoaded 0) [7] [])"
  using bq_step.deq_load [of "demo 2 2 0 [0, 7, 0] Idle Idle [7] []" 1] by (simp add: demo_eval)

lemma demo_step7: "bq_step (demo 2 2 0 [0, 7, 0] Idle (DeqLoaded 0) [7] []) (demo 2 2 0 [0, 7, 0] Idle (DeqChecked 0) [7] [])"
  using bq_step.deq_check [of "demo 2 2 0 [0, 7, 0] Idle (DeqLoaded 0) [7] []" 1 0] by (simp add: demo_eval)

lemma demo_step8: "bq_step (demo 2 2 0 [0, 7, 0] Idle (DeqChecked 0) [7] []) (demo 2 2 0 [0, 7, 0] Idle (DeqRead 0 7) [7] [])"
  using bq_step.deq_read [of "demo 2 2 0 [0, 7, 0] Idle (DeqChecked 0) [7] []" 1 0 1 7] by (simp add: demo_eval)

lemma demo_step9: "bq_step (demo 2 2 0 [0, 7, 0] Idle (DeqRead 0 7) [7] []) (demo 2 2 1 [0, 7, 0] Idle Idle [7] [7])"
  using bq_step.deq_cas [of "demo 2 2 0 [0, 7, 0] Idle (DeqRead 0 7) [7] []" 1 0 7] by (simp add: demo_eval)

lemma demo_claimed: "bq_reach 0 1 BusySpinWaitStrategy (demo 2 1 0 [0, 0, 0] (EnqClaimed 1 7) Idle [7] [])"
proof -
  have "bq_reach 0 1 BusySpinWaitStrategy (demo 1 1 0 [0, 0, 0] Idle Idle [] [])" using bq_reach.init demo_init by metis
  then have "bq_reach 0 1 BusySpinWaitStrategy (demo 1 1 0 [0, 0, 0] (EnqLoaded 1 7) Idle [] [])" by (rule bq_reach.step) (rule demo_step1)
  then have "bq_reach 0 1 BusySpinWaitStrategy (demo 1 1 0 [0, 0, 0] (EnqChecked 1 7) Idle [] [])" by (rule bq_reach.step) (rule demo_step2)
  then show ?thesis by (rule bq_reach.step) (rule demo_step3)
qed

lemma demo_done: "bq_reach 0 1 BusySpinWaitStrategy (demo 2 2 1 [0, 7, 0] Idle Idle [7] [7])"
proof -
  from demo_claimed have "bq_reach 0 1 BusySpinWaitStrategy (demo 2 1 0 [0, 7, 0] (EnqWritten 1) Idle [7] [])" by (rule bq_reach.step) (rule demo_step4)
  then have "bq_reach 0 1 BusySpinWaitStrategy (demo 2 2 0 [0, 7, 0] Idle Idle [7] [])" by (rule bq_reach.step) (rule demo_step5)
  then have "bq_reach 0 1 BusySpinWaitStrategy (demo 2 2 0 [0, 7, 0] Idle (DeqLoaded 0) [7] [])" by (rule bq_reach.step) (rule demo_step6)
  then have "bq_reach 0 1 BusySpinWaitStrategy (demo 2 2 0 [0, 7, 0] Idle (DeqChecked 0) [7] [])" by (rule bq_reach.step) (rule demo_step7)
  then have "bq_reach 0 1 BusySpinWaitStrategy (demo 2 2 0 [0, 7, 0] Idle (DeqRead 0 7) [7] [])" by (rule bq_reach.step) (rule demo_step8)
  then show ?thesis by (rule bq_reach.step) (rule demo_step9)
qed

theorem bq_concurrent_fifo_witness:
  "\<exists>s. bq_reach (0 :: u64) 1 BusySpinWaitStrategy s \<and> enq_log s = [7] \<and>
       deq_log s = take (length (deq_log s)) (enq_log s) \<and>
       length (enq_log s) \<le> length (deq_log s) + 1"
proof -
  have s: "enq_log (demo 2 2 1 [0, 7, 0] Idle Idle [7] [7]) = [7]" "deq_log (demo 2 2 1 [0, 7, 0] Idle Idle [7] [7]) = [7]" by (simp_all add: demo_def)
  from bq_concurrent_fifo [OF demo_done] demo_done show ?thesis by (intro exI [of _ "(demo 2 2 1 [0, 7, 0] Idle Idle [7] [7])"]) (simp add: s)
qed

lemma bq_concurrent_access:
  assumes "bq_reach d sz st s" and "unat sz + 2 < 2 ^ 64" and "length (enq_log s) + 2 < 2 ^ 64"
  shows "\<exists>j r. bq_GetIndex (ring s) t = Some j \<and> bq_pool_write (ring s) j x = Some r"
    and "\<exists>j y. bq_GetIndex (ring s) t = Some j \<and> bq_pool_read (ring s) j = Some y"
proof -
  from assms(3) have "in_budget s" by (simp add: in_budget_def)
  from bq_reach_inv [OF assms(1,2) this] obtain p where p: "ring_inv (ring s) p (enq_log s) (deq_log s)"
    by (elim sys_invE) blast
  then have nz: "bq_pool_size (ring s) \<noteq> 0" by (auto simp: ring_inv_def)
  have "unat (k mod bq_pool_size (ring s)) < length p" for k
    using p unat_index_lt [OF nz, of k] by (simp add: ring_inv_def)
  with p nz show "\<exists>j r. bq_GetIndex (ring s) t = Some j \<and> bq_pool_write (ring s) j x = Some r"
    and "\<exists>j y. bq_GetIndex (ring s) t = Some j \<and> bq_pool_read (ring s) j = Some y"
    by (simp_all add: bq_GetIndex_mod bq_pool_write_def bq_pool_read_def ring_inv_def)
qed

text \<open>The second spin of Enqueue cannot wait for ever on a position nobody will commit:
  while commit lags behind the tail, exactly one thread owns the position commit stands at, it
  has claimed that position, and it can take its next step (write the slot or move commit).\<close>

theorem bq_concurrent_commit_progress:
  assumes "bq_reach d sz st s" and "unat sz + 2 < 2 ^ 64" and "length (enq_log s) + 2 < 2 ^ 64"
    and "bq_commit (ring s) \<noteq> bq_tail (ring s)"
  shows "\<exists>!i. owns (pcs s i) = Some (bq_commit (ring s)) \<and> (\<exists>s'. bq_step s s' \<and> pcs s' i \<noteq> pcs s i)"
proof -
  from assms(3) have "in_budget s" by (simp add: in_budget_def)
  from bq_reach_inv [OF assms(1,2) this] obtain p where p: "ring_inv (ring s) p (enq_log s) (deq_log s)"
    and o: "owners_ok (owns \<circ> pcs s) (unat (bq_commit (ring s))) (unat (bq_tail (ring s)))"
    by (elim sys_invE) blast
  let ?c = "bq_commit (ring s)"
  have "unat ?c < unat (bq_tail (ring s))"
    using p assms(4) by (auto simp: ring_inv_def word_unat_eq_iff)
  with o obtain i w where "owns (pcs s i) = Some w" "unat w = unat ?c"
    unfolding owners_ok_def comp_def by blast
  then have i: "owns (pcs s i) = Some ?c" by (simp add: word_unat_eq_iff)
  have unique: "j = i" if "owns (pcs s j) = Some ?c" for j
    using o that i unfolding owners_ok_def comp_def by blast
  have "\<exists>s'. bq_step s s' \<and> pcs s' i \<noteq> pcs s i"
  proof (cases "pcs s i")
    case (EnqClaimed v x)
    from bq_concurrent_access(1) [OF assms(1-3), of v x] obtain j r where
      jr: "bq_GetIndex (ring s) v = Some j" "bq_pool_write (ring s) j x = Some r" by blast
    from bq_step.enq_write [OF EnqClaimed jr] EnqClaimed show ?thesis
      by (intro exI [of _ "s\<lparr>ring := r, pcs := at_pc s i (EnqWritten v)\<rparr>"]) simp
  next
    case (EnqWritten v)
    with i have "?c = v" by simp
    from bq_step.enq_commit [OF EnqWritten this] EnqWritten show ?thesis
      by (intro exI [of _ "s\<lparr>ring := (ring s)\<lparr>bq_commit := v + 1\<rparr>, pcs := at_pc s i Idle\<rparr>"]) simp
  qed (use i in simp_all)
  with i unique show ?thesis by blast
qed

theorem bq_concurrent_commit_progress_witness:
  "\<exists>s. bq_reach (0 :: u64) 1 BusySpinWaitStrategy s \<and>
       (\<exists>!i. owns (pcs s i) = Some (bq_commit (ring s)) \<and> (\<exists>s'. bq_step s s' \<and> pcs s' i \<noteq> pcs s i))"
proof -
  let ?s = "demo 2 1 0 [0, 0, 0] (EnqClaimed 1 7) Idle [7] []"
  have "\<exists>!i. owns (pcs ?s i) = Some (bq_commit (ring ?s)) \<and> (\<exists>s'. bq_step ?s s' \<and> pcs s' i \<noteq> pcs ?s i)"
    by (rule bq_concurrent_commit_progress [OF demo_claimed]) (simp_all add: demo_def)
  with demo_claimed show ?thesis by blast
qed

end
