(* ===== verification/Linked_Queue.thy ===== *)
theory Linked_Queue
  imports Fifo_Spec
begin

text \<open>
  The two unbounded queues of cyber/base: \<open>UnboundedQueue\<close> (unbounded_queue.h), a linked list
  of reference-counted nodes modelled with an explicit heap, and \<open>ThreadSafeQueue\<close>
  (thread_safe_queue.h), a locked \<open>std::queue\<close>. Both are run by one thread at a time, where
  a compare-and-swap finds the value just loaded.
\<close>

section \<open>UnboundedQueue: nodes on a heap\<close>

text \<open>
  A node address is a number. \<open>uq_fresh\<close> is the allocator: \<open>new Node()\<close> returns an address
  not in use. An access to an address outside the heap is a use after free, \<open>None\<close>.
\<close>

record 'a unode =
  un_data :: 'a
  un_ref_count :: u32
  un_next :: "nat option"

record 'a unbounded_queue =
  uq_heap :: "nat \<Rightarrow> 'a unode option"
  uq_fresh :: nat
  uq_head :: nat
  uq_tail :: nat
  uq_size :: u64

definition uq_node :: "'a \<Rightarrow> 'a unode" where
  "uq_node d = \<lparr>un_data = d, un_ref_count = 2, un_next = None\<rparr>"

definition uq_create :: "'a \<Rightarrow> 'a unbounded_queue" where
  "uq_create d = \<lparr>uq_heap = [0 \<mapsto> uq_node d], uq_fresh = 1, uq_head = 0, uq_tail = 0, uq_size = 0\<rparr>"

definition uq_release :: "nat \<Rightarrow> 'a unbounded_queue \<Rightarrow> 'a unbounded_queue option" where
  "uq_release a q = (case uq_heap q a of
       None \<Rightarrow> None
     | Some n \<Rightarrow>
         let n' = n\<lparr>un_ref_count := un_ref_count n - 1\<rparr>
         in Some (q\<lparr>uq_heap := (uq_heap q)(a := if un_ref_count n' = 0 then None else Some n')\<rparr>))"

definition uq_set_next :: "nat \<Rightarrow> nat \<Rightarrow> 'a unbounded_queue \<Rightarrow> 'a unbounded_queue option" where
  "uq_set_next a b q = (case uq_heap q a of
       None \<Rightarrow> None
     | Some n \<Rightarrow> Some (q\<lparr>uq_heap := (uq_heap q)(a \<mapsto> n\<lparr>un_next := Some b\<rparr>)\<rparr>))"

definition uq_Enqueue :: "'a \<Rightarrow> 'a \<Rightarrow> 'a unbounded_queue \<Rightarrow> (bool \<times> 'a unbounded_queue) option" where
  "uq_Enqueue d element q = do {
     let node = uq_fresh q;
     let q1 = q\<lparr>uq_heap := (uq_heap q)(node \<mapsto> (uq_node d)\<lparr>un_data := element\<rparr>),
                uq_fresh := Suc node\<rparr>;
     let old_tail = uq_tail q1;
     let q2 = q1\<lparr>uq_tail := node\<rparr>;
     q3 \<leftarrow> uq_set_next old_tail node q2;
     q4 \<leftarrow> uq_release old_tail q3;
     Some (True, q4\<lparr>uq_size := uq_size q4 + 1\<rparr>) }"

definition uq_Dequeue :: "'a unbounded_queue \<Rightarrow> ('a option \<times> 'a unbounded_queue) option" where
  "uq_Dequeue q = do {
     let old_head = uq_head q;
     n \<leftarrow> uq_heap q old_head;
     case un_next n of
       None \<Rightarrow> Some (None, q)
     | Some head_next \<Rightarrow> do {
         let q1 = q\<lparr>uq_head := head_next\<rparr>;
         m \<leftarrow> uq_heap q1 head_next;
         let q2 = q1\<lparr>uq_size := uq_size q1 - 1\<rparr>;
         q3 \<leftarrow> uq_release old_head q2;
         Some (Some (un_data m), q3) } }"

definition uq_Size :: "'a unbounded_queue \<Rightarrow> u64" where
  "uq_Size q = uq_size q"

definition uq_Empty :: "'a unbounded_queue \<Rightarrow> bool" where
  "uq_Empty q = (uq_size q = 0)"

text \<open>\<open>Clear\<close>, the destructor: delete the nodes from the head on. The fuel bounds the walk.\<close>

fun uq_clear_from ::
  "nat \<Rightarrow> nat option \<Rightarrow> (nat \<Rightarrow> 'a unode option) \<Rightarrow> (nat \<Rightarrow> 'a unode option) option" where
  "uq_clear_from fuel None h = Some h"
| "uq_clear_from 0 (Some a) h = None"
| "uq_clear_from (Suc fuel) (Some a) h = (case h a of
       None \<Rightarrow> None
     | Some n \<Rightarrow> uq_clear_from fuel (un_next n) (h(a := None)))"

definition uq_Clear :: "nat \<Rightarrow> 'a unbounded_queue \<Rightarrow> (nat \<Rightarrow> 'a unode option) option" where
  "uq_Clear fuel q = uq_clear_from fuel (Some (uq_head q)) (uq_heap q)"

section \<open>UnboundedQueue: invariant\<close>

text \<open>
  \<open>as\<close> lists the node addresses from the head (whose data is spent) to the tail. Every live
  node is on it; the tail has two references left, every other node one.
\<close>

definition next_in :: "'b list \<Rightarrow> nat \<Rightarrow> 'b option" where
  "next_in as i = (if Suc i < length as then Some (as ! Suc i) else None)"

definition uq_rep :: "'a unbounded_queue \<Rightarrow> nat list \<Rightarrow> 'a list \<Rightarrow> bool" where
  "uq_rep q as xs \<longleftrightarrow>
     as \<noteq> [] \<and> distinct as \<and> dom (uq_heap q) = set as \<and> (\<forall>a \<in> set as. a < uq_fresh q) \<and>
     uq_head q = hd as \<and> uq_tail q = last as \<and> unat (uq_size q) = length xs \<and>
     length as = Suc (length xs) \<and>
     (\<forall>i < length as. \<exists>n. uq_heap q (as ! i) = Some n \<and>
        un_next n = next_in as i \<and>
        un_ref_count n = (if next_in as i = None then 2 else 1) \<and>
        (0 < i \<longrightarrow> un_data n = xs ! (i - 1)))"

definition uq_ok :: "'a unbounded_queue \<Rightarrow> bool" where
  "uq_ok q \<longleftrightarrow> (\<exists>as xs. uq_rep q as xs)"

fun uq_walk :: "nat \<Rightarrow> (nat \<Rightarrow> 'a unode option) \<Rightarrow> nat \<Rightarrow> 'a list" where
  "uq_walk 0 h a = []"
| "uq_walk (Suc k) h a = (case Option.bind (h a) un_next of
       None \<Rightarrow> []
     | Some b \<Rightarrow> (case h b of None \<Rightarrow> [] | Some m \<Rightarrow> un_data m # uq_walk k h b))"

definition uq_content :: "'a unbounded_queue \<Rightarrow> 'a list" where
  "uq_content q = uq_walk (unat (uq_size q)) (uq_heap q) (uq_head q)"

definition uq_fits :: "nat \<Rightarrow> 'a unbounded_queue \<Rightarrow> bool" where
  "uq_fits n q \<longleftrightarrow> unat (uq_size q) + n < 2 ^ 64"

lemma next_in_Cons [simp]: "next_in (a # as) (Suc i) = next_in as i"
  by (simp add: next_in_def)

lemma next_in_0: "next_in (a # as) 0 = (case as of [] \<Rightarrow> None | b # _ \<Rightarrow> Some b)"
  by (simp add: next_in_def split: list.split)

lemma next_in_last [simp]: "length as = Suc i \<Longrightarrow> next_in as i = None"
  by (simp add: next_in_def)

lemma next_in_Some: "Suc i < length as \<Longrightarrow> next_in as i = Some (as ! Suc i)"
  by (simp add: next_in_def)

lemma next_in_append: "Suc i < length as \<Longrightarrow> next_in (as @ bs) i = next_in as i"
  by (simp add: next_in_def nth_append)

lemma next_in_snoc: "length as = Suc i \<Longrightarrow> next_in (as @ [a]) i = Some a"
  by (simp add: next_in_def nth_append)

lemma uq_rep_nth:
  assumes "uq_rep q as xs" and "i < length as"
  obtains n where "uq_heap q (as ! i) = Some n"
    "un_next n = next_in as i" "un_ref_count n = (if next_in as i = None then 2 else 1)"
    "0 < i \<Longrightarrow> un_data n = xs ! (i - 1)"
  using assms unfolding uq_rep_def by blast

lemma uq_walk_rep:
  assumes "uq_rep q as xs" and "i + k = length xs"
  shows "uq_walk k (uq_heap q) (as ! i) = drop i xs"
  using assms(2)
proof (induction k arbitrary: i)
  case (Suc k)
  have len: "length as = Suc (length xs)" using assms(1) by (simp add: uq_rep_def)
  obtain n where n: "uq_heap q (as ! i) = Some n" "un_next n = Some (as ! Suc i)"
    using uq_rep_nth [OF assms(1), of i] Suc.prems len by (auto simp: next_in_Some)
  obtain m where m: "uq_heap q (as ! Suc i) = Some m" "un_data m = xs ! i"
    using uq_rep_nth [OF assms(1), of "Suc i"] Suc.prems len by auto
  have "drop i xs = xs ! i # drop (Suc i) xs" using Suc.prems by (intro Cons_nth_drop_Suc [symmetric]) simp
  with n m Suc.IH [of "Suc i"] Suc.prems show ?case by simp
qed simp

lemma uq_content_rep: "uq_rep q as xs \<Longrightarrow> uq_content q = xs"
  using uq_walk_rep [of q as xs 0 "length xs"]
  by (auto simp: uq_content_def uq_rep_def hd_conv_nth)

lemma uq_rep_create: "uq_rep (uq_create d) [0] []"
  by (simp add: uq_rep_def uq_create_def uq_node_def)

lemma uq_Enqueue_rep:
  assumes "uq_rep q as xs" and "uq_fits (Suc n) q"
  shows "\<exists>q'. uq_Enqueue d x q = Some (True, q') \<and> uq_rep q' (as @ [uq_fresh q]) (xs @ [x]) \<and>
              uq_fits n q'"
proof -
  let ?a = "uq_fresh q" and ?l = "length xs"
  have r: "as \<noteq> []" "distinct as" "dom (uq_heap q) = set as" "\<forall>a \<in> set as. a < ?a"
    "uq_head q = hd as" "uq_tail q = last as" "unat (uq_size q) = ?l" "length as = Suc ?l"
    using assms(1) by (auto simp: uq_rep_def)
  have last: "last as = as ! ?l" using r by (simp add: last_conv_nth)
  obtain m where m: "uq_heap q (as ! ?l) = Some m" "un_next m = None" "un_ref_count m = 2"
    "0 < ?l \<Longrightarrow> un_data m = xs ! (?l - 1)" using uq_rep_nth [OF assms(1), of ?l] r(8) by auto
  have ne: "as ! ?l \<noteq> ?a" using r(4,8) by (metis less_irrefl lessI nth_mem)
  let ?h = "(uq_heap q)(?a \<mapsto> (uq_node d)\<lparr>un_data := x\<rparr>,
      as ! ?l \<mapsto> m\<lparr>un_next := Some ?a, un_ref_count := 1\<rparr>)"
  let ?q = "q\<lparr>uq_fresh := Suc ?a, uq_tail := ?a, uq_heap := ?h, uq_size := uq_size q + 1\<rparr>"
  have e: "uq_Enqueue d x q = Some (True, ?q)"
    using r(6) last m(1,3) ne by (simp add: uq_Enqueue_def uq_set_next_def uq_release_def Let_def)
  have sz: "unat (uq_size q + 1) = Suc ?l"
    using assms(2) r(7) by (subst unat_Suc_word) (simp_all add: uq_fits_def)
  have nodes: "\<exists>n. ?h ((as @ [?a]) ! i) = Some n \<and>
      un_next n = next_in (as @ [?a]) i \<and>
      un_ref_count n = (if next_in (as @ [?a]) i = None then 2 else 1) \<and>
      (0 < i \<longrightarrow> un_data n = (xs @ [x]) ! (i - 1))" if i: "i < length (as @ [?a])" for i
  proof -
    consider "i < ?l" | "i = ?l" | "i = Suc ?l" using i r(8) by fastforce
    then show ?thesis
    proof cases
      case 1
      then have "as ! i \<noteq> ?a" using r(4,8) by (metis less_SucI less_irrefl nth_mem)
      moreover have "as ! i \<noteq> as ! ?l" using r(2,8) 1 by (simp add: nth_eq_iff_index_eq)
      moreover obtain k where "uq_heap q (as ! i) = Some k" "un_next k = next_in as i"
        "un_ref_count k = (if next_in as i = None then 2 else 1)" "0 < i \<Longrightarrow> un_data k = xs ! (i - 1)"
        using uq_rep_nth [OF assms(1), of i] 1 r(8) by auto
      ultimately show ?thesis using 1 r(8) by (cases i) (simp_all add: nth_append next_in_append)
    next
      case 2
      then show ?thesis using m(4) r(8) by (simp add: nth_append next_in_snoc)
    next
      case 3
      moreover have "?a \<noteq> as ! ?l" using ne by simp
      ultimately show ?thesis using r(8) by (simp add: nth_append uq_node_def)
    qed
  qed
  have "uq_rep ?q (as @ [?a]) (xs @ [x])"
    unfolding uq_rep_def
  proof (intro conjI)
    show "dom (uq_heap ?q) = set (as @ [?a])" using r(3,8) by auto
    show "\<forall>i<length (as @ [?a]). \<exists>n. uq_heap ?q ((as @ [?a]) ! i) = Some n \<and>
      un_next n = next_in (as @ [?a]) i \<and>
      un_ref_count n = (if next_in (as @ [?a]) i = None then 2 else 1) \<and>
      (0 < i \<longrightarrow> un_data n = (xs @ [x]) ! (i - 1))" using nodes by simp
  qed (use r sz in \<open>auto simp: less_SucI\<close>)
  moreover have "uq_fits n ?q" using assms(2) sz r(7) by (simp add: uq_fits_def)
  ultimately show ?thesis using e by blast
qed

lemma uq_Dequeue_Nil: "uq_rep q as [] \<Longrightarrow> uq_Dequeue q = Some (None, q)"
  using uq_rep_nth [of q as "[]" 0] by (auto simp: uq_Dequeue_def uq_rep_def hd_conv_nth)

lemma uq_Dequeue_Cons:
  assumes "uq_rep q (a # as) (x # xs)"
  shows "\<exists>q'. uq_Dequeue q = Some (Some x, q') \<and> uq_rep q' as xs \<and>
              unat (uq_size q') < unat (uq_size q)"
proof -
  have r: "distinct (a # as)" "dom (uq_heap q) = set (a # as)" "\<forall>b \<in> set (a # as). b < uq_fresh q"
    "uq_head q = a" "uq_tail q = last (a # as)" "unat (uq_size q) = Suc (length xs)"
    "length as = Suc (length xs)" using assms by (auto simp: uq_rep_def)
  then obtain b bs where as: "as = b # bs" by (cases as) auto
  obtain n where n: "uq_heap q a = Some n" "un_next n = Some b" "un_ref_count n = 1"
    using uq_rep_nth [OF assms, of 0] as by (auto simp: next_in_0)
  obtain m where m: "uq_heap q b = Some m" "un_data m = x"
    using uq_rep_nth [OF assms, of 1] as by auto
  let ?q = "q\<lparr>uq_head := b, uq_size := uq_size q - 1, uq_heap := (uq_heap q)(a := None)\<rparr>"
  have e: "uq_Dequeue q = Some (Some x, ?q)"
    using r(4) n m by (simp add: uq_Dequeue_def uq_release_def Let_def)
  have "uq_size q \<noteq> 0" using r(6) by auto
  then have sz: "unat (uq_size q - 1) = length xs" using r(6) by (simp add: unat_minus_one)
  have nodes: "\<exists>n. ((uq_heap q)(a := None)) (as ! i) = Some n \<and>
      un_next n = next_in as i \<and> un_ref_count n = (if next_in as i = None then 2 else 1) \<and>
      (0 < i \<longrightarrow> un_data n = xs ! (i - 1))" if i: "i < length as" for i
  proof -
    have ne: "as ! i \<noteq> a" using r(1) i by auto
    obtain k where k: "uq_heap q (as ! i) = Some k"
      "un_next k = next_in as i" "un_ref_count k = (if next_in as i = None then 2 else 1)" "un_data k = (x # xs) ! i"
      using uq_rep_nth [OF assms, of "Suc i"] i by auto
    show ?thesis using ne k by (cases i) simp_all
  qed
  have "uq_rep ?q as xs"
    unfolding uq_rep_def using r sz nodes as by (auto simp: less_SucI)
  then show ?thesis using e r(6) sz by auto
qed

interpretation uqi: fifo "uq_Enqueue d" uq_Dequeue uq_content "\<lambda>_. None" uq_ok uq_fits
proof
  fix q :: "'a unbounded_queue" and n x
  assume "uq_ok q" "uq_fits (Suc n) q"
  then obtain as xs where r: "uq_rep q as xs" by (auto simp: uq_ok_def)
  from uq_Enqueue_rep [OF this \<open>uq_fits (Suc n) q\<close>, of d x] uq_content_rep [OF r]
  show "\<exists>q'. uq_Enqueue d x q = Some (True, q') \<and> uq_ok q' \<and> uq_fits n q' \<and> None = None
      \<and> uq_content q' = uq_content q @ [x]" by (auto simp: uq_ok_def dest: uq_content_rep)
next
  fix q :: "'a unbounded_queue" and n x xs
  assume a: "uq_ok q" "uq_fits n q" "uq_content q = x # xs"
  then obtain as ys where r: "uq_rep q as ys" by (auto simp: uq_ok_def)
  with a(3) have "ys = x # xs" using uq_content_rep by metis
  with r have r': "uq_rep q as (x # xs)" by simp
  then obtain b bs where "as = b # bs" by (cases as) (simp_all add: uq_rep_def)
  with r' uq_Dequeue_Cons [of q b bs x xs] obtain q' where
    q': "uq_Dequeue q = Some (Some x, q')" "uq_rep q' bs xs" "unat (uq_size q') < unat (uq_size q)"
    by auto
  have "uq_fits n q'" using a(2) q'(3) by (simp add: uq_fits_def)
  with q' uq_content_rep [OF q'(2)]
  show "\<exists>q'. uq_Dequeue q = Some (Some x, q') \<and> uq_ok q' \<and> uq_fits n q' \<and> None = None
      \<and> uq_content q' = xs" unfolding uq_ok_def by blast
next
  fix q :: "'a unbounded_queue"
  assume "uq_ok q" "uq_content q = []"
  then show "uq_Dequeue q = Some (None, q)"
    using uq_content_rep uq_Dequeue_Nil unfolding uq_ok_def by metis
qed (auto simp: uq_fits_def)

section \<open>UnboundedQueue: properties\<close>

text \<open>Every sequence of calls on a new UnboundedQueue returns without touching freed memory and
  answers like an unbounded FIFO list, as long as the size counter does not wrap.\<close>

theorem unbounded_queue_is_fifo:
  assumes "n_enqs ops < 2 ^ 64"
  shows "\<exists>q. q_run (uq_Enqueue d) uq_Dequeue (uq_create d) ops
             = Some (fst (fifo_run None [] ops), q)
           \<and> uq_content q = snd (fifo_run None [] ops)"
proof -
  have "uq_ok (uq_create d)" using uq_rep_create [of d] unfolding uq_ok_def by blast
  moreover have "uq_fits (n_enqs ops) (uq_create d)" using assms by (simp add: uq_fits_def uq_create_def)
  ultimately show ?thesis
    using uqi.run_refines [of "uq_create d" ops d] uq_content_rep [OF uq_rep_create, of d] by auto
qed

theorem unbounded_queue_is_fifo_witness:
  "\<exists>q. q_run (uq_Enqueue 0) uq_Dequeue (uq_create 0) [Enq 5, Enq 6, Deq, Deq, Deq, Enq (7 :: int)]
     = Some ([EnqAns True, EnqAns True, DeqAns (Some 5), DeqAns (Some 6), DeqAns None, EnqAns True], q)"
  using unbounded_queue_is_fifo [of "[Enq 5, Enq 6, Deq, Deq, Deq, Enq (7 :: int)]" 0] by auto

lemma uq_clear_nodes:
  assumes "distinct as" and "dom h = set as" and "as \<noteq> []"
    and "\<And>i. i < length as \<Longrightarrow> \<exists>n. h (as ! i) = Some n \<and> un_next n = next_in as i"
  shows "uq_clear_from (length as) (Some (hd as)) h = Some Map.empty"
  using assms
proof (induction as arbitrary: h)
  case (Cons a as)
  from Cons.prems(4) [of 0] obtain n where n: "h a = Some n"
    "un_next n = (if as = [] then None else Some (hd as))" by (auto simp: next_in_0 split: list.splits)
  show ?case
  proof (cases "as = []")
    case True
    with Cons.prems(2) have "h(a := None) = Map.empty" by (auto simp: fun_eq_iff dom_def)
    with n True show ?thesis by simp
  next
    case False
    have "\<exists>n. (h(a := None)) (as ! i) = Some n \<and> un_next n = next_in as i" if "i < length as" for i
    proof -
      have "as ! i \<noteq> a" using Cons.prems(1) that by auto
      with Cons.prems(4) [of "Suc i"] that show ?thesis by simp
    qed
    moreover have "dom (h(a := None)) = set as" using Cons.prems(1,2) by auto
    moreover have "distinct as" using Cons.prems(1) by simp
    ultimately have "uq_clear_from (length as) (Some (hd as)) (h(a := None)) = Some Map.empty"
      using Cons.IH False by metis
    with n False show ?thesis by simp
  qed
qed simp

text \<open>The reference counts of UnboundedQueue neither leak nor free twice: after any sequence of
  calls the heap holds exactly one node more than there are elements, and the destructor's walk
  frees every one of them.\<close>

theorem unbounded_queue_no_leak:
  assumes "n_enqs ops < 2 ^ 64"
  shows "\<exists>rs q. q_run (uq_Enqueue d) uq_Dequeue (uq_create d) ops = Some (rs, q) \<and>
           card (dom (uq_heap q)) = Suc (length (uq_content q)) \<and>
           uq_Clear (Suc (length (uq_content q))) q = Some Map.empty"
proof -
  have "uq_ok (uq_create d)" using uq_rep_create [of d] unfolding uq_ok_def by blast
  moreover have "uq_fits (n_enqs ops) (uq_create d)" using assms by (simp add: uq_fits_def uq_create_def)
  ultimately obtain rs q where q: "q_run (uq_Enqueue d) uq_Dequeue (uq_create d) ops = Some (rs, q)"
    "uq_ok q" using uqi.run_refines [of "uq_create d" ops d] by blast
  then obtain as xs where r: "uq_rep q as xs" by (auto simp: uq_ok_def)
  then have f: "distinct as" "dom (uq_heap q) = set as" "as \<noteq> []" "length as = Suc (length xs)"
    "uq_head q = hd as" by (simp_all add: uq_rep_def)
  have "uq_clear_from (length as) (Some (hd as)) (uq_heap q) = Some Map.empty"
    using uq_clear_nodes [OF f(1,2,3)] uq_rep_nth [OF r] by metis
  then have "uq_Clear (Suc (length (uq_content q))) q = Some Map.empty"
    by (simp only: uq_Clear_def f(4,5) uq_content_rep [OF r])
  moreover have "card (dom (uq_heap q)) = Suc (length (uq_content q))"
    by (simp only: f(2) distinct_card [OF f(1)] f(4) uq_content_rep [OF r])
  ultimately show ?thesis using q(1) by blast
qed

theorem unbounded_queue_no_leak_witness:
  "\<exists>rs q. q_run (uq_Enqueue 0) uq_Dequeue (uq_create 0) [Enq 5, Enq 6, Deq, Enq (7 :: int)] = Some (rs, q)
     \<and> card (dom (uq_heap q)) = Suc (length (uq_content q))"
  using unbounded_queue_no_leak [of "[Enq 5, Enq 6, Deq, Enq (7 :: int)]" 0] by auto

section \<open>ThreadSafeQueue\<close>

record 'a ts_queue =
  tsq_break_all_wait :: bool
  tsq_queue :: "'a list"

definition tsq_create :: "'a ts_queue" where
  "tsq_create = \<lparr>tsq_break_all_wait = False, tsq_queue = []\<rparr>"

definition tsq_Enqueue :: "'a \<Rightarrow> 'a ts_queue \<Rightarrow> (bool \<times> 'a ts_queue) option" where
  "tsq_Enqueue element q = Some (True, q\<lparr>tsq_queue := tsq_queue q @ [element]\<rparr>)"

definition tsq_Dequeue :: "'a ts_queue \<Rightarrow> ('a option \<times> 'a ts_queue) option" where
  "tsq_Dequeue q = (case tsq_queue q of
       [] \<Rightarrow> Some (None, q)
     | x # xs \<Rightarrow> Some (Some x, q\<lparr>tsq_queue := xs\<rparr>))"

text \<open>\<open>WaitDequeue\<close> blocks (\<open>None\<close>) until an element arrives or all waits are broken.\<close>

definition tsq_WaitDequeue :: "'a ts_queue \<Rightarrow> ('a option \<times> 'a ts_queue) option" where
  "tsq_WaitDequeue q =
     (if tsq_break_all_wait q \<or> tsq_queue q \<noteq> [] then
        (if tsq_break_all_wait q then Some (None, q)
         else Some (Some (hd (tsq_queue q)), q\<lparr>tsq_queue := tl (tsq_queue q)\<rparr>))
      else None)"

definition tsq_Size :: "'a ts_queue \<Rightarrow> nat" where
  "tsq_Size q = length (tsq_queue q)"

definition tsq_Empty :: "'a ts_queue \<Rightarrow> bool" where
  "tsq_Empty q = (tsq_queue q = [])"

definition tsq_BreakAllWait :: "'a ts_queue \<Rightarrow> 'a ts_queue" where
  "tsq_BreakAllWait q = q\<lparr>tsq_break_all_wait := True\<rparr>"

interpretation tsqi: fifo tsq_Enqueue tsq_Dequeue tsq_queue "\<lambda>_. None" "\<lambda>_. True" "\<lambda>_ _. True"
  by unfold_locales (auto simp: tsq_Enqueue_def tsq_Dequeue_def)

text \<open>ThreadSafeQueue answers every sequence of Enqueue and Dequeue calls like an unbounded FIFO
  list; its waiting Dequeue returns the same answer as Dequeue when an element is there, and gives
  up without one exactly when the waits are broken.\<close>

theorem thread_safe_queue_is_fifo:
  "(\<exists>q. q_run tsq_Enqueue tsq_Dequeue tsq_create ops = Some (fst (fifo_run None [] ops), q)
        \<and> tsq_queue q = snd (fifo_run None [] ops)) \<and>
   (tsq_WaitDequeue q = Some (None, q) \<longleftrightarrow> tsq_break_all_wait q) \<and>
   (tsq_break_all_wait q \<or> tsq_queue q = [] \<or> tsq_WaitDequeue q = tsq_Dequeue q)"
  using tsqi.run_refines [of tsq_create ops]
  by (auto simp: tsq_WaitDequeue_def tsq_Dequeue_def tsq_create_def split: list.splits)

end
