(* ===== verification/Hash_Maps.thy ===== *)
theory Hash_Maps
  imports Cyber_Prelude
begin

text \<open>
  The two fixed-size hash maps of cyber/base: \<open>AtomicHashMap\<close> (atomic_hash_map.h), whose
  buckets are chains sorted by key, and \<open>ConcurrentHashMap\<close> (concurrent_hash_map.h), whose
  buckets are locked lists in insertion order. Keys are 64-bit, as in every use in the code.
  The operations are those of one thread; theory Atomic_Map_Concurrent has a bucket of the first map
  under threads, and the read-write lock of the second map is in
  \<open>RW_Locks\<close>.

  What the two bucket classes promise the table above them is the locale \<open>bucket\<close>; the
  theorems on whole tables are proved once in it.
\<close>

section \<open>The table\<close>

record 'b hash_table =
  table :: "'b list"
  capacity :: u64
  mode_num :: u64

definition new_table :: "'b \<Rightarrow> u64 \<Rightarrow> 'b hash_table" where
  "new_table b table_size =
     \<lparr>table = replicate (unat table_size) b, capacity = table_size, mode_num = table_size - 1\<rparr>"

definition tab_index :: "'b hash_table \<Rightarrow> u64 \<Rightarrow> nat" where
  "tab_index t key = unat (key AND mode_num t)"

text \<open>\<open>table_[index].f(key)\<close>: \<open>None\<close> when the index is past the end of the array.\<close>

definition tab_read :: "('b \<Rightarrow> 'r) \<Rightarrow> u64 \<Rightarrow> 'b hash_table \<Rightarrow> 'r option" where
  "tab_read f key t =
     (let i = tab_index t key in if i < length (table t) then Some (f (table t ! i)) else None)"

definition tab_write :: "('b \<Rightarrow> 'b) \<Rightarrow> u64 \<Rightarrow> 'b hash_table \<Rightarrow> 'b hash_table option" where
  "tab_write f key t =
     (let i = tab_index t key in if i < length (table t)
      then Some (t\<lparr>table := (table t)[i := f (table t ! i)]\<rparr>) else None)"

fun tab_write_all ::
  "(u64 \<Rightarrow> 'v \<Rightarrow> 'b \<Rightarrow> 'b) \<Rightarrow> (u64 \<times> 'v) list \<Rightarrow> 'b hash_table \<Rightarrow> 'b hash_table option" where
  "tab_write_all f [] t = Some t"
| "tab_write_all f ((k, v) # kvs) t = do { t' \<leftarrow> tab_write (f k v) k t; tab_write_all f kvs t' }"

text \<open>The compile-time check \<open>(TableSize & (TableSize - 1)) == 0\<close>, for a table that is not empty.\<close>

definition pow2_size :: "u64 \<Rightarrow> bool" where
  "pow2_size n \<longleftrightarrow> n \<noteq> 0 \<and> n AND (n - 1) = 0"

definition tab_ok :: "'b hash_table \<Rightarrow> bool" where
  "tab_ok t \<longleftrightarrow> pow2_size (capacity t) \<and> mode_num t = capacity t - 1 \<and>
     length (table t) = unat (capacity t)"

lemma and_le_right: "unat ((a :: u64) AND b) \<le> unat b"
  using word_and_le1 [of a b] by (simp add: word_le_nat_alt)

lemma tab_index_lt: "tab_ok t \<Longrightarrow> tab_index t key < length (table t)"
proof -
  assume t: "tab_ok t"
  then have nz: "capacity t \<noteq> 0" by (simp add: tab_ok_def pow2_size_def)
  have "unat (key AND mode_num t) \<le> unat (mode_num t)" by (rule and_le_right)
  also have "\<dots> = unat (capacity t) - 1" using t nz by (simp add: tab_ok_def unat_minus_one)
  also have "\<dots> < unat (capacity t)" using nz by (simp add: unat_gt_0)
  finally show ?thesis using t by (simp add: tab_index_def tab_ok_def)
qed

lemma tab_ok_new: "pow2_size n \<Longrightarrow> tab_ok (new_table b n)"
  by (simp add: tab_ok_def new_table_def)

lemma tab_write_index [simp]: "tab_index (t\<lparr>table := x\<rparr>) key = tab_index t key"
  by (simp add: tab_index_def)

section \<open>What a bucket promises\<close>

locale bucket =
  fixes empty :: 'b
    and has :: "u64 \<Rightarrow> 'b \<Rightarrow> bool"
    and get :: "u64 \<Rightarrow> 'b \<Rightarrow> 'v option"
    and ins :: "u64 \<Rightarrow> 'v \<Rightarrow> 'b \<Rightarrow> 'b"
    and ok :: "'b \<Rightarrow> bool"
  assumes ok_empty: "ok empty"
    and get_empty: "get k empty = None"
    and ok_ins: "ok b \<Longrightarrow> ok (ins k v b)"
    and get_ins: "ok b \<Longrightarrow> get k' (ins k v b) = (if k' = k then Some v else get k' b)"
    and has_get: "ok b \<Longrightarrow> has k b \<longleftrightarrow> get k b \<noteq> None"
begin

definition buckets_ok :: "'b hash_table \<Rightarrow> bool" where
  "buckets_ok t \<longleftrightarrow> tab_ok t \<and> (\<forall>b \<in> set (table t). ok b)"

lemma ok_at: "buckets_ok t \<Longrightarrow> ok (table t ! tab_index t k)"
  by (simp add: buckets_ok_def tab_index_lt)

lemma new_ok: "pow2_size n \<Longrightarrow> buckets_ok (new_table empty n)"
  using ok_empty by (auto simp: buckets_ok_def tab_ok_new) (simp add: new_table_def)

lemma read_eq: "buckets_ok t \<Longrightarrow> tab_read f k t = Some (f (table t ! tab_index t k))"
  by (simp add: tab_read_def buckets_ok_def tab_index_lt Let_def)

lemma write_ok:
  assumes "buckets_ok t"
  shows "\<exists>t'. tab_write (ins k v) k t = Some t' \<and> buckets_ok t' \<and>
    (\<forall>k'. tab_read (get k') k' t' = (if k' = k then Some (Some v) else tab_read (get k') k' t))"
proof -
  let ?i = "tab_index t k" and ?t = "t\<lparr>table := (table t)[tab_index t k := ins k v (table t ! tab_index t k)]\<rparr>"
  have lt: "tab_index t k' < length (table t)" for k'
    using assms by (simp add: buckets_ok_def tab_index_lt)
  have ok': "ok (ins k v (table t ! ?i))" by (rule ok_ins [OF ok_at [OF assms]])
  have b: "buckets_ok ?t"
    using assms ok' set_update_subset_insert [of "table t" ?i "ins k v (table t ! ?i)"]
    by (auto simp: buckets_ok_def tab_ok_def)
  have "tab_read (get k') k' ?t = (if k' = k then Some (Some v) else tab_read (get k') k' t)" for k'
    using lt [of k'] get_ins [OF ok_at [OF assms, of k], where k' = k' and k = k and v = v]
    by (cases "tab_index t k' = ?i") (auto simp: tab_read_def Let_def nth_list_update)
  with b lt show ?thesis by (simp add: tab_write_def Let_def)
qed

lemma write_all_get:
  assumes "buckets_ok t"
  shows "\<exists>t'. tab_write_all ins kvs t = Some t' \<and> buckets_ok t' \<and>
    (\<forall>k. tab_read (get k) k t' =
      (case map_of (rev kvs) k of Some v \<Rightarrow> Some (Some v) | None \<Rightarrow> tab_read (get k) k t))"
  using assms
proof (induction kvs arbitrary: t)
  case (Cons kv kvs)
  obtain k v where kv: "kv = (k, v)" by (cases kv)
  from write_ok [OF Cons.prems, of k v] obtain t1 where t1: "tab_write (ins k v) k t = Some t1"
    "buckets_ok t1" "\<And>k'. tab_read (get k') k' t1 = (if k' = k then Some (Some v) else tab_read (get k') k' t)"
    by blast
  from Cons.IH [OF t1(2)] obtain t' where t': "tab_write_all ins kvs t1 = Some t'" "buckets_ok t'"
    "\<And>k. tab_read (get k) k t' =
      (case map_of (rev kvs) k of Some v \<Rightarrow> Some (Some v) | None \<Rightarrow> tab_read (get k) k t1)"
    by blast
  have "tab_read (get k') k' t' = (case map_of (rev (kv # kvs)) k' of
      Some v \<Rightarrow> Some (Some v) | None \<Rightarrow> tab_read (get k') k' t)" for k'
    by (cases "map_of (rev kvs) k'") (simp_all add: t'(3) t1(3) kv map_add_def)
  with t1(1) t'(1,2) show ?case by (simp add: kv)
qed simp

lemma table_is_map:
  assumes "pow2_size n"
  shows "\<exists>t. tab_write_all ins kvs (new_table empty n) = Some t \<and>
    (\<forall>k. tab_read (get k) k t = Some (map_of (rev kvs) k) \<and>
         tab_read (has k) k t = Some (k \<in> fst ` set kvs))"
proof -
  have new: "tab_read (get k) k (new_table empty n) = Some None" for k
  proof -
    have "table (new_table empty n) ! tab_index (new_table empty n) k = empty"
      using tab_index_lt [OF tab_ok_new [OF assms], of empty k]
      by (subst (asm) (1) new_table_def, subst (2) new_table_def) (simp add: new_table_def)
    then show ?thesis by (simp add: read_eq [OF new_ok [OF assms]] get_empty)
  qed
  obtain t where t: "tab_write_all ins kvs (new_table empty n) = Some t" "buckets_ok t"
    "\<And>k. tab_read (get k) k t = (case map_of (rev kvs) k of Some v \<Rightarrow> Some (Some v)
            | None \<Rightarrow> tab_read (get k) k (new_table empty n))"
    using write_all_get [OF new_ok [OF assms], of kvs] by blast
  have g: "tab_read (get k) k t = Some (map_of (rev kvs) k)" for k
    using t(3) [of k] new by (simp split: option.splits)
  have "tab_read (has k) k t = Some (k \<in> fst ` set kvs)" for k
    using g [of k] t(2) has_get [OF ok_at [OF t(2)], of k k] map_of_eq_None_iff [of "rev kvs" k]
    by (simp add: read_eq)
  with g t(1) show ?thesis by blast
qed

end

section \<open>AtomicHashMap buckets: chains sorted by key\<close>

type_synonym 'v chain = "(u64 \<times> 'v) list"

text \<open>
  \<open>Find\<close> walks the chain. It answers whether the key is there and how many entries lie before
  \<open>target\<close>: the entry before them all is \<open>prev\<close>, the list head when there is none.
\<close>

fun ahm_Find :: "u64 \<Rightarrow> 'v chain \<Rightarrow> bool \<times> nat" where
  "ahm_Find key [] = (False, 0)"
| "ahm_Find key ((k, v) # es) =
     (if k = key then (True, 0)
      else if key < k then (False, 0)
      else apsnd Suc (ahm_Find key es))"

fun ahm_Has :: "u64 \<Rightarrow> 'v chain \<Rightarrow> bool" where
  "ahm_Has key [] = False"
| "ahm_Has key ((k, v) # es) = (if k < key then ahm_Has key es else k = key)"

text \<open>
  \<open>Insert\<close> replaces the value of a key that exists, or links a new entry between \<open>prev\<close> and
  \<open>target\<close>. The three overloads differ only in how the value is built.
\<close>

definition ahm_Insert :: "u64 \<Rightarrow> 'v \<Rightarrow> 'v chain \<Rightarrow> 'v chain" where
  "ahm_Insert key v es =
     (case ahm_Find key es of
        (True, i) \<Rightarrow> es[i := (fst (es ! i), v)]
      | (False, i) \<Rightarrow> take i es @ (key, v) # drop i es)"

definition ahm_Get :: "u64 \<Rightarrow> 'v chain \<Rightarrow> 'v option" where
  "ahm_Get key es =
     (case ahm_Find key es of (True, i) \<Rightarrow> Some (snd (es ! i)) | (False, i) \<Rightarrow> None)"

definition chain_ok :: "'v chain \<Rightarrow> bool" where
  "chain_ok es \<longleftrightarrow> sorted_wrt (<) (map fst es)"

lemma ahm_Insert_simps:
  "ahm_Insert key v [] = [(key, v)]"
  "ahm_Insert key v ((k, w) # es) =
     (if k = key then (k, v) # es else if key < k then (key, v) # (k, w) # es
      else (k, w) # ahm_Insert key v es)"
  by (auto simp: ahm_Insert_def split: prod.splits bool.splits)

lemma ahm_Get_simps [simp]:
  "ahm_Get key [] = None"
  "ahm_Get key ((k, w) # es) = (if k = key then Some w else if key < k then None else ahm_Get key es)"
  by (auto simp: ahm_Get_def split: prod.splits bool.splits)

lemma ahm_Insert_keys: "fst ` set (ahm_Insert key v es) = insert key (fst ` set es)"
  by (induction es rule: ahm_Find.induct [of _ key])
     (auto simp: ahm_Insert_simps)

lemma ahm_Insert_ok: "chain_ok es \<Longrightarrow> chain_ok (ahm_Insert key v es)"
proof (induction es)
  case (Cons e es)
  obtain k w where e: "e = (k, w)" by (cases e)
  have "set (map fst (ahm_Insert key v es)) = insert key (fst ` set es)"
    using ahm_Insert_keys [of key v es] by simp
  with Cons show ?case by (auto simp: e chain_ok_def ahm_Insert_simps)
qed (simp add: chain_ok_def ahm_Insert_simps)

lemma ahm_Get_Insert:
  "chain_ok es \<Longrightarrow> ahm_Get k' (ahm_Insert key v es) = (if k' = key then Some v else ahm_Get k' es)"
  by (induction es) (auto simp: ahm_Insert_simps chain_ok_def)

lemma ahm_Has_Get: "ahm_Has key es \<longleftrightarrow> ahm_Get key es \<noteq> None"
  by (induction es rule: ahm_Has.induct [of _ key]) auto

interpretation ahm: bucket "[]" ahm_Has ahm_Get ahm_Insert chain_ok
  by unfold_locales
     (simp_all add: ahm_Insert_ok ahm_Get_Insert ahm_Has_Get, simp add: chain_ok_def)

section \<open>ConcurrentHashMap buckets: lists searched from the front\<close>

fun find_entry_for :: "u64 \<Rightarrow> 'v chain \<Rightarrow> nat option" where
  "find_entry_for key [] = None"
| "find_entry_for key ((k, v) # es) = (if k = key then Some 0 else map_option Suc (find_entry_for key es))"

definition chm_Has :: "u64 \<Rightarrow> 'v chain \<Rightarrow> bool" where
  "chm_Has key es = (find_entry_for key es \<noteq> None)"

definition chm_Get :: "u64 \<Rightarrow> 'v chain \<Rightarrow> 'v option" where
  "chm_Get key es = (case find_entry_for key es of None \<Rightarrow> None | Some i \<Rightarrow> Some (snd (es ! i)))"

definition chm_Insert :: "u64 \<Rightarrow> 'v \<Rightarrow> 'v chain \<Rightarrow> 'v chain" where
  "chm_Insert key v es = (case find_entry_for key es of
       None \<Rightarrow> es @ [(key, v)]
     | Some i \<Rightarrow> es[i := (fst (es ! i), v)])"

definition chm_Erase :: "u64 \<Rightarrow> 'v chain \<Rightarrow> 'v chain" where
  "chm_Erase key es = (case find_entry_for key es of
       None \<Rightarrow> es
     | Some i \<Rightarrow> take i es @ drop (Suc i) es)"

lemma chm_Insert_simps:
  "chm_Insert key v [] = [(key, v)]"
  "chm_Insert key v ((k, w) # es) = (if k = key then (k, v) # es else (k, w) # chm_Insert key v es)"
  by (auto simp: chm_Insert_def split: option.splits)

lemma chm_Erase_simps:
  "chm_Erase key [] = []"
  "chm_Erase key ((k, w) # es) = (if k = key then es else (k, w) # chm_Erase key es)"
  by (auto simp: chm_Erase_def split: option.splits)

lemma chm_Get_simps [simp]:
  "chm_Get key [] = None"
  "chm_Get key ((k, w) # es) = (if k = key then Some w else chm_Get key es)"
  by (auto simp: chm_Get_def split: option.splits)

lemma chm_Get_map_of: "chm_Get key es = map_of es key"
  by (induction es) auto

lemma chm_Has_map_of: "chm_Has key es \<longleftrightarrow> map_of es key \<noteq> None"
  by (induction es) (auto simp: chm_Has_def)

lemma map_of_chm_Insert: "map_of (chm_Insert key v es) = (map_of es)(key \<mapsto> v)"
  by (induction es) (auto simp: chm_Insert_simps)

lemma keys_chm_Insert:
  "map fst (chm_Insert key v es) = map fst es @ (if key \<in> fst ` set es then [] else [key])"
  by (induction es) (force simp: chm_Insert_simps image_iff)+

definition distinct_keys :: "'v chain \<Rightarrow> bool" where
  "distinct_keys es = distinct (map fst es)"

lemma map_of_chm_Erase: "distinct_keys es \<Longrightarrow> map_of (chm_Erase key es) = (map_of es)(key := None)"
proof (induction es)
  case (Cons e es)
  then show ?case
    by (cases e) (auto simp: chm_Erase_simps distinct_keys_def map_of_eq_None_iff fun_eq_iff image_iff)
qed (simp add: chm_Erase_simps)

interpretation chm: bucket "[]" chm_Has chm_Get chm_Insert distinct_keys
  by unfold_locales
     (auto simp: chm_Has_map_of chm_Get_map_of map_of_chm_Insert distinct_keys_def keys_chm_Insert)

section \<open>Properties\<close>

text \<open>After any sequence of Set calls on a new AtomicHashMap of a power-of-two size, Get of any
  key finds the value set last for it or nothing, Has agrees with it, and no call indexes outside
  the table.\<close>

theorem atomic_hash_map_is_map:
  assumes "pow2_size n"
  shows "\<exists>t. tab_write_all ahm_Insert kvs (new_table [] n) = Some t \<and>
    (\<forall>k. tab_read (ahm_Get k) k t = Some (map_of (rev kvs) k) \<and>
         tab_read (ahm_Has k) k t = Some (k \<in> fst ` set kvs))"
  using assms by (rule ahm.table_is_map)

theorem atomic_hash_map_is_map_witness:
  "\<exists>t. tab_write_all ahm_Insert [(3, 30), (131, 31), (3, 32)] (new_table [] 128) = Some t \<and>
       tab_read (ahm_Get 3) 3 t = Some (Some (32 :: int)) \<and> tab_read (ahm_Has 4) 4 t = Some False"
proof -
  have "pow2_size 128" by (simp add: pow2_size_def)
  from atomic_hash_map_is_map [OF this, of "[(3, 30), (131, 31), (3, 32 :: int)]"] show ?thesis by auto
qed

text \<open>The same for ConcurrentHashMap; and its Erase removes exactly the given key from a bucket
  whose keys are distinct, which Insert keeps.\<close>

theorem concurrent_hash_map_is_map:
  assumes "pow2_size n"
  shows "(\<exists>t. tab_write_all chm_Insert kvs (new_table [] n) = Some t \<and>
    (\<forall>k. tab_read (chm_Get k) k t = Some (map_of (rev kvs) k) \<and>
         tab_read (chm_Has k) k t = Some (k \<in> fst ` set kvs))) \<and>
    (distinct_keys es \<longrightarrow> distinct_keys (chm_Insert k v es) \<and>
       chm_Get k' (chm_Erase k es) = (if k' = k then None else chm_Get k' es))"
  using chm.table_is_map [OF assms, of kvs] chm.ok_ins [of es k v]
  by (simp add: chm_Get_map_of map_of_chm_Erase)

theorem concurrent_hash_map_is_map_witness:
  "chm_Get 5 (chm_Erase 5 [(4, 40), (5, 50)]) = (None :: int option) \<and>
   chm_Get 4 (chm_Erase 5 [(4, 40), (5, 50)]) = Some (40 :: int)"
proof -
  have p: "pow2_size 64" by (simp add: pow2_size_def)
  have d: "distinct_keys [(4, 40), (5, 50 :: int)]" by (simp add: distinct_keys_def)
  show ?thesis
    using concurrent_hash_map_is_map [OF p, of "[]" "[(4, 40), (5, 50 :: int)]" 5 0 5]
      concurrent_hash_map_is_map [OF p, of "[]" "[(4, 40), (5, 50 :: int)]" 5 0 4] d
    by (simp add: chm_Erase_simps)
qed

end
