(* ===== verification/Atomic_Map_Concurrent.thy ===== *)
theory Atomic_Map_Concurrent
  imports Hash_Maps
begin

text \<open>
  A bucket of \<open>AtomicHashMap\<close> (base/atomic_hash_map.h) under threads. Entries and values live on two heaps,
  whose addresses are used again once they were freed. A step is one access to what the threads share: the
  read of a \<open>next\<close> pointer (with the key of the entry it gives, which never changes), of a \<open>value_ptr\<close>, a
  store, an exchange or a \<open>delete\<close>. The calls that take effect are the labels of the steps; the sequential
  bucket of theory Hash_Maps is the specification.
\<close>

section \<open>The heap and the threads\<close>

record ah_entry =
  en_key :: u64
  en_val :: "nat option"
  en_next :: "nat option"

datatype 'v ah_op = AhInsert u64 'v nat nat | AhGet u64 | AhHas u64

fun ah_key :: "'v ah_op \<Rightarrow> u64" where
  "ah_key (AhInsert k v e nv) = k"
| "ah_key (AhGet k) = k"
| "ah_key (AhHas k) = k"

text \<open>Where a thread is: in \<open>Find\<close> (or \<open>Has\<close>) before it reads \<open>prev->next\<close>; behind a \<open>Find\<close> that found its
  target; before the exchange of the value; before the three deletes; behind a \<open>Find\<close> that found nothing,
  before it stores \<open>next\<close>; before the exchange of \<open>prev->next\<close>; and in \<open>Get\<close> with the value's pointer. An
  access to an entry that is not there is \<open>AhFault\<close>, one to a value \<open>AhDangling\<close>.\<close>

datatype 'v ah_pc =
    AhIdle
  | AhFind "'v ah_op" nat
  | AhHit "'v ah_op" nat
  | AhCas "'v ah_op" nat "nat option"
  | AhFreeOld "'v ah_op" "nat option"
  | AhFreeEntry "'v ah_op"
  | AhMiss "'v ah_op" nat "nat option"
  | AhLink "'v ah_op" nat "nat option"
  | AhFreeNew "'v ah_op"
  | AhGot u64 nat
  | AhFault
  | AhDangling

datatype 'v ah_label = Tau | Inserted u64 'v | Found u64 'v | Missed u64 | HasIs u64 bool | Got u64 'v

record 'v ah_bucket =
  ah_en :: "nat \<Rightarrow> ah_entry option"
  ah_va :: "nat \<Rightarrow> 'v option"
  ah_pc :: "nat \<Rightarrow> 'v ah_pc"

text \<open>The constructor: \<open>head_\<close> is the entry 0, whose key is 0 and whose value is null.\<close>

definition ah_new :: "'v ah_bucket" where
  "ah_new = \<lparr>ah_en = [0 \<mapsto> \<lparr>en_key = 0, en_val = None, en_next = None\<rparr>], ah_va = Map.empty, ah_pc = (\<lambda>_. AhIdle)\<rparr>"

section \<open>The steps\<close>

text \<open>What a thread does when \<open>Find\<close> or \<open>Has\<close> stops at an entry with the key, and when there is none.\<close>

fun ah_found :: "'v ah_op \<Rightarrow> nat \<Rightarrow> 'v ah_label \<times> 'v ah_pc" where
  "ah_found (AhHas k) target = (HasIs k True, AhIdle)"
| "ah_found op target = (Tau, AhHit op target)"

fun ah_missing :: "'v ah_op \<Rightarrow> nat \<Rightarrow> nat option \<Rightarrow> 'v ah_label \<times> 'v ah_pc" where
  "ah_missing (AhHas k) prev target = (HasIs k False, AhIdle)"
| "ah_missing (AhGet k) prev target = (Missed k, AhIdle)"
| "ah_missing (AhInsert k v e nv) prev target = (Tau, AhMiss (AhInsert k v e nv) prev target)"

definition ah_look :: "(nat \<Rightarrow> ah_entry option) \<Rightarrow> 'v ah_op \<Rightarrow> nat \<Rightarrow> 'v ah_label \<times> 'v ah_pc" where
  "ah_look en op prev =
     (case en prev of None \<Rightarrow> (Tau, AhFault) | Some p \<Rightarrow>
       (case en_next p of None \<Rightarrow> ah_missing op prev None
        | Some target \<Rightarrow>
          (case en target of None \<Rightarrow> (Tau, AhFault) | Some te \<Rightarrow>
             if en_key te = ah_key op then ah_found op target
             else if ah_key op < en_key te then ah_missing op prev (Some target)
             else (Tau, AhFind op target))))"

text \<open>A turn of a thread: the label, the heaps and where it is then. \<open>Found\<close> names the value behind the pointer
  \<open>Get\<close> loads, \<open>Got\<close> the value that is read through it later.\<close>

fun ah_turn :: "'v ah_pc \<Rightarrow> (nat \<Rightarrow> ah_entry option) \<Rightarrow> (nat \<Rightarrow> 'v option)
    \<Rightarrow> 'v ah_label \<times> (nat \<Rightarrow> ah_entry option) \<times> (nat \<Rightarrow> 'v option) \<times> 'v ah_pc" where
  "ah_turn (AhFind op prev) en va = (case ah_look en op prev of (l, pc) \<Rightarrow> (l, en, va, pc))"
| "ah_turn (AhHit (AhInsert k v e nv) target) en va =
     (case en target of None \<Rightarrow> (Tau, en, va, AhFault)
      | Some te \<Rightarrow> (Tau, en, va, AhCas (AhInsert k v e nv) target (en_val te)))"
| "ah_turn (AhHit (AhGet k) target) en va =
     (case en target of None \<Rightarrow> (Tau, en, va, AhFault)
      | Some te \<Rightarrow> (case en_val te of None \<Rightarrow> (Tau, en, va, AhFault)
          | Some p \<Rightarrow> (case va p of None \<Rightarrow> (Tau, en, va, AhFault) | Some v \<Rightarrow> (Found k v, en, va, AhGot k p))))"
| "ah_turn (AhCas (AhInsert k v e nv) target old) en va =
     (case en target of None \<Rightarrow> (Tau, en, va, AhFault)
      | Some te \<Rightarrow> if en_val te = old
          then (Inserted k v, en(target \<mapsto> te\<lparr>en_val := Some nv\<rparr>), va, AhFreeOld (AhInsert k v e nv) old)
          else (Tau, en, va, AhFind (AhInsert k v e nv) 0))"
| "ah_turn (AhFreeOld op old) en va =
     (case old of None \<Rightarrow> (Tau, en, va, AhFreeEntry op)
      | Some p \<Rightarrow> if va p = None then (Tau, en, va, AhFault) else (Tau, en, va(p := None), AhFreeEntry op))"
| "ah_turn (AhFreeEntry (AhInsert k v e nv)) en va =
     (case en e of None \<Rightarrow> (Tau, en, va, AhFault)
      | Some ee \<Rightarrow> (case en_val ee of None \<Rightarrow> (Tau, en(e := None), va, AhIdle)
          | Some p \<Rightarrow> if va p = None then (Tau, en, va, AhFault) else (Tau, en(e := None), va(p := None), AhIdle)))"
| "ah_turn (AhMiss (AhInsert k v e nv) prev target) en va =
     (case en e of None \<Rightarrow> (Tau, en, va, AhFault)
      | Some ee \<Rightarrow> (Tau, en(e \<mapsto> ee\<lparr>en_next := target\<rparr>), va, AhLink (AhInsert k v e nv) prev target))"
| "ah_turn (AhLink (AhInsert k v e nv) prev target) en va =
     (case en prev of None \<Rightarrow> (Tau, en, va, AhFault)
      | Some p \<Rightarrow> if en_next p = target
          then (Inserted k v, en(prev \<mapsto> p\<lparr>en_next := Some e\<rparr>), va, AhFreeNew (AhInsert k v e nv))
          else (Tau, en, va, AhFind (AhInsert k v e nv) 0))"
| "ah_turn (AhFreeNew (AhInsert k v e nv)) en va =
     (if va nv = None then (Tau, en, va, AhFault) else (Tau, en, va(nv := None), AhIdle))"
| "ah_turn (AhGot k p) en va =
     (case va p of None \<Rightarrow> (Tau, en, va, AhDangling) | Some v \<Rightarrow> (Got k v, en, va, AhIdle))"
| "ah_turn pc en va = (Tau, en, va, pc)"

definition ah_do :: "nat \<Rightarrow> 'v ah_bucket \<Rightarrow> 'v ah_label \<times> 'v ah_bucket" where
  "ah_do t s = (case ah_turn (ah_pc s t) (ah_en s) (ah_va s) of
     (l, en, va, pc) \<Rightarrow> (l, \<lparr>ah_en = en, ah_va = va, ah_pc = (ah_pc s)(t := pc)\<rparr>))"

text \<open>The start of \<open>Insert\<close>: the new entry with its value and the new value, at addresses that are free.\<close>

definition ah_begin :: "nat \<Rightarrow> u64 \<Rightarrow> 'v \<Rightarrow> nat \<Rightarrow> nat \<Rightarrow> nat \<Rightarrow> 'v ah_bucket \<Rightarrow> 'v ah_bucket" where
  "ah_begin t k v e p nv s = s\<lparr>ah_en := (ah_en s)(e \<mapsto> \<lparr>en_key = k, en_val = Some p, en_next = None\<rparr>),
     ah_va := (ah_va s)(p \<mapsto> v, nv \<mapsto> v), ah_pc := (ah_pc s)(t := AhFind (AhInsert k v e nv) 0)\<rparr>"

inductive ah_step :: "'v ah_bucket \<Rightarrow> 'v ah_label \<Rightarrow> 'v ah_bucket \<Rightarrow> bool" where
  ah_insert: "ah_pc s t = AhIdle \<Longrightarrow> ah_en s e = None \<Longrightarrow> ah_va s p = None \<Longrightarrow> ah_va s nv = None \<Longrightarrow> p \<noteq> nv \<Longrightarrow>
    ah_step s Tau (ah_begin t k v e p nv s)"
| ah_get: "ah_pc s t = AhIdle \<Longrightarrow> ah_step s Tau (s\<lparr>ah_pc := (ah_pc s)(t := AhFind (AhGet k) 0)\<rparr>)"
| ah_has: "ah_pc s t = AhIdle \<Longrightarrow> ah_step s Tau (s\<lparr>ah_pc := (ah_pc s)(t := AhFind (AhHas k) 0)\<rparr>)"
| ah_go: "ah_do t s = (l, s') \<Longrightarrow> ah_step s l s'"

text \<open>The runs, with the labels of their steps.\<close>

inductive ah_run :: "'v ah_label list \<Rightarrow> 'v ah_bucket \<Rightarrow> bool" where
  ah_run_new: "ah_run [] ah_new"
| ah_run_step: "ah_run ls s \<Longrightarrow> ah_step s l s' \<Longrightarrow> ah_run (ls @ [l]) s'"

section \<open>The specification\<close>

text \<open>The bucket of one thread, on which the labels happen at once; \<open>None\<close> when an answer is wrong.\<close>

fun ah_spec :: "'v ah_label \<Rightarrow> 'v chain \<Rightarrow> 'v chain option" where
  "ah_spec Tau c = Some c"
| "ah_spec (Inserted k v) c = Some (ahm_Insert k v c)"
| "ah_spec (Found k v) c = (if ahm_Get k c = Some v then Some c else None)"
| "ah_spec (Missed k) c = (if ahm_Get k c = None then Some c else None)"
| "ah_spec (HasIs k b) c = (if ahm_Has k c = b then Some c else None)"
| "ah_spec (Got k v) c = Some c"

fun ah_specs :: "'v ah_label list \<Rightarrow> 'v chain \<Rightarrow> 'v chain option" where
  "ah_specs [] c = Some c"
| "ah_specs (l # ls) c = do { c' \<leftarrow> ah_spec l c; ah_specs ls c' }"

lemma ah_specs_snoc: "ah_specs (ls @ [l]) c = do { c' \<leftarrow> ah_specs ls c; ah_spec l c' }"
  by (induction ls arbitrary: c) (auto split: bind_splits)

lemma ahm_Insert_new:
  "\<forall>(k', w) \<in> set ys. k' < k \<Longrightarrow> \<forall>(k', w) \<in> set zs. k < k' \<Longrightarrow> ahm_Insert k v (ys @ zs) = ys @ (k, v) # zs"
  by (induction ys; cases zs) (auto simp: ahm_Insert_simps)

lemma ahm_Insert_old: "\<forall>(k', w) \<in> set ys. k' < k \<Longrightarrow> ahm_Insert k v (ys @ (k, w) # zs) = ys @ (k, v) # zs"
  by (induction ys) (auto simp: ahm_Insert_simps)

lemma ahm_Get_old: "\<forall>(k', w) \<in> set ys. k' < k \<Longrightarrow> ahm_Get k (ys @ (k, w) # zs) = Some w"
  by (induction ys) auto

lemma ahm_Get_none: "\<forall>(k', w) \<in> set ys. k' < k \<Longrightarrow> \<forall>(k', w) \<in> set zs. k < k' \<Longrightarrow> ahm_Get k (ys @ zs) = None"
  by (induction ys; cases zs) auto

section \<open>The chain on the heap\<close>

definition nx :: "(nat \<Rightarrow> ah_entry option) \<Rightarrow> nat \<Rightarrow> nat option" where
  "nx en a = (case en a of None \<Rightarrow> None | Some e \<Rightarrow> en_next e)"

definition key_at :: "(nat \<Rightarrow> ah_entry option) \<Rightarrow> nat \<Rightarrow> u64" where
  "key_at en a = en_key (the (en a))"

definition val_at :: "(nat \<Rightarrow> ah_entry option) \<Rightarrow> (nat \<Rightarrow> 'v option) \<Rightarrow> nat \<Rightarrow> 'v" where
  "val_at en va a = the (va (the (en_val (the (en a)))))"

fun path :: "(nat \<Rightarrow> ah_entry option) \<Rightarrow> nat \<Rightarrow> nat list \<Rightarrow> bool" where
  "path en a [] \<longleftrightarrow> nx en a = None"
| "path en a (x # xs) \<longleftrightarrow> nx en a = Some x \<and> path en x xs"

fun seg :: "(nat \<Rightarrow> ah_entry option) \<Rightarrow> nat \<Rightarrow> nat list \<Rightarrow> bool" where
  "seg en a [] \<longleftrightarrow> True"
| "seg en a (x # xs) \<longleftrightarrow> nx en a = Some x \<and> seg en x xs"

lemma path_append: "path en a (ys @ zs) \<longleftrightarrow> seg en a ys \<and> path en (last (a # ys)) zs"
  by (induction ys arbitrary: a) auto

lemma path_cong: "(\<And>x. x \<in> set (a # xs) \<Longrightarrow> nx en' x = nx en x) \<Longrightarrow> path en' a xs = path en a xs"
proof (induction xs arbitrary: a)
  case (Cons x xs)
  have "path en' x xs = path en x xs" by (rule Cons.IH) (simp add: Cons.prems)
  with Cons.prems [of a] show ?case by simp
qed simp

lemma seg_cong: "(\<And>x. x \<in> set (butlast (a # xs)) \<Longrightarrow> nx en' x = nx en x) \<Longrightarrow> seg en' a xs = seg en a xs"
proof (induction xs arbitrary: a)
  case (Cons x xs)
  have "seg en' x xs = seg en x xs" by (rule Cons.IH) (simp add: Cons.prems)
  with Cons.prems [of a] show ?case by simp
qed simp

lemma path_fun: "path en a xs \<Longrightarrow> path en a ys \<Longrightarrow> xs = ys"
proof (induction xs arbitrary: a ys)
  case Nil
  then show ?case by (cases ys) auto
next
  case (Cons x xs)
  then show ?case by (cases ys) auto
qed

text \<open>The chain behind a head as the list of its keys and values.\<close>

definition ah_view :: "(nat \<Rightarrow> ah_entry option) \<Rightarrow> (nat \<Rightarrow> 'v option) \<Rightarrow> nat list \<Rightarrow> 'v chain" where
  "ah_view en va xs = map (\<lambda>a. (key_at en a, val_at en va a)) xs"

definition ah_abs :: "'v ah_bucket \<Rightarrow> 'v chain \<Rightarrow> bool" where
  "ah_abs s c \<longleftrightarrow> (\<exists>xs. path (ah_en s) 0 xs \<and> c = ah_view (ah_en s) (ah_va s) xs)"

section \<open>Who owns what\<close>

fun op_entry :: "'v ah_op \<Rightarrow> nat option" where
  "op_entry (AhInsert k v e nv) = Some e"
| "op_entry op = None"

fun op_new :: "'v ah_op \<Rightarrow> nat option" where
  "op_new (AhInsert k v e nv) = Some nv"
| "op_new op = None"

fun own_entry :: "'v ah_pc \<Rightarrow> nat option" where
  "own_entry (AhFind op prev) = op_entry op"
| "own_entry (AhHit op target) = op_entry op"
| "own_entry (AhCas op target old) = op_entry op"
| "own_entry (AhFreeOld op old) = op_entry op"
| "own_entry (AhFreeEntry op) = op_entry op"
| "own_entry (AhMiss op prev target) = op_entry op"
| "own_entry (AhLink op prev target) = op_entry op"
| "own_entry pc = None"

fun own_new :: "'v ah_pc \<Rightarrow> nat option" where
  "own_new (AhFind op prev) = op_new op"
| "own_new (AhHit op target) = op_new op"
| "own_new (AhCas op target old) = op_new op"
| "own_new (AhMiss op prev target) = op_new op"
| "own_new (AhLink op prev target) = op_new op"
| "own_new (AhFreeNew op) = op_new op"
| "own_new pc = None"

fun own_old :: "'v ah_pc \<Rightarrow> nat option" where
  "own_old (AhFreeOld op old) = old"
| "own_old pc = None"

datatype eowner = Linked | PrivOf nat

datatype vowner = InEntry nat | NewOf nat | OldOf nat

definition ent_inv :: "(nat \<Rightarrow> ah_entry option) \<Rightarrow> (nat \<Rightarrow> 'v ah_pc) \<Rightarrow> nat list \<Rightarrow> (nat \<Rightarrow> eowner option) \<Rightarrow> bool" where
  "ent_inv en pc xs eo \<longleftrightarrow> (\<forall>a. en a = None \<longleftrightarrow> eo a = None) \<and> (\<forall>a. eo a = Some Linked \<longleftrightarrow> a \<in> set (0 # xs))
     \<and> (\<forall>a t. eo a = Some (PrivOf t) \<longleftrightarrow> own_entry (pc t) = Some a)
     \<and> (\<forall>a e. en a = Some e \<longrightarrow> (en_val e = None \<longleftrightarrow> a = 0))"

definition val_inv :: "(nat \<Rightarrow> ah_entry option) \<Rightarrow> (nat \<Rightarrow> 'v option) \<Rightarrow> (nat \<Rightarrow> 'v ah_pc) \<Rightarrow> (nat \<Rightarrow> vowner option) \<Rightarrow> bool" where
  "val_inv en va pc vo \<longleftrightarrow> (\<forall>p. va p = None \<longleftrightarrow> vo p = None)
     \<and> (\<forall>p a. vo p = Some (InEntry a) \<longleftrightarrow> (\<exists>e. en a = Some e \<and> en_val e = Some p))
     \<and> (\<forall>p t. vo p = Some (NewOf t) \<longleftrightarrow> own_new (pc t) = Some p)
     \<and> (\<forall>p t. vo p = Some (OldOf t) \<longleftrightarrow> own_old (pc t) = Some p)"

definition chain_inv :: "(nat \<Rightarrow> ah_entry option) \<Rightarrow> nat list \<Rightarrow> bool" where
  "chain_inv en xs \<longleftrightarrow> path en 0 xs \<and> distinct (0 # xs) \<and> sorted_wrt (<) (map (key_at en) xs)"

text \<open>What a thread may rely on where it is.\<close>

definition before :: "(nat \<Rightarrow> ah_entry option) \<Rightarrow> nat list \<Rightarrow> u64 \<Rightarrow> nat \<Rightarrow> bool" where
  "before en xs k a \<longleftrightarrow> a = 0 \<or> a \<in> set xs \<and> key_at en a < k"

definition behind :: "(nat \<Rightarrow> ah_entry option) \<Rightarrow> nat list \<Rightarrow> u64 \<Rightarrow> nat option \<Rightarrow> bool" where
  "behind en xs k target \<longleftrightarrow> (case target of None \<Rightarrow> True | Some a \<Rightarrow> a \<in> set xs \<and> k < key_at en a)"

fun fresh_ok :: "(nat \<Rightarrow> ah_entry option) \<Rightarrow> (nat \<Rightarrow> 'v option) \<Rightarrow> 'v ah_op \<Rightarrow> bool" where
  "fresh_ok en va (AhInsert k v e nv) \<longleftrightarrow> (\<exists>ee p. en e = Some ee \<and> en_key ee = k \<and> en_val ee = Some p \<and> va p = Some v)"
| "fresh_ok en va op \<longleftrightarrow> True"

fun new_ok :: "(nat \<Rightarrow> 'v option) \<Rightarrow> 'v ah_op \<Rightarrow> bool" where
  "new_ok va (AhInsert k v e nv) \<longleftrightarrow> va nv = Some v"
| "new_ok va op \<longleftrightarrow> True"

fun ah_local :: "(nat \<Rightarrow> ah_entry option) \<Rightarrow> (nat \<Rightarrow> 'v option) \<Rightarrow> nat list \<Rightarrow> 'v ah_pc \<Rightarrow> bool" where
  "ah_local en va xs (AhFind op prev) \<longleftrightarrow> before en xs (ah_key op) prev \<and> fresh_ok en va op \<and> new_ok va op"
| "ah_local en va xs (AhHit op target) \<longleftrightarrow> target \<in> set xs \<and> key_at en target = ah_key op \<and> fresh_ok en va op \<and> new_ok va op
     \<and> (case op of AhHas k \<Rightarrow> False | _ \<Rightarrow> True)"
| "ah_local en va xs (AhCas op target old) \<longleftrightarrow> target \<in> set xs \<and> key_at en target = ah_key op \<and> fresh_ok en va op \<and> new_ok va op
     \<and> op_entry op \<noteq> None \<and> old \<noteq> None"
| "ah_local en va xs (AhFreeOld op old) \<longleftrightarrow> fresh_ok en va op \<and> op_entry op \<noteq> None \<and> old \<noteq> None"
| "ah_local en va xs (AhFreeEntry op) \<longleftrightarrow> fresh_ok en va op \<and> op_entry op \<noteq> None"
| "ah_local en va xs (AhMiss op prev target) \<longleftrightarrow> before en xs (ah_key op) prev \<and> behind en xs (ah_key op) target
     \<and> fresh_ok en va op \<and> new_ok va op \<and> op_entry op \<noteq> None"
| "ah_local en va xs (AhLink op prev target) \<longleftrightarrow> before en xs (ah_key op) prev \<and> behind en xs (ah_key op) target
     \<and> fresh_ok en va op \<and> new_ok va op \<and> op_entry op \<noteq> None \<and> nx en (the (op_entry op)) = target"
| "ah_local en va xs (AhFreeNew op) \<longleftrightarrow> new_ok va op \<and> op_entry op \<noteq> None"
| "ah_local en va xs AhFault \<longleftrightarrow> False"
| "ah_local en va xs pc \<longleftrightarrow> True"

definition ah_ok :: "(nat \<Rightarrow> ah_entry option) \<Rightarrow> (nat \<Rightarrow> 'v option) \<Rightarrow> (nat \<Rightarrow> 'v ah_pc) \<Rightarrow> nat list
    \<Rightarrow> (nat \<Rightarrow> vowner option) \<Rightarrow> (nat \<Rightarrow> eowner option) \<Rightarrow> bool" where
  "ah_ok en va pc xs vo eo \<longleftrightarrow> chain_inv en xs \<and> ent_inv en pc xs eo \<and> val_inv en va pc vo \<and> (\<forall>t. ah_local en va xs (pc t))"

text \<open>A thread keeps what it relies on when the others leave the keys, its entry and its values alone.\<close>

lemma before_mono:
  "before en xs k a \<Longrightarrow> set xs \<subseteq> set xs' \<Longrightarrow> (\<And>a. a \<in> set xs \<Longrightarrow> key_at en' a = key_at en a) \<Longrightarrow> before en' xs' k a"
  by (auto simp: before_def)

lemma behind_mono:
  "behind en xs k a \<Longrightarrow> set xs \<subseteq> set xs' \<Longrightarrow> (\<And>a. a \<in> set xs \<Longrightarrow> key_at en' a = key_at en a) \<Longrightarrow> behind en' xs' k a"
  by (auto simp: behind_def split: option.splits)

lemma fresh_ok_frame:
  assumes "fresh_ok en va op" and "\<And>e. op_entry op = Some e \<Longrightarrow> en' e = en e"
    and "\<And>e ee p. op_entry op = Some e \<Longrightarrow> en e = Some ee \<Longrightarrow> en_val ee = Some p \<Longrightarrow> va' p = va p"
  shows "fresh_ok en' va' op"
  using assms by (cases op) auto

lemma new_ok_frame: "new_ok va op \<Longrightarrow> (\<And>p. op_new op = Some p \<Longrightarrow> va' p = va p) \<Longrightarrow> new_ok va' op"
  by (cases op) auto

lemma ah_local_frame:
  assumes l: "ah_local en va xs pc" and xs: "set xs \<subseteq> set xs'" and k: "\<And>a. a \<in> set xs \<Longrightarrow> key_at en' a = key_at en a"
    and e: "\<And>e. own_entry pc = Some e \<Longrightarrow> en' e = en e"
    and v: "\<And>e ee p. own_entry pc = Some e \<Longrightarrow> en e = Some ee \<Longrightarrow> en_val ee = Some p \<Longrightarrow> va' p = va p"
    and n: "\<And>p. own_new pc = Some p \<Longrightarrow> va' p = va p"
  shows "ah_local en' va' xs' pc"
proof -
  note b = before_mono [OF _ xs k] and h = behind_mono [OF _ xs k]
  show ?thesis
  proof (cases pc)
    case (AhFind op prev)
    then show ?thesis using l e v n b by (auto intro: fresh_ok_frame new_ok_frame)
  next
    case (AhHit op target)
    then show ?thesis using l e v n xs k by (auto intro: fresh_ok_frame new_ok_frame split: ah_op.splits)
  next
    case (AhCas op target old)
    then show ?thesis using l e v n xs k by (auto intro: fresh_ok_frame new_ok_frame)
  next
    case (AhFreeOld op old)
    then show ?thesis using l e v by (auto intro: fresh_ok_frame)
  next
    case (AhFreeEntry op)
    then show ?thesis using l e v by (auto intro: fresh_ok_frame)
  next
    case (AhMiss op prev target)
    then show ?thesis using l e v n b h by (auto intro: fresh_ok_frame new_ok_frame)
  next
    case (AhLink op prev target)
    then show ?thesis using l e v n b h by (auto intro: fresh_ok_frame new_ok_frame simp: nx_def)
  next
    case (AhFreeNew op)
    then show ?thesis using l n by (auto intro: new_ok_frame)
  qed (use l in auto)
qed

section \<open>Where Find stops\<close>

lemma chain_at:
  assumes c: "chain_inv en xs" and b: "before en xs k prev"
  obtains ys zs where "xs = ys @ zs" and "last (0 # ys) = prev" and "\<forall>a \<in> set ys. key_at en a < k"
    and "nx en prev = (case zs of [] \<Rightarrow> None | z # _ \<Rightarrow> Some z)" and "seg en 0 ys" and "path en prev zs"
proof -
  have "\<exists>ys zs. xs = ys @ zs \<and> last (0 # ys) = prev \<and> (\<forall>a \<in> set ys. key_at en a < k)"
  proof (cases "prev = 0")
    case True
    then show ?thesis by (intro exI [of _ "[]"] exI [of _ xs]) simp
  next
    case False
    with b have p: "prev \<in> set xs" "key_at en prev < k" by (auto simp: before_def)
    from p(1) obtain us zs where xs: "xs = us @ prev # zs" by (auto dest: split_list)
    have "\<forall>a \<in> set us. key_at en a < key_at en prev"
      using c by (auto simp: chain_inv_def xs sorted_wrt_append)
    with p(2) have "\<forall>a \<in> set (us @ [prev]). key_at en a < k" by auto
    then show ?thesis by (intro exI [of _ "us @ [prev]"] exI [of _ zs]) (simp add: xs)
  qed
  then obtain ys zs where s: "xs = ys @ zs" "last (0 # ys) = prev" "\<forall>a \<in> set ys. key_at en a < k" by blast
  from c have "path en 0 (ys @ zs)" by (simp add: chain_inv_def s(1))
  then have p: "seg en 0 ys" "path en prev zs" by (simp_all only: path_append s(2))
  then have "nx en prev = (case zs of [] \<Rightarrow> None | z # _ \<Rightarrow> Some z)" by (cases zs) simp_all
  with s p show ?thesis using that by blast
qed

lemma chain_behind:
  "chain_inv en (ys @ z # zs) \<Longrightarrow> k < key_at en z \<Longrightarrow> \<forall>a \<in> set (z # zs). k < key_at en a"
  by (auto simp: chain_inv_def sorted_wrt_append dest: order_less_trans)

lemma view_less: "\<forall>a \<in> set ys. key_at en a < k \<Longrightarrow> \<forall>(k', w) \<in> set (ah_view en va ys). k' < k"
  by (auto simp: ah_view_def)

lemma view_greater: "\<forall>a \<in> set ys. k < key_at en a \<Longrightarrow> \<forall>(k', w) \<in> set (ah_view en va ys). k < k'"
  by (auto simp: ah_view_def)

lemma view_append: "ah_view en va (ys @ zs) = ah_view en va ys @ ah_view en va zs"
  by (simp add: ah_view_def)

lemma view_found:
  assumes c: "chain_inv en xs" and t: "target \<in> set xs" and k: "key_at en target = k"
  obtains ys zs where "xs = ys @ target # zs" and "\<forall>a \<in> set ys. key_at en a < k"
    and "ahm_Get k (ah_view en va xs) = Some (val_at en va target)"
proof -
  from t obtain ys zs where xs: "xs = ys @ target # zs" by (auto dest: split_list)
  have less: "\<forall>a \<in> set ys. key_at en a < k" using c k by (auto simp: chain_inv_def xs sorted_wrt_append)
  have "ah_view en va xs = ah_view en va ys @ (k, val_at en va target) # ah_view en va zs"
    by (simp add: xs ah_view_def k)
  with ahm_Get_old [OF view_less [OF less, of va]] less xs show ?thesis using that by simp
qed

lemma look_ok:
  assumes c: "chain_inv en xs" and e: "ent_inv en pc xs eo" and l: "ah_local en va xs (AhFind op prev)"
    and look: "ah_look en op prev = (lab, pc')"
  shows "ah_local en va xs pc' \<and> own_entry pc' = op_entry op \<and> own_new pc' = op_new op \<and> own_old pc' = None
    \<and> ah_spec lab (ah_view en va xs) = Some (ah_view en va xs)"
proof -
  let ?k = "ah_key op"
  from l have b: "before en xs ?k prev" and f: "fresh_ok en va op" "new_ok va op" by simp_all
  from chain_at [OF c b] obtain ys zs where s: "xs = ys @ zs" "\<forall>a \<in> set ys. key_at en a < ?k"
    "nx en prev = (case zs of [] \<Rightarrow> None | z # _ \<Rightarrow> Some z)" by blast
  have live: "en a \<noteq> None" if "a \<in> set (0 # xs)" for a
    using e that unfolding ent_inv_def by (metis option.distinct(1))
  from b have "prev \<in> set (0 # xs)" by (auto simp: before_def)
  from live [OF this] obtain p where p: "en prev = Some p" by blast
  have nxt: "en_next p = (case zs of [] \<Rightarrow> None | z # _ \<Rightarrow> Some z)" using s(3) by (simp add: nx_def p)
  show ?thesis
  proof (cases zs)
    case Nil
    have "ahm_Get ?k (ah_view en va xs) = None"
      using ahm_Get_none [OF view_less [OF s(2), of va], of "[]"] by (simp add: s(1) Nil)
    then show ?thesis using look nxt b f
      by (cases op) (auto simp: ah_look_def p Nil ahm_Has_Get behind_def)
  next
    case (Cons z zs')
    have z: "z \<in> set xs" by (simp add: s(1) Cons)
    then obtain te where te: "en z = Some te" using live [of z] by auto
    have key: "key_at en z = en_key te" by (simp add: key_at_def te)
    consider (eq) "en_key te = ?k" | (gt) "?k < en_key te" | (lt) "en_key te < ?k" by (rule linorder_cases)
    then show ?thesis
    proof cases
      case eq
      have kz: "key_at en z = ?k" by (simp add: key eq)
      have "ahm_Get ?k (ah_view en va xs) = Some (val_at en va z)"
        by (rule view_found [OF c z kz, of va])
      then show ?thesis using look nxt b f z eq key
        by (cases op) (auto simp: ah_look_def p te Cons ahm_Has_Get)
    next
      case gt
      have "\<forall>a \<in> set zs. ?k < key_at en a" using chain_behind [of en ys z zs' ?k] c gt by (simp add: key s(1) Cons)
      from ahm_Get_none [OF view_less [OF s(2), of va] view_greater [OF this, of va]]
      have "ahm_Get ?k (ah_view en va xs) = None" by (simp add: s(1) view_append)
      moreover from gt have ne: "en_key te \<noteq> ?k" by auto
      moreover have "ah_look en op prev = ah_missing op prev (Some z)"
        using nxt gt ne by (simp add: ah_look_def p te Cons)
      ultimately show ?thesis using look b f z gt key
        by (cases op) (auto simp: ahm_Has_Get behind_def)
    next
      case lt
      then have "\<not> ?k < en_key te" "en_key te \<noteq> ?k" by auto
      then show ?thesis using look nxt f z lt key
        by (auto simp: ah_look_def p te Cons before_def)
    qed
  qed
qed

section \<open>Every step keeps the owners\<close>

lemma ent_live: "ent_inv en pc xs eo \<Longrightarrow> a \<in> set (0 # xs) \<Longrightarrow> en a \<noteq> None"
  unfolding ent_inv_def by (metis option.distinct(1))

lemma ent_priv: "ent_inv en pc xs eo \<Longrightarrow> own_entry (pc u) = Some a \<Longrightarrow> a \<notin> set (0 # xs) \<and> en a \<noteq> None"
  unfolding ent_inv_def by (metis eowner.distinct(1) option.distinct(1) option.inject)

lemma ent_unique: "ent_inv en pc xs eo \<Longrightarrow> own_entry (pc u) = Some a \<Longrightarrow> own_entry (pc t) = Some a \<Longrightarrow> u = t"
  unfolding ent_inv_def by (metis eowner.inject option.inject)

lemma val_entry:
  assumes "val_inv en va pc vo" and "en a = Some e" and "en_val e = Some p"
  shows "vo p = Some (InEntry a)" and "va p \<noteq> None" and "own_new (pc u) \<noteq> Some p" and "own_old (pc u) \<noteq> Some p"
proof -
  from assms show v: "vo p = Some (InEntry a)" unfolding val_inv_def by blast
  with assms(1) show "va p \<noteq> None" "own_new (pc u) \<noteq> Some p" "own_old (pc u) \<noteq> Some p"
    unfolding val_inv_def by (metis option.distinct(1), metis option.inject vowner.distinct(1), metis option.inject vowner.distinct(3))
qed

lemma val_new:
  assumes "val_inv en va pc vo" and "own_new (pc t) = Some p"
  shows "vo p = Some (NewOf t)" and "va p \<noteq> None" and "own_new (pc u) = Some p \<Longrightarrow> u = t" and "own_old (pc u) \<noteq> Some p"
proof -
  from assms show v: "vo p = Some (NewOf t)" unfolding val_inv_def by blast
  with assms(1) show "va p \<noteq> None" "own_new (pc u) = Some p \<Longrightarrow> u = t" "own_old (pc u) \<noteq> Some p"
    unfolding val_inv_def by (metis option.distinct(1), metis option.inject vowner.inject(2), metis option.inject vowner.distinct(5))
qed

lemma val_old:
  assumes "val_inv en va pc vo" and "own_old (pc t) = Some p"
  shows "vo p = Some (OldOf t)" and "va p \<noteq> None"
proof -
  from assms show v: "vo p = Some (OldOf t)" unfolding val_inv_def by blast
  with assms(1) show "va p \<noteq> None" unfolding val_inv_def by (metis option.distinct(1))
qed

lemma ah_okD:
  assumes "ah_ok en va pc xs vo eo"
  shows "chain_inv en xs" and "ent_inv en pc xs eo" and "val_inv en va pc vo" and "ah_local en va xs (pc t)"
  using assms by (auto simp: ah_ok_def)

text \<open>To keep the others: no key changes, and neither do the entries of others nor values that are neither the
  thread's own nor freed.\<close>

lemma ah_ok_others:
  assumes ok: "ah_ok en va pc xs vo eo" and xs: "set xs \<subseteq> set xs'"
    and k: "\<And>a. a \<in> set xs \<Longrightarrow> key_at en' a = key_at en a"
    and e: "\<And>u a. u \<noteq> t \<Longrightarrow> own_entry (pc u) = Some a \<Longrightarrow> en' a = en a"
    and v: "\<And>p. va' p \<noteq> va p \<Longrightarrow> vo p = None \<or> vo p = Some (NewOf t) \<or> vo p = Some (OldOf t)
        \<or> (\<exists>a. vo p = Some (InEntry a) \<and> own_entry (pc t) = Some a)"
    and c: "chain_inv en' xs'" "ent_inv en' (pc(t := pc')) xs' eo'" "val_inv en' va' (pc(t := pc')) vo'"
    and l: "ah_local en' va' xs' pc'"
  shows "ah_ok en' va' (pc(t := pc')) xs' vo' eo'"
proof -
  note ok = ah_okD [OF ok]
  have "ah_local en' va' xs' (pc u)" if u: "u \<noteq> t" for u
  proof (rule ah_local_frame [OF ok(4) xs k])
    fix a assume a: "own_entry (pc u) = Some a"
    then show "en' a = en a" by (rule e [OF u])
    fix ee p assume p: "en a = Some ee" "en_val ee = Some p"
    have "vo p = Some (InEntry a)" by (rule val_entry(1) [OF ok(3) p])
    then show "va' p = va p" using v [of p] a ent_unique [OF ok(2) a, of t] u by auto
  next
    fix p assume "own_new (pc u) = Some p"
    then have "vo p = Some (NewOf u)" by (rule val_new(1) [OF ok(3)])
    then show "va' p = va p" using v [of p] u by auto
  qed
  with c l show ?thesis by (simp add: ah_ok_def)
qed

lemma ok_move:
  assumes ok: "ah_ok en va pc xs vo eo" and o: "own_entry pc' = own_entry (pc t)" "own_new pc' = own_new (pc t)" "own_old pc' = own_old (pc t)"
    and l: "ah_local en va xs pc'"
  shows "ah_ok en va (pc(t := pc')) xs vo eo"
  using ah_okD(1-3) [OF ok] o
  by (intro ah_ok_others [OF ok _ _ _ _ _ _ _ l]) (auto simp: ent_inv_def val_inv_def)

lemma ok_store:
  assumes ok: "ah_ok en va pc xs vo eo" and t: "pc t = AhMiss (AhInsert k v e nv) prev target" and e: "en e = Some ee"
  shows "ah_ok (en(e \<mapsto> ee\<lparr>en_next := target\<rparr>)) va (pc(t := AhLink (AhInsert k v e nv) prev target)) xs vo eo
    \<and> ah_view (en(e \<mapsto> ee\<lparr>en_next := target\<rparr>)) va xs = ah_view en va xs"
proof -
  let ?en = "en(e \<mapsto> ee\<lparr>en_next := target\<rparr>)"
  note o = ah_okD [OF ok]
  have own: "own_entry (pc t) = Some e" by (simp add: t)
  from ent_priv [OF o(2) own] have e0: "e \<notin> set (0 # xs)" by simp
  from o(2) own have eo: "eo e = Some (PrivOf t)" by (simp add: ent_inv_def)
  have key: "key_at ?en a = key_at en a" for a by (simp add: key_at_def e)
  have "nx ?en a = nx en a" if "a \<in> set (0 # xs)" for a using e0 that by (auto simp: nx_def)
  then have "path ?en 0 xs" using o(1) path_cong [of 0 xs ?en en] by (simp add: chain_inv_def)
  then have c: "chain_inv ?en xs" using o(1) by (simp add: chain_inv_def key fun_eq_iff cong: map_cong)
  have l: "ah_local ?en va xs (AhLink (AhInsert k v e nv) prev target)"
    using o(4) [of t] before_mono [OF _ subset_refl, of en xs k prev ?en] behind_mono [OF _ subset_refl, of en xs k target ?en]
    by (auto simp: t key nx_def e)
  have "ah_ok ?en va (pc(t := AhLink (AhInsert k v e nv) prev target)) xs vo eo"
  proof (rule ah_ok_others [OF ok _ _ _ _ c _ _ l])
    show "?en a = en a" if "u \<noteq> t" "own_entry (pc u) = Some a" for u a
      using ent_unique [OF o(2) _ own, of u] that by auto
    have dom: "(?en a = None) = (en a = None)" for a by (simp add: e)
    show "ent_inv ?en (pc(t := AhLink (AhInsert k v e nv) prev target)) xs eo"
      using o(2) e t unfolding ent_inv_def dom by (auto split: if_splits)
    show "val_inv ?en va (pc(t := AhLink (AhInsert k v e nv) prev target)) vo"
      using o(3) e t by (auto simp: val_inv_def split: if_splits)
  qed (simp_all add: key)
  moreover have "ah_view ?en va xs = ah_view en va xs"
    by (simp add: ah_view_def key val_at_def e)
  ultimately show ?thesis by simp
qed

text \<open>The exchange that links the new entry.\<close>

lemma ok_link:
  assumes ok: "ah_ok en va pc xs vo eo" and t: "pc t = AhLink (AhInsert k v e nv) prev target"
    and p: "en prev = Some pe" and nxt: "en_next pe = target"
  shows "\<exists>xs' eo'. ah_ok (en(prev \<mapsto> pe\<lparr>en_next := Some e\<rparr>)) va (pc(t := AhFreeNew (AhInsert k v e nv))) xs' vo eo'
    \<and> ah_view (en(prev \<mapsto> pe\<lparr>en_next := Some e\<rparr>)) va xs' = ahm_Insert k v (ah_view en va xs)"
proof -
  let ?en = "en(prev \<mapsto> pe\<lparr>en_next := Some e\<rparr>)"
  note o = ah_okD [OF ok]
  have own: "own_entry (pc t) = Some e" by (simp add: t)
  from ent_priv [OF o(2) own] have e0: "e \<notin> set (0 # xs)" by simp
  from o(2) own have eo: "eo e = Some (PrivOf t)" by (simp add: ent_inv_def)
  from o(4) [of t] have b: "before en xs k prev" and h: "behind en xs k target" and f: "fresh_ok en va (AhInsert k v e nv)"
    and n: "va nv = Some v" and ne: "nx en e = target" by (simp_all add: t)
  from f obtain ee q where ee: "en e = Some ee" "en_key ee = k" "en_val ee = Some q" "va q = Some v" by auto
  from chain_at [OF o(1) b] obtain ys zs where s: "xs = ys @ zs" "last (0 # ys) = prev" "\<forall>a \<in> set ys. key_at en a < k"
    "nx en prev = (case zs of [] \<Rightarrow> None | z # _ \<Rightarrow> Some z)" "seg en 0 ys" "path en prev zs" by blast
  let ?xs = "ys @ e # zs"
  have key: "key_at ?en a = key_at en a" for a by (simp add: key_at_def p)
  have val: "val_at ?en va a = val_at en va a" for a by (simp add: val_at_def p)
  have tz: "target = (case zs of [] \<Rightarrow> None | z # _ \<Rightarrow> Some z)" using s(4) nxt by (simp add: nx_def p)
  have d: "distinct (0 # ys @ zs)" using o(1) by (simp add: chain_inv_def s(1))
  have pe: "prev \<in> set (0 # ys)" using s(2) last_in_set [of "0 # ys"] by simp
  have greater: "\<forall>a \<in> set zs. k < key_at en a"
  proof (cases zs)
    case (Cons z zs')
    then show ?thesis using chain_behind [of en ys z zs' k] o(1) h tz by (simp add: s(1) behind_def)
  qed simp
  have "seg ?en 0 ys"
  proof -
    have "distinct (butlast (0 # ys) @ [prev])" using d s(2) append_butlast_last_id [of "0 # ys"] by simp
    then have "nx ?en x = nx en x" if "x \<in> set (butlast (0 # ys))" for x using that by (auto simp: nx_def)
    then show ?thesis using seg_cong [of 0 ys ?en en] s(5) by simp
  qed
  moreover have "path ?en e zs"
  proof -
    have "nx ?en x = nx en x" if "x \<in> set (e # zs)" for x
      using that d pe e0 by (auto simp: nx_def s(1))
    then have "path ?en e zs = path en e zs" by (rule path_cong)
    also have "path en e zs" using ne tz s(6) by (cases zs) auto
    finally show ?thesis .
  qed
  moreover have "nx ?en prev = Some e" by (simp add: nx_def)
  ultimately have "path ?en 0 ?xs" by (simp only: path_append s(2) path.simps)
  moreover have "key_at ?en = key_at en" by (simp add: fun_eq_iff key del: fun_upd_apply)
  then have "sorted_wrt (<) (map (key_at ?en) ?xs)"
    using o(1) s(3) greater by (auto simp: chain_inv_def s(1) sorted_wrt_append key key_at_def [of en e] ee)
  ultimately have c: "chain_inv ?en ?xs" using d e0 by (auto simp: chain_inv_def s(1))
  have "ah_ok ?en va (pc(t := AhFreeNew (AhInsert k v e nv))) ?xs vo (eo(e := Some Linked))"
  proof (rule ah_ok_others [OF ok _ _ _ _ c])
    show "?en a = en a" if "u \<noteq> t" "own_entry (pc u) = Some a" for u a
      using ent_priv [OF o(2) that(2)] pe by (auto simp: s(1))
    show "ent_inv ?en (pc(t := AhFreeNew (AhInsert k v e nv))) ?xs (eo(e := Some Linked))"
      unfolding ent_inv_def
    proof (intro conjI allI impI)
      fix a u x
      have "(en a = None) = (eo a = None)" using o(2) by (simp add: ent_inv_def)
      then show "(?en a = None) = ((eo(e := Some Linked)) a = None)" using p ee(1) by auto
      have "eo a = Some Linked \<longleftrightarrow> a \<in> set (0 # xs)" using o(2) by (simp add: ent_inv_def)
      then show "((eo(e := Some Linked)) a = Some Linked) = (a \<in> set (0 # ?xs))" by (auto simp: s(1))
      have "eo a = Some (PrivOf u) \<longleftrightarrow> own_entry (pc u) = Some a" using o(2) by (simp add: ent_inv_def)
      then show "((eo(e := Some Linked)) a = Some (PrivOf u)) = (own_entry ((pc(t := AhFreeNew (AhInsert k v e nv))) u) = Some a)"
        using own eo by auto
      assume "?en a = Some x"
      moreover have "en a = Some y \<Longrightarrow> (en_val y = None) = (a = 0)" for y using o(2) by (simp add: ent_inv_def)
      ultimately show "(en_val x = None) = (a = 0)" using p by (auto split: if_splits)
    qed
    show "val_inv ?en va (pc(t := AhFreeNew (AhInsert k v e nv))) vo"
      using o(3) p t by (auto simp: val_inv_def split: if_splits)
  qed (use n in \<open>auto simp: s(1) key\<close>)
  moreover have "ah_view ?en va ?xs = ahm_Insert k v (ah_view en va xs)"
  proof -
    have v: "ah_view ?en va zs = ah_view en va zs" for zs by (simp add: ah_view_def key val)
    have "ahm_Insert k v (ah_view en va xs) = ah_view en va ys @ (k, v) # ah_view en va zs"
      unfolding s(1) view_append by (rule ahm_Insert_new [OF view_less [OF s(3)] view_greater [OF greater]])
    moreover have "ah_view ?en va ?xs = ah_view en va ys @ (k, v) # ah_view en va zs"
      unfolding v by (simp add: ah_view_def key_at_def [of en e] val_at_def [of en va e] ee)
    ultimately show ?thesis by simp
  qed
  ultimately show ?thesis by blast
qed

text \<open>The exchange that puts the new value into an entry.\<close>

lemma ok_cas:
  assumes ok: "ah_ok en va pc xs vo eo" and t: "pc t = AhCas (AhInsert k v e nv) target old"
    and p: "en target = Some te" and old: "en_val te = old"
  shows "(\<exists>vo'. ah_ok (en(target \<mapsto> te\<lparr>en_val := Some nv\<rparr>)) va (pc(t := AhFreeOld (AhInsert k v e nv) old)) xs vo' eo)
    \<and> ah_view (en(target \<mapsto> te\<lparr>en_val := Some nv\<rparr>)) va xs = ahm_Insert k v (ah_view en va xs)"
proof -
  let ?en = "en(target \<mapsto> te\<lparr>en_val := Some nv\<rparr>)"
  note o = ah_okD [OF ok]
  from o(4) [of t] have tx: "target \<in> set xs" "key_at en target = k" and f: "fresh_ok en va (AhInsert k v e nv)"
    and n: "va nv = Some v" and "old \<noteq> None" by (simp_all add: t)
  then obtain q where q: "old = Some q" by blast
  have own: "own_entry (pc t) = Some e" and new: "own_new (pc t) = Some nv" by (simp_all add: t)
  from ent_priv [OF o(2) own] tx(1) have e0: "e \<noteq> target" by auto
  have "0 \<notin> set xs" using o(1) by (simp add: chain_inv_def)
  with tx(1) have t0: "target \<noteq> 0" by metis
  have key: "key_at ?en a = key_at en a" for a by (simp add: key_at_def p)
  have "nx ?en a = nx en a" for a by (simp add: nx_def p)
  then have "path ?en 0 xs" using o(1) path_cong [of 0 xs ?en en] by (simp add: chain_inv_def)
  then have c: "chain_inv ?en xs" using o(1) by (simp add: chain_inv_def key fun_eq_iff cong: map_cong)
  have voq: "vo q = Some (InEntry target)" using val_entry(1) [OF o(3) p] old q by simp
  have von: "vo nv = Some (NewOf t)" by (rule val_new(1) [OF o(3) new])
  have qn: "q \<noteq> nv" using voq von by auto
  let ?vo = "vo(nv := Some (InEntry target), q := Some (OldOf t))"
  have uniq: "a = target" if "en a = Some x" "en_val x = Some q" for a x
    using val_entry(1) [OF o(3) that] voq by simp
  have "ah_ok ?en va (pc(t := AhFreeOld (AhInsert k v e nv) old)) xs ?vo eo"
  proof (rule ah_ok_others [OF ok _ _ _ _ c])
    show "?en a = en a" if "u \<noteq> t" "own_entry (pc u) = Some a" for u a
      using ent_priv [OF o(2) that(2)] tx(1) by auto
    show "ent_inv ?en (pc(t := AhFreeOld (AhInsert k v e nv) old)) xs eo"
      using o(2) p t t0 tx(1) by (auto simp: ent_inv_def split: if_splits)
    show "val_inv ?en va (pc(t := AhFreeOld (AhInsert k v e nv) old)) ?vo"
      unfolding val_inv_def
    proof (intro conjI allI)
      fix x a u
      have "(va x = None) = (vo x = None)" using o(3) by (simp add: val_inv_def)
      then show "(va x = None) = (?vo x = None)" using voq von by auto
      show "(?vo x = Some (InEntry a)) = (\<exists>y. ?en a = Some y \<and> en_val y = Some x)"
      proof (cases "a = target")
        case True
        then show ?thesis using o(3) p old q qn voq by (auto simp: val_inv_def)
      next
        case False
        have "x \<noteq> nv \<or> vo x \<noteq> Some (InEntry a)" using von by auto
        moreover have "vo x = Some (InEntry a) \<longleftrightarrow> (\<exists>y. en a = Some y \<and> en_val y = Some x)"
          using o(3) by (simp add: val_inv_def)
        ultimately show ?thesis using False voq von by auto
      qed
      have "vo x = Some (NewOf u) \<longleftrightarrow> own_new (pc u) = Some x" using o(3) by (simp add: val_inv_def)
      then show "(?vo x = Some (NewOf u)) = (own_new ((pc(t := AhFreeOld (AhInsert k v e nv) old)) u) = Some x)"
        using voq von new by auto
      have "vo x = Some (OldOf u) \<longleftrightarrow> own_old (pc u) = Some x" using o(3) by (simp add: val_inv_def)
      moreover have "own_old (pc t) = None" by (simp add: t)
      ultimately show "(?vo x = Some (OldOf u)) = (own_old ((pc(t := AhFreeOld (AhInsert k v e nv) old)) u) = Some x)"
        using voq von q by auto
    qed
  qed (use f n e0 q in \<open>auto simp: key\<close>)
  moreover have "ah_view ?en va xs = ahm_Insert k v (ah_view en va xs)"
  proof -
    from tx(1) obtain ys zs where s: "xs = ys @ target # zs" by (auto dest: split_list)
    have d: "target \<notin> set ys" "target \<notin> set zs" using o(1) by (auto simp: chain_inv_def s)
    have less: "\<forall>a \<in> set ys. key_at en a < k" using o(1) tx(2) by (auto simp: chain_inv_def s sorted_wrt_append)
    have same: "ah_view ?en va us = ah_view en va us" if "target \<notin> set us" for us
      using that by (auto simp: ah_view_def key val_at_def)
    have "ahm_Insert k v (ah_view en va xs) = ah_view en va ys @ (k, v) # ah_view en va zs"
      using ahm_Insert_old [OF view_less [OF less, of va], of v "val_at en va target"] by (simp add: s ah_view_def tx(2))
    moreover have "ah_view ?en va [target] = [(k, v)]" using tx(2) n by (simp add: ah_view_def key val_at_def)
    then have "ah_view ?en va xs = ah_view ?en va ys @ (k, v) # ah_view ?en va zs"
      using view_append [of ?en va ys "[target] @ zs"] view_append [of ?en va "[target]" zs] by (simp add: s)
    ultimately show ?thesis using same [OF d(1)] same [OF d(2)] by simp
  qed
  ultimately show ?thesis by blast
qed

lemma view_frame:
  assumes ok: "ah_ok en va pc xs vo eo" and e: "\<And>a. a \<in> set xs \<Longrightarrow> en' a = en a"
    and v: "\<And>a p. a \<in> set xs \<Longrightarrow> vo p = Some (InEntry a) \<Longrightarrow> va' p = va p"
  shows "ah_view en' va' xs = ah_view en va xs"
proof -
  note o = ah_okD [OF ok]
  have "key_at en' a = key_at en a \<and> val_at en' va' a = val_at en va a" if a: "a \<in> set xs" for a
  proof -
    have "en a \<noteq> None" using ent_live [OF o(2), of a] a by simp
    then obtain x where x: "en a = Some x" by blast
    have "0 \<notin> set xs" using o(1) by (simp add: chain_inv_def)
    with a have "a \<noteq> 0" by metis
    moreover have "en_val x = None \<longleftrightarrow> a = 0" using o(2) x by (simp add: ent_inv_def)
    ultimately obtain p where p: "en_val x = Some p" by auto
    show ?thesis using v [OF a val_entry(1) [OF o(3) x p]] e [OF a] by (simp add: key_at_def val_at_def x p)
  qed
  then show ?thesis by (simp add: ah_view_def)
qed

lemma chain_frame:
  assumes c: "chain_inv en xs" and e: "\<And>a. a \<in> set (0 # xs) \<Longrightarrow> en' a = en a"
  shows "chain_inv en' xs"
proof -
  have "nx en' a = nx en a" if "a \<in> set (0 # xs)" for a using e [OF that] by (simp add: nx_def)
  then have "path en' 0 xs = path en 0 xs" by (rule path_cong)
  moreover have "map (key_at en') xs = map (key_at en) xs" using e by (simp add: key_at_def)
  ultimately show ?thesis using c unfolding chain_inv_def by metis
qed

text \<open>The deletes.\<close>

lemma val_inv_del:
  assumes v: "val_inv en va pc vo" and w: "vo p = Some w"
    and e: "\<And>a y. en' a = Some y \<longleftrightarrow> w \<noteq> InEntry a \<and> en a = Some y"
    and n: "\<And>u. own_new (pc' u) = (if w = NewOf u then None else own_new (pc u))"
    and l: "\<And>u. own_old (pc' u) = (if w = OldOf u then None else own_old (pc u))"
  shows "val_inv en' (va(p := None)) pc' (vo(p := None))"
  unfolding val_inv_def
proof (intro conjI allI)
  fix x a u
  have "(va x = None) = (vo x = None)" using v by (simp add: val_inv_def)
  then show "((va(p := None)) x = None) = ((vo(p := None)) x = None)" by simp
  have i: "vo x = Some (InEntry a) \<longleftrightarrow> (\<exists>y. en a = Some y \<and> en_val y = Some x)" for x using v by (simp add: val_inv_def)
  show "((vo(p := None)) x = Some (InEntry a)) = (\<exists>y. en' a = Some y \<and> en_val y = Some x)"
    using i [of x] i [of p] w by (cases "w = InEntry a") (auto simp: e)
  have i: "vo x = Some (NewOf u) \<longleftrightarrow> own_new (pc u) = Some x" for x using v by (simp add: val_inv_def)
  show "((vo(p := None)) x = Some (NewOf u)) = (own_new (pc' u) = Some x)"
    using i [of x] i [of p] w by (cases "w = NewOf u") (auto simp: n)
  have i: "vo x = Some (OldOf u) \<longleftrightarrow> own_old (pc u) = Some x" for x using v by (simp add: val_inv_def)
  show "((vo(p := None)) x = Some (OldOf u)) = (own_old (pc' u) = Some x)"
    using i [of x] i [of p] w by (cases "w = OldOf u") (auto simp: l)
qed

lemma ok_free_old:
  assumes ok: "ah_ok en va pc xs vo eo" and t: "pc t = AhFreeOld op (Some p)"
  shows "(\<exists>vo'. ah_ok en (va(p := None)) (pc(t := AhFreeEntry op)) xs vo' eo) \<and> va p \<noteq> None
    \<and> ah_view en (va(p := None)) xs = ah_view en va xs"
proof -
  note o = ah_okD [OF ok]
  have old: "own_old (pc t) = Some p" by (simp add: t)
  have vop: "vo p = Some (OldOf t)" and live: "va p \<noteq> None" using val_old [OF o(3) old] by simp_all
  have "ah_ok en (va(p := None)) (pc(t := AhFreeEntry op)) xs (vo(p := None)) eo"
  proof (rule ah_ok_others [OF ok _ _ _ _ o(1)])
    show "ent_inv en (pc(t := AhFreeEntry op)) xs eo" using o(2) t by (auto simp: ent_inv_def)
    show "val_inv en (va(p := None)) (pc(t := AhFreeEntry op)) (vo(p := None))"
      by (rule val_inv_del [OF o(3) vop]) (use t in \<open>auto split: if_splits\<close>)
    have "fresh_ok en va op" "op_entry op \<noteq> None" using o(4) [of t] by (simp_all add: t)
    then obtain k v e nv where op: "op = AhInsert k v e nv" by (cases op) simp_all
    from \<open>fresh_ok en va op\<close> obtain ee q where q: "en e = Some ee" "en_key ee = k" "en_val ee = Some q" "va q = Some v" by (auto simp: op)
    have "q \<noteq> p" using val_entry(1) [OF o(3) q(1,3)] vop by auto
    with q show "ah_local en (va(p := None)) xs (AhFreeEntry op)" by (simp add: op)
  qed (use vop in \<open>auto split: if_splits\<close>)
  moreover have "ah_view en (va(p := None)) xs = ah_view en va xs"
    by (rule view_frame [OF ok]) (use vop in auto)
  ultimately show ?thesis using live by blast
qed

lemma ok_free_entry:
  assumes ok: "ah_ok en va pc xs vo eo" and t: "pc t = AhFreeEntry (AhInsert k v e nv)"
    and e: "en e = Some ee" and p: "en_val ee = Some p"
  shows "(\<exists>vo' eo'. ah_ok (en(e := None)) (va(p := None)) (pc(t := AhIdle)) xs vo' eo') \<and> va p \<noteq> None
    \<and> ah_view (en(e := None)) (va(p := None)) xs = ah_view en va xs"
proof -
  note o = ah_okD [OF ok]
  have own: "own_entry (pc t) = Some e" by (simp add: t)
  from ent_priv [OF o(2) own] have e0: "e \<notin> set (0 # xs)" by simp
  from o(2) own have eo: "eo e = Some (PrivOf t)" by (simp add: ent_inv_def)
  have vop: "vo p = Some (InEntry e)" and live: "va p \<noteq> None" using val_entry [OF o(3) e p] by simp_all
  have c: "chain_inv (en(e := None)) xs" by (rule chain_frame [OF o(1)]) (use e0 in auto)
  have "ah_ok (en(e := None)) (va(p := None)) (pc(t := AhIdle)) xs (vo(p := None)) (eo(e := None))"
  proof (rule ah_ok_others [OF ok _ _ _ _ c])
    show "ent_inv (en(e := None)) (pc(t := AhIdle)) xs (eo(e := None))"
      unfolding ent_inv_def
    proof (intro conjI allI impI)
      fix a u x
      have "(en a = None) = (eo a = None)" using o(2) by (simp add: ent_inv_def)
      then show "((en(e := None)) a = None) = ((eo(e := None)) a = None)" by simp
      have "eo a = Some Linked \<longleftrightarrow> a \<in> set (0 # xs)" using o(2) by (simp add: ent_inv_def)
      then show "((eo(e := None)) a = Some Linked) = (a \<in> set (0 # xs))" using e0 by auto
      have "eo a = Some (PrivOf u) \<longleftrightarrow> own_entry (pc u) = Some a" using o(2) by (simp add: ent_inv_def)
      then show "((eo(e := None)) a = Some (PrivOf u)) = (own_entry ((pc(t := AhIdle)) u) = Some a)" using own eo by auto
      assume "(en(e := None)) a = Some x"
      then have "en a = Some x" by (auto split: if_splits)
      then show "(en_val x = None) = (a = 0)" using o(2) by (simp add: ent_inv_def)
    qed
    show "val_inv (en(e := None)) (va(p := None)) (pc(t := AhIdle)) (vo(p := None))"
      by (rule val_inv_del [OF o(3) vop]) (use t in \<open>auto split: if_splits\<close>)
    show "key_at (en(e := None)) a = key_at en a" if "a \<in> set xs" for a using that e0 by (auto simp: key_at_def)
    show "(en(e := None)) a = en a" if "u \<noteq> t" "own_entry (pc u) = Some a" for u a
      using ent_unique [OF o(2) _ own, of u] that by auto
  qed (use vop own in \<open>auto split: if_splits\<close>)
  moreover have "ah_view (en(e := None)) (va(p := None)) xs = ah_view en va xs"
    by (rule view_frame [OF ok]) (use vop e0 in auto)
  ultimately show ?thesis using live by blast
qed

lemma ok_free_new:
  assumes ok: "ah_ok en va pc xs vo eo" and t: "pc t = AhFreeNew (AhInsert k v e nv)"
  shows "(\<exists>vo'. ah_ok en (va(nv := None)) (pc(t := AhIdle)) xs vo' eo) \<and> va nv \<noteq> None
    \<and> ah_view en (va(nv := None)) xs = ah_view en va xs"
proof -
  note o = ah_okD [OF ok]
  have new: "own_new (pc t) = Some nv" by (simp add: t)
  have vop: "vo nv = Some (NewOf t)" and live: "va nv \<noteq> None" using val_new [OF o(3) new] by simp_all
  have "ah_ok en (va(nv := None)) (pc(t := AhIdle)) xs (vo(nv := None)) eo"
  proof (rule ah_ok_others [OF ok _ _ _ _ o(1)])
    show "ent_inv en (pc(t := AhIdle)) xs eo" using o(2) t by (auto simp: ent_inv_def)
    show "val_inv en (va(nv := None)) (pc(t := AhIdle)) (vo(nv := None))"
      by (rule val_inv_del [OF o(3) vop]) (use t in \<open>auto split: if_splits\<close>)
  qed (use vop in \<open>auto split: if_splits\<close>)
  moreover have "ah_view en (va(nv := None)) xs = ah_view en va xs"
    by (rule view_frame [OF ok]) (use vop in auto)
  ultimately show ?thesis using live by blast
qed

text \<open>The start of an \<open>Insert\<close>.\<close>

lemma ok_begin:
  assumes ok: "ah_ok en va pc xs vo eo" and t: "pc t = AhIdle" and e: "en e = None" and p: "va p = None" and nv: "va nv = None"
    and ne: "p \<noteq> nv"
    and en'_def: "en' = en(e \<mapsto> \<lparr>en_key = k, en_val = Some p, en_next = None\<rparr>)"
  shows "(\<exists>vo' eo'. ah_ok en' (va(p \<mapsto> v, nv \<mapsto> v)) (pc(t := AhFind (AhInsert k v e nv) 0)) xs vo' eo')
    \<and> ah_view en' (va(p \<mapsto> v, nv \<mapsto> v)) xs = ah_view en va xs"
proof -
  note o = ah_okD [OF ok]
  let ?pc = "pc(t := AhFind (AhInsert k v e nv) 0)" and ?va = "va(p \<mapsto> v, nv \<mapsto> v)"
  let ?vo = "vo(p := Some (InEntry e), nv := Some (NewOf t))"
  have e0: "e \<notin> set (0 # xs)" using ent_live [OF o(2), of e] e by blast
  have none: "eo e = None" using o(2) e by (simp add: ent_inv_def)
  have vn: "vo p = None" "vo nv = None" using o(3) p nv by (simp_all add: val_inv_def)
  have c: "chain_inv en' xs" by (rule chain_frame [OF o(1)]) (use e0 in \<open>auto simp: en'_def\<close>)
  have "ah_ok en' ?va ?pc xs ?vo (eo(e := Some (PrivOf t)))"
  proof (rule ah_ok_others [OF ok _ _ _ _ c])
    show "ent_inv en' ?pc xs (eo(e := Some (PrivOf t)))"
      unfolding ent_inv_def
    proof (intro conjI allI impI)
      fix a u x
      have "(en a = None) = (eo a = None)" using o(2) by (simp add: ent_inv_def)
      then show "(en' a = None) = ((eo(e := Some (PrivOf t))) a = None)" by (simp add: en'_def)
      have "eo a = Some Linked \<longleftrightarrow> a \<in> set (0 # xs)" using o(2) by (simp add: ent_inv_def)
      then show "((eo(e := Some (PrivOf t))) a = Some Linked) = (a \<in> set (0 # xs))" using e0 by auto
      have "eo a = Some (PrivOf u) \<longleftrightarrow> own_entry (pc u) = Some a" using o(2) by (simp add: ent_inv_def)
      then show "((eo(e := Some (PrivOf t))) a = Some (PrivOf u)) = (own_entry (?pc u) = Some a)" using t none by auto
      have "en a = Some y \<Longrightarrow> (en_val y = None) = (a = 0)" for y using o(2) by (simp add: ent_inv_def)
      moreover assume "en' a = Some x"
      ultimately show "(en_val x = None) = (a = 0)" using e0 by (auto simp: en'_def split: if_splits)
    qed
    show "val_inv en' ?va ?pc ?vo"
      unfolding val_inv_def
    proof (intro conjI allI)
      fix x a u
      have "(va x = None) = (vo x = None)" using o(3) by (simp add: val_inv_def)
      then show "(?va x = None) = (?vo x = None)" by simp
      have "vo x = Some (InEntry a) \<longleftrightarrow> (\<exists>y. en a = Some y \<and> en_val y = Some x)" using o(3) by (simp add: val_inv_def)
      then show "(?vo x = Some (InEntry a)) = (\<exists>y. en' a = Some y \<and> en_val y = Some x)"
        using vn e ne by (auto simp: en'_def)
      have "vo x = Some (NewOf u) \<longleftrightarrow> own_new (pc u) = Some x" using o(3) by (simp add: val_inv_def)
      then show "(?vo x = Some (NewOf u)) = (own_new (?pc u) = Some x)" using vn t by auto
      have "vo x = Some (OldOf u) \<longleftrightarrow> own_old (pc u) = Some x" using o(3) by (simp add: val_inv_def)
      then show "(?vo x = Some (OldOf u)) = (own_old (?pc u) = Some x)" using vn t by auto
    qed
    show "key_at en' a = key_at en a" if "a \<in> set xs" for a using that e0 by (auto simp: key_at_def en'_def)
    show "en' a = en a" if "u \<noteq> t" "own_entry (pc u) = Some a" for u a
      using ent_priv [OF o(2) that(2)] e by (auto simp: en'_def)
    show "ah_local en' ?va xs (AhFind (AhInsert k v e nv) 0)" using ne by (simp add: en'_def before_def)
  qed (use vn in \<open>auto split: if_splits\<close>)
  moreover have "ah_view en' ?va xs = ah_view en va xs"
    by (rule view_frame [OF ok]) (use vn e0 in \<open>auto simp: en'_def\<close>)
  ultimately show ?thesis by blast
qed

section \<open>Every step does what its label says\<close>

definition ah_inv :: "'v ah_bucket \<Rightarrow> nat list \<Rightarrow> bool" where
  "ah_inv s xs \<longleftrightarrow> (\<exists>vo eo. ah_ok (ah_en s) (ah_va s) (ah_pc s) xs vo eo)"

definition ah_chain :: "'v ah_bucket \<Rightarrow> nat list \<Rightarrow> 'v chain" where
  "ah_chain s xs = ah_view (ah_en s) (ah_va s) xs"

lemma ah_invI: "ah_ok en va pc xs vo eo \<Longrightarrow> ah_inv \<lparr>ah_en = en, ah_va = va, ah_pc = pc\<rparr> xs"
  by (auto simp: ah_inv_def)

lemma ah_new_inv: "ah_inv ah_new []"
  unfolding ah_inv_def ah_ok_def ah_new_def
  by (rule exI [of _ "\<lambda>_. None"], rule exI [of _ "[0 \<mapsto> Linked]"])
     (auto simp: chain_inv_def ent_inv_def val_inv_def nx_def)

lemma ah_new_chain: "ah_chain ah_new [] = []"
  by (simp add: ah_chain_def ah_view_def)

lemma ah_spec_hit:
  assumes ok: "ah_ok en va pc xs vo eo" and t: "pc t = AhHit (AhGet k) target"
  shows "\<exists>te p v. en target = Some te \<and> en_val te = Some p \<and> va p = Some v \<and> ahm_Get k (ah_view en va xs) = Some v"
proof -
  note o = ah_okD [OF ok]
  from o(4) [of t] have x: "target \<in> set xs" "key_at en target = k" by (simp_all add: t)
  from ent_live [OF o(2), of target] x(1) obtain te where te: "en target = Some te" by auto
  have "0 \<notin> set xs" using o(1) by (simp add: chain_inv_def)
  with x(1) have "target \<noteq> 0" by metis
  then have "en_val te \<noteq> None" using o(2) te by (simp add: ent_inv_def)
  then obtain p where p: "en_val te = Some p" by blast
  from val_entry(2) [OF o(3) te p] obtain v where v: "va p = Some v" by auto
  have "ahm_Get k (ah_view en va xs) = Some (val_at en va target)" by (rule view_found [OF o(1) x, of va])
  with te p v show ?thesis by (auto simp: val_at_def)
qed

lemma ah_do_inv:
  assumes inv: "ah_inv s xs" and d: "ah_do t s = (l, s')"
  shows "\<exists>xs'. ah_inv s' xs' \<and> ah_spec l (ah_chain s xs) = Some (ah_chain s' xs')"
proof -
  let ?en = "ah_en s" and ?va = "ah_va s" and ?pc = "ah_pc s"
  from inv obtain vo eo where ok: "ah_ok ?en ?va ?pc xs vo eo" by (auto simp: ah_inv_def)
  note o = ah_okD [OF ok]
  have stay: "ah_inv s' xs \<and> ah_chain s' xs = ah_chain s xs"
    if "s' = \<lparr>ah_en = ?en, ah_va = ?va, ah_pc = ?pc(t := pc')\<rparr>" "own_entry pc' = own_entry (?pc t)" "own_new pc' = own_new (?pc t)"
      "own_old pc' = own_old (?pc t)" "ah_local ?en ?va xs pc'" for pc'
    using ok_move [OF ok that(2-5)] that(1) by (auto simp: ah_chain_def intro: ah_invI)
  show ?thesis
  proof (cases "?pc t")
    case (AhFind op prev)
    obtain pc' where look: "ah_look ?en op prev = (l, pc')" using d AhFind by (auto simp: ah_do_def split: prod.splits)
    have loc: "ah_local ?en ?va xs (AhFind op prev)" using o(4) [of t] AhFind by simp
    note L = look_ok [OF o(1,2) loc look]
    have "s' = \<lparr>ah_en = ?en, ah_va = ?va, ah_pc = ?pc(t := pc')\<rparr>" using d look by (simp add: ah_do_def AhFind)
    from stay [OF this] L AhFind show ?thesis by (auto simp: ah_chain_def)
  next
    case (AhHit op target)
    show ?thesis
    proof (cases op)
      case (AhInsert k v e nv)
      have x: "target \<in> set xs" using o(4) [of t] AhHit by simp
      from ent_live [OF o(2), of target] x obtain te where te: "?en target = Some te" by auto
      have "0 \<notin> set xs" using o(1) by (simp add: chain_inv_def)
      with x have "target \<noteq> 0" by metis
      then have "en_val te \<noteq> None" using o(2) te by (simp add: ent_inv_def)
      with o(4) [of t] stay [of "AhCas op target (en_val te)"] d show ?thesis
        by (auto simp: ah_do_def AhHit AhInsert te)
    next
      case (AhGet k)
      from ah_spec_hit [OF ok] AhHit AhGet obtain te p v where "?en target = Some te" "en_val te = Some p" "?va p = Some v"
        "ahm_Get k (ah_view ?en ?va xs) = Some v" by blast
      with d stay [of "AhGot k p"] show ?thesis by (auto simp: ah_do_def AhHit AhGet ah_chain_def)
    next
      case (AhHas k)
      then show ?thesis using o(4) [of t] AhHit by simp
    qed
  next
    case (AhCas op target old)
    then obtain k v e nv where op: "op = AhInsert k v e nv" using o(4) [of t] by (cases op) auto
    from o(4) [of t] AhCas have x: "target \<in> set xs" by simp
    from ent_live [OF o(2), of target] x obtain te where te: "?en target = Some te" by auto
    show ?thesis
    proof (cases "en_val te = old")
      case True
      have t: "?pc t = AhCas (AhInsert k v e nv) target old" by (simp add: AhCas op)
      from ok_cas [OF ok t te True] obtain vo' where A: "ah_ok (?en(target \<mapsto> te\<lparr>en_val := Some nv\<rparr>)) ?va
          (?pc(t := AhFreeOld (AhInsert k v e nv) old)) xs vo' eo"
        and B: "ah_view (?en(target \<mapsto> te\<lparr>en_val := Some nv\<rparr>)) ?va xs = ahm_Insert k v (ah_view ?en ?va xs)" by blast
      have "l = Inserted k v" "s' = \<lparr>ah_en = ?en(target \<mapsto> te\<lparr>en_val := Some nv\<rparr>), ah_va = ?va,
          ah_pc = ?pc(t := AhFreeOld (AhInsert k v e nv) old)\<rparr>"
        using d True by (simp_all add: ah_do_def t te)
      with A B show ?thesis by (intro exI [of _ xs]) (simp add: ah_chain_def ah_invI)
    next
      case False
      with d stay [of "AhFind op 0"] o(4) [of t] show ?thesis by (auto simp: ah_do_def AhCas op te before_def)
    qed
  next
    case (AhFreeOld op old)
    then obtain p where p: "old = Some p" using o(4) [of t] by auto
    with ok_free_old [OF ok, of t op p] d AhFreeOld show ?thesis by (intro exI [of _ xs]) (auto simp: ah_do_def ah_chain_def intro: ah_invI)
  next
    case (AhFreeEntry op)
    then obtain k v e nv where op: "op = AhInsert k v e nv" using o(4) [of t] by (cases op) auto
    from o(4) [of t] AhFreeEntry op obtain ee p where e: "?en e = Some ee" "en_val ee = Some p" by auto
    from ok_free_entry [OF ok _ e, of t k v nv] d AhFreeEntry show ?thesis
      by (intro exI [of _ xs]) (auto simp: ah_do_def op e ah_chain_def intro: ah_invI)
  next
    case (AhMiss op prev target)
    then obtain k v e nv where op: "op = AhInsert k v e nv" using o(4) [of t] by (cases op) auto
    from o(4) [of t] AhMiss op obtain ee where e: "?en e = Some ee" by auto
    from ok_store [OF ok _ e, of t k v nv prev target] d AhMiss show ?thesis
      by (intro exI [of _ xs]) (auto simp: ah_do_def op e ah_chain_def intro: ah_invI)
  next
    case (AhLink op prev target)
    then obtain k v e nv where op: "op = AhInsert k v e nv" using o(4) [of t] by (cases op) auto
    from o(4) [of t] AhLink have "prev \<in> set (0 # xs)" by (auto simp: before_def)
    from ent_live [OF o(2) this] obtain p where p: "?en prev = Some p" by auto
    show ?thesis
    proof (cases "en_next p = target")
      case True
      from ok_link [OF ok _ p True, of t k v e nv] AhLink op obtain xs' eo' where
        "ah_ok (?en(prev \<mapsto> p\<lparr>en_next := Some e\<rparr>)) ?va (?pc(t := AhFreeNew op)) xs' vo eo'"
        "ah_view (?en(prev \<mapsto> p\<lparr>en_next := Some e\<rparr>)) ?va xs' = ahm_Insert k v (ah_view ?en ?va xs)" by auto
      with d AhLink True show ?thesis
        by (intro exI [of _ xs']) (auto simp: ah_do_def op p ah_chain_def intro: ah_invI)
    next
      case False
      with d stay [of "AhFind op 0"] o(4) [of t] show ?thesis by (auto simp: ah_do_def AhLink op p before_def)
    qed
  next
    case (AhFreeNew op)
    then obtain k v e nv where op: "op = AhInsert k v e nv" using o(4) [of t] by (cases op) auto
    from ok_free_new [OF ok, of t k v e nv] d AhFreeNew show ?thesis
      by (intro exI [of _ xs]) (auto simp: ah_do_def op ah_chain_def intro: ah_invI)
  next
    case (AhGot k p)
    with d stay [of AhIdle] stay [of AhDangling] show ?thesis
      by (auto simp: ah_do_def split: option.splits)
  next
    case AhFault
    with o(4) [of t] show ?thesis by simp
  next
    case AhIdle
    with d stay [of AhIdle] show ?thesis by (auto simp: ah_do_def)
  next
    case AhDangling
    with d stay [of AhDangling] show ?thesis by (auto simp: ah_do_def)
  qed
qed

lemma ah_step_inv:
  assumes inv: "ah_inv s xs" and st: "ah_step s l s'"
  shows "\<exists>xs'. ah_inv s' xs' \<and> ah_spec l (ah_chain s xs) = Some (ah_chain s' xs')"
  using st
proof cases
  case (ah_insert t e p nv k v)
  from inv obtain vo eo where ok: "ah_ok (ah_en s) (ah_va s) (ah_pc s) xs vo eo" by (auto simp: ah_inv_def)
  from ok_begin [OF ok ah_insert(3-7) refl, of k v] show ?thesis
    by (intro exI [of _ xs]) (auto simp: ah_insert(1,2) ah_begin_def ah_inv_def ah_chain_def)
next
  case (ah_get t k)
  from inv obtain vo eo where ok: "ah_ok (ah_en s) (ah_va s) (ah_pc s) xs vo eo" by (auto simp: ah_inv_def)
  have "ah_ok (ah_en s) (ah_va s) ((ah_pc s)(t := AhFind (AhGet k) 0)) xs vo eo"
    by (rule ok_move [OF ok]) (simp_all add: ah_get before_def)
  then show ?thesis by (intro exI [of _ xs]) (auto simp: ah_get ah_inv_def ah_chain_def)
next
  case (ah_has t k)
  from inv obtain vo eo where ok: "ah_ok (ah_en s) (ah_va s) (ah_pc s) xs vo eo" by (auto simp: ah_inv_def)
  have "ah_ok (ah_en s) (ah_va s) ((ah_pc s)(t := AhFind (AhHas k) 0)) xs vo eo"
    by (rule ok_move [OF ok]) (simp_all add: ah_has before_def)
  then show ?thesis by (intro exI [of _ xs]) (auto simp: ah_has ah_inv_def ah_chain_def)
next
  case (ah_go t)
  then show ?thesis using ah_do_inv [OF inv] by blast
qed

lemma ah_run_inv: "ah_run ls s \<Longrightarrow> \<exists>xs. ah_inv s xs \<and> ah_specs ls [] = Some (ah_chain s xs)"
proof (induction rule: ah_run.induct)
  case ah_run_new
  show ?case by (intro exI [of _ "[]"]) (simp add: ah_new_inv ah_new_chain)
next
  case (ah_run_step ls s l s')
  then obtain xs where xs: "ah_inv s xs" "ah_specs ls [] = Some (ah_chain s xs)" by blast
  from ah_step_inv [OF xs(1) ah_run_step(2)] xs(2) show ?case by (auto simp: ah_specs_snoc)
qed

section \<open>Runs that are computed\<close>

datatype 'v ah_act = ActInsert nat u64 'v nat nat nat | ActGet nat u64 | ActGo nat

fun ah_perform :: "'v ah_act \<Rightarrow> 'v ah_bucket \<Rightarrow> ('v ah_label \<times> 'v ah_bucket) option" where
  "ah_perform (ActInsert t k v e p nv) s =
     (case ah_pc s t of AhIdle \<Rightarrow>
        (case (ah_en s e, ah_va s p, ah_va s nv) of
           (None, None, None) \<Rightarrow> if p = nv then None else Some (Tau, ah_begin t k v e p nv s)
         | _ \<Rightarrow> None)
      | _ \<Rightarrow> None)"
| "ah_perform (ActGet t k) s =
     (case ah_pc s t of AhIdle \<Rightarrow> Some (Tau, s\<lparr>ah_pc := (ah_pc s)(t := AhFind (AhGet k) 0)\<rparr>) | _ \<Rightarrow> None)"
| "ah_perform (ActGo t) s = Some (ah_do t s)"

fun ah_exec :: "'v ah_act list \<Rightarrow> 'v ah_bucket \<Rightarrow> ('v ah_label list \<times> 'v ah_bucket) option" where
  "ah_exec [] s = Some ([], s)"
| "ah_exec (a # as) s = do { (l, s') \<leftarrow> ah_perform a s; (ls, s'') \<leftarrow> ah_exec as s'; Some (l # ls, s'') }"

lemma ah_perform_step: "ah_perform a s = Some (l, s') \<Longrightarrow> ah_step s l s'"
  by (cases a) (auto split: ah_pc.splits option.splits if_splits intro: ah_step.intros)

lemma ah_exec_run: "ah_run ls s \<Longrightarrow> ah_exec as s = Some (ls', s') \<Longrightarrow> ah_run (ls @ ls') s'"
proof (induction as arbitrary: ls s ls')
  case (Cons a as)
  then obtain l s1 ls1 where a: "ah_perform a s = Some (l, s1)" and r: "ah_exec as s1 = Some (ls1, s')" and l: "ls' = l # ls1"
    by (auto split: bind_splits)
  from Cons.IH [OF ah_run_step [OF Cons.prems(1) ah_perform_step [OF a]] r] show ?case by (simp add: l)
qed simp

section \<open>The destructor\<close>

text \<open>\<open>~Bucket\<close>: the entries from \<open>head_\<close> on are deleted with their values; \<open>n\<close> bounds the rounds. \<open>None\<close> is a
  delete of what is not there, or too few rounds.\<close>

fun ah_destroy :: "nat \<Rightarrow> nat option \<Rightarrow> (nat \<Rightarrow> ah_entry option) \<Rightarrow> (nat \<Rightarrow> 'v option)
    \<Rightarrow> ((nat \<Rightarrow> ah_entry option) \<times> (nat \<Rightarrow> 'v option)) option" where
  "ah_destroy n None en va = Some (en, va)"
| "ah_destroy 0 (Some a) en va = None"
| "ah_destroy (Suc n) (Some a) en va =
     (case en a of None \<Rightarrow> None
      | Some e \<Rightarrow> (case en_val e of None \<Rightarrow> ah_destroy n (en_next e) (en(a := None)) va
          | Some p \<Rightarrow> if va p = None then None else ah_destroy n (en_next e) (en(a := None)) (va(p := None))))"

definition holds_value :: "(nat \<Rightarrow> ah_entry option) \<Rightarrow> nat list \<Rightarrow> nat \<Rightarrow> bool" where
  "holds_value en as p \<longleftrightarrow> (\<exists>a \<in> set as. \<exists>e. en a = Some e \<and> en_val e = Some p)"

lemma ah_destroy_path:
  assumes "path en a xs" and "distinct (a # xs)" and "\<And>b. b \<in> set (a # xs) \<Longrightarrow> en b \<noteq> None"
    and "\<And>b c e f p. en b = Some e \<Longrightarrow> en c = Some f \<Longrightarrow> en_val e = Some p \<Longrightarrow> en_val f = Some p \<Longrightarrow> b = c"
    and "\<And>b e p. en b = Some e \<Longrightarrow> en_val e = Some p \<Longrightarrow> va p \<noteq> None"
  shows "ah_destroy (length (a # xs)) (Some a) en va =
    Some (\<lambda>b. if b \<in> set (a # xs) then None else en b, \<lambda>p. if holds_value en (a # xs) p then None else va p)"
  using assms
proof (induction xs arbitrary: a en va)
  case Nil
  from Nil(3) [of a] obtain e where e: "en a = Some e" by auto
  with Nil(1) have "en_next e = None" by (simp add: nx_def)
  then show ?case using Nil(5) [OF e]
    by (cases "en_val e") (auto simp: e holds_value_def fun_eq_iff)
next
  case (Cons x xs)
  from Cons.prems(3) [of a] obtain e where e: "en a = Some e" by auto
  with Cons.prems(1) have n: "en_next e = Some x" by (simp add: nx_def)
  let ?en = "en(a := None)"
  define va1 where "va1 = (case en_val e of None \<Rightarrow> va | Some p \<Rightarrow> va(p := None))"
  have "path ?en x xs = path en x xs" by (rule path_cong) (use Cons.prems(2) in \<open>auto simp: nx_def\<close>)
  then have p: "path ?en x xs" using Cons.prems(1) by simp
  have live: "va1 q \<noteq> None" if b: "?en b = Some f" "en_val f = Some q" for b f q
  proof -
    from b have "b \<noteq> a" "en b = Some f" by (auto split: if_splits)
    with Cons.prems(4) [OF e, of b f q] b(2) Cons.prems(5) [of b f q] show ?thesis
      by (auto simp: va1_def split: option.splits)
  qed
  have IH: "ah_destroy (length (x # xs)) (Some x) ?en va1 =
      Some (\<lambda>b. if b \<in> set (x # xs) then None else ?en b, \<lambda>p. if holds_value ?en (x # xs) p then None else va1 p)"
  proof (rule Cons.IH [OF p])
    show "distinct (x # xs)" using Cons.prems(2) by simp
    show "?en b \<noteq> None" if "b \<in> set (x # xs)" for b using that Cons.prems(2) Cons.prems(3) [of b] by auto
    show "b = c" if "?en b = Some f" "?en c = Some g" "en_val f = Some q" "en_val g = Some q" for b c f g q
      using that Cons.prems(4) [of b f c g q] by (auto split: if_splits)
    show "va1 q \<noteq> None" if "?en b = Some f" "en_val f = Some q" for b f q by (rule live [OF that])
  qed
  have "holds_value ?en (x # xs) = holds_value en (x # xs)"
    using Cons.prems(2) by (auto simp: holds_value_def fun_eq_iff)
  moreover have "holds_value en (a # x # xs) q \<longleftrightarrow> en_val e = Some q \<or> holds_value en (x # xs) q" for q
    by (auto simp: holds_value_def e)
  ultimately have "(\<lambda>p. if holds_value ?en (x # xs) p then None else va1 p) = (\<lambda>p. if holds_value en (a # x # xs) p then None else va p)"
    by (auto simp: fun_eq_iff va1_def split: option.splits)
  moreover have "(\<lambda>b. if b \<in> set (x # xs) then None else ?en b) = (\<lambda>b. if b \<in> set (a # x # xs) then None else en b)"
    by (auto simp: fun_eq_iff)
  moreover have "ah_destroy (length (a # x # xs)) (Some a) en va = ah_destroy (length (x # xs)) (Some x) ?en va1"
    using Cons.prems(5) [OF e] by (auto simp: e n va1_def split: option.splits)
  ultimately show ?case using IH by simp
qed

section \<open>What threads may rely on\<close>

text \<open>C4: A bucket that many threads use at once is the bucket of one thread. Whatever the interleaving of their
  \<open>Insert\<close>s, \<open>Get\<close>s and \<open>Has\<close>s, each call takes effect at one of its steps: in the order of those steps the
  sequential bucket gives every answer that was given, and its chain, sorted by key, is the one on the heap.\<close>

theorem atomic_map_linearizable:
  assumes "ah_run ls s"
  shows "\<exists>c. ah_specs ls [] = Some c \<and> chain_ok c \<and> (\<forall>c'. ah_abs s c' \<longleftrightarrow> c' = c)"
proof -
  from ah_run_inv [OF assms] obtain xs where inv: "ah_inv s xs" and c: "ah_specs ls [] = Some (ah_chain s xs)" by blast
  from inv have ci: "chain_inv (ah_en s) xs" by (auto simp: ah_inv_def ah_ok_def)
  then have p: "path (ah_en s) 0 xs" and so: "sorted_wrt (<) (map (key_at (ah_en s)) xs)" by (simp_all add: chain_inv_def)
  have "chain_ok (ah_chain s xs)" using so by (simp add: chain_ok_def ah_chain_def ah_view_def comp_def)
  moreover have "ah_abs s c' \<longleftrightarrow> c' = ah_chain s xs" for c'
    unfolding ah_abs_def ah_chain_def using p by (metis path_fun)
  ultimately show ?thesis using c by blast
qed

text \<open>C14: Inserting is safe. No thread ever touches an entry that is not there or deletes what was deleted, though
  addresses are used again, and when all threads are idle nothing has leaked: the destructor deletes each entry of
  the chain and each value once, and both heaps are empty then.\<close>

theorem atomic_map_memory_safe:
  assumes "ah_run ls s"
  shows "ah_pc s t \<noteq> AhFault \<and> ((\<forall>t. ah_pc s t = AhIdle) \<longrightarrow>
    (\<exists>n. ah_destroy n (Some 0) (ah_en s) (ah_va s) = Some (Map.empty, Map.empty)))"
proof (intro conjI impI)
  from ah_run_inv [OF assms] obtain xs vo eo where ok: "ah_ok (ah_en s) (ah_va s) (ah_pc s) xs vo eo" by (auto simp: ah_inv_def)
  note o = ah_okD [OF ok]
  show "ah_pc s t \<noteq> AhFault" using o(4) [of t] by auto
  assume idle: "\<forall>t. ah_pc s t = AhIdle"
  have ents: "(ah_en s a \<noteq> None) = (a \<in> set (0 # xs))" for a
  proof -
    have "eo a \<noteq> Some (PrivOf u)" for u using o(2) idle by (simp add: ent_inv_def)
    moreover have "(ah_en s a = None) = (eo a = None)" "(eo a = Some Linked) = (a \<in> set (0 # xs))" using o(2) by (simp_all add: ent_inv_def)
    ultimately show ?thesis by (metis eowner.exhaust option.exhaust option.distinct(1))
  qed
  have vals: "(ah_va s p \<noteq> None) = (\<exists>a \<in> set xs. \<exists>e. ah_en s a = Some e \<and> en_val e = Some p)" for p
  proof -
    have n: "vo p \<noteq> Some (NewOf u)" "vo p \<noteq> Some (OldOf u)" for u using o(3) idle by (simp_all add: val_inv_def)
    have v: "(ah_va s p = None) = (vo p = None)" and i: "(vo p = Some (InEntry a)) = (\<exists>e. ah_en s a = Some e \<and> en_val e = Some p)" for a
      using o(3) by (simp_all add: val_inv_def)
    have "vo p \<noteq> None \<longleftrightarrow> (\<exists>a. vo p = Some (InEntry a))" using n by (metis vowner.exhaust option.exhaust option.distinct(1))
    then have va: "(ah_va s p \<noteq> None) = (\<exists>a e. ah_en s a = Some e \<and> en_val e = Some p)" by (simp add: v i)
    have "a \<in> set xs" if "ah_en s a = Some e" "en_val e = Some p" for a e
    proof -
      have "(en_val e = None) = (a = 0)" using o(2) that(1) by (simp add: ent_inv_def)
      then have "a \<noteq> 0" using that(2) by (cases "a = 0") simp_all
      then show ?thesis using ents [of a] that by simp
    qed
    then show ?thesis unfolding va by (simp only: Bex_def) blast
  qed
  have "ah_destroy (length (0 # xs)) (Some 0) (ah_en s) (ah_va s) =
      Some (\<lambda>b. if b \<in> set (0 # xs) then None else ah_en s b, \<lambda>p. if holds_value (ah_en s) (0 # xs) p then None else ah_va s p)"
  proof (rule ah_destroy_path)
    show "path (ah_en s) 0 xs" "distinct (0 # xs)" using o(1) by (simp_all only: chain_inv_def)
    show "ah_en s b \<noteq> None" if "b \<in> set (0 # xs)" for b by (rule ent_live [OF o(2) that])
    show "b = c" if "ah_en s b = Some e" "ah_en s c = Some f" "en_val e = Some p" "en_val f = Some p" for b c e f p
      using val_entry(1) [OF o(3) that(1,3)] val_entry(1) [OF o(3) that(2,4)] by simp
    show "ah_va s p \<noteq> None" if "ah_en s b = Some e" "en_val e = Some p" for b e p by (rule val_entry(2) [OF o(3) that])
  qed
  moreover have "(\<lambda>b. if b \<in> set (0 # xs) then None else ah_en s b) = Map.empty"
  proof
    fix b show "(if b \<in> set (0 # xs) then None else ah_en s b) = None" using ents [of b] by (cases "ah_en s b") auto
  qed
  moreover have "(\<lambda>p. if holds_value (ah_en s) (0 # xs) p then None else ah_va s p) = Map.empty"
    using vals by (fastforce simp: fun_eq_iff holds_value_def)
  ultimately show "\<exists>n. ah_destroy n (Some 0) (ah_en s) (ah_va s) = Some (Map.empty, Map.empty)" by metis
qed

text \<open>Two threads: one inserts a value for the key 1, the other looks it up and has its pointer when the first
  replaces the value and deletes the old one.\<close>

definition ex_dangling :: "int ah_act list" where
  "ex_dangling = [ActInsert 0 1 10 1 1 2, ActGo 0, ActGo 0, ActGo 0, ActGo 0, ActGet 1 1, ActGo 1, ActGo 1,
     ActInsert 0 1 20 2 3 4, ActGo 0, ActGo 0, ActGo 0, ActGo 0]"

text \<open>The first goes on and inserts a value for the key 2, whose address is that of the deleted one.\<close>

definition ex_reused :: "int ah_act list" where
  "ex_reused = ex_dangling @ [ActGo 0, ActInsert 0 2 30 2 1 5, ActGo 0, ActGo 0, ActGo 0, ActGo 0, ActGo 0]"

lemma ex_dangling_run:
  "map_option (\<lambda>(ls, s). ah_pc s 1) (ah_exec (ex_dangling @ [ActGo 1]) ah_new) = Some AhDangling"
  unfolding ex_dangling_def by code_simp

lemma ex_reused_run:
  "map_option fst (ah_exec (ex_reused @ [ActGo 1]) ah_new) =
     Some ([Tau, Tau, Tau, Inserted 1 10, Tau, Tau, Tau, Found 1 10, Tau, Tau, Tau, Inserted 1 20, Tau, Tau,
       Tau, Tau, Tau, Tau, Inserted 2 30, Tau] @ [Got 1 30])"
  unfolding ex_reused_def ex_dangling_def by code_simp

text \<open>C19: Reading is not safe. \<open>Get\<close> hands out a pointer to a value that another thread's \<open>Insert\<close> deletes: its
  reader may find nothing there, or the value of another key that was put at the same address since.\<close>

theorem atomic_map_get_dangles:
  "(\<exists>ls (s :: int ah_bucket). ah_run ls s \<and> ah_pc s 1 = AhDangling)
   \<and> (\<exists>ls (s :: int ah_bucket). ah_run (ls @ [Got 1 30]) s \<and> {v. Inserted 1 v \<in> set ls} = {10, 20})"
proof
  from ex_dangling_run obtain ls s where "ah_exec (ex_dangling @ [ActGo 1]) ah_new = Some (ls, s)" "ah_pc s 1 = AhDangling" by auto
  with ah_exec_run [OF ah_run_new] show "\<exists>ls (s :: int ah_bucket). ah_run ls s \<and> ah_pc s 1 = AhDangling" by fastforce
  let ?ls = "[Tau, Tau, Tau, Inserted 1 10, Tau, Tau, Tau, Found 1 10, Tau, Tau, Tau, Inserted 1 20, Tau, Tau,
       Tau, Tau, Tau, Tau, Inserted 2 30, Tau] :: int ah_label list"
  from ex_reused_run obtain s where "ah_exec (ex_reused @ [ActGo 1]) ah_new = Some (?ls @ [Got 1 30], s)" by auto
  from ah_exec_run [OF ah_run_new this] have "ah_run (?ls @ [Got 1 30]) s" by simp
  moreover have "{v. Inserted 1 v \<in> set ?ls} = {10, 20}" by auto
  ultimately show "\<exists>ls (s :: int ah_bucket). ah_run (ls @ [Got 1 30]) s \<and> {v. Inserted 1 v \<in> set ls} = {10, 20}" by blast
qed

lemma atomic_map_linearizable_witness:
  "\<exists>ls s c. ah_exec ex_reused ah_new = Some (ls, s) \<and> ah_specs ls [] = Some c \<and> chain_ok c"
proof -
  have "ah_exec ex_reused ah_new \<noteq> None" unfolding ex_reused_def ex_dangling_def by code_simp
  then obtain ls s where r: "ah_exec ex_reused ah_new = Some (ls, s)" by auto
  from atomic_map_linearizable [OF ah_exec_run [OF ah_run_new r]] r show ?thesis by auto
qed

lemma atomic_map_memory_safe_witness:
  "\<exists>ls s. ah_exec ex_dangling ah_new = Some (ls, s) \<and> ah_pc s 0 \<noteq> AhFault"
proof -
  have "ah_exec ex_dangling ah_new \<noteq> None" unfolding ex_dangling_def by code_simp
  then obtain ls s where r: "ah_exec ex_dangling ah_new = Some (ls, s)" by auto
  from atomic_map_memory_safe [OF ah_exec_run [OF ah_run_new r], of 0] r show ?thesis by auto
qed

end
