(* ===== verification/Object_Pools.thy ===== *)
theory Object_Pools
  imports Cyber_Prelude
begin

text \<open>
  The two object pools of cyber/base. Both keep the free nodes of a fixed arena in a linked
  list: \<open>ObjectPool\<close> (object_pool.h) for one thread, \<open>CCObjectPool\<close> (concurrent_object_pool.h)
  for many, with a compare-and-swap on a head that carries an operation counter against
  the ABA problem and the number of objects in use. A node is its index in the arena; a
  pointer is an index or \<open>None\<close> for the null pointer.
\<close>

section \<open>Linked free lists\<close>

fun chain :: "(nat \<Rightarrow> nat option) \<Rightarrow> nat option \<Rightarrow> nat list \<Rightarrow> bool" where
  "chain nx p [] = (p = None)"
| "chain nx p (n # ns) = (p = Some n \<and> chain nx (nx n) ns)"

lemma chain_None [simp]: "chain nx None ns \<longleftrightarrow> ns = []"
  by (cases ns) auto

lemma chain_Some: "chain nx (Some n) ns \<longleftrightarrow> (\<exists>ns'. ns = n # ns' \<and> chain nx (nx n) ns')"
  by (cases ns) auto

lemma chain_upd [simp]: "n \<notin> set ns \<Longrightarrow> chain (nx(n := x)) p ns = chain nx p ns"
  by (induction ns arbitrary: p) auto

lemma chain_unique: "chain nx p ns \<Longrightarrow> chain nx p ms \<Longrightarrow> ns = ms"
proof (induction ns arbitrary: p ms)
  case (Cons n ns)
  then show ?case by (cases ms) auto
qed (cases ms; simp)

section \<open>ObjectPool\<close>

record 'a object_pool =
  op_num_objects :: u32
  op_object :: "nat \<Rightarrow> 'a option"
  op_next :: "nat \<Rightarrow> nat option"
  op_free_head :: "nat option"

text \<open>One round of the constructor's loop: construct the object, run \<open>f\<close> on it, link the node.\<close>

definition op_construct :: "('a \<Rightarrow> 'a) \<Rightarrow> 'a \<Rightarrow> nat \<Rightarrow> 'a object_pool \<Rightarrow> 'a object_pool" where
  "op_construct f x i p = p\<lparr>op_object := (op_object p)(i \<mapsto> f x),
                            op_next := (op_next p)(i := op_free_head p),
                            op_free_head := Some i\<rparr>"

definition op_new_init :: "u32 \<Rightarrow> ('a \<Rightarrow> 'a) \<Rightarrow> 'a \<Rightarrow> 'a object_pool" where
  "op_new_init n f x = fold (op_construct f x) [0..<unat n]
     \<lparr>op_num_objects = n, op_object = (\<lambda>_. None), op_next = (\<lambda>_. None), op_free_head = None\<rparr>"

definition op_new :: "u32 \<Rightarrow> 'a \<Rightarrow> 'a object_pool" where
  "op_new n x = op_new_init n (\<lambda>y. y) x"

definition op_ReleaseObject :: "nat option \<Rightarrow> 'a object_pool \<Rightarrow> 'a object_pool" where
  "op_ReleaseObject obj p = (case obj of
       None \<Rightarrow> p
     | Some n \<Rightarrow> p\<lparr>op_next := (op_next p)(n := op_free_head p), op_free_head := Some n\<rparr>)"

definition op_GetObject :: "'a object_pool \<Rightarrow> nat option \<times> 'a object_pool" where
  "op_GetObject p = (case op_free_head p of
       None \<Rightarrow> (None, p)
     | Some n \<Rightarrow> (Some n, p\<lparr>op_free_head := op_next p n\<rparr>))"

text \<open>The destructor destroys the objects from the first to the last.\<close>

definition op_destroy :: "'a object_pool \<Rightarrow> 'a object_pool" where
  "op_destroy p = fold (\<lambda>i p. p\<lparr>op_object := (op_object p)(i := None)\<rparr>) [0..<unat (op_num_objects p)] p"

text \<open>
  A client gets objects and drops the ones it holds: the deleter of the shared pointer then
  gives the node back. The second component are the objects held.
\<close>

datatype pool_op = PoolGet | PoolDrop nat

fun op_client :: "pool_op \<Rightarrow> 'a object_pool \<times> nat set \<Rightarrow> 'a object_pool \<times> nat set" where
  "op_client PoolGet (p, held) =
     (case op_GetObject p of (None, p') \<Rightarrow> (p', held) | (Some n, p') \<Rightarrow> (p', insert n held))"
| "op_client (PoolDrop n) (p, held) =
     (if n \<in> held then (op_ReleaseObject (Some n) p, held - {n}) else (p, held))"

definition pool_inv :: "nat \<Rightarrow> 'a object_pool \<times> nat set \<Rightarrow> bool" where
  "pool_inv m ph = (case ph of (p, held) \<Rightarrow> \<exists>fl. chain (op_next p) (op_free_head p) fl \<and> distinct fl \<and>
     set fl \<inter> held = {} \<and> set fl \<union> held = {0..<m} \<and> (\<forall>i < m. op_object p i \<noteq> None))"

lemma op_construct_all:
  "let p = fold (op_construct f x) [0..<m] p0 in
     op_free_head p0 = None \<longrightarrow> chain (op_next p) (op_free_head p) (rev [0..<m]) \<and>
     (\<forall>i < m. op_object p i = Some (f x)) \<and> op_num_objects p = op_num_objects p0"
  by (induction m) (auto simp: Let_def op_construct_def)

lemma op_new_inv: "pool_inv (unat n) (op_new_init n f x, {})"
  using op_construct_all [of f x "unat n"
      "\<lparr>op_num_objects = n, op_object = (\<lambda>_. None), op_next = (\<lambda>_. None), op_free_head = None\<rparr>"]
  by (auto simp: pool_inv_def op_new_init_def Let_def intro!: exI [of _ "rev [0..<unat n]"])

lemma op_client_inv: "pool_inv m ph \<Longrightarrow> pool_inv m (op_client c ph)"
proof -
  assume i: "pool_inv m ph"
  obtain p held where ph: "ph = (p, held)" by (cases ph)
  obtain fl where fl: "chain (op_next p) (op_free_head p) fl" "distinct fl" "set fl \<inter> held = {}"
      "set fl \<union> held = {0..<m}" "\<forall>i < m. op_object p i \<noteq> None"
    using i by (auto simp: pool_inv_def ph)
  show ?thesis
  proof (cases c)
    case PoolGet
    show ?thesis
    proof (cases fl)
      case Nil
      then show ?thesis using i fl(1) by (simp add: PoolGet ph op_GetObject_def)
    next
      case (Cons n fl')
      then show ?thesis using fl
        by (auto simp: PoolGet ph op_GetObject_def pool_inv_def intro!: exI [of _ fl'])
    qed
  next
    case (PoolDrop n)
    show ?thesis
    proof (cases "n \<in> held")
      case True
      then have "n \<notin> set fl" using fl(3) by blast
      with True fl show ?thesis
        by (auto simp: PoolDrop ph op_ReleaseObject_def pool_inv_def intro!: exI [of _ "n # fl"])
    qed (use i in \<open>simp add: PoolDrop ph\<close>)
  qed
qed

lemma op_clients_inv: "pool_inv m ph \<Longrightarrow> pool_inv m (fold op_client cs ph)"
  by (induction cs arbitrary: ph) (simp_all add: op_client_inv del: split_paired_All)

section \<open>CCObjectPool: compare-and-swap on the head\<close>

record cc_head =
  hd_count :: u64
  hd_net :: i64
  hd_node :: "nat option"

text \<open>
  The program counter of a thread inside the pool. \<open>FindFreeHead\<close> has loaded the old head
  (\<open>CcFind\<close>), then also the next pointer of its node (\<open>CcFindCas\<close>); \<open>ReleaseObject\<close> has loaded the old
  head (\<open>CcRel\<close>), then written its node's next pointer (\<open>CcRelCas\<close>).
\<close>

datatype cc_pc =
    CcIdle
  | CcFind cc_head
  | CcFindCas cc_head "nat option"
  | CcRel nat cc_head
  | CcRelCas nat cc_head

text \<open>
  \<open>cc_out\<close> are the objects in clients' hands. \<open>cc_ops\<close> counts the successful exchanges: it is
  not a field of the program, it says when the 64-bit \<open>count\<close> has wrapped.
\<close>

record cc_pool =
  cc_free_head :: cc_head
  cc_next :: "nat \<Rightarrow> nat option"
  cc_capacity :: u32
  cc_pc :: "nat \<Rightarrow> cc_pc"
  cc_out :: "nat set"
  cc_ops :: nat

text \<open>The constructor writes the node before index 0 when the capacity is 0: undefined.\<close>

definition cc_new :: "u32 \<Rightarrow> cc_pool option" where
  "cc_new n = (if n = 0 then None else Some
     \<lparr>cc_free_head = \<lparr>hd_count = 0, hd_net = 0, hd_node = Some 0\<rparr>,
      cc_next = (\<lambda>i. if i < unat (n - 1) then Some (1 + i) else None),
      cc_capacity = n, cc_pc = (\<lambda>_. CcIdle), cc_out = {}, cc_ops = 0\<rparr>)"

definition cc_size :: "cc_pool \<Rightarrow> u32" where
  "cc_size s = ucast (hd_net (cc_free_head s))"

inductive cc_step :: "cc_pool \<Rightarrow> cc_pool \<Rightarrow> bool" where
  find_load: "cc_pc s t = CcIdle \<Longrightarrow>
     cc_step s (s\<lparr>cc_pc := (cc_pc s)(t := CcFind (cc_free_head s))\<rparr>)"
| find_null: "cc_pc s t = CcFind h \<Longrightarrow> hd_node h = None \<Longrightarrow>
     cc_step s (s\<lparr>cc_pc := (cc_pc s)(t := CcIdle)\<rparr>)"
| find_next: "cc_pc s t = CcFind h \<Longrightarrow> hd_node h = Some n \<Longrightarrow>
     cc_step s (s\<lparr>cc_pc := (cc_pc s)(t := CcFindCas h (cc_next s n))\<rparr>)"
| find_cas: "cc_pc s t = CcFindCas h nx \<Longrightarrow> cc_free_head s = h \<Longrightarrow> hd_node h = Some n \<Longrightarrow>
     cc_step s (s\<lparr>cc_free_head := \<lparr>hd_count = hd_count h + 1, hd_net = hd_net h + 1, hd_node = nx\<rparr>,
                  cc_pc := (cc_pc s)(t := CcIdle), cc_out := insert n (cc_out s), cc_ops := Suc (cc_ops s)\<rparr>)"
| find_retry: "cc_pc s t = CcFindCas h nx \<Longrightarrow>
     cc_step s (s\<lparr>cc_pc := (cc_pc s)(t := CcFind (cc_free_head s))\<rparr>)"
| rel_load: "cc_pc s t = CcIdle \<Longrightarrow> n \<in> cc_out s \<Longrightarrow>
     cc_step s (s\<lparr>cc_pc := (cc_pc s)(t := CcRel n (cc_free_head s)), cc_out := cc_out s - {n}\<rparr>)"
| rel_link: "cc_pc s t = CcRel n h \<Longrightarrow>
     cc_step s (s\<lparr>cc_next := (cc_next s)(n := hd_node h), cc_pc := (cc_pc s)(t := CcRelCas n h)\<rparr>)"
| rel_cas: "cc_pc s t = CcRelCas n h \<Longrightarrow> cc_free_head s = h \<Longrightarrow>
     cc_step s (s\<lparr>cc_free_head := \<lparr>hd_count = hd_count h + 1, hd_net = hd_net h - 1, hd_node = Some n\<rparr>,
                  cc_pc := (cc_pc s)(t := CcIdle), cc_ops := Suc (cc_ops s)\<rparr>)"
| rel_retry: "cc_pc s t = CcRelCas n h \<Longrightarrow>
     cc_step s (s\<lparr>cc_pc := (cc_pc s)(t := CcRel n (cc_free_head s))\<rparr>)"

inductive cc_reach :: "u32 \<Rightarrow> cc_pool \<Rightarrow> bool" for m where
  cc_init: "cc_new m = Some s \<Longrightarrow> cc_reach m s"
| cc_more: "cc_reach m s \<Longrightarrow> cc_step s s' \<Longrightarrow> cc_reach m s'"

text \<open>The node a thread is giving back: neither free nor in a client's hands.\<close>

fun pc_node :: "cc_pc \<Rightarrow> nat option" where
  "pc_node (CcRel n h) = Some n"
| "pc_node (CcRelCas n h) = Some n"
| "pc_node _ = None"

definition cc_holds :: "cc_pool \<Rightarrow> nat \<Rightarrow> nat option" where
  "cc_holds s t = pc_node (cc_pc s t)"

definition cc_releasing :: "cc_pool \<Rightarrow> nat set" where
  "cc_releasing s = ran (cc_holds s)"

text \<open>No node is held by two threads.\<close>

definition inj_map :: "(nat \<Rightarrow> nat option) \<Rightarrow> bool" where
  "inj_map f \<longleftrightarrow> (\<forall>t u n. f t = Some n \<longrightarrow> f u = Some n \<longrightarrow> t = u)"

text \<open>A loaded head is either stale, or the current head; then what was read with it holds.\<close>

definition head_ok :: "cc_pool \<Rightarrow> cc_head \<Rightarrow> bool" where
  "head_ok s h \<longleftrightarrow> (\<exists>k \<le> cc_ops s. hd_count h = of_nat k \<and> (k = cc_ops s \<longrightarrow> h = cc_free_head s))"

fun pc_ok :: "cc_pool \<Rightarrow> cc_pc \<Rightarrow> bool" where
  "pc_ok s CcIdle = True"
| "pc_ok s (CcFind h) = head_ok s h"
| "pc_ok s (CcFindCas h nx) = (head_ok s h \<and>
     (\<exists>n. hd_node h = Some n \<and> (h = cc_free_head s \<longrightarrow> nx = cc_next s n)))"
| "pc_ok s (CcRel n h) = head_ok s h"
| "pc_ok s (CcRelCas n h) = (head_ok s h \<and> cc_next s n = hd_node h)"

definition cc_parts :: "nat \<Rightarrow> cc_pool \<Rightarrow> nat list \<Rightarrow> bool" where
  "cc_parts m s fl \<longleftrightarrow> chain (cc_next s) (hd_node (cc_free_head s)) fl \<and> distinct fl \<and>
     set fl \<inter> cc_out s = {} \<and> set fl \<inter> cc_releasing s = {} \<and> cc_out s \<inter> cc_releasing s = {} \<and>
     set fl \<union> cc_out s \<union> cc_releasing s = {0..<m}"

definition cc_inv :: "nat \<Rightarrow> cc_pool \<Rightarrow> bool" where
  "cc_inv m s \<longleftrightarrow> (\<exists>fl. cc_parts m s fl) \<and>
     inj_map (cc_holds s) \<and>
     hd_net (cc_free_head s) = of_nat (card (cc_out s \<union> cc_releasing s)) \<and>
     hd_count (cc_free_head s) = of_nat (cc_ops s) \<and>
     (\<forall>t. pc_ok s (cc_pc s t))"

lemma cc_holds_upd: "cc_pc s' = (cc_pc s)(t := pc) \<Longrightarrow> cc_holds s' = (cc_holds s)(t := pc_node pc)"
  by (rule ext) (simp add: cc_holds_def)

lemma inj_map_same: "x = f t \<Longrightarrow> f(t := x) = f"
  by (rule ext) simp

lemma inj_map_new: "inj_map f \<Longrightarrow> n \<notin> ran f \<Longrightarrow> inj_map (f(t \<mapsto> n))"
  by (simp add: inj_map_def ran_def) blast

lemma inj_map_gone: "inj_map f \<Longrightarrow> inj_map (f(t := None))"
  by (simp add: inj_map_def)

lemma ran_gone: "inj_map f \<Longrightarrow> f t = Some n \<Longrightarrow> ran (f(t := None)) = ran f - {n}"
  by (auto simp: inj_map_def ran_def) (metis option.inject)

lemma pc_ok_cong:
  assumes "cc_free_head s' = cc_free_head s" and "cc_ops s' = cc_ops s"
    and "\<And>n h nx. p = CcFindCas h nx \<Longrightarrow> h = cc_free_head s \<Longrightarrow> hd_node h = Some n \<Longrightarrow> cc_next s' n = cc_next s n"
    and "\<And>n h. p = CcRelCas n h \<Longrightarrow> cc_next s' n = cc_next s n"
  shows "pc_ok s p \<Longrightarrow> pc_ok s' p"
  using assms by (cases p) (auto simp: head_ok_def)

text \<open>After a successful exchange every head loaded before is stale.\<close>

lemma pc_ok_exchange:
  assumes "cc_ops s' = Suc (cc_ops s)" and "hd_count (cc_free_head s') = of_nat (Suc (cc_ops s))"
    and "Suc (cc_ops s) < 2 ^ 64" and "cc_next s' = cc_next s"
  shows "pc_ok s p \<Longrightarrow> pc_ok s' p"
proof -
  have ne: "h \<noteq> cc_free_head s'" if h: "head_ok s h" for h
  proof -
    obtain k where k: "k \<le> cc_ops s" "hd_count h = of_nat k" using h by (auto simp: head_ok_def)
    then have "(of_nat k :: u64) \<noteq> of_nat (Suc (cc_ops s))"
      using assms(3) by (simp add: word_unat_eq_iff unat_of_nat del: of_nat_Suc)
    with k(2) assms(2) show ?thesis by auto
  qed
  have ok: "head_ok s' h" if h: "head_ok s h" for h
  proof -
    obtain k where "k \<le> cc_ops s" "hd_count h = of_nat k" using h by (auto simp: head_ok_def)
    then show ?thesis using assms(1) by (intro head_ok_def [THEN iffD2] exI [of _ k]) simp
  qed
  assume "pc_ok s p"
  then show ?thesis using ne ok assms(4) by (cases p) auto
qed

lemma pc_ok_upd:
  assumes "pc_ok s' pc" and "\<And>u. u \<noteq> t \<Longrightarrow> pc_ok s' (cc_pc s u)"
  shows "pc_ok s' (((cc_pc s)(t := pc)) u)"
  using assms by simp

lemma pc_ok_frame:
  assumes "cc_free_head s' = cc_free_head s" and "cc_ops s' = cc_ops s" and "cc_next s' = cc_next s"
  shows "pc_ok s' p = pc_ok s p"
  using assms by (cases p) (auto simp: head_ok_def)

lemma cc_invD:
  assumes "cc_inv m s"
  shows inv_parts: "\<exists>fl. cc_parts m s fl"
    and inv_uniq: "inj_map (cc_holds s)"
    and inv_net: "hd_net (cc_free_head s) = of_nat (card (cc_out s \<union> cc_releasing s))"
    and inv_count: "hd_count (cc_free_head s) = of_nat (cc_ops s)"
    and inv_pc: "pc_ok s (cc_pc s t)"
  using assms by (auto simp: cc_inv_def)

text \<open>The steps that only move one thread, without changing which node it holds.\<close>

lemma cc_inv_move:
  assumes "cc_inv m s" and "pc_node pc = pc_node (cc_pc s t)" and "pc_ok s pc"
  shows "cc_inv m (s\<lparr>cc_pc := (cc_pc s)(t := pc)\<rparr>)"
proof -
  let ?s = "s\<lparr>cc_pc := (cc_pc s)(t := pc)\<rparr>"
  have holds: "cc_holds ?s = cc_holds s"
    by (subst cc_holds_upd [of _ s t pc]) (simp_all add: inj_map_same assms(2) cc_holds_def)
  have ok: "pc_ok ?s p = pc_ok s p" for p by (rule pc_ok_frame) simp_all
  have "cc_parts m ?s = cc_parts m s" by (rule ext) (simp add: cc_parts_def cc_releasing_def holds)
  then show ?thesis
    using assms(1,3) by (simp add: cc_inv_def ok holds cc_releasing_def)
qed

lemma cc_out_used_finite: "cc_parts m s fl \<Longrightarrow> finite (cc_out s) \<and> finite (cc_releasing s)"
  unfolding cc_parts_def by (metis finite_Un finite_atLeastLessThan)

lemma cc_inv_find_cas:
  assumes i: "cc_inv m s" and pc: "cc_pc s t = CcFindCas (cc_free_head s) nx"
    and n: "hd_node (cc_free_head s) = Some n" and lim: "Suc (cc_ops s) < 2 ^ 64"
    and s': "s' = s\<lparr>cc_free_head := \<lparr>hd_count = hd_count (cc_free_head s) + 1, hd_net = hd_net (cc_free_head s) + 1, hd_node = nx\<rparr>,
                  cc_pc := (cc_pc s)(t := CcIdle), cc_out := insert n (cc_out s), cc_ops := Suc (cc_ops s)\<rparr>"
  shows "cc_inv m s'"
    and "n \<notin> cc_out s \<union> cc_releasing s"
proof -
  have f: "cc_free_head s' = \<lparr>hd_count = hd_count (cc_free_head s) + 1, hd_net = hd_net (cc_free_head s) + 1, hd_node = nx\<rparr>"
    "cc_next s' = cc_next s" "cc_out s' = insert n (cc_out s)" "cc_pc s' = (cc_pc s)(t := CcIdle)" "cc_ops s' = Suc (cc_ops s)"
    by (simp_all add: s')
  have nx: "nx = cc_next s n" using inv_pc [OF i, of t] pc n by auto
  obtain fl where fl: "cc_parts m s fl" using inv_parts [OF i] by blast
  then obtain fl' where fl': "fl = n # fl'" using n by (auto simp: cc_parts_def chain_Some)
  show out: "n \<notin> cc_out s \<union> cc_releasing s" using fl fl' by (auto simp: cc_parts_def)
  have holds: "cc_holds s' = cc_holds s"
    by (subst cc_holds_upd [of _ s t CcIdle]) (simp_all add: f inj_map_same pc cc_holds_def)
  then have rel: "cc_releasing s' = cc_releasing s" by (simp add: cc_releasing_def)
  have "cc_parts m s' fl'"
    using fl out nx by (auto simp: cc_parts_def rel f fl')
  moreover have "hd_net (cc_free_head s) + 1 = of_nat (card (insert n (cc_out s) \<union> cc_releasing s))"
    using inv_net [OF i] out cc_out_used_finite [OF fl] by (simp add: card_insert_if)
  moreover have "pc_ok s' p" if "pc_ok s p" for p
    by (rule pc_ok_exchange [OF _ _ lim _ that]) (simp_all add: f inv_count [OF i])
  ultimately show "cc_inv m s'"
    using inv_uniq [OF i] inv_count [OF i] inv_pc [OF i]
    by (auto simp: cc_inv_def holds rel f)
qed

lemma cc_inv_rel_load:
  assumes i: "cc_inv m s" and pc: "cc_pc s t = CcIdle" and n: "n \<in> cc_out s"
  shows "cc_inv m (s\<lparr>cc_pc := (cc_pc s)(t := CcRel n (cc_free_head s)), cc_out := cc_out s - {n}\<rparr>)"
    (is "cc_inv m ?s")
proof -
  obtain fl where fl: "cc_parts m s fl" using inv_parts [OF i] by blast
  have holds: "cc_holds ?s = (cc_holds s)(t \<mapsto> n)" by (subst cc_holds_upd [of _ s t "CcRel n (cc_free_head s)"]) simp_all
  have none: "cc_holds s t = None" by (simp add: cc_holds_def pc)
  have rel: "cc_releasing ?s = insert n (cc_releasing s)"
    by (simp add: cc_releasing_def holds none)
  have nr: "n \<notin> ran (cc_holds s)" using fl n by (auto simp: cc_parts_def cc_releasing_def)
  have "cc_parts m ?s fl" using fl n by (auto simp: cc_parts_def rel)
  moreover have "cc_out s - {n} \<union> insert n (cc_releasing s) = cc_out s \<union> cc_releasing s" using n by blast
  moreover have "pc_ok ?s p = pc_ok s p" for p by (rule pc_ok_frame) simp_all
  ultimately show ?thesis
    using inj_map_new [OF inv_uniq [OF i] nr, of t] inv_net [OF i] inv_count [OF i] inv_pc [OF i]
    by (auto simp: cc_inv_def rel holds head_ok_def)
qed

lemma cc_inv_rel_link:
  assumes i: "cc_inv m s" and pc: "cc_pc s t = CcRel n h"
  shows "cc_inv m (s\<lparr>cc_next := (cc_next s)(n := hd_node h), cc_pc := (cc_pc s)(t := CcRelCas n h)\<rparr>)"
    (is "cc_inv m ?s")
proof -
  obtain fl where fl: "cc_parts m s fl" using inv_parts [OF i] by blast
  have holds: "cc_holds ?s = cc_holds s"
    by (subst cc_holds_upd [of _ s t "CcRelCas n h"]) (simp_all add: inj_map_same pc cc_holds_def)
  then have rel: "cc_releasing ?s = cc_releasing s" by (simp add: cc_releasing_def)
  have t: "cc_holds s t = Some n" by (simp add: cc_holds_def pc)
  then have nfl: "n \<notin> set fl" using fl by (auto simp: cc_parts_def cc_releasing_def ran_def)
  then have "cc_parts m ?s fl" using fl by (simp add: cc_parts_def rel)
  moreover have "pc_ok ?s (cc_pc s u)" if u: "u \<noteq> t" for u
  proof (rule pc_ok_cong [OF _ _ _ _ inv_pc [OF i, of u]])
    show "cc_next ?s k = cc_next s k" if "h' = cc_free_head s" "hd_node h' = Some k" for k h'
      using fl nfl that by (auto simp: cc_parts_def chain_Some)
    show "cc_next ?s k = cc_next s k" if "cc_pc s u = CcRelCas k h'" for k h'
      using inv_uniq [OF i] t u that by (auto simp: inj_map_def cc_holds_def)
  qed simp_all
  moreover have "head_ok s h" using inv_pc [OF i, of t] pc by simp
  ultimately show ?thesis
    using inv_uniq [OF i] inv_net [OF i] inv_count [OF i]
    by (auto simp: cc_inv_def rel holds head_ok_def)
qed

lemma cc_inv_rel_cas:
  assumes i: "cc_inv m s" and pc: "cc_pc s t = CcRelCas n (cc_free_head s)"
    and lim: "Suc (cc_ops s) < 2 ^ 64"
    and s': "s' = s\<lparr>cc_free_head := \<lparr>hd_count = hd_count (cc_free_head s) + 1, hd_net = hd_net (cc_free_head s) - 1, hd_node = Some n\<rparr>,
                  cc_pc := (cc_pc s)(t := CcIdle), cc_ops := Suc (cc_ops s)\<rparr>"
  shows "cc_inv m s'"
proof -
  have f: "cc_free_head s' = \<lparr>hd_count = hd_count (cc_free_head s) + 1, hd_net = hd_net (cc_free_head s) - 1, hd_node = Some n\<rparr>"
    "cc_next s' = cc_next s" "cc_out s' = cc_out s" "cc_pc s' = (cc_pc s)(t := CcIdle)" "cc_ops s' = Suc (cc_ops s)"
    by (simp_all add: s')
  obtain fl where fl: "cc_parts m s fl" using inv_parts [OF i] by blast
  have holds: "cc_holds s' = (cc_holds s)(t := None)" by (subst cc_holds_upd [of _ s t CcIdle]) (simp_all add: f)
  have t: "cc_holds s t = Some n" by (simp add: cc_holds_def pc)
  have rel: "cc_releasing s' = cc_releasing s - {n}"
    by (simp add: cc_releasing_def holds ran_gone [OF inv_uniq [OF i] t])
  have n: "n \<in> cc_releasing s" "n \<notin> set fl" "n \<notin> cc_out s"
    using fl t by (auto simp: cc_parts_def cc_releasing_def ran_def)
  have "cc_next s n = hd_node (cc_free_head s)" using inv_pc [OF i, of t] pc by simp
  then have "cc_parts m s' (n # fl)"
    using fl n by (auto simp: cc_parts_def rel f)
  moreover have "hd_net (cc_free_head s) - 1 = of_nat (card (cc_out s \<union> (cc_releasing s - {n})))"
  proof -
    have "cc_out s \<union> cc_releasing s = insert n (cc_out s \<union> (cc_releasing s - {n}))" using n by blast
    moreover have "finite (cc_out s \<union> (cc_releasing s - {n}))" using cc_out_used_finite [OF fl] by simp
    ultimately have "card (cc_out s \<union> cc_releasing s) = Suc (card (cc_out s \<union> (cc_releasing s - {n})))"
      using n by simp
    then show ?thesis using inv_net [OF i] by simp
  qed
  moreover have "pc_ok s' p" if "pc_ok s p" for p
    by (rule pc_ok_exchange [OF _ _ lim _ that]) (simp_all add: f inv_count [OF i])
  ultimately show ?thesis
    using inj_map_gone [OF inv_uniq [OF i], of t] inv_count [OF i] inv_pc [OF i]
    by (auto simp: cc_inv_def holds rel f)
qed

lemma cc_step_ops: "cc_step s s' \<Longrightarrow> cc_ops s \<le> cc_ops s'"
  by (induction rule: cc_step.induct) auto

lemma cc_inv_step: "cc_step s s' \<Longrightarrow> cc_inv m s \<Longrightarrow> cc_ops s' < 2 ^ 64 \<Longrightarrow> cc_inv m s'"
proof (induction rule: cc_step.induct)
  case (find_next s t h n)
  then show ?case using inv_pc [OF find_next(3), of t] by (intro cc_inv_move) auto
next
  case (find_cas s t h nx n)
  show ?case
    by (rule cc_inv_find_cas [where t = t and nx = nx and n = n, OF find_cas(4)])
      (use find_cas in simp_all)
next
  case (rel_cas s t n h)
  show ?case
    by (rule cc_inv_rel_cas [where t = t and n = n, OF rel_cas(3)])
      (use rel_cas in simp_all)
qed (auto intro!: cc_inv_move cc_inv_rel_load cc_inv_rel_link simp: head_ok_def inv_count)

lemma chain_upt:
  "i \<le> m \<Longrightarrow> chain (\<lambda>i. if i < m then Some (1 + i) else None) (Some i) [i..<Suc m]"
proof (induction "m - i" arbitrary: i)
  case (Suc d)
  then have "chain (\<lambda>i. if i < m then Some (1 + i) else None) (Some (Suc i)) [Suc i..<Suc m]" by simp
  moreover have "[i..<Suc m] = i # [Suc i..<Suc m]" using Suc.hyps(2) by (simp add: upt_conv_Cons)
  moreover have "i < m" using Suc.hyps(2) by simp
  ultimately show ?case by (simp del: upt_Suc)
qed simp

lemma cc_new_inv: "cc_new m = Some s \<Longrightarrow> cc_inv (unat m) s"
proof -
  assume s: "cc_new m = Some s"
  then have m: "unat m = Suc (unat (m - 1))" by (auto simp: cc_new_def unat_minus_one unat_gt_0 split: if_splits)
  have "cc_parts (unat m) s [0..<unat m]"
    using s chain_upt [of 0 "unat (m - 1)"] m
    by (auto simp: cc_new_def cc_parts_def cc_releasing_def cc_holds_def ran_def split: if_splits)
  then show ?thesis using s
    by (auto simp: cc_inv_def cc_new_def cc_releasing_def cc_holds_def ran_def inj_map_def split: if_splits)
qed

lemma cc_reach_inv: "cc_reach m s \<Longrightarrow> cc_ops s < 2 ^ 64 \<Longrightarrow> cc_inv (unat m) s"
proof (induction rule: cc_reach.induct)
  case (cc_more s s')
  then show ?case using cc_step_ops [OF cc_more(2)] by (intro cc_inv_step [OF cc_more(2)]) auto
qed (rule cc_new_inv)

lemma used_le: "cc_parts m s fl \<Longrightarrow> card (cc_out s \<union> cc_releasing s) \<le> m"
  by (rule order_trans [OF card_mono [of "{0..<m}"]]) (auto simp: cc_parts_def)

section \<open>Properties\<close>

text \<open>Whatever a client does with an ObjectPool of n objects, GetObject returns the null
  pointer exactly when the client holds all n objects, and otherwise a constructed object of the
  arena that the client does not hold; an object given back is the next one handed out.\<close>

theorem object_pool_hands_out_free_objects:
  assumes "fold op_client cs (op_new_init n f x, {}) = (p, held)"
  shows "held \<subseteq> {0..<unat n} \<and>
    (case op_GetObject p of
       (None, p') \<Rightarrow> held = {0..<unat n} \<and> p' = p
     | (Some i, p') \<Rightarrow> i \<notin> held \<and> i < unat n \<and> op_object p i \<noteq> None) \<and>
    fst (op_GetObject (op_ReleaseObject (Some i) p)) = Some i"
proof -
  have "pool_inv (unat n) (p, held)"
    using op_clients_inv [OF op_new_inv [of n f x], of cs] assms by simp
  then obtain fl where fl: "chain (op_next p) (op_free_head p) fl" "distinct fl" "set fl \<inter> held = {}"
      "set fl \<union> held = {0..<unat n}" "\<forall>i < unat n. op_object p i \<noteq> None"
    by (auto simp: pool_inv_def)
  have "held \<subseteq> {0..<unat n}" using fl(4) by blast
  moreover have "case op_GetObject p of (None, p') \<Rightarrow> held = {0..<unat n} \<and> p' = p
     | (Some i, p') \<Rightarrow> i \<notin> held \<and> i < unat n \<and> op_object p i \<noteq> None"
  proof (cases fl)
    case Nil
    then show ?thesis using fl by (simp add: op_GetObject_def)
  next
    case (Cons j js)
    then have "op_free_head p = Some j" "j \<notin> held" "j < unat n" using fl(1,3,4) by auto
    then show ?thesis using fl(5) by (simp add: op_GetObject_def)
  qed
  moreover have "fst (op_GetObject (op_ReleaseObject (Some i) p)) = Some i"
    by (simp add: op_GetObject_def op_ReleaseObject_def)
  ultimately show ?thesis by blast
qed

theorem object_pool_hands_out_free_objects_witness:
  "fst (op_GetObject (fst (fold op_client [PoolGet, PoolGet, PoolDrop 2] (op_new_init 3 (\<lambda>y. y + 1) (0 :: int), {})))) = Some 2"
proof -
  have "\<exists>p held. fold op_client [PoolGet, PoolGet, PoolDrop 2] (op_new_init 3 (\<lambda>y. y + 1) (0 :: int), {}) = (p, held) \<and>
      op_free_head p = Some 2"
    by (simp add: op_new_init_def op_construct_def op_GetObject_def op_ReleaseObject_def upt_rec)
  then obtain p held where p: "fold op_client [PoolGet, PoolGet, PoolDrop 2] (op_new_init 3 (\<lambda>y. y + 1) (0 :: int), {}) = (p, held)"
    "op_free_head p = Some 2" by blast
  from object_pool_hands_out_free_objects [OF p(1)] p show ?thesis by (simp add: op_GetObject_def)
qed

text \<open>C22: In every reachable state of a CCObjectPool used by any number of threads, as long as the
  64-bit operation counter has not wrapped, the free list, the objects in clients' hands and the
  objects being given back are disjoint and make up the arena; a compare-and-swap that succeeds in
  FindFreeHead therefore hands out an object nobody has, and size() is the number of objects not
  in the free list.\<close>

theorem concurrent_pool_exclusive:
  assumes "cc_reach m s" and "cc_ops s < 2 ^ 64"
  shows "(\<exists>fl. chain (cc_next s) (hd_node (cc_free_head s)) fl \<and> distinct fl \<and>
       set fl \<inter> cc_out s = {} \<and> set fl \<inter> cc_releasing s = {} \<and> cc_out s \<inter> cc_releasing s = {} \<and>
       set fl \<union> cc_out s \<union> cc_releasing s = {0..<unat m}) \<and>
    unat (cc_size s) = card (cc_out s \<union> cc_releasing s) \<and>
    (\<forall>t h nx n. cc_pc s t = CcFindCas h nx \<and> h = cc_free_head s \<and> hd_node h = Some n \<longrightarrow>
       n < unat m \<and> n \<notin> cc_out s \<and> n \<notin> cc_releasing s \<and> nx = cc_next s n)"
proof -
  have i: "cc_inv (unat m) s" by (rule cc_reach_inv [OF assms])
  obtain fl where fl: "cc_parts (unat m) s fl" using inv_parts [OF i] by blast
  have "card (cc_out s \<union> cc_releasing s) < 2 ^ 32"
    using used_le [OF fl] unat_lt_u32 [of m] by simp
  then have "unat (cc_size s) = card (cc_out s \<union> cc_releasing s)"
    by (simp add: cc_size_def inv_net [OF i] unsigned_ucast_eq unat_of_nat take_bit_nat_eq_self)
  moreover have "n < unat m \<and> n \<notin> cc_out s \<and> n \<notin> cc_releasing s \<and> nx = cc_next s n"
    if "cc_pc s t = CcFindCas h nx" "h = cc_free_head s" "hd_node h = Some n" for t h nx n
    using fl that inv_pc [OF i, of t] by (auto simp: cc_parts_def chain_Some)
  ultimately show ?thesis using fl unfolding cc_parts_def by blast
qed

theorem concurrent_pool_exclusive_witness:
  "\<exists>s. cc_reach 2 s \<and> cc_out s = {0} \<and> unat (cc_size s) = card (cc_out s \<union> cc_releasing s)"
proof -
  let ?h = "\<lparr>hd_count = 0, hd_net = 0, hd_node = Some 0\<rparr> :: cc_head"
  let ?s0 = "\<lparr>cc_free_head = ?h, cc_next = (\<lambda>i. if i < unat (2 - 1 :: u32) then Some (1 + i) else None),
      cc_capacity = 2, cc_pc = (\<lambda>_. CcIdle), cc_out = {}, cc_ops = 0\<rparr>"
  let ?s1 = "?s0\<lparr>cc_pc := (cc_pc ?s0)(7 := CcFind (cc_free_head ?s0))\<rparr>"
  let ?s2 = "?s1\<lparr>cc_pc := (cc_pc ?s1)(7 := CcFindCas ?h (cc_next ?s1 0))\<rparr>"
  let ?s3 = "?s2\<lparr>cc_free_head := \<lparr>hd_count = hd_count ?h + 1, hd_net = hd_net ?h + 1, hd_node = cc_next ?s1 0\<rparr>,
                  cc_pc := (cc_pc ?s2)(7 := CcIdle), cc_out := insert 0 (cc_out ?s2), cc_ops := Suc (cc_ops ?s2)\<rparr>"
  have "cc_new 2 = Some ?s0" by (simp add: cc_new_def)
  then have "cc_reach 2 ?s0" by (rule cc_init)
  then have "cc_reach 2 ?s1" by (rule cc_more) (rule find_load, simp)
  then have "cc_reach 2 ?s2" by (rule cc_more) (rule find_next [where h = ?h], simp_all)
  then have r: "cc_reach 2 ?s3" by (rule cc_more) (rule find_cas [where h = ?h], simp_all)
  have "cc_ops ?s3 < 2 ^ 64" "cc_out ?s3 = {0}" by simp_all
  with concurrent_pool_exclusive [OF r] r show ?thesis by blast
qed

end
