(* ===== verification/RW_Locks.thy ===== *)
theory RW_Locks
  imports Cyber_Prelude
begin

text \<open>
  The read-write locks: \<open>AtomicRWLock\<close> (cyber/base/atomic_rw_lock.h), the lock of a shared
  memory \<open>Block\<close> (cyber/transport/shm/block.cc) and \<open>ReentrantRWLock\<close>
  (cyber/base/reentrant_rw_lock.h). Each is a step relation over the threads below a number
  \<open>N\<close>; one step is one access to a shared variable. \<open>lock_num\<close> is kept as an \<open>int\<close>:
  \<open>rw.lock_bounds\<close> shows it stays between -1 and the number of threads.

  The locale \<open>rw_lock\<close> states what a step may do to the lock word, and gives mutual exclusion
  for the two locks that are not reentrant.
\<close>

section \<open>The interface\<close>


text \<open>The effects a step may have on the lock word, the readers and the writers.\<close>

inductive rw_effect :: "int \<times> nat \<times> nat \<Rightarrow> int \<times> nat \<times> nat \<Rightarrow> bool" where
  rw_none: "rw_effect (l, r, w) (l, r, w)"
| rw_read: "0 \<le> l \<Longrightarrow> rw_effect (l, r, w) (l + 1, Suc r, w)"
| rw_unread: "rw_effect (l, Suc r, w) (l - 1, r, w)"
| rw_write: "l = 0 \<Longrightarrow> rw_effect (l, r, w) (- 1, r, Suc w)"
| rw_unwrite: "rw_effect (l, r, Suc w) (l + 1, r, w)"

inductive_cases rw_effectE: "rw_effect (l, r, w) (l', r', w')"


locale rw_lock =
  fixes start :: 's and step :: "'s \<Rightarrow> 's \<Rightarrow> bool"
    and lock_word :: "'s \<Rightarrow> int" and readers :: "'s \<Rightarrow> nat" and writers :: "'s \<Rightarrow> nat" and threads :: nat
  assumes start_free: "lock_word start = 0" "readers start = 0" "writers start = 0"
    and step_effect: "step s s' \<Longrightarrow>
      rw_effect (lock_word s, readers s, writers s) (lock_word s', readers s', writers s')"
    and readers_le: "readers s \<le> threads"
begin

lemma lock_inv:
  "reach start step s \<Longrightarrow> lock_word s = int (readers s) - int (writers s) \<and>
     (readers s = 0 \<or> writers s = 0) \<and> writers s \<le> 1"
proof (induction rule: reach.induct)
  case (reach_step s s')
  from step_effect [OF reach_step(2)] reach_step(3) show ?case by (auto elim!: rw_effectE)
qed (simp add: start_free)

lemma lock_bounds: "reach start step s \<Longrightarrow> -1 \<le> lock_word s \<and> lock_word s \<le> int threads"
  using lock_inv [of s] readers_le [of s] by auto

end

section \<open>AtomicRWLock\<close>

text \<open>
  Where a thread is: outside, or holding the lock for reading or writing (\<open>ArIdle\<close>, \<open>ArReading\<close>,
  \<open>ArWriting\<close>); in \<open>ReadLock\<close> before the loop test with the value of \<open>lock_num\<close> it has
  (\<open>ArTest\<close>), about to load it again (\<open>ArReload\<close>), before the exchange (\<open>ArCas\<close>); in \<open>WriteLock\<close>
  spinning (\<open>ArTry\<close>), or done but still counted as waiting (\<open>ArGot\<close>).
\<close>

datatype ar_pc = ArIdle | ArReload | ArTest int | ArCas int | ArReading | ArTry | ArGot | ArWriting

record ar_lock =
  ar_write_lock_wait_num :: nat
  ar_lock_num :: int
  ar_write_first :: bool
  ar_pc :: "nat \<Rightarrow> ar_pc"

definition RW_LOCK_FREE :: int where "RW_LOCK_FREE = 0"
definition WRITE_EXCLUSIVE :: int where "WRITE_EXCLUSIVE = -1"

lemmas rw_consts [simp] = RW_LOCK_FREE_def WRITE_EXCLUSIVE_def

definition ar_new :: "bool \<Rightarrow> ar_lock" where
  "ar_new wfirst = \<lparr>ar_write_lock_wait_num = 0, ar_lock_num = RW_LOCK_FREE, ar_write_first = wfirst,
                 ar_pc = (\<lambda>_. ArIdle)\<rparr>"

text \<open>The condition on which \<open>ReadLock\<close> keeps spinning.\<close>

definition ar_blocked :: "ar_lock \<Rightarrow> int \<Rightarrow> bool" where
  "ar_blocked s v \<longleftrightarrow> v < RW_LOCK_FREE \<or> (ar_write_first s \<and> 0 < ar_write_lock_wait_num s)"

definition ar_go :: "nat \<Rightarrow> ar_pc \<Rightarrow> ar_lock \<Rightarrow> ar_lock" where
  "ar_go t p s = s\<lparr>ar_pc := (ar_pc s)(t := p)\<rparr>"

inductive ar_step :: "nat \<Rightarrow> ar_lock \<Rightarrow> ar_lock \<Rightarrow> bool" for N where
  read_load: "t < N \<Longrightarrow> ar_pc s t \<in> {ArIdle, ArReload} \<Longrightarrow> ar_step N s (ar_go t (ArTest (ar_lock_num s)) s)"
| read_spin: "t < N \<Longrightarrow> ar_pc s t = ArTest v \<Longrightarrow> ar_blocked s v \<Longrightarrow> ar_step N s (ar_go t ArReload s)"
| read_pass: "t < N \<Longrightarrow> ar_pc s t = ArTest v \<Longrightarrow> \<not> ar_blocked s v \<Longrightarrow> ar_step N s (ar_go t (ArCas v) s)"
| read_cas: "t < N \<Longrightarrow> ar_pc s t = ArCas v \<Longrightarrow> ar_lock_num s = v \<Longrightarrow>
    ar_step N s (ar_go t ArReading (s\<lparr>ar_lock_num := v + 1\<rparr>))"
| read_cas_fail: "t < N \<Longrightarrow> ar_pc s t = ArCas v \<Longrightarrow> ar_step N s (ar_go t (ArTest (ar_lock_num s)) s)"
| read_unlock: "t < N \<Longrightarrow> ar_pc s t = ArReading \<Longrightarrow>
    ar_step N s (ar_go t ArIdle (s\<lparr>ar_lock_num := ar_lock_num s - 1\<rparr>))"
| write_wait: "t < N \<Longrightarrow> ar_pc s t = ArIdle \<Longrightarrow>
    ar_step N s (ar_go t ArTry (s\<lparr>ar_write_lock_wait_num := ar_write_lock_wait_num s + 1\<rparr>))"
| write_cas: "t < N \<Longrightarrow> ar_pc s t = ArTry \<Longrightarrow> ar_lock_num s = RW_LOCK_FREE \<Longrightarrow>
    ar_step N s (ar_go t ArGot (s\<lparr>ar_lock_num := WRITE_EXCLUSIVE\<rparr>))"
| write_cas_fail: "t < N \<Longrightarrow> ar_pc s t = ArTry \<Longrightarrow> ar_step N s s"
| write_done: "t < N \<Longrightarrow> ar_pc s t = ArGot \<Longrightarrow>
    ar_step N s (ar_go t ArWriting (s\<lparr>ar_write_lock_wait_num := ar_write_lock_wait_num s - 1\<rparr>))"
| write_unlock: "t < N \<Longrightarrow> ar_pc s t = ArWriting \<Longrightarrow>
    ar_step N s (ar_go t ArIdle (s\<lparr>ar_lock_num := ar_lock_num s + 1\<rparr>))"

definition ar_readers :: "nat \<Rightarrow> ar_lock \<Rightarrow> nat" where
  "ar_readers N s = cnt (\<lambda>p. p = ArReading) N (ar_pc s)"

definition ar_writers :: "nat \<Rightarrow> ar_lock \<Rightarrow> nat" where
  "ar_writers N s = cnt (\<lambda>p. p = ArGot \<or> p = ArWriting) N (ar_pc s)"

definition ar_waiting :: "nat \<Rightarrow> ar_lock \<Rightarrow> nat" where
  "ar_waiting N s = cnt (\<lambda>p. p = ArTry \<or> p = ArGot) N (ar_pc s)"

lemma ar_go_sel [simp, cyber_state]:
  "ar_write_lock_wait_num (ar_go t p s) = ar_write_lock_wait_num s"
  "ar_lock_num (ar_go t p s) = ar_lock_num s"
  "ar_write_first (ar_go t p s) = ar_write_first s"
  "ar_pc (ar_go t p s) = (ar_pc s)(t := p)"
  by (simp_all add: ar_go_def)

lemma cnt_go:
  "t < N \<Longrightarrow> cnt P N (f(t := p)) = (cnt P N f + (if P p then 1 else 0)) - (if P (f t) then 1 else 0)"
  using cnt_upd [of t N P f p] by simp

lemma ar_cnt_go:
  assumes "t < N"
  shows "ar_readers N (ar_go t p s) =
           (ar_readers N s + (if p = ArReading then 1 else 0)) - (if ar_pc s t = ArReading then 1 else 0)"
    and "ar_writers N (ar_go t p s) = (ar_writers N s + (if p = ArGot \<or> p = ArWriting then 1 else 0)) -
           (if ar_pc s t = ArGot \<or> ar_pc s t = ArWriting then 1 else 0)"
    and "ar_waiting N (ar_go t p s) = (ar_waiting N s + (if p = ArTry \<or> p = ArGot then 1 else 0)) -
           (if ar_pc s t = ArTry \<or> ar_pc s t = ArGot then 1 else 0)"
  unfolding ar_readers_def ar_writers_def ar_waiting_def ar_go_sel by (rule cnt_go [OF assms])+

lemma ar_cnt_pos:
  "t < N \<Longrightarrow> ar_pc s t = ArReading \<Longrightarrow> 0 < ar_readers N s"
  "t < N \<Longrightarrow> ar_pc s t = ArGot \<or> ar_pc s t = ArWriting \<Longrightarrow> 0 < ar_writers N s"
  "t < N \<Longrightarrow> ar_pc s t = ArTry \<or> ar_pc s t = ArGot \<Longrightarrow> 0 < ar_waiting N s"
  unfolding ar_readers_def ar_writers_def ar_waiting_def by (rule cnt_pos; simp)+

lemma ar_cnt_frame [simp]:
  "ar_readers N (s\<lparr>ar_lock_num := l\<rparr>) = ar_readers N s"
  "ar_writers N (s\<lparr>ar_lock_num := l\<rparr>) = ar_writers N s"
  "ar_waiting N (s\<lparr>ar_lock_num := l\<rparr>) = ar_waiting N s"
  "ar_readers N (s\<lparr>ar_write_lock_wait_num := w\<rparr>) = ar_readers N s"
  "ar_writers N (s\<lparr>ar_write_lock_wait_num := w\<rparr>) = ar_writers N s"
  "ar_waiting N (s\<lparr>ar_write_lock_wait_num := w\<rparr>) = ar_waiting N s"
  by (simp_all add: ar_readers_def ar_writers_def ar_waiting_def)

text \<open>A value that passed the test of \<open>ReadLock\<close> is not negative.\<close>

definition ar_ok :: "nat \<Rightarrow> ar_lock \<Rightarrow> bool" where
  "ar_ok N s \<longleftrightarrow> (\<forall>t v. ar_pc s t = ArCas v \<longrightarrow> 0 \<le> v) \<and> ar_write_lock_wait_num s = ar_waiting N s"

definition ar_good_step :: "nat \<Rightarrow> ar_lock \<Rightarrow> ar_lock \<Rightarrow> bool" where
  "ar_good_step N s s' \<longleftrightarrow> ar_ok N s \<and> ar_step N s s'"

lemma ar_step_ok: "ar_step N s s' \<Longrightarrow> ar_ok N s \<Longrightarrow> ar_ok N s'"
  by (induction rule: ar_step.induct) (auto simp: ar_ok_def ar_blocked_def ar_cnt_go)

lemma ar_step_effect:
  "ar_step N s s' \<Longrightarrow> ar_ok N s \<Longrightarrow>
   rw_effect (ar_lock_num s, ar_readers N s, ar_writers N s) (ar_lock_num s', ar_readers N s', ar_writers N s')"
proof (induction rule: ar_step.induct)
  case (read_unlock t s)
  then show ?case using ar_cnt_pos(1) [OF read_unlock(1,2)] rw_unread [of "ar_lock_num s" "ar_readers N s - 1"]
    by (simp add: ar_cnt_go)
next
  case (write_unlock t s)
  then show ?case using ar_cnt_pos(2) [OF write_unlock(1)] rw_unwrite [of "ar_lock_num s" _ "ar_writers N s - 1"]
    by (simp add: ar_cnt_go)
qed (auto simp: ar_cnt_go ar_ok_def intro: rw_effect.intros)

lemma ar_reach_ok: "reach (ar_new wfirst) (ar_step N) s \<Longrightarrow> ar_ok N s \<and> reach (ar_new wfirst) (ar_good_step N) s"
proof (induction rule: reach.induct)
  case reach_init
  show ?case by (simp add: reach.reach_init) (simp add: ar_ok_def ar_new_def ar_waiting_def)
next
  case (reach_step s s')
  then show ?case by (auto intro: ar_step_ok reach.reach_step simp: ar_good_step_def)
qed

interpretation ar: rw_lock "ar_new wfirst" "ar_good_step N" ar_lock_num "ar_readers N" "ar_writers N" N
  by unfold_locales
     (auto simp: ar_good_step_def ar_step_effect,
      simp_all add: ar_new_def ar_readers_def ar_writers_def cnt_le)

section \<open>The lock of a block\<close>

text \<open>
  \<open>TryLockForRead\<close> tests the value it loaded and tries the exchange with it (\<open>BkLoaded\<close>, with
  the number of failed exchanges), loading it again after a failed exchange (\<open>BkReload\<close>).
\<close>

datatype bk_pc = BkIdle | BkLoaded int nat | BkReload nat | BkReading | BkWriting

record bk_lock =
  bk_lock_num :: int
  bk_pc :: "nat \<Rightarrow> bk_pc"

definition kRWLockFree :: int where "kRWLockFree = 0"
definition kWriteExclusive :: int where "kWriteExclusive = -1"
definition kMaxTryLockTimes :: nat where "kMaxTryLockTimes = 5"

lemmas bk_consts [simp] = kRWLockFree_def kWriteExclusive_def kMaxTryLockTimes_def

definition bk_new :: bk_lock where
  "bk_new = \<lparr>bk_lock_num = 0, bk_pc = (\<lambda>_. BkIdle)\<rparr>"

definition bk_go :: "nat \<Rightarrow> bk_pc \<Rightarrow> bk_lock \<Rightarrow> bk_lock" where
  "bk_go t p s = s\<lparr>bk_pc := (bk_pc s)(t := p)\<rparr>"

inductive bk_step :: "nat \<Rightarrow> bk_lock \<Rightarrow> bk_lock \<Rightarrow> bool" for N where
  TryLockForWrite_ok: "t < N \<Longrightarrow> bk_pc s t = BkIdle \<Longrightarrow> bk_lock_num s = kRWLockFree \<Longrightarrow>
    bk_step N s (bk_go t BkWriting (s\<lparr>bk_lock_num := kWriteExclusive\<rparr>))"
| TryLockForWrite_fail: "t < N \<Longrightarrow> bk_pc s t = BkIdle \<Longrightarrow> bk_step N s s"
| TryLockForRead_load: "t < N \<Longrightarrow> bk_pc s t = BkIdle \<Longrightarrow> bk_step N s (bk_go t (BkLoaded (bk_lock_num s) 0) s)"
| TryLockForRead_busy: "t < N \<Longrightarrow> bk_pc s t = BkLoaded v k \<Longrightarrow> v < kRWLockFree \<Longrightarrow> bk_step N s (bk_go t BkIdle s)"
| TryLockForRead_cas: "t < N \<Longrightarrow> bk_pc s t = BkLoaded v k \<Longrightarrow> \<not> v < kRWLockFree \<Longrightarrow> bk_lock_num s = v \<Longrightarrow>
    bk_step N s (bk_go t BkReading (s\<lparr>bk_lock_num := v + 1\<rparr>))"
| TryLockForRead_cas_fail: "t < N \<Longrightarrow> bk_pc s t = BkLoaded v k \<Longrightarrow> \<not> v < kRWLockFree \<Longrightarrow>
    bk_step N s (bk_go t (if k + 1 = kMaxTryLockTimes then BkIdle else BkReload (k + 1)) s)"
| TryLockForRead_reload: "t < N \<Longrightarrow> bk_pc s t = BkReload k \<Longrightarrow>
    bk_step N s (bk_go t (BkLoaded (bk_lock_num s) k) s)"
| ReleaseWriteLock: "t < N \<Longrightarrow> bk_pc s t = BkWriting \<Longrightarrow>
    bk_step N s (bk_go t BkIdle (s\<lparr>bk_lock_num := bk_lock_num s + 1\<rparr>))"
| ReleaseReadLock: "t < N \<Longrightarrow> bk_pc s t = BkReading \<Longrightarrow>
    bk_step N s (bk_go t BkIdle (s\<lparr>bk_lock_num := bk_lock_num s - 1\<rparr>))"

definition bk_readers :: "nat \<Rightarrow> bk_lock \<Rightarrow> nat" where
  "bk_readers N s = cnt (\<lambda>p. p = BkReading) N (bk_pc s)"

definition bk_writers :: "nat \<Rightarrow> bk_lock \<Rightarrow> nat" where
  "bk_writers N s = cnt (\<lambda>p. p = BkWriting) N (bk_pc s)"

lemma bk_go_sel [simp, cyber_state]:
  "bk_lock_num (bk_go t p s) = bk_lock_num s"
  "bk_pc (bk_go t p s) = (bk_pc s)(t := p)"
  by (simp_all add: bk_go_def)

lemma bk_cnt_go:
  assumes "t < N"
  shows "bk_readers N (bk_go t p s) =
           (bk_readers N s + (if p = BkReading then 1 else 0)) - (if bk_pc s t = BkReading then 1 else 0)"
    and "bk_writers N (bk_go t p s) =
           (bk_writers N s + (if p = BkWriting then 1 else 0)) - (if bk_pc s t = BkWriting then 1 else 0)"
  unfolding bk_readers_def bk_writers_def bk_go_sel by (rule cnt_go [OF assms])+

lemma bk_cnt_pos:
  "t < N \<Longrightarrow> bk_pc s t = BkReading \<Longrightarrow> 0 < bk_readers N s"
  "t < N \<Longrightarrow> bk_pc s t = BkWriting \<Longrightarrow> 0 < bk_writers N s"
  unfolding bk_readers_def bk_writers_def by (rule cnt_pos; simp)+

lemma bk_cnt_frame [simp]:
  "bk_readers N (s\<lparr>bk_lock_num := l\<rparr>) = bk_readers N s"
  "bk_writers N (s\<lparr>bk_lock_num := l\<rparr>) = bk_writers N s"
  by (simp_all add: bk_readers_def bk_writers_def)

lemma bk_step_effect:
  "bk_step N s s' \<Longrightarrow>
   rw_effect (bk_lock_num s, bk_readers N s, bk_writers N s) (bk_lock_num s', bk_readers N s', bk_writers N s')"
proof (induction rule: bk_step.induct)
  case (ReleaseReadLock t s)
  then show ?case using bk_cnt_pos(1) [OF ReleaseReadLock(1,2)] rw_unread [of "bk_lock_num s" "bk_readers N s - 1"]
    by (simp add: bk_cnt_go)
next
  case (ReleaseWriteLock t s)
  then show ?case using bk_cnt_pos(2) [OF ReleaseWriteLock(1,2)] rw_unwrite [of "bk_lock_num s" _ "bk_writers N s - 1"]
    by (simp add: bk_cnt_go)
qed (auto simp: bk_cnt_go intro: rw_effect.intros)

interpretation bk: rw_lock bk_new "bk_step N" bk_lock_num "bk_readers N" "bk_writers N" N
  by unfold_locales (auto simp: bk_step_effect, simp_all add: bk_new_def bk_readers_def bk_writers_def cnt_le)

text \<open>The own steps a thread in \<open>TryLockForRead\<close> can still take there.\<close>

fun bk_rank :: "bk_pc \<Rightarrow> nat" where
  "bk_rank (BkLoaded v k) = 2 * (kMaxTryLockTimes - k) + 1"
| "bk_rank (BkReload k) = 2 * (kMaxTryLockTimes - k) + 2"
| "bk_rank _ = 0"

section \<open>ReentrantRWLock\<close>

text \<open>
  The holds of a thread are a stack of guards: for reading, with whether the guard counted
  itself in \<open>lock_num\<close> (\<open>RrRead True\<close>), and for writing. A thread that holds the lock for
  writing takes it again without waiting. The program counters are those of
  \<open>AtomicRWLock\<close>; \<open>RrSub\<close> and \<open>RrUnread\<close> follow the test of \<open>write_thread_id_\<close> in
  \<open>WriteLock\<close> and \<open>ReadUnlock\<close>, \<open>RrSet\<close> follows the exchange of \<open>WriteLock\<close>,
  and \<open>RrClear\<close> the last \<open>WriteUnlock\<close>'s \<open>fetch_add\<close>.
\<close>

datatype rr_hold = RrRead bool | RrWrite

datatype rr_pc = RrIdle | RrReload | RrTest int | RrCas int | RrUnread | RrSub | RrTry | RrSet | RrDone | RrClear

record rr_lock =
  rr_write_thread_id :: "nat option"
  rr_write_lock_wait_num :: nat
  rr_lock_num :: int
  rr_write_first :: bool
  rr_pc :: "nat \<Rightarrow> rr_pc"
  rr_holds :: "nat \<Rightarrow> rr_hold list"

definition rr_new :: "bool \<Rightarrow> rr_lock" where
  "rr_new wfirst = \<lparr>rr_write_thread_id = None, rr_write_lock_wait_num = 0, rr_lock_num = RW_LOCK_FREE,
     rr_write_first = wfirst, rr_pc = (\<lambda>_. RrIdle), rr_holds = (\<lambda>_. [])\<rparr>"

definition rr_blocked :: "rr_lock \<Rightarrow> int \<Rightarrow> bool" where
  "rr_blocked s v \<longleftrightarrow> v < RW_LOCK_FREE \<or> (rr_write_first s \<and> 0 < rr_write_lock_wait_num s)"

definition rr_go :: "nat \<Rightarrow> rr_pc \<Rightarrow> rr_lock \<Rightarrow> rr_lock" where
  "rr_go t p s = s\<lparr>rr_pc := (rr_pc s)(t := p)\<rparr>"

definition rr_hold :: "nat \<Rightarrow> rr_hold list \<Rightarrow> rr_lock \<Rightarrow> rr_lock" where
  "rr_hold t h s = s\<lparr>rr_holds := (rr_holds s)(t := h)\<rparr>"

inductive rr_step :: "nat \<Rightarrow> rr_lock \<Rightarrow> rr_lock \<Rightarrow> bool" for N where
  rr_read_again: "t < N \<Longrightarrow> rr_pc s t = RrIdle \<Longrightarrow> rr_write_thread_id s = Some t \<Longrightarrow>
    rr_step N s (rr_hold t (RrRead False # rr_holds s t) s)"
| rr_read_enter: "t < N \<Longrightarrow> rr_pc s t = RrIdle \<Longrightarrow> rr_write_thread_id s \<noteq> Some t \<Longrightarrow> rr_step N s (rr_go t RrReload s)"
| rr_read_load: "t < N \<Longrightarrow> rr_pc s t = RrReload \<Longrightarrow> rr_step N s (rr_go t (RrTest (rr_lock_num s)) s)"
| rr_read_spin: "t < N \<Longrightarrow> rr_pc s t = RrTest v \<Longrightarrow> rr_blocked s v \<Longrightarrow> rr_step N s (rr_go t RrReload s)"
| rr_read_pass: "t < N \<Longrightarrow> rr_pc s t = RrTest v \<Longrightarrow> \<not> rr_blocked s v \<Longrightarrow> rr_step N s (rr_go t (RrCas v) s)"
| rr_read_cas: "t < N \<Longrightarrow> rr_pc s t = RrCas v \<Longrightarrow> rr_lock_num s = v \<Longrightarrow>
    rr_step N s (rr_go t RrIdle (rr_hold t (RrRead True # rr_holds s t) (s\<lparr>rr_lock_num := v + 1\<rparr>)))"
| rr_read_cas_fail: "t < N \<Longrightarrow> rr_pc s t = RrCas v \<Longrightarrow> rr_step N s (rr_go t (RrTest (rr_lock_num s)) s)"
| rr_write_again: "t < N \<Longrightarrow> rr_pc s t = RrIdle \<Longrightarrow> rr_write_thread_id s = Some t \<Longrightarrow> rr_step N s (rr_go t RrSub s)"
| rr_write_sub: "t < N \<Longrightarrow> rr_pc s t = RrSub \<Longrightarrow>
    rr_step N s (rr_go t RrIdle (rr_hold t (RrWrite # rr_holds s t) (s\<lparr>rr_lock_num := rr_lock_num s - 1\<rparr>)))"
| rr_write_wait: "t < N \<Longrightarrow> rr_pc s t = RrIdle \<Longrightarrow> rr_write_thread_id s \<noteq> Some t \<Longrightarrow>
    rr_step N s (rr_go t RrTry (s\<lparr>rr_write_lock_wait_num := rr_write_lock_wait_num s + 1\<rparr>))"
| rr_write_cas: "t < N \<Longrightarrow> rr_pc s t = RrTry \<Longrightarrow> rr_lock_num s = RW_LOCK_FREE \<Longrightarrow>
    rr_step N s (rr_go t RrSet (rr_hold t (RrWrite # rr_holds s t) (s\<lparr>rr_lock_num := WRITE_EXCLUSIVE\<rparr>)))"
| rr_write_cas_fail: "t < N \<Longrightarrow> rr_pc s t = RrTry \<Longrightarrow> rr_step N s s"
| rr_write_set: "t < N \<Longrightarrow> rr_pc s t = RrSet \<Longrightarrow>
    rr_step N s (rr_go t RrDone (s\<lparr>rr_write_thread_id := Some t\<rparr>))"
| rr_write_done: "t < N \<Longrightarrow> rr_pc s t = RrDone \<Longrightarrow>
    rr_step N s (rr_go t RrIdle (s\<lparr>rr_write_lock_wait_num := rr_write_lock_wait_num s - 1\<rparr>))"
| rr_unread_again: "t < N \<Longrightarrow> rr_pc s t = RrIdle \<Longrightarrow> rr_holds s t = RrRead c # h \<Longrightarrow> rr_write_thread_id s = Some t \<Longrightarrow>
    rr_step N s (rr_hold t h s)"
| rr_unread_test: "t < N \<Longrightarrow> rr_pc s t = RrIdle \<Longrightarrow> rr_holds s t = RrRead c # h \<Longrightarrow> rr_write_thread_id s \<noteq> Some t \<Longrightarrow>
    rr_step N s (rr_go t RrUnread s)"
| rr_unread: "t < N \<Longrightarrow> rr_pc s t = RrUnread \<Longrightarrow> rr_holds s t = RrRead c # h \<Longrightarrow>
    rr_step N s (rr_go t RrIdle (rr_hold t h (s\<lparr>rr_lock_num := rr_lock_num s - 1\<rparr>)))"
| rr_unwrite: "t < N \<Longrightarrow> rr_pc s t = RrIdle \<Longrightarrow> rr_holds s t = RrWrite # h \<Longrightarrow>
    rr_step N s (rr_go t (if rr_lock_num s = WRITE_EXCLUSIVE then RrClear else RrIdle)
      (rr_hold t h (s\<lparr>rr_lock_num := rr_lock_num s + 1\<rparr>)))"
| rr_unwrite_clear: "t < N \<Longrightarrow> rr_pc s t = RrClear \<Longrightarrow>
    rr_step N s (rr_go t RrIdle (s\<lparr>rr_write_thread_id := None\<rparr>))"

definition rr_count :: "rr_hold \<Rightarrow> nat \<Rightarrow> rr_lock \<Rightarrow> nat" where
  "rr_count x N s = (\<Sum>t<N. count_list (rr_holds s t) x)"

abbreviation rr_reads :: "nat \<Rightarrow> rr_lock \<Rightarrow> nat" where "rr_reads \<equiv> rr_count (RrRead True)"
abbreviation rr_writes :: "nat \<Rightarrow> rr_lock \<Rightarrow> nat" where "rr_writes \<equiv> rr_count RrWrite"

text \<open>How much lower the lock word is than the holds say.\<close>

definition rr_lost :: "nat \<Rightarrow> rr_lock \<Rightarrow> int" where
  "rr_lost N s = int (rr_reads N s) - int (rr_writes N s) - rr_lock_num s"

text \<open>Guards that did not count themselves lie above a guard for writing.\<close>

fun rr_stack :: "rr_hold list \<Rightarrow> bool" where
  "rr_stack [] = True"
| "rr_stack (RrRead False # h) = (RrWrite \<in> set h \<and> rr_stack h)"
| "rr_stack (_ # h) = rr_stack h"

definition rr_num_inv :: "nat \<Rightarrow> rr_lock \<Rightarrow> bool" where
  "rr_num_inv N s \<longleftrightarrow> 0 \<le> rr_lost N s \<and> (0 < rr_writes N s \<or> 0 < rr_lost N s \<longrightarrow> rr_reads N s = 0) \<and>
     (0 < rr_lost N s \<longrightarrow> rr_write_thread_id s = None \<and> (\<forall>u. rr_pc s u \<noteq> RrSet))"

definition rr_hold_inv :: "nat \<Rightarrow> rr_lock \<Rightarrow> bool" where
  "rr_hold_inv N s \<longleftrightarrow> (\<forall>t. rr_stack (rr_holds s t)) \<and>
     (\<forall>t u. RrWrite \<in> set (rr_holds s t) \<longrightarrow> RrWrite \<in> set (rr_holds s u) \<longrightarrow> t = u) \<and>
     (\<forall>t. N \<le> t \<longrightarrow> rr_holds s t = [])"

definition rr_pc_inv :: "rr_lock \<Rightarrow> bool" where
  "rr_pc_inv s \<longleftrightarrow>
     (\<forall>t. rr_write_thread_id s = Some t \<longrightarrow> RrWrite \<in> set (rr_holds s t) \<or> rr_pc s t = RrClear) \<and>
     (\<forall>t. rr_pc s t = RrSet \<or> rr_pc s t = RrSub \<longrightarrow> RrWrite \<in> set (rr_holds s t)) \<and>
     (\<forall>t. rr_pc s t = RrUnread \<longrightarrow> rr_write_thread_id s \<noteq> Some t) \<and>
     (\<forall>t. rr_pc s t = RrClear \<longrightarrow> RrWrite \<notin> set (rr_holds s t)) \<and>
     (\<forall>t v. rr_pc s t = RrCas v \<longrightarrow> 0 \<le> v) \<and>
     (\<forall>t u. rr_write_thread_id s = Some u \<longrightarrow> rr_pc s u = RrClear \<longrightarrow> RrWrite \<in> set (rr_holds s t) \<longrightarrow> rr_pc s t = RrSet)"

definition rr_inv :: "nat \<Rightarrow> rr_lock \<Rightarrow> bool" where
  "rr_inv N s \<longleftrightarrow> rr_num_inv N s \<and> rr_hold_inv N s \<and> rr_pc_inv s"

lemma rr_sel [simp, cyber_state]:
  "rr_write_thread_id (rr_go t p s) = rr_write_thread_id s" "rr_lock_num (rr_go t p s) = rr_lock_num s"
  "rr_write_lock_wait_num (rr_go t p s) = rr_write_lock_wait_num s" "rr_write_first (rr_go t p s) = rr_write_first s"
  "rr_pc (rr_go t p s) = (rr_pc s)(t := p)" "rr_holds (rr_go t p s) = rr_holds s"
  "rr_write_thread_id (rr_hold t h s) = rr_write_thread_id s" "rr_lock_num (rr_hold t h s) = rr_lock_num s"
  "rr_write_lock_wait_num (rr_hold t h s) = rr_write_lock_wait_num s" "rr_write_first (rr_hold t h s) = rr_write_first s"
  "rr_pc (rr_hold t h s) = rr_pc s" "rr_holds (rr_hold t h s) = (rr_holds s)(t := h)"
  by (simp_all add: rr_go_def rr_hold_def)

lemma rr_count_frame [simp]:
  "rr_count x N (rr_go t p s) = rr_count x N s"
  "rr_count x N (s\<lparr>rr_lock_num := l\<rparr>) = rr_count x N s"
  "rr_count x N (s\<lparr>rr_write_lock_wait_num := w\<rparr>) = rr_count x N s"
  "rr_count x N (s\<lparr>rr_write_thread_id := i\<rparr>) = rr_count x N s"
  by (simp_all add: rr_count_def)

lemma rr_count_hold:
  "t < N \<Longrightarrow> rr_count x N (rr_hold t h s) + count_list (rr_holds s t) x = rr_count x N s + count_list h x"
  unfolding rr_count_def rr_sel by (rule sum_upd_one [where g = "\<lambda>h. count_list h x"])

lemma rr_count_push:
  "t < N \<Longrightarrow> rr_holds s t = h \<Longrightarrow> rr_count x N (rr_hold t (y # h) s) = rr_count x N s + (if y = x then 1 else 0)"
  using rr_count_hold [of t N x "y # h" s] by (cases "y = x") simp_all

lemma rr_count_pop:
  "t < N \<Longrightarrow> rr_holds s t = y # h \<Longrightarrow> rr_count x N (rr_hold t h s) = rr_count x N s - (if y = x then 1 else 0)"
  using rr_count_hold [of t N x h s] by (cases "y = x") simp_all

lemma rr_count_pos: "t < N \<Longrightarrow> x \<in> set (rr_holds s t) \<Longrightarrow> 0 < rr_count x N s"
  unfolding rr_count_def by (rule sum_pos2 [of _ t]) (auto simp: neq_Nil_conv count_list_0_iff intro: gr0I)

lemma rr_count_zero: "rr_count x N s = 0 \<Longrightarrow> t < N \<Longrightarrow> x \<notin> set (rr_holds s t)"
  using rr_count_pos [of t N x s] by auto

text \<open>When one thread has all the holds of a kind, they are the count.\<close>

lemma rr_count_one:
  assumes "t < N" and "\<And>u. u \<noteq> t \<Longrightarrow> x \<notin> set (rr_holds s u)"
  shows "rr_count x N s = count_list (rr_holds s t) x"
proof -
  have "rr_count x N s = count_list (rr_holds s t) x + (\<Sum>u \<in> {..<N} - {t}. count_list (rr_holds s u) x)"
    unfolding rr_count_def using assms(1) by (intro sum.remove) auto
  also have "(\<Sum>u \<in> {..<N} - {t}. count_list (rr_holds s u) x) = 0"
    using assms(2) by (intro sum.neutral) (simp add: count_list_0_iff)
  finally show ?thesis by simp
qed

lemma rr_hold_frame [simp]:
  "rr_hold_inv N (rr_go t p s) = rr_hold_inv N s"
  "rr_hold_inv N (s\<lparr>rr_lock_num := l\<rparr>) = rr_hold_inv N s"
  "rr_hold_inv N (s\<lparr>rr_write_lock_wait_num := w\<rparr>) = rr_hold_inv N s"
  "rr_hold_inv N (s\<lparr>rr_write_thread_id := i\<rparr>) = rr_hold_inv N s"
  by (simp_all add: rr_hold_inv_def)

lemma rr_stack_push:
  "rr_stack h \<Longrightarrow> y = RrRead True \<or> RrWrite \<in> set h \<or> y = RrWrite \<Longrightarrow> rr_stack (y # h)"
  by (cases "(y # h)" rule: rr_stack.cases) auto

text \<open>A guard for writing is pushed by the thread that has one, or when nobody has.\<close>

lemma rr_hold_push:
  assumes i: "rr_hold_inv N s" and t: "t < N"
    and y: "y = RrRead True \<or> RrWrite \<in> set (rr_holds s t) \<or>
      (y = RrWrite \<and> (\<forall>u. RrWrite \<notin> set (rr_holds s u)))"
  shows "rr_hold_inv N (rr_hold t (y # rr_holds s t) s)"
proof -
  have "rr_stack (y # rr_holds s t)"
    using i y by (intro rr_stack_push) (auto simp: rr_hold_inv_def)
  moreover have w: "RrWrite \<in> set (((rr_holds s)(t := y # rr_holds s t)) u) \<longleftrightarrow>
      RrWrite \<in> set (rr_holds s u) \<or> (u = t \<and> y = RrWrite)" for u by auto
  have "u = v" if "RrWrite \<in> set (rr_holds s u) \<or> (u = t \<and> y = RrWrite)"
    "RrWrite \<in> set (rr_holds s v) \<or> (v = t \<and> y = RrWrite)" for u v
    using that i y by (fastforce simp: rr_hold_inv_def)
  ultimately show ?thesis
    using i t unfolding rr_hold_inv_def rr_sel w by simp
qed

lemma rr_stack_tl: "rr_stack (y # h) \<Longrightarrow> rr_stack h"
  by (cases "(y # h)" rule: rr_stack.cases) auto

lemma rr_hold_pop:
  assumes "rr_hold_inv N s" and "t < N" and "rr_holds s t = y # h"
  shows "rr_hold_inv N (rr_hold t h s)"
proof -
  have "rr_stack (y # h)" using assms(1,3) unfolding rr_hold_inv_def by metis
  then have h: "rr_stack h" by (rule rr_stack_tl)
  have "RrWrite \<in> set h \<Longrightarrow> RrWrite \<in> set (rr_holds s t)" using assms(3) by simp
  then show ?thesis using assms(1,2) h unfolding rr_hold_inv_def rr_sel
    by (simp add: fun_upd_def) (metis not_le)
qed

text \<open>The counts and holds in a state of the invariant.\<close>

lemma rr_write_excl:
  assumes "rr_inv N s" and "t < N" and "RrWrite \<in> set (rr_holds s t)"
  shows "0 < rr_writes N s" and "rr_reads N s = 0" and "RrRead True \<notin> set (rr_holds s u)"
    and "u \<noteq> t \<Longrightarrow> RrWrite \<notin> set (rr_holds s u)"
proof -
  show w: "0 < rr_writes N s" by (rule rr_count_pos [OF assms(2,3)])
  then show r: "rr_reads N s = 0" using assms(1) by (simp add: rr_inv_def rr_num_inv_def)
  show "RrRead True \<notin> set (rr_holds s u)"
  proof (cases "u < N")
    case True
    then show ?thesis by (rule rr_count_zero [OF r])
  next
    case False
    then have "rr_holds s u = []" using assms(1) by (simp add: rr_inv_def rr_hold_inv_def)
    then show ?thesis by simp
  qed
  show "u \<noteq> t \<Longrightarrow> RrWrite \<notin> set (rr_holds s u)"
    using assms(1,3) by (auto simp: rr_inv_def rr_hold_inv_def)
qed

lemma rr_inv_pc_step:
  assumes "rr_inv N s" and "rr_pc_inv (rr_go t p s)" and "p = RrSet \<Longrightarrow> rr_pc s t = RrSet"
  shows "rr_inv N (rr_go t p s)"
  using assms by (auto simp: rr_inv_def rr_num_inv_def rr_lost_def split: if_splits)

lemma rr_inv_wait: "rr_inv N (s\<lparr>rr_write_lock_wait_num := w\<rparr>) = rr_inv N s"
  by (simp add: rr_inv_def rr_num_inv_def rr_lost_def rr_pc_inv_def)

lemma rr_pc_invD:
  assumes "rr_pc_inv s"
  shows "rr_write_thread_id s = Some t \<Longrightarrow> RrWrite \<in> set (rr_holds s t) \<or> rr_pc s t = RrClear"
    and "rr_pc s t = RrSet \<or> rr_pc s t = RrSub \<Longrightarrow> RrWrite \<in> set (rr_holds s t)"
    and "rr_pc s t = RrUnread \<Longrightarrow> rr_write_thread_id s \<noteq> Some t"
    and "rr_pc s t = RrClear \<Longrightarrow> RrWrite \<notin> set (rr_holds s t)"
    and "rr_pc s t = RrCas v \<Longrightarrow> 0 \<le> v"
    and "rr_write_thread_id s = Some u \<Longrightarrow> rr_pc s u = RrClear \<Longrightarrow> RrWrite \<in> set (rr_holds s t) \<Longrightarrow> rr_pc s t = RrSet"
  using assms unfolding rr_pc_inv_def by blast+

text \<open>A step of thread \<open>t\<close> that does not touch \<open>write_thread_id_\<close>, nor whether \<open>t\<close> writes.\<close>

lemma rr_pc_inv_upd:
  assumes i: "rr_pc_inv s"
    and s': "rr_write_thread_id s' = rr_write_thread_id s" "rr_pc s' = (rr_pc s)(t := p)"
      "rr_holds s' = (rr_holds s)(t := h)"
    and w: "RrWrite \<in> set h \<longleftrightarrow> RrWrite \<in> set (rr_holds s t)"
    and old: "rr_pc s t \<noteq> RrSet" "rr_pc s t \<noteq> RrClear"
    and new: "p \<noteq> RrSet" "p \<noteq> RrClear" "p = RrSub \<Longrightarrow> RrWrite \<in> set h"
      "p = RrUnread \<Longrightarrow> rr_write_thread_id s \<noteq> Some t" "\<And>v. p = RrCas v \<Longrightarrow> 0 \<le> v"
  shows "rr_pc_inv s'"
proof -
  have W: "RrWrite \<in> set (((rr_holds s)(t := h)) u) \<longleftrightarrow> RrWrite \<in> set (rr_holds s u)" for u
    using w by simp
  have "RrWrite \<in> set (rr_holds s u) \<or> ((rr_pc s)(t := p)) u = RrClear"
    if "rr_write_thread_id s = Some u" for u
    using rr_pc_invD(1) [OF i that] old by (cases "u = t") auto
  moreover have "RrWrite \<in> set (rr_holds s u)"
    if "((rr_pc s)(t := p)) u = RrSet \<or> ((rr_pc s)(t := p)) u = RrSub" for u
    using rr_pc_invD(2) [OF i, of u] new(1,3) w that by (cases "u = t") auto
  moreover have "rr_write_thread_id s \<noteq> Some u" if "((rr_pc s)(t := p)) u = RrUnread" for u
    using rr_pc_invD(3) [OF i, of u] new(4) that by (cases "u = t") auto
  moreover have "RrWrite \<notin> set (rr_holds s u)" if "((rr_pc s)(t := p)) u = RrClear" for u
    using rr_pc_invD(4) [OF i, of u] new(2) that by (cases "u = t") auto
  moreover have "0 \<le> v" if "((rr_pc s)(t := p)) u = RrCas v" for u v
    using rr_pc_invD(5) [OF i, of u v] new(5) that by (cases "u = t") auto
  moreover have "((rr_pc s)(t := p)) x = RrSet"
    if "rr_write_thread_id s = Some u" "((rr_pc s)(t := p)) u = RrClear" "RrWrite \<in> set (rr_holds s x)" for u x
    using rr_pc_invD(6) [OF i that(1) _ that(3)] that(2) new(2) old(1) by (cases "u = t"; cases "x = t") auto
  ultimately show ?thesis unfolding rr_pc_inv_def s' W by blast
qed

lemma rr_inv_read_cas:
  assumes i: "rr_inv N s" and t: "t < N" and pc: "rr_pc s t = RrCas (rr_lock_num s)"
  shows "rr_inv N (rr_go t RrIdle (rr_hold t (RrRead True # rr_holds s t) (s\<lparr>rr_lock_num := rr_lock_num s + 1\<rparr>)))"
    (is "rr_inv N ?s")
proof -
  let ?s1 = "s\<lparr>rr_lock_num := rr_lock_num s + 1\<rparr>"
  have v: "0 \<le> rr_lock_num s" using i pc rr_pc_invD(5) by (auto simp: rr_inv_def)
  have n: "rr_num_inv N s" using i by (simp add: rr_inv_def)
  then have zero: "rr_writes N s = 0" "rr_lost N s = 0"
    using v by (auto simp: rr_num_inv_def rr_lost_def)
  have "rr_reads N ?s = rr_reads N s + 1" "rr_writes N ?s = rr_writes N s"
    by (simp_all add: rr_count_push [OF t])
  then have "rr_num_inv N ?s" using zero by (simp add: rr_num_inv_def rr_lost_def)
  moreover have "rr_hold_inv N ?s"
    using rr_hold_push [of N ?s1 t "RrRead True"] i t by (simp add: rr_inv_def)
  moreover have "rr_pc_inv ?s" 
    by (rule rr_pc_inv_upd [where s = s and t = t and p = RrIdle and h = "RrRead True # rr_holds s t"]; use i pc  in \<open>simp add: rr_inv_def\<close>)
  ultimately show ?thesis by (simp add: rr_inv_def)
qed

lemma rr_inv_read_again:
  assumes i: "rr_inv N s" and t: "t < N" and pc: "rr_pc s t = RrIdle" and id: "rr_write_thread_id s = Some t"
  shows "rr_inv N (rr_hold t (RrRead False # rr_holds s t) s)" (is "rr_inv N ?s")
proof -
  have w: "RrWrite \<in> set (rr_holds s t)" using i pc id rr_pc_invD(1) [of s t] by (auto simp: rr_inv_def)
  have "rr_reads N ?s = rr_reads N s" "rr_writes N ?s = rr_writes N s"
    by (simp_all add: rr_count_push [OF t])
  then have "rr_num_inv N ?s" using i by (simp add: rr_inv_def rr_num_inv_def rr_lost_def)
  moreover have "rr_hold_inv N ?s" using rr_hold_push [of N s t] i t w by (simp add: rr_inv_def)
  moreover have "rr_pc_inv ?s" 
    by (rule rr_pc_inv_upd [where s = s and t = t and p = RrIdle and h = "RrRead False # rr_holds s t"]; use i pc fun_upd_triv [of "rr_pc s" t] in \<open>simp add: rr_inv_def\<close>)
  ultimately show ?thesis by (simp add: rr_inv_def)
qed

lemma rr_inv_write_sub:
  assumes i: "rr_inv N s" and t: "t < N" and pc: "rr_pc s t = RrSub"
  shows "rr_inv N (rr_go t RrIdle (rr_hold t (RrWrite # rr_holds s t) (s\<lparr>rr_lock_num := rr_lock_num s - 1\<rparr>)))"
    (is "rr_inv N ?s")
proof -
  let ?s1 = "s\<lparr>rr_lock_num := rr_lock_num s - 1\<rparr>"
  have w: "RrWrite \<in> set (rr_holds s t)" using i pc rr_pc_invD(2) [of s t] by (auto simp: rr_inv_def)
  have "rr_reads N ?s = rr_reads N s" "rr_writes N ?s = rr_writes N s + 1"
    by (simp_all add: rr_count_push [OF t])
  then have "rr_num_inv N ?s" using i rr_write_excl(1,2) [OF i t w]
    by (simp add: rr_inv_def rr_num_inv_def rr_lost_def)
  moreover have "rr_hold_inv N ?s" using rr_hold_push [of N ?s1 t] i t w by (simp add: rr_inv_def)
  moreover have "rr_pc_inv ?s" 
    by (rule rr_pc_inv_upd [where s = s and t = t and p = RrIdle and h = "RrWrite # rr_holds s t"]; use i pc w in \<open>simp add: rr_inv_def\<close>)
  ultimately show ?thesis by (simp add: rr_inv_def)
qed

lemma rr_inv_write_cas:
  assumes i: "rr_inv N s" and t: "t < N" and pc: "rr_pc s t = RrTry" and l: "rr_lock_num s = 0"
  shows "rr_inv N (rr_go t RrSet (rr_hold t (RrWrite # rr_holds s t) (s\<lparr>rr_lock_num := -1\<rparr>)))"
    (is "rr_inv N ?s")
proof -
  let ?s1 = "s\<lparr>rr_lock_num := -1\<rparr>"
  have zero: "rr_writes N s = 0" "rr_lost N s = 0" "rr_reads N s = 0"
    using i l by (auto simp: rr_inv_def rr_num_inv_def rr_lost_def)
  have no: "RrWrite \<notin> set (rr_holds s u)" for u
    using rr_write_excl(1) [OF i, of u] zero(1) i by (cases "u < N") (auto simp: rr_inv_def rr_hold_inv_def)
  have "rr_reads N ?s = rr_reads N s" "rr_writes N ?s = rr_writes N s + 1"
    by (simp_all add: rr_count_push [OF t])
  then have "rr_num_inv N ?s" using zero by (simp add: rr_num_inv_def rr_lost_def)
  moreover have "rr_hold_inv N ?s" using rr_hold_push [of N ?s1 t RrWrite] i t no by (simp add: rr_inv_def)
  moreover have "rr_pc_inv ?s" using i no unfolding rr_inv_def rr_pc_inv_def by auto
  ultimately show ?thesis by (simp add: rr_inv_def)
qed

lemma rr_inv_write_set:
  assumes i: "rr_inv N s" and t: "t < N" and pc: "rr_pc s t = RrSet"
  shows "rr_inv N (rr_go t RrDone (s\<lparr>rr_write_thread_id := Some t\<rparr>))" (is "rr_inv N ?s")
proof -
  have w: "RrWrite \<in> set (rr_holds s t)" using i pc rr_pc_invD(2) [of s t] by (auto simp: rr_inv_def)
  have "rr_num_inv N ?s" using i pc by (auto simp: rr_inv_def rr_num_inv_def rr_lost_def)
  moreover have "rr_pc_inv ?s" using i w unfolding rr_inv_def rr_pc_inv_def by auto
  ultimately show ?thesis using i by (simp add: rr_inv_def)
qed

lemma rr_inv_clear:
  assumes i: "rr_inv N s"
  shows "rr_inv N (rr_go t RrIdle (s\<lparr>rr_write_thread_id := None\<rparr>))" (is "rr_inv N ?s")
proof -
  have "rr_num_inv N ?s" using i by (auto simp: rr_inv_def rr_num_inv_def rr_lost_def)
  moreover have "rr_pc_inv ?s" using i unfolding rr_inv_def rr_pc_inv_def by auto
  ultimately show ?thesis using i by (simp add: rr_inv_def)
qed

lemma rr_inv_unread_again:
  assumes i: "rr_inv N s" and t: "t < N" and pc: "rr_pc s t = RrIdle" and h: "rr_holds s t = RrRead c # h"
    and id: "rr_write_thread_id s = Some t"
  shows "rr_inv N (rr_hold t h s)"
proof -
  have w: "RrWrite \<in> set (rr_holds s t)" using i pc id rr_pc_invD(1) [of s t] by (auto simp: rr_inv_def)
  have c: "\<not> c" using rr_write_excl(3) [OF i t w, of t] h by (cases c) auto
  have "rr_reads N (rr_hold t h s) = rr_reads N s" "rr_writes N (rr_hold t h s) = rr_writes N s"
    by (simp_all add: rr_count_pop [OF t h] c)
  then have "rr_num_inv N (rr_hold t h s)" using i by (simp add: rr_inv_def rr_num_inv_def rr_lost_def)
  moreover have "rr_hold_inv N (rr_hold t h s)" using i t h by (intro rr_hold_pop) (simp_all add: rr_inv_def)
  moreover have "rr_pc_inv (rr_hold t h s)" 
    by (rule rr_pc_inv_upd [where s = s and t = t and p = RrIdle and h = "h"]; use i pc h fun_upd_triv [of "rr_pc s" t] in \<open>simp add: rr_inv_def\<close>)
  ultimately show ?thesis by (simp add: rr_inv_def)
qed

lemma rr_inv_unread:
  assumes i: "rr_inv N s" and t: "t < N" and pc: "rr_pc s t = RrUnread" and h: "rr_holds s t = RrRead c # h"
  shows "rr_inv N (rr_go t RrIdle (rr_hold t h (s\<lparr>rr_lock_num := rr_lock_num s - 1\<rparr>)))" (is "rr_inv N ?s")
proof -
  have cnt: "rr_reads N ?s = rr_reads N s - (if c then 1 else 0)" "rr_writes N ?s = rr_writes N s"
    by (simp_all add: rr_count_pop [OF t] h)
  have p: "rr_pc_inv s" and num: "rr_num_inv N s" using i by (simp_all add: rr_inv_def)
  have "rr_num_inv N ?s"
  proof (cases c)
    case True
    then have "0 < rr_reads N s" using rr_count_pos [OF t, of "RrRead True" s] h by simp
    then show ?thesis using num True unfolding rr_num_inv_def rr_lost_def cnt by (auto simp: of_nat_diff)
  next
    case False
    have "rr_stack (rr_holds s t)" using i by (simp add: rr_inv_def rr_hold_inv_def)
    then have w: "RrWrite \<in> set (rr_holds s t)" using h False by simp
    have "rr_write_thread_id s = None"
    proof (cases "rr_write_thread_id s")
      case (Some u)
      then have "u \<noteq> t" using rr_pc_invD(3) [OF p pc] by auto
      then have "rr_pc s u = RrClear" using rr_pc_invD(1) [OF p Some] rr_write_excl(4) [OF i t w] by blast
      from rr_pc_invD(6) [OF p Some this w] show ?thesis using pc by simp
    qed
    moreover have "rr_pc s u \<noteq> RrSet" for u
      using rr_pc_invD(2) [OF p, of u] rr_write_excl(4) [OF i t w, of u] pc by (cases "u = t") auto
    ultimately show ?thesis
      using num rr_write_excl(2) [OF i t w] False unfolding rr_num_inv_def rr_lost_def cnt by simp
  qed
  moreover have "rr_hold_inv N ?s"
    using i t h rr_hold_pop [of N "s\<lparr>rr_lock_num := rr_lock_num s - 1\<rparr>" t] by (simp add: rr_inv_def)
  moreover have "rr_pc_inv ?s"
    by (rule rr_pc_inv_upd [where s = s and t = t and p = RrIdle and h = h]; use p pc h in simp)
  ultimately show ?thesis by (simp add: rr_inv_def)
qed

lemma rr_unwrite_last:
  assumes i: "rr_inv N s" and t: "t < N" and h: "rr_holds s t = RrWrite # h"
  shows "rr_writes N s = 1 + count_list h RrWrite" and "rr_reads N s = 0"
    and "rr_lock_num s = - 1 - int (count_list h RrWrite) - rr_lost N s"
proof -
  have w: "RrWrite \<in> set (rr_holds s t)" using h by simp
  show wr: "rr_writes N s = 1 + count_list h RrWrite"
    using rr_count_one [OF t, of RrWrite s] rr_write_excl(4) [OF i t w] h by simp
  show "rr_reads N s = 0" by (rule rr_write_excl(2) [OF i t w])
  then show "rr_lock_num s = - 1 - int (count_list h RrWrite) - rr_lost N s"
    by (simp add: rr_lost_def wr)
qed

lemma rr_inv_unwrite:
  assumes i: "rr_inv N s" and t: "t < N" and pc: "rr_pc s t = RrIdle" and h: "rr_holds s t = RrWrite # h"
  shows "rr_inv N (rr_go t (if rr_lock_num s = -1 then RrClear else RrIdle)
           (rr_hold t h (s\<lparr>rr_lock_num := rr_lock_num s + 1\<rparr>)))" (is "rr_inv N ?s")
proof -
  have w: "RrWrite \<in> set (rr_holds s t)" using h by simp
  have p: "rr_pc_inv s" and num: "rr_num_inv N s" using i by (simp_all add: rr_inv_def)
  note last = rr_unwrite_last [OF i t h]
  have no: "u \<noteq> t \<Longrightarrow> RrWrite \<notin> set (rr_holds s u)" for u by (rule rr_write_excl(4) [OF i t w])
  have cnt: "rr_reads N ?s = rr_reads N s" "rr_writes N ?s = rr_writes N s - 1"
    by (simp_all add: rr_count_pop [OF t] h)
  have lost: "rr_lost N ?s = rr_lost N s" unfolding rr_lost_def cnt by (simp add: last(1))
  have "rr_num_inv N ?s" using num last(2) unfolding rr_num_inv_def lost cnt by (simp split: if_splits)
  moreover have "rr_hold_inv N ?s"
    using i t h rr_hold_pop [of N "s\<lparr>rr_lock_num := rr_lock_num s + 1\<rparr>" t] by (simp add: rr_inv_def)
  moreover have "rr_pc_inv ?s"
  proof (cases "RrWrite \<in> set h")
    case True
    then have "count_list h RrWrite \<noteq> 0" by (simp add: count_list_0_iff)
    moreover have "0 \<le> rr_lost N s" using num by (simp add: rr_num_inv_def)
    ultimately have "rr_lock_num s \<noteq> -1" using last(3) by linarith
    then have e: "?s = rr_go t RrIdle (rr_hold t h (s\<lparr>rr_lock_num := rr_lock_num s + 1\<rparr>))" by simp
    show ?thesis unfolding e
      by (rule rr_pc_inv_upd [where s = s and t = t and p = RrIdle and h = h]; use p pc h True in simp)
  next
    case False
    then have c: "count_list h RrWrite = 0" by (simp add: count_list_0_iff)
    have lost0: "rr_lock_num s = -1" if "rr_write_thread_id s \<noteq> None"
      using last(3) c num that by (auto simp: rr_num_inv_def)
    have "rr_pc s u = RrClear" if "rr_write_thread_id s = Some u" "u \<noteq> t" for u
      using rr_pc_invD(1) [OF p that(1)] no [OF that(2)] by blast
    moreover have "rr_pc s u \<noteq> RrSet \<and> rr_pc s u \<noteq> RrSub" if "u \<noteq> t" for u
      using rr_pc_invD(2) [OF p, of u] no [OF that] by blast
    ultimately show ?thesis
      using lost0 False no rr_pc_invD(3,5) [OF p] pc unfolding rr_pc_inv_def rr_sel
      by (auto split: if_splits)
  qed
  ultimately show ?thesis by (simp add: rr_inv_def)
qed

lemma rr_inv_move:
  assumes i: "rr_inv N s" and t: "t < N"
    and s': "s' = rr_go t p s \<or> s' = rr_go t p (s\<lparr>rr_write_lock_wait_num := w\<rparr>)"
    and old: "rr_pc s t \<noteq> RrSet" "rr_pc s t \<noteq> RrClear"
    and new: "p \<noteq> RrSet" "p \<noteq> RrClear" "p = RrSub \<Longrightarrow> rr_write_thread_id s = Some t"
      "p = RrUnread \<Longrightarrow> rr_write_thread_id s \<noteq> Some t" "\<And>v. p = RrCas v \<Longrightarrow> 0 \<le> v"
  shows "rr_inv N s'"
proof -
  have sub: "p = RrSub \<Longrightarrow> RrWrite \<in> set (rr_holds s t)"
    using rr_pc_invD(1) [of s t] i old(2) new(3) by (auto simp: rr_inv_def)
  have "rr_pc_inv (rr_go t p s)"
    by (rule rr_pc_inv_upd [where s = s and t = t and p = p and h = "rr_holds s t"])
      (use i old new sub in \<open>simp_all add: rr_inv_def\<close>)
  then have "rr_inv N (rr_go t p s)" by (rule rr_inv_pc_step [OF i]) (use new(1) in simp)
  moreover have "rr_inv N (rr_go t p (s\<lparr>rr_write_lock_wait_num := w\<rparr>)) = rr_inv N (rr_go t p s)"
    by (simp add: rr_inv_def rr_num_inv_def rr_lost_def rr_pc_inv_def)
  ultimately show ?thesis using s' by auto
qed

lemma rr_step_inv: "rr_step N s s' \<Longrightarrow> rr_inv N s \<Longrightarrow> rr_inv N s'"
proof (induction rule: rr_step.induct)
  case (rr_unwrite t s h)
  then show ?case using rr_inv_unwrite [OF rr_unwrite(4,1-3)] by simp
next
  case (rr_write_cas t s)
  then show ?case using rr_inv_write_cas [OF rr_write_cas(4,1-2)] by simp
next
  case (rr_read_cas t s v)
  then show ?case using rr_inv_read_cas [OF rr_read_cas(4,1)] by simp
qed (auto intro: rr_inv_move rr_inv_read_again rr_inv_write_sub rr_inv_write_set rr_inv_unread_again
    rr_inv_unread rr_inv_clear simp: rr_blocked_def)

lemma rr_reach_inv: "reach (rr_new wfirst) (rr_step N) s \<Longrightarrow> rr_inv N s"
proof (induction rule: reach.induct)
  case reach_init
  show ?case by (simp add: rr_inv_def rr_num_inv_def rr_hold_inv_def rr_pc_inv_def rr_lost_def rr_new_def rr_count_def)
qed (rule rr_step_inv)

section \<open>Properties\<close>

definition ar_past_test :: "nat \<Rightarrow> ar_lock \<Rightarrow> nat" where
  "ar_past_test N s = cnt (\<lambda>p. p = ArReading \<or> (\<exists>v. p = ArCas v)) N (ar_pc s)"

lemma ar_past_go:
  "t < N \<Longrightarrow> ar_past_test N (ar_go t p s) =
     (ar_past_test N s + (if p = ArReading \<or> (\<exists>v. p = ArCas v) then 1 else 0)) -
     (if ar_pc s t = ArReading \<or> (\<exists>v. ar_pc s t = ArCas v) then 1 else 0)"
  unfolding ar_past_test_def ar_go_sel by (rule cnt_go)

lemma ar_past_frame [simp]:
  "ar_past_test N (s\<lparr>ar_lock_num := l\<rparr>) = ar_past_test N s"
  "ar_past_test N (s\<lparr>ar_write_lock_wait_num := w\<rparr>) = ar_past_test N s"
  by (simp_all add: ar_past_test_def)

text \<open>C23: AtomicRWLock: in every reachable state there is at most one writer, and no reader beside
  a writer; the lock word is the number of readers or -1, so an int32 holds it; and the waiting
  counter is the number of writers between fetch_add and fetch_sub.\<close>

theorem atomic_rw_lock_mutual_exclusion:
  assumes "reach (ar_new wfirst) (ar_step N) s"
  shows "(ar_readers N s = 0 \<or> ar_writers N s = 0) \<and> ar_writers N s \<le> 1 \<and>
    ar_lock_num s = int (ar_readers N s) - int (ar_writers N s) \<and>
    -1 \<le> ar_lock_num s \<and> ar_lock_num s \<le> int N \<and> ar_write_lock_wait_num s = ar_waiting N s"
proof -
  from ar_reach_ok [OF assms] have r: "reach (ar_new wfirst) (ar_good_step N) s" and "ar_ok N s" by auto
  with ar.lock_inv [OF r] ar.lock_bounds [OF r] show ?thesis by (simp add: ar_ok_def)
qed

theorem atomic_rw_lock_mutual_exclusion_witness:
  "\<exists>s. reach (ar_new True) (ar_step 2) s \<and> ar_lock_num s = -1 \<and> ar_readers 2 s = 0"
proof -
  let ?s1 = "ar_go 1 ArTry ((ar_new True)\<lparr>ar_write_lock_wait_num := ar_write_lock_wait_num (ar_new True) + 1\<rparr>)"
  let ?s2 = "ar_go 1 ArGot (?s1\<lparr>ar_lock_num := WRITE_EXCLUSIVE\<rparr>)"
  have "ar_step 2 (ar_new True) ?s1" by (rule write_wait) (simp_all add: ar_new_def)
  then have "reach (ar_new True) (ar_step 2) ?s1" by (rule reach_one)
  moreover have "ar_step 2 ?s1 ?s2" by (rule write_cas) (simp_all add: ar_new_def)
  ultimately have r: "reach (ar_new True) (ar_step 2) ?s2" by (rule reach_step)
  have "ar_lock_num ?s2 = -1" by simp
  with atomic_rw_lock_mutual_exclusion [OF r] have "ar_readers 2 ?s2 = 0" by linarith
  with r \<open>ar_lock_num ?s2 = -1\<close> show ?thesis by blast
qed

text \<open>With write_first, while a writer waits no further reader gets past the test of
  ReadLock: the number of readers that hold the lock or are about to try the exchange never
  grows.\<close>

theorem atomic_rw_lock_writer_priority:
  assumes "ar_step N s s'" and "ar_write_first s" and "0 < ar_write_lock_wait_num s"
  shows "ar_past_test N s' \<le> ar_past_test N s"
  using assms by (induction rule: ar_step.induct) (auto simp: ar_past_go ar_blocked_def)

theorem atomic_rw_lock_writer_priority_witness:
  "\<exists>s s'. ar_step 2 s s' \<and> ar_past_test 2 s' \<le> ar_past_test 2 s"
proof -
  let ?s = "ar_go 0 (ArTest 0) (ar_go 1 ArTry ((ar_new True)\<lparr>ar_write_lock_wait_num := 1\<rparr>))"
  have s: "ar_step 2 ?s (ar_go 0 ArReload ?s)" by (rule read_spin [of _ _ _ 0]) (simp_all add: ar_blocked_def ar_new_def)
  show ?thesis using atomic_rw_lock_writer_priority [OF s] s by (auto simp: ar_new_def)
qed

text \<open>The lock of a block: at most one writer and no reader beside it; and a thread in
  TryLockForRead is out of it after at most 12 of its own steps, whatever the others do.\<close>

theorem block_lock_mutual_exclusion:
  assumes "reach bk_new (bk_step N) s"
  shows "(bk_readers N s = 0 \<or> bk_writers N s = 0) \<and> bk_writers N s \<le> 1 \<and>
    bk_lock_num s = int (bk_readers N s) - int (bk_writers N s) \<and>
    (\<forall>s' t. bk_step N s s' \<longrightarrow> 0 < bk_rank (bk_pc s t) \<longrightarrow> bk_pc s' t \<noteq> bk_pc s t \<longrightarrow>
       bk_rank (bk_pc s' t) < bk_rank (bk_pc s t)) \<and>
    (\<forall>t. bk_rank (bk_pc s t) \<le> 12)"
proof -
  have r: "bk_rank (bk_pc s' t) < bk_rank (bk_pc s t)"
    if "bk_step N s s'" "0 < bk_rank (bk_pc s t)" "bk_pc s' t \<noteq> bk_pc s t"
      "\<forall>k. bk_pc s t = BkReload k \<longrightarrow> k < 5" "\<forall>v k. bk_pc s t = BkLoaded v k \<longrightarrow> k < 5" for s s' t
    using that by (induction rule: bk_step.induct) (auto split: if_splits)
  have k: "(\<forall>t k. bk_pc s t = BkReload k \<longrightarrow> k < 5) \<and> (\<forall>t v k. bk_pc s t = BkLoaded v k \<longrightarrow> k < 5)"
    using assms
  proof (induction rule: reach.induct)
    case (reach_step s s')
    from reach_step(2,3) show ?case
    proof (induction rule: bk_step.induct)
      case (TryLockForRead_cas_fail t s v k)
      then have "k < 5" by blast
      then have "k + 1 = 5 \<or> k + 1 < 5" by linarith
      with TryLockForRead_cas_fail(4) show ?case by auto
    qed (auto split: if_splits)
  qed (simp add: bk_new_def)
  moreover have "bk_rank (bk_pc s t) \<le> 12" for t by (cases "bk_pc s t") auto
  moreover have "bk_rank (bk_pc s' t) < bk_rank (bk_pc s t)"
    if "bk_step N s s'" "0 < bk_rank (bk_pc s t)" "bk_pc s' t \<noteq> bk_pc s t" for s' t
    using r [OF that] k by blast
  ultimately show ?thesis using bk.lock_inv [OF assms] by (intro conjI allI impI) simp_all
qed

theorem block_lock_mutual_exclusion_witness:
  "\<exists>s. reach bk_new (bk_step 2) s \<and> bk_pc s 1 = BkWriting \<and> bk_readers 2 s = 0"
proof -
  have "bk_step 2 bk_new (bk_go 1 BkWriting (bk_new\<lparr>bk_lock_num := kWriteExclusive\<rparr>))"
    by (rule TryLockForWrite_ok) (simp_all add: bk_new_def)
  then have r: "reach bk_new (bk_step 2) (bk_go 1 BkWriting (bk_new\<lparr>bk_lock_num := kWriteExclusive\<rparr>))"
    by (rule reach_one)
  have "0 < bk_writers 2 (bk_go 1 BkWriting (bk_new\<lparr>bk_lock_num := kWriteExclusive\<rparr>))"
    by (rule bk_cnt_pos(2) [of 1]) simp_all
  with block_lock_mutual_exclusion [OF r] have "bk_readers 2 (bk_go 1 BkWriting (bk_new\<lparr>bk_lock_num := kWriteExclusive\<rparr>)) = 0"
    by linarith
  with r show ?thesis by (intro exI [of _ "bk_go 1 BkWriting (bk_new\<lparr>bk_lock_num := kWriteExclusive\<rparr>)"]) simp
qed

text \<open>ReentrantRWLock: whatever guards the threads nest, a thread that has a guard for writing
  excludes every counted guard for reading and every other thread's guard for writing.\<close>

theorem reentrant_rw_lock_mutual_exclusion:
  assumes "reach (rr_new wfirst) (rr_step N) s" and "t < N" and "RrWrite \<in> set (rr_holds s t)"
  shows "rr_lock_num s < 0 \<and> RrRead True \<notin> set (rr_holds s u) \<and>
    (u \<noteq> t \<longrightarrow> rr_holds s u = [])"
proof -
  have i: "rr_inv N s" by (rule rr_reach_inv [OF assms(1)])
  have "rr_holds s u = []" if "u \<noteq> t"
  proof (cases "rr_holds s u")
    case (Cons x h)
    have w: "RrWrite \<notin> set (rr_holds s u)" and r: "RrRead True \<notin> set (rr_holds s u)"
      using rr_write_excl(3,4) [OF i assms(2,3)] that by auto
    have "rr_stack (x # h)" using i Cons by (auto simp: rr_inv_def rr_hold_inv_def) (metis Cons)
    then show ?thesis using w r Cons by (cases "x # h" rule: rr_stack.cases) auto
  qed simp
  moreover have "rr_lock_num s < 0"
    using rr_write_excl(1,2) [OF i assms(2,3)] i by (simp add: rr_inv_def rr_num_inv_def rr_lost_def)
  ultimately show ?thesis using rr_write_excl(3) [OF i assms(2,3)] by blast
qed

text \<open>A run: thread 1 takes the lock for writing, thread 0 waits, thread 1 gives it back.\<close>

theorem reentrant_rw_lock_mutual_exclusion_witness:
  "\<exists>s. reach (rr_new True) (rr_step 2) s \<and> rr_holds s 1 = [RrWrite] \<and> rr_holds s 0 = []"
proof -
  let ?s1 = "rr_go 1 RrTry ((rr_new True)\<lparr>rr_write_lock_wait_num := rr_write_lock_wait_num (rr_new True) + 1\<rparr>)"
  let ?s2 = "rr_go 1 RrSet (rr_hold 1 (RrWrite # rr_holds ?s1 1) (?s1\<lparr>rr_lock_num := WRITE_EXCLUSIVE\<rparr>))"
  have "rr_step 2 (rr_new True) ?s1" by (rule rr_write_wait) (simp_all add: rr_new_def)
  then have "reach (rr_new True) (rr_step 2) ?s1" by (rule reach_one)
  moreover have "rr_step 2 ?s1 ?s2" by (rule rr_write_cas) (simp_all add: rr_new_def)
  ultimately have r: "reach (rr_new True) (rr_step 2) ?s2" by (rule reach_step)
  have "RrWrite \<in> set (rr_holds ?s2 1)" by simp
  from reentrant_rw_lock_mutual_exclusion [OF r _ this, of 0] r show ?thesis
    by (intro exI [of _ ?s2]) (simp add: rr_new_def)
qed

section \<open>The race in WriteUnlock\<close>

text \<open>
  \<open>WriteUnlock\<close> frees the lock word before it clears \<open>write_thread_id_\<close>. The clearing can
  hit the next writer's id, so that a nested guard for reading of that writer, which did not count
  itself, counts itself out. The lock word is then -1 with no guard left.
\<close>

fun stuck_pc :: "rr_pc \<Rightarrow> bool" where
  "stuck_pc RrIdle = True"
| "stuck_pc RrReload = True"
| "stuck_pc (RrTest v) = (v < 0)"
| "stuck_pc RrTry = True"
| "stuck_pc _ = False"

definition rr_stuck :: "rr_lock \<Rightarrow> bool" where
  "rr_stuck s \<longleftrightarrow> rr_lock_num s = -1 \<and> rr_write_thread_id s = None \<and> (\<forall>t. rr_holds s t = []) \<and>
     (\<forall>t. stuck_pc (rr_pc s t))"

lemma stuck_pcD: "\<forall>t. stuck_pc (f t) \<Longrightarrow> f t = p \<Longrightarrow> stuck_pc p"
  by auto

lemma rr_stuck_step: "rr_step N s s' \<Longrightarrow> rr_stuck s \<Longrightarrow> rr_stuck s'"
  unfolding rr_stuck_def
  by (induction rule: rr_step.induct) (auto simp: rr_blocked_def dest: stuck_pcD)

lemma rr_stuck_reach: "reach s (rr_step N) s' \<Longrightarrow> rr_stuck s \<Longrightarrow> rr_stuck s'"
  by (induction rule: reach.induct) (auto intro: rr_stuck_step)

text \<open>The schedule that gets there.\<close>

definition race_s1 :: rr_lock where
  "race_s1 = rr_go 0 RrTry ((rr_new True)\<lparr>rr_write_lock_wait_num := 1\<rparr>)"

definition race_s2 :: rr_lock where
  "race_s2 = rr_go 0 RrSet (rr_hold 0 [RrWrite] (race_s1\<lparr>rr_lock_num := -1\<rparr>))"

definition race_s3 :: rr_lock where
  "race_s3 = rr_go 0 RrDone (race_s2\<lparr>rr_write_thread_id := Some 0\<rparr>)"

definition race_s4 :: rr_lock where
  "race_s4 = rr_go 0 RrIdle (race_s3\<lparr>rr_write_lock_wait_num := 0\<rparr>)"

definition race_s5 :: rr_lock where
  "race_s5 = rr_go 0 RrClear (rr_hold 0 [] (race_s4\<lparr>rr_lock_num := 0\<rparr>))"

definition race_s6 :: rr_lock where
  "race_s6 = rr_go 1 RrTry (race_s5\<lparr>rr_write_lock_wait_num := 1\<rparr>)"

definition race_s7 :: rr_lock where
  "race_s7 = rr_go 1 RrSet (rr_hold 1 [RrWrite] (race_s6\<lparr>rr_lock_num := -1\<rparr>))"

definition race_s8 :: rr_lock where
  "race_s8 = rr_go 1 RrDone (race_s7\<lparr>rr_write_thread_id := Some 1\<rparr>)"

definition race_s9 :: rr_lock where
  "race_s9 = rr_go 1 RrIdle (race_s8\<lparr>rr_write_lock_wait_num := 0\<rparr>)"

definition race_s10 :: rr_lock where
  "race_s10 = rr_hold 1 [RrRead False, RrWrite] race_s9"

definition race_s11 :: rr_lock where
  "race_s11 = rr_go 0 RrIdle (race_s10\<lparr>rr_write_thread_id := None\<rparr>)"

definition race_s12 :: rr_lock where
  "race_s12 = rr_go 1 RrUnread race_s11"

definition race_s13 :: rr_lock where
  "race_s13 = rr_go 1 RrIdle (rr_hold 1 [RrWrite] (race_s12\<lparr>rr_lock_num := -2\<rparr>))"

definition race_s14 :: rr_lock where
  "race_s14 = rr_go 1 RrIdle (rr_hold 1 [] (race_s13\<lparr>rr_lock_num := -1\<rparr>))"

lemmas race_defs = race_s1_def race_s2_def race_s3_def race_s4_def race_s5_def race_s6_def race_s7_def race_s8_def race_s9_def race_s10_def race_s11_def race_s12_def race_s13_def race_s14_def rr_new_def rr_go_def rr_hold_def

lemma race_step_s1: "rr_step 2 (rr_new True) race_s1"
  using rr_write_wait [of 0 2 "rr_new True"] by (simp add: race_defs)

lemma race_step_s2: "rr_step 2 (race_s1) race_s2"
  using rr_write_cas [of 0 2 "race_s1"] by (simp add: race_defs)

lemma race_step_s3: "rr_step 2 (race_s2) race_s3"
  using rr_write_set [of 0 2 "race_s2"] by (simp add: race_defs)

lemma race_step_s4: "rr_step 2 (race_s3) race_s4"
  using rr_write_done [of 0 2 "race_s3"] by (simp add: race_defs)

lemma race_step_s5: "rr_step 2 (race_s4) race_s5"
  using rr_unwrite [of 0 2 "race_s4"] by (simp add: race_defs)

lemma race_step_s6: "rr_step 2 (race_s5) race_s6"
  using rr_write_wait [of 1 2 "race_s5"] by (simp add: race_defs)

lemma race_step_s7: "rr_step 2 (race_s6) race_s7"
  using rr_write_cas [of 1 2 "race_s6"] by (simp add: race_defs)

lemma race_step_s8: "rr_step 2 (race_s7) race_s8"
  using rr_write_set [of 1 2 "race_s7"] by (simp add: race_defs)

lemma race_step_s9: "rr_step 2 (race_s8) race_s9"
  using rr_write_done [of 1 2 "race_s8"] by (simp add: race_defs)

lemma race_step_s10: "rr_step 2 (race_s9) race_s10"
  using rr_read_again [of 1 2 "race_s9"] by (simp add: race_defs)

lemma race_step_s11: "rr_step 2 (race_s10) race_s11"
  using rr_unwrite_clear [of 0 2 "race_s10"] by (simp add: race_defs)

lemma race_step_s12: "rr_step 2 (race_s11) race_s12"
  using rr_unread_test [of 1 2 "race_s11" False "[RrWrite]"] by (simp add: race_defs)

lemma race_step_s13: "rr_step 2 (race_s12) race_s13"
  using rr_unread [of 1 2 "race_s12" False "[RrWrite]"] by (simp add: race_defs)

lemma race_step_s14: "rr_step 2 (race_s13) race_s14"
  using rr_unwrite [of 1 2 "race_s13"] by (simp add: race_defs)

lemma race_reach: "reach (rr_new True) (rr_step 2) race_s14"
proof -
  have "reach (rr_new True) (rr_step 2) race_s1" by (rule reach_one, rule race_step_s1)
  then have "reach (rr_new True) (rr_step 2) race_s2" by (rule reach_step, intro race_step_s2)
  then have "reach (rr_new True) (rr_step 2) race_s3" by (rule reach_step, intro race_step_s3)
  then have "reach (rr_new True) (rr_step 2) race_s4" by (rule reach_step, intro race_step_s4)
  then have "reach (rr_new True) (rr_step 2) race_s5" by (rule reach_step, intro race_step_s5)
  then have "reach (rr_new True) (rr_step 2) race_s6" by (rule reach_step, intro race_step_s6)
  then have "reach (rr_new True) (rr_step 2) race_s7" by (rule reach_step, intro race_step_s7)
  then have "reach (rr_new True) (rr_step 2) race_s8" by (rule reach_step, intro race_step_s8)
  then have "reach (rr_new True) (rr_step 2) race_s9" by (rule reach_step, intro race_step_s9)
  then have "reach (rr_new True) (rr_step 2) race_s10" by (rule reach_step, intro race_step_s10)
  then have "reach (rr_new True) (rr_step 2) race_s11" by (rule reach_step, intro race_step_s11)
  then have "reach (rr_new True) (rr_step 2) race_s12" by (rule reach_step, intro race_step_s12)
  then have "reach (rr_new True) (rr_step 2) race_s13" by (rule reach_step, intro race_step_s13)
  then show ?thesis by (rule reach_step, intro race_step_s14)
qed

text \<open>ReentrantRWLock can lock itself up: two threads that use their guards correctly can reach
  a state without any guard in which the lock word is -1, and no thread gets a guard ever again.\<close>

theorem reentrant_rw_lock_lost:
  "\<exists>s. reach (rr_new True) (rr_step 2) s \<and> (\<forall>t. rr_pc s t = RrIdle \<and> rr_holds s t = []) \<and>
     {s'. reach s (rr_step 2) s'} \<subseteq> {s'. rr_lock_num s' = -1 \<and> (\<forall>t. rr_holds s' t = [])}"
proof (intro exI conjI allI subsetI CollectI; (drule CollectD)?)
  show "reach (rr_new True) (rr_step 2) race_s14" by (rule race_reach)
  show "rr_pc race_s14 t = RrIdle" "rr_holds race_s14 t = []" for t by (simp_all add: race_defs)
  have "rr_stuck race_s14" by (simp add: rr_stuck_def race_defs)
  then show "rr_lock_num s' = -1" "rr_holds s' t = []" if "reach race_s14 (rr_step 2) s'" for s' t
    using rr_stuck_reach [OF that] by (simp_all add: rr_stuck_def)
qed

end
