(* ===== verification/Timing_Wheel.thy ===== *)
theory Timing_Wheel
  imports Cyber_Prelude "HOL-Library.Multiset"
begin

text \<open>
  The timer component (cyber/timer): the hierarchical timing wheel of timing_wheel.cc with its
  buckets (timer_bucket.h) and tasks (timer_task.h), and the timers of timer.cc on top of it.

  A bucket is a list of weak pointers; a task is named by a number and lives in the task store as
  long as its timer keeps it. Reading the clock and running callbacks are inputs. The
  abstraction \<open>tw_pending w n\<close> lists the live tasks due \<open>n\<close> ticks from now; \<open>tw_due\<close> says when the
  wheel fires a task, which is its duration except in one range.
\<close>

section \<open>Tasks, buckets and the wheel\<close>

record timer_task =
  tt_timer_id :: u64
  tt_interval_ms :: u64
  tt_remainder_interval_ms :: u64
  tt_next_fire_duration_ms :: u64
  tt_accumulated_error_ns :: i64
  tt_last_execute_time_ns :: u64

definition timer_task_new :: "u64 \<Rightarrow> timer_task" where
  "timer_task_new timer_id = \<lparr>tt_timer_id = timer_id, tt_interval_ms = 0, tt_remainder_interval_ms = 0,
     tt_next_fire_duration_ms = 0, tt_accumulated_error_ns = 0, tt_last_execute_time_ns = 0\<rparr>"

type_synonym timer_bucket = "nat list"

definition tb_AddTask :: "nat \<Rightarrow> timer_bucket \<Rightarrow> timer_bucket" where
  "tb_AddTask i b = b @ [i]"

definition WORK_WHEEL_SIZE :: u64 where "WORK_WHEEL_SIZE = 512"
definition ASSISTANT_WHEEL_SIZE :: u64 where "ASSISTANT_WHEEL_SIZE = 64"
definition TIMER_RESOLUTION_MS :: u64 where "TIMER_RESOLUTION_MS = 1"
definition TIMER_MAX_INTERVAL_MS :: u64 where
  "TIMER_MAX_INTERVAL_MS = WORK_WHEEL_SIZE * ASSISTANT_WHEEL_SIZE"

lemmas wheel_sizes = WORK_WHEEL_SIZE_def ASSISTANT_WHEEL_SIZE_def TIMER_MAX_INTERVAL_MS_def

text \<open>\<open>tw_fresh\<close> is the number of the next task to be created; it is no field of the program.\<close>

record timing_wheel =
  tw_running :: bool
  tw_work_wheel :: "timer_bucket list"
  tw_assistant_wheel :: "timer_bucket list"
  tw_current_work_wheel_index :: u64
  tw_current_assistant_wheel_index :: u64
  tw_tasks :: "nat \<Rightarrow> timer_task option"
  tw_fresh :: nat

definition tw_new :: timing_wheel where
  "tw_new = \<lparr>tw_running = False, tw_work_wheel = replicate 512 [], tw_assistant_wheel = replicate 64 [],
     tw_current_work_wheel_index = 0, tw_current_assistant_wheel_index = 0,
     tw_tasks = (\<lambda>_. None), tw_fresh = 0\<rparr>"

definition GetWorkWheelIndex :: "u64 \<Rightarrow> u64" where
  "GetWorkWheelIndex index = index AND (WORK_WHEEL_SIZE - 1)"

definition GetAssistantWheelIndex :: "u64 \<Rightarrow> u64" where
  "GetAssistantWheelIndex index = index AND (ASSISTANT_WHEEL_SIZE - 1)"

text \<open>Starting runs the tick thread, which \<open>tw_advance\<close> below stands for; joining it is not modelled.\<close>

definition tw_Start :: "timing_wheel \<Rightarrow> timing_wheel" where
  "tw_Start w = (if \<not> tw_running w then w\<lparr>tw_running := True\<rparr> else w)"

definition tw_Shutdown :: "timing_wheel \<Rightarrow> timing_wheel" where
  "tw_Shutdown w = (if tw_running w then w\<lparr>tw_running := False\<rparr> else w)"

definition tw_live :: "timing_wheel \<Rightarrow> nat \<Rightarrow> bool" where
  "tw_live w i \<longleftrightarrow> tw_tasks w i \<noteq> None"

text \<open>\<open>Tick\<close> hands the callbacks of the live tasks of the current bucket to \<open>Async\<close> and empties it.\<close>

definition tw_Tick :: "timing_wheel \<Rightarrow> nat list \<times> timing_wheel" where
  "tw_Tick w = (let i = unat (tw_current_work_wheel_index w) in
     (filter (tw_live w) (tw_work_wheel w ! i), w\<lparr>tw_work_wheel := (tw_work_wheel w)[i := []]\<rparr>))"

definition tw_add_work :: "u64 \<Rightarrow> nat \<Rightarrow> timing_wheel \<Rightarrow> timing_wheel" where
  "tw_add_work k i w = w\<lparr>tw_work_wheel := (tw_work_wheel w)[unat k := tb_AddTask i (tw_work_wheel w ! unat k)]\<rparr>"

definition tw_add_assistant :: "u64 \<Rightarrow> nat \<Rightarrow> timing_wheel \<Rightarrow> timing_wheel" where
  "tw_add_assistant k i w =
     w\<lparr>tw_assistant_wheel := (tw_assistant_wheel w)[unat k := tb_AddTask i (tw_assistant_wheel w ! unat k)]\<rparr>"

definition tw_AddTask_at :: "nat \<Rightarrow> timer_task \<Rightarrow> u64 \<Rightarrow> timing_wheel \<Rightarrow> timing_wheel" where
  "tw_AddTask_at i task current w0 =
     (let w = (if \<not> tw_running w0 then tw_Start w0 else w0);
          work_wheel_index = current + tt_next_fire_duration_ms task in
      if WORK_WHEEL_SIZE \<le> work_wheel_index then
        let real = GetWorkWheelIndex work_wheel_index;
            w1 = w\<lparr>tw_tasks := (tw_tasks w)(i \<mapsto> task\<lparr>tt_remainder_interval_ms := real\<rparr>)\<rparr>;
            assistant_ticks = work_wheel_index div WORK_WHEEL_SIZE in
        if assistant_ticks = 1 \<and> real \<noteq> tw_current_work_wheel_index w then tw_add_work real i w1
        else tw_add_assistant (GetAssistantWheelIndex (tw_current_assistant_wheel_index w + assistant_ticks)) i w1
      else tw_add_work work_wheel_index i w)"

definition tw_AddTask :: "nat \<Rightarrow> timing_wheel \<Rightarrow> timing_wheel option" where
  "tw_AddTask i w = (case tw_tasks w i of
       None \<Rightarrow> None
     | Some task \<Rightarrow> Some (tw_AddTask_at i task (tw_current_work_wheel_index w) w))"

definition tw_cascade_one :: "nat \<Rightarrow> timing_wheel \<Rightarrow> timing_wheel" where
  "tw_cascade_one i w = (case tw_tasks w i of
       None \<Rightarrow> w
     | Some task \<Rightarrow> tw_add_work (tt_remainder_interval_ms task) i w)"

definition tw_Cascade :: "u64 \<Rightarrow> timing_wheel \<Rightarrow> timing_wheel" where
  "tw_Cascade k w =
     (let w' = fold tw_cascade_one (tw_assistant_wheel w ! unat k) w in
      w'\<lparr>tw_assistant_wheel := (tw_assistant_wheel w')[unat k := []]\<rparr>)"

text \<open>The loop of \<open>TickFunc\<close> from the end of one sleep to the end of the next \<open>Tick\<close>.\<close>

definition tw_turn :: "timing_wheel \<Rightarrow> timing_wheel" where
  "tw_turn w0 =
     (let w = w0\<lparr>tw_current_work_wheel_index := GetWorkWheelIndex (tw_current_work_wheel_index w0 + 1)\<rparr> in
      if tw_current_work_wheel_index w = 0 then
        let a = GetAssistantWheelIndex (tw_current_assistant_wheel_index w + 1) in
        tw_Cascade a (w\<lparr>tw_current_assistant_wheel_index := a\<rparr>)
      else w)"

definition tw_advance :: "timing_wheel \<Rightarrow> nat list \<times> timing_wheel" where
  "tw_advance w = tw_Tick (tw_turn w)"

section \<open>When tasks are due\<close>

abbreviation cur :: "timing_wheel \<Rightarrow> nat" where "cur w \<equiv> unat (tw_current_work_wheel_index w)"
abbreviation acur :: "timing_wheel \<Rightarrow> nat" where "acur w \<equiv> unat (tw_current_assistant_wheel_index w)"

definition tw_rem :: "timing_wheel \<Rightarrow> nat \<Rightarrow> nat" where
  "tw_rem w i = (case tw_tasks w i of None \<Rightarrow> 0 | Some task \<Rightarrow> unat (tt_remainder_interval_ms task))"

text \<open>The tasks of the assistant bucket reached at absolute tick \<open>T\<close> that fire at it.\<close>

definition assist_at :: "timing_wheel \<Rightarrow> nat \<Rightarrow> nat list" where
  "assist_at w T = (if 1 \<le> T div 512 \<and> T div 512 \<le> 64
     then filter (\<lambda>i. tw_rem w i = T mod 512) (tw_assistant_wheel w ! ((acur w + T div 512) mod 64)) else [])"

definition work_at :: "timing_wheel \<Rightarrow> nat \<Rightarrow> nat list" where
  "work_at w n = (if n \<le> 512 then tw_work_wheel w ! ((cur w + n) mod 512) else [])"

definition tw_pending :: "timing_wheel \<Rightarrow> nat \<Rightarrow> nat list" where
  "tw_pending w n = filter (tw_live w) (work_at w n @ assist_at w (cur w + n))"

text \<open>The tick at which the wheel fires a task of duration \<open>d\<close> added at position \<open>c\<close>.\<close>

definition tw_due :: "nat \<Rightarrow> nat \<Rightarrow> nat" where
  "tw_due c d = (if 512 < d \<and> c + d < 1024 then d - 512 else d)"

definition tw_queued :: "timing_wheel \<Rightarrow> nat \<Rightarrow> bool" where
  "tw_queued w i \<longleftrightarrow> (\<exists>b \<in> set (tw_work_wheel w) \<union> set (tw_assistant_wheel w). i \<in> set b)"

definition tw_ok :: "timing_wheel \<Rightarrow> bool" where
  "tw_ok w \<longleftrightarrow> length (tw_work_wheel w) = 512 \<and> length (tw_assistant_wheel w) = 64 \<and>
     cur w < 512 \<and> acur w < 64 \<and> (\<forall>i. tw_rem w i < 512) \<and>
     (\<forall>i. tw_queued w i \<or> tw_live w i \<longrightarrow> i < tw_fresh w)"

lemma work_index: "GetWorkWheelIndex k = k mod 512"
proof -
  have "take_bit 9 k = k AND mask 9" by (rule take_bit_eq_mask)
  then show ?thesis by (simp add: GetWorkWheelIndex_def WORK_WHEEL_SIZE_def take_bit_eq_mod mask_eq_exp_minus_1)
qed

lemma assistant_index: "GetAssistantWheelIndex k = k mod 64"
proof -
  have "take_bit 6 k = k AND mask 6" by (rule take_bit_eq_mask)
  then show ?thesis by (simp add: GetAssistantWheelIndex_def ASSISTANT_WHEEL_SIZE_def take_bit_eq_mod mask_eq_exp_minus_1)
qed

section \<open>One tick\<close>

lemma unat_work_index: "unat (GetWorkWheelIndex k) = unat k mod 512"
  by (simp add: work_index unat_mod_distrib)

lemma unat_assistant_index: "unat (GetAssistantWheelIndex k) = unat k mod 64"
  by (simp add: assistant_index unat_mod_distrib)

lemma unat_suc: "unat (x :: u64) < 512 \<Longrightarrow> unat (x + 1) = Suc (unat x)"
  by (rule unat_Suc_word) simp

lemma tw_add_work_sel [simp, cyber_state]:
  "tw_tasks (tw_add_work k i w) = tw_tasks w" "tw_assistant_wheel (tw_add_work k i w) = tw_assistant_wheel w"
  "tw_current_work_wheel_index (tw_add_work k i w) = tw_current_work_wheel_index w"
  "tw_current_assistant_wheel_index (tw_add_work k i w) = tw_current_assistant_wheel_index w"
  "tw_fresh (tw_add_work k i w) = tw_fresh w" "tw_running (tw_add_work k i w) = tw_running w"
  "length (tw_work_wheel (tw_add_work k i w)) = length (tw_work_wheel w)"
  by (simp_all add: tw_add_work_def)

lemma tw_add_work_nth:
  "unat k < length (tw_work_wheel w) \<Longrightarrow> tw_work_wheel (tw_add_work k i w) ! r =
     (if r = unat k then tw_work_wheel w ! r @ [i] else tw_work_wheel w ! r)"
  by (simp add: tw_add_work_def tb_AddTask_def nth_list_update)

lemma cascade_one_sel [simp, cyber_state]:
  "tw_tasks (tw_cascade_one i w) = tw_tasks w" "tw_assistant_wheel (tw_cascade_one i w) = tw_assistant_wheel w"
  "tw_current_work_wheel_index (tw_cascade_one i w) = tw_current_work_wheel_index w"
  "tw_current_assistant_wheel_index (tw_cascade_one i w) = tw_current_assistant_wheel_index w"
  "tw_fresh (tw_cascade_one i w) = tw_fresh w" "tw_running (tw_cascade_one i w) = tw_running w"
  "length (tw_work_wheel (tw_cascade_one i w)) = length (tw_work_wheel w)"
  by (simp_all add: tw_cascade_one_def split: option.splits)

lemma fold_cascade_sel [simp, cyber_state]:
  "tw_tasks (fold tw_cascade_one b w) = tw_tasks w"
  "tw_assistant_wheel (fold tw_cascade_one b w) = tw_assistant_wheel w"
  "tw_current_work_wheel_index (fold tw_cascade_one b w) = tw_current_work_wheel_index w"
  "tw_current_assistant_wheel_index (fold tw_cascade_one b w) = tw_current_assistant_wheel_index w"
  "tw_fresh (fold tw_cascade_one b w) = tw_fresh w"
  "length (tw_work_wheel (fold tw_cascade_one b w)) = length (tw_work_wheel w)"
  by (induction b arbitrary: w) simp_all

lemma live_cong: "tw_tasks w' = tw_tasks w \<Longrightarrow> tw_live w' = tw_live w"
  by (rule ext) (simp add: tw_live_def)

lemma rem_cong: "tw_tasks w' = tw_tasks w \<Longrightarrow> tw_rem w' = tw_rem w"
  by (rule ext) (simp add: tw_rem_def)

lemma cascade_work:
  assumes "length (tw_work_wheel w) = 512" and "\<forall>i. tw_rem w i < 512" and "r < 512"
  shows "tw_work_wheel (fold tw_cascade_one b w) ! r =
    tw_work_wheel w ! r @ filter (\<lambda>i. tw_live w i \<and> tw_rem w i = r) b"
  using assms
proof (induction b arbitrary: w)
  case (Cons i b)
  let ?w = "tw_cascade_one i w"
  have c: "tw_live ?w = tw_live w" "tw_rem ?w = tw_rem w"
    by (rule live_cong, simp, rule rem_cong, simp)
  have "tw_work_wheel ?w ! r = tw_work_wheel w ! r @ (if tw_live w i \<and> tw_rem w i = r then [i] else [])"
  proof (cases "tw_tasks w i")
    case (Some task)
    then have "unat (tt_remainder_interval_ms task) < 512" using Cons.prems(2) by (metis tw_rem_def option.simps(5))
    then show ?thesis using Some Cons.prems(1)
      by (simp add: tw_cascade_one_def tw_live_def tw_rem_def tw_add_work_nth)
  qed (simp add: tw_cascade_one_def tw_live_def)
  moreover have "tw_work_wheel (fold tw_cascade_one b ?w) ! r =
      tw_work_wheel ?w ! r @ filter (\<lambda>i. tw_live w i \<and> tw_rem w i = r) b"
    using Cons.IH [of ?w] Cons.prems unfolding c by simp
  ultimately show ?case by simp
qed simp

text \<open>The tick inside a turn of the work wheel.\<close>

lemma advance_plain:
  assumes ok: "tw_ok w" and c: "cur w < 511"
  shows "fst (tw_advance w) = tw_pending w 1"
    and "1 \<le> n \<Longrightarrow> tw_pending (snd (tw_advance w)) n = tw_pending w (Suc n)"
proof -
  let ?w = "snd (tw_advance w)"
  have len: "length (tw_work_wheel w) = 512" using ok by (simp add: tw_ok_def)
  have cur': "unat (GetWorkWheelIndex (tw_current_work_wheel_index w + 1)) = Suc (cur w)"
    using c by (simp add: unat_work_index unat_suc)
  then have nz: "GetWorkWheelIndex (tw_current_work_wheel_index w + 1) \<noteq> 0" by auto
  have adv: "tw_advance w = tw_Tick (w\<lparr>tw_current_work_wheel_index := GetWorkWheelIndex (tw_current_work_wheel_index w + 1)\<rparr>)"
    using nz by (simp add: tw_advance_def tw_turn_def Let_def)
  have live: "tw_live (w\<lparr>tw_current_work_wheel_index := k\<rparr>) = tw_live w" for k by (rule live_cong) simp
  show "fst (tw_advance w) = tw_pending w 1"
    using c by (simp add: adv tw_Tick_def Let_def cur' tw_pending_def work_at_def assist_at_def live)
  have w: "cur ?w = Suc (cur w)" "acur ?w = acur w" "tw_assistant_wheel ?w = tw_assistant_wheel w"
    "tw_work_wheel ?w = (tw_work_wheel w)[Suc (cur w) := []]" "tw_tasks ?w = tw_tasks w"
    by (simp_all add: adv tw_Tick_def Let_def cur')
  note live' = live_cong [OF w(5)] and rem' = rem_cong [OF w(5)]
  assume n: "1 \<le> n"
  have "work_at ?w n = work_at w (Suc n)"
  proof (cases "n < 512")
    case True
    then have "Suc (cur w) \<noteq> (Suc (cur w) + n) mod 512" using n c mod_window_neq [of "Suc (cur w)" "Suc (cur w) + n" 512] by auto
    then show ?thesis using True by (simp add: work_at_def w)
  next
    case False
    have "(cur w + 513) mod 512 = Suc (cur w)" using c by (simp add: mod_if)
    with False show ?thesis using c len by (auto simp: work_at_def w add.commute)
  qed
  moreover have "assist_at ?w (cur ?w + n) = assist_at w (cur w + Suc n)"
    by (simp add: assist_at_def w rem')
  ultimately show "tw_pending ?w n = tw_pending w (Suc n)" by (simp add: tw_pending_def live')
qed

text \<open>The tick that starts a new turn: the next assistant bucket comes down first.\<close>

lemma wrap_index: "a < (64 :: nat) \<Longrightarrow> q < 64 \<Longrightarrow> 0 < q \<Longrightarrow> (a + q) mod 64 \<noteq> a"
  using mod_window_neq [of a "a + q" 64] by simp

lemma advance_wrap:
  assumes ok: "tw_ok w" and c: "cur w = 511"
  shows "fst (tw_advance w) = tw_pending w 1"
    and "1 \<le> n \<Longrightarrow> tw_pending (snd (tw_advance w)) n = tw_pending w (Suc n)"
proof -
  let ?w = "snd (tw_advance w)"
  let ?a = "GetAssistantWheelIndex (tw_current_assistant_wheel_index w + 1)"
  let ?b = "tw_assistant_wheel w ! unat ?a"
  let ?w1 = "w\<lparr>tw_current_work_wheel_index := 0, tw_current_assistant_wheel_index := ?a\<rparr>"
  let ?w2 = "fold tw_cascade_one ?b ?w1"
  have len: "length (tw_work_wheel w) = 512" "length (tw_assistant_wheel w) = 64" "acur w < 64"
    and rem: "\<forall>i. tw_rem w i < 512" using ok by (auto simp: tw_ok_def)
  have "unat (GetWorkWheelIndex (tw_current_work_wheel_index w + 1)) = 0"
    using c by (simp add: unat_work_index unat_suc)
  then have z: "GetWorkWheelIndex (tw_current_work_wheel_index w + 1) = 0" by (simp add: unat_eq_0)
  have a: "unat ?a = Suc (acur w) mod 64"
    using len(3) by (simp add: unat_assistant_index unat_suc)
  then have a64: "unat ?a < 64" by simp
  have adv: "tw_advance w = tw_Tick (?w2\<lparr>tw_assistant_wheel := (tw_assistant_wheel ?w2)[unat ?a := []]\<rparr>)"
    by (simp add: tw_advance_def tw_turn_def tw_Cascade_def Let_def z)
  have t1: "tw_tasks ?w1 = tw_tasks w" by simp
  have work2: "tw_work_wheel ?w2 ! r = tw_work_wheel w ! r @ filter (\<lambda>i. tw_live w i \<and> tw_rem w i = r) ?b"
    if "r < 512" for r
    using cascade_work [of ?w1 r ?b] that len rem by (simp add: live_cong [OF t1] rem_cong [OF t1])
  have w: "cur ?w = 0" "acur ?w = unat ?a" "tw_assistant_wheel ?w = (tw_assistant_wheel w)[unat ?a := []]"
    "tw_work_wheel ?w = (tw_work_wheel ?w2)[0 := []]" "tw_tasks ?w = tw_tasks w"
    by (simp_all add: adv tw_Tick_def Let_def)
  note live' = live_cong [OF w(5)] and rem' = rem_cong [OF w(5)]
  have t2: "tw_tasks (?w2\<lparr>tw_assistant_wheel := x\<rparr>) = tw_tasks w" for x by simp
  have "fst (tw_advance w) = filter (tw_live w) (tw_work_wheel ?w2 ! 0)"
    unfolding adv tw_Tick_def by (simp add: Let_def live_cong [OF t2])
  also have "\<dots> = filter (tw_live w) (tw_work_wheel w ! 0 @ filter (\<lambda>i. tw_live w i \<and> tw_rem w i = 0) ?b)"
    by (simp only: work2 [of 0, OF zero_less_numeral])
  also have "\<dots> = tw_pending w 1"
    using c by (simp add: tw_pending_def work_at_def assist_at_def a conj_commute)
  finally show "fst (tw_advance w) = tw_pending w 1" .
  assume n: "1 \<le> n"
  have q: "(cur w + Suc n) div 512 = Suc (n div 512)" "(cur w + Suc n) mod 512 = n mod 512"
    using c by (simp_all add: add.commute [of 511])
  show "tw_pending ?w n = tw_pending w (Suc n)"
  proof (cases "n < 512")
    case True
    have "work_at ?w n = tw_work_wheel w ! n @ filter (\<lambda>i. tw_live w i \<and> tw_rem w i = n) ?b"
      using True n len work2 [of n] by (simp add: work_at_def w)
    moreover have "assist_at ?w (cur ?w + n) = []" using True by (simp add: assist_at_def w)
    moreover have "work_at w (Suc n) = tw_work_wheel w ! n" using True c by (simp add: work_at_def mod_if)
    moreover have "assist_at w (cur w + Suc n) = filter (\<lambda>i. tw_rem w i = n) ?b"
      using True unfolding assist_at_def q by (simp add: a)
    ultimately show ?thesis by (simp add: tw_pending_def live' conj_commute)
  next
    case False
    have "work_at ?w n = []" using False len by (cases "n = 512") (simp_all add: work_at_def w)
    moreover have "work_at w (Suc n) = []" using False by (simp add: work_at_def)
    moreover have "assist_at ?w (cur ?w + n) = assist_at w (cur w + Suc n)"
    proof (cases "n div 512 < 64")
      case True
      have q1: "1 \<le> n div 512" using False by (simp add: Suc_le_eq div_greater_zero_iff)
      have "(unat ?a + n div 512) mod 64 = (acur w + Suc (n div 512)) mod 64"
        by (simp add: a mod_simps)
      moreover have "(unat ?a + n div 512) mod 64 \<noteq> unat ?a"
        using wrap_index [OF a64 True] q1 by simp
      ultimately show ?thesis using True q1 unfolding assist_at_def q
        by (simp add: w rem')
    next
      case False
      then have "assist_at w (cur w + Suc n) = []" unfolding assist_at_def q by simp
      moreover have "assist_at ?w (cur ?w + n) = []"
        using False a64 len(2) by (cases "n div 512 = 64") (simp_all add: assist_at_def w)
      ultimately show ?thesis by simp
    qed
    ultimately show ?thesis by (simp add: tw_pending_def live')
  qed
qed

text \<open>A tick fires exactly what was due in one tick, and brings everything else one tick nearer.\<close>

lemma tw_advance_pending:
  assumes "tw_ok w"
  shows "fst (tw_advance w) = tw_pending w 1"
    and "1 \<le> n \<Longrightarrow> tw_pending (snd (tw_advance w)) n = tw_pending w (Suc n)"
proof -
  have "cur w < 511 \<or> cur w = 511" using assms by (auto simp: tw_ok_def)
  then show "fst (tw_advance w) = tw_pending w 1"
    and "1 \<le> n \<Longrightarrow> tw_pending (snd (tw_advance w)) n = tw_pending w (Suc n)"
    using advance_plain [OF assms] advance_wrap [OF assms] by auto
qed

section \<open>Adding a task\<close>

definition tw_waits :: "timing_wheel \<Rightarrow> nat \<Rightarrow> bool" where
  "tw_waits w i \<longleftrightarrow> (\<exists>b \<in> set (tw_assistant_wheel w). i \<in> set b)"

lemma work_at_add:
  assumes "length (tw_work_wheel w) = 512" and "unat k < 512"
  shows "work_at (tw_add_work k i w) n =
    work_at w n @ (if n \<le> 512 \<and> (cur w + n) mod 512 = unat k then [i] else [])"
  using assms by (simp add: work_at_def tw_add_work_nth)

lemma assist_at_add:
  assumes "length (tw_assistant_wheel w) = 64" and "unat k < 64"
  shows "assist_at (tw_add_assistant k i w) T = assist_at w T @
    (if 1 \<le> T div 512 \<and> T div 512 \<le> 64 \<and> (acur w + T div 512) mod 64 = unat k \<and> tw_rem w i = T mod 512
     then [i] else [])"
proof -
  let ?w = "tw_add_assistant k i w"
  have e: "tw_assistant_wheel ?w ! r = (if r = unat k then tw_assistant_wheel w ! r @ [i] else tw_assistant_wheel w ! r)" for r
    using assms by (simp add: tw_add_assistant_def tb_AddTask_def nth_list_update)
  have r: "tw_rem ?w = tw_rem w" by (rule rem_cong) (simp add: tw_add_assistant_def)
  have a: "acur ?w = acur w" by (simp add: tw_add_assistant_def)
  show ?thesis by (simp add: assist_at_def e r a)
qed

lemma work_at_add_assist [simp]: "work_at (tw_add_assistant k i w) n = work_at w n"
  by (simp add: work_at_def tw_add_assistant_def)

lemma assist_at_add_work [simp]: "assist_at (tw_add_work k i w) T = assist_at w T"
  by (simp add: assist_at_def rem_cong [OF tw_add_work_sel(1)])

lemma tw_add_assistant_sel [simp, cyber_state]:
  "tw_tasks (tw_add_assistant k i w) = tw_tasks w" "tw_work_wheel (tw_add_assistant k i w) = tw_work_wheel w"
  "tw_current_work_wheel_index (tw_add_assistant k i w) = tw_current_work_wheel_index w"
  "tw_current_assistant_wheel_index (tw_add_assistant k i w) = tw_current_assistant_wheel_index w"
  "tw_fresh (tw_add_assistant k i w) = tw_fresh w"
  "length (tw_assistant_wheel (tw_add_assistant k i w)) = length (tw_assistant_wheel w)"
  by (simp_all add: tw_add_assistant_def)

text \<open>Writing the remainder of a task that is in no assistant bucket moves no task.\<close>

lemma assist_at_tasks:
  assumes "length (tw_assistant_wheel w) = 64" and "\<not> tw_waits w i"
  shows "assist_at (w\<lparr>tw_tasks := (tw_tasks w)(i \<mapsto> task)\<rparr>) T = assist_at w T"
proof -
  have "filter (\<lambda>x. tw_rem (w\<lparr>tw_tasks := (tw_tasks w)(i \<mapsto> task)\<rparr>) x = r) b = filter (\<lambda>x. tw_rem w x = r) b"
    if "b \<in> set (tw_assistant_wheel w)" for b r
  proof (rule filter_cong)
    fix x assume "x \<in> set b"
    then have "x \<noteq> i" using assms(2) that by (auto simp: tw_waits_def)
    then show "tw_rem (w\<lparr>tw_tasks := (tw_tasks w)(i \<mapsto> task)\<rparr>) x = r \<longleftrightarrow> tw_rem w x = r"
      by (simp add: tw_rem_def)
  qed simp
  then show ?thesis using assms(1) by (simp add: assist_at_def)
qed

lemma mod_same_512:
  fixes c :: nat
  assumes "1 \<le> n" "n \<le> 512" "1 \<le> d" "d \<le> 512"
  shows "(c + n) mod 512 = (c + d) mod 512 \<longleftrightarrow> n = d"
  using assms mod_window_neq [of "c + n" "c + d" 512] mod_window_neq [of "c + d" "c + n" 512]
  by (cases n d rule: linorder_cases) auto

lemma mod_same_64:
  fixes a :: nat
  assumes "1 \<le> p" "p \<le> 64" "1 \<le> q" "q \<le> 64"
  shows "(a + p) mod 64 = (a + q) mod 64 \<longleftrightarrow> p = q"
  using assms mod_window_neq [of "a + p" "a + q" 64] mod_window_neq [of "a + q" "a + p" 64]
  by (cases p q rule: linorder_cases) auto

lemma div_mod_same: "(a :: nat) div 512 = b div 512 \<and> a mod 512 = b mod 512 \<longleftrightarrow> a = b"
  by (metis div_mult_mod_eq)

text \<open>What \<open>AddTask\<close> does, by the position it computes.\<close>

definition add_case :: "nat \<Rightarrow> timer_task \<Rightarrow> timing_wheel \<Rightarrow> timing_wheel" where
  "add_case i task w0 =
     (let w = tw_Start w0; W = cur w + unat (tt_next_fire_duration_ms task);
          w1 = w\<lparr>tw_tasks := (tw_tasks w)(i \<mapsto> task\<lparr>tt_remainder_interval_ms := of_nat (W mod 512)\<rparr>)\<rparr> in
      if W < 512 then tw_add_work (of_nat W) i w
      else if W < 1024 \<and> W - 512 \<noteq> cur w then tw_add_work (of_nat (W - 512)) i w1
      else tw_add_assistant (of_nat ((acur w + W div 512) mod 64)) i w1)"

lemma tw_Start_sel [simp, cyber_state]:
  "tw_tasks (tw_Start w) = tw_tasks w" "tw_work_wheel (tw_Start w) = tw_work_wheel w"
  "tw_assistant_wheel (tw_Start w) = tw_assistant_wheel w"
  "tw_current_work_wheel_index (tw_Start w) = tw_current_work_wheel_index w"
  "tw_current_assistant_wheel_index (tw_Start w) = tw_current_assistant_wheel_index w"
  "tw_fresh (tw_Start w) = tw_fresh w"
  by (simp_all add: tw_Start_def)

lemma div_mod_second:
  assumes "\<not> W < (512 :: nat)"
  shows "W div 512 = 1 \<longleftrightarrow> W < 1024" and "W < 1024 \<Longrightarrow> W mod 512 = W - 512"
proof -
  have "W div 512 = Suc ((W - 512) div 512)" using assms by (simp add: le_div_geq)
  then show "W div 512 = 1 \<longleftrightarrow> W < 1024" using assms by (simp add: div_eq_0_iff) linarith
  show "W < 1024 \<Longrightarrow> W mod 512 = W - 512" using assms by (simp add: le_mod_geq)
qed

lemma tw_AddTask_case:
  assumes "cur w < 512" and "acur w < 64" and "unat (tt_next_fire_duration_ms task) < 32768"
  shows "tw_AddTask_at i task (tw_current_work_wheel_index w) w = add_case i task w"
proof -
  let ?d = "tt_next_fire_duration_ms task"
  let ?W = "tw_current_work_wheel_index w + ?d"
  have W: "unat ?W = cur w + unat ?d" using assms by (simp add: unat_add_lem [THEN iffD1])
  have le: "WORK_WHEEL_SIZE \<le> ?W \<longleftrightarrow> \<not> cur w + unat ?d < 512"
    by (simp add: word_le_nat_alt W WORK_WHEEL_SIZE_def not_less)
  have real: "GetWorkWheelIndex ?W = of_nat (unat ?W mod 512)"
    by (simp add: word_unat_eq_iff unat_work_index unat_of_nat)
  have real2: "GetWorkWheelIndex ?W = tw_current_work_wheel_index w \<longleftrightarrow> unat ?W mod 512 = cur w"
    by (simp add: word_unat_eq_iff unat_work_index)
  have at: "unat (?W div WORK_WHEEL_SIZE) = unat ?W div 512" by (simp add: unat_div WORK_WHEEL_SIZE_def)
  then have at1: "?W div WORK_WHEEL_SIZE = 1 \<longleftrightarrow> unat ?W div 512 = 1" by (simp add: word_unat_eq_iff)
  have q: "unat ?W div 512 \<le> 64" using W assms by simp
  have asst: "GetAssistantWheelIndex (tw_current_assistant_wheel_index w + ?W div WORK_WHEEL_SIZE) =
      of_nat ((acur w + unat ?W div 512) mod 64)"
    using assms(2) q by (simp add: word_unat_eq_iff unat_assistant_index unat_add_lem [THEN iffD1] at unat_of_nat)
  have s: "(if \<not> tw_running w then tw_Start w else w) = tw_Start w" by (simp add: tw_Start_def)
  note defs = tw_AddTask_at_def add_case_def s Let_def le tw_Start_sel at1 asst
  consider (near) "unat ?W < 512" | (second) "\<not> unat ?W < 512" "unat ?W < 1024 \<and> unat ?W - 512 \<noteq> cur w"
    | (far) "\<not> unat ?W < 512" "\<not> (unat ?W < 1024 \<and> unat ?W - 512 \<noteq> cur w)" by blast
  then show ?thesis
  proof cases
    case near
    have "of_nat (unat ?W) = ?W" by simp
    with near W show ?thesis unfolding defs by simp
  next
    case second
    then have "unat ?W div 512 = 1" "unat ?W mod 512 = unat ?W - 512" using div_mod_second by auto
    with second show ?thesis unfolding defs W [symmetric] real2 unfolding real by simp
  next
    case far
    then have f: "(unat ?W div 512 = 1 \<and> unat ?W mod 512 \<noteq> cur w) = False"
      "(unat ?W < 1024 \<and> unat ?W - 512 \<noteq> cur w) = False" using div_mod_second [OF far(1)] by auto
    show ?thesis unfolding defs W [symmetric] real2 unfolding real f using far(1) by (simp only: if_False not_False_eq_True if_True) 
  qed
qed

text \<open>The tasks the three branches add to \<open>tw_pending w n\<close>.\<close>

definition added :: "nat \<Rightarrow> nat \<Rightarrow> nat \<Rightarrow> nat \<Rightarrow> nat list" where
  "added i c d n = (if n = tw_due c d then [i] else [])"

lemma added_near: "c + d < 512 \<Longrightarrow> 1 \<le> d \<Longrightarrow> 1 \<le> n \<Longrightarrow>
    (if n \<le> 512 \<and> (c + n) mod 512 = c + d then [i] else []) = added i c d n"
  using mod_same_512 [of n d c] by (auto simp: added_def tw_due_def)

lemma added_second:
  assumes "\<not> c + d < 512" "c + d < 1024" "c + d - 512 \<noteq> c" "1 \<le> d" "1 \<le> n" "c < 512"
  shows "(if n \<le> 512 \<and> (c + n) mod 512 = c + d - 512 then [i] else []) = added i c d n"
proof -
  have m: "c + d - 512 = (c + d) mod 512" using assms by (simp add: le_mod_geq)
  show ?thesis
  proof (cases "512 < d")
    case True
    then have "c + d - 512 = (c + (d - 512)) mod 512" using assms by simp
    then show ?thesis using mod_same_512 [of n "d - 512" c] True assms by (auto simp: added_def tw_due_def)
  next
    case False
    then show ?thesis unfolding m using mod_same_512 [of n d c] assms by (auto simp: added_def tw_due_def)
  qed
qed

lemma added_far:
  assumes "\<not> c + d < 512" "\<not> (c + d < 1024 \<and> c + d - 512 \<noteq> c)" "1 \<le> n" "c < 512" "d < 32768" "a < 64"
  shows "(if 1 \<le> (c + n) div 512 \<and> (c + n) div 512 \<le> 64 \<and>
            (a + (c + n) div 512) mod 64 = (a + (c + d) div 512) mod 64 \<and> (c + d) mod 512 = (c + n) mod 512
          then [i] else []) = added i c d n"
proof -
  have q: "1 \<le> (c + d) div 512" "(c + d) div 512 \<le> 64"
    using assms by (simp_all add: Suc_le_eq div_greater_zero_iff)
  have due: "tw_due c d = d" using assms by (auto simp: tw_due_def)
  have "n = d" if "1 \<le> (c + n) div 512" "(c + n) div 512 \<le> 64"
      "(a + (c + n) div 512) mod 64 = (a + (c + d) div 512) mod 64" "(c + d) mod 512 = (c + n) mod 512"
    using mod_same_64 [OF that(1,2) q] that(3,4) div_mod_same [of "c + n" "c + d"] by auto
  then show ?thesis using q by (auto simp: added_def due)
qed

lemma add_case_pending:
  assumes ok: "tw_ok w" and task: "tw_tasks w i = Some task" and wait: "\<not> tw_waits w i"
    and d: "unat (tt_next_fire_duration_ms task) = d" "1 \<le> d" "d < 32768" and n: "1 \<le> n"
  shows "mset (tw_pending (add_case i task w) n) = mset (tw_pending w n) + mset (added i (cur w) d n)"
proof -
  let ?w = "add_case i task w" and ?c = "cur w"
  have len: "length (tw_work_wheel w) = 512" "length (tw_assistant_wheel w) = 64" "acur w < 64" "?c < 512"
    using ok by (auto simp: tw_ok_def)
  let ?v = "tw_Start w"
  let ?w1 = "?v\<lparr>tw_tasks := (tw_tasks w)(i \<mapsto> task\<lparr>tt_remainder_interval_ms := of_nat ((?c + d) mod 512)\<rparr>)\<rparr>"
  have at0: "work_at ?v n = work_at w n" "assist_at ?v T = assist_at w T" for T
    by (simp_all add: work_at_def assist_at_def rem_cong [OF tw_Start_sel(1)])
  have at1: "work_at ?w1 n = work_at w n" "assist_at ?w1 T = assist_at w T" for T
    using assist_at_tasks [of ?v i] len wait at0 by (simp_all add: work_at_def tw_waits_def)
  have live: "tw_live ?w = tw_live w" and live_i: "tw_live w i"
    using task by (auto simp: add_case_def Let_def tw_live_def fun_eq_iff)
  have rem1: "tw_rem ?w1 i = (?c + d) mod 512"
    by (simp add: tw_rem_def unat_of_nat)
  have fin: ?thesis if "work_at ?w n @ assist_at ?w (cur ?w + n) = work_at w n @ x @ assist_at w (?c + n) @ y"
      "x @ y = added i ?c d n" for x y
  proof -
    have "mset (tw_pending ?w n) = mset (tw_pending w n) + mset (filter (tw_live w) (x @ y))"
      unfolding tw_pending_def live that(1) by simp
    moreover have "filter (tw_live w) (x @ y) = added i ?c d n"
      unfolding that(2) using live_i by (simp add: added_def)
    ultimately show ?thesis by (simp only:)
  qed
  consider (near) "?c + d < 512" | (second) "\<not> ?c + d < 512" "?c + d < 1024 \<and> ?c + d - 512 \<noteq> ?c"
    | (far) "\<not> ?c + d < 512" "\<not> (?c + d < 1024 \<and> ?c + d - 512 \<noteq> ?c)" by blast
  then show ?thesis
  proof cases
    case near
    have "unat (of_nat (?c + d) :: u64) = ?c + d" using near by (simp add: unat_of_nat del: of_nat_add)
    moreover have "?w = tw_add_work (of_nat (?c + d)) i ?v" using near by (simp add: add_case_def Let_def d)
    ultimately obtain k where k: "unat k = ?c + d" and w: "?w = tw_add_work k i ?v" by blast
    have "work_at ?w n = work_at w n @ added i ?c d n"
      using added_near [OF near d(2) n, of i] near len by (simp add: w work_at_add k at0)
    then show ?thesis by (intro fin [of "added i ?c d n" "[]"]) (simp_all add: w at0)
  next
    case second
    have "unat (of_nat (?c + d - 512) :: u64) = ?c + d - 512"
      using conjunct1 [OF second(2)] by (simp add: unat_of_nat del: of_nat_add of_nat_diff)
    moreover have "?w = tw_add_work (of_nat (?c + d - 512)) i ?w1" using second by (simp add: add_case_def Let_def d)
    ultimately obtain k where k: "unat k = ?c + d - 512" and w: "?w = tw_add_work k i ?w1" by blast
    have k': "unat k < 512" using conjunct1 [OF second(2)] k by simp
    have "work_at ?w n = work_at w n @ added i ?c d n"
      unfolding w using len
      by (subst work_at_add [OF _ k'])
        (simp_all add: k at1 added_second [OF second(1) conjunct1 [OF second(2)] conjunct2 [OF second(2)] d(2) n len(4), symmetric])
    then show ?thesis by (intro fin [of "added i ?c d n" "[]"]) (simp_all add: w at1)
  next
    case far
    have "unat (of_nat ((acur w + (?c + d) div 512) mod 64) :: u64) = (acur w + (?c + d) div 512) mod 64"
      by (simp add: unat_of_nat del: of_nat_add of_nat_mod)
    moreover have "?w = tw_add_assistant (of_nat ((acur w + (?c + d) div 512) mod 64)) i ?w1"
      unfolding add_case_def Let_def d tw_Start_sel using far by (simp only: if_False)
    ultimately obtain k where k: "unat k = (acur w + (?c + d) div 512) mod 64"
      and w: "?w = tw_add_assistant k i ?w1" by blast
    have "assist_at ?w (?c + n) = assist_at w (?c + n) @ added i ?c d n"
      using added_far [OF far n len(4) d(3) len(3), of i] len rem1
      unfolding w by (subst assist_at_add) (simp_all add: k at1)
    then show ?thesis by (intro fin [of "[]" "added i ?c d n"]) (simp_all add: w at1)
  qed
qed

section \<open>The invariant of the wheel\<close>

definition tw_ids :: "timing_wheel \<Rightarrow> nat set" where
  "tw_ids w = \<Union> (set ` (set (tw_work_wheel w) \<union> set (tw_assistant_wheel w)))"

lemma tw_queued_ids: "tw_queued w i \<longleftrightarrow> i \<in> tw_ids w"
  by (auto simp: tw_queued_def tw_ids_def)

lemma ids_update: "\<Union> (set ` set (xs[k := b])) \<subseteq> set b \<union> \<Union> (set ` set xs)"
  using set_update_subset_insert [of xs k b] by auto

lemma nth_ids: "k < length xs \<Longrightarrow> set (xs ! k) \<subseteq> \<Union> (set ` set xs)"
  using nth_mem [of k xs] by blast

lemma ids_add_work: "unat k < length (tw_work_wheel w) \<Longrightarrow> tw_ids (tw_add_work k i w) \<subseteq> insert i (tw_ids w)"
  using ids_update [of "tw_work_wheel w" "unat k" "tw_work_wheel w ! unat k @ [i]"]
    nth_ids [of "unat k" "tw_work_wheel w"]
  by (simp add: tw_ids_def tw_add_work_def tb_AddTask_def image_Un) blast

lemma ids_add_assist:
  "unat k < length (tw_assistant_wheel w) \<Longrightarrow> tw_ids (tw_add_assistant k i w) \<subseteq> insert i (tw_ids w)"
  using ids_update [of "tw_assistant_wheel w" "unat k" "tw_assistant_wheel w ! unat k @ [i]"]
    nth_ids [of "unat k" "tw_assistant_wheel w"]
  by (simp add: tw_ids_def tw_add_assistant_def tb_AddTask_def image_Un) blast

lemma ids_cascade_one:
  "length (tw_work_wheel w) = 512 \<Longrightarrow> \<forall>i. tw_rem w i < 512 \<Longrightarrow> tw_ids (tw_cascade_one i w) \<subseteq> insert i (tw_ids w)"
  by (cases "tw_tasks w i") (auto simp: tw_cascade_one_def dest!: spec [of _ i] subsetD [OF ids_add_work, rotated] simp: tw_rem_def)

lemma ids_cascade:
  "length (tw_work_wheel w) = 512 \<Longrightarrow> \<forall>i. tw_rem w i < 512 \<Longrightarrow>
   tw_ids (fold tw_cascade_one b w) \<subseteq> set b \<union> tw_ids w"
proof (induction b arbitrary: w)
  case (Cons i b)
  have "\<forall>j. tw_rem (tw_cascade_one i w) j < 512" using Cons.prems by (simp add: rem_cong [OF cascade_one_sel(1)])
  then have "tw_ids (fold tw_cascade_one b (tw_cascade_one i w)) \<subseteq> set b \<union> tw_ids (tw_cascade_one i w)"
    using Cons.IH [of "tw_cascade_one i w"] Cons.prems(1) by simp
  then show ?case using ids_cascade_one [OF Cons.prems, of i] by auto
qed simp

lemma ids_Tick: "tw_ids (snd (tw_Tick w)) \<subseteq> tw_ids w"
  using ids_update [of "tw_work_wheel w" "cur w" "[]"] by (auto simp: tw_Tick_def Let_def tw_ids_def)

lemma ids_turn: "tw_ok w \<Longrightarrow> tw_ids (tw_turn w) \<subseteq> tw_ids w"
proof -
  assume ok: "tw_ok w"
  let ?a = "GetAssistantWheelIndex (tw_current_assistant_wheel_index w + 1)"
  have a: "unat ?a < length (tw_assistant_wheel w)" using ok by (simp add: tw_ok_def unat_assistant_index)
  let ?w = "w\<lparr>tw_current_work_wheel_index := GetWorkWheelIndex (tw_current_work_wheel_index w + 1)\<rparr>"
  let ?x = "?w\<lparr>tw_current_assistant_wheel_index := ?a\<rparr>"
  have "tw_ids (tw_Cascade ?a ?x) \<subseteq> tw_ids (fold tw_cascade_one (tw_assistant_wheel w ! unat ?a) ?x)"
    using ids_update [of "tw_assistant_wheel w" "unat ?a" "[]"]
    by (auto simp: tw_Cascade_def tw_ids_def Let_def)
  also have "\<dots> \<subseteq> set (tw_assistant_wheel w ! unat ?a) \<union> tw_ids ?x"
    using ok rem_cong [of ?x w] by (intro ids_cascade) (simp_all add: tw_ok_def)
  also have "\<dots> \<subseteq> tw_ids w" using nth_ids [OF a] by (auto simp: tw_ids_def)
  finally have "tw_ids (tw_Cascade ?a ?x) \<subseteq> tw_ids w" .
  moreover have "tw_ids ?w = tw_ids w" by (simp add: tw_ids_def)
  moreover have "tw_turn w = (if tw_current_work_wheel_index ?w = 0 then tw_Cascade ?a ?x else ?w)"
    by (simp add: tw_turn_def Let_def)
  ultimately show ?thesis by (simp only: split: if_split) blast
qed

lemma turn_sel:
  "tw_tasks (tw_turn w) = tw_tasks w" "tw_fresh (tw_turn w) = tw_fresh w"
  "length (tw_work_wheel (tw_turn w)) = length (tw_work_wheel w)"
  "length (tw_assistant_wheel (tw_turn w)) = length (tw_assistant_wheel w)"
  by (simp_all add: tw_turn_def Let_def tw_Cascade_def)

lemma turn_cur: "acur w < 64 \<Longrightarrow> cur (tw_turn w) < 512 \<and> acur (tw_turn w) < 64"
  by (simp add: tw_turn_def Let_def tw_Cascade_def unat_work_index unat_assistant_index)

lemma Tick_sel:
  "tw_tasks (snd (tw_Tick w)) = tw_tasks w" "tw_fresh (snd (tw_Tick w)) = tw_fresh w"
  "length (tw_work_wheel (snd (tw_Tick w))) = length (tw_work_wheel w)"
  "tw_assistant_wheel (snd (tw_Tick w)) = tw_assistant_wheel w"
  "tw_current_work_wheel_index (snd (tw_Tick w)) = tw_current_work_wheel_index w"
  "tw_current_assistant_wheel_index (snd (tw_Tick w)) = tw_current_assistant_wheel_index w"
  by (simp_all add: tw_Tick_def Let_def)

lemma advance_sel: "tw_tasks (snd (tw_advance w)) = tw_tasks w" "tw_fresh (snd (tw_advance w)) = tw_fresh w"
  by (simp_all add: tw_advance_def turn_sel Tick_sel)

lemma tw_okI:
  assumes "tw_ok w" and "length (tw_work_wheel w') = 512" "length (tw_assistant_wheel w') = 64"
    and "cur w' < 512" "acur w' < 64" and "\<And>i. tw_rem w' i < 512"
    and "tw_ids w' \<subseteq> tw_ids w \<union> {i. i < tw_fresh w'}" and "\<And>i. tw_live w' i \<Longrightarrow> tw_live w i \<or> i < tw_fresh w'"
    and "tw_fresh w \<le> tw_fresh w'"
  shows "tw_ok w'"
proof -
  have "i < tw_fresh w'" if "i \<in> tw_ids w' \<or> tw_live w' i" for i
  proof -
    have "i \<in> tw_ids w \<or> tw_live w i \<or> i < tw_fresh w'" using that assms(7,8) by blast
    moreover have "i \<in> tw_ids w \<or> tw_live w i \<Longrightarrow> i < tw_fresh w" using assms(1) by (auto simp: tw_ok_def tw_queued_ids)
    ultimately show ?thesis using assms(9) by linarith
  qed
  then show ?thesis using assms(2-6) by (simp add: tw_ok_def tw_queued_ids)
qed

lemma tw_advance_ok: "tw_ok w \<Longrightarrow> tw_ok (snd (tw_advance w))"
proof (rule tw_okI)
  assume ok: "tw_ok w"
  show "tw_ids (snd (tw_advance w)) \<subseteq> tw_ids w \<union> {i. i < tw_fresh (snd (tw_advance w))}"
    using ids_turn [OF ok] ids_Tick [of "tw_turn w"] by (auto simp: tw_advance_def)
  show "tw_rem (snd (tw_advance w)) i < 512" for i
    using ok by (simp add: rem_cong [OF advance_sel(1)] tw_ok_def)
qed (simp_all add: tw_advance_def turn_sel Tick_sel turn_cur tw_ok_def tw_live_def)

lemma tw_new_ok: "tw_ok tw_new"
  by (simp add: tw_ok_def tw_new_def tw_rem_def tw_queued_def tw_live_def)

lemma add_case_sel:
  "tw_fresh (add_case i task w) = tw_fresh w"
  "tw_current_work_wheel_index (add_case i task w) = tw_current_work_wheel_index w"
  "tw_current_assistant_wheel_index (add_case i task w) = tw_current_assistant_wheel_index w"
  "length (tw_work_wheel (add_case i task w)) = length (tw_work_wheel w)"
  "length (tw_assistant_wheel (add_case i task w)) = length (tw_assistant_wheel w)"
  by (simp_all add: add_case_def Let_def)

lemma add_case_ok:
  assumes ok: "tw_ok w" and task: "tw_tasks w i = Some task"
  shows "tw_ok (add_case i task w)"
proof -
  let ?w1 = "\<lambda>r. (tw_Start w)\<lparr>tw_tasks := (tw_tasks w)(i \<mapsto> task\<lparr>tt_remainder_interval_ms := r\<rparr>)\<rparr>"
  have i: "i < tw_fresh w" using ok task by (auto simp: tw_ok_def tw_live_def)
  have len: "length (tw_work_wheel w) = 512" "length (tw_assistant_wheel w) = 64" "cur w < 512" "acur w < 64"
    using ok by (auto simp: tw_ok_def)
  have ids1: "tw_ids (?w1 r) = tw_ids w" "tw_ids (tw_Start w) = tw_ids w" for r by (simp_all add: tw_ids_def)
  have lt: "unat (of_nat k :: u64) < 512" if "k < 512" for k using that by (simp add: unat_of_nat)
  have lt64: "unat (of_nat (k mod 64) :: u64) < 64" for k by (simp add: unat_of_nat del: of_nat_mod)
  have "tw_ids (add_case i task w) \<subseteq> insert i (tw_ids w)"
    unfolding add_case_def Let_def tw_Start_sel using len
    by (auto dest!: subsetD [OF ids_add_work, rotated] subsetD [OF ids_add_assist, rotated]
        simp: ids1 lt lt64 simp del: of_nat_add of_nat_mod of_nat_diff)
  then have p1: "tw_ids (add_case i task w) \<subseteq> tw_ids w \<union> {k. k < tw_fresh (add_case i task w)}"
    using i by (auto simp: add_case_sel)
  have r: "unat (of_nat (x mod 512) :: u64) < 512" for x by (simp add: unat_of_nat del: of_nat_mod)
  have p2: "tw_rem (add_case i task w) j < 512" for j
    using ok r by (auto simp: add_case_def Let_def tw_rem_def tw_ok_def simp del: of_nat_mod split: option.splits)
  have p3: "tw_live w j \<or> j < tw_fresh (add_case i task w)" if "tw_live (add_case i task w) j" for j
    using task that by (auto simp: add_case_def Let_def tw_live_def split: if_splits)
  show ?thesis
    by (rule tw_okI [OF ok _ _ _ _ p2 p1 p3]) (simp_all add: add_case_sel len)
qed

section \<open>Timers\<close>

record timer =
  tm_timer_id :: u64
  tm_period :: u32
  tm_oneshot :: bool
  tm_task :: "nat option"
  tm_started :: bool

definition tm_new :: "u64 \<Rightarrow> u32 \<Rightarrow> bool \<Rightarrow> timer" where
  "tm_new timer_id period oneshot =
     \<lparr>tm_timer_id = timer_id, tm_period = period, tm_oneshot = oneshot, tm_task = None, tm_started = False\<rparr>"

definition tm_SetTimerOption :: "u32 \<Rightarrow> bool \<Rightarrow> timer \<Rightarrow> timer" where
  "tm_SetTimerOption period oneshot t = t\<lparr>tm_period := period, tm_oneshot := oneshot\<rparr>"

text \<open>Dropping the last shared pointer to a task.\<close>

definition tw_drop :: "nat option \<Rightarrow> timing_wheel \<Rightarrow> timing_wheel" where
  "tw_drop i w = (case i of None \<Rightarrow> w | Some j \<Rightarrow> w\<lparr>tw_tasks := (tw_tasks w)(j := None)\<rparr>)"

definition tm_InitTimerTask :: "timer \<Rightarrow> timing_wheel \<Rightarrow> bool \<times> timer \<times> timing_wheel" where
  "tm_InitTimerTask t w0 =
     (if tm_period t = 0 then (False, t, w0)
      else if TIMER_MAX_INTERVAL_MS \<le> ucast (tm_period t) then (False, t, w0)
      else
        let w = tw_drop (tm_task t) w0; i = tw_fresh w;
            task = (timer_task_new (tm_timer_id t))
              \<lparr>tt_interval_ms := ucast (tm_period t), tt_next_fire_duration_ms := ucast (tm_period t)\<rparr> in
        (True, t\<lparr>tm_task := Some i\<rparr>, w\<lparr>tw_tasks := (tw_tasks w)(i \<mapsto> task), tw_fresh := Suc i\<rparr>))"

definition tm_Start :: "bool \<Rightarrow> timer \<Rightarrow> timing_wheel \<Rightarrow> (timer \<times> timing_wheel) option" where
  "tm_Start reality_mode t w =
     (if \<not> reality_mode then Some (t, w)
      else if tm_started t then Some (t, w)
      else case tm_InitTimerTask (t\<lparr>tm_started := True\<rparr>) w of
          (False, t', w') \<Rightarrow> Some (t', w')
        | (True, t', w') \<Rightarrow> (case tm_task t' of
              None \<Rightarrow> None
            | Some i \<Rightarrow> map_option (\<lambda>w''. (t', w'')) (tw_AddTask i w')))"

definition tm_Stop :: "timer \<Rightarrow> timing_wheel \<Rightarrow> timer \<times> timing_wheel" where
  "tm_Stop t w =
     (if tm_started t then (t\<lparr>tm_started := False, tm_task := None\<rparr>, tw_drop (tm_task t) w) else (t, w))"

definition tm_destroy :: "timer \<Rightarrow> timing_wheel \<Rightarrow> timer \<times> timing_wheel" where
  "tm_destroy t w = (if tm_task t \<noteq> None then tm_Stop t w else (t, w))"

text \<open>
  \<open>llround(static_cast<double>(ns) / 1000000)\<close>, half away from zero. The two floating point
  operations are exact enough for this value below 2 to the 53 nanoseconds.
\<close>

definition round_ms :: "int \<Rightarrow> int" where
  "round_ms ns = (if 0 \<le> ns then (ns + 500000) div 1000000 else - ((- ns + 500000) div 1000000))"

text \<open>The bookkeeping of a periodic callback that ran from \<open>start\<close> to \<open>end'\<close> (monotonic time, ns).\<close>

definition tm_reschedule :: "u64 \<Rightarrow> u64 \<Rightarrow> timer_task \<Rightarrow> timer_task" where
  "tm_reschedule start end' task =
     (let execute_time_ns = end' - start;
          execute_time_ms = (of_int (round_ms (uint execute_time_ns)) :: u64);
          task1 = (if tt_last_execute_time_ns task = 0 then task\<lparr>tt_last_execute_time_ns := start\<rparr>
                   else task\<lparr>tt_accumulated_error_ns := tt_accumulated_error_ns task +
                          (start - tt_last_execute_time_ns task - tt_interval_ms task * 1000000)\<rparr>);
          task2 = task1\<lparr>tt_last_execute_time_ns := start\<rparr> in
      if tt_interval_ms task2 \<le> execute_time_ms then task2\<lparr>tt_next_fire_duration_ms := 1\<rparr>
      else
        let accumulated_error_ms = (of_int (round_ms (sint (tt_accumulated_error_ns task2))) :: i64) in
        if accumulated_error_ms \<le>s tt_interval_ms task2 - execute_time_ms - 1
        then task2\<lparr>tt_next_fire_duration_ms := tt_interval_ms task2 - execute_time_ms - accumulated_error_ms\<rparr>
        else task2\<lparr>tt_next_fire_duration_ms := 1\<rparr>)"

definition tm_callback :: "nat \<Rightarrow> u64 \<Rightarrow> u64 \<Rightarrow> timing_wheel \<Rightarrow> timing_wheel option" where
  "tm_callback i start end' w = (case tw_tasks w i of
       None \<Rightarrow> Some w
     | Some task \<Rightarrow> tw_AddTask i (w\<lparr>tw_tasks := (tw_tasks w)(i \<mapsto> tm_reschedule start end' task)\<rparr>))"

section \<open>Runs of the wheel\<close>

text \<open>
  What can happen to the wheel: a new timer starts, one-shot or periodic; the callback of a periodic
  timer's task that has fired puts it back with the new duration it has computed (\<open>tm_callback\<close>, whose
  duration is the matter of \<open>timer_next_duration\<close>); a timer stops; the tick thread makes a turn. A
  step its caller cannot make, putting back a task that is gone or still queued, is skipped, and so
  is putting one back beyond the maximal interval, which takes an accumulated error of as much.
\<close>

datatype tw_op = TwStart u32 bool | TwAgain nat u64 | TwStop nat | TwTick

definition tw_again :: "nat \<Rightarrow> u64 \<Rightarrow> timing_wheel \<Rightarrow> timing_wheel" where
  "tw_again j d w = (case tw_tasks w j of
       None \<Rightarrow> w
     | Some task \<Rightarrow>
        if tw_queued w j \<or> d = 0 \<or> TIMER_MAX_INTERVAL_MS \<le> d then w
        else the (tw_AddTask j (w\<lparr>tw_tasks := (tw_tasks w)(j \<mapsto> task\<lparr>tt_next_fire_duration_ms := d\<rparr>)\<rparr>)))"

fun tw_do :: "tw_op \<Rightarrow> timing_wheel \<Rightarrow> nat list list \<times> timing_wheel" where
  "tw_do (TwStart period one) w = ([], snd (the (tm_Start True (tm_new 0 period one) w)))"
| "tw_do (TwAgain j d) w = ([], tw_again j d w)"
| "tw_do (TwStop j) w = ([], tw_drop (Some j) w)"
| "tw_do TwTick w = (let (fired, w') = tw_advance w in ([fired], w'))"

text \<open>The tasks fired at each tick of a run.\<close>

fun tw_run :: "tw_op list \<Rightarrow> timing_wheel \<Rightarrow> nat list list \<times> timing_wheel" where
  "tw_run [] w = ([], w)"
| "tw_run (op # ops) w = (let (f, w1) = tw_do op w; (fs, w2) = tw_run ops w1 in (f @ fs, w2))"

abbreviation pend :: "timing_wheel \<Rightarrow> nat \<Rightarrow> nat \<Rightarrow> nat" where
  "pend w n i \<equiv> count (mset (tw_pending w n)) i"

lemma pend_frame:
  assumes "tw_work_wheel w' = tw_work_wheel w" "tw_assistant_wheel w' = tw_assistant_wheel w"
    "tw_current_work_wheel_index w' = tw_current_work_wheel_index w"
    "tw_current_assistant_wheel_index w' = tw_current_assistant_wheel_index w"
    "tw_tasks w' i = tw_tasks w i"
  shows "pend w' n i = pend w n i"
proof -
  have l: "tw_live w' i = tw_live w i" and r: "tw_rem w' i = tw_rem w i"
    using assms(5) by (simp_all add: tw_live_def tw_rem_def)
  show ?thesis unfolding tw_pending_def mset_filter count_filter_mset l
    by (auto simp: work_at_def assist_at_def assms(1-4) r)
qed

lemma pending_ids: "tw_ok w \<Longrightarrow> set (tw_pending w n) \<subseteq> tw_ids w"
proof -
  assume ok: "tw_ok w"
  then have len: "length (tw_work_wheel w) = 512" "length (tw_assistant_wheel w) = 64" by (simp_all add: tw_ok_def)
  have "set (tw_work_wheel w ! (x mod 512)) \<subseteq> tw_ids w" for x
    using nth_ids [of "x mod 512" "tw_work_wheel w"] len by (auto simp: tw_ids_def)
  moreover have "set (tw_assistant_wheel w ! (x mod 64)) \<subseteq> tw_ids w" for x
    using nth_ids [of "x mod 64" "tw_assistant_wheel w"] len by (auto simp: tw_ids_def)
  moreover have "set (assist_at w T) \<subseteq> set (tw_assistant_wheel w ! ((acur w + T div 512) mod 64))" for T
    by (auto simp: assist_at_def)
  moreover have "set (work_at w n) \<subseteq> set (tw_work_wheel w ! ((cur w + n) mod 512))"
    by (auto simp: work_at_def)
  ultimately have "set (work_at w n) \<subseteq> tw_ids w" and "set (assist_at w (cur w + n)) \<subseteq> tw_ids w"
    by (meson subset_trans)+
  then show ?thesis by (auto simp: tw_pending_def)
qed

lemma pend_zero: "tw_ok w \<Longrightarrow> \<not> tw_queued w i \<Longrightarrow> pend w n i = 0"
  using pending_ids [of w n] by (auto simp: tw_queued_ids count_eq_zero_iff)

text \<open>Adding a task, as seen by the pending counts.\<close>

lemma tw_AddTask_ok:
  assumes "tw_ok w" and "tw_tasks w j = Some task" and "unat (tt_next_fire_duration_ms task) = d" "d < 32768"
  shows "tw_AddTask j w = Some (add_case j task w)" and "tw_ok (add_case j task w)"
  using assms add_case_ok [OF assms(1,2)] tw_AddTask_case [of w task j]
  by (auto simp: tw_AddTask_def tw_ok_def)

lemma not_waits: "\<not> tw_queued w i \<Longrightarrow> \<not> tw_waits w i"
  by (auto simp: tw_queued_def tw_waits_def)

lemma add_case_pend:
  assumes "tw_ok w" "tw_tasks w j = Some task" "\<not> tw_queued w j"
    "unat (tt_next_fire_duration_ms task) = d" "1 \<le> d" "d < 32768" "1 \<le> n"
  shows "pend (add_case j task w) n i = pend w n i + (if i = j \<and> n = tw_due (cur w) d then 1 else 0)"
  using add_case_pending [OF assms(1,2) not_waits [OF assms(3)] assms(4-7)] by (simp add: added_def)

lemma max_interval: "TIMER_MAX_INTERVAL_MS \<le> x \<longleftrightarrow> \<not> unat x < 32768"
  by (simp add: wheel_sizes word_le_nat_alt not_less)

lemma task_store_ok:
  assumes "tw_ok w" and "tw_rem (w\<lparr>tw_tasks := (tw_tasks w)(i \<mapsto> task)\<rparr>) i < 512"
    and "i < f" "tw_fresh w \<le> f"
  shows "tw_ok (w\<lparr>tw_tasks := (tw_tasks w)(i \<mapsto> task), tw_fresh := f\<rparr>)"
proof (rule tw_okI [OF assms(1)])
  fix j
  show "tw_rem (w\<lparr>tw_tasks := (tw_tasks w)(i \<mapsto> task), tw_fresh := f\<rparr>) j < 512"
    using assms(1,2) by (cases "j = i") (simp_all add: tw_rem_def tw_ok_def)
qed (use assms in \<open>auto simp: tw_ok_def tw_ids_def tw_live_def\<close>)

lemma tw_again_pend:
  assumes ok: "tw_ok w"
  shows "tw_ok (tw_again j d w)" and "i \<noteq> j \<Longrightarrow> 1 \<le> n \<Longrightarrow> pend (tw_again j d w) n i = pend w n i"
    and "tw_fresh (tw_again j d w) = tw_fresh w"
proof -
  have "tw_ok (tw_again j d w) \<and> (i \<noteq> j \<longrightarrow> 1 \<le> n \<longrightarrow> pend (tw_again j d w) n i = pend w n i) \<and>
      tw_fresh (tw_again j d w) = tw_fresh w"
  proof (cases "\<exists>task. tw_tasks w j = Some task \<and> \<not> (tw_queued w j \<or> d = 0 \<or> TIMER_MAX_INTERVAL_MS \<le> d)")
    case False
    then have "tw_again j d w = w" by (auto simp: tw_again_def split: option.splits)
    then show ?thesis using ok by simp
  next
    case True
    then obtain task where task: "tw_tasks w j = Some task" and v: "\<not> tw_queued w j" "d \<noteq> 0" "unat d < 32768"
      by (auto simp: max_interval)
    let ?t = "task\<lparr>tt_next_fire_duration_ms := d\<rparr>"
    let ?v = "w\<lparr>tw_tasks := (tw_tasks w)(j \<mapsto> ?t)\<rparr>"
    have "j < tw_fresh w" using ok task by (auto simp: tw_ok_def tw_live_def)
    moreover have "tw_rem ?v j < 512" using ok task
      by (simp add: tw_rem_def tw_ok_def) (metis option.simps(5))
    ultimately have okv: "tw_ok ?v" using task_store_ok [OF ok, of j ?t "tw_fresh w"] by simp
    have tv: "tw_tasks ?v j = Some ?t" by simp
    have q: "\<not> tw_queued ?v j" using v(1) by (simp add: tw_queued_def)
    have a: "tw_again j d w = add_case j ?t ?v"
      using tw_AddTask_ok(1) [OF okv tv] v task by (simp add: tw_again_def max_interval)
    have "1 \<le> unat d" using v(2) by (simp add: Suc_le_eq unat_gt_0)
    then have "i \<noteq> j \<Longrightarrow> 1 \<le> n \<Longrightarrow> pend (add_case j ?t ?v) n i = pend ?v n i"
      using add_case_pend [OF okv tv q, of "unat d" n i] v(3) by simp
    moreover have "i \<noteq> j \<Longrightarrow> pend ?v n i = pend w n i" by (rule pend_frame) simp_all
    ultimately show ?thesis
      using add_case_ok [OF okv tv] by (simp add: a add_case_sel)
  qed
  then show "tw_ok (tw_again j d w)" and "i \<noteq> j \<Longrightarrow> 1 \<le> n \<Longrightarrow> pend (tw_again j d w) n i = pend w n i"
    and "tw_fresh (tw_again j d w) = tw_fresh w" by auto
qed

lemma tw_drop_pend:
  assumes ok: "tw_ok w"
  shows "tw_ok (tw_drop (Some j) w)" and "i \<noteq> j \<Longrightarrow> pend (tw_drop (Some j) w) n i = pend w n i"
proof -
  show "tw_ok (tw_drop (Some j) w)"
    by (rule tw_okI [OF ok]) (use ok in \<open>auto simp: tw_drop_def tw_ok_def tw_rem_def tw_live_def tw_ids_def split: if_splits\<close>)
  show "i \<noteq> j \<Longrightarrow> pend (tw_drop (Some j) w) n i = pend w n i"
    by (rule pend_frame) (simp_all add: tw_drop_def)
qed

text \<open>Starting a new timer: the task gets the next free number.\<close>

definition tw_valid_period :: "u32 \<Rightarrow> bool" where
  "tw_valid_period p \<longleftrightarrow> 1 \<le> unat p \<and> unat p < 32768"

lemma valid_period: "tw_valid_period p \<longleftrightarrow> p \<noteq> 0 \<and> \<not> TIMER_MAX_INTERVAL_MS \<le> ucast p"
  by (auto simp: tw_valid_period_def max_interval unsigned_ucast_eq take_bit_nat_eq_self unat_gt_0
      Suc_le_eq take_bit_eq_mod less_trans [OF unat_lt_u32])

lemma tm_Start_new:
  assumes ok: "tw_ok w" and p: "tw_valid_period p"
  shows "\<exists>w'. tm_Start True (tm_new k p one) w = Some (tm_new k p one\<lparr>tm_task := Some (tw_fresh w), tm_started := True\<rparr>, w') \<and>
    tw_ok w' \<and> tw_fresh w' = Suc (tw_fresh w) \<and> tw_current_work_wheel_index w' = tw_current_work_wheel_index w \<and>
    tw_live w' (tw_fresh w) \<and> (\<forall>i. i \<noteq> tw_fresh w \<longrightarrow> tw_live w' i = tw_live w i) \<and>
    (\<forall>n i. 1 \<le> n \<longrightarrow> pend w' n i = pend w n i + (if i = tw_fresh w \<and> n = tw_due (cur w) (unat p) then 1 else 0))"
proof -
  let ?i = "tw_fresh w"
  let ?t = "(timer_task_new k)\<lparr>tt_interval_ms := ucast p, tt_next_fire_duration_ms := ucast p\<rparr>"
  let ?v = "w\<lparr>tw_tasks := (tw_tasks w)(?i \<mapsto> ?t), tw_fresh := Suc ?i\<rparr>"
  have pv: "p \<noteq> 0" "\<not> TIMER_MAX_INTERVAL_MS \<le> ucast p" using p by (simp_all add: valid_period)
  have up: "unat (tt_next_fire_duration_ms ?t) = unat p"
    using unat_lt_u32 [of p] by (simp add: unsigned_ucast_eq take_bit_nat_eq_self)
  have r: "tw_rem (w\<lparr>tw_tasks := (tw_tasks w)(?i \<mapsto> ?t)\<rparr>) ?i < 512" by (simp add: tw_rem_def timer_task_new_def)
  have okv: "tw_ok ?v" by (rule task_store_ok [OF ok r]) simp_all
  have tv: "tw_tasks ?v ?i = Some ?t" by simp
  have q: "\<not> tw_queued ?v ?i" "\<not> tw_queued w ?i" using ok by (auto simp: tw_queued_def tw_ok_def)
  have d: "1 \<le> unat p" "unat p < 32768" using p by (simp_all add: tw_valid_period_def)
  have pv0: "pend ?v n i = pend w n i" for n i
  proof (cases "i = ?i")
    case True
    show ?thesis unfolding True pend_zero [OF okv q(1)] pend_zero [OF ok q(2)] ..
  next
    case False
    then show ?thesis by (intro pend_frame) simp_all
  qed
  have st: "tm_Start True (tm_new k p one) w = Some (tm_new k p one\<lparr>tm_task := Some ?i, tm_started := True\<rparr>, add_case ?i ?t ?v)"
    using pv tw_AddTask_ok(1) [OF okv tv up d(2)] by (simp add: tm_Start_def tm_InitTimerTask_def tm_new_def tw_drop_def Let_def)
  have "tw_live (add_case ?i ?t ?v) ?i" "\<forall>i. i \<noteq> ?i \<longrightarrow> tw_live (add_case ?i ?t ?v) i = tw_live w i"
    by (simp_all add: add_case_def Let_def tw_live_def)
  moreover have "pend (add_case ?i ?t ?v) n i =
      pend w n i + (if i = ?i \<and> n = tw_due (cur w) (unat p) then 1 else 0)" if "1 \<le> n" for n i
    using add_case_pend [OF okv tv q(1) up d that, of i] by (simp add: pv0)
  ultimately show ?thesis
    using st tw_AddTask_ok(2) [OF okv tv up d(2)] by (simp add: add_case_sel)
qed

lemma tm_Start_bad: "\<not> tw_valid_period p \<Longrightarrow>
    tm_Start True (tm_new k p one) w = Some (tm_new k p one\<lparr>tm_started := True\<rparr>, w)"
  by (auto simp: valid_period tm_Start_def tm_InitTimerTask_def tm_new_def)









lemma tw_do_ok: "tw_ok w \<Longrightarrow> tw_ok (snd (tw_do op w))"
proof (cases op)
  case (TwStart p one)
  assume ok: "tw_ok w"
  show ?thesis
    using tm_Start_new [OF ok, of p 0 one] tm_Start_bad [of p 0 one w] ok TwStart
    by (cases "tw_valid_period p") auto
qed (auto simp: tw_again_pend(1) tw_drop_pend(1) split_beta intro: tw_advance_ok)

lemma tw_run_ok: "tw_ok w \<Longrightarrow> tw_ok (snd (tw_run ops w))"
proof (induction ops arbitrary: w)
  case (Cons op ops)
  from Cons.IH [OF tw_do_ok [OF Cons.prems, of op]] show ?case by (simp add: split_beta)
qed simp





section \<open>The arithmetic of a periodic timer\<close>

lemma round_ms_bounds: "\<bar>ns\<bar> < 2 ^ 63 + 1 \<Longrightarrow> \<bar>round_ms ns\<bar> < 2 ^ 44"
  by (auto simp: round_ms_def abs_if)

lemma round_ms_nonneg: "0 \<le> ns \<Longrightarrow> 0 \<le> round_ms ns"
  by (simp add: round_ms_def)

lemma round_ms_uint: "round_ms (uint (x :: u64)) < 2 ^ 45" "0 \<le> round_ms (uint (x :: u64))"
proof -
  have "uint x < 2 ^ 64" using uint_lt2p [of x] by simp
  then show "round_ms (uint x) < 2 ^ 45" by (simp add: round_ms_def)
  show "0 \<le> round_ms (uint x)" by (simp add: round_ms_nonneg)
qed

lemma sint_of_int_64: "- (2 ^ 63) \<le> k \<Longrightarrow> k < 2 ^ 63 \<Longrightarrow> sint (of_int k :: i64) = k"
  by (simp add: signed_take_bit_int_eq_self signed_of_int)

lemma uint_of_int_64: "0 \<le> k \<Longrightarrow> k < 2 ^ 64 \<Longrightarrow> uint (of_int k :: u64) = k"
  by (simp add: take_bit_int_eq_self unsigned_of_int)

lemma sint_lt: "\<bar>sint (x :: i64)\<bar> < 2 ^ 63 + 1"
  using sint_lt [of x] sint_ge [of x] by (auto simp: abs_if)

lemma next_duration:
  fixes interval :: u64
  assumes E: "0 \<le> E" "E < 2 ^ 45" and A: "\<bar>A\<bar> < 2 ^ 44" and I: "uint interval < 32768"
  shows "uint (if interval \<le> of_int E then 1
      else if of_int A \<le>s interval - of_int E - 1 then interval - of_int E - of_int A else 1) =
    (if uint interval \<le> E then 1 else max 1 (uint interval - E - A))"
proof -
  let ?I = "uint interval"
  have le: "interval \<le> of_int E \<longleftrightarrow> ?I \<le> E"
    using E by (simp add: word_le_def uint_of_int_64)
  show ?thesis
  proof (cases "?I \<le> E")
    case False
    have "interval - of_int E - 1 = of_int (?I - E - 1)" "interval - of_int E - of_int A = of_int (?I - E - A)"
      by simp_all
    moreover have "sint (of_int (?I - E - 1) :: i64) = ?I - E - 1" "sint (of_int A :: i64) = A"
      using False E A I by (intro sint_of_int_64; simp)+
    moreover have "uint (of_int (?I - E - A) :: u64) = ?I - E - A" if "A \<le> ?I - E - 1"
      using that E A I by (intro uint_of_int_64) auto
    ultimately have "uint (if of_int A \<le>s interval - of_int E - 1 then interval - of_int E - of_int A else 1) =
        max 1 (?I - E - A)"
      by (cases "A \<le> ?I - E - 1") (simp_all add: word_sle_eq del: of_int_diff)
    then show ?thesis using False le by simp
  qed (simp add: le)
qed

lemma tm_reschedule_next:
  "tt_next_fire_duration_ms (tm_reschedule start end' task) =
    (if tt_interval_ms task \<le> of_int (round_ms (uint (end' - start))) then 1
     else if of_int (round_ms (sint (tt_accumulated_error_ns (tm_reschedule start end' task)))) \<le>s
             tt_interval_ms task - of_int (round_ms (uint (end' - start))) - 1
     then tt_interval_ms task - of_int (round_ms (uint (end' - start))) -
          of_int (round_ms (sint (tt_accumulated_error_ns (tm_reschedule start end' task))))
     else 1)"
  by (simp add: tm_reschedule_def Let_def)

section \<open>Properties\<close>



text \<open>C20: One turn of the tick thread fires exactly the live tasks due in one tick, each as often as
  it is queued, and leaves every other task one tick nearer: the two wheels, the cascade and the wrap
  of both indices implement a list of pending tasks.\<close>

theorem wheel_turn_refines_pending:
  assumes "w = snd (tw_run history tw_new)" and "1 \<le> n"
  shows "fst (tw_advance w) = tw_pending w 1 \<and>
    tw_pending (snd (tw_advance w)) n = tw_pending w (n + 1)"
  using tw_advance_pending [of w] tw_run_ok [OF tw_new_ok, of history] assms by simp

theorem wheel_turn_refines_pending_witness:
  "fst (tw_advance tw_new) = [] \<and> tw_pending (snd (tw_advance tw_new)) 3 = []"
  using wheel_turn_refines_pending [of tw_new "[]" 3]
  by (simp add: tw_pending_def work_at_def assist_at_def tw_new_def)

text \<open>The next duration a periodic callback asks for is the period less its own running time and the
  accumulated error, in milliseconds, and never below one tick: as long as there is time left, the
  next start is aimed at the ideal grid of the timer. No operation on the way wraps around.\<close>

theorem timer_next_duration:
  assumes "uint (tt_interval_ms task) < 32768"
  shows "uint (tt_next_fire_duration_ms (tm_reschedule start end' task)) =
    (let interval = uint (tt_interval_ms task); run = round_ms (uint (end' - start));
         err = round_ms (sint (tt_accumulated_error_ns (tm_reschedule start end' task))) in
     if interval \<le> run then 1 else max 1 (interval - run - err))"
  unfolding tm_reschedule_next Let_def
  by (rule next_duration [OF round_ms_uint(2,1) round_ms_bounds [OF sint_lt] assms])

theorem timer_next_duration_witness:
  "uint (tt_next_fire_duration_ms (tm_reschedule 5000000000 5003000000
     ((timer_task_new 1)\<lparr>tt_interval_ms := 100, tt_last_execute_time_ns := 4899000000\<rparr>))) = 96"
  by (subst timer_next_duration)
     (simp_all add: timer_task_new_def tm_reschedule_def Let_def round_ms_def)

text \<open>A timer with a period of 0 or of at least 512 * 64 ms never reaches the wheel; but Start has
  marked it started, so giving it a valid period and calling Start again does nothing either.\<close>

theorem timer_bad_period_stays_dead:
  assumes "\<not> tw_valid_period p"
  shows "\<exists>t. tm_Start True (tm_new k p one) w = Some (t, w) \<and>
    (\<forall>p' one'. tm_Start True (tm_SetTimerOption p' one' t) w = Some (tm_SetTimerOption p' one' t, w))"
  using tm_Start_bad [OF assms, of k one w] by (auto simp: tm_Start_def tm_SetTimerOption_def)

theorem timer_bad_period_stays_dead_witness:
  "\<exists>t. tm_Start True (tm_SetTimerOption 10 True t) tw_new = Some (tm_SetTimerOption 10 True t, tw_new)"
proof -
  have "\<not> tw_valid_period 32768" by (simp add: tw_valid_period_def)
  from timer_bad_period_stays_dead [OF this, of 0 True tw_new] show ?thesis by blast
qed

end
