(* ===== verification/Data_Flow.thy ===== *)
theory Data_Flow
  imports Cyber_Prelude "HOL-Library.Sublist"
begin

text \<open>
  The way of a message from the dispatcher to a component (cyber/data): the ring buffers of
  cache_buffer.h, the reading side of channel_buffer.h, the dispatcher and the notifier
  (data_dispatcher.h, data_notifier.h), and the visitors with the fusion of several channels
  (data_visitor.h, fusion/all_latest.h).

  Buffers are objects shared between visitors, fusions and the dispatcher: they live in a heap
  and are named by numbers. The messages of all channels have one type here; a fused message is
  the list of its parts, so that the visitors of two, three and four channels are one definition.
\<close>

section \<open>CacheBuffer\<close>

text \<open>\<open>cb_fusion_callback\<close>: the objects the callback of \<open>AllLatest\<close> works on (the other
  buffers, then the fusion buffer).\<close>

record 'a cache_buffer =
  cb_head :: u64
  cb_tail :: u64
  cb_capacity :: u64
  cb_buffer :: "'a option list"
  cb_fusion_callback :: "(nat list \<times> nat) option"

definition cb_new :: "u64 \<Rightarrow> 'a cache_buffer" where
  "cb_new n = \<lparr>cb_head = 0, cb_tail = 0, cb_capacity = n + 1, cb_buffer = replicate (unat (n + 1)) None,
     cb_fusion_callback = None\<rparr>"

definition cb_GetIndex :: "'a cache_buffer \<Rightarrow> u64 \<Rightarrow> nat" where
  "cb_GetIndex b pos = unat (pos mod cb_capacity b)"

text \<open>\<open>None\<close>: an empty pointer, or an index outside the vector.\<close>

definition cb_at :: "'a cache_buffer \<Rightarrow> u64 \<Rightarrow> 'a option" where
  "cb_at b pos = (if cb_GetIndex b pos < length (cb_buffer b) then cb_buffer b ! cb_GetIndex b pos else None)"

definition cb_Head :: "'a cache_buffer \<Rightarrow> u64" where "cb_Head b = cb_head b + 1"
definition cb_Tail :: "'a cache_buffer \<Rightarrow> u64" where "cb_Tail b = cb_tail b"
definition cb_Size :: "'a cache_buffer \<Rightarrow> u64" where "cb_Size b = cb_tail b - cb_head b"
definition cb_Front :: "'a cache_buffer \<Rightarrow> 'a option" where "cb_Front b = cb_at b (cb_head b + 1)"
definition cb_Back :: "'a cache_buffer \<Rightarrow> 'a option" where "cb_Back b = cb_at b (cb_tail b)"
definition cb_Empty :: "'a cache_buffer \<Rightarrow> bool" where "cb_Empty b \<longleftrightarrow> cb_tail b = 0"
definition cb_Full :: "'a cache_buffer \<Rightarrow> bool" where
  "cb_Full b \<longleftrightarrow> cb_capacity b - 1 = cb_tail b - cb_head b"
definition cb_Capacity :: "'a cache_buffer \<Rightarrow> u64" where "cb_Capacity b = cb_capacity b"

definition cb_SetFusionCallback :: "nat list \<times> nat \<Rightarrow> 'a cache_buffer \<Rightarrow> 'a cache_buffer" where
  "cb_SetFusionCallback f b = b\<lparr>cb_fusion_callback := Some f\<rparr>"

text \<open>\<open>Fill\<close> without a fusion callback.\<close>

definition cb_store :: "'a \<Rightarrow> 'a cache_buffer \<Rightarrow> 'a cache_buffer" where
  "cb_store v b =
     (if cb_Full b
      then b\<lparr>cb_buffer := (cb_buffer b)[cb_GetIndex b (cb_head b) := Some v],
             cb_head := cb_head b + 1, cb_tail := cb_tail b + 1\<rparr>
      else b\<lparr>cb_buffer := (cb_buffer b)[cb_GetIndex b (cb_tail b + 1) := Some v],
             cb_tail := cb_tail b + 1\<rparr>)"

section \<open>ChannelBuffer\<close>

text \<open>\<open>Fetch\<close> answers the new index and the message, \<open>None\<close> when there is none.\<close>

definition chb_Fetch :: "u64 \<Rightarrow> 'a cache_buffer \<Rightarrow> u64 \<times> 'a option" where
  "chb_Fetch index b =
     (if cb_Empty b then (index, None)
      else if index = 0 then (cb_Tail b, cb_at b (cb_Tail b))
      else if index = cb_Tail b + 1 then (index, None)
      else if index < cb_Head b then (cb_Tail b, cb_at b (cb_Tail b))
      else (index, cb_at b index))"

definition chb_Latest :: "'a cache_buffer \<Rightarrow> 'a option" where
  "chb_Latest b = (if cb_Empty b then None else cb_Back b)"

text \<open>The loop of \<open>FetchMulti\<close> from \<open>index\<close> to the tail; it makes \<open>num\<close> rounds.\<close>

fun chb_collect :: "nat \<Rightarrow> u64 \<Rightarrow> 'a cache_buffer \<Rightarrow> 'a option list" where
  "chb_collect 0 index b = []"
| "chb_collect (Suc num) index b =
     (if index \<le> cb_Tail b then cb_at b index # chb_collect num (index + 1) b else [])"

definition chb_FetchMulti :: "u64 \<Rightarrow> 'a cache_buffer \<Rightarrow> 'a option list option" where
  "chb_FetchMulti fetch_size b =
     (if cb_Empty b then None
      else let num = min (cb_Size b) fetch_size in
        Some (chb_collect (unat num) (cb_Tail b - num + 1) b))"

section \<open>A buffer holds the last messages\<close>

text \<open>\<open>msgs\<close> are all messages ever stored; positions count from 1.\<close>

definition cb_rep :: "nat \<Rightarrow> 'a list \<Rightarrow> 'a cache_buffer \<Rightarrow> bool" where
  "cb_rep n msgs b \<longleftrightarrow> cb_capacity b = of_nat (Suc n) \<and> Suc n < 2 ^ 64 \<and> length (cb_buffer b) = Suc n \<and>
     Suc (length msgs) < 2 ^ 64 \<and> unat (cb_tail b) = length msgs \<and> unat (cb_head b) = length msgs - n \<and>
     (\<forall>p. length msgs - n < p \<and> p \<le> length msgs \<longrightarrow> cb_buffer b ! (p mod Suc n) = Some (msgs ! (p - 1))) \<and>
     (n = 0 \<and> msgs \<noteq> [] \<longrightarrow> cb_buffer b ! 0 = Some (last msgs))"

lemma cb_rep_unat:
  assumes "cb_rep n msgs b"
  shows "unat (cb_capacity b) = Suc n" "cb_tail b = of_nat (length msgs)" "cb_head b = of_nat (length msgs - n)"
  using assms by (auto simp: cb_rep_def unat_of_nat word_unat_eq_iff simp del: of_nat_Suc)

lemma cb_GetIndex_rep:
  "cb_rep n msgs b \<Longrightarrow> p < 2 ^ 64 \<Longrightarrow> cb_GetIndex b (of_nat p) = p mod Suc n"
  using cb_rep_unat(1) [of n msgs b] by (simp add: cb_GetIndex_def unat_mod_distrib unat_of_nat del: of_nat_Suc)

lemma cb_at_rep:
  assumes r: "cb_rep n msgs b" and p: "length msgs - n < p \<or> p = length msgs" "0 < p" "p \<le> length msgs"
  shows "cb_at b (of_nat p) = Some (msgs ! (p - 1))"
proof -
  have lim: "p < 2 ^ 64" using r p by (auto simp: cb_rep_def)
  have i: "cb_at b (of_nat p) = cb_buffer b ! (p mod Suc n)"
    using r by (simp add: cb_at_def cb_GetIndex_rep [OF r lim] cb_rep_def)
  show ?thesis
  proof (cases "n = 0")
    case True
    then have "p = length msgs" using p by auto
    then show ?thesis using r p True unfolding i by (auto simp: cb_rep_def last_conv_nth)
  next
    case False
    then have "length msgs - n < p" using p by auto
    then show ?thesis using r p unfolding i by (auto simp: cb_rep_def)
  qed
qed

lemma cb_new_rep: "unat n < 2 ^ 64 - 1 \<Longrightarrow> cb_rep (unat n) [] (cb_new n)"
  using unat_Suc_word [of n] by (auto simp: cb_rep_def cb_new_def word_unat_eq_iff unat_of_nat simp del: of_nat_Suc)

lemma cb_Full_rep:
  assumes "cb_rep n msgs b"
  shows "cb_Full b \<longleftrightarrow> n \<le> length msgs"
proof -
  have t: "unat (cb_tail b) = length msgs" "unat (cb_head b) = length msgs - n" using assms by (auto simp: cb_rep_def)
  then have "unat (cb_tail b - cb_head b) = length msgs - (length msgs - n)"
    by (simp add: unat_sub_if_size)
  moreover have "unat (cb_capacity b - 1) = n" using cb_rep_unat(1) [OF assms] by (subst unat_minus_one) auto
  ultimately show ?thesis by (auto simp: cb_Full_def word_unat_eq_iff)
qed

lemma cb_store_rep:
  assumes r: "cb_rep n msgs b" and lim: "Suc (Suc (length msgs)) < 2 ^ 64"
  shows "cb_rep n (msgs @ [v]) (cb_store v b)"
proof -
  let ?L = "length msgs"
  have cap: "cb_capacity b = of_nat (Suc n)" "length (cb_buffer b) = Suc n" "Suc n < 2 ^ 64"
    and ht: "unat (cb_tail b) = ?L" "unat (cb_head b) = ?L - n" using r by (auto simp: cb_rep_def)
  have tail: "unat (cb_tail b + 1) = Suc ?L" using ht lim by (subst unat_Suc_word) simp_all
  have head: "unat (cb_head b + 1) = Suc (?L - n)" using ht lim by (subst unat_Suc_word) simp_all
  have tl: "cb_tail b + 1 = of_nat (Suc ?L)"
    using tail lim by (simp add: word_unat_eq_iff unat_of_nat del: of_nat_Suc)
  have idx: "cb_GetIndex b (cb_tail b + 1) = Suc ?L mod Suc n"
    unfolding tl by (rule cb_GetIndex_rep [OF r]) (use lim in simp)
  have idxf: "cb_GetIndex b (cb_head b) = Suc ?L mod Suc n" if "n \<le> ?L"
  proof -
    have "cb_GetIndex b (cb_head b) = (?L - n) mod Suc n"
      using cb_GetIndex_rep [OF r, of "?L - n"] cb_rep_unat(3) [OF r] lim by simp
    also have "\<dots> = Suc ?L mod Suc n" using that by (metis Suc_diff_diff add_Suc_right diff_Suc_Suc le_add_diff_inverse2 mod_add_self2)
    finally show ?thesis .
  qed
  have buf: "cb_buffer (cb_store v b) = (cb_buffer b)[Suc ?L mod Suc n := Some v]"
    using idx idxf cb_Full_rep [OF r] by (simp add: cb_store_def)
  have st: "cb_capacity (cb_store v b) = of_nat (Suc n)" "unat (cb_tail (cb_store v b)) = Suc ?L"
    "unat (cb_head (cb_store v b)) = Suc ?L - n"
    using cap cb_Full_rep [OF r] tail head ht by (auto simp: cb_store_def Suc_diff_le)
  have "cb_buffer (cb_store v b) ! (p mod Suc n) = Some ((msgs @ [v]) ! (p - 1))"
    if p: "Suc ?L - n < p" "p \<le> Suc ?L" for p
  proof (cases "p = Suc ?L")
    case True
    then show ?thesis using cap by (simp add: buf)
  next
    case False
    then have "p mod Suc n \<noteq> Suc ?L mod Suc n" using p by (intro mod_window_neq) auto
    moreover have "cb_buffer b ! (p mod Suc n) = Some (msgs ! (p - 1))"
      using r p False by (auto simp: cb_rep_def)
    moreover have "p - 1 < ?L" using p False by linarith
    ultimately show ?thesis using p by (simp add: buf nth_append)
  qed
  moreover have "n = 0 \<Longrightarrow> cb_buffer (cb_store v b) ! 0 = Some v" using cap by (simp add: buf)
  ultimately show ?thesis using cap st lim buf by (simp add: cb_rep_def)
qed

lemma cb_stores_rep:
  "cb_rep n msgs b \<Longrightarrow> Suc (length msgs + length vs) < 2 ^ 64 \<Longrightarrow> cb_rep n (msgs @ vs) (fold cb_store vs b)"
proof (induction vs arbitrary: msgs b)
  case (Cons v vs)
  then have "cb_rep n (msgs @ [v]) (cb_store v b)" by (intro cb_store_rep) auto
  from Cons.IH [OF this] Cons.prems(2) show ?case by simp
qed simp

section \<open>What a reader gets\<close>

text \<open>The position a \<open>Fetch\<close> with index \<open>p\<close> delivers, out of \<open>L\<close> messages in a buffer for \<open>n\<close>.\<close>

definition fetch_pos :: "nat \<Rightarrow> nat \<Rightarrow> nat \<Rightarrow> nat option" where
  "fetch_pos n L p =
     (if L = 0 \<or> p = Suc L then None else if p = 0 \<or> p \<le> L - n then Some L else Some p)"

lemma chb_Fetch_rep:
  assumes r: "cb_rep n msgs b" and p: "p \<le> Suc (length msgs)"
  shows "chb_Fetch (of_nat p) b = (case fetch_pos n (length msgs) p of
      None \<Rightarrow> (of_nat p, None)
    | Some q \<Rightarrow> (of_nat q, Some (msgs ! (q - 1))))"
proof -
  let ?L = "length msgs"
  have lim: "Suc ?L < 2 ^ 64" "unat (cb_tail b) = ?L" "unat (cb_head b) = ?L - n" using r by (auto simp: cb_rep_def)
  have tail: "cb_tail b = of_nat ?L" by (rule cb_rep_unat(2) [OF r])
  have up: "unat (of_nat p :: u64) = p" using p lim(1) by (simp add: unat_of_nat)
  have e: "cb_Empty b \<longleftrightarrow> ?L = 0" using lim(2) by (auto simp: cb_Empty_def simp flip: unat_eq_0)
  have z: "(of_nat p :: u64) = 0 \<longleftrightarrow> p = 0" using up by (metis unat_eq_0)
  have t1: "unat (cb_tail b + 1) = Suc ?L" using lim by (subst unat_Suc_word) simp_all
  then have t: "(of_nat p :: u64) = cb_Tail b + 1 \<longleftrightarrow> p = Suc ?L" by (simp add: cb_Tail_def word_unat_eq_iff up)
  have "unat (cb_head b + 1) = Suc (?L - n)" using lim by (subst unat_Suc_word) simp_all
  then have h: "(of_nat p :: u64) < cb_Head b \<longleftrightarrow> p \<le> ?L - n" by (simp add: cb_Head_def word_less_nat_alt up less_Suc_eq_le)
  have at_tail: "?L \<noteq> 0 \<Longrightarrow> cb_at b (cb_Tail b) = Some (msgs ! (?L - 1))"
    using cb_at_rep [OF r, of ?L] tail by (simp add: cb_Tail_def)
  have "cb_at b (of_nat p) = Some (msgs ! (p - 1))" if "p \<noteq> 0" "p \<noteq> Suc ?L" "\<not> p \<le> ?L - n"
    using cb_at_rep [OF r, of p] that p by simp
  then show ?thesis
    using at_tail tail by (simp add: chb_Fetch_def fetch_pos_def e z t h) (simp add: cb_Tail_def)
qed

text \<open>A reader of one channel: messages come in, and \<open>TryFetch\<close> of the visitor takes them out.\<close>

datatype 'a rd_op = RdFill 'a | RdFetch

definition dv_TryFetch :: "u64 \<Rightarrow> 'a cache_buffer \<Rightarrow> u64 \<times> 'a option" where
  "dv_TryFetch next_msg_index b = (case chb_Fetch next_msg_index b of
       (index, Some m) \<Rightarrow> (index + 1, Some m)
     | (index, None) \<Rightarrow> (index, None))"

fun rd_run :: "'a rd_op list \<Rightarrow> 'a cache_buffer \<Rightarrow> u64 \<Rightarrow> 'a list" where
  "rd_run [] b i = []"
| "rd_run (RdFill v # ops) b i = rd_run ops (cb_store v b) i"
| "rd_run (RdFetch # ops) b i = (case dv_TryFetch i b of
       (j, Some m) \<Rightarrow> m # rd_run ops b j
     | (j, None) \<Rightarrow> rd_run ops b j)"

fun filled :: "'a rd_op list \<Rightarrow> 'a list" where
  "filled [] = []"
| "filled (RdFill v # ops) = v # filled ops"
| "filled (RdFetch # ops) = filled ops"

lemma subseq_drop: "i \<le> j \<Longrightarrow> subseq (drop j xs) (drop i xs)"
  by (metis le_add_diff_inverse2 drop_drop subseq_order.order_refl suffix_drop suffix_imp_subseq)

lemma rd_run_subseq:
  assumes "cb_rep n msgs b" and "p \<le> Suc (length msgs)" and "Suc (length msgs + length (filled ops)) < 2 ^ 64"
  shows "subseq (rd_run ops b (of_nat p)) (drop (p - 1) (msgs @ filled ops))"
  using assms
proof (induction ops arbitrary: msgs b p)
  case (Cons op ops)
  show ?case
  proof (cases op)
    case (RdFill v)
    then have "cb_rep n (msgs @ [v]) (cb_store v b)" using Cons.prems by (intro cb_store_rep) simp_all
    from Cons.IH [OF this, of p] Cons.prems RdFill show ?thesis by simp
  next
    case RdFetch
    note f = chb_Fetch_rep [OF Cons.prems(1,2)]
    show ?thesis
    proof (cases "fetch_pos n (length msgs) p")
      case None
      then show ?thesis using Cons.IH [OF Cons.prems(1,2)] Cons.prems(3) RdFetch
        by (simp add: dv_TryFetch_def f)
    next
      case (Some q)
      then have q: "p \<le> q" "1 \<le> q" "q \<le> length msgs" using Cons.prems(2)
        by (auto simp: fetch_pos_def Suc_le_eq split: if_splits)
      have "drop (q - 1) (msgs @ filled ops) = msgs ! (q - 1) # drop q (msgs @ filled ops)"
        using q by (subst Cons_nth_drop_Suc [symmetric]) (auto simp: nth_append)
      moreover have "subseq (rd_run ops b (of_nat (Suc q))) (drop q (msgs @ filled ops))"
        using Cons.IH [OF Cons.prems(1), of "Suc q"] Cons.prems(3) RdFetch q by simp
      ultimately have "subseq (msgs ! (q - 1) # rd_run ops b (of_nat (Suc q))) (drop (q - 1) (msgs @ filled ops))"
        by simp
      moreover have "subseq (drop (q - 1) (msgs @ filled ops)) (drop (p - 1) (msgs @ filled ops))"
        using q(1) by (intro subseq_drop) simp
      ultimately show ?thesis
        using RdFetch Some by (simp add: dv_TryFetch_def f add.commute)
    qed
  qed
qed simp

section \<open>Dispatcher, notifier and visitors\<close>

text \<open>
  The shared objects: buffers of messages and of fused messages (a weak pointer to a buffer that is
  gone is \<open>None\<close>), the two maps, and the notifiers with the callback registered on each.
  \<open>dw_calls\<close> lists the callbacks run, in order; what a callback does is the scheduler's matter.
\<close>

record 'm data_world =
  dw_shutdown :: bool
  dw_buffers :: "nat \<Rightarrow> 'm cache_buffer option"
  dw_fusions :: "nat \<Rightarrow> 'm list cache_buffer option"
  dw_buffers_map :: "u64 \<Rightarrow> nat list option"
  dw_notifies_map :: "u64 \<Rightarrow> nat list option"
  dw_callback :: "nat \<Rightarrow> bool"
  dw_calls :: "nat list"

definition dd_AddBuffer :: "u64 \<Rightarrow> nat \<Rightarrow> 'm data_world \<Rightarrow> 'm data_world" where
  "dd_AddBuffer channel_id buffer w =
     (case dw_buffers_map w channel_id of
        None \<Rightarrow> w\<lparr>dw_buffers_map := (dw_buffers_map w)(channel_id \<mapsto> [buffer])\<rparr>
      | Some bs \<Rightarrow> w\<lparr>dw_buffers_map := (dw_buffers_map w)(channel_id \<mapsto> bs @ [buffer])\<rparr>)"

definition dn_AddNotifier :: "u64 \<Rightarrow> nat \<Rightarrow> 'm data_world \<Rightarrow> 'm data_world" where
  "dn_AddNotifier channel_id notifier w =
     (case dw_notifies_map w channel_id of
        None \<Rightarrow> w\<lparr>dw_notifies_map := (dw_notifies_map w)(channel_id \<mapsto> [notifier])\<rparr>
      | Some ns \<Rightarrow> w\<lparr>dw_notifies_map := (dw_notifies_map w)(channel_id \<mapsto> ns @ [notifier])\<rparr>)"

definition dn_Notify :: "u64 \<Rightarrow> 'm data_world \<Rightarrow> bool \<times> 'm data_world" where
  "dn_Notify channel_id w =
     (case dw_notifies_map w channel_id of
        None \<Rightarrow> (False, w)
      | Some ns \<Rightarrow> (True, w\<lparr>dw_calls := dw_calls w @ filter (dw_callback w) ns\<rparr>))"

definition dv_RegisterNotifyCallback :: "nat \<Rightarrow> 'm data_world \<Rightarrow> 'm data_world" where
  "dv_RegisterNotifyCallback notifier w = w\<lparr>dw_callback := (dw_callback w)(notifier := True)\<rparr>"

text \<open>The latest messages of the other channels of a fusion, \<open>None\<close> as soon as one has none.\<close>

fun al_latest :: "'m data_world \<Rightarrow> nat list \<Rightarrow> 'm list option" where
  "al_latest w [] = Some []"
| "al_latest w (b # bs) =
     (case dw_buffers w b of
        None \<Rightarrow> None
      | Some buffer \<Rightarrow> (case chb_Latest buffer of
            None \<Rightarrow> None
          | Some m \<Rightarrow> map_option (Cons m) (al_latest w bs)))"

text \<open>The callback \<open>AllLatest\<close> installs in the buffer of the first channel.\<close>

definition al_callback :: "nat list \<Rightarrow> nat \<Rightarrow> 'm \<Rightarrow> 'm data_world \<Rightarrow> 'm data_world" where
  "al_callback others fusion m0 w =
     (case al_latest w others of
        None \<Rightarrow> w
      | Some ms \<Rightarrow> (case dw_fusions w fusion of
            None \<Rightarrow> w
          | Some fb \<Rightarrow> w\<lparr>dw_fusions := (dw_fusions w)(fusion \<mapsto> cb_store (m0 # ms) fb)\<rparr>))"

definition cb_Fill :: "nat \<Rightarrow> 'm \<Rightarrow> 'm data_world \<Rightarrow> 'm data_world" where
  "cb_Fill b v w =
     (case dw_buffers w b of
        None \<Rightarrow> w
      | Some buffer \<Rightarrow> (case cb_fusion_callback buffer of
            Some (others, fusion) \<Rightarrow> al_callback others fusion v w
          | None \<Rightarrow> w\<lparr>dw_buffers := (dw_buffers w)(b \<mapsto> cb_store v buffer)\<rparr>))"

definition dd_Dispatch :: "u64 \<Rightarrow> 'm \<Rightarrow> 'm data_world \<Rightarrow> bool \<times> 'm data_world" where
  "dd_Dispatch channel_id msg w =
     (if dw_shutdown w then (False, w)
      else case dw_buffers_map w channel_id of
          None \<Rightarrow> (False, w)
        | Some bs \<Rightarrow> dn_Notify channel_id (fold (\<lambda>b. cb_Fill b msg) bs w))"

section \<open>DataVisitor\<close>

text \<open>\<open>vi_fusion\<close> is the fusion buffer of a visitor of several channels.\<close>

record data_visitor =
  vi_next_msg_index :: u64
  vi_notifier :: nat
  vi_buffers :: "nat list"
  vi_fusion :: "nat option"

text \<open>
  The constructors: the new buffers are \<open>b0\<close>, \<open>b0 + 1\<close>, ... in the order of the configurations
  (channel id, queue size); all are given to the dispatcher, only the first channel to the notifier.
\<close>

fun dv_add_buffers :: "(u64 \<times> u32) list \<Rightarrow> nat \<Rightarrow> 'm data_world \<Rightarrow> 'm data_world" where
  "dv_add_buffers [] b w = w"
| "dv_add_buffers ((channel_id, queue_size) # configs) b w =
     dv_add_buffers configs (Suc b)
       (dd_AddBuffer channel_id b (w\<lparr>dw_buffers := (dw_buffers w)(b \<mapsto> cb_new (ucast queue_size))\<rparr>))"

definition dv_new :: "(u64 \<times> u32) list \<Rightarrow> nat \<Rightarrow> nat \<Rightarrow> nat \<Rightarrow> 'm data_world \<Rightarrow> data_visitor \<times> 'm data_world" where
  "dv_new configs b0 fusion notifier w =
     (let w1 = dv_add_buffers configs b0 w;
          w2 = dn_AddNotifier (fst (hd configs)) notifier w1;
          bs = [b0..<b0 + length configs] in
      if length configs = 1
      then (\<lparr>vi_next_msg_index = 0, vi_notifier = notifier, vi_buffers = bs, vi_fusion = None\<rparr>, w2)
      else (\<lparr>vi_next_msg_index = 0, vi_notifier = notifier, vi_buffers = bs, vi_fusion = Some fusion\<rparr>,
            case dw_buffers w2 b0 of
              None \<Rightarrow> w2
            | Some buffer0 \<Rightarrow>
                w2\<lparr>dw_fusions := (dw_fusions w2)(fusion \<mapsto> cb_new (cb_Capacity buffer0 - 1)),
                   dw_buffers := (dw_buffers w2)(b0 \<mapsto> cb_SetFusionCallback (tl bs, fusion) buffer0)\<rparr>))"

text \<open>\<open>TryFetch\<close> answers the parts of the next message.\<close>

definition dv_fetch :: "data_visitor \<Rightarrow> 'm data_world \<Rightarrow> data_visitor \<times> 'm list option" where
  "dv_fetch v w =
     (case vi_fusion v of
        None \<Rightarrow> (case dw_buffers w (hd (vi_buffers v)) of
            None \<Rightarrow> (v, None)
          | Some b \<Rightarrow> (let (i, m) = dv_TryFetch (vi_next_msg_index v) b in
              (v\<lparr>vi_next_msg_index := i\<rparr>, map_option (\<lambda>m. [m]) m)))
      | Some f \<Rightarrow> (case dw_fusions w f of
            None \<Rightarrow> (v, None)
          | Some b \<Rightarrow> (let (i, m) = dv_TryFetch (vi_next_msg_index v) b in
              (v\<lparr>vi_next_msg_index := i\<rparr>, m))))"

section \<open>Keeping up, and fetching several\<close>

lemma rd_run_fetches:
  assumes "cb_rep n msgs b" and "length msgs - n < p" and "p + k = Suc (length msgs)" and "0 < p"
  shows "rd_run (replicate k RdFetch) b (of_nat p) = drop (p - 1) msgs"
  using assms
proof (induction k arbitrary: p)
  case (Suc k)
  have f: "fetch_pos n (length msgs) p = Some p" using Suc.prems by (auto simp: fetch_pos_def)
  have "msgs ! (p - 1) # drop p msgs = drop (p - 1) msgs"
    using Suc.prems Cons_nth_drop_Suc [of "p - 1" msgs] by simp
  moreover have "rd_run (replicate k RdFetch) b (of_nat (Suc p)) = drop p msgs"
    using Suc.IH [of "Suc p"] Suc.prems by simp
  ultimately show ?case
    using Suc.prems chb_Fetch_rep [OF Suc.prems(1), of p] f by (simp add: dv_TryFetch_def add.commute)
qed simp

lemma rd_run_fills: "rd_run (map RdFill vs @ ops) b i = rd_run ops (fold cb_store vs b) i"
  by (induction vs arbitrary: b) simp_all

lemma chb_collect_rep:
  assumes "cb_rep n msgs b" and "length msgs - n < p" and "p + k = Suc (length msgs)" and "0 < p"
  shows "chb_collect k (of_nat p) b = map Some (drop (p - 1) msgs)"
  using assms
proof (induction k arbitrary: p)
  case (Suc k)
  have lim: "Suc (length msgs) < 2 ^ 64" using Suc.prems(1) by (simp add: cb_rep_def)
  have le: "of_nat p \<le> cb_Tail b"
    using Suc.prems lim cb_rep_unat(2) [OF Suc.prems(1)] by (simp add: cb_Tail_def word_le_nat_alt unat_of_nat)
  have at: "cb_at b (of_nat p) = Some (msgs ! (p - 1))" using cb_at_rep [OF Suc.prems(1), of p] Suc.prems by simp
  have "msgs ! (p - 1) # drop p msgs = drop (p - 1) msgs"
    using Suc.prems Cons_nth_drop_Suc [of "p - 1" msgs] by simp
  moreover have "chb_collect k (of_nat (Suc p)) b = map Some (drop p msgs)"
    using Suc.IH [of "Suc p"] Suc.prems by simp
  ultimately show ?case using le at by (simp add: add.commute flip: list.map(2))
qed simp

lemma chb_FetchMulti_rep:
  assumes r: "cb_rep n msgs b"
  shows "chb_FetchMulti k b = (if msgs = [] then None
    else Some (map Some (drop (length msgs - min n (unat k)) msgs)))"
proof (cases "msgs = []")
  case True
  then show ?thesis using r by (simp add: chb_FetchMulti_def cb_Empty_def cb_rep_def unat_eq_0)
next
  case False
  let ?L = "length msgs" and ?num = "min (cb_Size b) k"
  have lim: "Suc ?L < 2 ^ 64" "unat (cb_tail b) = ?L" "unat (cb_head b) = ?L - n" using r by (auto simp: cb_rep_def)
  have size: "unat (cb_Size b) = min n ?L" using lim by (auto simp: cb_Size_def unat_sub_if_size)
  have num: "unat ?num = min (min n ?L) (unat k)" by (simp add: min_def size word_le_nat_alt)
  let ?p = "?L - unat ?num + 1"
  have nl: "unat ?num \<le> ?L" using num by simp
  have "cb_Tail b - ?num + 1 = of_nat ?p"
    using nl cb_rep_unat(2) [OF r] by (simp add: cb_Tail_def of_nat_diff)
  moreover have "chb_collect (unat ?num) (of_nat ?p) b = map Some (drop (?p - 1) msgs)"
    by (rule chb_collect_rep [OF r]) (use num nl in auto)
  moreover have "cb_Empty b = False" using lim(2) False by (auto simp: cb_Empty_def)
  moreover have "drop (?L - min (min n ?L) (unat k)) msgs = drop (?L - min n (unat k)) msgs"
    by (rule arg_cong [of _ _ "\<lambda>i. drop i msgs"]) auto
  ultimately show ?thesis using False by (simp add: chb_FetchMulti_def Let_def num del: of_nat_Suc of_nat_add)
qed

section \<open>Fusion follows the latest messages\<close>

text \<open>The specification: what the visitor should see of a sequence of messages (channel, message).\<close>

fun collect_opts :: "'m option list \<Rightarrow> 'm list option" where
  "collect_opts [] = Some []"
| "collect_opts (None # xs) = None"
| "collect_opts (Some x # xs) = map_option (Cons x) (collect_opts xs)"

fun fuse :: "nat \<Rightarrow> nat \<times> 'm \<Rightarrow> (nat \<Rightarrow> 'm option) \<times> 'm list list \<Rightarrow> (nat \<Rightarrow> 'm option) \<times> 'm list list" where
  "fuse k (i, m) (lat, log) =
     (if i = 0 then (case collect_opts (map lat [1..<k]) of
          None \<Rightarrow> (lat, log) | Some ms \<Rightarrow> (lat, log @ [m # ms]))
      else (lat(i \<mapsto> m), log))"

text \<open>The shared objects of a visitor of the channels \<open>cs\<close>, and what they hold.\<close>

definition fusion_rep ::
  "u64 list \<Rightarrow> nat \<Rightarrow> nat \<Rightarrow> nat \<Rightarrow> nat \<Rightarrow> 'm data_world \<Rightarrow> (nat \<Rightarrow> 'm option) \<Rightarrow> 'm list list \<Rightarrow> bool" where
  "fusion_rep cs b0 f n e w lat log \<longleftrightarrow>
     \<not> dw_shutdown w \<and> (\<forall>i < length cs. dw_buffers_map w (cs ! i) = Some [b0 + i]) \<and>
     (\<exists>b. dw_buffers w b0 = Some b \<and> cb_fusion_callback b = Some ([b0 + 1..<b0 + length cs], f)) \<and>
     (\<forall>i. 1 \<le> i \<and> i < length cs \<longrightarrow> (\<exists>b n msgs. dw_buffers w (b0 + i) = Some b \<and>
        cb_fusion_callback b = None \<and> cb_rep n msgs b \<and> length msgs \<le> e \<and>
        lat i = (if msgs = [] then None else Some (last msgs)))) \<and>
     (\<exists>fb. dw_fusions w f = Some fb \<and> cb_fusion_callback fb = None \<and> cb_rep n log fb \<and> length log \<le> e)"

lemma chb_Latest_rep:
  assumes r: "cb_rep n msgs b"
  shows "chb_Latest b = (if msgs = [] then None else Some (last msgs))"
proof (cases "msgs = []")
  case True
  then show ?thesis using r by (simp add: chb_Latest_def cb_Empty_def cb_rep_def unat_eq_0)
next
  case False
  then have "cb_at b (of_nat (length msgs)) = Some (msgs ! (length msgs - 1))"
    using cb_at_rep [OF r, of "length msgs"] by simp
  moreover have "cb_Empty b = False" using r False by (auto simp: cb_Empty_def cb_rep_def)
  ultimately show ?thesis using False cb_rep_unat(2) [OF r] by (simp add: chb_Latest_def cb_Back_def last_conv_nth)
qed

lemma cb_store_callback [simp]: "cb_fusion_callback (cb_store v b) = cb_fusion_callback b"
  by (simp add: cb_store_def)

lemma al_latest_eq:
  assumes "\<And>i. i \<in> set is \<Longrightarrow> \<exists>b. dw_buffers w (b0 + i) = Some b \<and> chb_Latest b = lat i"
  shows "al_latest w (map ((+) b0) is) = collect_opts (map lat is)"
  using assms
proof (induction "is")
  case (Cons i "is")
  from Cons.prems [of i] obtain b where "dw_buffers w (b0 + i) = Some b" "chb_Latest b = lat i" by auto
  with Cons show ?case by (cases "lat i") auto
qed simp

lemma upt_shift: "[b0 + 1..<b0 + k] = map ((+) b0) [1..<k]"
  by (rule nth_equalityI) auto

lemma fusion_repD:
  assumes "fusion_rep cs b0 f n e w lat log"
  shows "\<not> dw_shutdown w" and "i < length cs \<Longrightarrow> dw_buffers_map w (cs ! i) = Some [b0 + i]"
    and "\<exists>b. dw_buffers w b0 = Some b \<and> cb_fusion_callback b = Some ([b0 + 1..<b0 + length cs], f)"
    and "1 \<le> i \<Longrightarrow> i < length cs \<Longrightarrow> \<exists>b n msgs. dw_buffers w (b0 + i) = Some b \<and>
        cb_fusion_callback b = None \<and> cb_rep n msgs b \<and> length msgs \<le> e \<and>
        lat i = (if msgs = [] then None else Some (last msgs))"
    and "\<exists>fb. dw_fusions w f = Some fb \<and> cb_fusion_callback fb = None \<and> cb_rep n log fb \<and> length log \<le> e"
  using assms unfolding fusion_rep_def by blast+

lemma fusion_rep_calls [simp]:
  "fusion_rep cs b0 f n e (w\<lparr>dw_calls := x\<rparr>) lat log = fusion_rep cs b0 f n e w lat log"
  by (simp add: fusion_rep_def)

lemma fusion_rep_notify: "fusion_rep cs b0 f n e w lat log \<Longrightarrow> fusion_rep cs b0 f n e (snd (dn_Notify c w)) lat log"
  by (simp add: dn_Notify_def split: option.split)

lemma fusion_rep_mono: "fusion_rep cs b0 f n e w lat log \<Longrightarrow> fusion_rep cs b0 f n (Suc e) w lat log"
  unfolding fusion_rep_def by (meson le_SucI)

lemma fill_other:
  assumes r: "fusion_rep cs b0 f n e w lat log" and i: "1 \<le> i" "i < length cs" and lim: "Suc (Suc e) < 2 ^ 64"
  shows "fusion_rep cs b0 f n (Suc e) (cb_Fill (b0 + i) m w) (lat(i \<mapsto> m)) log"
proof -
  from fusion_repD(4) [OF r i] obtain b n' msgs where b: "dw_buffers w (b0 + i) = Some b"
    "cb_fusion_callback b = None" "cb_rep n' msgs b" "length msgs \<le> e" by blast
  have st: "cb_rep n' (msgs @ [m]) (cb_store m b)" using b lim by (intro cb_store_rep) auto
  have w: "cb_Fill (b0 + i) m w = w\<lparr>dw_buffers := (dw_buffers w)(b0 + i \<mapsto> cb_store m b)\<rparr>"
    by (simp add: cb_Fill_def b)
  have others: "\<exists>x n msgs. ((dw_buffers w)(b0 + i \<mapsto> cb_store m b)) (b0 + j) = Some x \<and>
        cb_fusion_callback x = None \<and> cb_rep n msgs x \<and> length msgs \<le> Suc e \<and>
        (lat(i \<mapsto> m)) j = (if msgs = [] then None else Some (last msgs))" if "1 \<le> j" "j < length cs" for j
  proof (cases "j = i")
    case True
    then show ?thesis using st b by (intro exI [of _ "cb_store m b"] exI [of _ n'] exI [of _ "msgs @ [m]"]) simp
  next
    case False
    then show ?thesis using fusion_repD(4) [OF fusion_rep_mono [OF r] that] by simp
  qed
  show ?thesis unfolding w fusion_rep_def
    using fusion_repD(1,2,3,5) [OF fusion_rep_mono [OF r]] others i by simp
qed

lemma fill_first:
  assumes r: "fusion_rep cs b0 f n e w lat log" and lim: "Suc (Suc e) < 2 ^ 64"
  shows "fusion_rep cs b0 f n (Suc e) (cb_Fill b0 m w) lat
    (case collect_opts (map lat [1..<length cs]) of None \<Rightarrow> log | Some ms \<Rightarrow> log @ [m # ms])"
proof -
  from fusion_repD(3) [OF r] obtain b where b: "dw_buffers w b0 = Some b"
    "cb_fusion_callback b = Some ([b0 + 1..<b0 + length cs], f)" by blast
  from fusion_repD(5) [OF r] obtain fb where fb: "dw_fusions w f = Some fb" "cb_fusion_callback fb = None"
    "cb_rep n log fb" "length log \<le> e" by blast
  have "\<exists>b. dw_buffers w (b0 + i) = Some b \<and> chb_Latest b = lat i" if "i \<in> set [1..<length cs]" for i
  proof -
    from that have i: "1 \<le> i" "i < length cs" by auto
    from fusion_repD(4) [OF r i] show ?thesis using chb_Latest_rep by metis
  qed
  then have al: "al_latest w [b0 + 1..<b0 + length cs] = collect_opts (map lat [1..<length cs])"
    unfolding upt_shift by (rule al_latest_eq)
  show ?thesis
  proof (cases "collect_opts (map lat [1..<length cs])")
    case None
    have "cb_Fill b0 m w = w"
      using b al None by (simp add: cb_Fill_def al_callback_def del: upt_Suc)
    then show ?thesis using fusion_rep_mono [OF r] None by simp
  next
    case (Some ms)
    have w: "cb_Fill b0 m w = w\<lparr>dw_fusions := (dw_fusions w)(f \<mapsto> cb_store (m # ms) fb)\<rparr>"
      using b al Some fb by (simp add: cb_Fill_def al_callback_def del: upt_Suc)
    have "cb_rep n (log @ [m # ms]) (cb_store (m # ms) fb)" using fb lim by (intro cb_store_rep) auto
    then show ?thesis unfolding w fusion_rep_def
      using fusion_repD(1,2,3,4) [OF fusion_rep_mono [OF r]] fb Some by simp
  qed
qed

lemma dispatch_step:
  assumes r: "fusion_rep cs b0 f n e w lat log" and i: "i < length cs" and lim: "Suc (Suc e) < 2 ^ 64"
  shows "case fuse (length cs) (i, m) (lat, log) of (lat', log') \<Rightarrow>
    fusion_rep cs b0 f n (Suc e) (snd (dd_Dispatch (cs ! i) m w)) lat' log'"
proof -
  have d: "snd (dd_Dispatch (cs ! i) m w) = snd (dn_Notify (cs ! i) (cb_Fill (b0 + i) m w))"
    using fusion_repD(1) [OF r] fusion_repD(2) [OF r i] by (simp add: dd_Dispatch_def)
  show ?thesis
  proof (cases "i = 0")
    case True
    then show ?thesis
      using fusion_rep_notify [OF fill_first [OF r lim, of m], of "cs ! 0"] d
      by (simp split: option.splits)
  next
    case False
    then show ?thesis
      using fusion_rep_notify [OF fill_other [OF r _ i lim, of m], of "cs ! i"] d by simp
  qed
qed

text \<open>The dispatcher is given the messages of \<open>evs\<close>, each with the position of its channel.\<close>

definition dispatch_all :: "u64 list \<Rightarrow> (nat \<times> 'm) list \<Rightarrow> 'm data_world \<Rightarrow> 'm data_world" where
  "dispatch_all cs evs w = fold (\<lambda>(i, m) w. snd (dd_Dispatch (cs ! i) m w)) evs w"

lemma dispatch_all_rep:
  assumes "fusion_rep cs b0 f n e w lat log" and "\<forall>(i, m) \<in> set evs. i < length cs"
    and "Suc (e + length evs) < 2 ^ 64"
  shows "case fold (fuse (length cs)) evs (lat, log) of (lat', log') \<Rightarrow>
    fusion_rep cs b0 f n (e + length evs) (dispatch_all cs evs w) lat' log'"
  using assms
proof (induction evs arbitrary: e w lat log)
  case (Cons ev evs)
  obtain i m where ev: "ev = (i, m)" by (cases ev)
  obtain lat1 log1 where f: "fuse (length cs) (i, m) (lat, log) = (lat1, log1)"
    by (cases "fuse (length cs) (i, m) (lat, log)")
  have i: "i < length cs" using Cons.prems(2) ev by simp
  have "fusion_rep cs b0 f n (Suc e) (snd (dd_Dispatch (cs ! i) m w)) lat1 log1"
    using dispatch_step [OF Cons.prems(1) i, of m] Cons.prems(3) f by simp
  from Cons.IH [OF this] Cons.prems show ?case using ev f by (simp add: dispatch_all_def del: fuse.simps)
qed (simp add: dispatch_all_def)

definition dw_new :: "'m data_world" where
  "dw_new = \<lparr>dw_shutdown = False, dw_buffers = (\<lambda>_. None), dw_fusions = (\<lambda>_. None),
     dw_buffers_map = (\<lambda>_. None), dw_notifies_map = (\<lambda>_. None), dw_callback = (\<lambda>_. False), dw_calls = []\<rparr>"

lemma dd_AddBuffer_new:
  "dw_buffers_map w c = None \<Longrightarrow> dd_AddBuffer c b w = w\<lparr>dw_buffers_map := (dw_buffers_map w)(c \<mapsto> [b])\<rparr>"
  by (simp add: dd_AddBuffer_def)

lemma dv_add_buffers_frame:
  "dw_shutdown (dv_add_buffers configs b w) = dw_shutdown w"
  "dw_fusions (dv_add_buffers configs b w) = dw_fusions w"
  "j < b \<Longrightarrow> dw_buffers (dv_add_buffers configs b w) j = dw_buffers w j"
  "c \<notin> fst ` set configs \<Longrightarrow> dw_buffers_map (dv_add_buffers configs b w) c = dw_buffers_map w c"
  by (induction configs b w rule: dv_add_buffers.induct)
     (auto simp: dd_AddBuffer_def split: option.splits)

lemma dv_add_buffers_new:
  assumes "distinct (map fst configs)" and "\<forall>c \<in> fst ` set configs. dw_buffers_map w c = None" and "i < length configs"
  shows "dw_buffers_map (dv_add_buffers configs b w) (fst (configs ! i)) = Some [b + i] \<and>
    dw_buffers (dv_add_buffers configs b w) (b + i) = Some (cb_new (ucast (snd (configs ! i))))"
  using assms
proof (induction configs b w arbitrary: i rule: dv_add_buffers.induct)
  case (2 c q configs b w)
  let ?w = "dd_AddBuffer c b (w\<lparr>dw_buffers := (dw_buffers w)(b \<mapsto> cb_new (ucast q))\<rparr>)"
  have w: "?w = w\<lparr>dw_buffers := (dw_buffers w)(b \<mapsto> cb_new (ucast q)), dw_buffers_map := (dw_buffers_map w)(c \<mapsto> [b])\<rparr>"
    using 2(3) by (subst dd_AddBuffer_new) simp_all
  show ?case
  proof (cases i)
    case 0
    have "dw_buffers_map (dv_add_buffers configs (Suc b) ?w) c = Some [b]"
      using 2(2) by (subst dv_add_buffers_frame(4)) (auto simp: w)
    then show ?thesis using 0 dv_add_buffers_frame(3) [of b "Suc b" configs ?w] by (simp add: w)
  next
    case (Suc j)
    have "distinct (map fst configs)" "\<forall>c \<in> fst ` set configs. dw_buffers_map ?w c = None" "j < length configs"
      using 2(2,3,4) Suc by (auto simp: w image_iff)
    from 2(1) [OF this] show ?thesis using Suc by simp
  qed
qed simp

lemma cb_new_u32_rep: "cb_rep (unat (q :: u32)) [] (cb_new (ucast q))"
proof -
  have "unat (ucast q :: u64) = unat q" using unat_lt_u32 [of q] by (simp add: unsigned_ucast_eq take_bit_nat_eq_self)
  then show ?thesis using cb_new_rep [of "ucast q"] unat_lt_u32 [of q] by simp
qed

lemma dv_new_rep:
  assumes "distinct (map fst configs)" and "2 \<le> length configs"
  shows "fusion_rep (map fst configs) b0 f (unat (snd (configs ! 0))) 0
           (snd (dv_new configs b0 f nt (dw_new :: 'm data_world))) (\<lambda>_. None) []"
    and "vi_next_msg_index (fst (dv_new configs b0 f nt (dw_new :: 'm data_world))) = 0"
    and "vi_fusion (fst (dv_new configs b0 f nt (dw_new :: 'm data_world))) = Some f"
proof -
  let ?q = "\<lambda>i. snd (configs ! i)"
  let ?w1 = "dv_add_buffers configs b0 (dw_new :: 'm data_world)"
  let ?w2 = "dn_AddNotifier (fst (hd configs)) nt ?w1"
  let ?w3 = "?w2\<lparr>dw_fusions := (dw_fusions ?w2)(f \<mapsto> cb_new (cb_Capacity (cb_new (ucast (?q 0)) :: 'm cache_buffer) - 1)),
                 dw_buffers := (dw_buffers ?w2)(b0 \<mapsto> cb_SetFusionCallback (tl [b0..<b0 + length configs], f) (cb_new (ucast (?q 0))))\<rparr>"
  have new: "\<forall>c \<in> fst ` set configs. dw_buffers_map (dw_new :: 'm data_world) c = None" by (simp add: dw_new_def)
  have bs: "dw_buffers_map ?w1 (fst (configs ! i)) = Some [b0 + i] \<and> dw_buffers ?w1 (b0 + i) = Some (cb_new (ucast (?q i)))"
    if "i < length configs" for i using dv_add_buffers_new [OF assms(1) new that, of b0] .
  have w2: "dw_buffers_map ?w2 = dw_buffers_map ?w1" "dw_buffers ?w2 = dw_buffers ?w1" "dw_shutdown ?w2 = dw_shutdown ?w1"
    by (simp_all add: dn_AddNotifier_def split: option.splits)
  have b0: "dw_buffers ?w2 b0 = Some (cb_new (ucast (?q 0)))" using bs [of 0] assms(2) w2 by (cases configs) auto
  have v: "dv_new configs b0 f nt (dw_new :: 'm data_world) = (\<lparr>vi_next_msg_index = 0, vi_notifier = nt, vi_buffers = [b0..<b0 + length configs], vi_fusion = Some f\<rparr>, ?w3)"
    using assms(2) by (simp add: dv_new_def Let_def b0 cb_Capacity_def cb_new_def)
  have cap: "cb_Capacity (cb_new (ucast (?q 0))) - 1 = ucast (?q 0)" by (simp add: cb_Capacity_def cb_new_def)
  have tl: "tl [b0..<b0 + length configs] = [b0 + 1..<b0 + length configs]"
    using assms(2) by (simp add: upt_conv_Cons)
  show "fusion_rep (map fst configs) b0 f (unat (snd (configs ! 0))) 0
           (snd (dv_new configs b0 f nt (dw_new :: 'm data_world))) (\<lambda>_. None) []"
    unfolding v fusion_rep_def
  proof (simp add: w2 tl cap cb_new_u32_rep del: upt_Suc, intro conjI allI impI)
    show "\<not> dw_shutdown ?w1" by (simp add: dv_add_buffers_frame dw_new_def)
    show "dw_buffers_map ?w1 (fst (configs ! i)) = Some [b0 + i]" if "i < length configs" for i using bs [OF that] ..
  qed (use bs cb_new_u32_rep in \<open>auto simp: cb_SetFusionCallback_def cb_new_def intro!: exI\<close>)
  show "vi_next_msg_index (fst (dv_new configs b0 f nt (dw_new :: 'm data_world))) = 0" "vi_fusion (fst (dv_new configs b0 f nt (dw_new :: 'm data_world))) = Some f"
    by (simp_all add: v)
qed

section \<open>Dispatching to the buffers of a channel\<close>

lemma fill_all:
  assumes "distinct bs" and "\<forall>b \<in> set bs. \<exists>x. dw_buffers w b = Some x \<and> cb_fusion_callback x = None"
  shows "fold (\<lambda>b. cb_Fill b m) bs w = w\<lparr>dw_buffers := (\<lambda>b. if b \<in> set bs
    then map_option (cb_store m) (dw_buffers w b) else dw_buffers w b)\<rparr>"
  using assms
proof (induction bs arbitrary: w)
  case (Cons b bs)
  from Cons.prems(2) obtain x where x: "dw_buffers w b = Some x" "cb_fusion_callback x = None" by auto
  have f: "cb_Fill b m w = w\<lparr>dw_buffers := (dw_buffers w)(b \<mapsto> cb_store m x)\<rparr>" using x by (simp add: cb_Fill_def)
  have "\<forall>c \<in> set bs. \<exists>x. dw_buffers (cb_Fill b m w) c = Some x \<and> cb_fusion_callback x = None"
    using Cons.prems by (auto simp: f)
  then have "fold (\<lambda>b. cb_Fill b m) bs (cb_Fill b m w) = (cb_Fill b m w)\<lparr>dw_buffers := (\<lambda>c. if c \<in> set bs
      then map_option (cb_store m) (dw_buffers (cb_Fill b m w) c) else dw_buffers (cb_Fill b m w) c)\<rparr>"
    using Cons.IH Cons.prems(1) by simp
  then show ?case using x Cons.prems(1)
    by (auto simp: f fun_eq_iff intro!: arg_cong2 [of _ _ _ _ "\<lambda>a b. b\<lparr>dw_buffers := a\<rparr>"])
qed simp

section \<open>Properties\<close>

text \<open>C40: A visitor of one channel gets messages in the order they came, none twice and none that
  did not come, whatever the interleaving of messages and reads.\<close>

theorem reader_messages_in_order:
  assumes "Suc (length (filled ops)) < 2 ^ 64"
  shows "subseq (rd_run ops (cb_new (ucast (n :: u32))) 0) (filled ops)"
  using rd_run_subseq [OF cb_new_u32_rep [of n], of 0 ops] assms by simp

theorem reader_messages_in_order_witness:
  "subseq (rd_run [RdFill (1 :: int), RdFill 2, RdFetch, RdFill 3, RdFetch] (cb_new (ucast (1 :: u32))) 0) [1, 2, 3]"
  using reader_messages_in_order [of "[RdFill (1 :: int), RdFill 2, RdFetch, RdFill 3, RdFetch]" 1] by simp

text \<open>A visitor that has seen everything loses nothing of a burst that fits its queue: after any
  history and up to n further messages, as many reads deliver exactly these messages.\<close>

theorem reader_loses_no_burst:
  assumes "length vs \<le> unat (n :: u32)" and "Suc (length msgs + length vs) < 2 ^ 64"
  shows "rd_run (map RdFill vs @ replicate (length vs) RdFetch)
    (fold cb_store msgs (cb_new (ucast n))) (of_nat (length msgs) + 1) = vs"
proof -
  have "cb_rep (unat n) ((msgs @ vs)) (fold cb_store (msgs @ vs) (cb_new (ucast n)))"
    using cb_stores_rep [OF cb_new_u32_rep [of n], of "msgs @ vs"] assms(2) by simp
  from rd_run_fetches [OF this, of "Suc (length msgs)" "length vs"] assms(1) show ?thesis
    by (simp add: rd_run_fills add.commute)
qed

theorem reader_loses_no_burst_witness:
  "rd_run [RdFill 7, RdFill 8, RdFetch, RdFetch] (fold cb_store [5, 6 :: int] (cb_new (ucast (2 :: u32)))) 3 = [7, 8]"
  using reader_loses_no_burst [of "[7, 8 :: int]" 2 "[5, 6]"] by (simp del: rd_run.simps)

text \<open>After any sequence of messages, FetchMulti and Latest of a channel see the last messages in
  order, at most as many as were asked for and as the queue size; they fail only before the
  first message.\<close>

theorem buffer_keeps_last_messages:
  assumes "Suc (length msgs) < 2 ^ 64"
  shows "chb_FetchMulti k (fold cb_store msgs (cb_new (ucast (n :: u32)))) =
      (if msgs = [] then None else Some (map Some (drop (length msgs - min (unat n) (unat k)) msgs))) \<and>
    chb_Latest (fold cb_store msgs (cb_new (ucast n))) = (if msgs = [] then None else Some (last msgs))"
proof -
  have "cb_rep (unat n) msgs (fold cb_store msgs (cb_new (ucast n)))"
    using cb_stores_rep [OF cb_new_u32_rep [of n], of msgs] assms by simp
  then show ?thesis using chb_FetchMulti_rep chb_Latest_rep by blast
qed

theorem buffer_keeps_last_messages_witness:
  "chb_FetchMulti 2 (fold cb_store [4, 5, 6 :: int] (cb_new (ucast (5 :: u32)))) = Some [Some 5, Some 6]"
  using buffer_keeps_last_messages [of "[4, 5, 6 :: int]" 2 5] by simp

text \<open>C32: A visitor of several channels: each message of the first channel that comes when every other
  channel has had one is fused with the latest message of each of them, in the order of the channels;
  messages of the first channel that come too early are dropped, and a first TryFetch
  delivers the newest fused message.\<close>

theorem fusion_follows_latest:
  assumes "distinct (map fst configs)" and "2 \<le> length configs"
    and "\<forall>(i, m) \<in> set evs. i < length configs" and "Suc (length evs) < 2 ^ 64"
    and "dv_new configs b0 f nt (dw_new :: 'm data_world) = (v, w)"
    and "fold (fuse (length configs)) evs (\<lambda>_. None, []) = (lat, log)"
  shows "\<exists>fb. dw_fusions (dispatch_all (map fst configs) evs w) f = Some fb \<and>
      cb_rep (unat (snd (configs ! 0))) log fb \<and>
      snd (dv_fetch v (dispatch_all (map fst configs) evs w)) = (if log = [] then None else Some (last log))"
proof -
  have r0: "fusion_rep (map fst configs) b0 f (unat (snd (configs ! 0))) 0 w (\<lambda>_. None) []"
    and v: "vi_next_msg_index v = 0" "vi_fusion v = Some f"
    using dv_new_rep [OF assms(1,2), where ?'m = 'm, of b0 f nt] assms(5) by simp_all
  have evs: "\<forall>(i, m) \<in> set evs. i < length (map fst configs)" using assms(3) by simp
  from dispatch_all_rep [OF r0 evs] assms(4,6)
  have "fusion_rep (map fst configs) b0 f (unat (snd (configs ! 0))) (length evs)
      (dispatch_all (map fst configs) evs w) lat log" by simp
  from fusion_repD(5) [OF this] obtain fb where fb: "dw_fusions (dispatch_all (map fst configs) evs w) f = Some fb"
    "cb_rep (unat (snd (configs ! 0))) log fb" by blast
  have "chb_Fetch 0 fb = (case fetch_pos (unat (snd (configs ! 0))) (length log) 0 of
      None \<Rightarrow> (0, None) | Some q \<Rightarrow> (of_nat q, Some (log ! (q - 1))))"
    using chb_Fetch_rep [OF fb(2), of 0] by (simp split: option.split)
  then have "snd (dv_TryFetch 0 fb) = (if log = [] then None else Some (last log))"
    by (simp add: dv_TryFetch_def fetch_pos_def last_conv_nth)
  then show ?thesis using fb v by (simp add: dv_fetch_def split_beta)
qed

theorem fusion_follows_latest_witness:
  "\<exists>v w. dv_new [(1, 5), (2, 5)] 0 0 0 (dw_new :: int data_world) = (v, w) \<and>
     snd (dv_fetch v (dispatch_all [1, 2] [(0, 10), (1, 20), (1, 21), (0, 11)] w)) = Some [11, 21]"
proof -
  obtain v w where vw: "dv_new [(1, 5), (2, 5)] 0 0 0 (dw_new :: int data_world) = (v, w)" by fastforce
  have "fold (fuse (length [(1 :: u64, 5 :: u32), (2, 5)])) [(0, 10), (1, 20), (1, 21), (0, 11)] (\<lambda>_. None, []) =
      ((\<lambda>_. None)(1 \<mapsto> 21), [[11, 21 :: int]])" by simp
  from fusion_follows_latest [OF _ _ _ _ vw this] vw show ?thesis by auto
qed

text \<open>Dispatch of a message on a channel stores it once in every live buffer registered for the channel
  and touches no other, then runs every callback registered for the channel in order; it
  answers false exactly when it is shut down or the channel has no buffers or no notifiers.\<close>

theorem dispatch_reaches_every_buffer:
  assumes "dw_buffers_map w c = Some bs" and "distinct bs" and "\<not> dw_shutdown w"
    and "\<forall>b \<in> set bs. \<exists>x. dw_buffers w b = Some x \<and> cb_fusion_callback x = None"
  shows "dw_buffers (snd (dd_Dispatch c m w)) =
      (\<lambda>b. if b \<in> set bs then map_option (cb_store m) (dw_buffers w b) else dw_buffers w b) \<and>
    (case dw_notifies_map w c of
       None \<Rightarrow> \<not> fst (dd_Dispatch c m w) \<and> dw_calls (snd (dd_Dispatch c m w)) = dw_calls w
     | Some ns \<Rightarrow> fst (dd_Dispatch c m w) \<and>
         dw_calls (snd (dd_Dispatch c m w)) = dw_calls w @ filter (dw_callback w) ns)"
  using assms by (simp add: dd_Dispatch_def fill_all dn_Notify_def split: option.split)

theorem dispatch_reaches_every_buffer_witness:
  "dw_calls (snd (dd_Dispatch 1 (9 :: int) (dw_new\<lparr>dw_buffers := [0 \<mapsto> cb_new 4],
     dw_buffers_map := [1 \<mapsto> [0]], dw_notifies_map := [1 \<mapsto> [3]], dw_callback := (\<lambda>n. n = 3)\<rparr>))) = [3]"
  using dispatch_reaches_every_buffer [of "dw_new\<lparr>dw_buffers := [0 \<mapsto> cb_new 4],
     dw_buffers_map := [1 \<mapsto> [0]], dw_notifies_map := [1 \<mapsto> [3]], dw_callback := (\<lambda>n. n = 3)\<rparr>" 1 "[0]" "9 :: int"]
  by (simp add: dw_new_def cb_new_def)

end
