(* ===== verification/Time_Core.thy ===== *)
theory Time_Core
  imports Cyber_Prelude "HOL-Library.Signed_Division"
begin

text \<open>
  Times, durations and rates (cyber/time) and the conversion between UNIX and GPS time
  (cyber/common/time_conversion.h). Nanoseconds are words of 64 bits, signed for durations. The
  clock is an input; sleeping is the time slept until. The constructors and conversions through
  \<open>double\<close> are not modelled.
\<close>

section \<open>Duration and Time\<close>

type_synonym duration = i64
type_synonym time_ns = u64

definition Duration_of_sec :: "u32 \<Rightarrow> u32 \<Rightarrow> duration" where
  "Duration_of_sec seconds nanoseconds = ucast seconds * 1000000000 + ucast nanoseconds"

definition du_IsZero :: "duration \<Rightarrow> bool" where "du_IsZero d \<longleftrightarrow> d = 0"
definition du_add :: "duration \<Rightarrow> duration \<Rightarrow> duration" where "du_add a b = a + b"
definition du_sub :: "duration \<Rightarrow> duration \<Rightarrow> duration" where "du_sub a b = a - b"
definition du_neg :: "duration \<Rightarrow> duration" where "du_neg a = - a"
definition du_less :: "duration \<Rightarrow> duration \<Rightarrow> bool" where "du_less a b \<longleftrightarrow> a <s b"
definition du_le :: "duration \<Rightarrow> duration \<Rightarrow> bool" where "du_le a b \<longleftrightarrow> a \<le>s b"

definition Duration_of_int :: "i32 \<Rightarrow> duration" where "Duration_of_int nanoseconds = scast nanoseconds"
definition du_add_assign :: "duration \<Rightarrow> duration \<Rightarrow> duration" where "du_add_assign a b = du_add a b"
definition du_sub_assign :: "duration \<Rightarrow> duration \<Rightarrow> duration" where "du_sub_assign a b = du_sub a b"
definition du_eq :: "duration \<Rightarrow> duration \<Rightarrow> bool" where "du_eq a b \<longleftrightarrow> a = b"
definition du_ne :: "duration \<Rightarrow> duration \<Rightarrow> bool" where "du_ne a b \<longleftrightarrow> a \<noteq> b"
definition du_greater :: "duration \<Rightarrow> duration \<Rightarrow> bool" where "du_greater a b \<longleftrightarrow> b <s a"
definition du_ge :: "duration \<Rightarrow> duration \<Rightarrow> bool" where "du_ge a b \<longleftrightarrow> b \<le>s a"

definition Time_MAX :: time_ns where "Time_MAX = - 1"
definition Time_MIN :: time_ns where "Time_MIN = 1"

definition Time_of_sec :: "u32 \<Rightarrow> u32 \<Rightarrow> time_ns" where
  "Time_of_sec seconds nanoseconds = ucast seconds * 1000000000 + ucast nanoseconds"

definition ti_IsZero :: "time_ns \<Rightarrow> bool" where "ti_IsZero t \<longleftrightarrow> t = 0"
definition ti_diff :: "time_ns \<Rightarrow> time_ns \<Rightarrow> duration" where "ti_diff a b = a - b"
definition ti_plus :: "time_ns \<Rightarrow> duration \<Rightarrow> time_ns" where "ti_plus t d = t + d"
definition ti_minus :: "time_ns \<Rightarrow> duration \<Rightarrow> time_ns" where "ti_minus t d = t - d"
definition ti_less :: "time_ns \<Rightarrow> time_ns \<Rightarrow> bool" where "ti_less a b \<longleftrightarrow> a < b"

definition Time_of_int :: "i32 \<Rightarrow> time_ns" where "Time_of_int nanoseconds = scast nanoseconds"
definition ti_plus_assign :: "time_ns \<Rightarrow> duration \<Rightarrow> time_ns" where "ti_plus_assign t d = ti_plus t d"
definition ti_minus_assign :: "time_ns \<Rightarrow> duration \<Rightarrow> time_ns" where "ti_minus_assign t d = ti_minus t d"
definition ti_eq :: "time_ns \<Rightarrow> time_ns \<Rightarrow> bool" where "ti_eq a b \<longleftrightarrow> a = b"
definition ti_ne :: "time_ns \<Rightarrow> time_ns \<Rightarrow> bool" where "ti_ne a b \<longleftrightarrow> a \<noteq> b"
definition ti_greater :: "time_ns \<Rightarrow> time_ns \<Rightarrow> bool" where "ti_greater a b \<longleftrightarrow> b < a"
definition ti_ge :: "time_ns \<Rightarrow> time_ns \<Rightarrow> bool" where "ti_ge a b \<longleftrightarrow> b \<le> a"
definition ti_le :: "time_ns \<Rightarrow> time_ns \<Rightarrow> bool" where "ti_le a b \<longleftrightarrow> a \<le> b"

lemmas time_ops = du_IsZero_def du_add_def du_sub_def du_neg_def du_less_def du_le_def
  ti_IsZero_def ti_diff_def ti_plus_def ti_minus_def ti_less_def

text \<open>Times and durations wrap around, and undo each other for it: the difference of two times is the duration
  that leads from the one to the other, also from a later to an earlier time.\<close>

lemma time_difference_inverse:
  "ti_diff u t = d \<longleftrightarrow> ti_plus t d = u" "ti_minus (ti_plus t d) d = t" "du_sub (ti_diff u s) (ti_diff t s) = ti_diff u t"
  by (auto simp: time_ops)

section \<open>Rate\<close>

record rate =
  ra_start :: time_ns
  ra_expected_cycle_time :: duration
  ra_actual_cycle_time :: duration

definition Rate_new :: "time_ns \<Rightarrow> duration \<Rightarrow> rate" where
  "Rate_new now d = \<lparr>ra_start = now, ra_expected_cycle_time = d, ra_actual_cycle_time = 0\<rparr>"

text \<open>\<open>Sleep\<close> at time \<open>now\<close>: the time it sleeps until, when it does.\<close>

definition Rate_Sleep :: "time_ns \<Rightarrow> rate \<Rightarrow> time_ns option \<times> rate" where
  "Rate_Sleep now r =
     (let expected_end = ti_plus (ra_start r) (ra_expected_cycle_time r);
          actual_end = now;
          expected_end = (if ti_less actual_end (ra_start r)
            then ti_plus actual_end (ra_expected_cycle_time r) else expected_end);
          sleep_time = ti_diff expected_end actual_end;
          r1 = r\<lparr>ra_actual_cycle_time := ti_diff actual_end (ra_start r), ra_start := expected_end\<rparr> in
      if du_less sleep_time 0 then
        (None, if ti_less (ti_plus expected_end (ra_expected_cycle_time r)) actual_end
               then r1\<lparr>ra_start := actual_end\<rparr> else r1)
      else (Some expected_end, r1))"

definition Rate_Reset :: "time_ns \<Rightarrow> rate \<Rightarrow> rate" where
  "Rate_Reset now r = r\<lparr>ra_start := now\<rparr>"

definition Rate_CycleTime :: "rate \<Rightarrow> duration" where
  "Rate_CycleTime r = ra_actual_cycle_time r"

text \<open>A loop that calls \<open>Sleep\<close> at the times \<open>nows\<close>: when its rounds start.\<close>

fun Rate_loop :: "time_ns list \<Rightarrow> rate \<Rightarrow> time_ns list" where
  "Rate_loop [] r = []"
| "Rate_loop (now # nows) r = (let r' = snd (Rate_Sleep now r) in ra_start r' # Rate_loop nows r')"

section \<open>UNIX and GPS time\<close>

definition LEAP_SECONDS :: "(int \<times> int) list" where
  "LEAP_SECONDS = [(1483228800, 18), (1435708800, 17), (1341100800, 16), (1230768000, 15), (1136073600, 14)]"

definition UNIX_GPS_DIFF :: int where "UNIX_GPS_DIFF = 315964800"
definition ONE_MILLION :: int where "ONE_MILLION = 1000000"
definition ONE_BILLION :: int where "ONE_BILLION = 1000000000"

fun to_gps :: "(int \<times> int) list \<Rightarrow> int \<Rightarrow> int" where
  "to_gps [] s = 0"
| "to_gps ((first, leap) # tab) s = (if first \<le> s then s - (UNIX_GPS_DIFF - leap) else to_gps tab s)"

fun to_unix :: "(int \<times> int) list \<Rightarrow> int \<Rightarrow> int" where
  "to_unix [] s = 0"
| "to_unix ((first, leap) # tab) s =
     (let result = s + (UNIX_GPS_DIFF - leap) in if first \<le> result then result else to_unix tab s)"

definition UnixToGpsSeconds :: "int \<Rightarrow> int" where "UnixToGpsSeconds = to_gps LEAP_SECONDS"
definition GpsToUnixSeconds :: "int \<Rightarrow> int" where "GpsToUnixSeconds = to_unix LEAP_SECONDS"

text \<open>The divisions of C++ truncate towards zero.\<close>

definition UnixToGpsMicroseconds :: "int \<Rightarrow> int" where
  "UnixToGpsMicroseconds t = UnixToGpsSeconds (t sdiv ONE_MILLION) * ONE_MILLION + t smod ONE_MILLION"

definition UnixToGpsNanoseconds :: "int \<Rightarrow> int" where
  "UnixToGpsNanoseconds t = UnixToGpsSeconds (t sdiv ONE_BILLION) * ONE_BILLION + t smod ONE_BILLION"

definition GpsToUnixMicroseconds :: "int \<Rightarrow> int" where
  "GpsToUnixMicroseconds t = GpsToUnixSeconds (t sdiv ONE_MILLION) * ONE_MILLION + t smod ONE_MILLION"

definition GpsToUnixNanoseconds :: "int \<Rightarrow> int" where
  "GpsToUnixNanoseconds t = GpsToUnixSeconds (t sdiv ONE_BILLION) * ONE_BILLION + t smod ONE_BILLION"

lemmas gps_defs = UnixToGpsSeconds_def GpsToUnixSeconds_def LEAP_SECONDS_def UNIX_GPS_DIFF_def

lemma gps_seconds_roundtrip: "1136073600 \<le> s \<Longrightarrow> GpsToUnixSeconds (UnixToGpsSeconds s) = s"
  by (simp add: gps_defs Let_def)

lemma gps_seconds_nonneg: "1136073600 \<le> s \<Longrightarrow> 0 \<le> UnixToGpsSeconds s"
  by (simp add: gps_defs)

lemma sdiv_nonneg: "0 \<le> (t :: int) \<Longrightarrow> 0 < m \<Longrightarrow> t sdiv m = t div m"
  by (simp add: signed_divide_int_def sgn_if)

lemma smod_nonneg: "0 \<le> (t :: int) \<Longrightarrow> 0 < m \<Longrightarrow> t smod m = t mod m"
  by (cases "t = 0") (auto simp: signed_modulo_int_def sgn_if)

lemma scaled_split:
  fixes G m r :: int
  assumes "0 \<le> G" and "0 \<le> r" and "r < m"
  shows "(G * m + r) sdiv m = G" and "(G * m + r) smod m = r"
  using assms by (simp_all add: sdiv_nonneg smod_nonneg)

lemma scaled_roundtrip:
  fixes t m :: int
  assumes "0 < m" and "1136073600 * m \<le> t"
  shows "(let g = UnixToGpsSeconds (t sdiv m) * m + t smod m in
    GpsToUnixSeconds (g sdiv m) * m + g smod m) = t"
proof -
  have t: "0 \<le> t" using assms by (smt (verit) mult_nonneg_nonneg)
  have s: "1136073600 \<le> t div m"
    using zdiv_mono1 [OF assms(2,1)] assms(1) by simp
  show ?thesis
    using assms t s gps_seconds_nonneg [OF s]
    by (simp add: sdiv_nonneg smod_nonneg scaled_split Let_def gps_seconds_roundtrip)
qed

text \<open>A UNIX time from 2006 on, when the leap second table begins, survives the way to GPS
  time and back, in seconds, microseconds and nanoseconds.\<close>

theorem unix_gps_unix:
  assumes "1136073600 \<le> s" and "1136073600 * ONE_MILLION \<le> us" and "1136073600 * ONE_BILLION \<le> ns"
  shows "GpsToUnixSeconds (UnixToGpsSeconds s) = s
    \<and> GpsToUnixMicroseconds (UnixToGpsMicroseconds us) = us
    \<and> GpsToUnixNanoseconds (UnixToGpsNanoseconds ns) = ns"
  using gps_seconds_roundtrip [OF assms(1)]
    scaled_roundtrip [OF _ assms(2)] scaled_roundtrip [OF _ assms(3)]
  by (simp add: GpsToUnixMicroseconds_def UnixToGpsMicroseconds_def GpsToUnixNanoseconds_def
    UnixToGpsNanoseconds_def ONE_MILLION_def ONE_BILLION_def Let_def)

lemma unix_gps_unix_witness:
  "GpsToUnixSeconds (UnixToGpsSeconds 1600000000) = 1600000000
    \<and> GpsToUnixMicroseconds (UnixToGpsMicroseconds 1600000000000007) = 1600000000000007
    \<and> GpsToUnixNanoseconds (UnixToGpsNanoseconds 1600000000000000009) = 1600000000000000009"
  by (rule unix_gps_unix) (simp_all add: ONE_MILLION_def ONE_BILLION_def)

section \<open>The grid of a rate loop\<close>

lemma sint_of_nat_i64: "n < 9223372036854775808 \<Longrightarrow> sint (of_nat n :: i64) = int n"
  by (simp add: sint_uint signed_take_bit_int_eq_self unsigned_of_nat take_bit_nat_eq_self)

lemma unat_of_nat_u64: "n < 18446744073709551616 \<Longrightarrow> unat (of_nat n :: u64) = n"
  by (simp add: unat_of_nat take_bit_nat_eq_self)

lemma sint_diff_i64:
  assumes "a < 4611686018427387904" and "b < 4611686018427387904"
  shows "sint (of_nat a - of_nat b :: i64) = int a - int b"
proof -
  have "(of_nat a - of_nat b :: i64) = word_of_int (int a - int b)" by simp
  then show ?thesis
    using assms by (simp only: sint_sbintrunc') (simp add: signed_take_bit_int_eq_self)
qed

text \<open>One round: a \<open>Sleep\<close> less than two cycles after the start moves the start by one cycle,
  and sleeps until then unless that time has passed.\<close>

lemma Rate_Sleep_on_time:
  assumes "ra_start r = of_nat st" and "ra_expected_cycle_time r = of_nat c" and "st \<le> now"
    and "now \<le> st + 2 * c" and "st + 2 * c < 4611686018427387904"
  shows "Rate_Sleep (of_nat now) r =
    (if now \<le> st + c then Some (of_nat (st + c)) else None,
     r\<lparr>ra_start := of_nat (st + c), ra_actual_cycle_time := of_nat now - of_nat st\<rparr>)"
proof -
  have nb: "\<not> (of_nat now :: u64) < of_nat st"
    using assms(3-5) by (simp add: word_less_nat_alt unat_of_nat_u64)
  have late: "\<not> (of_nat (st + c + c) :: u64) < of_nat now"
    using assms(3-5) by (simp add: word_less_nat_alt unat_of_nat_u64 del: of_nat_add)
  have neg: "(of_nat (st + c) - of_nat now :: i64) <s 0 \<longleftrightarrow> st + c < now"
    using assms(3-5) sint_diff_i64 [of "st + c" now] by (simp add: word_sless_alt del: of_nat_add)
  show ?thesis
    using nb late neg assms(1,2) by (auto simp: Rate_Sleep_def time_ops Let_def)
qed

lemma Rate_loop_grid:
  assumes "\<And>i. i < length ts \<Longrightarrow> st + i * c \<le> ts ! i \<and> ts ! i \<le> st + (i + 2) * c"
    and "st + (length ts + 2) * c < 4611686018427387904"
    and "ra_start r = of_nat st" and "ra_expected_cycle_time r = of_nat c"
  shows "Rate_loop (map of_nat ts) r = map (\<lambda>i. of_nat (st + Suc i * c)) [0..<length ts]"
  using assms
proof (induction ts arbitrary: st r)
  case Nil
  then show ?case by simp
next
  case (Cons t ts)
  let ?r = "snd (Rate_Sleep (of_nat t) r)"
  have r: "ra_start ?r = of_nat (st + c)" "ra_expected_cycle_time ?r = of_nat c"
    using Cons.prems(1) [of 0] Cons.prems(2)
    by (simp_all add: Rate_Sleep_on_time [OF Cons.prems(3,4)] Cons.prems(4) algebra_simps)
  have w: "st + c + i * c \<le> ts ! i \<and> ts ! i \<le> st + c + (i + 2) * c" if "i < length ts" for i
    using Cons.prems(1) [of "Suc i"] that by (simp add: algebra_simps)
  have "Rate_loop (map of_nat ts) ?r = map (\<lambda>i. of_nat (st + c + Suc i * c)) [0..<length ts]"
    using Cons.prems(2) by (intro Cons.IH w r) (simp add: algebra_simps)+
  moreover have "[0..<length (t # ts)] = 0 # map Suc [0..<length ts]"
    by (simp add: upt_conv_Cons map_Suc_upt del: upt_Suc)
  ultimately show ?case
    using r by (simp add: Let_def algebra_simps del: upt_Suc)
qed

text \<open>A loop paced by \<open>Rate::Sleep\<close> does not drift: as long as each round calls it between
  its own start and two cycles later, the rounds start exactly on the grid of whole cycles after
  the first start, however late or early the calls were within their rounds.\<close>

theorem rate_does_not_drift:
  assumes "\<And>i. i < length ts \<Longrightarrow> t0 + i * c \<le> ts ! i \<and> ts ! i \<le> t0 + (i + 2) * c"
    and "t0 + (length ts + 2) * c < 4611686018427387904"
  shows "Rate_loop (map of_nat ts) (Rate_new (of_nat t0) (of_nat c))
    = map (\<lambda>i. of_nat (t0 + Suc i * c)) [0..<length ts]"
  by (rule Rate_loop_grid [OF assms]) (simp_all add: Rate_new_def)

lemma rate_does_not_drift_witness:
  "Rate_loop (map of_nat [1005, 1025, 1029 :: nat]) (Rate_new (of_nat 1000) (of_nat 10))
    = map (\<lambda>i. of_nat (1000 + Suc i * 10)) [0..<length [1005, 1025, 1029 :: nat]]"
  by (rule rate_does_not_drift) (auto simp: less_Suc_eq nth_Cons')

end
