(* ===== verification/Signal_Slot.thy ===== *)
theory Signal_Slot
  imports Cyber_Prelude
begin

text \<open>
  Signals, slots and connections (cyber/base/signal.h). Slots are shared objects, so they live in
  a store and the signal's list, the connections and the running emissions hold their addresses.
  The first part has one definition for each operation; the second interleaves the emissions of
  several threads (or an emission from within a callback) with connects and disconnects, with one
  step for each critical section and each access to a slot.
\<close>

section \<open>Operations\<close>

record 'cb slot =
  sl_cb :: "'cb option"
  sl_connected :: bool

record 'cb signal =
  sg_slots :: "nat list"
  sg_store :: "nat \<Rightarrow> 'cb slot option"
  sg_next :: nat

record connection =
  cn_slot :: "nat option"
  cn_signal :: bool

definition Slot_new :: "'cb option \<Rightarrow> 'cb slot" where
  "Slot_new cb = \<lparr>sl_cb = cb, sl_connected = True\<rparr>"

definition Slot_Disconnect :: "'cb slot \<Rightarrow> 'cb slot" where
  "Slot_Disconnect s = s\<lparr>sl_connected := False\<rparr>"

text \<open>What a call of the slot calls.\<close>

definition Slot_call :: "'cb slot \<Rightarrow> 'cb option" where
  "Slot_call s = (if sl_connected s then sl_cb s else None)"

definition sg_new :: "'cb signal" where
  "sg_new = \<lparr>sg_slots = [], sg_store = (\<lambda>_. None), sg_next = 0\<rparr>"

definition sg_connected :: "'cb signal \<Rightarrow> nat \<Rightarrow> bool" where
  "sg_connected g x = (case sg_store g x of None \<Rightarrow> False | Some s \<Rightarrow> sl_connected s)"

definition sg_disc :: "nat \<Rightarrow> 'cb signal \<Rightarrow> 'cb signal" where
  "sg_disc x g = g\<lparr>sg_store := (sg_store g)(x := map_option Slot_Disconnect (sg_store g x))\<rparr>"

definition sg_ClearDisconnectedSlots :: "'cb signal \<Rightarrow> 'cb signal" where
  "sg_ClearDisconnectedSlots g = g\<lparr>sg_slots := filter (sg_connected g) (sg_slots g)\<rparr>"

definition sg_Connect :: "'cb option \<Rightarrow> 'cb signal \<Rightarrow> connection \<times> 'cb signal" where
  "sg_Connect cb g =
     (\<lparr>cn_slot = Some (sg_next g), cn_signal = True\<rparr>,
      \<lparr>sg_slots = sg_slots g @ [sg_next g],
       sg_store = (sg_store g)(sg_next g \<mapsto> Slot_new cb), sg_next = Suc (sg_next g)\<rparr>)"

definition cn_new :: connection where "cn_new = \<lparr>cn_slot = None, cn_signal = False\<rparr>"

definition cn_HasSlot :: "connection \<Rightarrow> nat \<Rightarrow> bool" where
  "cn_HasSlot c x \<longleftrightarrow> cn_slot c = Some x"

definition cn_IsConnected :: "connection \<Rightarrow> 'cb signal \<Rightarrow> bool" where
  "cn_IsConnected c g = (case cn_slot c of Some x \<Rightarrow> sg_connected g x | None \<Rightarrow> False)"

text \<open>The marking loop of \<open>Disconnect\<close>, under the lock, and the whole operation.\<close>

fun sg_mark :: "connection \<Rightarrow> nat list \<Rightarrow> 'cb signal \<Rightarrow> bool \<times> 'cb signal" where
  "sg_mark c [] g = (False, g)"
| "sg_mark c (x # xs) g =
     (if cn_HasSlot c x then (True, snd (sg_mark c xs (sg_disc x g))) else sg_mark c xs g)"

definition sg_Disconnect :: "connection \<Rightarrow> 'cb signal \<Rightarrow> bool \<times> 'cb signal" where
  "sg_Disconnect c g =
     (let (found, g) = sg_mark c (sg_slots g) g in
      (found, if found then sg_ClearDisconnectedSlots g else g))"

definition cn_Disconnect :: "connection \<Rightarrow> 'cb signal \<Rightarrow> bool \<times> 'cb signal" where
  "cn_Disconnect c g = (if cn_signal c \<and> cn_slot c \<noteq> None then sg_Disconnect c g else (False, g))"

definition sg_DisconnectAllSlots :: "'cb signal \<Rightarrow> 'cb signal" where
  "sg_DisconnectAllSlots g = (fold sg_disc (sg_slots g) g)\<lparr>sg_slots := []\<rparr>"

text \<open>The emission. \<open>run cb a\<close> is the client's callback, which may use the signal; \<open>w\<close> is the
  client's own state.\<close>

fun sg_calls :: "('cb \<Rightarrow> 'a \<Rightarrow> 'cb signal \<times> 'w \<Rightarrow> 'cb signal \<times> 'w) \<Rightarrow> 'a \<Rightarrow> nat list
    \<Rightarrow> 'cb signal \<times> 'w \<Rightarrow> 'cb signal \<times> 'w" where
  "sg_calls run a [] gw = gw"
| "sg_calls run a (x # xs) gw =
     sg_calls run a xs
       (case Option.bind (sg_store (fst gw) x) Slot_call of None \<Rightarrow> gw | Some cb \<Rightarrow> run cb a gw)"

definition sg_emit :: "('cb \<Rightarrow> 'a \<Rightarrow> 'cb signal \<times> 'w \<Rightarrow> 'cb signal \<times> 'w) \<Rightarrow> 'a
    \<Rightarrow> 'cb signal \<times> 'w \<Rightarrow> 'cb signal \<times> 'w" where
  "sg_emit run a gw =
     (let gw' = sg_calls run a (sg_slots (fst gw)) gw in
      (sg_ClearDisconnectedSlots (fst gw'), snd gw'))"

lemma sg_disc_sel [simp]:
  "sg_slots (sg_disc x g) = sg_slots g" "sg_next (sg_disc x g) = sg_next g"
  "sg_connected (sg_disc x g) y \<longleftrightarrow> sg_connected g y \<and> y \<noteq> x"
  "sg_store (sg_disc x g) y = (if y = x then map_option Slot_Disconnect (sg_store g x) else sg_store g y)"
  by (auto simp: sg_disc_def sg_connected_def Slot_Disconnect_def split: option.splits)

lemma sg_clear_sel [simp]:
  "sg_slots (sg_ClearDisconnectedSlots g) = filter (sg_connected g) (sg_slots g)"
  "sg_next (sg_ClearDisconnectedSlots g) = sg_next g"
  "sg_connected (sg_ClearDisconnectedSlots g) = sg_connected g"
  "sg_store (sg_ClearDisconnectedSlots g) = sg_store g"
  by (auto simp: sg_ClearDisconnectedSlots_def sg_connected_def)

lemma sg_Connect_sel [simp]:
  "sg_slots (snd (sg_Connect cb g)) = sg_slots g @ [sg_next g]"
  "sg_next (snd (sg_Connect cb g)) = Suc (sg_next g)"
  "sg_connected (snd (sg_Connect cb g)) y \<longleftrightarrow> y = sg_next g \<or> sg_connected g y"
  "sg_store (snd (sg_Connect cb g)) y = (if y = sg_next g then Some (Slot_new cb) else sg_store g y)"
  by (auto simp: sg_Connect_def sg_connected_def Slot_new_def split: option.splits)

lemma fold_sg_disc:
  "sg_slots (fold sg_disc xs g) = sg_slots g" "sg_next (fold sg_disc xs g) = sg_next g"
  "sg_connected (fold sg_disc xs g) y \<longleftrightarrow> sg_connected g y \<and> y \<notin> set xs"
  by (induction xs arbitrary: g) auto

lemma sg_DisconnectAll_sel [simp]:
  "sg_slots (sg_DisconnectAllSlots g) = []" "sg_next (sg_DisconnectAllSlots g) = sg_next g"
  "sg_connected (sg_DisconnectAllSlots g) y \<longleftrightarrow> sg_connected g y \<and> y \<notin> set (sg_slots g)"
  using fold_sg_disc(3) [of "sg_slots g" g y]
  by (auto simp: sg_DisconnectAllSlots_def fold_sg_disc sg_connected_def)

lemma sg_mark_sel [simp]:
  "fst (sg_mark c xs g) \<longleftrightarrow> (\<exists>x \<in> set xs. cn_slot c = Some x)"
  "sg_slots (snd (sg_mark c xs g)) = sg_slots g" "sg_next (snd (sg_mark c xs g)) = sg_next g"
  "sg_connected (snd (sg_mark c xs g)) y \<longleftrightarrow> sg_connected g y \<and> \<not> (y \<in> set xs \<and> cn_slot c = Some y)"
  by (induction xs arbitrary: g) (auto simp: cn_HasSlot_def)

section \<open>What one emission does\<close>

lemma sg_calls_pure:
  "sg_calls (\<lambda>cb a gw. (fst gw, h cb a (snd gw))) a xs (g, w)
    = (g, fold (\<lambda>cb. h cb a) (List.map_filter (\<lambda>x. Option.bind (sg_store g x) Slot_call) xs) w)"
  by (induction xs arbitrary: w) (auto simp: map_filter_simps split: option.splits)

text \<open>An emission calls the callbacks of exactly the connected slots, each once and in the
  order they were connected, and leaves exactly the connected slots in the list.\<close>

theorem signal_calls_connected_slots:
  "sg_emit (\<lambda>cb a gw. (fst gw, h cb a (snd gw))) a (g, w) =
    (g\<lparr>sg_slots := filter (sg_connected g) (sg_slots g)\<rparr>,
     fold (\<lambda>cb. h cb a)
       (concat (map (\<lambda>x. case sg_store g x of
          Some s \<Rightarrow> if sl_connected s then (case sl_cb s of Some cb \<Rightarrow> [cb] | None \<Rightarrow> []) else []
        | None \<Rightarrow> []) (sg_slots g))) w)"
proof -
  have "List.map_filter (\<lambda>x. Option.bind (sg_store g x) Slot_call) xs =
    concat (map (\<lambda>x. case sg_store g x of
          Some s \<Rightarrow> if sl_connected s then (case sl_cb s of Some cb \<Rightarrow> [cb] | None \<Rightarrow> []) else []
        | None \<Rightarrow> []) xs)" for xs
    by (induction xs) (auto simp: map_filter_simps Slot_call_def split: option.splits)
  then show ?thesis
    by (simp add: sg_emit_def sg_calls_pure Let_def sg_ClearDisconnectedSlots_def)
qed

section \<open>Emissions interleaved with connects and disconnects\<close>

text \<open>\<open>ss_todo t\<close>: the copy of the list that emission \<open>t\<close> has still to call; \<open>ss_calling t\<close>: the
  slot it found connected and is about to call; \<open>ss_log\<close>: the slots called so far. A callback
  that uses the signal is other steps in between; an emission inside it is another \<open>t\<close>.\<close>

record 'cb sg_sys =
  ss_sig :: "'cb signal"
  ss_todo :: "nat \<Rightarrow> nat list option"
  ss_calling :: "nat \<Rightarrow> nat option"
  ss_log :: "nat list"

definition sg_sys_new :: "'cb sg_sys" where
  "sg_sys_new = \<lparr>ss_sig = sg_new, ss_todo = (\<lambda>_. None), ss_calling = (\<lambda>_. None), ss_log = []\<rparr>"

inductive sg_step :: "'cb sg_sys \<Rightarrow> 'cb sg_sys \<Rightarrow> bool" where
  sg_copy: "ss_todo s t = None \<Longrightarrow> sg_step s (s\<lparr>ss_todo := (ss_todo s)(t \<mapsto> sg_slots (ss_sig s))\<rparr>)"
| sg_skip: "ss_todo s t = Some (x # xs) \<Longrightarrow> ss_calling s t = None \<Longrightarrow>
    Option.bind (sg_store (ss_sig s) x) Slot_call = None \<Longrightarrow>
    sg_step s (s\<lparr>ss_todo := (ss_todo s)(t \<mapsto> xs)\<rparr>)"
| sg_check: "ss_todo s t = Some (x # xs) \<Longrightarrow> ss_calling s t = None \<Longrightarrow>
    Option.bind (sg_store (ss_sig s) x) Slot_call = Some cb \<Longrightarrow>
    sg_step s (s\<lparr>ss_todo := (ss_todo s)(t \<mapsto> xs), ss_calling := (ss_calling s)(t \<mapsto> x)\<rparr>)"
| sg_call: "ss_calling s t = Some x \<Longrightarrow>
    sg_step s (s\<lparr>ss_calling := (ss_calling s)(t := None), ss_log := ss_log s @ [x]\<rparr>)"
| sg_finish: "ss_todo s t = Some [] \<Longrightarrow> ss_calling s t = None \<Longrightarrow>
    sg_step s (s\<lparr>ss_todo := (ss_todo s)(t := None), ss_sig := sg_ClearDisconnectedSlots (ss_sig s)\<rparr>)"
| sg_connect: "sg_step s (s\<lparr>ss_sig := snd (sg_Connect cb (ss_sig s))\<rparr>)"
| sg_disconnect: "sg_step s (s\<lparr>ss_sig := snd (sg_mark c (sg_slots (ss_sig s)) (ss_sig s))\<rparr>)"
| sg_clear: "sg_step s (s\<lparr>ss_sig := sg_ClearDisconnectedSlots (ss_sig s)\<rparr>)"
| sg_disconnect_all: "sg_step s (s\<lparr>ss_sig := sg_DisconnectAllSlots (ss_sig s)\<rparr>)"

text \<open>The invariant: a connected slot is in the list, and slots are numbered below \<open>sg_next\<close>.\<close>

definition sg_inv :: "'cb signal \<Rightarrow> bool" where
  "sg_inv g \<longleftrightarrow> (\<forall>y. sg_connected g y \<longrightarrow> y \<in> set (sg_slots g)) \<and> (\<forall>y \<in> set (sg_slots g). y < sg_next g)"

lemma sg_step_inv: "sg_step s s' \<Longrightarrow> sg_inv (ss_sig s) \<Longrightarrow> sg_inv (ss_sig s')"
  by (induction rule: sg_step.induct) (auto simp: sg_inv_def)

lemma sg_reach_inv: "reach sg_sys_new sg_step s \<Longrightarrow> sg_inv (ss_sig s)"
proof (induction rule: reach.induct)
  case reach_init
  show ?case by (simp add: sg_sys_new_def sg_new_def sg_inv_def sg_connected_def)
qed (rule sg_step_inv)

text \<open>A slot that is not connected stays so, and only calls already begun can still end.\<close>

definition sg_dead :: "nat \<Rightarrow> 'cb sg_sys \<Rightarrow> bool" where
  "sg_dead x s \<longleftrightarrow> \<not> sg_connected (ss_sig s) x \<and> x < sg_next (ss_sig s) \<and> (\<forall>t. ss_calling s t \<noteq> Some x)"

lemma sg_step_dead:
  "sg_step s s' \<Longrightarrow> sg_dead x s \<Longrightarrow> sg_dead x s' \<and> count_list (ss_log s') x = count_list (ss_log s) x"
proof (induction rule: sg_step.induct)
  case (sg_check s t y ys cb)
  then have "sg_connected (ss_sig s) y"
    by (auto simp: sg_connected_def Slot_call_def Option.bind_eq_Some_conv split: if_splits)
  then show ?case using sg_check by (auto simp: sg_dead_def)
qed (auto simp: sg_dead_def)

lemma sg_reach_dead:
  "reach s sg_step s' \<Longrightarrow> sg_dead x s \<Longrightarrow> sg_dead x s' \<and> count_list (ss_log s') x = count_list (ss_log s) x"
  by (induction rule: reach.induct) (auto dest: sg_step_dead)

lemma sg_Disconnect_connected:
  "sg_connected (snd (sg_Disconnect c g)) y \<longleftrightarrow>
    sg_connected g y \<and> \<not> (y \<in> set (sg_slots g) \<and> cn_slot c = Some y)"
  "sg_next (snd (sg_Disconnect c g)) = sg_next g"
  by (simp_all add: sg_Disconnect_def Let_def split_def)

text \<open>Disconnecting is final. In every reachable state of concurrent emissions, connects and
  disconnects: once \<open>Disconnect\<close> has returned for a slot that no emission is in the middle of
  calling, that slot is never called again, whatever steps follow, emissions that copied the list
  of slots before the disconnect included.\<close>

theorem disconnected_slot_never_called:
  assumes "reach sg_sys_new sg_step s" and "cn_slot c = Some x" and "cn_signal c"
    and "x < sg_next (ss_sig s)" and "\<And>t. ss_calling s t \<noteq> Some x"
    and "reach (s\<lparr>ss_sig := snd (cn_Disconnect c (ss_sig s))\<rparr>) sg_step s'"
  shows "count_list (ss_log s') x = count_list (ss_log s) x \<and> \<not> cn_IsConnected c (ss_sig s')"
proof -
  have "sg_dead x (s\<lparr>ss_sig := snd (cn_Disconnect c (ss_sig s))\<rparr>)"
    using sg_reach_inv [OF assms(1)] assms(2-5)
    by (auto simp: sg_dead_def cn_Disconnect_def sg_Disconnect_connected sg_inv_def)
  from sg_reach_dead [OF assms(6) this] show ?thesis
    using assms(2) by (auto simp: sg_dead_def cn_IsConnected_def)
qed

text \<open>A run in which an emission copies the list, the slot is disconnected, and the emission
  goes on.\<close>

definition sg_demo :: "unit sg_sys" where
  "sg_demo = sg_sys_new
    \<lparr>ss_sig := snd (sg_Connect (Some ()) sg_new), ss_todo := [0 \<mapsto> [0]]\<rparr>"

lemma sg_demo_reach: "reach sg_sys_new sg_step sg_demo"
proof -
  have "reach sg_sys_new sg_step (sg_sys_new\<lparr>ss_sig := snd (sg_Connect (Some ()) sg_new)\<rparr>)"
    by (rule reach_eq, rule reach_init, rule sg_connect [where cb = "Some ()"]) (simp add: sg_sys_new_def)
  then show ?thesis
    by - (rule reach_eq, assumption, rule sg_copy [where t = 0],
      simp_all add: sg_sys_new_def sg_demo_def sg_Connect_def sg_new_def)
qed

lemma disconnected_slot_never_called_witness:
  "\<exists>s' :: unit sg_sys. ss_todo s' 0 = Some [] \<and> count_list (ss_log s') 0 = (0 :: nat) \<and>
    \<not> cn_IsConnected \<lparr>cn_slot = Some 0, cn_signal = True\<rparr> (ss_sig s' :: unit signal)"
proof -
  let ?c = "\<lparr>cn_slot = Some 0, cn_signal = True\<rparr>"
  let ?s = "sg_demo\<lparr>ss_sig := snd (cn_Disconnect ?c (ss_sig sg_demo))\<rparr>"
  have st: "Option.bind (sg_store (ss_sig ?s) 0) Slot_call = None"
    by (simp add: sg_demo_def cn_Disconnect_def sg_Disconnect_def sg_Connect_def sg_new_def
      cn_HasSlot_def Slot_new_def Slot_call_def Slot_Disconnect_def sg_disc_def Let_def
      sg_ClearDisconnectedSlots_def)
  have r: "reach ?s sg_step (?s\<lparr>ss_todo := (ss_todo ?s)(0 \<mapsto> [])\<rparr>)"
    by (rule reach_one, rule sg_skip [OF _ _ st]) (simp_all add: sg_demo_def sg_sys_new_def)
  let ?t = "?s\<lparr>ss_todo := (ss_todo ?s)(0 \<mapsto> [])\<rparr>"
  have h: "count_list (ss_log ?t) 0 = count_list (ss_log sg_demo) 0 \<and> \<not> cn_IsConnected ?c (ss_sig ?t)"
    by (rule disconnected_slot_never_called [OF sg_demo_reach _ _ _ _ r])
      (simp_all add: sg_demo_def sg_sys_new_def sg_Connect_def)
  have c: "count_list (ss_log sg_demo) 0 = 0" by (simp add: sg_demo_def sg_sys_new_def)
  show ?thesis
  proof (intro exI conjI)
    show "ss_todo ?t 0 = Some []" by simp
    show "count_list (ss_log ?t) 0 = 0" using h c by (simp only:)
    show "\<not> cn_IsConnected ?c (ss_sig ?t)" using h by (rule conjunct2)
  qed
qed

end
