(* ===== verification/Message_Codec.thy ===== *)
theory Message_Codec
  imports Cyber_Prelude
begin

text \<open>
  Identities, message infos and readable infos, and the bytes they travel as
  (cyber/transport/common/identity, cyber/transport/message/message_info and
  cyber/transport/shm/readable_info). The code copies integers in memory order; the model
  fixes the order of the platform the port targets, least significant byte first.
  \<open>std::hash\<close>, which the C++ standard leaves open, is the parameter \<open>hash\<close>.
\<close>

section \<open>Integers as bytes\<close>

fun le_nat :: "nat \<Rightarrow> nat \<Rightarrow> u8 list" where
  "le_nat 0 n = []"
| "le_nat (Suc k) n = of_nat (n mod 256) # le_nat k (n div 256)"

fun un_le :: "u8 list \<Rightarrow> nat" where
  "un_le [] = 0"
| "un_le (b # bs) = unat b + 256 * un_le bs"

definition bytes64 :: "u64 \<Rightarrow> u8 list" where "bytes64 w = le_nat 8 (unat w)"
definition bytes32 :: "u32 \<Rightarrow> u8 list" where "bytes32 w = le_nat 4 (unat w)"
definition word64 :: "u8 list \<Rightarrow> u64" where "word64 bs = of_nat (un_le bs)"
definition word32 :: "u8 list \<Rightarrow> u32" where "word32 bs = of_nat (un_le bs)"

lemma length_le_nat [simp]: "length (le_nat k n) = k"
  by (induction k n rule: le_nat.induct) auto

lemma un_le_nat: "un_le (le_nat k n) = n mod 256 ^ k"
proof (induction k n rule: le_nat.induct)
  case (2 k n)
  have "unat (of_nat (n mod 256) :: u8) = n mod 256"
    by (simp add: unat_of_nat)
  then show ?case using 2 by (simp add: mod_mult2_eq)
qed simp

lemma bytes_length [simp]: "length (bytes64 w) = 8" "length (bytes32 v) = 4"
  by (simp_all add: bytes64_def bytes32_def)

lemma word_bytes [simp]: "word64 (bytes64 w) = w" "word32 (bytes32 v) = v"
  using unat_lt_u64 [of w] unat_lt_u32 [of v]
  by (simp_all add: word64_def word32_def bytes64_def bytes32_def un_le_nat)

text \<open>\<open>std::to_string\<close> of an unsigned integer.\<close>

function dec :: "nat \<Rightarrow> string" where
  "dec n = (if n < 10 then [char_of (48 + n)] else dec (n div 10) @ [char_of (48 + n mod 10)])"
  by auto
termination by (relation "measure id") auto

declare dec.simps [simp del]

section \<open>Identity\<close>

record identity =
  id_data :: "u8 list"
  id_hash_value :: u64
  id_hash_value_str :: string

definition ID_SIZE :: nat where "ID_SIZE = 8"

definition id_Update :: "(u8 list \<Rightarrow> u64) \<Rightarrow> identity \<Rightarrow> identity" where
  "id_Update hash i = i\<lparr>id_hash_value := hash (id_data i), id_hash_value_str := dec (unat (hash (id_data i)))\<rparr>"

text \<open>The constructor; \<open>uuid\<close> is what \<open>uuid_generate\<close> gives.\<close>

definition id_new :: "(u8 list \<Rightarrow> u64) \<Rightarrow> bool \<Rightarrow> u8 list \<Rightarrow> identity" where
  "id_new hash need_generate uuid =
     (let i = \<lparr>id_data = replicate ID_SIZE 0, id_hash_value = 0, id_hash_value_str = []\<rparr> in
      if need_generate then id_Update hash (i\<lparr>id_data := take ID_SIZE uuid\<rparr>) else i)"

definition id_none :: identity where
  "id_none = id_new (\<lambda>_. 0) False []"

definition id_set_data :: "(u8 list \<Rightarrow> u64) \<Rightarrow> u8 list option \<Rightarrow> identity \<Rightarrow> identity" where
  "id_set_data hash data i = (case data of None \<Rightarrow> i
     | Some bs \<Rightarrow> id_Update hash (i\<lparr>id_data := take ID_SIZE bs\<rparr>))"

definition id_eq :: "identity \<Rightarrow> identity \<Rightarrow> bool" where
  "id_eq a b \<longleftrightarrow> id_data a = id_data b"

definition id_ToString :: "identity \<Rightarrow> string" where "id_ToString i = id_hash_value_str i"
definition id_Length :: "identity \<Rightarrow> nat" where "id_Length i = ID_SIZE"
definition id_HashValue :: "identity \<Rightarrow> u64" where "id_HashValue i = id_hash_value i"

text \<open>Generated identities carry the hash of their bytes.\<close>

definition id_ok :: "(u8 list \<Rightarrow> u64) \<Rightarrow> identity \<Rightarrow> bool" where
  "id_ok hash i \<longleftrightarrow> length (id_data i) = ID_SIZE \<and> id_hash_value i = hash (id_data i)
     \<and> id_hash_value_str i = dec (unat (id_hash_value i))"

lemma id_Update_ok: "length (id_data i) = ID_SIZE \<Longrightarrow> id_ok hash (id_Update hash i)"
  by (simp add: id_ok_def id_Update_def)

lemma id_set_data_ok:
  "ID_SIZE \<le> length bs \<Longrightarrow> id_ok hash (id_set_data hash (Some bs) i)"
  by (simp add: id_set_data_def id_Update_ok)

lemma id_new_ok: "ID_SIZE \<le> length uuid \<Longrightarrow> id_ok hash (id_new hash True uuid)"
  by (simp add: id_new_def id_Update_ok Let_def)

lemma id_ok_eq: "id_ok hash i \<Longrightarrow> id_ok hash j \<Longrightarrow> id_eq i j \<longleftrightarrow> i = j"
  by (auto simp: id_ok_def id_eq_def intro: identity.equality)

section \<open>Message info\<close>

record message_info =
  mi_sender_id :: identity
  mi_seq_num :: u64
  mi_spare_id :: identity

definition mi_kSize :: nat where "mi_kSize = 2 * ID_SIZE + 8"

definition mi_new :: "identity \<Rightarrow> u64 \<Rightarrow> message_info" where
  "mi_new sender seq = \<lparr>mi_sender_id = sender, mi_seq_num = seq, mi_spare_id = id_none\<rparr>"

definition mi_default :: message_info where "mi_default = mi_new id_none 0"

definition mi_new_spare :: "identity \<Rightarrow> u64 \<Rightarrow> identity \<Rightarrow> message_info" where
  "mi_new_spare sender seq spare = \<lparr>mi_sender_id = sender, mi_seq_num = seq, mi_spare_id = spare\<rparr>"

definition mi_eq :: "message_info \<Rightarrow> message_info \<Rightarrow> bool" where
  "mi_eq a b =
     (if \<not> id_eq (mi_sender_id a) (mi_sender_id b) then False
      else if mi_seq_num a \<noteq> mi_seq_num b then False
      else if \<not> id_eq (mi_spare_id a) (mi_spare_id b) then False else True)"

definition mi_SerializeTo_string :: "message_info \<Rightarrow> u8 list" where
  "mi_SerializeTo_string m = id_data (mi_sender_id m) @ bytes64 (mi_seq_num m) @ id_data (mi_spare_id m)"

text \<open>Copying bytes into a buffer at an offset; past its end it is undefined behaviour.\<close>

definition memcpy :: "u8 list \<Rightarrow> nat \<Rightarrow> u8 list \<Rightarrow> u8 list option" where
  "memcpy dst off src =
     (if off + length src \<le> length dst then Some (take off dst @ src @ drop (off + length src) dst) else None)"

definition mi_SerializeTo :: "message_info \<Rightarrow> u8 list option \<Rightarrow> nat \<Rightarrow> (bool \<times> u8 list option) option" where
  "mi_SerializeTo m dst len = (case dst of None \<Rightarrow> Some (False, None)
     | Some buf \<Rightarrow> if len < mi_kSize then Some (False, Some buf) else do {
         buf \<leftarrow> memcpy buf 0 (id_data (mi_sender_id m));
         buf \<leftarrow> memcpy buf ID_SIZE (bytes64 (mi_seq_num m));
         buf \<leftarrow> memcpy buf (ID_SIZE + 8) (id_data (mi_spare_id m));
         Some (True, Some buf) })"

definition mi_DeserializeFrom :: "(u8 list \<Rightarrow> u64) \<Rightarrow> u8 list option \<Rightarrow> nat \<Rightarrow> message_info
    \<Rightarrow> bool \<times> message_info" where
  "mi_DeserializeFrom hash src len m = (case src of None \<Rightarrow> (False, m)
     | Some bs \<Rightarrow> if len \<noteq> mi_kSize then (False, m)
       else (True,
         \<lparr>mi_sender_id = id_set_data hash (Some (take ID_SIZE bs)) (mi_sender_id m),
          mi_seq_num = word64 (take 8 (drop ID_SIZE bs)),
          mi_spare_id = id_set_data hash (Some (take ID_SIZE (drop (ID_SIZE + 8) bs))) (mi_spare_id m)\<rparr>))"

definition mi_DeserializeFrom_string :: "(u8 list \<Rightarrow> u64) \<Rightarrow> u8 list \<Rightarrow> message_info \<Rightarrow> bool \<times> message_info" where
  "mi_DeserializeFrom_string hash src m = mi_DeserializeFrom hash (Some src) (length src) m"

definition mi_ok :: "message_info \<Rightarrow> bool" where
  "mi_ok m \<longleftrightarrow> length (id_data (mi_sender_id m)) = ID_SIZE \<and> length (id_data (mi_spare_id m)) = ID_SIZE"

section \<open>Readable info\<close>

record readable_info =
  ri_host_id :: u64
  ri_block_index :: u32
  ri_channel_id :: u64

definition ri_kSize :: nat where "ri_kSize = 8 * 2 + 4"

definition ri_default :: readable_info where
  "ri_default = \<lparr>ri_host_id = 0, ri_block_index = 0, ri_channel_id = 0\<rparr>"

definition ri_new :: "u64 \<Rightarrow> u32 \<Rightarrow> u64 \<Rightarrow> readable_info" where
  "ri_new host block channel = \<lparr>ri_host_id = host, ri_block_index = block, ri_channel_id = channel\<rparr>"

definition ri_SerializeTo :: "readable_info \<Rightarrow> u8 list" where
  "ri_SerializeTo r = bytes64 (ri_host_id r) @ bytes32 (ri_block_index r) @ bytes64 (ri_channel_id r)"

definition ri_DeserializeFrom :: "u8 list option \<Rightarrow> nat \<Rightarrow> readable_info \<Rightarrow> bool \<times> readable_info" where
  "ri_DeserializeFrom src len r = (case src of None \<Rightarrow> (False, r)
     | Some bs \<Rightarrow> if len \<noteq> ri_kSize then (False, r)
       else (True, \<lparr>ri_host_id = word64 (take 8 bs), ri_block_index = word32 (take 4 (drop 8 bs)),
                    ri_channel_id = word64 (take 8 (drop 12 bs))\<rparr>))"

definition ri_DeserializeFrom_string :: "u8 list \<Rightarrow> readable_info \<Rightarrow> bool \<times> readable_info" where
  "ri_DeserializeFrom_string src r = ri_DeserializeFrom (Some src) (length src) r"

section \<open>Round trips\<close>

lemmas mi_codec = mi_SerializeTo_string_def mi_DeserializeFrom_string_def mi_DeserializeFrom_def
  mi_kSize_def mi_ok_def ID_SIZE_def

lemma mi_string_length: "mi_ok m \<Longrightarrow> length (mi_SerializeTo_string m) = mi_kSize"
  by (simp add: mi_codec)

lemma mi_roundtrip:
  assumes "mi_ok m"
  shows "mi_DeserializeFrom_string hash (mi_SerializeTo_string m) m' =
    (True, \<lparr>mi_sender_id = id_set_data hash (Some (id_data (mi_sender_id m))) (mi_sender_id m'),
            mi_seq_num = mi_seq_num m,
            mi_spare_id = id_set_data hash (Some (id_data (mi_spare_id m))) (mi_spare_id m')\<rparr>)"
  using assms by (simp add: mi_codec)

lemma mi_SerializeTo_buffer:
  assumes "mi_ok m" and "mi_kSize \<le> length buf" and "mi_kSize \<le> len"
  shows "mi_SerializeTo m (Some buf) len =
    Some (True, Some (mi_SerializeTo_string m @ drop mi_kSize buf))"
  using assms by (simp add: mi_SerializeTo_def memcpy_def mi_codec min_def)

lemma mi_info_eq:
  assumes "mi_ok m" and "id_ok hash (mi_sender_id m)"
    and "mi_DeserializeFrom_string hash (mi_SerializeTo_string m) m0 = (True, m')"
  shows "mi_eq m m' \<and> mi_sender_id m' = mi_sender_id m"
  using assms by (auto simp: mi_roundtrip mi_eq_def id_eq_def id_set_data_def id_Update_def id_ok_def mi_ok_def)

text \<open>A message info written to a buffer and read back compares equal to the original, and
  a sender whose identity carries the hash of its bytes comes back with the same hash, which is
  what listeners are keyed by. Both serializers write the same bytes.\<close>

theorem message_info_roundtrip:
  assumes "mi_ok m" and "id_ok hash (mi_sender_id m)" and "mi_kSize \<le> length buf"
  shows "\<exists>m'. mi_DeserializeFrom_string hash (mi_SerializeTo_string m) m0 = (True, m') \<and> mi_eq m m'
    \<and> mi_sender_id m' = mi_sender_id m
    \<and> mi_SerializeTo m (Some buf) (length buf) = Some (True, Some (mi_SerializeTo_string m @ drop mi_kSize buf))"
  using mi_SerializeTo_buffer [OF assms(1,3) assms(3)] mi_info_eq [OF assms(1,2)] mi_roundtrip [OF assms(1)]
  by blast

lemma message_info_roundtrip_witness:
  "\<exists>m'. mi_DeserializeFrom_string (of_nat \<circ> un_le)
      (mi_SerializeTo_string (mi_new (id_new (of_nat \<circ> un_le) True (le_nat 16 77)) 5)) mi_default = (True, m')
    \<and> mi_eq (mi_new (id_new (of_nat \<circ> un_le) True (le_nat 16 77)) 5) m'
    \<and> mi_sender_id m' = id_new (of_nat \<circ> un_le) True (le_nat 16 77)"
  using message_info_roundtrip [of "mi_new (id_new (of_nat \<circ> un_le) True (le_nat 16 77)) 5"
      "of_nat \<circ> un_le" "replicate 24 0" mi_default]
    id_new_ok [of "le_nat 16 77" "of_nat \<circ> un_le"]
  by (auto simp: mi_ok_def id_ok_def mi_new_def id_none_def id_new_def ID_SIZE_def mi_kSize_def Let_def)

text \<open>A readable info survives the bytes it is multicast as; a string of another length is
  rejected and leaves the object as it was.\<close>

theorem readable_info_roundtrip:
  "ri_DeserializeFrom_string (ri_SerializeTo r) r0 = (True, r)
    \<and> ri_DeserializeFrom_string bs r0 \<in> (if length bs = ri_kSize then range (Pair True) else {(False, r0)})"
  by (auto simp: ri_DeserializeFrom_string_def ri_DeserializeFrom_def ri_SerializeTo_def ri_kSize_def)

end
