(* ===== verification/Shm_Segment.thy ===== *)
theory Shm_Segment
  imports Message_Codec
begin

text \<open>
  The shared memory segments of the transport (cyber/transport/shm: shm_conf, state, block,
  segment), the writing of a message into a block (transmitter/shm_transmitter.h) and its reading
  (dispatcher/shm_dispatcher.cc).

  The shared memory of the operating system is a parameter: \<open>shm_api\<close> holds what the calls
  \<open>shmget\<close>, \<open>shmat\<close>, \<open>shmdt\<close> and \<open>shmctl\<close> answer and how they change the state of the system, of
  any type. What the memory holds is in \<open>shm_obj\<close>: the state, the blocks, and the area of the
  block buffers as one list of bytes, so that a write past a buffer hits the next one. The size
  of a message and its bytes are parameters (protobuf). Operations are not interleaved here; the
  block lock under interleaving is in \<open>RW_Locks\<close>.
\<close>

section \<open>Configuration\<close>

definition EXTRA_SIZE :: u64 where "EXTRA_SIZE = 1024 * 4"
definition STATE_SIZE :: u64 where "STATE_SIZE = 1024"
definition BLOCK_SIZE :: u64 where "BLOCK_SIZE = 1024"
definition MESSAGE_INFO_SIZE :: u64 where "MESSAGE_INFO_SIZE = 1024"
definition BLOCK_NUM_16K :: u32 where "BLOCK_NUM_16K = 512"
definition MESSAGE_SIZE_16K :: u64 where "MESSAGE_SIZE_16K = 1024 * 16"
definition BLOCK_NUM_128K :: u32 where "BLOCK_NUM_128K = 128"
definition MESSAGE_SIZE_128K :: u64 where "MESSAGE_SIZE_128K = 1024 * 128"
definition BLOCK_NUM_1M :: u32 where "BLOCK_NUM_1M = 64"
definition MESSAGE_SIZE_1M :: u64 where "MESSAGE_SIZE_1M = 1024 * 1024"
definition BLOCK_NUM_8M :: u32 where "BLOCK_NUM_8M = 32"
definition MESSAGE_SIZE_8M :: u64 where "MESSAGE_SIZE_8M = 1024 * 1024 * 8"
definition BLOCK_NUM_16M :: u32 where "BLOCK_NUM_16M = 16"
definition MESSAGE_SIZE_16M :: u64 where "MESSAGE_SIZE_16M = 1024 * 1024 * 16"
definition BLOCK_NUM_MORE :: u32 where "BLOCK_NUM_MORE = 8"
definition MESSAGE_SIZE_MORE :: u64 where "MESSAGE_SIZE_MORE = 1024 * 1024 * 32"

lemmas message_sizes = MESSAGE_SIZE_16K_def MESSAGE_SIZE_128K_def MESSAGE_SIZE_1M_def
  MESSAGE_SIZE_8M_def MESSAGE_SIZE_16M_def MESSAGE_SIZE_MORE_def

lemmas block_nums = BLOCK_NUM_16K_def BLOCK_NUM_128K_def BLOCK_NUM_1M_def BLOCK_NUM_8M_def
  BLOCK_NUM_16M_def BLOCK_NUM_MORE_def

record shm_conf =
  sc_ceiling_msg_size :: u64
  sc_block_buf_size :: u64
  sc_block_num :: u32
  sc_managed_shm_size :: u64

definition GetCeilingMessageSize :: "u64 \<Rightarrow> u64" where
  "GetCeilingMessageSize n =
     (if n \<le> MESSAGE_SIZE_16K then MESSAGE_SIZE_16K
      else if n \<le> MESSAGE_SIZE_128K then MESSAGE_SIZE_128K
      else if n \<le> MESSAGE_SIZE_1M then MESSAGE_SIZE_1M
      else if n \<le> MESSAGE_SIZE_8M then MESSAGE_SIZE_8M
      else if n \<le> MESSAGE_SIZE_16M then MESSAGE_SIZE_16M
      else MESSAGE_SIZE_MORE)"

definition GetBlockBufSize :: "u64 \<Rightarrow> u64" where "GetBlockBufSize c = c + MESSAGE_INFO_SIZE"

definition GetBlockNum :: "u64 \<Rightarrow> u32" where
  "GetBlockNum c =
     (if c = MESSAGE_SIZE_16K then BLOCK_NUM_16K
      else if c = MESSAGE_SIZE_128K then BLOCK_NUM_128K
      else if c = MESSAGE_SIZE_1M then BLOCK_NUM_1M
      else if c = MESSAGE_SIZE_8M then BLOCK_NUM_8M
      else if c = MESSAGE_SIZE_16M then BLOCK_NUM_16M
      else if c = MESSAGE_SIZE_MORE then BLOCK_NUM_MORE
      else 0)"

definition sc_Update :: "u64 \<Rightarrow> shm_conf" where
  "sc_Update real_msg_size =
     (let c = GetCeilingMessageSize real_msg_size; b = GetBlockBufSize c; k = GetBlockNum c in
      \<lparr>sc_ceiling_msg_size = c, sc_block_buf_size = b, sc_block_num = k,
       sc_managed_shm_size = EXTRA_SIZE + STATE_SIZE + (BLOCK_SIZE + b) * ucast k\<rparr>)"

definition sc_default :: shm_conf where "sc_default = sc_Update MESSAGE_SIZE_16K"

text \<open>The six classes.\<close>

definition ceilings :: "u64 set" where
  "ceilings = {MESSAGE_SIZE_16K, MESSAGE_SIZE_128K, MESSAGE_SIZE_1M, MESSAGE_SIZE_8M, MESSAGE_SIZE_16M, MESSAGE_SIZE_MORE}"

lemma ceiling_in: "GetCeilingMessageSize n \<in> ceilings"
  by (simp add: GetCeilingMessageSize_def ceilings_def)

lemma ceiling_idem: "c \<in> ceilings \<Longrightarrow> GetCeilingMessageSize c = c"
  by (auto simp: GetCeilingMessageSize_def ceilings_def message_sizes)

lemma ceiling_ge: "n \<le> MESSAGE_SIZE_MORE \<Longrightarrow> n \<le> GetCeilingMessageSize n"
  by (simp add: GetCeilingMessageSize_def)

lemma sc_Update_idem: "sc_Update (sc_ceiling_msg_size (sc_Update n)) = sc_Update n"
  by (simp add: sc_Update_def Let_def ceiling_idem [OF ceiling_in])

lemma sc_Update_cases:
  "sc_Update n \<in> sc_Update ` ceilings"
  by (metis image_eqI sc_Update_idem ceiling_in sc_Update_def shm_conf.select_convs(1))

lemma block_num_pow2:
  "\<exists>k \<le> 9. unat (sc_block_num (sc_Update n)) = 2 ^ k"
proof -
  have "unat (GetBlockNum c) \<in> {8, 16, 32, 64, 128, 512}" if "c \<in> ceilings" for c
    using that by (auto simp: ceilings_def GetBlockNum_def message_sizes block_nums)
  moreover have "\<exists>k \<le> 9. x = 2 ^ k" if "x \<in> {8, 16, 32, 64, 128, 512}" for x :: nat
    using that by (auto intro: exI [of _ 3] exI [of _ 4] exI [of _ 5] exI [of _ 6] exI [of _ 7] exI [of _ 9])
  ultimately show ?thesis by (simp add: sc_Update_def Let_def ceiling_in)
qed

lemma block_buf_unat:
  "unat (sc_block_buf_size (sc_Update n)) = unat (sc_ceiling_msg_size (sc_Update n)) + 1024"
proof -
  have "unat (GetBlockBufSize c) = unat c + 1024" if "c \<in> ceilings" for c
    using that by (auto simp: ceilings_def GetBlockBufSize_def MESSAGE_INFO_SIZE_def message_sizes)
  then show ?thesis by (simp add: sc_Update_def Let_def ceiling_in)
qed

text \<open>The segment is large enough for its layout and nothing wraps: for every message size the
  state, the blocks and the block buffers, one after the other, end inside the mapped memory
  (given that the two C++ objects take at most the size set aside for them), and a message of up
  to 32 megabytes with its message info fits the buffer of its class.\<close>

theorem shm_layout_fits:
  assumes "sizeof_state \<le> 1024" and "sizeof_block \<le> 1024" and "c = sc_Update n"
    and "i < unat (sc_block_num c)" and "n \<le> MESSAGE_SIZE_MORE"
  shows "sizeof_state + unat (sc_block_num c) * sizeof_block + (i + 1) * unat (sc_block_buf_size c)
      \<le> unat (sc_managed_shm_size c) \<and>
    unat n + mi_kSize \<le> unat (sc_block_buf_size c)"
proof -
  have size: "unat (sc_managed_shm_size c) =
      4096 + 1024 + (1024 + unat (sc_block_buf_size c)) * unat (sc_block_num c)"
    if "x \<in> ceilings" "c = sc_Update x" for x and c :: shm_conf
    using that by (auto simp: ceilings_def sc_Update_def Let_def GetCeilingMessageSize_def GetBlockNum_def
      GetBlockBufSize_def EXTRA_SIZE_def STATE_SIZE_def BLOCK_SIZE_def MESSAGE_INFO_SIZE_def
      message_sizes block_nums)
  let ?b = "unat (sc_block_buf_size c)" and ?k = "unat (sc_block_num c)"
  have "(i + 1) * ?b \<le> ?k * ?b"
    using assms(4) by (intro mult_le_mono) simp_all
  moreover have "?k * sizeof_block \<le> ?k * 1024"
    using assms(2) by (intro mult_le_mono) simp_all
  moreover have "unat (sc_managed_shm_size c) = 5120 + ?k * 1024 + ?k * ?b"
    using size sc_Update_cases [of n] assms(3) by (auto simp: algebra_simps)
  moreover have "unat n \<le> unat (sc_ceiling_msg_size c)"
    using ceiling_ge [OF assms(5)] assms(3) by (simp add: sc_Update_def Let_def word_le_nat_alt)
  moreover have "?b = unat (sc_ceiling_msg_size c) + 1024" and "mi_kSize = 24"
    using assms(3) by (simp_all add: block_buf_unat mi_kSize_def ID_SIZE_def)
  ultimately show ?thesis
    using assms(1) by linarith
qed

lemma shm_layout_fits_witness:
  "24 + unat (sc_block_num (sc_Update 100000)) * 32 + (7 + 1) * unat (sc_block_buf_size (sc_Update 100000))
      \<le> unat (sc_managed_shm_size (sc_Update 100000)) \<and>
    unat (100000 :: u64) + mi_kSize \<le> unat (sc_block_buf_size (sc_Update 100000))"
  by (rule shm_layout_fits [OF _ _ refl])
    (simp_all add: sc_Update_def Let_def GetCeilingMessageSize_def GetBlockNum_def message_sizes block_nums)

text \<open>Past 32 megabytes the class stays at 32 megabytes: the block that \<open>AcquireBlockToWrite\<close>
  hands out is then too small for the message.\<close>

lemma oversized_message_overflows:
  assumes "MESSAGE_SIZE_MORE + 1024 < n"
  shows "unat (sc_block_buf_size (sc_Update n)) < unat n"
proof -
  have "sc_Update n = sc_Update MESSAGE_SIZE_MORE"
    using assms by (auto simp: sc_Update_def Let_def GetCeilingMessageSize_def message_sizes word_le_nat_alt word_less_nat_alt)
  then show ?thesis
    using assms by (simp add: sc_Update_def Let_def GetCeilingMessageSize_def GetBlockBufSize_def
      MESSAGE_INFO_SIZE_def message_sizes word_less_nat_alt)
qed

section \<open>State and blocks\<close>

record shm_state =
  ms_need_remap :: bool
  ms_wrote_num :: u32
  ms_reference_count :: u32
  ms_ceiling_msg_size :: u64

definition ms_new :: "u64 \<Rightarrow> shm_state" where
  "ms_new c = \<lparr>ms_need_remap = False, ms_wrote_num = 0, ms_reference_count = 0, ms_ceiling_msg_size = c\<rparr>"

definition ms_IncreaseWroteNum :: "shm_state \<Rightarrow> shm_state" where
  "ms_IncreaseWroteNum m = m\<lparr>ms_wrote_num := ms_wrote_num m + 1\<rparr>"

definition ms_ResetWroteNum :: "shm_state \<Rightarrow> shm_state" where
  "ms_ResetWroteNum m = m\<lparr>ms_wrote_num := 0\<rparr>"

definition ms_IncreaseReferenceCounts :: "shm_state \<Rightarrow> shm_state" where
  "ms_IncreaseReferenceCounts m = m\<lparr>ms_reference_count := ms_reference_count m + 1\<rparr>"

definition ms_DecreaseReferenceCounts :: "shm_state \<Rightarrow> shm_state" where
  "ms_DecreaseReferenceCounts m =
     (if ms_reference_count m = 0 then m else m\<lparr>ms_reference_count := ms_reference_count m - 1\<rparr>)"

definition ms_set_need_remap :: "bool \<Rightarrow> shm_state \<Rightarrow> shm_state" where
  "ms_set_need_remap b m = m\<lparr>ms_need_remap := b\<rparr>"

record block =
  bl_lock_num :: int
  bl_msg_size :: u64
  bl_msg_info_size :: u64

definition bl_new :: block where
  "bl_new = \<lparr>bl_lock_num = 0, bl_msg_size = 0, bl_msg_info_size = 0\<rparr>"

definition bl_TryLockForWrite :: "block \<Rightarrow> bool \<times> block" where
  "bl_TryLockForWrite b = (if bl_lock_num b = 0 then (True, b\<lparr>bl_lock_num := -1\<rparr>) else (False, b))"

definition bl_TryLockForRead :: "block \<Rightarrow> bool \<times> block" where
  "bl_TryLockForRead b = (if bl_lock_num b < 0 then (False, b) else (True, b\<lparr>bl_lock_num := bl_lock_num b + 1\<rparr>))"

definition bl_ReleaseWriteLock :: "block \<Rightarrow> block" where
  "bl_ReleaseWriteLock b = b\<lparr>bl_lock_num := bl_lock_num b + 1\<rparr>"

definition bl_ReleaseReadLock :: "block \<Rightarrow> block" where
  "bl_ReleaseReadLock b = b\<lparr>bl_lock_num := bl_lock_num b - 1\<rparr>"

definition bl_set_msg_size :: "u64 \<Rightarrow> block \<Rightarrow> block" where
  "bl_set_msg_size n b = b\<lparr>bl_msg_size := n\<rparr>"

definition bl_set_msg_info_size :: "u64 \<Rightarrow> block \<Rightarrow> block" where
  "bl_set_msg_info_size n b = b\<lparr>bl_msg_info_size := n\<rparr>"

section \<open>The shared memory of the system\<close>

datatype errno = EINVAL | EEXIST | EOTHER

text \<open>\<open>shm_create key size\<close> is \<open>shmget\<close> with \<open>IPC_CREAT\<close> and \<open>IPC_EXCL\<close>, \<open>shm_get\<close> without.\<close>

record 'o shm_api =
  shm_create :: "u32 \<Rightarrow> u64 \<Rightarrow> 'o \<Rightarrow> (errno + nat) \<times> 'o"
  shm_get :: "u32 \<Rightarrow> 'o \<Rightarrow> nat option"
  shm_at :: "nat \<Rightarrow> 'o \<Rightarrow> bool \<times> 'o"
  shm_dt :: "nat \<Rightarrow> 'o \<Rightarrow> 'o"
  shm_rmid :: "nat \<Rightarrow> 'o \<Rightarrow> bool \<times> 'o"

record shm_obj =
  so_state :: shm_state
  so_blocks :: "block list"
  so_area :: "u8 list"

record 'o shm_world =
  sw_os :: 'o
  sw_mem :: "nat \<Rightarrow> shm_obj"

definition sw_upd :: "nat \<Rightarrow> (shm_obj \<Rightarrow> shm_obj) \<Rightarrow> 'o shm_world \<Rightarrow> 'o shm_world" where
  "sw_upd i f w = w\<lparr>sw_mem := (sw_mem w)(i := f (sw_mem w i))\<rparr>"

definition so_upd_state :: "(shm_state \<Rightarrow> shm_state) \<Rightarrow> shm_obj \<Rightarrow> shm_obj" where
  "so_upd_state f b = b\<lparr>so_state := f (so_state b)\<rparr>"

definition so_upd_block :: "nat \<Rightarrow> (block \<Rightarrow> block) \<Rightarrow> shm_obj \<Rightarrow> shm_obj" where
  "so_upd_block k f b = b\<lparr>so_blocks := (so_blocks b)[k := f (so_blocks b ! k)]\<rparr>"

section \<open>Segment\<close>

datatype rw_mode = READ_ONLY | WRITE_ONLY

text \<open>A pointer to mapped memory: null, the error value of \<open>shmat\<close>, or the memory of an id.\<close>

datatype shm_ptr = NullPtr | BadPtr | Mapped nat

record segment =
  se_init :: bool
  se_id :: u32
  se_mode :: rw_mode
  se_conf :: shm_conf
  se_state :: "nat option"
  se_blocks :: "nat option"
  se_managed :: shm_ptr
  se_buf_addrs :: "u32 \<Rightarrow> nat option"

type_synonym 'o seg_world = "segment \<times> 'o shm_world"

definition se_new :: "u64 \<Rightarrow> rw_mode \<Rightarrow> segment" where
  "se_new channel_id mode = \<lparr>se_init = False, se_id = ucast channel_id, se_mode = mode, se_conf = sc_default,
     se_state = None, se_blocks = None, se_managed = NullPtr, se_buf_addrs = (\<lambda>_. None)\<rparr>"

definition se_Reset :: "'o shm_api \<Rightarrow> 'o seg_world \<Rightarrow> 'o seg_world" where
  "se_Reset api sw = (case sw of (s, w) \<Rightarrow>
     (s\<lparr>se_state := None, se_blocks := None, se_managed := NullPtr, se_buf_addrs := (\<lambda>_. None)\<rparr>,
      case se_managed s of Mapped i \<Rightarrow> w\<lparr>sw_os := shm_dt api i (sw_os w)\<rparr> | _ \<Rightarrow> w))"

definition se_Remove :: "'o shm_api \<Rightarrow> 'o seg_world \<Rightarrow> bool \<times> 'o seg_world" where
  "se_Remove api sw = (case sw of (s, w) \<Rightarrow>
     (case shm_get api (se_id s) (sw_os w) of
        None \<Rightarrow> (False, s, w)
      | Some i \<Rightarrow> let (ok, os') = shm_rmid api i (sw_os w) in (ok, s, w\<lparr>sw_os := os'\<rparr>)))"

text \<open>The addresses of the buffers, as offsets into the area.\<close>

definition buf_addrs :: "shm_conf \<Rightarrow> u32 \<Rightarrow> nat option" where
  "buf_addrs c i = (if i < sc_block_num c then Some (unat i * unat (sc_block_buf_size c)) else None)"

text \<open>The second half of \<open>OpenOnly\<close> and \<open>OpenOrCreate\<close>: set the pointers to the memory of id
  \<open>i\<close>, and count one more reference.\<close>

definition se_attach :: "nat \<Rightarrow> 'o seg_world \<Rightarrow> 'o seg_world" where
  "se_attach i sw = (case sw of (s, w) \<Rightarrow>
     let c = sc_Update (ms_ceiling_msg_size (so_state (sw_mem w i))) in
     (s\<lparr>se_managed := Mapped i, se_state := Some i, se_conf := c, se_blocks := Some i,
        se_buf_addrs := buf_addrs c, se_init := True\<rparr>,
      sw_upd i (so_upd_state ms_IncreaseReferenceCounts) w))"

definition se_OpenOnly :: "'o shm_api \<Rightarrow> 'o seg_world \<Rightarrow> bool \<times> 'o seg_world" where
  "se_OpenOnly api sw = (case sw of (s, w) \<Rightarrow>
     if se_init s then (True, s, w)
     else (case shm_get api (se_id s) (sw_os w) of
        None \<Rightarrow> (False, s, w)
      | Some i \<Rightarrow>
          let (ok, os') = shm_at api i (sw_os w); w = w\<lparr>sw_os := os'\<rparr> in
          if \<not> ok then (False, s\<lparr>se_managed := BadPtr\<rparr>, w)
          else (True, se_attach i (s, w))))"

text \<open>The loop that creates the memory: at most \<open>n\<close> more attempts.\<close>

datatype created = Created nat | ShmExists | CreateFailed

fun se_create :: "'o shm_api \<Rightarrow> nat \<Rightarrow> 'o seg_world \<Rightarrow> created \<times> 'o seg_world" where
  "se_create api 0 (s, w) = (CreateFailed, s, w)"
| "se_create api (Suc n) (s, w) =
     (let (r, os') = shm_create api (se_id s) (sc_managed_shm_size (se_conf s)) (sw_os w);
          w = w\<lparr>sw_os := os'\<rparr> in
      case r of
        Inr i \<Rightarrow> (Created i, s, w)
      | Inl e \<Rightarrow>
          if e = EINVAL then se_create api n (snd (se_Remove api (se_Reset api (s, w))))
          else if e = EEXIST then (ShmExists, s, w)
          else (CreateFailed, s, w))"

text \<open>The objects constructed in the memory: new memory is zero.\<close>

definition so_new :: "shm_conf \<Rightarrow> shm_obj" where
  "so_new c0 = (let st = ms_new (sc_ceiling_msg_size c0); c = sc_Update (ms_ceiling_msg_size st) in
     \<lparr>so_state = st, so_blocks = replicate (unat (sc_block_num c)) bl_new,
      so_area = replicate (unat (sc_block_num c) * unat (sc_block_buf_size c)) 0\<rparr>)"

definition se_OpenOrCreate :: "'o shm_api \<Rightarrow> 'o seg_world \<Rightarrow> bool \<times> 'o seg_world" where
  "se_OpenOrCreate api sw =
     (if se_init (fst sw) then (True, sw)
      else (case se_create api 2 sw of
        (CreateFailed, s, w) \<Rightarrow> (False, s, w)
      | (ShmExists, s, w) \<Rightarrow> se_OpenOnly api (s, w)
      | (Created i, s, w) \<Rightarrow>
          let (ok, os') = shm_at api i (sw_os w); w = w\<lparr>sw_os := os'\<rparr> in
          if \<not> ok then
            (False, s\<lparr>se_managed := BadPtr\<rparr>, w\<lparr>sw_os := snd (shm_rmid api i (sw_os w))\<rparr>)
          else (True, se_attach i (s, sw_upd i (\<lambda>_. so_new (se_conf s)) w))))"

definition se_Init :: "'o shm_api \<Rightarrow> 'o seg_world \<Rightarrow> bool \<times> 'o seg_world" where
  "se_Init api sw = (if se_mode (fst sw) = READ_ONLY then se_OpenOnly api sw else se_OpenOrCreate api sw)"

definition se_Remap :: "'o shm_api \<Rightarrow> 'o seg_world \<Rightarrow> bool \<times> 'o seg_world" where
  "se_Remap api sw = (case sw of (s, w) \<Rightarrow> se_OpenOnly api (se_Reset api (s\<lparr>se_init := False\<rparr>, w)))"

text \<open>From here on \<open>None\<close> is an access through a null pointer, past the blocks or past the area.\<close>

definition se_Recreate :: "'o shm_api \<Rightarrow> 'o seg_world \<Rightarrow> (bool \<times> 'o seg_world) option" where
  "se_Recreate api sw = (case sw of (s, w) \<Rightarrow> do {
     i \<leftarrow> se_state s;
     Some (se_OpenOrCreate api (snd (se_Remove api (se_Reset api
       (s\<lparr>se_init := False\<rparr>, sw_upd i (so_upd_state (ms_set_need_remap True)) w))))) })"

definition se_Destroy :: "'o shm_api \<Rightarrow> 'o seg_world \<Rightarrow> (bool \<times> 'o seg_world) option" where
  "se_Destroy api sw = (case sw of (s, w) \<Rightarrow>
     if \<not> se_init s then Some (True, s, w)
     else do {
       i \<leftarrow> se_state s;
       let w = sw_upd i (so_upd_state ms_DecreaseReferenceCounts) w;
       let s = s\<lparr>se_init := False\<rparr>;
       Some (if ms_reference_count (so_state (sw_mem w i)) = 0 then se_Remove api (s, w) else (True, s, w)) })"

text \<open>The loop over the blocks. It is \<open>None\<close> past the blocks and when it finds none for ever.\<close>

partial_function (option) next_block :: "u32 \<Rightarrow> block list \<Rightarrow> u32 \<Rightarrow> u32 option" where
  "next_block block_num bs try_idx =
     (let i = (if block_num \<le> try_idx then try_idx AND (block_num - 1) else try_idx) in
      if length bs \<le> unat i then None
      else if fst (bl_TryLockForWrite (bs ! unat i)) then Some i
      else next_block block_num bs (i + 1))"

definition se_GetNextWritableBlockIndex :: "'o seg_world \<Rightarrow> (u32 \<times> 'o seg_world) option" where
  "se_GetNextWritableBlockIndex sw = (case sw of (s, w) \<Rightarrow> do {
     j \<leftarrow> se_state s;
     k \<leftarrow> se_blocks s;
     i \<leftarrow> next_block (sc_block_num (se_conf s)) (so_blocks (sw_mem w k)) (ms_wrote_num (so_state (sw_mem w j)));
     Some (i, s, sw_upd j (so_upd_state ms_IncreaseWroteNum)
               (sw_upd k (so_upd_block (unat i) (\<lambda>b. snd (bl_TryLockForWrite b))) w)) })"

text \<open>A writable (or readable) block: its index, its memory and its buffer.\<close>

record shm_block =
  wb_index :: u32
  wb_block :: "nat option"
  wb_buf :: "nat option"

text \<open>What \<open>AcquireBlockToWrite\<close> and \<open>AcquireBlockToRead\<close> do before the block is chosen.\<close>

definition se_ensure_init :: "'o shm_api \<Rightarrow> 'o seg_world \<Rightarrow> bool \<times> 'o seg_world" where
  "se_ensure_init api sw = (if se_init (fst sw) then (True, sw) else se_Init api sw)"

definition se_ensure_map :: "'o shm_api \<Rightarrow> 'o seg_world \<Rightarrow> (bool \<times> 'o seg_world) option" where
  "se_ensure_map api sw = do {
     i \<leftarrow> se_state (fst sw);
     Some (if ms_need_remap (so_state (sw_mem (snd sw) i)) then se_Remap api sw else (True, sw)) }"

definition se_AcquireBlockToWrite :: "'o shm_api \<Rightarrow> u64 \<Rightarrow> 'o seg_world \<Rightarrow> (shm_block option \<times> 'o seg_world) option" where
  "se_AcquireBlockToWrite api msg_size sw =
     (case se_ensure_init api sw of
        (False, sw) \<Rightarrow> Some (None, sw)
      | (True, sw) \<Rightarrow> do {
          r \<leftarrow> se_ensure_map api sw;
          (result, s, w) \<leftarrow> (case r of (result, s, w) \<Rightarrow>
             if sc_ceiling_msg_size (se_conf s) < msg_size
             then se_Recreate api (s\<lparr>se_conf := sc_Update msg_size\<rparr>, w)
             else Some (result, s, w));
          if \<not> result then Some (None, s, w)
          else do {
            (i, s, w) \<leftarrow> se_GetNextWritableBlockIndex (s, w);
            Some (Some \<lparr>wb_index = i, wb_block = se_blocks s, wb_buf = se_buf_addrs s i\<rparr>, s, w) } })"

definition se_ReleaseWrittenBlock :: "shm_block \<Rightarrow> 'o seg_world \<Rightarrow> 'o seg_world option" where
  "se_ReleaseWrittenBlock wb sw = (case sw of (s, w) \<Rightarrow>
     if sc_block_num (se_conf s) \<le> wb_index wb then Some (s, w)
     else do {
       k \<leftarrow> se_blocks s;
       if unat (wb_index wb) < length (so_blocks (sw_mem w k))
       then Some (s, sw_upd k (so_upd_block (unat (wb_index wb)) bl_ReleaseWriteLock) w) else None })"

definition se_AcquireBlockToRead :: "'o shm_api \<Rightarrow> u32 \<Rightarrow> 'o seg_world \<Rightarrow> (shm_block option \<times> 'o seg_world) option" where
  "se_AcquireBlockToRead api index sw =
     (case se_ensure_init api sw of
        (False, sw) \<Rightarrow> Some (None, sw)
      | (True, sw) \<Rightarrow>
          if sc_block_num (se_conf (fst sw)) \<le> index then Some (None, sw)
          else do {
            (result, s, w) \<leftarrow> se_ensure_map api sw;
            if \<not> result then Some (None, s, w)
            else do {
              k \<leftarrow> se_blocks s;
              if length (so_blocks (sw_mem w k)) \<le> unat index then None
              else (let (ok, b) = bl_TryLockForRead (so_blocks (sw_mem w k) ! unat index) in
                if \<not> ok then Some (None, s, w)
                else Some (Some \<lparr>wb_index = index, wb_block = Some k, wb_buf = se_buf_addrs s index\<rparr>,
                       s, sw_upd k (so_upd_block (unat index) (\<lambda>_. b)) w)) } })"

definition se_ReleaseReadBlock :: "shm_block \<Rightarrow> 'o seg_world \<Rightarrow> 'o seg_world option" where
  "se_ReleaseReadBlock rb sw = (case sw of (s, w) \<Rightarrow>
     if sc_block_num (se_conf s) \<le> wb_index rb then Some (s, w)
     else do {
       k \<leftarrow> se_blocks s;
       if unat (wb_index rb) < length (so_blocks (sw_mem w k))
       then Some (s, sw_upd k (so_upd_block (unat (wb_index rb)) bl_ReleaseReadLock) w) else None })"

end
