(* ===== verification/Shm_Transport.thy ===== *)
theory Shm_Transport
  imports Shm_Segment
begin

text \<open>
  A message's way through shared memory: \<open>ShmTransmitter\<close> writes it and its message info into a
  block and hands the block's index to the notifier; the thread of \<open>ShmDispatcher\<close> takes the index
  from the notifier and reads the block. The notifier is the parameter \<open>notify\<close>; the size and the
  bytes of a message are the parameters \<open>byte_size\<close> and \<open>ser\<close> (protobuf).
\<close>

section \<open>Transmitter\<close>

record shm_transmitter =
  tx_enabled :: bool
  tx_segment :: "segment option"
  tx_channel_id :: u64
  tx_host_id :: u64

definition tx_new :: "(u8 list \<Rightarrow> u64) \<Rightarrow> u64 \<Rightarrow> u8 list \<Rightarrow> shm_transmitter" where
  "tx_new hash channel_id host_ip =
     \<lparr>tx_enabled = False, tx_segment = None, tx_channel_id = channel_id, tx_host_id = hash host_ip\<rparr>"

definition tx_Enable :: "shm_transmitter \<Rightarrow> shm_transmitter" where
  "tx_Enable tx = (if tx_enabled tx then tx
     else tx\<lparr>tx_segment := Some (se_new (tx_channel_id tx) WRITE_ONLY), tx_enabled := True\<rparr>)"

definition tx_Disable :: "'o shm_api \<Rightarrow> shm_transmitter \<times> 'o shm_world \<Rightarrow> (shm_transmitter \<times> 'o shm_world) option" where
  "tx_Disable api txw = (case txw of (tx, w) \<Rightarrow>
     if tx_enabled tx then do {
       w \<leftarrow> (case tx_segment tx of None \<Rightarrow> Some w
             | Some s \<Rightarrow> map_option (\<lambda>r. snd (snd r)) (se_Destroy api (s, w)));
       Some (tx\<lparr>tx_segment := None, tx_enabled := False\<rparr>, w) }
     else Some (tx, w))"

definition so_set_area :: "u8 list \<Rightarrow> shm_obj \<Rightarrow> shm_obj" where
  "so_set_area a b = b\<lparr>so_area := a\<rparr>"

text \<open>\<open>Transmit\<close>, from the acquired block on: the bytes, the sizes and the message info.\<close>

definition tx_fill :: "nat \<Rightarrow> u8 list option \<Rightarrow> message_info \<Rightarrow> shm_block \<Rightarrow> 'o shm_world \<Rightarrow> (bool \<times> 'o shm_world) option" where
  "tx_fill msg_size ser info wb w =
     (case ser of
        None \<Rightarrow> Some (False, w)
      | Some bytes \<Rightarrow> do {
          k \<leftarrow> wb_block wb;
          buf \<leftarrow> wb_buf wb;
          area \<leftarrow> memcpy (so_area (sw_mem w k)) buf bytes;
          let w = sw_upd k (so_upd_block (unat (wb_index wb)) (bl_set_msg_size (of_nat msg_size)) \<circ> so_set_area area) w;
          (ok, tail) \<leftarrow> mi_SerializeTo info (Some (drop (buf + msg_size) area)) mi_kSize;
          tail \<leftarrow> tail;
          let w = sw_upd k (so_set_area (take (buf + msg_size) area @ tail)) w;
          Some (if \<not> ok then (False, w)
                else (True, sw_upd k (so_upd_block (unat (wb_index wb)) (bl_set_msg_info_size (of_nat mi_kSize))) w)) })"

definition tx_Transmit :: "'o shm_api \<Rightarrow> (readable_info \<Rightarrow> 'n \<Rightarrow> bool \<times> 'n) \<Rightarrow> ('m \<Rightarrow> nat) \<Rightarrow> ('m \<Rightarrow> u8 list option)
    \<Rightarrow> 'm \<Rightarrow> message_info \<Rightarrow> shm_transmitter \<times> 'o shm_world \<times> 'n
    \<Rightarrow> (bool \<times> shm_transmitter \<times> 'o shm_world \<times> 'n) option" where
  "tx_Transmit api notify byte_size ser msg info txw = (case txw of (tx, w, n) \<Rightarrow>
     if \<not> tx_enabled tx then Some (False, tx, w, n)
     else do {
       s \<leftarrow> tx_segment tx;
       (r, s, w) \<leftarrow> se_AcquireBlockToWrite api (of_nat (byte_size msg)) (s, w);
       (case r of
          None \<Rightarrow> Some (False, tx\<lparr>tx_segment := Some s\<rparr>, w, n)
        | Some wb \<Rightarrow> do {
            (ok, w) \<leftarrow> tx_fill (byte_size msg) (ser msg) info wb w;
            (s, w) \<leftarrow> se_ReleaseWrittenBlock wb (s, w);
            Some (if \<not> ok then (False, tx\<lparr>tx_segment := Some s\<rparr>, w, n)
                  else (let (b, n) = notify (ri_new (tx_host_id tx) (wb_index wb) (tx_channel_id tx)) n
                        in (b, tx\<lparr>tx_segment := Some s\<rparr>, w, n))) }) })"

section \<open>Dispatcher\<close>

text \<open>\<open>ReadMessage\<close> of one segment: the bytes and the message info handed to \<open>OnMessage\<close>.\<close>

definition sd_ReadMessage :: "'o shm_api \<Rightarrow> (u8 list \<Rightarrow> u64) \<Rightarrow> u32 \<Rightarrow> 'o seg_world
    \<Rightarrow> ((u8 list \<times> message_info) option \<times> 'o seg_world) option" where
  "sd_ReadMessage api hash block_index sw = do {
     (r, s, w) \<leftarrow> se_AcquireBlockToRead api block_index sw;
     (case r of
        None \<Rightarrow> Some (None, s, w)
      | Some rb \<Rightarrow> do {
          k \<leftarrow> wb_block rb;
          buf \<leftarrow> wb_buf rb;
          let b = so_blocks (sw_mem w k) ! unat block_index;
          let msg_size = unat (bl_msg_size b);
          let len = unat (bl_msg_info_size b);
          if len = mi_kSize \<and> length (so_area (sw_mem w k)) < buf + msg_size + len then None
          else do {
            let (ok, info) = mi_DeserializeFrom hash (Some (drop (buf + msg_size) (so_area (sw_mem w k)))) len mi_default;
            sw \<leftarrow> se_ReleaseReadBlock rb (s, w);
            Some (if ok then Some (take msg_size (drop buf (so_area (sw_mem w k))), info) else None, sw) } }) }"

record shm_dispatcher =
  sd_host_id :: u64
  sd_segments :: "u64 \<Rightarrow> segment option"
  sd_previous_indexes :: "u64 \<Rightarrow> u32 option"
  sd_is_shutdown :: bool

definition sd_new :: "(u8 list \<Rightarrow> u64) \<Rightarrow> u8 list \<Rightarrow> shm_dispatcher" where
  "sd_new hash host_ip = \<lparr>sd_host_id = hash host_ip, sd_segments = (\<lambda>_. None),
     sd_previous_indexes = (\<lambda>_. None), sd_is_shutdown = False\<rparr>"

definition sd_AddSegment :: "u64 \<Rightarrow> shm_dispatcher \<Rightarrow> shm_dispatcher" where
  "sd_AddSegment channel_id d =
     (if sd_segments d channel_id \<noteq> None then d
      else d\<lparr>sd_segments := (sd_segments d)(channel_id \<mapsto> se_new channel_id READ_ONLY),
             sd_previous_indexes := (sd_previous_indexes d)(channel_id \<mapsto> - 1)\<rparr>)"

text \<open>One round of \<open>ThreadFunc\<close> with what \<open>Listen\<close> gave: what goes to the channel's handler.\<close>

definition sd_round :: "'o shm_api \<Rightarrow> (u8 list \<Rightarrow> u64) \<Rightarrow> readable_info option \<Rightarrow> shm_dispatcher \<times> 'o shm_world
    \<Rightarrow> ((u64 \<times> u8 list \<times> message_info) option \<times> shm_dispatcher \<times> 'o shm_world) option" where
  "sd_round api hash listened dw = (case dw of (d, w) \<Rightarrow>
     (case listened of
        None \<Rightarrow> Some (None, d, w)
      | Some ri \<Rightarrow>
          if ri_host_id ri \<noteq> sd_host_id d then Some (None, d, w)
          else (case sd_segments d (ri_channel_id ri) of
            None \<Rightarrow> Some (None, d, w)
          | Some s \<Rightarrow> do {
              (r, s, w) \<leftarrow> sd_ReadMessage api hash (ri_block_index ri) (s, w);
              Some (if sd_is_shutdown d then None else map_option (Pair (ri_channel_id ri)) r,
                d\<lparr>sd_segments := (sd_segments d)(ri_channel_id ri \<mapsto> s),
                  sd_previous_indexes := (sd_previous_indexes d)(ri_channel_id ri \<mapsto> ri_block_index ri)\<rparr>, w) })))"

section \<open>Choosing a block\<close>

definition bl_free :: "block list \<Rightarrow> nat \<Rightarrow> bool" where
  "bl_free bs i \<longleftrightarrow> bl_lock_num (bs ! i) = 0"

lemma TryLockForWrite_free: "fst (bl_TryLockForWrite (bs ! i)) \<longleftrightarrow> bl_free bs i"
  by (simp add: bl_TryLockForWrite_def bl_free_def)

lemma mask_index:
  fixes n t :: u32
  assumes "unat n = 2 ^ k" and "k \<le> 9"
  shows "unat (if n \<le> t then t AND (n - 1) else t) = unat t mod unat n"
proof -
  have "n = of_nat (unat n)" by simp
  then have "n = 2 ^ k" unfolding assms(1) by simp
  then have "t AND (n - 1) = take_bit k t"
    by (simp add: take_bit_eq_mask mask_eq_exp_minus_1)
  then have "unat (t AND (n - 1)) = unat t mod unat n"
    by (simp only: assms(1) unsigned_take_bit_eq) (simp only: take_bit_eq_mod)
  then show ?thesis by (simp add: word_le_nat_alt)
qed

text \<open>The loop finds the first free block in cyclic order after the number of writes so far.\<close>

lemma next_block_finds:
  assumes "unat n = 2 ^ k" and "k \<le> 9" and "length bs = unat n" and "d < unat n"
    and "bl_free bs ((unat t + d) mod unat n)" and "\<And>e. e < d \<Longrightarrow> \<not> bl_free bs ((unat t + e) mod unat n)"
  shows "\<exists>i. next_block n bs t = Some i \<and> unat i = (unat t + d) mod unat n"
  using assms(4-)
proof (induction d arbitrary: t)
  case 0
  have "unat (if n \<le> t then t AND (n - 1) else t) = unat t mod unat n"
    by (rule mask_index [OF assms(1,2)])
  moreover have "unat t mod unat n < unat n" using assms(1) by simp
  ultimately show ?case
    using 0 assms(3) by (subst next_block.simps) (simp add: TryLockForWrite_free Let_def not_le)
next
  case (Suc d)
  let ?i = "if n \<le> t then t AND (n - 1) else t"
  have i: "unat ?i = unat t mod unat n" by (rule mask_index [OF assms(1,2)])
  have lt: "unat t mod unat n < unat n" using assms(1) by simp
  have small: "unat n \<le> 512" using assms(1) power_increasing [OF assms(2), of "2 :: nat"] by simp
  have i1: "unat (?i + 1) = Suc (unat t mod unat n)"
    using i lt small by (subst unat_Suc_word) simp_all
  have "\<not> bl_free bs (unat t mod unat n)" using Suc.prems(3) [of 0] by simp
  then have step: "next_block n bs t = next_block n bs (?i + 1)"
    using i lt assms(3) by (subst next_block.simps) (simp add: TryLockForWrite_free Let_def not_le)
  have shift: "(unat (?i + 1) + e) mod unat n = (unat t + Suc e) mod unat n" for e
    unfolding i1 by (simp only: add_Suc_shift mod_add_left_eq)
  have "\<exists>i. next_block n bs (?i + 1) = Some i \<and> unat i = (unat (?i + 1) + d) mod unat n"
  proof (rule Suc.IH)
    show "\<not> bl_free bs ((unat (?i + 1) + e) mod unat n)" if "e < d" for e
      unfolding shift using Suc.prems(3) [of "Suc e"] that by simp
  qed (use Suc.prems(1,2) in \<open>simp_all only: shift Suc_lessD\<close>)
  then show ?case unfolding step shift by simp
qed

section \<open>Mapped segments\<close>

definition so_ok :: "shm_obj \<Rightarrow> bool" where
  "so_ok b \<longleftrightarrow> ms_ceiling_msg_size (so_state b) \<in> ceilings
     \<and> length (so_blocks b) = unat (sc_block_num (sc_Update (ms_ceiling_msg_size (so_state b))))
     \<and> length (so_area b) = length (so_blocks b) * unat (sc_block_buf_size (sc_Update (ms_ceiling_msg_size (so_state b))))"

definition se_maps :: "nat \<Rightarrow> 'o shm_world \<Rightarrow> segment \<Rightarrow> bool" where
  "se_maps k w s \<longleftrightarrow> se_init s \<and> se_managed s = Mapped k \<and> se_state s = Some k \<and> se_blocks s = Some k
     \<and> se_conf s = sc_Update (ms_ceiling_msg_size (so_state (sw_mem w k)))
     \<and> se_buf_addrs s = buf_addrs (se_conf s)"

lemma sw_upd_sel [simp]:
  "sw_mem (sw_upd k f w) j = (if j = k then f (sw_mem w k) else sw_mem w j)"
  "sw_os (sw_upd k f w) = sw_os w"
  by (simp_all add: sw_upd_def)

lemma so_upd_sel [simp]:
  "so_state (so_upd_state f b) = f (so_state b)" "so_blocks (so_upd_state f b) = so_blocks b"
  "so_area (so_upd_state f b) = so_area b"
  "so_state (so_upd_block i g b) = so_state b" "so_area (so_upd_block i g b) = so_area b"
  "so_blocks (so_upd_block i g b) = (so_blocks b)[i := g (so_blocks b ! i)]"
  "so_state (so_set_area a b) = so_state b" "so_blocks (so_set_area a b) = so_blocks b"
  "so_area (so_set_area a b) = a"
  by (simp_all add: so_upd_state_def so_upd_block_def so_set_area_def)

lemma se_maps_block_num:
  "se_maps k w s \<Longrightarrow> so_ok (sw_mem w k) \<Longrightarrow> length (so_blocks (sw_mem w k)) = unat (sc_block_num (se_conf s))"
  by (simp add: se_maps_def so_ok_def)

lemma so_new_ok: "so_ok (so_new (sc_Update n))"
  by (simp add: so_ok_def so_new_def ms_new_def Let_def sc_Update_idem)
    (simp add: sc_Update_def Let_def ceiling_in)

text \<open>A segment that has just attached maps the memory.\<close>

lemma se_attach_maps: "case se_attach i (s, w) of (s', w') \<Rightarrow> se_maps i w' s'"
  by (simp add: se_attach_def Let_def se_maps_def ms_IncreaseReferenceCounts_def)

text \<open>The memory after block \<open>i\<close> was claimed, and after the message was written to it.\<close>

definition so_claimed :: "nat \<Rightarrow> shm_obj \<Rightarrow> shm_obj" where
  "so_claimed i b = so_upd_state ms_IncreaseWroteNum (so_upd_block i (\<lambda>b. b\<lparr>bl_lock_num := -1\<rparr>) b)"

definition so_written :: "nat \<Rightarrow> u8 list \<Rightarrow> message_info \<Rightarrow> shm_obj \<Rightarrow> shm_obj" where
  "so_written i bytes info b =
     (let off = i * unat (sc_block_buf_size (sc_Update (ms_ceiling_msg_size (so_state b))));
          data = bytes @ mi_SerializeTo_string info in
      b\<lparr>so_state := ms_IncreaseWroteNum (so_state b),
        so_blocks := (so_blocks b)[i := \<lparr>bl_lock_num = 0, bl_msg_size = of_nat (length bytes), bl_msg_info_size = of_nat mi_kSize\<rparr>],
        so_area := take off (so_area b) @ data @ drop (off + length data) (so_area b)\<rparr>)"

lemma bl_free_cyclic:
  assumes "j < length bs" and "bl_free bs j"
  shows "\<exists>d < length bs. bl_free bs ((t + d) mod length bs) \<and> (\<forall>e < d. \<not> bl_free bs ((t + e) mod length bs))"
proof -
  let ?n = "length bs" and ?P = "\<lambda>d. bl_free bs ((t + d) mod length bs)"
  have n: "0 < ?n" using assms(1) by linarith
  have "(t + (j + ?n - t mod ?n) mod ?n) mod ?n = j"
  proof -
    have "(t + (j + ?n - t mod ?n) mod ?n) mod ?n = (t mod ?n + (j + ?n - t mod ?n)) mod ?n"
      by (simp add: mod_simps)
    also have "\<dots> = (j + ?n) mod ?n" using n by (simp add: less_imp_le trans_le_add2)
    finally show ?thesis using assms(1) by simp
  qed
  then have P: "?P ((j + ?n - t mod ?n) mod ?n)" using assms(2) by simp
  let ?d = "LEAST d. ?P d"
  have "?P ?d" by (rule LeastI [of ?P, OF P])
  moreover have "?d < ?n"
    using Least_le [of ?P, OF P] n by (meson le_less_trans mod_less_divisor)
  moreover have "\<forall>e < ?d. \<not> ?P e" using not_less_Least by blast
  ultimately show ?thesis by blast
qed

lemma GetNext_claims:
  assumes "se_maps k w s" and "so_ok (sw_mem w k)"
    and "j < length (so_blocks (sw_mem w k))" and "bl_free (so_blocks (sw_mem w k)) j"
  shows "\<exists>i. unat i < length (so_blocks (sw_mem w k)) \<and> bl_free (so_blocks (sw_mem w k)) (unat i) \<and>
    se_GetNextWritableBlockIndex (s, w) = Some (i, s, sw_upd k (so_claimed (unat i)) w)"
proof -
  let ?b = "sw_mem w k" and ?n = "sc_block_num (se_conf s)"
  have n: "length (so_blocks ?b) = unat ?n" by (rule se_maps_block_num [OF assms(1,2)])
  obtain p where p: "p \<le> 9" "unat ?n = 2 ^ p"
    using block_num_pow2 [of "ms_ceiling_msg_size (so_state ?b)"] assms(1) by (auto simp: se_maps_def)
  let ?t = "ms_wrote_num (so_state ?b)"
  obtain d where d: "d < unat ?n" "bl_free (so_blocks ?b) ((unat ?t + d) mod unat ?n)"
    "\<And>e. e < d \<Longrightarrow> \<not> bl_free (so_blocks ?b) ((unat ?t + e) mod unat ?n)"
    using bl_free_cyclic [OF assms(3,4), of "unat ?t"] unfolding n by blast
  obtain i where i: "next_block ?n (so_blocks ?b) ?t = Some i" "unat i = (unat ?t + d) mod unat ?n"
    using next_block_finds [OF p(2,1) n d] by blast
  have f: "bl_free (so_blocks ?b) (unat i)" using d(2) i(2) by simp
  then have "sw_upd k (so_upd_state ms_IncreaseWroteNum) (sw_upd k (so_upd_block (unat i) (\<lambda>b. snd (bl_TryLockForWrite b))) w)
    = sw_upd k (so_claimed (unat i)) w"
    by (simp add: sw_upd_def so_claimed_def so_upd_block_def so_upd_state_def bl_free_def bl_TryLockForWrite_def)
  then have "se_GetNextWritableBlockIndex (s, w) = Some (i, s, sw_upd k (so_claimed (unat i)) w)"
    using assms(1) i(1) by (simp add: se_GetNextWritableBlockIndex_def se_maps_def)
  moreover have "unat i < length (so_blocks ?b)" using i(2) p(2) n by simp
  ultimately show ?thesis using f by blast
qed

section \<open>Writing and reading a message\<close>

lemma se_ensure_mapped:
  assumes "se_maps k w s" and "\<not> ms_need_remap (so_state (sw_mem w k))"
  shows "se_ensure_init api (s, w) = (True, s, w)" and "se_ensure_map api (s, w) = Some (True, s, w)"
  using assms by (simp_all add: se_ensure_init_def se_ensure_map_def se_maps_def)

lemma AcquireBlockToWrite_mapped:
  assumes "se_maps k w s" and "so_ok (sw_mem w k)" and "\<not> ms_need_remap (so_state (sw_mem w k))"
    and "msg_size \<le> sc_ceiling_msg_size (se_conf s)"
    and "j < length (so_blocks (sw_mem w k))" and "bl_free (so_blocks (sw_mem w k)) j"
  shows "\<exists>i. unat i < length (so_blocks (sw_mem w k)) \<and> bl_free (so_blocks (sw_mem w k)) (unat i) \<and>
    se_AcquireBlockToWrite api msg_size (s, w) =
      Some (Some \<lparr>wb_index = i, wb_block = Some k, wb_buf = Some (unat i * unat (sc_block_buf_size (se_conf s)))\<rparr>,
        s, sw_upd k (so_claimed (unat i)) w)"
proof -
  obtain i where i: "unat i < length (so_blocks (sw_mem w k))" "bl_free (so_blocks (sw_mem w k)) (unat i)"
    "se_GetNextWritableBlockIndex (s, w) = Some (i, s, sw_upd k (so_claimed (unat i)) w)"
    using GetNext_claims [OF assms(1,2,5,6)] by blast
  then have "se_buf_addrs s i = Some (unat i * unat (sc_block_buf_size (se_conf s)))"
    using assms(1) se_maps_block_num [OF assms(1,2)]
    by (simp add: se_maps_def buf_addrs_def word_less_nat_alt)
  then show ?thesis
    using i assms(1) leD [OF assms(4)] by (intro exI [of _ i])
      (simp add: se_AcquireBlockToWrite_def se_ensure_mapped [OF assms(1,3)] se_maps_def)
qed

text \<open>The buffer of block \<open>i\<close> with room for \<open>m\<close> bytes lies in the area.\<close>

lemma buffer_in_area:
  assumes "so_ok b" and "i < length (so_blocks b)" and "B = unat (sc_block_buf_size (sc_Update (ms_ceiling_msg_size (so_state b))))"
    and "m \<le> B"
  shows "i * B + m \<le> length (so_area b)"
proof -
  have "i * B + m \<le> Suc i * B" using assms(4) by simp
  also have "\<dots> \<le> length (so_blocks b) * B" using assms(2) by (intro mult_le_mono) auto
  finally show ?thesis using assms(1,3) by (simp add: so_ok_def)
qed

lemma sw_upd_comp: "sw_upd k f (sw_upd k g w) = sw_upd k (\<lambda>b. f (g b)) w"
  by (simp add: sw_upd_def)

lemma sw_upd_cong: "f (sw_mem w k) = g (sw_mem w k) \<Longrightarrow> sw_upd k f w = sw_upd k g w"
  by (simp add: sw_upd_def)

lemma block_written:
  "bl_ReleaseWriteLock (bl_set_msg_info_size y (bl_set_msg_size x (b\<lparr>bl_lock_num := -1\<rparr>))) =
    \<lparr>bl_lock_num = 0, bl_msg_size = x, bl_msg_info_size = y\<rparr>"
  by (cases b) (simp add: bl_ReleaseWriteLock_def bl_set_msg_info_size_def bl_set_msg_size_def)

lemma so_written_sel [simp]:
  "so_state (so_written i bytes info b) = ms_IncreaseWroteNum (so_state b)"
  "so_blocks (so_written i bytes info b) = (so_blocks b)[i :=
     \<lparr>bl_lock_num = 0, bl_msg_size = of_nat (length bytes), bl_msg_info_size = of_nat mi_kSize\<rparr>]"
  by (simp_all add: so_written_def Let_def)

lemma tx_fill_writes:
  assumes "so_ok (sw_mem w k)" and "unat i < length (so_blocks (sw_mem w k))" and "mi_ok info"
    and "B = unat (sc_block_buf_size (sc_Update (ms_ceiling_msg_size (so_state (sw_mem w k)))))"
    and "length bytes + mi_kSize \<le> B"
  shows "Option.bind (tx_fill (length bytes) (Some bytes) info \<lparr>wb_index = i, wb_block = Some k, wb_buf = Some (unat i * B)\<rparr>
       (sw_upd k (so_claimed (unat i)) w)) (\<lambda>(ok, w). Some (ok, sw_upd k (so_upd_block (unat i) bl_ReleaseWriteLock) w))
    = Some (True, sw_upd k (so_written (unat i) bytes info) w)"
proof -
  let ?b = "sw_mem w k" and ?off = "unat i * B"
  have room: "?off + (length bytes + mi_kSize) \<le> length (so_area ?b)"
    by (rule buffer_in_area [OF assms(1,2,4,5)])
  let ?area = "take ?off (so_area ?b) @ bytes @ drop (?off + length bytes) (so_area ?b)"
  have cpy: "memcpy (so_area ?b) ?off bytes = Some ?area" using room by (simp add: memcpy_def)
  have tl: "drop (?off + length bytes) ?area = drop (?off + length bytes) (so_area ?b)"
    using room by simp
  have tk: "take (?off + length bytes) ?area = take ?off (so_area ?b) @ bytes"
    using room by simp
  have ser: "mi_SerializeTo info (Some (drop (?off + length bytes) (so_area ?b))) mi_kSize =
    Some (True, Some (mi_SerializeTo_string info @ drop (?off + length bytes + mi_kSize) (so_area ?b)))"
    using mi_SerializeTo_buffer [OF assms(3)] room by (simp add: add.commute)
  have mn: "min (length (so_area ?b)) ?off = ?off" using room by simp
  show ?thesis
    using cpy tl tk ser assms(2) mi_string_length [OF assms(3)]
    by (simp add: tx_fill_def mn comp_def so_claimed_def)
      (simp add: sw_upd_comp so_claimed_def, rule sw_upd_cong, rule shm_obj.equality,
        simp_all add: block_written so_written_def Let_def assms(4) [symmetric] add.assoc)
qed

lemma sd_ReadMessage_written:
  assumes "se_maps k w r" and "so_ok (sw_mem w k)" and "unat i < length (so_blocks (sw_mem w k))"
    and "\<not> ms_need_remap (so_state (sw_mem w k))" and "mi_ok info"
    and "length bytes + mi_kSize \<le> unat (sc_block_buf_size (se_conf r))"
  shows "\<exists>info'. mi_DeserializeFrom_string hash (mi_SerializeTo_string info) mi_default = (True, info') \<and>
    sd_ReadMessage api hash i (r, sw_upd k (so_written (unat i) bytes info) w) =
      Some (Some (bytes, info'), r, sw_upd k (so_written (unat i) bytes info) w)"
proof -
  let ?b = "sw_mem w k" and ?B = "unat (sc_block_buf_size (se_conf r))"
  let ?off = "unat i * ?B" and ?w = "sw_upd k (so_written (unat i) bytes info) w"
  let ?blk = "\<lparr>bl_lock_num = 0, bl_msg_size = of_nat (length bytes), bl_msg_info_size = of_nat mi_kSize\<rparr> :: block"
  have B: "?B = unat (sc_block_buf_size (sc_Update (ms_ceiling_msg_size (so_state ?b))))"
    using assms(1) by (simp add: se_maps_def)
  have room: "?off + (length bytes + mi_kSize) \<le> length (so_area ?b)"
    by (rule buffer_in_area [OF assms(2,3) B assms(6)])
  have mn: "min (length (so_area ?b)) ?off = ?off" using room by simp
  have mem: "so_blocks (sw_mem ?w k) = (so_blocks ?b)[unat i := ?blk]"
    "so_area (so_written (unat i) bytes info ?b) = take ?off (so_area ?b) @ bytes @ mi_SerializeTo_string info @
       drop (?off + (length bytes + mi_kSize)) (so_area ?b)"
    "so_state (sw_mem ?w k) = ms_IncreaseWroteNum (so_state ?b)"
    using mi_string_length [OF assms(5)] by (simp_all add: so_written_def Let_def B [symmetric])
  have len: "unat (of_nat (length bytes) :: u64) = length bytes" "unat (of_nat mi_kSize :: u64) = mi_kSize"
    using assms(6) unat_lt_u64 [of "sc_block_buf_size (se_conf r)"]
    by (simp_all add: unat_of_nat take_bit_nat_eq_self mi_kSize_def ID_SIZE_def)
  have maps: "se_maps k ?w r" "\<not> ms_need_remap (so_state (sw_mem ?w k))"
    using assms(1,4) by (simp_all add: se_maps_def so_written_def Let_def ms_IncreaseWroteNum_def)
  have idx: "i < sc_block_num (se_conf r)"
    using assms(3) se_maps_block_num [OF assms(1,2)] by (simp add: word_less_nat_alt)
  have addr: "se_buf_addrs r i = Some ?off"
    using assms(1) idx by (simp add: se_maps_def buf_addrs_def)
  have acq: "se_AcquireBlockToRead api i (r, ?w) =
    Some (Some \<lparr>wb_index = i, wb_block = Some k, wb_buf = Some ?off\<rparr>,
      r, sw_upd k (so_upd_block (unat i) (\<lambda>_. ?blk\<lparr>bl_lock_num := 1\<rparr>)) ?w)"
    using se_ensure_mapped [OF maps] idx assms(1,3) addr
    by (simp add: se_AcquireBlockToRead_def not_le mem(1) bl_TryLockForRead_def se_maps_def)
  have rel: "se_ReleaseReadBlock \<lparr>wb_index = i, wb_block = Some k, wb_buf = Some ?off\<rparr>
      (r, sw_upd k (so_upd_block (unat i) (\<lambda>_. ?blk\<lparr>bl_lock_num := 1\<rparr>)) ?w) = Some (r, ?w)"
    using idx assms(1,3)
    by (simp add: se_ReleaseReadBlock_def not_le se_maps_def sw_upd_comp)
      (rule sw_upd_cong, rule shm_obj.equality, simp_all add: bl_ReleaseReadLock_def)
  have split: "take (length bytes) (drop ?off (so_area (so_written (unat i) bytes info ?b))) = bytes"
    "drop (?off + length bytes) (so_area (so_written (unat i) bytes info ?b)) =
      mi_SerializeTo_string info @ drop (?off + (length bytes + mi_kSize)) (so_area ?b)"
    "?off + length bytes + mi_kSize \<le> length (so_area (so_written (unat i) bytes info ?b))"
    using room mi_string_length [OF assms(5)] by (simp_all add: mem(2) mn)
  obtain info' where info': "mi_DeserializeFrom_string hash (mi_SerializeTo_string info) mi_default = (True, info')"
    using mi_roundtrip [OF assms(5)] by blast
  have des: "mi_DeserializeFrom hash (Some (mi_SerializeTo_string info @ xs)) mi_kSize mi_default = (True, info')" for xs
    using info' assms(5) by (simp add: mi_codec)
  show ?thesis
    using info' assms(3) by (intro exI [of _ info'])
      (simp add: sd_ReadMessage_def acq rel [simplified] split des len Let_def not_less)
qed

lemma Transmit_fills:
  assumes "tx_enabled tx" and "tx_segment tx = Some s0"
    and "se_AcquireBlockToWrite api (of_nat (length bytes)) (s0, w0) =
      Some (Some \<lparr>wb_index = i, wb_block = Some k, wb_buf = Some (unat i * unat (sc_block_buf_size (se_conf s)))\<rparr>,
        s, sw_upd k (so_claimed (unat i)) w)"
    and "se_maps k w s" and "so_ok (sw_mem w k)" and "unat i < length (so_blocks (sw_mem w k))"
    and "ser m = Some bytes" and "byte_size m = length bytes" and "mi_ok info"
    and "length bytes \<le> unat (sc_ceiling_msg_size (se_conf s))"
  shows "tx_Transmit api notify byte_size ser m info (tx, w0, n) =
      (case notify (ri_new (tx_host_id tx) i (tx_channel_id tx)) n of (b, n') \<Rightarrow>
        Some (b, tx\<lparr>tx_segment := Some s\<rparr>, sw_upd k (so_written (unat i) bytes info) w, n'))"
proof -
  let ?B = "unat (sc_block_buf_size (se_conf s))"
  let ?wb = "\<lparr>wb_index = i, wb_block = Some k, wb_buf = Some (unat i * ?B)\<rparr>"
  have B: "?B = unat (sc_block_buf_size (sc_Update (ms_ceiling_msg_size (so_state (sw_mem w k)))))"
    and seg: "se_blocks s = Some k"
    using assms(4) by (simp_all add: se_maps_def)
  have room: "length bytes + mi_kSize \<le> ?B"
    using assms(4,10) block_buf_unat by (simp add: se_maps_def mi_kSize_def ID_SIZE_def)
  obtain ok w1 where fill: "tx_fill (length bytes) (Some bytes) info ?wb (sw_upd k (so_claimed (unat i)) w) = Some (ok, w1)"
    and w1: "ok" "sw_upd k (so_upd_block (unat i) bl_ReleaseWriteLock) w1 = sw_upd k (so_written (unat i) bytes info) w"
    using tx_fill_writes [OF assms(5,6,9) B room] by (auto simp: Option.bind_eq_Some_conv)
  have bl1: "length (so_blocks (sw_mem w1 k)) = length (so_blocks (sw_mem w k))"
    using arg_cong [OF w1(2), of "\<lambda>w. length (so_blocks (sw_mem w k))"] by simp
  have rel: "se_ReleaseWrittenBlock ?wb (s, w1) = Some (s, sw_upd k (so_written (unat i) bytes info) w)"
    using assms(6) se_maps_block_num [OF assms(4,5)] seg w1(2)
    by (simp add: se_ReleaseWrittenBlock_def word_le_nat_alt bl1)
  show ?thesis
    using assms(1,2) by (simp add: tx_Transmit_def assms(3,7,8) fill w1(1) rel split: prod.splits)
qed

text \<open>C24: A message sent through shared memory arrives: when transmitter and reader map the same
  segment, some block is free, and the message fits its class, \<open>Transmit\<close> claims a free block and
  tells the notifier its index, and \<open>ReadMessage\<close> of that index hands over exactly the bytes of
  the message and a message info that equals the one sent, with the sender's hash; every lock is
  released again.\<close>

theorem shm_message_arrives:
  assumes "tx_enabled tx" and "tx_segment tx = Some s" and "se_maps k w s" and "se_maps k w r"
    and "so_ok (sw_mem w k)" and "\<not> ms_need_remap (so_state (sw_mem w k))"
    and "j < length (so_blocks (sw_mem w k))" and "bl_lock_num (so_blocks (sw_mem w k) ! j) = 0"
    and "ser m = Some bytes" and "byte_size m = length bytes"
    and "length bytes \<le> unat (sc_ceiling_msg_size (se_conf s))"
    and "mi_ok info" and "id_ok hash (mi_sender_id info)"
  shows "\<exists>i w' info'. unat i < length (so_blocks (sw_mem w k)) \<and> bl_free (so_blocks (sw_mem w k)) (unat i) \<and>
    tx_Transmit api notify byte_size ser m info (tx, w, n) =
      (case notify (ri_new (tx_host_id tx) i (tx_channel_id tx)) n of (b, n') \<Rightarrow> Some (b, tx, w', n')) \<and>
    sd_ReadMessage api hash i (r, w') = Some (Some (bytes, info'), r, w') \<and>
    mi_eq info info' \<and> mi_sender_id info' = mi_sender_id info \<and>
    map bl_lock_num (so_blocks (sw_mem w' k)) = map bl_lock_num (so_blocks (sw_mem w k))"
proof -
  let ?b = "sw_mem w k" and ?B = "unat (sc_block_buf_size (se_conf s))"
  have len: "of_nat (length bytes) \<le> sc_ceiling_msg_size (se_conf s)"
    using assms(11) unat_lt_u64 [of "sc_ceiling_msg_size (se_conf s)"]
    by (simp add: word_le_nat_alt unat_of_nat take_bit_nat_eq_self)
  have conf: "se_conf r = se_conf s" using assms(3,4) by (simp add: se_maps_def)
  have room: "length bytes + mi_kSize \<le> ?B"
    using assms(3,11) block_buf_unat by (simp add: se_maps_def mi_kSize_def ID_SIZE_def)
  obtain i where i: "unat i < length (so_blocks ?b)" "bl_free (so_blocks ?b) (unat i)"
    "se_AcquireBlockToWrite api (of_nat (length bytes)) (s, w) =
      Some (Some \<lparr>wb_index = i, wb_block = Some k, wb_buf = Some (unat i * ?B)\<rparr>, s, sw_upd k (so_claimed (unat i)) w)"
    using AcquireBlockToWrite_mapped [OF assms(3,5,6) len assms(7)] assms(8) by (auto simp: bl_free_def)
  have tx: "tx\<lparr>tx_segment := Some s\<rparr> = tx" using assms(2) by (cases tx) simp
  obtain info' where rd: "mi_DeserializeFrom_string hash (mi_SerializeTo_string info) mi_default = (True, info')"
    "sd_ReadMessage api hash i (r, sw_upd k (so_written (unat i) bytes info) w) =
      Some (Some (bytes, info'), r, sw_upd k (so_written (unat i) bytes info) w)"
    using sd_ReadMessage_written [OF assms(4,5) i(1) assms(6,12)] room conf by metis
  show ?thesis
    using i(1,2) rd(2) mi_info_eq [OF assms(12,13) rd(1)]
      Transmit_fills [where ser = ser and m = m and byte_size = byte_size, OF assms(1,2) i(3) assms(3,5) i(1) assms(9,10,12,11)]
    by (intro exI [of _ i] exI [of _ "sw_upd k (so_written (unat i) bytes info) w"] exI [of _ info'])
      (auto simp: tx map_update bl_free_def list_update_same_conv)
qed

text \<open>A concrete shared memory system: the ids by key, and the next id.\<close>

definition demo_api :: "((u32 \<Rightarrow> nat option) \<times> nat) shm_api" where
  "demo_api = \<lparr>
     shm_create = (\<lambda>key size (ids, n). if ids key = None then (Inr n, ids(key \<mapsto> n), Suc n) else (Inl EEXIST, ids, n)),
     shm_get = (\<lambda>key (ids, n). ids key),
     shm_at = (\<lambda>i os. (True, os)),
     shm_dt = (\<lambda>i os. os),
     shm_rmid = (\<lambda>i (ids, n). (True, (\<lambda>key. if ids key = Some i then None else ids key), n))\<rparr>"

definition demo_os :: "(u32 \<Rightarrow> nat option) \<times> nat" where
  "demo_os = ([7 \<mapsto> 0], 1)"

definition demo_world :: "((u32 \<Rightarrow> nat option) \<times> nat) shm_world" where
  "demo_world = snd (se_attach 0 (se_new 7 WRITE_ONLY, \<lparr>sw_os = demo_os, sw_mem = (\<lambda>_. so_new sc_default)\<rparr>))"

definition demo_segment :: "rw_mode \<Rightarrow> segment" where
  "demo_segment mode = (let c = sc_Update (ms_ceiling_msg_size (so_state (so_new sc_default))) in
     \<lparr>se_init = True, se_id = 7, se_mode = mode, se_conf = c, se_state = Some 0, se_blocks = Some 0,
      se_managed = Mapped 0, se_buf_addrs = buf_addrs c\<rparr>)"

definition demo_tx :: shm_transmitter where
  "demo_tx = \<lparr>tx_enabled = True, tx_segment = Some (demo_segment WRITE_ONLY), tx_channel_id = 7, tx_host_id = 3\<rparr>"

definition demo_info :: message_info where
  "demo_info = mi_new (id_new (of_nat \<circ> un_le) True (le_nat 16 77)) 5"

lemma demo_maps: "se_maps 0 demo_world (demo_segment mode)"
  by (simp add: se_maps_def demo_world_def demo_segment_def se_attach_def Let_def ms_IncreaseReferenceCounts_def)

lemma demo_mem: "sw_mem demo_world 0 = so_upd_state ms_IncreaseReferenceCounts (so_new sc_default)"
  by (simp add: demo_world_def se_attach_def Let_def)

lemma so_ok_state:
  "ms_ceiling_msg_size (f (so_state b)) = ms_ceiling_msg_size (so_state b) \<Longrightarrow> so_ok (so_upd_state f b) = so_ok b"
  by (simp add: so_ok_def)

lemma sc_default_classes: "sc_default = sc_Update MESSAGE_SIZE_16K"
  by (simp add: sc_default_def)

lemma demo_ok: "so_ok (sw_mem demo_world 0)"
  by (simp add: demo_mem so_ok_state ms_IncreaseReferenceCounts_def sc_default_def so_new_ok)

lemma sc_default_num: "unat (sc_block_num sc_default) = 512" "unat (sc_ceiling_msg_size sc_default) = 16384"
  by (simp_all add: sc_default_def sc_Update_def Let_def GetCeilingMessageSize_def GetBlockNum_def message_sizes block_nums)

lemma so_new_sel:
  "so_blocks (so_new (sc_Update n)) = replicate (unat (sc_block_num (sc_Update n))) bl_new"
  "so_state (so_new (sc_Update n)) = ms_new (sc_ceiling_msg_size (sc_Update n))"
  by (simp_all add: so_new_def Let_def ms_new_def sc_Update_idem)

lemma demo_facts:
  "length (so_blocks (sw_mem demo_world 0)) = 512" "bl_lock_num (so_blocks (sw_mem demo_world 0) ! 0) = 0"
  "\<not> ms_need_remap (so_state (sw_mem demo_world 0))" "se_conf (demo_segment mode) = sc_default"
  using sc_default_num(1)
  by (simp_all add: demo_mem sc_default_def so_new_sel bl_new_def ms_IncreaseReferenceCounts_def ms_new_def
    demo_segment_def sc_Update_idem Let_def)

lemma demo_info_ok: "mi_ok demo_info" "id_ok (of_nat \<circ> un_le) (mi_sender_id demo_info)"
  using id_new_ok [of "le_nat 16 77" "of_nat \<circ> un_le"]
  by (simp_all add: demo_info_def mi_new_def mi_ok_def id_ok_def id_none_def id_new_def ID_SIZE_def Let_def)

lemma shm_message_arrives_witness:
  "\<exists>i w' info'. tx_Transmit demo_api (\<lambda>r n. (True, Suc n)) length Some [1, 2, 3] demo_info (demo_tx, demo_world, 0 :: nat)
      = Some (True, demo_tx, w', 1)
    \<and> sd_ReadMessage demo_api (of_nat \<circ> un_le) i (demo_segment READ_ONLY, w')
      = Some (Some ([1, 2, 3], info'), demo_segment READ_ONLY, w')
    \<and> mi_eq demo_info info'"
  using shm_message_arrives [where tx = demo_tx and s = "demo_segment WRITE_ONLY" and k = 0 and w = demo_world
      and r = "demo_segment READ_ONLY" and j = 0 and ser = Some and byte_size = length and m = "[1, 2, 3]"
      and bytes = "[1, 2, 3]" and info = demo_info and hash = "of_nat \<circ> un_le" and api = demo_api
      and notify = "\<lambda>r n. (True, Suc n)" and n = "0 :: nat",
      OF _ _ demo_maps demo_maps demo_ok demo_facts(3) _ demo_facts(2) _ _ _ demo_info_ok]
  by (auto simp: demo_tx_def demo_facts sc_default_num)

section \<open>Growing the segment\<close>

text \<open>The calls of \<open>Recreate\<close> succeed and give new memory \<open>k'\<close>; the calls of \<open>Remap\<close> find it.\<close>

definition sys_recreates :: "'o shm_api \<Rightarrow> u32 \<Rightarrow> u64 \<Rightarrow> nat \<Rightarrow> nat \<Rightarrow> 'o \<Rightarrow> 'o \<Rightarrow> bool" where
  "sys_recreates api key sz k k' os os' \<longleftrightarrow>
     (let o1 = shm_dt api k os;
          o2 = (case shm_get api key o1 of None \<Rightarrow> o1 | Some j \<Rightarrow> snd (shm_rmid api j o1));
          (r, o3) = shm_create api key sz o2 in
      r = Inr k' \<and> shm_at api k' o3 = (True, os'))"

definition sys_remaps :: "'o shm_api \<Rightarrow> u32 \<Rightarrow> nat \<Rightarrow> nat \<Rightarrow> 'o \<Rightarrow> 'o \<Rightarrow> bool" where
  "sys_remaps api key k k' os os' \<longleftrightarrow>
     (let o1 = shm_dt api k os in shm_get api key o1 = Some k' \<and> shm_at api k' o1 = (True, os'))"

text \<open>What \<open>Recreate\<close> leaves: the old memory marked, the new one constructed and attached.\<close>

definition sw_grown :: "u64 \<Rightarrow> nat \<Rightarrow> nat \<Rightarrow> 'o \<Rightarrow> 'o shm_world \<Rightarrow> 'o shm_world" where
  "sw_grown n k k' os' w = \<lparr>sw_os = os', sw_mem = (sw_mem w)
     (k := so_upd_state (ms_set_need_remap True) (sw_mem w k),
      k' := so_upd_state ms_IncreaseReferenceCounts (so_new (sc_Update n)))\<rparr>"

definition se_grown :: "u64 \<Rightarrow> nat \<Rightarrow> segment \<Rightarrow> segment" where
  "se_grown n k' s = s\<lparr>se_managed := Mapped k', se_state := Some k', se_conf := sc_Update n,
     se_blocks := Some k', se_buf_addrs := buf_addrs (sc_Update n), se_init := True\<rparr>"

lemma se_Recreate_grows:
  assumes "se_maps k w s" and "sys_recreates api (se_id s) (sc_managed_shm_size (sc_Update n)) k k' (sw_os w) os'"
    and "k' \<noteq> k"
  shows "se_Recreate api (s\<lparr>se_conf := sc_Update n\<rparr>, w) = Some (True, se_grown n k' s, sw_grown n k k' os' w)"
proof -
  have two: "(2 :: nat) = Suc 1" by simp
  have st: "se_state s = Some k" "se_managed s = Mapped k" using assms(1) by (simp_all add: se_maps_def)
  have c: "sc_Update (ms_ceiling_msg_size (so_state (so_new (sc_Update n)))) = sc_Update n"
    by (simp add: so_new_sel ms_new_def sc_Update_idem)
  show ?thesis
    using assms(2,3)
    by (simp add: se_Recreate_def st se_Reset_def se_Remove_def se_OpenOrCreate_def two sys_recreates_def Let_def
      se_attach_def c se_grown_def sw_grown_def split: prod.splits option.splits)
      (auto simp: se_attach_def Let_def c sw_upd_def fun_eq_iff intro!: segment.equality shm_world.equality)
qed

lemma se_grown_maps:
  "se_maps k' (sw_grown n k k' os' w) (se_grown n k' s)"
  "so_ok (sw_mem (sw_grown n k k' os' w) k')"
  "\<not> ms_need_remap (so_state (sw_mem (sw_grown n k k' os' w) k'))"
  by (simp_all add: se_maps_def sw_grown_def se_grown_def so_new_sel ms_new_def sc_Update_idem so_ok_state
    so_new_ok ms_IncreaseReferenceCounts_def)

text \<open>The reader of memory that is marked maps the new memory.\<close>

lemma se_Remap_follows:
  assumes "se_maps k w r" and "sys_remaps api (se_id r) k k' (sw_os w) os'"
  shows "\<exists>r' w'. se_Remap api (r, w) = (True, r', w') \<and> se_maps k' w' r' \<and>
    w' = sw_upd k' (so_upd_state ms_IncreaseReferenceCounts) (w\<lparr>sw_os := os'\<rparr>)"
  using assms
  by (auto simp: se_Remap_def se_maps_def se_Reset_def se_OpenOnly_def sys_remaps_def Let_def se_attach_def
    ms_IncreaseReferenceCounts_def)

text \<open>A reader checks the index of a block against the segment it had mapped before, and only
  then maps the new segment: after the writer has moved to a segment with fewer blocks, an index
  from the old one that is past the new blocks makes the reader access a block that does not
  exist.\<close>

theorem stale_index_out_of_bounds:
  assumes "se_maps k w r" and "ms_need_remap (so_state (sw_mem w k))"
    and "sys_remaps api (se_id r) k k' (sw_os w) os'" and "so_ok (sw_mem w k')"
    and "index < sc_block_num (se_conf r)" and "length (so_blocks (sw_mem w k')) \<le> unat index"
  shows "se_AcquireBlockToRead api index (r, w) = None \<and> sd_ReadMessage api hash index (r, w) = None"
proof -
  obtain r' w' where m: "se_Remap api (r, w) = (True, r', w')" "se_maps k' w' r'"
    "w' = sw_upd k' (so_upd_state ms_IncreaseReferenceCounts) (w\<lparr>sw_os := os'\<rparr>)"
    using se_Remap_follows [OF assms(1,3)] by blast
  have "se_AcquireBlockToRead api index (r, w) = None"
    using assms(1,2,5,6) m
    by (simp add: se_AcquireBlockToRead_def se_ensure_init_def se_ensure_map_def se_maps_def not_le)
  then show ?thesis by (simp add: sd_ReadMessage_def)
qed

lemma AcquireBlockToWrite_grows:
  assumes "se_maps k w s" and "\<not> ms_need_remap (so_state (sw_mem w k))"
    and "sc_ceiling_msg_size (se_conf s) < n" and "k' \<noteq> k"
    and "sys_recreates api (se_id s) (sc_managed_shm_size (sc_Update n)) k k' (sw_os w) os'"
  shows "se_AcquireBlockToWrite api n (s, w) =
    Some (Some \<lparr>wb_index = 0, wb_block = Some k', wb_buf = Some (unat (0 :: u32) * unat (sc_block_buf_size (se_conf (se_grown n k' s))))\<rparr>,
      se_grown n k' s, sw_upd k' (so_claimed (unat (0 :: u32))) (sw_grown n k k' os' w))"
    and "0 < length (so_blocks (sw_mem (sw_grown n k k' os' w) k'))"
proof -
  let ?s = "se_grown n k' s" and ?w = "sw_grown n k k' os' w"
  note g = se_grown_maps [where k' = k' and n = n and k = k and os' = os' and w = w]
  obtain p where p: "unat (sc_block_num (sc_Update n)) = 2 ^ p" using block_num_pow2 by blast
  show pos: "0 < length (so_blocks (sw_mem ?w k'))"
    by (simp add: sw_grown_def so_new_sel p)
  have free: "bl_free (so_blocks (sw_mem ?w k')) 0"
    using pos by (simp add: sw_grown_def so_new_sel bl_free_def bl_new_def)
  have "next_block (sc_block_num (se_conf ?s)) (so_blocks (sw_mem ?w k')) 0 = Some 0"
    using pos free se_maps_block_num [OF g(1,2)]
    by (subst next_block.simps) (auto simp: Let_def TryLockForWrite_free word_le_nat_alt)
  moreover have "ms_wrote_num (so_state (sw_mem ?w k')) = 0"
    by (simp add: sw_grown_def so_new_sel ms_new_def ms_IncreaseReferenceCounts_def)
  moreover have "sw_upd k' (so_upd_state ms_IncreaseWroteNum) (sw_upd k' (so_upd_block 0 (\<lambda>b. snd (bl_TryLockForWrite b))) ?w)
    = sw_upd k' (so_claimed 0) ?w"
    using free by (simp add: sw_upd_def so_claimed_def so_upd_block_def so_upd_state_def bl_free_def bl_TryLockForWrite_def)
  ultimately have "se_GetNextWritableBlockIndex (?s, ?w) = Some (0, ?s, sw_upd k' (so_claimed 0) ?w)"
    using g(1) by (simp add: se_GetNextWritableBlockIndex_def se_maps_def)
  moreover have "se_buf_addrs ?s 0 = Some 0" "se_blocks ?s = Some k'"
    using p by (simp_all add: se_grown_def buf_addrs_def word_less_nat_alt)
  ultimately show "se_AcquireBlockToWrite api n (s, w) =
    Some (Some \<lparr>wb_index = 0, wb_block = Some k', wb_buf = Some (unat (0 :: u32) * unat (sc_block_buf_size (se_conf ?s)))\<rparr>,
      ?s, sw_upd k' (so_claimed (unat (0 :: u32))) ?w)"
    using assms(3) by (simp add: se_AcquireBlockToWrite_def se_ensure_mapped [OF assms(1,2)]
      se_Recreate_grows [OF assms(1,5,4)])
qed

text \<open>Reading through a mapping that has to be renewed first.\<close>

lemma ReadMessage_remaps:
  assumes "se_maps k w r" and "ms_need_remap (so_state (sw_mem w k))" and "se_Remap api (r, w) = (True, r', w')"
    and "se_maps k' w' r'" and "\<not> ms_need_remap (so_state (sw_mem w' k'))"
    and "index < sc_block_num (se_conf r)" and "index < sc_block_num (se_conf r')"
  shows "sd_ReadMessage api hash index (r, w) = sd_ReadMessage api hash index (r', w')"
proof -
  have "se_AcquireBlockToRead api index (r, w) = se_AcquireBlockToRead api index (r', w')"
    using assms(1-5) assms(6,7) [unfolded not_le [symmetric]]
    by (simp add: se_AcquireBlockToRead_def se_ensure_mapped [OF assms(4,5)])
      (simp add: se_ensure_init_def se_ensure_map_def se_maps_def)
  then show ?thesis by (simp add: sd_ReadMessage_def)
qed

text \<open>C36: A message of at most 32 MB that is larger than the segment's class still arrives at a reader that has
  the old segment mapped, if the operating system gives the new one: the transmitter marks the old segment,
  creates one of the message's class and writes the message to it, and the reader, when it is told the index,
  maps the new segment and reads exactly what was sent. The conditions: both have the old segment mapped and the
  transmitter is enabled; the old segment has the parts of its class and is not marked yet; the calls with
  which the transmitter recreates the segment and the reader maps it again succeed (\<open>sys_recreates\<close>,
  \<open>sys_remaps\<close>); serializing succeeds with as many bytes as announced; and the ids are of their fixed length. Beyond
  32 MB no class is large enough and the message is written past its block (theorem
  \<open>oversized_message_overflows\<close> of \<open>Shm_Segment\<close>).\<close>

theorem shm_growth_reaches_reader:
  assumes "tx_enabled tx" and "tx_segment tx = Some s" and "se_maps k w s" and "se_maps k w r"
    and "so_ok (sw_mem w k)" and "\<not> ms_need_remap (so_state (sw_mem w k))"
    and "ser m = Some bytes" and "byte_size m = length bytes"
    and "unat (sc_ceiling_msg_size (se_conf s)) < length bytes" and "length bytes \<le> unat MESSAGE_SIZE_MORE"
    and "mi_ok info" and "id_ok hash (mi_sender_id info)" and "k' \<noteq> k"
    and "sys_recreates api (se_id s) (sc_managed_shm_size (sc_Update (of_nat (length bytes)))) k k' (sw_os w) os1"
    and "sys_remaps api (se_id r) k k' os1 os2"
  shows "\<exists>tx' w' r' w'' info'.
    tx_Transmit api notify byte_size ser m info (tx, w, n) =
      (case notify (ri_new (tx_host_id tx) 0 (tx_channel_id tx)) n of (b, n') \<Rightarrow> Some (b, tx', w', n')) \<and>
    sd_ReadMessage api hash 0 (r, w') = Some (Some (bytes, info'), r', w'') \<and>
    mi_eq info info' \<and> se_maps k' w'' r'"
proof -
  let ?n = "of_nat (length bytes) :: u64"
  let ?w1 = "sw_grown ?n k k' os1 w" and ?s1 = "se_grown ?n k' s"
  let ?w2 = "sw_upd k' (so_written 0 bytes info) ?w1"
  let ?w3 = "sw_upd k' (so_upd_state ms_IncreaseReferenceCounts) (?w1\<lparr>sw_os := os2\<rparr>)"
  note g = se_grown_maps [where k' = k' and n = "of_nat (length bytes)" and k = k and os' = os1 and w = w]
  have len: "unat ?n = length bytes"
    using assms(10) unat_lt_u64 [of MESSAGE_SIZE_MORE] by (simp add: unat_of_nat take_bit_nat_eq_self)
  have big: "sc_ceiling_msg_size (se_conf s) < ?n" using assms(9) len by (simp add: word_less_nat_alt)
  note acq = AcquireBlockToWrite_grows [OF assms(3,6) big assms(13,14)]
  have conf1: "se_conf ?s1 = sc_Update ?n" by (simp add: se_grown_def)
  have fits: "length bytes \<le> unat (sc_ceiling_msg_size (sc_Update ?n))"
    using ceiling_ge [of ?n] assms(10) len by (simp add: sc_Update_def Let_def word_le_nat_alt)
  have tx: "tx_Transmit api notify byte_size ser m info (tx, w, n) =
      (case notify (ri_new (tx_host_id tx) 0 (tx_channel_id tx)) n of (b, n') \<Rightarrow>
        Some (b, tx\<lparr>tx_segment := Some ?s1\<rparr>, ?w2, n'))"
    using Transmit_fills [where ser = ser and m = m and byte_size = byte_size, OF assms(1,2) acq(1) g(1,2) _ assms(7,8,11)] acq(2) fits conf1 by simp
  have r: "se_maps k ?w2 r" "ms_need_remap (so_state (sw_mem ?w2 k))" "sw_os ?w2 = os1"
    using assms(4,13) by (simp_all add: se_maps_def sw_grown_def ms_set_need_remap_def)
  have w3: "sw_upd k' (so_upd_state ms_IncreaseReferenceCounts) (?w2\<lparr>sw_os := os2\<rparr>) =
    sw_upd k' (so_written 0 bytes info) ?w3"
    by (rule shm_world.equality)
      (auto simp: sw_upd_def fun_eq_iff ms_IncreaseReferenceCounts_def ms_IncreaseWroteNum_def so_written_def
        so_upd_state_def Let_def)
  obtain r' where r': "se_Remap api (r, ?w2) = (True, r', sw_upd k' (so_written 0 bytes info) ?w3)"
    "se_maps k' (sw_upd k' (so_written 0 bytes info) ?w3) r'"
    using se_Remap_follows [OF r(1), of api k' os2] assms(15) r(3) unfolding w3 by auto
  have m3: "se_maps k' ?w3 r'" "so_ok (sw_mem ?w3 k')" "\<not> ms_need_remap (so_state (sw_mem ?w3 k'))"
    "0 < length (so_blocks (sw_mem ?w3 k'))"
    using r'(2) g(2,3) acq(2)
    by (simp_all add: se_maps_def ms_IncreaseWroteNum_def so_ok_state ms_IncreaseReferenceCounts_def)
  have conf': "se_conf r' = sc_Update ?n"
    using m3(1) by (simp add: se_maps_def sw_grown_def so_new_sel ms_new_def ms_IncreaseReferenceCounts_def sc_Update_idem)
  have idx: "0 < sc_block_num (se_conf r)" "0 < sc_block_num (se_conf r')"
    using block_num_pow2 assms(4) conf' by (auto simp: se_maps_def word_less_nat_alt) (metis zero_less_numeral zero_less_power)+
  obtain info' where rd: "mi_DeserializeFrom_string hash (mi_SerializeTo_string info) mi_default = (True, info')"
    "sd_ReadMessage api hash 0 (r', sw_upd k' (so_written 0 bytes info) ?w3) =
      Some (Some (bytes, info'), r', sw_upd k' (so_written 0 bytes info) ?w3)"
    using sd_ReadMessage_written [OF m3(1,2), of 0 info bytes hash api] m3(3,4) assms(11) fits conf' block_buf_unat
    by (auto simp: mi_kSize_def ID_SIZE_def)
  have "sd_ReadMessage api hash 0 (r, ?w2) = sd_ReadMessage api hash 0 (r', sw_upd k' (so_written 0 bytes info) ?w3)"
    by (rule ReadMessage_remaps [OF r(1,2) r'(1,2) _ idx]) (use m3(3) in \<open>simp add: ms_IncreaseWroteNum_def\<close>)
  then show ?thesis
    using tx rd(2) mi_info_eq [OF assms(11,12) rd(1)] r'(2)
    by (intro exI [of _ "tx\<lparr>tx_segment := Some ?s1\<rparr>"] exI [of _ ?w2] exI [of _ r'] exI [of _ info']
      exI [of _ "sw_upd k' (so_written 0 bytes info) ?w3"]) simp
qed

definition demo_grown :: "((u32 \<Rightarrow> nat option) \<times> nat) shm_world" where
  "demo_grown = sw_grown 20000000 0 1 ([7 \<mapsto> 1], 2) demo_world"

lemma stale_index_out_of_bounds_witness:
  "se_AcquireBlockToRead demo_api 100 (demo_segment READ_ONLY, demo_grown) = None
    \<and> sd_ReadMessage demo_api (of_nat \<circ> un_le) 100 (demo_segment READ_ONLY, demo_grown) = None"
proof (rule stale_index_out_of_bounds [where k = 0 and k' = 1 and os' = "([7 \<mapsto> 1], 2)"])
  show "se_maps 0 demo_grown (demo_segment READ_ONLY)"
    using demo_maps by (simp add: se_maps_def demo_grown_def sw_grown_def ms_set_need_remap_def)
  show "ms_need_remap (so_state (sw_mem demo_grown 0))"
    by (simp add: demo_grown_def sw_grown_def ms_set_need_remap_def)
  show "sys_remaps demo_api (se_id (demo_segment READ_ONLY)) 0 1 (sw_os demo_grown) ([7 \<mapsto> 1], 2)"
    by (simp add: sys_remaps_def demo_api_def demo_grown_def sw_grown_def demo_segment_def Let_def)
  show "so_ok (sw_mem demo_grown 1)" unfolding demo_grown_def by (rule se_grown_maps)
  show "100 < sc_block_num (se_conf (demo_segment READ_ONLY))"
    using sc_default_num(1) by (simp add: demo_facts word_less_nat_alt)
  have "unat (sc_block_num (sc_Update 20000000)) = 8"
    by (simp add: sc_Update_def Let_def GetCeilingMessageSize_def GetBlockNum_def message_sizes block_nums)
  then show "length (so_blocks (sw_mem demo_grown 1)) \<le> unat (100 :: u32)"
    by (simp add: demo_grown_def sw_grown_def so_new_sel)
qed

lemma shm_growth_reaches_reader_witness:
  "\<exists>tx' w' r' w'' info'.
    tx_Transmit demo_api (\<lambda>r n. (True, Suc n)) length Some (replicate 20000 1) demo_info (demo_tx, demo_world, 0 :: nat)
      = Some (True, tx', w', 1)
    \<and> sd_ReadMessage demo_api (of_nat \<circ> un_le) 0 (demo_segment READ_ONLY, w') = Some (Some (replicate 20000 1, info'), r', w'')
    \<and> mi_eq demo_info info' \<and> se_maps 1 w'' r'"
proof -
  let ?sz = "sc_managed_shm_size (sc_Update (of_nat (length (replicate 20000 (1 :: u8)))))"
  have re: "sys_recreates demo_api (se_id (demo_segment WRITE_ONLY)) ?sz 0 1 (sw_os demo_world) ([7 \<mapsto> 1], 2)"
    by (simp add: sys_recreates_def demo_api_def demo_segment_def demo_world_def se_attach_def demo_os_def Let_def)
      (auto simp: fun_eq_iff)
  have rm: "sys_remaps demo_api (se_id (demo_segment READ_ONLY)) 0 1 ([7 \<mapsto> 1], 2) ([7 \<mapsto> 1], 2)"
    by (simp add: sys_remaps_def demo_api_def demo_segment_def Let_def)
  have big: "unat (sc_ceiling_msg_size (se_conf (demo_segment WRITE_ONLY))) < length (replicate 20000 (1 :: u8))"
    "length (replicate 20000 (1 :: u8)) \<le> unat MESSAGE_SIZE_MORE"
    by (simp_all add: demo_facts sc_default_num MESSAGE_SIZE_MORE_def)
  have tx: "tx_enabled demo_tx" "tx_segment demo_tx = Some (demo_segment WRITE_ONLY)" by (simp_all add: demo_tx_def)
  show ?thesis
    using shm_growth_reaches_reader [where ser = Some and byte_size = length and m = "replicate 20000 1"
        and notify = "\<lambda>r n. (True, Suc n)" and n = "0 :: nat",
        OF tx demo_maps demo_maps demo_ok demo_facts(3) refl refl big demo_info_ok _ re rm]
    by simp
qed

end
