(* ===== verification/Croutine.thy ===== *)
theory Croutine
  imports Data_Flow
begin

text \<open>
  Coroutines (cyber/croutine/croutine.h, croutine.cc) and the routine of a reader
  (croutine/routine_factory.h). The first part has the operations, with the clock as an argument;
  the routine's code and the swap of stacks (theory Context_Switch) are not in them. The second part is a step relation:
  processors that look for work (the loop of scheduler/processor.cc over one routine), the loop of
  the reader's routine, and dispatchers that store a message and then notify. One step is one
  access to the routine's lock, its update flag, its state or the buffer.
\<close>

section \<open>CRoutine\<close>

datatype routine_state = READY | FINISHED | SLEEP | IO_WAIT | DATA_WAIT

text \<open>\<open>cr_lock\<close> and \<open>cr_updated\<close> are the atomic flags, true when set. An update is pending when
  \<open>cr_updated\<close> is clear.\<close>

record croutine =
  cr_id :: u64
  cr_name :: string
  cr_state :: routine_state
  cr_lock :: bool
  cr_updated :: bool
  cr_force_stop :: bool
  cr_processor_id :: i32
  cr_priority :: u32
  cr_group_name :: string
  cr_wake_time :: nat

definition cr_new :: "nat \<Rightarrow> croutine" where
  "cr_new now = \<lparr>cr_id = 0, cr_name = [], cr_state = READY, cr_lock = False, cr_updated = True,
     cr_force_stop = False, cr_processor_id = - 1, cr_priority = 0, cr_group_name = [], cr_wake_time = now\<rparr>"

definition cr_Acquire :: "croutine \<Rightarrow> bool \<times> croutine" where
  "cr_Acquire c = (\<not> cr_lock c, c\<lparr>cr_lock := True\<rparr>)"

definition cr_Release :: "croutine \<Rightarrow> croutine" where "cr_Release c = c\<lparr>cr_lock := False\<rparr>"
definition cr_SetUpdateFlag :: "croutine \<Rightarrow> croutine" where "cr_SetUpdateFlag c = c\<lparr>cr_updated := False\<rparr>"
definition cr_Stop :: "croutine \<Rightarrow> croutine" where "cr_Stop c = c\<lparr>cr_force_stop := True\<rparr>"
definition cr_Wake :: "croutine \<Rightarrow> croutine" where "cr_Wake c = c\<lparr>cr_state := READY\<rparr>"
definition cr_Yield_state :: "routine_state \<Rightarrow> croutine \<Rightarrow> croutine" where "cr_Yield_state st c = c\<lparr>cr_state := st\<rparr>"
definition cr_HangUp :: "croutine \<Rightarrow> croutine" where "cr_HangUp = cr_Yield_state DATA_WAIT"

definition cr_Sleep :: "nat \<Rightarrow> nat \<Rightarrow> croutine \<Rightarrow> croutine" where
  "cr_Sleep now d c = cr_Yield_state SLEEP (c\<lparr>cr_wake_time := now + d\<rparr>)"

definition cr_waits :: "croutine \<Rightarrow> bool" where
  "cr_waits c \<longleftrightarrow> cr_state c = DATA_WAIT \<or> cr_state c = IO_WAIT"

definition cr_UpdateState :: "nat \<Rightarrow> croutine \<Rightarrow> routine_state \<times> croutine" where
  "cr_UpdateState now c =
     (if cr_state c = SLEEP \<and> cr_wake_time c < now then (READY, c\<lparr>cr_state := READY\<rparr>)
      else
        let c1 = c\<lparr>cr_updated := True\<rparr>;
            c2 = (if \<not> cr_updated c \<and> cr_waits c then c1\<lparr>cr_state := READY\<rparr> else c1) in
        (cr_state c2, c2))"

text \<open>\<open>Resume\<close>; \<open>body\<close> is what the routine's code does with itself until it yields.\<close>

definition cr_Resume :: "(croutine \<Rightarrow> croutine) \<Rightarrow> croutine \<Rightarrow> routine_state \<times> croutine" where
  "cr_Resume body c =
     (if cr_force_stop c then (FINISHED, c\<lparr>cr_state := FINISHED\<rparr>)
      else if cr_state c \<noteq> READY then (cr_state c, c)
      else (cr_state (body c), body c))"

text \<open>\<open>CRoutineEntry\<close>: when the routine's function returns, the routine is finished.\<close>

definition cr_Entry :: "(croutine \<Rightarrow> croutine) \<Rightarrow> croutine \<Rightarrow> croutine" where
  "cr_Entry func c = cr_Yield_state FINISHED (func c)"

lemma cr_UpdateState_sel [simp, cyber_state]:
  "cr_id (snd (cr_UpdateState now c)) = cr_id c" "cr_lock (snd (cr_UpdateState now c)) = cr_lock c"
  "cr_force_stop (snd (cr_UpdateState now c)) = cr_force_stop c"
  "cr_priority (snd (cr_UpdateState now c)) = cr_priority c"
  "cr_group_name (snd (cr_UpdateState now c)) = cr_group_name c"
  "cr_processor_id (snd (cr_UpdateState now c)) = cr_processor_id c"
  "cr_name (snd (cr_UpdateState now c)) = cr_name c"
  by (simp_all add: cr_UpdateState_def Let_def)

lemma cr_UpdateState_state: "cr_state (snd (cr_UpdateState now c)) = fst (cr_UpdateState now c)"
  by (simp add: cr_UpdateState_def Let_def)

text \<open>When \<open>UpdateState\<close> finds the routine ready.\<close>

definition cr_runnable :: "nat \<Rightarrow> croutine \<Rightarrow> bool" where
  "cr_runnable now c \<longleftrightarrow> cr_state c = READY \<or> (cr_state c = SLEEP \<and> cr_wake_time c < now) \<or>
     (cr_waits c \<and> \<not> cr_updated c)"

lemma cr_UpdateState_ready: "fst (cr_UpdateState now c) = READY \<longleftrightarrow> cr_runnable now c"
  by (auto simp: cr_UpdateState_def cr_runnable_def cr_waits_def Let_def)

lemma cr_stopped_never_runs: "cr_force_stop c \<Longrightarrow> cr_Resume body c = (FINISHED, c\<lparr>cr_state := FINISHED\<rparr>)"
  by (simp add: cr_Resume_def)

section \<open>The reader's routine\<close>

text \<open>Where a processor is: outside the routine, in \<open>NextRoutine\<close> with the routine's lock
  (\<open>PAcquired\<close>; \<open>PConsumed\<close> after it has taken a pending update), about to resume it, in the loop of
  the reader's routine, or about to release the lock.\<close>

datatype 'm cr_pc = PIdle | PAcquired | PConsumed | PReady | RSet | RFetch | RCall 'm | RYield | PRelease

text \<open>Where a dispatcher is: idle, after it has stored a message, or after it saw the routine wait.\<close>

datatype nt_pc = DIdle | DStored | DFlag

record 'm rd_sys =
  rd_cr :: croutine
  rd_buffer :: "'m cache_buffer"
  rd_index :: u64
  rd_pc :: "nat \<Rightarrow> 'm cr_pc"
  rd_nt :: "nat \<Rightarrow> nt_pc"
  rd_log :: "'m list"

definition rd_go :: "nat \<Rightarrow> 'm cr_pc \<Rightarrow> 'm rd_sys \<Rightarrow> 'm rd_sys" where
  "rd_go p pc s = s\<lparr>rd_pc := (rd_pc s)(p := pc)\<rparr>"

definition rd_nt_go :: "nat \<Rightarrow> nt_pc \<Rightarrow> 'm rd_sys \<Rightarrow> 'm rd_sys" where
  "rd_nt_go d pc s = s\<lparr>rd_nt := (rd_nt s)(d := pc)\<rparr>"

definition rd_upd :: "(croutine \<Rightarrow> croutine) \<Rightarrow> 'm rd_sys \<Rightarrow> 'm rd_sys" where
  "rd_upd f s = s\<lparr>rd_cr := f (rd_cr s)\<rparr>"

definition rd_new :: "u64 \<Rightarrow> 'm rd_sys" where
  "rd_new n = \<lparr>rd_cr = cr_new 0, rd_buffer = cb_new n, rd_index = 0, rd_pc = (\<lambda>_. PIdle),
     rd_nt = (\<lambda>_. DIdle), rd_log = []\<rparr>"

text \<open>A step of processor \<open>p\<close>.\<close>

inductive rd_pstep :: "nat \<Rightarrow> 'm rd_sys \<Rightarrow> 'm rd_sys \<Rightarrow> bool" for p where
  rd_acquire: "rd_pc s p = PIdle \<Longrightarrow> fst (cr_Acquire (rd_cr s)) \<Longrightarrow>
    rd_pstep p s (rd_go p PAcquired (rd_upd (snd \<circ> cr_Acquire) s))"
| rd_take_update: "rd_pc s p = PAcquired \<Longrightarrow> \<not> cr_updated (rd_cr s) \<Longrightarrow>
    rd_pstep p s (rd_go p PConsumed (rd_upd (\<lambda>c. c\<lparr>cr_updated := True\<rparr>) s))"
| rd_no_update: "rd_pc s p = PAcquired \<Longrightarrow> cr_updated (rd_cr s) \<Longrightarrow>
    rd_pstep p s (rd_go p (if cr_state (rd_cr s) = READY then PReady else PRelease) s)"
| rd_set_ready: "rd_pc s p = PConsumed \<Longrightarrow>
    rd_pstep p s (rd_go p (if cr_waits (rd_cr s) \<or> cr_state (rd_cr s) = READY then PReady else PRelease)
      (rd_upd (\<lambda>c. if cr_waits c then c\<lparr>cr_state := READY\<rparr> else c) s))"
| rd_resume: "rd_pc s p = PReady \<Longrightarrow> rd_pstep p s (rd_go p RSet s)"
| rd_set_wait: "rd_pc s p = RSet \<Longrightarrow> rd_pstep p s (rd_go p RFetch (rd_upd (\<lambda>c. c\<lparr>cr_state := DATA_WAIT\<rparr>) s))"
| rd_fetch: "rd_pc s p = RFetch \<Longrightarrow> dv_TryFetch (rd_index s) (rd_buffer s) = (i, Some m) \<Longrightarrow>
    rd_pstep p s (rd_go p (RCall m) (s\<lparr>rd_index := i\<rparr>))"
| rd_fetch_none: "rd_pc s p = RFetch \<Longrightarrow> dv_TryFetch (rd_index s) (rd_buffer s) = (i, None) \<Longrightarrow>
    rd_pstep p s (rd_go p RYield (s\<lparr>rd_index := i\<rparr>))"
| rd_call: "rd_pc s p = RCall m \<Longrightarrow>
    rd_pstep p s (rd_go p PRelease (rd_upd (cr_Yield_state READY) (s\<lparr>rd_log := rd_log s @ [m]\<rparr>)))"
| rd_yield: "rd_pc s p = RYield \<Longrightarrow> rd_pstep p s (rd_go p PRelease s)"
| rd_release: "rd_pc s p = PRelease \<Longrightarrow> rd_pstep p s (rd_go p PIdle (rd_upd cr_Release s))"

text \<open>A step of dispatcher \<open>d\<close>: \<open>Fill\<close>, then \<open>NotifyProcessor\<close> reads the state and sets the flag.\<close>

inductive rd_dstep :: "nat \<Rightarrow> 'm rd_sys \<Rightarrow> 'm rd_sys \<Rightarrow> bool" for d where
  rd_store: "rd_nt s d = DIdle \<Longrightarrow> rd_dstep d s (rd_nt_go d DStored (s\<lparr>rd_buffer := cb_store m (rd_buffer s)\<rparr>))"
| rd_see_wait: "rd_nt s d = DStored \<Longrightarrow> cr_waits (rd_cr s) \<Longrightarrow> rd_dstep d s (rd_nt_go d DFlag s)"
| rd_see_other: "rd_nt s d = DStored \<Longrightarrow> \<not> cr_waits (rd_cr s) \<Longrightarrow> rd_dstep d s (rd_nt_go d DIdle s)"
| rd_flag: "rd_nt s d = DFlag \<Longrightarrow> rd_dstep d s (rd_nt_go d DIdle (rd_upd cr_SetUpdateFlag s))"

definition rd_step :: "'m rd_sys \<Rightarrow> 'm rd_sys \<Rightarrow> bool" where
  "rd_step s s' \<longleftrightarrow> (\<exists>p. rd_pstep p s s') \<or> (\<exists>d. rd_dstep d s s')"

lemma rd_sel [simp, cyber_state]:
  "rd_cr (rd_go p x s) = rd_cr s" "rd_buffer (rd_go p x s) = rd_buffer s" "rd_index (rd_go p x s) = rd_index s"
  "rd_nt (rd_go p x s) = rd_nt s" "rd_log (rd_go p x s) = rd_log s" "rd_pc (rd_go p x s) = (rd_pc s)(p := x)"
  "rd_cr (rd_nt_go d y s) = rd_cr s" "rd_buffer (rd_nt_go d y s) = rd_buffer s" "rd_index (rd_nt_go d y s) = rd_index s"
  "rd_nt (rd_nt_go d y s) = (rd_nt s)(d := y)" "rd_log (rd_nt_go d y s) = rd_log s" "rd_pc (rd_nt_go d y s) = rd_pc s"
  "rd_cr (rd_upd f s) = f (rd_cr s)" "rd_buffer (rd_upd f s) = rd_buffer s" "rd_index (rd_upd f s) = rd_index s"
  "rd_nt (rd_upd f s) = rd_nt s" "rd_log (rd_upd f s) = rd_log s" "rd_pc (rd_upd f s) = rd_pc s"
  by (simp_all add: rd_go_def rd_nt_go_def rd_upd_def)

section \<open>The invariants\<close>

text \<open>The lock: at most one processor is inside, and the lock is held exactly then.\<close>

definition one_inside :: "(nat \<Rightarrow> 'm cr_pc) \<Rightarrow> bool \<Rightarrow> bool" where
  "one_inside pc l \<longleftrightarrow> (\<forall>p q. pc p \<noteq> PIdle \<and> pc q \<noteq> PIdle \<longrightarrow> p = q) \<and> (l \<longleftrightarrow> (\<exists>p. pc p \<noteq> PIdle))"

definition rd_excl :: "'m rd_sys \<Rightarrow> bool" where
  "rd_excl s \<longleftrightarrow> one_inside (rd_pc s) (cr_lock (rd_cr s))"

lemma one_insideD: "one_inside pc l \<Longrightarrow> pc p \<noteq> PIdle \<Longrightarrow> l \<and> (\<forall>q. q \<noteq> p \<longrightarrow> pc q = PIdle)"
  by (auto simp: one_inside_def)

lemma one_inside_upd: "\<forall>q. q \<noteq> p \<longrightarrow> pc q = PIdle \<Longrightarrow> one_inside (pc(p := x)) l \<longleftrightarrow> l = (x \<noteq> PIdle)"
  by (auto simp: one_inside_def)

lemma one_inside_enter: "one_inside pc False \<Longrightarrow> pc q = PIdle"
  by (auto simp: one_inside_def)

text \<open>What the routine's state is at each point.\<close>

definition rd_typed :: "'m rd_sys \<Rightarrow> bool" where
  "rd_typed s \<longleftrightarrow> cr_state (rd_cr s) \<in> {READY, DATA_WAIT} \<and>
     (\<forall>p. (rd_pc s p \<in> {PReady, RSet} \<longrightarrow> cr_state (rd_cr s) = READY) \<and>
          (rd_pc s p \<in> insert RFetch (insert RYield (range RCall)) \<longrightarrow> cr_state (rd_cr s) = DATA_WAIT))"

definition rd_unread :: "'m rd_sys \<Rightarrow> bool" where
  "rd_unread s \<longleftrightarrow> snd (dv_TryFetch (rd_index s) (rd_buffer s)) \<noteq> None"

text \<open>An unread message will be looked for.\<close>

fun rd_looking :: "'m cr_pc \<Rightarrow> bool" where
  "rd_looking PConsumed = True"
| "rd_looking RFetch = True"
| "rd_looking (RCall m) = True"
| "rd_looking _ = False"

definition rd_covered :: "'m rd_sys \<Rightarrow> bool" where
  "rd_covered s \<longleftrightarrow> cr_state (rd_cr s) = READY \<or> \<not> cr_updated (rd_cr s)
     \<or> (\<exists>p. rd_looking (rd_pc s p)) \<or> (\<exists>d. rd_nt s d \<noteq> DIdle)"

definition rd_inv :: "'m rd_sys \<Rightarrow> bool" where
  "rd_inv s \<longleftrightarrow> rd_excl s \<and> rd_typed s \<and> (rd_unread s \<longrightarrow> rd_covered s)"

lemma TryFetch_none_again:
  "dv_TryFetch i b = (j, None) \<Longrightarrow> snd (dv_TryFetch j b) = None"
  by (auto simp: dv_TryFetch_def chb_Fetch_def cb_Tail_def cb_Head_def cb_Empty_def split: if_splits option.splits prod.splits)

lemma rd_new_inv: "rd_inv (rd_new n)"
  by (auto simp: rd_inv_def rd_excl_def one_inside_def rd_typed_def rd_unread_def rd_new_def cr_new_def rd_covered_def)

lemma rd_pstep_enters: "rd_pstep p s s' \<Longrightarrow> rd_pc s p \<noteq> PIdle \<or> \<not> cr_lock (rd_cr s)"
  by (induction rule: rd_pstep.induct) (auto simp: cr_Acquire_def)

lemma rd_pstep_alone: "rd_pstep p s s' \<Longrightarrow> rd_excl s \<Longrightarrow> q \<noteq> p \<Longrightarrow> rd_pc s q = PIdle"
  using rd_pstep_enters [of p s s'] by (auto simp: rd_excl_def one_inside_def)

lemma rd_inside_locked: "rd_excl s \<Longrightarrow> rd_pc s p \<noteq> PIdle \<Longrightarrow> cr_lock (rd_cr s)"
  by (auto simp: rd_excl_def one_inside_def)

lemma rd_pstep_excl: "rd_pstep p s s' \<Longrightarrow> rd_excl s \<Longrightarrow> rd_excl s'"
proof -
  assume st: "rd_pstep p s s'" and e: "rd_excl s"
  have alone: "\<forall>q. q \<noteq> p \<longrightarrow> rd_pc s q = PIdle" using rd_pstep_alone [OF st e] by blast
  from st alone rd_inside_locked [OF e, of p] show ?thesis
    by (induction rule: rd_pstep.induct)
      (auto simp: rd_excl_def cr_Acquire_def cr_Release_def cr_Yield_state_def one_inside_upd)
qed

lemma rd_dstep_excl: "rd_dstep d s s' \<Longrightarrow> rd_excl s \<Longrightarrow> rd_excl s'"
  by (induction rule: rd_dstep.induct) (auto simp: rd_excl_def cr_SetUpdateFlag_def)

lemma rd_pstep_typed: "rd_pstep p s s' \<Longrightarrow> rd_excl s \<Longrightarrow> rd_typed s \<Longrightarrow> rd_typed s'"
proof -
  assume st: "rd_pstep p s s'" and e: "rd_excl s" and ty: "rd_typed s"
  have alone: "\<forall>q. q \<noteq> p \<longrightarrow> rd_pc s q = PIdle" using rd_pstep_alone [OF st e] by blast
  from st alone ty show ?thesis
    by (induction rule: rd_pstep.induct)
      (auto simp: rd_typed_def cr_Acquire_def cr_Release_def cr_Yield_state_def cr_waits_def)
qed

lemma rd_dstep_typed: "rd_dstep d s s' \<Longrightarrow> rd_typed s \<Longrightarrow> rd_typed s'"
  by (induction rule: rd_dstep.induct) (auto simp: rd_typed_def cr_SetUpdateFlag_def)

lemma looking_alone:
  assumes "\<forall>q. q \<noteq> p \<longrightarrow> pc q = PIdle"
  shows "(\<exists>q. rd_looking (pc q)) \<longleftrightarrow> rd_looking (pc p)"
    and "(\<exists>q. (q = p \<longrightarrow> rd_looking x) \<and> (q \<noteq> p \<longrightarrow> rd_looking (pc q))) \<longleftrightarrow> rd_looking x"
  using assms by (metis rd_looking.simps(4))+

lemma rd_pstep_covered:
  "rd_pstep p s s' \<Longrightarrow> rd_excl s \<Longrightarrow> rd_typed s \<Longrightarrow> rd_unread s \<longrightarrow> rd_covered s \<Longrightarrow> rd_unread s' \<longrightarrow> rd_covered s'"
proof -
  assume st: "rd_pstep p s s'" and e: "rd_excl s" and ty: "rd_typed s" and c: "rd_unread s \<longrightarrow> rd_covered s"
  have alone: "\<forall>q. q \<noteq> p \<longrightarrow> rd_pc s q = PIdle" using rd_pstep_alone [OF st e] by blast
  from st alone ty c show ?thesis
  proof (induction rule: rd_pstep.induct)
    case (rd_fetch_none s i)
    then show ?case using TryFetch_none_again [OF rd_fetch_none(2)] by (simp add: rd_unread_def)
  qed (simp_all add: rd_unread_def rd_covered_def looking_alone if_distrib [of rd_looking] rd_typed_def
      cr_Acquire_def cr_Release_def cr_Yield_state_def cr_waits_def, auto)
qed

lemma rd_dstep_covered:
  "rd_dstep d s s' \<Longrightarrow> rd_excl s \<Longrightarrow> rd_typed s \<Longrightarrow> rd_unread s \<longrightarrow> rd_covered s \<Longrightarrow> rd_unread s' \<longrightarrow> rd_covered s'"
  by (induction rule: rd_dstep.induct)
    (auto simp: rd_unread_def rd_covered_def rd_typed_def cr_SetUpdateFlag_def cr_waits_def)

lemma rd_reach_inv: "reach (rd_new n) rd_step s \<Longrightarrow> rd_inv s"
proof (induction rule: reach.induct)
  case reach_init
  show ?case by (rule rd_new_inv)
next
  case (reach_step s s')
  then show ?case
    by (auto simp: rd_inv_def rd_step_def intro: rd_pstep_excl rd_dstep_excl rd_pstep_typed rd_dstep_typed
      dest: rd_pstep_covered rd_dstep_covered)
qed

section \<open>No wakeup is lost\<close>

lemma rd_ready_calls:
  assumes "reach s0 (rd_pstep p) s" and "rd_pc s p = PReady"
    and "dv_TryFetch (rd_index s) (rd_buffer s) = (i, Some m)"
  shows "\<exists>s'. reach s0 (rd_pstep p) s' \<and> rd_log s' = rd_log s @ [m]"
proof -
  let ?s1 = "rd_go p RSet s"
  let ?s2 = "rd_go p RFetch (rd_upd (\<lambda>c. c\<lparr>cr_state := DATA_WAIT\<rparr>) ?s1)"
  let ?s3 = "rd_go p (RCall m) (?s2\<lparr>rd_index := i\<rparr>)"
  let ?s4 = "rd_go p PRelease (rd_upd (cr_Yield_state READY) (?s3\<lparr>rd_log := rd_log ?s3 @ [m]\<rparr>))"
  have "reach s0 (rd_pstep p) ?s1" by (rule reach_step [OF assms(1)], rule rd_resume, rule assms(2))
  then have "reach s0 (rd_pstep p) ?s2" by (rule reach_step, intro rd_set_wait) simp
  then have "reach s0 (rd_pstep p) ?s3" by (rule reach_step, intro rd_fetch) (simp_all add: assms(3))
  then have "reach s0 (rd_pstep p) ?s4" by (rule reach_step, intro rd_call) simp
  moreover have "rd_log ?s4 = rd_log s @ [m]" by simp
  ultimately show ?thesis by blast
qed

lemma rd_idle_becomes_ready:
  assumes "rd_pc s p = PIdle" and "\<not> cr_lock (rd_cr s)"
    and "cr_state (rd_cr s) = READY \<or> (cr_waits (rd_cr s) \<and> \<not> cr_updated (rd_cr s))"
  shows "\<exists>s'. reach s (rd_pstep p) s' \<and> rd_pc s' p = PReady \<and> rd_index s' = rd_index s
    \<and> rd_buffer s' = rd_buffer s \<and> rd_log s' = rd_log s"
proof -
  let ?s1 = "rd_go p PAcquired (rd_upd (snd \<circ> cr_Acquire) s)"
  have r1: "reach s (rd_pstep p) ?s1"
    by (rule reach_one, rule rd_acquire) (simp_all add: assms(1,2) cr_Acquire_def)
  have c: "cr_state (rd_cr ?s1) = cr_state (rd_cr s)" "cr_updated (rd_cr ?s1) = cr_updated (rd_cr s)"
    by (simp_all add: cr_Acquire_def)
  show ?thesis
  proof (cases "cr_updated (rd_cr s)")
    case True
    let ?s2 = "rd_go p (if cr_state (rd_cr ?s1) = READY then PReady else PRelease) ?s1"
    have "reach s (rd_pstep p) ?s2" by (rule reach_step [OF r1], rule rd_no_update) (simp_all add: True cr_Acquire_def)
    moreover have "rd_pc ?s2 p = PReady" using assms(3) True c by simp
    ultimately show ?thesis by (intro exI [of _ ?s2]) simp
  next
    case False
    let ?s2 = "rd_go p PConsumed (rd_upd (\<lambda>c. c\<lparr>cr_updated := True\<rparr>) ?s1)"
    let ?s3 = "rd_go p (if cr_waits (rd_cr ?s2) \<or> cr_state (rd_cr ?s2) = READY then PReady else PRelease)
      (rd_upd (\<lambda>c. if cr_waits c then c\<lparr>cr_state := READY\<rparr> else c) ?s2)"
    have "reach s (rd_pstep p) ?s2" by (rule reach_step [OF r1], rule rd_take_update) (simp_all add: False cr_Acquire_def)
    then have "reach s (rd_pstep p) ?s3" by (rule reach_step, intro rd_set_ready) simp
    moreover have "rd_pc ?s3 p = PReady" using assms(3) by (auto simp: cr_Acquire_def cr_waits_def)
    ultimately show ?thesis by (intro exI [of _ ?s3]) simp
  qed
qed

text \<open>C1: No wakeup is lost. Messages are stored and notified by any number of dispatchers, while
  processors scan the routine, run it, and the routine fetches and goes to sleep, one access at a
  time in any order: whenever nothing is in flight and a message is unread, the routine is
  runnable, so that \<open>UpdateState\<close> answers ready, and any one processor that looks for work then
  calls the reader with the message, by its own steps alone.\<close>

theorem reader_no_lost_wakeup:
  assumes "reach (rd_new n) rd_step s" and "\<And>p. rd_pc s p = PIdle" and "\<And>d. rd_nt s d = DIdle"
    and "dv_TryFetch (rd_index s) (rd_buffer s) = (i, Some m)"
  shows "fst (cr_UpdateState now (rd_cr s)) = READY \<and>
    (\<exists>s'. reach s (rd_pstep p) s' \<and> rd_log s' = rd_log s @ [m])"
proof -
  have inv: "rd_excl s" "rd_typed s" "rd_covered s"
    using rd_reach_inv [OF assms(1)] assms(4) by (auto simp: rd_inv_def rd_unread_def)
  have run: "cr_state (rd_cr s) = READY \<or> (cr_waits (rd_cr s) \<and> \<not> cr_updated (rd_cr s))"
    using inv(2,3) assms(2,3) by (auto simp: rd_covered_def rd_typed_def cr_waits_def)
  have free: "\<not> cr_lock (rd_cr s)" using inv(1) assms(2) by (auto simp: rd_excl_def one_inside_def)
  obtain s1 where s1: "reach s (rd_pstep p) s1" "rd_pc s1 p = PReady" "rd_index s1 = rd_index s"
    "rd_buffer s1 = rd_buffer s" "rd_log s1 = rd_log s"
    using rd_idle_becomes_ready [of s p, OF assms(2) free run] by blast
  show ?thesis
    using rd_ready_calls [OF s1(1,2)] s1(3-5) assms(4) run
    by (auto simp: cr_UpdateState_ready cr_runnable_def)
qed

definition rd_demo :: "nat rd_sys" where
  "rd_demo = (rd_new 4)\<lparr>rd_buffer := cb_store 7 (cb_new 4)\<rparr>"

lemma rd_demo_reach: "reach (rd_new 4) rd_step rd_demo"
proof -
  let ?s0 = "rd_new 4 :: nat rd_sys"
  let ?s1 = "rd_nt_go 0 DStored (?s0\<lparr>rd_buffer := cb_store 7 (rd_buffer ?s0)\<rparr>)"
  have "rd_dstep 0 ?s0 ?s1" by (rule rd_store) (simp add: rd_new_def)
  then have r: "reach (rd_new 4) rd_step ?s1" by (intro reach_one) (auto simp: rd_step_def)
  have "rd_dstep 0 ?s1 (rd_nt_go 0 DIdle ?s1)"
    by (rule rd_see_other) (simp_all add: rd_new_def cr_new_def cr_waits_def)
  then have "rd_step ?s1 (rd_nt_go 0 DIdle ?s1)" by (auto simp: rd_step_def)
  from reach_step [OF r this] show ?thesis
    by (simp add: rd_demo_def rd_new_def rd_nt_go_def fun_upd_idem)
qed

lemma rd_demo_fetch: "dv_TryFetch (rd_index rd_demo) (rd_buffer rd_demo) = (2, Some 7)"
proof -
  have "dv_TryFetch 0 (cb_store 7 (cb_new 4)) = (2, Some (7 :: nat))" by code_simp
  then show ?thesis by (simp add: rd_demo_def rd_new_def)
qed

lemma reader_no_lost_wakeup_witness:
  "\<exists>s'. reach rd_demo (rd_pstep 3) s' \<and> rd_log s' = [7]"
  using reader_no_lost_wakeup [OF rd_demo_reach _ _ rd_demo_fetch, of 0 3]
  by (simp add: rd_demo_def rd_new_def)

text \<open>C26: A coroutine is never run by two processors at once: in every reachable state at most one
  processor is past \<open>Acquire\<close>, and it holds the lock.\<close>

theorem routine_runs_once:
  assumes "reach (rd_new n) rd_step s" and "rd_pc s p \<noteq> PIdle"
  shows "cr_lock (rd_cr s) \<and> {q. rd_pc s q \<noteq> PIdle} = {p}"
  using rd_reach_inv [OF assms(1)] assms(2) by (auto simp: rd_inv_def rd_excl_def one_inside_def)

lemma routine_runs_once_witness:
  "\<exists>s. reach (rd_new 4) rd_step (s :: nat rd_sys) \<and> cr_lock (rd_cr s) \<and> {q. rd_pc s q \<noteq> PIdle} = {3}"
proof -
  let ?s = "rd_go 3 PAcquired (rd_upd (snd \<circ> cr_Acquire) (rd_new 4 :: nat rd_sys))"
  have "rd_pstep 3 (rd_new 4) ?s"
    by (rule rd_acquire) (simp_all add: rd_new_def cr_new_def cr_Acquire_def)
  then have r: "reach (rd_new 4) rd_step ?s" by (intro reach_one) (auto simp: rd_step_def)
  have "rd_pc ?s 3 \<noteq> PIdle" by simp
  from r routine_runs_once [OF r this] show ?thesis by blast
qed

end
