(* ===== verification/Scheduler_Core.thy ===== *)
theory Scheduler_Core
  imports Croutine
begin

text \<open>
  How a processor chooses a coroutine (cyber/scheduler): the scans of the two processor contexts
  (policy/classic_context.cc, policy/choreography_context.cc) and the loop of processor.cc that
  runs what they answer. Coroutines are shared objects, so queues hold their addresses and \<open>heap\<close>
  maps these to the objects. A scan is one step here; that it can interleave with the routine's
  own steps is the matter of the model in \<open>Croutine\<close>.

  The class \<open>ProcessorContext\<close> is the locale \<open>processor_context\<close>: what \<open>NextRoutine\<close> promises, and
  what the loop of \<open>Processor::Run\<close> does with it. Both contexts are interpretations of it.
\<close>

type_synonym heap = "nat \<Rightarrow> croutine"

section \<open>The reference\<close>

definition candidate :: "nat \<Rightarrow> heap \<Rightarrow> nat \<Rightarrow> bool" where
  "candidate now h a \<longleftrightarrow> \<not> cr_lock (h a) \<and> cr_runnable now (h a)"

text \<open>What a scan of \<open>xs\<close> leaves: the routines looked at have had their state updated, and the
  chosen one is locked.\<close>

definition scanned :: "nat \<Rightarrow> nat list \<Rightarrow> heap \<Rightarrow> heap" where
  "scanned now xs h a =
     (if cr_lock (h a) \<or> a \<notin> set xs then h a
      else if a \<in> set (takeWhile (\<lambda>x. \<not> candidate now h x) xs) then snd (cr_UpdateState now (h a))
      else if find (candidate now h) xs = Some a then (snd (cr_UpdateState now (h a)))\<lparr>cr_lock := True\<rparr>
      else h a)"

lemma find_split: "find P xs = Some a \<Longrightarrow> \<exists>ys zs. xs = ys @ a # zs \<and> (\<forall>x \<in> set ys. \<not> P x)"
proof (induction xs)
  case (Cons x xs)
  show ?case
  proof (cases "P x")
    case True
    then show ?thesis using Cons.prems by (intro exI [of _ "[]"] exI [of _ xs]) simp
  next
    case False
    then obtain ys zs where "xs = ys @ a # zs" "\<forall>x \<in> set ys. \<not> P x" using Cons by auto
    then show ?thesis using False by (intro exI [of _ "x # ys"] exI [of _ zs]) simp
  qed
qed simp

section \<open>The interface\<close>

locale processor_context =
  fixes next_routine :: "nat \<Rightarrow> 's \<Rightarrow> nat option \<times> 's"
    and heap_of :: "'s \<Rightarrow> heap"
    and set_heap :: "heap \<Rightarrow> 's \<Rightarrow> 's"
    and order :: "'s \<Rightarrow> nat list"
    and wait :: "nat \<Rightarrow> 's \<Rightarrow> 's"
    and ok :: "'s \<Rightarrow> bool"
  assumes next_first: "ok s \<Longrightarrow> fst (next_routine now s) = find (candidate now (heap_of s)) (order s)"
    and next_heap: "ok s \<Longrightarrow> heap_of (snd (next_routine now s)) = scanned now (order s) (heap_of s)"
    and next_ok: "ok s \<Longrightarrow> ok (snd (next_routine now s))"
    and set_heap: "heap_of (set_heap h s) = h"
    and wait_heap: "heap_of (wait now s) = heap_of s"
begin

text \<open>A round of the loop of \<open>Processor::Run\<close>; \<open>body a\<close> is what the routine at \<open>a\<close> does with itself.\<close>

definition proc_round :: "nat \<Rightarrow> (nat \<Rightarrow> croutine \<Rightarrow> croutine) \<Rightarrow> 's \<Rightarrow> nat option \<times> 's" where
  "proc_round now body s =
     (case next_routine now s of
        (Some a, s) \<Rightarrow> (Some a, set_heap ((heap_of s)(a := cr_Release (snd (cr_Resume (body a) (heap_of s a))))) s)
      | (None, s) \<Rightarrow> (None, wait now s))"

lemma chosen_is_candidate:
  "ok s \<Longrightarrow> fst (next_routine now s) = Some a \<Longrightarrow> a \<in> set (order s) \<and> candidate now (heap_of s) a"
  by (auto simp: next_first find_Some_iff)

lemma chosen_state:
  assumes "ok s" and "fst (next_routine now s) = Some a"
  shows "heap_of (snd (next_routine now s)) a = (snd (cr_UpdateState now (heap_of s a)))\<lparr>cr_lock := True\<rparr>"
proof -
  have f: "find (candidate now (heap_of s)) (order s) = Some a" using assms next_first by simp
  have c: "a \<in> set (order s)" "candidate now (heap_of s) a" using chosen_is_candidate [OF assms] by simp_all
  then have "a \<notin> set (takeWhile (\<lambda>x. \<not> candidate now (heap_of s) x) (order s))"
    using set_takeWhileD by fastforce
  then show ?thesis using c f by (simp add: next_heap [OF assms(1)] scanned_def candidate_def)
qed

lemma chosen_is_first:
  assumes "ok s" and "fst (next_routine now s) = Some a"
  shows "\<exists>xs ys. order s = xs @ a # ys \<and> (\<forall>x \<in> set xs. \<not> candidate now (heap_of s) x)"
  using find_split [of "candidate now (heap_of s)" "order s" a] assms next_first [of s now] by simp

lemma none_waiting:
  "ok s \<Longrightarrow> fst (next_routine now s) = None \<Longrightarrow> x \<in> set (order s) \<Longrightarrow> \<not> candidate now (heap_of s) x"
  by (simp add: next_first find_None_iff)

lemma round_runs:
  assumes "ok s" and "fst (proc_round now body s) = Some a"
  shows "heap_of (snd (proc_round now body s)) a =
     cr_Release (snd (cr_Resume (body a) ((snd (cr_UpdateState now (heap_of s a)))\<lparr>cr_lock := True\<rparr>)))"
  using assms chosen_state [OF assms(1), of now a]
  by (auto simp: proc_round_def set_heap split: prod.splits option.splits)

lemma round_idle:
  assumes "ok s" and "fst (proc_round now body s) = None"
  shows "\<forall>x \<in> set (order s). \<not> candidate now (heap_of s) x"
  using assms none_waiting [OF assms(1), of now]
  by (auto simp: proc_round_def split: prod.splits option.splits)

end

section \<open>Scanning a queue\<close>

text \<open>The loop of \<open>ClassicContext::NextRoutine\<close> over one queue; \<open>w\<close> is when to wake (\<open>need_sleep_\<close>
  and \<open>wake_time_\<close>).\<close>

definition note_sleep :: "croutine \<Rightarrow> bool \<times> nat \<Rightarrow> bool \<times> nat" where
  "note_sleep c w = (if cr_state c = SLEEP then
      (if \<not> fst w \<or> cr_wake_time c < snd w then (True, cr_wake_time c) else w) else w)"

fun scan_queue :: "nat \<Rightarrow> nat list \<Rightarrow> heap \<times> bool \<times> nat \<Rightarrow> nat option \<times> heap \<times> bool \<times> nat" where
  "scan_queue now [] (h, w) = (None, h, w)"
| "scan_queue now (a # as) (h, w) =
     (let (got, c) = cr_Acquire (h a); h = h(a := c) in
      if \<not> got then scan_queue now as (h, w)
      else (let (st, c) = cr_UpdateState now c; h = h(a := c) in
        if st = READY then (Some a, h, w)
        else scan_queue now as (h(a := cr_Release c), note_sleep c w)))"

text \<open>The loop over the priorities, from the highest.\<close>

fun scan_levels :: "nat \<Rightarrow> nat list list \<Rightarrow> heap \<times> bool \<times> nat \<Rightarrow> nat option \<times> heap \<times> bool \<times> nat" where
  "scan_levels now [] hw = (None, hw)"
| "scan_levels now (q # qs) hw =
     (case scan_queue now q hw of
        (Some a, hw) \<Rightarrow> (Some a, hw)
      | (None, hw) \<Rightarrow> scan_levels now qs hw)"

lemma scan_queue_append:
  "scan_queue now (xs @ ys) hw =
     (case scan_queue now xs hw of (Some a, hw) \<Rightarrow> (Some a, hw) | (None, hw) \<Rightarrow> scan_queue now ys hw)"
  by (induction now xs hw rule: scan_queue.induct) (auto simp: Let_def split: prod.splits)

lemma scan_levels_concat: "scan_levels now qs hw = scan_queue now (concat qs) hw"
  by (induction now qs hw rule: scan_levels.induct)
    (auto simp: scan_queue_append split: prod.splits option.splits)

lemma scanned_Cons_skip:
  assumes "a \<notin> set as" and "\<not> candidate now h a"
  shows "scanned now (a # as) h = scanned now as (if cr_lock (h a) then h else h(a := snd (cr_UpdateState now (h a))))"
proof
  fix x
  let ?h = "if cr_lock (h a) then h else h(a := snd (cr_UpdateState now (h a)))"
  have c: "candidate now ?h y = candidate now h y" if "y \<in> set as" for y
    using that assms(1) by (auto simp: candidate_def)
  then have "takeWhile (\<lambda>x. \<not> candidate now ?h x) as = takeWhile (\<lambda>x. \<not> candidate now h x) as"
    and "find (candidate now ?h) as = find (candidate now h) as"
    by (auto intro: takeWhile_cong find_cong)
  then show "scanned now (a # as) h x = scanned now as ?h x"
    using assms by (auto simp: scanned_def)
qed

lemma scanned_Nil: "scanned now [] h = h"
  by (rule ext) (simp add: scanned_def)

lemma scanned_Cons_hit:
  assumes "candidate now h a"
  shows "scanned now (a # as) h = h(a := (snd (cr_UpdateState now (h a)))\<lparr>cr_lock := True\<rparr>)"
  using assms by (auto simp: scanned_def candidate_def fun_eq_iff)

lemma update_locked: "cr_UpdateState now (c\<lparr>cr_lock := l\<rparr>) = (fst (cr_UpdateState now c), (snd (cr_UpdateState now c))\<lparr>cr_lock := l\<rparr>)"
  by (simp add: cr_UpdateState_def cr_waits_def Let_def)

lemma release_unlocked: "\<not> cr_lock c \<Longrightarrow> cr_Release (c\<lparr>cr_lock := True\<rparr>) = c"
  by (simp add: cr_Release_def)

lemma set_lock_same: "cr_lock c \<Longrightarrow> c\<lparr>cr_lock := True\<rparr> = c"
  by simp

lemma scan_locked: "cr_lock (h a) \<Longrightarrow> scan_queue now (a # as) (h, w) = scan_queue now as (h, w)"
  by (simp add: cr_Acquire_def Let_def set_lock_same fun_upd_idem)

lemma scan_skip:
  "\<not> cr_lock (h a) \<Longrightarrow> \<not> cr_runnable now (h a) \<Longrightarrow> scan_queue now (a # as) (h, w) =
    scan_queue now as (h(a := snd (cr_UpdateState now (h a))), note_sleep (snd (cr_UpdateState now (h a))) w)"
  by (simp add: cr_Acquire_def Let_def update_locked cr_UpdateState_ready release_unlocked note_sleep_def
    split: prod.splits)

lemma scan_hit:
  "candidate now h a \<Longrightarrow> scan_queue now (a # as) (h, w) =
    (Some a, h(a := (snd (cr_UpdateState now (h a)))\<lparr>cr_lock := True\<rparr>), w)"
  by (simp add: cr_Acquire_def Let_def update_locked cr_UpdateState_ready candidate_def split: prod.splits)

declare scan_queue.simps(2) [simp del]

lemma scan_cases:
  obtains (locked) "cr_lock (h a)" | (skip) "\<not> cr_lock (h a)" "\<not> cr_runnable now (h a)" | (hit) "candidate now h a"
  by (auto simp: candidate_def)

lemma scan_queue_spec:
  "distinct xs \<Longrightarrow> fst (scan_queue now xs (h, w)) = find (candidate now h) xs \<and>
    fst (snd (scan_queue now xs (h, w))) = scanned now xs h"
proof (induction xs arbitrary: h w)
  case Nil
  then show ?case by (simp add: scanned_Nil)
next
  case (Cons a as)
  show ?case
  proof (cases rule: scan_cases [of h a _ now])
    case locked
    then show ?thesis
      unfolding scan_locked [of h a, OF locked] using Cons by (simp add: scanned_Cons_skip candidate_def)
  next
    case skip
    let ?h = "h(a := snd (cr_UpdateState now (h a)))"
    have f: "find (candidate now ?h) as = find (candidate now h) as"
      using Cons.prems by (intro find_cong) (auto simp: candidate_def)
    have nc: "\<not> candidate now h a" using skip by (simp add: candidate_def)
    show ?thesis
      unfolding scan_skip [of h a, OF skip] using Cons.IH [of ?h] Cons.prems skip(1) f nc
      by (simp add: scanned_Cons_skip del: scan_queue.simps fun_upd_apply)
  next
    case hit
    then show ?thesis unfolding scan_hit [of now h a, OF hit] by (simp add: scanned_Cons_hit)
  qed
qed

text \<open>When the scan finds nothing, the wait ends no later than the first sleeper wakes.\<close>

lemma note_sleep_le:
  "fst w \<Longrightarrow> fst (note_sleep c w) \<and> snd (note_sleep c w) \<le> snd w"
  "cr_state c = SLEEP \<Longrightarrow> fst (note_sleep c w) \<and> snd (note_sleep c w) \<le> cr_wake_time c"
  by (auto simp: note_sleep_def)

lemma scan_queue_wake_mono:
  "fst w \<Longrightarrow> fst (snd (snd (scan_queue now xs (h, w)))) \<and> snd (snd (snd (scan_queue now xs (h, w)))) \<le> snd w"
proof (induction xs arbitrary: h w)
  case (Cons a as)
  show ?case
  proof (cases rule: scan_cases [of h a _ now])
    case locked
    then show ?thesis unfolding scan_locked [of h a, OF locked] using Cons by simp
  next
    case skip
    let ?w = "note_sleep (snd (cr_UpdateState now (h a))) w"
    have "fst ?w" "snd ?w \<le> snd w" using note_sleep_le(1) [OF Cons.prems] by simp_all
    then show ?thesis unfolding scan_skip [of h a, OF skip]
      using Cons.IH [of ?w "h(a := snd (cr_UpdateState now (h a)))"] by linarith
  qed (simp add: scan_hit Cons.prems)
qed simp

lemma skip_sleeps:
  "\<not> cr_runnable now c \<Longrightarrow> cr_state c = SLEEP \<Longrightarrow>
    cr_state (snd (cr_UpdateState now c)) = SLEEP \<and> cr_wake_time (snd (cr_UpdateState now c)) = cr_wake_time c"
  by (simp add: cr_UpdateState_def cr_runnable_def cr_waits_def Let_def)

lemma scan_queue_wakes:
  "distinct xs \<Longrightarrow> fst (scan_queue now xs (h, w)) = None \<Longrightarrow> x \<in> set xs \<Longrightarrow> \<not> cr_lock (h x) \<Longrightarrow>
    cr_state (h x) = SLEEP \<Longrightarrow>
    fst (snd (snd (scan_queue now xs (h, w)))) \<and> snd (snd (snd (scan_queue now xs (h, w)))) \<le> cr_wake_time (h x)"
proof (induction xs arbitrary: h w)
  case (Cons a as)
  show ?case
  proof (cases rule: scan_cases [of h a _ now])
    case locked
    then show ?thesis unfolding scan_locked [of h a, OF locked]
      using Cons.IH [of h w] Cons.prems by (auto simp: scan_locked)
  next
    case skip
    let ?h = "h(a := snd (cr_UpdateState now (h a)))" and ?w = "note_sleep (snd (cr_UpdateState now (h a))) w"
    note step = scan_skip [of h a, OF skip]
    show ?thesis
    proof (cases "x = a")
      case True
      have "fst ?w" "snd ?w \<le> cr_wake_time (h x)"
        using note_sleep_le(2) [of "snd (cr_UpdateState now (h a))" w] skip_sleeps [OF skip(2)] Cons.prems(5) True
        by simp_all
      then show ?thesis unfolding step using scan_queue_wake_mono [of ?w now as ?h] by linarith
    next
      case False
      then show ?thesis
        unfolding step using Cons.IH [of ?h ?w] Cons.prems by (simp add: step fun_upd_other del: fun_upd_apply)
    qed
  next
    case hit
    then show ?thesis using Cons.prems(2) by (simp add: scan_hit)
  qed
qed simp

end
