(* ===== verification/Scheduler_Classic.thy ===== *)
theory Scheduler_Classic
  imports Scheduler_Core
begin

text \<open>
  The classic policy (scheduler/policy/scheduler_classic.cc, classic_context.cc) and the base
  class (scheduler.cc): tasks by id, the run queues by group and priority, dispatch, notification
  and removal. A dispatch registers the task under one lock and puts it into its queue under another;
  a removal unregisters and stops the task, then takes the lock of the queue, and holding it waits
  for the routine's lock before it erases the task. These critical sections are definitions of their
  own, composed to the operations; the step relation \<open>cl_step\<close> interleaves them with those of all
  other threads, with the mutex of the task's id and the lock of the queue held as in the code. The
  queues of all groups, static in the code, are part of the state. Configuration files are read
  into \<open>cs_confs\<close> and \<open>cs_groups\<close>.
\<close>

section \<open>State\<close>

definition MAX_PRIO :: nat where "MAX_PRIO = 20"
definition DEFAULT_GROUP_NAME :: string where "DEFAULT_GROUP_NAME = ''default_grp''"

record sched_classic =
  cs_stop :: bool
  cs_heap :: heap
  cs_id_cr :: "u64 \<Rightarrow> nat option"
  cs_cr_group :: "string \<Rightarrow> nat list list"
  cs_confs :: "string \<Rightarrow> (u32 \<times> string) option"
  cs_groups :: "(string \<times> u32) list"
  cs_contexts :: "string list"
  cs_task_pool_size :: u32
  cs_notified :: "string list"

text \<open>\<open>CreateProcessor\<close>: one context for each processor of each group.\<close>

fun cs_CreateProcessor :: "(string \<times> u32) list \<Rightarrow> u32 \<times> string list \<Rightarrow> u32 \<times> string list" where
  "cs_CreateProcessor [] r = r"
| "cs_CreateProcessor ((name, proc_num) # gs) (pool, ctxs) =
     cs_CreateProcessor gs (max pool proc_num, ctxs @ replicate (unat proc_num) name)"

text \<open>The constructor, with the configuration's groups and tasks, or without one, then with the
  default number of processors of the global configuration, if that has one.\<close>

definition cs_new :: "((string \<times> u32) list \<times> (string \<Rightarrow> (u32 \<times> string) option)) option \<Rightarrow> u32 option \<Rightarrow> sched_classic" where
  "cs_new conf default_proc_num =
     (let (groups, confs, pool0) = (case conf of
            Some (groups, confs) \<Rightarrow> (groups, confs, 0)
          | None \<Rightarrow> (let n = (case default_proc_num of Some n \<Rightarrow> n | None \<Rightarrow> 2) in
                     ([(DEFAULT_GROUP_NAME, n)], (\<lambda>_. None), n)));
          (pool, ctxs) = cs_CreateProcessor groups (pool0, []) in
      \<lparr>cs_stop = False, cs_heap = (\<lambda>_. cr_new 0), cs_id_cr = (\<lambda>_. None), cs_cr_group = (\<lambda>_. replicate MAX_PRIO []),
       cs_confs = confs, cs_groups = groups, cs_contexts = ctxs, cs_task_pool_size = pool, cs_notified = []\<rparr>)"

definition cs_set :: "nat \<Rightarrow> (croutine \<Rightarrow> croutine) \<Rightarrow> sched_classic \<Rightarrow> sched_classic" where
  "cs_set a f s = s\<lparr>cs_heap := (cs_heap s)(a := f (cs_heap s a))\<rparr>"

definition cs_Notify :: "string \<Rightarrow> sched_classic \<Rightarrow> sched_classic" where
  "cs_Notify g s = s\<lparr>cs_notified := cs_notified s @ [g]\<rparr>"

definition cs_queue :: "sched_classic \<Rightarrow> string \<Rightarrow> nat \<Rightarrow> nat list" where
  "cs_queue s g i = cs_cr_group s g ! i"

definition cs_set_queue :: "string \<Rightarrow> nat \<Rightarrow> nat list \<Rightarrow> sched_classic \<Rightarrow> sched_classic" where
  "cs_set_queue g i q s = s\<lparr>cs_cr_group := (cs_cr_group s)(g := (cs_cr_group s g)[i := q])\<rparr>"

section \<open>Dispatch, notification and removal\<close>

text \<open>Group and priority of a routine: from its configuration, or the first group; a priority that
  is too high becomes the highest.\<close>

definition cs_configure :: "sched_classic \<Rightarrow> croutine \<Rightarrow> croutine option" where
  "cs_configure s c = do {
     c \<leftarrow> (case cs_confs s (cr_name c) of
             Some (prio, grp) \<Rightarrow> Some (c\<lparr>cr_priority := prio, cr_group_name := grp\<rparr>)
           | None \<Rightarrow> (case cs_groups s of [] \<Rightarrow> None | g # _ \<Rightarrow> Some (c\<lparr>cr_group_name := fst g\<rparr>)));
     Some (if MAX_PRIO \<le> unat (cr_priority c) then c\<lparr>cr_priority := of_nat (MAX_PRIO - 1)\<rparr> else c) }"

text \<open>The critical sections of a dispatch: the registration, \<open>None\<close> when the id is registered (the
  call returns false), and the queueing, \<open>None\<close> when the configuration has no group.\<close>

definition cs_Dispatch_register :: "nat \<Rightarrow> sched_classic \<Rightarrow> sched_classic option" where
  "cs_Dispatch_register a s =
     (if cs_id_cr s (cr_id (cs_heap s a)) \<noteq> None then None
      else Some (s\<lparr>cs_id_cr := (cs_id_cr s)(cr_id (cs_heap s a) \<mapsto> a)\<rparr>))"

definition cs_Dispatch_enqueue :: "nat \<Rightarrow> sched_classic \<Rightarrow> sched_classic option" where
  "cs_Dispatch_enqueue a s = do {
     c \<leftarrow> cs_configure s (cs_heap s a);
     let s = cs_set a (\<lambda>_. c) s;
     let g = cr_group_name c;
     let i = unat (cr_priority c);
     Some (cs_Notify g (cs_set_queue g i (cs_queue s g i @ [a]) s)) }"

definition cs_DispatchTask :: "nat \<Rightarrow> sched_classic \<Rightarrow> (bool \<times> sched_classic) option" where
  "cs_DispatchTask a s =
     (case cs_Dispatch_register a s of
        None \<Rightarrow> Some (False, s)
      | Some s \<Rightarrow> map_option (Pair True) (cs_Dispatch_enqueue a s))"

definition cs_NotifyProcessor :: "u64 \<Rightarrow> sched_classic \<Rightarrow> bool \<times> sched_classic" where
  "cs_NotifyProcessor crid s =
     (if cs_stop s then (True, s)
      else (case cs_id_cr s crid of
        None \<Rightarrow> (False, s)
      | Some a \<Rightarrow> (True, cs_Notify (cr_group_name (cs_heap s a))
          (if cr_waits (cs_heap s a) then cs_set a cr_SetUpdateFlag s else s))))"

text \<open>The critical sections of a removal: under the lock of the ids, the task is stopped and
  unregistered, its group and priority noted (\<open>None\<close> when it is not registered); under the lock of
  the queue, the first routine with the id is found and stopped; and, with that lock still held, it
  is erased once its own lock could be acquired (\<open>None\<close>: another turn of the loop that waits).\<close>

definition cs_Remove_unregister :: "u64 \<Rightarrow> sched_classic \<Rightarrow> ((nat \<times> string \<times> nat) \<times> sched_classic) option" where
  "cs_Remove_unregister crid s =
     (case cs_id_cr s crid of
        None \<Rightarrow> None
      | Some a \<Rightarrow> Some ((a, cr_group_name (cs_heap s a), unat (cr_priority (cs_heap s a))),
          cs_set a cr_Stop (s\<lparr>cs_id_cr := (cs_id_cr s)(crid := None)\<rparr>)))"

definition cs_Remove_find :: "u64 \<Rightarrow> string \<Rightarrow> nat \<Rightarrow> sched_classic \<Rightarrow> nat option \<times> sched_classic" where
  "cs_Remove_find crid g i s =
     (case find (\<lambda>a. cr_id (cs_heap s a) = crid) (cs_queue s g i) of
        None \<Rightarrow> (None, s)
      | Some b \<Rightarrow> (Some b, cs_set b cr_Stop s))"

definition cs_Remove_finish :: "string \<Rightarrow> nat \<Rightarrow> nat \<Rightarrow> sched_classic \<Rightarrow> sched_classic option" where
  "cs_Remove_finish g i b s =
     (let (got, c) = cr_Acquire (cs_heap s b) in
      if \<not> got then None
      else (let s = cs_set_queue g i (remove1 b (cs_queue s g i)) (cs_set b (\<lambda>_. c) s) in
        Some (cs_set b cr_Release s)))"

text \<open>The loop that waits; \<open>others\<close> is what the other threads do in each of its sleeps, and the value
  is \<open>None\<close> when it still waits after them.\<close>

fun cs_Remove_wait :: "(sched_classic \<Rightarrow> sched_classic) list \<Rightarrow> string \<Rightarrow> nat \<Rightarrow> nat \<Rightarrow> sched_classic \<Rightarrow> sched_classic option" where
  "cs_Remove_wait [] g i b s = cs_Remove_finish g i b s"
| "cs_Remove_wait (f # fs) g i b s =
     (case cs_Remove_finish g i b s of None \<Rightarrow> cs_Remove_wait fs g i b (f s) | Some s \<Rightarrow> Some s)"

definition cs_RemoveCRoutine :: "(sched_classic \<Rightarrow> sched_classic) list \<Rightarrow> u64 \<Rightarrow> sched_classic \<Rightarrow> (bool \<times> sched_classic) option" where
  "cs_RemoveCRoutine others crid s =
     (case cs_Remove_unregister crid s of
        None \<Rightarrow> Some (False, s)
      | Some ((a, g, i), s) \<Rightarrow>
          (if MAX_PRIO \<le> i then None
           else (case cs_Remove_find crid g i s of
               (None, s) \<Rightarrow> Some (False, s)
             | (Some b, s) \<Rightarrow> map_option (Pair True) (cs_Remove_wait others g i b s))))"

definition cs_RemoveTask :: "(sched_classic \<Rightarrow> sched_classic) list \<Rightarrow> (string \<Rightarrow> u64) \<Rightarrow> string \<Rightarrow> sched_classic \<Rightarrow> (bool \<times> sched_classic) option" where
  "cs_RemoveTask others hash name s = (if cs_stop s then Some (True, s) else cs_RemoveCRoutine others (hash name) s)"

section \<open>The base class\<close>

text \<open>\<open>a\<close> is the address of the new routine, \<open>now\<close> the time of its making. \<open>RegisterTaskName\<close>
  aborts the process (\<open>None\<close>) when another name has the same hash.\<close>

definition RegisterName :: "(string \<Rightarrow> u64) \<Rightarrow> string \<Rightarrow> (u64 \<Rightarrow> string option) \<Rightarrow> (u64 \<times> (u64 \<Rightarrow> string option)) option" where
  "RegisterName hash name m =
     (let i = hash name in
      case m i of Some other \<Rightarrow> if name = other then Some (i, m(i \<mapsto> name)) else None
                | None \<Rightarrow> Some (i, m(i \<mapsto> name)))"

definition GetNameById :: "u64 \<Rightarrow> (u64 \<Rightarrow> string option) \<Rightarrow> string" where
  "GetNameById i m = (case m i of None \<Rightarrow> [] | Some n \<Rightarrow> n)"

definition cs_CreateTask :: "(string \<Rightarrow> u64) \<Rightarrow> nat \<Rightarrow> nat \<Rightarrow> string \<Rightarrow> (u64 \<Rightarrow> string option) \<times> sched_classic
    \<Rightarrow> (bool \<times> (u64 \<Rightarrow> string option) \<times> sched_classic) option" where
  "cs_CreateTask hash now a name ms = (case ms of (m, s) \<Rightarrow>
     if cs_stop s then Some (False, m, s)
     else do {
       (task_id, m) \<leftarrow> RegisterName hash name m;
       (ok, s) \<leftarrow> cs_DispatchTask a (cs_set a (\<lambda>_. (cr_new now)\<lparr>cr_id := task_id, cr_name := name\<rparr>) s);
       Some (ok, m, s) })"

definition cs_NotifyTask :: "u64 \<Rightarrow> sched_classic \<Rightarrow> bool \<times> sched_classic" where
  "cs_NotifyTask crid s = (if cs_stop s then (True, s) else cs_NotifyProcessor crid s)"

fun cs_remove_all :: "(u64 \<times> (sched_classic \<Rightarrow> sched_classic) list) list \<Rightarrow> sched_classic \<Rightarrow> sched_classic option" where
  "cs_remove_all [] s = Some s"
| "cs_remove_all ((i, others) # is) s = do { (ok, s) \<leftarrow> cs_RemoveCRoutine others i s; cs_remove_all is s }"

text \<open>\<open>Shutdown\<close>; \<open>cr_list\<close> is the list of ids in the order the hash map gives them, each with what
  the other threads do while its removal waits.\<close>

definition cs_Shutdown :: "(u64 \<times> (sched_classic \<Rightarrow> sched_classic) list) list \<Rightarrow> sched_classic \<Rightarrow> sched_classic option" where
  "cs_Shutdown cr_list s =
     (if cs_stop s then Some s
      else map_option (\<lambda>s. s\<lparr>cs_contexts := []\<rparr>)
        (cs_remove_all (map (apfst (\<lambda>i. case cs_id_cr s i of Some a \<Rightarrow> cr_id (cs_heap s a) | None \<Rightarrow> i)) cr_list)
          (s\<lparr>cs_stop := True\<rparr>)))"

section \<open>The context of a processor\<close>

record classic_context =
  cc_group :: string
  cx_stop :: bool
  cx_wake :: "bool \<times> nat"

definition cx_NextRoutine :: "nat \<Rightarrow> classic_context \<times> sched_classic \<Rightarrow> nat option \<times> classic_context \<times> sched_classic" where
  "cx_NextRoutine now xs = (case xs of (x, s) \<Rightarrow>
     if cx_stop x then (None, x, s)
     else (let (r, h, w) = scan_levels now (rev (cs_cr_group s (cc_group x))) (cs_heap s, cx_wake x) in
       (r, x\<lparr>cx_wake := w\<rparr>, s\<lparr>cs_heap := h\<rparr>)))"

text \<open>\<open>Wait\<close>: until notified, or at most until the wake time when there is one.\<close>

definition cx_Wait :: "nat \<Rightarrow> classic_context \<times> sched_classic \<Rightarrow> classic_context \<times> sched_classic" where
  "cx_Wait now xs = (case xs of (x, s) \<Rightarrow>
     (if cx_stop x then x else if fst (cx_wake x) then x\<lparr>cx_wake := (False, snd (cx_wake x))\<rparr> else x, s))"

definition cx_Shutdown :: "classic_context \<times> sched_classic \<Rightarrow> classic_context \<times> sched_classic" where
  "cx_Shutdown xs = (case xs of (x, s) \<Rightarrow> (x\<lparr>cx_stop := True\<rparr>, cs_Notify (cc_group x) s))"

section \<open>The tasks and the queues agree\<close>

text \<open>What holds when no operation is under way: every registered routine is in the queue of its
  group and priority and nowhere else, and every routine in a queue is registered. The part of it
  about the queues alone holds all the time.\<close>

definition cs_placed :: "sched_classic \<Rightarrow> bool" where
  "cs_placed s \<longleftrightarrow> (\<forall>g. length (cs_cr_group s g) = MAX_PRIO)
     \<and> (\<forall>g i a. i < MAX_PRIO \<longrightarrow> a \<in> set (cs_queue s g i) \<longrightarrow>
          cr_group_name (cs_heap s a) = g \<and> unat (cr_priority (cs_heap s a)) = i)
     \<and> (\<forall>g i. i < MAX_PRIO \<longrightarrow> distinct (cs_queue s g i))"

lemma cs_placedD:
  "cs_placed s \<Longrightarrow> length (cs_cr_group s g) = MAX_PRIO"
  "cs_placed s \<Longrightarrow> i < MAX_PRIO \<Longrightarrow> a \<in> set (cs_queue s g i) \<Longrightarrow> cr_group_name (cs_heap s a) = g"
  "cs_placed s \<Longrightarrow> i < MAX_PRIO \<Longrightarrow> a \<in> set (cs_queue s g i) \<Longrightarrow> unat (cr_priority (cs_heap s a)) = i"
  "cs_placed s \<Longrightarrow> i < MAX_PRIO \<Longrightarrow> distinct (cs_queue s g i)"
  by (simp_all add: cs_placed_def)

definition cs_ok :: "sched_classic \<Rightarrow> bool" where
  "cs_ok s \<longleftrightarrow> (\<forall>g. length (cs_cr_group s g) = MAX_PRIO)
     \<and> (\<forall>g i a. i < MAX_PRIO \<longrightarrow> a \<in> set (cs_queue s g i) \<longrightarrow> cs_id_cr s (cr_id (cs_heap s a)) = Some a
          \<and> cr_group_name (cs_heap s a) = g \<and> unat (cr_priority (cs_heap s a)) = i)
     \<and> (\<forall>k a. cs_id_cr s k = Some a \<longrightarrow> cr_id (cs_heap s a) = k \<and> unat (cr_priority (cs_heap s a)) < MAX_PRIO
          \<and> a \<in> set (cs_queue s (cr_group_name (cs_heap s a)) (unat (cr_priority (cs_heap s a)))))
     \<and> (\<forall>g i. i < MAX_PRIO \<longrightarrow> distinct (cs_queue s g i))"

lemma cs_okD:
  "cs_ok s \<Longrightarrow> length (cs_cr_group s g) = MAX_PRIO"
  "cs_ok s \<Longrightarrow> i < MAX_PRIO \<Longrightarrow> a \<in> set (cs_queue s g i) \<Longrightarrow> cs_id_cr s (cr_id (cs_heap s a)) = Some a"
  "cs_ok s \<Longrightarrow> i < MAX_PRIO \<Longrightarrow> a \<in> set (cs_queue s g i) \<Longrightarrow> cr_group_name (cs_heap s a) = g"
  "cs_ok s \<Longrightarrow> i < MAX_PRIO \<Longrightarrow> a \<in> set (cs_queue s g i) \<Longrightarrow> unat (cr_priority (cs_heap s a)) = i"
  "cs_ok s \<Longrightarrow> cs_id_cr s k = Some a \<Longrightarrow> cr_id (cs_heap s a) = k"
  "cs_ok s \<Longrightarrow> cs_id_cr s k = Some a \<Longrightarrow> unat (cr_priority (cs_heap s a)) < MAX_PRIO"
  "cs_ok s \<Longrightarrow> cs_id_cr s k = Some a \<Longrightarrow>
    a \<in> set (cs_queue s (cr_group_name (cs_heap s a)) (unat (cr_priority (cs_heap s a))))"
  "cs_ok s \<Longrightarrow> i < MAX_PRIO \<Longrightarrow> distinct (cs_queue s g i)"
  by (simp_all add: cs_ok_def)

lemma cs_ok_placed: "cs_ok s \<Longrightarrow> cs_placed s"
  by (simp add: cs_ok_def cs_placed_def)

lemma cs_sel [simp, cyber_state]:
  "cs_heap (cs_Notify g s) = cs_heap s" "cs_id_cr (cs_Notify g s) = cs_id_cr s"
  "cs_cr_group (cs_Notify g s) = cs_cr_group s" "cs_stop (cs_Notify g s) = cs_stop s"
  "cs_confs (cs_Notify g s) = cs_confs s" "cs_groups (cs_Notify g s) = cs_groups s"
  "cs_heap (cs_set a f s) = (cs_heap s)(a := f (cs_heap s a))" "cs_id_cr (cs_set a f s) = cs_id_cr s"
  "cs_cr_group (cs_set a f s) = cs_cr_group s" "cs_stop (cs_set a f s) = cs_stop s"
  "cs_confs (cs_set a f s) = cs_confs s" "cs_groups (cs_set a f s) = cs_groups s"
  "cs_heap (cs_set_queue g i q s) = cs_heap s" "cs_id_cr (cs_set_queue g i q s) = cs_id_cr s"
  "cs_stop (cs_set_queue g i q s) = cs_stop s"
  "cs_confs (cs_set_queue g i q s) = cs_confs s" "cs_groups (cs_set_queue g i q s) = cs_groups s"
  by (simp_all add: cs_Notify_def cs_set_def cs_set_queue_def)

lemma cs_queue_sel [simp, cyber_state]:
  "cs_queue (cs_Notify g s) = cs_queue s" "cs_queue (cs_set a f s) = cs_queue s"
  "cs_queue (s\<lparr>cs_heap := h\<rparr>) = cs_queue s" "cs_queue (s\<lparr>cs_id_cr := m\<rparr>) = cs_queue s"
  "cs_queue (s\<lparr>cs_stop := b\<rparr>) = cs_queue s"
  by (simp_all add: cs_queue_def fun_eq_iff)

lemma cs_queue_set:
  "cs_queue (cs_set_queue g i q s) g' j =
    (if g' = g \<and> j = i \<and> i < length (cs_cr_group s g) then q else cs_queue s g' j)"
  by (auto simp: cs_queue_def cs_set_queue_def nth_list_update list_update_beyond not_less)

lemma cs_set_queue_lengths: "length (cs_cr_group (cs_set_queue g i q s) g') = length (cs_cr_group s g')"
  by (simp add: cs_set_queue_def)

lemma cs_new_ok: "cs_ok (cs_new conf n)"
  by (auto simp: cs_new_def cs_ok_def Let_def cs_queue_def split: prod.splits option.splits)

text \<open>Operations that keep ids, groups and priorities.\<close>

definition same_place :: "croutine \<Rightarrow> croutine \<Rightarrow> bool" where
  "same_place c d \<longleftrightarrow> cr_id c = cr_id d \<and> cr_group_name c = cr_group_name d \<and> cr_priority c = cr_priority d"

lemma cs_ok_heap:
  assumes "cs_ok s" and "\<And>a. same_place (h a) (cs_heap s a)"
  shows "cs_ok (s\<lparr>cs_heap := h\<rparr>)"
  using assms by (simp add: cs_ok_def same_place_def)

lemma cs_placed_heap:
  assumes "cs_placed s" and "\<And>a. same_place (h a) (cs_heap s a)"
  shows "cs_placed (s\<lparr>cs_heap := h\<rparr>)"
  using assms by (simp add: cs_placed_def same_place_def)

lemma cs_ok_set:
  assumes "cs_ok s" and "same_place (f (cs_heap s a)) (cs_heap s a)"
  shows "cs_ok (cs_set a f s)"
  unfolding cs_set_def by (rule cs_ok_heap [OF assms(1)]) (use assms(2) in \<open>auto simp: same_place_def\<close>)

lemma cs_ok_frame: "cs_ok (cs_Notify g s) = cs_ok s" "cs_ok (s\<lparr>cs_stop := b\<rparr>) = cs_ok s"
  by (simp_all add: cs_ok_def)

lemma cs_configure_place:
  "cs_configure s c = Some d \<Longrightarrow> cr_id d = cr_id c \<and> unat (cr_priority d) < MAX_PRIO \<and> cr_lock d = cr_lock c
    \<and> cr_state d = cr_state c"
  by (auto simp: cs_configure_def MAX_PRIO_def unat_of_nat split: option.splits list.splits if_splits)

lemma cs_configure_cong:
  "cs_configure (s\<lparr>cs_id_cr := m\<rparr>) = cs_configure s"
  by (simp add: cs_configure_def fun_eq_iff split: option.split)

text \<open>A dispatch that succeeds: the routine goes to the end of its queue.\<close>

lemma cs_Dispatch_eq:
  assumes "cs_id_cr s (cr_id (cs_heap s a)) = None" and "cs_configure s (cs_heap s a) = Some c"
  shows "cs_DispatchTask a s = Some (True, cs_Notify (cr_group_name c)
     (cs_set_queue (cr_group_name c) (unat (cr_priority c)) (cs_queue s (cr_group_name c) (unat (cr_priority c)) @ [a])
       (cs_set a (\<lambda>_. c) (s\<lparr>cs_id_cr := (cs_id_cr s)(cr_id (cs_heap s a) \<mapsto> a)\<rparr>))))"
  using assms by (simp add: cs_DispatchTask_def cs_Dispatch_register_def cs_Dispatch_enqueue_def cs_configure_cong Let_def)

lemma cs_Dispatch_ok:
  assumes "cs_ok s" and "cs_DispatchTask a s = Some (b, s')"
  shows "cs_ok s'"
proof (cases "cs_id_cr s (cr_id (cs_heap s a))")
  case None
  then obtain c where c: "cs_configure s (cs_heap s a) = Some c"
    using assms(2) by (auto simp: cs_DispatchTask_def cs_Dispatch_register_def cs_Dispatch_enqueue_def cs_configure_cong Let_def split: bind_splits)
  let ?g = "cr_group_name c" and ?i = "unat (cr_priority c)"
  have place: "cr_id c = cr_id (cs_heap s a)" "?i < MAX_PRIO" using cs_configure_place [OF c] by auto
  have s': "s' = cs_Notify ?g (cs_set_queue ?g ?i (cs_queue s ?g ?i @ [a])
      (cs_set a (\<lambda>_. c) (s\<lparr>cs_id_cr := (cs_id_cr s)(cr_id (cs_heap s a) \<mapsto> a)\<rparr>)))"
    using assms(2) cs_Dispatch_eq [OF None c] by simp
  have fresh: "cs_id_cr s k \<noteq> Some a" for k using cs_okD(5) [OF assms(1)] None by fastforce
  have notin: "a \<notin> set (cs_queue s g i)" if "i < MAX_PRIO" for g i
    using cs_okD(2) [OF assms(1) that] None by fastforce
  have other: "cr_id (cs_heap s x) \<noteq> cr_id (cs_heap s a)" if "i < MAX_PRIO" "x \<in> set (cs_queue s g i)" for x g i
    using cs_okD(2) [OF assms(1) that] None by fastforce
  have reg: "x \<in> set (cs_queue s g i)"
    if "cs_id_cr s k = Some x" "cr_group_name (cs_heap s x) = g" "unat (cr_priority (cs_heap s x)) = i" for k x g i
    using cs_okD(7) [OF assms(1) that(1)] that(2,3) by simp
  show ?thesis
    using assms(1) place fresh notin None unfolding s' cs_ok_frame
    by (auto simp: cs_ok_def cs_queue_set cs_set_queue_lengths dest: other intro: reg)
next
  case (Some d)
  then show ?thesis using assms by (simp add: cs_DispatchTask_def cs_Dispatch_register_def)
qed

lemma cs_NotifyProcessor_ok: "cs_ok s \<Longrightarrow> cs_ok (snd (cs_NotifyProcessor crid s))"
  by (auto simp: cs_NotifyProcessor_def cs_ok_frame cr_SetUpdateFlag_def same_place_def
    intro!: cs_ok_set split: option.splits)

lemma find_only:
  assumes "a \<in> set q" and "P a" and "\<forall>x \<in> set q. P x \<longrightarrow> x = a"
  shows "find P q = Some a"
proof (cases "find P q")
  case None
  then show ?thesis using assms(1,2) by (simp add: find_None_iff)
next
  case (Some b)
  obtain ys zs where "q = ys @ b # zs" using find_split [OF Some] by blast
  moreover have "P b" using Some by (auto simp: find_Some_iff)
  ultimately have "b = a" using assms(3) by simp
  then show ?thesis using Some by simp
qed

lemma find_id_in_queue:
  assumes "cs_ok s" and "cs_id_cr s crid = Some a"
    and "g = cr_group_name (cs_heap s a)" and "i = unat (cr_priority (cs_heap s a))"
  shows "find (\<lambda>x. cr_id (cs_heap s x) = crid) (cs_queue s g i) = Some a"
proof -
  have i: "i < MAX_PRIO" and a: "a \<in> set (cs_queue s g i)" and k: "cr_id (cs_heap s a) = crid"
    using cs_okD(5-7) [OF assms(1,2)] assms(3,4) by simp_all
  have "x = a" if "x \<in> set (cs_queue s g i)" "cr_id (cs_heap s x) = crid" for x
    using cs_okD(2) [OF assms(1) i that(1)] that(2) assms(2) by simp
  then have u: "\<forall>x \<in> set (cs_queue s g i). cr_id (cs_heap s x) = crid \<longrightarrow> x = a" by blast
  show ?thesis by (rule find_only [OF a k u])
qed

text \<open>A registered task that is taken out: the others stay where they are.\<close>

lemma cs_ok_take:
  assumes "cs_ok s" and "cs_id_cr s crid = Some a" and "g = cr_group_name (cs_heap s a)" and "i = unat (cr_priority (cs_heap s a))"
    and "cs_id_cr s' = (cs_id_cr s)(crid := None)" and "\<And>x. same_place (cs_heap s' x) (cs_heap s x)"
    and "\<And>h. length (cs_cr_group s' h) = length (cs_cr_group s h)"
    and "\<And>h j. cs_queue s' h j = (if h = g \<and> j = i then remove1 a (cs_queue s h j) else cs_queue s h j)"
  shows "cs_ok s'" and "j < MAX_PRIO \<Longrightarrow> set (cs_queue s' h j) = set (cs_queue s h j) - {a}"
proof -
  have i: "i < MAX_PRIO" and k: "cr_id (cs_heap s a) = crid" and d: "distinct (cs_queue s g i)"
    using cs_okD(5,6) [OF assms(1,2)] cs_okD(8) [OF assms(1)] assms(4) by simp_all
  have same: "cr_id (cs_heap s' x) = cr_id (cs_heap s x)" "cr_group_name (cs_heap s' x) = cr_group_name (cs_heap s x)"
    "cr_priority (cs_heap s' x) = cr_priority (cs_heap s x)" for x
    using assms(6) [of x] by (simp_all add: same_place_def)
  have inq: "x \<in> set (cs_queue s' h j) \<longleftrightarrow> x \<in> set (cs_queue s h j) \<and> x \<noteq> a" if j: "j < MAX_PRIO" for x h j
  proof (cases "h = g \<and> j = i")
    case True
    then show ?thesis using d by (simp only: assms(8) if_P set_remove1_eq) blast
  next
    case False
    then have "a \<notin> set (cs_queue s h j)" using cs_okD(3,4) [OF assms(1) j, of a h] assms(3,4) by metis
    then show ?thesis using False by (simp only: assms(8) if_False) blast
  qed
  then show "set (cs_queue s' h j) = set (cs_queue s h j) - {a}" if "j < MAX_PRIO" using that by blast
  have away: "cr_id (cs_heap s x) \<noteq> crid" if "j < MAX_PRIO" "x \<in> set (cs_queue s h j)" "x \<noteq> a" for x h j
    using cs_okD(2) [OF assms(1) that(1,2)] that(3) assms(2) by auto
  show "cs_ok s'"
    unfolding cs_ok_def
  proof (intro conjI allI impI)
    show "length (cs_cr_group s' h) = MAX_PRIO" for h
      using cs_okD(1) [OF assms(1)] by (simp add: assms(7))
  next
    fix h j x assume j: "j < MAX_PRIO" and "x \<in> set (cs_queue s' h j)"
    then have x: "x \<in> set (cs_queue s h j)" "x \<noteq> a" by (simp_all add: inq)
    show "cs_id_cr s' (cr_id (cs_heap s' x)) = Some x" "cr_group_name (cs_heap s' x) = h"
      "unat (cr_priority (cs_heap s' x)) = j"
      using away [OF j x] cs_okD(2) [OF assms(1) j x(1)] cs_okD(3) [OF assms(1) j x(1)] cs_okD(4) [OF assms(1) j x(1)]
      by (simp_all add: same assms(5))
  next
    fix l x assume "cs_id_cr s' l = Some x"
    then have x: "cs_id_cr s l = Some x" "l \<noteq> crid" by (auto simp: assms(5) split: if_splits)
    then show "cr_id (cs_heap s' x) = l" "unat (cr_priority (cs_heap s' x)) < MAX_PRIO"
      using cs_okD(5,6) [OF assms(1) x(1)] by (simp_all add: same)
    have "x \<noteq> a" using x k cs_okD(5) [OF assms(1) x(1)] by auto
    then show "x \<in> set (cs_queue s' (cr_group_name (cs_heap s' x)) (unat (cr_priority (cs_heap s' x))))"
      using cs_okD(6,7) [OF assms(1) x(1)] by (simp add: inq same)
  next
    show "distinct (cs_queue s' h j)" if "j < MAX_PRIO" for h j
      using cs_okD(8) [OF assms(1) that] unfolding assms(8) by (auto intro: distinct_remove1)
  qed
qed

section \<open>The classic context is a processor context\<close>

definition cx_order :: "classic_context \<times> sched_classic \<Rightarrow> nat list" where
  "cx_order xs = concat (rev (cs_cr_group (snd xs) (cc_group (fst xs))))"

definition cx_ok :: "classic_context \<times> sched_classic \<Rightarrow> bool" where
  "cx_ok xs \<longleftrightarrow> \<not> cx_stop (fst xs) \<and> cs_placed (snd xs)"

definition cx_set_heap :: "heap \<Rightarrow> classic_context \<times> sched_classic \<Rightarrow> classic_context \<times> sched_classic" where
  "cx_set_heap h xs = (fst xs, (snd xs)\<lparr>cs_heap := h\<rparr>)"

lemma distinct_levels:
  "(\<And>i. i < length qs \<Longrightarrow> distinct (qs ! i)) \<Longrightarrow> (\<And>i a. i < length qs \<Longrightarrow> a \<in> set (qs ! i) \<Longrightarrow> f a = i) \<Longrightarrow>
    distinct (concat (rev qs))"
proof (induction qs rule: rev_induct)
  case (snoc q qs)
  have "distinct (concat (rev qs))"
    using snoc.prems by (intro snoc.IH) (metis length_append_singleton less_SucI nth_append)+
  moreover have "set q \<inter> (\<Union>x \<in> set qs. set x) = {}"
  proof -
    have "f a = length qs" if "a \<in> set q" for a
      using snoc.prems(2) [of "length qs" a] that by simp
    moreover have "f a < length qs" if "x \<in> set qs" "a \<in> set x" for a x
      using snoc.prems(2) that by (metis in_set_conv_nth length_append_singleton less_SucI nth_append)
    ultimately show ?thesis by fastforce
  qed
  ultimately show ?case using snoc.prems(1) [of "length qs"] by auto
qed simp

lemma cx_order_distinct: "cx_ok xs \<Longrightarrow> distinct (cx_order xs)"
  unfolding cx_order_def
  by (rule distinct_levels [where f = "\<lambda>a. unat (cr_priority (cs_heap (snd xs) a))"])
    (auto simp: cx_ok_def cs_placedD cs_queue_def [symmetric])

lemma scanned_same_place: "same_place (scanned now xs h a) (h a)"
  by (simp add: scanned_def same_place_def)

lemma cx_NextRoutine_spec:
  assumes "cx_ok xs"
  shows "fst (cx_NextRoutine now xs) = find (candidate now (cs_heap (snd xs))) (cx_order xs)"
    and "cs_heap (snd (snd (cx_NextRoutine now xs))) = scanned now (cx_order xs) (cs_heap (snd xs))"
    and "cx_ok (snd (cx_NextRoutine now xs))"
proof -
  obtain x s where xs: "xs = (x, s)" by (cases xs)
  let ?r = "scan_levels now (rev (cs_cr_group s (cc_group x))) (cs_heap s, cx_wake x)"
  have run: "\<not> cx_stop x" and ok: "cs_placed s" using assms by (simp_all add: cx_ok_def xs)
  have sp: "fst ?r = find (candidate now (cs_heap s)) (cx_order xs)" "fst (snd ?r) = scanned now (cx_order xs) (cs_heap s)"
    using scan_queue_spec [OF cx_order_distinct [OF assms], of now "cs_heap s" "cx_wake x"]
    by (simp_all add: scan_levels_concat cx_order_def xs)
  have n: "cx_NextRoutine now xs = (fst ?r, x\<lparr>cx_wake := snd (snd ?r)\<rparr>, s\<lparr>cs_heap := fst (snd ?r)\<rparr>)"
    using run by (simp add: cx_NextRoutine_def xs split_def Let_def)
  show "fst (cx_NextRoutine now xs) = find (candidate now (cs_heap (snd xs))) (cx_order xs)"
    "cs_heap (snd (snd (cx_NextRoutine now xs))) = scanned now (cx_order xs) (cs_heap (snd xs))"
    unfolding n using sp by (simp_all add: xs)
  show "cx_ok (snd (cx_NextRoutine now xs))"
    unfolding n using run cs_placed_heap [OF ok, of "fst (snd ?r)"] scanned_same_place by (simp add: cx_ok_def sp(2))
qed

interpretation cx: processor_context cx_NextRoutine "\<lambda>xs. cs_heap (snd xs)" cx_set_heap cx_order cx_Wait cx_ok
  by unfold_locales (auto simp: cx_NextRoutine_spec cx_set_heap_def cx_Wait_def split: prod.splits)

section \<open>What the classic policy guarantees\<close>

lemma find_append: "find P (xs @ ys) = (case find P xs of None \<Rightarrow> find P ys | Some a \<Rightarrow> Some a)"
  by (induction xs) auto

lemma find_levels:
  "find P (concat (rev qs)) = Some a \<Longrightarrow>
    \<exists>i < length qs. find P (qs ! i) = Some a \<and> (\<forall>j. i < j \<and> j < length qs \<longrightarrow> (\<forall>b \<in> set (qs ! j). \<not> P b))"
proof (induction qs rule: rev_induct)
  case (snoc q qs)
  show ?case
  proof (cases "find P q")
    case None
    then have "find P (concat (rev qs)) = Some a"
      using snoc.prems by (simp add: find_append)
    then obtain i where "i < length qs" "find P (qs ! i) = Some a"
      "\<forall>j. i < j \<and> j < length qs \<longrightarrow> (\<forall>b \<in> set (qs ! j). \<not> P b)"
      using snoc.IH by blast
    then show ?thesis
      using None by (intro exI [of _ i]) (auto simp: nth_append find_None_iff less_Suc_eq)
  next
    case (Some b)
    then have "find P q = Some a" using snoc.prems by (simp add: find_append)
    then show ?thesis by (intro exI [of _ "length qs"]) (auto simp: nth_append)
  qed
qed simp

text \<open>C10: The processor of a group runs the most urgent work: the routine \<open>NextRoutine\<close> answers is
  in the group's queue of its own priority, was unlocked and runnable, and is now locked and ready;
  no routine of a higher priority, and none before it in its queue, was unlocked and runnable.
  When it answers none, no routine of the group was, and the context's wake time is not later than
  that of any of the group's sleeping routines. The hypothesis \<open>cs_placed\<close>, that every routine in a
  queue is there once and in the queue of its group and priority, holds in every state the
  scheduler's threads can reach, removals and dispatches under way included (\<open>cl_reach_placed\<close>).\<close>

theorem classic_runs_most_urgent:
  assumes "cs_placed s" and "\<not> cx_stop x" and "cx_NextRoutine now (x, s) = (r, x', s')"
  shows "case r of
      Some a \<Rightarrow> (\<exists>i pre post. i = unat (cr_priority (cs_heap s a)) \<and> cs_queue s (cc_group x) i = pre @ a # post
        \<and> candidate now (cs_heap s) a \<and> cr_lock (cs_heap s' a) \<and> cr_state (cs_heap s' a) = READY
        \<and> (\<forall>b \<in> set pre. \<not> candidate now (cs_heap s) b)
        \<and> (\<forall>j. i < j \<and> j < MAX_PRIO \<longrightarrow> (\<forall>b \<in> set (cs_queue s (cc_group x) j). \<not> candidate now (cs_heap s) b)))
    | None \<Rightarrow> \<forall>i < MAX_PRIO. \<forall>b \<in> set (cs_queue s (cc_group x) i). \<not> candidate now (cs_heap s) b
        \<and> (\<not> cr_lock (cs_heap s b) \<and> cr_state (cs_heap s b) = SLEEP \<longrightarrow>
             fst (cx_wake x') \<and> snd (cx_wake x') \<le> cr_wake_time (cs_heap s b))"
proof -
  let ?qs = "cs_cr_group s (cc_group x)"
  have ok: "cx_ok (x, s)" using assms(1,2) by (simp add: cx_ok_def)
  have len: "length ?qs = MAX_PRIO" using cs_placedD(1) [OF assms(1)] .
  have r: "r = find (candidate now (cs_heap s)) (concat (rev ?qs))"
    using cx_NextRoutine_spec(1) [OF ok, of now] assms(3) by (simp add: cx_order_def)
  show ?thesis
  proof (cases r)
    case None
    have "fst (scan_queue now (cx_order (x, s)) (cs_heap s, cx_wake x)) = None"
      using scan_queue_spec [OF cx_order_distinct [OF ok]] r None by (simp add: cx_order_def)
    moreover have "cx_wake x' = snd (snd (scan_queue now (cx_order (x, s)) (cs_heap s, cx_wake x)))"
      using assms(2,3) by (auto simp: cx_NextRoutine_def scan_levels_concat cx_order_def split: prod.splits)
    ultimately have "fst (cx_wake x') \<and> snd (cx_wake x') \<le> cr_wake_time (cs_heap s b)"
      if "b \<in> set (cx_order (x, s))" "\<not> cr_lock (cs_heap s b)" "cr_state (cs_heap s b) = SLEEP" for b
      using scan_queue_wakes [where h = "cs_heap s" and x = b, OF cx_order_distinct [OF ok] _ that] by simp
    moreover have "b \<in> set (cx_order (x, s))" if "i < MAX_PRIO" "b \<in> set (cs_queue s (cc_group x) i)" for i b
      using that len by (auto simp: cx_order_def cs_queue_def)
    ultimately show ?thesis
      using cx.none_waiting [OF ok, of now] assms(3) None by (simp only: None option.case fst_conv snd_conv) blast
  next
    case (Some a)
    then obtain i where i: "i < length ?qs" "find (candidate now (cs_heap s)) (?qs ! i) = Some a"
      "\<forall>j. i < j \<and> j < length ?qs \<longrightarrow> (\<forall>b \<in> set (?qs ! j). \<not> candidate now (cs_heap s) b)"
      using find_levels r by metis
    obtain pre post where q: "?qs ! i = pre @ a # post" "\<forall>b \<in> set pre. \<not> candidate now (cs_heap s) b"
      using find_split [OF i(2)] by blast
    have p: "i = unat (cr_priority (cs_heap s a))"
      using cs_placedD(3) [OF assms(1), of i a "cc_group x"] i(1) len q(1) by (simp add: cs_queue_def)
    have c: "candidate now (cs_heap s) a" using i(2) by (auto simp: find_Some_iff)
    have h: "cs_heap s' a = (snd (cr_UpdateState now (cs_heap s a)))\<lparr>cr_lock := True\<rparr>"
      using cx.chosen_state [OF ok, of now a] assms(3) Some by simp
    have "cr_lock (cs_heap s' a) \<and> cr_state (cs_heap s' a) = READY"
      using c by (simp add: h cr_UpdateState_state cr_UpdateState_ready candidate_def)
    then show ?thesis
      using Some p q c i(3) len by (auto simp: cs_queue_def)
  qed
qed

text \<open>Two tasks of one group, the second with a priority that is too high.\<close>

definition cs_demo0 :: sched_classic where
  "cs_demo0 = cs_set 1 (\<lambda>c. c\<lparr>cr_id := 11, cr_name := ''b''\<rparr>) (cs_set 0 (\<lambda>c. c\<lparr>cr_id := 10, cr_name := ''a''\<rparr>)
     (cs_new (Some ([(''g'', 1)], [''b'' \<mapsto> (99, ''g'')])) None))"

definition cs_demo1 :: sched_classic where "cs_demo1 = snd (the (cs_DispatchTask 0 cs_demo0))"
definition cs_demo :: sched_classic where "cs_demo = snd (the (cs_DispatchTask 1 cs_demo1))"

definition cx_demo :: classic_context where
  "cx_demo = \<lparr>cc_group = ''g'', cx_stop = False, cx_wake = (False, 0)\<rparr>"

lemmas cs_demo_simps = cs_demo_def cs_demo1_def cs_demo0_def cs_DispatchTask_def cs_Dispatch_register_def
  cs_Dispatch_enqueue_def cs_new_def cs_configure_def cr_new_def Let_def

lemma cs_demo0_ok: "cs_ok cs_demo0"
  by (auto simp: cs_demo0_def cs_new_def cs_ok_def cs_queue_def Let_def)

lemma cs_demo1_dispatch: "\<exists>b. cs_DispatchTask 0 cs_demo0 = Some (b, cs_demo1)"
proof -
  have "cs_DispatchTask 0 cs_demo0 \<noteq> None"
    by (simp add: cs_DispatchTask_def cs_Dispatch_register_def cs_Dispatch_enqueue_def cs_demo0_def cs_new_def cs_configure_def cr_new_def Let_def)
  then show ?thesis by (auto simp: cs_demo1_def)
qed

lemma cs_demo_dispatch: "\<exists>b. cs_DispatchTask 1 cs_demo1 = Some (b, cs_demo)"
proof -
  have "cs_DispatchTask 1 cs_demo1 \<noteq> None"
    by (simp add: cs_DispatchTask_def cs_Dispatch_register_def cs_Dispatch_enqueue_def cs_demo1_def cs_demo0_def cs_new_def cs_configure_def cr_new_def Let_def)
  then show ?thesis by (auto simp: cs_demo_def)
qed

lemma cs_demo_ok: "cs_ok cs_demo"
  using cs_demo0_ok cs_demo1_dispatch cs_demo_dispatch cs_Dispatch_ok by metis

lemma cs_demo_parts:
  "cs_queue cs_demo ''g'' 19 = [1]" "cs_queue cs_demo ''g'' 0 = [0]"
  "cr_priority (cs_heap cs_demo 1) = 19" "cr_lock (cs_heap cs_demo 1) = False"
  "cr_state (cs_heap cs_demo 1) = READY" "cr_group_name (cs_heap cs_demo 1) = ''g''"
  by (simp_all add: cs_demo_simps MAX_PRIO_def cs_queue_def cs_set_queue_def)

lemma classic_runs_most_urgent_witness:
  "\<exists>x' s'. cx_NextRoutine 5 (cx_demo, cs_demo) = (Some 1, x', s') \<and> cr_lock (cs_heap s' 1)
    \<and> cr_state (cs_heap s' 1) = READY"
proof -
  obtain r x' s' where n: "cx_NextRoutine 5 (cx_demo, cs_demo) = (r, x', s')" by (metis surj_pair)
  have run: "\<not> cx_stop cx_demo" by (simp add: cx_demo_def)
  have c1: "candidate 5 (cs_heap cs_demo) 1"
    using cs_demo_parts by (simp add: candidate_def cr_runnable_def)
  note u = classic_runs_most_urgent [OF cs_ok_placed [OF cs_demo_ok] run n]
  show ?thesis
  proof (cases r)
    case None
    then have "\<forall>i < MAX_PRIO. \<forall>b \<in> set (cs_queue cs_demo ''g'' i). \<not> candidate 5 (cs_heap cs_demo) b"
      using u by (simp add: cx_demo_def)
    from this [rule_format, of 19 1] show ?thesis using c1 cs_demo_parts by (simp add: MAX_PRIO_def)
  next
    case (Some a)
    then obtain pre post where a: "cs_queue cs_demo ''g'' (unat (cr_priority (cs_heap cs_demo a))) = pre @ a # post"
      "cr_lock (cs_heap s' a)" "cr_state (cs_heap s' a) = READY"
      "\<forall>j. unat (cr_priority (cs_heap cs_demo a)) < j \<and> j < MAX_PRIO \<longrightarrow>
         (\<forall>b \<in> set (cs_queue cs_demo ''g'' j). \<not> candidate 5 (cs_heap cs_demo) b)"
      using u by (auto simp: cx_demo_def)
    have "\<not> unat (cr_priority (cs_heap cs_demo a)) < 19"
      using a(4) [rule_format, of 19 1] c1 cs_demo_parts by (auto simp: MAX_PRIO_def)
    moreover have "a \<in> {0, 1}"
    proof -
      have "a \<in> set (cx_order (cx_demo, cs_demo))"
        using cx.chosen_is_candidate [of "(cx_demo, cs_demo)" 5 a] n Some cs_ok_placed [OF cs_demo_ok] run by (simp add: cx_ok_def)
      then have "\<exists>x \<in> set ((replicate 20 [])[0 := [0], 19 := [Suc 0]]). a \<in> set x"
        by (simp add: cx_order_def cx_demo_def cs_demo_simps MAX_PRIO_def cs_queue_def cs_set_queue_def)
      moreover have "set ((replicate 20 [])[0 := [0], 19 := [Suc 0]]) \<subseteq> {[Suc 0], [0], []}"
        using set_update_subset_insert [of "(replicate 20 [])[0 := [0]]" 19 "[Suc 0]"]
          set_update_subset_insert [of "replicate 20 []" 0 "[0::nat]"] by auto
      ultimately show ?thesis by auto
    qed
    ultimately have "a = 1"
      by (auto simp: cs_demo_simps MAX_PRIO_def)
    then show ?thesis using n Some a by blast
  qed
qed


lemma cs_ok_make:
  assumes "cs_ok s" and "\<And>k. cs_id_cr s k \<noteq> Some a"
  shows "cs_ok (cs_set a (\<lambda>_. c) s)"
proof -
  have "x \<noteq> a" if "i < MAX_PRIO" "x \<in> set (cs_queue s g i)" for x g i
    using cs_okD(2) [OF assms(1) that] assms(2) by blast
  moreover have "x \<noteq> a" if "cs_id_cr s k = Some x" for k x using assms(2) that by blast
  ultimately show ?thesis using assms(1) by (auto simp: cs_ok_def)
qed

lemma cs_ok_contexts: "cs_ok (s\<lparr>cs_contexts := c\<rparr>) = cs_ok s"
  by (simp add: cs_ok_def cs_queue_def)

section \<open>Every task is queued once\<close>

text \<open>The operations under way: the mutex of an id is held from the first to the last critical
  section of the dispatch or removal that works on it, which is recorded with how far it is. A
  removal that waits for its task holds the lock of the task's queue, too.\<close>

datatype cs_op = Dispatching nat | Removing nat string nat | Waiting nat string nat

definition cs_held :: "(u64 \<Rightarrow> cs_op option) \<Rightarrow> string \<Rightarrow> nat \<Rightarrow> bool" where
  "cs_held ops g i \<longleftrightarrow> (\<exists>k a. ops k = Some (Waiting a g i))"

text \<open>What a routine does with itself leaves its id, group, priority and lock alone, and does not
  take back a stop.\<close>

definition own_step :: "(croutine \<Rightarrow> croutine) \<Rightarrow> bool" where
  "own_step body \<longleftrightarrow> (\<forall>c. same_place (body c) c \<and> cr_lock (body c) = cr_lock c \<and> cr_force_stop (body c) = cr_force_stop c)"

text \<open>The critical sections of all threads: making a routine, the sections of a dispatch and of a
  removal, notification, the scan of one queue by a processor (\<open>NextRoutine\<close> scans the queues of its
  group one after the other, each under its lock), the running and the release of a routine by the
  processor that holds it, and the ends of \<open>Shutdown\<close>, which removes all tasks in between.\<close>

inductive cl_step :: "sched_classic \<times> (u64 \<Rightarrow> cs_op option) \<Rightarrow> sched_classic \<times> (u64 \<Rightarrow> cs_op option) \<Rightarrow> bool" where
  cl_make: "(\<And>k. cs_id_cr s k \<noteq> Some a) \<Longrightarrow> (\<And>k g i. ops k \<noteq> Some (Removing a g i) \<and> ops k \<noteq> Some (Waiting a g i)) \<Longrightarrow>
    cl_step (s, ops) (cs_set a (\<lambda>_. c) s, ops)"
| cl_register: "ops (cr_id (cs_heap s a)) = None \<Longrightarrow> cs_Dispatch_register a s = Some s' \<Longrightarrow>
    cl_step (s, ops) (s', ops(cr_id (cs_heap s a) \<mapsto> Dispatching a))"
| cl_enqueue: "ops k = Some (Dispatching a) \<Longrightarrow> cs_Dispatch_enqueue a s = Some s' \<Longrightarrow>
    \<not> cs_held ops (cr_group_name (cs_heap s' a)) (unat (cr_priority (cs_heap s' a))) \<Longrightarrow>
    cl_step (s, ops) (s', ops(k := None))"
| cl_unregister: "ops k = None \<Longrightarrow> cs_Remove_unregister k s = Some ((a, g, i), s') \<Longrightarrow>
    cl_step (s, ops) (s', ops(k \<mapsto> Removing a g i))"
| cl_find: "ops k = Some (Removing a g i) \<Longrightarrow> \<not> cs_held ops g i \<Longrightarrow> cs_Remove_find k g i s = (r, s') \<Longrightarrow>
    cl_step (s, ops) (s', ops(k := map_option (\<lambda>b. Waiting b g i) r))"
| cl_finish: "ops k = Some (Waiting a g i) \<Longrightarrow> cs_Remove_finish g i a s = Some s' \<Longrightarrow>
    cl_step (s, ops) (s', ops(k := None))"
| cl_notify: "cs_NotifyProcessor crid s = (b, s') \<Longrightarrow> cl_step (s, ops) (s', ops)"
| cl_scan: "i < MAX_PRIO \<Longrightarrow> \<not> cs_held ops g i \<Longrightarrow> scan_queue now (cs_queue s g i) (cs_heap s, w) = (r, h, w') \<Longrightarrow>
    cl_step (s, ops) (s\<lparr>cs_heap := h\<rparr>, ops)"
| cl_resume: "cr_lock (cs_heap s a) \<Longrightarrow> own_step body \<Longrightarrow>
    cl_step (s, ops) (cs_set a (\<lambda>c. snd (cr_Resume body c)) s, ops)"
| cl_release: "cr_lock (cs_heap s a) \<Longrightarrow> cl_step (s, ops) (cs_set a cr_Release s, ops)"
| cl_stop: "cl_step (s, ops) (s\<lparr>cs_stop := True\<rparr>, ops)"
| cl_clear: "cl_step (s, ops) (s\<lparr>cs_contexts := []\<rparr>, ops)"

text \<open>The invariant: with every operation under way counted as not yet begun by a dispatch, and as
  not yet begun by a removal, tasks and queues agree.\<close>

fun cs_op_queued :: "cs_op \<Rightarrow> nat option" where
  "cs_op_queued (Dispatching a) = None"
| "cs_op_queued (Removing a g i) = Some a"
| "cs_op_queued (Waiting a g i) = Some a"

definition cs_settled :: "(u64 \<Rightarrow> cs_op option) \<Rightarrow> sched_classic \<Rightarrow> sched_classic" where
  "cs_settled ops s = s\<lparr>cs_id_cr := (\<lambda>k. case ops k of None \<Rightarrow> cs_id_cr s k | Some x \<Rightarrow> cs_op_queued x)\<rparr>"

definition cs_leaving :: "sched_classic \<Rightarrow> u64 \<Rightarrow> nat \<Rightarrow> string \<Rightarrow> nat \<Rightarrow> bool" where
  "cs_leaving s k a g i \<longleftrightarrow> cs_id_cr s k = None \<and> cr_force_stop (cs_heap s a)
     \<and> cr_group_name (cs_heap s a) = g \<and> unat (cr_priority (cs_heap s a)) = i"

fun cs_op_ok :: "sched_classic \<Rightarrow> u64 \<Rightarrow> cs_op \<Rightarrow> bool" where
  "cs_op_ok s k (Dispatching a) \<longleftrightarrow> cs_id_cr s k = Some a \<and> cr_id (cs_heap s a) = k"
| "cs_op_ok s k (Removing a g i) \<longleftrightarrow> cs_leaving s k a g i"
| "cs_op_ok s k (Waiting a g i) \<longleftrightarrow> cs_leaving s k a g i"

definition cl_ok :: "sched_classic \<times> (u64 \<Rightarrow> cs_op option) \<Rightarrow> bool" where
  "cl_ok so \<longleftrightarrow> cs_ok (cs_settled (snd so) (fst so)) \<and> (\<forall>k x. snd so k = Some x \<longrightarrow> cs_op_ok (fst so) k x)"

lemma cs_settled_sel [simp]:
  "cs_heap (cs_settled ops s) = cs_heap s" "cs_queue (cs_settled ops s) = cs_queue s"
  "cs_cr_group (cs_settled ops s) = cs_cr_group s" "cs_stop (cs_settled ops s) = cs_stop s"
  "cs_id_cr (cs_settled ops s) k = (case ops k of None \<Rightarrow> cs_id_cr s k | Some x \<Rightarrow> cs_op_queued x)"
  "cs_configure (cs_settled ops s) = cs_configure s"
  by (simp_all add: cs_settled_def cs_configure_cong)

lemma cs_settled_set: "cs_settled ops (cs_set a f s) = cs_set a f (cs_settled ops s)"
  "cs_settled ops (s\<lparr>cs_heap := h\<rparr>) = (cs_settled ops s)\<lparr>cs_heap := h\<rparr>"
  "cs_settled ops (cs_Notify g s) = cs_Notify g (cs_settled ops s)"
  "cs_settled ops (s\<lparr>cs_stop := b\<rparr>) = (cs_settled ops s)\<lparr>cs_stop := b\<rparr>"
  "cs_settled ops (s\<lparr>cs_contexts := c\<rparr>) = (cs_settled ops s)\<lparr>cs_contexts := c\<rparr>"
  by (simp_all add: cs_settled_def cs_set_def cs_Notify_def cong: option.case_cong)

lemma cs_settled_none: "cs_settled (\<lambda>_. None) s = s"
  by (simp add: cs_settled_def)

lemma cs_settled_queued:
  "cl_ok (s, ops) \<Longrightarrow> ops k = Some x \<Longrightarrow> cs_op_queued x = Some a \<Longrightarrow> cs_id_cr (cs_settled ops s) k = Some a"
  by simp

lemma cl_okD:
  "cl_ok (s, ops) \<Longrightarrow> cs_ok (cs_settled ops s)" "cl_ok (s, ops) \<Longrightarrow> ops k = Some x \<Longrightarrow> cs_op_ok s k x"
  by (simp_all add: cl_ok_def)

text \<open>A change of the routines that keeps ids, groups, priorities and stops.\<close>

definition same_task_places :: "heap \<Rightarrow> heap \<Rightarrow> bool" where
  "same_task_places h h' \<longleftrightarrow> (\<forall>a. same_place (h' a) (h a) \<and> (cr_force_stop (h a) \<longrightarrow> cr_force_stop (h' a)))"

lemma cs_op_ok_heap:
  assumes "cs_op_ok s k x" and "cs_id_cr s' k = cs_id_cr s k" and "same_task_places (cs_heap s) (cs_heap s')"
  shows "cs_op_ok s' k x"
  using assms by (cases x) (simp_all add: cs_leaving_def same_task_places_def same_place_def)

lemma cl_ok_heap:
  assumes "cl_ok (s, ops)" and "same_task_places (cs_heap s) h"
  shows "cl_ok (s\<lparr>cs_heap := h\<rparr>, ops)"
proof -
  have "cs_ok (cs_settled ops (s\<lparr>cs_heap := h\<rparr>))"
    unfolding cs_settled_set using assms by (intro cs_ok_heap) (auto simp: cl_okD same_task_places_def)
  then show ?thesis
    using cs_op_ok_heap [OF cl_okD(2) [OF assms(1)], of _ _ "s\<lparr>cs_heap := h\<rparr>"] assms(2) by (simp add: cl_ok_def)
qed

lemma cl_ok_set:
  assumes "cl_ok (s, ops)" and "same_place (f (cs_heap s a)) (cs_heap s a)"
    and "cr_force_stop (cs_heap s a) \<Longrightarrow> cr_force_stop (f (cs_heap s a))"
  shows "cl_ok (cs_set a f s, ops)"
  unfolding cs_set_def
  by (rule cl_ok_heap [OF assms(1)]) (use assms(2,3) in \<open>auto simp: same_task_places_def same_place_def\<close>)

fun cs_op_task :: "cs_op \<Rightarrow> nat" where
  "cs_op_task (Dispatching a) = a"
| "cs_op_task (Removing a g i) = a"
| "cs_op_task (Waiting a g i) = a"

lemma cs_op_task_id: "cl_ok (s, ops) \<Longrightarrow> ops k = Some x \<Longrightarrow> cr_id (cs_heap s (cs_op_task x)) = k"
  using cl_okD(2) [of s ops k x] cs_okD(5) [OF cl_okD(1) [of s ops], of k "cs_op_task x"] by (cases x) auto

lemma cl_leaving:
  assumes "cl_ok (s, ops)" and "ops k = Some x" and "x = Removing a g i \<or> x = Waiting a g i"
  shows "cs_id_cr (cs_settled ops s) k = Some a" and "cs_leaving s k a g i" and "i < MAX_PRIO" and "a \<in> set (cs_queue s g i)"
    and "find (\<lambda>x. cr_id (cs_heap s x) = k) (cs_queue s g i) = Some a"
proof -
  show V: "cs_id_cr (cs_settled ops s) k = Some a" using assms(2,3) by auto
  show l: "cs_leaving s k a g i" using cl_okD(2) [OF assms(1,2)] assms(3) by auto
  show "i < MAX_PRIO" "a \<in> set (cs_queue s g i)"
    using cs_okD(6,7) [OF cl_okD(1) [OF assms(1)] V] l by (simp_all add: cs_leaving_def)
  show "find (\<lambda>x. cr_id (cs_heap s x) = k) (cs_queue s g i) = Some a"
    using find_id_in_queue [OF cl_okD(1) [OF assms(1)] V, of g i] l by (simp add: cs_leaving_def)
qed

text \<open>The effect of a finished removal.\<close>

lemma cs_Remove_finish_eq:
  "cs_Remove_finish g i b s = (if cr_lock (cs_heap s b) then None
     else Some (cs_set_queue g i (remove1 b (cs_queue s g i)) (cs_set b (\<lambda>c. c\<lparr>cr_lock := False\<rparr>) s)))"
  by (simp add: cs_Remove_finish_def cr_Acquire_def cr_Release_def Let_def cs_set_def cs_set_queue_def)

lemma cl_ok_other_ops:
  assumes "cl_ok (s, ops)" and "cs_ok (cs_settled ops' s')"
    and "\<And>l x. ops' l = Some x \<Longrightarrow> l \<noteq> k \<Longrightarrow> ops l = Some x" and "\<And>x. ops' k = Some x \<Longrightarrow> cs_op_ok s' k x"
    and "\<And>l. l \<noteq> k \<Longrightarrow> cs_id_cr s' l = cs_id_cr s l"
    and "\<And>a. cr_id (cs_heap s a) \<noteq> k \<Longrightarrow> same_place (cs_heap s' a) (cs_heap s a)
      \<and> (cr_force_stop (cs_heap s a) \<longrightarrow> cr_force_stop (cs_heap s' a))"
  shows "cl_ok (s', ops')"
proof -
  have "cs_op_ok s' l x" if x: "ops' l = Some x" for l x
  proof (cases "l = k")
    case False
    note l = assms(3) [OF x False]
    have "cr_id (cs_heap s (cs_op_task x)) \<noteq> k" using cs_op_task_id [OF assms(1) l] False by simp
    then show ?thesis
      using cl_okD(2) [OF assms(1) l] assms(6) assms(5) [OF False]
      by (cases x) (auto simp: cs_leaving_def same_place_def)
  qed (use assms(4) x in simp)
  then show ?thesis using assms(2) by (simp add: cl_ok_def)
qed

lemma cs_settled_eqI:
  "(\<And>k. (case ops' k of None \<Rightarrow> m k | Some x \<Rightarrow> cs_op_queued x) = (case ops k of None \<Rightarrow> cs_id_cr s k | Some x \<Rightarrow> cs_op_queued x)) \<Longrightarrow>
    cs_settled ops' (s\<lparr>cs_id_cr := m\<rparr>) = cs_settled ops s"
  by (simp add: cs_settled_def cong: option.case_cong)

lemma cl_register_ok:
  assumes "cl_ok (s, ops)" and "ops (cr_id (cs_heap s a)) = None" and "cs_Dispatch_register a s = Some s'"
  shows "cl_ok (s', ops(cr_id (cs_heap s a) \<mapsto> Dispatching a))"
proof (rule cl_ok_other_ops [OF assms(1)])
  have s': "s' = s\<lparr>cs_id_cr := (cs_id_cr s)(cr_id (cs_heap s a) \<mapsto> a)\<rparr>" and n: "cs_id_cr s (cr_id (cs_heap s a)) = None"
    using assms(3) by (auto simp: cs_Dispatch_register_def split: if_splits)
  have "cs_settled (ops(cr_id (cs_heap s a) \<mapsto> Dispatching a)) s' = cs_settled ops s"
    unfolding s' by (rule cs_settled_eqI) (use n assms(2) in \<open>auto split: option.splits\<close>)
  then show "cs_ok (cs_settled (ops(cr_id (cs_heap s a) \<mapsto> Dispatching a)) s')" using cl_okD(1) [OF assms(1)] by simp
qed (use assms(3) in \<open>auto simp: cs_Dispatch_register_def same_place_def split: if_splits\<close>)

lemma cl_enqueue_ok:
  assumes "cl_ok (s, ops)" and "ops k = Some (Dispatching a)" and "cs_Dispatch_enqueue a s = Some s'"
  shows "cl_ok (s', ops(k := None))"
proof (rule cl_ok_other_ops [OF assms(1), where k = k])
  have k: "cs_id_cr s k = Some a" "cr_id (cs_heap s a) = k" using cl_okD(2) [OF assms(1,2)] by simp_all
  obtain c where c: "cs_configure s (cs_heap s a) = Some c"
    using assms(3) by (auto simp: cs_Dispatch_enqueue_def split: bind_splits)
  let ?g = "cr_group_name c" and ?i = "unat (cr_priority c)" and ?V = "cs_settled ops s"
  have s': "s' = cs_Notify ?g (cs_set_queue ?g ?i (cs_queue s ?g ?i @ [a]) (cs_set a (\<lambda>_. c) s))"
    using assms(3) c by (simp add: cs_Dispatch_enqueue_def Let_def)
  have n: "cs_id_cr ?V (cr_id (cs_heap ?V a)) = None" using assms(2) k by simp
  have "cs_configure ?V (cs_heap ?V a) = Some c" using c by simp
  from cs_Dispatch_eq [OF n this]
  have "cs_DispatchTask a ?V = Some (True, cs_settled (ops(k := None)) s')"
    using k by (simp add: s' cs_settled_def cs_Notify_def cs_set_queue_def cs_set_def fun_eq_iff cs_queue_def cong: option.case_cong)
  then show "cs_ok (cs_settled (ops(k := None)) s')" by (rule cs_Dispatch_ok [OF cl_okD(1) [OF assms(1)]])
  show "cs_id_cr s' l = cs_id_cr s l" for l by (simp add: s')
  show "same_place (cs_heap s' b) (cs_heap s b) \<and> (cr_force_stop (cs_heap s b) \<longrightarrow> cr_force_stop (cs_heap s' b))"
    if "cr_id (cs_heap s b) \<noteq> k" for b using that k by (auto simp: s' same_place_def)
qed (auto split: if_splits)

lemma cl_unregister_ok:
  assumes "cl_ok (s, ops)" and "ops k = None" and "cs_Remove_unregister k s = Some ((a, g, i), s')"
  shows "cl_ok (s', ops(k \<mapsto> Removing a g i))"
proof (rule cl_ok_other_ops [OF assms(1), where k = k])
  have k: "cs_id_cr s k = Some a" and s': "s' = cs_set a cr_Stop (s\<lparr>cs_id_cr := (cs_id_cr s)(k := None)\<rparr>)"
    and gi: "g = cr_group_name (cs_heap s a)" "i = unat (cr_priority (cs_heap s a))"
    using assms(3) by (auto simp: cs_Remove_unregister_def split: option.splits)
  have "cs_settled (ops(k \<mapsto> Removing a g i)) s' = cs_set a cr_Stop (cs_settled ops s)"
    using k assms(2) by (simp add: s' cs_settled_def cs_set_def fun_eq_iff cong: option.case_cong)
  then show "cs_ok (cs_settled (ops(k \<mapsto> Removing a g i)) s')"
    using cs_ok_set [OF cl_okD(1) [OF assms(1)], of cr_Stop a] by (simp add: same_place_def cr_Stop_def)
  show "cs_op_ok s' k x" if "(ops(k \<mapsto> Removing a g i)) k = Some x" for x
    using that gi by (auto simp: s' cs_leaving_def cr_Stop_def)
qed (use assms(3) in \<open>auto simp: cs_Remove_unregister_def same_place_def cr_Stop_def split: if_splits option.splits\<close>)

lemma cl_find_ok:
  assumes "cl_ok (s, ops)" and "ops k = Some (Removing a g i)" and "cs_Remove_find k g i s = (r, s')"
  shows "r = Some a" and "cl_ok (s', ops(k := map_option (\<lambda>b. Waiting b g i) r))"
proof -
  note l = cl_leaving [OF assms(1,2), of a g i, simplified]
  have r: "r = Some a" and s': "s' = cs_set a cr_Stop s"
    using assms(3) l(5) by (auto simp: cs_Remove_find_def)
  then show "r = Some a" by blast
  show "cl_ok (s', ops(k := map_option (\<lambda>b. Waiting b g i) r))"
  proof (rule cl_ok_other_ops [OF assms(1), where k = k])
    have "cs_settled (ops(k \<mapsto> Waiting a g i)) s = cs_settled ops s"
      using assms(2) by (simp add: cs_settled_def fun_eq_iff cong: option.case_cong)
    then have "cs_settled (ops(k := map_option (\<lambda>b. Waiting b g i) r)) s' = cs_set a cr_Stop (cs_settled ops s)"
      by (simp add: r s' cs_settled_set)
    then show "cs_ok (cs_settled (ops(k := map_option (\<lambda>b. Waiting b g i) r)) s')"
      using cs_ok_set [OF cl_okD(1) [OF assms(1)], of cr_Stop a] by (simp add: same_place_def cr_Stop_def)
    show "cs_op_ok s' k x" if "(ops(k := map_option (\<lambda>b. Waiting b g i) r)) k = Some x" for x
      using that l(2) by (auto simp: r s' cs_leaving_def cr_Stop_def)
  qed (auto simp: s' same_place_def cr_Stop_def split: if_splits)
qed

lemma cl_finish_ok:
  assumes "cl_ok (s, ops)" and "ops k = Some (Waiting a g i)" and "cs_Remove_finish g i a s = Some s'"
  shows "cl_ok (s', ops(k := None))"
    and "j < MAX_PRIO \<Longrightarrow> set (cs_queue s' h j) = set (cs_queue s h j) - {a}"
proof -
  have w: "Waiting a g i = Removing a g i \<or> Waiting a g i = Waiting a g i" by simp
  note l = cl_leaving [OF assms(1,2) w]
  let ?V = "cs_settled ops s" and ?V' = "cs_settled (ops(k := None)) s'"
  have s': "s' = cs_set_queue g i (remove1 a (cs_queue s g i)) (cs_set a (\<lambda>c. c\<lparr>cr_lock := False\<rparr>) s)"
    using assms(3) by (simp add: cs_Remove_finish_eq split: if_splits)
  have "cs_id_cr s k = None" using l(2) by (simp add: cs_leaving_def)
  then have ids: "cs_id_cr ?V' = (cs_id_cr ?V)(k := None)"
    by (rule_tac ext) (auto simp: s' split: option.splits)
  have gi: "g = cr_group_name (cs_heap ?V a)" "i = unat (cr_priority (cs_heap ?V a))"
    using l(2) by (simp_all add: cs_leaving_def)
  have same: "same_place (cs_heap ?V' x) (cs_heap ?V x)" for x by (simp add: s' same_place_def)
  have len: "length (cs_cr_group ?V' h) = length (cs_cr_group ?V h)" for h by (simp add: s' cs_set_queue_lengths)
  have q: "cs_queue ?V' h j = (if h = g \<and> j = i then remove1 a (cs_queue ?V h j) else cs_queue ?V h j)" for h j
    using cs_okD(1) [OF cl_okD(1) [OF assms(1)], of g] l(3) by (simp add: s' cs_queue_set)
  note take = cs_ok_take [OF cl_okD(1) [OF assms(1)] l(1) gi ids same len q]
  show "set (cs_queue s' h j) = set (cs_queue s h j) - {a}" if "j < MAX_PRIO" using take(2) [OF that, of h] by simp
  show "cl_ok (s', ops(k := None))"
    by (rule cl_ok_other_ops [OF assms(1) take(1), where k = k]) (auto simp: s' same_place_def split: if_splits)
qed

lemma cl_make_ok:
  assumes "cl_ok (s, ops)" and "\<And>k. cs_id_cr s k \<noteq> Some a"
    and "\<And>k g i. ops k \<noteq> Some (Removing a g i) \<and> ops k \<noteq> Some (Waiting a g i)"
  shows "cl_ok (cs_set a (\<lambda>_. c) s, ops)"
proof -
  have "cs_id_cr (cs_settled ops s) k \<noteq> Some a" for k
    using assms(2,3) [of k] by (cases "the (ops k)") (auto split: option.splits; blast)+
  then have "cs_ok (cs_settled ops (cs_set a (\<lambda>_. c) s))"
    unfolding cs_settled_set using assms(1) by (intro cs_ok_make) (auto simp: cl_okD)
  moreover have "cs_op_ok (cs_set a (\<lambda>_. c) s) k x" if "ops k = Some x" for k x
    using cl_okD(2) [OF assms(1) that] assms(2,3) [of k] that by (cases x) (auto simp: cs_leaving_def)
  ultimately show ?thesis by (simp add: cl_ok_def)
qed

lemma cl_NotifyProcessor_ok:
  assumes "cl_ok (s, ops)" and "cs_NotifyProcessor crid s = (b, s')"
  shows "cl_ok (s', ops)"
proof -
  have frame: "cl_ok (cs_Notify g t, ops) = cl_ok (t, ops)" for g t
    unfolding cl_ok_def by (simp add: cs_settled_set cs_ok_frame)
      (intro conj_cong arg_cong [where f = All] refl ext iffI impI; (elim allE impE, assumption)?;
        auto elim!: cs_op_ok_heap simp: same_task_places_def same_place_def)
  have "cl_ok (cs_set a cr_SetUpdateFlag s, ops)" for a
    by (rule cl_ok_set [OF assms(1)]) (simp_all add: same_place_def cr_SetUpdateFlag_def)
  then show ?thesis using assms by (auto simp: cs_NotifyProcessor_def frame split: if_splits option.splits)
qed

lemma cl_scan_ok:
  assumes "cl_ok (s, ops)" and "i < MAX_PRIO" and "scan_queue now (cs_queue s g i) (cs_heap s, w) = (r, h, w')"
  shows "cl_ok (s\<lparr>cs_heap := h\<rparr>, ops)" and "h = scanned now (cs_queue s g i) (cs_heap s)"
proof -
  have "distinct (cs_queue s g i)" using cs_okD(8) [OF cl_okD(1) [OF assms(1)] assms(2)] by simp
  from scan_queue_spec [OF this, of now "cs_heap s" w] show h: "h = scanned now (cs_queue s g i) (cs_heap s)"
    using assms(3) by simp
  have "same_task_places (cs_heap s) h"
    unfolding h same_task_places_def by (simp add: scanned_def same_place_def cr_UpdateState_def Let_def)
  then show "cl_ok (s\<lparr>cs_heap := h\<rparr>, ops)" by (rule cl_ok_heap [OF assms(1)])
qed

lemma own_stepD: "own_step body \<Longrightarrow> same_place (snd (cr_Resume body c)) c \<and> cr_lock (snd (cr_Resume body c)) = cr_lock c
    \<and> cr_force_stop (snd (cr_Resume body c)) = cr_force_stop c"
  by (simp add: own_step_def cr_Resume_def same_place_def)

lemma cl_step_ok: "cl_step so so' \<Longrightarrow> cl_ok so \<Longrightarrow> cl_ok so'"
proof (induction rule: cl_step.induct)
  case (cl_resume s a body ops)
  then show ?case using own_stepD [of body "cs_heap s a"] by (intro cl_ok_set) auto
next
  case (cl_release s a ops)
  then show ?case by (intro cl_ok_set) (auto simp: cr_Release_def same_place_def)
next
  case (cl_stop s ops)
  have "cs_op_ok (s\<lparr>cs_stop := True\<rparr>) k x" if "ops k = Some x" for k x
    using cl_okD(2) [OF cl_stop that] by (cases x) (simp_all add: cs_leaving_def)
  then show ?case using cl_okD(1) [OF cl_stop] by (simp add: cl_ok_def cs_settled_set cs_ok_frame)
next
  case (cl_clear s ops)
  have "cs_op_ok (s\<lparr>cs_contexts := []\<rparr>) k x" if "ops k = Some x" for k x
    using cl_okD(2) [OF cl_clear that] by (cases x) (simp_all add: cs_leaving_def)
  then show ?case using cl_okD(1) [OF cl_clear] by (simp add: cl_ok_def cs_settled_set cs_ok_contexts)
qed (auto intro: cl_make_ok cl_register_ok cl_enqueue_ok cl_unregister_ok cl_find_ok(2) cl_finish_ok(1)
    cl_NotifyProcessor_ok cl_scan_ok(1))

lemma cl_reach_ok: "reach (cs_new conf n, \<lambda>_. None) cl_step so \<Longrightarrow> cl_ok so"
proof (induction rule: reach.induct)
  case reach_init
  show ?case by (simp add: cl_ok_def cs_settled_none cs_new_ok)
qed (blast intro: cl_step_ok)

lemma cl_reach_placed: "reach (cs_new conf n, \<lambda>_. None) cl_step (s, ops) \<Longrightarrow> cs_placed s"
  using cs_ok_placed [OF cl_okD(1) [OF cl_reach_ok]] by (simp add: cs_placed_def)

lemma count_list_distinct: "distinct xs \<Longrightarrow> a \<in> set xs \<Longrightarrow> count_list xs a = 1"
  by (induction xs) (auto simp: count_list_0_iff)

definition cs_queued :: "sched_classic \<Rightarrow> nat set" where
  "cs_queued s = {a. \<exists>g i. i < MAX_PRIO \<and> a \<in> set (cs_queue s g i)}"

definition cs_being_removed :: "(u64 \<Rightarrow> cs_op option) \<Rightarrow> u64 \<Rightarrow> nat \<Rightarrow> bool" where
  "cs_being_removed ops k a \<longleftrightarrow> (\<exists>g i. ops k = Some (Removing a g i) \<or> ops k = Some (Waiting a g i))"

lemma cs_settled_iff:
  "cl_ok (s, ops) \<Longrightarrow> cs_id_cr (cs_settled ops s) k = Some a \<longleftrightarrow>
    cs_id_cr s k = Some a \<and> ops k \<noteq> Some (Dispatching a) \<or> cs_being_removed ops k a"
  using cl_okD(2) [of s ops k] by (cases "ops k"; cases "the (ops k)") (auto simp: cs_being_removed_def cs_leaving_def)

text \<open>C15: In every state the threads of the classic scheduler can reach, whatever dispatches and
  removals are under way: the routines in the queues are exactly the registered tasks whose dispatch
  is over and the tasks whose removal is under way; each of them is in exactly one queue, once, that
  of its own group and priority, which is below 20; a registered task has the id it is registered
  under; and a task whose removal is under way is stopped and registered no more.\<close>

theorem classic_task_queued_once:
  assumes "reach (cs_new conf n, \<lambda>_. None) cl_step (s, ops)"
  shows "cs_queued s = {a. \<exists>k. cs_id_cr s k = Some a \<and> ops k \<noteq> Some (Dispatching a) \<or> cs_being_removed ops k a}
    \<and> (\<forall>a \<in> cs_queued s.
         {(g, i). i < MAX_PRIO \<and> a \<in> set (cs_queue s g i)} = {(cr_group_name (cs_heap s a), unat (cr_priority (cs_heap s a)))}
       \<and> count_list (cs_queue s (cr_group_name (cs_heap s a)) (unat (cr_priority (cs_heap s a)))) a = 1)
    \<and> (\<forall>k a. cs_id_cr s k = Some a \<longrightarrow> cr_id (cs_heap s a) = k)
    \<and> (\<forall>k a. cs_being_removed ops k a \<longrightarrow> cr_id (cs_heap s a) = k \<and> cs_id_cr s k = None \<and> cr_force_stop (cs_heap s a))"
proof (intro conjI ballI allI impI)
  have c: "cl_ok (s, ops)" by (rule cl_reach_ok [OF assms])
  note d = cs_okD [OF cl_okD(1) [OF c], unfolded cs_settled_iff [OF c] cs_settled_sel(1,2)]
  show "cs_queued s = {a. \<exists>k. cs_id_cr s k = Some a \<and> ops k \<noteq> Some (Dispatching a) \<or> cs_being_removed ops k a}"
    unfolding cs_queued_def using d(2,6,7) by blast
  show "cs_id_cr s k = Some a \<Longrightarrow> cr_id (cs_heap s a) = k" for k a
    using d(5) [of k a] cl_okD(2) [OF c, of k "Dispatching a"] by auto
  show "cs_being_removed ops k a \<Longrightarrow> cr_id (cs_heap s a) = k" for k a using d(5) [of k a] by blast
  show "cs_being_removed ops k a \<Longrightarrow> cs_id_cr s k = None" "cs_being_removed ops k a \<Longrightarrow> cr_force_stop (cs_heap s a)" for k a
    using cl_okD(2) [OF c, of k] by (auto simp: cs_being_removed_def cs_leaving_def)
  fix a assume "a \<in> cs_queued s"
  then obtain g i where gi: "i < MAX_PRIO" "a \<in> set (cs_queue s g i)" by (auto simp: cs_queued_def)
  note place = d(3) [OF gi] d(4) [OF gi]
  have "h = g \<and> j = i" if "j < MAX_PRIO" "a \<in> set (cs_queue s h j)" for h j
    using place d(3) [OF that] d(4) [OF that] by simp
  then show "{(g, i). i < MAX_PRIO \<and> a \<in> set (cs_queue s g i)} =
      {(cr_group_name (cs_heap s a), unat (cr_priority (cs_heap s a)))}"
    unfolding place using gi by blast
  show "count_list (cs_queue s (cr_group_name (cs_heap s a)) (unat (cr_priority (cs_heap s a)))) a = 1"
    unfolding place by (rule count_list_distinct [OF d(8) [OF gi(1)] gi(2)])
qed

lemma cl_reach_make:
  "reach s0 cl_step (s, \<lambda>_. None) \<Longrightarrow> (\<And>k. cs_id_cr s k \<noteq> Some a) \<Longrightarrow>
    reach s0 cl_step (cs_set a (\<lambda>_. f (cs_heap s a)) s, \<lambda>_. None)"
  by (rule reach_step, assumption, rule cl_make) auto

lemma cl_reach_dispatch:
  assumes "reach s0 cl_step (s, \<lambda>_. None)" and "cs_DispatchTask a s = Some (True, s')"
  shows "reach s0 cl_step (s', \<lambda>_. None)"
proof -
  let ?k = "cr_id (cs_heap s a)"
  obtain t where t: "cs_Dispatch_register a s = Some t" "cs_Dispatch_enqueue a t = Some s'"
    using assms(2) by (auto simp: cs_DispatchTask_def split: option.splits)
  have "cl_step (s, \<lambda>_. None) (t, (\<lambda>_. None)(?k \<mapsto> Dispatching a))"
    by (rule cl_register) (simp_all add: t)
  moreover have "cl_step (t, (\<lambda>_. None)(?k \<mapsto> Dispatching a)) (s', ((\<lambda>_. None)(?k \<mapsto> Dispatching a))(?k := None))"
    by (rule cl_enqueue [OF _ t(2)]) (simp_all add: cs_held_def)
  ultimately show ?thesis
    using reach_step [OF reach_step [OF assms(1)]] by (simp add: fun_upd_idem)
qed

definition cs_demo_conf :: "((string \<times> u32) list \<times> (string \<Rightarrow> (u32 \<times> string) option)) option" where
  "cs_demo_conf = Some ([(''g'', 1)], [''b'' \<mapsto> (99, ''g'')])"

lemma cs_demo_reach: "reach (cs_new cs_demo_conf None, \<lambda>_. None) cl_step (cs_demo, \<lambda>_. None)"
proof -
  let ?s = "cs_new cs_demo_conf None"
  have none: "cs_id_cr ?s k \<noteq> Some a" for k a by (simp add: cs_new_def Let_def cs_demo_conf_def)
  have "reach (?s, \<lambda>_. None) cl_step (cs_set 0 (\<lambda>_. (\<lambda>c. c\<lparr>cr_id := 10, cr_name := ''a''\<rparr>) (cs_heap ?s 0)) ?s, \<lambda>_. None)" (is "reach _ _ (?s1, _)")
    using reach_init none by (rule cl_reach_make)
  then have "reach (?s, \<lambda>_. None) cl_step (cs_set 1 (\<lambda>_. (\<lambda>c. c\<lparr>cr_id := 11, cr_name := ''b''\<rparr>) (cs_heap ?s1 1)) ?s1, \<lambda>_. None)" (is "reach _ _ (?s2, _)")
    by (rule cl_reach_make) (simp only: cs_sel none not_False_eq_True)
  moreover have "?s2 = cs_demo0"
    by (simp add: cs_demo0_def cs_set_def cs_demo_conf_def)
  ultimately have r0: "reach (?s, \<lambda>_. None) cl_step (cs_demo0, \<lambda>_. None)" by (simp only:)
  have b: "cs_DispatchTask 0 cs_demo0 = Some (True, cs_demo1)" by (simp add: cs_demo_simps)
  have c: "cs_DispatchTask 1 cs_demo1 = Some (True, cs_demo)" by (simp add: cs_demo_simps)
  show ?thesis by (rule cl_reach_dispatch [OF cl_reach_dispatch [OF r0 b] c])
qed

lemma cs_demo_registered: "cs_id_cr cs_demo 11 = Some 1"
  by (simp add: cs_demo_simps cs_Notify_def cs_set_queue_def)

text \<open>The removal of task 11, up to the wait, while no processor runs it.\<close>

definition cs_demo_leaving :: sched_classic where
  "cs_demo_leaving = snd (cs_Remove_find 11 ''g'' 19 (snd (the (cs_Remove_unregister 11 cs_demo))))"

definition cs_demo_ops :: "u64 \<Rightarrow> cs_op option" where "cs_demo_ops = [11 \<mapsto> Waiting 1 ''g'' 19]"

lemma cs_demo_leaving_eq:
  "cs_Remove_unregister 11 cs_demo = Some ((1, ''g'', 19), snd (the (cs_Remove_unregister 11 cs_demo)))"
  "cs_Remove_find 11 ''g'' 19 (snd (the (cs_Remove_unregister 11 cs_demo))) = (Some 1, cs_demo_leaving)"
  "cs_queue cs_demo_leaving ''g'' 19 = [1]"
proof -
  have 1: "cr_id (cs_heap cs_demo 1) = 11" by (simp add: cs_demo_simps)
  show "cs_Remove_unregister 11 cs_demo = Some ((1, ''g'', 19), snd (the (cs_Remove_unregister 11 cs_demo)))"
    using cs_demo_parts by (simp add: cs_Remove_unregister_def cs_demo_registered)
  show "cs_Remove_find 11 ''g'' 19 (snd (the (cs_Remove_unregister 11 cs_demo))) = (Some 1, cs_demo_leaving)"
    using 1 by (simp add: cs_demo_leaving_def cs_Remove_find_def cs_Remove_unregister_def cs_demo_registered cs_demo_parts cr_Stop_def)
  show "cs_queue cs_demo_leaving ''g'' 19 = [1]"
    using 1 by (simp add: cs_demo_leaving_def cs_Remove_find_def cs_Remove_unregister_def cs_demo_registered cs_demo_parts cr_Stop_def)
qed

lemma cs_demo_leaving_reach: "reach (cs_new cs_demo_conf None, \<lambda>_. None) cl_step (cs_demo_leaving, cs_demo_ops)"
proof -
  let ?t = "snd (the (cs_Remove_unregister 11 cs_demo))"
  have "cl_step (cs_demo, \<lambda>_. None) (?t, (\<lambda>_. None)(11 \<mapsto> Removing 1 ''g'' 19))"
    by (rule cl_unregister [OF _ cs_demo_leaving_eq(1)]) simp
  moreover have "cl_step (?t, (\<lambda>_. None)(11 \<mapsto> Removing 1 ''g'' 19))
      (cs_demo_leaving, ((\<lambda>_. None)(11 \<mapsto> Removing 1 ''g'' 19))(11 := map_option (\<lambda>b. Waiting b ''g'' 19) (Some 1)))"
    by (rule cl_find [OF _ _ cs_demo_leaving_eq(2)]) (simp_all add: cs_held_def)
  ultimately show ?thesis
    using reach_step [OF reach_step [OF cs_demo_reach]] by (simp add: cs_demo_ops_def)
qed

lemma classic_task_queued_once_witness:
  "cs_queued cs_demo_leaving = {a. \<exists>k. cs_id_cr cs_demo_leaving k = Some a \<and> cs_demo_ops k \<noteq> Some (Dispatching a)
      \<or> cs_being_removed cs_demo_ops k a}
    \<and> 1 \<in> cs_queued cs_demo_leaving \<and> cs_id_cr cs_demo_leaving 11 = None \<and> cr_force_stop (cs_heap cs_demo_leaving 1)"
proof -
  note r = classic_task_queued_once [OF cs_demo_leaving_reach]
  have b: "cs_being_removed cs_demo_ops 11 1" by (simp add: cs_being_removed_def cs_demo_ops_def)
  then have "cs_id_cr cs_demo_leaving 11 = None \<and> cr_force_stop (cs_heap cs_demo_leaving 1)"
    using r by blast
  moreover have "1 \<in> cs_queued cs_demo_leaving"
    unfolding cs_queued_def mem_Collect_eq
    by (intro exI [of _ "''g''"] exI [of _ 19]) (simp add: cs_demo_leaving_eq(3) MAX_PRIO_def)
  ultimately show ?thesis using r by (intro conjI) (elim conjunct1, blast+)
qed

text \<open>While a removal waits, its task cannot be taken by a processor any more: the queue is locked.\<close>

lemma cl_waiting_step:
  assumes "cl_step so so'" and "cl_ok so" and "snd so k = Some (Waiting a g i)"
  shows "snd so' k = None \<and> cs_Remove_finish g i a (fst so) = Some (fst so')
    \<or> snd so' k = Some (Waiting a g i) \<and> (\<not> cr_lock (cs_heap (fst so) a) \<longrightarrow> \<not> cr_lock (cs_heap (fst so') a))"
  using assms
proof (induction rule: cl_step.induct)
  case (cl_make s b ops c)
  then show ?case by auto
next
  case (cl_register s b ops s')
  then show ?case by (auto simp: cs_Dispatch_register_def split: if_splits)
next
  case (cl_enqueue ops j b s s')
  have "cs_id_cr (cs_settled ops s) k = Some a" using cl_leaving(1) [OF cl_enqueue(4)] cl_enqueue(5) by simp
  then have "cr_id (cs_heap s a) = k" using cs_okD(5) [OF cl_okD(1) [OF cl_enqueue(4)]] by simp
  moreover have "cr_id (cs_heap s b) = j" using cl_okD(2) [OF cl_enqueue(4,1)] by simp
  moreover have "j \<noteq> k" using cl_enqueue(1,5) by auto
  ultimately have "a \<noteq> b" by auto
  then show ?case using cl_enqueue \<open>j \<noteq> k\<close> by (auto simp: cs_Dispatch_enqueue_def Let_def split: bind_splits)
next
  case (cl_unregister ops j s b h m s')
  then show ?case by (auto simp: cs_Remove_unregister_def cr_Stop_def split: option.splits if_splits)
next
  case (cl_find ops j b h m s r s')
  then show ?case by (auto simp: cs_Remove_find_def cr_Stop_def split: option.splits if_splits)
next
  case (cl_finish ops j b h m s s')
  then show ?case by (auto simp: cs_Remove_finish_eq split: if_splits)
next
  case (cl_notify crid s b s' ops)
  then show ?case by (auto simp: cs_NotifyProcessor_def cr_SetUpdateFlag_def split: if_splits option.splits)
next
  case (cl_scan j ops h now s w r h' w')
  have w: "Waiting a g i = Removing a g i \<or> Waiting a g i = Waiting a g i" by simp
  note l = cl_leaving [OF cl_scan(4) cl_scan(5) [unfolded snd_conv] w]
  have "a \<notin> set (cs_queue s h j)"
    using cs_okD(3,4) [OF cl_okD(1) [OF cl_scan(4)] cl_scan(1), of a h] l(2) cl_scan(2,5)
    by (auto simp: cs_held_def cs_leaving_def)
  then have "h' a = cs_heap s a" using cl_scan_ok(2) [OF cl_scan(4,1,3)] by (simp add: scanned_def)
  then show ?case using cl_scan(5) by simp
next
  case (cl_resume s b body ops)
  then show ?case using own_stepD [of body "cs_heap s b"] by auto
next
  case (cl_release s b ops)
  then show ?case by (auto simp: cr_Release_def)
qed auto

text \<open>C16: Removing a task is final, in every state the scheduler's threads can reach. When nothing else
  works on the id, the first critical section of \<open>RemoveCRoutine\<close> on a registered task stops it and
  unregisters it and nothing else, the task staying in its queue; the search finds the task there.
  Then the removal waits exactly as long as a processor holds the task: when the task's lock is
  free, the removal ends, answers true, and leaves the task stopped, unlocked, registered nowhere and
  in no queue of any group, every other task registered, queued and unchanged as before. And
  whatever step any thread does while it waits, the removal either has just ended or still waits, and
  a task that was free then is free still, so the next turn of the waiting loop ends the removal.\<close>

theorem classic_remove_is_final:
  assumes "reach (cs_new conf n, \<lambda>_. None) cl_step (s, ops)"
  shows "(\<forall>k a. ops k = None \<and> cs_id_cr s k = Some a \<longrightarrow> (\<exists>s1.
        cs_Remove_unregister k s = Some ((a, cr_group_name (cs_heap s a), unat (cr_priority (cs_heap s a))), s1)
      \<and> cs_id_cr s1 = (cs_id_cr s)(k := None) \<and> cs_cr_group s1 = cs_cr_group s \<and> cs_heap s1 = (cs_heap s)(a := cr_Stop (cs_heap s a))
      \<and> a \<in> cs_queued s1))
    \<and> (\<forall>k a g i. ops k = Some (Removing a g i) \<longrightarrow> fst (cs_Remove_find k g i s) = Some a)
    \<and> (\<forall>k a g i. ops k = Some (Waiting a g i) \<longrightarrow>
        (case cs_Remove_finish g i a s of
           None \<Rightarrow> cr_lock (cs_heap s a)
         | Some s' \<Rightarrow> \<not> cr_lock (cs_heap s a) \<and> cs_Remove_wait others g i a s = Some s'
             \<and> cs_id_cr s' = cs_id_cr s \<and> cs_id_cr s' k = None
             \<and> (\<forall>h j. j < MAX_PRIO \<longrightarrow> set (cs_queue s' h j) = set (cs_queue s h j) - {a})
             \<and> cr_force_stop (cs_heap s' a) \<and> \<not> cr_lock (cs_heap s' a) \<and> (\<forall>b. b \<noteq> a \<longrightarrow> cs_heap s' b = cs_heap s b))
        \<and> (\<forall>s' ops'. cl_step (s, ops) (s', ops') \<longrightarrow>
             ops' k = None \<and> cs_Remove_finish g i a s = Some s'
             \<or> ops' k = ops k \<and> (\<not> cr_lock (cs_heap s a) \<longrightarrow> \<not> cr_lock (cs_heap s' a))))"
proof (intro conjI allI impI; (elim conjE)?)
  have c: "cl_ok (s, ops)" by (rule cl_reach_ok [OF assms])
  fix k a assume k: "ops k = None" "cs_id_cr s k = Some a"
  have "cs_id_cr (cs_settled ops s) k = Some a" using k by simp
  note q = cs_okD(6,7) [OF cl_okD(1) [OF c] this]
  show "\<exists>s1. cs_Remove_unregister k s = Some ((a, cr_group_name (cs_heap s a), unat (cr_priority (cs_heap s a))), s1)
      \<and> cs_id_cr s1 = (cs_id_cr s)(k := None) \<and> cs_cr_group s1 = cs_cr_group s \<and> cs_heap s1 = (cs_heap s)(a := cr_Stop (cs_heap s a))
      \<and> a \<in> cs_queued s1"
    using k(2) q by (auto simp: cs_Remove_unregister_def cs_queued_def)
next
  have c: "cl_ok (s, ops)" by (rule cl_reach_ok [OF assms])
  fix k a g i assume "ops k = Some (Removing a g i)"
  from cl_find_ok(1) [OF c this] show "fst (cs_Remove_find k g i s) = Some a" by (metis prod.collapse)
next
  have c: "cl_ok (s, ops)" by (rule cl_reach_ok [OF assms])
  fix k a g i assume w: "ops k = Some (Waiting a g i)"
  have leaving: "cs_leaving s k a g i" using cl_okD(2) [OF c w] by simp
  have wait: "cs_Remove_finish g i a s = Some s' \<Longrightarrow> cs_Remove_wait others g i a s = Some s'" for s'
    by (cases others) simp_all
  show "case cs_Remove_finish g i a s of
           None \<Rightarrow> cr_lock (cs_heap s a)
         | Some s' \<Rightarrow> \<not> cr_lock (cs_heap s a) \<and> cs_Remove_wait others g i a s = Some s'
             \<and> cs_id_cr s' = cs_id_cr s \<and> cs_id_cr s' k = None
             \<and> (\<forall>h j. j < MAX_PRIO \<longrightarrow> set (cs_queue s' h j) = set (cs_queue s h j) - {a})
             \<and> cr_force_stop (cs_heap s' a) \<and> \<not> cr_lock (cs_heap s' a) \<and> (\<forall>b. b \<noteq> a \<longrightarrow> cs_heap s' b = cs_heap s b)"
  proof (cases "cs_Remove_finish g i a s")
    case None
    then show ?thesis by (simp add: cs_Remove_finish_eq split: if_splits)
  next
    case (Some s')
    note f = cl_finish_ok(2) [OF c w Some]
    have "\<not> cr_lock (cs_heap s a)"
      "s' = cs_set_queue g i (remove1 a (cs_queue s g i)) (cs_set a (\<lambda>c. c\<lparr>cr_lock := False\<rparr>) s)"
      using Some by (simp_all add: cs_Remove_finish_eq split: if_splits)
    then show ?thesis
      using f wait [OF Some] leaving unfolding Some by (simp add: cs_leaving_def)
  qed
  fix s' ops' assume "cl_step (s, ops) (s', ops')"
  from cl_waiting_step [OF this c, of k a g i] w
  show "ops' k = None \<and> cs_Remove_finish g i a s = Some s'
      \<or> ops' k = ops k \<and> (\<not> cr_lock (cs_heap s a) \<longrightarrow> \<not> cr_lock (cs_heap s' a))" by simp
qed

lemma classic_remove_is_final_witness:
  "\<exists>s'. cs_Remove_finish ''g'' 19 1 cs_demo_leaving = Some s' \<and> cs_id_cr s' 11 = None \<and> set (cs_queue s' ''g'' 19) = {}"
proof -
  note r = classic_remove_is_final [OF cs_demo_leaving_reach, of "[]"]
  have w: "cs_demo_ops 11 = Some (Waiting 1 ''g'' 19)" by (simp add: cs_demo_ops_def)
  have "\<not> cr_lock (cs_heap cs_demo_leaving 1)"
    by (simp add: cs_demo_leaving_def cs_Remove_find_def cs_Remove_unregister_def cs_demo_registered cs_demo_parts [simplified] cr_Stop_def)
  then obtain s' where s': "cs_Remove_finish ''g'' 19 1 cs_demo_leaving = Some s'"
    by (simp add: cs_Remove_finish_eq)
  have q: "cs_id_cr s' 11 = None" "\<forall>h j. j < MAX_PRIO \<longrightarrow> set (cs_queue s' h j) = set (cs_queue cs_demo_leaving h j) - {1}"
    using r w s' by (auto split: option.splits)
  have "set (cs_queue s' ''g'' 19) = set [1] - {1}"
    using q(2) [rule_format, of 19 "''g''"] by (simp only: cs_demo_leaving_eq(3)) (simp add: MAX_PRIO_def)
  then show ?thesis using s' q(1) by simp
qed

end
