(* ===== verification/Scheduler_Choreo.thy ===== *)
theory Scheduler_Choreo
  imports Scheduler_Classic
begin

text \<open>
  The choreography policy (scheduler/policy/scheduler_choreography.cc, choreography_context.cc):
  some tasks are pinned to a processor with a queue of its own, ordered by priority, the rest share
  a pool of processors that run the classic contexts of the default group. \<open>co_pctxs\<close> holds the
  contexts of the first \<open>proc_num_\<close> processors; an access to the contexts past them as one of a
  pinned processor (a wrong \<open>static_cast\<close>, or an index past the array) is undefined, and so is
  \<open>None\<close>, as is an exception of \<open>array::at\<close>. The critical sections of dispatch and removal are
  definitions of their own, as for the classic policy, and the step relation \<open>co_step\<close> interleaves
  them: a dispatch configures the routine, then registers it, then puts it into its queue; a removal
  unregisters and stops it, then finds it in its queue and waits for it with the queue locked.
\<close>

section \<open>The context of a pinned processor\<close>

record choreo_context =
  cq_queue :: "(u32 \<times> nat) list"
  cq_stop :: bool
  cq_notified :: bool
  cq_wakeups :: nat

definition cq_new :: choreo_context where
  "cq_new = \<lparr>cq_queue = [], cq_stop = False, cq_notified = False, cq_wakeups = 0\<rparr>"

text \<open>\<open>emplace\<close> of a multimap ordered by \<open>std::greater\<close>: behind the entries with the same key.\<close>

fun mm_emplace :: "u32 \<Rightarrow> nat \<Rightarrow> (u32 \<times> nat) list \<Rightarrow> (u32 \<times> nat) list" where
  "mm_emplace k v [] = [(k, v)]"
| "mm_emplace k v (e # es) = (if k \<le> fst e then e # mm_emplace k v es else (k, v) # e # es)"

definition cq_Enqueue :: "u32 \<Rightarrow> nat \<Rightarrow> choreo_context \<Rightarrow> choreo_context" where
  "cq_Enqueue prio a x = x\<lparr>cq_queue := mm_emplace prio a (cq_queue x)\<rparr>"

definition cq_Notify :: "choreo_context \<Rightarrow> choreo_context" where
  "cq_Notify x = (if cq_notified x then x else x\<lparr>cq_notified := True, cq_wakeups := Suc (cq_wakeups x)\<rparr>)"

fun cq_scan :: "nat \<Rightarrow> (u32 \<times> nat) list \<Rightarrow> heap \<Rightarrow> nat option \<times> heap" where
  "cq_scan now [] h = (None, h)"
| "cq_scan now ((k, a) # es) h =
     (let (got, c) = cr_Acquire (h a); h = h(a := c) in
      if \<not> got then cq_scan now es h
      else (let (st, c) = cr_UpdateState now c; h = h(a := c) in
        if st = READY then (Some a, h)
        else cq_scan now es (h(a := cr_Release c))))"

definition cq_NextRoutine :: "nat \<Rightarrow> choreo_context \<times> heap \<Rightarrow> nat option \<times> choreo_context \<times> heap" where
  "cq_NextRoutine now xh = (case xh of (x, h) \<Rightarrow>
     if cq_stop x then (None, x, h)
     else (case cq_scan now (cq_queue x) h of
         (Some a, h) \<Rightarrow> (Some a, x, h)
       | (None, h) \<Rightarrow> (None, x\<lparr>cq_notified := False\<rparr>, h)))"

text \<open>\<open>Wait\<close> blocks for a millisecond or until notified, and changes nothing.\<close>

definition cq_Wait :: "nat \<Rightarrow> choreo_context \<times> heap \<Rightarrow> choreo_context \<times> heap" where
  "cq_Wait now xh = xh"

definition cq_Shutdown :: "choreo_context \<Rightarrow> choreo_context" where "cq_Shutdown x = x\<lparr>cq_stop := True\<rparr>"

text \<open>\<open>RemoveCRoutine\<close> of the context, all of it under the lock of the queue: the first entry with the id
  is stopped, waited for (\<open>None\<close>: another turn of the loop that waits) and erased.\<close>

fun cq_erase :: "nat \<Rightarrow> (u32 \<times> nat) list \<Rightarrow> (u32 \<times> nat) list" where
  "cq_erase b [] = []"
| "cq_erase b ((k, a) # es) = (if a = b then es else (k, a) # cq_erase b es)"

definition cq_Remove_find :: "u64 \<Rightarrow> choreo_context \<times> heap \<Rightarrow> nat option \<times> choreo_context \<times> heap" where
  "cq_Remove_find crid xh = (case xh of (x, h) \<Rightarrow>
     (case find (\<lambda>e. cr_id (h (snd e)) = crid) (cq_queue x) of
        None \<Rightarrow> (None, x, h)
      | Some e \<Rightarrow> (Some (snd e), x, h(snd e := cr_Stop (h (snd e))))))"

definition cq_Remove_finish :: "nat \<Rightarrow> choreo_context \<times> heap \<Rightarrow> (choreo_context \<times> heap) option" where
  "cq_Remove_finish b xh = (case xh of (x, h) \<Rightarrow>
     (let (got, c) = cr_Acquire (h b) in
      if \<not> got then None else Some (x\<lparr>cq_queue := cq_erase b (cq_queue x)\<rparr>, h(b := cr_Release c))))"

section \<open>The scheduler\<close>

record sched_choreo =
  co_stop :: bool
  co_heap :: heap
  co_id_cr :: "u64 \<Rightarrow> nat option"
  co_pctxs :: "choreo_context list"
  co_pool :: "string \<Rightarrow> nat list list"
  co_confs :: "string \<Rightarrow> (u32 \<times> i32 option) option"
  co_proc_num :: u32
  co_pool_size :: u32
  co_notified :: "string list"

text \<open>The constructor with \<open>CreateProcessor\<close>: a configuration gives the numbers of pinned and of pool
  processors and the tasks; without one, or with no pinned processor, both numbers are the default.\<close>

definition co_new :: "(u32 \<times> u32 \<times> (string \<Rightarrow> (u32 \<times> i32 option) option)) option \<Rightarrow> u32 option \<Rightarrow> sched_choreo" where
  "co_new conf default_proc_num =
     (let (n, pool, confs) = (case conf of Some c \<Rightarrow> c | None \<Rightarrow> (0, 0, \<lambda>_. None));
          (n, pool) = (if n = 0 then (let d = (case default_proc_num of Some d \<Rightarrow> d | None \<Rightarrow> 2) in (d, d)) else (n, pool)) in
      \<lparr>co_stop = False, co_heap = (\<lambda>_. cr_new 0), co_id_cr = (\<lambda>_. None), co_pctxs = replicate (unat n) cq_new,
       co_pool = (\<lambda>_. replicate MAX_PRIO []), co_confs = confs, co_proc_num = n, co_pool_size = pool, co_notified = []\<rparr>)"

definition co_set :: "nat \<Rightarrow> croutine \<Rightarrow> sched_choreo \<Rightarrow> sched_choreo" where
  "co_set a c s = s\<lparr>co_heap := (co_heap s)(a := c)\<rparr>"

definition co_set_ctx :: "nat \<Rightarrow> choreo_context \<Rightarrow> sched_choreo \<Rightarrow> sched_choreo" where
  "co_set_ctx i x s = s\<lparr>co_pctxs := (co_pctxs s)[i := x]\<rparr>"

definition co_set_pool :: "string \<Rightarrow> nat \<Rightarrow> nat list \<Rightarrow> sched_choreo \<Rightarrow> sched_choreo" where
  "co_set_pool g i q s = s\<lparr>co_pool := (co_pool s)(g := (co_pool s g)[i := q])\<rparr>"

definition co_configure :: "sched_choreo \<Rightarrow> croutine \<Rightarrow> croutine" where
  "co_configure s c = (case co_confs s (cr_name c) of
       None \<Rightarrow> c
     | Some (prio, proc) \<Rightarrow> (let c = c\<lparr>cr_priority := prio\<rparr> in
         case proc of None \<Rightarrow> c | Some p \<Rightarrow> c\<lparr>cr_processor_id := p\<rparr>))"

text \<open>A routine without a processor goes to the pool; a priority that is too high becomes the highest.\<close>

definition co_to_pool :: "croutine \<Rightarrow> croutine" where
  "co_to_pool c = (if MAX_PRIO \<le> unat (cr_priority c) then c\<lparr>cr_priority := of_nat (MAX_PRIO - 1)\<rparr> else c)
     \<lparr>cr_group_name := DEFAULT_GROUP_NAME\<rparr>"

text \<open>The critical sections of a dispatch: the routine gets its configured priority and processor; it
  is registered (\<open>None\<close>: the id is taken, the call returns false); it is put into its queue (\<open>None\<close>:
  an access past the contexts).\<close>

definition co_Dispatch_configure :: "nat \<Rightarrow> sched_choreo \<Rightarrow> sched_choreo" where
  "co_Dispatch_configure a s = co_set a (co_configure s (co_heap s a)) s"

definition co_Dispatch_register :: "nat \<Rightarrow> sched_choreo \<Rightarrow> sched_choreo option" where
  "co_Dispatch_register a s =
     (if co_id_cr s (cr_id (co_heap s a)) \<noteq> None then None
      else Some (s\<lparr>co_id_cr := (co_id_cr s)(cr_id (co_heap s a) \<mapsto> a)\<rparr>))"

definition co_Dispatch_enqueue :: "nat \<Rightarrow> sched_choreo \<Rightarrow> sched_choreo option" where
  "co_Dispatch_enqueue a s =
     (let c = co_heap s a; pid = cr_processor_id c in
      if pid < co_proc_num s then
        (if unat pid < length (co_pctxs s)
         then Some (co_set_ctx (unat pid) (cq_Enqueue (cr_priority c) a (co_pctxs s ! unat pid)) s)
         else None)
      else (let c = co_to_pool c; i = unat (cr_priority c); g = DEFAULT_GROUP_NAME in
        Some (co_set_pool g i (co_pool s g ! i @ [a]) (co_set a c s))))"

definition co_DispatchTask :: "nat \<Rightarrow> sched_choreo \<Rightarrow> (bool \<times> sched_choreo) option" where
  "co_DispatchTask a s =
     (let s = co_Dispatch_configure a s in
      case co_Dispatch_register a s of
        None \<Rightarrow> Some (False, s)
      | Some s \<Rightarrow> map_option (Pair True) (co_Dispatch_enqueue a s))"

text \<open>The critical sections of a removal: the routine is stopped and unregistered, and its place noted
  (\<open>None\<close>: it is not registered); under the lock of that place the first routine with the id is
  found and stopped (\<open>None\<close>: there is no such place); and, with that lock still held, it is erased
  once its own lock could be acquired. A place is a pinned processor's queue or a pool queue.\<close>

definition co_place_of :: "croutine \<Rightarrow> nat + string \<times> nat" where
  "co_place_of c = (if cr_processor_id c = - 1 then Inr (cr_group_name c, unat (cr_priority c))
     else Inl (unat (cr_processor_id c)))"

definition co_Remove_unregister :: "u64 \<Rightarrow> sched_choreo \<Rightarrow> ((nat \<times> (nat + string \<times> nat)) \<times> sched_choreo) option" where
  "co_Remove_unregister crid s =
     (case co_id_cr s crid of
        None \<Rightarrow> None
      | Some a \<Rightarrow> Some ((a, co_place_of (co_heap s a)),
          co_set a (cr_Stop (co_heap s a)) (s\<lparr>co_id_cr := (co_id_cr s)(crid := None)\<rparr>)))"

definition co_Remove_find :: "u64 \<Rightarrow> nat + string \<times> nat \<Rightarrow> sched_choreo \<Rightarrow> (nat option \<times> sched_choreo) option" where
  "co_Remove_find crid pl s = (case pl of
       Inr (g, i) \<Rightarrow>
         (if MAX_PRIO \<le> i then None
          else Some (case find (\<lambda>a. cr_id (co_heap s a) = crid) (co_pool s g ! i) of
              None \<Rightarrow> (None, s)
            | Some b \<Rightarrow> (Some b, co_set b (cr_Stop (co_heap s b)) s)))
     | Inl i \<Rightarrow>
         (if length (co_pctxs s) \<le> i then None
          else (let (r, x, h) = cq_Remove_find crid (co_pctxs s ! i, co_heap s) in Some (r, co_set_ctx i x (s\<lparr>co_heap := h\<rparr>)))))"

definition co_Remove_finish :: "nat + string \<times> nat \<Rightarrow> nat \<Rightarrow> sched_choreo \<Rightarrow> sched_choreo option" where
  "co_Remove_finish pl b s = (case pl of
       Inr (g, i) \<Rightarrow>
         (let (got, c) = cr_Acquire (co_heap s b) in
          if \<not> got then None
          else Some (co_set b (cr_Release c) (co_set_pool g i (remove1 b (co_pool s g ! i)) s)))
     | Inl i \<Rightarrow>
         map_option (\<lambda>(x, h). co_set_ctx i x (s\<lparr>co_heap := h\<rparr>)) (cq_Remove_finish b (co_pctxs s ! i, co_heap s)))"

text \<open>The loop that waits; \<open>others\<close> is what the other threads do in each of its sleeps, and the value
  is \<open>None\<close> when it still waits after them. A removal from a pinned processor answers true even
  when it found nothing.\<close>

fun co_Remove_wait :: "(sched_choreo \<Rightarrow> sched_choreo) list \<Rightarrow> nat + string \<times> nat \<Rightarrow> nat \<Rightarrow> sched_choreo \<Rightarrow> sched_choreo option" where
  "co_Remove_wait [] pl b s = co_Remove_finish pl b s"
| "co_Remove_wait (f # fs) pl b s =
     (case co_Remove_finish pl b s of None \<Rightarrow> co_Remove_wait fs pl b (f s) | Some s \<Rightarrow> Some s)"

definition co_RemoveCRoutine :: "(sched_choreo \<Rightarrow> sched_choreo) list \<Rightarrow> u64 \<Rightarrow> sched_choreo \<Rightarrow> (bool \<times> sched_choreo) option" where
  "co_RemoveCRoutine others crid s =
     (case co_Remove_unregister crid s of
        None \<Rightarrow> Some (False, s)
      | Some ((a, pl), s) \<Rightarrow>
          (case co_Remove_find crid pl s of
             None \<Rightarrow> None
           | Some (None, s) \<Rightarrow> Some (isl pl, s)
           | Some (Some b, s) \<Rightarrow> map_option (Pair True) (co_Remove_wait others pl b s)))"

definition co_RemoveTask :: "(sched_choreo \<Rightarrow> sched_choreo) list \<Rightarrow> (string \<Rightarrow> u64) \<Rightarrow> string \<Rightarrow> sched_choreo \<Rightarrow> (bool \<times> sched_choreo) option" where
  "co_RemoveTask others hash name s = (if co_stop s then Some (True, s) else co_RemoveCRoutine others (hash name) s)"

definition co_NotifyProcessor :: "u64 \<Rightarrow> sched_choreo \<Rightarrow> (bool \<times> sched_choreo) option" where
  "co_NotifyProcessor crid s =
     (if co_stop s then Some (True, s)
      else (case co_id_cr s crid of
        None \<Rightarrow> Some (False, s)
      | Some a \<Rightarrow>
          (let c = co_heap s a; pid = cr_processor_id c;
               s = (if cr_waits c then co_set a (cr_SetUpdateFlag c) s else s) in
           if pid \<noteq> - 1 then
             (if length (co_pctxs s) \<le> unat pid then None
              else Some (True, co_set_ctx (unat pid) (cq_Notify (co_pctxs s ! unat pid)) s))
           else Some (True, s\<lparr>co_notified := co_notified s @ [cr_group_name c]\<rparr>))))"

section \<open>The loop over a queue\<close>

lemma cq_scan_locked: "cr_lock (h a) \<Longrightarrow> cq_scan now ((k, a) # es) h = cq_scan now es h"
  by (simp add: cr_Acquire_def Let_def set_lock_same fun_upd_idem)

lemma cq_scan_skip:
  "\<not> cr_lock (h a) \<Longrightarrow> \<not> cr_runnable now (h a) \<Longrightarrow>
    cq_scan now ((k, a) # es) h = cq_scan now es (h(a := snd (cr_UpdateState now (h a))))"
  by (simp add: cr_Acquire_def Let_def update_locked cr_UpdateState_ready release_unlocked split: prod.splits)

lemma cq_scan_hit:
  "candidate now h a \<Longrightarrow>
    cq_scan now ((k, a) # es) h = (Some a, h(a := (snd (cr_UpdateState now (h a)))\<lparr>cr_lock := True\<rparr>))"
  by (simp add: cr_Acquire_def Let_def update_locked cr_UpdateState_ready candidate_def split: prod.splits)

declare cq_scan.simps(2) [simp del]

lemma cq_scan_eq:
  "cq_scan now es h = (fst (scan_queue now (map snd es) (h, w)), fst (snd (scan_queue now (map snd es) (h, w))))"
proof (induction es arbitrary: h w)
  case (Cons e es)
  obtain k a where e: "e = (k, a)" by (cases e)
  show ?case
    by (cases rule: scan_cases [of h a _ now])
      (simp_all only: e list.map snd_conv fst_conv cq_scan_locked scan_locked cq_scan_skip scan_skip cq_scan_hit scan_hit Cons.IH [symmetric] simp_thms)
qed simp

lemma cq_scan_spec:
  "distinct (map snd es) \<Longrightarrow> fst (cq_scan now es h) = find (candidate now h) (map snd es)
     \<and> snd (cq_scan now es h) = scanned now (map snd es) h"
  using scan_queue_spec [of "map snd es" now h "(False, 0)"] cq_scan_eq [of now es h "(False, 0)"] by simp

lemma cq_erase_snd: "map snd (cq_erase b es) = remove1 b (map snd es)"
  by (induction b es rule: cq_erase.induct) auto

section \<open>Queues ordered by priority\<close>

definition desc :: "(u32 \<times> nat) list \<Rightarrow> bool" where "desc = sorted_wrt (\<lambda>x y. fst y \<le> fst x)"

lemma mm_emplace_set [simp]: "set (mm_emplace k v es) = insert (k, v) (set es)"
  by (induction es) auto

lemma mm_emplace_desc: "desc es \<Longrightarrow> desc (mm_emplace k v es)"
  by (induction es) (auto simp: desc_def)

text \<open>The entry goes behind all entries of at least its priority and before the others.\<close>

lemma mm_emplace_split:
  "desc es \<Longrightarrow> mm_emplace k v es = filter (\<lambda>e. k \<le> fst e) es @ (k, v) # filter (\<lambda>e. \<not> k \<le> fst e) es"
proof (induction es)
  case (Cons e es)
  show ?case
  proof (cases "k \<le> fst e")
    case True
    then show ?thesis using Cons by (simp add: desc_def)
  next
    case False
    then have "\<not> k \<le> fst x" if "x \<in> set es" for x using Cons.prems that by (auto simp: desc_def)
    then have "filter (\<lambda>e. k \<le> fst e) es = []" "filter (\<lambda>e. \<not> k \<le> fst e) es = es" by simp_all
    then show ?thesis using False by simp
  qed
qed simp

lemma mm_emplace_distinct:
  "distinct (map snd es) \<Longrightarrow> v \<notin> snd ` set es \<Longrightarrow> distinct (map snd (mm_emplace k v es))"
  by (induction es) auto

lemma cq_erase_sub: "\<exists>xs ys zs. es = xs @ ys @ zs \<and> cq_erase b es = xs @ zs"
proof (induction b es rule: cq_erase.induct)
  case (1 b)
  then show ?case by simp
next
  case (2 b k a es)
  show ?case
  proof (cases "a = b")
    case True
    then have "(k, a) # es = [] @ [(k, a)] @ es \<and> cq_erase b ((k, a) # es) = [] @ es" by simp
    then show ?thesis by blast
  next
    case False
    then obtain xs ys zs where "es = xs @ ys @ zs" "cq_erase b es = xs @ zs" using 2 by blast
    then have "(k, a) # es = ((k, a) # xs) @ ys @ zs \<and> cq_erase b ((k, a) # es) = ((k, a) # xs) @ zs" using False by simp
    then show ?thesis by blast
  qed
qed

section \<open>The tasks and the queues agree\<close>

text \<open>The places a task can be: the queue of a pinned processor, or a pool queue of a group; what is
  in a place, and where a task belongs.\<close>

definition co_places :: "sched_choreo \<Rightarrow> (nat + string \<times> nat) set" where
  "co_places s = Inl ` {i. i < unat (co_proc_num s)} \<union> Inr ` {(g, i). i < MAX_PRIO}"

definition co_queues :: "sched_choreo \<Rightarrow> (u32 \<times> nat) list list" where
  "co_queues s = map cq_queue (co_pctxs s)"

fun co_at :: "sched_choreo \<Rightarrow> nat + string \<times> nat \<Rightarrow> nat list" where
  "co_at s (Inl i) = map snd (co_queues s ! i)"
| "co_at s (Inr (g, i)) = co_pool s g ! i"

definition co_home :: "u32 \<Rightarrow> croutine \<Rightarrow> nat + string \<times> nat" where
  "co_home n c = (if cr_processor_id c < n then Inl (unat (cr_processor_id c))
     else Inr (cr_group_name c, unat (cr_priority c)))"

definition co_ok :: "sched_choreo \<Rightarrow> bool" where
  "co_ok s \<longleftrightarrow> length (co_queues s) = unat (co_proc_num s) \<and> (\<forall>g. length (co_pool s g) = MAX_PRIO)
     \<and> (\<forall>pl \<in> co_places s. distinct (co_at s pl)
          \<and> (\<forall>a \<in> set (co_at s pl). co_id_cr s (cr_id (co_heap s a)) = Some a \<and> co_home (co_proc_num s) (co_heap s a) = pl))
     \<and> (\<forall>k a. co_id_cr s k = Some a \<longrightarrow> cr_id (co_heap s a) = k
          \<and> co_home (co_proc_num s) (co_heap s a) \<in> co_places s
          \<and> a \<in> set (co_at s (co_home (co_proc_num s) (co_heap s a))))
     \<and> (\<forall>q \<in> set (co_queues s). desc q \<and> (\<forall>e \<in> set q. fst e = cr_priority (co_heap s (snd e))))"

lemma co_okD:
  assumes "co_ok s"
  shows "length (co_queues s) = unat (co_proc_num s)" and "length (co_pool s g) = MAX_PRIO"
    and "pl \<in> co_places s \<Longrightarrow> distinct (co_at s pl)"
    and "pl \<in> co_places s \<Longrightarrow> a \<in> set (co_at s pl) \<Longrightarrow> co_id_cr s (cr_id (co_heap s a)) = Some a"
    and "pl \<in> co_places s \<Longrightarrow> a \<in> set (co_at s pl) \<Longrightarrow> co_home (co_proc_num s) (co_heap s a) = pl"
    and "co_id_cr s k = Some a \<Longrightarrow> cr_id (co_heap s a) = k"
    and "co_id_cr s k = Some a \<Longrightarrow> co_home (co_proc_num s) (co_heap s a) \<in> co_places s"
    and "co_id_cr s k = Some a \<Longrightarrow> a \<in> set (co_at s (co_home (co_proc_num s) (co_heap s a)))"
    and "q \<in> set (co_queues s) \<Longrightarrow> desc q"
    and "q \<in> set (co_queues s) \<Longrightarrow> e \<in> set q \<Longrightarrow> fst e = cr_priority (co_heap s (snd e))"
  using assms by (simp_all add: co_ok_def)

text \<open>What stays when a routine's own fields change: its id, its processor, its group, its priority.\<close>

definition same_task :: "croutine \<Rightarrow> croutine \<Rightarrow> bool" where
  "same_task c d \<longleftrightarrow> same_place c d \<and> cr_processor_id c = cr_processor_id d"

lemma same_task_home: "same_task c d \<Longrightarrow> co_home n c = co_home n d \<and> cr_id c = cr_id d \<and> cr_priority c = cr_priority d"
  by (simp add: same_task_def same_place_def co_home_def)

text \<open>The invariant speaks of queues, registration and the tasks' fields only.\<close>

lemma co_ok_cong:
  assumes "co_ok s" and "co_queues t = co_queues s" and "co_pool t = co_pool s" and "co_id_cr t = co_id_cr s"
    and "co_proc_num t = co_proc_num s" and "\<And>a. same_task (co_heap t a) (co_heap s a)"
  shows "co_ok t"
proof -
  have at: "co_at t = co_at s"
    by (rule ext, rename_tac pl, case_tac pl) (auto simp: assms(2,3))
  have pl: "co_places t = co_places s" by (simp add: co_places_def assms(5))
  show ?thesis
    using assms(1) same_task_home [OF assms(6)] by (simp add: co_ok_def at pl assms(2-5))
qed

lemma co_queues_set_ctx:
  "co_queues (co_set_ctx i x s) = (co_queues s)[i := cq_queue x]"
  by (simp add: co_queues_def co_set_ctx_def map_update)

lemma co_queues_nth: "i < length (co_queues s) \<Longrightarrow> co_queues s ! i = cq_queue (co_pctxs s ! i)"
  by (simp add: co_queues_def)

lemma co_queues_same: "cq_queue x = cq_queue (co_pctxs s ! i) \<Longrightarrow> co_queues (co_set_ctx i x s) = co_queues s"
  unfolding co_queues_set_ctx unfolding co_queues_def
  by (cases "i < length (co_pctxs s)") (simp_all add: list_update_same_conv list_update_beyond)

lemma same_task_refl [simp]: "same_task c c"
  by (simp add: same_task_def same_place_def)

lemma co_new_ok: "co_ok (co_new conf n)"
proof -
  obtain m pool confs where s: "co_new conf n = \<lparr>co_stop = False, co_heap = (\<lambda>_. cr_new 0), co_id_cr = (\<lambda>_. None),
      co_pctxs = replicate (unat m) cq_new, co_pool = (\<lambda>_. replicate MAX_PRIO []), co_confs = confs,
      co_proc_num = m, co_pool_size = pool, co_notified = []\<rparr>"
    by (cases conf; cases "fst (the conf) = 0") (auto simp: co_new_def Let_def split: prod.splits)
  have "co_at (co_new conf n) pl = []" if "pl \<in> co_places (co_new conf n)" for pl
    using that by (auto simp: s co_places_def cq_new_def co_queues_def)
  then show ?thesis
    unfolding co_ok_def by (simp add: s cq_new_def desc_def co_queues_def)
qed

section \<open>The operations keep the invariant\<close>

lemma co_sel [simp, cyber_state]:
  "co_queues (co_set a c s) = co_queues s" "co_pool (co_set a c s) = co_pool s" "co_id_cr (co_set a c s) = co_id_cr s"
  "co_proc_num (co_set a c s) = co_proc_num s" "co_heap (co_set a c s) = (co_heap s)(a := c)"
  "co_pctxs (co_set a c s) = co_pctxs s"
  "co_pool (co_set_ctx i x s) = co_pool s" "co_id_cr (co_set_ctx i x s) = co_id_cr s"
  "co_proc_num (co_set_ctx i x s) = co_proc_num s" "co_heap (co_set_ctx i x s) = co_heap s"
  "co_queues (co_set_pool g i q s) = co_queues s" "co_id_cr (co_set_pool g i q s) = co_id_cr s"
  "co_proc_num (co_set_pool g i q s) = co_proc_num s" "co_heap (co_set_pool g i q s) = co_heap s"
  "co_queues (s\<lparr>co_id_cr := m\<rparr>) = co_queues s" "co_queues (s\<lparr>co_heap := h\<rparr>) = co_queues s"
  "co_queues (s\<lparr>co_notified := l\<rparr>) = co_queues s" "co_queues (s\<lparr>co_stop := b\<rparr>) = co_queues s"
  by (simp_all add: co_set_def co_set_ctx_def co_set_pool_def co_queues_def)

lemma co_Notify_ok:
  assumes "co_ok s" and "co_NotifyProcessor crid s = Some (b, t)"
  shows "co_ok t"
proof (cases "co_stop s \<or> co_id_cr s crid = None")
  case True
  then show ?thesis using assms by (auto simp: co_NotifyProcessor_def split: if_splits)
next
  case False
  then obtain a where a: "co_id_cr s crid = Some a" "\<not> co_stop s" by auto
  let ?s = "if cr_waits (co_heap s a) then co_set a (cr_SetUpdateFlag (co_heap s a)) s else s"
  have "co_ok ?s"
    by (rule co_ok_cong [OF assms(1)]) (simp_all add: same_task_def same_place_def cr_SetUpdateFlag_def)
  then have "co_ok (co_set_ctx i (cq_Notify (co_pctxs ?s ! i)) ?s)" "co_ok (?s\<lparr>co_notified := l\<rparr>)" for i l
    by (rule co_ok_cong; simp add: co_queues_same cq_Notify_def)+
  then show ?thesis using assms(2) a by (auto simp: co_NotifyProcessor_def Let_def split: if_splits)
qed

text \<open>A routine that is put in its place.\<close>

lemma co_ok_put:
  assumes "co_ok s" and "co_id_cr s (cr_id c) = None" and "co_home (co_proc_num s) c = pl" and "pl \<in> co_places s"
    and "cr_id c = cr_id (co_heap s a)"
    and "co_id_cr t = (co_id_cr s)(cr_id c \<mapsto> a)" and "co_heap t = (co_heap s)(a := c)" and "co_proc_num t = co_proc_num s"
    and "\<And>p. p \<in> co_places s \<Longrightarrow> p \<noteq> pl \<Longrightarrow> co_at t p = co_at s p"
    and "set (co_at t pl) = insert a (set (co_at s pl))" and "a \<notin> set (co_at s pl) \<Longrightarrow> distinct (co_at t pl)"
    and "length (co_queues t) = unat (co_proc_num s)" and "\<And>g. length (co_pool t g) = MAX_PRIO"
    and "\<And>q. q \<in> set (co_queues t) \<Longrightarrow> q \<in> set (co_queues s) \<or>
      desc q \<and> (\<forall>e \<in> set q. fst e = cr_priority (co_heap t (snd e)))"
  shows "co_ok t"
proof -
  note d = co_okD [OF assms(1)]
  have new: "a \<notin> set (co_at s p)" if "p \<in> co_places s" for p
    using d(4) [OF that, of a] assms(2,5) by auto
  have unreg: "x \<noteq> a" if "co_id_cr s k = Some x" for k x
    using d(7,8) [OF that] new by auto
  have pls: "co_places t = co_places s" by (simp add: co_places_def assms(8))
  have mem: "x \<in> set (co_at t p) \<longleftrightarrow> x \<in> set (co_at s p) \<or> (x = a \<and> p = pl)" if "p \<in> co_places s" for x p
    using assms(9) [OF that] assms(10) by (cases "p = pl") auto
  have "distinct (co_at t p)" if "p \<in> co_places s" for p
    using assms(9) [OF that] assms(11) d(3) [OF that] new [OF that] by (cases "p = pl") auto
  moreover have "co_id_cr t (cr_id (co_heap t x)) = Some x \<and> co_home (co_proc_num t) (co_heap t x) = p"
    if "p \<in> co_places s" "x \<in> set (co_at t p)" for p x
  proof (cases "x = a")
    case True
    then show ?thesis using that new [OF that(1)] assms(3) by (simp add: mem assms(6-8))
  next
    case False
    then have x: "x \<in> set (co_at s p)" using that by (simp add: mem)
    then have "cr_id (co_heap s x) \<noteq> cr_id c" using d(4) [OF that(1) x] assms(2) by auto
    then show ?thesis using False d(4,5) [OF that(1) x] by (simp add: assms(6-8))
  qed
  moreover have "cr_id (co_heap t x) = k \<and> co_home (co_proc_num t) (co_heap t x) \<in> co_places s
      \<and> x \<in> set (co_at t (co_home (co_proc_num t) (co_heap t x)))" if "co_id_cr t k = Some x" for k x
  proof (cases "x = a")
    case True
    then have "k = cr_id c" using that unreg by (auto simp: assms(6) split: if_splits)
    then show ?thesis using True assms(3,4,10) by (simp add: assms(7,8))
  next
    case False
    then have "co_id_cr s k = Some x" using that by (auto simp: assms(6) split: if_splits)
    then show ?thesis using False d(6-8) by (simp add: mem assms(7,8))
  qed
  moreover have "desc q \<and> (\<forall>e \<in> set q. fst e = cr_priority (co_heap t (snd e)))" if "q \<in> set (co_queues t)" for q
  proof (cases "q \<in> set (co_queues s)")
    case True
    then obtain i where i: "i < unat (co_proc_num s)" "q = co_queues s ! i" using d(1) by (auto simp: in_set_conv_nth)
    then have "snd e \<noteq> a" if "e \<in> set q" for e
      using new [of "Inl i"] that by (auto simp: co_places_def)
    then show ?thesis using d(9,10) [OF True] by (simp add: assms(7))
  next
    case False
    then show ?thesis using assms(14) [OF that] by simp
  qed
  ultimately show ?thesis
    unfolding co_ok_def pls using assms(8,12,13) by simp
qed

text \<open>A routine that is taken out of its place.\<close>

lemma co_ok_take:
  assumes "co_ok s" and "co_id_cr s crid = Some a" and "co_home (co_proc_num s) (co_heap s a) = pl"
    and "co_id_cr t = (co_id_cr s)(crid := None)" and "\<And>x. same_task (co_heap t x) (co_heap s x)"
    and "co_proc_num t = co_proc_num s"
    and "\<And>p. p \<in> co_places s \<Longrightarrow> p \<noteq> pl \<Longrightarrow> co_at t p = co_at s p"
    and "co_at t pl = remove1 a (co_at s pl)"
    and "length (co_queues t) = unat (co_proc_num s)" and "\<And>g. length (co_pool t g) = MAX_PRIO"
    and "\<And>q. q \<in> set (co_queues t) \<Longrightarrow> \<exists>xs ys zs. xs @ ys @ zs \<in> set (co_queues s) \<and> q = xs @ zs"
  shows "co_ok t"
proof -
  note d = co_okD [OF assms(1)]
  note home = same_task_home [OF assms(5)]
  have pls: "co_places t = co_places s" by (simp add: co_places_def assms(6))
  have pl: "pl \<in> co_places s" "a \<in> set (co_at s pl)" using d(7,8) [OF assms(2)] assms(3) by simp_all
  have else: "a \<notin> set (co_at s p)" if "p \<in> co_places s" "p \<noteq> pl" for p
    using d(5) [OF that(1), of a] that(2) assms(3) by auto
  have mem: "x \<in> set (co_at t p) \<longleftrightarrow> x \<in> set (co_at s p) \<and> x \<noteq> a" if "p \<in> co_places s" for x p
  proof (cases "p = pl")
    case True
    then show ?thesis using assms(8) d(3) [OF that] by simp
  next
    case False
    then show ?thesis using assms(7) [OF that] else [OF that False] by auto
  qed
  have "distinct (co_at t p)" if "p \<in> co_places s" for p
    using assms(7) [OF that] assms(8) d(3) [OF that] by (cases "p = pl") (simp_all add: distinct_remove1)
  moreover have "co_id_cr t (cr_id (co_heap t x)) = Some x \<and> co_home (co_proc_num t) (co_heap t x) = p"
    if "p \<in> co_places s" "x \<in> set (co_at t p)" for p x
  proof -
    have x: "x \<in> set (co_at s p)" "x \<noteq> a" using that by (simp_all add: mem)
    then have "cr_id (co_heap s x) \<noteq> crid" using d(4) [OF that(1) x(1)] assms(2) by auto
    then show ?thesis using d(4,5) [OF that(1) x(1)] by (simp add: assms(4,6) home)
  qed
  moreover have "cr_id (co_heap t x) = k \<and> co_home (co_proc_num t) (co_heap t x) \<in> co_places s
      \<and> x \<in> set (co_at t (co_home (co_proc_num t) (co_heap t x)))" if "co_id_cr t k = Some x" for k x
  proof -
    have k: "co_id_cr s k = Some x" "k \<noteq> crid" using that by (auto simp: assms(4) split: if_splits)
    then have "x \<noteq> a" using d(6) [OF k(1)] d(6) [OF assms(2)] by auto
    then show ?thesis using d(6-8) [OF k(1)] by (simp add: mem home assms(6))
  qed
  moreover have "desc q \<and> (\<forall>e \<in> set q. fst e = cr_priority (co_heap t (snd e)))" if "q \<in> set (co_queues t)" for q
  proof -
    obtain xs ys zs where q: "xs @ ys @ zs \<in> set (co_queues s)" "q = xs @ zs" using assms(11) [OF \<open>q \<in> _\<close>] by blast
    then show ?thesis using d(9,10) [OF q(1)] by (auto simp: home desc_def sorted_wrt_append)
  qed
  ultimately show ?thesis
    unfolding co_ok_def pls using assms(6,9,10) by simp
qed

lemma co_pool_set: "length (co_pool s g) = MAX_PRIO \<Longrightarrow> i < MAX_PRIO \<Longrightarrow>
    co_pool (co_set_pool g i q s) h ! j = (if h = g \<and> j = i then q else co_pool s h ! j)"
  by (auto simp: co_set_pool_def)

lemma co_pool_set_length: "length (co_pool (co_set_pool g i q s) h) = length (co_pool s h)"
  by (simp add: co_set_pool_def)

lemma co_configure_id: "cr_id (co_configure s c) = cr_id c" "cr_lock (co_configure s c) = cr_lock c"
  by (auto simp: co_configure_def Let_def split: option.splits)

lemma co_to_pool_home:
  "\<not> cr_processor_id c < n \<Longrightarrow> co_home n (co_to_pool c) = Inr (DEFAULT_GROUP_NAME, unat (cr_priority (co_to_pool c)))"
  "unat (cr_priority (co_to_pool c)) < MAX_PRIO" "cr_id (co_to_pool c) = cr_id c"
  by (auto simp: co_to_pool_def co_home_def MAX_PRIO_def)

text \<open>A routine that is registered nowhere is in no queue, so anything may be done to it.\<close>

lemma co_ok_make:
  assumes "co_ok s" and "\<And>k. co_id_cr s k \<noteq> Some a"
  shows "co_ok (co_set a c s)"
proof -
  note d = co_okD [OF assms(1)]
  let ?s = "co_set a c s"
  have away: "x \<noteq> a" if "p \<in> co_places s" "x \<in> set (co_at s p)" for x p
    using d(4) [OF that] assms(2) by auto
  have at: "co_at ?s p = co_at s p" for p by (cases p) auto
  have pls: "co_places ?s = co_places s" by (simp add: co_places_def)
  have "snd e \<noteq> a" if "q \<in> set (co_queues s)" "e \<in> set q" for q e
  proof -
    obtain i where i: "i < unat (co_proc_num s)" "q = co_queues s ! i" using \<open>q \<in> _\<close> d(1) by (auto simp: in_set_conv_nth)
    show ?thesis using away [of "Inl i" "snd e"] i that(2) by (auto simp: co_places_def)
  qed
  then show ?thesis
    using d away assms(2) unfolding co_ok_def at pls by (auto simp: at)
qed

text \<open>Queueing a routine whose id is not registered, and registering it with that.\<close>

lemma co_enqueue_ok:
  assumes s: "co_ok s" and fresh: "co_id_cr s (cr_id (co_heap s a)) = None" and "co_Dispatch_enqueue a s = Some u"
    and t0: "t = u\<lparr>co_id_cr := (co_id_cr s)(cr_id (co_heap s a) \<mapsto> a)\<rparr>"
  shows "co_ok t"
proof -
  note d = co_okD [OF s]
  let ?c = "co_heap s a"
  show ?thesis
  proof (cases "cr_processor_id ?c < co_proc_num s")
    case True
    let ?i = "unat (cr_processor_id ?c)"
    have i: "?i < unat (co_proc_num s)" using True by (simp add: word_less_nat_alt)
    then have l: "?i < length (co_queues s)" by (simp add: d(1))
    have t: "t = (co_set_ctx ?i (cq_Enqueue (cr_priority ?c) a (co_pctxs s ! ?i)) s)\<lparr>co_id_cr := (co_id_cr s)(cr_id ?c \<mapsto> a)\<rparr>"
      using assms(3) True l by (simp add: co_Dispatch_enqueue_def Let_def co_queues_def t0 split: if_splits)
    have q: "co_queues t = (co_queues s)[?i := mm_emplace (cr_priority ?c) a (co_queues s ! ?i)]"
      using l by (simp add: t co_queues_set_ctx cq_Enqueue_def co_queues_nth)
    have ht: "co_heap t = co_heap s" by (simp add: t)
    have ds: "desc (co_queues s ! ?i)" and pr: "\<forall>e \<in> set (co_queues s ! ?i). fst e = cr_priority (co_heap s (snd e))"
      using d(9,10) [of "co_queues s ! ?i"] nth_mem [OF l] by blast+
    show ?thesis
    proof (rule co_ok_put [where s = s and a = a and c = ?c and pl = "Inl ?i"])
      show "co_at t p = co_at s p" if "p \<noteq> Inl ?i" for p
      proof (cases p)
        case (Inl j)
        then show ?thesis using that by (simp add: q)
      next
        case (Inr r)
        then show ?thesis by (cases r) (simp add: t)
      qed
      show "q \<in> set (co_queues s) \<or> desc q \<and> (\<forall>e \<in> set q. fst e = cr_priority (co_heap t (snd e)))"
        if "q \<in> set (co_queues t)" for q
      proof -
        have "q \<in> insert (mm_emplace (cr_priority ?c) a (co_queues s ! ?i)) (set (co_queues s))"
          using that set_update_subset_insert unfolding q by fastforce
        moreover have "\<forall>e \<in> set (mm_emplace (cr_priority ?c) a (co_queues s ! ?i)). fst e = cr_priority (co_heap t (snd e))"
          unfolding mm_emplace_set ball_simps(7) ht using pr by (simp only: fst_conv snd_conv)
        ultimately show ?thesis using mm_emplace_desc [OF ds] by (simp only: insert_iff) blast
      qed
      show "distinct (co_at t (Inl ?i))" if "a \<notin> set (co_at s (Inl ?i))"
        using d(3) [of "Inl ?i"] that i mm_emplace_distinct [of "co_queues s ! ?i" a "cr_priority ?c"] l
        by (simp add: q co_places_def)
      show "set (co_at t (Inl ?i)) = insert a (set (co_at s (Inl ?i)))" by (simp add: q l)
      show "length (co_queues t) = unat (co_proc_num s)" by (simp add: q d(1))
    qed (use s fresh True i l d(1,2) in \<open>simp_all add: co_home_def co_places_def q t insert_commute image_iff\<close>)
  next
    case False
    let ?d = "co_to_pool ?c"
    let ?i = "unat (cr_priority ?d)" and ?g = DEFAULT_GROUP_NAME
    have t: "t = (co_set_pool ?g ?i (co_pool s ?g ! ?i @ [a]) (co_set a ?d s))\<lparr>co_id_cr := (co_id_cr s)(cr_id ?c \<mapsto> a)\<rparr>"
      using assms(3) False by (simp add: co_Dispatch_enqueue_def Let_def t0)
    have at: "co_at t (Inr (h, j)) = (if h = ?g \<and> j = ?i then co_pool s ?g ! ?i @ [a] else co_pool s h ! j)" for h j
      using d(2) [of ?g] co_to_pool_home(2) [of ?c] by (simp add: t co_set_pool_def co_set_def)
    show ?thesis
    proof (rule co_ok_put [where s = s and a = a and c = ?d and pl = "Inr (?g, ?i)"])
      show "co_at t p = co_at s p" if "p \<noteq> Inr (?g, ?i)" for p
      proof (cases p)
        case (Inl j)
        then show ?thesis by (simp add: t)
      next
        case (Inr r)
        then show ?thesis using that by (cases r) (simp add: at del: co_at.simps(2), simp)
      qed
      show "set (co_at t (Inr (?g, ?i))) = insert a (set (co_at s (Inr (?g, ?i))))"
        by (simp add: at del: co_at.simps(2)) simp
      show "distinct (co_at t (Inr (?g, ?i)))" if "a \<notin> set (co_at s (Inr (?g, ?i)))"
        using that d(3) [of "Inr (?g, ?i)"] co_to_pool_home(2)
        by (simp add: at co_places_def del: co_at.simps(2)) simp
      show "co_home (co_proc_num s) ?d = Inr (?g, ?i)" using False co_to_pool_home(1) by simp
      show "q \<in> set (co_queues s) \<or> desc q \<and> (\<forall>e \<in> set q. fst e = cr_priority (co_heap t (snd e)))"
        if "q \<in> set (co_queues t)" for q using that by (simp add: t)
    qed (use s fresh d(1,2) co_to_pool_home in \<open>simp_all add: co_places_def t image_iff co_pool_set_length\<close>)
  qed
qed

section \<open>The context is a processor context\<close>

definition cq_order :: "choreo_context \<times> heap \<Rightarrow> nat list" where
  "cq_order xh = map snd (cq_queue (fst xh))"

definition cq_ok :: "choreo_context \<times> heap \<Rightarrow> bool" where
  "cq_ok xh \<longleftrightarrow> \<not> cq_stop (fst xh) \<and> distinct (cq_order xh)"

lemma cq_NextRoutine_spec:
  assumes "cq_ok xh"
  shows "fst (cq_NextRoutine now xh) = find (candidate now (snd xh)) (cq_order xh)"
    and "snd (snd (cq_NextRoutine now xh)) = scanned now (cq_order xh) (snd xh)"
    and "cq_ok (snd (cq_NextRoutine now xh))"
proof -
  obtain x h where xh: "xh = (x, h)" by (cases xh)
  have "\<not> cq_stop x" and d: "distinct (map snd (cq_queue x))" using assms by (simp_all add: cq_ok_def cq_order_def xh)
  then have n: "cq_NextRoutine now xh = (case find (candidate now h) (map snd (cq_queue x)) of
      Some a \<Rightarrow> (Some a, x, scanned now (map snd (cq_queue x)) h)
    | None \<Rightarrow> (None, x\<lparr>cq_notified := False\<rparr>, scanned now (map snd (cq_queue x)) h))"
    using cq_scan_spec [OF d, of now h]
    by (cases "cq_scan now (cq_queue x) h") (simp add: cq_NextRoutine_def xh split: option.split)
  show "fst (cq_NextRoutine now xh) = find (candidate now (snd xh)) (cq_order xh)"
    "snd (snd (cq_NextRoutine now xh)) = scanned now (cq_order xh) (snd xh)" "cq_ok (snd (cq_NextRoutine now xh))"
    using assms unfolding n by (simp_all add: xh cq_order_def cq_ok_def split: option.split)
qed

interpretation cq: processor_context cq_NextRoutine snd "\<lambda>h xh. (fst xh, h)" cq_order cq_Wait cq_ok
  by unfold_locales (simp_all add: cq_NextRoutine_spec cq_Wait_def)

lemma cq_NextRoutine_queue: "cq_queue (fst (snd (cq_NextRoutine now xh))) = cq_queue (fst xh)"
  by (auto simp: cq_NextRoutine_def split: prod.splits option.splits)

text \<open>Both policies choose by the same rule: for queues without duplicates, the loop over a pinned
  processor's queue and the loop over the priority queues of a group answer the first routine in
  queue order that is unlocked and runnable, and leave the same routines behind: those before it
  with their state updated, the chosen one updated and locked, the rest untouched.\<close>

theorem queue_scans_agree:
  assumes "distinct (map snd es)" and "concat qs = map snd es"
  shows "cq_scan now es h = (find (candidate now h) (map snd es), scanned now (map snd es) h)
    \<and> fst (scan_levels now qs (h, w)) = fst (cq_scan now es h)
    \<and> fst (snd (scan_levels now qs (h, w))) = snd (cq_scan now es h)"
  using cq_scan_spec [OF assms(1), of now h] scan_queue_spec [OF assms(1), of now h w]
  by (simp add: scan_levels_concat assms(2) prod_eq_iff)

lemma queue_scans_agree_witness:
  "fst (cq_scan 0 [(7, 3), (5, 4)] (\<lambda>a. (cr_new 0)\<lparr>cr_lock := a = 3\<rparr>)) = Some 4
   \<and> fst (scan_levels 0 [[3], [4]] (\<lambda>a. (cr_new 0)\<lparr>cr_lock := a = 3\<rparr>, False, 0)) = Some 4"
  using queue_scans_agree [of "[(7, 3), (5, 4)]" "[[3], [4]]" 0 "\<lambda>a. (cr_new 0)\<lparr>cr_lock := a = 3\<rparr>" "(False, 0)"]
  by (simp add: candidate_def cr_runnable_def cr_new_def)

section \<open>Reachable states\<close>

text \<open>The operations under way, by the id whose mutex they hold: a dispatch that has configured its
  routine, one that has registered it, a removal that has unregistered its task, and one that waits
  for it, which holds the lock of the task's place.\<close>

datatype co_op = Configured nat | Registered nat | Taking nat "nat + string \<times> nat" | Awaiting nat "nat + string \<times> nat"

fun co_op_task :: "co_op \<Rightarrow> nat" where
  "co_op_task (Configured a) = a"
| "co_op_task (Registered a) = a"
| "co_op_task (Taking a pl) = a"
| "co_op_task (Awaiting a pl) = a"

definition co_held :: "(u64 \<Rightarrow> co_op option) \<Rightarrow> nat + string \<times> nat \<Rightarrow> bool" where
  "co_held ops pl \<longleftrightarrow> (\<exists>k a. ops k = Some (Awaiting a pl))"

text \<open>A routine that is registered under no id and on which no operation is under way, such as the
  one \<open>CreateTask\<close> makes for its call of \<open>DispatchTask\<close>, the only one in the code.\<close>

definition co_new_routine :: "sched_choreo \<Rightarrow> (u64 \<Rightarrow> co_op option) \<Rightarrow> nat \<Rightarrow> bool" where
  "co_new_routine s ops a \<longleftrightarrow> (\<forall>k. co_id_cr s k \<noteq> Some a) \<and> (\<forall>k x. ops k = Some x \<longrightarrow> co_op_task x \<noteq> a)"

text \<open>The critical sections of all threads: making a routine, the sections of the dispatch of a new
  routine and of a removal, notification, the scans of a pinned processor and of a pool queue,
  the running and the release of a routine by the processor that holds it, and the stops of
  \<open>Shutdown\<close>. A routine leaves its own id, processor, group, priority, lock and stop alone.\<close>

inductive co_step :: "sched_choreo \<times> (u64 \<Rightarrow> co_op option) \<Rightarrow> sched_choreo \<times> (u64 \<Rightarrow> co_op option) \<Rightarrow> bool" where
  co_make: "co_new_routine s ops a \<Longrightarrow> co_step (s, ops) (co_set a c s, ops)"
| co_configured: "co_new_routine s ops a \<Longrightarrow> ops (cr_id (co_heap s a)) = None \<Longrightarrow>
    co_step (s, ops) (co_Dispatch_configure a s, ops(cr_id (co_heap s a) \<mapsto> Configured a))"
| co_registered: "ops k = Some (Configured a) \<Longrightarrow> co_Dispatch_register a s = Some t \<Longrightarrow>
    co_step (s, ops) (t, ops(k \<mapsto> Registered a))"
| co_refused: "ops k = Some (Configured a) \<Longrightarrow> co_Dispatch_register a s = None \<Longrightarrow> co_step (s, ops) (s, ops(k := None))"
| co_enqueue: "ops k = Some (Registered a) \<Longrightarrow> co_Dispatch_enqueue a s = Some t \<Longrightarrow>
    \<not> co_held ops (co_home (co_proc_num t) (co_heap t a)) \<Longrightarrow> co_step (s, ops) (t, ops(k := None))"
| co_unregister: "ops k = None \<Longrightarrow> co_Remove_unregister k s = Some ((a, pl), t) \<Longrightarrow>
    co_step (s, ops) (t, ops(k \<mapsto> Taking a pl))"
| co_find: "ops k = Some (Taking a pl) \<Longrightarrow> \<not> co_held ops pl \<Longrightarrow> co_Remove_find k pl s = Some (r, t) \<Longrightarrow>
    co_step (s, ops) (t, ops(k := map_option (\<lambda>b. Awaiting b pl) r))"
| co_finish: "ops k = Some (Awaiting a pl) \<Longrightarrow> co_Remove_finish pl a s = Some t \<Longrightarrow> co_step (s, ops) (t, ops(k := None))"
| co_notify: "co_NotifyProcessor crid s = Some (b, t) \<Longrightarrow> co_step (s, ops) (t, ops)"
| co_next: "i < length (co_pctxs s) \<Longrightarrow> \<not> co_held ops (Inl i) \<Longrightarrow>
    cq_NextRoutine now (co_pctxs s ! i, co_heap s) = (r, x, h) \<Longrightarrow>
    co_step (s, ops) (co_set_ctx i x (s\<lparr>co_heap := h\<rparr>), ops)"
| co_scan: "i < MAX_PRIO \<Longrightarrow> \<not> co_held ops (Inr (g, i)) \<Longrightarrow>
    scan_queue now (co_pool s g ! i) (co_heap s, w) = (r, h, w') \<Longrightarrow> co_step (s, ops) (s\<lparr>co_heap := h\<rparr>, ops)"
| co_resume: "cr_lock (co_heap s a) \<Longrightarrow> own_step body \<Longrightarrow> (\<And>c. cr_processor_id (body c) = cr_processor_id c) \<Longrightarrow>
    co_step (s, ops) (co_set a (snd (cr_Resume body (co_heap s a))) s, ops)"
| co_release: "cr_lock (co_heap s a) \<Longrightarrow> co_step (s, ops) (co_set a (cr_Release (co_heap s a)) s, ops)"
| co_halt: "co_step (s, ops) (s\<lparr>co_stop := True\<rparr>, ops)"
| co_halt_ctx: "co_step (s, ops) (co_set_ctx i (cq_Shutdown (co_pctxs s ! i)) s, ops)"

text \<open>The invariant: with a dispatch under way counted as not begun, and a removal under way as not
  begun, tasks and queues agree.\<close>

definition co_settled :: "(u64 \<Rightarrow> co_op option) \<Rightarrow> sched_choreo \<Rightarrow> sched_choreo" where
  "co_settled ops s = s\<lparr>co_id_cr := (\<lambda>k. case ops k of
       Some (Registered a) \<Rightarrow> None | Some (Taking a pl) \<Rightarrow> Some a | Some (Awaiting a pl) \<Rightarrow> Some a
     | _ \<Rightarrow> co_id_cr s k)\<rparr>"

fun co_op_ok :: "sched_choreo \<Rightarrow> u64 \<Rightarrow> co_op \<Rightarrow> bool" where
  "co_op_ok s k (Configured a) \<longleftrightarrow> cr_id (co_heap s a) = k \<and> co_id_cr s k \<noteq> Some a"
| "co_op_ok s k (Registered a) \<longleftrightarrow> cr_id (co_heap s a) = k \<and> co_id_cr s k = Some a"
| "co_op_ok s k (Taking a pl) \<longleftrightarrow> co_id_cr s k = None \<and> cr_force_stop (co_heap s a) \<and> pl = co_place_of (co_heap s a)"
| "co_op_ok s k (Awaiting a pl) \<longleftrightarrow> co_id_cr s k = None \<and> cr_force_stop (co_heap s a)
     \<and> pl = co_home (co_proc_num s) (co_heap s a)"

definition cp_ok :: "sched_choreo \<times> (u64 \<Rightarrow> co_op option) \<Rightarrow> bool" where
  "cp_ok so \<longleftrightarrow> co_ok (co_settled (snd so) (fst so)) \<and> (\<forall>k x. snd so k = Some x \<longrightarrow> co_op_ok (fst so) k x)"

lemma cp_okD: "cp_ok (s, ops) \<Longrightarrow> co_ok (co_settled ops s)" "cp_ok (s, ops) \<Longrightarrow> ops k = Some x \<Longrightarrow> co_op_ok s k x"
  by (simp_all add: cp_ok_def)

lemma co_at_id_cr: "co_at (s\<lparr>co_id_cr := m\<rparr>) = co_at s"
  by (rule ext, rename_tac pl, case_tac pl) auto

lemma co_settled_sel [simp]:
  "co_heap (co_settled ops s) = co_heap s" "co_queues (co_settled ops s) = co_queues s"
  "co_pctxs (co_settled ops s) = co_pctxs s" "co_pool (co_settled ops s) = co_pool s"
  "co_proc_num (co_settled ops s) = co_proc_num s" "co_at (co_settled ops s) = co_at s"
  "co_places (co_settled ops s) = co_places s"
  by (simp_all add: co_settled_def co_at_id_cr co_places_def)

lemma co_settled_id: "co_id_cr (co_settled ops s) k = (case ops k of
       Some (Registered a) \<Rightarrow> None | Some (Taking a pl) \<Rightarrow> Some a | Some (Awaiting a pl) \<Rightarrow> Some a | _ \<Rightarrow> co_id_cr s k)"
  by (simp add: co_settled_def)

lemma co_settled_none: "co_settled (\<lambda>_. None) s = s"
  by (simp add: co_settled_def)

definition co_being_removed :: "(u64 \<Rightarrow> co_op option) \<Rightarrow> u64 \<Rightarrow> nat \<Rightarrow> bool" where
  "co_being_removed ops k a \<longleftrightarrow> (\<exists>pl. ops k = Some (Taking a pl) \<or> ops k = Some (Awaiting a pl))"

text \<open>The tasks that are in the queues: dispatched, and not yet removed.\<close>

definition co_task :: "sched_choreo \<Rightarrow> (u64 \<Rightarrow> co_op option) \<Rightarrow> u64 \<Rightarrow> nat \<Rightarrow> bool" where
  "co_task s ops k a \<longleftrightarrow> co_id_cr s k = Some a \<and> ops k \<noteq> Some (Registered a) \<or> co_being_removed ops k a"

lemma co_settled_iff:
  assumes "cp_ok (s, ops)"
  shows "co_id_cr (co_settled ops s) k = Some a \<longleftrightarrow> co_task s ops k a"
proof (cases "ops k")
  case (Some x)
  then show ?thesis
    using cp_okD(2) [OF assms Some] by (cases x) (auto simp: co_settled_id co_being_removed_def co_task_def)
qed (simp add: co_settled_id co_being_removed_def co_task_def)

lemma co_op_task_id:
  assumes "cp_ok (s, ops)" and "ops k = Some x"
  shows "cr_id (co_heap s (co_op_task x)) = k"
  using cp_okD(2) [OF assms] co_okD(6) [OF cp_okD(1) [OF assms(1)], of k "co_op_task x"] assms(2)
  by (cases x) (auto simp: co_settled_id)

lemma co_new_routine_settled:
  assumes "co_new_routine s ops a"
  shows "co_id_cr (co_settled ops s) k \<noteq> Some a"
proof (cases "ops k")
  case (Some x)
  then have "co_op_task x \<noteq> a" using assms by (simp add: co_new_routine_def)
  then show ?thesis using assms Some by (cases x) (auto simp: co_new_routine_def co_settled_id)
qed (use assms in \<open>simp add: co_new_routine_def co_settled_id\<close>)

text \<open>An operation on the id \<open>k\<close> does not disturb those on other ids.\<close>

lemma cp_ok_other_ops:
  assumes "cp_ok (s, ops)" and "co_ok (co_settled ops' t)"
    and "\<And>l x. ops' l = Some x \<Longrightarrow> l \<noteq> k \<Longrightarrow> ops l = Some x" and "\<And>x. ops' k = Some x \<Longrightarrow> co_op_ok t k x"
    and "\<And>l. l \<noteq> k \<Longrightarrow> co_id_cr t l = co_id_cr s l" and "co_proc_num t = co_proc_num s"
    and "\<And>a. cr_id (co_heap s a) \<noteq> k \<Longrightarrow> same_task (co_heap t a) (co_heap s a)
      \<and> (cr_force_stop (co_heap s a) \<longrightarrow> cr_force_stop (co_heap t a))"
  shows "cp_ok (t, ops')"
proof -
  have "co_op_ok t l x" if x: "ops' l = Some x" for l x
  proof (cases "l = k")
    case False
    note l = assms(3) [OF x False]
    have "cr_id (co_heap s (co_op_task x)) \<noteq> k" using co_op_task_id [OF assms(1) l] False by simp
    then show ?thesis
      using cp_okD(2) [OF assms(1) l] assms(7) assms(5) [OF False] assms(6)
      by (cases x) (auto simp: co_place_of_def co_home_def same_task_def same_place_def)
  qed (use assms(4) x in simp)
  then show ?thesis using assms(2) by (simp add: cp_ok_def)
qed

lemma cp_ok_cong:
  assumes "cp_ok (s, ops)" and "co_queues t = co_queues s" and "co_pool t = co_pool s" and "co_id_cr t = co_id_cr s"
    and "co_proc_num t = co_proc_num s"
    and "\<And>a. same_task (co_heap t a) (co_heap s a) \<and> (cr_force_stop (co_heap s a) \<longrightarrow> cr_force_stop (co_heap t a))"
  shows "cp_ok (t, ops)"
proof -
  have "co_id_cr (co_settled ops t) = co_id_cr (co_settled ops s)"
    by (rule ext) (simp add: co_settled_id assms(4) split: option.split co_op.split)
  then have "co_ok (co_settled ops t)"
    by (rule_tac co_ok_cong [OF cp_okD(1) [OF assms(1)]]) (use assms(2-6) in auto)
  moreover have "co_op_ok t l x" if x: "ops l = Some x" for l x
    using cp_okD(2) [OF assms(1) x] assms(4-6)
    by (cases x) (auto simp: co_place_of_def co_home_def same_task_def same_place_def)
  ultimately show ?thesis by (simp add: cp_ok_def)
qed

section \<open>The critical sections keep the invariant\<close>

lemma cp_make_ok: "cp_ok (s, ops) \<Longrightarrow> co_new_routine s ops a \<Longrightarrow> cp_ok (co_set a c s, ops)"
proof -
  assume c: "cp_ok (s, ops)" and n: "co_new_routine s ops a"
  have e: "co_settled ops (co_set a c s) = co_set a c (co_settled ops s)"
    by (simp add: co_settled_def co_set_def cong: option.case_cong co_op.case_cong)
  have "co_ok (co_settled ops (co_set a c s))"
    unfolding e by (rule co_ok_make [OF cp_okD(1) [OF c] co_new_routine_settled [OF n]])
  moreover have "co_op_ok (co_set a c s) k x" if "ops k = Some x" for k x
  proof -
    have "co_op_task x \<noteq> a" using n that by (auto simp: co_new_routine_def)
    then show ?thesis using cp_okD(2) [OF c that] by (cases x) (auto simp: co_place_of_def)
  qed
  ultimately show ?thesis by (simp add: cp_ok_def)
qed

lemma cp_configured_ok:
  assumes "cp_ok (s, ops)" and "co_new_routine s ops a" and "ops (cr_id (co_heap s a)) = None"
  shows "cp_ok (co_Dispatch_configure a s, ops(cr_id (co_heap s a) \<mapsto> Configured a))"
proof (rule cp_ok_other_ops)
  let ?s = "co_Dispatch_configure a s" and ?k = "cr_id (co_heap s a)"
  show c: "cp_ok (?s, ops)"
    unfolding co_Dispatch_configure_def by (rule cp_make_ok [OF assms(1,2)])
  have "co_settled (ops(?k \<mapsto> Configured a)) ?s = co_settled ops ?s"
    using assms(3) by (simp add: co_settled_def fun_eq_iff cong: option.case_cong)
  then show "co_ok (co_settled (ops(?k \<mapsto> Configured a)) ?s)" using cp_okD(1) [OF c] by simp
  show "co_op_ok ?s ?k x" if "(ops(?k \<mapsto> Configured a)) ?k = Some x" for x
    using that assms(2) by (auto simp: co_Dispatch_configure_def co_configure_id co_new_routine_def)
qed (auto split: if_splits)

lemma co_settled_cong:
  "(\<And>k. co_id_cr (co_settled ops' (s\<lparr>co_id_cr := m\<rparr>)) k = co_id_cr (co_settled ops s) k) \<Longrightarrow>
    co_settled ops' (s\<lparr>co_id_cr := m\<rparr>) = co_settled ops s"
  by (simp add: co_settled_def fun_eq_iff cong: option.case_cong co_op.case_cong)

lemma cp_registered_ok:
  assumes "cp_ok (s, ops)" and "ops k = Some (Configured a)" and "co_Dispatch_register a s = Some t"
  shows "cp_ok (t, ops(k \<mapsto> Registered a))"
proof (rule cp_ok_other_ops [OF assms(1), where k = k])
  have k: "cr_id (co_heap s a) = k" using cp_okD(2) [OF assms(1,2)] by simp
  then have t: "t = s\<lparr>co_id_cr := (co_id_cr s)(k \<mapsto> a)\<rparr>" and n: "co_id_cr s k = None"
    using assms(3) by (auto simp: co_Dispatch_register_def split: if_splits)
  have "co_settled (ops(k \<mapsto> Registered a)) t = co_settled ops s"
    unfolding t by (rule co_settled_cong) (use n assms(2) in \<open>auto simp: co_settled_id split: option.splits co_op.splits\<close>)
  then show "co_ok (co_settled (ops(k \<mapsto> Registered a)) t)" using cp_okD(1) [OF assms(1)] by simp
  show "co_op_ok t k x" if "(ops(k \<mapsto> Registered a)) k = Some x" for x using that k by (auto simp: t)
qed (use assms(3) cp_okD(2) [OF assms(1,2)] in \<open>auto simp: co_Dispatch_register_def split: if_splits\<close>)

lemma cp_refused_ok:
  assumes "cp_ok (s, ops)" and "ops k = Some (Configured a)"
  shows "cp_ok (s, ops(k := None))"
proof (rule cp_ok_other_ops [OF assms(1), where k = k])
  have "co_settled (ops(k := None)) (s\<lparr>co_id_cr := co_id_cr s\<rparr>) = co_settled ops s"
    by (rule co_settled_cong) (use assms(2) in \<open>auto simp: co_settled_id split: option.splits co_op.splits\<close>)
  then show "co_ok (co_settled (ops(k := None)) s)" using cp_okD(1) [OF assms(1)] by simp
qed (auto split: if_splits)

lemma cp_enqueue_ok:
  assumes "cp_ok (s, ops)" and "ops k = Some (Registered a)" and "co_Dispatch_enqueue a s = Some t"
  shows "cp_ok (t, ops(k := None))"
proof (rule cp_ok_other_ops [OF assms(1), where k = k])
  have k: "cr_id (co_heap s a) = k" "co_id_cr s k = Some a" using cp_okD(2) [OF assms(1,2)] by simp_all
  let ?V = "co_settled ops s"
  have "co_Dispatch_enqueue a ?V = Some (t\<lparr>co_id_cr := co_id_cr ?V\<rparr>)"
    using assms(3) by (auto simp: co_Dispatch_enqueue_def Let_def co_settled_def co_set_ctx_def co_set_pool_def co_set_def split: if_splits)
  moreover have n: "co_id_cr ?V (cr_id (co_heap ?V a)) = None" using assms(2) k by (simp add: co_settled_id)
  moreover have t: "co_id_cr t = co_id_cr s"
    using assms(3) by (auto simp: co_Dispatch_enqueue_def Let_def split: if_splits)
  have "co_id_cr (co_settled (ops(k := None)) t) = (co_id_cr ?V)(k \<mapsto> a)"
    by (rule ext) (auto simp: co_settled_id t k split: option.split co_op.split)
  then have "co_settled (ops(k := None)) t = (t\<lparr>co_id_cr := co_id_cr ?V\<rparr>)\<lparr>co_id_cr := (co_id_cr ?V)(cr_id (co_heap ?V a) \<mapsto> a)\<rparr>"
    using k by (auto simp: co_settled_def)
  ultimately show "co_ok (co_settled (ops(k := None)) t)"
    using co_enqueue_ok [OF cp_okD(1) [OF assms(1)]] by blast
  show "co_id_cr t l = co_id_cr s l" for l by (simp add: t)
  show "co_proc_num t = co_proc_num s"
    using assms(3) by (auto simp: co_Dispatch_enqueue_def Let_def split: if_splits)
  show "same_task (co_heap t b) (co_heap s b) \<and> (cr_force_stop (co_heap s b) \<longrightarrow> cr_force_stop (co_heap t b))"
    if "cr_id (co_heap s b) \<noteq> k" for b
    using that k assms(3) by (auto simp: co_Dispatch_enqueue_def Let_def split: if_splits)
qed (auto split: if_splits)

lemma cp_unregister_ok:
  assumes "cp_ok (s, ops)" and "ops k = None" and "co_Remove_unregister k s = Some ((a, pl), t)"
  shows "cp_ok (t, ops(k \<mapsto> Taking a pl))"
proof (rule cp_ok_other_ops [OF assms(1), where k = k])
  have k: "co_id_cr s k = Some a" and t: "t = co_set a (cr_Stop (co_heap s a)) (s\<lparr>co_id_cr := (co_id_cr s)(k := None)\<rparr>)"
    and pl: "pl = co_place_of (co_heap s a)"
    using assms(3) by (auto simp: co_Remove_unregister_def split: option.splits)
  show "co_ok (co_settled (ops(k \<mapsto> Taking a pl)) t)"
  proof (rule co_ok_cong [OF cp_okD(1) [OF assms(1)]])
    show "co_id_cr (co_settled (ops(k \<mapsto> Taking a pl)) t) = co_id_cr (co_settled ops s)"
      by (rule ext) (use k assms(2) in \<open>auto simp: co_settled_id t split: option.split co_op.split\<close>)
  qed (auto simp: t same_task_def same_place_def cr_Stop_def)
  show "co_op_ok t k x" if "(ops(k \<mapsto> Taking a pl)) k = Some x" for x
    using that by (auto simp: t pl co_place_of_def cr_Stop_def)
qed (use assms(3) in \<open>auto simp: co_Remove_unregister_def same_task_def same_place_def cr_Stop_def split: if_splits option.splits\<close>)

lemma co_pctxs_length: "co_ok s \<Longrightarrow> length (co_pctxs s) = unat (co_proc_num s)"
  using co_okD(1) [of s] by (simp add: co_queues_def)

text \<open>The task of a removal under way is in its place, which is where the removal looks.\<close>

lemma cp_leaving:
  assumes "cp_ok (s, ops)" and "ops k = Some x" and "x = Taking a pl \<or> x = Awaiting a pl"
  shows "co_id_cr (co_settled ops s) k = Some a" and "cr_id (co_heap s a) = k"
    and "co_home (co_proc_num s) (co_heap s a) \<in> co_places s"
    and "a \<in> set (co_at s (co_home (co_proc_num s) (co_heap s a)))"
    and "co_id_cr s k = None" and "cr_force_stop (co_heap s a)"
    and "p \<in> co_places s \<Longrightarrow> y \<in> set (co_at s p) \<Longrightarrow> cr_id (co_heap s y) = k \<Longrightarrow> y = a"
proof -
  note d = co_okD [OF cp_okD(1) [OF assms(1)], unfolded co_settled_sel]
  show V: "co_id_cr (co_settled ops s) k = Some a" using assms(2,3) by (auto simp: co_settled_id)
  show "cr_id (co_heap s a) = k" "co_home (co_proc_num s) (co_heap s a) \<in> co_places s"
    "a \<in> set (co_at s (co_home (co_proc_num s) (co_heap s a)))"
    using d(6-8) [OF V] by simp_all
  show "co_id_cr s k = None" "cr_force_stop (co_heap s a)" using cp_okD(2) [OF assms(1,2)] assms(3) by auto
  show "p \<in> co_places s \<Longrightarrow> y \<in> set (co_at s p) \<Longrightarrow> cr_id (co_heap s y) = k \<Longrightarrow> y = a"
    using d(4) [of p y] V by auto
qed

lemma find_map_snd: "find (\<lambda>e. P (snd e)) es = None \<longleftrightarrow> find P (map snd es) = None"
  "map_option snd (find (\<lambda>e. P (snd e)) es) = find P (map snd es)"
  by (induction es) auto

text \<open>What the search of a removal does, once there is a place to search.\<close>

lemma co_find_place:
  assumes "co_Remove_find k (co_place_of (co_heap s a)) s = Some (r, t)" and "length (co_pctxs s) = unat (co_proc_num s)"
  shows "co_place_of (co_heap s a) = co_home (co_proc_num s) (co_heap s a)"
proof (cases "cr_processor_id (co_heap s a) = - 1")
  case False
  then have "unat (cr_processor_id (co_heap s a)) < length (co_pctxs s)"
    using assms(1) by (auto simp: co_Remove_find_def co_place_of_def split: if_splits)
  then show ?thesis using False assms(2) by (simp add: co_place_of_def co_home_def word_less_nat_alt)
qed (simp add: co_place_of_def co_home_def)

lemma co_Remove_find_eq:
  assumes "pl \<in> co_places s" and "length (co_pctxs s) = unat (co_proc_num s)"
    and "find (\<lambda>x. cr_id (co_heap s x) = k) (co_at s pl) = Some a"
  shows "\<exists>t. co_Remove_find k pl s = Some (Some a, t) \<and> co_heap t = (co_heap s)(a := cr_Stop (co_heap s a))
    \<and> co_id_cr t = co_id_cr s \<and> co_queues t = co_queues s \<and> co_pool t = co_pool s \<and> co_proc_num t = co_proc_num s"
proof (cases pl)
  case (Inr gi)
  obtain g i where gi: "gi = (g, i)" by (cases gi)
  then show ?thesis using assms(1,3) Inr by (auto simp: co_Remove_find_def co_places_def)
next
  case (Inl i)
  have i: "i < length (co_pctxs s)" using assms(1,2) Inl by (auto simp: co_places_def)
  have at: "co_at s pl = map snd (cq_queue (co_pctxs s ! i))" using Inl i by (simp add: co_queues_def)
  have "map_option snd (find (\<lambda>e. cr_id (co_heap s (snd e)) = k) (cq_queue (co_pctxs s ! i))) = Some a"
    using assms(3) find_map_snd(2) [of "\<lambda>x. cr_id (co_heap s x) = k" "cq_queue (co_pctxs s ! i)"] unfolding at by simp
  then obtain e where e: "find (\<lambda>e. cr_id (co_heap s (snd e)) = k) (cq_queue (co_pctxs s ! i)) = Some e" "snd e = a" by auto
  then show ?thesis
    using i Inl by (simp add: co_Remove_find_def cq_Remove_find_def co_queues_same)
qed

lemma cp_find_ok:
  assumes "cp_ok (s, ops)" and "ops k = Some (Taking a pl)" and "co_Remove_find k pl s = Some (r, t)"
  shows "r = Some a" and "pl = co_home (co_proc_num s) (co_heap s a)"
    and "cp_ok (t, ops(k := map_option (\<lambda>b. Awaiting b pl) r))"
    and "co_heap t = (co_heap s)(a := cr_Stop (co_heap s a))"
proof -
  have w: "Taking a pl = Taking a pl \<or> Taking a pl = Awaiting a pl" by simp
  note l = cp_leaving [OF assms(1,2) w]
  note lenp = co_pctxs_length [OF cp_okD(1) [OF assms(1)], unfolded co_settled_sel]
  have pl: "pl = co_place_of (co_heap s a)" using cp_okD(2) [OF assms(1,2)] by simp
  then show home: "pl = co_home (co_proc_num s) (co_heap s a)"
    using co_find_place [of k s a r t] assms(3) lenp by simp
  have f: "find (\<lambda>x. cr_id (co_heap s x) = k) (co_at s pl) = Some a"
    unfolding home using l(2,4) l(7) [OF l(3)] by (intro find_only) blast+
  have "pl \<in> co_places s" using l(3) home by simp
  from co_Remove_find_eq [OF this lenp f]
  have t: "r = Some a" "co_heap t = (co_heap s)(a := cr_Stop (co_heap s a))" "co_id_cr t = co_id_cr s" "co_queues t = co_queues s"
    "co_pool t = co_pool s" "co_proc_num t = co_proc_num s" using assms(3) by auto
  then show "r = Some a" "co_heap t = (co_heap s)(a := cr_Stop (co_heap s a))" by blast+
  show "cp_ok (t, ops(k := map_option (\<lambda>b. Awaiting b pl) r))"
  proof (rule cp_ok_other_ops [OF assms(1), where k = k])
    show "co_ok (co_settled (ops(k := map_option (\<lambda>b. Awaiting b pl) r)) t)"
    proof (rule co_ok_cong [OF cp_okD(1) [OF assms(1)]])
      show "co_id_cr (co_settled (ops(k := map_option (\<lambda>b. Awaiting b pl) r)) t) = co_id_cr (co_settled ops s)"
        by (rule ext) (use assms(2) in \<open>auto simp: co_settled_id t split: option.split co_op.split\<close>)
    qed (auto simp: t same_task_def same_place_def cr_Stop_def)
    show "co_op_ok t k x" if "(ops(k := map_option (\<lambda>b. Awaiting b pl) r)) k = Some x" for x
      using that l(5) home by (auto simp: t co_home_def cr_Stop_def)
  qed (auto simp: t same_task_def same_place_def cr_Stop_def split: if_splits)
qed

text \<open>What the end of a removal does.\<close>

lemma co_Remove_finish_eq:
  assumes "pl \<in> co_places s" and "length (co_pctxs s) = unat (co_proc_num s)" and "\<And>g. length (co_pool s g) = MAX_PRIO"
    and "co_Remove_finish pl a s = Some t"
  shows "\<not> cr_lock (co_heap s a) \<and> co_heap t = (co_heap s)(a := (co_heap s a)\<lparr>cr_lock := False\<rparr>)
    \<and> co_id_cr t = co_id_cr s \<and> co_proc_num t = co_proc_num s
    \<and> length (co_queues t) = length (co_queues s) \<and> (\<forall>g. length (co_pool t g) = length (co_pool s g))
    \<and> (\<forall>p. co_at t p = (if p = pl then remove1 a (co_at s p) else co_at s p))
    \<and> (\<forall>q \<in> set (co_queues t). \<exists>xs ys zs. xs @ ys @ zs \<in> set (co_queues s) \<and> q = xs @ zs)"
proof (cases pl)
  case (Inr gi)
  obtain g i where gi: "gi = (g, i)" by (cases gi)
  have i: "i < MAX_PRIO" using assms(1) Inr gi by (auto simp: co_places_def)
  have t: "\<not> cr_lock (co_heap s a)"
    "t = co_set a ((co_heap s a)\<lparr>cr_lock := False\<rparr>) (co_set_pool g i (remove1 a (co_pool s g ! i)) s)"
    using assms(4) by (auto simp: co_Remove_finish_def Inr gi cr_Acquire_def cr_Release_def Let_def split: if_splits)
  have at: "co_at t p = (if p = pl then remove1 a (co_at s p) else co_at s p)" for p
  proof (cases p)
    case (Inr hj)
    obtain h j where "hj = (h, j)" by (cases hj)
    then show ?thesis using Inr \<open>pl = Inr gi\<close> gi i assms(3) [of g] by (simp add: t(2) co_pool_set)
  qed (simp add: t(2) Inr)
  have "\<exists>xs ys zs. xs @ ys @ zs \<in> set (co_queues s) \<and> q = xs @ zs" if "q \<in> set (co_queues t)" for q
    using that by (intro exI [of _ "[]"] exI [of _ q]) (simp add: t(2))
  then show ?thesis using t at by (simp add: co_pool_set_length)
next
  case (Inl i)
  let ?es = "cq_queue (co_pctxs s ! i)"
  have i: "i < length (co_pctxs s)" using assms(1,2) Inl by (auto simp: co_places_def)
  have t: "\<not> cr_lock (co_heap s a)"
    "t = co_set_ctx i ((co_pctxs s ! i)\<lparr>cq_queue := cq_erase a ?es\<rparr>) (s\<lparr>co_heap := (co_heap s)(a := (co_heap s a)\<lparr>cr_lock := False\<rparr>)\<rparr>)"
    using assms(4) by (auto simp: co_Remove_finish_def Inl cq_Remove_finish_def cr_Acquire_def cr_Release_def Let_def split: if_splits)
  have q: "co_queues t = (co_queues s)[i := cq_erase a ?es]" by (simp add: t(2) co_queues_set_ctx)
  have e: "co_queues s ! i = ?es" and il: "i < length (co_queues s)" using i by (simp_all add: co_queues_def)
  have at: "co_at t p = (if p = pl then remove1 a (co_at s p) else co_at s p)" for p
  proof (cases p)
    case (Inl j)
    then show ?thesis using \<open>pl = Inl i\<close> il e by (simp add: q nth_list_update cq_erase_snd)
  next
    case (Inr hj)
    then show ?thesis using Inl by (cases hj) (simp add: t(2))
  qed
  have "\<exists>xs ys zs. xs @ ys @ zs \<in> set (co_queues s) \<and> q' = xs @ zs" if "q' \<in> set (co_queues t)" for q'
  proof (cases "q' = cq_erase a ?es")
    case True
    then show ?thesis using cq_erase_sub [of ?es a] nth_mem [OF il] e by metis
  next
    case False
    then have "q' \<in> set (co_queues s)" using that set_update_subset_insert unfolding q by fastforce
    then have "[] @ [] @ q' \<in> set (co_queues s) \<and> q' = [] @ q'" by simp
    then show ?thesis by blast
  qed
  moreover have "length (co_queues t) = length (co_queues s)" by (simp add: q)
  moreover have "co_heap t = (co_heap s)(a := (co_heap s a)\<lparr>cr_lock := False\<rparr>)" "co_id_cr t = co_id_cr s"
    "co_proc_num t = co_proc_num s" "co_pool t = co_pool s" by (simp_all add: t(2))
  ultimately show ?thesis using t(1) at by simp
qed

lemma cp_awaiting:
  assumes "cp_ok (s, ops)" and "ops k = Some (Awaiting a pl)"
  shows "pl = co_home (co_proc_num s) (co_heap s a)" and "pl \<in> co_places s" and "a \<in> set (co_at s pl)"
    and "co_id_cr (co_settled ops s) k = Some a" and "co_id_cr s k = None" and "cr_force_stop (co_heap s a)"
proof -
  have w: "Awaiting a pl = Taking a pl \<or> Awaiting a pl = Awaiting a pl" by simp
  note l = cp_leaving [OF assms(1,2) w]
  show pl: "pl = co_home (co_proc_num s) (co_heap s a)" using cp_okD(2) [OF assms(1,2)] by simp
  show "pl \<in> co_places s" "a \<in> set (co_at s pl)" unfolding pl by (rule l(3), rule l(4))
  show "co_id_cr (co_settled ops s) k = Some a" "co_id_cr s k = None" "cr_force_stop (co_heap s a)"
    by (rule l(1), rule l(5), rule l(6))
qed

lemma cp_finish_ok:
  assumes "cp_ok (s, ops)" and "ops k = Some (Awaiting a pl)" and "co_Remove_finish pl a s = Some t"
  shows "cp_ok (t, ops(k := None))"
    and "p \<in> co_places s \<Longrightarrow> set (co_at t p) = set (co_at s p) - {a}"
    and "\<not> cr_lock (co_heap s a)" and "co_heap t = (co_heap s)(a := (co_heap s a)\<lparr>cr_lock := False\<rparr>)" and "co_id_cr t = co_id_cr s"
proof -
  note V = cp_okD(1) [OF assms(1)]
  note d = co_okD [OF V, unfolded co_settled_sel]
  note l = cp_awaiting [OF assms(1,2)]
  note lenp = co_pctxs_length [OF V, unfolded co_settled_sel]
  note t = co_Remove_finish_eq [OF l(2) lenp d(2) assms(3)]
  show "\<not> cr_lock (co_heap s a)" "co_heap t = (co_heap s)(a := (co_heap s a)\<lparr>cr_lock := False\<rparr>)" "co_id_cr t = co_id_cr s"
    using t by simp_all
  have at: "co_at t p = (if p = pl then remove1 a (co_at s p) else co_at s p)" for p using t by blast
  show "set (co_at t p) = set (co_at s p) - {a}" if "p \<in> co_places s"
  proof (cases "p = pl")
    case True
    then show ?thesis using d(3) [OF that] by (simp add: at)
  next
    case False
    then have "a \<notin> set (co_at s p)" using d(5) [OF that, of a] l(1) by auto
    then show ?thesis using False by (simp add: at)
  qed
  have ids: "co_id_cr (co_settled (ops(k := None)) t) = (co_id_cr (co_settled ops s))(k := None)"
    by (rule ext) (use t l(5) in \<open>auto simp: co_settled_id split: option.split co_op.split\<close>)
  have "co_ok (co_settled (ops(k := None)) t)"
  proof (rule co_ok_take [OF V l(4)])
    show "co_home (co_proc_num (co_settled ops s)) (co_heap (co_settled ops s) a) = pl" using l(1) by simp
    show "co_id_cr (co_settled (ops(k := None)) t) = (co_id_cr (co_settled ops s))(k := None)" by (rule ids)
    show "same_task (co_heap (co_settled (ops(k := None)) t) x) (co_heap (co_settled ops s) x)" for x
      using t by (simp add: same_task_def same_place_def)
    show "\<exists>xs ys zs. xs @ ys @ zs \<in> set (co_queues (co_settled ops s)) \<and> q = xs @ zs"
      if "q \<in> set (co_queues (co_settled (ops(k := None)) t))" for q using t that by simp
  qed (use t d(1,2) at in \<open>simp_all del: co_at.simps\<close>)
  then show "cp_ok (t, ops(k := None))"
    by (rule cp_ok_other_ops [OF assms(1), where k = k]) (use t in \<open>auto simp: same_task_def same_place_def split: if_splits\<close>)
qed

lemma cp_Notify_ok:
  assumes "cp_ok (s, ops)" and "co_NotifyProcessor crid s = Some (b, t)"
  shows "cp_ok (t, ops)"
proof (cases "co_stop s \<or> co_id_cr s crid = None")
  case True
  then show ?thesis using assms by (auto simp: co_NotifyProcessor_def split: if_splits)
next
  case False
  then obtain a where a: "co_id_cr s crid = Some a" "\<not> co_stop s" by auto
  let ?s = "if cr_waits (co_heap s a) then co_set a (cr_SetUpdateFlag (co_heap s a)) s else s"
  have "cp_ok (?s, ops)"
    by (rule cp_ok_cong [OF assms(1)]) (simp_all add: same_task_def same_place_def cr_SetUpdateFlag_def)
  then have "cp_ok (co_set_ctx i (cq_Notify (co_pctxs ?s ! i)) ?s, ops)" "cp_ok (?s\<lparr>co_notified := l\<rparr>, ops)" for i l
    by (rule cp_ok_cong; simp add: co_queues_same cq_Notify_def)+
  then show ?thesis using assms(2) a by (auto simp: co_NotifyProcessor_def Let_def split: if_splits)
qed

lemma scanned_same_task: "same_task (scanned now xs h a) (h a) \<and> (cr_force_stop (h a) \<longrightarrow> cr_force_stop (scanned now xs h a))"
  by (simp add: scanned_def same_task_def same_place_def cr_UpdateState_def Let_def)

lemma co_queues_next:
  "cq_queue x = cq_queue (co_pctxs s ! i) \<Longrightarrow> co_queues (co_set_ctx i x (s\<lparr>co_heap := h\<rparr>)) = co_queues s"
  by (simp add: co_queues_same)

lemma co_pctx_distinct: "co_ok s \<Longrightarrow> i < length (co_pctxs s) \<Longrightarrow> distinct (cq_order (co_pctxs s ! i, h))"
  using co_okD(3) [of s "Inl i"] co_okD(1) [of s] by (simp add: cq_order_def co_places_def co_queues_def)

lemma cp_next_heap:
  assumes "cp_ok (s, ops)" and "i < length (co_pctxs s)" and "cq_NextRoutine now (co_pctxs s ! i, co_heap s) = (r, x, h)"
  shows "h = co_heap s \<or> h = scanned now (co_at s (Inl i)) (co_heap s)"
proof (cases "cq_stop (co_pctxs s ! i)")
  case True
  then show ?thesis using assms(3) by (simp add: cq_NextRoutine_def)
next
  case False
  then have "cq_ok (co_pctxs s ! i, co_heap s)"
    using co_pctx_distinct [OF cp_okD(1) [OF assms(1)], of i "co_heap s"] assms(2) by (simp add: cq_ok_def)
  then show ?thesis
    using cq_NextRoutine_spec(2) [of "(co_pctxs s ! i, co_heap s)" now] assms(2,3) by (simp add: cq_order_def co_queues_def)
qed

lemma cp_next_ok:
  assumes "cp_ok (s, ops)" and "i < length (co_pctxs s)" and "cq_NextRoutine now (co_pctxs s ! i, co_heap s) = (r, x, h)"
  shows "cp_ok (co_set_ctx i x (s\<lparr>co_heap := h\<rparr>), ops)"
proof -
  have q: "cq_queue x = cq_queue (co_pctxs s ! i)"
    using cq_NextRoutine_queue [of now "(co_pctxs s ! i, co_heap s)"] assms(3) by simp
  have "same_task (h a) (co_heap s a) \<and> (cr_force_stop (co_heap s a) \<longrightarrow> cr_force_stop (h a))" for a
    using cp_next_heap [OF assms] scanned_same_task by (auto simp del: co_at.simps)
  then show ?thesis
    by (intro cp_ok_cong [OF assms(1)]) (simp_all add: co_queues_next q)
qed

lemma cp_scan_heap:
  assumes "cp_ok (s, ops)" and "i < MAX_PRIO" and "scan_queue now (co_pool s g ! i) (co_heap s, w) = (r, h, w')"
  shows "h = scanned now (co_at s (Inr (g, i))) (co_heap s)"
proof -
  have "distinct (co_pool s g ! i)"
    using co_okD(3) [OF cp_okD(1) [OF assms(1)], of "Inr (g, i)"] assms(2) by (simp add: co_places_def)
  from scan_queue_spec [OF this, of now "co_heap s" w] show ?thesis using assms(3) by simp
qed

lemma cp_step_ok: "co_step so so' \<Longrightarrow> cp_ok so \<Longrightarrow> cp_ok so'"
proof (induction rule: co_step.induct)
  case (co_scan i ops g now s w r h w')
  then show ?case
    using cp_scan_heap [OF co_scan(4,1,3)] scanned_same_task by (intro cp_ok_cong [OF co_scan(4)]) (auto simp del: co_at.simps)
next
  case (co_resume s a body ops)
  then show ?case using own_stepD [of body "co_heap s a"]
    by (intro cp_ok_cong [OF co_resume(4)]) (auto simp: same_task_def same_place_def cr_Resume_def)
next
  case (co_release s a ops)
  then show ?case
    by (intro cp_ok_cong [OF co_release(2)]) (auto simp: cr_Release_def same_task_def same_place_def)
next
  case (co_halt s ops)
  then show ?case by (intro cp_ok_cong [OF co_halt]) auto
next
  case (co_halt_ctx s ops i)
  then show ?case by (intro cp_ok_cong [OF co_halt_ctx]) (auto simp: co_queues_same cq_Shutdown_def)
qed (auto intro: cp_make_ok cp_configured_ok cp_registered_ok cp_refused_ok cp_enqueue_ok cp_unregister_ok cp_find_ok(3)
    cp_finish_ok(1) cp_Notify_ok cp_next_ok)

lemma cp_reach_ok: "reach (co_new conf n, \<lambda>_. None) co_step so \<Longrightarrow> cp_ok so"
proof (induction rule: reach.induct)
  case reach_init
  show ?case by (simp add: cp_ok_def co_settled_none co_new_ok)
qed (blast intro: cp_step_ok)

section \<open>What the choreography policy guarantees\<close>

lemma co_pinned_queue:
  assumes "cp_ok (s, ops)" and "i < length (co_pctxs s)"
  shows "set (cq_order (co_pctxs s ! i, h)) = {b. \<exists>k. co_task s ops k b \<and> cr_processor_id (co_heap s b) = of_nat i}"
proof -
  note d = co_okD [OF cp_okD(1) [OF assms(1)], unfolded co_settled_sel co_settled_iff [OF assms(1)]]
  have i: "i < unat (co_proc_num s)" using assms(2) d(1) by (simp add: co_queues_def)
  then have u: "unat (of_nat i :: u32) = i" by (metis le_unat_uoi less_imp_le)
  have pl: "Inl i \<in> co_places s" using i by (simp add: co_places_def)
  have at: "set (cq_order (co_pctxs s ! i, h)) = set (co_at s (Inl i))"
    using assms(2) by (simp add: cq_order_def co_queues_def)
  have "co_home (co_proc_num s) (co_heap s b) = Inl i \<longleftrightarrow> cr_processor_id (co_heap s b) = of_nat i" for b
    using i u by (auto simp: co_home_def word_less_nat_alt)
  then show ?thesis
    unfolding at using d(4,5) [OF pl] d(8) by (auto simp del: co_at.simps) metis+
qed

lemma desc_before:
  "desc es \<Longrightarrow> es = xs @ e # ys \<Longrightarrow> x \<in> set ys \<Longrightarrow> fst x \<le> fst e"
  by (simp add: desc_def sorted_wrt_append)

text \<open>C17: A pinned processor runs the most urgent of its tasks: in every reachable state, when
  \<open>NextRoutine\<close> of processor \<open>i\<close> answers a routine, that is a task pinned to \<open>i\<close> which was unlocked
  and runnable and is now locked and ready, and no unlocked and runnable task pinned to \<open>i\<close> has a
  higher priority; when it answers none, no task pinned to \<open>i\<close> was unlocked and runnable, and the
  next \<open>Notify\<close> wakes the processor again. The tasks are those whose dispatch has put them into a
  queue and that no removal has taken out yet (\<open>co_task\<close>); when no dispatch or removal is under way
  these are the registered ones.\<close>

theorem choreo_runs_highest_priority:
  assumes "reach (co_new conf n, \<lambda>_. None) co_step (s, ops)" and "i < length (co_pctxs s)" and "\<not> cq_stop (co_pctxs s ! i)"
    and "cq_NextRoutine now (co_pctxs s ! i, co_heap s) = (r, x, h)"
  shows "case r of
      Some a \<Rightarrow> cr_processor_id (co_heap s a) = of_nat i \<and> candidate now (co_heap s) a
        \<and> cr_lock (h a) \<and> cr_state (h a) = READY
        \<and> (\<forall>k b. co_task s ops k b \<and> cr_processor_id (co_heap s b) = of_nat i \<and> candidate now (co_heap s) b
             \<longrightarrow> cr_priority (co_heap s b) \<le> cr_priority (co_heap s a))
    | None \<Rightarrow> (\<forall>k b. co_task s ops k b \<and> cr_processor_id (co_heap s b) = of_nat i \<longrightarrow> \<not> candidate now (co_heap s) b)
        \<and> cq_wakeups (cq_Notify x) = Suc (cq_wakeups x)"
proof -
  let ?x = "co_pctxs s ! i" let ?xh = "(co_pctxs s ! i, co_heap s)"
  have c: "cp_ok (s, ops)" by (rule cp_reach_ok [OF assms(1)])
  note ok = cp_okD(1) [OF c]
  have cok: "cq_ok ?xh" using co_pctx_distinct [OF ok, of i] assms(2,3) by (simp add: cq_ok_def)
  note mine = co_pinned_queue [OF c assms(2), of "co_heap s"]
  show ?thesis
  proof (cases r)
    case None
    have "\<not> cq_notified x" using assms(3,4) None by (auto simp: cq_NextRoutine_def split: prod.splits option.splits)
    then show ?thesis
      using cq.none_waiting [OF cok, of now] assms(4) None mine by (auto simp: cq_Notify_def)
  next
    case (Some a)
    have f: "fst (cq_NextRoutine now ?xh) = Some a" using assms(4) Some by simp
    have ca: "a \<in> set (cq_order ?xh)" "candidate now (co_heap s) a" using cq.chosen_is_candidate [OF cok f] by simp_all
    have hs: "h a = (snd (cr_UpdateState now (co_heap s a)))\<lparr>cr_lock := True\<rparr>"
      using cq.chosen_state [OF cok f] assms(4) by simp
    obtain xs ys where o: "cq_order ?xh = xs @ a # ys" "\<forall>y \<in> set xs. \<not> candidate now (co_heap s) y"
      using cq.chosen_is_first [OF cok f] by auto
    obtain es e fs where q: "cq_queue ?x = es @ e # fs" "map snd es = xs" "snd e = a" "map snd fs = ys"
      using o(1) by (auto simp: cq_order_def map_eq_append_conv map_eq_Cons_conv)
    have inq: "cq_queue ?x \<in> set (co_queues s)" using assms(2) by (auto simp: co_queues_def)
    have pr: "fst g = cr_priority (co_heap s (snd g))" if "g \<in> set (cq_queue ?x)" for g
      using co_okD(10) [OF ok, of "cq_queue ?x" g] inq that by simp
    have "cr_priority (co_heap s b) \<le> cr_priority (co_heap s a)"
      if b: "co_task s ops k b" "cr_processor_id (co_heap s b) = of_nat i" "candidate now (co_heap s) b" for k b
    proof -
      have "b \<in> set (cq_order ?xh)" using mine b(1,2) by blast
      then have "b = a \<or> b \<in> set ys" using o b(3) by auto
      then show ?thesis
      proof
        assume "b \<in> set ys"
        then obtain g where g: "g \<in> set fs" "snd g = b" using q(4) by auto
        have "fst g \<le> fst e" by (rule desc_before [OF _ q(1) g(1)]) (use co_okD(9) [OF ok] inq in simp)
        then show ?thesis using pr [of g] pr [of e] g q(1,3) by simp
      qed simp
    qed
    then show ?thesis
      using Some ca hs mine by (auto simp: cr_UpdateState_state cr_UpdateState_ready candidate_def)
  qed
qed

definition co_queued :: "sched_choreo \<Rightarrow> nat set" where
  "co_queued s = {a. \<exists>p \<in> co_places s. a \<in> set (co_at s p)}"

text \<open>C18: In every state the threads of the choreography scheduler can reach, whatever dispatches and
  removals are under way, when \<open>DispatchTask\<close> is only called with routines that are registered under
  no id, as \<open>CreateTask\<close> does (\<open>co_new_routine\<close>; \<open>choreo_redispatch_breaks_removal\<close> shows that this is
  needed): the routines in the queues are exactly the registered tasks whose dispatch is over and the
  tasks whose removal is under way; each is in exactly one queue, once: the queue of its processor
  when that is a pinned one, the pool queue of its group and priority otherwise; the queues of the
  pinned processors are ordered by the priorities of their tasks; and a task whose removal is under
  way is registered no more and stopped. A removal that waits ends exactly when the task's lock is
  free, and its end takes the task out of its queue and changes no other task and no registration.\<close>

theorem choreo_task_placed_once:
  assumes "reach (co_new conf n, \<lambda>_. None) co_step (s, ops)"
  shows "co_queued s = {a. \<exists>k. co_id_cr s k = Some a \<and> ops k \<noteq> Some (Registered a) \<or> co_being_removed ops k a}
    \<and> (\<forall>a \<in> co_queued s. {p \<in> co_places s. a \<in> set (co_at s p)} = {co_home (co_proc_num s) (co_heap s a)}
         \<and> count_list (co_at s (co_home (co_proc_num s) (co_heap s a))) a = 1)
    \<and> (\<forall>q \<in> set (co_queues s). sorted (rev (map (\<lambda>e. cr_priority (co_heap s (snd e))) q)))
    \<and> (\<forall>k a. co_being_removed ops k a \<longrightarrow> cr_id (co_heap s a) = k \<and> co_id_cr s k = None \<and> cr_force_stop (co_heap s a))
    \<and> (\<forall>k a pl. ops k = Some (Awaiting a pl) \<longrightarrow> (case co_Remove_finish pl a s of
          None \<Rightarrow> cr_lock (co_heap s a)
        | Some t \<Rightarrow> \<not> cr_lock (co_heap s a) \<and> co_queued t = co_queued s - {a} \<and> co_id_cr t = co_id_cr s
            \<and> co_heap t = (co_heap s)(a := (co_heap s a)\<lparr>cr_lock := False\<rparr>)))"
proof (intro conjI ballI allI impI)
  have c: "cp_ok (s, ops)" by (rule cp_reach_ok [OF assms])
  note d = co_okD [OF cp_okD(1) [OF c], unfolded co_settled_sel co_settled_iff [OF c]]
  show "co_queued s = {a. \<exists>k. co_id_cr s k = Some a \<and> ops k \<noteq> Some (Registered a) \<or> co_being_removed ops k a}"
    unfolding co_queued_def using d(4,7,8) unfolding co_task_def by blast
  show "{p \<in> co_places s. a \<in> set (co_at s p)} = {co_home (co_proc_num s) (co_heap s a)}" if "a \<in> co_queued s" for a
    using that d(5) unfolding co_queued_def by blast
  show "count_list (co_at s (co_home (co_proc_num s) (co_heap s a))) a = 1" if q: "a \<in> co_queued s" for a
  proof -
    obtain p where p: "p \<in> co_places s" "a \<in> set (co_at s p)" using q unfolding co_queued_def by blast
    show ?thesis unfolding d(5) [OF p] by (rule count_list_distinct [OF d(3) [OF p(1)] p(2)])
  qed
  show "sorted (rev (map (\<lambda>e. cr_priority (co_heap s (snd e))) q))" if q: "q \<in> set (co_queues s)" for q
  proof -
    have e: "map (\<lambda>e. cr_priority (co_heap s (snd e))) q = map fst q" using d(10) [OF q] by simp
    show ?thesis
      unfolding e using d(9) [OF q] by (simp add: desc_def rev_map [symmetric] sorted_wrt_rev sorted_wrt_map)
  qed
  show "cr_id (co_heap s a) = k" if "co_being_removed ops k a" for k a
    using d(6) [of k a] that by (simp add: co_task_def)
  show "co_id_cr s k = None" "cr_force_stop (co_heap s a)" if "co_being_removed ops k a" for k a
    using cp_okD(2) [OF c, of k] that by (auto simp: co_being_removed_def)
  fix k a pl assume w: "ops k = Some (Awaiting a pl)"
  show "case co_Remove_finish pl a s of
          None \<Rightarrow> cr_lock (co_heap s a)
        | Some t \<Rightarrow> \<not> cr_lock (co_heap s a) \<and> co_queued t = co_queued s - {a} \<and> co_id_cr t = co_id_cr s
            \<and> co_heap t = (co_heap s)(a := (co_heap s a)\<lparr>cr_lock := False\<rparr>)"
  proof (cases "co_Remove_finish pl a s")
    case None
    then show ?thesis
      by (auto simp: co_Remove_finish_def cq_Remove_finish_def cr_Acquire_def Let_def split: sum.splits prod.splits if_splits)
  next
    case (Some t)
    note f = cp_finish_ok [OF c w Some]
    have "co_places t = co_places s"
      using Some by (auto simp: co_Remove_finish_def co_places_def Let_def split: sum.splits prod.splits if_splits)
    then have "co_queued t = co_queued s - {a}" unfolding co_queued_def using f(2) by blast
    then show ?thesis using f(3-5) unfolding Some by simp
  qed
qed

text \<open>Two tasks pinned to processor 1 of two, the second more urgent.\<close>

definition co_demo0 :: sched_choreo where
  "co_demo0 = co_set 5 ((cr_new 0)\<lparr>cr_id := 11, cr_name := ''b''\<rparr>) (co_set 0 ((cr_new 0)\<lparr>cr_id := 10, cr_name := ''a''\<rparr>)
     (co_new (Some (2, 1, [''a'' \<mapsto> (3, Some 1), ''b'' \<mapsto> (40, Some 1)])) None))"

definition co_demo :: sched_choreo where
  "co_demo = snd (the (co_DispatchTask 5 (snd (the (co_DispatchTask 0 co_demo0)))))"

lemma replicate_two: "replicate 2 x = [x, x]"
  by (simp add: numeral_2_eq_2)

lemmas co_demo_simps = co_demo_def co_demo0_def co_new_def co_DispatchTask_def co_Dispatch_configure_def
  co_Dispatch_register_def co_Dispatch_enqueue_def co_configure_def cr_new_def co_set_def
  co_set_ctx_def cq_Enqueue_def cq_new_def replicate_two Let_def

lemma co_demo_parts:
  "co_pctxs co_demo = [cq_new, cq_new\<lparr>cq_queue := [(40, 5), (3, 0)]\<rparr>]"
  "co_id_cr co_demo = [10 \<mapsto> 0, 11 \<mapsto> 5]" "co_proc_num co_demo = 2"
  "cr_processor_id (co_heap co_demo 5) = 1" "cr_lock (co_heap co_demo 5) = False"
  "cr_state (co_heap co_demo 5) = READY" "cr_priority (co_heap co_demo 5) = 40"
  by (simp_all add: co_demo_simps)

definition co_demo_conf :: "(u32 \<times> u32 \<times> (string \<Rightarrow> (u32 \<times> i32 option) option)) option" where
  "co_demo_conf = Some (2, 1, [''a'' \<mapsto> (3, Some 1), ''b'' \<mapsto> (40, Some 1)])"

lemma co_reach_dispatch:
  assumes "reach s0 co_step (s, \<lambda>_. None)" and "\<And>k. co_id_cr s k \<noteq> Some a"
    and "co_DispatchTask a s = Some (True, t)"
  shows "reach s0 co_step (t, \<lambda>_. None)"
proof -
  let ?k = "cr_id (co_heap s a)" and ?n = "\<lambda>_::u64. None :: co_op option"
  let ?u = "co_Dispatch_configure a s"
  have k: "cr_id (co_heap ?u a) = ?k" by (simp add: co_Dispatch_configure_def co_configure_id)
  obtain v where v: "co_Dispatch_register a ?u = Some v" "co_Dispatch_enqueue a v = Some t"
    using assms(3) by (auto simp: co_DispatchTask_def Let_def split: option.splits)
  have "co_step (s, ?n) (?u, ?n(?k \<mapsto> Configured a))"
    by (rule co_configured) (use assms(2) in \<open>auto simp: co_new_routine_def\<close>)
  moreover have "co_step (?u, ?n(?k \<mapsto> Configured a)) (v, (?n(?k \<mapsto> Configured a))(?k \<mapsto> Registered a))"
    by (rule co_registered) (simp_all add: v)
  moreover have "co_step (v, (?n(?k \<mapsto> Configured a))(?k \<mapsto> Registered a)) (t, ((?n(?k \<mapsto> Configured a))(?k \<mapsto> Registered a))(?k := None))"
    by (rule co_enqueue [OF _ v(2)]) (simp_all add: co_held_def)
  ultimately show ?thesis
    using reach_step [OF reach_step [OF reach_step [OF assms(1)]]] by (simp add: fun_upd_idem)
qed

lemma co_demo_reach: "reach (co_new co_demo_conf None, \<lambda>_. None) co_step (co_demo, \<lambda>_. None)"
proof -
  let ?s = "co_new co_demo_conf None"
  let ?s1 = "co_set 0 ((cr_new 0)\<lparr>cr_id := 10, cr_name := ''a''\<rparr>) ?s"
  have none: "co_id_cr ?s k = None" for k by (simp add: co_new_def co_demo_conf_def)
  have 1: "co_step (?s, \<lambda>_. None) (?s1, \<lambda>_. None)" by (rule co_make) (simp add: none co_new_routine_def)
  have 2: "co_step (?s1, \<lambda>_. None) (co_demo0, \<lambda>_. None)"
    unfolding co_demo0_def co_demo_conf_def [symmetric] by (rule co_make) (simp add: none co_new_routine_def)
  have r: "reach (?s, \<lambda>_. None) co_step (co_demo0, \<lambda>_. None)" by (rule reach_step, rule reach_one, rule 1, rule 2)
  let ?t = "snd (the (co_DispatchTask 0 co_demo0))"
  have t: "co_DispatchTask 0 co_demo0 = Some (True, ?t)" by (simp add: co_demo_simps)
  have u: "co_DispatchTask 5 ?t = Some (True, co_demo)" by (simp add: co_demo_simps)
  have 3: "reach (?s, \<lambda>_. None) co_step (?t, \<lambda>_. None)"
    by (rule co_reach_dispatch [OF r _ t]) (simp add: co_demo_simps)
  show ?thesis by (rule co_reach_dispatch [OF 3 _ u]) (simp add: co_demo_simps)
qed

lemma choreo_runs_highest_priority_witness:
  "\<exists>r x h. cq_NextRoutine 5 (co_pctxs co_demo ! 1, co_heap co_demo) = (r, x, h) \<and>
     (\<exists>a. r = Some a \<and> 40 \<le> cr_priority (co_heap co_demo a) \<and> cr_state (h a) = READY)"
proof -
  obtain r x h where n: "cq_NextRoutine 5 (co_pctxs co_demo ! 1, co_heap co_demo) = (r, x, h)" by (metis surj_pair)
  have c: "candidate 5 (co_heap co_demo) 5" using co_demo_parts by (simp add: candidate_def cr_runnable_def)
  have st: "1 < length (co_pctxs co_demo)" "\<not> cq_stop (co_pctxs co_demo ! 1)"
    by (simp_all add: co_demo_parts(1) cq_new_def)
  note u = choreo_runs_highest_priority [OF co_demo_reach st n]
  have "\<exists>a. r = Some a \<and> 40 \<le> cr_priority (co_heap co_demo a) \<and> cr_state (h a) = READY"
  proof (cases r)
    case None
    have "\<forall>k b. co_task co_demo (\<lambda>_. None) k b \<and> cr_processor_id (co_heap co_demo b) = of_nat 1 \<longrightarrow> \<not> candidate 5 (co_heap co_demo) b"
      using u unfolding None option.case by (elim conjunct1)
    from this [rule_format, of 11 5] show ?thesis using c by (simp add: co_demo_parts co_task_def)
  next
    case (Some a)
    have "cr_state (h a) = READY" "\<forall>k b. co_task co_demo (\<lambda>_. None) k b \<and> cr_processor_id (co_heap co_demo b) = of_nat 1
        \<and> candidate 5 (co_heap co_demo) b \<longrightarrow> cr_priority (co_heap co_demo b) \<le> cr_priority (co_heap co_demo a)"
      using u unfolding Some option.case by blast+
    from this(1) this(2) [rule_format, of 11 5] show ?thesis using c Some by (simp add: co_demo_parts co_task_def)
  qed
  then show ?thesis using n by blast
qed

lemma choreo_task_placed_once_witness:
  "{p \<in> co_places co_demo. 5 \<in> set (co_at co_demo p)} = {Inl 1}"
proof -
  note r = choreo_task_placed_once [OF co_demo_reach]
  have "co_id_cr co_demo 11 = Some 5" by (simp add: co_demo_parts)
  then have "5 \<in> co_queued co_demo" using r by auto
  then show ?thesis using r by (simp add: co_home_def co_demo_parts)
qed

text \<open>Why a dispatch must be of a new routine: \<open>DispatchTask\<close> configures the routine before it looks
  whether the id is registered. A pool task with a configured priority that is too high has been
  moved to the highest; a second dispatch of the routine answers false and queues nothing, but
  configures the priority anew, and then its removal accesses a queue that does not exist, where
  \<open>array::at\<close> throws, with the task unregistered already and in its queue for ever.\<close>

theorem choreo_redispatch_breaks_removal:
  assumes "co_id_cr s (cr_id (co_heap s a)) = Some a" and "co_confs s (cr_name (co_heap s a)) = Some (prio, None)"
    and "MAX_PRIO \<le> unat prio" and "cr_processor_id (co_heap s a) = - 1"
  shows "\<exists>t. co_DispatchTask a s = Some (False, t) \<and> co_pool t = co_pool s \<and> co_RemoveCRoutine others (cr_id (co_heap s a)) t = None"
proof -
  let ?t = "co_set a ((co_heap s a)\<lparr>cr_priority := prio\<rparr>) s"
  have "co_DispatchTask a s = Some (False, ?t)"
    using assms(1,2) by (simp add: co_DispatchTask_def co_Dispatch_configure_def co_Dispatch_register_def co_configure_def Let_def)
  moreover have "co_RemoveCRoutine others (cr_id (co_heap s a)) ?t = None"
    using assms(1,3,4) by (simp add: co_RemoveCRoutine_def co_Remove_unregister_def co_Remove_find_def co_place_of_def cr_Stop_def)
  ultimately show ?thesis by auto
qed

definition co_redo0 :: sched_choreo where
  "co_redo0 = co_set 0 ((cr_new 0)\<lparr>cr_name := ''a''\<rparr>) (co_new (Some (2, 1, [''a'' \<mapsto> (25, None)])) None)"

definition co_redo :: sched_choreo where "co_redo = snd (the (co_DispatchTask 0 co_redo0))"

lemmas co_redo_simps = co_redo_def co_redo0_def co_demo_simps co_set_pool_def co_to_pool_def MAX_PRIO_def

lemma co_redo_dispatch: "co_DispatchTask 0 co_redo0 = Some (True, co_redo)"
proof -
  have "\<exists>t. co_DispatchTask 0 co_redo0 = Some (True, t)" by (simp add: co_redo_simps)
  then show ?thesis by (auto simp: co_redo_def)
qed

lemma choreo_redispatch_breaks_removal_witness:
  "co_DispatchTask 0 co_redo0 = Some (True, co_redo)
    \<and> (\<exists>t. co_DispatchTask 0 co_redo = Some (False, t) \<and> co_RemoveCRoutine [] 0 t = None)
    \<and> (\<exists>u. co_RemoveCRoutine [] 0 co_redo = Some (True, u))"
proof -
  have k: "cr_id (co_heap co_redo 0) = 0" by (simp add: co_redo_simps)
  have i: "co_id_cr co_redo (cr_id (co_heap co_redo 0)) = Some 0" "co_confs co_redo (cr_name (co_heap co_redo 0)) = Some (25, None)"
    "MAX_PRIO \<le> unat (25 :: u32)" "cr_processor_id (co_heap co_redo 0) = - 1"
    by (simp_all add: co_redo_simps)
  have "\<exists>u. co_RemoveCRoutine [] 0 co_redo = Some (True, u)"
    by (simp add: co_redo_simps co_RemoveCRoutine_def co_Remove_unregister_def
      co_Remove_find_def co_Remove_finish_def co_place_of_def cr_Stop_def cr_Acquire_def)
  then show ?thesis
    using choreo_redispatch_breaks_removal [OF i, of "[]"] co_redo_dispatch unfolding k by blast
qed

text \<open>A task whose configured processor lies past the pinned ones is dispatched, successfully, into
  the pool, where no processor is woken for it; but from then on notifying it and removing it index
  the contexts with that processor number, which is undefined.\<close>

theorem choreo_processor_out_of_range:
  assumes "co_ok s" and "\<not> co_stop s" and "co_id_cr s (cr_id (co_heap s a)) = None"
    and "co_confs s (cr_name (co_heap s a)) = Some (prio, Some p)" and "co_proc_num s \<le> p" and "p \<noteq> - 1"
  shows "\<exists>t. co_DispatchTask a s = Some (True, t) \<and> co_id_cr t (cr_id (co_heap s a)) = Some a
    \<and> (\<exists>i < MAX_PRIO. a \<in> set (co_at t (Inr (DEFAULT_GROUP_NAME, i)))) \<and> co_notified t = co_notified s
    \<and> co_NotifyProcessor (cr_id (co_heap s a)) t = None
    \<and> co_RemoveCRoutine others (cr_id (co_heap s a)) t = None"
proof -
  let ?c = "co_to_pool ((co_heap s a)\<lparr>cr_priority := prio, cr_processor_id := p\<rparr>)"
  let ?i = "unat (cr_priority ?c)"
  let ?t = "co_set_pool DEFAULT_GROUP_NAME ?i (co_pool s DEFAULT_GROUP_NAME ! ?i @ [a])
     (co_set a ?c ((co_set a ((co_heap s a)\<lparr>cr_priority := prio, cr_processor_id := p\<rparr>) s)
        \<lparr>co_id_cr := (co_id_cr s)(cr_id (co_heap s a) \<mapsto> a)\<rparr>))"
  have np: "\<not> p < co_proc_num s" using assms(5) by simp
  have i: "?i < MAX_PRIO" by (rule co_to_pool_home(2))
  have p: "cr_processor_id ?c = p" "cr_id ?c = cr_id (co_heap s a)" by (auto simp: co_to_pool_def)
  have l: "length (co_pctxs ?t) \<le> unat p"
    using co_okD(1) [OF assms(1)] assms(5) by (simp add: co_queues_def co_set_pool_def word_le_nat_alt)
  have "co_DispatchTask a s = Some (True, ?t)"
    using assms(3,4) np by (simp add: co_DispatchTask_def co_Dispatch_configure_def co_Dispatch_register_def co_Dispatch_enqueue_def
      co_configure_def Let_def co_set_def)
  moreover have "a \<in> set (co_at ?t (Inr (DEFAULT_GROUP_NAME, ?i)))"
    using i co_okD(2) [OF assms(1)] by (simp add: co_pool_set)
  moreover have "co_NotifyProcessor (cr_id (co_heap s a)) ?t = None"
    using assms(2,6) l p by (simp add: co_NotifyProcessor_def Let_def co_set_pool_def co_set_def)
  moreover have "co_RemoveCRoutine others (cr_id (co_heap s a)) ?t = None"
    using assms(6) l p by (simp add: co_RemoveCRoutine_def co_Remove_unregister_def co_Remove_find_def co_place_of_def cr_Stop_def Let_def co_set_pool_def co_set_def)
  moreover have "co_notified ?t = co_notified s" "co_id_cr ?t (cr_id (co_heap s a)) = Some a"
    by (simp_all add: co_set_pool_def co_set_def)
  ultimately show ?thesis using i by blast
qed

lemma choreo_processor_out_of_range_witness:
  "\<exists>t. co_DispatchTask 0 (co_set 0 ((cr_new 0)\<lparr>cr_name := ''a''\<rparr>) (co_new (Some (2, 1, [''a'' \<mapsto> (3, Some 2)])) None)) = Some (True, t)
    \<and> co_RemoveCRoutine [] 0 t = None"
proof -
  let ?s = "co_set 0 ((cr_new 0)\<lparr>cr_name := ''a''\<rparr>) (co_new (Some (2, 1, [''a'' \<mapsto> (3, Some 2)])) None)"
  have ok: "co_ok ?s"
    by (rule co_ok_make [OF co_new_ok]) (simp add: co_new_def)
  have "cr_id (co_heap ?s 0) = 0" "\<not> co_stop ?s" "co_id_cr ?s (cr_id (co_heap ?s 0)) = None"
    "co_confs ?s (cr_name (co_heap ?s 0)) = Some (3, Some 2)" "co_proc_num ?s \<le> 2"
    by (simp_all add: co_new_def cr_new_def co_set_def)
  then show ?thesis using choreo_processor_out_of_range [OF ok, of 0 3 2 "[]"] by auto
qed

end
