(* ===== verification/Record_File.thy ===== *)
theory Record_File
  imports Message_Codec "HOL-Library.Multiset"
begin

text \<open>
  Record files (cyber/record): the data of proto/record.proto, the header builder, and the writer
  of one file (file/record_file_writer.h, .cc) with its flush thread. A file is its header, which is
  written in place at position 0 with a fixed length, and the sections behind it. The protobuf
  library turns a section into bytes; its \<open>ByteSize\<close> is the parameter \<open>bsz\<close>, and positions are
  counted in bytes. Calls of the system that fail are not modelled. A write at a position that is
  not the end of the file would destroy the sections there and is \<open>None\<close>.
\<close>

section \<open>The data\<close>

record single_message =
  sm_channel_name :: string
  sm_time :: u64
  sm_content :: string

datatype compress_type = COMPRESS_NONE | COMPRESS_BZ2 | COMPRESS_LZ4

record rec_header =
  hd_major_version :: u32
  hd_minor_version :: u32
  hd_compress :: compress_type
  hd_chunk_interval :: u64
  hd_segment_interval :: u64
  hd_index_position :: u64
  hd_chunk_number :: u64
  hd_channel_number :: u64
  hd_begin_time :: u64
  hd_end_time :: u64
  hd_message_number :: u64
  hd_size :: u64
  hd_is_complete :: bool
  hd_chunk_raw_size :: u64
  hd_segment_raw_size :: u64

record chunk_header =
  ck_begin_time :: u64
  ck_end_time :: u64
  ck_message_number :: u64
  ck_raw_size :: u64

record channel =
  chn_name :: string
  chn_message_type :: string
  chn_proto_desc :: string

record channel_cache =
  cc_message_number :: u64
  cc_name :: string
  cc_message_type :: string
  cc_proto_desc :: string

datatype index_cache = ChannelIx channel_cache | ChunkHeaderIx chunk_header | ChunkBodyIx u64

record single_index =
  si_position :: u64
  si_cache :: index_cache

datatype rec_section = SecChunkHeader chunk_header | SecChunkBody "single_message list"
  | SecIndex "single_index list" | SecChannel channel

type_synonym rec_file = "rec_header \<times> rec_section list"

section \<open>The header builder\<close>

definition CHUNK_INTERVAL :: u64 where "CHUNK_INTERVAL = 20 * 1000 * 1000 * 1000"
definition SEGMENT_INTERVAL :: u64 where "SEGMENT_INTERVAL = 60 * 1000 * 1000 * 1000"
definition CHUNK_RAW_SIZE :: u64 where "CHUNK_RAW_SIZE = 200 * 1024 * 1024"
definition SEGMENT_RAW_SIZE :: u64 where "SEGMENT_RAW_SIZE = 2048 * 1024 * 1024"

definition GetHeader :: rec_header where
  "GetHeader = \<lparr>hd_major_version = 1, hd_minor_version = 0, hd_compress = COMPRESS_NONE,
     hd_chunk_interval = CHUNK_INTERVAL, hd_segment_interval = SEGMENT_INTERVAL, hd_index_position = 0,
     hd_chunk_number = 0, hd_channel_number = 0, hd_begin_time = 0, hd_end_time = 0, hd_message_number = 0,
     hd_size = 0, hd_is_complete = False, hd_chunk_raw_size = CHUNK_RAW_SIZE, hd_segment_raw_size = SEGMENT_RAW_SIZE\<rparr>"

definition GetHeaderWithSegmentParams :: "u64 \<Rightarrow> u64 \<Rightarrow> rec_header" where
  "GetHeaderWithSegmentParams interval raw_size =
     \<lparr>hd_major_version = 1, hd_minor_version = 0, hd_compress = COMPRESS_NONE,
     hd_chunk_interval = CHUNK_INTERVAL, hd_segment_interval = interval, hd_index_position = 0,
     hd_chunk_number = 0, hd_channel_number = 0, hd_begin_time = 0, hd_end_time = 0, hd_message_number = 0,
     hd_size = 0, hd_is_complete = False, hd_chunk_raw_size = CHUNK_RAW_SIZE, hd_segment_raw_size = raw_size\<rparr>"

definition GetHeaderWithChunkParams :: "u64 \<Rightarrow> u64 \<Rightarrow> rec_header" where
  "GetHeaderWithChunkParams interval raw_size =
     \<lparr>hd_major_version = 1, hd_minor_version = 0, hd_compress = COMPRESS_NONE,
     hd_chunk_interval = interval, hd_segment_interval = SEGMENT_INTERVAL, hd_index_position = 0,
     hd_chunk_number = 0, hd_channel_number = 0, hd_begin_time = 0, hd_end_time = 0, hd_message_number = 0,
     hd_size = 0, hd_is_complete = False, hd_chunk_raw_size = raw_size, hd_segment_raw_size = SEGMENT_RAW_SIZE\<rparr>"

section \<open>Chunks\<close>

record chunk =
  ck_header :: chunk_header
  ck_body :: "single_message list"

definition Chunk_clear :: chunk where
  "Chunk_clear = \<lparr>ck_header = \<lparr>ck_begin_time = 0, ck_end_time = 0, ck_message_number = 0, ck_raw_size = 0\<rparr>, ck_body = []\<rparr>"

definition Chunk_add :: "single_message \<Rightarrow> chunk \<Rightarrow> chunk" where
  "Chunk_add m c =
     (let h = ck_header c; t = sm_time m;
          h = (if ck_begin_time h = 0 then h\<lparr>ck_begin_time := t\<rparr>
               else if t < ck_begin_time h then h\<lparr>ck_begin_time := t\<rparr> else h);
          h = (if ck_end_time h < t then h\<lparr>ck_end_time := t\<rparr> else h) in
      \<lparr>ck_header = h\<lparr>ck_message_number := ck_message_number h + 1,
         ck_raw_size := ck_raw_size h + of_nat (length (sm_content m))\<rparr>,
       ck_body = ck_body c @ [m]\<rparr>)"

definition Chunk_empty :: "chunk \<Rightarrow> bool" where
  "Chunk_empty c \<longleftrightarrow> ck_message_number (ck_header c) = 0"

section \<open>The writer of a file\<close>

definition SECTION_LENGTH :: nat where "SECTION_LENGTH = 16"
definition HEADER_LENGTH :: nat where "HEADER_LENGTH = 2048"

definition sec_len :: "(rec_section \<Rightarrow> nat) \<Rightarrow> rec_section \<Rightarrow> nat" where
  "sec_len bsz s = SECTION_LENGTH + bsz s"

definition file_end :: "(rec_section \<Rightarrow> nat) \<Rightarrow> rec_section list \<Rightarrow> nat" where
  "file_end bsz ss = SECTION_LENGTH + HEADER_LENGTH + sum_list (map (sec_len bsz) ss)"

record file_writer =
  fw_header :: rec_header
  fw_index :: "single_index list"
  fw_stored :: "rec_header option"
  fw_sections :: "rec_section list"
  fw_pos :: nat
  fw_active :: chunk
  fw_flush :: chunk
  fw_is_writing :: bool
  fw_numbers :: "string \<Rightarrow> u64 option"

text \<open>\<open>Open\<close>, from the writer's header, for a file that does not exist yet.\<close>

definition fw_Open :: "rec_header \<Rightarrow> file_writer" where
  "fw_Open h = \<lparr>fw_header = h, fw_index = [], fw_stored = None, fw_sections = [], fw_pos = 0,
     fw_active = Chunk_clear, fw_flush = Chunk_clear, fw_is_writing = True, fw_numbers = (\<lambda>_. None)\<rparr>"

definition fw_WriteSection :: "(rec_section \<Rightarrow> nat) \<Rightarrow> rec_section \<Rightarrow> file_writer \<Rightarrow> file_writer option" where
  "fw_WriteSection bsz s w =
     (if fw_pos w \<noteq> file_end bsz (fw_sections w) then None
      else (let p = fw_pos w + sec_len bsz s in
        Some (w\<lparr>fw_sections := fw_sections w @ [s], fw_pos := p, fw_header := (fw_header w)\<lparr>hd_size := of_nat p\<rparr>\<rparr>)))"

text \<open>\<open>WriteHeader\<close> with \<open>WriteSection<Header>\<close>: at position 0, padded to the fixed length.\<close>

definition fw_WriteHeader :: "rec_header \<Rightarrow> file_writer \<Rightarrow> file_writer" where
  "fw_WriteHeader h w =
     (let p = SECTION_LENGTH + HEADER_LENGTH in
      w\<lparr>fw_stored := Some h, fw_pos := p, fw_header := h\<lparr>hd_size := of_nat p\<rparr>\<rparr>)"

definition fw_add_index :: "index_cache \<Rightarrow> file_writer \<Rightarrow> file_writer" where
  "fw_add_index c w = w\<lparr>fw_index := fw_index w @ [\<lparr>si_position = of_nat (fw_pos w), si_cache = c\<rparr>]\<rparr>"

definition fw_WriteChannel :: "(rec_section \<Rightarrow> nat) \<Rightarrow> channel \<Rightarrow> file_writer \<Rightarrow> file_writer option" where
  "fw_WriteChannel bsz ch w = do {
     w \<leftarrow> fw_WriteSection bsz (SecChannel ch) w;
     Some (fw_add_index (ChannelIx \<lparr>cc_message_number = 0, cc_name = chn_name ch, cc_message_type = chn_message_type ch,
             cc_proto_desc = chn_proto_desc ch\<rparr>)
       (w\<lparr>fw_header := (fw_header w)\<lparr>hd_channel_number := hd_channel_number (fw_header w) + 1\<rparr>\<rparr>)) }"

definition fw_WriteChunk :: "(rec_section \<Rightarrow> nat) \<Rightarrow> chunk_header \<Rightarrow> single_message list \<Rightarrow> file_writer \<Rightarrow> file_writer option" where
  "fw_WriteChunk bsz h body w = do {
     w \<leftarrow> fw_WriteSection bsz (SecChunkHeader h) w;
     let w = fw_add_index (ChunkHeaderIx h) w;
     w \<leftarrow> fw_WriteSection bsz (SecChunkBody body) w;
     let d = fw_header w;
     let d = d\<lparr>hd_chunk_number := hd_chunk_number d + 1\<rparr>;
     let d = (if hd_begin_time d = 0 then d\<lparr>hd_begin_time := ck_begin_time h\<rparr> else d);
     let d = d\<lparr>hd_end_time := ck_end_time h, hd_message_number := hd_message_number d + ck_message_number h\<rparr>;
     Some (fw_add_index (ChunkBodyIx (of_nat (length body))) (w\<lparr>fw_header := d\<rparr>)) }"

definition fw_count :: "string \<Rightarrow> file_writer \<Rightarrow> file_writer" where
  "fw_count c w = w\<lparr>fw_numbers := (fw_numbers w)(c \<mapsto> (case fw_numbers w c of Some n \<Rightarrow> n + 1 | None \<Rightarrow> 1))\<rparr>"

definition fw_swap :: "file_writer \<Rightarrow> file_writer" where
  "fw_swap w = w\<lparr>fw_active := fw_flush w, fw_flush := fw_active w\<rparr>"

definition fw_WriteMessage :: "single_message \<Rightarrow> file_writer \<Rightarrow> file_writer" where
  "fw_WriteMessage m w =
     (let w = fw_count (sm_channel_name m) (w\<lparr>fw_active := Chunk_add m (fw_active w)\<rparr>);
          h = ck_header (fw_active w);
          need_flush = ((0 < hd_chunk_interval (fw_header w) \<and> hd_chunk_interval (fw_header w) < sm_time m - ck_begin_time h)
            \<or> (0 < hd_chunk_raw_size (fw_header w) \<and> hd_chunk_raw_size (fw_header w) < ck_raw_size h)) in
      if \<not> need_flush then w else fw_swap w)"

text \<open>A turn of the loop of \<open>Flush\<close>, under the flush mutex.\<close>

definition fw_Flush :: "(rec_section \<Rightarrow> nat) \<Rightarrow> file_writer \<Rightarrow> file_writer option" where
  "fw_Flush bsz w =
     (if \<not> fw_is_writing w \<or> Chunk_empty (fw_flush w) then Some w
      else map_option (\<lambda>w. w\<lparr>fw_flush := Chunk_clear\<rparr>) (fw_WriteChunk bsz (ck_header (fw_flush w)) (ck_body (fw_flush w)) w))"

definition fw_index_count :: "(string \<Rightarrow> u64 option) \<Rightarrow> single_index \<Rightarrow> single_index" where
  "fw_index_count m i = (case si_cache i of
       ChannelIx c \<Rightarrow> (case m (cc_name c) of None \<Rightarrow> i | Some n \<Rightarrow> i\<lparr>si_cache := ChannelIx (c\<lparr>cc_message_number := n\<rparr>)\<rparr>)
     | _ \<Rightarrow> i)"

definition fw_WriteIndex :: "(rec_section \<Rightarrow> nat) \<Rightarrow> file_writer \<Rightarrow> file_writer option" where
  "fw_WriteIndex bsz w =
     (let w = w\<lparr>fw_index := map (fw_index_count (fw_numbers w)) (fw_index w)\<rparr>;
          w = w\<lparr>fw_header := (fw_header w)\<lparr>hd_index_position := of_nat (fw_pos w)\<rparr>\<rparr> in
      fw_WriteSection bsz (SecIndex (fw_index w)) w)"

text \<open>\<open>Close\<close>: the two waits end when the flush thread has written its chunk.\<close>

definition fw_Close :: "(rec_section \<Rightarrow> nat) \<Rightarrow> file_writer \<Rightarrow> file_writer option" where
  "fw_Close bsz w =
     (if \<not> fw_is_writing w then Some w
      else do {
        w \<leftarrow> fw_Flush bsz w;
        w \<leftarrow> fw_Flush bsz (fw_swap w);
        w \<leftarrow> fw_WriteIndex bsz (w\<lparr>fw_is_writing := False\<rparr>);
        Some (fw_WriteHeader ((fw_header w)\<lparr>hd_is_complete := True\<rparr>) w) })"

definition fw_GetMessageNumber :: "string \<Rightarrow> file_writer \<Rightarrow> u64" where
  "fw_GetMessageNumber c w = (case fw_numbers w c of Some n \<Rightarrow> n | None \<Rightarrow> 0)"

end
