(* ===== verification/Record_Reader.thy ===== *)
theory Record_Reader
  imports Record_File
begin

text \<open>
  Reading record files (record_reader.cc, file/record_file_reader.cc). The reader's position is what
  is left of the sections behind it. A file has the shape its writer gives it: typed sections, each
  whole; broken bytes are not modelled. The two loops and the recursion of \<open>ReadMessage\<close> are
  functions with termination proofs.
\<close>

record record_reader =
  rr_is_valid :: bool
  rr_header :: rec_header
  rr_file :: rec_file
  rr_rest :: "rec_section list"
  rr_reach_end :: bool
  rr_chunk :: "single_message list"
  rr_message_index :: nat
  rr_channel_info :: "string \<Rightarrow> channel_cache option"

section \<open>Opening\<close>

text \<open>\<open>SetPosition\<close> to a section's first byte: the sections from there on.\<close>

fun sections_at :: "(rec_section \<Rightarrow> nat) \<Rightarrow> nat \<Rightarrow> nat \<Rightarrow> rec_section list \<Rightarrow> rec_section list option" where
  "sections_at bsz p q [] = (if p = q then Some [] else None)"
| "sections_at bsz p q (s # ss) = (if p = q then Some (s # ss) else sections_at bsz p (q + sec_len bsz s) ss)"

definition fr_ReadIndex :: "(rec_section \<Rightarrow> nat) \<Rightarrow> rec_file \<Rightarrow> single_index list option" where
  "fr_ReadIndex bsz f =
     (if \<not> hd_is_complete (fst f) then None
      else (case sections_at bsz (unat (hd_index_position (fst f))) (SECTION_LENGTH + HEADER_LENGTH) (snd f) of
          Some (SecIndex ix # _) \<Rightarrow> Some ix
        | _ \<Rightarrow> None))"

text \<open>\<open>insert\<close> keeps the entry a name already has.\<close>

fun rr_channels :: "single_index list \<Rightarrow> (string \<Rightarrow> channel_cache option) \<Rightarrow> string \<Rightarrow> channel_cache option" where
  "rr_channels [] m = m"
| "rr_channels (i # is) m = rr_channels is (case si_cache i of
       ChannelIx c \<Rightarrow> (if m (cc_name c) = None then m(cc_name c \<mapsto> c) else m)
     | _ \<Rightarrow> m)"

definition rr_open :: "(rec_section \<Rightarrow> nat) \<Rightarrow> rec_file \<Rightarrow> record_reader" where
  "rr_open bsz f = \<lparr>rr_is_valid = True, rr_header = fst f, rr_file = f, rr_rest = snd f, rr_reach_end = False,
     rr_chunk = [], rr_message_index = 0,
     rr_channel_info = (case fr_ReadIndex bsz f of Some ix \<Rightarrow> rr_channels ix (\<lambda>_. None) | None \<Rightarrow> (\<lambda>_. None))\<rparr>"

definition rr_Reset :: "record_reader \<Rightarrow> record_reader" where
  "rr_Reset r = r\<lparr>rr_rest := snd (rr_file r), rr_reach_end := False, rr_message_index := 0, rr_chunk := []\<rparr>"

definition rr_GetMessageNumber :: "string \<Rightarrow> record_reader \<Rightarrow> u64" where
  "rr_GetMessageNumber c r = (case rr_channel_info r c of None \<Rightarrow> 0 | Some x \<Rightarrow> cc_message_number x)"

definition rr_GetMessageType :: "string \<Rightarrow> record_reader \<Rightarrow> string" where
  "rr_GetMessageType c r = (case rr_channel_info r c of None \<Rightarrow> [] | Some x \<Rightarrow> cc_message_type x)"

definition rr_GetProtoDesc :: "string \<Rightarrow> record_reader \<Rightarrow> string" where
  "rr_GetProtoDesc c r = (case rr_channel_info r c of None \<Rightarrow> [] | Some x \<Rightarrow> cc_proto_desc x)"

definition rr_GetChannelList :: "record_reader \<Rightarrow> string set" where
  "rr_GetChannelList r = dom (rr_channel_info r)"

section \<open>Reading\<close>

text \<open>\<open>ReadNextChunk\<close>: the body of the next chunk that reaches \<open>begin_time\<close>, the sections behind it,
  and whether the index was reached. \<open>skip\<close> is \<open>skip_next_chunk_body\<close>.\<close>

fun next_chunk :: "u64 \<Rightarrow> u64 \<Rightarrow> bool \<Rightarrow> rec_section list \<Rightarrow> single_message list option \<times> rec_section list \<times> bool" where
  "next_chunk b e skip [] = (None, [], False)"
| "next_chunk b e skip (SecIndex ix # ss) = (None, ss, True)"
| "next_chunk b e skip (SecChannel c # ss) = next_chunk b e skip ss"
| "next_chunk b e skip (SecChunkHeader h # ss) =
     (let skip = skip \<or> ck_end_time h < b in
      if e < ck_begin_time h then (None, ss, False) else next_chunk b e skip ss)"
| "next_chunk b e skip (SecChunkBody ms # ss) =
     (if skip then next_chunk b e False ss else (Some ms, ss, False))"

definition rr_ReadNextChunk :: "u64 \<Rightarrow> u64 \<Rightarrow> record_reader \<Rightarrow> bool \<times> record_reader" where
  "rr_ReadNextChunk b e r =
     (if rr_reach_end r then (False, r)
      else (case next_chunk b e False (rr_rest r) of
          (Some ms, ss, _) \<Rightarrow> (True, r\<lparr>rr_chunk := ms, rr_rest := ss\<rparr>)
        | (None, ss, at_end) \<Rightarrow> (False, r\<lparr>rr_rest := ss, rr_reach_end := at_end\<rparr>)))"

text \<open>The loop over the current chunk: a message of the interval, one past it, or the chunk's end.\<close>

datatype scan_result = Found single_message | Beyond | ChunkEnd

function chunk_scan :: "u64 \<Rightarrow> u64 \<Rightarrow> single_message list \<Rightarrow> nat \<Rightarrow> scan_result \<times> nat" where
  "chunk_scan b e ms i =
     (if i < length ms then
        (let t = sm_time (ms ! i) in
         if e < t then (Beyond, i)
         else if t < b then chunk_scan b e ms (i + 1)
         else (Found (ms ! i), i + 1))
      else (ChunkEnd, i))"
  by pat_completeness auto
termination by (relation "measure (\<lambda>(b, e, ms, i). length ms - i)") auto

declare chunk_scan.simps [simp del]

lemma next_chunk_shorter: "next_chunk b e skip ss = (Some ms, ss', at) \<Longrightarrow> length ss' < length ss"
  by (induction b e skip ss rule: next_chunk.induct) (auto simp: Let_def split: if_splits)

lemma ReadNextChunk_shorter: "rr_ReadNextChunk b e r = (True, r') \<Longrightarrow> length (rr_rest r') < length (rr_rest r)"
  by (auto simp: rr_ReadNextChunk_def split: if_splits prod.splits option.splits dest: next_chunk_shorter)

function rr_ReadMessage :: "u64 \<Rightarrow> u64 \<Rightarrow> record_reader \<Rightarrow> single_message option \<times> record_reader" where
  "rr_ReadMessage b e r =
     (if \<not> rr_is_valid r then (None, r)
      else if hd_end_time (rr_header r) < b \<or> e < hd_begin_time (rr_header r) then (None, r)
      else (case chunk_scan b e (rr_chunk r) (rr_message_index r) of
          (Beyond, i) \<Rightarrow> (None, r\<lparr>rr_message_index := i\<rparr>)
        | (Found m, i) \<Rightarrow> (Some m, r\<lparr>rr_message_index := i\<rparr>)
        | (ChunkEnd, i) \<Rightarrow>
            (let (ok, r) = rr_ReadNextChunk b e (r\<lparr>rr_message_index := i\<rparr>) in
             if ok then rr_ReadMessage b e (r\<lparr>rr_message_index := 0\<rparr>) else (None, r))))"
  by pat_completeness auto
termination
proof (relation "measure (\<lambda>(b, e, r). length (rr_rest r))")
  fix b e r s i p ok r'
  assume "(ok, r') = p" "p = rr_ReadNextChunk b e (r\<lparr>rr_message_index := i\<rparr>)" and ok: ok
  then show "((b, e, r'\<lparr>rr_message_index := 0\<rparr>), (b, e, r)) \<in> measure (\<lambda>(b, e, r). length (rr_rest r))"
    using ReadNextChunk_shorter [of b e "r\<lparr>rr_message_index := i\<rparr>" r'] by simp
qed auto

declare rr_ReadMessage.simps [simp del]

section \<open>Reading until nothing is left\<close>

text \<open>The loop of a client: read messages of the interval until there is none.\<close>

fun bodies :: "rec_section list \<Rightarrow> nat" where
  "bodies [] = 0"
| "bodies (SecChunkBody ms # ss) = length ms + bodies ss"
| "bodies (_ # ss) = bodies ss"

definition rr_left :: "record_reader \<Rightarrow> nat" where
  "rr_left r = (length (rr_chunk r) - rr_message_index r) + bodies (rr_rest r)"

lemma next_chunk_bodies: "next_chunk b e skip ss = (Some ms, ss', at) \<Longrightarrow> length ms + bodies ss' \<le> bodies ss"
  by (induction b e skip ss rule: next_chunk.induct) (auto simp: Let_def split: if_splits)

lemma chunk_scan_found: "chunk_scan b e ms i = (Found m, j) \<Longrightarrow> i < j \<and> j \<le> length ms"
  by (induction b e ms i rule: chunk_scan.induct, subst (asm) (2) chunk_scan.simps)
    (auto simp: Let_def split: if_splits)

lemma ReadMessage_left: "rr_ReadMessage b e r = (Some m, r') \<Longrightarrow> rr_left r' < rr_left r"
proof (induction b e r rule: rr_ReadMessage.induct)
  case (1 b e r)
  obtain s i where s: "chunk_scan b e (rr_chunk r) (rr_message_index r) = (s, i)" by fastforce
  have ok: "rr_is_valid r" "\<not> (hd_end_time (rr_header r) < b \<or> e < hd_begin_time (rr_header r))"
    using 1(2) by (auto simp: rr_ReadMessage.simps split: if_splits)
  show ?case
  proof (cases s)
    case (Found x)
    then show ?thesis using 1(2) ok s chunk_scan_found [of b e "rr_chunk r" "rr_message_index r" x i]
      by (auto simp: rr_ReadMessage.simps [of b e r] rr_left_def)
  next
    case Beyond
    then show ?thesis using 1(2) ok s by (simp add: rr_ReadMessage.simps [of b e r])
  next
    case ChunkEnd
    obtain k r1 where k: "rr_ReadNextChunk b e (r\<lparr>rr_message_index := i\<rparr>) = (k, r1)" by fastforce
    then have "k" and m: "rr_ReadMessage b e (r1\<lparr>rr_message_index := 0\<rparr>) = (Some m, r')"
      using 1(2) ok s ChunkEnd by (auto simp: rr_ReadMessage.simps [of b e r] split: if_splits)
    then have "rr_left r' < rr_left (r1\<lparr>rr_message_index := 0\<rparr>)"
      using 1(1) ok s k ChunkEnd by auto
    moreover have "rr_left (r1\<lparr>rr_message_index := 0\<rparr>) \<le> rr_left r"
      using k \<open>k\<close> by (auto simp: rr_ReadNextChunk_def rr_left_def split: if_splits prod.splits option.splits dest: next_chunk_bodies)
    ultimately show ?thesis by simp
  qed
qed

function rr_read_all :: "u64 \<Rightarrow> u64 \<Rightarrow> record_reader \<Rightarrow> single_message list \<times> record_reader" where
  "rr_read_all b e r =
     (case rr_ReadMessage b e r of
        (None, r) \<Rightarrow> ([], r)
      | (Some m, r) \<Rightarrow> apfst (Cons m) (rr_read_all b e r))"
  by pat_completeness auto
termination by (relation "measure (\<lambda>(b, e, r). rr_left r)") (auto dest: ReadMessage_left [OF sym])

declare rr_read_all.simps [simp del]

section \<open>What is left to read\<close>

fun sec_messages :: "rec_section list \<Rightarrow> single_message list" where
  "sec_messages [] = []"
| "sec_messages (SecIndex ix # ss) = []"
| "sec_messages (SecChunkBody ms # ss) = ms @ sec_messages ss"
| "sec_messages (_ # ss) = sec_messages ss"

definition rr_stream :: "record_reader \<Rightarrow> single_message list" where
  "rr_stream r = drop (rr_message_index r) (rr_chunk r) @ (if rr_reach_end r then [] else sec_messages (rr_rest r))"

text \<open>Chunk headers that tell the truth about their bodies, for intervals that end at \<open>e\<close>.\<close>

fun wf_secs :: "u64 \<Rightarrow> rec_section list \<Rightarrow> bool" where
  "wf_secs e [] = True"
| "wf_secs e (SecIndex ix # ss) = True"
| "wf_secs e (SecChannel c # ss) = wf_secs e ss"
| "wf_secs e (SecChunkHeader h # SecChunkBody ms # ss) = (ms \<noteq> [] \<and> (\<forall>m \<in> set ms. sm_time m \<le> ck_end_time h)
     \<and> (e < ck_begin_time h \<longrightarrow> (\<forall>m \<in> set ms. e < sm_time m)) \<and> wf_secs e ss)"
| "wf_secs e _ = False"

definition wf_rest :: "u64 \<Rightarrow> rec_section list \<Rightarrow> bool" where
  "wf_rest e ss \<longleftrightarrow> wf_secs e ss \<or> (\<exists>ms ss'. ss = SecChunkBody ms # ss' \<and> wf_secs e ss')"

text \<open>Nothing before the end of the interval comes after something past it.\<close>

definition in_order :: "u64 \<Rightarrow> single_message list \<Rightarrow> bool" where
  "in_order e = sorted_wrt (\<lambda>x y. e < sm_time x \<longrightarrow> e < sm_time y)"

definition inside :: "u64 \<Rightarrow> u64 \<Rightarrow> single_message \<Rightarrow> bool" where
  "inside b e m \<longleftrightarrow> b \<le> sm_time m \<and> sm_time m \<le> e"

definition before :: "u64 \<Rightarrow> single_message list \<Rightarrow> bool" where
  "before b xs \<longleftrightarrow> (\<forall>x \<in> set xs. sm_time x < b)"

lemma chunk_scan_spec:
  "chunk_scan b e ms i = (s, j) \<Longrightarrow> \<exists>xs. before b xs \<and> (case s of
      Found m \<Rightarrow> drop i ms = xs @ m # drop j ms \<and> inside b e m
    | Beyond \<Rightarrow> drop i ms = xs @ drop j ms \<and> drop j ms \<noteq> [] \<and> e < sm_time (hd (drop j ms))
    | ChunkEnd \<Rightarrow> drop i ms = xs \<and> drop j ms = [])"
proof (induction b e ms i rule: chunk_scan.induct)
  case (1 b e ms i)
  note prems = 1(2) [unfolded chunk_scan.simps [of b e ms i] Let_def]
  consider "length ms \<le> i" | "i < length ms" "e < sm_time (ms ! i)"
    | "i < length ms" "\<not> e < sm_time (ms ! i)" "sm_time (ms ! i) < b"
    | "i < length ms" "\<not> e < sm_time (ms ! i)" "\<not> sm_time (ms ! i) < b" by linarith
  then show ?case
  proof cases
    case 3
    then have "chunk_scan b e ms (i + 1) = (s, j)" using prems by simp
    from 1(1) [OF 3(1) refl 3(2,3) this] obtain xs where xs: "before b xs" "case s of
      Found m \<Rightarrow> drop (i + 1) ms = xs @ m # drop j ms \<and> inside b e m
    | Beyond \<Rightarrow> drop (i + 1) ms = xs @ drop j ms \<and> drop j ms \<noteq> [] \<and> e < sm_time (hd (drop j ms))
    | ChunkEnd \<Rightarrow> drop (i + 1) ms = xs \<and> drop j ms = []" by blast
    have "drop i ms = ms ! i # drop (i + 1) ms" using 3(1) by (simp add: Cons_nth_drop_Suc)
    then show ?thesis using xs 3(3) by (intro exI [of _ "ms ! i # xs"]) (auto simp: before_def split: scan_result.splits)
  next
    case 4
    then have "s = Found (ms ! i)" "j = i + 1" using prems by (simp_all split: if_splits)
    then show ?thesis using 4 by (intro exI [of _ "[]"]) (simp add: before_def inside_def Cons_nth_drop_Suc not_less)
  qed (use prems in \<open>auto simp: before_def hd_drop_conv_nth intro: exI [of _ "[]"]\<close>)
qed

lemma before_append [simp]: "before b (xs @ ys) \<longleftrightarrow> before b xs \<and> before b ys"
  by (auto simp: before_def)

lemma next_chunk_spec:
  assumes "wf_secs e ss" and "next_chunk b e False ss = (r, ss', at)"
  shows "\<exists>xs. before b xs \<and> (case r of
      Some ms \<Rightarrow> sec_messages ss = xs @ ms @ sec_messages ss' \<and> wf_secs e ss' \<and> \<not> at
    | None \<Rightarrow> sec_messages ss = xs @ (if at then [] else sec_messages ss')
        \<and> (at \<or> (ss' = [] \<or> (wf_rest e ss' \<and> sec_messages ss' \<noteq> [] \<and> e < sm_time (hd (sec_messages ss'))))))"
  using assms
proof (induction e ss rule: wf_secs.induct)
  case (4 e h ms ss)
  show ?case
  proof (cases "e < ck_begin_time h")
    case True
    then show ?thesis using 4(2,3) by (intro exI [of _ "[]"]) (auto simp: Let_def before_def wf_rest_def)
  next
    case False
    show ?thesis
    proof (cases "ck_end_time h < b")
      case True
      then obtain xs where "before b xs" "case r of
          Some ms \<Rightarrow> sec_messages ss = xs @ ms @ sec_messages ss' \<and> wf_secs e ss' \<and> \<not> at
        | None \<Rightarrow> sec_messages ss = xs @ (if at then [] else sec_messages ss')
            \<and> (at \<or> (ss' = [] \<or> (wf_rest e ss' \<and> sec_messages ss' \<noteq> [] \<and> e < sm_time (hd (sec_messages ss')))))"
        using 4 False by (auto simp: Let_def)
      moreover have "before b ms" using 4(2) True by (auto simp: before_def dest: order_le_less_trans)
      ultimately show ?thesis by (intro exI [of _ "ms @ xs"]) (auto split: option.splits)
    next
      case no: False
      then show ?thesis using 4(2,3) False by (intro exI [of _ "[]"]) (auto simp: Let_def before_def)
    qed
  qed
next
  case (3 e c ss)
  then show ?case unfolding wf_secs.simps next_chunk.simps sec_messages.simps by blast
next
  case (1 e)
  then show ?case by (intro exI [of _ "[]"]) (auto simp: before_def)
next
  case (2 e ix ss)
  then show ?case by (intro exI [of _ "[]"]) (auto simp: before_def)
qed simp_all

text \<open>A reader of a file whose headers tell the truth about the interval.\<close>

definition rr_sound :: "u64 \<Rightarrow> u64 \<Rightarrow> record_reader \<Rightarrow> bool" where
  "rr_sound b e r \<longleftrightarrow> rr_is_valid r \<and> (rr_reach_end r \<or> wf_rest e (rr_rest r))
     \<and> (hd_end_time (rr_header r) < b \<or> e < hd_begin_time (rr_header r) \<longrightarrow> (\<forall>m \<in> set (rr_stream r). \<not> inside b e m))"

lemma in_order_append:
  "in_order e (xs @ ys) \<longleftrightarrow> in_order e xs \<and> in_order e ys \<and> (\<forall>x \<in> set xs. e < sm_time x \<longrightarrow> (\<forall>y \<in> set ys. e < sm_time y))"
  by (auto simp: in_order_def sorted_wrt_append)

lemma in_order_beyond: "in_order e xs \<Longrightarrow> xs \<noteq> [] \<Longrightarrow> e < sm_time (hd xs) \<Longrightarrow> x \<in> set xs \<Longrightarrow> e < sm_time x"
  by (cases xs) (auto simp: in_order_def)

text \<open>\<open>ReadMessage\<close>: it answers the first message left in the interval, and what it passes over lies
  before the interval; when it answers none, no message left is in the interval.\<close>

lemma ReadMessage_spec:
  assumes "rr_sound b e r" and "in_order e (rr_stream r)" and "rr_ReadMessage b e r = (x, r')"
  shows "\<exists>xs. before b xs \<and> rr_sound b e r' \<and> rr_header r' = rr_header r \<and> (case x of
      Some m \<Rightarrow> rr_stream r = xs @ m # rr_stream r' \<and> inside b e m
    | None \<Rightarrow> rr_stream r = xs @ rr_stream r' \<and> (\<forall>m \<in> set (rr_stream r'). \<not> inside b e m))"
  using assms
proof (induction b e r rule: rr_ReadMessage.induct)
  case (1 b e r)
  have valid: "rr_is_valid r" using 1(2) by (simp add: rr_sound_def)
  show ?case
  proof (cases "hd_end_time (rr_header r) < b \<or> e < hd_begin_time (rr_header r)")
    case True
    then have "\<not> inside b e m" if "m \<in> set (rr_stream r)" for m
      using 1(2) that unfolding rr_sound_def by blast
    moreover have "x = None \<and> r' = r" using 1(4) True valid by (auto simp: rr_ReadMessage.simps)
    ultimately show ?thesis using 1(2) by (intro exI [of _ "[]"]) (auto simp: before_def)
  next
    case False
    obtain s i where s: "chunk_scan b e (rr_chunk r) (rr_message_index r) = (s, i)" by fastforce
    obtain xs where xs: "before b xs" "case s of
      Found m \<Rightarrow> drop (rr_message_index r) (rr_chunk r) = xs @ m # drop i (rr_chunk r) \<and> inside b e m
    | Beyond \<Rightarrow> drop (rr_message_index r) (rr_chunk r) = xs @ drop i (rr_chunk r) \<and> drop i (rr_chunk r) \<noteq> []
        \<and> e < sm_time (hd (drop i (rr_chunk r)))
    | ChunkEnd \<Rightarrow> drop (rr_message_index r) (rr_chunk r) = xs \<and> drop i (rr_chunk r) = []"
      using chunk_scan_spec [OF s] by blast
    let ?r = "r\<lparr>rr_message_index := i\<rparr>" and ?tail = "if rr_reach_end r then [] else sec_messages (rr_rest r)"
    have sr: "rr_stream ?r = drop i (rr_chunk r) @ ?tail" by (simp add: rr_stream_def)
    show ?thesis
    proof (cases s)
      case (Found m)
      then have st: "rr_stream r = xs @ m # rr_stream ?r" and m: "inside b e m"
        using xs(2) by (simp_all add: rr_stream_def)
      have "x = Some m" "r' = ?r" using 1(4) s Found False valid by (simp_all add: rr_ReadMessage.simps [of b e r])
      then show ?thesis using 1(2) xs(1) st m by (intro exI [of _ xs]) (auto simp: rr_sound_def)
    next
      case Beyond
      then have st: "rr_stream r = xs @ rr_stream ?r" and h: "rr_stream ?r \<noteq> []" "e < sm_time (hd (rr_stream ?r))"
        using xs(2) by (simp_all add: rr_stream_def)
      have "\<not> inside b e m" if "m \<in> set (rr_stream ?r)" for m
        using in_order_beyond [OF _ h that] 1(3) st by (auto simp: in_order_append inside_def)
      moreover have "x = None" "r' = ?r" using 1(4) s Beyond False valid by (simp_all add: rr_ReadMessage.simps [of b e r])
      ultimately show ?thesis using 1(2) xs(1) st by (intro exI [of _ xs]) (auto simp: rr_sound_def)
    next
      case ChunkEnd
      then have st: "rr_stream r = xs @ ?tail" and e: "drop i (rr_chunk r) = []" using xs(2) by (simp_all add: rr_stream_def)
      obtain ok r1 where r1: "rr_ReadNextChunk b e ?r = (ok, r1)" by fastforce
      then have rm: "(x, r') = (if ok then rr_ReadMessage b e (r1\<lparr>rr_message_index := 0\<rparr>) else (None, r1))"
        using 1(4) s ChunkEnd False valid by (simp add: rr_ReadMessage.simps [of b e r])
      show ?thesis
      proof (cases "rr_reach_end r")
        case True
        then have "ok = False" "r1 = ?r" using r1 by (simp_all add: rr_ReadNextChunk_def)
        then have "rr_stream r1 = []" "x = None" "r' = r1" using rm True e by (simp_all add: rr_stream_def)
        then show ?thesis using 1(2) True st xs(1) \<open>r1 = ?r\<close> by (intro exI [of _ xs]) (auto simp: rr_sound_def)
      next
        case more: False
        then have wf: "wf_rest e (rr_rest r)" using 1(2) by (simp add: rr_sound_def)
        obtain y ss at where nc: "next_chunk b e False (rr_rest r) = (y, ss, at)" by (metis surj_pair)
        obtain ys where ys: "before b ys" "case y of
            Some ms \<Rightarrow> sec_messages (rr_rest r) = ys @ ms @ sec_messages ss \<and> wf_secs e ss \<and> \<not> at
          | None \<Rightarrow> sec_messages (rr_rest r) = ys @ (if at then [] else sec_messages ss)
            \<and> (at \<or> (ss = [] \<or> (wf_rest e ss \<and> sec_messages ss \<noteq> [] \<and> e < sm_time (hd (sec_messages ss)))))"
        proof (cases "wf_secs e (rr_rest r)")
          case True
          then show ?thesis using next_chunk_spec [OF True nc] that by blast
        next
          case False
          then obtain ms ss' where "rr_rest r = SecChunkBody ms # ss'" "wf_secs e ss'" using wf by (auto simp: wf_rest_def)
          then show ?thesis using nc by (intro that [of "[]"]) (auto simp: before_def)
        qed
        show ?thesis
        proof (cases y)
          case None
          then have n: "ok = False" "r1 = ?r\<lparr>rr_rest := ss, rr_reach_end := at\<rparr>"
            using r1 nc more by (simp_all add: rr_ReadNextChunk_def)
          then have x: "x = None" "r' = r1" using rm by simp_all
          have st1: "rr_stream r1 = (if at then [] else sec_messages ss)" using n(2) e by (simp add: rr_stream_def)
          have st2: "rr_stream r = (xs @ ys) @ rr_stream r1" using st ys(2) None more st1 by simp
          have "\<not> inside b e m" if "m \<in> set (rr_stream r1)" for m
          proof -
            have ne: "rr_stream r1 \<noteq> []" "e < sm_time (hd (rr_stream r1))"
              using that ys(2) None by (auto simp: st1 split: if_splits)
            have "in_order e (rr_stream r1)" using 1(3) unfolding st2 by (simp add: in_order_append)
            from in_order_beyond [OF this ne that] show ?thesis by (simp add: inside_def not_le)
          qed
          moreover have "rr_sound b e r1"
            using 1(2) ys(2) None st2 by (auto simp: rr_sound_def n(2) wf_rest_def)
          ultimately show ?thesis
            using x st2 xs(1) ys(1) by (intro exI [of _ "xs @ ys"]) (auto simp: n(2))
        next
          case (Some ms)
          then have n: "ok" "r1 = ?r\<lparr>rr_chunk := ms, rr_rest := ss\<rparr>"
            using r1 nc more by (simp_all add: rr_ReadNextChunk_def)
          let ?r2 = "r1\<lparr>rr_message_index := 0\<rparr>"
          have st2: "rr_stream r = (xs @ ys) @ rr_stream ?r2"
            using st ys(2) Some more by (simp add: n(2) rr_stream_def)
          have snd2: "rr_sound b e ?r2" and ord2: "in_order e (rr_stream ?r2)"
            using 1(2,3) ys(2) Some st2 by (auto simp: rr_sound_def n(2) wf_rest_def in_order_append)
          have "rr_ReadMessage b e ?r2 = (x, r')" using rm n(1) by simp
          from 1(1) [OF _ False s [symmetric] ChunkEnd refl r1 [symmetric] n(1) snd2 ord2 this] valid
          obtain zs where "before b zs" "rr_sound b e r'" "rr_header r' = rr_header ?r2" "case x of
              Some m \<Rightarrow> rr_stream ?r2 = zs @ m # rr_stream r' \<and> inside b e m
            | None \<Rightarrow> rr_stream ?r2 = zs @ rr_stream r' \<and> (\<forall>m \<in> set (rr_stream r'). \<not> inside b e m)"
            by blast
          then show ?thesis
            using st2 xs(1) ys(1) by (intro exI [of _ "(xs @ ys) @ zs"]) (auto simp: n(2) split: option.splits)
        qed
      qed
    qed
  qed
qed

text \<open>The loop reads exactly the messages of the interval, in their order, and leaves those past it.\<close>

lemma filter_before: "before b xs \<Longrightarrow> filter (inside b e) xs = []"
  by (force simp: before_def inside_def filter_empty_conv)

lemma filter_before_past: "before b xs \<Longrightarrow> b \<le> e \<Longrightarrow> filter (\<lambda>m. e < sm_time m) xs = []"
  by (force simp: before_def filter_empty_conv)

lemma read_all_spec:
  assumes "rr_sound b e r" and "in_order e (rr_stream r)" and "b \<le> e" and "rr_read_all b e r = (ms, r')"
  shows "ms = filter (inside b e) (rr_stream r)
    \<and> (\<exists>xs. rr_stream r = xs @ rr_stream r' \<and> (\<forall>x \<in> set xs. sm_time x \<le> e)) \<and> rr_sound b e r' \<and> rr_header r' = rr_header r"
  using assms
proof (induction b e r arbitrary: ms rule: rr_read_all.induct)
  case (1 b e r)
  obtain x r1 where x: "rr_ReadMessage b e r = (x, r1)" by fastforce
  obtain xs where xs: "before b xs" "rr_sound b e r1" "rr_header r1 = rr_header r" "case x of
      Some m \<Rightarrow> rr_stream r = xs @ m # rr_stream r1 \<and> inside b e m
    | None \<Rightarrow> rr_stream r = xs @ rr_stream r1 \<and> (\<forall>m \<in> set (rr_stream r1). \<not> inside b e m)"
    using ReadMessage_spec [OF 1(2,3) x] by blast
  have le: "sm_time y \<le> e" if "y \<in> set xs" for y using xs(1) 1(4) that by (force simp: before_def)
  show ?case
  proof (cases x)
    case None
    then have "ms = []" "r' = r1" using 1(5) x by (simp_all add: rr_read_all.simps [of b e r])
    moreover have "filter (inside b e) (rr_stream r) = []"
      using xs(4) None filter_before [OF xs(1)] by (simp add: filter_empty_conv)
    ultimately show ?thesis using xs(2-4) None le by auto
  next
    case (Some m)
    have "apfst (Cons m) (rr_read_all b e r1) = (ms, r')"
      using 1(5) unfolding rr_read_all.simps [of b e r] x Some by simp
    then obtain ms' where ms': "rr_read_all b e r1 = (ms', r')" "ms = m # ms'"
      by (cases "rr_read_all b e r1") auto
    have st: "rr_stream r = xs @ m # rr_stream r1" and m: "inside b e m" using xs(4) Some by simp_all
    have "rr_stream r = (xs @ [m]) @ rr_stream r1" using st by simp
    then have "in_order e (rr_stream r1)" using 1(3) in_order_append [of e "xs @ [m]" "rr_stream r1"] by metis
    from 1(1) [OF x [symmetric] Some xs(2) this 1(4) ms'(1)]
    obtain ys where ys: "ms' = filter (inside b e) (rr_stream r1)" "rr_stream r1 = ys @ rr_stream r'"
      "\<forall>y \<in> set ys. sm_time y \<le> e" "rr_sound b e r'" "rr_header r' = rr_header r1" by blast
    have "filter (inside b e) (rr_stream r) = m # ms'"
      using m filter_before [OF xs(1), of e] ys(1) by (simp add: st)
    moreover have "rr_stream r = (xs @ m # ys) @ rr_stream r'" using st ys(2) by simp
    moreover have "\<forall>y \<in> set (xs @ m # ys). sm_time y \<le> e" using le ys(3) m by (auto simp: inside_def)
    ultimately show ?thesis using ms'(2) ys(4,5) xs(3) by auto
  qed
qed

text \<open>Reading one interval leaves a reader that is as good for any other.\<close>

definition rr_wf :: "u64 \<Rightarrow> record_reader \<Rightarrow> bool" where
  "rr_wf e r \<longleftrightarrow> rr_reach_end r \<or> wf_rest e (rr_rest r)"

lemma next_chunk_keeps: "wf_rest e' ss \<Longrightarrow> next_chunk b e False ss = (r, ss', at) \<Longrightarrow> r = None \<and> at \<or> wf_rest e' ss'"
proof -
  have "wf_secs e' ss \<Longrightarrow> next_chunk b e False ss = (r, ss', at) \<Longrightarrow> r = None \<and> at \<or> wf_rest e' ss'" for ss
    by (induction e' ss rule: wf_secs.induct) (auto simp: wf_rest_def Let_def split: if_splits)
  then show "wf_rest e' ss \<Longrightarrow> next_chunk b e False ss = (r, ss', at) \<Longrightarrow> r = None \<and> at \<or> wf_rest e' ss'"
    by (auto simp: wf_rest_def)
qed

lemma ReadNextChunk_keeps: "rr_wf e' r \<Longrightarrow> rr_ReadNextChunk b e r = (ok, r') \<Longrightarrow> rr_wf e' r'"
  unfolding rr_wf_def rr_ReadNextChunk_def
  by (auto split: if_splits prod.splits option.splits dest: next_chunk_keeps)

lemma ReadMessage_keeps: "rr_wf e' r \<Longrightarrow> rr_ReadMessage b e r = (x, r') \<Longrightarrow> rr_wf e' r'"
proof (induction b e r rule: rr_ReadMessage.induct)
  case (1 b e r)
  obtain s i where s: "chunk_scan b e (rr_chunk r) (rr_message_index r) = (s, i)" by fastforce
  have w: "rr_wf e' (r\<lparr>rr_message_index := j\<rparr>)" for j using 1(2) by (simp add: rr_wf_def)
  show ?case
  proof (cases "\<not> rr_is_valid r \<or> hd_end_time (rr_header r) < b \<or> e < hd_begin_time (rr_header r) \<or> s \<noteq> ChunkEnd")
    case True
    then show ?thesis using 1(2,3) s w by (cases s) (auto simp: rr_ReadMessage.simps [of b e r] split: if_splits)
  next
    case False
    then have ok: "\<not> \<not> rr_is_valid r" "\<not> (hd_end_time (rr_header r) < b \<or> e < hd_begin_time (rr_header r))" "s = ChunkEnd"
      by auto
    obtain k r1 where k: "rr_ReadNextChunk b e (r\<lparr>rr_message_index := i\<rparr>) = (k, r1)" by fastforce
    have w1: "rr_wf e' (r1\<lparr>rr_message_index := 0\<rparr>)" using ReadNextChunk_keeps [OF w k] by (simp add: rr_wf_def)
    have rm: "(x, r') = (if k then rr_ReadMessage b e (r1\<lparr>rr_message_index := 0\<rparr>) else (None, r1))"
      using 1(3) ok s k by (simp add: rr_ReadMessage.simps [of b e r])
    show ?thesis
    proof (cases k)
      case True
      then show ?thesis using 1(1) [OF ok(1,2) s [symmetric] ok(3) refl k [symmetric] True w1] rm by simp
    next
      case False
      then show ?thesis using rm ReadNextChunk_keeps [OF w k] by simp
    qed
  qed
qed

lemma read_all_keeps: "rr_wf e' r \<Longrightarrow> rr_read_all b e r = (ms, r') \<Longrightarrow> rr_wf e' r'"
proof (induction b e r arbitrary: ms rule: rr_read_all.induct)
  case (1 b e r)
  obtain x r1 where x: "rr_ReadMessage b e r = (x, r1)" by fastforce
  have w: "rr_wf e' r1" by (rule ReadMessage_keeps [OF 1(2) x])
  show ?case
  proof (cases x)
    case None
    then show ?thesis using 1(3) x w by (simp add: rr_read_all.simps [of b e r])
  next
    case (Some m)
    have "apfst (Cons m) (rr_read_all b e r1) = (ms, r')"
      using 1(3) unfolding rr_read_all.simps [of b e r] x Some by simp
    then obtain ms' where "rr_read_all b e r1 = (ms', r')" by (cases "rr_read_all b e r1") auto
    then show ?thesis using 1(1) [OF x [symmetric] Some w] by simp
  qed
qed

text \<open>A reader that is good for every interval.\<close>

definition rr_good :: "record_reader \<Rightarrow> bool" where
  "rr_good r \<longleftrightarrow> sorted (map sm_time (rr_stream r)) \<and> (\<forall>b e. rr_sound b e r)"

lemma sorted_in_order: "sorted (map sm_time xs) \<Longrightarrow> in_order e xs"
  unfolding in_order_def sorted_map
  by (rule sorted_wrt_mono_rel [of _ "\<lambda>x y. sm_time x \<le> sm_time y"]) (auto intro: order_less_le_trans)

lemma read_all_good:
  assumes "rr_good r" and "b \<le> e"
  shows "fst (rr_read_all b e r) = filter (inside b e) (rr_stream r)"
    and "\<exists>xs. rr_stream r = xs @ rr_stream (snd (rr_read_all b e r)) \<and> (\<forall>x \<in> set xs. sm_time x \<le> e)"
    and "rr_good (snd (rr_read_all b e r))" and "rr_header (snd (rr_read_all b e r)) = rr_header r"
proof -
  have s: "rr_sound b e r" "in_order e (rr_stream r)" using assms(1) sorted_in_order by (simp_all add: rr_good_def)
  note a = read_all_spec [OF s assms(2) prod.collapse [symmetric]]
  show "fst (rr_read_all b e r) = filter (inside b e) (rr_stream r)"
    "\<exists>xs. rr_stream r = xs @ rr_stream (snd (rr_read_all b e r)) \<and> (\<forall>x \<in> set xs. sm_time x \<le> e)"
    and h: "rr_header (snd (rr_read_all b e r)) = rr_header r"
    using a by auto
  then obtain xs where xs: "rr_stream r = xs @ rr_stream (snd (rr_read_all b e r))" by blast
  have "rr_wf e' (snd (rr_read_all b e r))" for e'
    by (rule read_all_keeps [OF _ prod.collapse [symmetric]]) (use assms(1) in \<open>simp add: rr_good_def rr_sound_def rr_wf_def\<close>)
  moreover have "rr_is_valid (snd (rr_read_all b e r))" using a by (simp add: rr_sound_def)
  moreover have "\<forall>b e. hd_end_time (rr_header r) < b \<or> e < hd_begin_time (rr_header r) \<longrightarrow> (\<forall>m \<in> set (rr_stream r). \<not> inside b e m)"
    using assms(1) by (simp add: rr_good_def rr_sound_def)
  then have "\<forall>b' e'. hd_end_time (rr_header r) < b' \<or> e' < hd_begin_time (rr_header r) \<longrightarrow>
      (\<forall>m \<in> set (rr_stream (snd (rr_read_all b e r))). \<not> inside b' e' m)"
    unfolding xs by simp
  moreover have "sorted (map sm_time (rr_stream (snd (rr_read_all b e r))))"
    using assms(1) xs unfolding rr_good_def by (metis map_append sorted_append)
  ultimately show "rr_good (snd (rr_read_all b e r))" by (simp add: rr_good_def rr_sound_def rr_wf_def h)
qed

end
