(* ===== verification/Record_Roundtrip.thy ===== *)
theory Record_Roundtrip
  imports Record_Reader
begin

text \<open>
  What is written is read. Calls of the writer and turns of its flush thread happen in any order:
  \<open>fw_step\<close>, which also logs the messages. When the flush thread keeps up (\<open>prompt\<close>: a chunk is
  written before the next message comes), the order is kept.
\<close>

inductive fw_step :: "(rec_section \<Rightarrow> nat) \<Rightarrow> bool \<Rightarrow> file_writer \<times> single_message list \<Rightarrow> file_writer \<times> single_message list \<Rightarrow> bool"
  for bsz prompt where
  fs_message: "(prompt \<Longrightarrow> Chunk_empty (fw_flush w)) \<Longrightarrow> fw_step bsz prompt (w, l) (fw_WriteMessage m w, l @ [m])"
| fs_channel: "fw_WriteChannel bsz ch w = Some w' \<Longrightarrow> fw_step bsz prompt (w, l) (w', l)"
| fs_flush: "fw_Flush bsz w = Some w' \<Longrightarrow> fw_step bsz prompt (w, l) (w', l)"

definition fw_start :: "rec_header \<Rightarrow> file_writer \<times> single_message list" where
  "fw_start h = (fw_WriteHeader h (fw_Open h), [])"

section \<open>Chunk headers\<close>

definition chunk_of :: "single_message list \<Rightarrow> chunk" where
  "chunk_of ms = fold Chunk_add ms Chunk_clear"

lemma chunk_of_Nil [simp]: "chunk_of [] = Chunk_clear" by (simp add: chunk_of_def)

lemma Chunk_clear_body [simp]: "ck_body Chunk_clear = []" by (simp add: Chunk_clear_def)

lemma chunk_of_snoc: "Chunk_add m (chunk_of ms) = chunk_of (ms @ [m])"
  by (simp add: chunk_of_def)

lemma chunk_of_header:
  "ck_body (chunk_of ms) = ms
   \<and> ck_message_number (ck_header (chunk_of ms)) = of_nat (length ms)
   \<and> ck_raw_size (ck_header (chunk_of ms)) = (\<Sum>m \<leftarrow> ms. of_nat (length (sm_content m)))
   \<and> (\<forall>m \<in> set ms. sm_time m \<le> ck_end_time (ck_header (chunk_of ms)))
   \<and> ((\<forall>m \<in> set ms. 0 < sm_time m) \<longrightarrow> (\<forall>m \<in> set ms. ck_begin_time (ck_header (chunk_of ms)) \<le> sm_time m)
        \<and> (ms \<noteq> [] \<longrightarrow> ck_begin_time (ck_header (chunk_of ms)) \<in> sm_time ` set ms))
   \<and> (ms \<noteq> [] \<longrightarrow> ck_end_time (ck_header (chunk_of ms)) \<in> insert 0 (sm_time ` set ms))"
proof (induction ms rule: rev_induct)
  case Nil
  then show ?case by (simp add: Chunk_clear_def)
next
  case (snoc m ms)
  let ?h = "ck_header (chunk_of ms)"
  have e: "ck_end_time (ck_header (chunk_of (ms @ [m]))) = max (ck_end_time ?h) (sm_time m)"
    by (cases "ck_end_time ?h < sm_time m") (auto simp: chunk_of_snoc [symmetric] Chunk_add_def Let_def max_absorb1 max_absorb2 less_imp_le not_less)
  have b: "ck_begin_time (ck_header (chunk_of (ms @ [m]))) =
      (if ck_begin_time ?h = 0 then sm_time m else min (ck_begin_time ?h) (sm_time m))"
    by (cases "sm_time m < ck_begin_time ?h") (auto simp: chunk_of_snoc [symmetric] Chunk_add_def Let_def min_def)
  show ?case
  proof (intro conjI)
    show "ck_body (chunk_of (ms @ [m])) = ms @ [m]"
      "ck_message_number (ck_header (chunk_of (ms @ [m]))) = of_nat (length (ms @ [m]))"
      "ck_raw_size (ck_header (chunk_of (ms @ [m]))) = (\<Sum>m \<leftarrow> ms @ [m]. of_nat (length (sm_content m)))"
      using snoc by (simp_all add: chunk_of_snoc [symmetric] Chunk_add_def Let_def add.commute)
    show "\<forall>x \<in> set (ms @ [m]). sm_time x \<le> ck_end_time (ck_header (chunk_of (ms @ [m])))"
      unfolding e using snoc by (auto simp: le_max_iff_disj)
    show "ms @ [m] \<noteq> [] \<longrightarrow> ck_end_time (ck_header (chunk_of (ms @ [m]))) \<in> insert 0 (sm_time ` set (ms @ [m]))"
      unfolding e using snoc by (cases "ms = []") (auto simp: max_def Chunk_clear_def)
    show "(\<forall>x \<in> set (ms @ [m]). 0 < sm_time x) \<longrightarrow>
        (\<forall>x \<in> set (ms @ [m]). ck_begin_time (ck_header (chunk_of (ms @ [m]))) \<le> sm_time x)
        \<and> (ms @ [m] \<noteq> [] \<longrightarrow> ck_begin_time (ck_header (chunk_of (ms @ [m]))) \<in> sm_time ` set (ms @ [m]))"
    proof (cases "ms = []")
      case True
      then show ?thesis using b by (simp add: Chunk_clear_def)
    next
      case False
      then show ?thesis unfolding b using snoc by (auto simp: min_le_iff_disj min_def)
    qed
  qed
qed

lemmas chunk_of_body = chunk_of_header [THEN conjunct1]
lemmas chunk_of_number = chunk_of_header [THEN conjunct2, THEN conjunct1]

lemma chunk_of_empty: "length ms < 2 ^ 64 \<Longrightarrow> Chunk_empty (chunk_of ms) \<longleftrightarrow> ms = []"
  by (auto simp: Chunk_empty_def chunk_of_number word_of_nat_eq_0_iff dest: dvd_imp_le)

section \<open>The sections of a file\<close>

fun secs_ok :: "rec_section list \<Rightarrow> bool" where
  "secs_ok [] = True"
| "secs_ok (SecChannel c # ss) = secs_ok ss"
| "secs_ok (SecChunkHeader h # SecChunkBody ms # ss) = (ms \<noteq> [] \<and> h = ck_header (chunk_of ms) \<and> secs_ok ss)"
| "secs_ok _ = False"

lemma secs_ok_append: "secs_ok ss \<Longrightarrow> secs_ok (ss @ ts) = secs_ok ts"
  by (induction ss rule: secs_ok.induct) auto

lemma sec_messages_append: "secs_ok ss \<Longrightarrow> sec_messages (ss @ ts) = sec_messages ss @ sec_messages ts"
  by (induction ss rule: secs_ok.induct) auto

lemma secs_ok_wf:
  "secs_ok ss \<Longrightarrow> (e = - 1 \<or> (\<forall>m \<in> set (sec_messages ss). 0 < sm_time m)) \<Longrightarrow> wf_secs e (ss @ [SecIndex ix])"
proof (induction ss rule: secs_ok.induct)
  case (3 h ms ss)
  have "\<forall>m \<in> set ms. e < sm_time m" if "e < ck_begin_time h"
  proof (cases "e = - 1")
    case False
    then have "\<forall>m \<in> set ms. ck_begin_time h \<le> sm_time m" using 3(2,3) chunk_of_header [of ms] by auto
    then show ?thesis using that by (auto intro: order_less_le_trans)
  next
    case True
    then have False using that word_n1_ge [of "ck_begin_time h"] by (metis leD)
    then show ?thesis ..
  qed
  then show ?case using 3 chunk_of_header [of ms] by auto
qed auto

section \<open>The invariant of the writer\<close>

fun sec_channels :: "rec_section list \<Rightarrow> channel list" where
  "sec_channels [] = []"
| "sec_channels (SecChannel c # ss) = c # sec_channels ss"
| "sec_channels (_ # ss) = sec_channels ss"

lemma sec_channels_append: "sec_channels (ss @ ts) = sec_channels ss @ sec_channels ts"
  by (induction ss rule: sec_channels.induct) auto

fun ix_channels :: "single_index list \<Rightarrow> channel_cache list" where
  "ix_channels [] = []"
| "ix_channels (i # is) = (case si_cache i of ChannelIx c \<Rightarrow> c # ix_channels is | _ \<Rightarrow> ix_channels is)"

lemma ix_channels_append: "ix_channels (is @ js) = ix_channels is @ ix_channels js"
  by (induction "is") (auto split: index_cache.split)

definition cache_of :: "u64 \<Rightarrow> channel \<Rightarrow> channel_cache" where
  "cache_of n ch = \<lparr>cc_message_number = n, cc_name = chn_name ch, cc_message_type = chn_message_type ch,
     cc_proto_desc = chn_proto_desc ch\<rparr>"

definition count_channel :: "string \<Rightarrow> single_message list \<Rightarrow> nat" where
  "count_channel c l = length (filter (\<lambda>m. sm_channel_name m = c) l)"

definition fw_kept :: "file_writer \<Rightarrow> single_message list" where
  "fw_kept w = sec_messages (fw_sections w) @ ck_body (fw_flush w) @ ck_body (fw_active w)"

definition fw_inv :: "(rec_section \<Rightarrow> nat) \<Rightarrow> bool \<Rightarrow> file_writer \<times> single_message list \<Rightarrow> bool" where
  "fw_inv bsz prompt wl \<longleftrightarrow> (case wl of (w, l) \<Rightarrow>
     fw_pos w = file_end bsz (fw_sections w) \<and> fw_is_writing w \<and> fw_stored w \<noteq> None
     \<and> secs_ok (fw_sections w)
     \<and> fw_active w = chunk_of (ck_body (fw_active w)) \<and> fw_flush w = chunk_of (ck_body (fw_flush w))
     \<and> mset (fw_kept w) = mset l \<and> (prompt \<longrightarrow> fw_kept w = l)
     \<and> (\<forall>c. fw_numbers w c = (if count_channel c l = 0 then None else Some (of_nat (count_channel c l))))
     \<and> hd_message_number (fw_header w) = of_nat (length (sec_messages (fw_sections w)))
     \<and> ix_channels (fw_index w) = map (cache_of 0) (sec_channels (fw_sections w)))"

lemma file_end_snoc: "file_end bsz (ss @ [s]) = file_end bsz ss + sec_len bsz s"
  by (simp add: file_end_def)

text \<open>A chunk that is written.\<close>

definition chunk_secs :: "chunk \<Rightarrow> rec_section list" where
  "chunk_secs c = (if ck_body c = [] then [] else [SecChunkHeader (ck_header c), SecChunkBody (ck_body c)])"

lemma fw_WriteChunk_result:
  assumes "fw_pos w = file_end bsz (fw_sections w)"
  shows "\<exists>w'. fw_WriteChunk bsz h ms w = Some w' \<and> fw_sections w' = fw_sections w @ [SecChunkHeader h, SecChunkBody ms]
    \<and> fw_pos w' = file_end bsz (fw_sections w') \<and> fw_is_writing w' = fw_is_writing w \<and> fw_stored w' = fw_stored w
    \<and> fw_active w' = fw_active w \<and> fw_numbers w' = fw_numbers w
    \<and> hd_message_number (fw_header w') = hd_message_number (fw_header w) + ck_message_number h
    \<and> hd_begin_time (fw_header w') = (if hd_begin_time (fw_header w) = 0 then ck_begin_time h else hd_begin_time (fw_header w))
    \<and> hd_end_time (fw_header w') = ck_end_time h
    \<and> ix_channels (fw_index w') = ix_channels (fw_index w)"
  using assms
  by (simp add: fw_WriteChunk_def fw_WriteSection_def fw_add_index_def file_end_def Let_def ix_channels_append)

lemma fw_Flush_result:
  assumes inv: "fw_inv bsz prompt (w, l)" and len: "length l < 2 ^ 64"
  shows "\<exists>w'. fw_Flush bsz w = Some w' \<and> fw_inv bsz prompt (w', l) \<and> fw_flush w' = Chunk_clear \<and> fw_active w' = fw_active w
    \<and> fw_sections w' = fw_sections w @ chunk_secs (fw_flush w) \<and> fw_numbers w' = fw_numbers w
    \<and> (ck_body (fw_flush w) \<noteq> [] \<longrightarrow> hd_end_time (fw_header w') = ck_end_time (ck_header (fw_flush w))
         \<and> hd_begin_time (fw_header w') = (if hd_begin_time (fw_header w) = 0 then ck_begin_time (ck_header (fw_flush w))
             else hd_begin_time (fw_header w)))
    \<and> (ck_body (fw_flush w) = [] \<longrightarrow> fw_header w' = fw_header w)"
proof -
  have i: "fw_pos w = file_end bsz (fw_sections w)" "fw_is_writing w" "secs_ok (fw_sections w)"
    "fw_flush w = chunk_of (ck_body (fw_flush w))" "mset (fw_kept w) = mset l"
    using inv by (auto simp: fw_inv_def)
  have "length (ck_body (fw_flush w)) \<le> length l"
    using arg_cong [OF i(5), of size] by (simp add: fw_kept_def)
  then have e: "Chunk_empty (fw_flush w) \<longleftrightarrow> ck_body (fw_flush w) = []"
    using chunk_of_empty [of "ck_body (fw_flush w)"] i(4) len by simp
  show ?thesis
  proof (cases "ck_body (fw_flush w) = []")
    case True
    then have "fw_flush w = Chunk_clear" using i(4) by simp
    then show ?thesis using True e inv by (simp add: fw_Flush_def chunk_secs_def)
  next
    case False
    obtain w' where w': "fw_WriteChunk bsz (ck_header (fw_flush w)) (ck_body (fw_flush w)) w = Some w'"
      "fw_sections w' = fw_sections w @ [SecChunkHeader (ck_header (fw_flush w)), SecChunkBody (ck_body (fw_flush w))]"
      "fw_pos w' = file_end bsz (fw_sections w')" "fw_is_writing w' = fw_is_writing w" "fw_stored w' = fw_stored w"
      "fw_active w' = fw_active w" "fw_numbers w' = fw_numbers w"
      "hd_message_number (fw_header w') = hd_message_number (fw_header w) + ck_message_number (ck_header (fw_flush w))"
      "hd_begin_time (fw_header w') = (if hd_begin_time (fw_header w) = 0 then ck_begin_time (ck_header (fw_flush w)) else hd_begin_time (fw_header w))"
      "hd_end_time (fw_header w') = ck_end_time (ck_header (fw_flush w))"
      "ix_channels (fw_index w') = ix_channels (fw_index w)"
      using fw_WriteChunk_result [OF i(1), of "ck_header (fw_flush w)" "ck_body (fw_flush w)"] by blast
    let ?w = "w'\<lparr>fw_flush := Chunk_clear\<rparr>"
    have f: "fw_Flush bsz w = Some ?w" using i(2) e False w'(1) by (simp add: fw_Flush_def)
    have m: "sec_messages (fw_sections w') = sec_messages (fw_sections w) @ ck_body (fw_flush w)"
      using i(3) by (simp add: w'(2) sec_messages_append)
    have n: "ck_message_number (ck_header (fw_flush w)) = of_nat (length (ck_body (fw_flush w)))"
      using chunk_of_number i(4) by metis
    have k: "fw_kept ?w = fw_kept w" by (simp add: fw_kept_def m w'(6))
    have "secs_ok (fw_sections w')"
      unfolding w'(2) secs_ok_append [OF i(3)] using False i(4) by simp
    then have "fw_inv bsz prompt (?w, l)"
      using inv w'(3-8,11) m n k w'(2)
      by (auto simp: fw_inv_def sec_channels_append)
    then show ?thesis using f w' False by (simp add: chunk_secs_def)
  qed
qed

lemma fw_start_inv: "hd_message_number h = 0 \<Longrightarrow> fw_inv bsz prompt (fw_start h)"
  by (simp add: fw_start_def fw_inv_def fw_WriteHeader_def fw_Open_def file_end_def fw_kept_def count_channel_def Let_def)

lemma fw_WriteMessage_inv:
  assumes inv: "fw_inv bsz prompt (w, l)" and p: "prompt \<Longrightarrow> Chunk_empty (fw_flush w)" and len: "length l < 2 ^ 64"
  shows "fw_inv bsz prompt (fw_WriteMessage m w, l @ [m])"
proof -
  let ?a = "Chunk_add m (fw_active w)"
  have a: "fw_active w = chunk_of (ck_body (fw_active w))" "fw_flush w = chunk_of (ck_body (fw_flush w))"
    and k: "mset (fw_kept w) = mset l"
    using inv by (auto simp: fw_inv_def)
  have b: "ck_body ?a = ck_body (fw_active w) @ [m]" by (simp add: Chunk_add_def Let_def)
  have c: "?a = chunk_of (ck_body (fw_active w) @ [m])" using a(1) chunk_of_snoc by metis
  have "length (ck_body (fw_flush w)) \<le> length l"
    using arg_cong [OF k, of size] by (simp add: fw_kept_def)
  then have f: "ck_body (fw_flush w) = []" if prompt
    using p [OF that] chunk_of_empty [of "ck_body (fw_flush w)"] a(2) len by simp
  have n: "fw_numbers (fw_count (sm_channel_name m) w) x =
      (if count_channel x (l @ [m]) = 0 then None else Some (of_nat (count_channel x (l @ [m]))))" for x
    using inv by (auto simp: fw_inv_def fw_count_def count_channel_def)
  have "fw_WriteMessage m w = fw_count (sm_channel_name m) (w\<lparr>fw_active := ?a\<rparr>)
    \<or> fw_WriteMessage m w = fw_swap (fw_count (sm_channel_name m) (w\<lparr>fw_active := ?a\<rparr>))"
    unfolding fw_WriteMessage_def Let_def by (simp split: if_split)
  then consider "fw_WriteMessage m w = fw_count (sm_channel_name m) (w\<lparr>fw_active := ?a\<rparr>)"
    | "fw_WriteMessage m w = fw_swap (fw_count (sm_channel_name m) (w\<lparr>fw_active := ?a\<rparr>))"
    by blast
  then show ?thesis
  proof cases
    case 1
    have "fw_kept (fw_WriteMessage m w) = fw_kept w @ [m]" unfolding 1 by (simp add: fw_kept_def fw_count_def b)
    then show ?thesis using inv n c b unfolding fw_inv_def 1 by (simp add: fw_count_def)
  next
    case 2
    have "mset (fw_kept (fw_WriteMessage m w)) = mset (l @ [m])"
      using k unfolding 2 by (simp add: fw_kept_def fw_count_def fw_swap_def b ac_simps)
    moreover have "fw_kept (fw_WriteMessage m w) = l @ [m]" if prompt
      using inv f [OF that] that unfolding 2 by (simp add: fw_kept_def fw_count_def fw_swap_def b fw_inv_def)
    ultimately show ?thesis using inv n c b a(2) unfolding fw_inv_def 2 by (simp add: fw_count_def fw_swap_def)
  qed
qed

lemma fw_WriteChannel_inv:
  assumes "fw_inv bsz prompt (w, l)" and "fw_WriteChannel bsz ch w = Some w'"
  shows "fw_inv bsz prompt (w', l)"
proof -
  have i: "secs_ok (fw_sections w)" "fw_pos w = file_end bsz (fw_sections w)" using assms(1) by (simp_all add: fw_inv_def)
  have w': "fw_pos w' = file_end bsz (fw_sections w')" "fw_is_writing w' = fw_is_writing w" "fw_stored w' = fw_stored w"
    "fw_sections w' = fw_sections w @ [SecChannel ch]" "fw_active w' = fw_active w" "fw_flush w' = fw_flush w"
    "fw_numbers w' = fw_numbers w" "hd_message_number (fw_header w') = hd_message_number (fw_header w)"
    "ix_channels (fw_index w') = ix_channels (fw_index w) @ [cache_of 0 ch]"
    using assms(2) i by (auto simp: fw_WriteChannel_def fw_WriteSection_def fw_add_index_def Let_def file_end_snoc
      ix_channels_append cache_of_def)
  have m: "sec_messages (fw_sections w') = sec_messages (fw_sections w)" "sec_channels (fw_sections w') = sec_channels (fw_sections w) @ [ch]"
    "secs_ok (fw_sections w')"
    by (simp_all add: w'(4) i secs_ok_append sec_messages_append sec_channels_append)
  have "fw_kept w' = fw_kept w" by (simp add: fw_kept_def m w'(5,6))
  then show ?thesis using assms(1) w'(1-3,5-9) m unfolding fw_inv_def by simp
qed

lemma fw_step_len: "fw_step bsz prompt a b \<Longrightarrow> length (snd a) \<le> length (snd b)"
  by (induction rule: fw_step.induct) auto

lemma fw_reach_inv:
  "reach (fw_start h) (fw_step bsz prompt) wl \<Longrightarrow> hd_message_number h = 0 \<Longrightarrow> length (snd wl) < 2 ^ 64 \<Longrightarrow> fw_inv bsz prompt wl"
proof (induction rule: reach.induct)
  case reach_init
  then show ?case by (simp add: fw_start_inv)
next
  case (reach_step s s')
  have l: "length (snd s) < 2 ^ 64" using fw_step_len [OF reach_step(2)] reach_step(5) by simp
  from reach_step(2) reach_step(3) [OF reach_step(4) l] l show ?case
  proof (induction rule: fw_step.induct)
    case (fs_message w l m)
    then show ?case by (simp add: fw_WriteMessage_inv)
  next
    case (fs_channel ch w w' l)
    then show ?case by (simp add: fw_WriteChannel_inv)
  next
    case (fs_flush w w' l)
    then show ?case using fw_Flush_result [of bsz prompt w l] by auto
  qed
qed

section \<open>Closing\<close>

lemma fw_swap_inv: "fw_inv bsz prompt (w, l) \<Longrightarrow> fw_flush w = Chunk_clear \<Longrightarrow> fw_inv bsz prompt (fw_swap w, l)"
  by (simp add: fw_inv_def fw_swap_def fw_kept_def)

lemma fw_Close_result:
  assumes inv: "fw_inv bsz prompt (w, l)" and len: "length l < 2 ^ 64"
  shows "\<exists>w' ss ix. fw_Close bsz w = Some w' \<and> \<not> fw_is_writing w'
    \<and> fw_sections w' = ss @ [SecIndex ix] \<and> ss = fw_sections w @ chunk_secs (fw_flush w) @ chunk_secs (fw_active w)
    \<and> secs_ok ss \<and> mset (sec_messages ss) = mset l \<and> (prompt \<longrightarrow> sec_messages ss = l)
    \<and> ix_channels ix = map (\<lambda>ch. cache_of (of_nat (count_channel (chn_name ch) l)) ch) (sec_channels ss)
    \<and> (\<exists>h. fw_stored w' = Some h \<and> hd_is_complete h \<and> hd_index_position h = of_nat (file_end bsz ss)
        \<and> hd_message_number h = of_nat (length l) \<and> hd_size h = of_nat (file_end bsz (fw_sections w')))"
proof -
  obtain w1 where w1: "fw_Flush bsz w = Some w1" "fw_inv bsz prompt (w1, l)" "fw_flush w1 = Chunk_clear"
    "fw_active w1 = fw_active w" "fw_sections w1 = fw_sections w @ chunk_secs (fw_flush w)"
    using fw_Flush_result [OF inv len] by blast
  obtain w2 where w2: "fw_Flush bsz (fw_swap w1) = Some w2" "fw_inv bsz prompt (w2, l)" "fw_flush w2 = Chunk_clear"
    "fw_active w2 = fw_active (fw_swap w1)" "fw_sections w2 = fw_sections (fw_swap w1) @ chunk_secs (fw_flush (fw_swap w1))"
    using fw_Flush_result [OF fw_swap_inv [OF w1(2,3)] len] by blast
  let ?ss = "fw_sections w2"
  let ?ix = "map (fw_index_count (fw_numbers w2)) (fw_index w2)"
  have kept: "fw_kept w2 = sec_messages ?ss" using w2(3,4) w1(3) by (simp add: fw_kept_def fw_swap_def)
  have i: "fw_pos w2 = file_end bsz ?ss" "secs_ok ?ss" "mset (sec_messages ?ss) = mset l" "prompt \<longrightarrow> sec_messages ?ss = l"
    "\<And>c. fw_numbers w2 c = (if count_channel c l = 0 then None else Some (of_nat (count_channel c l)))"
    "hd_message_number (fw_header w2) = of_nat (length (sec_messages ?ss))"
    "ix_channels (fw_index w2) = map (cache_of 0) (sec_channels ?ss)" "fw_is_writing w2"
    using w2(2) kept by (auto simp: fw_inv_def)
  have "ix_channels (map (fw_index_count m) is) = map (\<lambda>c. case m (cc_name c) of None \<Rightarrow> c | Some n \<Rightarrow> c\<lparr>cc_message_number := n\<rparr>) (ix_channels is)" for m "is"
    by (induction "is") (auto simp: fw_index_count_def split: index_cache.split option.split)
  then have ix: "ix_channels ?ix = map (\<lambda>ch. cache_of (of_nat (count_channel (chn_name ch) l)) ch) (sec_channels ?ss)"
    by (simp add: i(5,7) cache_of_def comp_def)
  have "length (sec_messages ?ss) = length l" using arg_cong [OF i(3), of size] by simp
  then have n: "hd_message_number (fw_header w2) = of_nat (length l)" using i(6) by simp
  let ?w3 = "w2\<lparr>fw_is_writing := False, fw_index := ?ix, fw_header := (fw_header w2)\<lparr>hd_index_position := of_nat (fw_pos w2)\<rparr>\<rparr>"
  let ?p = "fw_pos w2 + sec_len bsz (SecIndex ?ix)"
  let ?w4 = "?w3\<lparr>fw_sections := ?ss @ [SecIndex ?ix], fw_pos := ?p, fw_header := (fw_header ?w3)\<lparr>hd_size := of_nat ?p\<rparr>\<rparr>"
  let ?w5 = "fw_WriteHeader ((fw_header ?w4)\<lparr>hd_is_complete := True\<rparr>) ?w4"
  have "fw_WriteIndex bsz (w2\<lparr>fw_is_writing := False\<rparr>) = Some ?w4"
    using i(1) by (simp add: fw_WriteIndex_def fw_WriteSection_def Let_def)
  moreover have "fw_is_writing w" using inv by (simp add: fw_inv_def)
  ultimately have c: "fw_Close bsz w = Some ?w5" by (simp add: fw_Close_def w1(1) w2(1))
  have ss: "?ss = fw_sections w @ chunk_secs (fw_flush w) @ chunk_secs (fw_active w)"
    using w1(4,5) w2(5) by (simp add: fw_swap_def)
  have s5: "fw_sections ?w5 = ?ss @ [SecIndex ?ix]" "\<not> fw_is_writing ?w5" by (simp_all add: fw_WriteHeader_def Let_def)
  have h5: "fw_stored ?w5 = Some ((fw_header ?w4)\<lparr>hd_is_complete := True\<rparr>)" by (simp add: fw_WriteHeader_def Let_def)
  have hs: "hd_size ((fw_header ?w4)\<lparr>hd_is_complete := True\<rparr>) = of_nat (file_end bsz (fw_sections ?w5))"
    unfolding s5(1) file_end_snoc by (simp add: i(1))
  have st: "\<exists>h. fw_stored ?w5 = Some h \<and> hd_is_complete h \<and> hd_index_position h = of_nat (file_end bsz ?ss)
      \<and> hd_message_number h = of_nat (length l) \<and> hd_size h = of_nat (file_end bsz (fw_sections ?w5))"
    by (rule exI [of _ "(fw_header ?w4)\<lparr>hd_is_complete := True\<rparr>"]) (use h5 n i(1) hs in simp)
  show ?thesis
    by (rule exI [of _ ?w5], rule exI [of _ ?ss], rule exI [of _ ?ix], intro conjI)
      (rule c s5 ss i(2-4) ix st)+
qed

section \<open>Reading the file\<close>

lemma sections_at_end:
  "sections_at bsz (q + sum_list (map (sec_len bsz) ss)) q (ss @ ts) = sections_at bsz (q + sum_list (map (sec_len bsz) ss))
     (q + sum_list (map (sec_len bsz) ss)) ts"
proof (induction ss arbitrary: q)
  case (Cons s ss)
  have "0 < sec_len bsz s" by (simp add: sec_len_def SECTION_LENGTH_def)
  then show ?case using Cons [of "q + sec_len bsz s"] by (simp add: add.assoc)
qed simp

lemma sections_at_here: "ts \<noteq> [] \<Longrightarrow> sections_at bsz q q ts = Some ts"
  by (cases ts) simp_all

lemma rr_channels_result:
  "rr_channels is m c = (case m c of Some x \<Rightarrow> Some x | None \<Rightarrow> find (\<lambda>x. cc_name x = c) (ix_channels is))"
  by (induction "is" arbitrary: m) (auto split: index_cache.split option.split)

lemma find_map: "find P (map f xs) = map_option f (find (P \<circ> f) xs)"
  by (induction xs) auto

definition fw_file :: "file_writer \<Rightarrow> rec_file" where
  "fw_file w = (the (fw_stored w), fw_sections w)"

lemma record_channel_info:
  assumes inv: "fw_inv bsz prompt (w, l)" and len: "length l < 2 ^ 64"
    and close: "fw_Close bsz w = Some w'" and size: "file_end bsz (fw_sections w') < 2 ^ 64"
  shows "rr_channel_info (rr_open bsz (fw_file w')) c = find (\<lambda>x. cc_name x = c)
    (map (\<lambda>ch. cache_of (of_nat (count_channel (chn_name ch) l)) ch) (sec_channels (fw_sections w')))"
proof -
  obtain ss ix h where r: "fw_sections w' = ss @ [SecIndex ix]"
    "ix_channels ix = map (\<lambda>ch. cache_of (of_nat (count_channel (chn_name ch) l)) ch) (sec_channels ss)"
    "fw_stored w' = Some h" "hd_is_complete h" "hd_index_position h = of_nat (file_end bsz ss)"
    using fw_Close_result [OF inv len] close by auto
  have "file_end bsz ss < 2 ^ 64" using size by (simp add: r(1) file_end_snoc)
  then have "unat (hd_index_position h) = file_end bsz ss" unfolding r(5) by (simp add: unat_of_nat)
  then have "fr_ReadIndex bsz (fw_file w') = Some ix"
    using sections_at_end [of bsz "SECTION_LENGTH + HEADER_LENGTH" ss "[SecIndex ix]"]
    by (simp add: fr_ReadIndex_def fw_file_def r(1,3,4) file_end_def sections_at_here)
  then show ?thesis by (simp add: rr_open_def rr_channels_result r(1,2) sec_channels_append)
qed

lemma record_opened:
  assumes inv: "fw_inv bsz prompt (w, l)" and len: "length l < 2 ^ 64"
    and close: "fw_Close bsz w = Some w'" and size: "file_end bsz (fw_sections w') < 2 ^ 64"
  shows "rr_is_valid (rr_open bsz (fw_file w'))"
    and "rr_stream (rr_open bsz (fw_file w')) = sec_messages (fw_sections w')"
    and "mset (sec_messages (fw_sections w')) = mset l" and "prompt \<Longrightarrow> sec_messages (fw_sections w') = l"
    and "e = - 1 \<or> (\<forall>m \<in> set l. 0 < sm_time m) \<Longrightarrow> wf_secs e (rr_rest (rr_open bsz (fw_file w')))"
    and "rr_GetMessageNumber c (rr_open bsz (fw_file w')) =
      (if c \<in> chn_name ` set (sec_channels (fw_sections w')) then of_nat (count_channel c l) else 0)"
    and "hd_message_number (rr_header (rr_open bsz (fw_file w'))) = of_nat (length l)"
proof -
  obtain ss ix h where r: "fw_sections w' = ss @ [SecIndex ix]" "secs_ok ss" "mset (sec_messages ss) = mset l"
    "prompt \<longrightarrow> sec_messages ss = l"
    "ix_channels ix = map (\<lambda>ch. cache_of (of_nat (count_channel (chn_name ch) l)) ch) (sec_channels ss)"
    "fw_stored w' = Some h" "hd_is_complete h" "hd_index_position h = of_nat (file_end bsz ss)"
    "hd_message_number h = of_nat (length l)"
    using fw_Close_result [OF inv len] close by auto
  have m: "sec_messages (fw_sections w') = sec_messages ss" "sec_channels (fw_sections w') = sec_channels ss"
    by (simp_all add: r(1) r(2) sec_messages_append sec_channels_append)
  show "rr_is_valid (rr_open bsz (fw_file w'))" "rr_stream (rr_open bsz (fw_file w')) = sec_messages (fw_sections w')"
    "mset (sec_messages (fw_sections w')) = mset l" "prompt \<Longrightarrow> sec_messages (fw_sections w') = l"
    "hd_message_number (rr_header (rr_open bsz (fw_file w'))) = of_nat (length l)"
    using r(3,4,6,9) by (simp_all add: m rr_open_def rr_stream_def fw_file_def)
  show "wf_secs e (rr_rest (rr_open bsz (fw_file w')))" if "e = - 1 \<or> (\<forall>m \<in> set l. 0 < sm_time m)"
    using secs_ok_wf [OF r(2), of e ix] that mset_eq_setD [OF r(3)] by (simp add: rr_open_def fw_file_def r(1))
  note record_channel_info [OF inv len close size, of c]
  then show "rr_GetMessageNumber c (rr_open bsz (fw_file w')) =
      (if c \<in> chn_name ` set (sec_channels (fw_sections w')) then of_nat (count_channel c l) else 0)"
    by (auto simp: rr_GetMessageNumber_def find_map cache_of_def find_None_iff find_Some_iff split: option.split)
qed

lemma rr_stream_all:
  assumes "rr_is_valid r" and "wf_secs (- 1) (rr_rest r)"
  shows "fst (rr_read_all 0 (- 1) r) = rr_stream r"
proof -
  have all: "inside 0 (- 1) m" for m by (simp add: inside_def word_n1_ge)
  have "\<not> hd_end_time (rr_header r) < 0" by simp
  moreover have "\<not> - 1 < hd_begin_time (rr_header r)" using word_n1_ge [of "hd_begin_time (rr_header r)"] by (simp add: leD)
  ultimately have "rr_sound 0 (- 1) r" using assms by (simp add: rr_sound_def wf_rest_def)
  moreover have "in_order (- 1) (rr_stream r)"
  proof -
    have "\<not> - 1 < sm_time m" for m using word_n1_ge [of "sm_time m"] by (simp add: leD)
    then show ?thesis unfolding in_order_def by (induction "rr_stream r") simp_all
  qed
  ultimately show ?thesis
    using read_all_spec [of 0 "- 1" r "fst (rr_read_all 0 (- 1) r)" "snd (rr_read_all 0 (- 1) r)"] all by simp
qed

text \<open>What is recorded can be read back. However the calls of the writer and the turns of its
  flush thread interleave, \<open>Close\<close> succeeds, and a reader that opens the file and reads until there
  is no message gets exactly the messages written, each as often as it was written, and in the order
  of writing when the flush thread kept up; the index tells for each recorded channel how many
  messages it had, and the header how many there are in all.\<close>

theorem record_roundtrip:
  assumes "reach (fw_start h) (fw_step bsz prompt) (w, l)" and "hd_message_number h = 0" and "length l < 2 ^ 64"
  shows "\<exists>w'. fw_Close bsz w = Some w' \<and> (file_end bsz (fw_sections w') < 2 ^ 64 \<longrightarrow>
     (let r = rr_open bsz (fw_file w'); ms = fst (rr_read_all 0 (- 1) r) in
        mset ms = mset l \<and> (prompt \<longrightarrow> ms = l)
        \<and> (\<forall>c \<in> chn_name ` set (sec_channels (fw_sections w')). rr_GetMessageNumber c r = of_nat (count_channel c l))
        \<and> hd_message_number (rr_header r) = of_nat (length l)))"
proof -
  have inv: "fw_inv bsz prompt (w, l)" using fw_reach_inv [OF assms(1,2)] assms(3) by simp
  obtain w' where close: "fw_Close bsz w = Some w'" using fw_Close_result [OF inv assms(3)] by auto
  show ?thesis
  proof (intro exI conjI impI, rule close)
    assume size: "file_end bsz (fw_sections w') < 2 ^ 64"
    note o = record_opened [OF inv assms(3) close size]
    show "let r = rr_open bsz (fw_file w'); ms = fst (rr_read_all 0 (- 1) r) in
        mset ms = mset l \<and> (prompt \<longrightarrow> ms = l)
        \<and> (\<forall>c \<in> chn_name ` set (sec_channels (fw_sections w')). rr_GetMessageNumber c r = of_nat (count_channel c l))
        \<and> hd_message_number (rr_header r) = of_nat (length l)"
      using o(3,4,6,7) rr_stream_all [OF o(1) o(5)] unfolding Let_def o(2) by simp
  qed
qed

section \<open>Reading an interval\<close>

text \<open>The header's times bound the messages, when these are recorded in the order of their times.\<close>

definition fw_bounds :: "file_writer \<times> single_message list \<Rightarrow> bool" where
  "fw_bounds wl \<longleftrightarrow> (case wl of (w, l) \<Rightarrow>
     (sec_messages (fw_sections w) = [] \<longrightarrow> hd_begin_time (fw_header w) = 0)
     \<and> (sec_messages (fw_sections w) \<noteq> [] \<longrightarrow> hd_begin_time (fw_header w) \<noteq> 0)
     \<and> (\<forall>m \<in> set (sec_messages (fw_sections w)). hd_begin_time (fw_header w) \<le> sm_time m \<and> sm_time m \<le> hd_end_time (fw_header w)))"

definition timely :: "single_message list \<Rightarrow> bool" where
  "timely l \<longleftrightarrow> sorted (map sm_time l) \<and> (\<forall>m \<in> set l. 0 < sm_time m)"

lemma timely_append: "timely (xs @ ys) \<longleftrightarrow> timely xs \<and> timely ys \<and> (\<forall>x \<in> set xs. \<forall>y \<in> set ys. sm_time x \<le> sm_time y)"
  by (auto simp: timely_def sorted_append)

lemma fw_Flush_bounds:
  assumes inv: "fw_inv bsz True (w, l)" and len: "length l < 2 ^ 64" and t: "timely l" and b: "fw_bounds (w, l)"
    and f: "fw_Flush bsz w = Some w'"
  shows "fw_bounds (w', l)"
proof -
  have i: "secs_ok (fw_sections w)" "fw_flush w = chunk_of (ck_body (fw_flush w))" "fw_kept w = l"
    using inv by (auto simp: fw_inv_def)
  have s: "fw_sections w' = fw_sections w @ chunk_secs (fw_flush w)"
    and e: "ck_body (fw_flush w) = [] \<Longrightarrow> fw_header w' = fw_header w"
    and h: "ck_body (fw_flush w) \<noteq> [] \<Longrightarrow> hd_end_time (fw_header w') = ck_end_time (ck_header (fw_flush w))
      \<and> hd_begin_time (fw_header w') = (if hd_begin_time (fw_header w) = 0 then ck_begin_time (ck_header (fw_flush w))
             else hd_begin_time (fw_header w))"
    using fw_Flush_result [OF inv len] f by auto
  show ?thesis
  proof (cases "ck_body (fw_flush w) = []")
    case True
    then show ?thesis using b e [OF True] by (simp add: fw_bounds_def s chunk_secs_def)
  next
    case False
    let ?old = "sec_messages (fw_sections w)" and ?new = "ck_body (fw_flush w)" and ?c = "ck_header (fw_flush w)"
    have m: "sec_messages (fw_sections w') = ?old @ ?new"
      using False i(1) by (simp add: s sec_messages_append chunk_secs_def)
    have tt: "timely (?old @ ?new)" using t unfolding i(3) [symmetric] fw_kept_def by (simp add: timely_append)
    then have pos: "\<forall>x \<in> set ?new. 0 < sm_time x" by (simp add: timely_append) (simp add: timely_def)
    have c: "\<forall>x \<in> set ?new. sm_time x \<le> ck_end_time ?c" "\<forall>x \<in> set ?new. ck_begin_time ?c \<le> sm_time x"
      "ck_begin_time ?c \<in> sm_time ` set ?new"
      using chunk_of_header [of ?new] pos False i(2) by auto
    have c0: "ck_begin_time ?c \<noteq> 0" using c(3) pos by auto
    have le: "sm_time x \<le> sm_time y" if "x \<in> set ?old" "y \<in> set ?new" for x y
      using tt that by (simp add: timely_append)
    obtain y where y: "y \<in> set ?new" using False by (cases ?new) auto
    have up: "sm_time x \<le> ck_end_time ?c" if "x \<in> set (?old @ ?new)" for x
      using that c(1) le [of x y] y by (auto intro: order_trans)
    show ?thesis
    proof (cases "?old = []")
      case True
      then show ?thesis using b h [OF False] c c0 False by (simp add: fw_bounds_def m)
    next
      case old: False
      then obtain x where x: "x \<in> set ?old" by (cases ?old) auto
      have "hd_begin_time (fw_header w) \<le> sm_time z" if "z \<in> set (?old @ ?new)" for z
        using that b le [OF x, of z] x by (auto simp: fw_bounds_def intro: order_trans)
      then show ?thesis using b h [OF False] up old by (simp add: fw_bounds_def m)
    qed
  qed
qed

lemma fw_reach_bounds:
  "reach (fw_start h) (fw_step bsz True) wl \<Longrightarrow> hd_message_number h = 0 \<Longrightarrow> hd_begin_time h = 0 \<Longrightarrow>
    length (snd wl) < 2 ^ 64 \<Longrightarrow> timely (snd wl) \<Longrightarrow> fw_bounds wl"
proof (induction rule: reach.induct)
  case reach_init
  then show ?case by (simp add: fw_bounds_def fw_start_def fw_WriteHeader_def fw_Open_def Let_def)
next
  case (reach_step s s')
  have l: "length (snd s) < 2 ^ 64" using fw_step_len [OF reach_step(2)] reach_step(6) by simp
  have inv: "fw_inv bsz True s" using fw_reach_inv [OF reach_step(1,4) l] .
  have "timely (snd s)"
    using reach_step(2,7) by (induction rule: fw_step.induct) (auto simp: timely_append)
  then have b: "fw_bounds s" using reach_step(3) [OF reach_step(4,5) l] by simp
  from reach_step(2) inv b l reach_step(7) show ?case
  proof (induction rule: fw_step.induct)
    case (fs_message w l m)
    then show ?case by (simp add: fw_bounds_def fw_WriteMessage_def fw_count_def fw_swap_def Let_def)
  next
    case (fs_channel ch w w' l)
    then have "secs_ok (fw_sections w)" by (simp add: fw_inv_def)
    then show ?case using fs_channel
      by (auto simp: fw_bounds_def fw_WriteChannel_def fw_WriteSection_def fw_add_index_def Let_def sec_messages_append split: if_splits)
  next
    case (fs_flush w w' l)
    then show ?case using fw_Flush_bounds by simp
  qed
qed

lemma fw_swap_bounds: "fw_bounds (w, l) \<Longrightarrow> fw_bounds (fw_swap w, l)"
  by (simp add: fw_bounds_def fw_swap_def)

lemma fw_Close_bounds:
  assumes inv: "fw_inv bsz True (w, l)" and len: "length l < 2 ^ 64" and t: "timely l" and b: "fw_bounds (w, l)"
    and close: "fw_Close bsz w = Some w'"
  shows "\<forall>m \<in> set l. hd_begin_time (fst (fw_file w')) \<le> sm_time m \<and> sm_time m \<le> hd_end_time (fst (fw_file w'))"
proof -
  obtain w1 where w1: "fw_Flush bsz w = Some w1" "fw_inv bsz True (w1, l)" "fw_flush w1 = Chunk_clear"
    using fw_Flush_result [OF inv len] by blast
  note s1 = fw_swap_inv [OF w1(2,3)]
  obtain w2 where w2: "fw_Flush bsz (fw_swap w1) = Some w2" "fw_inv bsz True (w2, l)" "fw_flush w2 = Chunk_clear"
    "fw_active w2 = fw_active (fw_swap w1)"
    using fw_Flush_result [OF s1 len] by blast
  have b2: "fw_bounds (w2, l)"
    by (rule fw_Flush_bounds [OF s1 len t fw_swap_bounds [OF fw_Flush_bounds [OF inv len t b w1(1)]] w2(1)])
  have kept: "sec_messages (fw_sections w2) = l"
    using w2(2-4) w1(3) by (simp add: fw_inv_def fw_kept_def fw_swap_def)
  have "fw_is_writing w" "fw_pos w2 = file_end bsz (fw_sections w2)" using inv w2(2) by (simp_all add: fw_inv_def)
  then have "hd_begin_time (fst (fw_file w')) = hd_begin_time (fw_header w2) \<and> hd_end_time (fst (fw_file w')) = hd_end_time (fw_header w2)"
    using close by (auto simp: fw_Close_def w1(1) w2(1) fw_WriteIndex_def fw_WriteSection_def fw_WriteHeader_def fw_file_def Let_def)
  then show ?thesis using b2 kept by (simp add: fw_bounds_def)
qed

text \<open>What a recorded file gives, for every interval.\<close>

lemma recorded_sound:
  assumes "reach (fw_start h) (fw_step bsz True) (w, l)" and "hd_message_number h = 0" and "hd_begin_time h = 0"
    and "length l < 2 ^ 64" and "timely l" and "fw_Close bsz w = Some w'" and "file_end bsz (fw_sections w') < 2 ^ 64"
  shows "rr_good (rr_open bsz (fw_file w'))" and "rr_stream (rr_open bsz (fw_file w')) = l"
proof -
  have inv: "fw_inv bsz True (w, l)" using fw_reach_inv [OF assms(1,2)] assms(4) by simp
  note o = record_opened [OF inv assms(4,6,7)]
  have bounds: "fw_bounds (w, l)" using fw_reach_bounds [OF assms(1-3)] assms(4,5) by simp
  show st: "rr_stream (rr_open bsz (fw_file w')) = l" using o(2,4) by simp
  have "\<not> inside b e m" if m: "m \<in> set l" and
    out: "hd_end_time (rr_header (rr_open bsz (fw_file w'))) < b \<or> e < hd_begin_time (rr_header (rr_open bsz (fw_file w')))" for b e m
    using fw_Close_bounds [OF inv assms(4,5) bounds assms(6)] m out by (force simp: rr_open_def inside_def)
  moreover have "wf_secs e (rr_rest (rr_open bsz (fw_file w')))" for e using o(5) assms(5) by (simp add: timely_def)
  ultimately show "rr_good (rr_open bsz (fw_file w'))"
    using o(1) assms(5) by (auto simp: rr_good_def rr_sound_def wf_rest_def st timely_def)
qed

text \<open>Reading an interval of a file agrees with filtering what was recorded: for messages recorded
  in the order of their (positive) times by a writer whose flush thread kept up, reading until there
  is no message in \<open>[b, e]\<close> gives the messages of the interval, in order, although the reader skips
  chunk bodies by their headers and stops at the first chunk past the interval; and reading a later
  interval \<open>[b', e']\<close> with the same reader afterwards gives the messages of that one.\<close>

theorem record_interval:
  assumes "reach (fw_start h) (fw_step bsz True) (w, l)" and "hd_message_number h = 0" and "hd_begin_time h = 0"
    and "length l < 2 ^ 64" and "timely l" and "fw_Close bsz w = Some w'" and "file_end bsz (fw_sections w') < 2 ^ 64"
    and "b \<le> e" and "e < b'" and "b' \<le> e'"
  shows "fst (rr_read_all b e (rr_open bsz (fw_file w'))) = filter (inside b e) l
    \<and> fst (rr_read_all b' e' (snd (rr_read_all b e (rr_open bsz (fw_file w'))))) = filter (inside b' e') l"
proof -
  let ?r = "rr_open bsz (fw_file w')"
  note s = recorded_sound [OF assms(1-7)]
  note g = read_all_good [OF s(1) assms(8)]
  obtain xs where xs: "l = xs @ rr_stream (snd (rr_read_all b e ?r))" "\<forall>x \<in> set xs. sm_time x \<le> e" using g(2) s(2) by auto
  have "filter (inside b' e') xs = []"
    using xs(2) assms(9) by (force simp: filter_empty_conv inside_def)
  then have "filter (inside b' e') l = filter (inside b' e') (rr_stream (snd (rr_read_all b e ?r)))"
    by (subst xs(1)) simp
  then show ?thesis using g(1) read_all_good(1) [OF g(3) assms(10)] s(2) by simp
qed

section \<open>Concrete recordings\<close>

text \<open>Two messages, each larger than the chunk size, so that each fills a chunk.\<close>

definition rec_m1 :: single_message where "rec_m1 = \<lparr>sm_channel_name = ''c'', sm_time = 3, sm_content = ''aa''\<rparr>"
definition rec_m2 :: single_message where "rec_m2 = \<lparr>sm_channel_name = ''c'', sm_time = 7, sm_content = ''bb''\<rparr>"
definition rec_h :: rec_header where "rec_h = GetHeaderWithChunkParams 0 1"
definition rec_ch :: channel where "rec_ch = \<lparr>chn_name = ''c'', chn_message_type = ''t'', chn_proto_desc = []\<rparr>"
definition rec_size :: "rec_section \<Rightarrow> nat" where "rec_size _ = 10"

definition rec_w0 :: file_writer where "rec_w0 = the (fw_WriteChannel rec_size rec_ch (fst (fw_start rec_h)))"
definition rec_w1 :: file_writer where "rec_w1 = fw_WriteMessage rec_m1 rec_w0"
definition rec_kept_up :: file_writer where "rec_kept_up = fw_WriteMessage rec_m2 (the (fw_Flush rec_size rec_w1))"
definition rec_late :: file_writer where "rec_late = fw_WriteMessage rec_m2 rec_w1"

lemma rec_w0_eq: "fw_WriteChannel rec_size rec_ch (fst (fw_start rec_h)) = Some rec_w0"
  by (simp add: rec_w0_def fw_start_def fw_WriteChannel_def fw_WriteSection_def fw_WriteHeader_def fw_Open_def file_end_def Let_def)

lemma rec_reach_w1: "reach (fw_start rec_h) (fw_step rec_size prompt) (rec_w1, [rec_m1])"
proof -
  have s: "fw_start rec_h = (fst (fw_start rec_h), [])" by (simp add: fw_start_def)
  have "fw_step rec_size prompt (fw_start rec_h) (rec_w0, [])"
    by (subst s, rule fs_channel, rule rec_w0_eq)
  moreover have "Chunk_empty (fw_flush rec_w0)" by code_simp
  then have "fw_step rec_size prompt (rec_w0, []) (rec_w1, [] @ [rec_m1])"
    unfolding rec_w1_def by (rule fs_message)
  ultimately show ?thesis by - (rule reach_step, rule reach_one, assumption, simp)
qed

lemma rec_reach_late: "reach (fw_start rec_h) (fw_step rec_size False) (rec_late, [rec_m1, rec_m2])"
proof -
  have "fw_step rec_size False (rec_w1, [rec_m1]) (rec_late, [rec_m1] @ [rec_m2])"
    unfolding rec_late_def by (rule fs_message) simp
  then show ?thesis using reach_step [OF rec_reach_w1] by simp
qed

lemma rec_reach_kept_up: "reach (fw_start rec_h) (fw_step rec_size True) (rec_kept_up, [rec_m1, rec_m2])"
proof -
  have f: "fw_Flush rec_size rec_w1 = Some (the (fw_Flush rec_size rec_w1))"
  proof -
    have "fw_inv rec_size True (rec_w1, [rec_m1])"
      using fw_reach_inv [OF rec_reach_w1] by (simp add: rec_h_def GetHeaderWithChunkParams_def)
    then show ?thesis using fw_Flush_result [of rec_size True rec_w1 "[rec_m1]"] by auto
  qed
  have "fw_step rec_size True (rec_w1, [rec_m1]) (the (fw_Flush rec_size rec_w1), [rec_m1])" by (rule fs_flush, rule f)
  moreover have "Chunk_empty (fw_flush (the (fw_Flush rec_size rec_w1)))" by code_simp
  then have "fw_step rec_size True (the (fw_Flush rec_size rec_w1), [rec_m1]) (rec_kept_up, [rec_m1] @ [rec_m2])"
    unfolding rec_kept_up_def by (intro fs_message)
  ultimately show ?thesis using reach_step [OF reach_step [OF rec_reach_w1]] by simp
qed

lemma rec_kept_up_size: "file_end rec_size (fw_sections (the (fw_Close rec_size rec_kept_up))) < 2 ^ 64"
proof -
  have "length (fw_sections (the (fw_Close rec_size rec_kept_up))) = 6" by code_simp
  moreover have "sum_list (map (sec_len rec_size) ss) = 26 * length ss" for ss
    by (induction ss) (simp_all add: sec_len_def rec_size_def SECTION_LENGTH_def)
  ultimately show ?thesis by (simp add: file_end_def SECTION_LENGTH_def HEADER_LENGTH_def)
qed

lemma record_roundtrip_witness:
  "\<exists>w'. fw_Close rec_size rec_kept_up = Some w' \<and> fst (rr_read_all 0 (- 1) (rr_open rec_size (fw_file w'))) = [rec_m1, rec_m2]"
proof -
  have "\<exists>w'. fw_Close rec_size rec_kept_up = Some w' \<and> (file_end rec_size (fw_sections w') < 2 ^ 64 \<longrightarrow>
     fst (rr_read_all 0 (- 1) (rr_open rec_size (fw_file w'))) = [rec_m1, rec_m2])"
    using record_roundtrip [OF rec_reach_kept_up]
    by (simp add: rec_h_def GetHeaderWithChunkParams_def Let_def) blast
  moreover have "file_end rec_size (fw_sections (the (fw_Close rec_size rec_kept_up))) < 2 ^ 64" by (rule rec_kept_up_size)
  ultimately show ?thesis by auto
qed

lemma record_interval_witness:
  "fst (rr_read_all 6 9 (snd (rr_read_all 3 5 (rr_open rec_size (fw_file (the (fw_Close rec_size rec_kept_up))))))) = [rec_m2]"
proof -
  have "fw_inv rec_size True (rec_kept_up, [rec_m1, rec_m2])"
    using fw_reach_inv [OF rec_reach_kept_up] by (simp add: rec_h_def GetHeaderWithChunkParams_def)
  then have c: "fw_Close rec_size rec_kept_up = Some (the (fw_Close rec_size rec_kept_up))"
    using fw_Close_result [of rec_size True rec_kept_up "[rec_m1, rec_m2]"] by auto
  have s: "file_end rec_size (fw_sections (the (fw_Close rec_size rec_kept_up))) < 2 ^ 64" by (rule rec_kept_up_size)
  have "timely [rec_m1, rec_m2]" by (simp add: timely_def rec_m1_def rec_m2_def)
  from record_interval [OF rec_reach_kept_up _ _ _ this c s, of 3 5 6 9] show ?thesis
    by (simp add: rec_h_def GetHeaderWithChunkParams_def inside_def rec_m1_def rec_m2_def)
qed

text \<open>When the flush thread does not run between two full chunks, the second chunk is written
  before the first: two messages recorded in the order of their times are then read in the opposite
  order, the file's header says it begins at 7 and ends at 3, and so a reader finds no message at
  time 3 and none at time 7.\<close>

theorem record_race_hides_messages:
  "reach (fw_start rec_h) (fw_step rec_size False) (rec_late, [rec_m1, rec_m2]) \<and> timely [rec_m1, rec_m2]
   \<and> (let r = rr_open rec_size (fw_file (the (fw_Close rec_size rec_late))) in
        fst (rr_read_all 0 (- 1) r) = [rec_m2, rec_m1] \<and> hd_begin_time (rr_header r) = 7 \<and> hd_end_time (rr_header r) = 3
        \<and> fst (rr_read_all 3 3 r) = [] \<and> fst (rr_read_all 7 7 r) = [])"
proof -
  have "let r = rr_open rec_size (fw_file (the (fw_Close rec_size rec_late))) in
        fst (rr_read_all 0 (- 1) r) = [rec_m2, rec_m1] \<and> hd_begin_time (rr_header r) = 7 \<and> hd_end_time (rr_header r) = 3
        \<and> fst (rr_read_all 3 3 r) = [] \<and> fst (rr_read_all 7 7 r) = []"
    by code_simp
  then show ?thesis
    using rec_reach_late by (simp add: timely_def rec_m1_def rec_m2_def)
qed

end
