(* ===== verification/Record_Viewer.thy ===== *)
theory Record_Viewer
  imports Record_Roundtrip "HOL-Library.Product_Lexorder"
begin

text \<open>
  The viewer (record_viewer.h, record_viewer.cc): the messages of several record files in the order
  of their times, read in windows of a second into a buffer. The buffer is a multimap, here a list
  in the order of times. Its loops, which a wrap-around of the clock could keep from ending, are
  partial functions: \<open>None\<close> is a loop that does not end.
\<close>

definition kStepTimeNanoSec :: u64 where "kStepTimeNanoSec = 1000000000"
definition kBufferMinSize :: nat where "kBufferMinSize = 128"

record record_viewer =
  rv_begin_time :: u64
  rv_end_time :: u64
  rv_channels :: "string set"
  rv_channel_list :: "string set"
  rv_readers :: "record_reader list"
  rv_finished :: "bool list"
  rv_curr :: u64
  rv_buffer :: "single_message list"

section \<open>Construction\<close>

definition rv_Init :: "record_viewer \<Rightarrow> record_viewer" where
  "rv_Init v = v\<lparr>rv_channel_list := (\<Union>r \<in> set (rv_readers v). rr_GetChannelList r \<inter> rv_channels v),
     rv_finished := replicate (length (rv_readers v)) False,
     rv_readers := sort_key (\<lambda>r. (hd_begin_time (rr_header r), hd_end_time (rr_header r))) (rv_readers v)\<rparr>"

fun rv_times :: "record_reader list \<Rightarrow> u64 \<times> u64 \<Rightarrow> u64 \<times> u64" where
  "rv_times [] be = be"
| "rv_times (r # rs) (b, e) =
     rv_times rs (if \<not> rr_is_valid r then (b, e)
       else (if hd_begin_time (rr_header r) < b then hd_begin_time (rr_header r) else b,
             if e < hd_end_time (rr_header r) then hd_end_time (rr_header r) else e))"

definition rv_UpdateTime :: "record_viewer \<Rightarrow> record_viewer" where
  "rv_UpdateTime v =
     (let (min_begin, max_end) = rv_times (rv_readers v) (- 1, 0);
          b = (if rv_begin_time v < min_begin then min_begin else rv_begin_time v);
          e = (if max_end < rv_end_time v then max_end else rv_end_time v) in
      v\<lparr>rv_begin_time := b, rv_end_time := e, rv_curr := b\<rparr>)"

definition rv_new :: "record_reader list \<Rightarrow> u64 \<Rightarrow> u64 \<Rightarrow> string set \<Rightarrow> record_viewer" where
  "rv_new readers b e channels = rv_UpdateTime (rv_Init
     \<lparr>rv_begin_time = b, rv_end_time = e, rv_channels = channels, rv_channel_list = {}, rv_readers = readers,
      rv_finished = [], rv_curr = 0, rv_buffer = []\<rparr>)"

definition rv_IsValid :: "record_viewer \<Rightarrow> bool" where
  "rv_IsValid v \<longleftrightarrow> \<not> rv_end_time v < rv_begin_time v"

definition rv_Reset :: "record_viewer \<Rightarrow> record_viewer" where
  "rv_Reset v = v\<lparr>rv_readers := map rr_Reset (rv_readers v), rv_finished := map (\<lambda>_. False) (rv_finished v),
     rv_curr := rv_begin_time v, rv_buffer := []\<rparr>"

section \<open>Filling the buffer\<close>

text \<open>\<open>emplace\<close>: behind the entries with the same time.\<close>

fun mb_emplace :: "single_message \<Rightarrow> single_message list \<Rightarrow> single_message list" where
  "mb_emplace m [] = [m]"
| "mb_emplace m (x # xs) = (if sm_time x \<le> sm_time m then x # mb_emplace m xs else m # x # xs)"

text \<open>The two loops over the readers in a turn of \<open>FillBuffer\<close>.\<close>

fun rv_finish :: "u64 \<Rightarrow> (bool \<times> record_reader) list \<Rightarrow> (bool \<times> record_reader) list" where
  "rv_finish b [] = []"
| "rv_finish b ((f, r) # rs) =
     (if \<not> f \<and> hd_end_time (rr_header r) < b then (True, rr_Reset r) else (f, r)) # rv_finish b rs"

fun rv_read :: "u64 \<Rightarrow> u64 \<Rightarrow> (bool \<times> record_reader) list \<Rightarrow> single_message list \<Rightarrow> (bool \<times> record_reader) list \<times> single_message list" where
  "rv_read b e [] buf = ([], buf)"
| "rv_read b e ((f, r) # rs) buf =
     (if f then (let (rs, buf) = rv_read b e rs buf in ((f, r) # rs, buf))
      else (let (ms, r) = rr_read_all b e r; (rs, buf) = rv_read b e rs (fold mb_emplace ms buf) in ((f, r) # rs, buf)))"

definition rv_window :: "record_viewer \<Rightarrow> record_viewer" where
  "rv_window v =
     (let b = rv_curr v; e = b + kStepTimeNanoSec; e = (if rv_end_time v < e then rv_end_time v else e);
          (rs, buf) = rv_read b e (rv_finish b (zip (rv_finished v) (rv_readers v))) (rv_buffer v) in
      v\<lparr>rv_finished := map fst rs, rv_readers := map snd rs, rv_buffer := buf, rv_curr := e + 1\<rparr>)"

partial_function (option) rv_FillBuffer :: "record_viewer \<Rightarrow> record_viewer option" where
  "rv_FillBuffer v =
     (if rv_curr v \<le> rv_end_time v \<and> length (rv_buffer v) < kBufferMinSize then rv_FillBuffer (rv_window v) else Some v)"

definition rv_shows :: "record_viewer \<Rightarrow> single_message \<Rightarrow> bool" where
  "rv_shows v m \<longleftrightarrow> rv_channels v = {} \<or> sm_channel_name m \<in> rv_channels v"

partial_function (option) rv_Update :: "record_viewer \<Rightarrow> (single_message option \<times> record_viewer) option" where
  "rv_Update v =
     Option.bind (if rv_buffer v = [] then rv_FillBuffer v else Some v) (\<lambda>v.
       case rv_buffer v of
         [] \<Rightarrow> Some (None, v)
       | m # ms \<Rightarrow> if rv_shows v m then Some (Some m, v\<lparr>rv_buffer := ms\<rparr>) else rv_Update (v\<lparr>rv_buffer := ms\<rparr>))"

section \<open>The iterator\<close>

record rv_iterator =
  it_end :: bool
  it_index :: u64
  it_message :: "single_message option"

definition it_begin :: "record_viewer \<Rightarrow> (rv_iterator \<times> record_viewer) option" where
  "it_begin v =
     (let v = rv_Reset v in
      if \<not> rv_IsValid v then Some (\<lparr>it_end = True, it_index = 0, it_message = None\<rparr>, v)
      else do { (x, v) \<leftarrow> rv_Update v; Some (\<lparr>it_end = (x = None), it_index = 0, it_message = x\<rparr>, v) })"

definition it_finish :: rv_iterator where
  "it_finish = \<lparr>it_end = True, it_index = 0, it_message = None\<rparr>"

text \<open>\<open>operator==\<close> of two iterators of the same viewer.\<close>

definition it_eq :: "rv_iterator \<Rightarrow> rv_iterator \<Rightarrow> bool" where
  "it_eq i j = (if it_end j then it_end i else it_index i = it_index j)"

text \<open>\<open>operator++\<close>; the message stays when there is no next one.\<close>

definition it_next :: "rv_iterator \<Rightarrow> record_viewer \<Rightarrow> (rv_iterator \<times> record_viewer) option" where
  "it_next i v = do {
     (x, v) \<leftarrow> rv_Update v;
     Some (i\<lparr>it_index := it_index i + 1, it_end := it_end i \<or> x = None, it_message := (if x = None then it_message i else x)\<rparr>, v) }"

text \<open>\<open>for (auto& m : viewer)\<close>\<close>

partial_function (option) it_loop :: "rv_iterator \<Rightarrow> record_viewer \<Rightarrow> single_message list option" where
  "it_loop i v =
     (if it_eq i it_finish then Some []
      else Option.bind (it_next i v) (\<lambda>(j, v). Option.bind (it_loop j v) (\<lambda>ms. Some (the (it_message i) # ms))))"

definition rv_messages :: "record_viewer \<Rightarrow> single_message list option" where
  "rv_messages v = do { (i, v) \<leftarrow> it_begin v; it_loop i v }"

section \<open>What is still to come\<close>

definition unread :: "u64 \<Rightarrow> u64 \<Rightarrow> (bool \<times> record_reader) list \<Rightarrow> single_message multiset" where
  "unread b e rs = (\<Sum>(f, r) \<leftarrow> rs. if f then {#} else mset (filter (inside b e) (rr_stream r)))"

definition good_readers :: "(bool \<times> record_reader) list \<Rightarrow> bool" where
  "good_readers rs \<longleftrightarrow> (\<forall>(f, r) \<in> set rs. f \<or> rr_good r)"

lemma unread_Nil [simp]: "unread b e [] = {#}" by (simp add: unread_def)

lemma unread_Cons [simp]:
  "unread b e ((f, r) # rs) = (if f then {#} else mset (filter (inside b e) (rr_stream r))) + unread b e rs"
  by (simp add: unread_def)

lemma good_readers_simps [simp]:
  "good_readers []" "good_readers ((f, r) # rs) \<longleftrightarrow> (f \<or> rr_good r) \<and> good_readers rs"
  by (auto simp: good_readers_def)

lemma unread_inside: "x \<in># unread b e rs \<Longrightarrow> inside b e x"
  by (induction rs) (auto split: if_splits)

lemma good_bounds:
  assumes "rr_good r" and "m \<in> set (rr_stream r)"
  shows "hd_begin_time (rr_header r) \<le> sm_time m \<and> sm_time m \<le> hd_end_time (rr_header r)"
proof -
  have "rr_sound (sm_time m) (sm_time m) r" using assms(1) by (simp add: rr_good_def)
  then show ?thesis using assms(2) by (force simp: rr_sound_def inside_def)
qed

lemma inside_split:
  assumes "b \<le> e" and "e \<le> z" and "e < - 1"
  shows "mset (filter (inside b z) xs) = mset (filter (inside b e) xs) + mset (filter (inside (e + 1) z) xs)"
proof -
  have "unat e < unat (- 1 :: u64)" using assms(3) by (simp only: word_less_nat_alt)
  then have "unat (e + 1) = Suc (unat e)" by (intro unat_Suc_word) (simp add: unsigned_minus_1_eq_mask mask_eq_exp_minus_1)
  then have suc: "e + 1 \<le> t \<longleftrightarrow> e < t" for t by (simp add: word_le_nat_alt word_less_nat_alt Suc_le_eq)
  have split: "(inside b z x \<longleftrightarrow> inside b e x \<or> inside (e + 1) z x) \<and> \<not> (inside b e x \<and> inside (e + 1) z x)" for x
  proof (cases "sm_time x \<le> e")
    case True
    then have "sm_time x \<le> z" using assms(2) by (rule order_trans)
    then show ?thesis using True leD [OF True] by (simp add: inside_def suc)
  next
    case False
    then have "b \<le> sm_time x" using assms(1) by (meson le_less_linear less_imp_le order_trans)
    then show ?thesis using False by (simp add: inside_def suc) (simp add: not_le)
  qed
  show ?thesis
  proof (induction xs)
    case (Cons x xs)
    then show ?case using split [of x] by (cases "inside b e x"; cases "inside (e + 1) z x") simp_all
  qed simp
qed

lemma unread_split:
  assumes "b \<le> e" and "e \<le> z" and "e < - 1"
  shows "unread b z rs = unread b e rs + unread (e + 1) z rs"
proof (induction rs)
  case (Cons fr rs)
  obtain f r where "fr = (f, r)" by (cases fr)
  then show ?case using Cons inside_split [OF assms, of "rr_stream r"] by (simp add: ac_simps del: mset_filter)
qed simp

lemma rv_finish_result:
  "good_readers rs \<Longrightarrow> good_readers (rv_finish b rs) \<and> unread b e (rv_finish b rs) = unread b e rs
    \<and> length (rv_finish b rs) = length rs"
proof (induction rs)
  case (Cons fr rs)
  obtain f r where fr: "fr = (f, r)" by (cases fr)
  show ?case
  proof (cases "\<not> f \<and> hd_end_time (rr_header r) < b")
    case True
    then have "rr_good r" using Cons.prems by (simp add: fr)
    then have "filter (inside b e) (rr_stream r) = []"
      using good_bounds True by (force simp: filter_empty_conv inside_def)
    then show ?thesis using Cons True by (simp add: fr)
  next
    case False
    then show ?thesis using Cons by (auto simp: fr)
  qed
qed simp

definition by_time :: "single_message list \<Rightarrow> bool" where
  "by_time xs \<longleftrightarrow> sorted (map sm_time xs)"

lemma mb_emplace_mset [simp]: "mset (mb_emplace m xs) = add_mset m (mset xs)"
  by (induction xs) auto

lemma mb_emplace_by_time: "by_time xs \<Longrightarrow> by_time (mb_emplace m xs)"
proof (induction xs)
  case (Cons x xs)
  have "set (mb_emplace m xs) = insert m (set xs)" by (metis mb_emplace_mset set_mset_add_mset_insert set_mset_mset)
  then show ?case using Cons by (auto simp: by_time_def)
qed (simp add: by_time_def)

lemma fold_emplace: "by_time xs \<Longrightarrow> by_time (fold mb_emplace ms xs) \<and> mset (fold mb_emplace ms xs) = mset ms + mset xs"
  by (induction ms arbitrary: xs) (simp_all add: mb_emplace_by_time)

lemma rv_read_result:
  "good_readers rs \<Longrightarrow> by_time buf \<Longrightarrow> b \<le> e \<Longrightarrow> rv_read b e rs buf = (rs', buf') \<Longrightarrow>
    good_readers rs' \<and> by_time buf' \<and> mset buf' = mset buf + unread b e rs \<and> length rs' = length rs
    \<and> (\<forall>b' e'. e < b' \<longrightarrow> unread b' e' rs' = unread b' e' rs)"
proof (induction rs arbitrary: buf rs' buf')
  case (Cons fr rs)
  obtain f r where fr: "fr = (f, r)" by (cases fr)
  show ?case
  proof (cases f)
    case True
    obtain rs1 where rs1: "rv_read b e rs buf = (rs1, buf')" "rs' = (f, r) # rs1"
      using Cons.prems(4) True by (auto simp: fr Let_def split: prod.splits)
    show ?thesis using Cons.IH [OF _ Cons.prems(2,3) rs1(1)] Cons.prems(1) rs1(2) True by (simp add: fr)
  next
    case False
    then have g: "rr_good r" using Cons.prems(1) by (simp add: fr)
    note ra = read_all_good [OF g Cons.prems(3)]
    obtain ms r1 where ms: "rr_read_all b e r = (ms, r1)" by fastforce
    obtain rs1 where rs1: "rv_read b e rs (fold mb_emplace ms buf) = (rs1, buf')" "rs' = (f, r1) # rs1"
      using Cons.prems(4) False ms by (auto simp: fr Let_def split: prod.splits)
    note fe = fold_emplace [OF Cons.prems(2), of ms]
    have ih: "good_readers rs1 \<and> by_time buf' \<and> mset buf' = mset (fold mb_emplace ms buf) + unread b e rs \<and> length rs1 = length rs
      \<and> (\<forall>b' e'. e < b' \<longrightarrow> unread b' e' rs1 = unread b' e' rs)"
      using Cons.IH [OF _ _ Cons.prems(3) rs1(1)] Cons.prems(1) fe by (simp add: fr)
    have r1: "ms = filter (inside b e) (rr_stream r)" "rr_good r1" using ra ms by simp_all
    obtain xs where xs: "rr_stream r = xs @ rr_stream r1" "\<forall>x \<in> set xs. sm_time x \<le> e" using ra(2) ms by auto
    have "filter (inside b' e') (rr_stream r1) = filter (inside b' e') (rr_stream r)" if "e < b'" for b' e'
    proof -
      have "filter (inside b' e') xs = []" using xs(2) that by (force simp: filter_empty_conv inside_def)
      then show ?thesis by (simp add: xs(1))
    qed
    then show ?thesis using ih fe r1 rs1(2) False by (simp add: fr)
  qed
qed simp

section \<open>The invariant of the viewer\<close>

definition rv_pairs :: "record_viewer \<Rightarrow> (bool \<times> record_reader) list" where
  "rv_pairs v = zip (rv_finished v) (rv_readers v)"

definition rv_rest :: "record_viewer \<Rightarrow> single_message multiset" where
  "rv_rest v = mset (rv_buffer v) + unread (rv_curr v) (rv_end_time v) (rv_pairs v)"

definition rv_ok :: "record_viewer \<Rightarrow> bool" where
  "rv_ok v \<longleftrightarrow> length (rv_finished v) = length (rv_readers v) \<and> good_readers (rv_pairs v) \<and> by_time (rv_buffer v)
     \<and> (\<forall>m \<in> set (rv_buffer v). sm_time m < rv_curr v)
     \<and> unat (rv_end_time v) + 1000000001 < 2 ^ 64"

definition same_view :: "record_viewer \<Rightarrow> record_viewer \<Rightarrow> bool" where
  "same_view v w \<longleftrightarrow> rv_end_time v = rv_end_time w \<and> rv_channels v = rv_channels w"

lemma rv_window_result:
  assumes ok: "rv_ok v" and cur: "rv_curr v \<le> rv_end_time v"
  shows "rv_ok (rv_window v)" and "rv_rest (rv_window v) = rv_rest v" and "same_view (rv_window v) v"
    and "rv_curr v < rv_curr (rv_window v)"
proof -
  let ?b = "rv_curr v" and ?z = "rv_end_time v"
  let ?e = "if ?z < ?b + kStepTimeNanoSec then ?z else ?b + kStepTimeNanoSec"
  have big: "unat ?z + 1000000001 < 2 ^ 64" using ok by (simp add: rv_ok_def)
  have bz: "unat ?b \<le> unat ?z" using cur by (simp add: word_le_nat_alt)
  have step: "unat (?b + kStepTimeNanoSec) = unat ?b + 1000000000"
    using big bz by (simp add: kStepTimeNanoSec_def unat_word_ariths)
  have be: "?b \<le> ?e" using cur step by (simp add: word_le_nat_alt)
  have ez: "?e \<le> ?z" by (simp add: not_less)
  have eu: "unat ?e \<le> unat ?z" using ez by (simp only: word_le_nat_alt)
  have suc: "unat (?e + 1) = Suc (unat ?e)" using eu big by (intro unat_Suc_word) simp
  have emax: "?e < - 1" unfolding word_less_nat_alt using eu big by (simp add: unsigned_minus_1_eq_mask mask_eq_exp_minus_1)
  obtain rs buf where r: "rv_read ?b ?e (rv_finish ?b (rv_pairs v)) (rv_buffer v) = (rs, buf)" by fastforce
  have w: "rv_window v = v\<lparr>rv_finished := map fst rs, rv_readers := map snd rs, rv_buffer := buf, rv_curr := ?e + 1\<rparr>"
    using r by (simp add: rv_window_def rv_pairs_def Let_def)
  have g: "good_readers (rv_pairs v)" "by_time (rv_buffer v)" "length (rv_finished v) = length (rv_readers v)"
    using ok by (simp_all add: rv_ok_def)
  note f = rv_finish_result [OF g(1), of ?b]
  have rd: "good_readers rs" "by_time buf" "mset buf = mset (rv_buffer v) + unread ?b ?e (rv_finish ?b (rv_pairs v))"
    "length rs = length (rv_finish ?b (rv_pairs v))"
    "\<And>b' e'. ?e < b' \<Longrightarrow> unread b' e' rs = unread b' e' (rv_finish ?b (rv_pairs v))"
    using rv_read_result [OF _ g(2) be r] f by blast+
  have pairs: "rv_pairs (rv_window v) = rs" by (simp add: w rv_pairs_def zip_map_fst_snd)
  have sp: "unread ?b ?z ps = unread ?b ?e ps + unread (?e + 1) ?z ps" for ps
    by (rule unread_split [OF be ez emax])
  have lt: "?e < ?e + 1" by (rule iffD2 [OF word_less_nat_alt]) (subst suc, rule lessI)
  have "rv_rest (rv_window v) = mset buf + unread (?e + 1) ?z rs"
    unfolding rv_rest_def pairs by (simp only: w) simp
  also have "\<dots> = mset (rv_buffer v) + unread ?b ?z (rv_finish ?b (rv_pairs v))"
    using rd(3) rd(5) [OF lt] sp by (simp add: add.assoc)
  also have "\<dots> = rv_rest v" using f by (simp add: rv_rest_def)
  finally show "rv_rest (rv_window v) = rv_rest v" .
  have "sm_time m < ?e + 1" if "m \<in> set buf" for m
  proof -
    have "m \<in># mset buf" using that by simp
    then have "m \<in> set (rv_buffer v) \<or> inside ?b ?e m" using rd(3) unread_inside by (metis set_mset_mset union_iff)
    then have "sm_time m \<le> ?e"
      using ok be by (auto simp: rv_ok_def inside_def dest: order_less_le_trans less_imp_le)
    then show ?thesis using lt by (rule order_le_less_trans)
  qed
  then show "rv_ok (rv_window v)"
    using rd(1,2) big unfolding rv_ok_def pairs by (simp add: w)
  show "same_view (rv_window v) v" by (simp add: w same_view_def)
  show "rv_curr v < rv_curr (rv_window v)"
    using order_le_less_trans [OF be lt] by (simp add: w)
qed

lemma unread_none: "z < b \<Longrightarrow> unread b z rs = {#}"
proof -
  assume "z < b"
  then have "\<not> inside b z m" for m unfolding inside_def by (meson le_less_trans not_le)
  then show ?thesis by (induction rs) auto
qed

lemma same_view_trans: "same_view u v \<Longrightarrow> same_view v w \<Longrightarrow> same_view u w"
  by (simp add: same_view_def)

text \<open>\<open>FillBuffer\<close> ends, keeps what is to come, and leaves the buffer empty only when nothing is.\<close>

lemma rv_FillBuffer_result:
  assumes "rv_ok v"
  shows "\<exists>w. rv_FillBuffer v = Some w \<and> rv_ok w \<and> rv_rest w = rv_rest v \<and> same_view w v
    \<and> (rv_buffer w = [] \<longrightarrow> rv_rest w = {#})"
  using assms
proof (induction "Suc (unat (rv_end_time v)) - unat (rv_curr v)" arbitrary: v rule: less_induct)
  case less
  show ?case
  proof (cases "rv_curr v \<le> rv_end_time v \<and> length (rv_buffer v) < kBufferMinSize")
    case True
    note w = rv_window_result [OF less(2) conjunct1 [OF True]]
    have e: "rv_end_time (rv_window v) = rv_end_time v" using w(3) by (simp add: same_view_def)
    have lt: "unat (rv_curr v) < unat (rv_curr (rv_window v))" "unat (rv_curr v) \<le> unat (rv_end_time v)"
      using w(4) True by (simp_all add: word_less_nat_alt word_le_nat_alt)
    have "Suc (unat (rv_end_time (rv_window v))) - unat (rv_curr (rv_window v)) < Suc (unat (rv_end_time v)) - unat (rv_curr v)"
      using lt unfolding e by linarith
    from less(1) [OF this w(1)] show ?thesis
      using w(2,3) True by (subst rv_FillBuffer.simps) (auto dest: same_view_trans)
  next
    case False
    then have f: "rv_FillBuffer v = Some v" by (subst rv_FillBuffer.simps) (simp only: if_False)
    have "rv_rest v = {#}" if "rv_buffer v = []"
      using that False unread_none [of "rv_end_time v" "rv_curr v"] by (simp add: rv_rest_def kBufferMinSize_def not_le)
    then show ?thesis using f less(2) by (simp add: same_view_def)
  qed
qed

text \<open>\<open>Update\<close> ends with the earliest message to come that is shown, or with none to come.\<close>

lemma rv_Update_result:
  assumes "rv_ok v"
  shows "\<exists>x w. rv_Update v = Some (x, w) \<and> rv_ok w \<and> same_view w v \<and> (case x of
      None \<Rightarrow> filter_mset (rv_shows v) (rv_rest v) = {#}
    | Some m \<Rightarrow> filter_mset (rv_shows v) (rv_rest v) = add_mset m (filter_mset (rv_shows v) (rv_rest w))
        \<and> size (rv_rest w) < size (rv_rest v) \<and> (\<forall>y \<in># rv_rest w. sm_time m \<le> sm_time y))"
  using assms
proof (induction "size (rv_rest v)" arbitrary: v rule: less_induct)
  case less
  obtain u where u: "(if rv_buffer v = [] then rv_FillBuffer v else Some v) = Some u" "rv_ok u" "rv_rest u = rv_rest v"
    "same_view u v" "rv_buffer u = [] \<longrightarrow> rv_rest u = {#}"
    using rv_FillBuffer_result [OF less(2)] less(2) by (cases "rv_buffer v = []") (auto simp: same_view_def)
  have sh: "rv_shows u = rv_shows v" using u(4) by (simp add: rv_shows_def same_view_def fun_eq_iff)
  have up: "rv_Update v = (case rv_buffer u of [] \<Rightarrow> Some (None, u)
      | m # ms \<Rightarrow> if rv_shows u m then Some (Some m, u\<lparr>rv_buffer := ms\<rparr>) else rv_Update (u\<lparr>rv_buffer := ms\<rparr>))"
    unfolding rv_Update.simps [of v] u(1) by simp
  show ?case
  proof (cases "rv_buffer u")
    case Nil
    then show ?thesis using up u by auto
  next
    case (Cons m ms)
    let ?w = "u\<lparr>rv_buffer := ms\<rparr>"
    have rest: "rv_rest u = add_mset m (rv_rest ?w)" using Cons by (simp add: rv_rest_def rv_pairs_def)
    have ok: "rv_ok ?w" using u(2) Cons by (simp add: rv_ok_def by_time_def rv_pairs_def)
    have view: "same_view ?w v" using u(4) by (simp add: same_view_def)
    have least: "sm_time m \<le> sm_time y" if "y \<in># rv_rest ?w" for y
    proof -
      have "y \<in> set ms \<or> inside (rv_curr u) (rv_end_time u) y"
        using that unread_inside by (auto simp: rv_rest_def)
      then show ?thesis
      proof
        assume "y \<in> set ms"
        then show ?thesis using u(2) Cons by (simp add: rv_ok_def by_time_def)
      next
        assume "inside (rv_curr u) (rv_end_time u) y"
        moreover have "sm_time m < rv_curr u" using u(2) Cons by (simp add: rv_ok_def)
        ultimately show ?thesis by (meson inside_def less_imp_le order_trans)
      qed
    qed
    show ?thesis
    proof (cases "rv_shows v m")
      case True
      then show ?thesis using up Cons sh rest u(3) ok view least by simp
    next
      case False
      have "size (rv_rest ?w) < size (rv_rest v)" unfolding u(3) [symmetric] rest by simp
      from less(1) [OF this ok] obtain x w where w: "rv_Update ?w = Some (x, w)" "rv_ok w" "same_view w ?w" "case x of
          None \<Rightarrow> filter_mset (rv_shows ?w) (rv_rest ?w) = {#}
        | Some m \<Rightarrow> filter_mset (rv_shows ?w) (rv_rest ?w) = add_mset m (filter_mset (rv_shows ?w) (rv_rest w))
            \<and> size (rv_rest w) < size (rv_rest ?w) \<and> (\<forall>y \<in># rv_rest w. sm_time m \<le> sm_time y)" by blast
      have shw: "rv_shows ?w = rv_shows v" using sh by (simp add: rv_shows_def fun_eq_iff)
      have f: "filter_mset (rv_shows v) (rv_rest v) = filter_mset (rv_shows v) (rv_rest ?w)"
        unfolding u(3) [symmetric] rest using False by simp
      have "size (rv_rest ?w) < size (rv_rest v)" unfolding u(3) [symmetric] rest by simp
      then show ?thesis
        using up Cons sh False w same_view_trans [OF w(3) view] unfolding shw f
        by (intro exI [of _ x] exI [of _ w]) (auto split: option.splits)
    qed
  qed
qed

lemma it_loop_result:
  assumes "rv_ok v" and "it_message i = Some m" and "\<not> it_end i" and "\<And>y. y \<in># rv_rest v \<Longrightarrow> sm_time m \<le> sm_time y"
  shows "\<exists>ms. it_loop i v = Some ms \<and> by_time ms \<and> mset ms = add_mset m (filter_mset (rv_shows v) (rv_rest v))"
  using assms
proof (induction "size (rv_rest v)" arbitrary: v i m rule: less_induct)
  case less
  obtain x w where w: "rv_Update v = Some (x, w)" "rv_ok w" "same_view w v" "case x of
      None \<Rightarrow> filter_mset (rv_shows v) (rv_rest v) = {#}
    | Some m \<Rightarrow> filter_mset (rv_shows v) (rv_rest v) = add_mset m (filter_mset (rv_shows v) (rv_rest w))
        \<and> size (rv_rest w) < size (rv_rest v) \<and> (\<forall>y \<in># rv_rest w. sm_time m \<le> sm_time y)"
    using rv_Update_result [OF less(2)] by blast
  let ?j = "i\<lparr>it_index := it_index i + 1, it_end := it_end i \<or> x = None, it_message := (if x = None then it_message i else x)\<rparr>"
  have step: "it_loop i v = Option.bind (it_loop ?j w) (\<lambda>ms. Some (m # ms))"
    using less(3,4) w(1) by (subst it_loop.simps) (simp add: it_eq_def it_finish_def it_next_def)
  show ?case
  proof (cases x)
    case None
    then have "it_loop ?j w = Some []" by (subst it_loop.simps) (simp add: it_eq_def it_finish_def)
    then show ?thesis using step w(4) None by (simp add: by_time_def)
  next
    case (Some n)
    have j: "it_message ?j = Some n" "\<not> it_end ?j" using Some less(4) by simp_all
    have lt: "size (rv_rest w) < size (rv_rest v)" using w(4) Some by simp
    have mn: "\<And>y. y \<in># rv_rest w \<Longrightarrow> sm_time n \<le> sm_time y" using w(4) Some by simp
    obtain ms where ms: "it_loop ?j w = Some ms" "by_time ms" "mset ms = add_mset n (filter_mset (rv_shows w) (rv_rest w))"
      using less(1) [OF lt w(2) j mn] by blast
    have sh: "rv_shows w = rv_shows v" using w(3) by (simp add: rv_shows_def same_view_def fun_eq_iff)
    have all: "mset ms = filter_mset (rv_shows v) (rv_rest v)" using ms(3) w(4) Some sh by simp
    have "sm_time m \<le> sm_time y" if "y \<in> set ms" for y
    proof -
      have "y \<in># mset ms" using that by simp
      then show ?thesis unfolding all using less(5) by simp
    qed
    then show ?thesis using step ms(1,2) all by (simp add: by_time_def)
  qed
qed

section \<open>Viewing recordings\<close>

text \<open>\<open>f\<close> is a file in which \<open>l\<close> was recorded as a reader needs it: the flush thread kept up, so that a
  message came only when the chunk to be flushed was empty (\<open>fw_step\<close> with \<open>True\<close>), the messages came in the
  order of their times, none of which is 0, into a file with a fresh header, and neither their number nor
  the bytes of the file reach $2^{64}$.\<close>

definition recorded :: "(rec_section \<Rightarrow> nat) \<Rightarrow> rec_file \<Rightarrow> single_message list \<Rightarrow> bool" where
  "recorded bsz f l \<longleftrightarrow> (\<exists>h w w'. reach (fw_start h) (fw_step bsz True) (w, l) \<and> hd_message_number h = 0 \<and> hd_begin_time h = 0
     \<and> length l < 2 ^ 64 \<and> timely l \<and> fw_Close bsz w = Some w' \<and> file_end bsz (fw_sections w') < 2 ^ 64 \<and> f = fw_file w')"

lemma recorded_reader: "recorded bsz f l \<Longrightarrow> rr_good (rr_open bsz f) \<and> rr_stream (rr_open bsz f) = l"
  unfolding recorded_def using recorded_sound by blast

lemma recorded_readers:
  "list_all2 (recorded bsz) fs ls \<Longrightarrow> (\<forall>f \<in> set fs. rr_good (rr_open bsz f)) \<and> map (rr_stream \<circ> rr_open bsz) fs = ls"
  by (induction rule: list_all2_induct) (auto dest: recorded_reader)

lemma rr_Reset_open: "rr_Reset (rr_open bsz f) = rr_open bsz f"
  by (simp add: rr_Reset_def rr_open_def)

lemma rv_times_result:
  "rv_times rs (b, e) = (b', e') \<Longrightarrow> b' \<le> b \<and> e \<le> e' \<and> e' \<in> insert e ((hd_end_time \<circ> rr_header) ` set rs)
    \<and> (\<forall>r \<in> set rs. rr_is_valid r \<longrightarrow> b' \<le> hd_begin_time (rr_header r) \<and> hd_end_time (rr_header r) \<le> e')"
proof (induction rs arbitrary: b e)
  case (Cons r rs)
  let ?b = "if \<not> rr_is_valid r then b else if hd_begin_time (rr_header r) < b then hd_begin_time (rr_header r) else b"
  let ?e = "if \<not> rr_is_valid r then e else if e < hd_end_time (rr_header r) then hd_end_time (rr_header r) else e"
  have "rv_times rs (?b, ?e) = (b', e')" using Cons.prems by (simp split: if_splits)
  from Cons.IH [OF this] have ih: "b' \<le> ?b" "?e \<le> e'" "e' \<in> insert ?e ((hd_end_time \<circ> rr_header) ` set rs)"
    "\<forall>r \<in> set rs. rr_is_valid r \<longrightarrow> b' \<le> hd_begin_time (rr_header r) \<and> hd_end_time (rr_header r) \<le> e'" by blast+
  have "?b \<le> b" "e \<le> ?e" "rr_is_valid r \<Longrightarrow> ?b \<le> hd_begin_time (rr_header r) \<and> hd_end_time (rr_header r) \<le> ?e"
    by (auto simp: not_less)
  then show ?case using ih by (auto intro: order_trans split: if_splits)
qed simp

lemma unread_all:
  "unread b e (zip (replicate (length rs) False) rs) = mset (filter (inside b e) (concat (map rr_stream rs)))"
  by (induction rs) simp_all

lemma mset_concat_perm: "mset xs = mset ys \<Longrightarrow> mset (filter P (concat (map g xs))) = mset (filter P (concat (map g ys)))"
proof -
  assume eq: "mset xs = mset ys"
  have all: "mset (concat (map g zs)) = sum_mset (image_mset (mset \<circ> g) (mset zs))" for zs
    by (induction zs) simp_all
  show ?thesis by (simp add: all eq)
qed

lemma rv_new_fields:
  assumes "rv_times (sort_key (\<lambda>r. (hd_begin_time (rr_header r), hd_end_time (rr_header r))) rs) (- 1, 0) = (b0, e0)"
  shows "rv_new rs b e cs = \<lparr>rv_begin_time = (if b < b0 then b0 else b), rv_end_time = (if e0 < e then e0 else e),
    rv_channels = cs, rv_channel_list = (\<Union>r \<in> set rs. rr_GetChannelList r \<inter> cs),
    rv_readers = sort_key (\<lambda>r. (hd_begin_time (rr_header r), hd_end_time (rr_header r))) rs,
    rv_finished = replicate (length rs) False, rv_curr = (if b < b0 then b0 else b), rv_buffer = []\<rparr>"
  by (simp add: rv_new_def rv_UpdateTime_def rv_Init_def assms Let_def)

lemma rv_messages_recorded:
  assumes "list_all2 (recorded bsz) fs ls" and "\<And>f. f \<in> set fs \<Longrightarrow> unat (hd_end_time (fst f)) + 1000000001 < 2 ^ 64"
  shows "\<exists>ms. rv_messages (rv_new (map (rr_open bsz) fs) b e channels) = Some ms \<and> sorted (map sm_time ms)
    \<and> mset ms = mset (filter (\<lambda>m. inside b e m \<and> (channels = {} \<or> sm_channel_name m \<in> channels)) (concat ls))"
proof -
  let ?raw = "map (rr_open bsz) fs"
  let ?rs = "sort_key (\<lambda>r. (hd_begin_time (rr_header r), hd_end_time (rr_header r))) (map (rr_open bsz) fs)"
  obtain b0 e0 where be0: "rv_times ?rs (- 1, 0) = (b0, e0)" by fastforce
  let ?b = "if b < b0 then b0 else b" and ?e = "if e0 < e then e0 else e"
  let ?v = "rv_new ?raw b e channels" and ?n = "replicate (length fs) False"
  have v: "rv_readers ?v = ?rs" "rv_finished ?v = ?n" "rv_begin_time ?v = ?b" "rv_end_time ?v = ?e" "rv_channels ?v = channels"
    unfolding rv_new_fields [OF be0] by simp_all
  have good: "rr_good r" if "r \<in> set ?rs" for r using that recorded_readers [OF assms(1)] by auto
  have opened: "rr_is_valid r" "rr_Reset r = r" if "r \<in> set ?rs" for r using that by (auto simp: rr_Reset_open) (simp add: rr_open_def)
  note t = rv_times_result [OF be0]
  have e0: "unat e0 + 1000000001 < 2 ^ 64"
  proof -
    have "e0 = 0 \<or> (\<exists>f \<in> set fs. e0 = hd_end_time (fst f))" using t [THEN conjunct2, THEN conjunct2, THEN conjunct1] by (force simp: rr_open_def)
    then show ?thesis using assms(2) by auto
  qed
  have clip: "inside ?b ?e m \<longleftrightarrow> inside b e m" if "r \<in> set ?rs" "m \<in> set (rr_stream r)" for r m
  proof -
    have "b0 \<le> sm_time m" "sm_time m \<le> e0"
      using good_bounds [OF good [OF that(1)] that(2)] t that(1) opened(1) [OF that(1)] by (auto intro: order_trans)
    then show ?thesis by (auto simp: inside_def)
  qed
  have "filter (inside ?b ?e) (concat (map rr_stream ?rs)) = filter (inside b e) (concat (map rr_stream ?rs))"
  proof (rule filter_cong [OF refl])
    fix m assume "m \<in> set (concat (map rr_stream ?rs))"
    then obtain r where "r \<in> set ?rs" "m \<in> set (rr_stream r)" unfolding set_concat set_map by blast
    then show "inside ?b ?e m = inside b e m" by (rule clip)
  qed
  moreover have "mset (filter (inside b e) (concat (map rr_stream ?rs))) = mset (filter (inside b e) (concat (map rr_stream ?raw)))"
    by (rule mset_concat_perm) simp
  moreover have "map rr_stream ?raw = ls" using recorded_readers [OF assms(1)] by simp
  ultimately have all: "mset (filter (inside ?b ?e) (concat (map rr_stream ?rs))) = mset (filter (inside b e) (concat ls))" by simp
  let ?w = "rv_Reset ?v"
  have m: "map rr_Reset ?rs = ?rs" by (rule map_idI) (rule opened(2))
  have w: "rv_readers ?w = ?rs" "rv_finished ?w = ?n" "rv_curr ?w = ?b" "rv_end_time ?w = ?e" "rv_buffer ?w = []" "rv_channels ?w = channels"
    unfolding rv_Reset_def v m using v(4,5) by simp_all
  have pairs: "rv_pairs ?w = zip (replicate (length ?rs) False) ?rs" by (simp add: rv_pairs_def w)
  have rest: "rv_rest ?w = mset (filter (inside b e) (concat ls))"
    unfolding rv_rest_def pairs w(3-5) unread_all all by simp
  have sh: "rv_shows ?w = (\<lambda>m. channels = {} \<or> sm_channel_name m \<in> channels)" by (simp add: rv_shows_def w(6) fun_eq_iff)
  have goal: "filter_mset (rv_shows ?w) (rv_rest ?w) =
      mset (filter (\<lambda>m. inside b e m \<and> (channels = {} \<or> sm_channel_name m \<in> channels)) (concat ls))"
    unfolding rest sh by (simp add: filter_filter_mset conj_commute)
  have eb: "unat ?e + 1000000001 < 2 ^ 64"
  proof (cases "e0 < e")
    case False
    then have "unat e \<le> unat e0" by (simp add: word_le_nat_alt [symmetric])
    then show ?thesis using e0 False by simp
  qed (use e0 in simp)
  have "good_readers (rv_pairs ?w)"
    unfolding good_readers_def pairs using good by (auto dest: set_zip_rightD)
  then have ok: "rv_ok ?w" using eb by (simp add: rv_ok_def w by_time_def)
  show ?thesis
  proof (cases "rv_IsValid ?w")
    case False
    then have "?e < ?b" by (simp add: rv_IsValid_def rv_Reset_def v)
    then have "rv_rest ?w = {#}" using unread_none by (simp add: rv_rest_def w)
    moreover have "rv_messages ?v = Some []"
      using False by (simp add: rv_messages_def it_begin_def Let_def it_loop.simps it_eq_def it_finish_def)
    ultimately show ?thesis using goal by simp
  next
    case True
    obtain x u where u: "rv_Update ?w = Some (x, u)" "rv_ok u" "same_view u ?w" "case x of
        None \<Rightarrow> filter_mset (rv_shows ?w) (rv_rest ?w) = {#}
      | Some m \<Rightarrow> filter_mset (rv_shows ?w) (rv_rest ?w) = add_mset m (filter_mset (rv_shows ?w) (rv_rest u))
          \<and> size (rv_rest u) < size (rv_rest ?w) \<and> (\<forall>y \<in># rv_rest u. sm_time m \<le> sm_time y)"
      using rv_Update_result [OF ok] by blast
    let ?i = "\<lparr>it_end = (x = None), it_index = 0, it_message = x\<rparr>"
    have m: "rv_messages ?v = it_loop ?i u" using True u(1) by (simp add: rv_messages_def it_begin_def Let_def)
    show ?thesis
    proof (cases x)
      case None
      then have "rv_messages ?v = Some []" unfolding m by (simp add: it_loop.simps it_eq_def it_finish_def)
      then show ?thesis using u(4) None goal by simp
    next
      case (Some n)
      have su: "rv_shows u = rv_shows ?w" using u(3) by (simp add: rv_shows_def same_view_def fun_eq_iff)
      have i: "it_message ?i = Some n" "\<not> it_end ?i" and least: "\<And>y. y \<in># rv_rest u \<Longrightarrow> sm_time n \<le> sm_time y"
        using Some u(4) by simp_all
      obtain ms where "it_loop ?i u = Some ms" "by_time ms" "mset ms = add_mset n (filter_mset (rv_shows u) (rv_rest u))"
        using it_loop_result [OF u(2) i least] by blast
      then show ?thesis using m u(4) Some goal su by (simp add: by_time_def)
    qed
  qed
qed

text \<open>C7: Viewing recordings that were made while the flush thread kept up. A viewer over any number of files ends
  and gives every message of the files whose time is in the interval and whose channel is wanted, exactly as
  often as it was recorded and nothing else, in the order of times. The conditions on each file are those of
  \<open>recorded\<close>: a message came only when the chunk to be flushed was empty, in the order of times, none of them 0,
  after a fresh header, and fewer than $2^{64}$ messages and bytes; and a second and a nanosecond after its end
  time is still a 64-bit time. A file for which the flush thread was late may hide messages from every viewer
  (theorem \<open>record_race_hides_messages\<close> of \<open>Record_Roundtrip\<close>).\<close>

theorem viewer_shows_recordings:
  assumes "list_all2 (recorded bsz) fs ls" and "\<And>f. f \<in> set fs \<Longrightarrow> unat (hd_end_time (fst f)) + 1000000001 < 2 ^ 64"
  shows "\<exists>ms. rv_messages (rv_new (map (rr_open bsz) fs) b e channels) = Some ms \<and> sorted (map sm_time ms)
    \<and> mset ms = mset (filter (\<lambda>m. inside b e m \<and> (channels = {} \<or> sm_channel_name m \<in> channels)) (concat ls))"
  by (rule rv_messages_recorded [OF assms])

lemma rec_kept_up_recorded: "recorded rec_size (fw_file (the (fw_Close rec_size rec_kept_up))) [rec_m1, rec_m2]"
proof -
  have inv: "fw_inv rec_size True (rec_kept_up, [rec_m1, rec_m2])"
    using fw_reach_inv [OF rec_reach_kept_up] by (simp add: rec_h_def GetHeaderWithChunkParams_def)
  have "fw_Close rec_size rec_kept_up = Some (the (fw_Close rec_size rec_kept_up))"
    using fw_Close_result [OF inv] by auto
  moreover have "timely [rec_m1, rec_m2]" by (simp add: timely_def rec_m1_def rec_m2_def)
  moreover have "hd_message_number rec_h = 0 \<and> hd_begin_time rec_h = 0" by (simp add: rec_h_def GetHeaderWithChunkParams_def)
  ultimately show ?thesis unfolding recorded_def using rec_reach_kept_up rec_kept_up_size by fastforce
qed

lemma viewer_shows_recordings_witness:
  "\<exists>ms. rv_messages (rv_new [rr_open rec_size (fw_file (the (fw_Close rec_size rec_kept_up)))] 4 9 {}) = Some ms
    \<and> mset ms = {#rec_m2#}"
proof -
  let ?f = "fw_file (the (fw_Close rec_size rec_kept_up))"
  have "hd_end_time (fst ?f) = 7" by code_simp
  then have h: "unat (hd_end_time (fst ?f)) + 1000000001 < 2 ^ 64" by simp
  have "list_all2 (recorded rec_size) [?f] [[rec_m1, rec_m2]]" using rec_kept_up_recorded by simp
  from viewer_shows_recordings [OF this, of 4 9 "{}"] h show ?thesis
    by (simp add: inside_def rec_m1_def rec_m2_def)
qed

end
