(* ===== verification/Record_Writer.thy ===== *)
theory Record_Writer
  imports Record_Viewer
begin

text \<open>
  The record writer (record_writer.h, record_writer.cc): it records into a sequence of files, its
  segments, and starts the next one when the current one is too large or too long. What is on the
  disk is the list of the files that were closed, with their paths. The iteration order of the
  unordered map of channels is unspecified; the model goes through it in the order of registration.
  The backup pointer, which only keeps the last closed writer alive, is left out. \<open>None\<close> is a call
  through the null pointer \<open>file_writer_\<close> or a write that \<open>fw_WriteSection\<close> leaves undefined.
\<close>

record record_writer =
  rw_header :: rec_header
  rw_file :: string
  rw_path :: string
  rw_is_opened :: bool
  rw_segment_raw_size :: u64
  rw_segment_begin_time :: u64
  rw_file_index :: u32
  rw_numbers :: "(string \<times> u64) list"
  rw_types :: "string \<Rightarrow> string option"
  rw_descs :: "string \<Rightarrow> string option"
  rw_file_writer :: "file_writer option"
  rw_disk :: "(string \<times> rec_file) list"

definition rw_new :: "rec_header \<Rightarrow> record_writer" where
  "rw_new h = \<lparr>rw_header = h, rw_file = [], rw_path = [], rw_is_opened = False, rw_segment_raw_size = 0,
     rw_segment_begin_time = 0, rw_file_index = 0, rw_numbers = [], rw_types = (\<lambda>_. None), rw_descs = (\<lambda>_. None),
     rw_file_writer = None, rw_disk = []\<rparr>"

text \<open>\<open>"." << setw(5) << setfill('0') << i\<close>\<close>

definition rw_suffix :: "u32 \<Rightarrow> string" where
  "rw_suffix i = (let d = dec (unat i) in CHR ''.'' # replicate (5 - length d) (CHR ''0'') @ d)"

text \<open>\<open>Close\<close> of the current file's writer, if it is open.\<close>

definition rw_finish :: "(rec_section \<Rightarrow> nat) \<Rightarrow> record_writer \<Rightarrow> record_writer option" where
  "rw_finish bsz w = (case rw_file_writer w of
       None \<Rightarrow> Some w
     | Some f \<Rightarrow> if \<not> fw_is_writing f then Some w
         else do { f' \<leftarrow> fw_Close bsz f;
                   Some (w\<lparr>rw_file_writer := Some f', rw_disk := rw_disk w @ [(rw_path w, fw_file f')]\<rparr>) })"

text \<open>\<open>file_writer_.reset\<close> destroys the old writer, whose destructor closes its file.\<close>

definition rw_Open :: "(rec_section \<Rightarrow> nat) \<Rightarrow> string \<Rightarrow> record_writer \<Rightarrow> record_writer option" where
  "rw_Open bsz file w = do {
     w \<leftarrow> rw_finish bsz w;
     let i = 0;
     let suffix = rw_suffix i;
     let path = (if 0 < hd_segment_interval (rw_header w) \<or> 0 < hd_segment_raw_size (rw_header w)
                 then file @ suffix else file);
     Some (w\<lparr>rw_file := file, rw_file_index := i + 1, rw_path := path,
             rw_file_writer := Some (fw_WriteHeader (rw_header w) (fw_Open (rw_header w))), rw_is_opened := True\<rparr>) }"

definition rw_Close :: "(rec_section \<Rightarrow> nat) \<Rightarrow> record_writer \<Rightarrow> record_writer option" where
  "rw_Close bsz w =
     (if \<not> rw_is_opened w then Some w
      else if rw_file_writer w = None then None
      else map_option (\<lambda>w. w\<lparr>rw_is_opened := False\<rparr>) (rw_finish bsz w))"

fun rw_write_channels :: "(rec_section \<Rightarrow> nat) \<Rightarrow> (string \<Rightarrow> string option) \<Rightarrow> (string \<Rightarrow> string option) \<Rightarrow> string list
    \<Rightarrow> file_writer \<Rightarrow> file_writer option" where
  "rw_write_channels bsz ty ds [] f = Some f"
| "rw_write_channels bsz ty ds (c # cs) f =
     Option.bind (fw_WriteChannel bsz \<lparr>chn_name = c, chn_message_type = (case ty c of Some t \<Rightarrow> t | None \<Rightarrow> []),
         chn_proto_desc = (case ds c of Some d \<Rightarrow> d | None \<Rightarrow> [])\<rparr> f)
       (rw_write_channels bsz ty ds cs)"

definition rw_SplitOutfile :: "(rec_section \<Rightarrow> nat) \<Rightarrow> record_writer \<Rightarrow> record_writer option" where
  "rw_SplitOutfile bsz w =
     (let i = (if 99999 < rw_file_index w then 0 else rw_file_index w);
          w = w\<lparr>rw_file_index := i + 1, rw_path := rw_file w @ rw_suffix i, rw_segment_raw_size := 0, rw_segment_begin_time := 0\<rparr> in
      map_option (\<lambda>f. w\<lparr>rw_file_writer := Some f\<rparr>)
        (rw_write_channels bsz (rw_types w) (rw_descs w) (map fst (rw_numbers w))
           (fw_WriteHeader (rw_header w) (fw_Open (rw_header w)))))"

definition rw_IsNewChannel :: "string \<Rightarrow> record_writer \<Rightarrow> bool" where
  "rw_IsNewChannel c w \<longleftrightarrow> map_of (rw_numbers w) c = None"

definition rw_OnNewChannel :: "string \<Rightarrow> string \<Rightarrow> string \<Rightarrow> record_writer \<Rightarrow> record_writer" where
  "rw_OnNewChannel c ty ds w =
     (if rw_IsNewChannel c w
      then w\<lparr>rw_numbers := rw_numbers w @ [(c, 0)], rw_types := (rw_types w)(c \<mapsto> ty), rw_descs := (rw_descs w)(c \<mapsto> ds)\<rparr>
      else w)"

definition rw_OnNewMessage :: "string \<Rightarrow> record_writer \<Rightarrow> record_writer" where
  "rw_OnNewMessage c w = w\<lparr>rw_numbers := map (\<lambda>(d, n). (d, if d = c then n + 1 else n)) (rw_numbers w)\<rparr>"

definition rw_WriteChannel :: "(rec_section \<Rightarrow> nat) \<Rightarrow> string \<Rightarrow> string \<Rightarrow> string \<Rightarrow> record_writer \<Rightarrow> record_writer option" where
  "rw_WriteChannel bsz c ty ds w =
     (if rw_IsNewChannel c w
      then (case rw_file_writer w of
          None \<Rightarrow> None
        | Some f \<Rightarrow> map_option (\<lambda>f. (rw_OnNewChannel c ty ds w)\<lparr>rw_file_writer := Some f\<rparr>)
            (fw_WriteChannel bsz \<lparr>chn_name = c, chn_message_type = ty, chn_proto_desc = ds\<rparr> f))
      else Some w)"

text \<open>The private \<open>WriteMessage\<close>: into the file, then the test whether the segment ends.\<close>

definition rw_full :: "u64 \<Rightarrow> record_writer \<Rightarrow> bool" where
  "rw_full t w \<longleftrightarrow>
     (0 < hd_segment_interval (rw_header w) \<and> hd_segment_interval (rw_header w) < t - rw_segment_begin_time w)
     \<or> (0 < hd_segment_raw_size (rw_header w) \<and> hd_segment_raw_size (rw_header w) < rw_segment_raw_size w)"

definition rw_note :: "single_message \<Rightarrow> record_writer \<Rightarrow> record_writer" where
  "rw_note m w =
     (let b = (if rw_segment_begin_time w = 0 then sm_time m else rw_segment_begin_time w);
          b = (if sm_time m < b then sm_time m else b) in
      w\<lparr>rw_segment_raw_size := rw_segment_raw_size w + of_nat (length (sm_content m)), rw_segment_begin_time := b\<rparr>)"

definition rw_write :: "(rec_section \<Rightarrow> nat) \<Rightarrow> single_message \<Rightarrow> record_writer \<Rightarrow> record_writer option" where
  "rw_write bsz m w = (case rw_file_writer w of
       None \<Rightarrow> None
     | Some f \<Rightarrow>
        (let w = rw_note m ((rw_OnNewMessage (sm_channel_name m) w)\<lparr>rw_file_writer := Some (fw_WriteMessage m f)\<rparr>) in
         if rw_full (sm_time m) w then Option.bind (rw_finish bsz w) (rw_SplitOutfile bsz) else Some w))"

definition rw_GetMessageNumber :: "string \<Rightarrow> record_writer \<Rightarrow> u64" where
  "rw_GetMessageNumber c w = (case map_of (rw_numbers w) c of Some n \<Rightarrow> n | None \<Rightarrow> 0)"

definition rw_GetMessageType :: "string \<Rightarrow> record_writer \<Rightarrow> string" where
  "rw_GetMessageType c w = (case rw_types w c of Some t \<Rightarrow> t | None \<Rightarrow> [])"

definition rw_GetProtoDesc :: "string \<Rightarrow> record_writer \<Rightarrow> string" where
  "rw_GetProtoDesc c w = (case rw_descs w c of Some t \<Rightarrow> t | None \<Rightarrow> [])"

definition rw_SetSizeOfFileSegmentation :: "u64 \<Rightarrow> record_writer \<Rightarrow> bool \<times> record_writer" where
  "rw_SetSizeOfFileSegmentation kb w =
     (if rw_is_opened w then (False, w)
      else (True, w\<lparr>rw_header := (rw_header w)\<lparr>hd_segment_raw_size := kb * 1024\<rparr>\<rparr>))"

definition rw_SetIntervalOfFileSegmentation :: "u64 \<Rightarrow> record_writer \<Rightarrow> bool \<times> record_writer" where
  "rw_SetIntervalOfFileSegmentation sec w =
     (if rw_is_opened w then (False, w)
      else (True, w\<lparr>rw_header := (rw_header w)\<lparr>hd_segment_interval := sec * 1000000000\<rparr>\<rparr>))"

text \<open>The public \<open>WriteMessage\<close> of a string, of a raw message that may be null, and of a message of
  a type with descriptor name \<open>ty\<close>, whose serialisation may fail.\<close>

definition rw_WriteMessage_string :: "(rec_section \<Rightarrow> nat) \<Rightarrow> string \<Rightarrow> string \<Rightarrow> u64 \<Rightarrow> record_writer \<Rightarrow> (bool \<times> record_writer) option" where
  "rw_WriteMessage_string bsz c content t w =
     map_option (Pair True) (rw_write bsz \<lparr>sm_channel_name = c, sm_time = t, sm_content = content\<rparr> w)"

definition rw_WriteMessage_raw :: "(rec_section \<Rightarrow> nat) \<Rightarrow> string \<Rightarrow> string option \<Rightarrow> u64 \<Rightarrow> record_writer \<Rightarrow> (bool \<times> record_writer) option" where
  "rw_WriteMessage_raw bsz c msg t w = (case msg of
       None \<Rightarrow> Some (False, w)
     | Some content \<Rightarrow> rw_WriteMessage_string bsz c content t w)"

definition rw_WriteMessage :: "(rec_section \<Rightarrow> nat) \<Rightarrow> string \<Rightarrow> string \<Rightarrow> string option \<Rightarrow> u64 \<Rightarrow> string \<Rightarrow> record_writer
    \<Rightarrow> (bool \<times> record_writer) option" where
  "rw_WriteMessage bsz c ty serialized t ds w =
     (let known = rw_GetMessageType c w in
      if known \<noteq> [] \<and> ty \<noteq> known then Some (False, w)
      else do {
        w \<leftarrow> (if known = [] then rw_WriteChannel bsz c ty ds w else Some w);
        case serialized of
          None \<Rightarrow> Some (False, w)
        | Some content \<Rightarrow> rw_WriteMessage_string bsz c content t w })"

section \<open>Recording sessions\<close>

text \<open>The calls of a client and the turns of the flush thread, with the log of the messages.
  \<open>prompt\<close>: the flush thread keeps up; \<open>declared\<close>: messages come on registered channels only, as
  \<open>WriteMessage\<close> of a typed message sees to.\<close>

inductive rw_step :: "(rec_section \<Rightarrow> nat) \<Rightarrow> bool \<Rightarrow> bool \<Rightarrow> record_writer \<times> single_message list \<Rightarrow> record_writer \<times> single_message list \<Rightarrow> bool"
  for bsz prompt declared where
  rs_message: "rw_file_writer w = Some f \<Longrightarrow> (prompt \<Longrightarrow> Chunk_empty (fw_flush f)) \<Longrightarrow>
    (declared \<Longrightarrow> \<not> rw_IsNewChannel (sm_channel_name m) w) \<Longrightarrow> rw_write bsz m w = Some w' \<Longrightarrow>
    rw_step bsz prompt declared (w, l) (w', l @ [m])"
| rs_channel: "rw_WriteChannel bsz c ty ds w = Some w' \<Longrightarrow> rw_step bsz prompt declared (w, l) (w', l)"
| rs_flush: "rw_file_writer w = Some f \<Longrightarrow> fw_Flush bsz f = Some f' \<Longrightarrow>
    rw_step bsz prompt declared (w, l) (w\<lparr>rw_file_writer := Some f'\<rparr>, l)"

definition rw_start :: "rec_header \<Rightarrow> string \<Rightarrow> record_writer \<times> single_message list" where
  "rw_start h file = (the (rw_Open (\<lambda>_. 0) file (rw_new h)), [])"

lemma rw_Open_start: "rw_Open bsz file (rw_new h) = Some (fst (rw_start h file))"
  by (simp add: rw_start_def rw_Open_def rw_finish_def rw_new_def Let_def)

text \<open>The file \<open>d\<close> is a recording of \<open>xs\<close>.\<close>

definition recording_of :: "rec_header \<Rightarrow> (rec_section \<Rightarrow> nat) \<Rightarrow> bool \<Rightarrow> rec_file \<Rightarrow> single_message list \<Rightarrow> bool" where
  "recording_of h bsz prompt d xs \<longleftrightarrow>
     (\<exists>w w'. reach (fw_start h) (fw_step bsz prompt) (w, xs) \<and> fw_Close bsz w = Some w' \<and> d = fw_file w')"

text \<open>Every message is in exactly one of the closed files or in the current one, in order.\<close>

definition rw_inv :: "rec_header \<Rightarrow> (rec_section \<Rightarrow> nat) \<Rightarrow> bool \<Rightarrow> record_writer \<times> single_message list \<Rightarrow> bool" where
  "rw_inv h bsz prompt wl \<longleftrightarrow> (case wl of (w, l) \<Rightarrow> rw_header w = h \<and> rw_is_opened w \<and>
     (\<exists>f cur ls. rw_file_writer w = Some f \<and> reach (fw_start h) (fw_step bsz prompt) (f, cur)
       \<and> l = concat ls @ cur \<and> list_all2 (recording_of h bsz prompt) (map snd (rw_disk w)) ls))"

lemma rw_write_channels_reach:
  "rw_write_channels bsz ty ds cs f = Some f' \<Longrightarrow> reach s (fw_step bsz prompt) (f, l) \<Longrightarrow> reach s (fw_step bsz prompt) (f', l)"
proof (induction bsz ty ds cs f rule: rw_write_channels.induct)
  case (2 bsz ty ds c cs f)
  then obtain g where g: "fw_WriteChannel bsz \<lparr>chn_name = c, chn_message_type = (case ty c of Some t \<Rightarrow> t | None \<Rightarrow> []),
         chn_proto_desc = (case ds c of Some d \<Rightarrow> d | None \<Rightarrow> [])\<rparr> f = Some g" "rw_write_channels bsz ty ds cs g = Some f'"
    by (auto split: bind_splits)
  then show ?case using 2 by (blast intro: reach_step fs_channel)
qed simp

lemma rw_start_inv: "rw_inv h bsz prompt (rw_start h file)"
proof -
  have "reach (fw_start h) (fw_step bsz prompt) (fw_WriteHeader h (fw_Open h), [])"
    using reach_init [of "fw_start h"] by (simp add: fw_start_def)
  then show ?thesis by (force simp: rw_inv_def rw_start_def rw_Open_def rw_finish_def rw_new_def Let_def)
qed

lemma recorded_is_writing: "reach (fw_start h) (fw_step bsz prompt) fl \<Longrightarrow> fw_is_writing (fst fl)"
proof (induction rule: reach.induct)
  case reach_init
  then show ?case by (simp add: fw_start_def fw_WriteHeader_def fw_Open_def Let_def)
next
  case (reach_step s s')
  from reach_step(2,3) show ?case
    by (induction rule: fw_step.induct)
      (auto simp: fw_WriteMessage_def fw_count_def fw_swap_def fw_WriteChannel_def fw_WriteSection_def fw_add_index_def
        fw_Flush_def fw_WriteChunk_def Let_def split: if_splits bind_splits)
qed

lemma rw_finish_inv:
  assumes "rw_inv h bsz prompt (w, l)" and "rw_finish bsz w = Some w'"
  shows "rw_header w' = h \<and> (\<exists>ls. l = concat ls \<and> list_all2 (recording_of h bsz prompt) (map snd (rw_disk w')) ls)"
proof -
  obtain f cur ls where f: "rw_file_writer w = Some f" "reach (fw_start h) (fw_step bsz prompt) (f, cur)"
    "l = concat ls @ cur" "list_all2 (recording_of h bsz prompt) (map snd (rw_disk w)) ls" "rw_header w = h"
    using assms(1) by (auto simp: rw_inv_def)
  obtain f' where f': "fw_Close bsz f = Some f'" "w' = w\<lparr>rw_file_writer := Some f', rw_disk := rw_disk w @ [(rw_path w, fw_file f')]\<rparr>"
    using assms(2) f(1) recorded_is_writing [OF f(2)] by (auto simp: rw_finish_def split: bind_splits)
  have "recording_of h bsz prompt (fw_file f') cur" using f(2) f'(1) unfolding recording_of_def by blast
  then have "list_all2 (recording_of h bsz prompt) (map snd (rw_disk w')) (ls @ [cur])"
    using f(4) by (simp add: f'(2) list_all2_appendI)
  moreover have "l = concat (ls @ [cur])" using f(3) by simp
  ultimately show ?thesis using f(5) f'(2) by (auto simp del: concat_append)
qed

lemma rw_SplitOutfile_inv:
  assumes "rw_SplitOutfile bsz w = Some w'" and "rw_header w = h" and "rw_is_opened w"
    and "l = concat ls" and "list_all2 (recording_of h bsz prompt) (map snd (rw_disk w)) ls"
  shows "rw_inv h bsz prompt (w', l)"
proof -
  obtain f where f: "rw_write_channels bsz (rw_types w) (rw_descs w) (map fst (rw_numbers w)) (fw_WriteHeader h (fw_Open h)) = Some f"
    "rw_file_writer w' = Some f" "rw_header w' = h" "rw_is_opened w'" "rw_disk w' = rw_disk w"
    using assms(1-3) by (auto simp: rw_SplitOutfile_def Let_def)
  have "reach (fw_start h) (fw_step bsz prompt) (fw_WriteHeader h (fw_Open h), [])"
    using reach_init [of "fw_start h"] by (simp add: fw_start_def)
  then have "reach (fw_start h) (fw_step bsz prompt) (f, [])" by (rule rw_write_channels_reach [OF f(1)])
  then show ?thesis using f assms(4,5) unfolding rw_inv_def by force
qed

lemma rw_step_inv:
  assumes "rw_step bsz prompt declared a b" and "rw_inv h bsz prompt a"
  shows "rw_inv h bsz prompt b"
  using assms
proof (induction rule: rw_step.induct)
  case (rs_message w f m w' l)
  let ?w = "rw_note m ((rw_OnNewMessage (sm_channel_name m) w)\<lparr>rw_file_writer := Some (fw_WriteMessage m f)\<rparr>)"
  obtain cur ls where f: "reach (fw_start h) (fw_step bsz prompt) (f, cur)"
    "l = concat ls @ cur" "list_all2 (recording_of h bsz prompt) (map snd (rw_disk w)) ls" "rw_header w = h" "rw_is_opened w"
    using rs_message(1,5) by (auto simp: rw_inv_def)
  have "reach (fw_start h) (fw_step bsz prompt) (fw_WriteMessage m f, cur @ [m])"
    using f(1) rs_message(2) by (blast intro: reach_step fs_message)
  then have inv: "rw_inv h bsz prompt (?w, l @ [m])"
    using f unfolding rw_inv_def by (auto simp: rw_note_def rw_OnNewMessage_def Let_def)
  show ?case
  proof (cases "rw_full (sm_time m) ?w")
    case False
    then show ?thesis using rs_message(1,4) inv by (simp add: rw_write_def)
  next
    case True
    then obtain w1 where w1: "rw_finish bsz ?w = Some w1" "rw_SplitOutfile bsz w1 = Some w'"
      using rs_message(1,4) by (auto simp: rw_write_def split: bind_splits)
    have o: "rw_is_opened w1 = rw_is_opened ?w" using w1(1) by (auto simp: rw_finish_def split: option.splits if_splits bind_splits)
    show ?thesis using rw_finish_inv [OF inv w1(1)] rw_SplitOutfile_inv [OF w1(2)] o inv by (auto simp: rw_inv_def)
  qed
next
  case (rs_channel c ty ds w w' l)
  show ?case
  proof (cases "rw_IsNewChannel c w")
    case True
    obtain f cur ls where f: "rw_file_writer w = Some f" "reach (fw_start h) (fw_step bsz prompt) (f, cur)"
      "l = concat ls @ cur" "list_all2 (recording_of h bsz prompt) (map snd (rw_disk w)) ls" "rw_header w = h" "rw_is_opened w"
      using rs_channel(2) by (auto simp: rw_inv_def)
    obtain f' where f': "fw_WriteChannel bsz \<lparr>chn_name = c, chn_message_type = ty, chn_proto_desc = ds\<rparr> f = Some f'"
      "w' = (rw_OnNewChannel c ty ds w)\<lparr>rw_file_writer := Some f'\<rparr>"
      using rs_channel(1) True f(1) by (auto simp: rw_WriteChannel_def)
    have "reach (fw_start h) (fw_step bsz prompt) (f', cur)" using f(2) f'(1) by (blast intro: reach_step fs_channel)
    then show ?thesis using f f'(2) True unfolding rw_inv_def by (auto simp: rw_OnNewChannel_def)
  next
    case False
    then show ?thesis using rs_channel by (simp add: rw_WriteChannel_def)
  qed
next
  case (rs_flush w f f' l)
  then show ?case unfolding rw_inv_def by (fastforce intro: reach_step fs_flush)
qed

lemma rw_reach_inv: "reach (rw_start h file) (rw_step bsz prompt declared) wl \<Longrightarrow> rw_inv h bsz prompt wl"
  by (induction rule: reach.induct) (auto intro: rw_start_inv rw_step_inv)

lemma rw_Close_inv:
  assumes "rw_inv h bsz prompt (w, l)" and "rw_Close bsz w = Some w'"
  shows "\<exists>ls. l = concat ls \<and> list_all2 (recording_of h bsz prompt) (map snd (rw_disk w')) ls"
proof -
  obtain w1 where w1: "rw_finish bsz w = Some w1" "rw_disk w' = rw_disk w1"
    using assms by (auto simp: rw_Close_def rw_inv_def)
  show ?thesis using rw_finish_inv [OF assms(1) w1(1)] w1(2) by simp
qed

section \<open>Reading a session back\<close>

lemma recording_read:
  assumes "recording_of h bsz prompt d xs" and "hd_message_number h = 0" and "length xs < 2 ^ 64" and "file_end bsz (snd d) < 2 ^ 64"
  shows "mset (fst (rr_read_all 0 (- 1) (rr_open bsz d))) = mset xs \<and> (prompt \<longrightarrow> fst (rr_read_all 0 (- 1) (rr_open bsz d)) = xs)"
proof -
  obtain w w' where w: "reach (fw_start h) (fw_step bsz prompt) (w, xs)" "fw_Close bsz w = Some w'" "d = fw_file w'"
    using assms(1) by (auto simp: recording_of_def)
  have inv: "fw_inv bsz prompt (w, xs)" using fw_reach_inv [OF w(1) assms(2)] assms(3) by simp
  have "file_end bsz (fw_sections w') < 2 ^ 64" using assms(4) by (simp add: w(3) fw_file_def)
  note o = record_opened [OF inv assms(3) w(2) this]
  show ?thesis using rr_stream_all [OF o(1) o(5)] o(3,4) unfolding w(3) o(2) by simp
qed

lemma length_le_concat: "xs \<in> set ls \<Longrightarrow> length xs \<le> length (concat ls)"
  by (induction ls) auto

lemma recordings_read:
  assumes "list_all2 (recording_of h bsz prompt) ds ls" and "hd_message_number h = 0"
    and "\<forall>xs \<in> set ls. length xs < 2 ^ 64" and "\<forall>d \<in> set ds. file_end bsz (snd d) < 2 ^ 64"
  shows "mset (concat (map (\<lambda>d. fst (rr_read_all 0 (- 1) (rr_open bsz d))) ds)) = mset (concat ls)
    \<and> (prompt \<longrightarrow> concat (map (\<lambda>d. fst (rr_read_all 0 (- 1) (rr_open bsz d))) ds) = concat ls)"
  using assms(1,3,4)
proof (induction rule: list_all2_induct)
  case (Cons d ds xs ls)
  then show ?case using recording_read [OF Cons(1) assms(2)] by simp
qed simp

lemma rw_inv_Close:
  assumes inv: "rw_inv h bsz prompt (w, l)" and "hd_message_number h = 0" and "length l < 2 ^ 64"
  shows "\<exists>w'. rw_Close bsz w = Some w'"
proof -
  obtain f cur ls where f: "rw_file_writer w = Some f" "reach (fw_start h) (fw_step bsz prompt) (f, cur)" "l = concat ls @ cur"
    "rw_is_opened w"
    using inv by (auto simp: rw_inv_def)
  have "fw_inv bsz prompt (f, cur)" using fw_reach_inv [OF f(2) assms(2)] f(3) assms(3) by simp
  then obtain f' where "fw_Close bsz f = Some f'" using fw_Close_result [of bsz prompt f cur] f(3) assms(3) by auto
  then show ?thesis using f by (simp add: rw_Close_def rw_finish_def)
qed

text \<open>C8: A recording session survives its segmentation: whenever the writer starts a new file,
  however calls and the flush threads' turns interleave, \<open>Close\<close> succeeds, and reading the session's
  files one after the other gives exactly the messages that were recorded, each as often as it was,
  and in the order of recording when the flush threads kept up.\<close>

theorem segments_keep_messages:
  assumes "reach (rw_start h file) (rw_step bsz prompt declared) (w, l)" and "hd_message_number h = 0" and "length l < 2 ^ 64"
  shows "\<exists>w'. rw_Close bsz w = Some w' \<and> ((\<forall>d \<in> set (map snd (rw_disk w')). file_end bsz (snd d) < 2 ^ 64) \<longrightarrow>
     (let ms = concat (map (\<lambda>d. fst (rr_read_all 0 (- 1) (rr_open bsz d))) (map snd (rw_disk w'))) in
        mset ms = mset l \<and> (prompt \<longrightarrow> ms = l)))"
proof -
  have inv: "rw_inv h bsz prompt (w, l)" by (rule rw_reach_inv [OF assms(1)])
  obtain w' where w': "rw_Close bsz w = Some w'" using rw_inv_Close [OF inv assms(2,3)] ..
  obtain ls where ls: "l = concat ls" "list_all2 (recording_of h bsz prompt) (map snd (rw_disk w')) ls"
    using rw_Close_inv [OF inv w'] by blast
  have "\<forall>xs \<in> set ls. length xs < 2 ^ 64" using assms(3) length_le_concat [of _ ls] unfolding ls(1) by (meson order_le_less_trans)
  then show ?thesis using w' recordings_read [OF ls(2) assms(2)] unfolding ls(1) Let_def by blast
qed

text \<open>C6: A session that was recorded while the flush thread kept up can be viewed. A viewer over all the files
  that the session left ends and shows exactly the messages of the session that are in the interval and on a
  wanted channel, in the order of times, across the borders of the segments. The conditions: a message comes
  only when the chunk for the flush thread is empty (\<open>rw_step\<close> with \<open>True\<close>); the messages come in the order
  of their times, none of which is 0 (\<open>timely\<close>); the header given has no message number and no begin time;
  there are fewer than $2^{64}$ messages, no file reaches $2^{64}$ bytes, and a second and a nanosecond after
  each file's end time is still a 64-bit time. Without the first condition it fails: \<open>WriteMessage\<close> swaps the
  chunks while the older one waits, and messages cannot be found by their times (theorem
  \<open>record_race_hides_messages\<close> of \<open>Record_Roundtrip\<close>).\<close>

theorem session_can_be_viewed:
  assumes "reach (rw_start h file) (rw_step bsz True declared) (w, l)" and "hd_message_number h = 0" and "hd_begin_time h = 0"
    and "length l < 2 ^ 64" and "timely l" and "rw_Close bsz w = Some w'"
    and "\<forall>d \<in> set (map snd (rw_disk w')). file_end bsz (snd d) < 2 ^ 64 \<and> unat (hd_end_time (fst d)) + 1000000001 < 2 ^ 64"
  shows "\<exists>ms. rv_messages (rv_new (map (rr_open bsz) (map snd (rw_disk w'))) b e channels) = Some ms \<and> sorted (map sm_time ms)
    \<and> mset ms = mset (filter (\<lambda>m. inside b e m \<and> (channels = {} \<or> sm_channel_name m \<in> channels)) l)"
proof -
  have inv: "rw_inv h bsz True (w, l)" by (rule rw_reach_inv [OF assms(1)])
  obtain ls where ls: "l = concat ls" "list_all2 (recording_of h bsz True) (map snd (rw_disk w')) ls"
    using rw_Close_inv [OF inv assms(6)] by blast
  have len: "length xs < 2 ^ 64" if "xs \<in> set ls" for xs
    using that assms(4) length_le_concat [of xs ls] unfolding ls(1) by (meson order_le_less_trans)
  have t: "timely xs" if "xs \<in> set ls" for xs
    using that assms(5) unfolding ls(1) by (induction ls) (auto simp: timely_append)
  have "recorded bsz d xs" if "recording_of h bsz True d xs" "xs \<in> set ls" "d \<in> set (map snd (rw_disk w'))" for d xs
  proof -
    obtain v v' where v: "reach (fw_start h) (fw_step bsz True) (v, xs)" "fw_Close bsz v = Some v'" "d = fw_file v'"
      using \<open>recording_of h bsz True d xs\<close> by (auto simp: recording_of_def)
    moreover have "file_end bsz (fw_sections v') < 2 ^ 64" using assms(7) that(3) v(3) by (auto simp: fw_file_def)
    ultimately show ?thesis unfolding recorded_def using assms(2,3) len [OF that(2)] t [OF that(2)] by blast
  qed
  then have "list_all2 (recorded bsz) (map snd (rw_disk w')) ls"
    by (rule list.rel_mono_strong [OF ls(2)])
  from rv_messages_recorded [OF this] show ?thesis using assms(7) unfolding ls(1) by blast
qed

section \<open>The channels of the segments\<close>

definition rw_chans :: "record_writer \<Rightarrow> channel list" where
  "rw_chans w = map (\<lambda>c. \<lparr>chn_name = c, chn_message_type = rw_GetMessageType c w, chn_proto_desc = rw_GetProtoDesc c w\<rparr>)
     (map fst (rw_numbers w))"

definition covers :: "single_message list \<Rightarrow> rec_section list \<Rightarrow> bool" where
  "covers l ss \<longleftrightarrow> (\<forall>m \<in> set l. sm_channel_name m \<in> chn_name ` set (sec_channels ss))"

definition seg_ok :: "rec_header \<Rightarrow> (rec_section \<Rightarrow> nat) \<Rightarrow> bool \<Rightarrow> channel list \<Rightarrow> rec_file \<Rightarrow> single_message list \<Rightarrow> bool" where
  "seg_ok h bsz prompt chs d xs \<longleftrightarrow> recording_of h bsz prompt d xs \<and> covers xs (snd d) \<and> (\<exists>n. sec_channels (snd d) = take n chs)"

definition rw_chan_inv :: "rec_header \<Rightarrow> (rec_section \<Rightarrow> nat) \<Rightarrow> bool \<Rightarrow> record_writer \<times> single_message list \<Rightarrow> bool" where
  "rw_chan_inv h bsz prompt wl \<longleftrightarrow> (case wl of (w, l) \<Rightarrow> distinct (map fst (rw_numbers w)) \<and>
     (\<exists>f cur ls. rw_file_writer w = Some f \<and> reach (fw_start h) (fw_step bsz prompt) (f, cur) \<and> rw_header w = h
       \<and> l = concat ls @ cur \<and> covers cur (fw_sections f) \<and> sec_channels (fw_sections f) = rw_chans w
       \<and> list_all2 (seg_ok h bsz prompt (rw_chans w)) (map snd (rw_disk w)) ls))"

lemma fw_Flush_channels: "fw_Flush bsz f = Some f' \<Longrightarrow> sec_channels (fw_sections f') = sec_channels (fw_sections f)"
  by (auto simp: fw_Flush_def fw_WriteChunk_def fw_WriteSection_def fw_add_index_def Let_def sec_channels_append split: if_splits bind_splits)

lemma fw_WriteMessage_channels [simp]: "fw_sections (fw_WriteMessage m f) = fw_sections f"
  by (simp add: fw_WriteMessage_def fw_count_def fw_swap_def Let_def)

lemma fw_WriteChannel_channels: "fw_WriteChannel bsz c f = Some f' \<Longrightarrow> sec_channels (fw_sections f') = sec_channels (fw_sections f) @ [c]"
  by (auto simp: fw_WriteChannel_def fw_WriteSection_def fw_add_index_def Let_def sec_channels_append split: if_splits bind_splits)

lemma fw_Close_channels: "fw_Close bsz f = Some f' \<Longrightarrow> sec_channels (snd (fw_file f')) = sec_channels (fw_sections f)"
  by (auto simp: fw_Close_def fw_WriteIndex_def fw_WriteSection_def fw_WriteHeader_def fw_file_def fw_swap_def Let_def sec_channels_append
      split: if_splits bind_splits dest!: fw_Flush_channels)

lemma rw_write_channels_channels:
  "rw_write_channels bsz ty ds cs f = Some f' \<Longrightarrow> sec_channels (fw_sections f') = sec_channels (fw_sections f) @
     map (\<lambda>c. \<lparr>chn_name = c, chn_message_type = (case ty c of Some t \<Rightarrow> t | None \<Rightarrow> []),
       chn_proto_desc = (case ds c of Some d \<Rightarrow> d | None \<Rightarrow> [])\<rparr>) cs"
  by (induction bsz ty ds cs f rule: rw_write_channels.induct) (auto split: bind_splits dest: fw_WriteChannel_channels)

lemma rw_chans_note [simp]: "rw_chans (rw_note m w) = rw_chans w"
  by (simp add: rw_chans_def rw_note_def rw_GetMessageType_def rw_GetProtoDesc_def Let_def)

lemma rw_OnNewMessage_names: "map fst (rw_numbers (rw_OnNewMessage c w)) = map fst (rw_numbers w)"
  by (simp add: rw_OnNewMessage_def case_prod_unfold comp_def)

lemma rw_chans_writer [simp]: "rw_chans (w\<lparr>rw_file_writer := f\<rparr>) = rw_chans w"
  by (simp add: rw_chans_def rw_GetMessageType_def rw_GetProtoDesc_def)

lemma rw_chans_message [simp]: "rw_chans (rw_OnNewMessage c w) = rw_chans w"
  unfolding rw_chans_def rw_OnNewMessage_names
  by (simp add: rw_GetMessageType_def rw_GetProtoDesc_def rw_OnNewMessage_def)

lemma rw_chans_new: "rw_IsNewChannel c w \<Longrightarrow>
  rw_chans (rw_OnNewChannel c ty ds w) = rw_chans w @ [\<lparr>chn_name = c, chn_message_type = ty, chn_proto_desc = ds\<rparr>]"
  by (auto simp: rw_chans_def rw_OnNewChannel_def rw_IsNewChannel_def map_of_eq_None_iff rw_GetMessageType_def rw_GetProtoDesc_def)

lemma rw_known: "\<not> rw_IsNewChannel c w \<longleftrightarrow> c \<in> chn_name ` set (rw_chans w)"
  by (auto simp: rw_IsNewChannel_def rw_chans_def map_of_eq_None_iff image_iff)

lemma rw_start_chan: "rw_chan_inv h bsz prompt (rw_start h file)"
proof -
  have "reach (fw_start h) (fw_step bsz prompt) (fw_WriteHeader h (fw_Open h), [])"
    using reach_init [of "fw_start h"] by (simp add: fw_start_def)
  then show ?thesis
    by (force simp: rw_chan_inv_def rw_start_def rw_Open_def rw_finish_def rw_new_def Let_def covers_def rw_chans_def
      fw_WriteHeader_def fw_Open_def)
qed

lemma rw_finish_chan:
  assumes inv: "rw_chan_inv h bsz prompt (w, l)" and fin: "rw_finish bsz w = Some w1"
  shows "\<exists>ls. l = concat ls \<and> list_all2 (seg_ok h bsz prompt (rw_chans w)) (map snd (rw_disk w1)) ls" and "rw_header w1 = h"
    and "rw_chans w1 = rw_chans w" and "rw_numbers w1 = rw_numbers w" and "distinct (map fst (rw_numbers w))"
proof -
  obtain f cur ls where f: "rw_file_writer w = Some f" "reach (fw_start h) (fw_step bsz prompt) (f, cur)" "l = concat ls @ cur"
    "covers cur (fw_sections f)" "sec_channels (fw_sections f) = rw_chans w" "rw_header w = h"
    "list_all2 (seg_ok h bsz prompt (rw_chans w)) (map snd (rw_disk w)) ls" and d: "distinct (map fst (rw_numbers w))"
    using inv by (auto simp: rw_chan_inv_def)
  obtain f' where f': "fw_Close bsz f = Some f'" "w1 = w\<lparr>rw_file_writer := Some f', rw_disk := rw_disk w @ [(rw_path w, fw_file f')]\<rparr>"
    using fin f(1) recorded_is_writing [OF f(2)] by (auto simp: rw_finish_def split: bind_splits)
  have "recording_of h bsz prompt (fw_file f') cur" using f(2) f'(1) unfolding recording_of_def by blast
  moreover have "\<exists>n. sec_channels (snd (fw_file f')) = take n (rw_chans w)"
    by (rule exI [of _ "length (rw_chans w)"]) (use fw_Close_channels [OF f'(1)] f(5) in simp)
  moreover have "covers cur (snd (fw_file f'))" using f(4) fw_Close_channels [OF f'(1)] by (simp add: covers_def)
  ultimately have "seg_ok h bsz prompt (rw_chans w) (fw_file f') cur" unfolding seg_ok_def by blast
  then have "list_all2 (seg_ok h bsz prompt (rw_chans w)) (map snd (rw_disk w1)) (ls @ [cur])"
    using f(7) by (simp add: f'(2) list_all2_appendI)
  moreover have "l = concat (ls @ [cur])" using f(3) by simp
  ultimately show "\<exists>ls. l = concat ls \<and> list_all2 (seg_ok h bsz prompt (rw_chans w)) (map snd (rw_disk w1)) ls" by blast
  show "rw_header w1 = h" "rw_chans w1 = rw_chans w" "rw_numbers w1 = rw_numbers w" "distinct (map fst (rw_numbers w))"
    using f(6) d by (simp_all add: f'(2) rw_chans_def rw_GetMessageType_def rw_GetProtoDesc_def)
qed

lemma rw_split_chan:
  assumes inv: "rw_chan_inv h bsz prompt (w, l)" and fin: "rw_finish bsz w = Some w1" and split: "rw_SplitOutfile bsz w1 = Some w'"
  shows "rw_chan_inv h bsz prompt (w', l)"
proof -
  note fc = rw_finish_chan [OF inv fin]
  obtain g where g: "rw_write_channels bsz (rw_types w1) (rw_descs w1) (map fst (rw_numbers w1)) (fw_WriteHeader h (fw_Open h)) = Some g"
    "rw_file_writer w' = Some g" "rw_header w' = h" "rw_disk w' = rw_disk w1" "rw_chans w' = rw_chans w1" "rw_numbers w' = rw_numbers w1"
    using split fc(2) by (auto simp: rw_SplitOutfile_def Let_def rw_chans_def rw_GetMessageType_def rw_GetProtoDesc_def)
  have "reach (fw_start h) (fw_step bsz prompt) (fw_WriteHeader h (fw_Open h), [])"
    using reach_init [of "fw_start h"] by (simp add: fw_start_def)
  then have r: "reach (fw_start h) (fw_step bsz prompt) (g, [])" by (rule rw_write_channels_reach [OF g(1)])
  have cg: "sec_channels (fw_sections g) = rw_chans w1"
    using rw_write_channels_channels [OF g(1)]
    by (simp add: rw_chans_def rw_GetMessageType_def rw_GetProtoDesc_def fw_WriteHeader_def fw_Open_def)
  obtain ls where ls: "l = concat ls" "list_all2 (seg_ok h bsz prompt (rw_chans w)) (map snd (rw_disk w1)) ls" using fc(1) by blast
  have "covers [] (fw_sections g)" by (simp add: covers_def)
  then show ?thesis unfolding rw_chan_inv_def using g r cg fc(3-5) ls by auto
qed

lemma rw_step_chan:
  assumes "rw_step bsz prompt True a b" and "rw_chan_inv h bsz prompt a"
  shows "rw_chan_inv h bsz prompt b"
  using assms
proof (induction rule: rw_step.induct)
  case (rs_message w f m w' l)
  let ?w = "rw_note m ((rw_OnNewMessage (sm_channel_name m) w)\<lparr>rw_file_writer := Some (fw_WriteMessage m f)\<rparr>)"
  obtain cur ls where f: "reach (fw_start h) (fw_step bsz prompt) (f, cur)" "l = concat ls @ cur"
    "covers cur (fw_sections f)" "sec_channels (fw_sections f) = rw_chans w" "rw_header w = h"
    "list_all2 (seg_ok h bsz prompt (rw_chans w)) (map snd (rw_disk w)) ls" and d: "distinct (map fst (rw_numbers w))"
    using rs_message(1,5) by (auto simp: rw_chan_inv_def)
  have "sm_channel_name m \<in> chn_name ` set (rw_chans w)" using rs_message(3) rw_known by blast
  then have c: "covers (cur @ [m]) (fw_sections (fw_WriteMessage m f))" using f(3,4) by (auto simp: covers_def)
  have r: "reach (fw_start h) (fw_step bsz prompt) (fw_WriteMessage m f, cur @ [m])"
    using f(1) rs_message(2) by (blast intro: reach_step fs_message)
  have "rw_file_writer ?w = Some (fw_WriteMessage m f)" "rw_header ?w = h" "rw_disk ?w = rw_disk w"
    using f(5) by (simp_all add: rw_note_def rw_OnNewMessage_def Let_def)
  moreover have "map fst (rw_numbers ?w) = map fst (rw_numbers w)"
    using rw_OnNewMessage_names [of "sm_channel_name m" w] by (simp add: rw_note_def Let_def del: list.map_comp)
  moreover have "rw_chans ?w = rw_chans w" by simp
  ultimately have inv: "rw_chan_inv h bsz prompt (?w, l @ [m])"
    unfolding rw_chan_inv_def using c r f(2,4,6) d by (auto intro!: exI [of _ ls])
  show ?case
  proof (cases "rw_full (sm_time m) ?w")
    case False
    then show ?thesis using rs_message(1,4) inv by (simp add: rw_write_def)
  next
    case True
    then obtain w1 where w1: "rw_finish bsz ?w = Some w1" "rw_SplitOutfile bsz w1 = Some w'"
      using rs_message(1,4) by (auto simp: rw_write_def split: bind_splits)
    show ?thesis by (rule rw_split_chan [OF inv w1])
  qed
next
  case (rs_channel c ty ds w w' l)
  show ?case
  proof (cases "rw_IsNewChannel c w")
    case True
    obtain f cur ls where f: "rw_file_writer w = Some f" "reach (fw_start h) (fw_step bsz prompt) (f, cur)" "l = concat ls @ cur"
      "covers cur (fw_sections f)" "sec_channels (fw_sections f) = rw_chans w" "rw_header w = h"
      "list_all2 (seg_ok h bsz prompt (rw_chans w)) (map snd (rw_disk w)) ls" and d: "distinct (map fst (rw_numbers w))"
      using rs_channel(2) by (auto simp: rw_chan_inv_def)
    obtain f' where f': "fw_WriteChannel bsz \<lparr>chn_name = c, chn_message_type = ty, chn_proto_desc = ds\<rparr> f = Some f'"
      "w' = (rw_OnNewChannel c ty ds w)\<lparr>rw_file_writer := Some f'\<rparr>"
      using rs_channel(1) True f(1) by (auto simp: rw_WriteChannel_def)
    have r: "reach (fw_start h) (fw_step bsz prompt) (f', cur)" using f(2) f'(1) by (blast intro: reach_step fs_channel)
    have ch: "rw_chans w' = rw_chans w @ [\<lparr>chn_name = c, chn_message_type = ty, chn_proto_desc = ds\<rparr>]"
      using rw_chans_new [OF True] by (simp add: f'(2))
    have sec: "sec_channels (fw_sections f') = rw_chans w'" using fw_WriteChannel_channels [OF f'(1)] f(5) ch by simp
    have cov: "covers cur (fw_sections f')" using f(4) fw_WriteChannel_channels [OF f'(1)] by (auto simp: covers_def)
    have "list_all2 (seg_ok h bsz prompt (rw_chans w')) (map snd (rw_disk w)) ls"
    proof (rule list_all2_mono [OF f(7)])
      fix d xs
      assume "seg_ok h bsz prompt (rw_chans w) d xs"
      then obtain n where "recording_of h bsz prompt d xs" "covers xs (snd d)" and n: "sec_channels (snd d) = take n (rw_chans w)"
        unfolding seg_ok_def by blast
      moreover have "take n (rw_chans w) = take (min n (length (rw_chans w))) (rw_chans w')"
        by (cases "n \<le> length (rw_chans w)") (simp_all add: ch min_def)
      ultimately show "seg_ok h bsz prompt (rw_chans w') d xs"
        unfolding seg_ok_def by metis
    qed
    moreover have "rw_disk w' = rw_disk w" "rw_header w' = h" "rw_file_writer w' = Some f'" "rw_numbers w' = rw_numbers w @ [(c, 0)]"
      using f(6) True by (simp_all add: f'(2) rw_OnNewChannel_def)
    ultimately show ?thesis
      unfolding rw_chan_inv_def using r sec cov f(3) d True by (auto simp: rw_IsNewChannel_def map_of_eq_None_iff)
  next
    case False
    then show ?thesis using rs_channel by (simp add: rw_WriteChannel_def)
  qed
next
  case (rs_flush w f f' l)
  then show ?case unfolding rw_chan_inv_def
    by (fastforce simp: covers_def fw_Flush_channels intro: reach_step fs_flush)
qed

lemma rw_reach_chan: "reach (rw_start h file) (rw_step bsz prompt True) wl \<Longrightarrow> rw_chan_inv h bsz prompt wl"
  by (induction rule: reach.induct) (auto intro: rw_start_chan rw_step_chan)

lemma list_all2_in: "list_all2 P xs ys \<Longrightarrow> x \<in> set xs \<Longrightarrow> \<exists>y \<in> set ys. P x y"
  by (induction rule: list_all2_induct) auto

lemma find_chan:
  "distinct cs \<Longrightarrow> c \<in> set (take n cs) \<Longrightarrow>
    find (\<lambda>x. cc_name x = c) (map (\<lambda>ch. cache_of (k ch) ch) (take n (map (\<lambda>c. \<lparr>chn_name = c, chn_message_type = t c, chn_proto_desc = d c\<rparr>) cs)))
     = Some (cache_of (k \<lparr>chn_name = c, chn_message_type = t c, chn_proto_desc = d c\<rparr>) \<lparr>chn_name = c, chn_message_type = t c, chn_proto_desc = d c\<rparr>)"
proof (induction cs arbitrary: n)
  case (Cons a cs)
  show ?case
  proof (cases n)
    case (Suc n')
    then show ?thesis using Cons.IH [of n'] Cons.prems by (auto simp: cache_of_def)
  qed (use Cons.prems in simp)
qed simp

text \<open>C11: Every file of a session can be read without the others: when messages are written on
  registered channels only, the index of each of the session's files has the channel of every
  message in that file, with the message type and the descriptor it was registered with, although
  most of them were registered while an earlier file was the current one.\<close>

theorem segments_self_contained:
  assumes "reach (rw_start h file) (rw_step bsz prompt True) (w, l)" and "hd_message_number h = 0" and "length l < 2 ^ 64"
    and "rw_Close bsz w = Some w'" and "d \<in> set (map snd (rw_disk w'))" and "file_end bsz (snd d) < 2 ^ 64"
    and "m \<in> set (fst (rr_read_all 0 (- 1) (rr_open bsz d)))"
  shows "let r = rr_open bsz d; c = sm_channel_name m in
    c \<in> rr_GetChannelList r \<and> rr_GetMessageType c r = rw_GetMessageType c w \<and> rr_GetProtoDesc c r = rw_GetProtoDesc c w"
proof -
  have inv: "rw_chan_inv h bsz prompt (w, l)" by (rule rw_reach_chan [OF assms(1)])
  obtain w1 where w1: "rw_finish bsz w = Some w1" "rw_disk w' = rw_disk w1"
    using assms(4) rw_reach_inv [OF assms(1)] by (auto simp: rw_Close_def rw_inv_def)
  note fc = rw_finish_chan [OF inv w1(1)]
  obtain ls where ls: "l = concat ls" "list_all2 (seg_ok h bsz prompt (rw_chans w)) (map snd (rw_disk w1)) ls" using fc(1) by blast
  obtain xs where xs: "xs \<in> set ls" "seg_ok h bsz prompt (rw_chans w) d xs"
    using list_all2_in [OF ls(2)] assms(5) unfolding w1(2) by blast
  then obtain n where n: "covers xs (snd d)" "sec_channels (snd d) = take n (rw_chans w)" "recording_of h bsz prompt d xs"
    by (auto simp: seg_ok_def)
  have len: "length xs < 2 ^ 64" using xs(1) assms(3) length_le_concat [of xs ls] unfolding ls(1) by simp
  obtain v v' where v: "reach (fw_start h) (fw_step bsz prompt) (v, xs)" "fw_Close bsz v = Some v'" "d = fw_file v'"
    using n(3) by (auto simp: recording_of_def)
  have vi: "fw_inv bsz prompt (v, xs)" using fw_reach_inv [OF v(1) assms(2)] len by simp
  have size: "file_end bsz (fw_sections v') < 2 ^ 64" using assms(6) by (simp add: v(3) fw_file_def)
  have "mset (fst (rr_read_all 0 (- 1) (rr_open bsz d))) = mset xs"
    using recording_read [OF n(3) assms(2) len assms(6)] by blast
  then have "m \<in> set xs" using assms(7) by (metis set_mset_mset)
  then have "sm_channel_name m \<in> set (take n (map fst (rw_numbers w)))"
    using n(1) unfolding covers_def n(2) rw_chans_def take_map by (force simp: image_iff)
  from find_chan [OF fc(5) this] show ?thesis
    using record_channel_info [OF vi len v(2) size, of "sm_channel_name m"] n(2)
    by (simp add: v(3) fw_file_def rw_chans_def rr_GetChannelList_def rr_GetMessageType_def rr_GetProtoDesc_def cache_of_def dom_def Let_def)
qed

section \<open>The names of the files\<close>

definition digits_value :: "string \<Rightarrow> nat" where
  "digits_value = foldl (\<lambda>v c. 10 * v + (of_char c - 48)) 0"

lemma foldl_zeros: "foldl (\<lambda>v c. 10 * v + (of_char c - 48)) (0 :: nat) (replicate k (CHR ''0'')) = 0"
  by (induction k) simp_all

lemma digits_value_dec: "digits_value (dec n) = n"
proof (induction n rule: dec.induct)
  case (1 n)
  show ?case
  proof (cases "n < 10")
    case True
    then show ?thesis by (simp add: dec.simps [of n] digits_value_def)
  next
    case False
    then have "digits_value (dec n) = 10 * digits_value (dec (n div 10)) + n mod 10"
      by (subst dec.simps) (simp add: digits_value_def)
    then show ?thesis using 1 False by simp
  qed
qed

lemma rw_suffix_inj: "rw_suffix i = rw_suffix j \<longleftrightarrow> i = j"
proof
  have v: "digits_value (tl (rw_suffix k)) = unat k" for k
    using digits_value_dec [of "unat k"] by (simp add: rw_suffix_def Let_def digits_value_def foldl_zeros)
  assume "rw_suffix i = rw_suffix j"
  then have "digits_value (tl (rw_suffix i)) = digits_value (tl (rw_suffix j))" by simp
  then show "i = j" unfolding v by (rule unsigned_word_eqI)
qed simp

definition segmented :: "rec_header \<Rightarrow> bool" where
  "segmented h \<longleftrightarrow> 0 < hd_segment_interval h \<or> 0 < hd_segment_raw_size h"

definition seg_path :: "rec_header \<Rightarrow> string \<Rightarrow> nat \<Rightarrow> string" where
  "seg_path h file i = (if segmented h then file @ rw_suffix (of_nat i) else file)"

definition rw_names_inv :: "rec_header \<Rightarrow> string \<Rightarrow> record_writer \<Rightarrow> bool" where
  "rw_names_inv h file w \<longleftrightarrow> rw_header w = h \<and> rw_file w = file \<and> (\<not> segmented h \<longrightarrow> rw_disk w = [])
     \<and> (length (rw_disk w) < 100000 \<longrightarrow> rw_file_index w = of_nat (Suc (length (rw_disk w)))
          \<and> rw_path w = seg_path h file (length (rw_disk w))
          \<and> map fst (rw_disk w) = map (seg_path h file) [0..<length (rw_disk w)])"

lemma rw_start_names: "rw_names_inv h file (fst (rw_start h file))"
  by (simp add: rw_names_inv_def rw_start_def rw_Open_def rw_finish_def rw_new_def seg_path_def segmented_def Let_def)

lemma rw_split_names:
  assumes inv: "rw_names_inv h file w" and "segmented h" and fin: "rw_finish bsz w = Some w1" and split: "rw_SplitOutfile bsz w1 = Some w'"
    and f: "rw_file_writer w = Some f" "fw_is_writing f"
  shows "rw_names_inv h file w'"
proof -
  obtain f' where w1: "w1 = w\<lparr>rw_file_writer := Some f', rw_disk := rw_disk w @ [(rw_path w, fw_file f')]\<rparr>"
    using fin f by (auto simp: rw_finish_def split: bind_splits)
  have w': "rw_header w' = h" "rw_file w' = file" "rw_disk w' = rw_disk w1"
    "rw_file_index w' = (if 99999 < rw_file_index w then 0 else rw_file_index w) + 1"
    "rw_path w' = file @ rw_suffix (if 99999 < rw_file_index w then 0 else rw_file_index w)"
    using split inv by (auto simp: rw_SplitOutfile_def Let_def w1 rw_names_inv_def)
  show ?thesis
  proof (cases "length (rw_disk w') < 100000")
    case False
    then show ?thesis using w'(1,2) assms(2) by (simp add: rw_names_inv_def)
  next
    case True
    let ?n = "length (rw_disk w)"
    have n: "Suc ?n < 100000" using True by (simp add: w'(3) w1)
    then have i: "rw_file_index w = of_nat (Suc ?n)" "rw_path w = seg_path h file ?n" "map fst (rw_disk w) = map (seg_path h file) [0..<?n]"
      using inv by (simp_all add: rw_names_inv_def)
    have "\<not> 99999 < rw_file_index w" using n unfolding i(1) by (simp add: word_less_nat_alt unat_of_nat del: of_nat_Suc)
    then show ?thesis using w' i assms(2) by (simp add: rw_names_inv_def w1 seg_path_def)
  qed
qed

lemma rw_step_names:
  assumes "rw_step bsz prompt declared a b" and "rw_names_inv h file (fst a)" and "rw_inv h bsz prompt a"
  shows "rw_names_inv h file (fst b)"
  using assms
proof (induction rule: rw_step.induct)
  case (rs_message w f m w' l)
  let ?w = "rw_note m ((rw_OnNewMessage (sm_channel_name m) w)\<lparr>rw_file_writer := Some (fw_WriteMessage m f)\<rparr>)"
  have inv: "rw_names_inv h file ?w"
    using rs_message(5) by (simp add: rw_names_inv_def rw_note_def rw_OnNewMessage_def Let_def)
  show ?case
  proof (cases "rw_full (sm_time m) ?w")
    case False
    then show ?thesis using rs_message(1,4) inv by (simp add: rw_write_def)
  next
    case True
    then obtain w1 where w1: "rw_finish bsz ?w = Some w1" "rw_SplitOutfile bsz w1 = Some w'"
      using rs_message(1,4) by (auto simp: rw_write_def split: bind_splits)
    obtain cur where "reach (fw_start h) (fw_step bsz prompt) (f, cur)" using rs_message(1,6) by (auto simp: rw_inv_def)
    then have "fw_is_writing (fw_WriteMessage m f)"
      using recorded_is_writing by (force simp: fw_WriteMessage_def fw_count_def fw_swap_def Let_def)
    moreover have "segmented h" using True inv by (auto simp: rw_full_def segmented_def rw_names_inv_def)
    ultimately show ?thesis using rw_split_names [OF inv _ w1] by (simp add: rw_note_def Let_def)
  qed
qed (auto simp: rw_names_inv_def rw_WriteChannel_def rw_OnNewChannel_def split: if_splits option.splits)

text \<open>No file of a session is written over by a later one: for up to 100000 files (the counter in
  the names then starts again, as the code warns), the paths of the files that were closed and of the
  one being written are all different.\<close>

theorem segment_files_distinct:
  assumes "reach (rw_start h file) (rw_step bsz prompt declared) (w, l)" and "length (rw_disk w) < 100000"
  shows "distinct (map fst (rw_disk w) @ [rw_path w])"
proof -
  have "reach (rw_start h file) (rw_step bsz prompt declared) wl \<Longrightarrow> rw_names_inv h file (fst wl)" for wl
    by (induction rule: reach.induct) (auto intro: rw_start_names rw_step_names rw_reach_inv)
  from this [OF assms(1)] have inv: "rw_names_inv h file w" by simp
  let ?n = "length (rw_disk w)"
  have "map fst (rw_disk w) @ [rw_path w] = map (seg_path h file) [0..<Suc ?n]" using inv assms(2) by (simp add: rw_names_inv_def)
  moreover have "inj_on (seg_path h file) {0..<Suc ?n}"
  proof (cases "segmented h")
    case True
    show ?thesis
    proof (rule inj_onI)
      fix i j assume i: "i \<in> {0..<Suc ?n}" and j: "j \<in> {0..<Suc ?n}" and "seg_path h file i = seg_path h file j"
      then have "(of_nat i :: u32) = of_nat j" using True by (simp add: seg_path_def rw_suffix_inj)
      then have "unat (of_nat i :: u32) = unat (of_nat j :: u32)" by simp
      then show "i = j" using i j assms(2) by (simp add: unat_of_nat)
    qed
  next
    case False
    then have "?n = 0" using inv by (simp add: rw_names_inv_def)
    then show ?thesis by simp
  qed
  ultimately show ?thesis by (simp only: distinct_map distinct_upt set_upt simp_thms)
qed

section \<open>A writer that is opened again\<close>

text \<open>A writer that is opened for a second file forgets to write its channels: \<open>Open\<close> does not
  clear the registered channels and, unlike the start of a segment, does not write them into the new
  file, so a channel that was registered before is taken for a duplicate and never gets into it.\<close>

theorem reopened_writer_omits_channels:
  assumes "rw_Open bsz g w = Some w1" and "\<not> rw_IsNewChannel c w"
  shows "rw_WriteChannel bsz c ty ds w1 = Some w1 \<and> (\<exists>f. rw_file_writer w1 = Some f \<and> sec_channels (fw_sections f) = [])"
  using assms
  by (auto simp: rw_Open_def rw_finish_def rw_WriteChannel_def rw_IsNewChannel_def fw_WriteHeader_def fw_Open_def Let_def
      split: bind_splits option.splits if_splits)

section \<open>A concrete session\<close>

text \<open>A segment ends after more than three bytes of content.\<close>

definition rec_m3 :: single_message where "rec_m3 = \<lparr>sm_channel_name = ''c'', sm_time = 9, sm_content = ''c''\<rparr>"
definition ses_h :: rec_header where "ses_h = GetHeaderWithSegmentParams 0 3"
definition ses_1 :: record_writer where "ses_1 = the (rw_WriteChannel rec_size ''c'' ''t'' ''d'' (fst (rw_start ses_h ''f'')))"
definition ses_2 :: record_writer where "ses_2 = the (rw_write rec_size rec_m1 ses_1)"
definition ses_3 :: record_writer where "ses_3 = the (rw_write rec_size rec_m2 ses_2)"
definition ses_4 :: record_writer where "ses_4 = the (rw_write rec_size rec_m3 ses_3)"
definition ses_5 :: record_writer where "ses_5 = the (rw_Close rec_size ses_4)"

lemma ses_flush: "Chunk_empty (fw_flush (the (rw_file_writer ses_1)))" "Chunk_empty (fw_flush (the (rw_file_writer ses_2)))"
  "Chunk_empty (fw_flush (the (rw_file_writer ses_3)))"
  by code_simp+

lemma ses_writer: "rw_file_writer ses_1 \<noteq> None" "rw_file_writer ses_2 \<noteq> None" "rw_file_writer ses_3 \<noteq> None"
  by code_simp+

lemma ses_known: "\<not> rw_IsNewChannel ''c'' ses_1" "\<not> rw_IsNewChannel ''c'' ses_2" "\<not> rw_IsNewChannel ''c'' ses_3"
  by code_simp+

lemma ses_defined: "rw_WriteChannel rec_size ''c'' ''t'' ''d'' (fst (rw_start ses_h ''f'')) \<noteq> None"
  "rw_write rec_size rec_m1 ses_1 \<noteq> None" "rw_write rec_size rec_m2 ses_2 \<noteq> None" "rw_write rec_size rec_m3 ses_3 \<noteq> None"
  "rw_Close rec_size ses_4 \<noteq> None"
  by code_simp+

lemma ses_message:
  assumes "reach s (rw_step rec_size True True) (w, l)" and "rw_file_writer w \<noteq> None" and "Chunk_empty (fw_flush (the (rw_file_writer w)))"
    and "\<not> rw_IsNewChannel (sm_channel_name m) w" and "rw_write rec_size m w \<noteq> None"
  shows "reach s (rw_step rec_size True True) (the (rw_write rec_size m w), l @ [m])"
proof -
  obtain f w' where "rw_file_writer w = Some f" "rw_write rec_size m w = Some w'" using assms(2,5) by blast
  then have "rw_step rec_size True True (w, l) (the (rw_write rec_size m w), l @ [m])"
    using rs_message [of w f True True m rec_size w' l] assms(3,4) by simp
  then show ?thesis by (rule reach_step [OF assms(1)])
qed

lemma ses_reach: "reach (rw_start ses_h ''f'') (rw_step rec_size True True) (ses_4, [rec_m1, rec_m2, rec_m3])"
proof -
  let ?R = "reach (rw_start ses_h ''f'') (rw_step rec_size True True)"
  have c: "sm_channel_name rec_m1 = ''c''" "sm_channel_name rec_m2 = ''c''" "sm_channel_name rec_m3 = ''c''"
    by (simp_all add: rec_m1_def rec_m2_def rec_m3_def)
  have "rw_step rec_size True True (fst (rw_start ses_h ''f''), []) (ses_1, [])"
    by (rule rs_channel [of _ "''c''" "''t''" "''d''"]) (use ses_defined(1) in \<open>auto simp: ses_1_def\<close>)
  moreover have "rw_start ses_h ''f'' = (fst (rw_start ses_h ''f''), [])" by (simp add: rw_start_def)
  ultimately have r1: "?R (ses_1, [])" by (metis reach_one)
  from ses_message [OF r1 ses_writer(1) ses_flush(1) _ ses_defined(2)] have r2: "?R (ses_2, [] @ [rec_m1])"
    using ses_known(1) c by (simp add: ses_2_def)
  from ses_message [OF r2 ses_writer(2) ses_flush(2) _ ses_defined(3)] have r3: "?R (ses_3, ([] @ [rec_m1]) @ [rec_m2])"
    using ses_known(2) c by (simp add: ses_3_def)
  from ses_message [OF r3 ses_writer(3) ses_flush(3) _ ses_defined(4)] show ?thesis
    using ses_known(3) c by (simp add: ses_4_def)
qed

lemma ses_closed: "rw_Close rec_size ses_4 = Some ses_5"
  using ses_defined(5) by (auto simp: ses_5_def)

lemma ses_disk: "map (\<lambda>(p, d). (p, file_end rec_size (snd d), hd_end_time (fst d))) (rw_disk ses_5)
    = [(''f.00000'', 2168, 7), (''f.00001'', 2168, 9)]"
  by code_simp

lemma ses_sizes: "\<forall>d \<in> set (map snd (rw_disk ses_5)). file_end rec_size (snd d) < 2 ^ 64 \<and> unat (hd_end_time (fst d)) + 1000000001 < 2 ^ 64"
proof
  fix d assume "d \<in> set (map snd (rw_disk ses_5))"
  then obtain p where "(p, d) \<in> set (rw_disk ses_5)" by auto
  then have "(p, file_end rec_size (snd d), hd_end_time (fst d)) \<in> set (map (\<lambda>(p, d). (p, file_end rec_size (snd d), hd_end_time (fst d))) (rw_disk ses_5))"
    by force
  then show "file_end rec_size (snd d) < 2 ^ 64 \<and> unat (hd_end_time (fst d)) + 1000000001 < 2 ^ 64"
    unfolding ses_disk by auto
qed

lemma ses_header: "hd_message_number ses_h = 0" "hd_begin_time ses_h = 0"
  by (simp_all add: ses_h_def GetHeaderWithSegmentParams_def)

lemma segments_keep_messages_witness:
  "length (rw_disk ses_5) = 2
   \<and> concat (map (\<lambda>d. fst (rr_read_all 0 (- 1) (rr_open rec_size d))) (map snd (rw_disk ses_5))) = [rec_m1, rec_m2, rec_m3]"
  using segments_keep_messages [OF ses_reach ses_header(1)] ses_closed ses_sizes arg_cong [OF ses_disk, of length] by (simp add: Let_def)

lemma session_can_be_viewed_witness:
  "\<exists>ms. rv_messages (rv_new (map (rr_open rec_size) (map snd (rw_disk ses_5))) 5 9 {''c''}) = Some ms \<and> mset ms = {#rec_m2, rec_m3#}"
proof -
  have "timely [rec_m1, rec_m2, rec_m3]" by (simp add: timely_def rec_m1_def rec_m2_def rec_m3_def)
  from session_can_be_viewed [OF ses_reach ses_header _ this ses_closed ses_sizes, of 5 9 "{''c''}"] show ?thesis
    by (simp add: inside_def rec_m1_def rec_m2_def rec_m3_def) blast
qed

lemma segments_self_contained_witness:
  "list_all (\<lambda>d. list_all (\<lambda>m. rr_GetMessageType (sm_channel_name m) (rr_open rec_size d) = rw_GetMessageType (sm_channel_name m) ses_4)
     (fst (rr_read_all 0 (- 1) (rr_open rec_size d)))) (map snd (rw_disk ses_5))"
  using segments_self_contained [OF ses_reach ses_header(1) _ ses_closed] ses_sizes by (auto simp: list_all_iff Let_def)

lemma segment_files_distinct_witness: "distinct (map fst (rw_disk ses_4) @ [rw_path ses_4]) \<and> length (rw_disk ses_4) = 1"
proof -
  have "length (rw_disk ses_4) = 1" by code_simp
  then show ?thesis using segment_files_distinct [OF ses_reach] by simp
qed

lemma reopened_writer_omits_channels_witness:
  "\<exists>w. rw_Open rec_size ''g'' ses_5 = Some w \<and> rw_WriteChannel rec_size ''c'' ''t'' ''d'' w = Some w"
proof -
  have "\<not> rw_IsNewChannel ''c'' ses_5" by code_simp
  moreover have "rw_Open rec_size ''g'' ses_5 \<noteq> None" by code_simp
  ultimately show ?thesis using reopened_writer_omits_channels by blast
qed

end
