(* ===== verification/Listener_Handler.thy ===== *)
theory Listener_Handler
  imports Signal_Slot Message_Codec
begin

text \<open>
  The listeners of a channel (transport/message/listener_handler.h): a signal for the listeners to
  every sender and a signal for each sender with the listeners to that sender. A listener is known
  by the id of its reader. The callbacks of a running emission do not change the handler: the
  handler runs those of a sender under its own lock, so one that did would wait for itself.
\<close>

record 'cb listener_handler =
  lh_signal :: "'cb signal"
  lh_signal_conns :: "u64 \<Rightarrow> connection option"
  lh_signals :: "u64 \<Rightarrow> 'cb signal option"
  lh_signals_conns :: "u64 \<Rightarrow> (u64 \<Rightarrow> connection option) option"

definition lh_new :: "'cb listener_handler" where
  "lh_new = \<lparr>lh_signal = sg_new, lh_signal_conns = (\<lambda>_. None), lh_signals = (\<lambda>_. None), lh_signals_conns = (\<lambda>_. None)\<rparr>"

definition lh_Connect :: "u64 \<Rightarrow> 'cb \<Rightarrow> 'cb listener_handler \<Rightarrow> 'cb listener_handler" where
  "lh_Connect self_id cb h =
     (let (c, g) = sg_Connect (Some cb) (lh_signal h) in
      h\<lparr>lh_signal := g, lh_signal_conns := (lh_signal_conns h)(self_id \<mapsto> c)\<rparr>)"

definition lh_Connect_to :: "u64 \<Rightarrow> u64 \<Rightarrow> 'cb \<Rightarrow> 'cb listener_handler \<Rightarrow> 'cb listener_handler" where
  "lh_Connect_to self_id oppo_id cb h =
     (let g = (case lh_signals h oppo_id of None \<Rightarrow> sg_new | Some g \<Rightarrow> g);
          (c, g) = sg_Connect (Some cb) g;
          h = h\<lparr>lh_signals := (lh_signals h)(oppo_id \<mapsto> g)\<rparr> in
      if \<not> cn_IsConnected c g then h
      else (let m = (case lh_signals_conns h oppo_id of None \<Rightarrow> (\<lambda>_. None) | Some m \<Rightarrow> m) in
        h\<lparr>lh_signals_conns := (lh_signals_conns h)(oppo_id \<mapsto> m(self_id \<mapsto> c))\<rparr>))"

definition lh_Disconnect :: "u64 \<Rightarrow> 'cb listener_handler \<Rightarrow> 'cb listener_handler" where
  "lh_Disconnect self_id h = (case lh_signal_conns h self_id of
       None \<Rightarrow> h
     | Some c \<Rightarrow> h\<lparr>lh_signal := snd (cn_Disconnect c (lh_signal h)), lh_signal_conns := (lh_signal_conns h)(self_id := None)\<rparr>)"

definition lh_Disconnect_from :: "u64 \<Rightarrow> u64 \<Rightarrow> 'cb listener_handler \<Rightarrow> 'cb listener_handler" where
  "lh_Disconnect_from self_id oppo_id h = (case lh_signals_conns h oppo_id of
       None \<Rightarrow> h
     | Some m \<Rightarrow> (case m self_id of
         None \<Rightarrow> h
       | Some c \<Rightarrow> h\<lparr>lh_signals := (lh_signals h)(oppo_id := map_option (\<lambda>g. snd (cn_Disconnect c g)) (lh_signals h oppo_id)),
                    lh_signals_conns := (lh_signals_conns h)(oppo_id \<mapsto> m(self_id := None))\<rparr>))"

text \<open>\<open>Run\<close>; \<open>run\<close> is what a listener does with a message to the state of the clients.\<close>

definition lh_Run :: "('cb \<Rightarrow> 'm \<times> message_info \<Rightarrow> 'w \<Rightarrow> 'w) \<Rightarrow> 'm \<Rightarrow> message_info
    \<Rightarrow> 'cb listener_handler \<times> 'w \<Rightarrow> 'cb listener_handler \<times> 'w" where
  "lh_Run run msg info hw = (case hw of (h, w) \<Rightarrow>
     (let call = (\<lambda>cb a gw. (fst gw, run cb a (snd gw)));
          (g, w) = sg_emit call (msg, info) (lh_signal h, w);
          h = h\<lparr>lh_signal := g\<rparr>;
          oppo_id = id_HashValue (mi_sender_id info) in
      case lh_signals h oppo_id of
        None \<Rightarrow> (h, w)
      | Some g \<Rightarrow>
         (let (g, w) = sg_emit call (msg, info) (g, w) in (h\<lparr>lh_signals := (lh_signals h)(oppo_id \<mapsto> g)\<rparr>, w))))"

section \<open>What the handler promises\<close>

text \<open>A handler as its clients see it: the listeners to everyone and to each sender, in the order of
  connection, with the ids of their readers.\<close>

record 'cb listeners =
  ls_all :: "(u64 \<times> 'cb) list"
  ls_from :: "u64 \<Rightarrow> (u64 \<times> 'cb) list"

definition ls_new :: "'cb listeners" where "ls_new = \<lparr>ls_all = [], ls_from = (\<lambda>_. [])\<rparr>"

definition ls_drop :: "u64 \<Rightarrow> (u64 \<times> 'cb) list \<Rightarrow> (u64 \<times> 'cb) list" where
  "ls_drop i l = filter (\<lambda>e. fst e \<noteq> i) l"

datatype 'cb listener_op = OpConnect u64 'cb | OpConnectTo u64 u64 'cb | OpDisconnect u64 | OpDisconnectFrom u64 u64

fun ls_op :: "'cb listener_op \<Rightarrow> 'cb listeners \<Rightarrow> 'cb listeners" where
  "ls_op (OpConnect s cb) a = a\<lparr>ls_all := ls_all a @ [(s, cb)]\<rparr>"
| "ls_op (OpConnectTo s p cb) a = a\<lparr>ls_from := (ls_from a)(p := ls_from a p @ [(s, cb)])\<rparr>"
| "ls_op (OpDisconnect s) a = a\<lparr>ls_all := ls_drop s (ls_all a)\<rparr>"
| "ls_op (OpDisconnectFrom s p) a = a\<lparr>ls_from := (ls_from a)(p := ls_drop s (ls_from a p))\<rparr>"

fun lh_op :: "'cb listener_op \<Rightarrow> 'cb listener_handler \<Rightarrow> 'cb listener_handler" where
  "lh_op (OpConnect s cb) = lh_Connect s cb"
| "lh_op (OpConnectTo s p cb) = lh_Connect_to s p cb"
| "lh_op (OpDisconnect s) = lh_Disconnect s"
| "lh_op (OpDisconnectFrom s p) = lh_Disconnect_from s p"

text \<open>A reader does not connect twice.\<close>

fun ls_fresh :: "'cb listener_op \<Rightarrow> 'cb listeners \<Rightarrow> bool" where
  "ls_fresh (OpConnect s cb) a \<longleftrightarrow> s \<notin> fst ` set (ls_all a)"
| "ls_fresh (OpConnectTo s p cb) a \<longleftrightarrow> s \<notin> fst ` set (ls_from a p)"
| "ls_fresh _ a \<longleftrightarrow> True"

fun fresh_ops :: "'cb listener_op list \<Rightarrow> 'cb listeners \<Rightarrow> bool" where
  "fresh_ops [] a \<longleftrightarrow> True"
| "fresh_ops (x # xs) a \<longleftrightarrow> ls_fresh x a \<and> fresh_ops xs (ls_op x a)"

text \<open>Who is called for a message of sender \<open>p\<close>.\<close>

definition ls_called :: "u64 \<Rightarrow> 'cb listeners \<Rightarrow> 'cb list" where
  "ls_called p a = map snd (ls_all a @ ls_from a p)"

section \<open>The handler keeps the promise\<close>

text \<open>The signal \<open>g\<close> and its connections stand for the listeners \<open>l\<close>.\<close>

definition entry_ok :: "'cb signal \<Rightarrow> (u64 \<Rightarrow> connection option) \<Rightarrow> nat \<Rightarrow> u64 \<times> 'cb \<Rightarrow> bool" where
  "entry_ok g m x e \<longleftrightarrow> sg_store g x = Some (Slot_new (Some (snd e))) \<and> m (fst e) = Some \<lparr>cn_slot = Some x, cn_signal = True\<rparr>"

definition reg :: "'cb signal \<Rightarrow> (u64 \<Rightarrow> connection option) \<Rightarrow> (u64 \<times> 'cb) list \<Rightarrow> bool" where
  "reg g m l \<longleftrightarrow> distinct (sg_slots g) \<and> (\<forall>x \<in> set (sg_slots g). x < sg_next g) \<and> distinct (map fst l)
     \<and> list_all2 (entry_ok g m) (sg_slots g) l \<and> dom m = fst ` set l"

lemma reg_new: "reg sg_new (\<lambda>_. None) []"
  by (simp add: reg_def sg_new_def)

lemma reg_Connect:
  assumes r: "reg g m l" and "s \<notin> fst ` set l"
  shows "reg (snd (sg_Connect (Some cb) g)) (m(s \<mapsto> fst (sg_Connect (Some cb) g))) (l @ [(s, cb)])"
proof -
  let ?g = "snd (sg_Connect (Some cb) g)" and ?m = "m(s \<mapsto> fst (sg_Connect (Some cb) g))"
  have "list_all2 (entry_ok g m) (sg_slots g) l" using r by (simp add: reg_def)
  then have "list_all2 (entry_ok ?g ?m) (sg_slots g) l"
    by (rule list.rel_mono_strong) (use r assms(2) in \<open>force simp: reg_def entry_ok_def\<close>)
  moreover have "entry_ok ?g ?m (sg_next g) (s, cb)" by (simp add: entry_ok_def) (simp add: sg_Connect_def)
  ultimately have "list_all2 (entry_ok ?g ?m) (sg_slots ?g) (l @ [(s, cb)])" by (simp add: list_all2_appendI)
  moreover have "sg_next g \<notin> set (sg_slots g)" using r by (auto simp: reg_def)
  ultimately show ?thesis using r assms(2) by (auto simp: reg_def less_Suc_eq)
qed

lemma reg_slot:
  assumes "reg g m l" and "(s, cb) \<in> set l"
  shows "\<exists>x \<in> set (sg_slots g). m s = Some \<lparr>cn_slot = Some x, cn_signal = True\<rparr>"
proof -
  obtain i where "i < length l" "l ! i = (s, cb)" using assms(2) by (auto simp: in_set_conv_nth)
  then show ?thesis using assms(1) by (auto simp: reg_def list_all2_conv_all_nth entry_ok_def intro!: bexI [of _ "sg_slots g ! i"])
qed

lemma reg_connected:
  assumes "reg g m l" and "x \<in> set (sg_slots g)"
  shows "sg_connected g x"
proof -
  obtain i where "i < length (sg_slots g)" "x = sg_slots g ! i" using assms(2) by (auto simp: in_set_conv_nth)
  then have "entry_ok g m x (l ! i)" using assms(1) by (auto simp: reg_def list_all2_conv_all_nth)
  then show ?thesis by (simp add: entry_ok_def sg_connected_def Slot_new_def)
qed

text \<open>What \<open>Disconnect\<close> leaves: the slots and the entries without those of the connection.\<close>

lemma list_all2_filter_same:
  "list_all2 P xs ys \<Longrightarrow> (\<And>x y. P x y \<Longrightarrow> Q x \<longleftrightarrow> R y) \<Longrightarrow> list_all2 P (filter Q xs) (filter R ys)"
  by (induction rule: list_all2_induct) auto

lemma sg_mark_store: "cn_slot c \<noteq> Some y \<Longrightarrow> sg_store (snd (sg_mark c xs g)) y = sg_store g y"
  by (induction xs arbitrary: g) (auto simp: cn_HasSlot_def)

lemma reg_Disconnect:
  assumes r: "reg g m l" and c: "m s = Some c"
  shows "reg (snd (cn_Disconnect c g)) (m(s := None)) (ls_drop s l)"
proof -
  have l2: "list_all2 (entry_ok g m) (sg_slots g) l" and dm: "dom m = fst ` set l" using r by (simp_all add: reg_def)
  obtain cb where cb: "(s, cb) \<in> set l" using dm c by force
  then obtain x where x: "x \<in> set (sg_slots g)" "c = \<lparr>cn_slot = Some x, cn_signal = True\<rparr>" using reg_slot [OF r] c by fastforce
  let ?g = "snd (sg_mark c (sg_slots g) g)"
  have d: "snd (cn_Disconnect c g) = sg_ClearDisconnectedSlots ?g"
    using x by (simp add: cn_Disconnect_def sg_Disconnect_def case_prod_unfold Let_def)
  have slots: "sg_slots (snd (cn_Disconnect c g)) = filter (\<lambda>y. y \<noteq> x) (sg_slots g)"
    unfolding d using reg_connected [OF r] x by (auto intro!: filter_cong)
  have store: "sg_store (snd (cn_Disconnect c g)) y = sg_store g y" if "y \<noteq> x" for y
    unfolding d using sg_mark_store [of c y] that x(2) by simp
  have inj: "fst e = s" if "entry_ok g m x e" "e \<in> set l" for e
  proof -
    obtain i j where i: "i < length l" "l ! i = (s, cb)" and j: "j < length l" "l ! j = e"
      using cb \<open>e \<in> set l\<close> by (auto simp: in_set_conv_nth)
    have "sg_slots g ! i = x" "sg_slots g ! j = x" using l2 i j c x(2) that by (auto simp: list_all2_conv_all_nth entry_ok_def)
    moreover have "distinct (sg_slots g)" "length (sg_slots g) = length l" using r list_all2_lengthD [OF l2] by (simp_all add: reg_def)
    ultimately have "i = j" using i(1) j(1) nth_eq_iff_index_eq [of "sg_slots g" i j] by simp
    then show "fst e = s" using i j by simp
  qed
  have eq: "y \<noteq> x \<longleftrightarrow> fst e \<noteq> s" if "entry_ok g m y e \<and> e \<in> set l" for y e
  proof -
    have "y = x" if "fst e = s"
      using \<open>entry_ok g m y e \<and> e \<in> set l\<close> that c x(2) by (simp add: entry_ok_def)
    then show ?thesis using that inj by blast
  qed
  have "list_all2 (\<lambda>y e. entry_ok g m y e \<and> e \<in> set l) (sg_slots g) l"
    by (rule list.rel_mono_strong [OF l2]) simp
  then have "list_all2 (\<lambda>y e. entry_ok g m y e \<and> e \<in> set l) (filter (\<lambda>y. y \<noteq> x) (sg_slots g)) (filter (\<lambda>e. fst e \<noteq> s) l)"
    by (rule list_all2_filter_same) (rule eq)
  then have "list_all2 (entry_ok (snd (cn_Disconnect c g)) (m(s := None))) (filter (\<lambda>y. y \<noteq> x) (sg_slots g)) (ls_drop s l)"
    unfolding ls_drop_def by (rule list.rel_mono_strong) (use store in \<open>auto simp: entry_ok_def\<close>)
  moreover have "sg_next (snd (cn_Disconnect c g)) = sg_next g" unfolding d by simp
  moreover have "dom (m(s := None)) = fst ` set (ls_drop s l)" using dm by (auto simp: ls_drop_def)
  ultimately show ?thesis using r unfolding reg_def slots by (auto simp: ls_drop_def distinct_map_filter)
qed

definition calls :: "'cb signal \<Rightarrow> 'cb list \<Rightarrow> bool" where
  "calls g cbs \<longleftrightarrow> list_all2 (\<lambda>x cb. sg_store g x = Some (Slot_new (Some cb))) (sg_slots g) cbs"

lemma calls_emit:
  assumes "calls g cbs"
  shows "sg_emit (\<lambda>cb a gw. (fst gw, run cb a (snd gw))) a (g, w) = (g, fold (\<lambda>cb. run cb a) cbs w)"
proof -
  have "List.map_filter (\<lambda>x. Option.bind (sg_store g x) Slot_call) xs = ys \<and> filter (sg_connected g) xs = xs"
    if "list_all2 (\<lambda>x cb. sg_store g x = Some (Slot_new (Some cb))) xs ys" for xs ys
    using that by (induction rule: list_all2_induct) (auto simp: map_filter_simps Slot_call_def Slot_new_def sg_connected_def)
  then have "List.map_filter (\<lambda>x. Option.bind (sg_store g x) Slot_call) (sg_slots g) = cbs \<and> filter (sg_connected g) (sg_slots g) = sg_slots g"
    using assms by (simp add: calls_def)
  then show ?thesis by (simp add: sg_emit_def sg_calls_pure Let_def sg_ClearDisconnectedSlots_def)
qed

lemma reg_calls: "reg g m l \<Longrightarrow> calls g (map snd l)"
  by (auto simp: reg_def calls_def list_all2_map2 entry_ok_def elim!: list_all2_mono)

lemmas reg_emit = calls_emit [OF reg_calls]

text \<open>The handler \<open>h\<close> stands for the listeners \<open>a\<close>.\<close>

definition lh_rep :: "'cb listener_handler \<Rightarrow> 'cb listeners \<Rightarrow> bool" where
  "lh_rep h a \<longleftrightarrow> reg (lh_signal h) (lh_signal_conns h) (ls_all a)
     \<and> (\<forall>p. reg (case lh_signals h p of None \<Rightarrow> sg_new | Some g \<Rightarrow> g)
           (case lh_signals_conns h p of None \<Rightarrow> (\<lambda>_. None) | Some m \<Rightarrow> m) (ls_from a p)
         \<and> (lh_signals h p = None \<longleftrightarrow> lh_signals_conns h p = None))"

lemma lh_rep_new: "lh_rep lh_new ls_new"
  by (simp add: lh_rep_def lh_new_def ls_new_def reg_new)

lemma ls_drop_none: "s \<notin> fst ` set l \<Longrightarrow> ls_drop s l = l"
  by (auto simp: ls_drop_def filter_id_conv)

lemma lh_rep_upd:
  "lh_rep h a \<Longrightarrow> reg g m l \<Longrightarrow> lh_rep (h\<lparr>lh_signals := (lh_signals h)(p \<mapsto> g), lh_signals_conns := (lh_signals_conns h)(p \<mapsto> m)\<rparr>)
     (a\<lparr>ls_from := (ls_from a)(p := l)\<rparr>)"
  by (simp add: lh_rep_def)

lemma lh_rep_op:
  assumes r: "lh_rep h a" and f: "ls_fresh x a"
  shows "lh_rep (lh_op x h) (ls_op x a)"
proof (cases x)
  case (OpConnect s cb)
  then show ?thesis using r f reg_Connect [of "lh_signal h" "lh_signal_conns h" "ls_all a" s cb]
    by (simp add: lh_rep_def lh_Connect_def case_prod_unfold Let_def)
next
  case (OpConnectTo s p cb)
  let ?g = "case lh_signals h p of None \<Rightarrow> sg_new | Some g \<Rightarrow> g" and ?m = "case lh_signals_conns h p of None \<Rightarrow> (\<lambda>_. None) | Some m \<Rightarrow> m"
  have c: "cn_IsConnected (fst (sg_Connect (Some cb) ?g)) (snd (sg_Connect (Some cb) ?g))"
    by (simp add: cn_IsConnected_def sg_Connect_def sg_connected_def Slot_new_def)
  have "reg (snd (sg_Connect (Some cb) ?g)) (?m(s \<mapsto> fst (sg_Connect (Some cb) ?g))) (ls_from a p @ [(s, cb)])"
    using r f OpConnectTo by (intro reg_Connect) (simp_all add: lh_rep_def)
  from lh_rep_upd [OF r this, of p] show ?thesis using c OpConnectTo
    by (simp add: lh_Connect_to_def case_prod_unfold Let_def)
next
  case (OpDisconnect s)
  show ?thesis
  proof (cases "lh_signal_conns h s")
    case None
    moreover have "dom (lh_signal_conns h) = fst ` set (ls_all a)" using r by (simp add: lh_rep_def reg_def)
    ultimately have "s \<notin> fst ` set (ls_all a)" by blast
    then have "ls_drop s (ls_all a) = ls_all a" by (rule ls_drop_none)
    then show ?thesis using r None OpDisconnect by (simp add: lh_Disconnect_def)
  next
    case (Some c)
    then show ?thesis using r OpDisconnect reg_Disconnect [of "lh_signal h" "lh_signal_conns h" "ls_all a" s c]
      by (simp add: lh_rep_def lh_Disconnect_def)
  qed
next
  case (OpDisconnectFrom s p)
  let ?m = "case lh_signals_conns h p of None \<Rightarrow> (\<lambda>_. None) | Some m \<Rightarrow> m"
  show ?thesis
  proof (cases "?m s")
    case None
    have "dom ?m = fst ` set (ls_from a p)" using r by (simp add: lh_rep_def reg_def)
    then have "s \<notin> fst ` set (ls_from a p)" using None by blast
    then have "ls_drop s (ls_from a p) = ls_from a p" by (rule ls_drop_none)
    moreover have "lh_op x h = h" using None OpDisconnectFrom by (simp add: lh_Disconnect_from_def split: option.splits)
    ultimately show ?thesis using r OpDisconnectFrom by (simp add: fun_upd_idem)
  next
    case (Some c)
    then obtain m where m: "lh_signals_conns h p = Some m" "m s = Some c" by (auto split: option.splits)
    then obtain g where g: "lh_signals h p = Some g" using r by (auto simp: lh_rep_def) (metis not_None_eq)
    have "reg g m (ls_from a p)" using r m g unfolding lh_rep_def by (metis option.simps(5))
    from lh_rep_upd [OF r reg_Disconnect [OF this m(2)], of p] show ?thesis using m g OpDisconnectFrom
      by (simp add: lh_Disconnect_from_def)
  qed
qed

lemma lh_rep_Run:
  assumes "lh_rep h a"
  shows "lh_Run run msg info (h, w) = (h, fold (\<lambda>cb. run cb (msg, info)) (ls_called (id_HashValue (mi_sender_id info)) a) w)"
proof -
  let ?p = "id_HashValue (mi_sender_id info)"
  have all: "reg (lh_signal h) (lh_signal_conns h) (ls_all a)" using assms by (simp add: lh_rep_def)
  have from_p: "reg (case lh_signals h ?p of None \<Rightarrow> sg_new | Some g \<Rightarrow> g)
      (case lh_signals_conns h ?p of None \<Rightarrow> (\<lambda>_. None) | Some m \<Rightarrow> m) (ls_from a ?p)"
    using assms by (simp add: lh_rep_def)
  show ?thesis
  proof (cases "lh_signals h ?p")
    case None
    then have "ls_from a ?p = []" using from_p by (simp add: reg_def sg_new_def)
    then show ?thesis using None by (simp add: lh_Run_def reg_emit [OF all] ls_called_def Let_def)
  next
    case (Some g)
    then have "reg g (case lh_signals_conns h ?p of None \<Rightarrow> (\<lambda>_. None) | Some m \<Rightarrow> m) (ls_from a ?p)" using from_p by simp
    note e = reg_emit [OF this]
    show ?thesis using Some by (simp add: lh_Run_def reg_emit [OF all] e ls_called_def Let_def fun_upd_idem)
  qed
qed

lemma lh_rep_ops: "lh_rep h a \<Longrightarrow> fresh_ops xs a \<Longrightarrow> lh_rep (fold lh_op xs h) (fold ls_op xs a)"
  by (induction xs arbitrary: h a) (simp_all add: lh_rep_op)

text \<open>A handler calls exactly its listeners: after any sequence of connects and disconnects in which
  no reader connects twice, a message is given to the listeners to everyone and then to those to its
  sender that are connected at that time, to each once, in the order in which they connected, and
  to nobody else; a running emission leaves the handler as it is.\<close>

theorem listeners_called_exactly:
  assumes "fresh_ops ops ls_new"
  shows "lh_Run run msg info (fold lh_op ops lh_new, w)
    = (fold lh_op ops lh_new, fold (\<lambda>cb. run cb (msg, info)) (ls_called (id_HashValue (mi_sender_id info)) (fold ls_op ops ls_new)) w)"
  by (rule lh_rep_Run [OF lh_rep_ops [OF lh_rep_new assms]])

lemma listeners_called_exactly_witness:
  "snd (lh_Run (\<lambda>cb _ w. w @ [cb]) () mi_default
     (fold lh_op [OpConnect 1 ''a'', OpConnectTo 2 0 ''b'', OpConnectTo 3 0 ''c'', OpConnectTo 4 9 ''d'', OpDisconnectFrom 2 0] lh_new, []))
   = [''a'', ''c'']"
proof -
  let ?ops = "[OpConnect 1 ''a'', OpConnectTo 2 0 ''b'', OpConnectTo 3 0 ''c'', OpConnectTo 4 9 ''d'', OpDisconnectFrom 2 0]"
  have "id_HashValue (mi_sender_id mi_default) = 0" by code_simp
  moreover have "fresh_ops ?ops ls_new" by (simp add: ls_new_def)
  ultimately show ?thesis
    by (subst listeners_called_exactly) (simp_all add: ls_new_def ls_called_def ls_drop_def)
qed

text \<open>A reader that connects twice can never be silenced: the handler forgets the connection of the
  first listener, which is still called after the reader has disconnected, and disconnecting again
  changes nothing.\<close>

theorem double_connect_leaks:
  assumes "lh_rep h a" and "(s, cb1) \<in> set (ls_all a)"
  shows "\<exists>xs. lh_Run (\<lambda>cb _ w. w @ [cb]) msg info (lh_Disconnect s (lh_Connect s cb2 h), []) = (lh_Disconnect s (lh_Connect s cb2 h), xs)
    \<and> cb1 \<in> set xs \<and> lh_Disconnect s (lh_Disconnect s (lh_Connect s cb2 h)) = lh_Disconnect s (lh_Connect s cb2 h)"
proof -
  let ?h = "lh_Disconnect s (lh_Connect s cb2 h)" and ?p = "id_HashValue (mi_sender_id info)"
  let ?log = "\<lambda>cb (_ :: 'c \<times> message_info) w. w @ [cb]"
  have r: "reg (lh_signal h) (lh_signal_conns h) (ls_all a)" using assms(1) by (simp add: lh_rep_def)
  let ?g = "lh_signal h" and ?c = "\<lparr>cn_slot = Some (sg_next (lh_signal h)), cn_signal = True\<rparr>"
  have new: "sg_next ?g \<notin> set (sg_slots ?g)" using r by (auto simp: reg_def)
  have h: "lh_signal ?h = snd (cn_Disconnect ?c (snd (sg_Connect (Some cb2) ?g)))" "lh_signals ?h = lh_signals h"
    "lh_signal_conns ?h s = None" "lh_signals_conns ?h = lh_signals_conns h"
    by (simp_all add: lh_Disconnect_def lh_Connect_def sg_Connect_def)
  have "sg_slots (lh_signal ?h) = sg_slots ?g"
    unfolding h(1) using reg_connected [OF r] new
    by (auto simp: cn_Disconnect_def sg_Disconnect_def case_prod_unfold Let_def intro!: filter_True)
  moreover have "sg_store (lh_signal ?h) x = sg_store ?g x" if "x \<in> set (sg_slots ?g)" for x
  proof -
    have "x \<noteq> sg_next ?g" using that new by blast
    then show ?thesis unfolding h(1) 
      by (simp add: cn_Disconnect_def sg_Disconnect_def case_prod_unfold Let_def sg_mark_store del: sg_mark.simps)
  qed
  ultimately have all: "calls (lh_signal ?h) (map snd (ls_all a))"
    using reg_calls [OF r] unfolding calls_def by (auto elim!: list.rel_mono_strong)
  have cb1: "cb1 \<in> set (map snd (ls_all a))" using assms(2) by force
  have fold_log: "fold (\<lambda>cb w. w @ [cb]) cbs w = w @ cbs" for cbs w :: "'a list"
    by (induction cbs arbitrary: w) simp_all
  have em: "sg_emit (\<lambda>cb a gw. (fst gw, snd gw @ [cb])) (msg, info) (g, w) = (g, w @ cbs)" if "calls g cbs" for g cbs and w :: "'a list"
    using calls_emit [OF that, of "\<lambda>cb _ w. w @ [cb]" "(msg, info)" w] by (simp add: fold_log)
  show ?thesis
  proof (cases "lh_signals h ?p")
    case None
    then show ?thesis using cb1 h(3) by (simp add: lh_Run_def em [OF all] h(2) lh_Disconnect_def [of s ?h])
  next
    case (Some g)
    then have "reg g (case lh_signals_conns h ?p of None \<Rightarrow> (\<lambda>_. None) | Some m \<Rightarrow> m) (ls_from a ?p)"
      using assms(1) unfolding lh_rep_def by (metis option.simps(5))
    note e = em [OF reg_calls [OF this]]
    have "lh_signals ?h ?p = Some g" "(lh_signals ?h)(?p \<mapsto> g) = lh_signals ?h" using Some by (simp_all add: h(2) fun_upd_idem)
    then show ?thesis using cb1 h(3) by (simp add: lh_Run_def em [OF all] e lh_Disconnect_def [of s ?h])
  qed
qed

lemma double_connect_leaks_witness:
  "\<exists>xs. ''a'' \<in> set xs \<and> snd (lh_Run (\<lambda>cb _ w. w @ [cb]) () mi_default (lh_Disconnect 1 (lh_Connect 1 ''b'' (lh_Connect 1 ''a'' lh_new)), [])) = xs"
proof -
  have "lh_rep (lh_Connect 1 ''a'' lh_new) (ls_op (OpConnect 1 ''a'') ls_new)"
    using lh_rep_op [OF lh_rep_new, of "OpConnect 1 ''a''"] by (simp add: ls_new_def)
  from double_connect_leaks [OF this, of 1 "''a''" "()" mi_default "''b''"] show ?thesis by (auto simp: ls_new_def)
qed

end
