(* ===== verification/Message_Dispatcher.thy ===== *)
theory Message_Dispatcher
  imports Listener_Handler
begin

text \<open>
  Dispatchers (transport/dispatcher/dispatcher.h, dispatcher.cc, intra_dispatcher.h and the listener
  side of shm_dispatcher and rtps_dispatcher): a table of handlers, one for each channel. The table
  is an \<open>AtomicHashMap\<close>, which is a map (theory \<open>Hash_Maps\<close>). A handler has the C++ type of its
  messages, which the code finds out with \<open>dynamic_pointer_cast\<close>. The last section takes the two
  calls of \<open>AddListener\<close> on the table apart.
\<close>

section \<open>Operations\<close>

text \<open>The message type of a \<open>ListenerHandler<MessageT>\<close>.\<close>

datatype msg_type = RawMessage | ReadableBlock | StdString | TypedMessage string

definition IsRawMessage :: "msg_type \<Rightarrow> bool" where
  "IsRawMessage ty \<longleftrightarrow> ty = RawMessage"

record 'cb dispatcher =
  di_is_shutdown :: bool
  di_msg_listeners :: "u64 \<Rightarrow> (msg_type \<times> 'cb listener_handler) option"

definition di_new :: "'cb dispatcher" where
  "di_new = \<lparr>di_is_shutdown = False, di_msg_listeners = (\<lambda>_. None)\<rparr>"

definition di_Shutdown :: "'cb dispatcher \<Rightarrow> 'cb dispatcher" where
  "di_Shutdown d = d\<lparr>di_is_shutdown := True\<rparr>"

definition di_HasChannel :: "u64 \<Rightarrow> 'cb dispatcher \<Rightarrow> bool" where
  "di_HasChannel channel_id d \<longleftrightarrow> di_msg_listeners d channel_id \<noteq> None"

text \<open>The part both \<open>AddListener\<close> share: find or make the handler, then \<open>connect\<close>.\<close>

definition di_with_handler :: "msg_type \<Rightarrow> u64 \<Rightarrow> ('cb listener_handler \<Rightarrow> 'cb listener_handler) \<Rightarrow> 'cb dispatcher \<Rightarrow> 'cb dispatcher" where
  "di_with_handler ty channel_id connect d = (case di_msg_listeners d channel_id of
       Some (ty', h) \<Rightarrow> if ty' \<noteq> ty then d
         else d\<lparr>di_msg_listeners := (di_msg_listeners d)(channel_id \<mapsto> (ty, connect h))\<rparr>
     | None \<Rightarrow> d\<lparr>di_msg_listeners := (di_msg_listeners d)(channel_id \<mapsto> (ty, connect lh_new))\<rparr>)"

definition di_AddListener :: "msg_type \<Rightarrow> u64 \<Rightarrow> u64 \<Rightarrow> 'cb \<Rightarrow> 'cb dispatcher \<Rightarrow> 'cb dispatcher" where
  "di_AddListener ty channel_id self_id listener d =
     (if di_is_shutdown d then d else di_with_handler ty channel_id (lh_Connect self_id listener) d)"

definition di_AddListener_to :: "msg_type \<Rightarrow> u64 \<Rightarrow> u64 \<Rightarrow> u64 \<Rightarrow> 'cb \<Rightarrow> 'cb dispatcher \<Rightarrow> 'cb dispatcher" where
  "di_AddListener_to ty channel_id self_id oppo_id listener d =
     (if di_is_shutdown d then d else di_with_handler ty channel_id (lh_Connect_to self_id oppo_id listener) d)"

definition di_RemoveListener :: "u64 \<Rightarrow> u64 \<Rightarrow> 'cb dispatcher \<Rightarrow> 'cb dispatcher" where
  "di_RemoveListener channel_id self_id d =
     (if di_is_shutdown d then d
      else (case di_msg_listeners d channel_id of
          None \<Rightarrow> d
        | Some (ty, h) \<Rightarrow> d\<lparr>di_msg_listeners := (di_msg_listeners d)(channel_id \<mapsto> (ty, lh_Disconnect self_id h))\<rparr>))"

definition di_RemoveListener_from :: "u64 \<Rightarrow> u64 \<Rightarrow> u64 \<Rightarrow> 'cb dispatcher \<Rightarrow> 'cb dispatcher" where
  "di_RemoveListener_from channel_id self_id oppo_id d =
     (if di_is_shutdown d then d
      else (case di_msg_listeners d channel_id of
          None \<Rightarrow> d
        | Some (ty, h) \<Rightarrow> d\<lparr>di_msg_listeners := (di_msg_listeners d)(channel_id \<mapsto> (ty, lh_Disconnect_from self_id oppo_id h))\<rparr>))"

text \<open>What a handler is run with: a message of the program, the bytes of one in a raw message, or the
  bytes of one in a block or a string.\<close>

datatype 'm payload = Message 'm | Raw string | Bytes string

definition di_run :: "('cb \<Rightarrow> 'm payload \<times> message_info \<Rightarrow> 'w \<Rightarrow> 'w) \<Rightarrow> u64 \<Rightarrow> 'm payload \<Rightarrow> message_info \<Rightarrow> msg_type \<Rightarrow> 'cb listener_handler
    \<Rightarrow> 'cb dispatcher \<times> 'w \<Rightarrow> 'cb dispatcher \<times> 'w" where
  "di_run run channel_id p info ty h dw = (case dw of (d, w) \<Rightarrow>
     (let (h, w) = lh_Run run p info (h, w) in
      (d\<lparr>di_msg_listeners := (di_msg_listeners d)(channel_id \<mapsto> (ty, h))\<rparr>, w)))"

text \<open>\<open>IntraDispatcher::OnMessage\<close> of a message of type \<open>ty\<close>; a raw handler gets its bytes.\<close>

definition intra_OnMessage :: "('cb \<Rightarrow> 'm payload \<times> message_info \<Rightarrow> 'w \<Rightarrow> 'w) \<Rightarrow> ('m \<Rightarrow> string) \<Rightarrow> msg_type \<Rightarrow> u64 \<Rightarrow> 'm \<Rightarrow> message_info
    \<Rightarrow> 'cb dispatcher \<times> 'w \<Rightarrow> 'cb dispatcher \<times> 'w" where
  "intra_OnMessage run ser ty channel_id msg info dw = (case dw of (d, w) \<Rightarrow>
     if di_is_shutdown d then (d, w)
     else (case di_msg_listeners d channel_id of
         None \<Rightarrow> (d, w)
       | Some (ty', h) \<Rightarrow>
           if IsRawMessage ty' then di_run run channel_id (Raw (ser msg)) info ty' h (d, w)
           else if ty' \<noteq> ty then (d, w)
           else di_run run channel_id (Message msg) info ty' h (d, w)))"

text \<open>\<open>OnMessage\<close> of the other two, whose handlers are all for blocks (\<open>ReadableBlock\<close>) or all for
  strings (\<open>StdString\<close>); \<open>None\<close> is a call through the null pointer of a failed cast.\<close>

definition bytes_OnMessage :: "msg_type \<Rightarrow> ('cb \<Rightarrow> 'm payload \<times> message_info \<Rightarrow> 'w \<Rightarrow> 'w) \<Rightarrow> u64 \<Rightarrow> string \<Rightarrow> message_info
    \<Rightarrow> 'cb dispatcher \<times> 'w \<Rightarrow> ('cb dispatcher \<times> 'w) option" where
  "bytes_OnMessage ty run channel_id b info dw = (case dw of (d, w) \<Rightarrow>
     if di_is_shutdown d then Some (d, w)
     else (case di_msg_listeners d channel_id of
         None \<Rightarrow> Some (d, w)
       | Some (ty', h) \<Rightarrow> if ty' \<noteq> ty then None else Some (di_run run channel_id (Bytes b) info ty' h (d, w))))"

section \<open>Tables of listeners\<close>

lemma distinct_count: "distinct xs \<Longrightarrow> count_list xs x = (if x \<in> set xs then 1 else 0)"
  by (induction xs) auto

text \<open>What receivers need of a dispatcher: listeners for a channel and a sender can be added and
  removed, each by the id of its reader, and \<open>who\<close> are called for it. A listener carries its
  reader's id.\<close>

locale listener_table =
  fixes add :: "u64 \<Rightarrow> u64 \<Rightarrow> u64 \<Rightarrow> u64 \<times> 'x \<Rightarrow> 'd \<Rightarrow> 'd"
    and remove :: "u64 \<Rightarrow> u64 \<Rightarrow> u64 \<Rightarrow> 'd \<Rightarrow> 'd"
    and who :: "u64 \<Rightarrow> u64 \<Rightarrow> 'd \<Rightarrow> (u64 \<times> 'x) list"
    and ok :: "'d \<Rightarrow> bool"
  assumes ok_add: "ok d \<Longrightarrow> s \<notin> fst ` set (who c p d) \<Longrightarrow> ok (add c s p (s, x) d)"
    and who_add: "ok d \<Longrightarrow> s \<notin> fst ` set (who c p d) \<Longrightarrow>
      who c' p' (add c s p (s, x) d) = (if c' = c \<and> p' = p then who c p d @ [(s, x)] else who c' p' d)"
    and ok_remove: "ok d \<Longrightarrow> ok (remove c s p d)"
    and who_remove: "ok d \<Longrightarrow> who c' p' (remove c s p d) = (if c' = c \<and> p' = p then ls_drop s (who c p d) else who c' p' d)"
    and who_distinct: "ok d \<Longrightarrow> distinct (map fst (who c p d))"
begin

definition listens :: "u64 \<Rightarrow> u64 \<Rightarrow> u64 \<times> 'x \<Rightarrow> 'd \<Rightarrow> bool" where
  "listens c p e d \<longleftrightarrow> e \<in> set (who c p d)"

lemma listens_add: "ok d \<Longrightarrow> s \<notin> fst ` set (who c p d) \<Longrightarrow>
    listens c' p' e (add c s p (s, x) d) \<longleftrightarrow> listens c' p' e d \<or> (c' = c \<and> p' = p \<and> e = (s, x))"
  by (auto simp: listens_def who_add)

lemma listens_remove: "ok d \<Longrightarrow> listens c' p' e (remove c s p d) \<longleftrightarrow> listens c' p' e d \<and> \<not> (c' = c \<and> p' = p \<and> fst e = s)"
  by (auto simp: listens_def who_remove ls_drop_def)

lemma called_once: "ok d \<Longrightarrow> count_list (who c p d) e = (if listens c p e d then 1 else 0)"
  using who_distinct [of d c p] by (simp add: listens_def distinct_map distinct_count)

end

section \<open>Dispatchers are such tables\<close>

definition di_who :: "u64 \<Rightarrow> u64 \<Rightarrow> (u64 \<times> 'x) dispatcher \<Rightarrow> (u64 \<times> 'x) list" where
  "di_who c p d = (case di_msg_listeners d c of
       None \<Rightarrow> []
     | Some (ty, h) \<Rightarrow> snd (lh_Run (\<lambda>cb _ w. w @ [cb]) () (mi_default\<lparr>mi_sender_id := (id_none\<lparr>id_hash_value := p\<rparr>)\<rparr>) (h, [])))"

definition tagged :: "(u64 \<times> u64 \<times> 'x) list \<Rightarrow> bool" where
  "tagged l \<longleftrightarrow> (\<forall>e \<in> set l. fst (snd e) = fst e)"

text \<open>All handlers are of type \<open>ty c\<close> and have only listeners to particular senders.\<close>

definition di_ok :: "(u64 \<Rightarrow> msg_type) \<Rightarrow> (u64 \<times> 'x) dispatcher \<Rightarrow> bool" where
  "di_ok ty d \<longleftrightarrow> \<not> di_is_shutdown d \<and> (\<forall>c. case di_msg_listeners d c of None \<Rightarrow> True
     | Some (t, h) \<Rightarrow> t = ty c \<and> (\<exists>a. lh_rep h a \<and> ls_all a = [] \<and> (\<forall>p. tagged (ls_from a p))))"

lemma fold_log: "fold (\<lambda>cb w. w @ [cb]) cbs w = w @ cbs"
  by (induction cbs arbitrary: w) simp_all

lemma di_who_handler:
  assumes "di_msg_listeners d c = Some (t, h)" and "lh_rep h a" and "ls_all a = []"
  shows "di_who c p d = map snd (ls_from a p)"
  using lh_rep_Run [OF assms(2), of "\<lambda>cb _ w. w @ [cb]" "()" "mi_default\<lparr>mi_sender_id := (id_none\<lparr>id_hash_value := p\<rparr>)\<rparr>" "[]"] assms(1,3)
  by (simp add: di_who_def ls_called_def id_HashValue_def fold_log)

lemma di_ok_handler:
  assumes "di_ok ty d" and "di_msg_listeners d c = Some (t, h)"
  obtains a where "t = ty c" "lh_rep h a" "ls_all a = []" "\<And>p. tagged (ls_from a p)" "\<And>p. di_who c p d = map snd (ls_from a p)"
proof -
  have "case di_msg_listeners d c of None \<Rightarrow> True
     | Some (t, h) \<Rightarrow> t = ty c \<and> (\<exists>a. lh_rep h a \<and> ls_all a = [] \<and> (\<forall>p. tagged (ls_from a p)))"
    using assms(1) unfolding di_ok_def by blast
  then obtain a where "t = ty c" "lh_rep h a" "ls_all a = []" "\<And>p. tagged (ls_from a p)" using assms(2) by auto
  then show ?thesis using di_who_handler [OF assms(2)] that by blast
qed

lemma tagged_fst: "tagged l \<Longrightarrow> map fst (map snd l) = map fst l"
  by (simp add: tagged_def)

lemma tagged_drop: "tagged l \<Longrightarrow> map snd (ls_drop s l) = ls_drop s (map snd l)"
  by (induction l) (auto simp: tagged_def ls_drop_def)

lemma di_who_other: "c' \<noteq> c \<Longrightarrow> di_who c' p (d\<lparr>di_msg_listeners := (di_msg_listeners d)(c \<mapsto> th)\<rparr>) = di_who c' p d"
  by (simp add: di_who_def)

text \<open>A handler of the table is replaced by one with the listeners \<open>b\<close>.\<close>

lemma di_replace:
  assumes "di_ok ty d" and "lh_rep h b" and "ls_all b = []" and "\<And>p. tagged (ls_from b p)"
  shows "di_ok ty (d\<lparr>di_msg_listeners := (di_msg_listeners d)(c \<mapsto> (ty c, h))\<rparr>)"
    and "di_who c' p (d\<lparr>di_msg_listeners := (di_msg_listeners d)(c \<mapsto> (ty c, h))\<rparr>) = (if c' = c then map snd (ls_from b p) else di_who c' p d)"
proof -
  show "di_ok ty (d\<lparr>di_msg_listeners := (di_msg_listeners d)(c \<mapsto> (ty c, h))\<rparr>)"
    using assms by (auto simp: di_ok_def)
  show "di_who c' p (d\<lparr>di_msg_listeners := (di_msg_listeners d)(c \<mapsto> (ty c, h))\<rparr>) = (if c' = c then map snd (ls_from b p) else di_who c' p d)"
    using di_who_handler [of "d\<lparr>di_msg_listeners := (di_msg_listeners d)(c \<mapsto> (ty c, h))\<rparr>" c "ty c" h b p] assms(2,3)
    by (simp add: di_who_other)
qed

lemma di_add:
  assumes ok: "di_ok ty d" and fresh: "s \<notin> fst ` set (di_who c p d)"
  shows "di_ok ty (di_AddListener_to (ty c) c s p (s, x) d)"
    and "di_who c' p' (di_AddListener_to (ty c) c s p (s, x) d) = (if c' = c \<and> p' = p then di_who c p d @ [(s, x)] else di_who c' p' d)"
proof -
  obtain h a where h: "di_with_handler (ty c) c (lh_Connect_to s p (s, x)) d
      = d\<lparr>di_msg_listeners := (di_msg_listeners d)(c \<mapsto> (ty c, lh_Connect_to s p (s, x) h))\<rparr>"
    "lh_rep h a" "ls_all a = []" "\<And>p. tagged (ls_from a p)" "\<And>p. di_who c p d = map snd (ls_from a p)"
  proof (cases "di_msg_listeners d c")
    case None
    show ?thesis by (rule that [of lh_new ls_new]) (simp_all add: None di_with_handler_def lh_rep_new di_who_def, simp_all add: ls_new_def tagged_def)
  next
    case (Some th)
    obtain t h where th: "th = (t, h)" by (cases th)
    obtain a where "t = ty c" "lh_rep h a" "ls_all a = []" "\<And>p. tagged (ls_from a p)" "\<And>p. di_who c p d = map snd (ls_from a p)"
      using di_ok_handler [OF ok] Some th by blast
    then show ?thesis by (intro that [of h a]) (simp_all add: Some th di_with_handler_def)
  qed
  have "s \<notin> fst ` set (ls_from a p)"
    using fresh tagged_fst [OF h(4), of p] unfolding h(5) by (metis list.set_map)
  then have rep: "lh_rep (lh_Connect_to s p (s, x) h) (a\<lparr>ls_from := (ls_from a)(p := ls_from a p @ [(s, (s, x))])\<rparr>)"
    using lh_rep_op [OF h(2), of "OpConnectTo s p (s, x)"] by simp
  have tag: "tagged ((ls_from (a\<lparr>ls_from := (ls_from a)(p := ls_from a p @ [(s, (s, x))])\<rparr>)) q)" for q
    using h(4) [of q] h(4) [of p] by (auto simp: tagged_def)
  have d: "di_AddListener_to (ty c) c s p (s, x) d = d\<lparr>di_msg_listeners := (di_msg_listeners d)(c \<mapsto> (ty c, lh_Connect_to s p (s, x) h))\<rparr>"
    using ok h(1) by (simp add: di_AddListener_to_def di_ok_def)
  note r = di_replace [OF ok rep _ tag, where c = c]
  show "di_ok ty (di_AddListener_to (ty c) c s p (s, x) d)" unfolding d using r(1) h(3) by simp
  show "di_who c' p' (di_AddListener_to (ty c) c s p (s, x) d) = (if c' = c \<and> p' = p then di_who c p d @ [(s, x)] else di_who c' p' d)"
    unfolding d using r(2) [of c' p'] h(3,5) by (simp split del: if_split) (auto simp: h(5))
qed

lemma di_remove:
  assumes ok: "di_ok ty d"
  shows "di_ok ty (di_RemoveListener_from c s p d)"
    and "di_who c' p' (di_RemoveListener_from c s p d) = (if c' = c \<and> p' = p then ls_drop s (di_who c p d) else di_who c' p' d)"
proof -
  have "di_ok ty (di_RemoveListener_from c s p d)
    \<and> di_who c' p' (di_RemoveListener_from c s p d) = (if c' = c \<and> p' = p then ls_drop s (di_who c p d) else di_who c' p' d)"
  proof (cases "di_msg_listeners d c")
    case None
    then show ?thesis using ok by (simp add: di_RemoveListener_from_def di_who_def ls_drop_def)
  next
    case (Some th)
    obtain t h where th: "th = (t, h)" by (cases th)
    obtain a where a: "t = ty c" "lh_rep h a" "ls_all a = []" "\<And>p. tagged (ls_from a p)" "\<And>p. di_who c p d = map snd (ls_from a p)"
      using di_ok_handler [OF ok] Some th by blast
    have rep: "lh_rep (lh_Disconnect_from s p h) (a\<lparr>ls_from := (ls_from a)(p := ls_drop s (ls_from a p))\<rparr>)"
      using lh_rep_op [OF a(2), of "OpDisconnectFrom s p"] by simp
    have tag: "tagged ((ls_from (a\<lparr>ls_from := (ls_from a)(p := ls_drop s (ls_from a p))\<rparr>)) q)" for q
      using a(4) [of q] a(4) [of p] by (auto simp: tagged_def ls_drop_def)
    have d: "di_RemoveListener_from c s p d = d\<lparr>di_msg_listeners := (di_msg_listeners d)(c \<mapsto> (ty c, lh_Disconnect_from s p h))\<rparr>"
      using ok Some th a(1) by (simp add: di_RemoveListener_from_def di_ok_def)
    show ?thesis unfolding d using di_replace(1) [OF ok rep _ tag, where c = c]
      di_replace(2) [OF ok rep _ tag, where c = c and c' = c' and p = p'] a(3,5) tagged_drop [OF a(4), of s p] by auto
  qed
  then show "di_ok ty (di_RemoveListener_from c s p d)"
    "di_who c' p' (di_RemoveListener_from c s p d) = (if c' = c \<and> p' = p then ls_drop s (di_who c p d) else di_who c' p' d)" by simp_all
qed

lemma di_distinct:
  assumes "di_ok ty d"
  shows "distinct (map fst (di_who c p d))"
proof (cases "di_msg_listeners d c")
  case None
  then show ?thesis by (simp add: di_who_def)
next
  case (Some th)
  obtain t h where "th = (t, h)" by (cases th)
  then obtain a where a: "lh_rep h a" "tagged (ls_from a p)" "di_who c p d = map snd (ls_from a p)"
    using di_ok_handler [OF assms] Some by metis
  have "distinct (map fst (ls_from a p))" using a(1) unfolding lh_rep_def reg_def by blast
  then show ?thesis unfolding a(3) tagged_fst [OF a(2)] .
qed

interpretation dt: listener_table "\<lambda>c. di_AddListener_to (ty c) c" di_RemoveListener_from di_who "di_ok ty" for ty
  by unfold_locales (rule di_add di_remove di_distinct; assumption)+

section \<open>Two threads that add a listener\<close>

text \<open>\<open>AddListener\<close> takes no lock: it looks for the channel's handler, puts a new one into the table
  when there is none, and connects the listener. Handlers are shared objects with an address.
  Thread \<open>t\<close> adds the listener \<open>t\<close> to one and the same channel.\<close>

datatype al_pc = AlGet | AlMissing | AlFound nat | AlDone

record al_sys =
  al_heap :: "nat \<Rightarrow> nat listener_handler"
  al_next :: nat
  al_table :: "nat option"
  al_pc :: "nat \<Rightarrow> al_pc"

definition al_start :: al_sys where
  "al_start = \<lparr>al_heap = (\<lambda>_. lh_new), al_next = 0, al_table = None, al_pc = (\<lambda>_. AlGet)\<rparr>"

inductive al_step :: "al_sys \<Rightarrow> al_sys \<Rightarrow> bool" where
  al_get: "al_pc s t = AlGet \<Longrightarrow>
    al_step s (s\<lparr>al_pc := (al_pc s)(t := case al_table s of Some a \<Rightarrow> AlFound a | None \<Rightarrow> AlMissing)\<rparr>)"
| al_set: "al_pc s t = AlMissing \<Longrightarrow>
    al_step s (s\<lparr>al_heap := (al_heap s)(al_next s := lh_new), al_table := Some (al_next s), al_next := Suc (al_next s),
      al_pc := (al_pc s)(t := AlFound (al_next s))\<rparr>)"
| al_connect: "al_pc s t = AlFound a \<Longrightarrow>
    al_step s (s\<lparr>al_heap := (al_heap s)(a := lh_Connect (of_nat t) t (al_heap s a)), al_pc := (al_pc s)(t := AlDone)\<rparr>)"

definition al_called :: "al_sys \<Rightarrow> nat list" where
  "al_called s = (case al_table s of None \<Rightarrow> []
     | Some a \<Rightarrow> snd (lh_Run (\<lambda>cb _ w. w @ [cb]) () mi_default (al_heap s a, [])))"

text \<open>Two threads that add the first listeners of a channel at the same time can lose one for good:
  both find no handler, the second to put one into the table replaces that of the first, and when
  both calls have returned the channel's handler calls the second listener only.\<close>

theorem concurrent_add_loses_listener:
  "\<exists>s. reach al_start al_step s \<and> al_pc s 0 = AlDone \<and> al_pc s 1 = AlDone \<and> al_called s = [1]"
proof -
  let ?R = "reach al_start al_step"
  let ?pc = "\<lambda>x y. (\<lambda>_. AlGet)(0 := x, 1 := y)"
  have "?R \<lparr>al_heap = (\<lambda>_. lh_new), al_next = 0, al_table = None, al_pc = ?pc AlMissing AlMissing\<rparr>"
    apply (rule reach_eq)
      apply (rule reach_one)
      apply (rule al_get [where t = 0])
      apply (simp add: al_start_def)
     apply (rule al_get [where t = 1])
     apply (simp_all add: al_start_def fun_eq_iff)
    done
  then have "?R \<lparr>al_heap = (\<lambda>_. lh_new)(0 := lh_new), al_next = 1, al_table = Some 0, al_pc = ?pc (AlFound 0) AlMissing\<rparr>"
    by (rule reach_eq) (rule al_set [where t = 0], simp_all add: fun_eq_iff)
  then have "?R \<lparr>al_heap = (\<lambda>_. lh_new)(0 := lh_new, 1 := lh_new), al_next = 2, al_table = Some 1, al_pc = ?pc (AlFound 0) (AlFound 1)\<rparr>"
    by (rule reach_eq) (rule al_set [where t = 1], simp_all add: fun_eq_iff)
  then have "?R \<lparr>al_heap = (\<lambda>_. lh_new)(0 := lh_Connect (of_nat 0) 0 lh_new, 1 := lh_new), al_next = 2, al_table = Some 1,
      al_pc = ?pc AlDone (AlFound 1)\<rparr>"
    by (rule reach_eq) (rule al_connect [where t = 0 and a = 0], simp_all add: fun_eq_iff)
  then have r: "?R \<lparr>al_heap = (\<lambda>_. lh_new)(0 := lh_Connect (of_nat 0) 0 lh_new, 1 := lh_Connect (of_nat 1) 1 lh_new), al_next = 2,
      al_table = Some 1, al_pc = ?pc AlDone AlDone\<rparr>"
    by (rule reach_eq) (rule al_connect [where t = 1 and a = 1], simp_all add: fun_eq_iff)
  have "snd (lh_Run (\<lambda>cb _ w. w @ [cb]) () mi_default (lh_Connect (of_nat 1) 1 lh_new, [])) = [1 :: nat]" by code_simp
  then show ?thesis by (intro exI conjI) (rule r, simp_all add: al_called_def)
qed

end
