(* ===== verification/Message_History.thy ===== *)
theory Message_History
  imports Message_Codec
begin

text \<open>
  The history of a transmitter (transport/message/history.h, history_attributes.h): the messages a
  late receiver is given, at most the newest \<open>depth\<close> of them. The configuration is the parameter
  \<open>conf\<close>: the configured maximal depth, if there is one.
\<close>

datatype history_policy = HISTORY_SYSTEM_DEFAULT | HISTORY_KEEP_LAST | HISTORY_KEEP_ALL

record history_attributes =
  ha_history_policy :: history_policy
  ha_depth :: u32

definition ha_default :: history_attributes where
  "ha_default = \<lparr>ha_history_policy = HISTORY_KEEP_LAST, ha_depth = 1000\<rparr>"

record 'm history =
  hi_enabled :: bool
  hi_depth :: u32
  hi_max_depth :: u32
  hi_msgs :: "('m \<times> message_info) list"

definition hi_new :: "u32 option \<Rightarrow> history_attributes \<Rightarrow> 'm history" where
  "hi_new conf attr =
     (let max_depth = (case conf of Some d \<Rightarrow> d | None \<Rightarrow> 1000);
          depth = (if ha_history_policy attr = HISTORY_KEEP_ALL then max_depth else min (ha_depth attr) max_depth) in
      \<lparr>hi_enabled = False, hi_depth = depth, hi_max_depth = max_depth, hi_msgs = []\<rparr>)"

definition hi_Enable :: "'m history \<Rightarrow> 'm history" where "hi_Enable h = h\<lparr>hi_enabled := True\<rparr>"
definition hi_Disable :: "'m history \<Rightarrow> 'm history" where "hi_Disable h = h\<lparr>hi_enabled := False\<rparr>"

text \<open>\<open>while (msgs_.size() > depth_) msgs_.pop_front();\<close>\<close>

fun hi_trim :: "nat \<Rightarrow> 'a list \<Rightarrow> 'a list" where
  "hi_trim n [] = []"
| "hi_trim n (x # xs) = (if n < length (x # xs) then hi_trim n xs else x # xs)"

definition hi_Add :: "'m \<Rightarrow> message_info \<Rightarrow> 'm history \<Rightarrow> 'm history" where
  "hi_Add msg info h =
     (if \<not> hi_enabled h then h else h\<lparr>hi_msgs := hi_trim (unat (hi_depth h)) (hi_msgs h @ [(msg, info)])\<rparr>)"

definition hi_Clear :: "'m history \<Rightarrow> 'm history" where "hi_Clear h = h\<lparr>hi_msgs := []\<rparr>"

text \<open>\<open>GetCachedMessage\<close> inserts before what the vector has.\<close>

definition hi_GetCachedMessage :: "'m history \<Rightarrow> ('m \<times> message_info) list \<Rightarrow> ('m \<times> message_info) list" where
  "hi_GetCachedMessage h msgs = hi_msgs h @ msgs"

definition hi_GetSize :: "'m history \<Rightarrow> nat" where "hi_GetSize h = length (hi_msgs h)"

lemma hi_trim_drop: "hi_trim n xs = drop (length xs - n) xs"
  by (induction xs) (auto simp: Suc_diff_le not_less)

lemma hi_Add_fields [simp]: "hi_enabled (hi_Add m i h) = hi_enabled h" "hi_depth (hi_Add m i h) = hi_depth h"
  "hi_max_depth (hi_Add m i h) = hi_max_depth h"
  by (simp_all add: hi_Add_def)

lemma newest_append: "drop (length (drop (length xs - n) xs @ ys) - n) (drop (length xs - n) xs @ ys) = drop (length (xs @ ys) - n) (xs @ ys)"
proof (cases "length xs \<le> n")
  case False
  let ?k = "length xs - n"
  have "drop ?k xs @ ys = drop ?k (xs @ ys)" by simp
  then have "drop (length (drop ?k xs @ ys) - n) (drop ?k xs @ ys) = drop (length (xs @ ys) - ?k - n + ?k) (xs @ ys)"
    by (simp only: drop_drop length_drop)
  moreover have "length (xs @ ys) - ?k - n + ?k = length (xs @ ys) - n" using False by simp
  ultimately show ?thesis by simp
qed simp

lemma hi_Add_all:
  "hi_enabled h \<Longrightarrow> length (hi_msgs h) \<le> unat (hi_depth h) \<Longrightarrow>
    hi_msgs (fold (\<lambda>(m, i). hi_Add m i) xs h) = drop (length (hi_msgs h @ xs) - unat (hi_depth h)) (hi_msgs h @ xs)"
proof (induction xs arbitrary: h)
  case (Cons x xs)
  obtain m i where x: "x = (m, i)" by (cases x)
  let ?n = "unat (hi_depth h)" and ?l = "hi_msgs h @ [x]"
  have m: "hi_msgs (hi_Add m i h) = drop (length ?l - ?n) ?l"
    using Cons.prems(1) by (simp add: hi_Add_def hi_trim_drop x)
  then have "length (hi_msgs (hi_Add m i h)) \<le> unat (hi_depth (hi_Add m i h))" by (simp only: length_drop hi_Add_fields)
  then have "hi_msgs (fold (\<lambda>(m, i). hi_Add m i) (x # xs) h) =
      drop (length (hi_msgs (hi_Add m i h) @ xs) - ?n) (hi_msgs (hi_Add m i h) @ xs)"
    using Cons.IH [of "hi_Add m i h"] Cons.prems(1) by (simp add: x)
  also have "\<dots> = drop (length (?l @ xs) - ?n) (?l @ xs)" unfolding m by (rule newest_append)
  finally show ?case by simp
qed simp

text \<open>An enabled history holds exactly the newest messages that were added, in their order, as many
  as its depth allows; the depth is the requested one but never more than the configured maximum
  (1000 without a configuration), and the maximum itself when everything is to be kept.\<close>

theorem history_keeps_newest:
  "let h = fold (\<lambda>(m, i). hi_Add m i) xs (hi_Enable (hi_new conf attr));
       limit = (case conf of Some d \<Rightarrow> d | None \<Rightarrow> 1000);
       depth = unat (if ha_history_policy attr = HISTORY_KEEP_ALL then limit else min (ha_depth attr) limit) in
   hi_GetCachedMessage h [] = drop (length xs - depth) xs \<and> hi_GetSize h = min (length xs) depth \<and> depth \<le> unat limit"
proof -
  let ?h = "hi_Enable (hi_new conf attr :: 'a history)"
  have h: "hi_enabled ?h" "hi_msgs ?h = []" by (simp_all add: hi_Enable_def hi_new_def Let_def)
  have "hi_msgs (fold (\<lambda>(m, i). hi_Add m i) xs ?h) = drop (length xs - unat (hi_depth ?h)) xs"
    using hi_Add_all [of ?h xs] h by simp
  then show ?thesis
    by (simp add: hi_GetCachedMessage_def hi_GetSize_def hi_Enable_def hi_new_def Let_def min_def word_le_nat_alt)
qed

end
