(* ===== verification/Hybrid_Transport.thy ===== *)
theory Hybrid_Transport
  imports Message_Dispatcher Message_History
begin

text \<open>
  Transmitters and receivers (transport/common/endpoint.cc, transport/transmitter, transport/receiver):
  the hybrid ones choose a way for each peer by its relation to them - within the process, through
  shared memory or by RTPS - and switch the ways on and off as peers come and go. The shared memory
  segments are in theory \<open>Shm_Transport\<close>, the RTPS library is a parameter. A receiver works on the
  dispatchers of its process, one for each way. \<open>None\<close> is a call through a null pointer.
\<close>

section \<open>Attributes and relations\<close>

datatype durability_policy = DURABILITY_SYSTEM_DEFAULT | DURABILITY_TRANSIENT_LOCAL | DURABILITY_VOLATILE

record qos_profile =
  qp_history :: history_policy
  qp_depth :: u32
  qp_durability :: durability_policy

text \<open>The attributes the transport reads; an absent string is empty.\<close>

record role_attributes =
  ra_host_name :: "string option"
  ra_host_ip :: string
  ra_process_id :: "i32 option"
  ra_channel_name :: string
  ra_channel_id :: u64
  ra_id :: "u64 option"
  ra_qos :: qos_profile

definition ra_get_process_id :: "role_attributes \<Rightarrow> i32" where
  "ra_get_process_id a = (case ra_process_id a of Some p \<Rightarrow> p | None \<Rightarrow> 0)"

definition ra_get_id :: "role_attributes \<Rightarrow> u64" where
  "ra_get_id a = (case ra_id a of Some i \<Rightarrow> i | None \<Rightarrow> 0)"

text \<open>\<open>Endpoint\<close>: the attributes, completed from the process and the endpoint's new identity.\<close>

definition ep_attr :: "string \<Rightarrow> i32 \<Rightarrow> identity \<Rightarrow> role_attributes \<Rightarrow> role_attributes" where
  "ep_attr host_name process_id i attr =
     (let a = (if ra_host_name attr = None then attr\<lparr>ra_host_name := Some host_name\<rparr> else attr);
          a = (if ra_process_id a = None then a\<lparr>ra_process_id := Some process_id\<rparr> else a) in
      if ra_id a = None then a\<lparr>ra_id := Some (id_HashValue i)\<rparr> else a)"

datatype relation = NO_RELATION | DIFF_HOST | DIFF_PROC | SAME_PROC
datatype optional_mode = HYBRID | INTRA | SHM | RTPS

record communication_mode =
  cm_same_proc :: optional_mode
  cm_diff_proc :: optional_mode
  cm_diff_host :: optional_mode

definition cm_default :: communication_mode where
  "cm_default = \<lparr>cm_same_proc = INTRA, cm_diff_proc = SHM, cm_diff_host = RTPS\<rparr>"

type_synonym mapping_table = "relation \<Rightarrow> optional_mode option"

definition mt_of :: "communication_mode \<Rightarrow> mapping_table" where
  "mt_of m = (\<lambda>_. None)(SAME_PROC \<mapsto> cm_same_proc m, DIFF_PROC \<mapsto> cm_diff_proc m, DIFF_HOST \<mapsto> cm_diff_host m)"

text \<open>\<open>mapping_table_[relation]\<close>: what is not there becomes the mode with number 0.\<close>

definition mt_at :: "mapping_table \<Rightarrow> relation \<Rightarrow> optional_mode" where
  "mt_at t r = (case t r of Some m \<Rightarrow> m | None \<Rightarrow> HYBRID)"

definition modes_of :: "communication_mode \<Rightarrow> optional_mode set" where
  "modes_of m = {cm_same_proc m, cm_diff_proc m, cm_diff_host m}"

section \<open>The hybrid transmitter\<close>

text \<open>\<open>ht_transmitters m\<close> is the \<open>enabled_\<close> of the transmitter for mode \<open>m\<close>; \<open>ht_async\<close> the started
  tasks that send the history to a late receiver.\<close>

record 'm hybrid_transmitter =
  ht_attr :: role_attributes
  ht_history :: "'m history option"
  ht_transmitters :: "optional_mode \<Rightarrow> bool option"
  ht_receivers :: "optional_mode \<Rightarrow> u64 set option"
  ht_mode :: "communication_mode option"
  ht_mapping_table :: mapping_table
  ht_async :: "(role_attributes \<times> ('m \<times> message_info) list) list"

definition ht_InitMode :: "'m hybrid_transmitter \<Rightarrow> 'm hybrid_transmitter" where
  "ht_InitMode t = t\<lparr>ht_mode := Some cm_default, ht_mapping_table := mt_of cm_default\<rparr>"

definition ht_ObtainConfig :: "communication_mode option \<Rightarrow> 'm hybrid_transmitter \<Rightarrow> 'm hybrid_transmitter" where
  "ht_ObtainConfig conf t = (case conf of None \<Rightarrow> t | Some m \<Rightarrow> t\<lparr>ht_mode := Some m, ht_mapping_table := mt_of m\<rparr>)"

definition ht_InitHistory :: "u32 option \<Rightarrow> 'm hybrid_transmitter \<Rightarrow> 'm hybrid_transmitter" where
  "ht_InitHistory limit t =
     (let h = hi_new limit \<lparr>ha_history_policy = qp_history (ra_qos (ht_attr t)), ha_depth = qp_depth (ra_qos (ht_attr t))\<rparr> in
      t\<lparr>ht_history := Some (if qp_durability (ra_qos (ht_attr t)) = DURABILITY_TRANSIENT_LOCAL then hi_Enable h else h)\<rparr>)"

definition ht_InitTransmitters :: "'m hybrid_transmitter \<Rightarrow> 'm hybrid_transmitter option" where
  "ht_InitTransmitters t =
     map_option (\<lambda>m. t\<lparr>ht_transmitters := (\<lambda>k. if k \<in> modes_of m then Some False else ht_transmitters t k)\<rparr>) (ht_mode t)"

definition ht_InitReceivers :: "'m hybrid_transmitter \<Rightarrow> 'm hybrid_transmitter" where
  "ht_InitReceivers t = t\<lparr>ht_receivers := (\<lambda>k. if ht_transmitters t k \<noteq> None then Some {} else ht_receivers t k)\<rparr>"

definition ht_new :: "communication_mode option \<Rightarrow> u32 option \<Rightarrow> role_attributes \<Rightarrow> 'm hybrid_transmitter option" where
  "ht_new conf limit attr =
     map_option ht_InitReceivers (ht_InitTransmitters (ht_InitHistory limit (ht_ObtainConfig conf (ht_InitMode
       \<lparr>ht_attr = attr, ht_history = None, ht_transmitters = (\<lambda>_. None), ht_receivers = (\<lambda>_. None), ht_mode = None,
        ht_mapping_table = (\<lambda>_. None), ht_async = []\<rparr>))))"

definition ht_GetRelation :: "role_attributes \<Rightarrow> 'm hybrid_transmitter \<Rightarrow> relation" where
  "ht_GetRelation oppo t =
     (if ra_channel_name oppo \<noteq> ra_channel_name (ht_attr t) then NO_RELATION
      else if ra_host_ip oppo \<noteq> ra_host_ip (ht_attr t) then DIFF_HOST
      else if ra_get_process_id oppo \<noteq> ra_get_process_id (ht_attr t) then DIFF_PROC else SAME_PROC)"

text \<open>\<open>Enable\<close> of the transmitter for a mode; that of RTPS needs a participant and a publisher
  (\<open>rtps\<close>).\<close>

definition tr_Enable :: "bool \<Rightarrow> optional_mode \<Rightarrow> bool \<Rightarrow> bool" where
  "tr_Enable rtps m enabled = (if m = INTRA \<or> m = SHM then True else enabled \<or> rtps)"

definition ht_Enable_all :: "bool \<Rightarrow> 'm hybrid_transmitter \<Rightarrow> 'm hybrid_transmitter" where
  "ht_Enable_all rtps t = t\<lparr>ht_transmitters := (\<lambda>m. map_option (tr_Enable rtps m) (ht_transmitters t m))\<rparr>"

definition ht_Disable_all :: "'m hybrid_transmitter \<Rightarrow> 'm hybrid_transmitter" where
  "ht_Disable_all t = t\<lparr>ht_transmitters := (\<lambda>m. map_option (\<lambda>_. False) (ht_transmitters t m))\<rparr>"

definition ht_TransmitHistoryMsg :: "role_attributes \<Rightarrow> 'm hybrid_transmitter \<Rightarrow> 'm hybrid_transmitter option" where
  "ht_TransmitHistoryMsg oppo t =
     (if qp_durability (ra_qos (ht_attr t)) \<noteq> DURABILITY_TRANSIENT_LOCAL then Some t
      else map_option (\<lambda>h. let unsent = hi_GetCachedMessage h [] in
          if unsent = [] then t else t\<lparr>ht_async := ht_async t @ [(oppo, unsent)]\<rparr>) (ht_history t))"

definition ht_Enable :: "bool \<Rightarrow> role_attributes \<Rightarrow> 'm hybrid_transmitter \<Rightarrow> 'm hybrid_transmitter option" where
  "ht_Enable rtps oppo t =
     (let r = ht_GetRelation oppo t; m = mt_at (ht_mapping_table t) r in
      if r = NO_RELATION then Some t
      else do {
        let ids = (case ht_receivers t m of Some s \<Rightarrow> s | None \<Rightarrow> {});
        e \<leftarrow> ht_transmitters t m;
        ht_TransmitHistoryMsg oppo (t\<lparr>ht_receivers := (ht_receivers t)(m \<mapsto> insert (ra_get_id oppo) ids),
          ht_transmitters := (ht_transmitters t)(m \<mapsto> tr_Enable rtps m e)\<rparr>) })"

definition ht_Disable :: "role_attributes \<Rightarrow> 'm hybrid_transmitter \<Rightarrow> 'm hybrid_transmitter option" where
  "ht_Disable oppo t =
     (let r = ht_GetRelation oppo t; m = mt_at (ht_mapping_table t) r in
      if r = NO_RELATION then Some t
      else (let ids = (case ht_receivers t m of Some s \<Rightarrow> s | None \<Rightarrow> {}) - {ra_get_id oppo};
               t = t\<lparr>ht_receivers := (ht_receivers t)(m \<mapsto> ids)\<rparr> in
            if ids \<noteq> {} then Some t
            else map_option (\<lambda>_. t\<lparr>ht_transmitters := (ht_transmitters t)(m \<mapsto> False)\<rparr>) (ht_transmitters t m)))"

text \<open>\<open>Transmit\<close>: into the history, and to every transmitter; the enabled ones pass it on.\<close>

definition ht_Transmit :: "'m \<Rightarrow> message_info \<Rightarrow> 'm hybrid_transmitter \<Rightarrow> (optional_mode set \<times> 'm hybrid_transmitter) option" where
  "ht_Transmit msg info t =
     map_option (\<lambda>h. ({m. ht_transmitters t m = Some True}, t\<lparr>ht_history := Some (hi_Add msg info h)\<rparr>)) (ht_history t)"

definition ht_Clear :: "'m hybrid_transmitter \<Rightarrow> 'm hybrid_transmitter" where
  "ht_Clear t = t\<lparr>ht_receivers := (\<lambda>_. None), ht_transmitters := (\<lambda>_. None)\<rparr>"

text \<open>\<open>ThreadFunc\<close>: the name of the channel between the two for the history, and what is sent on it.\<close>

definition ht_history_channel :: "role_attributes \<Rightarrow> 'm hybrid_transmitter \<Rightarrow> string" where
  "ht_history_channel oppo t = dec (unat (ra_get_id (ht_attr t))) @ dec (unat (ra_get_id oppo))"

section \<open>Receivers for one way\<close>

text \<open>\<open>IntraReceiver\<close>, \<open>ShmReceiver\<close> and \<open>RtpsReceiver\<close> differ in the dispatcher and the type of the
  handlers there. \<open>cb\<close> is the receiver's \<open>OnNewMessage\<close>.\<close>

definition rc_type :: "msg_type \<Rightarrow> optional_mode \<Rightarrow> msg_type" where
  "rc_type ty m = (case m of INTRA \<Rightarrow> ty | SHM \<Rightarrow> ReadableBlock | _ \<Rightarrow> StdString)"

definition rc_Enable :: "msg_type \<Rightarrow> optional_mode \<Rightarrow> role_attributes \<Rightarrow> 'cb \<Rightarrow> bool \<times> 'cb dispatcher \<Rightarrow> bool \<times> 'cb dispatcher" where
  "rc_Enable ty m attr cb ed = (case ed of (enabled, d) \<Rightarrow>
     if enabled then (enabled, d)
     else (True, di_AddListener (rc_type ty m) (ra_channel_id attr) (ra_get_id attr) cb d))"

definition rc_Disable :: "role_attributes \<Rightarrow> bool \<times> 'cb dispatcher \<Rightarrow> bool \<times> 'cb dispatcher" where
  "rc_Disable attr ed = (case ed of (enabled, d) \<Rightarrow>
     if \<not> enabled then (enabled, d) else (False, di_RemoveListener (ra_channel_id attr) (ra_get_id attr) d))"

definition rc_Enable_to :: "msg_type \<Rightarrow> optional_mode \<Rightarrow> role_attributes \<Rightarrow> 'cb \<Rightarrow> role_attributes \<Rightarrow> 'cb dispatcher \<Rightarrow> 'cb dispatcher" where
  "rc_Enable_to ty m attr cb oppo = di_AddListener_to (rc_type ty m) (ra_channel_id attr) (ra_get_id attr) (ra_get_id oppo) cb"

definition rc_Disable_from :: "role_attributes \<Rightarrow> role_attributes \<Rightarrow> 'cb dispatcher \<Rightarrow> 'cb dispatcher" where
  "rc_Disable_from attr oppo = di_RemoveListener_from (ra_channel_id attr) (ra_get_id attr) (ra_get_id oppo)"

section \<open>The hybrid receiver\<close>

record hybrid_receiver =
  hr_attr :: role_attributes
  hr_receivers :: "optional_mode \<Rightarrow> bool option"
  hr_transmitters :: "optional_mode \<Rightarrow> (u64 \<Rightarrow> role_attributes option) option"
  hr_mode :: "communication_mode option"
  hr_mapping_table :: mapping_table
  hr_async :: "role_attributes list"

type_synonym 'cb dispatchers = "optional_mode \<Rightarrow> 'cb dispatcher"

text \<open>Every mode that is not \<open>INTRA\<close> or \<open>SHM\<close> goes through the RTPS dispatcher.\<close>

definition way :: "optional_mode \<Rightarrow> optional_mode" where
  "way m = (case m of INTRA \<Rightarrow> INTRA | SHM \<Rightarrow> SHM | _ \<Rightarrow> RTPS)"

definition hr_InitMode :: "hybrid_receiver \<Rightarrow> hybrid_receiver" where
  "hr_InitMode r = r\<lparr>hr_mode := Some cm_default, hr_mapping_table := mt_of cm_default\<rparr>"

definition hr_ObtainConfig :: "communication_mode option \<Rightarrow> hybrid_receiver \<Rightarrow> hybrid_receiver" where
  "hr_ObtainConfig conf r = (case conf of None \<Rightarrow> r | Some m \<Rightarrow> r\<lparr>hr_mode := Some m, hr_mapping_table := mt_of m\<rparr>)"

definition hr_InitReceivers :: "hybrid_receiver \<Rightarrow> hybrid_receiver option" where
  "hr_InitReceivers r =
     map_option (\<lambda>m. r\<lparr>hr_receivers := (\<lambda>k. if k \<in> modes_of m then Some False else hr_receivers r k)\<rparr>) (hr_mode r)"

definition hr_InitTransmitters :: "hybrid_receiver \<Rightarrow> hybrid_receiver" where
  "hr_InitTransmitters r = r\<lparr>hr_transmitters := (\<lambda>k. if hr_receivers r k \<noteq> None then Some (\<lambda>_. None) else hr_transmitters r k)\<rparr>"

definition hr_new :: "communication_mode option \<Rightarrow> role_attributes \<Rightarrow> hybrid_receiver option" where
  "hr_new conf attr =
     map_option hr_InitTransmitters (hr_InitReceivers (hr_ObtainConfig conf (hr_InitMode
       \<lparr>hr_attr = attr, hr_receivers = (\<lambda>_. None), hr_transmitters = (\<lambda>_. None), hr_mode = None,
        hr_mapping_table = (\<lambda>_. None), hr_async = []\<rparr>)))"

definition hr_GetRelation :: "role_attributes \<Rightarrow> hybrid_receiver \<Rightarrow> relation" where
  "hr_GetRelation oppo r =
     (if ra_channel_name oppo \<noteq> ra_channel_name (hr_attr r) then NO_RELATION
      else if ra_host_ip oppo \<noteq> ra_host_ip (hr_attr r) then DIFF_HOST
      else if ra_get_process_id oppo \<noteq> ra_get_process_id (hr_attr r) then DIFF_PROC else SAME_PROC)"

text \<open>\<open>Enable()\<close> and \<open>Disable()\<close>, for listening to everyone, receiver after receiver.\<close>

fun hr_each :: "(optional_mode \<Rightarrow> bool \<times> 'cb dispatcher \<Rightarrow> bool \<times> 'cb dispatcher) \<Rightarrow> optional_mode list
    \<Rightarrow> hybrid_receiver \<times> 'cb dispatchers \<Rightarrow> hybrid_receiver \<times> 'cb dispatchers" where
  "hr_each f [] rd = rd"
| "hr_each f (m # ms) (r, d) = hr_each f ms (case hr_receivers r m of
       None \<Rightarrow> (r, d)
     | Some e \<Rightarrow> (let (e, x) = f m (e, d (way m)) in (r\<lparr>hr_receivers := (hr_receivers r)(m \<mapsto> e)\<rparr>, d(way m := x))))"

definition hr_Enable_all :: "msg_type \<Rightarrow> 'cb \<Rightarrow> hybrid_receiver \<times> 'cb dispatchers \<Rightarrow> hybrid_receiver \<times> 'cb dispatchers" where
  "hr_Enable_all ty cb rd = hr_each (\<lambda>m. rc_Enable ty m (hr_attr (fst rd)) cb) [HYBRID, INTRA, SHM, RTPS] rd"

definition hr_Disable_all :: "hybrid_receiver \<times> 'cb dispatchers \<Rightarrow> hybrid_receiver \<times> 'cb dispatchers" where
  "hr_Disable_all rd = hr_each (\<lambda>m. rc_Disable (hr_attr (fst rd))) [HYBRID, INTRA, SHM, RTPS] rd"

text \<open>The tasks for the history are started with the peer they are for; what one does to the dispatcher of
  RTPS when it runs is \<open>hr_ThreadFunc_begin\<close> and \<open>hr_ThreadFunc_end\<close> in theory \<open>Transport_Endpoints\<close>.\<close>

definition hr_ReceiveHistoryMsg :: "role_attributes \<Rightarrow> hybrid_receiver \<Rightarrow> hybrid_receiver" where
  "hr_ReceiveHistoryMsg oppo r =
     (if qp_durability (ra_qos oppo) \<noteq> DURABILITY_TRANSIENT_LOCAL then r else r\<lparr>hr_async := hr_async r @ [oppo]\<rparr>)"

definition hr_known :: "optional_mode \<Rightarrow> hybrid_receiver \<Rightarrow> u64 \<Rightarrow> role_attributes option" where
  "hr_known m r = (case hr_transmitters r m of Some t \<Rightarrow> t | None \<Rightarrow> (\<lambda>_. None))"

definition hr_Enable :: "msg_type \<Rightarrow> 'cb \<Rightarrow> role_attributes \<Rightarrow> hybrid_receiver \<times> 'cb dispatchers
    \<Rightarrow> (hybrid_receiver \<times> 'cb dispatchers) option" where
  "hr_Enable ty cb oppo rd = (case rd of (r, d) \<Rightarrow>
     (let rel = hr_GetRelation oppo r; m = mt_at (hr_mapping_table r) rel; i = ra_get_id oppo in
      if rel = NO_RELATION then Some (r, d)
      else if hr_known m r i \<noteq> None then Some (r, d)
      else if hr_receivers r m = None then None
      else Some (hr_ReceiveHistoryMsg oppo (r\<lparr>hr_transmitters := (hr_transmitters r)(m \<mapsto> (hr_known m r)(i \<mapsto> oppo))\<rparr>),
                 d(way m := rc_Enable_to ty m (hr_attr r) cb oppo (d (way m))))))"

definition hr_Disable :: "role_attributes \<Rightarrow> hybrid_receiver \<times> 'cb dispatchers \<Rightarrow> (hybrid_receiver \<times> 'cb dispatchers) option" where
  "hr_Disable oppo rd = (case rd of (r, d) \<Rightarrow>
     (let rel = hr_GetRelation oppo r; m = mt_at (hr_mapping_table r) rel; i = ra_get_id oppo in
      if rel = NO_RELATION then Some (r, d)
      else if hr_known m r i = None then Some (r, d)
      else if hr_receivers r m = None then None
      else Some (r\<lparr>hr_transmitters := (hr_transmitters r)(m \<mapsto> (hr_known m r)(i := None))\<rparr>,
                 d(way m := rc_Disable_from (hr_attr r) oppo (d (way m))))))"

text \<open>The channel for the history of \<open>oppo\<close>, in \<open>ThreadFunc\<close>.\<close>

definition hr_history_channel :: "role_attributes \<Rightarrow> hybrid_receiver \<Rightarrow> string" where
  "hr_history_channel oppo r = dec (unat (ra_get_id oppo)) @ dec (unat (ra_get_id (hr_attr r)))"

section \<open>A transmitter is on when somebody listens\<close>

inductive ht_step :: "bool \<Rightarrow> 'm hybrid_transmitter \<Rightarrow> 'm hybrid_transmitter \<Rightarrow> bool" for rtps where
  hs_enable: "ht_Enable rtps oppo t = Some t' \<Longrightarrow> ht_step rtps t t'"
| hs_disable: "ht_Disable oppo t = Some t' \<Longrightarrow> ht_step rtps t t'"
| hs_transmit: "ht_Transmit msg info t = Some (c, t') \<Longrightarrow> ht_step rtps t t'"

definition modes_ok :: "bool \<Rightarrow> communication_mode \<Rightarrow> (optional_mode \<Rightarrow> bool option) \<Rightarrow> (optional_mode \<Rightarrow> u64 set option) \<Rightarrow> bool" where
  "modes_ok rtps cm tr rc \<longleftrightarrow> (\<forall>m. if m \<in> modes_of cm
     then (\<exists>ids. rc m = Some ids \<and> tr m = Some ((m = INTRA \<or> m = SHM \<or> rtps) \<and> ids \<noteq> {})) else tr m = None \<and> rc m = None)"

lemma modes_ok_at: "modes_ok rtps cm tr rc \<Longrightarrow> m \<in> modes_of cm \<Longrightarrow>
    \<exists>ids. rc m = Some ids \<and> tr m = Some ((m = INTRA \<or> m = SHM \<or> rtps) \<and> ids \<noteq> {})"
  by (simp add: modes_ok_def)

lemma modes_ok_upd: "modes_ok rtps cm tr rc \<Longrightarrow> m \<in> modes_of cm \<Longrightarrow> b = ((m = INTRA \<or> m = SHM \<or> rtps) \<and> ids \<noteq> {}) \<Longrightarrow>
    modes_ok rtps cm (tr(m \<mapsto> b)) (rc(m \<mapsto> ids))"
  by (simp add: modes_ok_def)

lemma modes_ok_on:
  "tr m = Some True \<longleftrightarrow> (\<exists>ids. rc m = Some ids \<and> ids \<noteq> {}) \<and> (m = INTRA \<or> m = SHM \<or> rtps)" if "modes_ok rtps cm tr rc"
proof (cases "m \<in> modes_of cm")
  case True
  then show ?thesis using modes_ok_at [of rtps cm tr rc m] that by fastforce
next
  case False
  then show ?thesis using that by (simp add: modes_ok_def)
qed

definition ht_inv :: "bool \<Rightarrow> communication_mode \<Rightarrow> role_attributes \<Rightarrow> 'm hybrid_transmitter \<Rightarrow> bool" where
  "ht_inv rtps cm attr t \<longleftrightarrow> ht_attr t = attr \<and> ht_mapping_table t = mt_of cm \<and> ht_history t \<noteq> None
     \<and> modes_ok rtps cm (ht_transmitters t) (ht_receivers t)"

lemma mt_of_mode: "r \<noteq> NO_RELATION \<Longrightarrow> mt_at (mt_of cm) r \<in> modes_of cm"
  by (cases r) (auto simp: mt_at_def mt_of_def modes_of_def)

definition conf_mode :: "communication_mode option \<Rightarrow> communication_mode" where
  "conf_mode conf = (case conf of Some m \<Rightarrow> m | None \<Rightarrow> cm_default)"

lemma ht_new_inv: "ht_new conf limit attr = Some t \<Longrightarrow> ht_inv rtps (conf_mode conf) attr t"
  by (cases conf)
    (auto simp: ht_new_def ht_InitTransmitters_def ht_InitReceivers_def ht_InitHistory_def ht_ObtainConfig_def ht_InitMode_def
      ht_inv_def conf_mode_def modes_ok_def Let_def)

lemma ht_TransmitHistoryMsg_fields:
  "ht_TransmitHistoryMsg oppo t = Some t' \<Longrightarrow> ht_attr t' = ht_attr t \<and> ht_mapping_table t' = ht_mapping_table t
    \<and> ht_history t' = ht_history t \<and> ht_transmitters t' = ht_transmitters t \<and> ht_receivers t' = ht_receivers t"
  by (auto simp: ht_TransmitHistoryMsg_def Let_def split: if_splits)

lemma ht_TransmitHistoryMsg_some: "ht_history t \<noteq> None \<Longrightarrow> \<exists>t'. ht_TransmitHistoryMsg oppo t = Some t'"
  by (auto simp: ht_TransmitHistoryMsg_def)

lemma ht_Enable_result:
  assumes inv: "ht_inv rtps cm attr t" and r: "ht_GetRelation oppo t \<noteq> NO_RELATION"
  defines "m \<equiv> mt_at (mt_of cm) (ht_GetRelation oppo t)"
  shows "\<exists>t' ids. ht_Enable rtps oppo t = Some t' \<and> ht_inv rtps cm attr t' \<and> ht_receivers t m = Some ids
    \<and> ht_receivers t' = (ht_receivers t)(m \<mapsto> insert (ra_get_id oppo) ids)"
proof -
  have m: "m \<in> modes_of cm" unfolding m_def using mt_of_mode [OF r] .
  have ok: "modes_ok rtps cm (ht_transmitters t) (ht_receivers t)" and mt: "ht_mapping_table t = mt_of cm"
    and h: "ht_attr t = attr" "ht_history t \<noteq> None" using inv by (simp_all add: ht_inv_def)
  obtain ids where ids: "ht_receivers t m = Some ids" "ht_transmitters t m = Some ((m = INTRA \<or> m = SHM \<or> rtps) \<and> ids \<noteq> {})"
    using modes_ok_at [OF ok m] by blast
  define t1 where "t1 = t\<lparr>ht_receivers := (ht_receivers t)(m \<mapsto> insert (ra_get_id oppo) ids),
          ht_transmitters := (ht_transmitters t)(m \<mapsto> tr_Enable rtps m ((m = INTRA \<or> m = SHM \<or> rtps) \<and> ids \<noteq> {}))\<rparr>"
  have call: "ht_Enable rtps oppo t = ht_TransmitHistoryMsg oppo t1"
    using r ids by (simp add: ht_Enable_def mt m_def [symmetric] t1_def Let_def)
  have t1: "ht_attr t1 = attr" "ht_mapping_table t1 = mt_of cm" "ht_history t1 \<noteq> None"
    "ht_receivers t1 = (ht_receivers t)(m \<mapsto> insert (ra_get_id oppo) ids)" using mt h by (simp_all add: t1_def)
  have "tr_Enable rtps m ((m = INTRA \<or> m = SHM \<or> rtps) \<and> ids \<noteq> {}) = ((m = INTRA \<or> m = SHM \<or> rtps) \<and> insert (ra_get_id oppo) ids \<noteq> {})"
    by (auto simp: tr_Enable_def)
  from modes_ok_upd [OF ok m this] have "modes_ok rtps cm (ht_transmitters t1) (ht_receivers t1)" by (simp add: t1_def)
  then have "ht_inv rtps cm attr t1" using t1 by (simp add: ht_inv_def)
  moreover obtain t' where t': "ht_TransmitHistoryMsg oppo t1 = Some t'" using ht_TransmitHistoryMsg_some [OF t1(3)] by blast
  ultimately show ?thesis using ht_TransmitHistoryMsg_fields [OF t'] t' ids(1) t1(4) unfolding call by (simp add: ht_inv_def)
qed

lemma ht_Disable_result:
  assumes inv: "ht_inv rtps cm attr t" and r: "ht_GetRelation oppo t \<noteq> NO_RELATION"
  defines "m \<equiv> mt_at (mt_of cm) (ht_GetRelation oppo t)"
  shows "\<exists>t' ids. ht_Disable oppo t = Some t' \<and> ht_inv rtps cm attr t' \<and> ht_receivers t m = Some ids
    \<and> ht_receivers t' = (ht_receivers t)(m \<mapsto> ids - {ra_get_id oppo})"
proof -
  have m: "m \<in> modes_of cm" unfolding m_def using mt_of_mode [OF r] .
  have ok: "modes_ok rtps cm (ht_transmitters t) (ht_receivers t)" and mt: "ht_mapping_table t = mt_of cm"
    and h: "ht_attr t = attr" "ht_history t \<noteq> None" using inv by (simp_all add: ht_inv_def)
  obtain ids where ids: "ht_receivers t m = Some ids" "ht_transmitters t m = Some ((m = INTRA \<or> m = SHM \<or> rtps) \<and> ids \<noteq> {})"
    using modes_ok_at [OF ok m] by blast
  let ?rest = "ids - {ra_get_id oppo}"
  let ?t = "t\<lparr>ht_receivers := (ht_receivers t)(m \<mapsto> ?rest)\<rparr>"
  show ?thesis
  proof (cases "?rest = {}")
    case True
    have "ht_Disable oppo t = Some (?t\<lparr>ht_transmitters := (ht_transmitters t)(m \<mapsto> False)\<rparr>)"
      using r ids True by (simp add: ht_Disable_def mt m_def [symmetric] Let_def del: Diff_eq_empty_iff)
    moreover have "modes_ok rtps cm ((ht_transmitters t)(m \<mapsto> False)) ((ht_receivers t)(m \<mapsto> ?rest))"
      by (rule modes_ok_upd [OF ok m]) (simp add: True del: Diff_eq_empty_iff)
    ultimately show ?thesis using mt h ids(1) by (simp add: ht_inv_def)
  next
    case False
    have call: "ht_Disable oppo t = Some ?t"
      using r ids False by (simp add: ht_Disable_def mt m_def [symmetric] Let_def del: Diff_eq_empty_iff)
    have "ids \<noteq> {}" using False by blast
    then have "modes_ok rtps cm ((ht_transmitters t)(m \<mapsto> (m = INTRA \<or> m = SHM \<or> rtps) \<and> ids \<noteq> {})) ((ht_receivers t)(m \<mapsto> ?rest))"
      using False by (intro modes_ok_upd [OF ok m]) (simp del: Diff_eq_empty_iff)
    then have "modes_ok rtps cm (ht_transmitters t) ((ht_receivers t)(m \<mapsto> ?rest))" by (simp only: fun_upd_idem [of "ht_transmitters t" m, OF ids(2)])
    then show ?thesis using mt h ids(1) unfolding call by (simp add: ht_inv_def)
  qed
qed

lemma ht_no_relation:
  assumes "ht_GetRelation oppo t = NO_RELATION"
  shows "ht_Enable rtps oppo t = Some t" and "ht_Disable oppo t = Some t"
  using assms by (simp_all add: ht_Enable_def ht_Disable_def)

lemma ht_step_inv:
  assumes "ht_step rtps t t'" and inv: "ht_inv rtps cm attr t"
  shows "ht_inv rtps cm attr t'"
  using assms(1)
proof cases
  case (hs_enable oppo)
  then show ?thesis using ht_Enable_result [OF inv, of oppo] inv ht_no_relation [of oppo t] by (cases "ht_GetRelation oppo t = NO_RELATION") auto
next
  case (hs_disable oppo)
  then show ?thesis using ht_Disable_result [OF inv, of oppo] inv ht_no_relation [of oppo t] by (cases "ht_GetRelation oppo t = NO_RELATION") auto
next
  case (hs_transmit msg info c)
  then show ?thesis using inv by (auto simp: ht_Transmit_def ht_inv_def)
qed

lemma ht_reach_inv:
  "reach t0 (ht_step rtps) t \<Longrightarrow> ht_new conf limit attr = Some t0 \<Longrightarrow> ht_inv rtps (conf_mode conf) attr t"
  by (induction rule: reach.induct) (auto intro: ht_new_inv ht_step_inv)

text \<open>C33: A hybrid transmitter pays for exactly the ways it needs: after any sequence of peers that come
  and go and messages that are sent, no call fails, and a message is handed to exactly those ways -
  within the process, shared memory, RTPS - on which at least one receiver is registered (RTPS where
  a participant can be had).\<close>

theorem transmitter_on_iff_needed:
  assumes "ht_new conf limit attr = Some t0" and "reach t0 (ht_step rtps) t"
  shows "(\<exists>t'. ht_Enable rtps oppo t = Some t') \<and> (\<exists>t'. ht_Disable oppo t = Some t')
    \<and> (\<exists>t'. ht_Transmit msg info t = Some ({m. (\<exists>ids. ht_receivers t m = Some ids \<and> ids \<noteq> {}) \<and> (m = INTRA \<or> m = SHM \<or> rtps)}, t'))"
proof -
  have inv: "ht_inv rtps (conf_mode conf) attr t" by (rule ht_reach_inv [OF assms(2,1)])
  then have h: "ht_history t \<noteq> None" "modes_ok rtps (conf_mode conf) (ht_transmitters t) (ht_receivers t)" by (simp_all add: ht_inv_def)
  have "(\<exists>t'. ht_Enable rtps oppo t = Some t') \<and> (\<exists>t'. ht_Disable oppo t = Some t')"
    using ht_Enable_result [OF inv, of oppo] ht_Disable_result [OF inv, of oppo] ht_no_relation [of oppo t]
    by (cases "ht_GetRelation oppo t = NO_RELATION") auto
  then show ?thesis using h(1) by (auto simp: ht_Transmit_def modes_ok_on [OF h(2)])
qed

definition w_attr :: "u64 \<Rightarrow> role_attributes" where
  "w_attr i = \<lparr>ra_host_name = None, ra_host_ip = ''h'', ra_process_id = Some 1, ra_channel_name = ''c'', ra_channel_id = 7, ra_id = Some i,
     ra_qos = \<lparr>qp_history = HISTORY_KEEP_LAST, qp_depth = 1, qp_durability = DURABILITY_TRANSIENT_LOCAL\<rparr>\<rparr>"

lemma transmitter_on_iff_needed_witness:
  "\<exists>t t' :: string hybrid_transmitter. Option.bind (ht_new None None (w_attr 5)) (ht_Enable False (w_attr 3)) = Some t
     \<and> ht_Transmit ''m'' mi_default t = Some ({INTRA}, t')"
proof -
  obtain t0 :: "string hybrid_transmitter" where t0: "ht_new None None (w_attr 5) = Some t0"
    by (simp add: ht_new_def ht_InitTransmitters_def ht_ObtainConfig_def ht_InitMode_def ht_InitHistory_def Let_def)
  have inv: "ht_inv False (conf_mode None) (w_attr 5) t0" by (rule ht_new_inv [OF t0])
  have rel: "ht_GetRelation (w_attr 3) t0 = SAME_PROC" using inv by (simp add: ht_GetRelation_def ht_inv_def w_attr_def ra_get_process_id_def)
  have rc0: "ht_receivers t0 = (\<lambda>k. if k \<in> modes_of cm_default then Some {} else None)"
    using t0 by (auto simp: ht_new_def ht_InitTransmitters_def ht_InitReceivers_def ht_ObtainConfig_def ht_InitMode_def ht_InitHistory_def Let_def fun_eq_iff)
  obtain t where t: "ht_Enable False (w_attr 3) t0 = Some t" "ht_receivers t = (ht_receivers t0)(INTRA \<mapsto> {3})"
    using ht_Enable_result [OF inv, of "w_attr 3"] rel rc0
    by (auto simp: conf_mode_def cm_default_def mt_at_def mt_of_def w_attr_def ra_get_id_def modes_of_def)
  have rt: "reach t0 (ht_step False) t" by (rule reach_one) (rule hs_enable [OF t(1)])
  have "{m. (\<exists>ids. ht_receivers t m = Some ids \<and> ids \<noteq> {}) \<and> (m = INTRA \<or> m = SHM \<or> False)} = {INTRA}" by (auto simp: t(2) rc0)
  then show ?thesis using transmitter_on_iff_needed [OF t0 rt, of "w_attr 3" "''m''" mi_default] t0 t(1) by auto
qed

end
