(* ===== verification/Hybrid_Delivery.thy ===== *)
theory Hybrid_Delivery
  imports Hybrid_Transport
begin

text \<open>
  Hybrid receivers of a process with its dispatchers, and a message of a hybrid transmitter that
  reaches the process on the ways the transmitter uses. A receiver is a number; its listener logs
  the number and the message. The protobuf library's \<open>ser\<close> and \<open>parse\<close> are parameters.
\<close>

section \<open>A process\<close>

record process =
  pr_disp :: "(u64 \<times> u64) dispatchers"
  pr_rx :: "u64 \<Rightarrow> hybrid_receiver"

definition pr_start :: "communication_mode option \<Rightarrow> (u64 \<Rightarrow> role_attributes) \<Rightarrow> process" where
  "pr_start conf attr = \<lparr>pr_disp = (\<lambda>_. di_new), pr_rx = (\<lambda>r. the (hr_new conf (attr r)))\<rparr>"

inductive pr_step :: "(u64 \<Rightarrow> msg_type) \<Rightarrow> (u64 \<Rightarrow> role_attributes) \<Rightarrow> (u64 \<Rightarrow> role_attributes) \<Rightarrow> process \<Rightarrow> process \<Rightarrow> bool"
  for ty attr peer where
  ps_enable: "hr_Enable (ty (ra_channel_id (attr r))) (ra_get_id (attr r), r) (peer i) (pr_rx s r, pr_disp s) = Some (x, d) \<Longrightarrow>
    pr_step ty attr peer s \<lparr>pr_disp = d, pr_rx = (pr_rx s)(r := x)\<rparr>"
| ps_disable: "hr_Disable (peer i) (pr_rx s r, pr_disp s) = Some (x, d) \<Longrightarrow>
    pr_step ty attr peer s \<lparr>pr_disp = d, pr_rx = (pr_rx s)(r := x)\<rparr>"

text \<open>What a listener does with what its dispatcher gives it: the adapters of \<open>AddListener\<close> parse bytes
  and drop what they cannot parse; then \<open>OnNewMessage\<close> calls the client.\<close>

definition rx_run :: "(string \<Rightarrow> 'm option) \<Rightarrow> u64 \<times> u64 \<Rightarrow> 'm payload \<times> message_info \<Rightarrow> (u64 \<times> 'm) list \<Rightarrow> (u64 \<times> 'm) list" where
  "rx_run parse cb pi w =
     (case (case fst pi of Message m \<Rightarrow> Some m | Raw b \<Rightarrow> parse b | Bytes b \<Rightarrow> parse b) of
        None \<Rightarrow> w
      | Some m \<Rightarrow> w @ [(snd cb, m)])"

definition pr_deliver :: "(string \<Rightarrow> 'm option) \<Rightarrow> ('m \<Rightarrow> string) \<Rightarrow> msg_type \<Rightarrow> u64 \<Rightarrow> 'm \<Rightarrow> message_info \<Rightarrow> optional_mode
    \<Rightarrow> process \<times> (u64 \<times> 'm) list \<Rightarrow> (process \<times> (u64 \<times> 'm) list) option" where
  "pr_deliver parse ser ty c msg info m sw = (case sw of (s, w) \<Rightarrow>
     let d = pr_disp s (way m) in
     map_option (\<lambda>(d, w). (s\<lparr>pr_disp := (pr_disp s)(way m := d)\<rparr>, w))
       (if m = INTRA then Some (intra_OnMessage (rx_run parse) ser ty c msg info (d, w))
        else bytes_OnMessage (rc_type ty m) (rx_run parse) c (ser msg) info (d, w)))"

fun pr_deliver_all :: "(string \<Rightarrow> 'm option) \<Rightarrow> ('m \<Rightarrow> string) \<Rightarrow> msg_type \<Rightarrow> u64 \<Rightarrow> 'm \<Rightarrow> message_info \<Rightarrow> optional_mode list
    \<Rightarrow> process \<times> (u64 \<times> 'm) list \<Rightarrow> (process \<times> (u64 \<times> 'm) list) option" where
  "pr_deliver_all parse ser ty c msg info [] sw = Some sw"
| "pr_deliver_all parse ser ty c msg info (m # ms) sw =
     Option.bind (pr_deliver parse ser ty c msg info m sw) (pr_deliver_all parse ser ty c msg info ms)"

section \<open>Who listens where\<close>

definition rel_of :: "role_attributes \<Rightarrow> role_attributes \<Rightarrow> relation" where
  "rel_of oppo a =
     (if ra_channel_name oppo \<noteq> ra_channel_name a then NO_RELATION
      else if ra_host_ip oppo \<noteq> ra_host_ip a then DIFF_HOST
      else if ra_get_process_id oppo \<noteq> ra_get_process_id a then DIFF_PROC else SAME_PROC)"

lemma hr_GetRelation_rel: "hr_GetRelation oppo r = rel_of oppo (hr_attr r)"
  by (simp add: hr_GetRelation_def rel_of_def)

definition mode_for :: "communication_mode \<Rightarrow> role_attributes \<Rightarrow> role_attributes \<Rightarrow> optional_mode" where
  "mode_for cm oppo a = mt_at (mt_of cm) (rel_of oppo a)"

text \<open>Ids tell readers apart, ids of peers are theirs, and the id of a channel belongs to its name.\<close>

definition world_ok :: "communication_mode \<Rightarrow> (u64 \<Rightarrow> role_attributes) \<Rightarrow> (u64 \<Rightarrow> role_attributes) \<Rightarrow> bool" where
  "world_ok cm attr peer \<longleftrightarrow> HYBRID \<notin> modes_of cm \<and> inj (\<lambda>r. ra_get_id (attr r)) \<and> (\<forall>i. ra_get_id (peer i) = i)
     \<and> (\<forall>r i. ra_channel_name (peer i) = ra_channel_name (attr r) \<longrightarrow> ra_channel_id (peer i) = ra_channel_id (attr r))"

definition rx_ok :: "communication_mode \<Rightarrow> role_attributes \<Rightarrow> (u64 \<Rightarrow> role_attributes) \<Rightarrow> hybrid_receiver \<Rightarrow> bool" where
  "rx_ok cm a peer x \<longleftrightarrow> hr_attr x = a \<and> hr_mapping_table x = mt_of cm \<and> (\<forall>m \<in> modes_of cm. hr_receivers x m \<noteq> None)
     \<and> (\<forall>m i. hr_known m x i \<noteq> None \<longrightarrow> rel_of (peer i) a \<noteq> NO_RELATION \<and> m = mode_for cm (peer i) a)"

definition pr_inv :: "communication_mode \<Rightarrow> (u64 \<Rightarrow> msg_type) \<Rightarrow> (u64 \<Rightarrow> role_attributes) \<Rightarrow> (u64 \<Rightarrow> role_attributes) \<Rightarrow> process \<Rightarrow> bool" where
  "pr_inv cm ty attr peer s \<longleftrightarrow> (\<forall>m. di_ok (\<lambda>c. rc_type (ty c) m) (pr_disp s m)) \<and> (\<forall>r. rx_ok cm (attr r) peer (pr_rx s r))
     \<and> (\<forall>m c i e. dt.listens c i e (pr_disp s m) \<longleftrightarrow>
          (\<exists>r. e = (ra_get_id (attr r), r) \<and> c = ra_channel_id (attr r) \<and> hr_known m (pr_rx s r) i \<noteq> None))"

lemma hr_new_ok: "\<exists>x. hr_new conf a = Some x \<and> rx_ok (conf_mode conf) a peer x \<and> (\<forall>m. hr_known m x = (\<lambda>_. None))"
  by (cases conf)
    (auto simp: hr_new_def hr_InitReceivers_def hr_InitTransmitters_def hr_ObtainConfig_def hr_InitMode_def rx_ok_def conf_mode_def
      hr_known_def fun_eq_iff)

lemma di_new_ok: "di_ok ty di_new" and di_new_who: "di_who c p di_new = []"
  by (simp_all add: di_ok_def di_new_def di_who_def)

lemma pr_start_inv: "pr_inv (conf_mode conf) ty attr peer (pr_start conf attr)"
proof -
  have "rx_ok (conf_mode conf) (attr r) peer (the (hr_new conf (attr r))) \<and> hr_known m (the (hr_new conf (attr r))) = (\<lambda>_. None)" for r m
    using hr_new_ok [of conf "attr r" peer] by auto
  then show ?thesis by (simp add: pr_inv_def pr_start_def di_new_ok dt.listens_def di_new_who)
qed

lemma way_id: "m \<noteq> HYBRID \<Longrightarrow> way m = m"
  by (cases m) (simp_all add: way_def)

lemma hr_known_upd: "hr_known m (x\<lparr>hr_transmitters := (hr_transmitters x)(n \<mapsto> t)\<rparr>) = (if m = n then t else hr_known m x)"
  by (simp add: hr_known_def)

lemma hr_known_history [simp]: "hr_known m (hr_ReceiveHistoryMsg oppo x) = hr_known m x"
  by (simp add: hr_known_def hr_ReceiveHistoryMsg_def)

lemma hr_history_fields [simp]: "hr_attr (hr_ReceiveHistoryMsg oppo x) = hr_attr x"
  "hr_mapping_table (hr_ReceiveHistoryMsg oppo x) = hr_mapping_table x" "hr_receivers (hr_ReceiveHistoryMsg oppo x) = hr_receivers x"
  by (simp_all add: hr_ReceiveHistoryMsg_def)

text \<open>A listener carries its receiver's number, so who listens can be said of that number alone.\<close>

lemma ex_listener: "(\<exists>q. e = (f q, q) \<and> c = g q \<and> P q) \<longleftrightarrow> fst e = f (snd e) \<and> c = g (snd e) \<and> P (snd e)"
  by (cases e) auto

lemma rx_ok_upd:
  assumes "rx_ok cm a peer x" "hr_attr y = hr_attr x" "hr_mapping_table y = hr_mapping_table x" "hr_receivers y = hr_receivers x"
    and "\<And>n j. hr_known n y j \<noteq> None \<Longrightarrow> hr_known n x j \<noteq> None \<or> rel_of (peer j) a \<noteq> NO_RELATION \<and> n = mode_for cm (peer j) a"
  shows "rx_ok cm a peer y"
  using assms unfolding rx_ok_def by metis

lemma pr_enable_inv:
  assumes w: "world_ok cm attr peer" and inv: "pr_inv cm ty attr peer s"
    and step: "hr_Enable (ty (ra_channel_id (attr r))) (ra_get_id (attr r), r) (peer i) (pr_rx s r, pr_disp s) = Some (x, d)"
  shows "pr_inv cm ty attr peer \<lparr>pr_disp = d, pr_rx = (pr_rx s)(r := x)\<rparr>"
proof -
  let ?x = "pr_rx s r" and ?c = "ra_channel_id (attr r)" and ?self = "ra_get_id (attr r)"
  let ?m = "mode_for cm (peer i) (attr r)"
  have rx: "rx_ok cm (attr r) peer ?x" and di: "\<And>m. di_ok (\<lambda>c. rc_type (ty c) m) (pr_disp s m)"
    and li: "\<And>m c i e. dt.listens c i e (pr_disp s m) \<longleftrightarrow>
          (\<exists>r. e = (ra_get_id (attr r), r) \<and> c = ra_channel_id (attr r) \<and> hr_known m (pr_rx s r) i \<noteq> None)"
    using inv by (auto simp: pr_inv_def)
  have at: "hr_attr ?x = attr r" "hr_mapping_table ?x = mt_of cm" and id: "ra_get_id (peer i) = i"
    using rx w by (simp_all add: rx_ok_def world_ok_def)
  show ?thesis
  proof (cases "rel_of (peer i) (attr r) = NO_RELATION \<or> hr_known ?m ?x i \<noteq> None")
    case True
    then have "x = ?x \<and> d = pr_disp s" using step at id by (auto simp: hr_Enable_def hr_GetRelation_rel mode_for_def Let_def split: if_splits)
    then show ?thesis using inv by (simp add: pr_inv_def)
  next
    case False
    have m: "?m \<in> modes_of cm" unfolding mode_for_def using mt_of_mode False by blast
    then have wm: "way ?m = ?m" using w by (intro way_id) (auto simp: world_ok_def)
    have x: "x = hr_ReceiveHistoryMsg (peer i) (?x\<lparr>hr_transmitters := (hr_transmitters ?x)(?m \<mapsto> (hr_known ?m ?x)(i \<mapsto> peer i))\<rparr>)"
      and d: "d = (pr_disp s)(?m := di_AddListener_to (rc_type (ty ?c) ?m) ?c ?self i (?self, r) (pr_disp s ?m))"
      using step False at id wm by (auto simp: hr_Enable_def hr_GetRelation_rel mode_for_def [symmetric] rc_Enable_to_def Let_def split: if_splits)
    have known: "hr_known n x j \<noteq> None \<longleftrightarrow> hr_known n ?x j \<noteq> None \<or> (n = ?m \<and> j = i)" for n j
      unfolding x by (simp add: hr_known_upd)
    have rx': "rx_ok cm (attr r) peer x"
      by (rule rx_ok_upd [OF rx]) (use False known in \<open>auto simp: x\<close>)
    have "\<not> dt.listens ?c i (?self, r) (pr_disp s ?m)" using False w unfolding li by (auto simp: world_ok_def inj_def)
    moreover have "dt.listens ?c i e (pr_disp s ?m) \<Longrightarrow> fst e = ?self \<Longrightarrow> e = (?self, r)" for e
      using w unfolding li by (auto simp: world_ok_def inj_def)
    ultimately have fresh: "?self \<notin> fst ` set (di_who ?c i (pr_disp s ?m))" unfolding dt.listens_def by force
    have ok: "di_ok (\<lambda>c. rc_type (ty c) n) (d n)" for n using di dt.ok_add [OF di fresh, of r] by (simp add: d)
    have "dt.listens c j e (d n) \<longleftrightarrow> dt.listens c j e (pr_disp s n) \<or> (n = ?m \<and> c = ?c \<and> j = i \<and> e = (?self, r))" for c j e n
      using dt.listens_add [OF di fresh, of c j e r] by (auto simp: d)
    then have "dt.listens c j e (d n) \<longleftrightarrow> (\<exists>q. e = (ra_get_id (attr q), q) \<and> c = ra_channel_id (attr q)
        \<and> hr_known n (((pr_rx s)(r := x)) q) j \<noteq> None)" for c j e n
      unfolding li ex_listener using known by (cases "snd e = r"; cases e) auto
    then show ?thesis using ok rx' inv by (simp add: pr_inv_def)
  qed
qed

lemma pr_disable_inv:
  assumes w: "world_ok cm attr peer" and inv: "pr_inv cm ty attr peer s"
    and step: "hr_Disable (peer i) (pr_rx s r, pr_disp s) = Some (x, d)"
  shows "pr_inv cm ty attr peer \<lparr>pr_disp = d, pr_rx = (pr_rx s)(r := x)\<rparr>"
proof -
  let ?x = "pr_rx s r" and ?c = "ra_channel_id (attr r)" and ?self = "ra_get_id (attr r)"
  let ?m = "mode_for cm (peer i) (attr r)"
  have rx: "rx_ok cm (attr r) peer ?x" and di: "\<And>m. di_ok (\<lambda>c. rc_type (ty c) m) (pr_disp s m)"
    and li: "\<And>m c i e. dt.listens c i e (pr_disp s m) \<longleftrightarrow>
          (\<exists>r. e = (ra_get_id (attr r), r) \<and> c = ra_channel_id (attr r) \<and> hr_known m (pr_rx s r) i \<noteq> None)"
    using inv by (auto simp: pr_inv_def)
  have at: "hr_attr ?x = attr r" "hr_mapping_table ?x = mt_of cm" and id: "ra_get_id (peer i) = i"
    using rx w by (simp_all add: rx_ok_def world_ok_def)
  show ?thesis
  proof (cases "rel_of (peer i) (attr r) = NO_RELATION \<or> hr_known ?m ?x i = None")
    case True
    then have "x = ?x \<and> d = pr_disp s" using step at id by (auto simp: hr_Disable_def hr_GetRelation_rel mode_for_def Let_def split: if_splits)
    then show ?thesis using inv by (simp add: pr_inv_def)
  next
    case False
    have m: "?m \<in> modes_of cm" unfolding mode_for_def using mt_of_mode False by blast
    then have wm: "way ?m = ?m" using w by (intro way_id) (auto simp: world_ok_def)
    have x: "x = ?x\<lparr>hr_transmitters := (hr_transmitters ?x)(?m \<mapsto> (hr_known ?m ?x)(i := None))\<rparr>"
      and d: "d = (pr_disp s)(?m := di_RemoveListener_from ?c ?self i (pr_disp s ?m))"
      using step False at id wm by (auto simp: hr_Disable_def hr_GetRelation_rel mode_for_def [symmetric] rc_Disable_from_def Let_def split: if_splits)
    have known: "hr_known n x j \<noteq> None \<longleftrightarrow> hr_known n ?x j \<noteq> None \<and> \<not> (n = ?m \<and> j = i)" for n j
      unfolding x by (simp add: hr_known_upd)
    have rx': "rx_ok cm (attr r) peer x"
      by (rule rx_ok_upd [OF rx]) (use known in \<open>auto simp: x\<close>)
    have ok: "di_ok (\<lambda>c. rc_type (ty c) n) (d n)" for n using di dt.ok_remove [OF di] by (simp add: d)
    have "dt.listens c j e (d n) \<longleftrightarrow> dt.listens c j e (pr_disp s n) \<and> \<not> (n = ?m \<and> c = ?c \<and> j = i \<and> fst e = ?self)" for c j e n
      using dt.listens_remove [OF di, of c j e ?c ?self i] by (auto simp: d)
    then have "dt.listens c j e (d n) \<longleftrightarrow> (\<exists>q. e = (ra_get_id (attr q), q) \<and> c = ra_channel_id (attr q)
        \<and> hr_known n (((pr_rx s)(r := x)) q) j \<noteq> None)" for c j e n
      unfolding li ex_listener using known w by (cases "snd e = r"; cases e) (auto simp: world_ok_def inj_def)
    then show ?thesis using ok rx' inv by (simp add: pr_inv_def)
  qed
qed

lemma pr_reach_inv:
  "reach (pr_start conf attr) (pr_step ty attr peer) s \<Longrightarrow> world_ok (conf_mode conf) attr peer \<Longrightarrow> pr_inv (conf_mode conf) ty attr peer s"
proof (induction rule: reach.induct)
  case (reach_step s s')
  then have inv: "pr_inv (conf_mode conf) ty attr peer s" by blast
  from reach_step(2) show ?case
    by cases (auto intro: pr_enable_inv [OF reach_step(4) inv] pr_disable_inv [OF reach_step(4) inv])
qed (rule pr_start_inv)

section \<open>A message from the transmitter to the receivers\<close>

lemma rx_fold:
  assumes "(case p of Message m \<Rightarrow> Some m | Raw b \<Rightarrow> parse b | Bytes b \<Rightarrow> parse b) = Some msg"
  shows "fold (\<lambda>cb. rx_run parse cb (p, info)) cbs w = w @ map (\<lambda>e. (snd e, msg)) cbs"
  using assms by (induction cbs arbitrary: w) (simp_all add: rx_run_def)

lemma di_run_log:
  assumes "di_ok tys d" and "di_msg_listeners d c = Some (t, h)"
    and "(case p of Message m \<Rightarrow> Some m | Raw b \<Rightarrow> parse b | Bytes b \<Rightarrow> parse b) = Some msg"
  shows "di_run (rx_run parse) c p info t h (d, w) = (d, w @ map (\<lambda>e. (snd e, msg)) (di_who c (id_HashValue (mi_sender_id info)) d))"
proof -
  obtain a where a: "lh_rep h a" "ls_all a = []" "\<And>p. di_who c p d = map snd (ls_from a p)"
    using di_ok_handler [OF assms(1,2)] by metis
  have "d\<lparr>di_msg_listeners := (di_msg_listeners d)(c \<mapsto> (t, h))\<rparr> = d" using assms(2) by (simp add: map_upd_triv)
  then show ?thesis by (simp add: di_run_def lh_rep_Run [OF a(1)] rx_fold [OF assms(3)] ls_called_def a(2,3))
qed

lemma pr_deliver_log:
  assumes "pr_inv cm ty attr peer s" and "m \<noteq> HYBRID" and "ty c = TypedMessage n" and "parse (ser msg) = Some msg"
  shows "pr_deliver parse ser (TypedMessage n) c msg info m (s, w)
    = Some (s, w @ map (\<lambda>e. (snd e, msg)) (di_who c (id_HashValue (mi_sender_id info)) (pr_disp s m)))"
proof -
  have ok: "di_ok (\<lambda>c. rc_type (ty c) m) (pr_disp s m)" using assms(1) by (simp add: pr_inv_def)
  have same: "s\<lparr>pr_disp := (pr_disp s)(m := pr_disp s m)\<rparr> = s" by simp
  show ?thesis
  proof (cases "di_msg_listeners (pr_disp s m) c")
    case None
    then show ?thesis using ok same way_id [OF assms(2)]
      by (cases m) (simp_all add: pr_deliver_def intra_OnMessage_def bytes_OnMessage_def di_who_def Let_def)
  next
    case (Some th)
    obtain t h where th: "th = (t, h)" by (cases th)
    have t: "t = rc_type (TypedMessage n) m" using di_ok_handler [OF ok] Some th assms(3) by metis
    have "di_run (rx_run parse) c (Message msg) info t h (pr_disp s m, w)
        = (pr_disp s m, w @ map (\<lambda>e. (snd e, msg)) (di_who c (id_HashValue (mi_sender_id info)) (pr_disp s m)))"
      and "di_run (rx_run parse) c (Bytes (ser msg)) info t h (pr_disp s m, w)
        = (pr_disp s m, w @ map (\<lambda>e. (snd e, msg)) (di_who c (id_HashValue (mi_sender_id info)) (pr_disp s m)))"
      using di_run_log [where parse = parse and p = "Message msg" and msg = msg, OF ok, of c t h]
        di_run_log [where parse = parse and p = "Bytes (ser msg)" and msg = msg, OF ok, of c t h] Some th assms(4) by simp_all
    then show ?thesis using ok same way_id [OF assms(2)] Some th t assms(2)
      by (cases m) (simp_all add: pr_deliver_def intra_OnMessage_def bytes_OnMessage_def di_ok_def rc_type_def IsRawMessage_def Let_def)
  qed
qed

lemma pr_deliver_all_log:
  assumes "pr_inv cm ty attr peer s" and "HYBRID \<notin> set ms" and "ty c = TypedMessage n" and "parse (ser msg) = Some msg"
  shows "pr_deliver_all parse ser (TypedMessage n) c msg info ms (s, w)
    = Some (s, w @ map (\<lambda>e. (snd e, msg)) (concat (map (\<lambda>m. di_who c (id_HashValue (mi_sender_id info)) (pr_disp s m)) ms)))"
  using assms(2)
proof (induction ms arbitrary: w)
  case (Cons m ms)
  then show ?case using pr_deliver_log [where m = m and parse = parse and ser = ser and msg = msg and n = n and c = c, OF assms(1) _ assms(3), of info w] assms(4)
    by auto
qed simp

lemma count_list_map_inj: "inj_on f (insert x (set xs)) \<Longrightarrow> count_list (map f xs) (f x) = count_list xs x"
  by (induction xs) (auto simp: inj_on_def)

lemma count_called:
  assumes "pr_inv cm ty attr peer s" and "HYBRID \<notin> set ms" and "distinct ms" and "c = ra_channel_id (attr r)"
  shows "count_list (concat (map (\<lambda>m. di_who c i (pr_disp s m)) ms)) (ra_get_id (attr r), r)
    = (if hr_known (mode_for cm (peer i) (attr r)) (pr_rx s r) i \<noteq> None \<and> mode_for cm (peer i) (attr r) \<in> set ms then 1 else 0)"
proof -
  have one: "count_list (di_who c i (pr_disp s m)) (ra_get_id (attr r), r) = (if hr_known m (pr_rx s r) i \<noteq> None then 1 else 0)" for m
  proof -
    have "di_ok (\<lambda>c. rc_type (ty c) m) (pr_disp s m)" using assms(1) by (simp add: pr_inv_def)
    moreover have "dt.listens c i (ra_get_id (attr r), r) (pr_disp s m) \<longleftrightarrow> hr_known m (pr_rx s r) i \<noteq> None"
      using assms(1,4) by (simp add: pr_inv_def)
    ultimately show ?thesis using dt.called_once by metis
  qed
  have only: "m \<noteq> mode_for cm (peer i) (attr r) \<Longrightarrow> hr_known m (pr_rx s r) i = None" for m
    using assms(1) unfolding pr_inv_def rx_ok_def by blast
  show ?thesis using assms(3)
  proof (induction ms)
    case (Cons m ms)
    then show ?case using one [of m] only [of m] by (cases "m = mode_for cm (peer i) (attr r)") auto
  qed simp
qed

lemma who_number: "pr_inv cm ty attr peer s \<Longrightarrow> e \<in> set (di_who c i (pr_disp s m)) \<Longrightarrow> e = (ra_get_id (attr (snd e)), snd e) \<and> c = ra_channel_id (attr (snd e))"
  unfolding pr_inv_def dt.listens_def by fastforce

lemma pr_deliver_all_count:
  assumes inv: "pr_inv cm ty attr peer s" and "HYBRID \<notin> set ms" and "distinct ms"
    and "ty c = TypedMessage n" and "parse (ser msg) = Some msg" and i: "id_HashValue (mi_sender_id info) = i"
    and chan: "rel_of (peer i) (attr r) \<noteq> NO_RELATION \<Longrightarrow> c = ra_channel_id (attr r)"
  shows "map_option (\<lambda>(s, out). count_list out (r, msg)) (pr_deliver_all parse ser (TypedMessage n) c msg info ms (s, []))
    = Some (if hr_known (mode_for cm (peer i) (attr r)) (pr_rx s r) i \<noteq> None \<and> mode_for cm (peer i) (attr r) \<in> set ms then 1 else 0)"
proof -
  let ?es = "concat (map (\<lambda>m. di_who c i (pr_disp s m)) ms)"
  have es: "e \<in> set ?es \<Longrightarrow> e = (ra_get_id (attr (snd e)), snd e) \<and> c = ra_channel_id (attr (snd e))" for e
    using who_number [OF inv, of e c i] by (metis (no_types, lifting) UN_E set_concat set_map image_iff)
  have "inj_on (\<lambda>e. (snd e, msg)) (insert (ra_get_id (attr r), r) (set ?es))"
    by (rule inj_onI) (metis es insert_iff prod.inject snd_conv)
  from count_list_map_inj [OF this]
  have count: "count_list (map (\<lambda>e. (snd e, msg)) ?es) (r, msg) = count_list ?es (ra_get_id (attr r), r)" by simp
  have "count_list ?es (ra_get_id (attr r), r)
    = (if hr_known (mode_for cm (peer i) (attr r)) (pr_rx s r) i \<noteq> None \<and> mode_for cm (peer i) (attr r) \<in> set ms then 1 else 0)"
  proof (cases "c = ra_channel_id (attr r)")
    case True
    then show ?thesis by (rule count_called [OF inv assms(2,3)])
  next
    case False
    then have "(ra_get_id (attr r), r) \<notin> set ?es" using es by fastforce
    moreover have "hr_known m (pr_rx s r) i = None" for m
      using inv False chan unfolding pr_inv_def rx_ok_def by blast
    ultimately show ?thesis by simp
  qed
  then show ?thesis using count pr_deliver_all_log [where parse = parse and ser = ser and msg = msg and n = n and c = c, OF assms(1,2,4,5), of info "[]"] i by simp
qed

text \<open>C3: From one end to the other a message arrives exactly once. Peer \<open>i\<close> has a hybrid transmitter that
  has seen any sequence of receivers come and go, a process has hybrid receivers that have seen any
  sequence of transmitters come and go, and \<open>ms\<close> are the ways of the transmitter that lead to that
  process, in any order. When the transmitter sends a message, the listener of a receiver \<open>r\<close> gets
  it once if \<open>r\<close> knows the transmitter and the way for the relation of the two leads there and is on
  in the transmitter, and otherwise not at all: no message is doubled by the several ways, and none
  is lost between the two modes.\<close>

theorem hybrid_delivers_once:
  assumes "world_ok (conf_mode conf) attr peer" and "reach (pr_start conf attr) (pr_step ty attr peer) s"
    and "ht_new conf limit (peer i) = Some t0" and "reach t0 (ht_step True) t" and "ht_Transmit msg info t = Some (C, t')"
    and "ty (ra_channel_id (peer i)) = TypedMessage n" and "parse (ser msg) = Some msg" and "id_HashValue (mi_sender_id info) = i"
    and "distinct ms" and "set ms = C \<inter> leads"
  shows "map_option (\<lambda>(s, out). count_list out (r, msg)) (pr_deliver_all parse ser (TypedMessage n) (ra_channel_id (peer i)) msg info ms (s, []))
    = Some (if hr_known (mode_for (conf_mode conf) (peer i) (attr r)) (pr_rx s r) i \<noteq> None
               \<and> mode_for (conf_mode conf) (peer i) (attr r) \<in> leads
               \<and> (\<exists>ids. ht_receivers t (mode_for (conf_mode conf) (peer i) (attr r)) = Some ids \<and> ids \<noteq> {}) then 1 else 0)"
proof -
  have inv: "pr_inv (conf_mode conf) ty attr peer s" by (rule pr_reach_inv [OF assms(2,1)])
  have tinv: "ht_inv True (conf_mode conf) (peer i) t" by (rule ht_reach_inv [OF assms(4,3)])
  then have ok: "modes_ok True (conf_mode conf) (ht_transmitters t) (ht_receivers t)" by (simp add: ht_inv_def)
  have C: "m \<in> C \<longleftrightarrow> (\<exists>ids. ht_receivers t m = Some ids \<and> ids \<noteq> {})" for m
    using assms(5) modes_ok_on [OF ok, of m] by (auto simp: ht_Transmit_def)
  have "m \<in> C \<Longrightarrow> m \<in> modes_of (conf_mode conf)" for m
    using ok unfolding C modes_ok_def by (metis option.distinct(1))
  then have hyb: "HYBRID \<notin> set ms" using assms(1,10) by (auto simp: world_ok_def)
  have chan: "rel_of (peer i) (attr r) \<noteq> NO_RELATION \<Longrightarrow> ra_channel_id (peer i) = ra_channel_id (attr r)"
    using assms(1) by (auto simp: rel_of_def world_ok_def split: if_splits)
  show ?thesis
    using pr_deliver_all_count [where c = "ra_channel_id (peer i)" and ty = ty and parse = parse and ser = ser, OF inv hyb assms(9,6,7,8) chan] C assms(10)
    by auto
qed

text \<open>A reader and a writer in one process, one channel.\<close>

definition ex_qos :: qos_profile where
  "ex_qos = \<lparr>qp_history = HISTORY_KEEP_LAST, qp_depth = 1, qp_durability = DURABILITY_VOLATILE\<rparr>"

definition ex_attr :: "u64 \<Rightarrow> role_attributes" where
  "ex_attr i = \<lparr>ra_host_name = None, ra_host_ip = ''h'', ra_process_id = Some 1, ra_channel_name = ''c'', ra_channel_id = 7, ra_id = Some i, ra_qos = ex_qos\<rparr>"

definition ex_info :: "u64 \<Rightarrow> message_info" where
  "ex_info i = mi_default\<lparr>mi_sender_id := (id_none\<lparr>id_hash_value := i\<rparr>)\<rparr>"

lemma hybrid_delivers_once_witness:
  "\<exists>s t t' C. ht_Transmit ''m'' (ex_info 5) t = Some (C, t')
     \<and> map_option (\<lambda>(s, out). count_list out (3, ''m''))
        (pr_deliver_all Some (\<lambda>m. m) (TypedMessage ''string'') (ra_channel_id (ex_attr 5)) ''m'' (ex_info 5) [INTRA] (s, [])) = Some 1"
proof -
  let ?ty = "\<lambda>_ :: u64. TypedMessage ''string''" and ?p0 = "pr_start None ex_attr"
  have w: "world_ok (conf_mode None) ex_attr ex_attr"
    by (simp add: world_ok_def conf_mode_def cm_default_def modes_of_def ex_attr_def ra_get_id_def inj_def)
  have m: "mode_for (conf_mode None) (ex_attr 5) (ex_attr 3) = INTRA"
    by (simp add: mode_for_def conf_mode_def rel_of_def ex_attr_def ra_get_process_id_def mt_at_def mt_of_def cm_default_def)
  have "hr_new None (ex_attr 3) \<noteq> None" using hr_new_ok [of None] by blast
  have "\<exists>x d. hr_Enable (?ty 7) (3, 3) (ex_attr 5) (pr_rx ?p0 3, pr_disp ?p0) = Some (x, d) \<and> hr_known INTRA x 5 \<noteq> None"
    by (simp add: pr_start_def hr_new_def hr_InitReceivers_def hr_InitTransmitters_def hr_ObtainConfig_def hr_InitMode_def
        hr_Enable_def hr_GetRelation_def hr_known_def ex_attr_def ra_get_process_id_def ra_get_id_def mt_at_def mt_of_def cm_default_def
        modes_of_def hr_ReceiveHistoryMsg_def ex_qos_def Let_def)
  then obtain x d where x: "hr_Enable (?ty 7) (3, 3) (ex_attr 5) (pr_rx ?p0 3, pr_disp ?p0) = Some (x, d)" "hr_known INTRA x 5 \<noteq> None" by blast
  have "pr_step ?ty ex_attr ex_attr ?p0 \<lparr>pr_disp = d, pr_rx = (pr_rx ?p0)(3 := x)\<rparr>"
    by (rule ps_enable [where i = 5]) (use x(1) in \<open>simp add: ex_attr_def ra_get_id_def\<close>)
  then have s: "reach ?p0 (pr_step ?ty ex_attr ex_attr) \<lparr>pr_disp = d, pr_rx = (pr_rx ?p0)(3 := x)\<rparr>" by (rule reach_one)
  obtain t0 :: "string hybrid_transmitter" where t0: "ht_new None None (ex_attr 5) = Some t0"
    by (simp add: ht_new_def ht_InitTransmitters_def ht_ObtainConfig_def ht_InitMode_def ht_InitHistory_def Let_def)
  have inv: "ht_inv True (conf_mode None) (ex_attr 5) t0" by (rule ht_new_inv [OF t0])
  have rel: "ht_GetRelation (ex_attr 3) t0 = SAME_PROC" using inv by (simp add: ht_GetRelation_def ht_inv_def ex_attr_def ra_get_process_id_def)
  obtain t ids where t: "ht_Enable True (ex_attr 3) t0 = Some t" "ht_inv True (conf_mode None) (ex_attr 5) t"
      "ht_receivers t INTRA = Some (insert 3 ids)"
    using ht_Enable_result [OF inv, of "ex_attr 3"] rel
    by (auto simp: conf_mode_def cm_default_def mt_at_def mt_of_def ex_attr_def ra_get_id_def)
  have rt: "reach t0 (ht_step True) t" by (rule reach_one) (rule hs_enable [OF t(1)])
  obtain C t' where C: "ht_Transmit ''m'' (ex_info 5) t = Some (C, t')" using t(2) by (auto simp: ht_Transmit_def ht_inv_def)
  have "C = {m. ht_transmitters t m = Some True}" using C by (auto simp: ht_Transmit_def)
  then have "INTRA \<in> C" using t(2,3) modes_ok_on [of True "conf_mode None" "ht_transmitters t" "ht_receivers t" INTRA] by (simp add: ht_inv_def)
  then have "set [INTRA] = C \<inter> {INTRA}" by auto
  from hybrid_delivers_once [where ty = ?ty and parse = Some and ser = "\<lambda>m. m" and n = "''string''" and r = 3, OF w s t0 rt C refl refl _ _ this]
  show ?thesis using C m x(2) t(3) by (auto simp: ex_info_def id_HashValue_def intro!: exI)
qed

end
