(* ===== verification/Shm_Notifier.thy ===== *)
theory Shm_Notifier
  imports Message_Codec
begin

text \<open>
  The notifier in shared memory (transport/shm/condition_notifier.h, condition_notifier.cc): a ring of
  4096 slots with a sequence number each, into which the transmitters of all processes write which
  block is readable, and from which the dispatcher of every process reads. The first part has the
  operations, with the answers of the operating system as arguments; the second is a step relation
  of any number of notifying and listening threads in which a step is one access to the ring.
\<close>

section \<open>Operations\<close>

definition kBufLength :: nat where "kBufLength = 4096"

record indicator =
  in_next_seq :: u64
  in_infos :: "nat \<Rightarrow> readable_info"
  in_seqs :: "nat \<Rightarrow> u64"

definition in_new :: indicator where
  "in_new = \<lparr>in_next_seq = 0, in_infos = (\<lambda>_. ri_default), in_seqs = (\<lambda>_. 0)\<rparr>"

text \<open>The part of a notifier that is its process's own.\<close>

record notifier =
  no_next_seq :: u64
  no_is_shutdown :: bool

definition ring_index :: "u64 \<Rightarrow> nat" where "ring_index seq = unat seq mod kBufLength"

definition no_Notify :: "readable_info \<Rightarrow> notifier \<times> indicator \<Rightarrow> bool \<times> indicator" where
  "no_Notify info ni = (case ni of (n, i) \<Rightarrow>
     if no_is_shutdown n then (False, i)
     else (let seq = in_next_seq i; i = i\<lparr>in_next_seq := seq + 1\<rparr>;
               i = i\<lparr>in_infos := (in_infos i)(ring_index seq := info)\<rparr> in
           (True, i\<lparr>in_seqs := (in_seqs i)(ring_index seq := seq)\<rparr>)))"

text \<open>One look of \<open>Listen\<close>.\<close>

definition no_look :: "indicator \<Rightarrow> notifier \<Rightarrow> (readable_info \<times> notifier) option" where
  "no_look i n =
     (if in_next_seq i \<noteq> no_next_seq n \<and> in_seqs i (ring_index (no_next_seq n)) = no_next_seq n
      then Some (in_infos i (ring_index (no_next_seq n)), n\<lparr>no_next_seq := no_next_seq n + 1\<rparr>) else None)"

text \<open>The loop of \<open>Listen\<close>: \<open>ring k\<close> and \<open>down k\<close> are what the \<open>k\<close>-th look finds in the ring and in the
  shutdown flag. The first result counts the looks.\<close>

function no_listen_loop :: "(nat \<Rightarrow> indicator) \<Rightarrow> (nat \<Rightarrow> bool) \<Rightarrow> nat \<Rightarrow> int \<Rightarrow> notifier \<Rightarrow> nat \<times> readable_info option \<times> notifier" where
  "no_listen_loop ring down k timeout_us n =
     (if down k then (k, None, n\<lparr>no_is_shutdown := True\<rparr>)
      else (case no_look (ring k) n of
          Some (info, n) \<Rightarrow> (k + 1, Some info, n)
        | None \<Rightarrow> if timeout_us > 0 then no_listen_loop ring down (k + 1) (timeout_us - 50) n else (k + 1, None, n)))"
  by pat_completeness auto
termination
  by (relation "measure (\<lambda>(ring, down, k, timeout_us, n). nat timeout_us)") auto

text \<open>The timeout in microseconds is a C++ int: the calls meant are those whose timeout is below $2^{31}$ of
  them (some 35 minutes; the dispatcher's is 100 milliseconds), since beyond it the product is undefined.\<close>

definition no_Listen :: "(nat \<Rightarrow> indicator) \<Rightarrow> (nat \<Rightarrow> bool) \<Rightarrow> int \<Rightarrow> notifier \<Rightarrow> nat \<times> readable_info option \<times> notifier" where
  "no_Listen ring down timeout_ms n =
     (if no_is_shutdown n then (0, None, n) else no_listen_loop ring down 0 (timeout_ms * 1000) n)"

text \<open>What the operating system answers when the segment is to be created.\<close>

datatype shm_errno = EINVAL | EEXIST | ENOSPC

definition no_OpenOnly :: "indicator option \<Rightarrow> bool \<Rightarrow> indicator option" where
  "no_OpenOnly present attach = (if attach then present else None)"

fun no_OpenOrCreate :: "shm_errno option list \<Rightarrow> indicator option \<Rightarrow> bool \<Rightarrow> indicator option" where
  "no_OpenOrCreate [] present attach = None"
| "no_OpenOrCreate (None # rs) present attach = (if attach then Some in_new else None)"
| "no_OpenOrCreate (Some EINVAL # rs) present attach = no_OpenOrCreate rs present attach"
| "no_OpenOrCreate (Some EEXIST # rs) present attach = no_OpenOnly present attach"
| "no_OpenOrCreate (Some ENOSPC # rs) present attach = None"

text \<open>The constructor: \<open>shmget\<close> is asked twice at most.\<close>

definition no_new :: "shm_errno option list \<Rightarrow> indicator option \<Rightarrow> bool \<Rightarrow> notifier \<times> indicator option" where
  "no_new answers present attach = (case no_OpenOrCreate (take 2 answers) present attach of
       None \<Rightarrow> (\<lparr>no_next_seq = 0, no_is_shutdown = True\<rparr>, None)
     | Some i \<Rightarrow> (\<lparr>no_next_seq = in_next_seq i, no_is_shutdown = False\<rparr>, Some i))"

definition no_Shutdown :: "notifier \<Rightarrow> notifier" where "no_Shutdown n = n\<lparr>no_is_shutdown := True\<rparr>"

section \<open>A call of Listen ends\<close>

declare no_listen_loop.simps [simp del]

lemma no_listen_loop_again:
  "\<not> (down k \<or> no_look (ring k) n \<noteq> None \<or> us \<le> 0) \<Longrightarrow>
    no_listen_loop ring down k us n = no_listen_loop ring down (k + 1) (us - 50) n"
  by (subst no_listen_loop.simps) (simp split: option.split)

lemma no_listen_loop_stop:
  "down k \<or> no_look (ring k) n \<noteq> None \<or> us \<le> 0 \<Longrightarrow> no_listen_loop ring down k us n =
    (if down k then (k, None, n\<lparr>no_is_shutdown := True\<rparr>) else (k + 1, map_option fst (no_look (ring k) n), case no_look (ring k) n of Some x \<Rightarrow> snd x | None \<Rightarrow> n))"
  by (subst no_listen_loop.simps) (auto split: option.splits)

lemma no_listen_loop_count:
  "k \<le> fst (no_listen_loop ring down k us n) \<and> fst (no_listen_loop ring down k us n) \<le> k + 1 + nat ((us + 49) div 50)"
proof (induction ring down k us n rule: no_listen_loop.induct)
  case (1 ring down k us n)
  show ?case
  proof (cases "down k \<or> no_look (ring k) n \<noteq> None \<or> us \<le> 0")
    case True
    then show ?thesis by (simp add: no_listen_loop_stop)
  next
    case False
    then have "no_listen_loop ring down k us n = no_listen_loop ring down (k + 1) (us - 50) n" by (rule no_listen_loop_again)
    moreover have "nat ((us + 49) div 50) = Suc (nat ((us - 50 + 49) div 50))" using False by (simp add: algebra_simps) linarith
    moreover have "k + 1 \<le> fst (no_listen_loop ring down (k + 1) (us - 50) n)
        \<and> fst (no_listen_loop ring down (k + 1) (us - 50) n) \<le> k + 1 + 1 + nat ((us - 50 + 49) div 50)"
      using "1.IH" False by (cases "no_look (ring k) n") auto
    ultimately show ?thesis by simp
  qed
qed

lemma no_listen_loop_result:
  "no_listen_loop ring down k us n = (j, r, n') \<Longrightarrow> \<exists>m. k \<le> m \<and> m \<le> j \<and> (case r of
     Some info \<Rightarrow> no_look (ring m) n = Some (info, n') | None \<Rightarrow> no_next_seq n' = no_next_seq n)"
proof (induction ring down k us n rule: no_listen_loop.induct)
  case (1 ring down k us n)
  show ?case
  proof (cases "down k \<or> no_look (ring k) n \<noteq> None \<or> us \<le> 0")
    case True
    then show ?thesis using "1.prems" by (intro exI [of _ k]) (auto simp: no_listen_loop_stop split: option.splits if_splits)
  next
    case False
    then have "no_listen_loop ring down k us n = no_listen_loop ring down (k + 1) (us - 50) n" by (rule no_listen_loop_again)
    then show ?thesis using 1 False by (metis Suc_eq_plus1 Suc_leD not_less)
  qed
qed

text \<open>C35: A call of \<open>Listen\<close> returns whatever the other processes do to the ring meanwhile: it looks
  at the ring at most once for every 50 microseconds of its timeout and once more (2001 times for
  the dispatcher's 100 milliseconds), and it moves on in the ring by one exactly when it has a
  notification to give.\<close>

theorem listen_returns:
  "case no_Listen ring down timeout_ms n of (looks, r, n') \<Rightarrow>
     looks \<le> nat (timeout_ms * 20) + 1 \<and> no_next_seq n' = (case r of None \<Rightarrow> no_next_seq n | Some _ \<Rightarrow> no_next_seq n + 1)"
proof (cases "no_is_shutdown n")
  case False
  obtain j r n' where r: "no_listen_loop ring down 0 (timeout_ms * 1000) n = (j, r, n')" by (cases "no_listen_loop ring down 0 (timeout_ms * 1000) n")
  have "(timeout_ms * 1000 + 49) div 50 = timeout_ms * 20" using div_mult_self1 [of 50 49 "timeout_ms * 20"] by (simp add: add.commute)
  then have "j \<le> nat (timeout_ms * 20) + 1"
    using no_listen_loop_count [of 0 ring down "timeout_ms * 1000" n] r by simp
  moreover have "no_next_seq n' = (case r of None \<Rightarrow> no_next_seq n | Some _ \<Rightarrow> no_next_seq n + 1)"
  proof -
    obtain m where m: "case r of Some info \<Rightarrow> no_look (ring m) n = Some (info, n') | None \<Rightarrow> no_next_seq n' = no_next_seq n"
      using no_listen_loop_result [OF r] by blast
    then show ?thesis by (cases r) (auto simp: no_look_def split: if_splits)
  qed
  ultimately show ?thesis using False r by (simp add: no_Listen_def)
qed (simp add: no_Listen_def)

section \<open>Notifying and listening threads\<close>

text \<open>A notifier has its number (\<open>NtSeq\<close>), then has written the notification (\<open>NtInfo\<close>), then its
  number. A listener has seen that there is something new (\<open>LsNew\<close>), then that its slot is ready
  (\<open>LsReady\<close>). \<open>rg_sent\<close> are the notifications in the order of their numbers; \<open>rg_from\<close> and \<open>rg_got\<close>
  are the number a listener started with and what it has been given. Nobody shuts down.\<close>

datatype nt_pc = NtIdle | NtSeq u64 readable_info | NtInfo u64
datatype ls_pc = LsOut | LsIdle | LsNew | LsReady

record ring =
  rg_ind :: indicator
  rg_nt :: "nat \<Rightarrow> nt_pc"
  rg_ls :: "nat \<Rightarrow> ls_pc"
  rg_next :: "nat \<Rightarrow> u64"
  rg_from :: "nat \<Rightarrow> nat"
  rg_got :: "nat \<Rightarrow> readable_info list"
  rg_sent :: "readable_info list"

definition rg_new :: ring where
  "rg_new = \<lparr>rg_ind = in_new, rg_nt = (\<lambda>_. NtIdle), rg_ls = (\<lambda>_. LsOut), rg_next = (\<lambda>_. 0), rg_from = (\<lambda>_. 0),
     rg_got = (\<lambda>_. []), rg_sent = []\<rparr>"

text \<open>With \<open>win\<close>, no thread falls a whole turn of the ring behind: a notifier takes a number only
  when every listener and every notifier under way is less than 4096 numbers behind it.\<close>

definition in_window :: "ring \<Rightarrow> bool" where
  "in_window s \<longleftrightarrow> (\<forall>l. rg_ls s l \<noteq> LsOut \<longrightarrow> unat (in_next_seq (rg_ind s)) < unat (rg_next s l) + kBufLength)
     \<and> (\<forall>t q i. rg_nt s t = NtSeq q i \<or> rg_nt s t = NtInfo q \<longrightarrow> unat (in_next_seq (rg_ind s)) < unat q + kBufLength)"

inductive rg_step :: "bool \<Rightarrow> ring \<Rightarrow> ring \<Rightarrow> bool" for win where
  rg_take: "rg_nt s t = NtIdle \<Longrightarrow> (win \<Longrightarrow> in_window s) \<Longrightarrow>
    rg_step win s (s\<lparr>rg_ind := (rg_ind s)\<lparr>in_next_seq := in_next_seq (rg_ind s) + 1\<rparr>,
      rg_nt := (rg_nt s)(t := NtSeq (in_next_seq (rg_ind s)) info), rg_sent := rg_sent s @ [info]\<rparr>)"
| rg_info: "rg_nt s t = NtSeq seq info \<Longrightarrow>
    rg_step win s (s\<lparr>rg_ind := (rg_ind s)\<lparr>in_infos := (in_infos (rg_ind s))(ring_index seq := info)\<rparr>, rg_nt := (rg_nt s)(t := NtInfo seq)\<rparr>)"
| rg_seq: "rg_nt s t = NtInfo seq \<Longrightarrow>
    rg_step win s (s\<lparr>rg_ind := (rg_ind s)\<lparr>in_seqs := (in_seqs (rg_ind s))(ring_index seq := seq)\<rparr>, rg_nt := (rg_nt s)(t := NtIdle)\<rparr>)"
| rg_join: "rg_ls s l = LsOut \<Longrightarrow>
    rg_step win s (s\<lparr>rg_ls := (rg_ls s)(l := LsIdle), rg_next := (rg_next s)(l := in_next_seq (rg_ind s)), rg_from := (rg_from s)(l := length (rg_sent s)),
      rg_got := (rg_got s)(l := [])\<rparr>)"
| rg_load: "rg_ls s l = LsIdle \<Longrightarrow> in_next_seq (rg_ind s) \<noteq> rg_next s l \<Longrightarrow> rg_step win s (s\<lparr>rg_ls := (rg_ls s)(l := LsNew)\<rparr>)"
| rg_check: "rg_ls s l = LsNew \<Longrightarrow>
    rg_step win s (s\<lparr>rg_ls := (rg_ls s)(l := if in_seqs (rg_ind s) (ring_index (rg_next s l)) = rg_next s l then LsReady else LsIdle)\<rparr>)"
| rg_copy: "rg_ls s l = LsReady \<Longrightarrow>
    rg_step win s (s\<lparr>rg_got := (rg_got s)(l := rg_got s l @ [in_infos (rg_ind s) (ring_index (rg_next s l))]),
      rg_next := (rg_next s)(l := rg_next s l + 1), rg_ls := (rg_ls s)(l := LsIdle)\<rparr>)"

text \<open>What holds of the ring, of a notifier under way and of a listener when \<open>xs\<close> has been sent.\<close>

definition ind_ok :: "readable_info list \<Rightarrow> indicator \<Rightarrow> bool" where
  "ind_ok xs i \<longleftrightarrow> unat (in_next_seq i) = length xs \<and> (\<forall>j < kBufLength. let k = unat (in_seqs i j) in
     k = 0 \<or> (k < length xs \<and> k mod kBufLength = j \<and> (length xs \<le> k + kBufLength \<longrightarrow> in_infos i j = xs ! k)))"

definition pending :: "nt_pc \<Rightarrow> u64 \<Rightarrow> bool" where
  "pending p q \<longleftrightarrow> p = NtInfo q \<or> (\<exists>i. p = NtSeq q i)"

definition nt_ok :: "readable_info list \<Rightarrow> indicator \<Rightarrow> nt_pc \<Rightarrow> bool" where
  "nt_ok xs i p = (case p of NtIdle \<Rightarrow> True
     | NtSeq q x \<Rightarrow> unat q < length xs \<and> length xs \<le> unat q + kBufLength \<and> xs ! unat q = x
     | NtInfo q \<Rightarrow> unat q < length xs \<and> length xs \<le> unat q + kBufLength \<and> in_infos i (ring_index q) = xs ! unat q)"

definition ls_ok :: "readable_info list \<Rightarrow> indicator \<Rightarrow> ls_pc \<Rightarrow> u64 \<Rightarrow> nat \<Rightarrow> readable_info list \<Rightarrow> bool" where
  "ls_ok xs i p q from got \<longleftrightarrow> p = LsOut \<or> (length xs \<le> unat q + kBufLength \<and> from \<le> unat q \<and> unat q \<le> length xs
     \<and> (p = LsNew \<longrightarrow> unat q < length xs) \<and> (from \<noteq> 0 \<longrightarrow> got = drop from (take (unat q) xs)
     \<and> (p = LsReady \<longrightarrow> unat q < length xs \<and> in_infos i (ring_index q) = xs ! unat q)) \<and> (p = LsReady \<longrightarrow> unat q < length xs))"

definition written_ok :: "readable_info list \<Rightarrow> indicator \<Rightarrow> (nat \<Rightarrow> nt_pc) \<Rightarrow> bool" where
  "written_ok xs i nt \<longleftrightarrow> (\<forall>q. unat q < length xs \<and> length xs \<le> unat q + kBufLength \<longrightarrow> in_seqs i (ring_index q) = q \<or> (\<exists>t. pending (nt t) q))"

definition rg_inv :: "ring \<Rightarrow> bool" where
  "rg_inv s \<longleftrightarrow> ind_ok (rg_sent s) (rg_ind s) \<and> (\<forall>t. nt_ok (rg_sent s) (rg_ind s) (rg_nt s t))
     \<and> (\<forall>l. ls_ok (rg_sent s) (rg_ind s) (rg_ls s l) (rg_next s l) (rg_from s l) (rg_got s l)) \<and> written_ok (rg_sent s) (rg_ind s) (rg_nt s)"

text \<open>Two numbers of one slot within a window of the ring are the same.\<close>

lemma ring_index_window:
  assumes "ring_index p = ring_index q" and "unat p < n" and "unat q < n" and "n \<le> unat p + kBufLength" and "n \<le> unat q + kBufLength"
  shows "p = q"
proof -
  have "unat p = unat q"
    using assms mod_window_inj [of "unat p" kBufLength "unat q"] mod_window_inj [of "unat q" kBufLength "unat p"]
    by (cases "unat p \<le> unat q") (auto simp: ring_index_def)
  then show ?thesis by (simp add: word_unat_eq_iff)
qed

lemma ring_index_less [simp]: "ring_index q < kBufLength"
  by (simp add: ring_index_def kBufLength_def)

lemma in_new_ok: "ind_ok [] in_new" "nt_ok [] in_new NtIdle" "ls_ok [] in_new LsOut q f g" "written_ok [] in_new (\<lambda>_. NtIdle)"
  by (simp_all add: ind_ok_def in_new_def nt_ok_def ls_ok_def written_ok_def)

lemma rg_new_inv: "rg_inv rg_new"
  by (simp add: rg_inv_def rg_new_def in_new_ok)

text \<open>A number is taken.\<close>

lemma take_ok:
  assumes "length xs + 1 < 2 ^ 64" and i: "ind_ok xs i"
  defines "i' \<equiv> i\<lparr>in_next_seq := in_next_seq i + 1\<rparr>"
  shows "ind_ok (xs @ [x]) i'"
    and "nt_ok xs i p \<Longrightarrow> (\<And>q. pending p q \<Longrightarrow> length xs < unat q + kBufLength) \<Longrightarrow> nt_ok (xs @ [x]) i' p"
    and "nt_ok (xs @ [x]) i' (NtSeq (in_next_seq i) x)"
    and "ls_ok xs i l q f g \<Longrightarrow> (l \<noteq> LsOut \<Longrightarrow> length xs < unat q + kBufLength) \<Longrightarrow> ls_ok (xs @ [x]) i' l q f g"
    and "written_ok xs i nt \<Longrightarrow> nt t = NtIdle \<Longrightarrow> written_ok (xs @ [x]) i' (nt(t := NtSeq (in_next_seq i) x))"
proof -
  have n: "unat (in_next_seq i) = length xs" using i by (simp add: ind_ok_def)
  have n': "unat (in_next_seq i + 1) = length xs + 1" using assms(1) n unat_Suc_word [of "in_next_seq i"] by simp
  show "ind_ok (xs @ [x]) i'" using i n' by (auto simp: ind_ok_def i'_def Let_def nth_append)
  show "nt_ok xs i p \<Longrightarrow> (\<And>q. pending p q \<Longrightarrow> length xs < unat q + kBufLength) \<Longrightarrow> nt_ok (xs @ [x]) i' p"
    by (cases p) (auto simp: nt_ok_def pending_def i'_def nth_append)
  show "nt_ok (xs @ [x]) i' (NtSeq (in_next_seq i) x)" using n by (simp add: nt_ok_def kBufLength_def)
  show "ls_ok xs i l q f g \<Longrightarrow> (l \<noteq> LsOut \<Longrightarrow> length xs < unat q + kBufLength) \<Longrightarrow> ls_ok (xs @ [x]) i' l q f g"
    by (cases l) (auto simp: ls_ok_def i'_def nth_append)
  show "written_ok xs i nt \<Longrightarrow> nt t = NtIdle \<Longrightarrow> written_ok (xs @ [x]) i' (nt(t := NtSeq (in_next_seq i) x))"
    unfolding written_ok_def
  proof (intro allI impI)
    fix q :: u64
    assume w: "\<forall>q. unat q < length xs \<and> length xs \<le> unat q + kBufLength \<longrightarrow> in_seqs i (ring_index q) = q \<or> (\<exists>t. pending (nt t) q)"
      and t: "nt t = NtIdle" and q: "unat q < length (xs @ [x]) \<and> length (xs @ [x]) \<le> unat q + kBufLength"
    show "in_seqs i' (ring_index q) = q \<or> (\<exists>u. pending ((nt(t := NtSeq (in_next_seq i) x)) u) q)"
    proof (cases "unat q = length xs")
      case True
      then have "q = in_next_seq i" using n by (metis word_unat_eq_iff)
      then show ?thesis by (intro disjI2 exI [of _ t]) (simp add: pending_def)
    next
      case False
      then have "in_seqs i (ring_index q) = q \<or> (\<exists>t. pending (nt t) q)" using w q by auto
      moreover have "u \<noteq> t" if "pending (nt u) q" for u using t that by (auto simp: pending_def)
      ultimately show ?thesis by (auto simp: i'_def)
    qed
  qed
qed

text \<open>A notification is written, then its number. Nothing anyone relies on is overwritten: the slot
  could be that of another number only a whole turn of the ring away.\<close>

lemma info_ok:
  assumes i: "ind_ok xs i" and t: "nt_ok xs i (NtSeq seq x)"
  defines "i' \<equiv> i\<lparr>in_infos := (in_infos i)(ring_index seq := x)\<rparr>"
  shows "ind_ok xs i'" and "nt_ok xs i p \<Longrightarrow> nt_ok xs i' p" and "nt_ok xs i' (NtInfo seq)"
    and "ls_ok xs i l q f g \<Longrightarrow> ls_ok xs i' l q f g"
    and "written_ok xs i nt \<Longrightarrow> nt t = NtSeq seq x \<Longrightarrow> written_ok xs i' (nt(t := NtInfo seq))"
proof -
  have s: "unat seq < length xs" "length xs \<le> unat seq + kBufLength" "xs ! unat seq = x" using t by (simp_all add: nt_ok_def)
  have here: "in_infos i' (ring_index q) = xs ! unat q"
    if "unat q < length xs" "length xs \<le> unat q + kBufLength" "in_infos i (ring_index q) = xs ! unat q" for q
  proof (cases "ring_index seq = ring_index q")
    case True
    then have "seq = q" using ring_index_window [OF True s(1) that(1) s(2) that(2)] by simp
    then show ?thesis using s(3) by (simp add: i'_def)
  qed (use that(3) in \<open>simp add: i'_def\<close>)
  show "ind_ok xs i'"
    unfolding ind_ok_def Let_def
  proof (intro conjI allI impI)
    show "unat (in_next_seq i') = length xs" using i by (simp add: ind_ok_def i'_def)
    fix j assume j: "j < kBufLength"
    then have j': "unat (in_seqs i j) = 0 \<or> (unat (in_seqs i j) < length xs \<and> unat (in_seqs i j) mod kBufLength = j
       \<and> (length xs \<le> unat (in_seqs i j) + kBufLength \<longrightarrow> in_infos i j = xs ! unat (in_seqs i j)))" using i by (simp add: ind_ok_def Let_def)
    then show "unat (in_seqs i' j) = 0 \<or> (unat (in_seqs i' j) < length xs \<and> unat (in_seqs i' j) mod kBufLength = j
       \<and> (length xs \<le> unat (in_seqs i' j) + kBufLength \<longrightarrow> in_infos i' j = xs ! unat (in_seqs i' j)))"
      using here [of "in_seqs i j"] by (auto simp: i'_def ring_index_def)
  qed
  show "nt_ok xs i p \<Longrightarrow> nt_ok xs i' p" using here by (cases p) (auto simp: nt_ok_def)
  show "nt_ok xs i' (NtInfo seq)" using s by (simp add: nt_ok_def i'_def)
  show "ls_ok xs i l q f g \<Longrightarrow> ls_ok xs i' l q f g" using here [of q] by (auto simp: ls_ok_def)
  show "written_ok xs i nt \<Longrightarrow> nt t = NtSeq seq x \<Longrightarrow> written_ok xs i' (nt(t := NtInfo seq))"
    unfolding written_ok_def pending_def i'_def by simp (metis nt_pc.inject(1) nt_pc.distinct(5))
qed

lemma seq_ok:
  assumes i: "ind_ok xs i" and t: "nt_ok xs i (NtInfo seq)"
  defines "i' \<equiv> i\<lparr>in_seqs := (in_seqs i)(ring_index seq := seq)\<rparr>"
  shows "ind_ok xs i'" and "nt_ok xs i p \<Longrightarrow> nt_ok xs i' p" and "nt_ok xs i' NtIdle"
    and "ls_ok xs i l q f g \<Longrightarrow> ls_ok xs i' l q f g"
    and "written_ok xs i nt \<Longrightarrow> nt t = NtInfo seq \<Longrightarrow> written_ok xs i' (nt(t := NtIdle))"
proof -
  have s: "unat seq < length xs" "length xs \<le> unat seq + kBufLength" "in_infos i (ring_index seq) = xs ! unat seq" using t by (simp_all add: nt_ok_def)
  show "ind_ok xs i'" using i s by (auto simp: ind_ok_def i'_def Let_def ring_index_def)
  show "nt_ok xs i p \<Longrightarrow> nt_ok xs i' p" by (cases p) (simp_all add: nt_ok_def i'_def)
  show "nt_ok xs i' NtIdle" by (simp add: nt_ok_def)
  show "ls_ok xs i l q f g \<Longrightarrow> ls_ok xs i' l q f g" by (simp add: ls_ok_def i'_def)
  show "written_ok xs i nt \<Longrightarrow> nt t = NtInfo seq \<Longrightarrow> written_ok xs i' (nt(t := NtIdle))"
    unfolding written_ok_def
  proof (intro allI impI)
    fix q :: u64
    assume w: "\<forall>q. unat q < length xs \<and> length xs \<le> unat q + kBufLength \<longrightarrow> in_seqs i (ring_index q) = q \<or> (\<exists>t. pending (nt t) q)"
      and nt: "nt t = NtInfo seq" and q: "unat q < length xs \<and> length xs \<le> unat q + kBufLength"
    show "in_seqs i' (ring_index q) = q \<or> (\<exists>u. pending ((nt(t := NtIdle)) u) q)"
    proof (cases "q = seq")
      case False
      then have "ring_index q \<noteq> ring_index seq" using ring_index_window [of q seq "length xs"] s q by auto
      moreover have "\<not> pending (nt t) q" using False nt by (simp add: pending_def)
      ultimately show ?thesis using w q by (fastforce simp: i'_def)
    qed (simp add: i'_def)
  qed
qed

text \<open>A listener that finds its number in its slot has its notification there, but for number 0.\<close>

lemma check_ok:
  assumes i: "ind_ok xs i" and l: "ls_ok xs i LsNew q f g"
  shows "ls_ok xs i (if in_seqs i (ring_index q) = q then LsReady else LsIdle) q f g"
proof (cases "in_seqs i (ring_index q) = q")
  case True
  have "unat q \<noteq> 0 \<Longrightarrow> length xs \<le> unat q + kBufLength \<Longrightarrow> in_infos i (ring_index q) = xs ! unat q"
    using i True ring_index_less [of q] unfolding ind_ok_def Let_def by metis
  then show ?thesis using l True by (auto simp: ls_ok_def)
qed (use l in \<open>simp add: ls_ok_def\<close>)

lemma copy_ok:
  assumes "length xs < 2 ^ 64" and l: "ls_ok xs i LsReady q f g"
  shows "ls_ok xs i LsIdle (q + 1) f (g @ [in_infos i (ring_index q)])"
proof -
  have "unat q < length xs" using l by (simp add: ls_ok_def)
  then have q: "unat (q + 1) = Suc (unat q)" using assms(1) unat_Suc_word [of q] by simp
  have "f \<le> unat q \<Longrightarrow> drop f (take (Suc (unat q)) xs) = drop f (take (unat q) xs) @ [xs ! unat q]"
    using \<open>unat q < length xs\<close> by (simp add: take_Suc_conv_app_nth)
  then show ?thesis using l q by (auto simp: ls_ok_def)
qed

lemma rg_step_sent: "rg_step win s s' \<Longrightarrow> length (rg_sent s) \<le> length (rg_sent s')"
  by (cases rule: rg_step.cases) auto

lemma rg_step_inv:
  assumes "rg_step True s s'" and "rg_inv s" and len: "length (rg_sent s') < 2 ^ 64"
  shows "rg_inv s'"
proof -
  have i: "ind_ok (rg_sent s) (rg_ind s)" and t: "\<And>t. nt_ok (rg_sent s) (rg_ind s) (rg_nt s t)"
    and l: "\<And>l. ls_ok (rg_sent s) (rg_ind s) (rg_ls s l) (rg_next s l) (rg_from s l) (rg_got s l)"
    and w: "written_ok (rg_sent s) (rg_ind s) (rg_nt s)" and n: "unat (in_next_seq (rg_ind s)) = length (rg_sent s)"
    using assms(2) by (simp_all add: rg_inv_def ind_ok_def)
  show ?thesis using assms(1)
  proof cases
    case (rg_take t' info)
    have len: "length (rg_sent s) + 1 < 2 ^ 64" using len rg_take(1) by simp
    have "in_window s" using rg_take by simp
    then have "pending (rg_nt s u) q \<Longrightarrow> length (rg_sent s) < unat q + kBufLength"
      and "rg_ls s u \<noteq> LsOut \<Longrightarrow> length (rg_sent s) < unat (rg_next s u) + kBufLength" for u q
      unfolding in_window_def n pending_def by blast+
    then show ?thesis using take_ok [OF len i] i t l w rg_take by (simp add: rg_inv_def)
  next
    case (rg_info t' seq info)
    have "nt_ok (rg_sent s) (rg_ind s) (NtSeq seq info)" using t rg_info(2) by metis
    from info_ok [OF i this] show ?thesis using t l w rg_info by (simp add: rg_inv_def)
  next
    case (rg_seq t' seq)
    have "nt_ok (rg_sent s) (rg_ind s) (NtInfo seq)" using t rg_seq(2) by metis
    from seq_ok [OF i this] show ?thesis using t l w rg_seq by (simp add: rg_inv_def)
  next
    case (rg_join l')
    then show ?thesis using i t l w n rg_join by (simp add: rg_inv_def ls_ok_def)
  next
    case (rg_load l')
    have "unat (rg_next s l') \<noteq> unat (in_next_seq (rg_ind s))" using rg_load(3) by (simp add: word_unat_eq_iff)
    then show ?thesis using i t l [of l'] l w n rg_load by (auto simp: rg_inv_def ls_ok_def)
  next
    case (rg_check l')
    define p where "p = (if in_seqs (rg_ind s) (ring_index (rg_next s l')) = rg_next s l' then LsReady else LsIdle)"
    have "ls_ok (rg_sent s) (rg_ind s) LsNew (rg_next s l') (rg_from s l') (rg_got s l')" using l rg_check(2) by metis
    from check_ok [OF i this] show ?thesis using i t l w rg_check(1) unfolding p_def [symmetric] by (simp add: rg_inv_def)
  next
    case (rg_copy l')
    have "ls_ok (rg_sent s) (rg_ind s) LsReady (rg_next s l') (rg_from s l') (rg_got s l')" using l rg_copy(2) by metis
    from copy_ok [OF _ this] show ?thesis using i t l w len rg_copy by (simp add: rg_inv_def)
  qed
qed

lemma rg_reach_inv: "reach rg_new (rg_step True) s \<Longrightarrow> length (rg_sent s) < 2 ^ 64 \<Longrightarrow> rg_inv s"
proof (induction rule: reach.induct)
  case (reach_step s s')
  then have "length (rg_sent s) < 2 ^ 64" using rg_step_sent [OF reach_step(2)] by linarith
  then show ?case using rg_step_inv reach_step by blast
qed (rule rg_new_inv)

text \<open>C27: No notification is lost, doubled or out of order, whatever the interleaving of the notifying
  and listening threads of all processes, as long as no thread falls a turn of the ring (4096)
  behind: a listener that began after the first notification has been given exactly the
  notifications sent since, in their order, up to its number; and when no notifier is under way, a
  look finds nothing only if the listener has been given all.\<close>

theorem notifications_in_order:
  assumes "reach rg_new (rg_step True) s" and "length (rg_sent s) < 2 ^ 64" and "rg_ls s l \<noteq> LsOut" and "rg_from s l \<noteq> 0"
  shows "rg_got s l = drop (rg_from s l) (take (unat (rg_next s l)) (rg_sent s))
    \<and> ((\<forall>t. rg_nt s t = NtIdle) \<longrightarrow> (no_look (rg_ind s) \<lparr>no_next_seq = rg_next s l, no_is_shutdown = False\<rparr> = None
         \<longleftrightarrow> rg_got s l = drop (rg_from s l) (rg_sent s)))"
proof -
  let ?q = "rg_next s l" and ?xs = "rg_sent s"
  have inv: "rg_inv s" using rg_reach_inv assms(1,2) by blast
  then have l: "length ?xs \<le> unat ?q + kBufLength" "rg_from s l \<le> unat ?q" "unat ?q \<le> length ?xs"
      "rg_got s l = drop (rg_from s l) (take (unat ?q) ?xs)" and n: "unat (in_next_seq (rg_ind s)) = length ?xs"
    using assms(3,4) by (auto simp: rg_inv_def ls_ok_def ind_ok_def)
  have "in_next_seq (rg_ind s) = ?q \<or> in_seqs (rg_ind s) (ring_index ?q) \<noteq> ?q \<longleftrightarrow> rg_got s l = drop (rg_from s l) ?xs"
    if "\<forall>t. rg_nt s t = NtIdle"
  proof (cases "unat ?q = length ?xs")
    case True
    then have "in_next_seq (rg_ind s) = ?q" using n by (simp add: word_unat_eq_iff)
    then show ?thesis using l(4) True by simp
  next
    case False
    have "in_seqs (rg_ind s) (ring_index ?q) = ?q \<or> (\<exists>t. pending (rg_nt s t) ?q)"
      using inv l(1,3) False by (simp add: rg_inv_def written_ok_def)
    then have "in_seqs (rg_ind s) (ring_index ?q) = ?q" using that by (simp add: pending_def)
    moreover have "in_next_seq (rg_ind s) \<noteq> ?q" using n False by (metis)
    moreover have "length (rg_got s l) \<noteq> length (drop (rg_from s l) ?xs)" using l False by simp
    ultimately show ?thesis by metis
  qed
  then show ?thesis using l(4) by (auto simp: no_look_def)
qed

text \<open>The first notification of a machine can be read before it is written: the numbers of the
  slots are 0 to begin with, so a listener that waits for number 0 finds its slot ready as soon as a
  notifier has taken that number, and gives its caller an empty notification.\<close>

theorem first_notification_read_too_early:
  "\<exists>s info. reach rg_new (rg_step True) s \<and> rg_sent s = [info] \<and> rg_got s 0 = [ri_default] \<and> info \<noteq> ri_default \<and> rg_next s 0 = 1"
proof -
  let ?R = "reach rg_new (rg_step True)" and ?i = "ri_default\<lparr>ri_channel_id := 7\<rparr>"
  let ?s = "\<lambda>p got q. \<lparr>rg_ind = in_new\<lparr>in_next_seq := 1\<rparr>, rg_nt = (\<lambda>_. NtIdle)(0 := NtSeq 0 ?i), rg_ls = (\<lambda>_. LsOut)(0 := p), rg_next = (\<lambda>_. 0)(0 := q),
     rg_from = (\<lambda>_. 0), rg_got = (\<lambda>_. [])(0 := got), rg_sent = [?i]\<rparr>"
  let ?start = "rg_new\<lparr>rg_ls := (rg_ls rg_new)(0 := LsIdle), rg_next := (rg_next rg_new)(0 := in_next_seq (rg_ind rg_new)),
     rg_from := (rg_from rg_new)(0 := length (rg_sent rg_new)), rg_got := (rg_got rg_new)(0 := [])\<rparr>"
  have "?R ?start" by (rule reach_one) (rule rg_join, simp add: rg_new_def)
  then have "?R (?s LsIdle [] 0)"
    by (rule reach_eq) (rule rg_take [where t = 0 and info = ?i], simp_all add: rg_new_def in_new_def in_window_def kBufLength_def fun_eq_iff)
  then have "?R (?s LsNew [] 0)" by (rule reach_eq) (rule rg_load [where l = 0], simp_all add: in_new_def fun_eq_iff)
  then have "?R (?s LsReady [] 0)" by (rule reach_eq) (rule rg_check [where l = 0], simp_all add: in_new_def fun_eq_iff)
  then have "?R (?s LsIdle [ri_default] 1)" by (rule reach_eq) (rule rg_copy [where l = 0], simp_all add: in_new_def fun_eq_iff)
  then show ?thesis by (intro exI [of _ "?s LsIdle [ri_default] 1"] exI [of _ ?i]) (simp add: ri_default_def)
qed

section \<open>Falling behind\<close>

text \<open>The listener's number has been taken and its slot has another number now.\<close>

definition rg_lost :: "ring \<Rightarrow> nat \<Rightarrow> bool" where
  "rg_lost s l \<longleftrightarrow> (rg_ls s l = LsIdle \<or> rg_ls s l = LsNew) \<and> unat (rg_next s l) < length (rg_sent s)
     \<and> unat (in_next_seq (rg_ind s)) = length (rg_sent s) \<and> in_seqs (rg_ind s) (ring_index (rg_next s l)) \<noteq> rg_next s l
     \<and> (\<forall>t. \<not> pending (rg_nt s t) (rg_next s l))"

lemma rg_lost_step:
  assumes "rg_step win s s'" and "rg_lost s l" and "length (rg_sent s') < 2 ^ 64"
  shows "rg_lost s' l \<and> rg_got s' l = rg_got s l \<and> rg_next s' l = rg_next s l"
  using assms(1)
proof cases
  case (rg_take t info)
  have "unat (in_next_seq (rg_ind s) + 1) = length (rg_sent s) + 1"
    using assms(2,3) rg_take unat_Suc_word [of "in_next_seq (rg_ind s)"] by (simp add: rg_lost_def)
  moreover have "in_next_seq (rg_ind s) \<noteq> rg_next s l" using assms(2) by (auto simp: rg_lost_def)
  ultimately show ?thesis using assms(2) rg_take by (auto simp: rg_lost_def pending_def)
next
  case (rg_info t seq info)
  then have "seq \<noteq> rg_next s l" using assms(2) by (auto simp: rg_lost_def pending_def)
  then show ?thesis using assms(2) rg_info by (auto simp: rg_lost_def pending_def)
next
  case (rg_seq t seq)
  then have "seq \<noteq> rg_next s l" using assms(2) by (auto simp: rg_lost_def pending_def)
  then show ?thesis using assms(2) rg_seq by (auto simp: rg_lost_def pending_def)
qed (use assms(2) in \<open>auto simp: rg_lost_def\<close>)

text \<open>A listener that falls a whole turn of the ring behind never hears anything again: once the
  slot for its number holds a later number, every look of it fails for ever, however much is sent,
  because nothing in \<open>Listen\<close> moves it on.\<close>

theorem overrun_listener_stuck:
  assumes "rg_lost s l" and "reach s (rg_step False) s'" and "length (rg_sent s') < 2 ^ 64"
  shows "rg_got s' l = rg_got s l \<and> no_look (rg_ind s') \<lparr>no_next_seq = rg_next s' l, no_is_shutdown = False\<rparr> = None"
proof -
  have "rg_lost s' l \<and> rg_got s' l = rg_got s l" using assms(2,3)
  proof (induction rule: reach.induct)
    case (reach_step s1 s2)
    then have "length (rg_sent s1) < 2 ^ 64" using rg_step_sent [OF reach_step(2)] by linarith
    then show ?case using reach_step rg_lost_step by metis
  qed (simp add: assms(1))
  then show ?thesis by (simp add: rg_lost_def no_look_def)
qed

text \<open>One thread notifies \<open>n\<close> times while a listener waits for number 0.\<close>

lemma rg_flood:
  "\<exists>s. reach rg_new (rg_step False) s \<and> rg_nt s = (\<lambda>_. NtIdle) \<and> rg_ls s 0 = LsIdle \<and> rg_next s 0 = 0 \<and> rg_got s 0 = []
    \<and> length (rg_sent s) = n \<and> in_next_seq (rg_ind s) = of_nat n \<and> (n = 0 \<or> in_seqs (rg_ind s) (ring_index (of_nat (n - 1))) = of_nat (n - 1))"
proof (induction n)
  case 0
  have "reach rg_new (rg_step False) (rg_new\<lparr>rg_ls := (rg_ls rg_new)(0 := LsIdle), rg_next := (rg_next rg_new)(0 := in_next_seq (rg_ind rg_new)),
     rg_from := (rg_from rg_new)(0 := length (rg_sent rg_new)), rg_got := (rg_got rg_new)(0 := [])\<rparr>)"
    by (rule reach_one) (rule rg_join, simp add: rg_new_def)
  then show ?case by (intro exI conjI, assumption) (simp_all add: rg_new_def in_new_def)
next
  case (Suc n)
  then obtain s where s: "reach rg_new (rg_step False) s" "rg_nt s = (\<lambda>_. NtIdle)" "rg_ls s 0 = LsIdle" "rg_next s 0 = 0" "rg_got s 0 = []"
    "length (rg_sent s) = n" "in_next_seq (rg_ind s) = of_nat n" by blast
  let ?q = "of_nat n :: u64"
  let ?i1 = "(rg_ind s)\<lparr>in_next_seq := ?q + 1\<rparr>"
  let ?i2 = "?i1\<lparr>in_infos := (in_infos (rg_ind s))(ring_index ?q := ri_default)\<rparr>"
  let ?s1 = "s\<lparr>rg_ind := ?i1, rg_nt := (\<lambda>_. NtIdle)(0 := NtSeq ?q ri_default), rg_sent := rg_sent s @ [ri_default]\<rparr>"
  let ?s2 = "?s1\<lparr>rg_ind := ?i2, rg_nt := (\<lambda>_. NtIdle)(0 := NtInfo ?q)\<rparr>"
  let ?s3 = "?s2\<lparr>rg_ind := ?i2\<lparr>in_seqs := (in_seqs (rg_ind s))(ring_index ?q := ?q)\<rparr>, rg_nt := (\<lambda>_. NtIdle)\<rparr>"
  have "reach rg_new (rg_step False) ?s1" by (rule reach_eq [OF s(1)]) (rule rg_take [where t = 0 and info = ri_default], simp_all add: s)
  then have "reach rg_new (rg_step False) ?s2" by (rule reach_eq) (rule rg_info [where t = 0 and seq = ?q and info = ri_default], simp_all)
  then have "reach rg_new (rg_step False) ?s3" by (rule reach_eq) (rule rg_seq [where t = 0 and seq = ?q], simp_all add: fun_eq_iff)
  then show ?case using s(2-6) by (intro exI [of _ ?s3]) (simp add: add.commute)
qed

lemma overrun_listener_stuck_witness:
  "\<exists>s. reach rg_new (rg_step False) s \<and> length (rg_sent s) = 4097 \<and> rg_got s 0 = []
     \<and> no_look (rg_ind s) \<lparr>no_next_seq = rg_next s 0, no_is_shutdown = False\<rparr> = None"
proof -
  obtain s where s: "reach rg_new (rg_step False) s" "rg_nt s = (\<lambda>_. NtIdle)" "rg_ls s 0 = LsIdle" "rg_next s 0 = 0" "rg_got s 0 = []"
    "length (rg_sent s) = 4097" "in_next_seq (rg_ind s) = 4097" "in_seqs (rg_ind s) (ring_index 4096) = 4096" using rg_flood [of 4097] by auto
  have "ring_index 4096 = ring_index 0" by (simp add: ring_index_def kBufLength_def)
  then have "rg_lost s 0" using s by (simp add: rg_lost_def pending_def)
  from overrun_listener_stuck [OF this reach_init] show ?thesis using s by auto
qed

text \<open>A whole notification, and a whole look of a listener.\<close>

lemma rg_notify:
  assumes "reach rg_new (rg_step True) s" and "rg_nt s t = NtIdle" and "in_window s" and q: "q = in_next_seq (rg_ind s)"
  shows "reach rg_new (rg_step True) (s\<lparr>rg_ind := \<lparr>in_next_seq = q + 1, in_infos = (in_infos (rg_ind s))(ring_index q := info),
    in_seqs = (in_seqs (rg_ind s))(ring_index q := q)\<rparr>, rg_sent := rg_sent s @ [info]\<rparr>)"
proof -
  let ?i1 = "(rg_ind s)\<lparr>in_next_seq := q + 1\<rparr>"
  let ?i2 = "?i1\<lparr>in_infos := (in_infos (rg_ind s))(ring_index q := info)\<rparr>"
  let ?a = "s\<lparr>rg_ind := ?i1, rg_nt := (rg_nt s)(t := NtSeq q info), rg_sent := rg_sent s @ [info]\<rparr>"
  let ?b = "?a\<lparr>rg_ind := ?i2, rg_nt := (rg_nt s)(t := NtInfo q)\<rparr>"
  have "reach rg_new (rg_step True) ?a" by (rule reach_eq [OF assms(1)]) (rule rg_take [where t = t and info = info], simp_all add: assms)
  then have "reach rg_new (rg_step True) ?b" by (rule reach_eq) (rule rg_info [where t = t and seq = q and info = info], simp_all)
  then show ?thesis by (rule reach_eq) (rule rg_seq [where t = t and seq = q], simp_all add: assms(2) fun_upd_idem)
qed

lemma rg_get:
  assumes "reach rg_new (rg_step True) s" and "rg_ls s l = LsIdle" and "in_next_seq (rg_ind s) \<noteq> q" and q: "q = rg_next s l"
    and "in_seqs (rg_ind s) (ring_index q) = q"
  shows "reach rg_new (rg_step True) (s\<lparr>rg_got := (rg_got s)(l := rg_got s l @ [in_infos (rg_ind s) (ring_index q)]), rg_next := (rg_next s)(l := q + 1)\<rparr>)"
proof -
  have "reach rg_new (rg_step True) (s\<lparr>rg_ls := (rg_ls s)(l := LsNew)\<rparr>)"
    by (rule reach_step [OF assms(1)]) (rule rg_load, use assms in simp_all)
  then have "reach rg_new (rg_step True) (s\<lparr>rg_ls := (rg_ls s)(l := LsReady)\<rparr>)"
    by (rule reach_eq) (rule rg_check [where l = l], use assms in simp_all)
  then show ?thesis
    by (rule reach_eq) (rule rg_copy [where l = l], use assms in \<open>simp_all add: fun_upd_idem\<close>)
qed

lemma notifications_in_order_witness:
  "\<exists>s. reach rg_new (rg_step True) s \<and> rg_sent s = [ri_default, ri_default\<lparr>ri_channel_id := 7\<rparr>] \<and> rg_got s 0 = [ri_default\<lparr>ri_channel_id := 7\<rparr>]
     \<and> rg_got s 0 = drop (rg_from s 0) (take (unat (rg_next s 0)) (rg_sent s))"
proof -
  let ?x = "ri_default\<lparr>ri_channel_id := 7\<rparr>"
  define a where "a = rg_new\<lparr>rg_ind := \<lparr>in_next_seq = 0 + 1, in_infos = (in_infos in_new)(ring_index 0 := ri_default), in_seqs = (in_seqs in_new)(ring_index 0 := 0)\<rparr>,
    rg_sent := [ri_default]\<rparr>"
  define b where "b = a\<lparr>rg_ls := (rg_ls a)(0 := LsIdle), rg_next := (rg_next a)(0 := in_next_seq (rg_ind a)), rg_from := (rg_from a)(0 := length (rg_sent a)),
    rg_got := (rg_got a)(0 := [])\<rparr>"
  define c where "c = b\<lparr>rg_ind := \<lparr>in_next_seq = 1 + 1, in_infos = (in_infos (rg_ind b))(ring_index 1 := ?x), in_seqs = (in_seqs (rg_ind b))(ring_index 1 := 1)\<rparr>,
    rg_sent := rg_sent b @ [?x]\<rparr>"
  define d where "d = c\<lparr>rg_got := (rg_got c)(0 := rg_got c 0 @ [in_infos (rg_ind c) (ring_index 1)]), rg_next := (rg_next c)(0 := 1 + 1)\<rparr>"
  have ra: "reach rg_new (rg_step True) a"
    using rg_notify [OF reach_init, of 0 0 ri_default] by (simp add: a_def rg_new_def in_new_def in_window_def)
  then have rb: "reach rg_new (rg_step True) b" unfolding b_def by (rule reach_step) (rule rg_join, simp add: a_def rg_new_def)
  have rc: "reach rg_new (rg_step True) c"
    unfolding c_def by (rule rg_notify [OF rb, of 0]) (simp_all add: b_def a_def rg_new_def in_window_def kBufLength_def)
  have rd: "reach rg_new (rg_step True) d"
    unfolding d_def by (rule rg_get [OF rc]) (simp_all add: c_def b_def a_def rg_new_def)
  have "rg_sent d = [ri_default, ?x]" "rg_got d 0 = [?x]" "rg_ls d 0 \<noteq> LsOut" "rg_from d 0 \<noteq> 0"
    by (simp_all add: d_def c_def b_def a_def rg_new_def)
  then show ?thesis using notifications_in_order [OF rd] rd by auto
qed

end
