(* ===== verification/Rtps_Adapter.thy ===== *)
theory Rtps_Adapter
  imports Hybrid_Transport
begin

text \<open>
  The way over RTPS (transport/rtps/attributes_filler.cc, sub_listener.cc, transport/qos/qos_profile_conf.cc
  and transport/transmitter/rtps_transmitter.h): the attributes of the library's publishers and
  subscribers from a profile, and a message with its info as a sample of the library. The library is
  not modelled: its default attributes, its participant and what it does with a sample are arguments.
\<close>

section \<open>Profiles\<close>

datatype reliability_policy = RELIABILITY_SYSTEM_DEFAULT | RELIABILITY_RELIABLE | RELIABILITY_BEST_EFFORT

text \<open>The fields of a profile that only the library reads.\<close>

record rtps_qos = qos_profile +
  qp_mps :: u32
  qp_reliability :: reliability_policy

definition CreateQosProfile :: "history_policy \<Rightarrow> u32 \<Rightarrow> u32 \<Rightarrow> reliability_policy \<Rightarrow> durability_policy \<Rightarrow> rtps_qos" where
  "CreateQosProfile history depth mps reliability durability =
     \<lparr>qp_history = history, qp_depth = depth, qp_durability = durability, qp_mps = mps, qp_reliability = reliability\<rparr>"

definition QOS_HISTORY_DEPTH_SYSTEM_DEFAULT :: u32 where "QOS_HISTORY_DEPTH_SYSTEM_DEFAULT = 0"
definition QOS_MPS_SYSTEM_DEFAULT :: u32 where "QOS_MPS_SYSTEM_DEFAULT = 0"

definition QOS_PROFILE_DEFAULT :: rtps_qos where
  "QOS_PROFILE_DEFAULT = CreateQosProfile HISTORY_KEEP_LAST 1 QOS_MPS_SYSTEM_DEFAULT RELIABILITY_RELIABLE DURABILITY_VOLATILE"
definition QOS_PROFILE_SENSOR_DATA :: rtps_qos where
  "QOS_PROFILE_SENSOR_DATA = CreateQosProfile HISTORY_KEEP_LAST 5 QOS_MPS_SYSTEM_DEFAULT RELIABILITY_BEST_EFFORT DURABILITY_VOLATILE"
definition QOS_PROFILE_PARAMETERS :: rtps_qos where
  "QOS_PROFILE_PARAMETERS = CreateQosProfile HISTORY_KEEP_LAST 1000 QOS_MPS_SYSTEM_DEFAULT RELIABILITY_RELIABLE DURABILITY_VOLATILE"
definition QOS_PROFILE_SERVICES_DEFAULT :: rtps_qos where
  "QOS_PROFILE_SERVICES_DEFAULT = CreateQosProfile HISTORY_KEEP_LAST 10 QOS_MPS_SYSTEM_DEFAULT RELIABILITY_RELIABLE DURABILITY_TRANSIENT_LOCAL"
definition QOS_PROFILE_PARAM_EVENT :: rtps_qos where
  "QOS_PROFILE_PARAM_EVENT = CreateQosProfile HISTORY_KEEP_LAST 1000 QOS_MPS_SYSTEM_DEFAULT RELIABILITY_RELIABLE DURABILITY_VOLATILE"
definition QOS_PROFILE_SYSTEM_DEFAULT :: rtps_qos where
  "QOS_PROFILE_SYSTEM_DEFAULT = CreateQosProfile HISTORY_SYSTEM_DEFAULT QOS_HISTORY_DEPTH_SYSTEM_DEFAULT QOS_MPS_SYSTEM_DEFAULT
     RELIABILITY_RELIABLE DURABILITY_TRANSIENT_LOCAL"
definition QOS_PROFILE_TF_STATIC :: rtps_qos where
  "QOS_PROFILE_TF_STATIC = CreateQosProfile HISTORY_KEEP_ALL 10 QOS_MPS_SYSTEM_DEFAULT RELIABILITY_RELIABLE DURABILITY_TRANSIENT_LOCAL"
definition QOS_PROFILE_TOPO_CHANGE :: rtps_qos where
  "QOS_PROFILE_TOPO_CHANGE = CreateQosProfile HISTORY_KEEP_ALL 10 QOS_MPS_SYSTEM_DEFAULT RELIABILITY_RELIABLE DURABILITY_TRANSIENT_LOCAL"

section \<open>Attributes of publishers and subscribers\<close>

datatype history_kind = KEEP_LAST_HISTORY_QOS | KEEP_ALL_HISTORY_QOS
datatype durability_kind = VOLATILE_DURABILITY_QOS | TRANSIENT_LOCAL_DURABILITY_QOS | OTHER_DURABILITY_QOS
datatype reliability_kind = BEST_EFFORT_RELIABILITY_QOS | RELIABLE_RELIABILITY_QOS
datatype topic_kind = NO_KEY | WITH_KEY
datatype publish_mode = SYNCHRONOUS_PUBLISH_MODE | ASYNCHRONOUS_PUBLISH_MODE
datatype memory_mode = PREALLOCATED_MEMORY_MODE | PREALLOCATED_WITH_REALLOC_MEMORY_MODE | DYNAMIC_RESERVE_MEMORY_MODE

text \<open>What both have, and what a publisher has besides.\<close>

record sub_attr =
  at_topicName :: string
  at_topicDataType :: string
  at_topicKind :: topic_kind
  at_history_kind :: history_kind
  at_history_depth :: i32
  at_durability :: durability_kind
  at_reliability :: reliability_kind
  at_memory :: memory_mode
  at_max_samples :: i32

record pub_attr = sub_attr +
  at_heartbeat_seconds :: i32
  at_heartbeat_fraction :: u32
  at_publish_mode :: publish_mode

text \<open>The statements the two functions share, up to the depth.\<close>

definition at_fill :: "string \<Rightarrow> 'q rtps_qos_scheme \<Rightarrow> 'a sub_attr_scheme \<Rightarrow> 'a sub_attr_scheme" where
  "at_fill channel_name qos a =
     (let a = a\<lparr>at_topicName := channel_name, at_topicDataType := ''UnderlayMessage'', at_topicKind := NO_KEY\<rparr>;
          a = (case qp_history qos of HISTORY_KEEP_LAST \<Rightarrow> a\<lparr>at_history_kind := KEEP_LAST_HISTORY_QOS\<rparr>
                 | HISTORY_KEEP_ALL \<Rightarrow> a\<lparr>at_history_kind := KEEP_ALL_HISTORY_QOS\<rparr> | _ \<Rightarrow> a);
          a = (case qp_durability qos of DURABILITY_TRANSIENT_LOCAL \<Rightarrow> a\<lparr>at_durability := TRANSIENT_LOCAL_DURABILITY_QOS\<rparr>
                 | DURABILITY_VOLATILE \<Rightarrow> a\<lparr>at_durability := VOLATILE_DURABILITY_QOS\<rparr> | _ \<Rightarrow> a);
          a = (case qp_reliability qos of RELIABILITY_BEST_EFFORT \<Rightarrow> a\<lparr>at_reliability := BEST_EFFORT_RELIABILITY_QOS\<rparr>
                 | RELIABILITY_RELIABLE \<Rightarrow> a\<lparr>at_reliability := RELIABLE_RELIABILITY_QOS\<rparr> | _ \<Rightarrow> a) in
      if qp_depth qos \<noteq> QOS_HISTORY_DEPTH_SYSTEM_DEFAULT then a\<lparr>at_history_depth := qp_depth qos\<rparr> else a)"

definition clamp_mps :: "u64 \<Rightarrow> u64" where
  "clamp_mps mps = (if mps > 1024 then 1024 else if mps < 64 then 64 else mps)"

definition heartbeat :: "u32 \<Rightarrow> i32 \<times> u32" where
  "heartbeat mps =
     (if mps = 0 then (1, 0)
      else (let fractions = push_bit 32 256 div clamp_mps (ucast mps) in
        (ucast (drop_bit 32 fractions), ucast (fractions AND 0xFFFFFFFF))))"

definition FillInPubAttr :: "string \<Rightarrow> 'q rtps_qos_scheme \<Rightarrow> pub_attr \<Rightarrow> bool \<times> pub_attr" where
  "FillInPubAttr channel_name qos a =
     (let a = at_fill channel_name qos a in
      if at_history_depth a <s 0 then (False, a)
      else (True, a\<lparr>at_heartbeat_seconds := fst (heartbeat (qp_mps qos)), at_heartbeat_fraction := snd (heartbeat (qp_mps qos)),
        at_publish_mode := ASYNCHRONOUS_PUBLISH_MODE, at_memory := DYNAMIC_RESERVE_MEMORY_MODE, at_max_samples := 10000\<rparr>))"

definition FillInSubAttr :: "string \<Rightarrow> 'q rtps_qos_scheme \<Rightarrow> sub_attr \<Rightarrow> bool \<times> sub_attr" where
  "FillInSubAttr channel_name qos a =
     (let a = at_fill channel_name qos a in
      if at_history_depth a <s 0 then (False, a)
      else (True, a\<lparr>at_memory := DYNAMIC_RESERVE_MEMORY_MODE, at_max_samples := 10000\<rparr>))"

section \<open>Samples\<close>

record sample =
  sa_data :: string
  sa_writer_guid :: "u8 list"
  sa_seq_high :: i32
  sa_seq_low :: u32

text \<open>The transmitter; \<open>participant\<close> is whether it has one, which may be shut down.\<close>

record rtps_transmitter =
  rt_attr :: role_attributes
  rt_enabled :: bool
  rt_publisher :: bool

definition rt_new :: "role_attributes \<Rightarrow> rtps_transmitter" where
  "rt_new attr = \<lparr>rt_attr = attr, rt_enabled = False, rt_publisher = False\<rparr>"

definition rt_Enable :: "bool \<Rightarrow> pub_attr \<Rightarrow> (pub_attr \<Rightarrow> bool) \<Rightarrow> 'q rtps_qos_scheme \<Rightarrow> rtps_transmitter \<Rightarrow> rtps_transmitter" where
  "rt_Enable participant dflt createPublisher qos t =
     (if rt_enabled t then t
      else if \<not> participant then t
      else (case FillInPubAttr (ra_channel_name (rt_attr t)) qos dflt of
          (False, _) \<Rightarrow> t
        | (True, a) \<Rightarrow> (let t = t\<lparr>rt_publisher := createPublisher a\<rparr> in if \<not> rt_publisher t then t else t\<lparr>rt_enabled := True\<rparr>)))"

definition rt_Disable :: "rtps_transmitter \<Rightarrow> rtps_transmitter" where
  "rt_Disable t = (if rt_enabled t then t\<lparr>rt_publisher := False, rt_enabled := False\<rparr> else t)"

text \<open>The bytes of the sample's identity.\<close>

definition rt_sample :: "string \<Rightarrow> message_info \<Rightarrow> sample" where
  "rt_sample data info =
     \<lparr>sa_data = data,
      sa_writer_guid = take ID_SIZE (id_data (mi_sender_id info)) @ take ID_SIZE (id_data (mi_spare_id info)),
      sa_seq_high = ucast (drop_bit 32 (mi_seq_num info AND 0xFFFFFFFF00000000)),
      sa_seq_low = ucast (mi_seq_num info AND 0xFFFFFFFF)\<rparr>"

definition rt_Transmit :: "('m \<Rightarrow> string option) \<Rightarrow> bool \<Rightarrow> (sample \<Rightarrow> bool) \<Rightarrow> 'm \<Rightarrow> message_info \<Rightarrow> rtps_transmitter \<Rightarrow> bool \<times> sample option" where
  "rt_Transmit SerializeToString participant_shutdown write msg info t =
     (if \<not> rt_enabled t then (False, None)
      else (case SerializeToString msg of
          None \<Rightarrow> (False, None)
        | Some data \<Rightarrow> if participant_shutdown then (False, None) else (write (rt_sample data info), Some (rt_sample data info))))"

text \<open>\<open>onNewDataMessage\<close>: what \<open>takeNextData\<close> gives, whether the sample is alive, and the call of the
  callback. \<open>msg_info_\<close> is a member, overwritten by every sample.\<close>

definition su_onNewDataMessage :: "(u8 list \<Rightarrow> u64) \<Rightarrow> (string \<Rightarrow> u64) \<Rightarrow> string \<Rightarrow> (sample \<times> bool) option \<Rightarrow> message_info
    \<Rightarrow> (u64 \<times> string \<times> message_info) option \<times> message_info" where
  "su_onNewDataMessage hash Hash topic taken msg_info = (case taken of
       None \<Rightarrow> (None, msg_info)
     | Some (m, alive) \<Rightarrow>
         if \<not> alive then (None, msg_info)
         else (let msg_info = msg_info\<lparr>mi_sender_id := id_set_data hash (Some (take ID_SIZE (sa_writer_guid m))) id_none\<rparr>;
                   msg_info = msg_info\<lparr>mi_spare_id := id_set_data hash (Some (drop ID_SIZE (sa_writer_guid m))) id_none\<rparr>;
                   msg_info = msg_info\<lparr>mi_seq_num := push_bit 32 (scast (sa_seq_high m)) OR ucast (sa_seq_low m)\<rparr> in
               (Some (Hash topic, sa_data m, msg_info), msg_info)))"

section \<open>A heartbeat in bounds\<close>

lemma clamp_mps_range: "64 \<le> unat (clamp_mps m) \<and> unat (clamp_mps m) \<le> 1024"
  by (auto simp: clamp_mps_def word_less_nat_alt not_less)

lemma heartbeat_period:
  assumes "mps \<noteq> 0"
  shows "unat (fst (heartbeat mps)) * 2 ^ 32 + unat (snd (heartbeat mps)) = 2 ^ 40 div unat (clamp_mps (ucast mps))"
proof -
  define f where "f = push_bit 32 256 div clamp_mps (ucast mps)"
  have c: "64 \<le> unat (clamp_mps (ucast mps))" using clamp_mps_range by blast
  have f_nat: "unat f = 2 ^ 40 div unat (clamp_mps (ucast mps))" by (simp add: f_def unat_div push_bit_eq_mult)
  also have "\<dots> \<le> 2 ^ 40 div 64" by (rule div_le_mono2 [OF _ c]) simp
  finally have small: "unat f < 2 ^ 35" by simp
  have "unat (ucast (drop_bit 32 f) :: i32) = unat f div 2 ^ 32"
  proof -
    have "unat f div 2 ^ 32 < 2 ^ 32" using small by (simp add: less_mult_imp_div_less)
    then show ?thesis by (simp add: unsigned_ucast_eq drop_bit_eq_div take_bit_eq_mod unat_div)
  qed
  moreover have "unat (ucast (f AND 0xFFFFFFFF) :: u32) = unat f mod 2 ^ 32"
  proof -
    have "f AND 0xFFFFFFFF = take_bit 32 f" by (simp add: take_bit_eq_mask mask_eq_exp_minus_1)
    then show ?thesis by (simp add: unsigned_ucast_eq take_bit_eq_mod unat_mod)
  qed
  ultimately have "unat (fst (heartbeat mps)) * 2 ^ 32 + unat (snd (heartbeat mps)) = unat f"
    using assms unfolding heartbeat_def Let_def f_def [symmetric] by simp
  then show ?thesis unfolding f_nat .
qed

lemma heartbeat_bounds: "mps \<noteq> 0 \<Longrightarrow> 2 ^ 30 \<le> unat (fst (heartbeat mps)) * 2 ^ 32 + unat (snd (heartbeat mps))
    \<and> unat (fst (heartbeat mps)) * 2 ^ 32 + unat (snd (heartbeat mps)) \<le> 2 ^ 34"
proof -
  assume m: "mps \<noteq> 0"
  have "2 ^ 40 div 1024 \<le> (2 :: nat) ^ 40 div unat (clamp_mps (ucast mps))"
    by (rule div_le_mono2) (use clamp_mps_range [of "ucast mps"] in auto)
  moreover have "(2 :: nat) ^ 40 div unat (clamp_mps (ucast mps)) \<le> 2 ^ 40 div 64"
    by (rule div_le_mono2) (use clamp_mps_range [of "ucast mps"] in auto)
  ultimately show ?thesis unfolding heartbeat_period [OF m] by simp
qed

lemma at_fill_depth: "at_history_depth (at_fill c q a) = (if qp_depth q \<noteq> 0 then qp_depth q else at_history_depth a)"
  by (simp add: at_fill_def QOS_HISTORY_DEPTH_SYSTEM_DEFAULT_def Let_def split: history_policy.split durability_policy.split reliability_policy.split)

lemma at_fill_names: "at_topicName (at_fill c q a) = c" "at_topicDataType (at_fill c q a) = ''UnderlayMessage''"
  by (simp_all add: at_fill_def Let_def split: history_policy.split durability_policy.split reliability_policy.split)

lemma at_fill_same:
  "at_history_kind a = at_history_kind b \<Longrightarrow> at_history_kind (at_fill c q a) = at_history_kind (at_fill c q b)"
  "at_durability a = at_durability b \<Longrightarrow> at_durability (at_fill c q a) = at_durability (at_fill c q b)"
  "at_reliability a = at_reliability b \<Longrightarrow> at_reliability (at_fill c q a) = at_reliability (at_fill c q b)"
  by (auto simp: at_fill_def Let_def split: history_policy.split durability_policy.split reliability_policy.split)

text \<open>What the library compares when it matches a publisher with a subscriber.\<close>

definition at_matching :: "'a sub_attr_scheme \<Rightarrow> string \<times> string \<times> history_kind \<times> i32 \<times> durability_kind \<times> reliability_kind" where
  "at_matching a = (at_topicName a, at_topicDataType a, at_history_kind a, at_history_depth a, at_durability a, at_reliability a)"

text \<open>The two ends of a channel are set up alike: from the same profile and from library defaults
  that agree, a publisher and a subscriber are both refused or both filled in, namely refused when
  the depth does not fit a signed integer; they agree in everything they are matched by, and the
  publisher's heartbeat is a second, or, with a rate in the profile, between a quarter of a second
  and four seconds.\<close>

theorem rtps_ends_agree:
  assumes "at_matching p = at_matching s" and "FillInPubAttr c q p = (ok, p')" and "FillInSubAttr c q s = (ok', s')"
  shows "ok = ok' \<and> at_matching p' = at_matching s' \<and> at_topicName p' = c
    \<and> (ok \<longleftrightarrow> \<not> (if qp_depth q \<noteq> 0 then qp_depth q else at_history_depth p) <s 0)
    \<and> (ok \<longrightarrow> (let period = unat (at_heartbeat_seconds p') * 2 ^ 32 + unat (at_heartbeat_fraction p') in
         if qp_mps q = 0 then period = 2 ^ 32 else 2 ^ 30 \<le> period \<and> period \<le> 2 ^ 34))"
proof -
  have same: "at_matching (at_fill c q p) = at_matching (at_fill c q s)"
    using assms(1) at_fill_same [of p s c q] by (simp add: at_matching_def at_fill_depth at_fill_names)
  have d: "at_history_depth (at_fill c q s) = at_history_depth (at_fill c q p)" using same by (simp add: at_matching_def)
  have "at_matching (a\<lparr>at_memory := x, at_max_samples := y\<rparr>) = at_matching a" for a :: sub_attr and x y by (simp add: at_matching_def)
  moreover have "at_matching (a\<lparr>at_heartbeat_seconds := u, at_heartbeat_fraction := v, at_publish_mode := w, at_memory := x, at_max_samples := y\<rparr>)
      = at_matching a" for a :: pub_attr and u v w x y by (simp add: at_matching_def)
  moreover have "heartbeat 0 = (1, 0)" by (simp add: heartbeat_def)
  ultimately show ?thesis
    using assms(2,3) same d at_fill_depth [of c q p] at_fill_names(1) [of c q p] heartbeat_bounds [of "qp_mps q"]
    by (auto simp: FillInPubAttr_def FillInSubAttr_def Let_def split: if_splits)
qed

definition ex_sub_attr :: sub_attr where
  "ex_sub_attr = \<lparr>at_topicName = '''', at_topicDataType = '''', at_topicKind = NO_KEY, at_history_kind = KEEP_LAST_HISTORY_QOS,
     at_history_depth = 1, at_durability = VOLATILE_DURABILITY_QOS, at_reliability = RELIABLE_RELIABILITY_QOS,
     at_memory = PREALLOCATED_MEMORY_MODE, at_max_samples = 5000\<rparr>"

definition ex_pub_attr :: pub_attr where
  "ex_pub_attr = sub_attr.extend ex_sub_attr \<lparr>at_heartbeat_seconds = 3, at_heartbeat_fraction = 0, at_publish_mode = SYNCHRONOUS_PUBLISH_MODE\<rparr>"

lemma rtps_ends_agree_witness:
  "\<exists>p s. FillInPubAttr ''c'' QOS_PROFILE_SENSOR_DATA ex_pub_attr = (True, p) \<and> FillInSubAttr ''c'' QOS_PROFILE_SENSOR_DATA ex_sub_attr = (True, s)
     \<and> at_matching p = at_matching s"
proof -
  obtain b p where p: "FillInPubAttr ''c'' QOS_PROFILE_SENSOR_DATA ex_pub_attr = (b, p)" by fastforce
  obtain b' s where s: "FillInSubAttr ''c'' QOS_PROFILE_SENSOR_DATA ex_sub_attr = (b', s)" by fastforce
  have m: "at_matching ex_pub_attr = at_matching ex_sub_attr"
    by (simp add: at_matching_def ex_pub_attr_def ex_sub_attr_def sub_attr.defs)
  have "qp_depth QOS_PROFILE_SENSOR_DATA = 5" by (simp add: QOS_PROFILE_SENSOR_DATA_def CreateQosProfile_def)
  moreover have "\<not> (5 :: i32) <s 0" by code_simp
  ultimately show ?thesis using rtps_ends_agree [OF m p s] p s by auto
qed

section \<open>A message over RTPS\<close>

lemma seq_masks: "(0xFFFFFFFF :: u64) = mask 32" "(0xFFFFFFFF00000000 :: u64) = push_bit 32 (mask 32)"
  by (simp_all add: mask_eq_exp_minus_1 push_bit_eq_mult)

lemma seq_words: "push_bit 32 (scast (ucast (drop_bit 32 (n AND 0xFFFFFFFF00000000)) :: i32)) OR ucast (ucast (n AND 0xFFFFFFFF) :: u32) = (n :: u64)"
  unfolding seq_masks by (rule bit_word_eqI) (auto simp: bit_simps)

text \<open>C34: A message that goes out over RTPS arrives as it was: when the transmitter is enabled, its
  participant is up and the message has bytes, the sample it writes makes the listener call back
  with the channel's id, the same bytes, and a message info equal to the one sent, whose sender
  has the hash the listeners of that sender are registered under.\<close>

theorem rtps_message_arrives:
  assumes "rt_enabled t" and "SerializeToString msg = Some data" and "rt_Transmit SerializeToString False write msg info t = (ok, Some m)"
    and "mi_ok info" and "id_ok hash (mi_sender_id info)"
  shows "\<exists>info'. su_onNewDataMessage hash Hash topic (Some (m, True)) info0 = (Some (Hash topic, data, info'), info')
    \<and> mi_eq info info' \<and> mi_sender_id info' = mi_sender_id info \<and> ok = write m"
proof -
  have m: "m = rt_sample data info" "ok = write m" using assms(1-3) by (auto simp: rt_Transmit_def)
  have guid: "sa_writer_guid m = id_data (mi_sender_id info) @ id_data (mi_spare_id info)" using assms(4) by (simp add: m rt_sample_def mi_ok_def)
  have "id_set_data hash (Some (id_data (mi_sender_id info))) id_none = mi_sender_id info"
    using assms(4,5) by (auto simp: id_set_data_def id_Update_def id_ok_def mi_ok_def intro: identity.equality)
  moreover have "id_data (id_set_data hash (Some (id_data (mi_spare_id info))) id_none) = id_data (mi_spare_id info)"
    using assms(4) by (simp add: id_set_data_def id_Update_def mi_ok_def)
  moreover have "push_bit 32 (scast (sa_seq_high m)) OR ucast (sa_seq_low m) = mi_seq_num info"
    unfolding m(1) rt_sample_def sample.simps by (rule seq_words)
  ultimately show ?thesis using assms(4) guid m
    by (simp add: su_onNewDataMessage_def mi_eq_def id_eq_def mi_ok_def Let_def) (simp add: rt_sample_def)
qed

lemma rtps_message_arrives_witness:
  "let hash = of_nat \<circ> un_le; info = mi_new (id_new hash True (le_nat 16 77)) (2 ^ 40 + 5) in
   \<exists>info'. su_onNewDataMessage hash (\<lambda>_. 7) ''c'' (Some (rt_sample ''m'' info, True)) mi_default = (Some (7, ''m'', info'), info') \<and> mi_eq info info'"
proof -
  define hash :: "u8 list \<Rightarrow> u64" where "hash = of_nat \<circ> un_le"
  define info where "info = mi_new (id_new hash True (le_nat 16 77)) (2 ^ 40 + 5)"
  define t where "t = (rt_new (w_attr 5))\<lparr>rt_enabled := True\<rparr>"
  have "rt_enabled t" by (simp add: t_def)
  moreover have "rt_Transmit Some False (\<lambda>_. True) ''m'' info t = (True, Some (rt_sample ''m'' info))" by (simp add: rt_Transmit_def t_def)
  moreover have "mi_ok info" "id_ok hash (mi_sender_id info)"
    using id_new_ok [of "le_nat 16 77" hash] by (simp_all add: info_def mi_ok_def mi_new_def id_ok_def id_none_def id_new_def ID_SIZE_def)
  ultimately show ?thesis
    using rtps_message_arrives [of t Some "''m''" "''m''" "\<lambda>_. True" info True "rt_sample ''m'' info" hash "\<lambda>_. 7" "''c''" mi_default]
    unfolding Let_def hash_def [symmetric] info_def [symmetric] by blast
qed

end
