(* ===== verification/Io_Poller.thy ===== *)
theory Io_Poller
  imports Cyber_Prelude "HOL-Library.AList"
begin

text \<open>
  The poller (io/poller.h, io/poller.cc, io/poll_data.h): requests by file descriptor, the changes
  the poller's thread has still to tell the kernel, and the kernel's list of interests as the manual
  page of \<open>epoll_ctl\<close> documents it. The maps are association lists; the order of an
  \<open>unordered_map\<close> is the order of the list. What \<open>epoll_wait\<close> reports and how long it takes are
  arguments.
\<close>

section \<open>The kernel's list\<close>

datatype epoll_op = EPOLL_CTL_ADD | EPOLL_CTL_MOD | EPOLL_CTL_DEL

definition EPOLLIN :: u32 where "EPOLLIN = 1"
definition EPOLLOUT :: u32 where "EPOLLOUT = 4"
definition EPOLLONESHOT :: u32 where "EPOLLONESHOT = push_bit 30 1"
definition EPOLLET :: u32 where "EPOLLET = push_bit 31 1"

text \<open>A descriptor's events, and whether the kernel still reports them: after one report of a one-shot
  descriptor it does not, until \<open>EPOLL_CTL_MOD\<close>.\<close>

type_synonym epoll = "int \<Rightarrow> (u32 \<times> bool) option"

definition epoll_ctl :: "epoll_op \<Rightarrow> int \<Rightarrow> u32 \<Rightarrow> epoll \<Rightarrow> bool \<times> epoll" where
  "epoll_ctl op fd events k = (case op of
       EPOLL_CTL_ADD \<Rightarrow> if k fd = None then (True, k(fd \<mapsto> (events, True))) else (False, k)
     | EPOLL_CTL_MOD \<Rightarrow> if k fd = None then (False, k) else (True, k(fd \<mapsto> (events, True)))
     | EPOLL_CTL_DEL \<Rightarrow> if k fd = None then (False, k) else (True, k(fd := None)))"

definition epoll_report :: "int \<Rightarrow> epoll \<Rightarrow> epoll" where
  "epoll_report fd k = (case k fd of
       None \<Rightarrow> k
     | Some (events, armed) \<Rightarrow> k(fd \<mapsto> (events, armed \<and> events AND EPOLLONESHOT = 0)))"

section \<open>The poller\<close>

text \<open>A callback of the poller itself, which empties its pipe, or a client's.\<close>

datatype 'cb poll_callback = DrainPipe | Client 'cb

record 'cb poll_request =
  pq_fd :: int
  pq_events :: u32
  pq_timeout_ms :: int
  pq_callback :: "'cb poll_callback option"

record poll_ctrl =
  pc_operation :: epoll_op
  pc_fd :: int
  pc_events :: u32

record 'cb poller =
  po_is_shutdown :: bool
  po_pipe :: int
  po_pipe_bytes :: nat
  po_requests :: "(int \<times> 'cb poll_request) list"
  po_ctrl :: "(int \<times> poll_ctrl) list"
  po_epoll :: epoll

definition kPollTimeoutMs :: int where "kPollTimeoutMs = 100"

definition po_Notify :: "'cb poller \<Rightarrow> 'cb poller" where
  "po_Notify p = p\<lparr>po_pipe_bytes := Suc (po_pipe_bytes p)\<rparr>"

definition po_Register :: "'cb poll_request \<Rightarrow> 'cb poller \<Rightarrow> bool \<times> 'cb poller" where
  "po_Register req p =
     (if po_is_shutdown p then (False, p)
      else if pq_fd req < 0 \<or> pq_callback req = None then (False, p)
      else (let op = (case map_of (po_requests p) (pq_fd req) of None \<Rightarrow> EPOLL_CTL_ADD | Some _ \<Rightarrow> EPOLL_CTL_MOD);
                c = \<lparr>pc_operation = op, pc_fd = pq_fd req, pc_events = pq_events req\<rparr> in
            (True, po_Notify (p\<lparr>po_requests := AList.update (pq_fd req) req (po_requests p),
                              po_ctrl := AList.update (pq_fd req) c (po_ctrl p)\<rparr>))))"

definition po_Unregister :: "'cb poll_request \<Rightarrow> 'cb poller \<Rightarrow> bool \<times> 'cb poller" where
  "po_Unregister req p =
     (if po_is_shutdown p then (False, p)
      else if pq_fd req < 0 \<or> pq_callback req = None then (False, p)
      else (case map_of (po_requests p) (pq_fd req) of
          None \<Rightarrow> (False, p)
        | Some _ \<Rightarrow> (let c = \<lparr>pc_operation = EPOLL_CTL_DEL, pc_fd = pq_fd req, pc_events = 0\<rparr> in
            (True, po_Notify (p\<lparr>po_requests := AList.delete (pq_fd req) (po_requests p),
                              po_ctrl := AList.update (pq_fd req) c (po_ctrl p)\<rparr>)))))"

definition po_Clear :: "'cb poller \<Rightarrow> 'cb poller" where
  "po_Clear p = p\<lparr>po_pipe := -1, po_requests := [], po_ctrl := [], po_epoll := (\<lambda>_. None)\<rparr>"

text \<open>\<open>Init\<close> and the constructor; \<open>epoll\<close> and \<open>pipe\<close> are the descriptors the kernel gives, if it does.\<close>

definition po_Init :: "bool \<Rightarrow> int option \<Rightarrow> 'cb poller \<Rightarrow> bool \<times> 'cb poller" where
  "po_Init epoll pipe p =
     (if \<not> epoll then (False, p)
      else (case pipe of
          None \<Rightarrow> (False, p)
        | Some fd \<Rightarrow> (True, p\<lparr>po_pipe := fd, po_is_shutdown := False,
            po_requests := AList.update fd \<lparr>pq_fd = fd, pq_events = EPOLLIN, pq_timeout_ms = -1, pq_callback = Some DrainPipe\<rparr> (po_requests p),
            po_ctrl := AList.update fd \<lparr>pc_operation = EPOLL_CTL_ADD, pc_fd = fd, pc_events = EPOLLIN\<rparr> (po_ctrl p)\<rparr>)))"

definition po_new :: "bool \<Rightarrow> int option \<Rightarrow> 'cb poller" where
  "po_new epoll pipe =
     (let (ok, p) = po_Init epoll pipe \<lparr>po_is_shutdown = True, po_pipe = -1, po_pipe_bytes = 0, po_requests = [], po_ctrl = [], po_epoll = (\<lambda>_. None)\<rparr> in
      if ok then p else po_Clear p)"

definition po_Shutdown :: "'cb poller \<Rightarrow> 'cb poller" where
  "po_Shutdown p = (if po_is_shutdown p then p else po_Clear (p\<lparr>po_is_shutdown := True\<rparr>))"

section \<open>The poller's thread\<close>

definition po_HandleChanges :: "'cb poller \<Rightarrow> 'cb poller" where
  "po_HandleChanges p =
     p\<lparr>po_ctrl := [], po_epoll := fold (\<lambda>(_, c) k. snd (epoll_ctl (pc_operation c) (pc_fd c) (pc_events c) k)) (po_ctrl p) (po_epoll p)\<rparr>"

definition po_GetTimeoutMs :: "'cb poller \<Rightarrow> int" where
  "po_GetTimeoutMs p = fold (\<lambda>(_, q) t. if pq_timeout_ms q \<ge> 0 \<and> pq_timeout_ms q < t then pq_timeout_ms q else t) (po_requests p) kPollTimeoutMs"

text \<open>The time \<open>Poll\<close> counts for itself: whole milliseconds of the clock, as an \<open>int\<close>, but never none.\<close>

definition po_interval :: "u64 \<Rightarrow> u64 \<Rightarrow> int" where
  "po_interval before_time_ns after_time_ns =
     (let interval_ms = sint (ucast ((after_time_ns - before_time_ns) div 1000000) :: i32) in
      if interval_ms = 0 then 1 else interval_ms)"

text \<open>The first section of \<open>Poll\<close> for one request: whether its time is up, and the request after.\<close>

definition pq_tick :: "int \<Rightarrow> 'cb poll_request \<Rightarrow> bool \<times> 'cb poll_request" where
  "pq_tick interval_ms q =
     (let t = (if pq_timeout_ms q > 0 then (if pq_timeout_ms q - interval_ms < 0 then 0 else pq_timeout_ms q - interval_ms) else pq_timeout_ms q) in
      if t = 0 then (True, q\<lparr>pq_timeout_ms := -1\<rparr>) else (False, q\<lparr>pq_timeout_ms := t\<rparr>))"

text \<open>The responses, and the poller; requests with a change that the kernel has not been told are left out.\<close>

definition po_tick :: "int \<Rightarrow> 'cb poller \<Rightarrow> (int \<times> u32) list \<times> 'cb poller" where
  "po_tick interval_ms p =
     (let due = (\<lambda>q. map_of (po_ctrl p) (pq_fd q) = None) in
      (map (\<lambda>(fd, q). (fd, 0)) (filter (\<lambda>(fd, q). due q \<and> fst (pq_tick interval_ms q)) (po_requests p)),
       p\<lparr>po_requests := map (\<lambda>(fd, q). (fd, if due q then snd (pq_tick interval_ms q) else q)) (po_requests p)\<rparr>))"

text \<open>One turn of the last loop: the callback that is called, with its events.\<close>

definition po_answer :: "int \<times> u32 \<Rightarrow> 'cb poller \<Rightarrow> ('cb poll_callback \<times> u32) option \<times> 'cb poller" where
  "po_answer r p = (case map_of (po_requests p) (fst r) of
       None \<Rightarrow> (None, p)
     | Some q \<Rightarrow>
         (let p = p\<lparr>po_requests := AList.update (fst r) (q\<lparr>pq_timeout_ms := -1\<rparr>) (po_requests p)\<rparr> in
          (map_option (\<lambda>cb. (cb, snd r)) (pq_callback q),
           if pq_callback q = Some DrainPipe then p\<lparr>po_pipe_bytes := 0\<rparr> else p)))"

fun po_answers :: "(int \<times> u32) list \<Rightarrow> 'cb poller \<Rightarrow> ('cb poll_callback \<times> u32) list \<times> 'cb poller" where
  "po_answers [] p = ([], p)"
| "po_answers (r # rs) p =
     (let (c, p) = po_answer r p; (cs, p) = po_answers rs p in ((case c of None \<Rightarrow> cs | Some c \<Rightarrow> c # cs), p))"

text \<open>\<open>Poll\<close> between the two clock readings; \<open>ready\<close> is what \<open>epoll_wait\<close> reports. The responses, where a
  report takes the place of a timeout, are made first and then given.\<close>

definition po_respond :: "u64 \<Rightarrow> u64 \<Rightarrow> (int \<times> u32) list \<Rightarrow> 'cb poller \<Rightarrow> (int \<times> u32) list \<times> 'cb poller" where
  "po_respond before_time_ns after_time_ns ready p =
     (let p = p\<lparr>po_epoll := fold (\<lambda>(fd, _). epoll_report fd) ready (po_epoll p)\<rparr>;
          (responses, p) = po_tick (po_interval before_time_ns after_time_ns) p in
      (fold (\<lambda>(fd, events). AList.update fd events) ready responses, p))"

definition po_Poll :: "u64 \<Rightarrow> u64 \<Rightarrow> (int \<times> u32) list \<Rightarrow> 'cb poller \<Rightarrow> ('cb poll_callback \<times> u32) list \<times> 'cb poller" where
  "po_Poll before_time_ns after_time_ns ready p =
     (let (responses, p) = po_respond before_time_ns after_time_ns ready p in po_answers responses p)"

text \<open>The loop of \<open>ThreadFunc\<close>: for each turn the clock before and after \<open>epoll_wait\<close> and its report; the
  responses of each turn.\<close>

fun po_ThreadFunc :: "(u64 \<times> u64 \<times> (int \<times> u32) list) list \<Rightarrow> 'cb poller \<Rightarrow> (int \<times> u32) list list" where
  "po_ThreadFunc [] p = []"
| "po_ThreadFunc ((before_time_ns, after_time_ns, ready) # turns) p =
     (let p = po_HandleChanges p in
      fst (po_respond before_time_ns after_time_ns ready p)
        # po_ThreadFunc turns (snd (po_Poll before_time_ns after_time_ns ready p)))"

section \<open>The kernel's list follows the requests\<close>

text \<open>Steps of clients and of the poller's thread. With \<open>one\<close>, a descriptor is not changed again before
  the thread has told the kernel of its last change.\<close>

inductive po_step :: "bool \<Rightarrow> 'cb poller \<Rightarrow> 'cb poller \<Rightarrow> bool" for one where
  po_register: "(one \<Longrightarrow> map_of (po_ctrl p) (pq_fd q) = None) \<Longrightarrow> po_step one p (snd (po_Register q p))"
| po_unregister: "(one \<Longrightarrow> map_of (po_ctrl p) (pq_fd q) = None) \<Longrightarrow> po_step one p (snd (po_Unregister q p))"
| po_changes: "po_step one p (po_HandleChanges p)"
| po_wait: "po_step one p (p\<lparr>po_epoll := epoll_report fd (po_epoll p)\<rparr>)"
| po_timeouts: "po_step one p (snd (po_tick interval_ms p))"
| po_call: "po_step one p (snd (po_answer r p))"

definition po_wf :: "'cb poller \<Rightarrow> bool" where
  "po_wf p \<longleftrightarrow> distinct (map fst (po_requests p)) \<and> distinct (map fst (po_ctrl p))
     \<and> list_all (\<lambda>(fd, q). pq_fd q = fd) (po_requests p) \<and> list_all (\<lambda>(fd, c). pc_fd c = fd) (po_ctrl p)"

text \<open>What the kernel knows of a descriptor, by the change that is still to be told.\<close>

definition fd_ok :: "u32 option \<Rightarrow> poll_ctrl option \<Rightarrow> u32 option \<Rightarrow> bool" where
  "fd_ok req ctrl known = (case ctrl of
       None \<Rightarrow> known = req
     | Some c \<Rightarrow> (case pc_operation c of
           EPOLL_CTL_ADD \<Rightarrow> known = None \<and> req = Some (pc_events c)
         | EPOLL_CTL_MOD \<Rightarrow> known \<noteq> None \<and> req = Some (pc_events c)
         | EPOLL_CTL_DEL \<Rightarrow> known \<noteq> None \<and> req = None))"

definition po_sync :: "'cb poller \<Rightarrow> bool" where
  "po_sync p \<longleftrightarrow> (\<forall>fd. fd_ok (map_option pq_events (map_of (po_requests p) fd)) (map_of (po_ctrl p) fd) (map_option fst (po_epoll p fd)))"

lemma po_new_inv: "po_wf (po_new e i)" "po_sync (po_new e i)"
  by (cases e; cases i; simp add: po_new_def po_Init_def po_Clear_def po_wf_def po_sync_def fd_ok_def)+

lemma fold_epoll_other:
  "list_all (\<lambda>(fd, c). pc_fd c = fd) cs \<Longrightarrow> fd \<notin> set (map fst cs) \<Longrightarrow>
    fold (\<lambda>(_, c) k. snd (epoll_ctl (pc_operation c) (pc_fd c) (pc_events c) k)) cs k fd = k fd"
  by (induction cs arbitrary: k) (auto simp: epoll_ctl_def split: epoll_op.split)

lemma fold_epoll_at:
  "list_all (\<lambda>(fd, c). pc_fd c = fd) cs \<Longrightarrow> distinct (map fst cs) \<Longrightarrow>
    fold (\<lambda>(_, c) k. snd (epoll_ctl (pc_operation c) (pc_fd c) (pc_events c) k)) cs k fd
      = (case map_of cs fd of None \<Rightarrow> k fd | Some c \<Rightarrow> snd (epoll_ctl (pc_operation c) fd (pc_events c) k) fd)"
proof (induction cs arbitrary: k)
  case (Cons x cs)
  obtain g c where x: "x = (g, c)" by (cases x)
  show ?case
  proof (cases "g = fd")
    case True
    then show ?thesis using Cons.prems fold_epoll_other [of cs fd] x by simp
  next
    case False
    have "snd (epoll_ctl op g ev k) fd = k fd" "snd (epoll_ctl op' fd ev' (snd (epoll_ctl op g ev k))) fd = snd (epoll_ctl op' fd ev' k) fd" for op ev op' ev'
      using False by (cases op; cases op'; simp add: epoll_ctl_def)+
    then show ?thesis using Cons False x by (auto split: option.split)
  qed
qed simp

lemma po_HandleChanges_at:
  "po_wf p \<Longrightarrow> po_epoll (po_HandleChanges p) fd = (case map_of (po_ctrl p) fd of None \<Rightarrow> po_epoll p fd
     | Some c \<Rightarrow> snd (epoll_ctl (pc_operation c) fd (pc_events c) (po_epoll p)) fd)"
  unfolding po_HandleChanges_def po_wf_def by (simp add: fold_epoll_at)

lemma list_all_update: "list_all P al \<Longrightarrow> P (k, v) \<Longrightarrow> list_all P (AList.update k v al)"
  by (induction al) (auto split: if_splits)

lemma list_all_delete: "list_all P al \<Longrightarrow> list_all P (AList.delete k al)"
  by (simp add: AList.delete_eq list_all_iff)

lemma po_wf_change:
  "po_wf p \<Longrightarrow> pc_fd c = fd \<Longrightarrow> pq_fd q = fd \<Longrightarrow> po_wf (p\<lparr>po_requests := AList.update fd q (po_requests p), po_ctrl := AList.update fd c (po_ctrl p)\<rparr>)"
  "po_wf p \<Longrightarrow> pc_fd c = fd \<Longrightarrow> po_wf (p\<lparr>po_requests := AList.delete fd (po_requests p), po_ctrl := AList.update fd c (po_ctrl p)\<rparr>)"
  by (simp_all add: po_wf_def distinct_update distinct_delete list_all_update list_all_delete)

lemma po_Notify_fields [simp]: "po_wf (po_Notify p) = po_wf p" "po_sync (po_Notify p) = po_sync p" "po_requests (po_Notify p) = po_requests p"
  "po_ctrl (po_Notify p) = po_ctrl p" "po_epoll (po_Notify p) = po_epoll p" "po_is_shutdown (po_Notify p) = po_is_shutdown p"
  by (simp_all add: po_Notify_def po_wf_def po_sync_def)

lemma po_Register_wf: "po_wf p \<Longrightarrow> po_wf (snd (po_Register q p))"
  by (simp add: po_Register_def po_wf_change Let_def)

lemma po_Unregister_wf: "po_wf p \<Longrightarrow> po_wf (snd (po_Unregister q p))"
  by (simp add: po_Unregister_def po_wf_change Let_def split: option.split)

lemma pq_tick_fields [simp]: "pq_fd (snd (pq_tick i q)) = pq_fd q" "pq_events (snd (pq_tick i q)) = pq_events q"
  by (simp_all add: pq_tick_def Let_def)

lemma pq_tick_if: "pq_events (if b then snd (pq_tick i q) else q) = pq_events q" "pq_fd (if b then snd (pq_tick i q) else q) = pq_fd q"
  by simp_all

lemma map_of_tick: "map_of (map (\<lambda>(fd, q). (fd, f q)) al) fd = map_option f (map_of al fd)"
  by (induction al) auto

lemma po_tick_wf: "po_wf p \<Longrightarrow> po_wf (snd (po_tick i p))"
  by (auto simp: po_wf_def po_tick_def Let_def list_all_iff comp_def case_prod_unfold)

lemma po_tick_sync: "po_sync (snd (po_tick i p)) = po_sync p"
  by (simp add: po_sync_def po_tick_def Let_def map_of_tick option.map_comp comp_def pq_tick_if)

lemma po_answer_requests:
  "map_of (po_requests (snd (po_answer r p))) fd = (if fd = fst r then map_option (\<lambda>q. q\<lparr>pq_timeout_ms := -1\<rparr>) (map_of (po_requests p) fd) else map_of (po_requests p) fd)"
  by (cases "map_of (po_requests p) (fst r)") (auto simp: po_answer_def Let_def update_conv')

lemma po_answer_fields [simp]: "po_ctrl (snd (po_answer r p)) = po_ctrl p" "po_epoll (snd (po_answer r p)) = po_epoll p"
  "po_is_shutdown (snd (po_answer r p)) = po_is_shutdown p"
  by (auto simp: po_answer_def Let_def split: option.split)

lemma po_answer_sync: "po_sync (snd (po_answer r p)) = po_sync p"
proof -
  have "map_option pq_events (map_of (po_requests (snd (po_answer r p))) fd) = map_option pq_events (map_of (po_requests p) fd)" for fd
    by (simp add: po_answer_requests option.map_comp comp_def)
  then show ?thesis by (simp add: po_sync_def)
qed

lemma po_answer_wf:
  assumes "po_wf p"
  shows "po_wf (snd (po_answer r p))"
proof (cases "map_of (po_requests p) (fst r)")
  case (Some q)
  have "pq_fd q = fst r" using assms map_of_SomeD [OF Some] by (fastforce simp: po_wf_def list_all_iff)
  then show ?thesis using assms Some by (simp add: po_answer_def po_wf_def Let_def distinct_update list_all_update)
qed (use assms in \<open>simp add: po_answer_def\<close>)

text \<open>The change of one descriptor, when none is pending.\<close>

lemma po_sync_change:
  assumes "po_sync p" and "\<And>g. g \<noteq> fd \<Longrightarrow> map_of (po_requests p') g = map_of (po_requests p) g \<and> map_of (po_ctrl p') g = map_of (po_ctrl p) g"
    and "po_epoll p' = po_epoll p"
    and "fd_ok (map_option pq_events (map_of (po_requests p') fd)) (map_of (po_ctrl p') fd) (map_option fst (po_epoll p fd))"
  shows "po_sync p'"
  unfolding po_sync_def
proof
  fix g
  show "fd_ok (map_option pq_events (map_of (po_requests p') g)) (map_of (po_ctrl p') g) (map_option fst (po_epoll p' g))"
    using assms by (cases "g = fd") (simp_all add: po_sync_def)
qed

lemma po_Register_sync:
  assumes "po_sync p" and "map_of (po_ctrl p) (pq_fd q) = None"
  shows "po_sync (snd (po_Register q p))"
proof (cases "snd (po_Register q p) = p")
  case False
  have "fd_ok (map_option pq_events (map_of (po_requests p) (pq_fd q))) None (map_option fst (po_epoll p (pq_fd q)))"
    using assms unfolding po_sync_def by metis
  then show ?thesis using False
    by (intro po_sync_change [OF assms(1), of "pq_fd q"])
      (auto simp: po_Register_def fd_ok_def Let_def update_conv' split: option.splits if_splits)
qed (use assms in simp)

lemma po_Unregister_sync:
  assumes "po_sync p" and "map_of (po_ctrl p) (pq_fd q) = None"
  shows "po_sync (snd (po_Unregister q p))"
proof (cases "snd (po_Unregister q p) = p")
  case False
  have "fd_ok (map_option pq_events (map_of (po_requests p) (pq_fd q))) None (map_option fst (po_epoll p (pq_fd q)))"
    using assms unfolding po_sync_def by metis
  then show ?thesis using False
    by (intro po_sync_change [OF assms(1), of "pq_fd q"])
      (auto simp: po_Unregister_def fd_ok_def Let_def update_conv' delete_conv' split: option.splits if_splits)
qed (use assms in simp)

lemma po_HandleChanges_wf: "po_wf p \<Longrightarrow> po_wf (po_HandleChanges p)"
  by (simp add: po_wf_def po_HandleChanges_def)

lemma po_HandleChanges_known:
  assumes "po_wf p" and "po_sync p"
  shows "map_option fst (po_epoll (po_HandleChanges p) fd) = map_option pq_events (map_of (po_requests p) fd)"
proof -
  have "fd_ok (map_option pq_events (map_of (po_requests p) fd)) (map_of (po_ctrl p) fd) (map_option fst (po_epoll p fd))"
    using assms(2) by (simp add: po_sync_def)
  then show ?thesis unfolding po_HandleChanges_at [OF assms(1)]
    by (cases "map_of (po_ctrl p) fd"; cases "po_epoll p fd")
      (auto simp: fd_ok_def epoll_ctl_def split: epoll_op.splits)
qed

lemma po_HandleChanges_sync: "po_wf p \<Longrightarrow> po_sync p \<Longrightarrow> po_sync (po_HandleChanges p)"
  using po_HandleChanges_known [of p] by (simp add: po_sync_def fd_ok_def po_HandleChanges_def)

lemma epoll_report_fst: "map_option fst (epoll_report g k fd) = map_option fst (k fd)"
  by (auto simp: epoll_report_def split: option.splits)

lemma po_step_inv:
  assumes "po_step True p p'" and "po_wf p" and "po_sync p"
  shows "po_wf p' \<and> po_sync p'"
  using assms(1)
proof cases
  case (po_register q)
  then show ?thesis using po_Register_wf po_Register_sync assms(2,3) by blast
next
  case (po_unregister q)
  then show ?thesis using po_Unregister_wf po_Unregister_sync assms(2,3) by blast
next
  case po_changes
  then show ?thesis using po_HandleChanges_wf po_HandleChanges_sync assms(2,3) by blast
next
  case (po_wait fd)
  then show ?thesis using assms(2,3) by (simp add: po_wf_def po_sync_def epoll_report_fst)
next
  case (po_timeouts i)
  then show ?thesis using po_tick_wf po_tick_sync assms(2,3) by blast
next
  case (po_call r)
  then show ?thesis using po_answer_wf po_answer_sync assms(2,3) by blast
qed

lemma po_reach_inv: "reach (po_new e i) (po_step True) p \<Longrightarrow> po_wf p \<and> po_sync p"
  by (induction rule: reach.induct) (use po_new_inv po_step_inv in blast)+

text \<open>The kernel watches what the clients asked for: after any sequence of registrations, reports
  and timeouts in which no descriptor is changed twice before the poller's thread looks, once the
  thread has handled the changes the kernel knows exactly the descriptors with a request, each with
  the events of that request.\<close>

theorem epoll_follows_requests:
  assumes "reach (po_new e i) (po_step True) p"
  shows "map_option fst (po_epoll (po_HandleChanges p) fd) = map_option pq_events (map_of (po_requests (po_HandleChanges p)) fd)"
  using po_HandleChanges_known [of p fd] po_reach_inv [OF assms] by (simp add: po_HandleChanges_def)

definition ex_request :: "int \<Rightarrow> u32 \<Rightarrow> int \<Rightarrow> string poll_request" where
  "ex_request fd events t = \<lparr>pq_fd = fd, pq_events = events, pq_timeout_ms = t, pq_callback = Some (Client ''cb'')\<rparr>"

lemma epoll_follows_requests_witness:
  "map_option fst (po_epoll (po_HandleChanges (snd (po_Register (ex_request 5 EPOLLIN 20) (po_new True (Some 3))))) 5) = Some EPOLLIN"
proof -
  let ?p = "po_new True (Some 3) :: string poller"
  have "map_of (po_ctrl ?p) (pq_fd (ex_request 5 EPOLLIN 20)) = None" by code_simp
  then have "reach ?p (po_step True) (snd (po_Register (ex_request 5 EPOLLIN 20) ?p))" by (intro reach_one po_register)
  from epoll_follows_requests [OF this, of 5] show ?thesis
    by (simp add: po_HandleChanges_def po_Register_def po_new_def po_Init_def ex_request_def Let_def)
qed

text \<open>A second change before the poller's thread has looked replaces the first one, and then the
  kernel is told to modify what it does not know: a descriptor that is registered twice in a row is
  never watched, although both calls succeed and the request stays in the table.\<close>

theorem registered_twice_not_watched:
  assumes "po_wf p" and "\<not> po_is_shutdown p" and "0 \<le> fd" and "pq_fd q = fd" and "pq_fd q' = fd"
    and "pq_callback q \<noteq> None" and "pq_callback q' \<noteq> None"
    and "map_of (po_requests p) fd = None" and "po_epoll p fd = None"
  shows "let (ok, p1) = po_Register q p; (ok', p2) = po_Register q' p1; p3 = po_HandleChanges p2 in
    ok \<and> ok' \<and> map_of (po_requests p3) fd = Some q' \<and> po_ctrl p3 = [] \<and> po_epoll p3 fd = None"
proof -
  obtain p1 where p1: "po_Register q p = (True, p1)" "map_of (po_requests p1) fd = Some q" "po_epoll p1 = po_epoll p" "\<not> po_is_shutdown p1"
    using assms by (simp add: po_Register_def Let_def update_conv')
  obtain p2 where p2: "po_Register q' p1 = (True, p2)" "map_of (po_requests p2) fd = Some q'" "po_epoll p2 = po_epoll p1"
    "map_of (po_ctrl p2) fd = Some \<lparr>pc_operation = EPOLL_CTL_MOD, pc_fd = fd, pc_events = pq_events q'\<rparr>"
    using assms p1(2,4) by (simp add: po_Register_def Let_def update_conv')
  have "po_wf p2" using po_Register_wf [OF po_Register_wf [OF assms(1)], of q' q] p1(1) p2(1) by simp
  from po_HandleChanges_at [OF this, of fd] have "po_epoll (po_HandleChanges p2) fd = None"
    using assms(9) p1(3) p2(3,4) by (simp add: epoll_ctl_def)
  then show ?thesis using p1(1) p2(1,2) by (simp add: po_HandleChanges_def Let_def)
qed

lemma registered_twice_not_watched_witness:
  "let (ok, p1) = po_Register (ex_request 5 EPOLLIN 20) (po_new True (Some 3)); (ok', p2) = po_Register (ex_request 5 EPOLLOUT 20) p1 in
    ok \<and> ok' \<and> po_epoll (po_HandleChanges p2) 5 = None"
proof -
  have "po_wf (po_new True (Some 3) :: string poller)" by (rule po_new_inv)
  moreover have "\<not> po_is_shutdown (po_new True (Some 3) :: string poller)" "map_of (po_requests (po_new True (Some 3) :: string poller)) 5 = None"
    "po_epoll (po_new True (Some 3) :: string poller) 5 = None" by code_simp+
  ultimately show ?thesis
    using registered_twice_not_watched [of "po_new True (Some 3)" 5 "ex_request 5 EPOLLIN 20" "ex_request 5 EPOLLOUT 20"]
    by (simp add: ex_request_def Let_def split: prod.splits)
qed

section \<open>Timeouts\<close>

lemma po_tick_ctrl [simp]: "po_ctrl (snd (po_tick i p)) = po_ctrl p"
  by (simp add: po_tick_def Let_def)

lemma po_tick_at:
  assumes "po_wf p" and "map_of (po_requests p) fd = Some q" and "map_of (po_ctrl p) fd = None"
  shows "(fd, 0) \<in> set (fst (po_tick i p)) \<longleftrightarrow> fst (pq_tick i q)" and "map_of (po_requests (snd (po_tick i p))) fd = Some (snd (pq_tick i q))"
proof -
  have fd: "pq_fd q = fd" using assms(1) map_of_SomeD [OF assms(2)] by (fastforce simp: po_wf_def list_all_iff)
  have "(fd, x) \<in> set (po_requests p) \<longleftrightarrow> x = q" for x
    using assms(1) map_of_SomeD [OF assms(2)] by (auto simp: po_wf_def dest: eq_key_imp_eq_value)
  then show "(fd, 0) \<in> set (fst (po_tick i p)) \<longleftrightarrow> fst (pq_tick i q)"
    using fd assms(3) by (auto simp: po_tick_def Let_def image_iff split: prod.splits)
  show "map_of (po_requests (snd (po_tick i p))) fd = Some (snd (pq_tick i q))"
    using fd assms(2,3) by (simp add: po_tick_def Let_def map_of_tick)
qed

text \<open>What \<open>Poll\<close> does for a request that \<open>epoll_wait\<close> does not report.\<close>

lemma fold_update_other: "fd \<notin> fst ` set ready \<Longrightarrow>
    (fd, x) \<in> set (fold (\<lambda>(fd, events). AList.update fd events) ready rs) \<longleftrightarrow> (fd, x) \<in> set rs"
proof (induction ready arbitrary: rs)
  case (Cons r ready)
  have "(fd, x) \<in> set (AList.update g e rs) \<longleftrightarrow> (fd, x) \<in> set rs" if "g \<noteq> fd" for g e
    using that by (induction rs) auto
  then show ?case using Cons by (cases r) auto
qed simp

lemma po_answers_wf: "po_wf p \<Longrightarrow> po_wf (snd (po_answers rs p))"
  by (induction rs arbitrary: p) (simp_all add: split_beta Let_def po_answer_wf)

lemma po_answers_other:
  "map_of (po_requests (snd (po_answers rs p))) fd =
    (if fd \<in> fst ` set rs then map_option (\<lambda>q. q\<lparr>pq_timeout_ms := -1\<rparr>) (map_of (po_requests p) fd) else map_of (po_requests p) fd)"
proof (induction rs arbitrary: p)
  case (Cons r rs)
  have "snd (po_answers (r # rs) p) = snd (po_answers rs (snd (po_answer r p)))" by (simp add: split_beta Let_def)
  then show ?case unfolding Cons.IH by (auto simp: Cons.IH po_answer_requests option.map_comp comp_def)
qed simp

lemma po_respond_wf: "po_wf p \<Longrightarrow> po_wf (snd (po_respond b a ready p))"
  using po_tick_wf [of "p\<lparr>po_epoll := fold (\<lambda>(fd, _). epoll_report fd) ready (po_epoll p)\<rparr>" "po_interval b a"]
  by (simp add: po_respond_def split_beta Let_def po_wf_def)

lemma po_turn_at:
  assumes "po_wf p" and "map_of (po_requests p) fd = Some q" and "fd \<notin> fst ` set ready"
  shows "(fd, 0) \<in> set (fst (po_respond b a ready (po_HandleChanges p))) \<longleftrightarrow> fst (pq_tick (po_interval b a) q)"
    and "\<exists>q'. map_of (po_requests (snd (po_Poll b a ready (po_HandleChanges p)))) fd = Some q' \<and>
      pq_timeout_ms q' = (if fst (pq_tick (po_interval b a) q) then -1 else pq_timeout_ms (snd (pq_tick (po_interval b a) q)))"
    and "po_wf (snd (po_Poll b a ready (po_HandleChanges p)))"
proof -
  let ?i = "po_interval b a"
  let ?p = "(po_HandleChanges p)\<lparr>po_epoll := fold (\<lambda>(fd, _). epoll_report fd) ready (po_epoll (po_HandleChanges p))\<rparr>"
  have wf: "po_wf ?p" using po_HandleChanges_wf [OF assms(1)] by (simp add: po_wf_def)
  have q: "map_of (po_requests ?p) fd = Some q" and c: "map_of (po_ctrl ?p) fd = None"
    using assms(2) by (simp_all add: po_HandleChanges_def)
  let ?rs = "fold (\<lambda>(fd, events). AList.update fd events) ready (fst (po_tick ?i ?p))"
  have r: "po_respond b a ready (po_HandleChanges p) = (?rs, snd (po_tick ?i ?p))"
    by (simp add: po_respond_def split_beta Let_def)
  have mem: "(fd, x) \<in> set ?rs \<longleftrightarrow> (fd, x) \<in> set (fst (po_tick ?i ?p))" for x
    by (rule fold_update_other [OF assms(3)])
  show due: "(fd, 0) \<in> set (fst (po_respond b a ready (po_HandleChanges p))) \<longleftrightarrow> fst (pq_tick ?i q)"
    unfolding r fst_conv mem by (rule po_tick_at(1) [OF wf q c])
  have "fd \<in> fst ` set ?rs \<longleftrightarrow> (fd, 0) \<in> set ?rs"
  proof
    assume "fd \<in> fst ` set ?rs"
    then obtain x where "(fd, x) \<in> set (fst (po_tick ?i ?p))" using mem by force
    then have "x = 0" by (auto simp: po_tick_def Let_def)
    then show "(fd, 0) \<in> set ?rs" using \<open>(fd, x) \<in> set (fst (po_tick ?i ?p))\<close> mem by simp
  qed force
  then have "fd \<in> fst ` set ?rs \<longleftrightarrow> fst (pq_tick ?i q)" using due unfolding r fst_conv by blast
  then show "\<exists>q'. map_of (po_requests (snd (po_Poll b a ready (po_HandleChanges p)))) fd = Some q' \<and>
      pq_timeout_ms q' = (if fst (pq_tick ?i q) then -1 else pq_timeout_ms (snd (pq_tick ?i q)))"
    using po_tick_at(2) [OF wf q c, of ?i] by (simp add: po_Poll_def r po_answers_other)
  show "po_wf (snd (po_Poll b a ready (po_HandleChanges p)))"
    using po_respond_wf [OF po_HandleChanges_wf [OF assms(1)], of b a ready]
    by (simp add: po_Poll_def split_beta po_answers_wf)
qed

text \<open>The time a turn counts and the time it takes, in milliseconds and in nanoseconds; a turn whose
  clock goes forward, and by less than 24 days.\<close>

fun counted_ms :: "u64 \<times> u64 \<times> (int \<times> u32) list \<Rightarrow> int" where "counted_ms (b, a, ready) = po_interval b a"
fun elapsed_ns :: "u64 \<times> u64 \<times> (int \<times> u32) list \<Rightarrow> int" where "elapsed_ns (b, a, ready) = uint a - uint b"

definition quiet_turn :: "int \<Rightarrow> u64 \<times> u64 \<times> (int \<times> u32) list \<Rightarrow> bool" where
  "quiet_turn fd t \<longleftrightarrow> 0 \<le> elapsed_ns t \<and> elapsed_ns t < 2 ^ 31 * 1000000 \<and> fd \<notin> fst ` set (snd (snd t))"

lemma counted_eq:
  assumes "quiet_turn fd t"
  shows "counted_ms t = max 1 (elapsed_ns t div 1000000)"
proof -
  obtain b a ready where t: "t = (b, a, ready)" by (cases t)
  have e: "0 \<le> uint a - uint b" "uint a - uint b < 2 ^ 31 * 1000000" using assms by (simp_all add: quiet_turn_def t)
  have "b \<le> a" using e(1) by (simp add: word_le_def)
  then have d: "uint (a - b) = uint a - uint b" by (rule uint_minus_simple_alt [THEN iffD1])
  have u: "uint ((a - b) div 1000000) = (uint a - uint b) div 1000000"
    unfolding uint_div d by simp
  have r: "0 \<le> (uint a - uint b) div 1000000" "(uint a - uint b) div 1000000 < 2 ^ 31"
    using e by (simp_all add: pos_imp_zdiv_nonneg_iff)
  have "sint (ucast w :: i32) = uint w" if "uint w < 2 ^ 31" for w :: u64
  proof -
    have "- (2 ^ 31) \<le> uint w" using order_trans [OF _ uint_ge_0 [of w]] by simp
    then show ?thesis using signed_take_bit_int_eq_self [of 31 "uint w"] that by (simp add: signed_ucast_eq)
  qed
  from this [of "(a - b) div 1000000"] have "sint (ucast ((a - b) div 1000000) :: i32) = (uint a - uint b) div 1000000"
    unfolding u using r(2) by blast
  then show ?thesis using r(1) by (simp add: t po_interval_def Let_def max_def)
qed

lemma counted_pos: "quiet_turn fd t \<Longrightarrow> 1 \<le> counted_ms t"
  by (simp add: counted_eq)

lemma po_ThreadFunc_silent:
  assumes "po_wf p" and "map_of (po_requests p) fd = Some q" and "pq_timeout_ms q = -1"
    and "\<forall>t \<in> set turns. quiet_turn fd t" and "k < length turns"
  shows "(fd, 0) \<notin> set (po_ThreadFunc turns p ! k)"
  using assms
proof (induction turns arbitrary: p q k)
  case (Cons t turns)
  obtain b a ready where t: "t = (b, a, ready)" by (cases t)
  have n: "fd \<notin> fst ` set ready" using Cons.prems(4) by (auto simp: quiet_turn_def t)
  note at = po_turn_at [OF Cons.prems(1,2) n, of b a]
  have q: "pq_tick (po_interval b a) q = (False, q)" using Cons.prems(3) by (simp add: pq_tick_def)
  obtain q' where "map_of (po_requests (snd (po_Poll b a ready (po_HandleChanges p)))) fd = Some q'" "pq_timeout_ms q' = -1"
    using at(2) Cons.prems(3) by (auto simp: q)
  then show ?case
    using Cons.IH [OF at(3)] at(1) Cons.prems(4,5) by (cases k) (auto simp: t q Let_def)
qed simp

lemma sum_counted_nonneg: "\<forall>t \<in> set turns. quiet_turn fd t \<Longrightarrow> 0 \<le> sum_list (map counted_ms (take k turns))"
  by (rule sum_list_nonneg) (use counted_pos in \<open>fastforce dest: in_set_takeD\<close>)

lemma po_ThreadFunc_due:
  assumes "po_wf p" and "map_of (po_requests p) fd = Some q" and "0 < pq_timeout_ms q"
    and "\<forall>t \<in> set turns. quiet_turn fd t" and "k < length turns"
  shows "(fd, 0) \<in> set (po_ThreadFunc turns p ! k) \<longleftrightarrow>
    sum_list (map counted_ms (take k turns)) < pq_timeout_ms q \<and> pq_timeout_ms q \<le> sum_list (map counted_ms (take (Suc k) turns))"
  using assms
proof (induction turns arbitrary: p q k)
  case (Cons t turns)
  obtain b a ready where t: "t = (b, a, ready)" by (cases t)
  have n: "fd \<notin> fst ` set ready" and qt: "quiet_turn fd t" and rest: "\<forall>t \<in> set turns. quiet_turn fd t"
    using Cons.prems(4) by (auto simp: quiet_turn_def t)
  note at = po_turn_at [OF Cons.prems(1,2) n, of b a]
  let ?i = "po_interval b a" and ?p = "snd (po_Poll b a ready (po_HandleChanges p))"
  have i: "1 \<le> ?i" using counted_pos [OF qt] by (simp add: t)
  have nth: "(fd, 0) \<in> set (po_ThreadFunc (t # turns) p ! j) \<longleftrightarrow>
      (case j of 0 \<Rightarrow> fst (pq_tick ?i q) | Suc j \<Rightarrow> (fd, 0) \<in> set (po_ThreadFunc turns ?p ! j))" for j
    using at(1) by (simp add: t Let_def split: nat.split)
  show ?case
  proof (cases "pq_timeout_ms q \<le> ?i")
    case True
    have d: "fst (pq_tick ?i q)" using True Cons.prems(3) by (simp add: pq_tick_def Let_def)
    then obtain q' where q': "map_of (po_requests ?p) fd = Some q'" "pq_timeout_ms q' = -1" using at(2) by auto
    have late: "\<not> sum_list (map counted_ms (take j (t # turns))) < pq_timeout_ms q" if j: "j \<noteq> 0" for j
    proof -
      obtain m where "j = Suc m" using j by (cases j) auto
      then show ?thesis using True sum_counted_nonneg [OF rest, of m] by (simp add: t)
    qed
    show ?thesis
    proof (cases k)
      case 0
      then show ?thesis unfolding nth using d True Cons.prems(3) by (simp add: t)
    next
      case (Suc m)
      have "(fd, 0) \<notin> set (po_ThreadFunc turns ?p ! m)"
        by (rule po_ThreadFunc_silent [OF at(3) q' rest]) (use Cons.prems(5) Suc in simp)
      then show ?thesis unfolding nth using late [of k] Suc by simp
    qed
  next
    case False
    then have d: "\<not> fst (pq_tick ?i q)" "pq_timeout_ms (snd (pq_tick ?i q)) = pq_timeout_ms q - ?i"
      using Cons.prems(3) by (auto simp: pq_tick_def Let_def)
    then obtain q' where q': "map_of (po_requests ?p) fd = Some q'" "pq_timeout_ms q' = pq_timeout_ms q - ?i" using at(2) by auto
    show ?thesis
    proof (cases k)
      case 0
      then show ?thesis unfolding nth using d(1) False by (simp add: t)
    next
      case (Suc m)
      have "0 < pq_timeout_ms q'" using False q'(2) by simp
      from Cons.IH [OF at(3) q'(1) this rest, of m] show ?thesis
        unfolding nth using Suc Cons.prems(5) q'(2) by (auto simp: t)
    qed
  qed
qed simp

text \<open>Counted and real time: a turn that takes less than a millisecond counts one, any other one less
  than a millisecond too little.\<close>

lemma counted_elapsed:
  assumes "\<forall>t \<in> set turns. quiet_turn fd t"
  shows "sum_list (map elapsed_ns turns) \<le> (sum_list (map counted_ms turns) + int (length turns)) * 1000000"
    and "(sum_list (map counted_ms turns) - int (length (filter (\<lambda>t. elapsed_ns t < 1000000) turns))) * 1000000 \<le> sum_list (map elapsed_ns turns)"
    and "int (length turns) \<le> sum_list (map counted_ms turns)"
proof -
  have "sum_list (map elapsed_ns turns) \<le> (sum_list (map counted_ms turns) + int (length turns)) * 1000000 \<and>
    (sum_list (map counted_ms turns) - int (length (filter (\<lambda>t. elapsed_ns t < 1000000) turns))) * 1000000 \<le> sum_list (map elapsed_ns turns)
    \<and> int (length turns) \<le> sum_list (map counted_ms turns)"
    using assms
  proof (induction turns)
    case (Cons t turns)
    have qt: "quiet_turn fd t" using Cons.prems by simp
    have e: "0 \<le> elapsed_ns t" using qt by (simp add: quiet_turn_def)
    define d m where "d = elapsed_ns t div 1000000" and "m = elapsed_ns t mod 1000000"
    have dm: "elapsed_ns t = d * 1000000 + m" "0 \<le> m" "m < 1000000" "0 \<le> d" "counted_ms t = max 1 d"
      using e by (simp_all add: d_def m_def counted_eq [OF qt] pos_imp_zdiv_nonneg_iff)
    have "elapsed_ns t \<le> (counted_ms t + 1) * 1000000" "1 \<le> counted_ms t"
      using dm by (simp_all add: max_def)
    moreover have "(counted_ms t - (if elapsed_ns t < 1000000 then 1 else 0)) * 1000000 \<le> elapsed_ns t"
      using dm by (auto simp: max_def)
    ultimately show ?case using Cons by (auto split: if_splits)
  qed simp
  then show "sum_list (map elapsed_ns turns) \<le> (sum_list (map counted_ms turns) + int (length turns)) * 1000000"
    "(sum_list (map counted_ms turns) - int (length (filter (\<lambda>t. elapsed_ns t < 1000000) turns))) * 1000000 \<le> sum_list (map elapsed_ns turns)"
    "int (length turns) \<le> sum_list (map counted_ms turns)" by blast+
qed

lemma GetTimeout_fold:
  "fold (\<lambda>(_, q) t. if pq_timeout_ms q \<ge> 0 \<and> pq_timeout_ms q < t then pq_timeout_ms q else t) rs t \<le> t
   \<and> (0 \<le> t \<longrightarrow> 0 \<le> fold (\<lambda>(_, q) t. if pq_timeout_ms q \<ge> 0 \<and> pq_timeout_ms q < t then pq_timeout_ms q else t) rs t)
   \<and> ((fd, q) \<in> set rs \<longrightarrow> 0 \<le> pq_timeout_ms q \<longrightarrow> fold (\<lambda>(_, q) t. if pq_timeout_ms q \<ge> 0 \<and> pq_timeout_ms q < t then pq_timeout_ms q else t) rs t \<le> pq_timeout_ms q)"
proof (induction rs arbitrary: t)
  case (Cons x rs)
  show ?case using Cons.IH [of t] Cons.IH [of "pq_timeout_ms (snd x)"] by (cases x) auto
qed simp

text \<open>C37: When a timeout of \<open>T > 0\<close> milliseconds is answered. In a run of the poller's thread in which
  \<open>epoll_wait\<close> never reports the request's descriptor, nobody changes the request, and the clock
  goes forward by less than 24 days in each turn: the request is answered with a timeout in exactly
  one turn, the first one by whose end the turns have counted \<open>T\<close> milliseconds; a turn counts the whole
  milliseconds its wait took, but at least one. In real time this is a promise with an error that
  grows with the number of turns: the waits up to the end of that turn took at least \<open>T\<close> milliseconds
  less one for each wait that was shorter than a millisecond, so that a busy poller answers early;
  and the waits before that turn took at most \<open>T - 1\<close> milliseconds plus one for each of them, of
  which there are fewer than \<open>T\<close>. The poller never goes to sleep for longer than the request has
  left, or than 100 milliseconds.\<close>

theorem poll_timeout_on_time:
  assumes "po_wf p" and "map_of (po_requests p) fd = Some q" and "pq_timeout_ms q = T" and "0 < T"
    and "\<forall>t \<in> set turns. quiet_turn fd t" and "k < length turns"
  shows "((fd, 0) \<in> set (po_ThreadFunc turns p ! k) \<longleftrightarrow>
       sum_list (map counted_ms (take k turns)) < T \<and> T \<le> sum_list (map counted_ms (take (Suc k) turns)))
    \<and> (\<forall>t \<in> set turns. counted_ms t = max 1 (elapsed_ns t div 1000000))
    \<and> ((fd, 0) \<in> set (po_ThreadFunc turns p ! k) \<longrightarrow>
         (T - int (length (filter (\<lambda>t. elapsed_ns t < 1000000) (take (Suc k) turns)))) * 1000000
           \<le> sum_list (map elapsed_ns (take (Suc k) turns))
       \<and> sum_list (map elapsed_ns (take k turns)) \<le> (T - 1 + int k) * 1000000 \<and> int k < T)
    \<and> 0 \<le> po_GetTimeoutMs p \<and> po_GetTimeoutMs p \<le> 100 \<and> po_GetTimeoutMs p \<le> T"
proof -
  have T: "0 < pq_timeout_ms q" using assms(3,4) by simp
  note due = po_ThreadFunc_due [OF assms(1,2) T assms(5,6), unfolded assms(3)]
  have tk: "\<forall>t \<in> set (take j turns). quiet_turn fd t" for j using assms(5) by (auto dest: in_set_takeD)
  have len: "length (take k turns) = k" using assms(6) by simp
  have "(T - int (length (filter (\<lambda>t. elapsed_ns t < 1000000) (take (Suc k) turns)))) * 1000000
           \<le> sum_list (map elapsed_ns (take (Suc k) turns))
       \<and> sum_list (map elapsed_ns (take k turns)) \<le> (T - 1 + int k) * 1000000 \<and> int k < T"
    if "(fd, 0) \<in> set (po_ThreadFunc turns p ! k)"
  proof -
    have c: "sum_list (map counted_ms (take k turns)) < T" "T \<le> sum_list (map counted_ms (take (Suc k) turns))"
      using that due by blast+
    have early: "(T - n) * 1000000 \<le> E" if "T \<le> S" "(S - n) * 1000000 \<le> E" for S n E :: int
      using that by (simp add: algebra_simps)
    have late: "E \<le> (T - 1 + n) * 1000000 \<and> n < T" if "S < T" "E \<le> (S + n) * 1000000" "n \<le> S" for S n E :: int
      using that by (simp add: algebra_simps)
    show ?thesis
      using early [OF c(2) counted_elapsed(2) [OF tk]] late [OF c(1) counted_elapsed(1,3) [OF tk]] unfolding len by blast
  qed
  moreover have "\<forall>t \<in> set turns. counted_ms t = max 1 (elapsed_ns t div 1000000)" using assms(5) counted_eq by blast
  moreover have "0 \<le> po_GetTimeoutMs p \<and> po_GetTimeoutMs p \<le> 100 \<and> po_GetTimeoutMs p \<le> T"
    using GetTimeout_fold [where rs = "po_requests p" and t = kPollTimeoutMs and fd = fd and q = q] map_of_SomeD [OF assms(2)] assms(3,4)
    by (simp add: po_GetTimeoutMs_def kPollTimeoutMs_def)
  ultimately show ?thesis using due by blast
qed

text \<open>A timeout of 20 milliseconds: two waits of 9.9 milliseconds are counted 18, so the third answers;
  and twenty waits of a tenth of a millisecond, on account of other descriptors, answer it after 2.\<close>

lemma poll_timeout_on_time_witness:
  "(5, 0) \<in> set (po_ThreadFunc [(0, 9900000, []), (0, 9900000, []), (0, 5000000, [])]
      (snd (po_Register (ex_request 5 EPOLLIN 20) (po_new True (Some 3)))) ! 2)
   \<and> (5, 0) \<in> set (po_ThreadFunc (replicate 20 (0, 100000, [(3, EPOLLIN)])) (snd (po_Register (ex_request 5 EPOLLIN 20) (po_new True (Some 3)))) ! 19)"
proof -
  let ?p = "snd (po_Register (ex_request 5 EPOLLIN 20) (po_new True (Some 3)))"
  have wf: "po_wf ?p" by (intro po_Register_wf po_new_inv)
  have q: "map_of (po_requests ?p) 5 = Some (ex_request 5 EPOLLIN 20)"
    by (simp add: po_Register_def po_new_def po_Init_def ex_request_def po_Notify_def Let_def)
  have t: "pq_timeout_ms (ex_request 5 EPOLLIN 20) = 20" by (simp add: ex_request_def)
  note p = poll_timeout_on_time [OF wf q t]
  have c: "quiet_turn 5 (0, 100000, [(3, EPOLLIN)])" "quiet_turn 5 (0, 9900000, [])" "quiet_turn 5 (0, 5000000, [])"
    by (simp_all add: quiet_turn_def)
  have ms: "counted_ms (0, 100000, [(3, EPOLLIN)]) = 1" "counted_ms (0, 9900000, []) = 9" "counted_ms (0, 5000000, []) = 5"
    unfolding counted_eq [OF c(1)] counted_eq [OF c(2)] counted_eq [OF c(3)] by simp_all
  let ?a = "[(0, 9900000, []), (0, 9900000, []), (0, 5000000, [])] :: (u64 \<times> u64 \<times> (int \<times> u32) list) list"
  have a: "\<forall>t \<in> set ?a. quiet_turn 5 t" "2 < length ?a" using c by simp_all
  have "sum_list (map counted_ms (take 2 ?a)) = 18" "sum_list (map counted_ms (take (Suc 2) ?a)) = 23"
    using ms by (simp_all add: numeral_2_eq_2 del: counted_ms.simps)
  then have "(5, 0) \<in> set (po_ThreadFunc ?a ?p ! 2)" using p [OF _ a] by simp
  moreover
  let ?b = "replicate 20 (0, 100000, [(3, EPOLLIN)]) :: (u64 \<times> u64 \<times> (int \<times> u32) list) list"
  have b: "\<forall>t \<in> set ?b. quiet_turn 5 t" "19 < length ?b" using c(1) by simp_all
  have "sum_list (map counted_ms (take 19 ?b)) = 19" "sum_list (map counted_ms (take (Suc 19) ?b)) = 20"
    using ms(1) by (simp_all add: sum_list_replicate del: counted_ms.simps)
  then have "(5, 0) \<in> set (po_ThreadFunc ?b ?p ! 19)" using p [OF _ b] by simp
  ultimately show ?thesis by blast
qed

end
