(* ===== verification/Io_Session.thy ===== *)
theory Io_Session
  imports Io_Poller Croutine
begin

text \<open>
  Waiting for a descriptor in a coroutine (io/poll_handler.h, poll_handler.cc) and sessions
  (io/session.h, session.cc). A handler's callback is known by the descriptor of its handler. What
  system calls return is an argument, call by call; \<open>None\<close> is a failed \<open>ACHECK\<close> or a loop that does
  not end. The last section has a coroutine that blocks, the poller's thread and a processor.
\<close>

section \<open>PollHandler\<close>

record poll_handler =
  ph_fd :: int
  ph_request :: "int poll_request"
  ph_response :: u32
  ph_is_read :: bool
  ph_is_blocking :: bool
  ph_routine :: "u64 option"

definition ph_new :: "int \<Rightarrow> poll_handler" where
  "ph_new fd = \<lparr>ph_fd = fd, ph_request = \<lparr>pq_fd = -1, pq_events = 0, pq_timeout_ms = -1, pq_callback = None\<rparr>, ph_response = 0,
     ph_is_read = False, ph_is_blocking = False, ph_routine = None\<rparr>"

definition ph_Check :: "int \<Rightarrow> u64 option \<Rightarrow> poll_handler \<Rightarrow> bool \<times> poll_handler" where
  "ph_Check timeout_ms current h =
     (if timeout_ms = 0 then (False, h)
      else if ph_fd h < 0 then (False, h)
      else (let h = h\<lparr>ph_routine := current\<rparr> in if ph_routine h = None then (False, h) else (True, h)))"

definition ph_Fill :: "int \<Rightarrow> bool \<Rightarrow> poll_handler \<Rightarrow> poll_handler" where
  "ph_Fill timeout_ms is_read h =
     h\<lparr>ph_is_read := is_read,
       ph_request := \<lparr>pq_fd = ph_fd h, pq_events = EPOLLET OR EPOLLONESHOT OR (if is_read then EPOLLIN else EPOLLOUT),
         pq_timeout_ms = timeout_ms, pq_callback = Some (Client (ph_fd h))\<rparr>\<rparr>"

text \<open>\<open>Block\<close> up to the routine's yielding, and from its resumption; the first result is whether it
  gets there.\<close>

definition ph_Block_begin :: "int \<Rightarrow> bool \<Rightarrow> u64 option \<Rightarrow> poll_handler \<times> int poller \<Rightarrow> bool \<times> poll_handler \<times> int poller" where
  "ph_Block_begin timeout_ms is_read current hp = (case hp of (h, p) \<Rightarrow>
     (let (ok, h) = ph_Check timeout_ms current h in
      if \<not> ok then (False, h, p)
      else if ph_is_blocking h then (False, h, p)
      else (let h = ph_Fill timeout_ms is_read (h\<lparr>ph_is_blocking := True\<rparr>); (ok, p) = po_Register (ph_request h) p in
        if \<not> ok then (False, h\<lparr>ph_is_blocking := False\<rparr>, p) else (True, h, p))))"

definition ph_Block_end :: "bool \<Rightarrow> poll_handler \<Rightarrow> bool \<times> poll_handler" where
  "ph_Block_end is_read h = (ph_response h AND (if is_read then EPOLLIN else EPOLLOUT) \<noteq> 0, h\<lparr>ph_is_blocking := False\<rparr>)"

definition ph_Unblock :: "poll_handler \<times> int poller \<Rightarrow> bool \<times> poll_handler \<times> int poller" where
  "ph_Unblock hp = (case hp of (h, p) \<Rightarrow>
     (let h = h\<lparr>ph_is_blocking := False\<rparr>; (ok, p) = po_Unregister (ph_request h) p in (ok, h, p)))"

text \<open>The result is whether the routine's task is notified.\<close>

definition ph_ResponseCallback :: "u32 \<Rightarrow> routine_state \<Rightarrow> poll_handler \<Rightarrow> bool \<times> poll_handler" where
  "ph_ResponseCallback events state h =
     (if \<not> ph_is_blocking h \<or> ph_routine h = None then (False, h)
      else (state = IO_WAIT, h\<lparr>ph_response := events\<rparr>))"

section \<open>Session\<close>

text \<open>What a system call on a socket gives: a count or descriptor, \<open>EAGAIN\<close>, or another error.\<close>

datatype sys_result = Done nat | Again | Failed nat

record session =
  se_fd :: int
  se_handler :: poll_handler

definition ss_new :: "int \<Rightarrow> session" where "ss_new fd = \<lparr>se_fd = fd, se_handler = ph_new fd\<rparr>"

definition ss_set_fd :: "int \<Rightarrow> session \<Rightarrow> session" where
  "ss_set_fd fd s = s\<lparr>se_fd := fd, se_handler := (se_handler s)\<lparr>ph_fd := fd\<rparr>\<rparr>"

definition ss_Socket :: "int \<Rightarrow> session \<Rightarrow> int \<times> session" where
  "ss_Socket sock_fd s = (if se_fd s \<noteq> -1 then (-1, s) else if sock_fd \<noteq> -1 then (sock_fd, ss_set_fd sock_fd s) else (sock_fd, s))"

definition ss_Listen :: "int \<Rightarrow> session \<Rightarrow> int option" where "ss_Listen res s = (if se_fd s = -1 then None else Some res)"

definition ss_Bind :: "'addr option \<Rightarrow> int \<Rightarrow> session \<Rightarrow> int option" where
  "ss_Bind addr res s = (if se_fd s = -1 then None else if addr = None then None else Some res)"

definition ss_Close :: "int \<Rightarrow> session \<times> int poller \<Rightarrow> (int \<times> session \<times> int poller) option" where
  "ss_Close res sp = (case sp of (s, p) \<Rightarrow>
     if se_fd s = -1 then None
     else (let (ok, h, p) = ph_Unblock (se_handler s, p) in Some (res, s\<lparr>se_fd := -1, se_handler := h\<rparr>, p)))"

text \<open>\<open>connect\<close> gives 0, \<open>EINPROGRESS\<close> (\<open>Again\<close>) or another error; after the wait, \<open>SO_ERROR\<close> is
  \<open>optval\<close>. The second component is what is left in \<open>errno\<close>.\<close>

definition ss_Connect :: "sys_result \<Rightarrow> nat \<Rightarrow> session \<Rightarrow> (int \<times> nat option) option" where
  "ss_Connect res optval s =
     (if se_fd s = -1 then None
      else Some (case res of
          Done _ \<Rightarrow> (0, None)
        | Failed e \<Rightarrow> (-1, Some e)
        | Again \<Rightarrow> if optval = 0 then (0, None) else (-1, Some optval)))"

text \<open>The loop of \<open>Accept\<close>: call \<open>k\<close> of \<open>accept4\<close>, after a wait of any outcome.\<close>

partial_function (option) ss_accept_loop :: "(nat \<Rightarrow> sys_result) \<Rightarrow> nat \<Rightarrow> (nat \<times> session option) option" where
  "ss_accept_loop sys k = (case sys k of
       Again \<Rightarrow> ss_accept_loop sys (k + 1)
     | Failed e \<Rightarrow> Some (k + 1, None)
     | Done fd \<Rightarrow> Some (k + 1, Some (ss_new (int fd))))"

definition ss_Accept :: "(nat \<Rightarrow> sys_result) \<Rightarrow> session \<Rightarrow> (nat \<times> session option) option" where
  "ss_Accept sys s = (if se_fd s = -1 then None else ss_accept_loop sys 0)"

text \<open>The loop that the six transfers share: \<open>k\<close> system calls have been made, the last with result \<open>r\<close>,
  and \<open>j\<close> calls of \<open>Block\<close>. The result counts the system calls.\<close>

partial_function (option) ss_io_loop :: "(nat \<Rightarrow> sys_result) \<Rightarrow> (nat \<Rightarrow> bool) \<Rightarrow> int \<Rightarrow> nat \<Rightarrow> nat \<Rightarrow> sys_result \<Rightarrow> (nat \<times> sys_result) option" where
  "ss_io_loop sys block timeout_ms k j r =
     (if r \<noteq> Again then Some (k, r)
      else (let k' = (if block j then k + 1 else k); r' = (if block j then sys k else r) in
        if timeout_ms > 0 then Some (k', r') else ss_io_loop sys block timeout_ms k' (j + 1) r'))"

definition ss_io :: "(nat \<Rightarrow> sys_result) \<Rightarrow> (nat \<Rightarrow> bool) \<Rightarrow> int \<Rightarrow> (nat \<times> sys_result) option" where
  "ss_io sys block timeout_ms = (if timeout_ms = 0 then Some (1, sys 0) else ss_io_loop sys block timeout_ms 1 0 (sys 0))"

text \<open>\<open>block r j\<close> is the outcome of the \<open>j\<close>-th \<open>Block\<close> for reading (\<open>r\<close>) or writing.\<close>

definition ss_Recv :: "'buf option \<Rightarrow> (nat \<Rightarrow> sys_result) \<Rightarrow> (bool \<Rightarrow> nat \<Rightarrow> bool) \<Rightarrow> int \<Rightarrow> session \<Rightarrow> (nat \<times> sys_result) option" where
  "ss_Recv buf recv block timeout_ms s = (if buf = None \<or> se_fd s = -1 then None else ss_io recv (block True) timeout_ms)"
definition ss_RecvFrom :: "'buf option \<Rightarrow> (nat \<Rightarrow> sys_result) \<Rightarrow> (bool \<Rightarrow> nat \<Rightarrow> bool) \<Rightarrow> int \<Rightarrow> session \<Rightarrow> (nat \<times> sys_result) option" where
  "ss_RecvFrom buf recvfrom block timeout_ms s = (if buf = None \<or> se_fd s = -1 then None else ss_io recvfrom (block True) timeout_ms)"
definition ss_Send :: "'buf option \<Rightarrow> (nat \<Rightarrow> sys_result) \<Rightarrow> (bool \<Rightarrow> nat \<Rightarrow> bool) \<Rightarrow> int \<Rightarrow> session \<Rightarrow> (nat \<times> sys_result) option" where
  "ss_Send buf send block timeout_ms s = (if buf = None \<or> se_fd s = -1 then None else ss_io send (block False) timeout_ms)"
definition ss_SendTo :: "'buf option \<Rightarrow> 'addr option \<Rightarrow> (nat \<Rightarrow> sys_result) \<Rightarrow> (bool \<Rightarrow> nat \<Rightarrow> bool) \<Rightarrow> int \<Rightarrow> session \<Rightarrow> (nat \<times> sys_result) option" where
  "ss_SendTo buf addr sendto block timeout_ms s =
     (if buf = None \<or> addr = None \<or> se_fd s = -1 then None else ss_io sendto (block False) timeout_ms)"
definition ss_Read :: "'buf option \<Rightarrow> (nat \<Rightarrow> sys_result) \<Rightarrow> (bool \<Rightarrow> nat \<Rightarrow> bool) \<Rightarrow> int \<Rightarrow> session \<Rightarrow> (nat \<times> sys_result) option" where
  "ss_Read buf read block timeout_ms s = (if buf = None \<or> se_fd s = -1 then None else ss_io read (block True) timeout_ms)"
definition ss_Write :: "'buf option \<Rightarrow> (nat \<Rightarrow> sys_result) \<Rightarrow> (bool \<Rightarrow> nat \<Rightarrow> bool) \<Rightarrow> int \<Rightarrow> session \<Rightarrow> (nat \<times> sys_result) option" where
  "ss_Write buf write block timeout_ms s = (if buf = None \<or> se_fd s = -1 then None else ss_io write (block False) timeout_ms)"

section \<open>When a transfer returns\<close>

text \<open>With \<open>Block\<close> always successful, an endless wait ends with the first answer that is not \<open>EAGAIN\<close>.\<close>

lemma ss_io_loop_waits:
  assumes "\<And>j. block j" and "timeout_ms < 0" and "\<And>i. i < n \<Longrightarrow> sys (k + i) = Again" and "sys (k + n) \<noteq> Again"
  shows "ss_io_loop sys block timeout_ms k j Again = Some (k + n + 1, sys (k + n))"
  using assms(3,4)
proof (induction n arbitrary: k j)
  case 0
  then have "sys k \<noteq> Again" by simp
  then show ?case using assms(1,2) by (subst ss_io_loop.simps) (subst ss_io_loop.simps, simp)
next
  case (Suc n)
  have "sys (k + 1 + i) = Again" if "i < n" for i using Suc.prems(1) [of "Suc i"] that by simp
  moreover have "sys (k + 1 + n) \<noteq> Again" using Suc.prems(2) by simp
  moreover have "sys k = Again" using Suc.prems(1) [of 0] by simp
  moreover have "block = (\<lambda>_. True)" using assms(1) by auto
  ultimately show ?case using Suc.IH [of "k + 1" "j + 1"] assms(2) by (subst ss_io_loop.simps) simp
qed

text \<open>If \<open>Block\<close> never succeeds, it never ends.\<close>

lemma ss_io_loop_spins:
  assumes "ss_io_loop sys block timeout_ms k j r = Some x"
  shows "\<not> (r = Again \<and> \<not> timeout_ms > 0 \<and> block = (\<lambda>_. False))"
proof (rule ss_io_loop.raw_induct [where P = "\<lambda>sys block t k j r x. \<not> (r = Again \<and> \<not> t > 0 \<and> block = (\<lambda>_. False))", OF _ assms])
  fix loop sys block t k j r x
  assume "\<And>sys block t k j r x. loop sys block t k j r = Some x \<Longrightarrow> \<not> (r = Again \<and> \<not> t > 0 \<and> block = (\<lambda>_. False))"
    and "(if r \<noteq> Again then Some (k, r)
      else (let k' = (if block j then k + 1 else k); r' = (if block j then sys k else r) in
        if t > 0 then Some (k', r') else loop sys block t k' (j + 1) r')) = Some x"
  then show "\<not> (r = Again \<and> \<not> t > 0 \<and> block = (\<lambda>_. False))" by (fastforce simp: Let_def split: if_splits)
qed

text \<open>What a transfer on a session does. With a timeout of 0 it tries once. With a positive timeout
  it makes at most two attempts and returns. Without a timeout and in a coroutine it waits through
  any number of \<open>EAGAIN\<close> and returns the first other answer.\<close>

theorem session_transfer_returns:
  assumes "se_fd s \<noteq> -1" and "\<And>j. block True j" and "\<And>i. i < n \<Longrightarrow> recv i = Again" and "recv n \<noteq> Again"
  shows "ss_Recv (Some buf) recv block 0 s = Some (1, recv 0)
    \<and> (0 < t \<longrightarrow> ss_Recv (Some buf) recv block t s = Some (if n = 0 then (1, recv 0) else (2, recv 1)))
    \<and> (t < 0 \<longrightarrow> ss_Recv (Some buf) recv block t s = Some (n + 1, recv n))"
proof -
  have "ss_io recv (block True) 0 = Some (1, recv 0)" by (simp add: ss_io_def)
  moreover have "ss_io recv (block True) t = Some (if n = 0 then (1, recv 0) else (2, recv 1))" if "0 < t"
    using assms that by (cases n) (simp_all add: ss_io_def ss_io_loop.simps [of recv "block True" t])
  moreover have "ss_io recv (block True) t = Some (n + 1, recv n)" if "t < 0"
  proof (cases n)
    case 0
    then show ?thesis using assms(4) that by (simp add: ss_io_def ss_io_loop.simps [of recv "block True" t])
  next
    case (Suc m)
    have "recv (1 + i) = Again" if "i < m" for i using assms(3) [of "1 + i"] that Suc by simp
    then show ?thesis using ss_io_loop_waits [of "block True" t m recv 1 0] assms(2,3,4) that Suc by (simp add: ss_io_def)
  qed
  ultimately show ?thesis using assms(1) by (simp add: ss_Recv_def)
qed

lemma session_transfer_returns_witness:
  "ss_Recv (Some ()) (\<lambda>k. if k < 3 then Again else Done 7) (\<lambda>_ _. True) (-1) (ss_new 5) = Some (4, Done 7)"
  using session_transfer_returns [of "ss_new 5" "\<lambda>_ _. True" 3 "\<lambda>k. if k < 3 then Again else Done 7" "()" "-1"] by (simp add: ss_new_def)

text \<open>Outside of a coroutine a transfer without timeout that has to wait never returns, even when the
  data has come: \<open>Block\<close> refuses every time because there is no routine to suspend, and the loop tries
  the system call again only after a successful \<open>Block\<close>.\<close>

theorem transfer_outside_coroutine_spins:
  assumes "\<And>j. \<exists>h p h' p'. ph_Block_begin t True None (h, p) = (block True j, h', p')" and "t < 0" and "recv 0 = Again"
  shows "ss_Recv buf recv block t s = None"
proof -
  have "\<not> block True j" for j using assms(1) [of j] by (auto simp: ph_Block_begin_def ph_Check_def Let_def split: if_splits)
  then have "block True = (\<lambda>_. False)" by auto
  then have "ss_io_loop recv (block True) t 1 0 Again \<noteq> Some x" for x using ss_io_loop_spins [of recv "block True" t 1 0 Again x] assms(2) by auto
  then have "ss_io_loop recv (block True) t 1 0 Again = None" by (metis not_Some_eq)
  then show ?thesis using assms(2,3) by (simp add: ss_Recv_def ss_io_def)
qed

lemma transfer_outside_coroutine_spins_witness:
  "ss_Recv (Some ()) (\<lambda>k. if k = 0 then Again else Done 7) (\<lambda>_ _. False) (-1) (ss_new 5) = None"
proof (rule transfer_outside_coroutine_spins)
  show "\<exists>h p h' p'. ph_Block_begin (-1) True None (h, p) = (False, h', p')"
    by (intro exI [of _ "ph_new 5"] exI [of _ "po_new True (Some 3)"]) (simp add: ph_Block_begin_def ph_Check_def ph_new_def)
qed simp_all

section \<open>A coroutine blocks\<close>

text \<open>A coroutine in \<open>Block\<close>: it has registered but not yielded yet, has yielded, or has returned.
  \<open>wt_due\<close> are the responses the poller's thread has still to give. The poller has requests of this
  handler and its own pipe only. \<open>NotifyTask\<close> sets the update flag of a routine that waits.\<close>

datatype wt_pc = WtRun | WtRegistered | WtYielded | WtDone bool

record waiting =
  wt_h :: poll_handler
  wt_p :: "int poller"
  wt_cr :: croutine
  wt_pc :: wt_pc
  wt_due :: "(int \<times> u32) list"

definition wt_notify :: "croutine \<Rightarrow> croutine" where
  "wt_notify c = (if cr_waits c then cr_SetUpdateFlag c else c)"

definition wt_called :: "('a poll_callback \<times> u32) option \<Rightarrow> poll_handler \<times> croutine \<Rightarrow> poll_handler \<times> croutine" where
  "wt_called call hc = (case hc of (h, c) \<Rightarrow> (case call of
       Some (Client _, ev) \<Rightarrow> (let (notify, h) = ph_ResponseCallback ev (cr_state c) h in (h, if notify then wt_notify c else c))
     | _ \<Rightarrow> (h, c)))"

inductive wt_step :: "int \<Rightarrow> bool \<Rightarrow> waiting \<Rightarrow> waiting \<Rightarrow> bool" for t is_read where
  wt_begin: "wt_pc s = WtRun \<Longrightarrow> ph_Block_begin t is_read (Some (cr_id (wt_cr s))) (wt_h s, wt_p s) = (True, h, p) \<Longrightarrow>
    wt_step t is_read s (s\<lparr>wt_h := h, wt_p := p, wt_pc := WtRegistered\<rparr>)"
| wt_yield: "wt_pc s = WtRegistered \<Longrightarrow> wt_step t is_read s (s\<lparr>wt_cr := cr_Yield_state IO_WAIT (wt_cr s), wt_pc := WtYielded\<rparr>)"
| wt_resume: "wt_pc s = WtYielded \<Longrightarrow> cr_UpdateState now (wt_cr s) = (READY, c) \<Longrightarrow> ph_Block_end is_read (wt_h s) = (b, h) \<Longrightarrow>
    wt_step t is_read s (s\<lparr>wt_cr := c, wt_h := h, wt_pc := WtDone b\<rparr>)"
| wt_look: "wt_pc s = WtYielded \<Longrightarrow> cr_UpdateState now (wt_cr s) = (st, c) \<Longrightarrow> st \<noteq> READY \<Longrightarrow> wt_step t is_read s (s\<lparr>wt_cr := c\<rparr>)"
| wt_changes: "wt_step t is_read s (s\<lparr>wt_p := po_HandleChanges (wt_p s)\<rparr>)"
| wt_ready: "po_epoll (wt_p s) fd = Some (events, True) \<Longrightarrow> wt_due s = [] \<Longrightarrow>
    wt_step t is_read s (s\<lparr>wt_p := (wt_p s)\<lparr>po_epoll := epoll_report fd (po_epoll (wt_p s))\<rparr>, wt_due := [(fd, ev)]\<rparr>)"
| wt_timeout: "wt_due s = [] \<Longrightarrow> po_tick i (wt_p s) = (rs, p) \<Longrightarrow> wt_step t is_read s (s\<lparr>wt_p := p, wt_due := rs\<rparr>)"
| wt_answer: "wt_due s = r # rs \<Longrightarrow> po_answer r (wt_p s) = (call, p) \<Longrightarrow> wt_called call (wt_h s, wt_cr s) = (h, c) \<Longrightarrow>
    wt_step t is_read s (s\<lparr>wt_p := p, wt_h := h, wt_cr := c, wt_due := rs\<rparr>)"

definition wt_start :: "int \<Rightarrow> u64 \<Rightarrow> waiting" where
  "wt_start fd i = \<lparr>wt_h = ph_new fd, wt_p = po_new True (Some 0), wt_cr = (cr_new 0)\<lparr>cr_id := i\<rparr>, wt_pc = WtRun, wt_due = []\<rparr>"

text \<open>The kernel has reported, the response has been given, and the routine was not told: it has
  registered or yielded, no flag is set, its request has no timeout any more, and its descriptor is
  used up until it is registered again.\<close>

definition idle_request :: "int \<Rightarrow> int \<times> int poll_request \<Rightarrow> bool" where
  "idle_request fd gq \<longleftrightarrow> pq_fd (snd gq) = fst gq \<and> pq_timeout_ms (snd gq) = -1 \<and> (fst gq = fd \<or> pq_callback (snd gq) = Some DrainPipe)"

definition wt_stuck :: "int \<Rightarrow> waiting \<Rightarrow> bool" where
  "wt_stuck fd s \<longleftrightarrow> (wt_pc s = WtRegistered \<or> wt_pc s = WtYielded \<and> cr_state (wt_cr s) = IO_WAIT) \<and> cr_updated (wt_cr s)
     \<and> list_all (\<lambda>r. fst r \<noteq> fd) (wt_due s) \<and> list_all (idle_request fd) (po_requests (wt_p s))
     \<and> po_wf (wt_p s) \<and> map_of (po_ctrl (wt_p s)) fd = None \<and> (\<exists>events. po_epoll (wt_p s) fd = Some (events, False))"

lemma idle_tick: "idle_request fd gq \<Longrightarrow> pq_tick i (snd gq) = (False, snd gq)"
  by (simp add: idle_request_def pq_tick_def)

lemma po_tick_idle: "list_all (idle_request fd) (po_requests p) \<Longrightarrow> po_tick i p = ([], p)"
proof -
  assume a: "list_all (idle_request fd) (po_requests p)"
  then have "pq_tick i q = (False, q)" if "(g, q) \<in> set (po_requests p)" for g q
    using that idle_tick [of fd "(g, q)"] by (auto simp: list_all_iff)
  then have "filter (\<lambda>(g, q). map_of (po_ctrl p) (pq_fd q) = None \<and> fst (pq_tick i q)) (po_requests p) = []"
    and "map (\<lambda>(g, q). (g, if map_of (po_ctrl p) (pq_fd q) = None then snd (pq_tick i q) else q)) (po_requests p) = po_requests p"
    by (auto simp: filter_empty_conv intro!: map_idI)
  then show ?thesis by (simp add: po_tick_def Let_def)
qed

lemma po_answer_idle:
  assumes "list_all (idle_request fd) (po_requests p)" and "po_answer r p = (call, p')" and "fst r \<noteq> fd"
  shows "list_all (idle_request fd) (po_requests p') \<and> (call = None \<or> (\<exists>ev. call = Some (DrainPipe, ev)))"
proof (cases "map_of (po_requests p) (fst r)")
  case (Some q)
  then have "idle_request fd (fst r, q)" using assms(1) map_of_SomeD [OF Some] by (auto simp: list_all_iff)
  then show ?thesis using assms Some list_all_update [OF assms(1), of "fst r" "q\<lparr>pq_timeout_ms := -1\<rparr>"]
    by (auto simp: po_answer_def idle_request_def Let_def split: if_splits)
qed (use assms in \<open>auto simp: po_answer_def\<close>)

lemma wt_stuck_step:
  assumes "wt_step t is_read s s'" and "wt_stuck fd s"
  shows "wt_stuck fd s'"
  using assms(1)
proof cases
  case (wt_begin h p)
  then show ?thesis using assms(2) by (simp add: wt_stuck_def)
next
  case wt_yield
  then show ?thesis using assms(2) by (simp add: wt_stuck_def cr_Yield_state_def)
next
  case (wt_resume now c b h)
  then show ?thesis using assms(2) by (auto simp: wt_stuck_def cr_UpdateState_def Let_def split: if_splits)
next
  case (wt_look now st c)
  then show ?thesis using assms(2) by (auto simp: wt_stuck_def cr_UpdateState_def Let_def split: if_splits)
next
  case wt_changes
  have "map_of (po_ctrl (po_HandleChanges (wt_p s))) fd = None" "po_requests (po_HandleChanges (wt_p s)) = po_requests (wt_p s)"
    by (simp_all add: po_HandleChanges_def)
  then show ?thesis using wt_changes assms(2) po_HandleChanges_wf [of "wt_p s"] po_HandleChanges_at [of "wt_p s" fd] by (simp add: wt_stuck_def)
next
  case (wt_ready g events ev)
  then have "g \<noteq> fd" using assms(2) by (auto simp: wt_stuck_def)
  then have "epoll_report g (po_epoll (wt_p s)) fd = po_epoll (wt_p s) fd" by (auto simp: epoll_report_def split: option.split)
  then show ?thesis using assms(2) wt_ready \<open>g \<noteq> fd\<close> by (simp add: wt_stuck_def po_wf_def)
next
  case (wt_timeout i rs p)
  then show ?thesis using assms(2) po_tick_idle [of fd "wt_p s" i] by (simp add: wt_stuck_def)
next
  case (wt_answer r rs call p h c)
  have "fst r \<noteq> fd" using assms(2) wt_answer(2) by (simp add: wt_stuck_def)
  then have "list_all (idle_request fd) (po_requests p)" "h = wt_h s" "c = wt_cr s"
    using po_answer_idle [of fd "wt_p s" r call p] assms(2) wt_answer(3,4) by (auto simp: wt_stuck_def wt_called_def)
  moreover have "po_wf p" "po_ctrl p = po_ctrl (wt_p s)" "po_epoll p = po_epoll (wt_p s)"
    using po_answer_wf [of "wt_p s" r] po_answer_fields(1,2) [of r "wt_p s"] wt_answer(3) assms(2) by (simp_all add: wt_stuck_def)
  ultimately show ?thesis using assms(2) wt_answer(1,2) by (simp add: wt_stuck_def)
qed

text \<open>A coroutine can block on a descriptor for ever although the data is there. \<open>Block\<close> registers the
  request before the routine yields, and the response wakes the routine only if it has yielded
  already: once the response has come in between, nothing that the poller's thread and the
  processors do makes \<open>Block\<close> return.\<close>

theorem block_loses_wakeup:
  assumes "wt_stuck fd s" and "reach s (wt_step t is_read) s'"
  shows "wt_pc s' \<noteq> WtDone b"
proof -
  have "wt_stuck fd s'" using assms(2) by (induction rule: reach.induct) (use assms(1) wt_stuck_step in blast)+
  then show ?thesis by (auto simp: wt_stuck_def)
qed

lemma block_loses_wakeup_witness:
  "\<exists>s. reach (wt_start 5 1) (wt_step 20 True) s \<and> ph_response (wt_h s) = EPOLLIN \<and> (\<forall>b. wt_pc s \<noteq> WtDone b)"
proof -
  define h where "h = ph_Fill 20 True ((ph_new 5)\<lparr>ph_routine := Some 1, ph_is_blocking := True\<rparr>)"
  define q where "q = ph_request h"
  define p1 where "p1 = snd (po_Register q (po_new True (Some 0)))"
  define p2 where "p2 = po_HandleChanges p1"
  define p3 where "p3 = p2\<lparr>po_epoll := epoll_report 5 (po_epoll p2)\<rparr>"
  define p4 where "p4 = snd (po_answer (5, EPOLLIN) p3)"
  let ?s = "\<lambda>h p pc due. (wt_start 5 1)\<lparr>wt_h := h, wt_p := p, wt_pc := pc, wt_due := due\<rparr>"
  note d = h_def q_def p1_def p2_def p3_def p4_def
  have "fst (po_Register q (po_new True (Some 0))) = True" unfolding d by code_simp
  then have "po_Register q (po_new True (Some 0)) = (True, p1)" unfolding p1_def by (metis prod.collapse)
  then have begin_eq: "ph_Block_begin 20 True (Some 1) (ph_new 5, po_new True (Some 0)) = (True, h, p1)"
    unfolding q_def h_def by (simp add: ph_Block_begin_def ph_Check_def ph_new_def Let_def)
  have ready: "\<exists>ev. po_epoll p2 5 = Some (ev, True)" unfolding d by (intro exI [of _ "EPOLLET OR EPOLLONESHOT OR EPOLLIN"]) code_simp
  have answer: "po_answer (5, EPOLLIN) p3 = (Some (Client 5, EPOLLIN), p4)"
  proof -
    have "fst (po_answer (5, EPOLLIN) p3) = Some (Client 5, EPOLLIN)" unfolding d by code_simp
    then show ?thesis unfolding p4_def by (metis prod.collapse)
  qed
  have wf: "po_wf p4"
  proof -
    have "po_wf p1" unfolding p1_def by (intro po_Register_wf po_new_inv)
    then have "po_wf p3" unfolding p3_def p2_def using po_HandleChanges_wf [of p1] by (simp add: po_wf_def)
    then show ?thesis unfolding p4_def by (rule po_answer_wf)
  qed
  have fin: "list_all (idle_request 5) (po_requests p4)" "map_of (po_ctrl p4) 5 = None"
    "\<exists>ev. po_epoll p4 5 = Some (ev, False)" unfolding d by code_simp (code_simp, intro exI [of _ "EPOLLET OR EPOLLONESHOT OR EPOLLIN"], code_simp)
  have start: "wt_start 5 1 = ?s (ph_new 5) (po_new True (Some 0)) WtRun []" by (simp add: wt_start_def)
  have "reach (wt_start 5 1) (wt_step 20 True) (?s h p1 WtRegistered [])"
    by (rule reach_eq [OF reach_init]) (rule wt_begin [where h = h and p = p1], use begin_eq in \<open>simp_all add: wt_start_def cr_new_def\<close>)
  then have "reach (wt_start 5 1) (wt_step 20 True) (?s h p2 WtRegistered [])"
    by (rule reach_eq) (rule wt_changes, simp add: p2_def)
  then have "reach (wt_start 5 1) (wt_step 20 True) (?s h p3 WtRegistered [(5, EPOLLIN)])"
    using ready by (elim exE) (rule reach_eq, assumption, rule wt_ready [where fd = 5 and ev = EPOLLIN], simp_all add: p3_def)
  moreover have "wt_called (Some (Client 5, EPOLLIN)) (h, (cr_new 0)\<lparr>cr_id := 1\<rparr>) = (h\<lparr>ph_response := EPOLLIN\<rparr>, (cr_new 0)\<lparr>cr_id := 1\<rparr>)"
    unfolding h_def by (simp add: wt_called_def ph_ResponseCallback_def ph_Fill_def cr_new_def)
  then have "wt_step 20 True (?s h p3 WtRegistered [(5, EPOLLIN)]) (?s (h\<lparr>ph_response := EPOLLIN\<rparr>) p4 WtRegistered [])"
    using wt_answer [where s = "?s h p3 WtRegistered [(5, EPOLLIN)]" and r = "(5, EPOLLIN)" and rs = "[]" and call = "Some (Client 5, EPOLLIN)"
      and p = p4 and h = "h\<lparr>ph_response := EPOLLIN\<rparr>" and c = "(cr_new 0)\<lparr>cr_id := 1\<rparr>" and t = 20 and is_read = True] answer
    by (simp add: wt_start_def)
  ultimately have r: "reach (wt_start 5 1) (wt_step 20 True) (?s (h\<lparr>ph_response := EPOLLIN\<rparr>) p4 WtRegistered [])" by (rule reach_step)
  have "wt_stuck 5 (?s (h\<lparr>ph_response := EPOLLIN\<rparr>) p4 WtRegistered [])" using fin wf by (simp add: wt_stuck_def wt_start_def cr_new_def)
  from block_loses_wakeup [OF this reach_init] show ?thesis using r by (intro exI [of _ "?s (h\<lparr>ph_response := EPOLLIN\<rparr>) p4 WtRegistered []"]) simp
qed

end
