(* ===== verification/Async_Logger.thy ===== *)
theory Async_Logger
  imports Cyber_Prelude
begin

text \<open>
  The asynchronous logger (logger/async_logger.h, async_logger.cc, logger_util.h): writers append to one
  of two buffers while a thread writes the other one out. What is written out is a list of messages
  with their modules; the file of a module is in theory \<open>Log_File\<close>. A step is a section under the
  mutex or the thread's work between two of them. The counter of flushes is a number; the code has
  64 bits for it. \<open>None\<close> is a failed \<open>CHECK\<close>.
\<close>

section \<open>Messages and buffers\<close>

record lg_msg =
  lm_ts :: int
  lm_text :: string
  lm_level :: int

text \<open>\<open>FindModuleName\<close>: the name in the first pair of brackets, which is cut out of the message.\<close>

definition FindModuleName :: "string \<Rightarrow> string \<Rightarrow> string \<times> string" where
  "FindModuleName process_group msg =
     (let lpos = takeWhile (\<lambda>c. c \<noteq> CHR ''['') msg; rest = drop (Suc (length lpos)) msg;
          name = takeWhile (\<lambda>c. c \<noteq> CHR '']'') rest;
          (msg', name') = (if length lpos < length msg \<and> length name < length rest
             then (lpos @ drop (Suc (length name)) rest, name) else (msg, [])) in
      (msg', if name' = [] then process_group else name'))"

record lg_buffer =
  lb_messages :: "lg_msg list"
  lb_size :: int
  lb_flush :: bool

definition lb_new :: lg_buffer where "lb_new = \<lparr>lb_messages = [], lb_size = 0, lb_flush = False\<rparr>"

definition lb_clear :: "lg_buffer \<Rightarrow> lg_buffer" where
  "lb_clear b = b\<lparr>lb_messages := [], lb_size := 0, lb_flush := False\<rparr>"

text \<open>\<open>sizeof(Msg)\<close> on the platform: a time, a string object and a level.\<close>

definition sizeof_Msg :: int where "sizeof_Msg = 48"

definition lb_add :: "lg_msg \<Rightarrow> bool \<Rightarrow> lg_buffer \<Rightarrow> lg_buffer" where
  "lb_add msg force_flush b =
     b\<lparr>lb_size := lb_size b + sizeof_Msg + int (length (lm_text msg)), lb_messages := lb_messages b @ [msg],
       lb_flush := lb_flush b \<or> force_flush\<rparr>"

definition lb_needs_flush_or_write :: "lg_buffer \<Rightarrow> bool" where
  "lb_needs_flush_or_write b \<longleftrightarrow> lb_flush b \<or> lb_messages b \<noteq> []"

section \<open>The logger\<close>

datatype lg_state = INITTED | RUNNING | STOPPED

text \<open>\<open>lg_out\<close> is what has been handed to \<open>LogFileObject::Write\<close>, whose own stops (a full disk, a file that
  cannot be made) are in theory \<open>Log_File\<close>, each message with its module and whether it is flushed at once; \<open>lg_flushed\<close> how many of them had been written at the last flush of all files.\<close>

record async_logger =
  lg_max_buffer_bytes :: int
  lg_active :: lg_buffer
  lg_flushing :: lg_buffer
  lg_run_state :: lg_state
  lg_flush_count :: nat
  lg_out :: "(string \<times> lg_msg \<times> bool) list"
  lg_flushed :: nat

definition lg_new :: "int \<Rightarrow> async_logger" where
  "lg_new max_buffer_bytes =
     \<lparr>lg_max_buffer_bytes = (if max_buffer_bytes \<le> 0 then 2 * 1024 * 1024 else max_buffer_bytes), lg_active = lb_new, lg_flushing = lb_new,
      lg_run_state = INITTED, lg_flush_count = 0, lg_out = [], lg_flushed = 0\<rparr>"

definition lg_BufferFull :: "lg_buffer \<Rightarrow> async_logger \<Rightarrow> bool" where
  "lg_BufferFull b l \<longleftrightarrow> lb_size b > lg_max_buffer_bytes l div 2"

definition lg_level :: "string \<Rightarrow> int" where
  "lg_level message = (case message of [] \<Rightarrow> -1
     | c # _ \<Rightarrow> if c = CHR ''F'' then 3 else if c = CHR ''E'' then 2 else if c = CHR ''W'' then 1 else if c = CHR ''I'' then 0 else -1)"

definition lg_Write :: "bool \<Rightarrow> int \<Rightarrow> string \<Rightarrow> async_logger \<Rightarrow> async_logger" where
  "lg_Write force_flush timestamp message l =
     (if lg_BufferFull (lg_active l) l then l
      else if lg_run_state l \<noteq> RUNNING then l
      else l\<lparr>lg_active := lb_add \<lparr>lm_ts = timestamp, lm_text = message, lm_level = lg_level message\<rparr> force_flush (lg_active l)\<rparr>)"

definition lg_Start :: "async_logger \<Rightarrow> async_logger option" where
  "lg_Start l = (if lg_run_state l = INITTED then Some (l\<lparr>lg_run_state := RUNNING\<rparr>) else None)"

text \<open>\<open>Stop\<close> until it waits for the thread, and after the thread has ended.\<close>

definition lg_Stop_begin :: "async_logger \<Rightarrow> async_logger option" where
  "lg_Stop_begin l = (if lg_run_state l = RUNNING then Some (l\<lparr>lg_run_state := STOPPED\<rparr>) else None)"

definition lg_Stop_end :: "async_logger \<Rightarrow> async_logger option" where
  "lg_Stop_end l = (if lb_messages (lg_active l) = [] \<and> lb_messages (lg_flushing l) = [] then Some l else None)"

text \<open>One turn of the loop of \<open>Flush\<close>, which a caller with \<open>orig\<close> makes under the mutex; with \<open>False\<close> it
  leaves.\<close>

definition lg_Flush_turn :: "nat \<Rightarrow> async_logger \<Rightarrow> bool \<times> async_logger" where
  "lg_Flush_turn orig l =
     (if lg_flush_count l < orig + 2 \<and> lg_run_state l = RUNNING then (True, l\<lparr>lg_active := (lg_active l)\<lparr>lb_flush := True\<rparr>\<rparr>) else (False, l))"

text \<open>The parts of \<open>RunThread\<close>: the test of the loop, the time-out, the swap, writing out, and the end of a turn.\<close>

definition lg_again :: "async_logger \<Rightarrow> bool" where
  "lg_again l \<longleftrightarrow> lg_run_state l = RUNNING \<or> lb_needs_flush_or_write (lg_active l)"

definition lg_waits :: "async_logger \<Rightarrow> bool" where
  "lg_waits l \<longleftrightarrow> \<not> lb_needs_flush_or_write (lg_active l) \<and> lg_run_state l = RUNNING"

definition lg_timeout :: "async_logger \<Rightarrow> async_logger" where
  "lg_timeout l = l\<lparr>lg_active := (lg_active l)\<lparr>lb_flush := True\<rparr>\<rparr>"

definition lg_swap :: "async_logger \<Rightarrow> async_logger" where
  "lg_swap l = l\<lparr>lg_active := lg_flushing l, lg_flushing := lg_active l\<rparr>"

definition lg_line :: "string \<Rightarrow> lg_msg \<Rightarrow> string \<times> lg_msg \<times> bool" where
  "lg_line process_group m =
     (let (text, module_name) = FindModuleName process_group (lm_text m) in (module_name, m\<lparr>lm_text := text\<rparr>, lm_level m > 0))"

definition lg_write_out :: "string \<Rightarrow> async_logger \<Rightarrow> async_logger" where
  "lg_write_out process_group l =
     (let l = l\<lparr>lg_out := lg_out l @ map (lg_line process_group) (lb_messages (lg_flushing l))\<rparr>;
          l = (if lb_flush (lg_flushing l) then l\<lparr>lg_flushed := length (lg_out l)\<rparr> else l) in
      l\<lparr>lg_flushing := lb_clear (lg_flushing l)\<rparr>)"

definition lg_turn_end :: "async_logger \<Rightarrow> async_logger" where
  "lg_turn_end l = l\<lparr>lg_flush_count := lg_flush_count l + 1\<rparr>"

section \<open>Writers, flushers and the thread\<close>

text \<open>Where the thread is: not started, at the top of its loop, in the loop and waiting, writing out, before it locks again, ended.
  \<open>ls_accepted\<close> are the messages \<open>Write\<close> has taken; for a caller of \<open>Flush\<close>, \<open>ls_flush\<close> has the count it
  began with, the number of messages taken before, and how often the buffers had been swapped.\<close>

datatype lg_pc = LgNone | LgTop | LgIn | LgWriting | LgWritten | LgEnded

record logging =
  ls_l :: async_logger
  ls_pc :: lg_pc
  ls_accepted :: "lg_msg list"
  ls_swaps :: nat
  ls_flush :: "nat \<Rightarrow> (nat \<times> nat \<times> nat) option"

definition ls_start :: "int \<Rightarrow> logging" where
  "ls_start max_bytes = \<lparr>ls_l = lg_new max_bytes, ls_pc = LgNone, ls_accepted = [], ls_swaps = 0, ls_flush = (\<lambda>_. None)\<rparr>"

inductive ls_step :: "string \<Rightarrow> logging \<Rightarrow> logging \<Rightarrow> bool" for process_group where
  ls_go: "lg_Start (ls_l s) = Some l \<Longrightarrow> ls_step process_group s (s\<lparr>ls_l := l, ls_pc := LgTop\<rparr>)"
| ls_write: "ls_step process_group s (s\<lparr>ls_l := lg_Write force ts str (ls_l s),
      ls_accepted := ls_accepted s @ (if lg_BufferFull (lg_active (ls_l s)) (ls_l s) \<or> lg_run_state (ls_l s) \<noteq> RUNNING then []
        else [\<lparr>lm_ts = ts, lm_text = str, lm_level = lg_level str\<rparr>])\<rparr>)"
| ls_flush_begin: "ls_flush s t = None \<Longrightarrow> lg_Flush_turn (lg_flush_count (ls_l s)) (ls_l s) = (True, l) \<Longrightarrow>
    ls_step process_group s (s\<lparr>ls_l := l, ls_flush := (ls_flush s)(t \<mapsto> (lg_flush_count (ls_l s), length (ls_accepted s), ls_swaps s))\<rparr>)"
| ls_flush_again: "ls_flush s t = Some (c, n, k) \<Longrightarrow> lg_Flush_turn c (ls_l s) = (True, l) \<Longrightarrow> ls_step process_group s (s\<lparr>ls_l := l\<rparr>)"
| ls_flush_done: "ls_flush s t = Some (c, n, k) \<Longrightarrow> lg_Flush_turn c (ls_l s) = (False, l) \<Longrightarrow>
    ls_step process_group s (s\<lparr>ls_l := l, ls_flush := (ls_flush s)(t := None)\<rparr>)"
| ls_stop: "lg_Stop_begin (ls_l s) = Some l \<Longrightarrow> ls_step process_group s (s\<lparr>ls_l := l\<rparr>)"
| ls_enter: "ls_pc s = LgTop \<Longrightarrow> lg_again (ls_l s) \<Longrightarrow> ls_step process_group s (s\<lparr>ls_pc := LgIn\<rparr>)"
| ls_timeout: "ls_pc s = LgIn \<Longrightarrow> lg_waits (ls_l s) \<Longrightarrow> ls_step process_group s (s\<lparr>ls_l := lg_timeout (ls_l s)\<rparr>)"
| ls_swap: "ls_pc s = LgIn \<Longrightarrow> \<not> lg_waits (ls_l s) \<Longrightarrow>
    ls_step process_group s (s\<lparr>ls_l := lg_swap (ls_l s), ls_pc := LgWriting, ls_swaps := ls_swaps s + 1\<rparr>)"
| ls_write_out: "ls_pc s = LgWriting \<Longrightarrow> ls_step process_group s (s\<lparr>ls_l := lg_write_out process_group (ls_l s), ls_pc := LgWritten\<rparr>)"
| ls_turn: "ls_pc s = LgWritten \<Longrightarrow> ls_step process_group s (s\<lparr>ls_l := lg_turn_end (ls_l s), ls_pc := LgTop\<rparr>)"
| ls_end: "ls_pc s = LgTop \<Longrightarrow> \<not> lg_again (ls_l s) \<Longrightarrow> ls_step process_group s (s\<lparr>ls_pc := LgEnded\<rparr>)"

section \<open>What the steps keep\<close>

definition lines_ok :: "string \<Rightarrow> logging \<Rightarrow> bool" where
  "lines_ok g s \<longleftrightarrow> (\<exists>ws. lg_out (ls_l s) = map (lg_line g) ws
      \<and> ls_accepted s = ws @ lb_messages (lg_flushing (ls_l s)) @ lb_messages (lg_active (ls_l s)))
     \<and> (ls_pc s \<noteq> LgWriting \<longrightarrow> lg_flushing (ls_l s) = lb_new)"

definition thread_ok :: "logging \<Rightarrow> bool" where
  "thread_ok s \<longleftrightarrow> (ls_pc s = LgEnded \<longrightarrow> lg_run_state (ls_l s) = STOPPED \<and> \<not> lb_needs_flush_or_write (lg_active (ls_l s)))
     \<and> (ls_pc s = LgNone \<longleftrightarrow> lg_run_state (ls_l s) = INITTED)
     \<and> ls_swaps s = lg_flush_count (ls_l s) + (if ls_pc s = LgWriting \<or> ls_pc s = LgWritten then 1 else 0)
     \<and> lg_flushed (ls_l s) \<le> length (lg_out (ls_l s))"

definition flusher_ok :: "logging \<Rightarrow> nat \<times> nat \<times> nat \<Rightarrow> bool" where
  "flusher_ok s f = (case f of (c, n, k) \<Rightarrow> k \<le> c + 1 \<and> k \<le> ls_swaps s \<and> n \<le> length (ls_accepted s)
     \<and> (ls_swaps s = k \<longrightarrow> lb_flush (lg_active (ls_l s)))
     \<and> (k < ls_swaps s \<longrightarrow> n \<le> length (lg_out (ls_l s)) + length (lb_messages (lg_flushing (ls_l s))))
     \<and> (ls_swaps s = k + 1 \<and> ls_pc s = LgWriting \<longrightarrow> lb_flush (lg_flushing (ls_l s)))
     \<and> (k < ls_swaps s \<and> \<not> (ls_swaps s = k + 1 \<and> ls_pc s = LgWriting) \<longrightarrow> n \<le> lg_flushed (ls_l s)))"

definition flushers_ok :: "logging \<Rightarrow> bool" where
  "flushers_ok s \<longleftrightarrow> (\<forall>t f. ls_flush s t = Some f \<longrightarrow> flusher_ok s f)"

lemmas lg_parts = lg_Start_def lg_Stop_begin_def lg_Write_def lg_Flush_turn_def lg_timeout_def lg_swap_def lg_turn_end_def lb_add_def

lemma lines_ok_step:
  assumes "ls_step g s s'" and "lines_ok g s" and "thread_ok s"
  shows "lines_ok g s'"
  using assms(1)
proof cases
  case (ls_write force ts m)
  then show ?thesis using assms(2) by (auto simp: lines_ok_def lg_parts)
next
  case ls_write_out
  obtain ws where ws: "lg_out (ls_l s) = map (lg_line g) ws"
      "ls_accepted s = ws @ lb_messages (lg_flushing (ls_l s)) @ lb_messages (lg_active (ls_l s))" using assms(2) by (auto simp: lines_ok_def)
  have "lg_out (lg_write_out g (ls_l s)) = map (lg_line g) (ws @ lb_messages (lg_flushing (ls_l s)))"
    "lg_flushing (lg_write_out g (ls_l s)) = lb_new" "lg_active (lg_write_out g (ls_l s)) = lg_active (ls_l s)"
    using ws(1) by (simp_all add: lg_write_out_def lb_clear_def lb_new_def Let_def)
  then show ?thesis using ls_write_out ws(2)
    by (auto simp: lines_ok_def lb_new_def intro!: exI [of _ "ws @ lb_messages (lg_flushing (ls_l s))"])
next
  case ls_swap
  then have "lg_flushing (ls_l s) = lb_new" using assms(2) by (simp add: lines_ok_def)
  then show ?thesis using assms(2) ls_swap by (auto simp: lines_ok_def lg_swap_def lb_new_def)
qed (use assms(2,3) in \<open>auto simp: lines_ok_def thread_ok_def lg_parts split: if_splits\<close>)

lemma thread_ok_step:
  assumes "ls_step g s s'" and "thread_ok s"
  shows "thread_ok s'"
  using assms(1)
proof cases
  case (ls_write force ts m)
  then show ?thesis using assms(2) by (auto simp: thread_ok_def lg_parts lb_needs_flush_or_write_def)
next
  case ls_write_out
  then show ?thesis using assms(2) by (simp add: thread_ok_def lg_write_out_def Let_def)
next
  case ls_end
  then show ?thesis using assms(2) by (cases "lg_run_state (ls_l s)") (auto simp: thread_ok_def lg_again_def)
qed (use assms(2) in \<open>auto simp: thread_ok_def lg_parts lb_needs_flush_or_write_def split: if_splits\<close>)

lemma flusher_ok_step:
  assumes "ls_step g s s'" and "flusher_ok s f" and "lines_ok g s" and "thread_ok s"
  shows "flusher_ok s' f"
proof -
  obtain c n k where f: "f = (c, n, k)" by (cases f)
  have len: "length (ls_accepted s) = length (lg_out (ls_l s)) + length (lb_messages (lg_flushing (ls_l s))) + length (lb_messages (lg_active (ls_l s)))"
    using assms(3) by (auto simp: lines_ok_def)
  show ?thesis using assms(1)
  proof cases
    case (ls_write force ts m)
    then show ?thesis using assms(2) by (auto simp: flusher_ok_def f lg_parts)
  next
    case ls_write_out
    then show ?thesis using assms(2,4) by (auto simp: flusher_ok_def thread_ok_def f lg_write_out_def lb_clear_def Let_def)
  next
    case ls_swap
    moreover from this have "lb_messages (lg_flushing (ls_l s)) = []" using assms(3) by (simp add: lines_ok_def lb_new_def)
    ultimately show ?thesis using assms(2) len by (auto simp: flusher_ok_def f lg_swap_def)
  next
    case (ls_go l)
    then show ?thesis using assms(2,4) by (auto simp: flusher_ok_def thread_ok_def f lg_parts split: if_splits)
  qed (use assms(2) in \<open>auto simp: flusher_ok_def f lg_parts split: if_splits\<close>)
qed

lemma flushers_ok_step:
  assumes "ls_step g s s'" and "flushers_ok s" and "lines_ok g s" and "thread_ok s"
  shows "flushers_ok s'"
proof -
  have old: "ls_flush s t = Some f \<Longrightarrow> flusher_ok s' f" for t f
    using assms(2) flusher_ok_step [OF assms(1) _ assms(3,4)] unfolding flushers_ok_def by blast
  show ?thesis using assms(1)
  proof cases
    case (ls_flush_begin t l)
    have "flusher_ok s' (lg_flush_count (ls_l s), length (ls_accepted s), ls_swaps s)"
      using ls_flush_begin assms(4) by (auto simp: flusher_ok_def thread_ok_def lg_Flush_turn_def split: if_splits)
    then show ?thesis using old ls_flush_begin by (auto simp: flushers_ok_def)
  qed (use old in \<open>auto simp: flushers_ok_def\<close>)
qed

lemma ls_reach_inv: "reach (ls_start m) (ls_step g) s \<Longrightarrow> lines_ok g s \<and> thread_ok s \<and> flushers_ok s"
proof (induction rule: reach.induct)
  case reach_init
  show ?case by (simp add: ls_start_def lg_new_def lines_ok_def thread_ok_def flushers_ok_def lb_new_def)
next
  case (reach_step s s')
  then show ?case using lines_ok_step thread_ok_step flushers_ok_step by blast
qed

text \<open>C29: The log is complete and in order: whatever writers, flushers, time-outs and the thread do and
  when the logger is stopped, what has been written to the files is a prefix of the messages taken,
  in their order, each with its module cut out; and once the thread has ended, all of them are
  written, and the checks of \<open>Stop\<close> hold.\<close>

theorem log_complete_in_order:
  assumes "reach (ls_start m) (ls_step g) s"
  shows "(\<exists>n \<le> length (ls_accepted s). lg_out (ls_l s) = map (lg_line g) (take n (ls_accepted s)))
    \<and> (ls_pc s = LgEnded \<longrightarrow> lg_out (ls_l s) = map (lg_line g) (ls_accepted s) \<and> lg_Stop_end (ls_l s) = Some (ls_l s))"
proof -
  obtain ws where ws: "lg_out (ls_l s) = map (lg_line g) ws"
      "ls_accepted s = ws @ lb_messages (lg_flushing (ls_l s)) @ lb_messages (lg_active (ls_l s))"
    and fl: "ls_pc s \<noteq> LgWriting \<longrightarrow> lg_flushing (ls_l s) = lb_new"
    using ls_reach_inv [OF assms] by (auto simp: lines_ok_def)
  have "ls_pc s = LgEnded \<longrightarrow> lb_messages (lg_active (ls_l s)) = []"
    using ls_reach_inv [OF assms] by (simp add: thread_ok_def lb_needs_flush_or_write_def)
  then show ?thesis using ws fl by (auto simp: lb_new_def lg_Stop_end_def intro!: exI [of _ "length ws"])
qed

text \<open>C28: \<open>Flush\<close> keeps its promise: when a call of it returns and the logger still runs, every message
  taken before the call has been written and flushed to its file, although the thread may have been
  in the middle of an older buffer when the call began - which is why it waits for two turns.\<close>

theorem flush_writes_all:
  assumes "reach (ls_start m) (ls_step g) s" and "ls_flush s t = Some (c, n, k)"
    and "lg_Flush_turn c (ls_l s) = (False, l)" and "lg_run_state (ls_l s) = RUNNING"
  shows "n \<le> lg_flushed (ls_l s) \<and> take n (lg_out (ls_l s)) = map (lg_line g) (take n (ls_accepted s))"
proof -
  have inv: "lines_ok g s" "thread_ok s" "flusher_ok s (c, n, k)" using ls_reach_inv [OF assms(1)] assms(2) by (auto simp: flushers_ok_def)
  have "c + 2 \<le> lg_flush_count (ls_l s)" using assms(3,4) by (auto simp: lg_Flush_turn_def split: if_splits)
  then have n: "n \<le> lg_flushed (ls_l s)" "lg_flushed (ls_l s) \<le> length (lg_out (ls_l s))"
    using inv(2,3) by (auto simp: thread_ok_def flusher_ok_def split: if_splits)
  obtain ws where "lg_out (ls_l s) = map (lg_line g) ws"
      "ls_accepted s = ws @ lb_messages (lg_flushing (ls_l s)) @ lb_messages (lg_active (ls_l s))"
    using inv(1) by (auto simp: lines_ok_def)
  then show ?thesis using n by (simp add: take_map)
qed

text \<open>A run: start, two messages, a call of \<open>Flush\<close>, two turns of the thread.\<close>

definition ex_turn :: "string \<Rightarrow> logging \<Rightarrow> logging" where
  "ex_turn g s = s\<lparr>ls_l := lg_turn_end (lg_write_out g (lg_swap (ls_l s))), ls_pc := LgTop, ls_swaps := ls_swaps s + 1\<rparr>"

lemma ls_turn_reach:
  assumes "reach s0 (ls_step g) s" and "ls_pc s = LgTop" and "lg_again (ls_l s)" and "\<not> lg_waits (ls_l s)"
  shows "reach s0 (ls_step g) (ex_turn g s)"
proof -
  have "reach s0 (ls_step g) (s\<lparr>ls_pc := LgIn\<rparr>)" by (rule reach_step [OF assms(1)]) (rule ls_enter [OF assms(2,3)])
  then have "reach s0 (ls_step g) (s\<lparr>ls_l := lg_swap (ls_l s), ls_pc := LgWriting, ls_swaps := ls_swaps s + 1\<rparr>)"
    by (rule reach_eq) (rule ls_swap, simp_all add: assms(4))
  then have "reach s0 (ls_step g) (s\<lparr>ls_l := lg_write_out g (lg_swap (ls_l s)), ls_pc := LgWritten, ls_swaps := ls_swaps s + 1\<rparr>)"
    by (rule reach_eq) (rule ls_write_out, simp_all)
  then show ?thesis by (rule reach_eq) (rule ls_turn, simp_all add: ex_turn_def)
qed

definition ex_log_1 :: logging where
  "ex_log_1 = (ls_start 0)\<lparr>ls_l := (lg_new 0)\<lparr>lg_run_state := RUNNING\<rparr>, ls_pc := LgTop\<rparr>"
definition ex_log_2 :: logging where
  "ex_log_2 = ex_log_1\<lparr>ls_l := lg_Write False 0 ''I[m] a'' (ls_l ex_log_1), ls_accepted := [\<lparr>lm_ts = 0, lm_text = ''I[m] a'', lm_level = 0\<rparr>]\<rparr>"
definition ex_log_3 :: logging where
  "ex_log_3 = ex_log_2\<lparr>ls_l := snd (lg_Flush_turn 0 (ls_l ex_log_2)), ls_flush := (\<lambda>_. None)(0 \<mapsto> (0, 1, 0))\<rparr>"
definition ex_log_4 :: logging where "ex_log_4 = ex_turn ''g'' ex_log_3"
definition ex_log_5 :: logging where "ex_log_5 = ex_log_4\<lparr>ls_l := snd (lg_Flush_turn 0 (ls_l ex_log_4))\<rparr>"
definition ex_log_6 :: logging where "ex_log_6 = ex_turn ''g'' ex_log_5"

lemmas ex_log_defs = ex_log_1_def ex_log_2_def ex_log_3_def ex_log_4_def ex_log_5_def ex_log_6_def ex_turn_def

lemma ex_log_reach: "reach (ls_start 0) (ls_step ''g'') ex_log_6"
proof -
  have "reach (ls_start 0) (ls_step ''g'') ex_log_1"
    by (rule reach_one) (simp add: ex_log_1_def, rule ls_go, simp add: ls_start_def lg_new_def lg_Start_def)
  then have "reach (ls_start 0) (ls_step ''g'') ex_log_2"
    by (rule reach_eq) (rule ls_write [where force = False and ts = 0 and str = "''I[m] a''"],
      simp add: ex_log_2_def ex_log_1_def ls_start_def lg_new_def lg_BufferFull_def lb_new_def lg_level_def)
  then have "reach (ls_start 0) (ls_step ''g'') ex_log_3"
    by (rule reach_eq) (rule ls_flush_begin [where t = 0], simp_all add: ex_log_3_def ex_log_2_def ex_log_1_def ls_start_def lg_new_def
      lg_Flush_turn_def lg_Write_def lg_BufferFull_def lb_new_def)
  moreover have "ls_pc ex_log_3 = LgTop" "lg_again (ls_l ex_log_3)" "\<not> lg_waits (ls_l ex_log_3)" by code_simp+
  ultimately have "reach (ls_start 0) (ls_step ''g'') ex_log_4" unfolding ex_log_4_def by (rule ls_turn_reach)
  moreover have "ls_flush ex_log_4 0 = Some (0, 1, 0)" "fst (lg_Flush_turn 0 (ls_l ex_log_4))" by code_simp+
  ultimately have "reach (ls_start 0) (ls_step ''g'') ex_log_5"
    unfolding ex_log_5_def by (elim reach_step) (rule ls_flush_again [where t = 0 and c = 0 and n = 1 and k = 0], simp_all add: prod_eq_iff)
  moreover have "ls_pc ex_log_5 = LgTop" "lg_again (ls_l ex_log_5)" "\<not> lg_waits (ls_l ex_log_5)" by code_simp+
  ultimately show ?thesis unfolding ex_log_6_def by (rule ls_turn_reach)
qed

lemma log_complete_in_order_witness:
  "\<exists>n \<le> length (ls_accepted ex_log_6). lg_out (ls_l ex_log_6) = map (lg_line ''g'') (take n (ls_accepted ex_log_6))"
  using log_complete_in_order [OF ex_log_reach] by blast

lemma flush_writes_all_witness:
  "fst (lg_Flush_turn 0 (ls_l ex_log_6)) = False \<and> take 1 (lg_out (ls_l ex_log_6)) = map (lg_line ''g'') (take 1 (ls_accepted ex_log_6))"
proof -
  have "ls_flush ex_log_6 0 = Some (0, 1, 0)" "fst (lg_Flush_turn 0 (ls_l ex_log_6)) = False" "lg_run_state (ls_l ex_log_6) = RUNNING" by code_simp+
  then show ?thesis using flush_writes_all [OF ex_log_reach, of 0 0 1 0 "snd (lg_Flush_turn 0 (ls_l ex_log_6))"] by (simp add: prod_eq_iff)
qed

section \<open>Stopping twice\<close>

text \<open>The destructor calls \<open>Stop\<close>, whose first check fails for a logger that has been stopped already
  or was never started.\<close>

lemma stop_twice_aborts: "lg_Stop_begin l = Some l' \<Longrightarrow> lg_Stop_begin l' = None" and never_started_aborts: "lg_Stop_begin (lg_new m) = None"
  by (auto simp: lg_Stop_begin_def lg_new_def split: if_splits)

end
