(* ===== verification/Log_File.thy ===== *)
theory Log_File
  imports Message_Codec
begin

text \<open>
  The log file of a module (logger/log_file_object.h, log_file_object.cc). Files are a map from paths to
  contents. What the surroundings give to a call of \<open>Write\<close> - the clock, the local time, the host's name,
  the directories, whether a file can be made there and whether the disk is full - is a record. The
  process keeps its id.
\<close>

section \<open>State\<close>

definition kRolloverAttemptFrequency :: u32 where "kRolloverAttemptFrequency = 0x20"

datatype severity = INFO | WARNING | ERROR | FATAL

definition UC_LOG_SEVERITY_NAMES :: "severity \<Rightarrow> string" where
  "UC_LOG_SEVERITY_NAMES s = (case s of INFO \<Rightarrow> ''INFO'' | WARNING \<Rightarrow> ''WARNING'' | ERROR \<Rightarrow> ''ERROR'' | FATAL \<Rightarrow> ''FATAL'')"
definition LC_LOG_SEVERITY_NAMES :: "severity \<Rightarrow> string" where
  "LC_LOG_SEVERITY_NAMES s = (case s of INFO \<Rightarrow> ''info'' | WARNING \<Rightarrow> ''warning'' | ERROR \<Rightarrow> ''error'' | FATAL \<Rightarrow> ''fatal'')"

record log_file =
  lf_base_filename :: string
  lf_base_filepath :: string
  lf_symlink_basename :: string
  lf_filename_extension :: string
  lf_file :: "string option"
  lf_severity :: severity
  lf_bytes_since_flush :: u32
  lf_dropped_mem_length :: u32
  lf_file_length :: u32
  lf_rollover_attempt :: u32
  lf_next_flush_time :: int

text \<open>\<open>stop_writing\<close> is a variable of the module; links are kept apart from files.\<close>

record log_world =
  lw_files :: "string \<Rightarrow> string option"
  lw_links :: "string \<Rightarrow> string option"
  lw_stop_writing :: bool

text \<open>The broken-down local time, with the fields of \<open>struct tm\<close>.\<close>

record tm =
  tm_year :: nat
  tm_mon :: nat
  tm_mday :: nat
  tm_hour :: nat
  tm_min :: nat
  tm_sec :: nat

record log_call =
  lc_now :: int
  lc_tm :: tm
  lc_pid :: nat
  lc_host_name :: string
  lc_max_log_size :: int
  lc_dirs :: "string list"
  lc_writable :: "string \<Rightarrow> bool"
  lc_no_space :: bool

definition MaxLogSize :: "int \<Rightarrow> int" where "MaxLogSize FLAGS_max_log_size = (if FLAGS_max_log_size > 0 then FLAGS_max_log_size else 1)"

definition lf_new :: "severity \<Rightarrow> string \<Rightarrow> log_file" where
  "lf_new severity base_filename =
     \<lparr>lf_base_filename = base_filename, lf_base_filepath = [], lf_symlink_basename = ''UNKNOWN'', lf_filename_extension = [], lf_file = None,
      lf_severity = severity, lf_bytes_since_flush = 0, lf_dropped_mem_length = 0, lf_file_length = 0,
      lf_rollover_attempt = kRolloverAttemptFrequency - 1, lf_next_flush_time = 0\<rparr>"

definition lf_close :: "log_file \<Rightarrow> log_file" where
  "lf_close f = (if lf_file f = None then f else f\<lparr>lf_file := None, lf_rollover_attempt := kRolloverAttemptFrequency - 1\<rparr>)"

definition lf_SetBasename :: "string \<Rightarrow> log_file \<Rightarrow> log_file" where
  "lf_SetBasename name f = (if lf_base_filename f \<noteq> name then (lf_close f)\<lparr>lf_base_filename := name\<rparr> else f)"

definition lf_SetExtension :: "string \<Rightarrow> log_file \<Rightarrow> log_file" where
  "lf_SetExtension ext f = (if lf_filename_extension f \<noteq> ext then (lf_close f)\<lparr>lf_filename_extension := ext\<rparr> else f)"

definition lf_SetSymlinkBasename :: "string \<Rightarrow> log_file \<Rightarrow> log_file" where
  "lf_SetSymlinkBasename name f = f\<lparr>lf_symlink_basename := name\<rparr>"

definition lf_LogSize :: "log_file \<Rightarrow> u32" where "lf_LogSize f = lf_file_length f"

definition lf_FlushUnlocked :: "int \<Rightarrow> log_file \<Rightarrow> log_file" where
  "lf_FlushUnlocked now f = (if lf_file f \<noteq> None then f\<lparr>lf_bytes_since_flush := 0\<rparr> else f)\<lparr>lf_next_flush_time := now + 2000000\<rparr>"

section \<open>Creating a file\<close>

text \<open>\<open>std::setw(2)\<close> with the fill character 0.\<close>

definition setw2 :: "nat \<Rightarrow> string" where "setw2 n = replicate (2 - length (dec n)) (CHR ''0'') @ dec n"

definition lf_time_pid :: "log_call \<Rightarrow> string" where
  "lf_time_pid c = (let t = lc_tm c in dec (1900 + tm_year t) @ setw2 (1 + tm_mon t) @ setw2 (tm_mday t) @ ''-''
     @ setw2 (tm_hour t) @ setw2 (tm_min t) @ setw2 (tm_sec t) @ ''.'' @ dec (lc_pid c))"

definition lf_header :: "log_call \<Rightarrow> string" where
  "lf_header c = (let t = lc_tm c in ''Log file created at: '' @ dec (1900 + tm_year t) @ ''/'' @ setw2 (1 + tm_mon t) @ ''/''
     @ setw2 (tm_mday t) @ '' '' @ setw2 (tm_hour t) @ '':'' @ setw2 (tm_min t) @ '':'' @ setw2 (tm_sec t) @ [CHR 0x0A]
     @ ''Running on machine: '' @ lc_host_name c @ [CHR 0x0A]
     @ ''Log line format: [IWEF]mmdd hh:mm:ss.uuuuuu threadid file:line] msg'' @ [CHR 0x0A])"

definition path_base :: "string \<Rightarrow> string" where "path_base p = rev (takeWhile (\<lambda>c. c \<noteq> CHR ''/'') (rev p))"

definition path_dir :: "string \<Rightarrow> string" where
  "path_dir p = (if CHR ''/'' \<in> set p
     then (let d = rev (dropWhile (\<lambda>c. c = CHR ''/'') (dropWhile (\<lambda>c. c \<noteq> CHR ''/'') (rev p))) in if d = [] then ''/'' else d) else ''.'')"

definition lf_CreateLogfile :: "string \<Rightarrow> (string \<Rightarrow> bool) \<Rightarrow> log_file \<times> log_world \<Rightarrow> bool \<times> log_file \<times> log_world" where
  "lf_CreateLogfile time_pid_string writable fw = (case fw of (f, w) \<Rightarrow>
     (let filename = lf_base_filepath f @ lf_filename_extension f @ time_pid_string in
      if lw_files w filename \<noteq> None \<or> \<not> writable filename then (False, f, w)
      else (let f = f\<lparr>lf_file := Some filename\<rparr>; w = w\<lparr>lw_files := (lw_files w)(filename \<mapsto> [])\<rparr> in
        if lf_symlink_basename f = [] then (True, f, w)
        else (let link = lf_symlink_basename f @ ''.'' @ UC_LOG_SEVERITY_NAMES (lf_severity f);
                  link_path = (if path_dir filename \<noteq> ''.'' then path_dir filename @ ''/'' @ link else link) in
              (True, f, w\<lparr>lw_links := (lw_links w)(link_path \<mapsto> path_base filename)\<rparr>)))))"

fun lf_try_dirs :: "string list \<Rightarrow> string \<Rightarrow> (string \<Rightarrow> bool) \<Rightarrow> log_file \<times> log_world \<Rightarrow> bool \<times> log_file \<times> log_world" where
  "lf_try_dirs [] time_pid_string writable (f, w) = (False, f, w)"
| "lf_try_dirs (dir # dirs) time_pid_string writable (f, w) =
     (let stripped_filename = lf_base_filename f @ ''.log.'' @ LC_LOG_SEVERITY_NAMES (lf_severity f) @ ''.'';
          f = f\<lparr>lf_base_filepath := dir @ ''/'' @ stripped_filename\<rparr>;
          (ok, f, w) = lf_CreateLogfile time_pid_string writable (f, w) in
      if ok then (True, f, w) else lf_try_dirs dirs time_pid_string writable (f, w))"

section \<open>Writing\<close>

definition lw_append :: "string \<Rightarrow> string \<Rightarrow> log_world \<Rightarrow> log_world" where
  "lw_append path s w = w\<lparr>lw_files := (lw_files w)(path := map_option (\<lambda>c. c @ s) (lw_files w path))\<rparr>"

definition lf_grow :: "nat \<Rightarrow> log_file \<Rightarrow> log_file" where
  "lf_grow n f = f\<lparr>lf_file_length := lf_file_length f + of_nat n, lf_bytes_since_flush := lf_bytes_since_flush f + of_nat n\<rparr>"

text \<open>The first part of \<open>Write\<close>: a file that is too long is closed.\<close>

definition lf_rollover :: "int \<Rightarrow> log_file \<Rightarrow> log_file" where
  "lf_rollover FLAGS_max_log_size f =
     (if int (unat (drop_bit 20 (lf_file_length f))) \<ge> MaxLogSize FLAGS_max_log_size
      then f\<lparr>lf_file := None, lf_file_length := 0, lf_bytes_since_flush := 0, lf_dropped_mem_length := 0,
             lf_rollover_attempt := kRolloverAttemptFrequency - 1\<rparr> else f)"

text \<open>The second: without a file one is made, on every 32nd attempt, with a header. \<open>False\<close> is a return.\<close>

definition lf_ensure_file :: "log_call \<Rightarrow> log_file \<times> log_world \<Rightarrow> bool \<times> log_file \<times> log_world" where
  "lf_ensure_file c fw = (case fw of (f, w) \<Rightarrow>
     if lf_file f \<noteq> None then (True, f, w)
     else (let f = f\<lparr>lf_rollover_attempt := lf_rollover_attempt f + 1\<rparr> in
       if lf_rollover_attempt f \<noteq> kRolloverAttemptFrequency then (False, f, w)
       else (let f = f\<lparr>lf_rollover_attempt := 0\<rparr>; (ok, f, w) = lf_try_dirs (lc_dirs c) (lf_time_pid c) (lc_writable c) (f, w) in
         if \<not> ok then (False, f, w)
         else (True, lf_grow (length (lf_header c)) f, lw_append (the (lf_file f)) (lf_header c) w))))"

text \<open>The third: the message and perhaps a flush. A message that does not fit on the disk leaves no trace.\<close>

definition lf_put :: "log_call \<Rightarrow> bool \<Rightarrow> string \<Rightarrow> log_file \<times> log_world \<Rightarrow> log_file \<times> log_world" where
  "lf_put c force_flush message fw = (case fw of (f, w) \<Rightarrow>
     if lw_stop_writing w then (f, if lc_now c \<ge> lf_next_flush_time f then w\<lparr>lw_stop_writing := False\<rparr> else w)
     else if lc_no_space c then (f, w\<lparr>lw_stop_writing := True\<rparr>)
     else (let w = lw_append (the (lf_file f)) message w; f = lf_grow (length message) f in
       (if force_flush \<or> lf_bytes_since_flush f \<ge> 1000000 \<or> lc_now c \<ge> lf_next_flush_time f then lf_FlushUnlocked (lc_now c) f else f, w)))"

definition lf_Write :: "log_call \<Rightarrow> bool \<Rightarrow> string \<Rightarrow> log_file \<times> log_world \<Rightarrow> log_file \<times> log_world" where
  "lf_Write c force_flush message fw = (case fw of (f, w) \<Rightarrow>
     if lf_base_filename f = [] then (f, w)
     else (let (ok, f, w) = lf_ensure_file c (lf_rollover (lc_max_log_size c) f, w) in
       if ok then lf_put c force_flush message (f, w) else (f, w)))"

section \<open>A file that grows\<close>

text \<open>The length the object keeps is that of its file, and below \<open>bound\<close>.\<close>

definition lf_len :: "nat \<Rightarrow> log_file \<times> log_world \<Rightarrow> bool" where
  "lf_len bound fw \<longleftrightarrow> (case lf_file (fst fw) of None \<Rightarrow> lf_file_length (fst fw) = 0
     | Some p \<Rightarrow> \<exists>s. lw_files (snd fw) p = Some s \<and> length s = unat (lf_file_length (fst fw)) \<and> length s < bound)"

lemma lf_rollover_len:
  assumes "lf_len b (f, w)" and "1 \<le> m" and "m \<le> 4095"
  shows "lf_len (nat m * 2 ^ 20) (lf_rollover m f, w)"
proof (cases "lf_rollover m f = f")
  case True
  have "unat (drop_bit 20 (lf_file_length f)) = unat (lf_file_length f) div 2 ^ 20" by (simp add: drop_bit_eq_div unat_div)
  moreover have "lf_file_length f = 0 \<or> \<not> m \<le> int (unat (drop_bit 20 (lf_file_length f)))"
  proof (rule ccontr)
    assume "\<not> ?thesis"
    then have "lf_rollover m f = f\<lparr>lf_file := None, lf_file_length := 0, lf_bytes_since_flush := 0, lf_dropped_mem_length := 0,
        lf_rollover_attempt := kRolloverAttemptFrequency - 1\<rparr>" "lf_file_length f \<noteq> 0"
      using assms(2) by (simp_all add: lf_rollover_def MaxLogSize_def)
    then show False using arg_cong [OF True, of lf_file_length] by simp
  qed
  ultimately have "lf_file_length f = 0 \<or> unat (lf_file_length f) div 2 ^ 20 < nat m" by linarith
  then have "unat (lf_file_length f) < nat m * 2 ^ 20" using assms(2) by (auto simp: div_less_iff_less_mult)
  then show ?thesis using assms(1) True by (auto simp: lf_len_def split: option.splits)
next
  case False
  then show ?thesis by (auto simp: lf_rollover_def lf_len_def split: if_splits)
qed

lemma lf_grow_len:
  assumes "lf_len b (f, w)" and "lf_file f = Some p" and "b + length s \<le> 2 ^ 32"
  shows "lf_len (b + length s) (lf_grow (length s) f, lw_append p s w)"
proof -
  obtain c where c: "lw_files w p = Some c" "length c = unat (lf_file_length f)" "length c < b" using assms(1,2) by (auto simp: lf_len_def)
  have "unat (lf_file_length f + of_nat (length s)) = length c + length s"
    using c assms(3) by (simp add: unat_word_ariths unat_of_nat)
  then show ?thesis using c assms(2) by (simp add: lf_len_def lf_grow_def lw_append_def)
qed

lemma lf_CreateLogfile_result:
  "lf_CreateLogfile t wr (f, w) = (ok, f', w') \<Longrightarrow>
    (ok \<longrightarrow> (\<exists>p. lf_file f' = Some p \<and> lw_files w' p = Some [])) \<and> (\<not> ok \<longrightarrow> f' = f \<and> w' = w)
     \<and> lf_file_length f' = lf_file_length f \<and> lf_base_filename f' = lf_base_filename f"
  by (auto simp: lf_CreateLogfile_def Let_def split: if_splits)

lemma lf_try_dirs_result:
  "lf_try_dirs ds t wr (f, w) = (ok, f', w') \<Longrightarrow>
    (ok \<longrightarrow> (\<exists>p. lf_file f' = Some p \<and> lw_files w' p = Some [])) \<and> (\<not> ok \<longrightarrow> lf_file f' = lf_file f \<and> w' = w)
     \<and> lf_file_length f' = lf_file_length f \<and> lf_base_filename f' = lf_base_filename f"
proof (induction ds arbitrary: f w)
  case (Cons d ds)
  let ?f = "f\<lparr>lf_base_filepath := d @ ''/'' @ lf_base_filename f @ ''.log.'' @ LC_LOG_SEVERITY_NAMES (lf_severity f) @ ''.''\<rparr>"
  obtain ok1 f1 w1 where c: "lf_CreateLogfile t wr (?f, w) = (ok1, f1, w1)" by (cases "lf_CreateLogfile t wr (?f, w)") auto
  note r = lf_CreateLogfile_result [OF c]
  show ?case
  proof (cases ok1)
    case True
    then show ?thesis using Cons.prems c r by (auto simp: Let_def)
  next
    case False
    then have "lf_try_dirs ds t wr (?f, w) = (ok, f', w')" using Cons.prems c r by (simp add: Let_def)
    then show ?thesis using Cons.IH [of ?f w] by simp
  qed
qed simp

lemma lf_ensure_len:
  assumes "lf_len b (f, w)" and "lf_ensure_file c (f, w) = (ok, f', w')" and "1 \<le> b" and "b + length (lf_header c) \<le> 2 ^ 32"
  shows "lf_len (b + length (lf_header c)) (f', w') \<and> (ok \<longrightarrow> lf_file f' \<noteq> None) \<and> (\<not> ok \<longrightarrow> lf_file f' = None \<and> w' = w)"
proof (cases "lf_file f")
  case (Some p)
  then show ?thesis using assms(1,2) by (auto simp: lf_ensure_file_def lf_len_def)
next
  case None
  let ?f = "f\<lparr>lf_rollover_attempt := lf_rollover_attempt f + 1\<rparr>"
  show ?thesis
  proof (cases "lf_rollover_attempt ?f = kRolloverAttemptFrequency")
    case True
    obtain ok1 f1 w1 where d: "lf_try_dirs (lc_dirs c) (lf_time_pid c) (lc_writable c) (?f\<lparr>lf_rollover_attempt := 0\<rparr>, w) = (ok1, f1, w1)"
      by (cases "lf_try_dirs (lc_dirs c) (lf_time_pid c) (lc_writable c) (?f\<lparr>lf_rollover_attempt := 0\<rparr>, w)") auto
    note r = lf_try_dirs_result [OF d]
    have z: "lf_file_length f1 = 0" using r assms(1) None by (simp add: lf_len_def)
    show ?thesis
    proof (cases ok1)
      case ok1: True
      then obtain p where p: "lf_file f1 = Some p" "lw_files w1 p = Some []" using r by blast
      then have "lf_len b (f1, w1)" using z assms(3) by (simp add: lf_len_def)
      from lf_grow_len [OF this p(1) assms(4)] show ?thesis
        using assms(2) None True d ok1 p(1) by (auto simp: lf_ensure_file_def Let_def lf_grow_def)
    next
      case False
      then show ?thesis using assms(2) None True d r z by (auto simp: lf_ensure_file_def Let_def lf_len_def)
    qed
  next
    case False
    then show ?thesis using assms(1,2) None by (auto simp: lf_ensure_file_def lf_len_def Let_def)
  qed
qed

lemma lf_put_len:
  assumes "lf_len b (f, w)" and "lf_file f \<noteq> None" and "b + length m \<le> 2 ^ 32"
  shows "lf_len (b + length m) (lf_put c force m (f, w))"
proof -
  obtain p where p: "lf_file f = Some p" using assms(2) by auto
  have "lf_len (b + length m) (f, w)" using assms(1) by (auto simp: lf_len_def split: option.splits)
  then have "lf_len (b + length m) (f, w\<lparr>lw_stop_writing := x\<rparr>)" for x by (auto simp: lf_len_def split: option.splits)
  moreover have "lf_len (b + length m) (lf_grow (length m) f, lw_append p m w)" by (rule lf_grow_len [OF assms(1) p assms(3)])
  moreover from this have "lf_len (b + length m) (lf_FlushUnlocked n (lf_grow (length m) f), lw_append p m w)" for n
    by (auto simp: lf_len_def lf_FlushUnlocked_def split: option.splits)
  ultimately show ?thesis using \<open>lf_len (b + length m) (f, w)\<close> p by (auto simp: lf_put_def Let_def)
qed

lemma lf_Write_len:
  assumes "lf_len b (f, w)" and "1 \<le> lc_max_log_size c" and "lc_max_log_size c \<le> 4095" and "length (lf_header c) + length m \<le> 2 ^ 20"
    and "b \<le> B" and "nat (lc_max_log_size c) * 2 ^ 20 + (length (lf_header c) + length m) \<le> B"
  shows "lf_len B (lf_Write c force m (f, w))"
proof (cases "lf_base_filename f = []")
  case True
  then show ?thesis using assms(1,5) by (auto simp: lf_Write_def lf_len_def split: option.splits)
next
  case False
  let ?k = "nat (lc_max_log_size c) * 2 ^ 20"
  obtain ok f' w' where e: "lf_ensure_file c (lf_rollover (lc_max_log_size c) f, w) = (ok, f', w')"
    by (cases "lf_ensure_file c (lf_rollover (lc_max_log_size c) f, w)") auto
  have "nat (lc_max_log_size c) \<le> 4095" using assms(3) by simp
  then have fits: "?k + length (lf_header c) \<le> 2 ^ 32" "?k + length (lf_header c) + length m \<le> 2 ^ 32" using assms(4) by simp_all
  have r: "lf_len (?k + length (lf_header c)) (f', w')" "ok \<longrightarrow> lf_file f' \<noteq> None"
    using lf_ensure_len [OF lf_rollover_len [OF assms(1-3)] e _ fits(1)] assms(2) by simp_all
  have "lf_len B (f', w')" using r(1) assms(6) by (auto simp: lf_len_def split: option.splits)
  moreover have "ok \<Longrightarrow> lf_len B (lf_put c force m (f', w'))"
    using lf_put_len [OF r(1) _ fits(2), of c force] r(2) assms(6) by (auto simp: lf_len_def split: option.splits)
  ultimately show ?thesis using False e by (simp add: lf_Write_def)
qed

text \<open>The calls of \<open>Write\<close> in their order.\<close>

definition lf_writes :: "(log_call \<times> bool \<times> string) list \<Rightarrow> log_file \<times> log_world \<Rightarrow> log_file \<times> log_world" where
  "lf_writes calls fw = fold (\<lambda>(c, force, m). lf_Write c force m) calls fw"

definition lf_call_fits :: "int \<Rightarrow> nat \<Rightarrow> log_call \<times> bool \<times> string \<Rightarrow> bool" where
  "lf_call_fits mx l call \<longleftrightarrow> lc_max_log_size (fst call) = mx \<and> length (lf_header (fst call)) + length (snd (snd call)) \<le> l"

lemma lf_writes_len:
  "lf_len b fw \<Longrightarrow> 1 \<le> mx \<Longrightarrow> mx \<le> 4095 \<Longrightarrow> l \<le> 2 ^ 20 \<Longrightarrow> list_all (lf_call_fits mx l) calls \<Longrightarrow> b \<le> nat mx * 2 ^ 20 + l
    \<Longrightarrow> lf_len (nat mx * 2 ^ 20 + l) (lf_writes calls fw)"
proof (induction calls arbitrary: b fw)
  case Nil
  then show ?case by (auto simp: lf_len_def lf_writes_def split: option.splits)
next
  case (Cons call calls)
  obtain c force m where call: "call = (c, force, m)" by (cases call)
  have "lf_len (nat mx * 2 ^ 20 + l) (lf_Write c force m fw)"
    using lf_Write_len [of b "fst fw" "snd fw" c m "nat mx * 2 ^ 20 + l" force] Cons.prems call by (simp add: lf_call_fits_def)
  then show ?case using Cons call by (simp add: lf_writes_def)
qed

text \<open>The log file is bounded and its length known: for a limit of 1 to 4095 megabytes and any
  sequence of calls of \<open>Write\<close>, with disks that fill up, directories that cannot be written to and
  files made anew, the object's \<open>uint32_t\<close> length is that of the file it has open, and the file never
  exceeds the limit by more than a header and a message.\<close>

theorem log_file_bounded:
  assumes "1 \<le> mx" and "mx \<le> 4095" and "l \<le> 2 ^ 20" and "list_all (lf_call_fits mx l) calls"
  shows "case lf_writes calls (lf_new sev name, w) of (f, w') \<Rightarrow> (case lf_file f of None \<Rightarrow> lf_LogSize f = 0
     | Some p \<Rightarrow> \<exists>s. lw_files w' p = Some s \<and> length s = unat (lf_LogSize f) \<and> length s < nat mx * 2 ^ 20 + l)"
proof -
  have "lf_len 0 (lf_new sev name, w)" by (simp add: lf_len_def lf_new_def)
  from lf_writes_len [OF this assms] show ?thesis unfolding lf_len_def lf_LogSize_def case_prod_unfold by simp
qed

section \<open>A file that cannot be made\<close>

definition lf_path :: "string \<Rightarrow> log_file \<Rightarrow> log_call \<Rightarrow> string" where
  "lf_path dir f c = dir @ ''/'' @ (lf_base_filename f @ ''.log.'' @ LC_LOG_SEVERITY_NAMES (lf_severity f) @ ''.'')
     @ lf_filename_extension f @ lf_time_pid c"

lemma lf_try_dirs_exists:
  "list_all (\<lambda>d. lw_files w (lf_path d f c) \<noteq> None) ds \<Longrightarrow>
    \<exists>p. lf_try_dirs ds (lf_time_pid c) wr (f, w) = (False, f\<lparr>lf_base_filepath := p\<rparr>, w)"
proof (induction ds arbitrary: f)
  case Nil
  then show ?case by (auto intro: exI [of _ "lf_base_filepath f"])
next
  case (Cons d ds)
  let ?f = "f\<lparr>lf_base_filepath := d @ ''/'' @ lf_base_filename f @ ''.log.'' @ LC_LOG_SEVERITY_NAMES (lf_severity f) @ ''.''\<rparr>"
  have "lf_CreateLogfile (lf_time_pid c) wr (?f, w) = (False, ?f, w)" using Cons.prems by (simp add: lf_CreateLogfile_def lf_path_def Let_def)
  moreover have "lf_path x ?f c = lf_path x f c" for x by (simp add: lf_path_def)
  ultimately show ?case using Cons.IH [of ?f] Cons.prems by (auto simp: Let_def)
qed

lemma lf_idle_writes:
  "lf_file f = None \<Longrightarrow> lf_file_length f = 0 \<Longrightarrow> unat (lf_rollover_attempt f) + length calls < 32 \<Longrightarrow>
    \<exists>f'. lf_writes calls (f, w) = (f', w) \<and> lf_file f' = None"
proof (induction calls arbitrary: f)
  case Nil
  then show ?case by (simp add: lf_writes_def)
next
  case (Cons call calls)
  obtain c force m where call: "call = (c, force, m)" by (cases call)
  let ?f = "f\<lparr>lf_rollover_attempt := lf_rollover_attempt f + 1\<rparr>"
  have a: "unat (lf_rollover_attempt f + 1) = unat (lf_rollover_attempt f) + 1" using Cons.prems(3) by (simp add: unat_word_ariths)
  have "lf_rollover mx f = f" for mx using Cons.prems(2) by (simp add: lf_rollover_def MaxLogSize_def)
  moreover have "lf_rollover_attempt f + 1 \<noteq> 0x20" using a Cons.prems(3) by auto
  ultimately have "lf_Write c force m (f, w) = (if lf_base_filename f = [] then f else ?f, w)"
    using Cons.prems(1) by (simp add: lf_Write_def lf_ensure_file_def kRolloverAttemptFrequency_def Let_def)
  moreover have "\<exists>f'. lf_writes calls (f, w) = (f', w) \<and> lf_file f' = None" using Cons.IH [of f] Cons.prems by simp
  moreover have "\<exists>f'. lf_writes calls (?f, w) = (f', w) \<and> lf_file f' = None" using Cons.IH [of ?f] Cons.prems a by simp
  ultimately show ?case using call by (simp add: lf_writes_def)
qed

text \<open>What a roll-over within one second costs: the new file's name is made of the time in seconds and
  the process id, so when the limit is reached and files of that name exist already in the
  directories, no file can be made; the message is lost and so are the next 31, whenever they come,
  since only every 32nd call tries again - the world is as it was.\<close>

theorem same_second_rollover_loses:
  assumes "lf_base_filename f \<noteq> []" and "1 \<le> lc_max_log_size c" and "lc_max_log_size c \<le> int (unat (lf_LogSize f)) div 2 ^ 20"
    and "list_all (\<lambda>d. lw_files w (lf_path d f c) \<noteq> None) (lc_dirs c)" and "length calls \<le> 31"
  shows "\<exists>f'. lf_writes ((c, force, m) # calls) (f, w) = (f', w) \<and> lf_file f' = None"
proof -
  let ?r = "f\<lparr>lf_file := None, lf_file_length := 0, lf_bytes_since_flush := 0, lf_dropped_mem_length := 0, lf_rollover_attempt := 0\<rparr>"
  have "int (unat (drop_bit 20 (lf_file_length f))) = int (unat (lf_LogSize f)) div 2 ^ 20"
    by (simp add: lf_LogSize_def drop_bit_eq_div unat_div zdiv_int)
  then have roll: "lf_rollover (lc_max_log_size c) f = ?r\<lparr>lf_rollover_attempt := 31\<rparr>"
    using assms(2,3) by (simp add: lf_rollover_def MaxLogSize_def kRolloverAttemptFrequency_def)
  have "lf_path d ?r c = lf_path d f c" for d by (simp add: lf_path_def)
  then obtain p where "lf_try_dirs (lc_dirs c) (lf_time_pid c) (lc_writable c) (?r, w) = (False, ?r\<lparr>lf_base_filepath := p\<rparr>, w)"
    using lf_try_dirs_exists [of w ?r c "lc_dirs c" "lc_writable c"] assms(4) by auto
  then have "lf_Write c force m (f, w) = (?r\<lparr>lf_base_filepath := p\<rparr>, w)"
    using assms(1) roll by (simp add: lf_Write_def lf_ensure_file_def kRolloverAttemptFrequency_def Let_def)
  then show ?thesis using lf_idle_writes [of "?r\<lparr>lf_base_filepath := p\<rparr>" calls w] assms(5) by (simp add: lf_writes_def)
qed

text \<open>The name of a file is not part of what a close resets: after \<open>SetBasename\<close> the next file starts with
  the old one's length.\<close>

lemma SetBasename_keeps_length: "lf_LogSize (lf_SetBasename name f) = lf_LogSize f"
  by (simp add: lf_SetBasename_def lf_close_def lf_LogSize_def)

text \<open>From 4096 megabytes on no file is ever closed, since the length is counted in 32 bits.\<close>

lemma large_limit_never_rolls: "4096 \<le> mx \<Longrightarrow> lf_rollover mx f = f"
proof -
  assume "4096 \<le> mx"
  moreover have "unat (lf_file_length f) < 2 ^ 32" using unsigned_less [of "lf_file_length f"] by simp
  then have "unat (drop_bit 20 (lf_file_length f)) < 4096" by (simp add: drop_bit_eq_div unat_div less_mult_imp_div_less)
  ultimately have "\<not> mx \<le> int (unat (drop_bit 20 (lf_file_length f)))" "MaxLogSize mx = mx" by (linarith, simp add: MaxLogSize_def)
  then show ?thesis unfolding lf_rollover_def by (simp only: if_False)
qed

text \<open>An instance: one directory, a file made, and then one that is full.\<close>

definition ex_call :: log_call where
  "ex_call = \<lparr>lc_now = 5, lc_tm = \<lparr>tm_year = 120, tm_mon = 0, tm_mday = 2, tm_hour = 3, tm_min = 4, tm_sec = 5\<rparr>, lc_pid = 9, lc_host_name = ''h'',
     lc_max_log_size = 1, lc_dirs = [''d''], lc_writable = (\<lambda>_. True), lc_no_space = False\<rparr>"
definition ex_files :: log_world where "ex_files = \<lparr>lw_files = (\<lambda>_. None), lw_links = (\<lambda>_. None), lw_stop_writing = False\<rparr>"
definition ex_path :: string where "ex_path = lf_path ''d'' (lf_new INFO ''m'') ex_call"
definition ex_full :: log_file where "ex_full = (lf_new INFO ''m'')\<lparr>lf_file := Some ex_path, lf_file_length := 0x100000\<rparr>"
definition ex_full_files :: log_world where "ex_full_files = ex_files\<lparr>lw_files := (\<lambda>_. None)(ex_path \<mapsto> [])\<rparr>"

lemma log_file_bounded_witness:
  "case lf_writes [(ex_call, False, ''a''), (ex_call, True, ''b'')] (lf_new INFO ''m'', ex_files) of (f, w) \<Rightarrow>
     (case lf_file f of None \<Rightarrow> lf_LogSize f = 0
      | Some p \<Rightarrow> \<exists>s. lw_files w p = Some s \<and> length s = unat (lf_LogSize f) \<and> length s < nat 1 * 2 ^ 20 + 200)"
proof (rule log_file_bounded)
  show "list_all (lf_call_fits 1 200) [(ex_call, False, ''a''), (ex_call, True, ''b'')]" by code_simp
qed simp_all

lemma same_second_rollover_loses_witness:
  "\<exists>f. lf_writes [(ex_call, True, ''b''), (ex_call, True, ''c'')] (ex_full, ex_full_files) = (f, ex_full_files) \<and> lf_file f = None"
proof (rule same_second_rollover_loses)
  show "lf_base_filename ex_full \<noteq> []" by (simp add: ex_full_def lf_new_def)
  show "1 \<le> lc_max_log_size ex_call" by (simp add: ex_call_def)
  show "lc_max_log_size ex_call \<le> int (unat (lf_LogSize ex_full)) div 2 ^ 20" by (simp add: ex_call_def ex_full_def lf_LogSize_def)
  have "lf_path ''d'' ex_full ex_call = ex_path" by (simp add: ex_path_def lf_path_def ex_full_def lf_new_def)
  then show "list_all (\<lambda>d. lw_files ex_full_files (lf_path d ex_full ex_call) \<noteq> None) (lc_dirs ex_call)"
    by (simp add: ex_full_files_def) (simp add: ex_call_def)
qed simp

end
