(* ===== verification/File_Util.thy ===== *)
theory File_Util
  imports Cyber_Prelude "HOL-Library.AList" "HOL-Library.Sublist"
begin

text \<open>
  The file helpers (common/file.h, file.cc). The file system is a tree whose directories list their
  entries in the order \<open>readdir\<close> gives them; there are no links and no other processes, a trailing slash
  is ignored, and \<open>fs_denied\<close> are the places the system refuses to change. Reading and writing the
  text and binary forms of a message is the protobuf library's: its parsers and printers are
  arguments. \<open>None\<close> is undefined behaviour, and for a copy also that the fuel, the depth of the
  directories, has run out.
\<close>

section \<open>The file system\<close>

datatype fnode = FFile (fn_content: string) | FDir (fn_entries: "(string \<times> fnode) list")

record fsys =
  fs_root :: fnode
  fs_cwd :: "string list"
  fs_denied :: "string list \<Rightarrow> bool"

fun fs_find :: "string list \<Rightarrow> fnode \<Rightarrow> fnode option" where
  "fs_find [] n = Some n"
| "fs_find (x # xs) (FFile c) = None"
| "fs_find (x # xs) (FDir es) = (case map_of es x of None \<Rightarrow> None | Some n \<Rightarrow> fs_find xs n)"

text \<open>A new node at a place whose parent is a directory.\<close>

fun fs_set :: "string list \<Rightarrow> fnode \<Rightarrow> fnode \<Rightarrow> fnode" where
  "fs_set [] v n = v"
| "fs_set (x # xs) v (FFile c) = FFile c"
| "fs_set (x # xs) v (FDir es) = (case map_of es x of
     Some n \<Rightarrow> FDir (AList.update x (fs_set xs v n) es)
   | None \<Rightarrow> if xs = [] then FDir (AList.update x v es) else FDir es)"

fun fs_del :: "string list \<Rightarrow> fnode \<Rightarrow> fnode" where
  "fs_del [] n = n"
| "fs_del (x # xs) (FFile c) = FFile c"
| "fs_del (x # xs) (FDir es) = (if xs = [] then FDir (AList.delete x es)
     else case map_of es x of Some n \<Rightarrow> FDir (AList.update x (fs_del xs n) es) | None \<Rightarrow> FDir es)"

text \<open>The parts of a path between its slashes, and the place they lead to from a directory.\<close>

fun path_parts :: "string \<Rightarrow> string \<Rightarrow> string list" where
  "path_parts [] acc = (if acc = [] then [] else [acc])"
| "path_parts (c # cs) acc = (if c = CHR ''/'' then (if acc = [] then path_parts cs [] else acc # path_parts cs [])
     else path_parts cs (acc @ [c]))"

fun fs_walk :: "string list \<Rightarrow> string list \<Rightarrow> fnode \<Rightarrow> string list option" where
  "fs_walk cur [] root = Some cur"
| "fs_walk cur (x # xs) root = (case fs_find cur root of
     Some (FDir es) \<Rightarrow> fs_walk (if x = ''.'' then cur else if x = ''..'' then butlast cur else cur @ [x]) xs root
   | _ \<Rightarrow> None)"

definition fs_start :: "string \<Rightarrow> fsys \<Rightarrow> string list" where
  "fs_start path s = (if path \<noteq> [] \<and> hd path = CHR ''/'' then [] else fs_cwd s)"

definition fs_place :: "string \<Rightarrow> fsys \<Rightarrow> string list option" where
  "fs_place path s = (if path = [] then None else fs_walk (fs_start path s) (path_parts path []) (fs_root s))"

text \<open>\<open>stat\<close>, \<open>mkdir\<close>, \<open>unlink\<close>, and opening a file to read or to write, which empties it.\<close>

definition fs_stat :: "string \<Rightarrow> fsys \<Rightarrow> fnode option" where
  "fs_stat path s = Option.bind (fs_place path s) (\<lambda>l. fs_find l (fs_root s))"

datatype mk_result = MkOk | MkExists | MkFails

definition fs_mkdir :: "string \<Rightarrow> fsys \<Rightarrow> mk_result \<times> fsys" where
  "fs_mkdir path s = (case fs_place path s of None \<Rightarrow> (MkFails, s) | Some l \<Rightarrow>
     if fs_find l (fs_root s) \<noteq> None then (MkExists, s)
     else if fs_denied s l then (MkFails, s)
     else (MkOk, s\<lparr>fs_root := fs_set l (FDir []) (fs_root s)\<rparr>))"

definition fs_unlink :: "string \<Rightarrow> fsys \<Rightarrow> bool \<times> fsys" where
  "fs_unlink path s = (case fs_place path s of None \<Rightarrow> (False, s) | Some l \<Rightarrow>
     (case fs_find l (fs_root s) of
        Some (FFile c) \<Rightarrow> if fs_denied s l then (False, s) else (True, s\<lparr>fs_root := fs_del l (fs_root s)\<rparr>)
      | _ \<Rightarrow> (False, s)))"

definition fs_write :: "string \<Rightarrow> string \<Rightarrow> fsys \<Rightarrow> bool \<times> fsys" where
  "fs_write path content s = (case fs_place path s of None \<Rightarrow> (False, s) | Some l \<Rightarrow>
     (case fs_find l (fs_root s) of
        Some (FDir es) \<Rightarrow> (False, s)
      | _ \<Rightarrow> if fs_denied s l then (False, s) else (True, s\<lparr>fs_root := fs_set l (FFile content) (fs_root s)\<rparr>)))"

text \<open>What a stream reads: a directory can be opened but gives nothing.\<close>

definition fs_read :: "string \<Rightarrow> fsys \<Rightarrow> string option" where
  "fs_read path s = map_option (\<lambda>n. case n of FFile c \<Rightarrow> c | FDir es \<Rightarrow> []) (fs_stat path s)"

section \<open>Names\<close>

definition GetAbsolutePath :: "string \<Rightarrow> string \<Rightarrow> string" where
  "GetAbsolutePath pre relative_path =
     (if relative_path = [] then pre
      else if pre = [] \<or> hd relative_path = CHR ''/'' then relative_path
      else if last pre = CHR ''/'' then pre @ relative_path
      else pre @ ''/'' @ relative_path)"

text \<open>\<open>std::string::rfind\<close> of a character; \<open>None\<close> is \<open>npos\<close>.\<close>

fun str_rfind :: "char \<Rightarrow> string \<Rightarrow> nat \<Rightarrow> nat option" where
  "str_rfind c s 0 = None"
| "str_rfind c s (Suc n) = (if n < length s \<and> s ! n = c then Some n else str_rfind c s n)"

definition GetFileName :: "string \<Rightarrow> bool \<Rightarrow> string" where
  "GetFileName path remove_extension =
     (let start = (case str_rfind (CHR ''/'') path (length path) of None \<Rightarrow> 0 | Some i \<Rightarrow> i + 1);
          end_pos = (if remove_extension
             then (case str_rfind (CHR ''.'') path (length path) of None \<Rightarrow> None | Some e \<Rightarrow> if e < start then None else Some e)
             else None) in
      case end_pos of None \<Rightarrow> drop start path | Some e \<Rightarrow> take (e - start) (drop start path))"

section \<open>Messages in files\<close>

definition SetProtoToASCIIFile :: "('m \<Rightarrow> string) \<Rightarrow> 'm \<Rightarrow> string \<Rightarrow> fsys \<Rightarrow> bool \<times> fsys" where
  "SetProtoToASCIIFile print_text message file_name s = fs_write file_name (print_text message) s"

definition GetProtoFromASCIIFile :: "(string \<Rightarrow> 'm option) \<Rightarrow> string \<Rightarrow> fsys \<Rightarrow> 'm option" where
  "GetProtoFromASCIIFile parse_text file_name s = Option.bind (fs_read file_name s) parse_text"

definition SetProtoToBinaryFile :: "('m \<Rightarrow> string) \<Rightarrow> 'm \<Rightarrow> string \<Rightarrow> fsys \<Rightarrow> bool \<times> fsys" where
  "SetProtoToBinaryFile serialize message file_name s = fs_write file_name (serialize message) s"

definition GetProtoFromBinaryFile :: "(string \<Rightarrow> 'm option) \<Rightarrow> string \<Rightarrow> fsys \<Rightarrow> 'm option" where
  "GetProtoFromBinaryFile parse file_name s = Option.bind (fs_read file_name s) parse"

text \<open>\<open>std::equal\<close> on the reversed extension and the reversed name, which reads past the name's first
  character when the name is a proper end of the extension.\<close>

fun equal_range :: "string \<Rightarrow> string \<Rightarrow> bool option" where
  "equal_range [] ys = Some True"
| "equal_range (x # xs) [] = None"
| "equal_range (x # xs) (y # ys) = (if x = y then equal_range xs ys else Some False)"

definition GetProtoFromFile ::
  "(string \<Rightarrow> 'm option) \<Rightarrow> (string \<Rightarrow> 'm option) \<Rightarrow> string \<Rightarrow> fsys \<Rightarrow> 'm option option" where
  "GetProtoFromFile parse_text parse file_name s = (case equal_range (rev ''.bin'') (rev file_name) of
     None \<Rightarrow> None
   | Some True \<Rightarrow> Some (case GetProtoFromBinaryFile parse file_name s of Some m \<Rightarrow> Some m | None \<Rightarrow> GetProtoFromASCIIFile parse_text file_name s)
   | Some False \<Rightarrow> Some (case GetProtoFromASCIIFile parse_text file_name s of Some m \<Rightarrow> Some m | None \<Rightarrow> GetProtoFromBinaryFile parse file_name s))"

section \<open>Files and directories\<close>

definition GetContent :: "string \<Rightarrow> fsys \<Rightarrow> string option" where "GetContent file_name s = fs_read file_name s"

definition PathExists :: "string \<Rightarrow> fsys \<Rightarrow> bool" where "PathExists path s \<longleftrightarrow> fs_stat path s \<noteq> None"

definition DirectoryExists :: "string \<Rightarrow> fsys \<Rightarrow> bool" where
  "DirectoryExists path s \<longleftrightarrow> (case fs_stat path s of Some (FDir es) \<Rightarrow> True | _ \<Rightarrow> False)"

text \<open>The target is opened, and emptied, before the source is read.\<close>

definition CopyFile :: "string \<Rightarrow> string \<Rightarrow> fsys \<Rightarrow> bool \<times> fsys" where
  "CopyFile from_path to_path s =
     (if fs_read from_path s = None then (False, s)
      else (let (ok, s) = fs_write to_path [] s in
        if \<not> ok then (False, s) else (True, snd (fs_write to_path (the (fs_read from_path s)) s))))"

text \<open>The loop of \<open>EnsureDirectory\<close>: the characters before the index and those from it on.\<close>

fun ensure_loop :: "string \<Rightarrow> string \<Rightarrow> fsys \<Rightarrow> bool \<times> fsys" where
  "ensure_loop pre [] s = (True, s)"
| "ensure_loop pre (c # rest) s =
     (if c = CHR ''/'' then (case fs_mkdir pre s of (MkFails, s) \<Rightarrow> (False, s) | (_, s) \<Rightarrow> ensure_loop (pre @ [c]) rest s)
      else ensure_loop (pre @ [c]) rest s)"

definition EnsureDirectory :: "string \<Rightarrow> fsys \<Rightarrow> bool \<times> fsys" where
  "EnsureDirectory directory_path s =
     (case ensure_loop (take 1 directory_path) (drop 1 directory_path) s of
        (False, s) \<Rightarrow> (False, s)
      | (True, s) \<Rightarrow> (case fs_mkdir directory_path s of (MkFails, s) \<Rightarrow> (False, s) | (_, s) \<Rightarrow> (True, s)))"

definition list_dir :: "string \<Rightarrow> fsys \<Rightarrow> (string \<times> fnode) list option" where
  "list_dir path s = (case fs_stat path s of Some (FDir es) \<Rightarrow> Some es | _ \<Rightarrow> None)"

fun copy_entries ::
  "(string \<Rightarrow> string \<Rightarrow> fsys \<Rightarrow> (bool \<times> fsys) option) \<Rightarrow> string \<Rightarrow> string \<Rightarrow> (string \<times> fnode) list \<Rightarrow> bool \<Rightarrow> fsys \<Rightarrow> (bool \<times> fsys) option"
where
  "copy_entries copy_dir from_path to_path [] ret s = Some (ret, s)"
| "copy_entries copy_dir from_path to_path (e # es) ret s =
     (let sub_path_from = from_path @ ''/'' @ fst e; sub_path_to = to_path @ ''/'' @ fst e in
      do { (ok, s) \<leftarrow> (case snd e of FDir _ \<Rightarrow> copy_dir sub_path_from sub_path_to s | FFile _ \<Rightarrow> Some (CopyFile sub_path_from sub_path_to s));
           copy_entries copy_dir from_path to_path es (ret \<and> ok) s })"

fun CopyDir :: "nat \<Rightarrow> string \<Rightarrow> string \<Rightarrow> fsys \<Rightarrow> (bool \<times> fsys) option" where
  "CopyDir 0 from_path to_path s = None"
| "CopyDir (Suc n) from_path to_path s =
     (if list_dir from_path s = None then Some (False, s)
      else (let (ok, s) = EnsureDirectory to_path s in
        if ok then copy_entries (CopyDir n) from_path to_path (the (list_dir from_path s)) True s else Some (False, s)))"

definition Copy :: "nat \<Rightarrow> string \<Rightarrow> string \<Rightarrow> fsys \<Rightarrow> (bool \<times> fsys) option" where
  "Copy n from_path to_path s = (if DirectoryExists from_path s then CopyDir n from_path to_path s else Some (CopyFile from_path to_path s))"

fun remove_loop :: "string \<Rightarrow> (string \<times> fnode) list \<Rightarrow> fsys \<Rightarrow> bool \<times> fsys" where
  "remove_loop path [] s = (True, s)"
| "remove_loop path (e # es) s = (let (ok, s) = fs_unlink (path @ ''/'' @ fst e) s in
     if ok then remove_loop path es s else (False, s))"

definition RemoveAllFiles :: "string \<Rightarrow> fsys \<Rightarrow> bool \<times> fsys" where
  "RemoveAllFiles directory_path s = (case list_dir directory_path s of None \<Rightarrow> (False, s) | Some es \<Rightarrow> remove_loop directory_path es s)"

definition ListSubPaths :: "string \<Rightarrow> bool \<Rightarrow> fsys \<Rightarrow> string list" where
  "ListSubPaths directory_path dirs s = (case list_dir directory_path s of None \<Rightarrow> []
     | Some es \<Rightarrow> map fst (filter (\<lambda>e. (case snd e of FDir _ \<Rightarrow> dirs | FFile _ \<Rightarrow> \<not> dirs)) es))"

definition GetCurrentPath :: "fsys \<Rightarrow> string" where
  "GetCurrentPath s = (if fs_cwd s = [] then ''/'' else concat (map (\<lambda>x. CHR ''/'' # x) (fs_cwd s)))"

section \<open>Places in the tree\<close>

lemma fs_find_append: "fs_find (xs @ ys) n = Option.bind (fs_find xs n) (fs_find ys)"
  by (induction xs n rule: fs_find.induct) (auto split: option.splits)

lemma map_of_AList_update [simp]: "map_of (AList.update k v es) = (map_of es)(k \<mapsto> v)"
  by (rule update_conv')

lemma AList_update_new: "k \<notin> fst ` set es \<Longrightarrow> AList.update k v es = es @ [(k, v)]"
  by (induction es) auto

lemma AList_update_twice [simp]: "AList.update k v (AList.update k v' es) = AList.update k v es"
  by (induction es) auto

lemma map_of_None_iff: "map_of es x = None \<longleftrightarrow> x \<notin> fst ` set es"
  by (induction es) auto

lemma fs_find_set: "fs_find p n = Some (FDir es) \<Longrightarrow> fs_find (p @ x # ys) (fs_set (p @ [x]) v n) = fs_find ys v"
proof (induction p arbitrary: n)
  case Nil
  then show ?case by (auto split: option.splits)
next
  case (Cons y p)
  then show ?case by (cases n) (auto split: option.splits)
qed

lemma fs_find_set_parallel: "l \<parallel> q \<Longrightarrow> fs_find l (fs_set q v n) = fs_find l n"
proof (induction q arbitrary: l n)
  case (Cons x q)
  show ?case
  proof (cases l)
    case (Cons y l')
    then show ?thesis using Cons.prems Cons.IH [of l'] by (cases n) (auto simp: parallel_def split: option.splits)
  qed (use Cons.prems in simp)
qed simp

lemma fs_set_set: "fs_set l v (fs_set l v' n) = fs_set l v n"
  by (induction l n rule: fs_find.induct) (auto split: option.splits)

lemma fs_set_add:
  "fs_find p n = Some (FDir es) \<Longrightarrow> y \<notin> fst ` set es' \<Longrightarrow>
    fs_set ((p @ [x]) @ [y]) v (fs_set (p @ [x]) (FDir es') n) = fs_set (p @ [x]) (FDir (es' @ [(y, v)])) n"
proof (induction p arbitrary: n)
  case Nil
  then have "n = FDir es" "map_of es' y = None" "AList.update y v es' = es' @ [(y, v)]" by (simp_all add: map_of_None_iff AList_update_new)
  then show ?case by (auto split: option.splits)
next
  case (Cons z p)
  then show ?case by (cases n) (auto split: option.splits)
qed

lemma fs_set_dir_files:
  "fs_find p n = Some (FDir es) \<Longrightarrow> fs_find (p @ [x]) n = None \<Longrightarrow>
    fs_find l (fs_set (p @ [x]) (FDir []) n) = Some (FFile c) \<longleftrightarrow> fs_find l n = Some (FFile c)"
proof (induction p arbitrary: l n)
  case Nil
  then have n: "n = FDir es" "map_of es x = None" by (auto split: option.splits)
  show ?case
  proof (cases l)
    case (Cons y l')
    then show ?thesis using n by (cases l') auto
  qed (use n in simp)
next
  case (Cons z p)
  then obtain ds m where n: "n = FDir ds" "map_of ds z = Some m" by (cases n) (auto split: option.splits)
  show ?case
  proof (cases l)
    case (Cons y l')
    then show ?thesis using n Cons.prems Cons.IH [of m l'] by auto
  qed (use n in simp)
qed

lemma path_parts_slash: "path_parts (p @ CHR ''/'' # q) acc = path_parts p acc @ path_parts q []"
  by (induction p acc rule: path_parts.induct) auto

lemma path_parts_name: "CHR ''/'' \<notin> set x \<Longrightarrow> path_parts x acc = (if acc @ x = [] then [] else [acc @ x])"
  by (induction x acc rule: path_parts.induct) auto

lemma path_parts_snoc_length:
  "length (path_parts (p @ [c]) acc) = (if c = CHR ''/'' then length (path_parts p acc)
     else if (if p = [] then acc = [] else last p = CHR ''/'') then Suc (length (path_parts p acc)) else length (path_parts p acc))"
  by (induction p acc rule: path_parts.induct) auto

definition plain :: "string \<Rightarrow> bool" where "plain x \<longleftrightarrow> x \<noteq> ''.'' \<and> x \<noteq> ''..''"

lemma fs_walk_append: "fs_walk cur (xs @ ys) root = Option.bind (fs_walk cur xs root) (\<lambda>l. fs_walk l ys root)"
  by (induction xs arbitrary: cur) (auto split: option.splits fnode.splits)

lemma fs_walk_plain:
  "list_all plain xs \<Longrightarrow> fs_find (cur @ xs) root = Some n \<Longrightarrow> fs_walk cur xs root = Some (cur @ xs)"
proof (induction xs arbitrary: cur)
  case (Cons x xs)
  then obtain d where d: "fs_find cur root = Some d" "fs_find (x # xs) d = Some n" by (auto simp: fs_find_append bind_eq_Some_conv)
  then obtain es where "d = FDir es" by (cases d) auto
  then show ?case using Cons.IH [of "cur @ [x]"] Cons.prems d by (simp add: plain_def)
qed simp

text \<open>A path that names a place: made of plain parts, and no detours.\<close>

definition names_place :: "string \<Rightarrow> fsys \<Rightarrow> string list \<Rightarrow> bool" where
  "names_place path s l \<longleftrightarrow> path \<noteq> [] \<and> list_all plain (path_parts path []) \<and> l = fs_start path s @ path_parts path []"

definition good_name :: "string \<Rightarrow> bool" where "good_name x \<longleftrightarrow> x \<noteq> [] \<and> CHR ''/'' \<notin> set x \<and> plain x"

lemma names_sub: "names_place path s l \<Longrightarrow> good_name x \<Longrightarrow> names_place (path @ ''/'' @ x) s (l @ [x])"
  by (auto simp: names_place_def good_name_def fs_start_def path_parts_slash path_parts_name)

lemma names_root [simp]: "names_place path (s\<lparr>fs_root := r\<rparr>) l = names_place path s l"
  by (simp add: names_place_def fs_start_def)

lemma names_cwd: "fs_cwd s' = fs_cwd s \<Longrightarrow> names_place path s' l = names_place path s l"
  by (simp add: names_place_def fs_start_def)

lemma place_of_node: "names_place path s l \<Longrightarrow> fs_find l (fs_root s) = Some n \<Longrightarrow> fs_place path s = Some l"
  using fs_walk_plain [of "path_parts path []" "fs_start path s"] by (simp add: names_place_def fs_place_def)

lemma stat_of_node: "names_place path s l \<Longrightarrow> fs_find l (fs_root s) = Some n \<Longrightarrow> fs_stat path s = Some n"
  by (simp add: fs_stat_def place_of_node)

lemma place_in_dir:
  assumes "names_place path s (l @ [x])" and "path_parts path [] \<noteq> []" and "fs_find l (fs_root s) = Some (FDir es)"
  shows "fs_place path s = Some (l @ [x])"
proof -
  let ?P = "path_parts path []" and ?B = "fs_start path s"
  have P: "?P = butlast ?P @ [last ?P]" using assms(2) by simp
  have "l @ [x] = (?B @ butlast ?P) @ [last ?P]" using assms(1,2) by (simp add: names_place_def)
  then have l: "l = ?B @ butlast ?P" "x = last ?P" by simp_all
  have pl: "list_all plain (butlast ?P)" "plain (last ?P)" "path \<noteq> []"
    using assms(1,2) by (auto simp: names_place_def list_all_iff dest: in_set_butlastD)
  have "fs_walk ?B (butlast ?P) (fs_root s) = Some l" using fs_walk_plain [OF pl(1)] assms(3) l(1) by simp
  then have "fs_walk ?B (butlast ?P @ [last ?P]) (fs_root s) = Some (l @ [x])"
    using assms(3) pl(2) l(2) by (simp add: fs_walk_append plain_def)
  then show ?thesis using P pl(3) by (simp add: fs_place_def)
qed

section \<open>Making directories\<close>

definition mkd :: "string list \<Rightarrow> fsys \<Rightarrow> fsys" where
  "mkd l s = (if fs_find l (fs_root s) \<noteq> None then s else s\<lparr>fs_root := fs_set l (FDir []) (fs_root s)\<rparr>)"

text \<open>The way to a place is free: nothing on it is a file or must not be changed.\<close>

definition way_free :: "string list \<Rightarrow> string list \<Rightarrow> fsys \<Rightarrow> bool" where
  "way_free b ps s \<longleftrightarrow> list_all (\<lambda>j. \<not> fs_denied s (b @ take j ps)
     \<and> (case fs_find (b @ take j ps) (fs_root s) of Some (FFile c) \<Rightarrow> False | _ \<Rightarrow> True)) [0..<Suc (length ps)]"

lemma way_free_iff:
  "way_free b ps s \<longleftrightarrow> (\<forall>j c. \<not> fs_denied s (b @ take j ps) \<and> fs_find (b @ take j ps) (fs_root s) \<noteq> Some (FFile c))"
proof
  assume w: "way_free b ps s"
  show "\<forall>j c. \<not> fs_denied s (b @ take j ps) \<and> fs_find (b @ take j ps) (fs_root s) \<noteq> Some (FFile c)"
  proof (intro allI)
    fix j c
    have "min j (length ps) \<in> set [0..<Suc (length ps)]" "take (min j (length ps)) ps = take j ps" by (auto simp: min_def)
    then show "\<not> fs_denied s (b @ take j ps) \<and> fs_find (b @ take j ps) (fs_root s) \<noteq> Some (FFile c)"
      using w unfolding way_free_def list_all_iff by (metis (no_types, lifting) fnode.simps(5) option.simps(5))
  qed
qed (unfold way_free_def list_all_iff, auto split: option.splits fnode.splits simp del: set_upt upt_Suc)

lemma way_dir: "way_free b ps s \<Longrightarrow> fs_find (b @ take j ps) (fs_root s) = Some n \<Longrightarrow> \<exists>es. n = FDir es"
  by (cases n) (auto simp: way_free_iff)

lemma mkd_step:
  assumes "way_free b ps s" and "k < length ps" and "fs_find (b @ take k ps) (fs_root s) = Some (FDir es)"
  shows "way_free b ps (mkd (b @ take (Suc k) ps) s) \<and> (\<exists>es. fs_find (b @ take (Suc k) ps) (fs_root (mkd (b @ take (Suc k) ps) s)) = Some (FDir es))"
proof (cases "fs_find (b @ take (Suc k) ps) (fs_root s)")
  case None
  have t: "b @ take (Suc k) ps = (b @ take k ps) @ [ps ! k]" using assms(2) by (simp add: take_Suc_conv_app_nth)
  have f: "fs_find l (fs_set (b @ take (Suc k) ps) (FDir []) (fs_root s)) = Some (FFile c) \<longleftrightarrow> fs_find l (fs_root s) = Some (FFile c)" for l c
    using fs_set_dir_files [OF assms(3), of "ps ! k"] None t by metis
  have "way_free b ps (mkd (b @ take (Suc k) ps) s)" using assms(1) None f by (simp add: way_free_iff mkd_def)
  moreover have "fs_find (b @ take (Suc k) ps) (fs_set (b @ take (Suc k) ps) (FDir []) (fs_root s)) = Some (FDir [])"
    using fs_find_set [OF assms(3), of "ps ! k" "[]"] t by simp
  ultimately show ?thesis using None by (simp add: mkd_def)
next
  case (Some n)
  then show ?thesis using assms(1) way_dir [OF assms(1) Some] by (auto simp: mkd_def)
qed

lemma fs_mkdir_mkd:
  assumes "way_free b ps s" and "fs_find (b @ take k ps) (fs_root s) = Some (FDir es)" and "k \<le> length ps"
    and "path \<noteq> []" and "fs_start path s = b" and "path_parts path [] = take j ps" and "j = k \<or> j = Suc k \<and> k < length ps" and "list_all plain ps"
  shows "\<exists>r. fs_mkdir path s = (r, mkd (b @ take j ps) s) \<and> r \<noteq> MkFails"
proof -
  have "list_all plain (take j ps)" using assms(8) by (auto simp: list_all_iff dest: in_set_takeD)
  then have n: "names_place path s (b @ take j ps)" using assms(4-6) by (simp add: names_place_def)
  have "fs_place path s = Some (b @ take j ps)"
  proof (cases "j = k")
    case True
    then show ?thesis using place_of_node [OF n] assms(2) by simp
  next
    case False
    then have "b @ take j ps = (b @ take k ps) @ [ps ! k]" "take j ps \<noteq> []" using assms(7) by (auto simp: take_Suc_conv_app_nth)
    then show ?thesis using place_in_dir [of path s "b @ take k ps" "ps ! k"] n assms(2,6) by simp
  qed
  then show ?thesis using assms(1) by (auto simp: fs_mkdir_def mkd_def way_free_iff)
qed

lemma mkd_fields [simp]: "fs_cwd (mkd l s) = fs_cwd s" "fs_denied (mkd l s) = fs_denied s" "fs_start p (mkd l s) = fs_start p s"
  by (simp_all add: mkd_def fs_start_def)

lemma mkd_exists: "fs_find l (fs_root s) = Some n \<Longrightarrow> mkd l s = s"
  by (simp add: mkd_def)

text \<open>The loop and the last \<open>mkdir\<close>; \<open>k\<close> parts exist already.\<close>

definition ensure_rest :: "string \<Rightarrow> string \<Rightarrow> string \<Rightarrow> fsys \<Rightarrow> bool \<times> fsys" where
  "ensure_rest p pre rest s = (case ensure_loop pre rest s of
        (False, s) \<Rightarrow> (False, s)
      | (True, s) \<Rightarrow> (case fs_mkdir p s of (MkFails, s) \<Rightarrow> (False, s) | (_, s) \<Rightarrow> (True, s)))"

definition mkds :: "string list \<Rightarrow> string list \<Rightarrow> nat \<Rightarrow> fsys \<Rightarrow> fsys" where
  "mkds b ps k s = fold (\<lambda>j. mkd (b @ take j ps)) [Suc k..<Suc (length ps)] s"

lemma mkds_Suc: "k < length ps \<Longrightarrow> mkds b ps k s = mkds b ps (Suc k) (mkd (b @ take (Suc k) ps) s)"
  unfolding mkds_def by (subst upt_conv_Cons) simp_all

lemma take_parts: "path_parts (pre @ CHR ''/'' # rest) [] = ps \<Longrightarrow> path_parts pre [] = take (length (path_parts pre [])) ps"
  by (auto simp: path_parts_slash)

lemma ensure_rest_mkds:
  assumes "way_free b ps s" and "list_all plain ps" and "path_parts p [] = ps" and "p = pre @ rest" and "pre \<noteq> []" and "fs_start pre s = b"
    and "fs_find (b @ take k ps) (fs_root s) = Some (FDir es)" and "k \<le> length ps"
    and "length (path_parts pre []) = (if last pre = CHR ''/'' then k else Suc k)"
  shows "ensure_rest p pre rest s = (True, mkds b ps k s)"
  using assms
proof (induction rest arbitrary: pre k s es)
  case Nil
  let ?j = "length ps"
  have j: "?j = k \<or> ?j = Suc k \<and> k < length ps" using Nil.prems(3,4,9) by (auto split: if_splits)
  obtain r where r: "fs_mkdir pre s = (r, mkd (b @ take ?j ps) s)" "r \<noteq> MkFails"
    using fs_mkdir_mkd [OF Nil.prems(1,7,8,5,6) _ j Nil.prems(2)] Nil.prems(3,4) by auto
  have "mkd (b @ take ?j ps) s = mkds b ps k s"
  proof (cases "?j = k")
    case True
    then show ?thesis using Nil.prems(7) by (simp add: mkds_def mkd_exists)
  next
    case False
    then have "?j = Suc k" using j by simp
    then show ?thesis by (simp add: mkds_def)
  qed
  then show ?case using r Nil.prems(4) by (cases r) (simp_all add: ensure_rest_def)
next
  case (Cons c rest)
  have st: "fs_start (pre @ [c]) s' = fs_start pre s'" for s' using Cons.prems(5) by (simp add: fs_start_def)
  have full: "p = (pre @ [c]) @ rest" using Cons.prems(4) by simp
  show ?case
  proof (cases "c = CHR ''/''")
    case slash: True
    define j where "j = length (path_parts pre [])"
    have tj: "path_parts pre [] = take j ps" using take_parts [of pre rest ps] Cons.prems(3,4) slash j_def by simp
    have "j \<le> length ps" using tj j_def by (metis length_take min.absorb_iff2 nat_le_linear min.absorb1)
    then have j: "j = k \<or> j = Suc k \<and> k < length ps" using Cons.prems(9) j_def by (auto split: if_splits)
    obtain r where r: "fs_mkdir pre s = (r, mkd (b @ take j ps) s)" "r \<noteq> MkFails"
      using fs_mkdir_mkd [OF Cons.prems(1,7,8,5,6) tj j Cons.prems(2)] by auto
    have step: "ensure_rest p pre (c # rest) s = ensure_rest p (pre @ [c]) rest (mkd (b @ take j ps) s)"
      using r slash by (cases r) (simp_all add: ensure_rest_def)
    have len: "length (path_parts (pre @ [c]) []) = j" using slash by (simp add: path_parts_snoc_length j_def)
    from j show ?thesis
    proof
      assume "j = k"
      then show ?thesis using step Cons.IH [OF Cons.prems(1-3) full _ _ Cons.prems(7,8)] Cons.prems(6,7) st len slash by (simp add: mkd_exists)
    next
      assume jk: "j = Suc k \<and> k < length ps"
      from mkd_step [OF Cons.prems(1) conjunct2 [OF jk] Cons.prems(7)] obtain es' where
        "way_free b ps (mkd (b @ take j ps) s)" "fs_find (b @ take j ps) (fs_root (mkd (b @ take j ps) s)) = Some (FDir es')" using jk by auto
      then show ?thesis using step Cons.IH [OF _ Cons.prems(2,3) full, of "mkd (b @ take j ps) s" j es'] Cons.prems(6) st len slash jk mkds_Suc [of k ps b s]
        by simp
    qed
  next
    case False
    have "ensure_rest p pre (c # rest) s = ensure_rest p (pre @ [c]) rest s" using False by (simp add: ensure_rest_def)
    moreover have "length (path_parts (pre @ [c]) []) = Suc k" using False Cons.prems(5,9) by (simp add: path_parts_snoc_length)
    ultimately show ?thesis using Cons.IH [OF Cons.prems(1-3) full _ _ Cons.prems(7,8)] Cons.prems(6) st False by simp
  qed
qed

lemma EnsureDirectory_mkds:
  assumes "path \<noteq> []" and "list_all plain (path_parts path [])" and "way_free (fs_start path s) (path_parts path []) s"
    and "fs_find (fs_start path s) (fs_root s) = Some (FDir es)"
  shows "EnsureDirectory path s = (True, mkds (fs_start path s) (path_parts path []) 0 s)"
proof -
  obtain c p where p: "path = c # p" using assms(1) by (cases path) auto
  have "fs_start [c] s = fs_start path s" using p by (simp add: fs_start_def)
  then have "ensure_rest path [c] p s = (True, mkds (fs_start path s) (path_parts path []) 0 s)"
    using assms p by (intro ensure_rest_mkds [where es = es]) auto
  moreover have "EnsureDirectory path s = ensure_rest path [c] p s" using p by (simp add: EnsureDirectory_def ensure_rest_def)
  ultimately show ?thesis by simp
qed

lemma mkds_made:
  assumes "way_free b ps s" and "fs_find (b @ take k ps) (fs_root s) = Some (FDir es)" and "k \<le> length ps"
  shows "(\<exists>es. fs_find (b @ ps) (fs_root (mkds b ps k s)) = Some (FDir es))
    \<and> (\<forall>l c. fs_find l (fs_root (mkds b ps k s)) = Some (FFile c) \<longleftrightarrow> fs_find l (fs_root s) = Some (FFile c)) \<and> fs_cwd (mkds b ps k s) = fs_cwd s"
  using assms
proof (induction "length ps - k" arbitrary: k s es)
  case 0
  then show ?case by (simp add: mkds_def)
next
  case (Suc d)
  let ?s = "mkd (b @ take (Suc k) ps) s"
  have k: "k < length ps" using Suc.hyps(2) by simp
  obtain es' where w: "way_free b ps ?s" "fs_find (b @ take (Suc k) ps) (fs_root ?s) = Some (FDir es')"
    using mkd_step [OF Suc.prems(1) k Suc.prems(2)] by blast
  have "b @ take (Suc k) ps = (b @ take k ps) @ [ps ! k]" using k by (simp add: take_Suc_conv_app_nth)
  then have "fs_find l (fs_root ?s) = Some (FFile c) \<longleftrightarrow> fs_find l (fs_root s) = Some (FFile c)" for l c
    using fs_set_dir_files [OF Suc.prems(2), of "ps ! k"] by (auto simp: mkd_def)
  then show ?case using Suc.hyps(1) [OF _ w] Suc.hyps(2) k mkds_Suc [OF k, of b s] by simp
qed

text \<open>\<open>EnsureDirectory\<close> does what it promises: when the directory the path starts from exists and
  nothing on the way is a file or must not be changed, it answers true, the directory exists
  afterwards with all its parents, and no file has come, gone or changed - for relative and absolute
  paths, with doubled and trailing slashes.\<close>

theorem ensure_directory_works:
  assumes "path \<noteq> []" and "list_all plain (path_parts path [])" and "way_free (fs_start path s) (path_parts path []) s"
    and "fs_find (fs_start path s) (fs_root s) = Some (FDir es)"
  shows "fst (EnsureDirectory path s) \<and> DirectoryExists path (snd (EnsureDirectory path s))
    \<and> (\<forall>l c. fs_find l (fs_root (snd (EnsureDirectory path s))) = Some (FFile c) \<longleftrightarrow> fs_find l (fs_root s) = Some (FFile c))"
proof -
  let ?b = "fs_start path s" and ?ps = "path_parts path []"
  let ?s = "mkds ?b ?ps 0 s"
  have e: "EnsureDirectory path s = (True, ?s)" by (rule EnsureDirectory_mkds [OF assms])
  obtain es' where m: "fs_find (?b @ ?ps) (fs_root ?s) = Some (FDir es')" "fs_cwd ?s = fs_cwd s"
      "\<forall>l c. fs_find l (fs_root ?s) = Some (FFile c) \<longleftrightarrow> fs_find l (fs_root s) = Some (FFile c)"
    using mkds_made [OF assms(3), of 0 es] assms(4) by auto
  have "names_place path ?s (?b @ ?ps)" using assms(1,2) by (subst names_cwd [OF m(2)]) (simp add: names_place_def)
  from stat_of_node [OF this m(1)] show ?thesis using e m(3) by (simp add: DirectoryExists_def)
qed

lemma mkdir_on_the_way:
  assumes "names_place path s l" and "fs_find l (fs_root s) = Some n" and "path = pre @ CHR ''/'' # rest" and "pre \<noteq> []"
  shows "fs_mkdir pre s = (MkExists, s)"
proof -
  let ?q = "fs_start path s @ path_parts pre []"
  have "l = ?q @ path_parts rest []" using assms(1,3) by (simp add: names_place_def path_parts_slash)
  then obtain m where m: "fs_find ?q (fs_root s) = Some m" using assms(2) fs_find_append [of ?q "path_parts rest []" "fs_root s"] by (cases "fs_find ?q (fs_root s)") auto
  have "names_place pre s ?q" using assms(1,3,4) by (auto simp: names_place_def fs_start_def path_parts_slash)
  from place_of_node [OF this m] show ?thesis using m by (simp add: fs_mkdir_def)
qed

lemma ensure_loop_exists:
  "names_place path s l \<Longrightarrow> fs_find l (fs_root s) = Some n \<Longrightarrow> path = pre @ rest \<Longrightarrow> pre \<noteq> [] \<Longrightarrow> ensure_loop pre rest s = (True, s)"
proof (induction rest arbitrary: pre)
  case (Cons c rest)
  then have "ensure_loop (pre @ [c]) rest s = (True, s)" by simp
  then show ?case using mkdir_on_the_way [OF Cons.prems(1,2), of pre rest] Cons.prems(3,4) by (cases "c = CHR ''/''") auto
qed simp

text \<open>It also answers true where there is a file: \<open>mkdir\<close> fails with \<open>EEXIST\<close>, which the code takes for
  a directory that exists, so a path that names a file is reported as ensured, and there is none.\<close>

theorem ensure_directory_accepts_files:
  assumes "names_place path s l" and "fs_find l (fs_root s) = Some (FFile c)"
  shows "EnsureDirectory path s = (True, s) \<and> \<not> DirectoryExists path s"
proof -
  have ne: "path \<noteq> []" using assms(1) by (simp add: names_place_def)
  then have "ensure_loop (take 1 path) (drop 1 path) s = (True, s)" by (intro ensure_loop_exists [OF assms]) auto
  moreover have "fs_mkdir path s = (MkExists, s)" using place_of_node [OF assms] assms(2) by (simp add: fs_mkdir_def)
  ultimately show ?thesis using stat_of_node [OF assms] by (simp add: EnsureDirectory_def DirectoryExists_def)
qed

lemma mkds_last:
  "(\<And>j. j < length ps \<Longrightarrow> fs_find (b @ take j ps) (fs_root s) \<noteq> None) \<Longrightarrow> k < length ps \<Longrightarrow> mkds b ps k s = mkd (b @ ps) s"
proof (induction "length ps - k" arbitrary: k)
  case (Suc d)
  show ?case
  proof (cases "Suc k = length ps")
    case True
    then show ?thesis by (simp add: mkds_def flip: True)
  next
    case False
    then show ?thesis using Suc mkds_Suc [of k ps b s] by (auto simp: mkd_def)
  qed
qed simp

lemma EnsureDirectory_new:
  assumes "names_place path s (t @ [x])" and "path_parts path [] \<noteq> []" and "fs_find t (fs_root s) = Some (FDir es)"
    and "fs_find (t @ [x]) (fs_root s) = None" and "fs_denied s = (\<lambda>_. False)"
  shows "EnsureDirectory path s = (True, s\<lparr>fs_root := fs_set (t @ [x]) (FDir []) (fs_root s)\<rparr>)"
proof -
  let ?b = "fs_start path s" and ?ps = "path_parts path []"
  have l: "t @ [x] = ?b @ ?ps" using assms(1) by (simp add: names_place_def)
  have ps: "?ps = butlast ?ps @ [x]" "t = ?b @ butlast ?ps"
    using l assms(2) by (metis append_butlast_last_id last_appendR last_snoc, metis butlast_append butlast_snoc)
  have dir: "\<exists>es. fs_find (?b @ take j ?ps) (fs_root s) = Some (FDir es)" if "j < length ?ps" for j
  proof -
    have t: "t = (?b @ take j ?ps) @ drop j (butlast ?ps)"
      using ps that by (metis append.assoc append_take_drop_id length_butlast less_Suc_eq_le take_butlast Suc_pred' length_greater_0_conv less_nat_zero_code)
    then obtain m where m: "fs_find (?b @ take j ?ps) (fs_root s) = Some m" "fs_find (drop j (butlast ?ps)) m = Some (FDir es)"
      using assms(3) by (auto simp: fs_find_append [of "?b @ take j ?ps"] bind_eq_Some_conv simp del: append_assoc)
    then show ?thesis by (cases m; cases "drop j (butlast ?ps)") auto
  qed
  have "fs_find (?b @ take j ?ps) (fs_root s) \<noteq> Some (FFile c)" for j c
    using dir [of j] assms(4) l by (cases "j < length ?ps") auto
  then have "way_free ?b ?ps s" using assms(5) by (simp add: way_free_iff)
  moreover obtain es0 where "fs_find ?b (fs_root s) = Some (FDir es0)" using dir [of 0] assms(2) by auto
  ultimately have "EnsureDirectory path s = (True, mkds ?b ?ps 0 s)" using assms(1) by (intro EnsureDirectory_mkds) (auto simp: names_place_def)
  moreover have "mkds ?b ?ps 0 s = mkd (?b @ ?ps) s" using dir assms(2) by (intro mkds_last) fastforce+
  ultimately show ?thesis using l assms(4) by (simp add: mkd_def)
qed

section \<open>Copies\<close>

text \<open>Directories of depth at most \<open>n\<close> with proper names, each once.\<close>

fun copyable :: "nat \<Rightarrow> fnode \<Rightarrow> bool" where
  "copyable n (FFile c) \<longleftrightarrow> True"
| "copyable 0 (FDir es) \<longleftrightarrow> False"
| "copyable (Suc n) (FDir es) \<longleftrightarrow> distinct (map fst es) \<and> list_all (\<lambda>e. good_name (fst e) \<and> copyable n (snd e)) es"

lemma CopyFile_new:
  assumes "names_place from_path s f" and "fs_find f (fs_root s) = Some (FFile c)"
    and "names_place to_path s (t @ [x])" and "path_parts to_path [] \<noteq> []" and "fs_find t (fs_root s) = Some (FDir es)"
    and "fs_find (t @ [x]) (fs_root s) = None" and "fs_denied s = (\<lambda>_. False)" and "f \<parallel> t @ [x]"
  shows "CopyFile from_path to_path s = (True, s\<lparr>fs_root := fs_set (t @ [x]) (FFile c) (fs_root s)\<rparr>)"
proof -
  let ?s = "s\<lparr>fs_root := fs_set (t @ [x]) (FFile []) (fs_root s)\<rparr>"
  have r: "fs_read from_path s = Some c" using stat_of_node [OF assms(1,2)] by (simp add: fs_read_def)
  have w: "fs_write to_path [] s = (True, ?s)"
    using place_in_dir [OF assms(3,4,5)] assms(6,7) by (simp add: fs_write_def)
  have f: "fs_find f (fs_root ?s) = Some (FFile c)" using assms(2) fs_find_set_parallel [OF assms(8)] by simp
  have n: "names_place from_path ?s f" "names_place to_path ?s (t @ [x])" using assms(1,3) by simp_all
  have r': "fs_read from_path ?s = Some c" using stat_of_node [OF n(1) f] by (simp add: fs_read_def)
  have t: "fs_find (t @ [x]) (fs_root ?s) = Some (FFile [])" using fs_find_set [OF assms(5), of x "[]"] by simp
  have "fs_write to_path c ?s = (True, s\<lparr>fs_root := fs_set (t @ [x]) (FFile c) (fs_root s)\<rparr>)"
    using place_of_node [OF n(2) t] t assms(7) by (simp add: fs_write_def fs_set_set)
  then show ?thesis using r w r' by (simp add: CopyFile_def)
qed

text \<open>What a copy of a node must do; the entries of a directory are copied into one that holds the first of them.\<close>

definition copies :: "(string \<Rightarrow> string \<Rightarrow> fsys \<Rightarrow> (bool \<times> fsys) option) \<Rightarrow> fnode \<Rightarrow> bool" where
  "copies cp n \<longleftrightarrow> (\<forall>from_path to_path s f t x es.
     names_place from_path s f \<longrightarrow> fs_find f (fs_root s) = Some n \<longrightarrow> names_place to_path s (t @ [x]) \<longrightarrow> path_parts to_path [] \<noteq> []
      \<longrightarrow> fs_find t (fs_root s) = Some (FDir es) \<longrightarrow> fs_find (t @ [x]) (fs_root s) = None \<longrightarrow> fs_denied s = (\<lambda>_. False) \<longrightarrow> f \<parallel> t @ [x]
      \<longrightarrow> cp from_path to_path s = Some (True, s\<lparr>fs_root := fs_set (t @ [x]) n (fs_root s)\<rparr>))"

lemma copy_entries_copies:
  assumes "names_place from_path s f" and "fs_find f (fs_root s) = Some (FDir es)" and "names_place to_path s (t @ [x])"
    and "fs_find t (fs_root s) = Some (FDir ds)" and "fs_denied s = (\<lambda>_. False)" and "f \<parallel> t @ [x]"
    and "es = as @ bs" and "distinct (map fst es)" and "list_all (\<lambda>e. good_name (fst e)) es"
    and "list_all (\<lambda>e. case snd e of FDir _ \<Rightarrow> copies cp (snd e) | _ \<Rightarrow> True) es"
  shows "copy_entries cp from_path to_path bs True (s\<lparr>fs_root := fs_set (t @ [x]) (FDir as) (fs_root s)\<rparr>)
    = Some (True, s\<lparr>fs_root := fs_set (t @ [x]) (FDir es) (fs_root s)\<rparr>)"
  using assms(7)
proof (induction bs arbitrary: as)
  case (Cons e bs)
  obtain y m where e: "e = (y, m)" by (cases e)
  let ?s = "s\<lparr>fs_root := fs_set (t @ [x]) (FDir as) (fs_root s)\<rparr>"
  let ?r = "s\<lparr>fs_root := fs_set (t @ [x]) (FDir (as @ [e])) (fs_root s)\<rparr>"
  have y: "good_name y" "y \<notin> fst ` set as" using assms(8,9) Cons.prems e by (auto simp: list_all_iff)
  have my: "map_of es y = Some m" using assms(8) Cons.prems e by (intro map_of_is_SomeI) auto
  have n: "names_place (from_path @ ''/'' @ y) ?s (f @ [y])" "names_place (to_path @ ''/'' @ y) ?s ((t @ [x]) @ [y])"
    using names_sub [OF assms(1) y(1)] names_sub [OF assms(3) y(1)] by simp_all
  have ne: "path_parts (to_path @ ''/'' @ y) [] \<noteq> []" using y(1) by (simp add: path_parts_slash path_parts_name good_name_def)
  have par: "f @ [y] \<parallel> t @ [x]" "f @ [y] \<parallel> (t @ [x]) @ [y]"
    using parallel_append [OF assms(6), of "[y]" "[]"] parallel_append [OF assms(6), of "[y]" "[y]"] by simp_all
  have ff: "fs_find (f @ [y]) (fs_root ?s) = Some m"
    using fs_find_set_parallel [OF par(1)] fs_find_append [of f "[y]"] assms(2) my by simp
  have tt: "fs_find (t @ [x]) (fs_root ?s) = Some (FDir as)" "fs_find ((t @ [x]) @ [y]) (fs_root ?s) = None"
    using fs_find_set [OF assms(4), of x "[]"] fs_find_set [OF assms(4), of x "[y]"] y(2) by (auto simp: map_of_None_iff split: option.splits)
  have set: "fs_set ((t @ [x]) @ [y]) m (fs_root ?s) = fs_root ?r" using fs_set_add [OF assms(4) y(2), of x m] e by simp
  have den: "fs_denied ?s = (\<lambda>_. False)" using assms(5) by simp
  have one: "(case m of FDir _ \<Rightarrow> cp (from_path @ ''/'' @ y) (to_path @ ''/'' @ y) ?s
      | FFile _ \<Rightarrow> Some (CopyFile (from_path @ ''/'' @ y) (to_path @ ''/'' @ y) ?s)) = Some (True, ?r)"
  proof (cases m)
    case (FFile c)
    then show ?thesis using CopyFile_new [OF n(1) _ n(2) ne tt den par(2), of c] ff set by simp
  next
    case (FDir us)
    then have "copies cp m" using assms(10) Cons.prems e by (simp add: list_all_iff)
    then have "cp (from_path @ ''/'' @ y) (to_path @ ''/'' @ y) ?s = Some (True, ?s\<lparr>fs_root := fs_set ((t @ [x]) @ [y]) m (fs_root ?s)\<rparr>)"
      unfolding copies_def using n ne ff tt den par(2) by blast
    then show ?thesis using set FDir by simp
  qed
  have "copy_entries cp from_path to_path (e # bs) True ?s = copy_entries cp from_path to_path bs True ?r"
    unfolding e copy_entries.simps Let_def fst_conv snd_conv one [unfolded e] by simp
  then show ?case using Cons.IH [of "as @ [e]"] Cons.prems by simp
qed simp

lemma CopyDir_copies: "copyable n (FDir es) \<Longrightarrow> copies (CopyDir n) (FDir es)"
proof (induction n arbitrary: es)
  case (Suc n)
  have sub: "list_all (\<lambda>e. case snd e of FDir _ \<Rightarrow> copies (CopyDir n) (snd e) | _ \<Rightarrow> True) es"
    using Suc by (auto simp: list_all_iff split: fnode.splits)
  show ?case unfolding copies_def
  proof (intro allI impI)
    fix from_path to_path s f t x ds
    assume a: "names_place from_path s f" "fs_find f (fs_root s) = Some (FDir es)" "names_place to_path s (t @ [x])" "path_parts to_path [] \<noteq> []"
      "fs_find t (fs_root s) = Some (FDir ds)" "fs_find (t @ [x]) (fs_root s) = None" "fs_denied s = (\<lambda>_. False)" "f \<parallel> t @ [x]"
    let ?s = "s\<lparr>fs_root := fs_set (t @ [x]) (FDir []) (fs_root s)\<rparr>"
    have l: "list_dir from_path s = Some es" using stat_of_node [OF a(1,2)] by (simp add: list_dir_def)
    have "fs_find f (fs_root ?s) = Some (FDir es)" using fs_find_set_parallel [OF a(8)] a(2) by simp
    then have l': "list_dir from_path ?s = Some es" using stat_of_node [of from_path ?s f] a(1) by (simp add: list_dir_def)
    have "copy_entries (CopyDir n) from_path to_path es True ?s = Some (True, s\<lparr>fs_root := fs_set (t @ [x]) (FDir es) (fs_root s)\<rparr>)"
      using copy_entries_copies [OF a(1-3) a(5,7,8), of "[]" es] Suc.prems sub by (simp add: list_all_iff)
    then show "CopyDir (Suc n) from_path to_path s = Some (True, s\<lparr>fs_root := fs_set (t @ [x]) (FDir es) (fs_root s)\<rparr>)"
      using l l' EnsureDirectory_new [OF a(3-7)] by simp
  qed
qed simp

text \<open>\<open>Copy\<close> of a directory copies all of it: when the source is a directory, nothing exists at the
  target but its parent, neither lies in the other, and the system refuses nothing, the copy answers true,
  the target is the same tree, files, sub-directories and all, and the rest of the file system is
  as it was; fuel for the depth of the directory is enough.\<close>

theorem copy_copies_directory:
  assumes "names_place from_path s f" and "fs_find f (fs_root s) = Some (FDir es)" and "copyable n (FDir es)"
    and "names_place to_path s (t @ [x])" and "path_parts to_path [] \<noteq> []" and "fs_find t (fs_root s) = Some (FDir ds)"
    and "fs_find (t @ [x]) (fs_root s) = None" and "fs_denied s = (\<lambda>_. False)" and "f \<parallel> t @ [x]"
  shows "\<exists>s'. Copy n from_path to_path s = Some (True, s') \<and> fs_find (t @ [x]) (fs_root s') = Some (FDir es)
    \<and> (\<forall>l. l \<parallel> t @ [x] \<longrightarrow> fs_find l (fs_root s') = fs_find l (fs_root s))"
proof -
  have "DirectoryExists from_path s" using stat_of_node [OF assms(1,2)] by (simp add: DirectoryExists_def)
  moreover have "CopyDir n from_path to_path s = Some (True, s\<lparr>fs_root := fs_set (t @ [x]) (FDir es) (fs_root s)\<rparr>)"
    using CopyDir_copies [OF assms(3)] assms unfolding copies_def by blast
  moreover have "fs_find (t @ [x]) (fs_set (t @ [x]) (FDir es) (fs_root s)) = Some (FDir es)" using fs_find_set [OF assms(6), of x "[]"] by simp
  ultimately show ?thesis using fs_find_set_parallel by (simp add: Copy_def)
qed

text \<open>A file copied onto itself is lost: opening the target empties it before the source is read, and
  the answer is true.\<close>

theorem copy_onto_itself_empties:
  assumes "names_place from_path s l" and "names_place to_path s l" and "fs_find l (fs_root s) = Some (FFile c)"
    and "\<not> fs_denied s l" and "l \<noteq> []"
  shows "\<exists>s'. Copy n from_path to_path s = Some (True, s') \<and> GetContent from_path s' = Some []"
proof -
  let ?s = "s\<lparr>fs_root := fs_set l (FFile []) (fs_root s)\<rparr>"
  obtain t x where l: "l = t @ [x]" using assms(5) by (cases l rule: rev_cases) auto
  obtain es where t: "fs_find t (fs_root s) = Some (FDir es)"
  proof (cases "fs_find t (fs_root s)")
    case (Some m)
    then show ?thesis using assms(3) l that by (cases m) (auto simp: fs_find_append)
  qed (use assms(3) l in \<open>auto simp: fs_find_append\<close>)
  have f: "fs_find l (fs_root ?s) = Some (FFile [])" using fs_find_set [OF t, of x "[]"] l by simp
  have "fs_read from_path s = Some c" using stat_of_node [OF assms(1,3)] by (simp add: fs_read_def)
  moreover have "fs_write to_path [] s = (True, ?s)" using place_of_node [OF assms(2,3)] assms(3,4) by (simp add: fs_write_def)
  moreover have n: "names_place from_path ?s l" "names_place to_path ?s l" using assms(1,2) by simp_all
  moreover have r: "fs_read from_path ?s = Some []" using stat_of_node [OF n(1) f] by (simp add: fs_read_def)
  moreover have "fs_write to_path [] ?s = (True, ?s)" using place_of_node [OF n(2) f] f assms(4) by (simp add: fs_write_def fs_set_set)
  moreover have "\<not> DirectoryExists from_path s" using stat_of_node [OF assms(1,3)] by (simp add: DirectoryExists_def)
  ultimately show ?thesis by (simp add: Copy_def CopyFile_def GetContent_def)
qed

section \<open>Removing files\<close>

lemma AList_delete_none: "x \<notin> fst ` set es \<Longrightarrow> AList.delete x es = es"
  by (induction es) auto

lemma fs_find_del: "fs_find p n = Some (FDir es) \<Longrightarrow> fs_find p (fs_del (p @ [x]) n) = Some (FDir (AList.delete x es))"
proof (induction p arbitrary: n)
  case (Cons y p)
  then show ?case by (cases n) (auto split: option.splits)
qed simp

definition is_file :: "fnode \<Rightarrow> bool" where "is_file n \<longleftrightarrow> (case n of FFile _ \<Rightarrow> True | FDir _ \<Rightarrow> False)"

lemma remove_loop_files:
  assumes "names_place path s l" and "fs_find l (fs_root s) = Some (FDir (as @ es))" and "distinct (map fst (as @ es))"
    and "list_all (\<lambda>e. good_name (fst e)) as" and "list_all (\<lambda>e. is_file (snd e)) as" and "fs_denied s = (\<lambda>_. False)"
  shows "\<exists>r. remove_loop path (as @ es) s = remove_loop path es (s\<lparr>fs_root := r\<rparr>) \<and> fs_find l r = Some (FDir es)"
  using assms
proof (induction as arbitrary: s)
  case Nil
  then show ?case by (intro exI [of _ "fs_root s"]) simp
next
  case (Cons e as)
  obtain y c where e: "e = (y, FFile c)" using Cons.prems(5) by (cases e; cases "snd e") (auto simp: is_file_def)
  let ?s = "s\<lparr>fs_root := fs_del (l @ [y]) (fs_root s)\<rparr>"
  have "fs_find (l @ [y]) (fs_root s) = Some (FFile c)" using fs_find_append [of l "[y]"] Cons.prems(2) e by simp
  moreover have "names_place (path @ ''/'' @ y) s (l @ [y])" using names_sub Cons.prems(1,4) e by simp
  ultimately have "fs_unlink (path @ ''/'' @ y) s = (True, ?s)" using place_of_node Cons.prems(6) by (simp add: fs_unlink_def)
  then have "remove_loop path ((e # as) @ es) s = remove_loop path (as @ es) ?s" using e by simp
  moreover have "y \<notin> fst ` set (as @ es)" using Cons.prems(3) e by auto
  then have "fs_find l (fs_root ?s) = Some (FDir (as @ es))"
    using fs_find_del [OF Cons.prems(2), of y] AList_delete_none [of y "as @ es"] e by simp
  ultimately show ?case using Cons.IH [of ?s] Cons.prems by simp
qed

text \<open>\<open>RemoveAllFiles\<close> empties a directory of files only; the first sub-directory it meets ends it:
  it answers false, and the files that come after it in the directory are still there, although the
  comment says that sub-directories are not affected.\<close>

theorem remove_all_files_stops:
  assumes "names_place path s l" and "fs_find l (fs_root s) = Some (FDir (as @ es))" and "distinct (map fst (as @ es))"
    and "list_all (\<lambda>e. good_name (fst e)) (as @ es)" and "list_all (\<lambda>e. is_file (snd e)) as" and "fs_denied s = (\<lambda>_. False)"
    and "es = [] \<or> \<not> is_file (snd (hd es))"
  shows "\<exists>s'. RemoveAllFiles path s = (es = [], s') \<and> fs_find l (fs_root s') = Some (FDir es)"
proof -
  have "list_dir path s = Some (as @ es)" using stat_of_node [OF assms(1,2)] by (simp add: list_dir_def)
  moreover obtain r where r: "remove_loop path (as @ es) s = remove_loop path es (s\<lparr>fs_root := r\<rparr>)" "fs_find l r = Some (FDir es)"
    using remove_loop_files [OF assms(1-3) _ assms(5,6)] assms(4) by auto
  moreover have "remove_loop path es (s\<lparr>fs_root := r\<rparr>) = (es = [], s\<lparr>fs_root := r\<rparr>)"
  proof (cases es)
    case (Cons e es')
    then obtain y us where e: "e = (y, FDir us)" using assms(7) by (cases e; cases "snd e") (auto simp: is_file_def)
    have "fs_find (l @ [y]) r = Some (FDir us)" using fs_find_append [of l "[y]"] r(2) Cons e by simp
    moreover have "names_place (path @ ''/'' @ y) (s\<lparr>fs_root := r\<rparr>) (l @ [y])" using names_sub assms(1,4) Cons e by simp
    ultimately show ?thesis using place_of_node [of "path @ ''/'' @ y" "s\<lparr>fs_root := r\<rparr>"] Cons e by (simp add: fs_unlink_def)
  qed simp
  ultimately show ?thesis by (simp add: RemoveAllFiles_def)
qed

section \<open>Names and messages\<close>

text \<open>The name is what follows the last slash, the stem what precedes its last dot.\<close>

definition base_name :: "string \<Rightarrow> string" where "base_name p = rev (takeWhile (\<lambda>c. c \<noteq> CHR ''/'') (rev p))"

definition stem :: "string \<Rightarrow> string" where
  "stem b = (if CHR ''.'' \<in> set b then rev (tl (dropWhile (\<lambda>c. c \<noteq> CHR ''.'') (rev b))) else b)"

lemma str_rfind_none: "c \<notin> set s \<Longrightarrow> str_rfind c s n = None"
  by (induction n) auto

lemma str_rfind_last: "c \<notin> set v \<Longrightarrow> str_rfind c (u @ c # v) (Suc (length u) + k) = Some (length u)"
proof (induction k)
  case (Suc k)
  have "(u @ c # v) ! (Suc (length u) + k) \<noteq> c" if "Suc (length u) + k < length (u @ c # v)"
    using that Suc.prems nth_mem [of k v] by (auto simp: nth_append)
  then show ?case using Suc by simp
qed simp

lemma str_rfind_split: "c \<notin> set v \<Longrightarrow> str_rfind c (u @ c # v) (length (u @ c # v)) = Some (length u)"
  using str_rfind_last [of c v u "length v"] by simp

lemma base_name_split: "CHR ''/'' \<notin> set b \<Longrightarrow> base_name (d @ CHR ''/'' # b) = b"
  by (simp add: base_name_def takeWhile_append)

lemma base_name_none: "CHR ''/'' \<notin> set b \<Longrightarrow> base_name b = b"
proof -
  assume "CHR ''/'' \<notin> set b"
  then have "takeWhile (\<lambda>c. c \<noteq> CHR ''/'') (rev b) = rev b" by (auto simp: takeWhile_eq_all_conv)
  then show ?thesis by (simp only: base_name_def rev_rev_ident)
qed

lemma stem_split: "CHR ''.'' \<notin> set v \<Longrightarrow> stem (u @ CHR ''.'' # v) = u"
  by (simp add: stem_def dropWhile_append)

lemma split_last: "c \<in> set b \<Longrightarrow> \<exists>u v. b = u @ c # v \<and> c \<notin> set v"
  by (rule split_list_last)

lemma file_stem: "(case str_rfind (CHR ''.'') (d @ b) (length (d @ b)) of None \<Rightarrow> b
    | Some e \<Rightarrow> if e < length d then b else take (e - length d) b) = stem b"
proof (cases "CHR ''.'' \<in> set b")
  case True
  then obtain u v where b: "b = u @ CHR ''.'' # v" "CHR ''.'' \<notin> set v" using split_last by metis
  then show ?thesis using str_rfind_split [of "CHR ''.''" v "d @ u"] stem_split by simp
next
  case False
  show ?thesis
  proof (cases "CHR ''.'' \<in> set d")
    case True
    then obtain u v where d: "d = u @ CHR ''.'' # v" "CHR ''.'' \<notin> set v" using split_last by metis
    then show ?thesis using str_rfind_split [of "CHR ''.''" "v @ b" u] False by (simp add: stem_def)
  next
    case no: False
    then show ?thesis using str_rfind_none [of "CHR ''.''" "d @ b"] False by (simp add: stem_def)
  qed
qed

lemma GetFileName_split:
  assumes "path = d @ b" and "(case str_rfind (CHR ''/'') path (length path) of None \<Rightarrow> 0 | Some i \<Rightarrow> i + 1) = length d"
  shows "GetFileName path remove_extension = (if remove_extension then stem b else b)"
  using file_stem [where d = d and b = b] unfolding GetFileName_def Let_def assms(2) unfolding assms(1) by (auto split: option.splits if_splits)

text \<open>C31: The name of a file that \<open>GetFileName\<close> finds with positions in the path is the part after the last
  slash, and without its extension the part of it before its last dot; a dot in the name of a
  directory does not count, and \<open>end - start\<close> does not wrap around.\<close>

theorem get_file_name_is_name:
  "GetFileName path remove_extension = (if remove_extension then stem (base_name path) else base_name path)"
proof (cases "CHR ''/'' \<in> set path")
  case True
  then obtain d b where p: "path = d @ CHR ''/'' # b" "CHR ''/'' \<notin> set b" using split_last by metis
  then have "GetFileName path remove_extension = (if remove_extension then stem b else b)"
    using str_rfind_split [OF p(2), of d] by (intro GetFileName_split [of _ "d @ ''/''"]) simp_all
  then show ?thesis using p base_name_split by simp
next
  case False
  then have "GetFileName path remove_extension = (if remove_extension then stem path else path)"
    using str_rfind_none by (intro GetFileName_split [of _ "[]"]) simp_all
  then show ?thesis using False base_name_none by simp
qed

lemma equal_range_prefix: "equal_range xs ys = (if prefix xs ys then Some True else if prefix ys xs then None else Some False)"
  by (induction xs ys rule: equal_range.induct) auto

text \<open>The comparison of the extension reads before the start of the name when the name is a proper end of
  \<open>.bin\<close>, the empty name included.\<close>

lemma get_proto_undefined: "GetProtoFromFile parse_text parse name s = None \<longleftrightarrow> strict_suffix name ''.bin''"
proof -
  have "equal_range (rev ''.bin'') (rev name) = None \<longleftrightarrow> suffix name ''.bin'' \<and> \<not> suffix ''.bin'' name"
    by (simp add: equal_range_prefix suffix_to_prefix)
  also have "\<dots> \<longleftrightarrow> strict_suffix name ''.bin''" by (metis suffix_order.less_le_not_le)
  finally show ?thesis unfolding GetProtoFromFile_def
    by (cases "equal_range (rev ''.bin'') (rev name)"; cases "the (equal_range (rev ''.bin'') (rev name))") simp_all
qed

lemma fs_write_new:
  assumes "names_place name s (t @ [x])" and "path_parts name [] \<noteq> []" and "fs_find t (fs_root s) = Some (FDir es)"
    and "fs_find (t @ [x]) (fs_root s) = None" and "\<not> fs_denied s (t @ [x])"
  shows "\<exists>s'. fs_write name c s = (True, s') \<and> fs_read name s' = Some c"
proof -
  let ?s = "s\<lparr>fs_root := fs_set (t @ [x]) (FFile c) (fs_root s)\<rparr>"
  have "fs_write name c s = (True, ?s)" using place_in_dir [OF assms(1-3)] assms(4,5) by (simp add: fs_write_def)
  moreover have "fs_stat name ?s = Some (FFile c)"
    using stat_of_node [of name ?s "t @ [x]"] assms(1) fs_find_set [OF assms(3), of x "[]"] by simp
  ultimately show ?thesis by (simp add: fs_read_def)
qed

text \<open>What is written is read back by \<open>GetProtoFromFile\<close>: a message written in binary form to a file
  named \<open>.bin\<close>, or as text to one with another name, for every printer and parser that invert each
  other and whatever the other parser makes of the content; a name that is itself a proper end of \<open>.bin\<close>
  excepted.\<close>

theorem proto_file_roundtrip:
  assumes "parse_text (print_text m) = Some m" and "parse (serialize m) = Some m" and "\<not> strict_suffix name ''.bin''"
    and "names_place name s (t @ [x])" and "path_parts name [] \<noteq> []" and "fs_find t (fs_root s) = Some (FDir es)"
    and "fs_find (t @ [x]) (fs_root s) = None" and "\<not> fs_denied s (t @ [x])"
  shows "\<exists>s'. (if suffix ''.bin'' name then SetProtoToBinaryFile serialize m name s else SetProtoToASCIIFile print_text m name s) = (True, s')
    \<and> GetProtoFromFile parse_text parse name s' = Some (Some m)"
proof (cases "suffix ''.bin'' name")
  case True
  then have "equal_range (rev ''.bin'') (rev name) = Some True" by (simp add: equal_range_prefix suffix_to_prefix)
  then show ?thesis using True fs_write_new [OF assms(4-8), of "serialize m"] assms(2)
    by (auto simp: SetProtoToBinaryFile_def GetProtoFromFile_def GetProtoFromBinaryFile_def)
next
  case False
  then have "\<not> prefix (rev ''.bin'') (rev name)" "\<not> prefix (rev name) (rev ''.bin'')"
    using assms(3) by (auto simp: suffix_to_prefix strict_suffix_def)
  then have "equal_range (rev ''.bin'') (rev name) = Some False" by (simp add: equal_range_prefix)
  then show ?thesis using False fs_write_new [OF assms(4-8), of "print_text m"] assms(1)
    by (auto simp: SetProtoToASCIIFile_def GetProtoFromFile_def GetProtoFromASCIIFile_def)
qed

section \<open>Instances\<close>

definition ex_tree :: fnode where
  "ex_tree = FDir [(''f'', FFile ''x''), (''d'', FDir [(''g'', FFile ''y''), (''e'', FDir [])]), (''h'', FFile [])]"
definition ex_fs :: fsys where
  "ex_fs = \<lparr>fs_root = FDir [(''a'', ex_tree), (''b'', FDir [])], fs_cwd = [''b''], fs_denied = (\<lambda>_. False)\<rparr>"

lemma ensure_directory_works_witness:
  "fst (EnsureDirectory ''u//v/w/'' ex_fs) \<and> DirectoryExists ''u//v/w/'' (snd (EnsureDirectory ''u//v/w/'' ex_fs))"
proof -
  have "list_all plain (path_parts ''u//v/w/'' [])" by code_simp
  moreover have "way_free (fs_start ''u//v/w/'' ex_fs) (path_parts ''u//v/w/'' []) ex_fs" by code_simp
  moreover have "fs_find (fs_start ''u//v/w/'' ex_fs) (fs_root ex_fs) = Some (FDir [])" by code_simp
  ultimately show ?thesis using ensure_directory_works [of "''u//v/w/''" ex_fs "[]"] by simp
qed

lemma ensure_directory_accepts_files_witness:
  "EnsureDirectory ''/a/d/g'' ex_fs = (True, ex_fs) \<and> \<not> DirectoryExists ''/a/d/g'' ex_fs"
proof -
  have "names_place ''/a/d/g'' ex_fs [''a'', ''d'', ''g'']" "fs_find [''a'', ''d'', ''g''] (fs_root ex_fs) = Some (FFile ''y'')" by code_simp+
  then show ?thesis by (rule ensure_directory_accepts_files)
qed

lemma copy_copies_directory_witness:
  "\<exists>s. Copy 3 ''/a'' ''n'' ex_fs = Some (True, s) \<and> fs_find ([''b''] @ [''n'']) (fs_root s) = Some ex_tree"
proof -
  have "names_place ''/a'' ex_fs [''a'']" "fs_find [''a''] (fs_root ex_fs) = Some (FDir (fn_entries ex_tree))" "copyable 3 (FDir (fn_entries ex_tree))"
    "names_place ''n'' ex_fs ([''b''] @ [''n''])" "path_parts ''n'' [] \<noteq> []" "fs_find [''b''] (fs_root ex_fs) = Some (FDir [])"
    "fs_find ([''b''] @ [''n'']) (fs_root ex_fs) = None" by code_simp+
  moreover have "fs_denied ex_fs = (\<lambda>_. False)" by (simp add: ex_fs_def)
  moreover have "[''a''] \<parallel> [''b''] @ [''n'']" by (simp add: parallel_def)
  moreover have "FDir (fn_entries ex_tree) = ex_tree" by (simp add: ex_tree_def)
  ultimately show ?thesis using copy_copies_directory [of "''/a''" ex_fs "[''a'']" "fn_entries ex_tree" 3 "''n''" "[''b'']" "''n''" "[]"] by auto
qed

lemma copy_onto_itself_empties_witness:
  "\<exists>s. Copy 0 ''/a/f'' ''/a//f'' ex_fs = Some (True, s) \<and> GetContent ''/a/f'' s = Some []"
proof -
  have "names_place ''/a/f'' ex_fs [''a'', ''f'']" "names_place ''/a//f'' ex_fs [''a'', ''f'']"
    "fs_find [''a'', ''f''] (fs_root ex_fs) = Some (FFile ''x'')" by code_simp+
  moreover have "\<not> fs_denied ex_fs [''a'', ''f'']" by (simp add: ex_fs_def)
  ultimately show ?thesis using copy_onto_itself_empties [of "''/a/f''" ex_fs "[''a'', ''f'']" "''/a//f''" "''x''" 0] by auto
qed

lemma remove_all_files_stops_witness:
  "\<exists>s. RemoveAllFiles ''/a'' ex_fs = (False, s) \<and> fs_find [''a''] (fs_root s) = Some (FDir (tl (fn_entries ex_tree)))"
proof -
  have "names_place ''/a'' ex_fs [''a'']" "fs_find [''a''] (fs_root ex_fs) = Some (FDir ([hd (fn_entries ex_tree)] @ tl (fn_entries ex_tree)))"
    "distinct (map fst ([hd (fn_entries ex_tree)] @ tl (fn_entries ex_tree)))"
    "list_all (\<lambda>e. good_name (fst e)) ([hd (fn_entries ex_tree)] @ tl (fn_entries ex_tree))"
    "list_all (\<lambda>e. is_file (snd e)) [hd (fn_entries ex_tree)]" by code_simp+
  moreover have "fs_denied ex_fs = (\<lambda>_. False)" by (simp add: ex_fs_def)
  moreover have "tl (fn_entries ex_tree) = [] \<or> \<not> is_file (snd (hd (tl (fn_entries ex_tree))))" "tl (fn_entries ex_tree) \<noteq> []" by code_simp+
  ultimately show ?thesis
    using remove_all_files_stops [of "''/a''" ex_fs "[''a'']" "[hd (fn_entries ex_tree)]" "tl (fn_entries ex_tree)"] by simp
qed

definition ex_parse :: "string \<Rightarrow> string option" where "ex_parse s = (case s of [] \<Rightarrow> None | c # cs \<Rightarrow> Some cs)"

lemma proto_file_roundtrip_witness:
  "\<exists>s. SetProtoToBinaryFile (\<lambda>m. CHR ''b'' # m) ''m'' ''p.bin'' ex_fs = (True, s)
     \<and> GetProtoFromFile ex_parse ex_parse ''p.bin'' s = Some (Some ''m'')"
proof -
  have p: "ex_parse (CHR ''t'' # ''m'') = Some ''m''" "ex_parse (CHR ''b'' # ''m'') = Some ''m''" by (simp_all add: ex_parse_def)
  have "\<not> strict_suffix ''p.bin'' ''.bin''" "suffix ''.bin'' ''p.bin''" by code_simp+
  moreover have "names_place ''p.bin'' ex_fs ([''b''] @ [''p.bin''])" "path_parts ''p.bin'' [] \<noteq> []" "fs_find [''b''] (fs_root ex_fs) = Some (FDir [])"
    "fs_find ([''b''] @ [''p.bin'']) (fs_root ex_fs) = None" by code_simp+
  moreover have "\<not> fs_denied ex_fs ([''b''] @ [''p.bin''])" by (simp add: ex_fs_def)
  ultimately show ?thesis
    using proto_file_roundtrip [where parse_text = ex_parse and print_text = "\<lambda>m. CHR ''t'' # m" and parse = ex_parse and serialize = "\<lambda>m. CHR ''b'' # m"
      and m = "''m''" and name = "''p.bin''" and s = ex_fs and t = "[''b'']" and x = "''p.bin''" and es = "[]"] p by simp
qed

end
