(* ===== verification/Task_Pool.thy ===== *)
theory Task_Pool
  imports Croutine "HOL-Library.Multiset"
begin

text \<open>
  The pools that run tasks (task/task_manager.h, task_manager.cc, base/thread_pool.h), as steps of their
  workers and callers. The bounded queue of theory \<open>Bounded_Queue\<close> is its abstract value here, a list
  with a capacity; a task is its number. The workers of the task manager are routines, which a
  processor looks at with \<open>UpdateState\<close> when they are not running (in one step here; the accesses
  of \<open>UpdateState\<close> are apart in theory \<open>Croutine\<close>); those of the thread pool are threads that wait for
  a condition variable.
\<close>

section \<open>Queues of work\<close>

text \<open>What a pool's steps do to its tasks: accept one, hand one to a worker, finish one, or nothing.\<close>

locale work_queue =
  fixes start :: 's and step :: "'s \<Rightarrow> 's \<Rightarrow> bool" and capacity :: nat
    and queue accepted taken ran :: "'s \<Rightarrow> nat list" and busy :: "'s \<Rightarrow> nat multiset"
  assumes start_empty: "queue start = []" "accepted start = []" "taken start = []" "ran start = []" "busy start = {#}"
    and step_kinds: "step s s' \<Longrightarrow>
      (queue s' = queue s \<and> accepted s' = accepted s \<and> taken s' = taken s \<and> ran s' = ran s \<and> busy s' = busy s)
    \<or> (\<exists>t. length (queue s) < capacity \<and> queue s' = queue s @ [t] \<and> accepted s' = accepted s @ [t]
        \<and> taken s' = taken s \<and> ran s' = ran s \<and> busy s' = busy s)
    \<or> (\<exists>t. queue s = t # queue s' \<and> taken s' = taken s @ [t] \<and> accepted s' = accepted s \<and> ran s' = ran s \<and> busy s' = add_mset t (busy s))
    \<or> (\<exists>t. ran s' = ran s @ [t] \<and> busy s = add_mset t (busy s') \<and> queue s' = queue s \<and> accepted s' = accepted s \<and> taken s' = taken s)"
begin

lemma tasks_kept:
  "reach start step s \<Longrightarrow> accepted s = taken s @ queue s \<and> mset (taken s) = mset (ran s) + busy s \<and> length (queue s) \<le> capacity"
proof (induction rule: reach.induct)
  case reach_init
  show ?case by (simp add: start_empty)
next
  case (reach_step s s')
  from step_kinds [OF reach_step.hyps(2)] show ?case
  proof (elim disjE exE conjE)
    fix t assume "queue s = t # queue s'" "taken s' = taken s @ [t]" "accepted s' = accepted s" "ran s' = ran s" "busy s' = add_mset t (busy s)"
    then show ?thesis using reach_step.IH by simp
  qed (use reach_step.IH in simp_all)
qed

lemma run_once:
  assumes "reach start step s"
  shows "mset (ran s) \<subseteq># mset (accepted s)" and "taken s = take (length (taken s)) (accepted s)"
    and "busy s = {#} \<and> queue s = [] \<Longrightarrow> mset (ran s) = mset (accepted s)"
  using tasks_kept [OF assms] by (auto simp: subset_mset.le_add_same_cancel1 subseteq_mset_def)

end

lemma sum_upd_mset:
  fixes g :: "'p \<Rightarrow> 'm multiset" and n :: nat
  assumes "t < n"
  shows "(\<Sum>u<n. g ((f(t := x)) u)) + g (f t) = (\<Sum>u<n. g (f u)) + g x"
proof -
  have "(\<Sum>u<n. g (h u)) = g (h t) + (\<Sum>u \<in> {..<n} - {t}. g (h u))" for h :: "nat \<Rightarrow> 'p"
    using assms by (intro sum.remove) auto
  from this [of f] this [of "f(t := x)"] show ?thesis by simp
qed

section \<open>The task manager\<close>

text \<open>Where a worker's routine is - not running, at the loop's test, about to take a task, with none
  found, running one, returned - and where a caller of \<open>Enqueue\<close> is: the workers it has yet to notify,
  and whether it has found the first of them waiting.\<close>

datatype tw_pc = TwOut | TwTop | TwLook | TwFailed | TwRun nat | TwEnd
datatype tq_pc = TqIdle | TqNotify "nat list" | TqFlag nat "nat list"

record task_pool =
  tp_threads :: nat
  tp_stop :: bool
  tp_queue :: "nat list"
  tp_cr :: "nat \<Rightarrow> croutine"
  tp_pc :: "nat \<Rightarrow> tw_pc"
  tp_caller :: "nat \<Rightarrow> tq_pc"
  tp_accepted :: "nat list"
  tp_refused :: "nat list"
  tp_taken :: "nat list"
  tp_ran :: "nat list"

definition task_queue_size :: nat where "task_queue_size = 1000"

definition tp_new :: "nat \<Rightarrow> task_pool" where
  "tp_new num_threads = \<lparr>tp_threads = num_threads, tp_stop = False, tp_queue = [], tp_cr = (\<lambda>_. cr_new 0), tp_pc = (\<lambda>_. TwOut),
     tp_caller = (\<lambda>_. TqIdle), tp_accepted = [], tp_refused = [], tp_taken = [], tp_ran = []\<rparr>"

text \<open>The answer of \<open>task_queue_->Enqueue\<close> is ignored: a task that does not fit is gone.\<close>

definition tp_put :: "nat \<Rightarrow> task_pool \<Rightarrow> task_pool" where
  "tp_put t s = (if length (tp_queue s) < task_queue_size then s\<lparr>tp_queue := tp_queue s @ [t], tp_accepted := tp_accepted s @ [t]\<rparr>
     else s\<lparr>tp_refused := tp_refused s @ [t]\<rparr>)"

definition tp_Shutdown :: "task_pool \<Rightarrow> task_pool" where "tp_Shutdown s = s\<lparr>tp_stop := True\<rparr>"

inductive tp_wstep :: "nat \<Rightarrow> task_pool \<Rightarrow> task_pool \<Rightarrow> bool" for w where
  tp_scan: "tp_pc s w = TwOut \<Longrightarrow> cr_UpdateState now (tp_cr s w) = (st, c) \<Longrightarrow>
    tp_wstep w s (s\<lparr>tp_cr := (tp_cr s)(w := c), tp_pc := (tp_pc s)(w := if st = READY then TwTop else TwOut)\<rparr>)"
| tp_test: "tp_pc s w = TwTop \<Longrightarrow> tp_wstep w s (s\<lparr>tp_pc := (tp_pc s)(w := if tp_stop s then TwEnd else TwLook)\<rparr>)"
| tp_take: "tp_pc s w = TwLook \<Longrightarrow> tp_queue s = t # q \<Longrightarrow>
    tp_wstep w s (s\<lparr>tp_queue := q, tp_taken := tp_taken s @ [t], tp_pc := (tp_pc s)(w := TwRun t)\<rparr>)"
| tp_empty: "tp_pc s w = TwLook \<Longrightarrow> tp_queue s = [] \<Longrightarrow> tp_wstep w s (s\<lparr>tp_pc := (tp_pc s)(w := TwFailed)\<rparr>)"
| tp_hang: "tp_pc s w = TwFailed \<Longrightarrow>
    tp_wstep w s (s\<lparr>tp_cr := (tp_cr s)(w := cr_HangUp (tp_cr s w)), tp_pc := (tp_pc s)(w := TwOut)\<rparr>)"
| tp_run: "tp_pc s w = TwRun t \<Longrightarrow> tp_wstep w s (s\<lparr>tp_ran := tp_ran s @ [t], tp_pc := (tp_pc s)(w := TwTop)\<rparr>)"

inductive tp_step :: "task_pool \<Rightarrow> task_pool \<Rightarrow> bool" where
  tp_worker: "w < tp_threads s \<Longrightarrow> tp_wstep w s s' \<Longrightarrow> tp_step s s'"
| tp_enqueue: "tp_caller s k = TqIdle \<Longrightarrow> \<not> tp_stop s \<Longrightarrow>
    tp_step s (tp_put t (s\<lparr>tp_caller := (tp_caller s)(k := TqNotify [0..<tp_threads s])\<rparr>))"
| tp_notify: "tp_caller s k = TqNotify (w # ws) \<Longrightarrow>
    tp_step s (s\<lparr>tp_caller := (tp_caller s)(k := if cr_waits (tp_cr s w) then TqFlag w ws else TqNotify ws)\<rparr>)"
| tp_flag: "tp_caller s k = TqFlag w ws \<Longrightarrow>
    tp_step s (s\<lparr>tp_cr := (tp_cr s)(w := cr_SetUpdateFlag (tp_cr s w)), tp_caller := (tp_caller s)(k := TqNotify ws)\<rparr>)"
| tp_notified: "tp_caller s k = TqNotify [] \<Longrightarrow> tp_step s (s\<lparr>tp_caller := (tp_caller s)(k := TqIdle)\<rparr>)"
| tp_shutdown: "tp_step s (tp_Shutdown s)"

definition tw_task :: "tw_pc \<Rightarrow> nat multiset" where "tw_task p = (case p of TwRun t \<Rightarrow> {#t#} | _ \<Rightarrow> {#})"

definition tp_busy :: "task_pool \<Rightarrow> nat multiset" where "tp_busy s = (\<Sum>w<tp_threads s. tw_task (tp_pc s w))"

lemma tp_busy_upd:
  "w < tp_threads s \<Longrightarrow> tp_threads s' = tp_threads s \<Longrightarrow> tp_pc s' = (tp_pc s)(w := p) \<Longrightarrow>
    tp_busy s' + tw_task (tp_pc s w) = tp_busy s + tw_task p"
  using sum_upd_mset [of w "tp_threads s" tw_task "tp_pc s" p] by (simp add: tp_busy_def)

interpretation tasks: work_queue "tp_new n" tp_step task_queue_size tp_queue tp_accepted tp_taken tp_ran tp_busy
proof
  show "tp_queue (tp_new n) = []" "tp_accepted (tp_new n) = []" "tp_taken (tp_new n) = []" "tp_ran (tp_new n) = []" "tp_busy (tp_new n) = {#}"
    by (simp_all add: tp_new_def tp_busy_def tw_task_def)
next
  fix s s' assume "tp_step s s'"
  then show "(tp_queue s' = tp_queue s \<and> tp_accepted s' = tp_accepted s \<and> tp_taken s' = tp_taken s \<and> tp_ran s' = tp_ran s \<and> tp_busy s' = tp_busy s)
    \<or> (\<exists>t. length (tp_queue s) < task_queue_size \<and> tp_queue s' = tp_queue s @ [t] \<and> tp_accepted s' = tp_accepted s @ [t]
        \<and> tp_taken s' = tp_taken s \<and> tp_ran s' = tp_ran s \<and> tp_busy s' = tp_busy s)
    \<or> (\<exists>t. tp_queue s = t # tp_queue s' \<and> tp_taken s' = tp_taken s @ [t] \<and> tp_accepted s' = tp_accepted s \<and> tp_ran s' = tp_ran s
        \<and> tp_busy s' = add_mset t (tp_busy s))
    \<or> (\<exists>t. tp_ran s' = tp_ran s @ [t] \<and> tp_busy s = add_mset t (tp_busy s') \<and> tp_queue s' = tp_queue s \<and> tp_accepted s' = tp_accepted s
        \<and> tp_taken s' = tp_taken s)"
  proof cases
    case (tp_worker w)
    note b = tp_busy_upd [OF tp_worker(1), of s']
    from tp_worker(2) show ?thesis
    proof cases
      case (tp_take t q)
      then show ?thesis using b [of "TwRun t"] by (simp add: tw_task_def)
    next
      case (tp_run t)
      then show ?thesis using b [of TwTop] by (simp add: tw_task_def)
    next
      case (tp_scan now st c)
      then show ?thesis using b [of "if st = READY then TwTop else TwOut"] by (simp add: tw_task_def split: if_splits)
    next
      case tp_test
      then show ?thesis using b [of "if tp_stop s then TwEnd else TwLook"] by (simp add: tw_task_def split: if_splits)
    next
      case tp_empty
      then show ?thesis using b [of TwFailed] by (simp add: tw_task_def)
    next
      case tp_hang
      then show ?thesis using b [of TwOut] by (simp add: tw_task_def)
    qed
  qed (simp_all add: tp_busy_def tp_Shutdown_def tp_put_def)
qed

text \<open>A task runs at most once, and none that was accepted is lost in between: whatever workers,
  callers and a shutdown do, the tasks run are among those accepted, as often as there; the workers
  take them in the order of acceptance; and when nothing is queued or running, exactly the tasks
  accepted have run.\<close>

theorem tasks_run_once:
  assumes "reach (tp_new n) tp_step s"
  shows "mset (tp_ran s) \<subseteq># mset (tp_accepted s) \<and> tp_taken s = take (length (tp_taken s)) (tp_accepted s) \<and> length (tp_queue s) \<le> 1000
    \<and> (tp_busy s = {#} \<and> tp_queue s = [] \<longrightarrow> mset (tp_ran s) = mset (tp_accepted s))"
  using tasks.run_once [OF assms] tasks.tasks_kept [OF assms] by (auto simp: task_queue_size_def)

lemma reach_trans: "reach s step s' \<Longrightarrow> reach s' step s'' \<Longrightarrow> reach s step s''"
  by (rotate_tac, induction rule: reach.induct) (auto intro: reach_step)

lemma worker_drains:
  "tp_pc s w = TwTop \<Longrightarrow> \<not> tp_stop s \<Longrightarrow> \<exists>s'. reach s (tp_wstep w) s' \<and> tp_queue s' = [] \<and> tp_ran s' = tp_ran s @ tp_queue s"
proof (induction "tp_queue s" arbitrary: s)
  case Nil
  then show ?case by (intro exI [of _ s]) (simp add: reach_init)
next
  case (Cons t q)
  let ?s1 = "s\<lparr>tp_pc := (tp_pc s)(w := TwLook)\<rparr>"
  let ?s2 = "?s1\<lparr>tp_queue := q, tp_taken := tp_taken s @ [t], tp_pc := (tp_pc s)(w := TwRun t)\<rparr>"
  let ?s3 = "?s2\<lparr>tp_ran := tp_ran s @ [t], tp_pc := (tp_pc s)(w := TwTop)\<rparr>"
  have "reach s (tp_wstep w) ?s1" using tp_test [OF Cons.prems(1)] Cons.prems(2) by (intro reach_one) simp
  then have "reach s (tp_wstep w) ?s2" by (rule reach_eq) (rule tp_take [where t = t and q = q], simp_all add: Cons.hyps(2) [symmetric])
  then have r: "reach s (tp_wstep w) ?s3" by (rule reach_eq) (rule tp_run [where t = t], simp_all)
  obtain s' where "reach ?s3 (tp_wstep w) s'" "tp_queue s' = []" "tp_ran s' = tp_ran s @ t # q"
    using Cons.hyps(1) [of ?s3] Cons.prems by auto
  then show ?case using reach_trans [OF r] Cons.hyps(2) by metis
qed

text \<open>One notification is enough for all tasks: a worker whose routine is not running and has a
  notification pending runs, by its own steps alone, every task of the queue in order, until the
  queue is empty.\<close>

theorem woken_worker_drains:
  assumes "tp_pc s w = TwOut" and "cr_runnable now (tp_cr s w)" and "\<not> tp_stop s"
  shows "\<exists>s'. reach s (tp_wstep w) s' \<and> tp_queue s' = [] \<and> tp_ran s' = tp_ran s @ tp_queue s"
proof -
  obtain st c where u: "cr_UpdateState now (tp_cr s w) = (st, c)" by (cases "cr_UpdateState now (tp_cr s w)")
  have st: "st = READY" using u assms(2) cr_UpdateState_ready [of now "tp_cr s w"] by simp
  let ?s = "s\<lparr>tp_cr := (tp_cr s)(w := c), tp_pc := (tp_pc s)(w := TwTop)\<rparr>"
  have r: "reach s (tp_wstep w) ?s" using tp_scan [OF assms(1) u] st by (intro reach_one) simp
  obtain s' where "reach ?s (tp_wstep w) s'" "tp_queue s' = []" "tp_ran s' = tp_ran s @ tp_queue s"
    using worker_drains [of ?s w] assms(3) by auto
  then show ?thesis using reach_trans [OF r] by blast
qed

text \<open>A worker that sleeps with no notification pending: looking at it changes nothing.\<close>

definition tp_asleep :: "task_pool \<Rightarrow> nat \<Rightarrow> bool" where
  "tp_asleep s w \<longleftrightarrow> tp_pc s w = TwOut \<and> cr_state (tp_cr s w) = DATA_WAIT \<and> cr_updated (tp_cr s w)"

lemma asleep_stays: "tp_asleep s w \<Longrightarrow> tp_wstep w s s' \<Longrightarrow> s' = s"
proof -
  assume a: "tp_asleep s w" and "tp_wstep w s s'"
  from this(2) show ?thesis
  proof cases
    case (tp_scan now st c)
    then have "c = tp_cr s w" "st \<noteq> READY" using a by (auto simp: tp_asleep_def cr_UpdateState_def Let_def)
    then show ?thesis using tp_scan a by (cases s) (auto simp: tp_asleep_def fun_upd_idem)
  qed (use a in \<open>auto simp: tp_asleep_def\<close>)
qed

text \<open>But a task can be left behind: a caller that accepts and notifies between the moment the worker
  finds the queue empty and the moment it hangs up finds a routine that does not wait yet and
  notifies nobody. With one worker the task then stays in the queue, the worker asleep with
  nothing pending, until another task comes.\<close>

theorem enqueue_loses_wakeup:
  "\<exists>s. reach (tp_new 1) tp_step s \<and> tp_queue s = [t] \<and> \<not> tp_stop s \<and> tp_asleep s 0 \<and> tp_caller s = (\<lambda>_. TqIdle)"
proof -
  let ?c = "cr_new 0"
  let ?s1 = "(tp_new 1)\<lparr>tp_pc := (\<lambda>_. TwOut)(0 := TwTop)\<rparr>"
  let ?s2 = "?s1\<lparr>tp_pc := (\<lambda>_. TwOut)(0 := TwLook)\<rparr>"
  let ?s3 = "?s2\<lparr>tp_pc := (\<lambda>_. TwOut)(0 := TwFailed)\<rparr>"
  let ?s4 = "?s3\<lparr>tp_caller := (\<lambda>_. TqIdle)(0 := TqNotify [0]), tp_queue := [t], tp_accepted := [t]\<rparr>"
  let ?s5 = "?s4\<lparr>tp_caller := (\<lambda>_. TqIdle)(0 := TqNotify [])\<rparr>"
  let ?s6 = "?s5\<lparr>tp_caller := (\<lambda>_. TqIdle)\<rparr>"
  let ?s7 = "?s6\<lparr>tp_cr := (\<lambda>_. ?c)(0 := cr_HangUp ?c), tp_pc := (\<lambda>_. TwOut)\<rparr>"
  have u: "cr_UpdateState 0 ?c = (READY, ?c)" by (simp add: cr_UpdateState_def cr_new_def cr_waits_def)
  have "reach (tp_new 1) tp_step ?s1"
    by (rule reach_eq [OF reach_init]) (rule tp_worker [where w = 0], simp add: tp_new_def, rule tp_scan [where now = 0 and st = READY and c = ?c],
      simp_all add: tp_new_def u fun_upd_idem)
  then have "reach (tp_new 1) tp_step ?s2"
    by (rule reach_eq) (rule tp_worker [where w = 0], simp add: tp_new_def, rule tp_test, simp_all add: tp_new_def)
  then have "reach (tp_new 1) tp_step ?s3"
    by (rule reach_eq) (rule tp_worker [where w = 0], simp add: tp_new_def, rule tp_empty, simp_all add: tp_new_def)
  then have "reach (tp_new 1) tp_step ?s4"
    by (rule reach_eq) (rule tp_enqueue [where k = 0 and t = t], simp_all add: tp_new_def tp_put_def task_queue_size_def)
  then have "reach (tp_new 1) tp_step ?s5"
    by (rule reach_eq) (rule tp_notify [where k = 0 and w = 0 and ws = "[]"], simp_all add: tp_new_def cr_new_def cr_waits_def)
  then have "reach (tp_new 1) tp_step ?s6"
    by (rule reach_eq) (rule tp_notified [where k = 0], simp_all add: tp_new_def fun_upd_idem)
  then have "reach (tp_new 1) tp_step ?s7"
    by (rule reach_eq) (rule tp_worker [where w = 0], simp add: tp_new_def, rule tp_hang, simp_all add: tp_new_def fun_upd_idem)
  then show ?thesis
    by (intro exI [of _ ?s7]) (simp add: tp_new_def tp_asleep_def cr_HangUp_def cr_Yield_state_def cr_new_def)
qed

section \<open>The thread pool\<close>

text \<open>A worker is at the test of \<open>stop_\<close>, at that of \<open>break_all_wait_\<close>, about to take a task, with none
  found, waiting for the condition variable (which may wake it for no reason), running a task, or
  returned. A caller of \<open>Enqueue\<close> is about to notify; the destructor has set \<open>stop_\<close>, set
  \<open>break_all_wait_\<close>, notified all, or joined them.\<close>

datatype th_pc = ThStop | ThBreak | ThLook | ThFailed | ThWait | ThRun nat | ThEnd
datatype th_end = ThAlive | ThStopped | ThBroken | ThNotified | ThJoined

record thread_pool =
  th_workers :: nat
  th_size :: nat
  th_stop :: bool
  th_break :: bool
  th_queue :: "nat list"
  th_at :: "nat \<Rightarrow> th_pc"
  th_notifying :: "nat \<Rightarrow> bool"
  th_destructor :: th_end
  th_accepted :: "nat list"
  th_taken :: "nat list"
  th_ran :: "nat list"

definition th_new :: "nat \<Rightarrow> nat \<Rightarrow> thread_pool" where
  "th_new threads max_task_num = \<lparr>th_workers = threads, th_size = max_task_num, th_stop = False, th_break = False, th_queue = [], th_at = (\<lambda>_. ThStop),
     th_notifying = (\<lambda>_. False), th_destructor = ThAlive, th_accepted = [], th_taken = [], th_ran = []\<rparr>"

definition th_put :: "nat \<Rightarrow> nat \<Rightarrow> thread_pool \<Rightarrow> thread_pool" where
  "th_put k t s = (if length (th_queue s) < th_size s
     then s\<lparr>th_queue := th_queue s @ [t], th_accepted := th_accepted s @ [t], th_notifying := (th_notifying s)(k := True)\<rparr> else s)"

definition th_wake :: "th_pc \<Rightarrow> th_pc" where "th_wake p = (if p = ThWait then ThBreak else p)"

definition th_go :: "nat \<Rightarrow> th_pc \<Rightarrow> thread_pool \<Rightarrow> thread_pool" where "th_go w p s = s\<lparr>th_at := (th_at s)(w := p)\<rparr>"

inductive th_step :: "thread_pool \<Rightarrow> thread_pool \<Rightarrow> bool" where
  th_test: "w < th_workers s \<Longrightarrow> th_at s w = ThStop \<Longrightarrow> th_step s (th_go w (if th_stop s then ThEnd else ThBreak) s)"
| th_loop: "w < th_workers s \<Longrightarrow> th_at s w = ThBreak \<Longrightarrow> th_step s (th_go w (if th_break s then ThStop else ThLook) s)"
| th_take: "w < th_workers s \<Longrightarrow> th_at s w = ThLook \<Longrightarrow> th_queue s = t # q \<Longrightarrow>
    th_step s (th_go w (ThRun t) (s\<lparr>th_queue := q, th_taken := th_taken s @ [t]\<rparr>))"
| th_empty: "w < th_workers s \<Longrightarrow> th_at s w = ThLook \<Longrightarrow> th_queue s = [] \<Longrightarrow> th_step s (th_go w ThFailed s)"
| th_sleep: "w < th_workers s \<Longrightarrow> th_at s w = ThFailed \<Longrightarrow> th_step s (th_go w ThWait s)"
| th_spurious: "w < th_workers s \<Longrightarrow> th_at s w = ThWait \<Longrightarrow> th_step s (th_go w ThBreak s)"
| th_run: "w < th_workers s \<Longrightarrow> th_at s w = ThRun t \<Longrightarrow> th_step s (th_go w ThStop (s\<lparr>th_ran := th_ran s @ [t]\<rparr>))"
| th_enqueue: "\<not> th_stop s \<Longrightarrow> \<not> th_notifying s k \<Longrightarrow> th_step s (th_put k t s)"
| th_notify: "th_notifying s k \<Longrightarrow> w < th_workers s \<Longrightarrow> th_at s w = ThWait \<Longrightarrow>
    th_step s (th_go w ThBreak (s\<lparr>th_notifying := (th_notifying s)(k := False)\<rparr>))"
| th_notify_none: "th_notifying s k \<Longrightarrow> list_all (\<lambda>w. th_at s w \<noteq> ThWait) [0..<th_workers s] \<Longrightarrow>
    th_step s (s\<lparr>th_notifying := (th_notifying s)(k := False)\<rparr>)"
| th_destroy: "th_destructor s = ThAlive \<Longrightarrow> \<not> th_stop s \<Longrightarrow> th_step s (s\<lparr>th_stop := True, th_destructor := ThStopped\<rparr>)"
| th_break_all: "th_destructor s = ThStopped \<Longrightarrow> th_step s (s\<lparr>th_break := True, th_destructor := ThBroken\<rparr>)"
| th_notify_all: "th_destructor s = ThBroken \<Longrightarrow> th_step s (s\<lparr>th_at := (\<lambda>w. th_wake (th_at s w)), th_destructor := ThNotified\<rparr>)"
| th_join: "th_destructor s = ThNotified \<Longrightarrow> list_all (\<lambda>w. th_at s w = ThEnd) [0..<th_workers s] \<Longrightarrow>
    th_step s (s\<lparr>th_destructor := ThJoined\<rparr>)"

definition th_task :: "th_pc \<Rightarrow> nat multiset" where "th_task p = (case p of ThRun t \<Rightarrow> {#t#} | _ \<Rightarrow> {#})"
definition th_busy :: "thread_pool \<Rightarrow> nat multiset" where "th_busy s = (\<Sum>w<th_workers s. th_task (th_at s w))"

lemma th_task_simps [simp]: "th_task (ThRun t) = {#t#}" "th_task ThStop = {#}" "th_task ThBreak = {#}" "th_task ThLook = {#}"
  "th_task ThFailed = {#}" "th_task ThWait = {#}" "th_task ThEnd = {#}" "th_task (th_wake p) = th_task p"
  by (simp_all add: th_task_def th_wake_def)

lemma th_busy_go: "w < th_workers s \<Longrightarrow> th_busy (th_go w p s) + th_task (th_at s w) = th_busy s + th_task p"
  using sum_upd_mset [of w "th_workers s" th_task "th_at s" p] by (simp add: th_busy_def th_go_def)

lemma th_go_fields [simp]: "th_queue (th_go w p s) = th_queue s" "th_accepted (th_go w p s) = th_accepted s"
  "th_taken (th_go w p s) = th_taken s" "th_ran (th_go w p s) = th_ran s" "th_stop (th_go w p s) = th_stop s" "th_break (th_go w p s) = th_break s"
  "th_destructor (th_go w p s) = th_destructor s" "th_workers (th_go w p s) = th_workers s" "th_size (th_go w p s) = th_size s"
  "th_notifying (th_go w p s) = th_notifying s" "th_at (th_go w p s) = (th_at s)(w := p)"
  by (simp_all add: th_go_def)

lemma th_busy_frame: "th_workers s' = th_workers s \<Longrightarrow> th_at s' = th_at s \<Longrightarrow> th_busy s' = th_busy s"
  by (simp add: th_busy_def)

lemma th_busy_taken: "w < th_workers s \<Longrightarrow> th_task (th_at s w) = {#} \<Longrightarrow> th_busy (th_go w p s) = th_busy s + th_task p"
  using th_busy_go [of w s p] by simp

interpretation threads: work_queue "th_new n m" "\<lambda>s s'. th_step s s' \<and> th_size s = m" m th_queue th_accepted th_taken th_ran th_busy
proof
  show "th_queue (th_new n m) = []" "th_accepted (th_new n m) = []" "th_taken (th_new n m) = []" "th_ran (th_new n m) = []" "th_busy (th_new n m) = {#}"
    by (simp_all add: th_new_def th_busy_def)
next
  fix s s' assume a: "th_step s s' \<and> th_size s = m"
  from conjunct1 [OF a] show "(th_queue s' = th_queue s \<and> th_accepted s' = th_accepted s \<and> th_taken s' = th_taken s \<and> th_ran s' = th_ran s \<and> th_busy s' = th_busy s)
    \<or> (\<exists>t. length (th_queue s) < m \<and> th_queue s' = th_queue s @ [t] \<and> th_accepted s' = th_accepted s @ [t]
        \<and> th_taken s' = th_taken s \<and> th_ran s' = th_ran s \<and> th_busy s' = th_busy s)
    \<or> (\<exists>t. th_queue s = t # th_queue s' \<and> th_taken s' = th_taken s @ [t] \<and> th_accepted s' = th_accepted s \<and> th_ran s' = th_ran s
        \<and> th_busy s' = add_mset t (th_busy s))
    \<or> (\<exists>t. th_ran s' = th_ran s @ [t] \<and> th_busy s = add_mset t (th_busy s') \<and> th_queue s' = th_queue s \<and> th_accepted s' = th_accepted s
        \<and> th_taken s' = th_taken s)"
  proof cases
    case (th_take w t q)
    then show ?thesis using th_busy_taken [of w "s\<lparr>th_queue := q, th_taken := th_taken s @ [t]\<rparr>" "ThRun t"]
        th_busy_frame [of "s\<lparr>th_queue := q, th_taken := th_taken s @ [t]\<rparr>" s] by simp
  next
    case (th_run w t)
    then show ?thesis using th_busy_go [of w "s\<lparr>th_ran := th_ran s @ [t]\<rparr>" ThStop] th_busy_frame [of "s\<lparr>th_ran := th_ran s @ [t]\<rparr>" s] by simp
  next
    case (th_notify k w)
    then show ?thesis using th_busy_taken [of w "s\<lparr>th_notifying := (th_notifying s)(k := False)\<rparr>" ThBreak]
        th_busy_frame [of "s\<lparr>th_notifying := (th_notifying s)(k := False)\<rparr>" s] by simp
  next
    case (th_enqueue k t)
    then show ?thesis using conjunct2 [OF a] th_busy_frame [of "th_put k t s" s] by (simp add: th_put_def)
  qed (simp_all add: th_busy_taken, simp_all add: th_busy_def)
qed

lemma th_step_size: "th_step s s' \<Longrightarrow> th_size s' = th_size s"
  by (erule th_step.cases) (simp_all add: th_put_def)

lemma th_reach_sized: "reach (th_new n m) th_step s \<Longrightarrow> reach (th_new n m) (\<lambda>s s'. th_step s s' \<and> th_size s = m) s \<and> th_size s = m"
proof (induction rule: reach.induct)
  case reach_init
  show ?case by (auto intro: reach.reach_init simp: th_new_def)
next
  case (reach_step s s')
  have "reach (th_new n m) (\<lambda>s s'. th_step s s' \<and> th_size s = m) s'"
    by (rule reach.reach_step [where s = s]) (use reach_step in simp_all)
  then show ?case using reach_step th_step_size by simp
qed

text \<open>The thread pool runs a task at most once, in the order of acceptance, and no more wait than
  there is room for, whatever workers, callers and the destructor do; when nothing is queued or
  running, exactly the tasks accepted have run.\<close>

theorem pool_runs_once:
  assumes "reach (th_new n m) th_step s"
  shows "mset (th_ran s) \<subseteq># mset (th_accepted s) \<and> th_taken s = take (length (th_taken s)) (th_accepted s) \<and> length (th_queue s) \<le> m
    \<and> (th_busy s = {#} \<and> th_queue s = [] \<longrightarrow> mset (th_ran s) = mset (th_accepted s))"
  using threads.run_once [OF conjunct1 [OF th_reach_sized [OF assms]]] threads.tasks_kept [OF conjunct1 [OF th_reach_sized [OF assms]]] by auto

text \<open>The destructor can hang: a worker that has found the queue empty and has not begun to wait is
  missed by \<open>notify_all\<close>, and then waits without looking at \<open>break_all_wait_\<close> again. There is a run
  of a pool of one thread, with nothing ever enqueued, to a state where the destructor has notified and
  waits to join, and the worker waits for a notification that nobody is left to send.\<close>

theorem pool_destructor_hangs:
  "\<exists>s. reach (th_new 1 m) th_step s \<and> th_destructor s = ThNotified \<and> th_break s \<and> th_stop s \<and> th_at s 0 = ThWait \<and> th_notifying s = (\<lambda>_. False)"
proof -
  let ?i = "th_new 1 m"
  let ?f = "th_go 0 ThFailed (th_go 0 ThLook (th_go 0 ThBreak ?i))"
  let ?d = "?f\<lparr>th_stop := True, th_destructor := ThStopped\<rparr>"
  let ?b = "?d\<lparr>th_break := True, th_destructor := ThBroken\<rparr>"
  let ?n = "?b\<lparr>th_at := (\<lambda>w. th_wake (th_at ?b w)), th_destructor := ThNotified\<rparr>"
  have "reach ?i th_step (th_go 0 ThBreak ?i)" by (rule reach_eq [OF reach_init]) (rule th_test [where w = 0], simp_all add: th_new_def)
  then have "reach ?i th_step (th_go 0 ThLook (th_go 0 ThBreak ?i))" by (rule reach_eq) (rule th_loop [where w = 0], simp_all add: th_new_def)
  then have "reach ?i th_step ?f" by (rule reach_eq) (rule th_empty [where w = 0], simp_all add: th_new_def)
  then have "reach ?i th_step ?d" by (rule reach_eq) (rule th_destroy, simp_all add: th_new_def)
  then have "reach ?i th_step ?b" by (rule reach_eq) (rule th_break_all, simp_all)
  then have "reach ?i th_step ?n" by (rule reach_eq) (rule th_notify_all, simp_all)
  then have "reach ?i th_step (th_go 0 ThWait ?n)" by (rule reach_eq) (rule th_sleep [where w = 0], simp_all add: th_new_def th_wake_def)
  then show ?thesis by (intro exI [of _ "th_go 0 ThWait ?n"]) (simp add: th_new_def)
qed

section \<open>Processors that sleep\<close>

text \<open>A processor (scheduler/processor.cc) with the context of the classic policy (classic_context.cc): it
  looks for a routine, runs it, or waits for the group's condition variable. A notifier sets the
  routine's flag and then notifies one processor, as \<open>NotifyProcessor\<close> of the classic scheduler does.
  The group has one queue here, and no routine sleeps.\<close>

datatype ps_pc = PsLook | PsRun nat | PsNone | PsWait | PsEnd
datatype pn_pc = PnIdle | PnFlag nat | PnNotify

record processors =
  ps_count :: nat
  ps_routines :: nat
  ps_running :: "nat \<Rightarrow> bool"
  ps_at :: "nat \<Rightarrow> ps_pc"
  ps_cr :: "nat \<Rightarrow> croutine"
  pn_at :: "nat \<Rightarrow> pn_pc"

definition ps_free :: "processors \<Rightarrow> nat \<Rightarrow> bool" where
  "ps_free s r \<longleftrightarrow> r < ps_routines s \<and> list_all (\<lambda>p. ps_at s p \<noteq> PsRun r) [0..<ps_count s]"

inductive ps_step :: "nat \<Rightarrow> processors \<Rightarrow> processors \<Rightarrow> bool" for now where
  ps_found: "p < ps_count s \<Longrightarrow> ps_at s p = PsLook \<Longrightarrow> ps_running s p \<Longrightarrow> ps_free s r \<Longrightarrow> cr_UpdateState now (ps_cr s r) = (READY, c) \<Longrightarrow>
    ps_step now s (s\<lparr>ps_at := (ps_at s)(p := PsRun r), ps_cr := (ps_cr s)(r := c)\<rparr>)"
| ps_none: "p < ps_count s \<Longrightarrow> ps_at s p = PsLook \<Longrightarrow> ps_running s p \<Longrightarrow>
    list_all (\<lambda>r. ps_free s r \<longrightarrow> \<not> cr_runnable now (ps_cr s r)) [0..<ps_routines s] \<Longrightarrow> ps_step now s (s\<lparr>ps_at := (ps_at s)(p := PsNone)\<rparr>)"
| ps_ran: "p < ps_count s \<Longrightarrow> ps_at s p = PsRun r \<Longrightarrow>
    ps_step now s (s\<lparr>ps_at := (ps_at s)(p := PsLook), ps_cr := (ps_cr s)(r := cr_HangUp (ps_cr s r))\<rparr>)"
| ps_wait: "p < ps_count s \<Longrightarrow> ps_at s p = PsNone \<Longrightarrow> ps_step now s (s\<lparr>ps_at := (ps_at s)(p := PsWait)\<rparr>)"
| ps_stopped: "p < ps_count s \<Longrightarrow> ps_at s p = PsLook \<Longrightarrow> \<not> ps_running s p \<Longrightarrow> ps_step now s (s\<lparr>ps_at := (ps_at s)(p := PsEnd)\<rparr>)"
| pn_begin: "pn_at s k = PnIdle \<Longrightarrow> r < ps_routines s \<Longrightarrow>
    ps_step now s (s\<lparr>pn_at := (pn_at s)(k := if cr_waits (ps_cr s r) then PnFlag r else PnNotify)\<rparr>)"
| pn_flag: "pn_at s k = PnFlag r \<Longrightarrow> ps_step now s (s\<lparr>ps_cr := (ps_cr s)(r := cr_SetUpdateFlag (ps_cr s r)), pn_at := (pn_at s)(k := PnNotify)\<rparr>)"
| pn_wake: "pn_at s k = PnNotify \<Longrightarrow> p < ps_count s \<Longrightarrow> ps_at s p = PsWait \<Longrightarrow>
    ps_step now s (s\<lparr>ps_at := (ps_at s)(p := PsLook), pn_at := (pn_at s)(k := PnIdle)\<rparr>)"
| pn_nobody: "pn_at s k = PnNotify \<Longrightarrow> list_all (\<lambda>p. ps_at s p \<noteq> PsWait) [0..<ps_count s] \<Longrightarrow>
    ps_step now s (s\<lparr>pn_at := (pn_at s)(k := PnIdle)\<rparr>)"

definition ps_start :: "nat \<Rightarrow> nat \<Rightarrow> processors" where
  "ps_start n m = \<lparr>ps_count = n, ps_routines = m, ps_running = (\<lambda>_. True), ps_at = (\<lambda>_. PsLook), ps_cr = (\<lambda>_. cr_new 0), pn_at = (\<lambda>_. PnIdle)\<rparr>"

text \<open>C25: A notification can be lost between the processors' look and their wait: the group's condition
  variable has no predicate and the notifier does not take its mutex, so a processor that has found
  nothing and is about to wait misses it. With one processor there is a run to a state where a routine
  has a notification pending and is runnable, the processor waits without a timeout, and no
  notifier is left.\<close>

theorem processor_misses_notification:
  "\<exists>s. reach (ps_start 1 1) (ps_step now) s \<and> cr_runnable now (ps_cr s 0) \<and> ps_at s 0 = PsWait \<and> pn_at s = (\<lambda>_. PnIdle)"
proof -
  let ?i = "ps_start 1 1" and ?c = "cr_HangUp (cr_new 0)"
  let ?r = "?i\<lparr>ps_at := (ps_at ?i)(0 := PsRun 0)\<rparr>"
  let ?l = "?r\<lparr>ps_at := (ps_at ?i)(0 := PsLook), ps_cr := (ps_cr ?i)(0 := ?c)\<rparr>"
  let ?n = "?l\<lparr>ps_at := (ps_at ?i)(0 := PsNone)\<rparr>"
  let ?b = "?n\<lparr>pn_at := (pn_at ?i)(0 := PnFlag 0)\<rparr>"
  let ?f = "?b\<lparr>ps_cr := (ps_cr ?i)(0 := cr_SetUpdateFlag ?c), pn_at := (pn_at ?i)(0 := PnNotify)\<rparr>"
  let ?d = "?f\<lparr>pn_at := (pn_at ?i)(0 := PnIdle)\<rparr>"
  let ?w = "?d\<lparr>ps_at := (ps_at ?i)(0 := PsWait)\<rparr>"
  have u: "cr_UpdateState now (cr_new 0) = (READY, cr_new 0)" by (simp add: cr_UpdateState_def cr_new_def cr_waits_def)
  have c: "cr_waits ?c" "\<not> cr_runnable now ?c" "cr_runnable now (cr_SetUpdateFlag ?c)"
    by (simp_all add: cr_waits_def cr_runnable_def cr_HangUp_def cr_Yield_state_def cr_SetUpdateFlag_def cr_new_def)
  have "reach ?i (ps_step now) ?r"
    by (rule reach_eq [OF reach_init]) (rule ps_found [where p = 0 and r = 0 and c = "cr_new 0"], simp_all add: ps_start_def ps_free_def u fun_upd_idem)
  then have "reach ?i (ps_step now) ?l" by (rule reach_eq) (rule ps_ran [where p = 0 and r = 0], simp_all add: ps_start_def fun_upd_idem)
  then have "reach ?i (ps_step now) ?n" by (rule reach_eq) (rule ps_none [where p = 0], simp_all add: ps_start_def c fun_upd_idem)
  then have "reach ?i (ps_step now) ?b" by (rule reach_eq) (rule pn_begin [where k = 0 and r = 0], simp_all add: ps_start_def c)
  then have "reach ?i (ps_step now) ?f" by (rule reach_eq) (rule pn_flag [where k = 0 and r = 0], simp_all add: ps_start_def)
  then have "reach ?i (ps_step now) ?d" by (rule reach_eq) (rule pn_nobody [where k = 0], simp_all add: ps_start_def)
  then have "reach ?i (ps_step now) ?w" by (rule reach_eq) (rule ps_wait [where p = 0], simp_all add: ps_start_def)
  then show ?thesis by (intro exI [of _ ?w]) (simp add: ps_start_def c fun_upd_idem)
qed

section \<open>Instances\<close>

definition ex_woken :: task_pool where
  "ex_woken = (tp_new 2)\<lparr>tp_queue := [7, 8], tp_cr := (\<lambda>_. cr_SetUpdateFlag (cr_HangUp (cr_new 0)))\<rparr>"

lemma woken_worker_drains_witness: "\<exists>s. reach ex_woken (tp_wstep 1) s \<and> tp_queue s = [] \<and> tp_ran s = [] @ [7, 8]"
proof -
  have "tp_pc ex_woken 1 = TwOut" "cr_runnable 0 (tp_cr ex_woken 1)" "\<not> tp_stop ex_woken" "tp_queue ex_woken = [7, 8]" "tp_ran ex_woken = []"
    by code_simp+
  then show ?thesis using woken_worker_drains [of ex_woken 1 0] by simp
qed

definition ex_queued :: task_pool where "ex_queued = tp_put 4 ((tp_new 1)\<lparr>tp_caller := (tp_caller (tp_new 1))(0 := TqNotify [0..<1])\<rparr>)"

lemma tasks_run_once_witness: "mset (tp_ran ex_queued) \<subseteq># mset (tp_accepted ex_queued) \<and> length (tp_queue ex_queued) = 1"
proof -
  have "reach (tp_new 1) tp_step ex_queued"
    by (rule reach_eq [OF reach_init]) (rule tp_enqueue [where k = 0 and t = 4], simp_all add: ex_queued_def tp_new_def)
  then show ?thesis using tasks_run_once [of 1 ex_queued] by (simp add: ex_queued_def tp_put_def tp_new_def task_queue_size_def)
qed

lemma pool_runs_once_witness:
  "mset (th_ran (th_put 0 4 (th_new 1 9))) \<subseteq># mset (th_accepted (th_put 0 4 (th_new 1 9))) \<and> th_queue (th_put 0 4 (th_new 1 9)) = [4]"
proof -
  have "reach (th_new 1 9) th_step (th_put 0 4 (th_new 1 9))" by (rule reach_one, rule th_enqueue) (simp_all add: th_new_def)
  then show ?thesis using pool_runs_once [of 1 9] by (simp add: th_put_def th_new_def)
qed

end
