(* ===== verification/Message_Header.thy ===== *)
theory Message_Header
  imports Message_Codec
begin

text \<open>
  The header of a message and the traits that write it before the message's own bytes
  (message/message_header.h, message_traits.h, raw_message.h). Buffers are lists of bytes. What the
  templates ask of a message type is a record of its optional member functions. \<open>None\<close> is an
  access outside of a buffer.
\<close>

section \<open>The header\<close>

text \<open>The array members, in their order.\<close>

record message_header =
  mhf_magic_num :: "u8 list"
  mhf_seq :: "u8 list"
  mhf_timestamp_ns :: "u8 list"
  mhf_src_id :: "u8 list"
  mhf_dst_id :: "u8 list"
  mhf_msg_type :: "u8 list"
  mhf_res :: "u8 list"
  mhf_content_size :: "u8 list"

text \<open>\<open>htonl\<close> puts the most significant byte first.\<close>

definition Convert32ToArray :: "u32 \<Rightarrow> u8 list" where "Convert32ToArray input = rev (bytes32 input)"
definition ConvertArrayTo32 :: "u8 list \<Rightarrow> u32" where "ConvertArrayTo32 input = word32 (rev (take 4 input))"

definition Convert64ToArray :: "u64 \<Rightarrow> u8 list" where
  "Convert64ToArray input = (let h_high = ucast (drop_bit 32 (input AND 0xffffffff00000000)); h_low = ucast (input AND 0x00000000ffffffff) in
     Convert32ToArray h_high @ Convert32ToArray h_low)"

definition ConvertArrayTo64 :: "u8 list \<Rightarrow> u64" where
  "ConvertArrayTo64 input = (let high = ucast (ConvertArrayTo32 input); low = ucast (ConvertArrayTo32 (drop 4 input)) in (push_bit 32 high) OR low)"

text \<open>The string \<open>BDACBDAC\<close>.\<close>

definition magic :: "u8 list" where "magic = [0x42, 0x44, 0x41, 0x43, 0x42, 0x44, 0x41, 0x43]"

definition mh_new :: message_header where
  "mh_new = \<lparr>mhf_magic_num = magic, mhf_seq = replicate 8 0, mhf_timestamp_ns = replicate 8 0, mhf_src_id = replicate 8 0, mhf_dst_id = replicate 8 0,
     mhf_msg_type = replicate 129 0, mhf_res = replicate 19 0, mhf_content_size = replicate 4 0\<rparr>"

definition mh_is_magic_num_match :: "u8 list option \<Rightarrow> message_header \<Rightarrow> bool" where
  "mh_is_magic_num_match other h = (case other of None \<Rightarrow> False | Some bs \<Rightarrow> length bs = 8 \<and> mhf_magic_num h = bs)"

definition mh_seq :: "message_header \<Rightarrow> u64" where "mh_seq h = ConvertArrayTo64 (mhf_seq h)"
definition mh_set_seq :: "u64 \<Rightarrow> message_header \<Rightarrow> message_header" where "mh_set_seq x h = h\<lparr>mhf_seq := Convert64ToArray x\<rparr>"
definition mh_reset_seq :: "message_header \<Rightarrow> message_header" where "mh_reset_seq h = h\<lparr>mhf_seq := replicate 8 0\<rparr>"
definition mh_timestamp_ns :: "message_header \<Rightarrow> u64" where "mh_timestamp_ns h = ConvertArrayTo64 (mhf_timestamp_ns h)"
definition mh_set_timestamp_ns :: "u64 \<Rightarrow> message_header \<Rightarrow> message_header" where
  "mh_set_timestamp_ns x h = h\<lparr>mhf_timestamp_ns := Convert64ToArray x\<rparr>"
definition mh_src_id :: "message_header \<Rightarrow> u64" where "mh_src_id h = ConvertArrayTo64 (mhf_src_id h)"
definition mh_set_src_id :: "u64 \<Rightarrow> message_header \<Rightarrow> message_header" where "mh_set_src_id x h = h\<lparr>mhf_src_id := Convert64ToArray x\<rparr>"
definition mh_dst_id :: "message_header \<Rightarrow> u64" where "mh_dst_id h = ConvertArrayTo64 (mhf_dst_id h)"
definition mh_set_dst_id :: "u64 \<Rightarrow> message_header \<Rightarrow> message_header" where "mh_set_dst_id x h = h\<lparr>mhf_dst_id := Convert64ToArray x\<rparr>"
definition mh_content_size :: "message_header \<Rightarrow> u32" where "mh_content_size h = ConvertArrayTo32 (mhf_content_size h)"
definition mh_set_content_size :: "u32 \<Rightarrow> message_header \<Rightarrow> message_header" where
  "mh_set_content_size x h = h\<lparr>mhf_content_size := Convert32ToArray x\<rparr>"

text \<open>A type name of more than 128 bytes is cut; the bytes of an older and longer name stay behind the new one's end.\<close>

definition mh_set_msg_type :: "u8 list \<Rightarrow> message_header \<Rightarrow> message_header" where
  "mh_set_msg_type msg_type h =
     (if msg_type = [] then h
      else (let real_len = (if length msg_type \<ge> 129 then 128 else length msg_type) in
        h\<lparr>mhf_msg_type := take real_len msg_type @ 0 # drop (real_len + 1) (mhf_msg_type h)\<rparr>))"

text \<open>The object's bytes, and the object a pointer to bytes is taken for.\<close>

definition sizeof_MessageHeader :: nat where "sizeof_MessageHeader = 192"

definition mh_bytes :: "message_header \<Rightarrow> u8 list" where
  "mh_bytes h = mhf_magic_num h @ mhf_seq h @ mhf_timestamp_ns h @ mhf_src_id h @ mhf_dst_id h @ mhf_msg_type h @ mhf_res h @ mhf_content_size h"

definition mh_of :: "u8 list \<Rightarrow> message_header" where
  "mh_of bs = \<lparr>mhf_magic_num = take 8 bs, mhf_seq = take 8 (drop 8 bs), mhf_timestamp_ns = take 8 (drop 16 bs), mhf_src_id = take 8 (drop 24 bs),
     mhf_dst_id = take 8 (drop 32 bs), mhf_msg_type = take 129 (drop 40 bs), mhf_res = take 19 (drop 169 bs), mhf_content_size = take 4 (drop 188 bs)\<rparr>"

text \<open>The C string that starts at the type's name: without a zero in it, it goes on into what follows the header.\<close>

definition c_string :: "u8 list \<Rightarrow> u8 list option" where
  "c_string bs = (if 0 \<in> set bs then Some (takeWhile (\<lambda>b. b \<noteq> 0) bs) else None)"

definition mh_msg_type :: "u8 list \<Rightarrow> u8 list option" where "mh_msg_type data = c_string (drop 40 data)"

section \<open>Message types and their traits\<close>

record 'm msg_traits =
  mt_ByteSize :: "('m \<Rightarrow> int) option"
  mt_TypeName :: "'m \<Rightarrow> u8 list"
  mt_SetTypeName :: "(u8 list \<Rightarrow> 'm \<Rightarrow> 'm) option"
  mt_SerializeToArray :: "('m \<Rightarrow> int \<Rightarrow> u8 list option) option"
  mt_ParseFromArray :: "(u8 list \<Rightarrow> 'm \<Rightarrow> bool \<times> 'm) option"
  mt_SerializeToString :: "('m \<Rightarrow> u8 list option) option"
  mt_ParseFromString :: "(u8 list \<Rightarrow> 'm \<Rightarrow> bool \<times> 'm) option"

definition mt_HasSerializer :: "'m msg_traits \<Rightarrow> bool" where
  "mt_HasSerializer t \<longleftrightarrow> mt_SerializeToString t \<noteq> None \<and> mt_ParseFromString t \<noteq> None \<and> mt_SerializeToArray t \<noteq> None \<and> mt_ParseFromArray t \<noteq> None"

definition SetTypeName :: "'m msg_traits \<Rightarrow> u8 list \<Rightarrow> 'm \<Rightarrow> 'm" where
  "SetTypeName t type_name m = (case mt_SetTypeName t of None \<Rightarrow> m | Some f \<Rightarrow> f type_name m)"

definition ByteSize :: "'m msg_traits \<Rightarrow> 'm \<Rightarrow> int" where "ByteSize t m = (case mt_ByteSize t of None \<Rightarrow> -1 | Some f \<Rightarrow> f m)"

text \<open>The sum is one of 64-bit numbers, and the result an int again.\<close>

definition FullByteSize :: "'m msg_traits \<Rightarrow> 'm \<Rightarrow> int" where
  "FullByteSize t m = (let content_size = ByteSize t m in if content_size < 0 then content_size
     else signed_take_bit 31 (content_size + int sizeof_MessageHeader))"

definition ParseFromArray :: "'m msg_traits \<Rightarrow> u8 list \<Rightarrow> 'm \<Rightarrow> bool \<times> 'm" where
  "ParseFromArray t bs m = (case mt_ParseFromArray t of None \<Rightarrow> (False, m) | Some f \<Rightarrow> f bs m)"

definition ParseFromString :: "'m msg_traits \<Rightarrow> u8 list \<Rightarrow> 'm \<Rightarrow> bool \<times> 'm" where
  "ParseFromString t bs m = (case mt_ParseFromString t of None \<Rightarrow> (False, m) | Some f \<Rightarrow> f bs m)"

definition SerializeToString :: "'m msg_traits \<Rightarrow> 'm \<Rightarrow> u8 list option" where
  "SerializeToString t m = (case mt_SerializeToString t of None \<Rightarrow> None | Some f \<Rightarrow> f m)"

text \<open>Writing at a pointer into a buffer: what is written must fit the buffer, whatever size the caller claims.\<close>

definition SerializeToArray :: "'m msg_traits \<Rightarrow> 'm \<Rightarrow> nat \<Rightarrow> int \<Rightarrow> u8 list \<Rightarrow> (bool \<times> u8 list) option" where
  "SerializeToArray t m offset n data = (case mt_SerializeToArray t of None \<Rightarrow> Some (False, data)
     | Some f \<Rightarrow> (case f m n of None \<Rightarrow> Some (False, data)
        | Some bs \<Rightarrow> if offset + length bs \<le> length data then Some (True, take offset data @ bs @ drop (offset + length bs) data) else None))"

definition SerializeToHC :: "'m msg_traits \<Rightarrow> 'm \<Rightarrow> int \<Rightarrow> u8 list \<Rightarrow> (bool \<times> u8 list) option" where
  "SerializeToHC t m n data =
     (if mt_SerializeToArray t = None then Some (False, data)
      else (let msg_size = ByteSize t m in
        if msg_size < 0 then Some (False, data)
        else (let header = mh_set_content_size (of_int msg_size) (mh_set_msg_type (mt_TypeName t m) mh_new) in
          if length data < sizeof_MessageHeader then None
          else SerializeToArray t m sizeof_MessageHeader (n - int sizeof_MessageHeader) (mh_bytes header @ drop sizeof_MessageHeader data))))"

definition ParseFromHC :: "'m msg_traits \<Rightarrow> u8 list \<Rightarrow> int \<Rightarrow> 'm \<Rightarrow> (bool \<times> 'm) option" where
  "ParseFromHC t data n m =
     (if mt_ParseFromArray t = None then Some (False, m)
      else if n < int sizeof_MessageHeader then Some (False, m)
      else if length data < sizeof_MessageHeader then None
      else (let content_size = mh_content_size (mh_of data) in
        if n - int sizeof_MessageHeader < int (unat content_size) then Some (False, m)
        else do {
          m \<leftarrow> (if mt_SetTypeName t = None then Some m else map_option (\<lambda>name. SetTypeName t name m) (mh_msg_type data));
          if sizeof_MessageHeader + unat content_size \<le> length data
          then Some (ParseFromArray t (take (unat content_size) (drop sizeof_MessageHeader data)) m) else None }))"

section \<open>Raw messages\<close>

record raw_message =
  rm_message :: "u8 list"
  rm_timestamp :: u64

definition rm_new :: "u8 list \<Rightarrow> raw_message" where "rm_new data = \<lparr>rm_message = data, rm_timestamp = 0\<rparr>"
definition rm_SerializeToArray :: "raw_message \<Rightarrow> int \<Rightarrow> u8 list option" where
  "rm_SerializeToArray m n = (if n < int (length (rm_message m)) then None else Some (rm_message m))"
definition rm_SerializeToString :: "raw_message \<Rightarrow> u8 list option" where "rm_SerializeToString m = Some (rm_message m)"
definition rm_ParseFromArray :: "u8 list \<Rightarrow> raw_message \<Rightarrow> bool \<times> raw_message" where
  "rm_ParseFromArray bs m = (if bs = [] then (False, m) else (True, m\<lparr>rm_message := bs\<rparr>))"
definition rm_ParseFromString :: "u8 list \<Rightarrow> raw_message \<Rightarrow> bool \<times> raw_message" where
  "rm_ParseFromString bs m = (True, m\<lparr>rm_message := bs\<rparr>)"
definition rm_ByteSize :: "raw_message \<Rightarrow> int" where "rm_ByteSize m = int (length (rm_message m))"

text \<open>The bytes of \<open>apollo.cyber.message.RawMessage\<close>.\<close>

definition rm_TypeName :: "u8 list" where "rm_TypeName = map of_char ''apollo.cyber.message.RawMessage''"

definition RawMessage :: "raw_message msg_traits" where
  "RawMessage = \<lparr>mt_ByteSize = Some rm_ByteSize, mt_TypeName = (\<lambda>_. rm_TypeName), mt_SetTypeName = None, mt_SerializeToArray = Some rm_SerializeToArray,
     mt_ParseFromArray = Some rm_ParseFromArray, mt_SerializeToString = Some rm_SerializeToString, mt_ParseFromString = Some rm_ParseFromString\<rparr>"

section \<open>Round trips\<close>

definition mh_ok :: "message_header \<Rightarrow> bool" where
  "mh_ok h \<longleftrightarrow> length (mhf_magic_num h) = 8 \<and> length (mhf_seq h) = 8 \<and> length (mhf_timestamp_ns h) = 8 \<and> length (mhf_src_id h) = 8
     \<and> length (mhf_dst_id h) = 8 \<and> length (mhf_msg_type h) = 129 \<and> length (mhf_res h) = 19 \<and> length (mhf_content_size h) = 4 \<and> last (mhf_msg_type h) = 0"

lemma Convert_length [simp]: "length (Convert32ToArray x) = 4" "length (Convert64ToArray y) = 8"
  by (simp_all add: Convert32ToArray_def Convert64ToArray_def Let_def)

lemma ConvertArray32 [simp]: "ConvertArrayTo32 (Convert32ToArray x @ bs) = x" "ConvertArrayTo32 (Convert32ToArray x) = x"
  by (simp_all add: ConvertArrayTo32_def Convert32ToArray_def)

lemma word_masks: "(0x00000000ffffffff :: u64) = mask 32" "(0xffffffff00000000 :: u64) = push_bit 32 (mask 32)"
  by (simp_all add: mask_eq_exp_minus_1 push_bit_eq_mult)

lemma high_low: "push_bit 32 (ucast (ucast (drop_bit 32 (x AND 0xffffffff00000000)) :: u32)) OR ucast (ucast (x AND 0x00000000ffffffff) :: u32) = (x :: u64)"
  unfolding word_masks by (rule bit_word_eqI) (auto simp: bit_simps)

lemma ConvertArray64 [simp]: "ConvertArrayTo64 (Convert64ToArray x) = x"
  using high_low [of x] by (simp add: ConvertArrayTo64_def Convert64ToArray_def Let_def)

lemma set_msg_type_parts:
  assumes "length (mhf_msg_type h) = 129" and "last (mhf_msg_type h) = 0"
  shows "length (mhf_msg_type (mh_set_msg_type n h)) = 129" and "last (mhf_msg_type (mh_set_msg_type n h)) = 0"
  using assms by (auto simp: mh_set_msg_type_def Let_def min_def last_append last_drop)

lemma mh_ok_new: "mh_ok mh_new" by (simp add: mh_ok_def mh_new_def magic_def)

lemma mh_ok_set:
  assumes "mh_ok h"
  shows "mh_ok (mh_set_seq x h)" "mh_ok (mh_reset_seq h)" "mh_ok (mh_set_timestamp_ns x h)" "mh_ok (mh_set_src_id x h)" "mh_ok (mh_set_dst_id x h)"
    "mh_ok (mh_set_content_size y h)" "mh_ok (mh_set_msg_type n h)"
  using assms set_msg_type_parts [of h n]
  by (simp_all add: mh_ok_def mh_set_seq_def mh_reset_seq_def mh_set_timestamp_ns_def mh_set_src_id_def mh_set_dst_id_def mh_set_content_size_def)
    (simp add: mh_set_msg_type_def Let_def)

lemma mh_bytes_length: "mh_ok h \<Longrightarrow> length (mh_bytes h) = sizeof_MessageHeader"
  by (simp add: mh_ok_def mh_bytes_def sizeof_MessageHeader_def)

lemma mh_of_bytes: "mh_ok h \<Longrightarrow> mh_of (mh_bytes h @ bs) = h"
  by (simp add: mh_ok_def mh_bytes_def mh_of_def)

text \<open>The operations of a client on a header.\<close>

datatype mh_op = SetSeq u64 | ResetSeq | SetTimestamp u64 | SetSrc u64 | SetDst u64 | SetType "u8 list" | SetContentSize u32

fun mh_apply :: "mh_op \<Rightarrow> message_header \<Rightarrow> message_header" where
  "mh_apply (SetSeq x) h = mh_set_seq x h"
| "mh_apply ResetSeq h = mh_reset_seq h"
| "mh_apply (SetTimestamp x) h = mh_set_timestamp_ns x h"
| "mh_apply (SetSrc x) h = mh_set_src_id x h"
| "mh_apply (SetDst x) h = mh_set_dst_id x h"
| "mh_apply (SetType n) h = mh_set_msg_type n h"
| "mh_apply (SetContentSize x) h = mh_set_content_size x h"

text \<open>C30: A header is well formed after any sequence of its setters: all its arrays have their sizes, so
  its bytes are 192 and are taken for the same header again, and its type name ends with a zero,
  however long the names were that were set.\<close>

theorem header_well_formed:
  "mh_ok (fold mh_apply ops mh_new) \<and> mh_of (mh_bytes (fold mh_apply ops mh_new) @ bs) = fold mh_apply ops mh_new
    \<and> length (mh_bytes (fold mh_apply ops mh_new)) = 192 \<and> mh_msg_type (mh_bytes (fold mh_apply ops mh_new)) \<noteq> None"
proof -
  have step: "mh_ok h \<Longrightarrow> mh_ok (mh_apply op h)" for op h using mh_ok_set [of h] by (cases op) simp_all
  have ok: "mh_ok h \<Longrightarrow> mh_ok (fold mh_apply ops h)" for h by (induction ops arbitrary: h) (simp_all add: step)
  have ok: "mh_ok (fold mh_apply ops mh_new)" using ok mh_ok_new by blast
  let ?h = "fold mh_apply ops mh_new"
  have "mhf_msg_type ?h \<noteq> []" "last (mhf_msg_type ?h) = 0" using ok by (auto simp: mh_ok_def)
  then have "0 \<in> set (mhf_msg_type ?h)" using last_in_set by metis
  moreover have "drop 40 (mh_bytes ?h) = mhf_msg_type ?h @ mhf_res ?h @ mhf_content_size ?h" using ok by (simp add: mh_ok_def mh_bytes_def)
  ultimately have "mh_msg_type (mh_bytes ?h) \<noteq> None" by (simp add: mh_msg_type_def c_string_def)
  then show ?thesis using ok mh_of_bytes [OF ok] mh_bytes_length [OF ok] by (simp add: sizeof_MessageHeader_def)
qed

text \<open>Every field of a header reads back what was set last, in 64 or 32 bits, most significant byte
  first on the wire, and a new header matches the magic number.\<close>

theorem header_fields_roundtrip:
  "mh_seq (mh_set_seq x h) = x \<and> mh_timestamp_ns (mh_set_timestamp_ns x h) = x \<and> mh_src_id (mh_set_src_id x h) = x
    \<and> mh_dst_id (mh_set_dst_id x h) = x \<and> mh_content_size (mh_set_content_size y h) = y \<and> mh_seq (mh_reset_seq h) = 0
    \<and> mh_is_magic_num_match (Some magic) mh_new"
  by (simp add: mh_seq_def mh_set_seq_def mh_timestamp_ns_def mh_set_timestamp_ns_def mh_src_id_def mh_set_src_id_def mh_dst_id_def
    mh_set_dst_id_def mh_content_size_def mh_set_content_size_def mh_reset_seq_def mh_is_magic_num_match_def mh_new_def)
    (simp add: magic_def ConvertArrayTo64_def ConvertArrayTo32_def word32_def numeral_eq_Suc)

section \<open>A message behind its header\<close>

text \<open>A message type whose parser takes back what its serializer wrote into enough space, as protobuf's do.\<close>

definition serializes :: "'m msg_traits \<Rightarrow> ('m \<Rightarrow> int \<Rightarrow> u8 list option) \<Rightarrow> (u8 list \<Rightarrow> 'm \<Rightarrow> bool \<times> 'm) \<Rightarrow> 'm \<Rightarrow> 'm \<Rightarrow> u8 list \<Rightarrow> bool" where
  "serializes t ser parse m m0 bs \<longleftrightarrow> mt_SerializeToArray t = Some ser \<and> mt_ParseFromArray t = Some parse \<and> ByteSize t m = int (length bs)
     \<and> length bs < 2 ^ 31 \<and> ser m (int (length bs)) = Some bs \<and> parse bs (SetTypeName t (the (c_string (mhf_msg_type (mh_set_msg_type (mt_TypeName t m) mh_new)))) m0) = (True, m)"

lemma c_string_append: "0 \<in> set xs \<Longrightarrow> c_string (xs @ ys) = c_string xs"
  by (auto simp: c_string_def takeWhile_append1)

text \<open>C38: A message survives the way through a buffer of \<open>FullByteSize\<close> bytes, whatever was in it:
  \<open>SerializeToHC\<close> succeeds and fills it exactly, and \<open>ParseFromHC\<close> gives the message back and sets its
  type name, for every message type whose own serializer and parser fit.\<close>

theorem hc_roundtrip:
  assumes "serializes t ser parse m m0 bs" and "int (length data) = FullByteSize t m"
  shows "\<exists>data'. SerializeToHC t m (FullByteSize t m) data = Some (True, data') \<and> length data' = length data
    \<and> ParseFromHC t data' (FullByteSize t m) m0 = Some (True, m)"
proof -
  let ?h = "mh_set_content_size (of_int (ByteSize t m)) (mh_set_msg_type (mt_TypeName t m) mh_new)"
  let ?d = "mh_bytes ?h @ bs"
  have a: "mt_SerializeToArray t = Some ser" "mt_ParseFromArray t = Some parse" "ByteSize t m = int (length bs)" "length bs < 2 ^ 31"
    "ser m (int (length bs)) = Some bs"
    "parse bs (SetTypeName t (the (c_string (mhf_msg_type (mh_set_msg_type (mt_TypeName t m) mh_new)))) m0) = (True, m)"
    using assms(1) by (simp_all add: serializes_def)
  have full: "FullByteSize t m = int (length bs) + 192" "length data = length bs + 192"
  proof -
    have w: "signed_take_bit 31 (int (length bs) + 192) = int (length data)"
      using a(3) assms(2) by (simp add: FullByteSize_def sizeof_MessageHeader_def)
    have "int (length bs) + 192 < 2 ^ 31"
    proof (rule ccontr)
      assume big: "\<not> int (length bs) + 192 < 2 ^ 31"
      then have "(int (length bs) + 192) div 2 ^ 31 = 1" using a(4) by simp
      then have "bit (int (length bs) + 192) 31" by (simp add: bit_iff_odd)
      then show False using w by (simp add: signed_take_bit_negative_iff [of 31 "int (length bs) + 192", symmetric])
    qed
    then have "signed_take_bit 31 (int (length bs) + 192) = int (length bs) + 192" by (intro signed_take_bit_int_eq_self) simp_all
    then show "FullByteSize t m = int (length bs) + 192" "length data = length bs + 192"
      using a(3) w by (simp_all add: FullByteSize_def sizeof_MessageHeader_def)
  qed
  have ok: "mh_ok ?h" by (simp add: mh_ok_set mh_ok_new)
  have len: "length (mh_bytes ?h) = 192" using mh_bytes_length [OF ok] by (simp add: sizeof_MessageHeader_def)
  have ser: "SerializeToHC t m (FullByteSize t m) data = Some (True, ?d)"
    using a full len by (simp add: SerializeToHC_def SerializeToArray_def sizeof_MessageHeader_def Let_def)
  have cs: "unat (mh_content_size (mh_of ?d)) = length bs"
    using a(3,4) mh_of_bytes [OF ok, of bs] by (simp add: mh_content_size_def mh_set_content_size_def unat_of_nat)
  have "drop 40 ?d = mhf_msg_type ?h @ mhf_res ?h @ mhf_content_size ?h @ bs" using ok by (simp add: mh_ok_def mh_bytes_def)
  moreover have "mhf_msg_type ?h \<noteq> []" "last (mhf_msg_type ?h) = 0" using ok by (auto simp: mh_ok_def)
  then have z: "0 \<in> set (mhf_msg_type ?h)" using last_in_set by metis
  moreover have "mhf_msg_type ?h = mhf_msg_type (mh_set_msg_type (mt_TypeName t m) mh_new)" by (simp add: mh_set_content_size_def)
  ultimately have "mh_msg_type ?d = c_string (mhf_msg_type (mh_set_msg_type (mt_TypeName t m) mh_new))"
    using c_string_append by (simp add: mh_msg_type_def)
  then have name: "mh_msg_type ?d = Some (the (c_string (mhf_msg_type (mh_set_msg_type (mt_TypeName t m) mh_new))))"
    using z \<open>mhf_msg_type ?h = _\<close> by (simp add: c_string_def)
  have "uint (mh_content_size (mh_of ?d)) = int (length bs)" using arg_cong [OF cs, of int] by simp
  then have "ParseFromHC t ?d (FullByteSize t m) m0 = Some (True, m)"
    using a cs name full len by (simp add: ParseFromHC_def sizeof_MessageHeader_def ParseFromArray_def SetTypeName_def Let_def split: option.splits)
  then show ?thesis using ser full len by auto
qed

text \<open>But a raw message without content does not survive it: \<open>SerializeToHC\<close> writes it, and
  \<open>RawMessage::ParseFromArray\<close> takes a size of 0 for an error.\<close>

theorem empty_raw_message_lost:
  assumes "length data = 192"
  shows "\<exists>data'. SerializeToHC RawMessage (rm_new []) 192 data = Some (True, data') \<and> ParseFromHC RawMessage data' 192 m0 = Some (False, m0)"
proof -
  let ?h = "mh_set_content_size 0 (mh_set_msg_type rm_TypeName mh_new)"
  have ok: "mh_ok ?h" by (simp add: mh_ok_set mh_ok_new)
  have len: "length (mh_bytes ?h) = 192" using mh_bytes_length [OF ok] by (simp add: sizeof_MessageHeader_def)
  have "SerializeToHC RawMessage (rm_new []) 192 data = Some (True, mh_bytes ?h)"
    using assms len by (simp add: SerializeToHC_def SerializeToArray_def RawMessage_def ByteSize_def rm_ByteSize_def rm_new_def
      rm_SerializeToArray_def sizeof_MessageHeader_def Let_def)
  moreover have "mh_content_size (mh_of (mh_bytes ?h)) = 0"
    using mh_of_bytes [OF ok, of "[]"] by (simp add: mh_content_size_def mh_set_content_size_def)
  then have "ParseFromHC RawMessage (mh_bytes ?h) 192 m0 = Some (False, m0)"
    using len by (simp add: ParseFromHC_def RawMessage_def ParseFromArray_def rm_ParseFromArray_def sizeof_MessageHeader_def)
  ultimately show ?thesis by blast
qed

text \<open>\<open>SerializeToHC\<close> does not look at the size it is given before it copies the header: a buffer
  smaller than the header is overrun, and this is the only way it goes wrong for a raw message in a
  buffer of the size it is told.\<close>

theorem serialize_to_hc_overruns:
  "SerializeToHC RawMessage (rm_new bs) (int (length data)) data = None \<longleftrightarrow> length data < 192"
proof (cases "length data < 192")
  case True
  then show ?thesis by (simp add: SerializeToHC_def RawMessage_def ByteSize_def rm_ByteSize_def sizeof_MessageHeader_def Let_def)
next
  case False
  let ?h = "mh_set_content_size (of_int (int (length bs))) (mh_set_msg_type rm_TypeName mh_new)"
  have "length (mh_bytes ?h) = 192" using mh_bytes_length [OF mh_ok_set(6) [OF mh_ok_set(7) [OF mh_ok_new]]] by (simp add: sizeof_MessageHeader_def)
  then show ?thesis using False
    by (auto simp: SerializeToHC_def SerializeToArray_def RawMessage_def ByteSize_def rm_ByteSize_def rm_new_def rm_SerializeToArray_def
      sizeof_MessageHeader_def Let_def)
qed

lemma hc_roundtrip_witness:
  "\<exists>data. SerializeToHC RawMessage (rm_new [1, 2, 3]) 195 (replicate 195 7) = Some (True, data) \<and> ParseFromHC RawMessage data 195 (rm_new []) = Some (True, rm_new [1, 2, 3])"
proof -
  have "serializes RawMessage rm_SerializeToArray rm_ParseFromArray (rm_new [1, 2, 3]) (rm_new []) [1, 2, 3]"
    by (simp add: serializes_def RawMessage_def ByteSize_def rm_ByteSize_def rm_new_def rm_SerializeToArray_def rm_ParseFromArray_def SetTypeName_def)
  moreover have "FullByteSize RawMessage (rm_new [1, 2, 3]) = 195"
    by (simp add: FullByteSize_def RawMessage_def ByteSize_def rm_ByteSize_def rm_new_def sizeof_MessageHeader_def)
  ultimately show ?thesis using hc_roundtrip [of RawMessage rm_SerializeToArray rm_ParseFromArray "rm_new [1, 2, 3]" "rm_new []" "[1, 2, 3]" "replicate 195 7"] by auto
qed

lemma empty_raw_message_lost_witness:
  "\<exists>data. SerializeToHC RawMessage (rm_new []) 192 (replicate 192 7) = Some (True, data) \<and> ParseFromHC RawMessage data 192 (rm_new []) = Some (False, rm_new [])"
  by (rule empty_raw_message_lost) simp

end
