(* ===== verification/Message_Factory.thy ===== *)
theory Message_Factory
  imports Cyber_Prelude
begin

text \<open>
  The factory of protobuf messages (message/protobuf_factory.h, protobuf_factory.cc): a message's descriptor goes
  to other processes as a tree of serialized files with their dependencies, and is registered there
  with a pool. The protobuf library's pool, its serializers and its prototypes are arguments of the definitions;
  what is asked of the pool is the predicate \<open>pool_laws\<close>, after the documentation of
  \<open>DescriptorPool::BuildFile\<close>. A dependency that two files share appears twice in the tree.
\<close>

section \<open>Files, descriptions and the factory\<close>

text \<open>A \<open>FileDescriptor\<close> with its dependencies, and the message \<open>ProtoDesc\<close>.\<close>

datatype 'f file_desc = FileDesc (fd_proto: 'f) (fd_deps: "'f file_desc list")
datatype proto_desc = ProtoDesc (pd_desc: string) (pd_dependencies: "proto_desc list")

fun fd_files :: "'f file_desc \<Rightarrow> 'f list" where "fd_files (FileDesc f deps) = f # concat (map fd_files deps)"

definition RegisterFile :: "('f \<Rightarrow> 'p \<Rightarrow> 'p option) \<Rightarrow> 'f \<Rightarrow> 'p \<Rightarrow> bool \<times> 'p" where
  "RegisterFile build_file file_desc_proto pool = (case build_file file_desc_proto pool of None \<Rightarrow> (False, pool) | Some pool \<Rightarrow> (True, pool))"

text \<open>\<open>ParseFromString\<close> is not asked whether it succeeded; \<open>parse\<close> is what it leaves in the message.\<close>

fun RegisterDesc :: "('f \<Rightarrow> 'p \<Rightarrow> 'p option) \<Rightarrow> (string \<Rightarrow> 'f) \<Rightarrow> proto_desc \<Rightarrow> 'p \<Rightarrow> bool \<times> 'p"
  and RegisterDeps :: "('f \<Rightarrow> 'p \<Rightarrow> 'p option) \<Rightarrow> (string \<Rightarrow> 'f) \<Rightarrow> proto_desc list \<Rightarrow> 'p \<Rightarrow> bool \<times> 'p" where
  "RegisterDesc build_file parse (ProtoDesc desc deps) pool = (case RegisterDeps build_file parse deps pool of
     (False, pool) \<Rightarrow> (False, pool) | (True, pool) \<Rightarrow> RegisterFile build_file (parse desc) pool)"
| "RegisterDeps build_file parse [] pool = (True, pool)"
| "RegisterDeps build_file parse (dep # deps) pool = (case RegisterDesc build_file parse dep pool of
     (False, pool) \<Rightarrow> (False, pool) | (True, pool) \<Rightarrow> RegisterDeps build_file parse deps pool)"

definition RegisterMessage_string ::
  "('f \<Rightarrow> 'p \<Rightarrow> 'p option) \<Rightarrow> (string \<Rightarrow> 'f) \<Rightarrow> (string \<Rightarrow> proto_desc) \<Rightarrow> string \<Rightarrow> 'p \<Rightarrow> bool \<times> 'p" where
  "RegisterMessage_string build_file parse parse_desc proto_desc_str pool = RegisterDesc build_file parse (parse_desc proto_desc_str) pool"

definition RegisterMessage_desc :: "('f \<Rightarrow> 'p \<Rightarrow> 'p option) \<Rightarrow> 'f file_desc \<Rightarrow> 'p \<Rightarrow> bool \<times> 'p" where
  "RegisterMessage_desc build_file desc pool = RegisterFile build_file (fd_proto desc) pool"

definition RegisterPythonMessage :: "('f \<Rightarrow> 'p \<Rightarrow> 'p option) \<Rightarrow> (string \<Rightarrow> 'f) \<Rightarrow> string \<Rightarrow> 'p \<Rightarrow> bool \<times> 'p" where
  "RegisterPythonMessage build_file parse proto_str pool = RegisterFile build_file (parse proto_str) pool"

fun GetProtoDesc :: "('f \<Rightarrow> string option) \<Rightarrow> 'f file_desc \<Rightarrow> proto_desc option"
  and GetProtoDescs :: "('f \<Rightarrow> string option) \<Rightarrow> 'f file_desc list \<Rightarrow> proto_desc list option" where
  "GetProtoDesc serialize (FileDesc f deps) = (case serialize f of None \<Rightarrow> None
     | Some str \<Rightarrow> (case GetProtoDescs serialize deps of None \<Rightarrow> None | Some ds \<Rightarrow> Some (ProtoDesc str ds)))"
| "GetProtoDescs serialize [] = Some []"
| "GetProtoDescs serialize (d # deps) = (case GetProtoDesc serialize d of None \<Rightarrow> None
     | Some pd \<Rightarrow> (case GetProtoDescs serialize deps of None \<Rightarrow> None | Some ds \<Rightarrow> Some (pd # ds)))"

text \<open>\<open>desc_str\<close> is the output string, which keeps its value when there is no description.\<close>

definition GetDescriptorString_desc ::
  "('f \<Rightarrow> string option) \<Rightarrow> (proto_desc \<Rightarrow> string option) \<Rightarrow> 'f file_desc \<Rightarrow> string \<Rightarrow> string" where
  "GetDescriptorString_desc serialize serialize_desc desc desc_str = (case GetProtoDesc serialize desc of None \<Rightarrow> desc_str
     | Some pd \<Rightarrow> (case serialize_desc pd of None \<Rightarrow> desc_str | Some str \<Rightarrow> str))"

definition GetDescriptorString_type ::
  "('f \<Rightarrow> string option) \<Rightarrow> (proto_desc \<Rightarrow> string option) \<Rightarrow> (string \<Rightarrow> 'f file_desc option) \<Rightarrow> (string \<Rightarrow> 'p \<Rightarrow> 'f file_desc option)
    \<Rightarrow> string \<Rightarrow> 'p \<Rightarrow> string \<Rightarrow> string" where
  "GetDescriptorString_type serialize serialize_desc find_generated find_pool type pool desc_str = (case find_generated type of
     Some desc \<Rightarrow> GetDescriptorString_desc serialize serialize_desc desc desc_str
   | None \<Rightarrow> (case find_pool type pool of None \<Rightarrow> desc_str | Some desc \<Rightarrow> GetDescriptorString_desc serialize serialize_desc desc desc_str))"

text \<open>The prototypes of the generated types come first.\<close>

definition GetMessageByGeneratedType :: "(string \<Rightarrow> 'd option) \<Rightarrow> ('d \<Rightarrow> 'm option) \<Rightarrow> string \<Rightarrow> 'm option" where
  "GetMessageByGeneratedType find_generated prototype type = (case find_generated type of None \<Rightarrow> None
     | Some d \<Rightarrow> (case prototype d of None \<Rightarrow> None | Some m \<Rightarrow> Some m))"

definition GenerateMessageByType :: "(string \<Rightarrow> 'd option) \<Rightarrow> ('d \<Rightarrow> 'm option) \<Rightarrow> (string \<Rightarrow> 'p \<Rightarrow> 'd option) \<Rightarrow> ('d \<Rightarrow> 'm option)
    \<Rightarrow> string \<Rightarrow> 'p \<Rightarrow> 'm option" where
  "GenerateMessageByType find_generated generated_prototype find_pool prototype type pool =
     (case GetMessageByGeneratedType find_generated generated_prototype type of Some m \<Rightarrow> Some m
      | None \<Rightarrow> (case find_pool type pool of None \<Rightarrow> None | Some d \<Rightarrow> (case prototype d of None \<Rightarrow> None | Some m \<Rightarrow> Some m)))"

definition FindMessageTypeByName :: "(string \<Rightarrow> 'p \<Rightarrow> 'd option) \<Rightarrow> string \<Rightarrow> 'p \<Rightarrow> 'd option" where
  "FindMessageTypeByName find_pool name pool = find_pool name pool"

section \<open>Registering a description\<close>

text \<open>\<open>BuildFile\<close>: a file whose imports are in the pool is added, unless the pool has another file of its
  name; the very same file again is accepted and changes nothing. With an import missing it is refused.\<close>

definition pool_laws :: "('f \<Rightarrow> 'p \<Rightarrow> 'p option) \<Rightarrow> ('f \<Rightarrow> 'p \<Rightarrow> bool) \<Rightarrow> ('f \<Rightarrow> string) \<Rightarrow> ('f \<Rightarrow> 'f list) \<Rightarrow> bool" where
  "pool_laws build_file has name imports \<longleftrightarrow> (\<forall>f p.
     (list_all (\<lambda>d. has d p) (imports f) \<and> (\<forall>g. has g p \<and> name g = name f \<longrightarrow> g = f)
        \<longrightarrow> (\<exists>p'. build_file f p = Some p' \<and> (\<forall>g. has g p' \<longleftrightarrow> has g p \<or> g = f)))
     \<and> (\<not> list_all (\<lambda>d. has d p) (imports f) \<longrightarrow> build_file f p = None))"

text \<open>A descriptor as the library makes them: a file's dependencies are its imports.\<close>

fun fd_linked :: "('f \<Rightarrow> 'f list) \<Rightarrow> 'f file_desc \<Rightarrow> bool" where
  "fd_linked imports (FileDesc f deps) \<longleftrightarrow> imports f = map fd_proto deps \<and> list_all (fd_linked imports) deps"

text \<open>Files of one name are one file.\<close>

definition one_name :: "('f \<Rightarrow> string) \<Rightarrow> ('f \<Rightarrow> bool) \<Rightarrow> bool" where
  "one_name name P \<longleftrightarrow> (\<forall>f g. P f \<and> P g \<and> name f = name g \<longrightarrow> f = g)"

lemma one_name_mono: "one_name name P \<Longrightarrow> (\<And>f. Q f \<Longrightarrow> P f) \<Longrightarrow> one_name name Q"
  unfolding one_name_def by blast

lemma fd_proto_files: "fd_proto d \<in> set (fd_files d)"
  by (cases d) simp

lemma RegisterFile_ok:
  assumes "pool_laws build_file has name imports" and "list_all (\<lambda>d. has d p) (imports f)" and "one_name name (\<lambda>g. has g p \<or> g = f)"
  shows "\<exists>p'. RegisterFile build_file f p = (True, p') \<and> (\<forall>g. has g p' \<longleftrightarrow> has g p \<or> g = f)"
proof -
  have "\<forall>g. has g p \<and> name g = name f \<longrightarrow> g = f" using assms(3) unfolding one_name_def by blast
  then obtain p' where "build_file f p = Some p'" "\<forall>g. has g p' \<longleftrightarrow> has g p \<or> g = f"
    using assms(1,2) unfolding pool_laws_def by metis
  then show ?thesis by (simp add: RegisterFile_def)
qed

text \<open>What a process has registered when it was given the description of \<open>d\<close>, or of a list of dependencies.\<close>

definition registers :: "('f \<Rightarrow> 'p \<Rightarrow> 'p option) \<Rightarrow> ('f \<Rightarrow> 'p \<Rightarrow> bool) \<Rightarrow> ('f \<Rightarrow> string option) \<Rightarrow> (string \<Rightarrow> 'f) \<Rightarrow> 'f file_desc \<Rightarrow> 'p \<Rightarrow> bool" where
  "registers build_file has serialize parse d p \<longleftrightarrow> (\<exists>pd p'. GetProtoDesc serialize d = Some pd
     \<and> RegisterDesc build_file parse pd p = (True, p') \<and> (\<forall>g. has g p' \<longleftrightarrow> has g p \<or> g \<in> set (fd_files d)))"

lemma register_deps:
  assumes "\<And>d p. d \<in> set ds \<Longrightarrow> one_name name (\<lambda>g. has g p \<or> g \<in> F) \<Longrightarrow> registers build_file has serialize parse d p"
    and "set (concat (map fd_files ds)) \<subseteq> F" and "one_name name (\<lambda>g. has g p \<or> g \<in> F)"
  shows "\<exists>pds p'. GetProtoDescs serialize ds = Some pds \<and> RegisterDeps build_file parse pds p = (True, p')
    \<and> (\<forall>g. has g p' \<longleftrightarrow> has g p \<or> g \<in> set (concat (map fd_files ds)))"
  using assms
proof (induction ds arbitrary: p)
  case (Cons d ds)
  obtain pd p1 where 1: "GetProtoDesc serialize d = Some pd" "RegisterDesc build_file parse pd p = (True, p1)"
      "\<forall>g. has g p1 \<longleftrightarrow> has g p \<or> g \<in> set (fd_files d)" using Cons.prems(1) [of d p] Cons.prems(3) by (auto simp: registers_def)
  have "one_name name (\<lambda>g. has g p1 \<or> g \<in> F)" by (rule one_name_mono [OF Cons.prems(3)]) (use 1(3) Cons.prems(2) in auto)
  then obtain pds p2 where 2: "GetProtoDescs serialize ds = Some pds" "RegisterDeps build_file parse pds p1 = (True, p2)"
      "\<forall>g. has g p2 \<longleftrightarrow> has g p1 \<or> g \<in> set (concat (map fd_files ds))" using Cons.IH [of p1] Cons.prems(1,2) by auto
  show ?case using 1 2 by (intro exI [of _ "pd # pds"] exI [of _ p2]) auto
qed simp

lemma register_described:
  assumes laws: "pool_laws build_file has name imports" and inv: "\<And>f. f \<in> F \<Longrightarrow> \<exists>str. serialize f = Some str \<and> parse str = f"
  shows "fd_linked imports d \<Longrightarrow> set (fd_files d) \<subseteq> F \<Longrightarrow> one_name name (\<lambda>g. has g p \<or> g \<in> F) \<Longrightarrow> registers build_file has serialize parse d p"
proof (induction d arbitrary: p)
  case (FileDesc f ds)
  have ds: "set (concat (map fd_files ds)) \<subseteq> F" "list_all (fd_linked imports) ds" "imports f = map fd_proto ds" "f \<in> F"
    using FileDesc.prems by auto
  have "registers build_file has serialize parse d p" if "d \<in> set ds" "one_name name (\<lambda>g. has g p \<or> g \<in> F)" for d p
    using FileDesc.IH [OF that(1) _ _ that(2)] ds(1,2) that(1) by (auto simp: list_all_iff)
  from register_deps [of ds name has F, OF this ds(1) FileDesc.prems(3)] obtain pds p1 where
    1: "GetProtoDescs serialize ds = Some pds" "RegisterDeps build_file parse pds p = (True, p1)"
      "\<forall>g. has g p1 \<longleftrightarrow> has g p \<or> g \<in> set (concat (map fd_files ds))" by blast
  obtain str where str: "serialize f = Some str" "parse str = f" using inv [OF ds(4)] by blast
  have "list_all (\<lambda>d. has d p1) (imports f)" using ds(3) 1(3) fd_proto_files by (fastforce simp: list_all_iff)
  moreover have "one_name name (\<lambda>g. has g p1 \<or> g = f)" by (rule one_name_mono [OF FileDesc.prems(3)]) (use 1(3) ds(1,4) in auto)
  ultimately obtain p2 where "RegisterFile build_file f p1 = (True, p2)" "\<forall>g. has g p2 \<longleftrightarrow> has g p1 \<or> g = f"
    using RegisterFile_ok [OF laws] by blast
  then show ?case unfolding registers_def using 1 str by (intro exI [of _ "ProtoDesc str pds"] exI [of _ p2]) auto
qed

text \<open>A type travels: the string \<open>GetDescriptorString\<close> makes of a descriptor, registered by another
  process, is accepted and leaves in its pool exactly the file and all its dependencies beside what was
  there, in an order in which every import is there before it is needed, shared dependencies included
  - for every pool that follows its documentation, and serializers that are inverted by their
  parsers.\<close>

theorem descriptor_roundtrip:
  assumes "pool_laws build_file has name imports" and "fd_linked imports d"
    and "one_name name (\<lambda>g. has g p \<or> g \<in> set (fd_files d))"
    and "list_all (\<lambda>f. serialize f \<noteq> None \<and> parse (the (serialize f)) = f) (fd_files d)"
    and "GetProtoDesc serialize d = Some pd" and "serialize_desc pd = Some str" and "parse_desc str = pd"
  shows "\<exists>p'. RegisterMessage_string build_file parse parse_desc (GetDescriptorString_desc serialize serialize_desc d []) p = (True, p')
    \<and> (\<forall>g. has g p' \<longleftrightarrow> has g p \<or> g \<in> set (fd_files d))"
proof -
  have "registers build_file has serialize parse d p"
    by (rule register_described [OF assms(1) _ assms(2) _ assms(3)]) (use assms(4) in \<open>auto simp: list_all_iff\<close>)
  then show ?thesis using assms(5-7) by (auto simp: registers_def RegisterMessage_string_def GetDescriptorString_desc_def)
qed

text \<open>Registering a message itself, not its description, takes its own file only: it is refused when the
  file imports one that the pool does not have, and the pool is as it was.\<close>

theorem register_message_needs_imports:
  assumes "pool_laws build_file has name imports" and "\<not> list_all (\<lambda>d. has d p) (imports (fd_proto desc))"
  shows "RegisterMessage_desc build_file desc p = (False, p)"
proof -
  have "build_file (fd_proto desc) p = None" using assms unfolding pool_laws_def by blast
  then show ?thesis by (simp add: RegisterMessage_desc_def RegisterFile_def)
qed

section \<open>Instances\<close>

text \<open>A pool that is a list of files, each a name and the names it imports; four files, one of them
  imported by two others.\<close>

type_synonym ex_file = "string \<times> string list"

definition ex_build :: "(ex_file \<Rightarrow> ex_file list) \<Rightarrow> ex_file \<Rightarrow> ex_file list \<Rightarrow> ex_file list option" where
  "ex_build imports f p = (if \<not> list_all (\<lambda>d. d \<in> set p) (imports f) then None
     else if f \<in> set p then Some p else if fst f \<in> set (map fst p) then None else Some (f # p))"

definition ex_files :: "ex_file list" where "ex_files = [(''a'', [''b'', ''c'']), (''b'', [''d'']), (''c'', [''d'']), (''d'', [])]"
definition ex_parse :: "string \<Rightarrow> ex_file" where "ex_parse str = (str, the (map_of ex_files str))"
definition ex_imports :: "ex_file \<Rightarrow> ex_file list" where "ex_imports f = map ex_parse (snd f)"
definition ex_desc :: "ex_file file_desc" where
  "ex_desc = FileDesc (ex_parse ''a'') [FileDesc (ex_parse ''b'') [FileDesc (ex_parse ''d'') []], FileDesc (ex_parse ''c'') [FileDesc (ex_parse ''d'') []]]"
definition ex_tree :: proto_desc where
  "ex_tree = ProtoDesc ''a'' [ProtoDesc ''b'' [ProtoDesc ''d'' []], ProtoDesc ''c'' [ProtoDesc ''d'' []]]"

lemma ex_pool: "pool_laws (ex_build imports) (\<lambda>f p. f \<in> set p) fst imports"
  unfolding pool_laws_def
proof (intro allI conjI impI)
  fix f :: ex_file and p :: "ex_file list"
  assume a: "list_all (\<lambda>d. d \<in> set p) (imports f) \<and> (\<forall>g. g \<in> set p \<and> fst g = fst f \<longrightarrow> g = f)"
  have "f \<in> set p \<or> fst f \<notin> set (map fst p)"
  proof (rule ccontr)
    assume "\<not> ?thesis"
    then obtain g where "g \<in> set p" "fst g = fst f" "f \<notin> set p" by auto
    then show False using conjunct2 [OF a] by metis
  qed
  then show "\<exists>p'. ex_build imports f p = Some p' \<and> (\<forall>g. (g \<in> set p') = (g \<in> set p \<or> g = f))"
    using conjunct1 [OF a] by (auto simp: ex_build_def)
next
  fix f :: ex_file and p :: "ex_file list"
  assume "\<not> list_all (\<lambda>d. d \<in> set p) (imports f)"
  then show "ex_build imports f p = None" by (simp add: ex_build_def)
qed

lemma descriptor_roundtrip_witness:
  "\<exists>p. RegisterMessage_string (ex_build ex_imports) ex_parse (\<lambda>_. ex_tree)
      (GetDescriptorString_desc (\<lambda>f. Some (fst f)) (\<lambda>_. Some ''s'') ex_desc []) [(''e'', [])] = (True, p) \<and> ex_parse ''d'' \<in> set p"
proof -
  have "fd_linked ex_imports ex_desc" by code_simp
  moreover have f: "fd_files ex_desc = map ex_parse [''a'', ''b'', ''d'', ''c'', ''d'']" by code_simp
  have "inj_on fst (set ((''e'', []) # fd_files ex_desc))" by code_simp
  then have "one_name fst (\<lambda>g. g \<in> set ((''e'', []) # fd_files ex_desc))" unfolding one_name_def inj_on_def by blast
  then have "one_name fst (\<lambda>g. g \<in> set [(''e'', [])] \<or> g \<in> set (fd_files ex_desc))" by (rule one_name_mono) auto
  moreover have "list_all (\<lambda>f. Some (fst f) \<noteq> None \<and> ex_parse (the (Some (fst f))) = f) (fd_files ex_desc)" by code_simp
  moreover have "GetProtoDesc (\<lambda>f. Some (fst f)) ex_desc = Some ex_tree" by code_simp
  moreover have "ex_parse ''d'' \<in> set (fd_files ex_desc)" unfolding f by simp
  ultimately show ?thesis
    using descriptor_roundtrip [OF ex_pool, of ex_imports ex_desc "[(''e'', [])]" "\<lambda>f. Some (fst f)" ex_parse ex_tree "\<lambda>_. Some ''s''" "''s''" "\<lambda>_. ex_tree"]
    by blast
qed

lemma register_message_needs_imports_witness: "RegisterMessage_desc (ex_build ex_imports) ex_desc [(''e'', [])] = (False, [(''e'', [])])"
proof (rule register_message_needs_imports [OF ex_pool])
  show "\<not> list_all (\<lambda>d. d \<in> set [(''e'', [])]) (ex_imports (fd_proto ex_desc))" by code_simp
qed

end
