(* ===== verification/Process_Setup.thy ===== *)
theory Process_Setup
  imports Async_Logger File_Util Scheduler_Classic Message_Codec
begin

text \<open>
  How a process is set up and taken down: its global data (common/global_data.h, global_data.cc,
  environment.h), the choice of the scheduler and the sets of processors it reads (scheduler/
  scheduler_factory.cc, scheduler.cc), and the state between \<open>Init\<close> and \<open>Clear\<close> (init.cc, state.h, state.cc).
  Environment variables, the network interfaces, the results of the system's calls and the parsers of
  the configuration are arguments. \<open>None\<close> is the end of the process: a failed \<open>CHECK\<close>, \<open>exit\<close>, an
  exception or undefined behaviour.
\<close>

section \<open>Sets of processors\<close>

text \<open>\<open>getline\<close> with a delimiter until the stream ends: nothing comes after a last delimiter.\<close>

function getlines :: "char \<Rightarrow> string \<Rightarrow> string list" where
  "getlines d [] = []"
| "getlines d (c # cs) = takeWhile (\<lambda>x. x \<noteq> d) (c # cs) # getlines d (tl (dropWhile (\<lambda>x. x \<noteq> d) (c # cs)))"
  by pat_completeness auto
termination
proof (relation "measure (length \<circ> snd)")
  show "((d, tl (dropWhile (\<lambda>x. x \<noteq> d) (c # cs))), d, c # cs) \<in> measure (length \<circ> snd)" for d c cs
    using length_dropWhile_le [of "\<lambda>x. x \<noteq> d" "c # cs"] by (simp split: if_splits) (simp add: le_diff_conv length_dropWhile_le order_le_less_trans)?
qed simp

definition is_digit :: "char \<Rightarrow> bool" where "is_digit c \<longleftrightarrow> 48 \<le> (of_char c :: nat) \<and> (of_char c :: nat) \<le> 57"
definition is_space :: "char \<Rightarrow> bool" where "is_space c \<longleftrightarrow> (of_char c :: nat) = 32 \<or> 9 \<le> (of_char c :: nat) \<and> (of_char c :: nat) \<le> 13"

fun digits_value :: "string \<Rightarrow> nat \<Rightarrow> nat" where
  "digits_value [] n = n"
| "digits_value (c # cs) n = digits_value cs (n * 10 + (of_char c - 48))"

text \<open>\<open>std::stoi\<close>; \<open>None\<close> is an exception.\<close>

definition stoi :: "string \<Rightarrow> int option" where
  "stoi str =
     (let s = dropWhile is_space str;
          (neg, s) = (case s of c # cs \<Rightarrow> if c = CHR ''-'' then (True, cs) else if c = CHR ''+'' then (False, cs) else (False, s) | [] \<Rightarrow> (False, s));
          ds = takeWhile is_digit s; v = (if neg then - int (digits_value ds 0) else int (digits_value ds 0)) in
      if ds = [] \<or> v < - 2147483648 \<or> 2147483647 < v then None else Some v)"

text \<open>The loop over a range does not end at the largest \<open>int\<close>.\<close>

definition cpu_range :: "int \<Rightarrow> int \<Rightarrow> int list option" where
  "cpu_range i e = (if i \<le> e \<and> e = 2147483647 then None else Some [i..e])"

fun parse_lines :: "string list \<Rightarrow> int list \<Rightarrow> int list option" where
  "parse_lines [] cpuset = Some cpuset"
| "parse_lines (line # lines) cpuset = (case getlines (CHR ''-'') line of
     [a] \<Rightarrow> (case stoi a of None \<Rightarrow> None | Some i \<Rightarrow> parse_lines lines (cpuset @ [i]))
   | [a, b] \<Rightarrow> (case stoi a of None \<Rightarrow> None | Some i \<Rightarrow> (case stoi b of None \<Rightarrow> None
       | Some e \<Rightarrow> (case cpu_range i e of None \<Rightarrow> None | Some cs \<Rightarrow> parse_lines lines (cpuset @ cs))))
   | _ \<Rightarrow> None)"

definition ParseCpuset :: "string \<Rightarrow> int list \<Rightarrow> int list option" where
  "ParseCpuset str cpuset = parse_lines (getlines (CHR '','') str) cpuset"

text \<open>How a set of processors is written: single ones and ranges.\<close>

definition show_range :: "nat \<times> nat \<Rightarrow> string" where
  "show_range r = (if fst r = snd r then dec (fst r) else dec (fst r) @ ''-'' @ dec (snd r))"

fun show_cpuset :: "(nat \<times> nat) list \<Rightarrow> string" where
  "show_cpuset [] = []"
| "show_cpuset [r] = show_range r"
| "show_cpuset (r # rs) = show_range r @ '','' @ show_cpuset rs"

lemma dec_digits: "list_all is_digit (dec n) \<and> dec n \<noteq> [] \<and> digits_value (dec n) 0 = n"
proof -
  have one: "is_digit (char_of (48 + k)) \<and> of_char (char_of (48 + k) :: char) = 48 + k" if "k < 10" for k :: nat
    using that by (simp add: is_digit_def)
  have snoc: "digits_value (xs @ [c]) m = digits_value xs m * 10 + (of_char c - 48)" for xs c m by (induction xs arbitrary: m) auto
  show ?thesis
  proof (induction n rule: dec.induct)
    case (1 n)
    show ?case
    proof (cases "n < 10")
      case True
      then show ?thesis using one [of n] by (subst (1 2 3) dec.simps) simp
    next
      case False
      then show ?thesis using 1 one [of "n mod 10"] by (subst (1 2 3) dec.simps) (simp add: snoc)
    qed
  qed
qed

lemma takeWhile_all: "list_all P xs \<Longrightarrow> takeWhile P xs = xs"
  by (induction xs) auto

lemma stoi_dec: "n \<le> 2147483647 \<Longrightarrow> stoi (dec n) = Some (int n)"
proof -
  assume n: "n \<le> 2147483647"
  note d = dec_digits [of n]
  then obtain c cs where c: "dec n = c # cs" "is_digit c" by (cases "dec n") auto
  then have ch: "\<not> is_space c" "c \<noteq> CHR ''-''" "c \<noteq> CHR ''+''" by (auto simp: is_digit_def is_space_def)
  have cs: "takeWhile is_digit cs = cs" using d c(1) by (intro takeWhile_all) simp
  show ?thesis using ch c d n by (simp add: stoi_def Let_def cs)
qed

lemma getlines_name: "d \<notin> set s \<Longrightarrow> s \<noteq> [] \<Longrightarrow> getlines d s = [s]"
proof -
  assume a: "d \<notin> set s" "s \<noteq> []"
  then have "takeWhile (\<lambda>x. x \<noteq> d) s = s" "dropWhile (\<lambda>x. x \<noteq> d) s = []" by (auto simp: takeWhile_eq_all_conv)
  then show ?thesis using a(2) by (cases s) simp_all
qed

lemma getlines_cons: "d \<notin> set s \<Longrightarrow> getlines d (s @ d # t) = s # getlines d t"
proof -
  assume a: "d \<notin> set s"
  then have "takeWhile (\<lambda>x. x \<noteq> d) (s @ d # t) = s" "dropWhile (\<lambda>x. x \<noteq> d) (s @ d # t) = d # t"
    by (auto simp: takeWhile_append dropWhile_append)
  then show ?thesis by (cases "s @ d # t") simp_all
qed

lemma digit_not: "list_all is_digit s \<Longrightarrow> CHR ''-'' \<notin> set s \<and> CHR '','' \<notin> set s"
  by (auto simp: list_all_iff is_digit_def)

lemma parse_range:
  assumes "fst r \<le> snd r" and "snd r < 2147483647"
  shows "parse_lines (show_range r # lines) cs = parse_lines lines (cs @ [int (fst r)..int (snd r)])"
proof -
  note d = dec_digits [of "fst r"] dec_digits [of "snd r"]
  have n: "CHR ''-'' \<notin> set (dec (fst r))" "CHR ''-'' \<notin> set (dec (snd r))" using d digit_not by blast+
  show ?thesis
  proof (cases "fst r = snd r")
    case True
    then have "getlines (CHR ''-'') (show_range r) = [dec (fst r)]" using getlines_name n d by (simp add: show_range_def)
    then show ?thesis using True assms by (simp add: stoi_dec)
  next
    case False
    then have "getlines (CHR ''-'') (show_range r) = [dec (fst r), dec (snd r)]"
      using getlines_cons [OF n(1)] getlines_name [OF n(2)] d by (simp add: show_range_def)
    then show ?thesis using assms by (simp add: stoi_dec cpu_range_def)
  qed
qed

text \<open>A set of processors written as single numbers and ranges is read back as exactly those
  processors, in their order, behind those the list had already; the largest \<open>int\<close> excepted, where the
  loop over the range would overflow.\<close>

theorem cpuset_roundtrip:
  assumes "list_all (\<lambda>r. fst r \<le> snd r \<and> snd r < 2147483647) rs"
  shows "ParseCpuset (show_cpuset rs) cpuset = Some (cpuset @ concat (map (\<lambda>r. [int (fst r)..int (snd r)]) rs))"
proof -
  have ne: "show_range r \<noteq> []" "CHR '','' \<notin> set (show_range r)" for r
    using dec_digits [of "fst r"] dec_digits [of "snd r"] digit_not by (auto simp: show_range_def)
  have lines: "getlines (CHR '','') (show_cpuset rs) = map show_range rs" for rs
    by (induction rs rule: show_cpuset.induct) (simp_all add: getlines_name getlines_cons ne)
  have "parse_lines (map show_range rs) cs = Some (cs @ concat (map (\<lambda>r. [int (fst r)..int (snd r)]) rs))" for cs
    using assms by (induction rs arbitrary: cs) (simp_all add: parse_range del: parse_lines.simps(2))
  then show ?thesis by (simp add: ParseCpuset_def lines)
qed

lemma cpuset_roundtrip_witness: "ParseCpuset ''0-2,5,7-8'' [9] = Some [9, 0, 1, 2, 5, 7, 8]"
proof -
  have "show_cpuset [(0, 2), (5, 5), (7, 8)] = ''0-2,5,7-8''" by code_simp
  moreover have "concat (map (\<lambda>r. [int (fst r)..int (snd r)]) [(0, 2), (5, 5), (7, 8)]) = [0, 1, 2, 5, 7, 8]" by code_simp
  ultimately show ?thesis using cpuset_roundtrip [of "[(0, 2), (5, 5), (7, 8)]" "[9]"] by simp
qed

section \<open>Global data\<close>

record 'c global_data =
  gd_config :: 'c
  gd_host_ip :: string
  gd_host_name :: string
  gd_process_id :: nat
  gd_process_group :: string
  gd_sched_name :: string
  gd_is_reality_mode :: bool

text \<open>The addresses of the interfaces in their order; \<open>None\<close> is one without an IPv4 address or a name.\<close>

fun first_ip :: "string option list \<Rightarrow> string" where
  "first_ip [] = ''127.0.0.1''"
| "first_ip (None # ifs) = first_ip ifs"
| "first_ip (Some addr # ifs) = (if take 3 addr \<noteq> ''127'' then addr else first_ip ifs)"

definition InitHostInfo :: "string option \<Rightarrow> string option list option \<Rightarrow> string" where
  "InitHostInfo ip_env getifaddrs =
     (let scan = (case getifaddrs of None \<Rightarrow> ''127.0.0.1'' | Some ifs \<Rightarrow> first_ip ifs) in
      case ip_env of Some ip \<Rightarrow> if take 3 ip \<noteq> ''127'' then ip else scan | None \<Rightarrow> scan)"

text \<open>An empty \<open>CYBER_IP\<close> is taken for an address.\<close>

lemma empty_cyber_ip: "InitHostInfo (Some []) ifs = []"
  by (simp add: InitHostInfo_def)

definition GetEnv :: "string option \<Rightarrow> string" where "GetEnv var = (case var of None \<Rightarrow> [] | Some v \<Rightarrow> v)"
definition WorkRoot :: "string option \<Rightarrow> string" where
  "WorkRoot CYBER_PATH = (let work_root = GetEnv CYBER_PATH in if work_root = [] then ''/apollo/cyber'' else work_root)"

text \<open>\<open>readlink\<close> may fill the whole buffer of \<open>PATH_MAX\<close> bytes; the zero then goes behind it.\<close>

definition program_path :: "string option \<Rightarrow> string option option" where
  "program_path readlink = (case readlink of None \<Rightarrow> Some None | Some path \<Rightarrow> if length path \<ge> 4096 then None else Some (Some path))"

definition InitConfig :: "(string \<Rightarrow> 'c option) \<Rightarrow> (string \<Rightarrow> 'c option) \<Rightarrow> string option \<Rightarrow> fsys \<Rightarrow> 'c option option" where
  "InitConfig parse_text parse CYBER_PATH s = GetProtoFromFile parse_text parse (GetAbsolutePath (WorkRoot CYBER_PATH) ''conf/cyber.pb.conf'') s"

definition gd_new :: "(string \<Rightarrow> 'c option) \<Rightarrow> (string \<Rightarrow> 'c option) \<Rightarrow> ('c \<Rightarrow> bool) \<Rightarrow> string option \<Rightarrow> string option \<Rightarrow> string option
    \<Rightarrow> string option list option \<Rightarrow> string \<Rightarrow> nat \<Rightarrow> string option \<Rightarrow> fsys \<Rightarrow> 'c global_data option" where
  "gd_new parse_text parse simulation CYBER_PATH CYBER_IP CYBER_RUN_MODE getifaddrs hostname pid readlink s = do {
     config \<leftarrow> InitConfig parse_text parse CYBER_PATH s;
     config \<leftarrow> config;
     prog_path \<leftarrow> program_path readlink;
     Some \<lparr>gd_config = config, gd_host_ip = InitHostInfo CYBER_IP getifaddrs, gd_host_name = hostname, gd_process_id = pid,
       gd_process_group = (case prog_path of Some p \<Rightarrow> GetFileName p False @ ''_'' @ dec pid | None \<Rightarrow> ''cyber_default_'' @ dec pid),
       gd_sched_name = ''CYBER_DEFAULT'',
       gd_is_reality_mode = (if CYBER_RUN_MODE = Some ''simulation'' then False else if simulation config then False else True)\<rparr> }"

definition gd_SetProcessGroup :: "string \<Rightarrow> 'c global_data \<Rightarrow> 'c global_data" where "gd_SetProcessGroup g d = d\<lparr>gd_process_group := g\<rparr>"
definition gd_SetSchedName :: "string \<Rightarrow> 'c global_data \<Rightarrow> 'c global_data" where "gd_SetSchedName n d = d\<lparr>gd_sched_name := n\<rparr>"
definition gd_EnableSimulationMode :: "'c global_data \<Rightarrow> 'c global_data" where "gd_EnableSimulationMode d = d\<lparr>gd_is_reality_mode := False\<rparr>"
definition gd_DisableSimulationMode :: "'c global_data \<Rightarrow> 'c global_data" where "gd_DisableSimulationMode d = d\<lparr>gd_is_reality_mode := True\<rparr>"

text \<open>Nodes, channels and services are registered by the same code as tasks.\<close>

definition RegisterNode :: "(string \<Rightarrow> u64) \<Rightarrow> string \<Rightarrow> (u64 \<Rightarrow> string option) \<Rightarrow> (u64 \<times> (u64 \<Rightarrow> string option)) option" where
  "RegisterNode hash node_name node_id_map = RegisterName hash node_name node_id_map"
definition RegisterChannel :: "(string \<Rightarrow> u64) \<Rightarrow> string \<Rightarrow> (u64 \<Rightarrow> string option) \<Rightarrow> (u64 \<times> (u64 \<Rightarrow> string option)) option" where
  "RegisterChannel hash channel channel_id_map = RegisterName hash channel channel_id_map"
definition RegisterService :: "(string \<Rightarrow> u64) \<Rightarrow> string \<Rightarrow> (u64 \<Rightarrow> string option) \<Rightarrow> (u64 \<times> (u64 \<Rightarrow> string option)) option" where
  "RegisterService hash service service_id_map = RegisterName hash service service_id_map"
definition GetNodeById :: "u64 \<Rightarrow> (u64 \<Rightarrow> string option) \<Rightarrow> string" where "GetNodeById i m = GetNameById i m"
definition GetChannelById :: "u64 \<Rightarrow> (u64 \<Rightarrow> string option) \<Rightarrow> string" where "GetChannelById i m = GetNameById i m"

definition GetServiceById :: "u64 \<Rightarrow> (u64 \<Rightarrow> string option) \<Rightarrow> string" where "GetServiceById i m = GetNameById i m"

fun register_channels :: "(string \<Rightarrow> u64) \<Rightarrow> string list \<Rightarrow> (u64 \<Rightarrow> string option) \<Rightarrow> (u64 \<Rightarrow> string option) option" where
  "register_channels hash [] m = Some m"
| "register_channels hash (n # ns) m = (case RegisterChannel hash n m of None \<Rightarrow> None | Some (i, m) \<Rightarrow> register_channels hash ns m)"

lemma register_channels_map:
  assumes "\<And>i n. m i = Some n \<longleftrightarrow> n \<in> N \<and> i = hash n" and "inj_on hash N"
  shows "(register_channels hash ns m = None \<longleftrightarrow> \<not> inj_on hash (N \<union> set ns))
    \<and> (\<forall>m'. register_channels hash ns m = Some m' \<longrightarrow> (\<forall>i n. m' i = Some n \<longleftrightarrow> n \<in> N \<union> set ns \<and> i = hash n))"
  using assms
proof (induction ns arbitrary: m N)
  case (Cons x ns)
  show ?case
  proof (cases "m (hash x) = None \<or> m (hash x) = Some x")
    case True
    then have r: "RegisterChannel hash x m = Some (hash x, m(hash x \<mapsto> x))" by (auto simp: RegisterChannel_def RegisterName_def Let_def)
    have no: "n = x" if "n \<in> N" "hash n = hash x" for n using True Cons.prems(1) [of "hash x" n] that by auto
    have "(m(hash x \<mapsto> x)) i = Some n \<longleftrightarrow> n \<in> insert x N \<and> i = hash n" for i n using Cons.prems(1) [of i n] no by auto
    moreover have "inj_on hash (insert x N)" using Cons.prems(2) no by (auto simp: inj_on_def)
    ultimately show ?thesis using Cons.IH [of "m(hash x \<mapsto> x)" "insert x N"] r by (simp del: fun_upd_apply)
  next
    case False
    then obtain y where y: "m (hash x) = Some y" "y \<noteq> x" by auto
    then have "y \<in> N" "hash y = hash x" using Cons.prems(1) [of "hash x" y] by auto
    then have "\<not> inj_on hash (N \<union> set (x # ns))" using y(2) unfolding inj_on_def by (metis Un_iff list.set_intros(1))
    moreover have "RegisterChannel hash x m = None" using y by (simp add: RegisterChannel_def RegisterName_def Let_def)
    ultimately show ?thesis by simp
  qed
qed simp

text \<open>Ids stand for names: registering channels, in any order and again and again, ends the process
  exactly when two of the names have the same hash; otherwise every registered name is found by its
  id, and an id that belongs to none gives the empty name.\<close>

theorem channel_names_found:
  "(register_channels hash ns Map.empty = None \<longleftrightarrow> \<not> inj_on hash (set ns))
    \<and> (\<forall>m. register_channels hash ns Map.empty = Some m \<longrightarrow>
         list_all (\<lambda>n. GetChannelById (hash n) m = n) ns \<and> (\<forall>i. i \<notin> hash ` set ns \<longrightarrow> GetChannelById i m = []))"
proof -
  have base: "register_channels hash ns Map.empty = None \<longleftrightarrow> \<not> inj_on hash (set ns)"
    "\<And>m i n. register_channels hash ns Map.empty = Some m \<Longrightarrow> m i = Some n \<longleftrightarrow> n \<in> set ns \<and> i = hash n"
    using register_channels_map [of Map.empty "{}" hash ns] by simp_all
  show ?thesis
  proof (intro conjI allI impI)
    fix m assume m: "register_channels hash ns Map.empty = Some m"
    have "m (hash n) = Some n" if "n \<in> set ns" for n using base(2) [OF m] that by blast
    then show "list_all (\<lambda>n. GetChannelById (hash n) m = n) ns" by (simp add: list_all_iff GetChannelById_def GetNameById_def)
  next
    fix m i assume m: "register_channels hash ns Map.empty = Some m" and "i \<notin> hash ` set ns"
    then have "m i = None" using base(2) [OF m] by (cases "m i") auto
    then show "GetChannelById i m = []" by (simp add: GetChannelById_def GetNameById_def)
  qed (rule base(1))
qed

definition ex_hash :: "string \<Rightarrow> u64" where "ex_hash s = of_nat (length s)"

lemma channel_names_found_witness:
  "\<exists>m. register_channels ex_hash [''a'', ''bc'', ''a''] Map.empty = Some m \<and> GetChannelById 2 m = ''bc''"
proof -
  have "inj_on ex_hash (set [''a'', ''bc'', ''a''])" by (simp add: inj_on_def ex_hash_def)
  then obtain m where m: "register_channels ex_hash [''a'', ''bc'', ''a''] Map.empty = Some m"
    using channel_names_found [of ex_hash "[''a'', ''bc'', ''a'']"] by auto
  then have "GetChannelById (ex_hash ''bc'') m = ''bc''" using channel_names_found [of ex_hash "[''a'', ''bc'', ''a'']"] by simp
  then show ?thesis using m by (simp add: ex_hash_def)
qed

section \<open>The scheduler's policy\<close>

datatype sched_policy = SchedulerClassic | SchedulerChoreography

definition scheduler_policy :: "(string \<Rightarrow> 'c option) \<Rightarrow> (string \<Rightarrow> 'c option) \<Rightarrow> ('c \<Rightarrow> string) \<Rightarrow> string option \<Rightarrow> string \<Rightarrow> fsys \<Rightarrow> sched_policy option" where
  "scheduler_policy parse_text parse policy_of CYBER_PATH process_group s =
     (let cfg_file = GetAbsolutePath (WorkRoot CYBER_PATH) (''conf/'' @ process_group @ ''.conf'') in
      do { cfg \<leftarrow> (if PathExists cfg_file s then GetProtoFromFile parse_text parse cfg_file s else Some None);
           let policy = (case cfg of Some c \<Rightarrow> policy_of c | None \<Rightarrow> ''classic'') in
           Some (if policy = ''classic'' then SchedulerClassic else if policy = ''choreography'' then SchedulerChoreography else SchedulerClassic) })"

section \<open>From \<open>Init\<close> to \<open>Clear\<close>\<close>

datatype cyber_state = STATE_UNINITIALIZED | STATE_INITIALIZED | STATE_SHUTTING_DOWN | STATE_SHUTDOWN

definition IsShutdown :: "cyber_state \<Rightarrow> bool" where "IsShutdown s \<longleftrightarrow> s = STATE_SHUTTING_DOWN \<or> s = STATE_SHUTDOWN"

text \<open>\<open>pr_initing\<close> is a thread inside \<open>Init\<close>, after the handler of \<open>SIGINT\<close> is installed; \<open>pr_handler\<close> is a
  handler that has read the state and has not set it. \<open>pr_cleaned\<close> counts how often the components were
  cleaned up, \<open>pr_requested\<close> is whether a handler has run, \<open>pr_aborted\<close> a failed check of \<open>Stop\<close>.\<close>

record process =
  pr_state :: cyber_state
  pr_logger :: "async_logger option"
  pr_atexit :: bool
  pr_initing :: bool
  pr_handled :: bool
  pr_handler :: bool
  pr_requested :: bool
  pr_cleaned :: nat
  pr_aborted :: bool

definition pr_start :: process where
  "pr_start = \<lparr>pr_state = STATE_UNINITIALIZED, pr_logger = None, pr_atexit = False, pr_initing = False, pr_handled = False, pr_handler = False,
     pr_requested = False, pr_cleaned = 0, pr_aborted = False\<rparr>"

definition InitLogger :: "process \<Rightarrow> process" where
  "InitLogger p = p\<lparr>pr_logger := lg_Start (lg_new (2 * 1024 * 1024))\<rparr>"

definition StopLogger :: "process \<Rightarrow> process" where
  "StopLogger p = (case pr_logger p of None \<Rightarrow> p
     | Some l \<Rightarrow> (case lg_Stop_begin l of None \<Rightarrow> p\<lparr>pr_aborted := True\<rparr> | Some l \<Rightarrow> p\<lparr>pr_logger := Some l\<rparr>))"

definition OnShutdown :: "process \<Rightarrow> process" where
  "OnShutdown p = (if pr_state p \<noteq> STATE_SHUTDOWN then p\<lparr>pr_state := STATE_SHUTTING_DOWN, pr_requested := True\<rparr> else p)"

definition Init_begin :: "process \<Rightarrow> process option" where
  "Init_begin p = (if pr_state p \<noteq> STATE_UNINITIALIZED then None else Some ((InitLogger p)\<lparr>pr_initing := True, pr_handled := True\<rparr>))"

definition Init_end :: "bool \<Rightarrow> process \<Rightarrow> bool \<times> process" where
  "Init_end atexit_ok p = (if \<not> pr_atexit p \<and> \<not> atexit_ok then (False, p\<lparr>pr_initing := False\<rparr>)
     else (True, p\<lparr>pr_atexit := True, pr_state := STATE_INITIALIZED, pr_initing := False\<rparr>))"

definition Clear :: "process \<Rightarrow> process" where
  "Clear p = (if pr_state p = STATE_SHUTDOWN \<or> pr_state p = STATE_UNINITIALIZED then p
     else (StopLogger (p\<lparr>pr_cleaned := pr_cleaned p + 1\<rparr>))\<lparr>pr_state := STATE_SHUTDOWN\<rparr>)"

text \<open>The steps; with \<open>racy\<close> a handler's two accesses of the state are apart.\<close>

inductive pr_step :: "bool \<Rightarrow> process \<Rightarrow> process \<Rightarrow> bool" for racy where
  pr_init: "\<not> pr_initing p \<Longrightarrow> Init_begin p = Some p' \<Longrightarrow> pr_step racy p p'"
| pr_inited: "pr_initing p \<Longrightarrow> Init_end ok p = (r, p') \<Longrightarrow> pr_step racy p p'"
| pr_signal: "pr_handled p \<Longrightarrow> pr_step racy p (OnShutdown p)"
| pr_read: "racy \<Longrightarrow> pr_handled p \<Longrightarrow> \<not> pr_handler p \<Longrightarrow> pr_state p \<noteq> STATE_SHUTDOWN \<Longrightarrow> pr_step racy p (p\<lparr>pr_handler := True\<rparr>)"
| pr_set: "racy \<Longrightarrow> pr_handler p \<Longrightarrow> pr_step racy p (p\<lparr>pr_state := STATE_SHUTTING_DOWN, pr_requested := True, pr_handler := False\<rparr>)"
| pr_clear: "\<not> pr_initing p \<Longrightarrow> pr_step racy p (Clear p)"

definition pr_logging :: "process \<Rightarrow> bool" where
  "pr_logging p \<longleftrightarrow> (case pr_logger p of None \<Rightarrow> False | Some l \<Rightarrow> lg_run_state l = RUNNING)"

definition pr_ok :: "process \<Rightarrow> bool" where
  "pr_ok p \<longleftrightarrow> \<not> pr_aborted p \<and> pr_cleaned p = (if pr_state p = STATE_SHUTDOWN then 1 else 0)
     \<and> (pr_state p = STATE_INITIALIZED \<or> pr_state p = STATE_SHUTTING_DOWN \<or> pr_initing p \<longrightarrow> pr_logging p)
     \<and> (pr_initing p \<longrightarrow> pr_state p \<noteq> STATE_SHUTDOWN) \<and> (pr_handled p \<longrightarrow> pr_logger p \<noteq> None \<and> (pr_state p \<noteq> STATE_SHUTDOWN \<longrightarrow> pr_logging p))"

lemma pr_logger_runs: "lg_Start (lg_new n) = Some ((lg_new n)\<lparr>lg_run_state := RUNNING\<rparr>)"
  by (simp add: lg_Start_def lg_new_def)

lemma Clear_ok: "pr_ok p \<Longrightarrow> \<not> pr_initing p \<Longrightarrow> pr_ok (Clear p)"
  by (cases "pr_state p") (auto simp: pr_ok_def Clear_def StopLogger_def pr_logging_def lg_Stop_begin_def split: option.splits)

text \<open>A process is set up and taken down in order: when a handler's accesses are not interrupted, then
  whatever calls of \<open>Init\<close> and \<open>Clear\<close> are made and whenever signals come, the components are cleaned up
  at most once, exactly when the process is shut down, the logger runs as long as it is not, and no
  check fails.\<close>

theorem clear_once:
  assumes "reach pr_start (pr_step False) p"
  shows "pr_ok p"
  using assms
proof (induction rule: reach.induct)
  case reach_init
  show ?case by (simp add: pr_ok_def pr_start_def pr_logging_def)
next
  case (reach_step p q)
  from reach_step.hyps(2) show ?case
  proof cases
    case pr_init
    then show ?thesis using reach_step.IH
      by (auto simp: pr_ok_def Init_begin_def InitLogger_def pr_logger_runs pr_logging_def split: if_splits)
  next
    case (pr_inited ok r)
    then show ?thesis using reach_step.IH by (auto simp: pr_ok_def Init_end_def pr_logging_def split: if_splits)
  next
    case pr_signal
    then show ?thesis using reach_step.IH by (auto simp: pr_ok_def OnShutdown_def pr_logging_def)
  next
    case pr_clear
    then show ?thesis using reach_step.IH Clear_ok by simp
  qed simp_all
qed

definition ex_inited :: process where
  "ex_inited = pr_start\<lparr>pr_logger := lg_Start (lg_new (2 * 1024 * 1024)), pr_initing := True, pr_handled := True\<rparr>"
definition ex_running :: process where "ex_running = ex_inited\<lparr>pr_atexit := True, pr_state := STATE_INITIALIZED, pr_initing := False\<rparr>"

lemma ex_running_reach: "reach pr_start (pr_step racy) ex_running"
proof -
  have "reach pr_start (pr_step racy) ex_inited"
    by (rule reach_one, rule pr_init) (simp_all add: pr_start_def Init_begin_def InitLogger_def ex_inited_def)
  then show ?thesis
    by (rule reach_step, intro pr_inited [where ok = True and r = True]) (simp_all add: ex_inited_def ex_running_def Init_end_def)
qed

lemma clear_once_witness: "pr_ok (Clear ex_running) \<and> pr_cleaned (Clear ex_running) = 1"
proof -
  have "reach pr_start (pr_step False) (Clear ex_running)"
    by (rule reach_step [OF ex_running_reach], rule pr_clear) (simp add: ex_running_def)
  moreover have "pr_cleaned (Clear ex_running) = 1" by code_simp
  ultimately show ?thesis using clear_once by simp
qed

text \<open>But a handler that is interrupted between its look at the state and its write undoes a shutdown:
  \<open>Clear\<close> in between shuts the process down, the handler sets it back, and the next \<open>Clear\<close> - the one at
  exit - cleans up everything a second time and aborts in the logger's \<open>Stop\<close>.\<close>

theorem interrupted_handler_clears_twice:
  "\<exists>p. reach pr_start (pr_step True) p \<and> pr_cleaned p = 2 \<and> pr_aborted p"
proof -
  let ?r = "ex_running\<lparr>pr_handler := True\<rparr>"
  let ?s = "(Clear ?r)\<lparr>pr_state := STATE_SHUTTING_DOWN, pr_requested := True, pr_handler := False\<rparr>"
  have "reach pr_start (pr_step True) ?r"
    by (rule reach_step [OF ex_running_reach], rule pr_read) (simp_all add: ex_running_def ex_inited_def pr_start_def)
  then have "reach pr_start (pr_step True) (Clear ?r)" by (rule reach_step, intro pr_clear) (simp add: ex_running_def)
  then have "reach pr_start (pr_step True) ?s" by (rule reach_step, intro pr_set) (simp, code_simp)
  then have "reach pr_start (pr_step True) (Clear ?s)" by (rule reach_step, intro pr_clear) code_simp
  moreover have "pr_cleaned (Clear ?s) = 2" "pr_aborted (Clear ?s)" by code_simp+
  ultimately show ?thesis by blast
qed

text \<open>And a signal that comes while \<open>Init\<close> has installed the handler but not yet set the state is
  forgotten: the process ends up initialized, not shutting down, although the handler has run.\<close>

theorem early_signal_lost:
  "\<exists>p. reach pr_start (pr_step False) p \<and> pr_requested p \<and> pr_state p = STATE_INITIALIZED \<and> \<not> IsShutdown (pr_state p)"
proof -
  let ?p = "ex_running\<lparr>pr_requested := True\<rparr>"
  have "reach pr_start (pr_step False) ex_inited"
    by (rule reach_one, rule pr_init) (simp_all add: pr_start_def Init_begin_def InitLogger_def ex_inited_def)
  then have "reach pr_start (pr_step False) (OnShutdown ex_inited)" by (rule reach_step, intro pr_signal) (simp add: ex_inited_def)
  then have "reach pr_start (pr_step False) ?p"
    by (rule reach_step, intro pr_inited [where ok = True and r = True])
      (simp_all add: OnShutdown_def ex_inited_def ex_running_def Init_end_def pr_start_def)
  then show ?thesis by (intro exI [of _ ?p]) (simp add: ex_running_def IsShutdown_def)
qed

end
