(* ===== verification/Multicast_Notifier.thy ===== *)
theory Multicast_Notifier
  imports Message_Codec
begin

text \<open>
  The notifier of shared memory over UDP multicast (transport/shm/multicast_notifier.h,
  multicast_notifier.cc). The results of the system calls are arguments; \<open>mc_closed\<close> are the descriptors
  it has closed.
\<close>

type_synonym u16 = "16 word"

record multicast =
  mc_notify_fd :: int
  mc_notify_addr :: "string \<times> u16"
  mc_listen_fd :: int
  mc_listen_addr :: u16
  mc_is_shutdown :: bool
  mc_closed :: "int list"

text \<open>What the calls of \<open>Init\<close> give, in their order: two sockets, and whether \<open>fcntl\<close>, \<open>SO_REUSEADDR\<close>, \<open>bind\<close>,
  \<open>IP_MULTICAST_LOOP\<close> and \<open>IP_ADD_MEMBERSHIP\<close> succeed.\<close>

record mc_calls =
  ca_notify_fd :: int
  ca_listen_fd :: int
  ca_nonblock :: bool
  ca_reuse :: bool
  ca_bind :: bool
  ca_loop :: bool
  ca_membership :: bool

definition mc_Init :: "(string \<times> u32) option \<Rightarrow> mc_calls \<Rightarrow> multicast \<Rightarrow> bool \<times> multicast" where
  "mc_Init shm_locator c m =
     (let (mcast_ip, mcast_port) = (case shm_locator of None \<Rightarrow> (''239.255.0.100'', 8888) | Some (ip, port) \<Rightarrow> (ip, ucast port));
          m = m\<lparr>mc_notify_fd := ca_notify_fd c\<rparr> in
      if ca_notify_fd c = -1 then (False, m)
      else (let m = m\<lparr>mc_notify_addr := (mcast_ip, mcast_port), mc_listen_fd := ca_listen_fd c\<rparr> in
        if ca_listen_fd c = -1 then (False, m)
        else if \<not> ca_nonblock c then (False, m)
        else (let m = m\<lparr>mc_listen_addr := mcast_port\<rparr> in
          if \<not> ca_reuse c then (False, m)
          else if \<not> ca_bind c then (False, m)
          else if \<not> ca_loop c then (False, m)
          else if \<not> ca_membership c then (False, m)
          else (True, m))))"

definition mc_Shutdown :: "multicast \<Rightarrow> multicast" where
  "mc_Shutdown m =
     (if mc_is_shutdown m then m
      else (let m = m\<lparr>mc_is_shutdown := True\<rparr>;
                m = (if mc_notify_fd m \<noteq> -1 then m\<lparr>mc_closed := mc_closed m @ [mc_notify_fd m], mc_notify_fd := -1\<rparr> else m);
                m = m\<lparr>mc_notify_addr := ([], 0)\<rparr>;
                m = (if mc_listen_fd m \<noteq> -1 then m\<lparr>mc_closed := mc_closed m @ [mc_listen_fd m], mc_listen_fd := -1\<rparr> else m) in
            m\<lparr>mc_listen_addr := 0\<rparr>))"

definition mc_new :: "(string \<times> u32) option \<Rightarrow> mc_calls \<Rightarrow> multicast" where
  "mc_new shm_locator c =
     (let (ok, m) = mc_Init shm_locator c
        \<lparr>mc_notify_fd = -1, mc_notify_addr = ([], 0), mc_listen_fd = -1, mc_listen_addr = 0, mc_is_shutdown = False, mc_closed = []\<rparr> in
      if ok then m else mc_Shutdown m)"

text \<open>The datagram and where it is sent, unless shut down; \<open>nbytes\<close> is what \<open>sendto\<close> gives.\<close>

definition mc_Notify :: "int \<Rightarrow> readable_info \<Rightarrow> multicast \<Rightarrow> bool \<times> (u8 list \<times> string \<times> u16) option" where
  "mc_Notify nbytes info m =
     (if mc_is_shutdown m then (False, None) else (nbytes > 0, Some (ri_SerializeTo info, mc_notify_addr m)))"

text \<open>\<open>ready_num\<close> is what \<open>poll\<close> gives, \<open>datagram\<close> what \<open>recvfrom\<close> would receive, cut to the buffer; \<open>None\<close> is an error.\<close>

definition mc_Listen :: "int \<Rightarrow> u8 list option \<Rightarrow> readable_info option \<Rightarrow> multicast \<Rightarrow> bool \<times> readable_info option" where
  "mc_Listen ready_num datagram info m =
     (if mc_is_shutdown m then (False, info)
      else (case info of None \<Rightarrow> (False, None)
        | Some i \<Rightarrow> if ready_num > 0
            then (case datagram of None \<Rightarrow> (False, info)
              | Some bs \<Rightarrow> (let buf = take 32 bs in map_prod (\<lambda>b. b) Some (ri_DeserializeFrom (Some (buf @ replicate (32 - length buf) 0)) (length buf) i)))
            else (False, info)))"

text \<open>A notification reaches the other hosts as it was: the datagram \<open>Notify\<close> sends is one \<open>Listen\<close>
  turns back into the same readable info, and a datagram of any other length, a longer one included,
  is refused and leaves the caller's object alone.\<close>

theorem multicast_roundtrip:
  assumes "\<not> mc_is_shutdown a" and "\<not> mc_is_shutdown b"
  shows "\<exists>bs. mc_Notify n info a = (n > 0, Some (bs, mc_notify_addr a)) \<and> mc_Listen 1 (Some bs) (Some i) b = (True, Some info)
    \<and> mc_Listen 1 (Some other) (Some i) b \<in> (if length other = length bs then range (Pair True) else {(False, Some i)})"
proof -
  let ?bs = "ri_SerializeTo info"
  have len: "length ?bs = 20" by (simp add: ri_SerializeTo_def)
  have "mc_Listen 1 (Some ?bs) (Some i) b = (True, Some info)"
    using assms(2) len by (simp add: mc_Listen_def ri_DeserializeFrom_def ri_kSize_def Let_def) (simp add: ri_SerializeTo_def)
  moreover have "mc_Listen 1 (Some other) (Some i) b \<in> (if length other = length ?bs then range (Pair True) else {(False, Some i)})"
    using assms(2) len by (auto simp: mc_Listen_def ri_DeserializeFrom_def ri_kSize_def Let_def)
  ultimately show ?thesis using assms(1) by (intro exI [of _ ?bs]) (simp add: mc_Notify_def)
qed

definition mc_fds :: "mc_calls \<Rightarrow> int list" where
  "mc_fds c = (if ca_notify_fd c = -1 then [] else if ca_listen_fd c = -1 then [ca_notify_fd c] else [ca_notify_fd c, ca_listen_fd c])"

text \<open>No socket is leaked: whichever of its system calls fails, the notifier is either ready with
  both sockets, or shut down with every socket it opened closed, once; and \<open>Shutdown\<close> closes both,
  however often it is called.\<close>

theorem multicast_closes_sockets:
  "(let m = mc_new l c in
     (if mc_is_shutdown m then mc_closed m = mc_fds c else mc_closed m = [] \<and> [mc_notify_fd m, mc_listen_fd m] = mc_fds c)
     \<and> mc_closed (mc_Shutdown m) = mc_fds c \<and> mc_Shutdown (mc_Shutdown m) = mc_Shutdown m)"
  by (auto simp: mc_new_def mc_Init_def mc_Shutdown_def mc_fds_def Let_def split: option.splits)

definition ex_calls :: mc_calls where
  "ex_calls = \<lparr>ca_notify_fd = 3, ca_listen_fd = 4, ca_nonblock = True, ca_reuse = True, ca_bind = True, ca_loop = True, ca_membership = True\<rparr>"

lemma multicast_roundtrip_witness:
  "\<exists>bs. mc_Notify 20 (ri_new 1 2 3) (mc_new None ex_calls) = (True, Some (bs, ''239.255.0.100'', 8888))
    \<and> mc_Listen 1 (Some bs) (Some ri_default) (mc_new (Some (''239.1.1.1'', 9)) ex_calls) = (True, Some (ri_new 1 2 3))"
proof -
  have m1: "\<not> mc_is_shutdown (mc_new None ex_calls)" and m2: "\<not> mc_is_shutdown (mc_new (Some (''239.1.1.1'', 9)) ex_calls)"
    and addr: "mc_notify_addr (mc_new None ex_calls) = (''239.255.0.100'', 8888)"
    by (simp_all add: mc_new_def mc_Init_def ex_calls_def Let_def)
  show ?thesis
    using multicast_roundtrip [OF m1 m2, where n = 20 and info = "ri_new 1 2 3" and other = "[]" and i = ri_default] addr by auto
qed

section \<open>Which notifier a process has\<close>

text \<open>\<open>CreateNotifier\<close>, with the configured type when there is one.\<close>

datatype notifier_kind = MulticastKind | ConditionKind

definition CreateNotifier :: "string option \<Rightarrow> notifier_kind" where
  "CreateNotifier configured =
     (let notifier_type = (case configured of None \<Rightarrow> ''multicast'' | Some ty \<Rightarrow> ty) in
      if notifier_type = ''multicast'' then MulticastKind
      else if notifier_type = ''condition'' then ConditionKind
      else MulticastKind)"

end
