(* ===== verification/Record_Bytes.thy ===== *)
theory Record_Bytes
  imports Record_Roundtrip
begin

text \<open>
  Record files as bytes: the sections of file/section.h as the writer's \<open>WriteSection\<close> puts them on the
  disk and as RecordFileReader (record_file_reader.h, .cc) takes them off it, and the loops of
  RecordReader over them. The system's descriptor is the bytes of the file and a position. The protobuf
  library is a parameter, one record per message type; what is used of it is \<open>pb_ok\<close>.
\<close>

section \<open>What the protobuf library gives\<close>

text \<open>The outcome of \<open>ParseFromCodedStream\<close> under a limit: its answer, what the object holds then, how many
  bytes were taken from the descriptor, \<open>ConsumedEntireMessage\<close> and \<open>ExpectAtEnd\<close>.\<close>

record 'm pb_parse =
  pr_ok :: bool
  pr_message :: 'm
  pr_used :: nat
  pr_whole :: bool
  pr_end :: bool

record 'm pb_type =
  pb_bytes :: "'m \<Rightarrow> u8 list"
  pb_Parse :: "int \<Rightarrow> u8 list \<Rightarrow> 'm pb_parse"

definition pb_ByteSize :: "'m pb_type \<Rightarrow> 'm \<Rightarrow> nat" where
  "pb_ByteSize t m = length (pb_bytes t m)"

text \<open>A message that is not empty and that a descriptor holds whole is parsed as it was, and nothing behind
  its limit is taken.\<close>

definition pb_ok :: "'m pb_type \<Rightarrow> 'm \<Rightarrow> bool" where
  "pb_ok t m \<longleftrightarrow> 0 < pb_ByteSize t m \<and> pb_ByteSize t m < 2 ^ 31 \<and>
     (\<forall>rest. let p = pb_Parse t (int (pb_ByteSize t m)) (pb_bytes t m @ rest) in
        pr_ok p \<and> pr_message p = m \<and> pr_used p = pb_ByteSize t m \<and> pr_whole p)"

record codec =
  co_header :: "rec_header pb_type"
  co_channel :: "channel pb_type"
  co_chunk_header :: "chunk_header pb_type"
  co_chunk_body :: "single_message list pb_type"
  co_index :: "single_index list pb_type"

section \<open>Sections on the disk\<close>

definition SECTION_HEADER :: u32 where "SECTION_HEADER = 0"
definition SECTION_CHUNK_HEADER :: u32 where "SECTION_CHUNK_HEADER = 1"
definition SECTION_CHUNK_BODY :: u32 where "SECTION_CHUNK_BODY = 2"
definition SECTION_INDEX :: u32 where "SECTION_INDEX = 3"
definition SECTION_CHANNEL :: u32 where "SECTION_CHANNEL = 4"

lemmas section_types = SECTION_HEADER_def SECTION_CHUNK_HEADER_def SECTION_CHUNK_BODY_def SECTION_INDEX_def SECTION_CHANNEL_def

text \<open>\<open>struct Section\<close> in memory: the type, four bytes \<open>pad\<close> nobody sets, the size.\<close>

definition section_struct :: "u8 list \<Rightarrow> u32 \<Rightarrow> nat \<Rightarrow> u8 list" where
  "section_struct pad type sz = bytes32 type @ pad @ bytes64 (of_nat sz)"

definition section_type :: "u8 list \<Rightarrow> u32" where "section_type bs = word32 (take 4 bs)"
definition section_size :: "u8 list \<Rightarrow> i64" where "section_size bs = word64 (take 8 (drop 8 bs))"

fun sec_type :: "rec_section \<Rightarrow> u32" where
  "sec_type (SecChunkHeader _) = SECTION_CHUNK_HEADER"
| "sec_type (SecChunkBody _) = SECTION_CHUNK_BODY"
| "sec_type (SecIndex _) = SECTION_INDEX"
| "sec_type (SecChannel _) = SECTION_CHANNEL"

fun sec_payload :: "codec \<Rightarrow> rec_section \<Rightarrow> u8 list" where
  "sec_payload co (SecChunkHeader h) = pb_bytes (co_chunk_header co) h"
| "sec_payload co (SecChunkBody b) = pb_bytes (co_chunk_body co) b"
| "sec_payload co (SecIndex ix) = pb_bytes (co_index co) ix"
| "sec_payload co (SecChannel c) = pb_bytes (co_channel co) c"

definition co_size :: "codec \<Rightarrow> rec_section \<Rightarrow> nat" where "co_size co s = length (sec_payload co s)"

definition sec_bytes :: "codec \<Rightarrow> u8 list \<Rightarrow> rec_section \<Rightarrow> u8 list" where
  "sec_bytes co pad s = section_struct pad (sec_type s) (co_size co s) @ sec_payload co s"

text \<open>The header's area: its section, its bytes and the padding to its fixed length, \<open>blank\<close>, whose first
  byte is the character 0.\<close>

definition header_area :: "codec \<Rightarrow> u8 list \<Rightarrow> rec_header \<Rightarrow> u8 list" where
  "header_area co pad h =
     section_struct pad SECTION_HEADER (pb_ByteSize (co_header co) h) @ pb_bytes (co_header co) h
       @ take (HEADER_LENGTH - pb_ByteSize (co_header co) h) (48 # replicate (HEADER_LENGTH - 1) 0)"

definition file_bytes :: "codec \<Rightarrow> u8 list \<Rightarrow> rec_file \<Rightarrow> u8 list" where
  "file_bytes co pad f = header_area co pad (fst f) @ concat (map (sec_bytes co pad) (snd f))"

lemma section_struct_props:
  assumes "length pad = 4"
  shows "length (section_struct pad t n) = SECTION_LENGTH"
    and "section_type (section_struct pad t n) = t"
    and "section_size (section_struct pad t n) = of_nat n"
  using assms by (simp_all add: section_struct_def section_type_def section_size_def SECTION_LENGTH_def)

lemma header_area_length:
  "length pad = 4 \<Longrightarrow> pb_ByteSize (co_header co) h \<le> HEADER_LENGTH \<Longrightarrow> length (header_area co pad h) = SECTION_LENGTH + HEADER_LENGTH"
  by (simp add: header_area_def section_struct_props pb_ByteSize_def HEADER_LENGTH_def)

lemma sec_bytes_length: "length pad = 4 \<Longrightarrow> length (sec_bytes co pad s) = sec_len (co_size co) s"
  by (simp add: sec_bytes_def section_struct_props sec_len_def co_size_def)

section \<open>RecordFileReader\<close>

record file_reader =
  rf_bytes :: "u8 list"
  rf_pos :: nat
  rf_end_of_file :: bool
  rf_header :: rec_header
  rf_index :: "single_index list"

text \<open>\<open>SetPosition\<close>: \<open>lseek\<close> refuses a negative offset and allows one behind the end.\<close>

definition rf_SetPosition :: "int \<Rightarrow> file_reader \<Rightarrow> bool \<times> file_reader" where
  "rf_SetPosition p r = (if p < 0 then (False, r) else (True, r\<lparr>rf_pos := nat p\<rparr>))"

definition rf_rest :: "file_reader \<Rightarrow> u8 list" where "rf_rest r = drop (rf_pos r) (rf_bytes r)"

definition rf_ReadStruct :: "file_reader \<Rightarrow> (u32 \<times> i64) option \<times> file_reader" where
  "rf_ReadStruct r =
     (let bs = take SECTION_LENGTH (rf_rest r); count = length bs; r = r\<lparr>rf_pos := rf_pos r + count\<rparr> in
      if count = 0 then (None, r\<lparr>rf_end_of_file := True\<rparr>)
      else if count \<noteq> SECTION_LENGTH then (None, r)
      else (Some (section_type bs, section_size bs), r))"

text \<open>\<open>ReadSection<T>\<close>, into an object that holds \<open>m\<close>.\<close>

definition rf_ReadMessage :: "'m pb_type \<Rightarrow> i64 \<Rightarrow> 'm \<Rightarrow> file_reader \<Rightarrow> bool \<times> 'm \<times> file_reader" where
  "rf_ReadMessage t sz m r =
     (if sint sz < - (2 ^ 31) \<or> 2 ^ 31 - 1 < sint sz then (False, m, r)
      else (let p = pb_Parse t (sint sz) (rf_rest r); r = r\<lparr>rf_pos := rf_pos r + pr_used p\<rparr> in
        if \<not> pr_ok p then (False, pr_message p, r\<lparr>rf_end_of_file := pr_end p\<rparr>)
        else if \<not> pr_whole p then (False, pr_message p, r)
        else if int (pb_ByteSize t (pr_message p)) \<noteq> sint sz then (False, pr_message p, r)
        else (True, pr_message p, r)))"

definition rf_SkipSection :: "i64 \<Rightarrow> file_reader \<Rightarrow> bool \<times> file_reader" where
  "rf_SkipSection sz r =
     (let pos = int (rf_pos r) in
      if 2 ^ 63 - 1 - pos < sint sz then (False, r) else rf_SetPosition (pos + sint sz) r)"

definition rf_Reset :: "file_reader \<Rightarrow> bool \<times> file_reader" where
  "rf_Reset r =
     (let (ok, r) = rf_SetPosition (int (SECTION_LENGTH + HEADER_LENGTH)) r in
      if \<not> ok then (False, r) else (True, r\<lparr>rf_end_of_file := False\<rparr>))"

definition rf_ReadHeader :: "codec \<Rightarrow> file_reader \<Rightarrow> bool \<times> file_reader" where
  "rf_ReadHeader co r =
     (case rf_ReadStruct r of
        (None, r) \<Rightarrow> (False, r)
      | (Some (type, sz), r) \<Rightarrow>
          if type \<noteq> SECTION_HEADER then (False, r)
          else (let (ok, h, r) = rf_ReadMessage (co_header co) sz (rf_header r) r; r = r\<lparr>rf_header := h\<rparr> in
            if \<not> ok then (False, r) else rf_SetPosition (int (SECTION_LENGTH + HEADER_LENGTH)) r))"

text \<open>\<open>Open\<close>: \<open>file\<close> is what there is to read, \<open>None\<close> where there is no file or it does not open.\<close>

definition rf_Open :: "codec \<Rightarrow> u8 list option \<Rightarrow> file_reader \<Rightarrow> bool \<times> file_reader" where
  "rf_Open co file r =
     (case file of None \<Rightarrow> (False, r)
      | Some bs \<Rightarrow> rf_ReadHeader co (r\<lparr>rf_bytes := bs, rf_pos := 0, rf_end_of_file := False\<rparr>))"

definition rf_ReadIndex :: "codec \<Rightarrow> file_reader \<Rightarrow> bool \<times> file_reader" where
  "rf_ReadIndex co r =
     (if \<not> hd_is_complete (rf_header r) then (False, r)
      else (let (ok, r) = rf_SetPosition (sint (hd_index_position (rf_header r))) r in
        if \<not> ok then (False, r)
        else (case rf_ReadStruct r of
            (None, r) \<Rightarrow> (False, r)
          | (Some (type, sz), r) \<Rightarrow>
              if type \<noteq> SECTION_INDEX then (False, r)
              else (let (ok, ix, r) = rf_ReadMessage (co_index co) sz (rf_index r) r; r = r\<lparr>rf_index := ix\<rparr> in
                if \<not> ok then (False, r) else (True, snd (rf_Reset r))))))"

section \<open>RecordReader over the bytes\<close>

record byte_reader =
  br_is_valid :: bool
  br_header :: rec_header
  br_file :: file_reader
  br_reach_end :: bool
  br_chunk :: "single_message list"
  br_message_index :: nat
  br_channel_info :: "string \<Rightarrow> channel_cache option"

definition br_new :: "codec \<Rightarrow> rec_header \<Rightarrow> u8 list option \<Rightarrow> byte_reader" where
  "br_new co h0 file =
     (let (ok, f) = rf_Open co file \<lparr>rf_bytes = [], rf_pos = 0, rf_end_of_file = False, rf_header = h0, rf_index = []\<rparr>;
          r = \<lparr>br_is_valid = False, br_header = h0, br_file = f, br_reach_end = False, br_chunk = [],
               br_message_index = 0, br_channel_info = (\<lambda>_. None)\<rparr> in
      if \<not> ok then r
      else (let (found, f') = rf_ReadIndex co f in
        r\<lparr>br_is_valid := True, br_header := rf_header f, br_file := snd (rf_Reset f'),
          br_channel_info := (if found then rr_channels (rf_index f') (\<lambda>_. None) else (\<lambda>_. None))\<rparr>))"

definition br_Reset :: "byte_reader \<Rightarrow> byte_reader" where
  "br_Reset r = r\<lparr>br_file := snd (rf_Reset (br_file r)), br_reach_end := False, br_message_index := 0, br_chunk := []\<rparr>"

text \<open>The loop of \<open>ReadNextChunk\<close> with fuel for its turns; \<open>skip\<close> is \<open>skip_next_chunk_body\<close>. \<open>None\<close>: still
  looping.\<close>

fun br_next :: "codec \<Rightarrow> nat \<Rightarrow> u64 \<Rightarrow> u64 \<Rightarrow> bool \<Rightarrow> byte_reader \<Rightarrow> (bool \<times> byte_reader) option" where
  "br_next co 0 b e skip r = None"
| "br_next co (Suc n) b e skip r =
     (if br_reach_end r then Some (False, r)
      else (case rf_ReadStruct (br_file r) of
          (None, f) \<Rightarrow> Some (False, r\<lparr>br_file := f\<rparr>)
        | (Some (type, sz), f) \<Rightarrow>
            if type = SECTION_INDEX then
              br_next co n b e skip (r\<lparr>br_file := snd (rf_SkipSection sz f), br_reach_end := True\<rparr>)
            else if type = SECTION_CHANNEL then
              (let (ok, _, f) = rf_ReadMessage (co_channel co) sz \<lparr>chn_name = [], chn_message_type = [], chn_proto_desc = []\<rparr> f;
                   r = r\<lparr>br_file := f\<rparr> in
               if \<not> ok then Some (False, r) else br_next co n b e skip r)
            else if type = SECTION_CHUNK_HEADER then
              (let (ok, h, f) = rf_ReadMessage (co_chunk_header co) sz (ck_header Chunk_clear) f; r = r\<lparr>br_file := f\<rparr> in
               if \<not> ok then Some (False, r)
               else (let skip = skip \<or> ck_end_time h < b in
                 if e < ck_begin_time h then Some (False, r) else br_next co n b e skip r))
            else if type = SECTION_CHUNK_BODY then
              (if skip then br_next co n b e False (r\<lparr>br_file := snd (rf_SkipSection sz f)\<rparr>)
               else (let (ok, ms, f) = rf_ReadMessage (co_chunk_body co) sz (br_chunk r) f; r = r\<lparr>br_file := f, br_chunk := ms\<rparr> in
                 Some (ok, r)))
            else Some (False, r\<lparr>br_file := f\<rparr>)))"

text \<open>\<open>ReadMessage\<close>, with fuel for its recursion and the loop.\<close>

fun br_ReadMessage :: "codec \<Rightarrow> nat \<Rightarrow> u64 \<Rightarrow> u64 \<Rightarrow> byte_reader \<Rightarrow> (single_message option \<times> byte_reader) option" where
  "br_ReadMessage co 0 b e r = None"
| "br_ReadMessage co (Suc n) b e r =
     (if \<not> br_is_valid r then Some (None, r)
      else if hd_end_time (br_header r) < b \<or> e < hd_begin_time (br_header r) then Some (None, r)
      else (case chunk_scan b e (br_chunk r) (br_message_index r) of
          (Beyond, i) \<Rightarrow> Some (None, r\<lparr>br_message_index := i\<rparr>)
        | (Found m, i) \<Rightarrow> Some (Some m, r\<lparr>br_message_index := i\<rparr>)
        | (ChunkEnd, i) \<Rightarrow>
            (case br_next co (Suc n) b e False (r\<lparr>br_message_index := i\<rparr>) of
               None \<Rightarrow> None
             | Some (ok, r) \<Rightarrow> if ok then br_ReadMessage co n b e (r\<lparr>br_message_index := 0\<rparr>) else Some (None, r))))"

section \<open>Reading what was written\<close>

definition rf_advance :: "nat \<Rightarrow> file_reader \<Rightarrow> file_reader" where
  "rf_advance n f = f\<lparr>rf_pos := rf_pos f + n\<rparr>"

lemma rf_advance_simps [simp]:
  "rf_bytes (rf_advance n f) = rf_bytes f" "rf_pos (rf_advance n f) = rf_pos f + n"
  "rf_rest (rf_advance n f) = drop n (rf_rest f)"
  "rf_header (rf_advance n f) = rf_header f" "rf_index (rf_advance n f) = rf_index f"
  "rf_advance n (rf_advance m f) = rf_advance (m + n) f"
  by (simp_all add: rf_advance_def rf_rest_def add.commute add.left_commute)

lemma sint_of_nat_offset: "n < 2 ^ 63 \<Longrightarrow> sint (of_nat n :: i64) = int n"
  by (simp add: signed_of_nat) (simp add: signed_take_bit_int_eq_self)

fun sec_ok :: "codec \<Rightarrow> rec_section \<Rightarrow> bool" where
  "sec_ok co (SecChunkHeader h) \<longleftrightarrow> pb_ok (co_chunk_header co) h"
| "sec_ok co (SecChunkBody b) \<longleftrightarrow> pb_ok (co_chunk_body co) b"
| "sec_ok co (SecIndex ix) \<longleftrightarrow> True"
| "sec_ok co (SecChannel c) \<longleftrightarrow> pb_ok (co_channel co) c"

lemma rf_ReadStruct_at:
  assumes "length pad = 4" and "rf_rest f = section_struct pad t n @ X"
  shows "rf_ReadStruct f = (Some (t, of_nat n), rf_advance SECTION_LENGTH f)"
    and "rf_rest (rf_advance SECTION_LENGTH f) = X"
proof -
  have len: "length (section_struct pad t n) = SECTION_LENGTH" by (rule section_struct_props [OF assms(1)])
  then show "rf_rest (rf_advance SECTION_LENGTH f) = X" using assms(2) by simp
  have "take SECTION_LENGTH (rf_rest f) = section_struct pad t n" using assms(2) len by simp
  moreover have "section_struct pad t n \<noteq> []" using len by (auto simp: SECTION_LENGTH_def)
  ultimately show "rf_ReadStruct f = (Some (t, of_nat n), rf_advance SECTION_LENGTH f)"
    by (simp add: rf_ReadStruct_def Let_def len section_struct_props [OF assms(1)] rf_advance_def)
qed

lemma rf_ReadMessage_at:
  assumes "pb_ok t m" and "rf_rest f = pb_bytes t m @ X"
  shows "rf_ReadMessage t (of_nat (pb_ByteSize t m)) m0 f = (True, m, rf_advance (pb_ByteSize t m) f)"
    and "rf_rest (rf_advance (pb_ByteSize t m) f) = X"
proof -
  have size: "pb_ByteSize t m < 2 ^ 31" and p: "let p = pb_Parse t (int (pb_ByteSize t m)) (pb_bytes t m @ X) in
      pr_ok p \<and> pr_message p = m \<and> pr_used p = pb_ByteSize t m \<and> pr_whole p"
    using assms(1) unfolding pb_ok_def by blast+
  have s: "sint (of_nat (pb_ByteSize t m) :: i64) = int (pb_ByteSize t m)" using size by (intro sint_of_nat_offset) simp
  show "rf_ReadMessage t (of_nat (pb_ByteSize t m)) m0 f = (True, m, rf_advance (pb_ByteSize t m) f)"
    using p size unfolding rf_ReadMessage_def s assms(2) by (simp add: Let_def rf_advance_def)
  show "rf_rest (rf_advance (pb_ByteSize t m) f) = X" using assms(2) by (simp add: pb_ByteSize_def)
qed

lemma rf_SkipSection_at:
  assumes "rf_pos f + n < 2 ^ 63"
  shows "rf_SkipSection (of_nat n) f = (True, rf_advance n f)"
proof -
  have s: "sint (of_nat n :: i64) = int n" using assms by (intro sint_of_nat_offset) simp
  have "nat (int (rf_pos f) + int n) = rf_pos f + n" by simp
  then show ?thesis using assms unfolding rf_SkipSection_def s by (simp add: rf_SetPosition_def rf_advance_def)
qed

text \<open>The position is at the first of the sections \<open>ss\<close>, behind which \<open>tail\<close> lies. Only an index may have
  something behind it.\<close>

definition rf_at :: "codec \<Rightarrow> u8 list \<Rightarrow> u8 list \<Rightarrow> u8 list \<Rightarrow> rec_section list \<Rightarrow> file_reader \<Rightarrow> bool" where
  "rf_at co pad bs tail ss f \<longleftrightarrow> rf_bytes f = bs \<and> rf_pos f \<le> length bs
     \<and> rf_rest f = concat (map (sec_bytes co pad) ss) @ tail \<and> (tail = [] \<or> (\<exists>ix. SecIndex ix \<in> set ss))"

lemma rf_at_Cons:
  assumes "rf_at co pad bs tail (s # ss) f" and "length pad = 4" and "length bs < 2 ^ 63"
  shows "rf_ReadStruct f = (Some (sec_type s, of_nat (co_size co s)), rf_advance SECTION_LENGTH f)"
    and "rf_rest (rf_advance SECTION_LENGTH f) = sec_payload co s @ concat (map (sec_bytes co pad) ss) @ tail"
    and "rf_SkipSection (of_nat (co_size co s)) (rf_advance SECTION_LENGTH f) = (True, rf_advance (sec_len (co_size co) s) f)"
    and "rf_pos f + sec_len (co_size co) s \<le> length bs"
    and "(\<forall>ix. s \<noteq> SecIndex ix) \<Longrightarrow> rf_at co pad bs tail ss (rf_advance (sec_len (co_size co) s) f)"
proof -
  have rest: "rf_rest f = section_struct pad (sec_type s) (co_size co s) @ sec_payload co s @ concat (map (sec_bytes co pad) ss) @ tail"
    using assms(1) by (simp add: rf_at_def sec_bytes_def)
  show "rf_ReadStruct f = (Some (sec_type s, of_nat (co_size co s)), rf_advance SECTION_LENGTH f)"
    and rest2: "rf_rest (rf_advance SECTION_LENGTH f) = sec_payload co s @ concat (map (sec_bytes co pad) ss) @ tail"
    using rf_ReadStruct_at [OF assms(2) rest] by auto
  have "length (rf_rest f) = length bs - rf_pos f" using assms(1) by (simp add: rf_at_def rf_rest_def)
  moreover have "length (rf_rest f) \<ge> sec_len (co_size co) s"
    unfolding rest by (simp add: section_struct_props [OF assms(2)] sec_len_def co_size_def)
  ultimately show fits: "rf_pos f + sec_len (co_size co) s \<le> length bs"
    using assms(1) by (auto simp: rf_at_def)
  then have "rf_pos (rf_advance SECTION_LENGTH f) + co_size co s < 2 ^ 63"
    using assms(3) by (simp add: sec_len_def)
  from rf_SkipSection_at [OF this]
  show "rf_SkipSection (of_nat (co_size co s)) (rf_advance SECTION_LENGTH f) = (True, rf_advance (sec_len (co_size co) s) f)"
    by (simp add: sec_len_def)
  assume "\<forall>ix. s \<noteq> SecIndex ix"
  moreover have "rf_rest (rf_advance (sec_len (co_size co) s) f) = drop (co_size co s) (rf_rest (rf_advance SECTION_LENGTH f))"
    by (simp add: sec_len_def add.commute)
  ultimately show "rf_at co pad bs tail ss (rf_advance (sec_len (co_size co) s) f)"
    using assms(1) fits unfolding rf_at_def rest2 by (auto simp: co_size_def)
qed

section \<open>The loops over the bytes are the loops over the sections\<close>

text \<open>What \<open>ReadNextChunk\<close> ends with, for the outcome of the loop over sections.\<close>

definition br_outcome :: "byte_reader \<Rightarrow> file_reader \<Rightarrow> single_message list option \<times> rec_section list \<times> bool \<Rightarrow> bool \<times> byte_reader" where
  "br_outcome r f out = (case out of
       (Some ms, _, _) \<Rightarrow> (True, r\<lparr>br_file := f, br_chunk := ms\<rparr>)
     | (None, _, at_end) \<Rightarrow> (False, r\<lparr>br_file := f, br_reach_end := at_end\<rparr>))"

definition rf_after :: "codec \<Rightarrow> u8 list \<Rightarrow> u8 list \<Rightarrow> u8 list \<Rightarrow> bool \<Rightarrow> rec_section list \<Rightarrow> file_reader \<Rightarrow> bool" where
  "rf_after co pad bs tail at_end ss f \<longleftrightarrow> (if at_end then rf_bytes f = bs else rf_at co pad bs tail ss f)"

lemma br_next_channel:
  assumes "rf_at co pad bs tail (SecChannel c # ss) f" and "length pad = 4" and "length bs < 2 ^ 63"
    and "pb_ok (co_channel co) c" and "\<not> br_reach_end r"
  shows "br_next co (Suc n) b e skip (r\<lparr>br_file := f\<rparr>)
    = br_next co n b e skip (r\<lparr>br_file := rf_advance (sec_len (co_size co) (SecChannel c)) f\<rparr>)"
proof -
  note at = rf_at_Cons [OF assms(1-3)]
  have "rf_rest (rf_advance SECTION_LENGTH f) = pb_bytes (co_channel co) c @ concat (map (sec_bytes co pad) ss) @ tail"
    using at(2) by simp
  from rf_ReadMessage_at(1) [OF assms(4) this]
  have m: "rf_ReadMessage (co_channel co) (of_nat (co_size co (SecChannel c))) m0 (rf_advance SECTION_LENGTH f)
      = (True, c, rf_advance (sec_len (co_size co) (SecChannel c)) f)" for m0
    by (simp add: co_size_def pb_ByteSize_def sec_len_def)
  show ?thesis using assms(5) by (simp add: at(1) m section_types)
qed

lemma br_next_chunk_header:
  assumes "rf_at co pad bs tail (SecChunkHeader h # ss) f" and "length pad = 4" and "length bs < 2 ^ 63"
    and "pb_ok (co_chunk_header co) h" and "\<not> br_reach_end r"
  shows "br_next co (Suc n) b e skip (r\<lparr>br_file := f\<rparr>)
    = (if e < ck_begin_time h then Some (False, r\<lparr>br_file := rf_advance (sec_len (co_size co) (SecChunkHeader h)) f\<rparr>)
       else br_next co n b e (skip \<or> ck_end_time h < b) (r\<lparr>br_file := rf_advance (sec_len (co_size co) (SecChunkHeader h)) f\<rparr>))"
proof -
  note at = rf_at_Cons [OF assms(1-3)]
  have "rf_rest (rf_advance SECTION_LENGTH f) = pb_bytes (co_chunk_header co) h @ concat (map (sec_bytes co pad) ss) @ tail"
    using at(2) by simp
  from rf_ReadMessage_at(1) [OF assms(4) this]
  have m: "rf_ReadMessage (co_chunk_header co) (of_nat (co_size co (SecChunkHeader h))) m0 (rf_advance SECTION_LENGTH f)
      = (True, h, rf_advance (sec_len (co_size co) (SecChunkHeader h)) f)" for m0
    by (simp add: co_size_def pb_ByteSize_def sec_len_def)
  show ?thesis using assms(5) by (simp add: at(1) m section_types Let_def)
qed

lemma br_next_chunk_body:
  assumes "rf_at co pad bs tail (SecChunkBody ms # ss) f" and "length pad = 4" and "length bs < 2 ^ 63"
    and "pb_ok (co_chunk_body co) ms" and "\<not> br_reach_end r"
  shows "br_next co (Suc n) b e skip (r\<lparr>br_file := f\<rparr>)
    = (let f' = rf_advance (sec_len (co_size co) (SecChunkBody ms)) f in
       if skip then br_next co n b e False (r\<lparr>br_file := f'\<rparr>) else Some (True, r\<lparr>br_file := f', br_chunk := ms\<rparr>))"
proof -
  note at = rf_at_Cons [OF assms(1-3)]
  have "rf_rest (rf_advance SECTION_LENGTH f) = pb_bytes (co_chunk_body co) ms @ concat (map (sec_bytes co pad) ss) @ tail"
    using at(2) by simp
  from rf_ReadMessage_at(1) [OF assms(4) this]
  have m: "rf_ReadMessage (co_chunk_body co) (of_nat (co_size co (SecChunkBody ms))) m0 (rf_advance SECTION_LENGTH f)
      = (True, ms, rf_advance (sec_len (co_size co) (SecChunkBody ms)) f)" for m0
    by (simp add: co_size_def pb_ByteSize_def sec_len_def)
  show ?thesis using assms(5) by (simp add: at(1,3) m section_types Let_def)
qed

lemma br_next_index:
  assumes "rf_at co pad bs tail (SecIndex ix # ss) f" and "length pad = 4" and "length bs < 2 ^ 63" and "\<not> br_reach_end r"
  shows "br_next co (Suc (Suc n)) b e skip (r\<lparr>br_file := f\<rparr>)
    = Some (False, r\<lparr>br_file := rf_advance (sec_len (co_size co) (SecIndex ix)) f, br_reach_end := True\<rparr>)"
  using assms(4) rf_at_Cons(1,3) [OF assms(1-3)] by (simp add: section_types)

lemma rf_at_Nil: "rf_at co pad bs tail [] f \<Longrightarrow> rf_ReadStruct f = (None, f\<lparr>rf_end_of_file := True\<rparr>) \<and> rf_at co pad bs tail [] (f\<lparr>rf_end_of_file := True\<rparr>)"
  by (auto simp: rf_at_def rf_ReadStruct_def rf_rest_def Let_def)

lemma br_next_refines:
  assumes "length pad = 4" and "length bs < 2 ^ 63"
  shows "rf_at co pad bs tail ss f \<Longrightarrow> list_all (sec_ok co) ss \<Longrightarrow> \<not> br_reach_end r \<Longrightarrow> length ss < n \<Longrightarrow>
    \<exists>f'. br_next co n b e skip (r\<lparr>br_file := f\<rparr>) = Some (br_outcome r f' (next_chunk b e skip ss))
      \<and> rf_after co pad bs tail (snd (snd (next_chunk b e skip ss))) (fst (snd (next_chunk b e skip ss))) f'"
proof (induction b e skip ss arbitrary: n f rule: next_chunk.induct)
  case (1 b e skip)
  then obtain m where "n = Suc m" by (cases n) auto
  with 1 show ?case using rf_at_Nil [OF 1(1)]
    by (intro exI [of _ "f\<lparr>rf_end_of_file := True\<rparr>"]) (simp add: br_outcome_def rf_after_def)
next
  case (2 b e skip ix ss)
  then obtain m where n: "n = Suc (Suc m)" by (cases n; cases "n - 1") auto
  show ?case unfolding n using br_next_index [OF 2(1) assms 2(3)] 2(1)
    by (intro exI [of _ "rf_advance (sec_len (co_size co) (SecIndex ix)) f"]) (simp add: br_outcome_def rf_after_def rf_at_def)
next
  case (3 b e skip c ss)
  then obtain m where n: "n = Suc m" "length ss < m" by (cases n) auto
  from 3 have at: "rf_at co pad bs tail ss (rf_advance (sec_len (co_size co) (SecChannel c)) f)"
    using rf_at_Cons(5) [OF 3(2) assms] by simp
  from 3 have ok: "pb_ok (co_channel co) c" by simp
  show ?case unfolding n br_next_channel [OF 3(2) assms ok 3(4)] using 3(1) [OF at] 3 n by simp
next
  case (4 b e skip h ss)
  then obtain m where n: "n = Suc m" "length ss < m" by (cases n) auto
  let ?f = "rf_advance (sec_len (co_size co) (SecChunkHeader h)) f"
  from 4 have at: "rf_at co pad bs tail ss ?f" using rf_at_Cons(5) [OF 4(2) assms] by simp
  from 4 have ok: "pb_ok (co_chunk_header co) h" by simp
  show ?case
  proof (cases "e < ck_begin_time h")
    case True
    then show ?thesis unfolding n br_next_chunk_header [OF 4(2) assms ok 4(4)] using at 4(4)
      by (intro exI [of _ ?f]) (simp add: br_outcome_def rf_after_def)
  next
    case False
    then show ?thesis unfolding n br_next_chunk_header [OF 4(2) assms ok 4(4)] using 4(1) [OF refl False at] 4 n by simp
  qed
next
  case (5 b e skip ms ss)
  then obtain m where n: "n = Suc m" "length ss < m" by (cases n) auto
  let ?f = "rf_advance (sec_len (co_size co) (SecChunkBody ms)) f"
  from 5 have at: "rf_at co pad bs tail ss ?f" using rf_at_Cons(5) [OF 5(2) assms] by simp
  from 5 have ok: "pb_ok (co_chunk_body co) ms" by simp
  show ?case
  proof (cases skip)
    case True
    then show ?thesis unfolding n br_next_chunk_body [OF 5(2) assms ok 5(4)] using 5(1) [OF True at] 5 n by (simp add: Let_def)
  next
    case False
    then show ?thesis unfolding n br_next_chunk_body [OF 5(2) assms ok 5(4)] using at
      by (intro exI [of _ ?f]) (simp add: br_outcome_def rf_after_def Let_def)
  qed
qed

lemma next_chunk_suffix: "list_all P ss \<Longrightarrow> list_all P (fst (snd (next_chunk b e skip ss)))"
  by (induction b e skip ss rule: next_chunk.induct) (auto simp: Let_def)

lemma next_chunk_some: "fst (next_chunk b e skip ss) = Some ms \<Longrightarrow> \<not> snd (snd (next_chunk b e skip ss))"
  by (induction b e skip ss rule: next_chunk.induct) (auto simp: Let_def split: if_splits)

text \<open>A reader of the bytes \<open>bs\<close> and a reader of sections in the same state.\<close>

definition br_rel :: "codec \<Rightarrow> u8 list \<Rightarrow> u8 list \<Rightarrow> u8 list \<Rightarrow> byte_reader \<Rightarrow> record_reader \<Rightarrow> bool" where
  "br_rel co pad bs tail br rr \<longleftrightarrow> br_is_valid br = rr_is_valid rr \<and> br_header br = rr_header rr
     \<and> br_reach_end br = rr_reach_end rr \<and> br_chunk br = rr_chunk rr \<and> br_message_index br = rr_message_index rr
     \<and> br_channel_info br = rr_channel_info rr \<and> list_all (sec_ok co) (rr_rest rr)
     \<and> rf_after co pad bs tail (rr_reach_end rr) (rr_rest rr) (br_file br)"

lemma br_next_rel:
  assumes "length pad = 4" and "length bs < 2 ^ 63" and rel: "br_rel co pad bs tail br rr" and "length (rr_rest rr) < n"
  shows "\<exists>br'. br_next co n b e False br = Some (fst (rr_ReadNextChunk b e rr), br')
    \<and> br_rel co pad bs tail br' (snd (rr_ReadNextChunk b e rr))"
proof (cases "rr_reach_end rr")
  case True
  moreover from assms(4) obtain m where "n = Suc m" by (cases n) auto
  ultimately show ?thesis using rel by (simp add: rr_ReadNextChunk_def br_rel_def)
next
  case False
  let ?out = "next_chunk b e False (rr_rest rr)"
  have at: "rf_at co pad bs tail (rr_rest rr) (br_file br)" and ok: "list_all (sec_ok co) (rr_rest rr)" and "\<not> br_reach_end br"
    using rel False by (simp_all add: br_rel_def rf_after_def)
  from br_next_refines [OF assms(1,2) this assms(4), of b e False] obtain f'
    where f': "br_next co n b e False br = Some (br_outcome br f' ?out)"
      "rf_after co pad bs tail (snd (snd ?out)) (fst (snd ?out)) f'" by auto
  show ?thesis
  proof (intro exI conjI)
    show "br_next co n b e False br = Some (fst (rr_ReadNextChunk b e rr), snd (br_outcome br f' ?out))"
      using f'(1) False by (auto simp: br_outcome_def rr_ReadNextChunk_def split: prod.splits option.splits)
    show "br_rel co pad bs tail (snd (br_outcome br f' ?out)) (snd (rr_ReadNextChunk b e rr))"
      using f'(2) False rel next_chunk_suffix [OF ok, of b e False] next_chunk_some [of b e False "rr_rest rr"]
      by (auto simp: br_outcome_def rr_ReadNextChunk_def br_rel_def split: prod.splits option.splits)
  qed
qed

lemma br_rel_index: "br_rel co pad bs tail br rr \<Longrightarrow> br_rel co pad bs tail (br\<lparr>br_message_index := i\<rparr>) (rr\<lparr>rr_message_index := i\<rparr>)"
  by (simp add: br_rel_def)

lemma br_ReadMessage_refines:
  assumes "length pad = 4" and "length bs < 2 ^ 63"
  shows "br_rel co pad bs tail br rr \<Longrightarrow> length (rr_rest rr) < n \<Longrightarrow>
    \<exists>br'. br_ReadMessage co n b e br = Some (fst (rr_ReadMessage b e rr), br') \<and> br_rel co pad bs tail br' (snd (rr_ReadMessage b e rr))"
proof (induction n arbitrary: br rr)
  case (Suc n)
  have eq: "br_is_valid br = rr_is_valid rr" "br_header br = rr_header rr" "br_chunk br = rr_chunk rr" "br_message_index br = rr_message_index rr"
    using Suc.prems(1) by (simp_all add: br_rel_def)
  obtain res i where scan: "chunk_scan b e (rr_chunk rr) (rr_message_index rr) = (res, i)" by fastforce
  show ?case
  proof (cases "rr_is_valid rr \<and> \<not> (hd_end_time (rr_header rr) < b \<or> e < hd_begin_time (rr_header rr)) \<and> res = ChunkEnd")
    case False
    then show ?thesis using Suc.prems(1) br_rel_index [OF Suc.prems(1)]
      by (auto simp: rr_ReadMessage.simps [of b e rr] eq scan split: scan_result.splits)
  next
    case True
    obtain ok rr' where nxt: "rr_ReadNextChunk b e (rr\<lparr>rr_message_index := i\<rparr>) = (ok, rr')" by fastforce
    from br_next_rel [OF assms br_rel_index [OF Suc.prems(1)], of i "Suc n" b e] Suc.prems(2) nxt obtain br'
      where br': "br_next co (Suc n) b e False (br\<lparr>br_message_index := i\<rparr>) = Some (ok, br')" "br_rel co pad bs tail br' rr'" by auto
    show ?thesis
    proof (cases ok)
      case True
      then have "length (rr_rest (rr'\<lparr>rr_message_index := 0\<rparr>)) < n"
        using ReadNextChunk_shorter [of b e "rr\<lparr>rr_message_index := i\<rparr>" rr'] nxt Suc.prems(2) by simp
      from Suc.IH [OF br_rel_index [OF br'(2)] this] show ?thesis
        using True \<open>_ \<and> _ \<and> res = ChunkEnd\<close> by (simp add: rr_ReadMessage.simps [of b e rr] eq scan nxt br'(1) del: br_next.simps)
    next
      case False
      then show ?thesis using br'(2) \<open>_ \<and> _ \<and> res = ChunkEnd\<close>
        by (simp add: rr_ReadMessage.simps [of b e rr] eq scan nxt br'(1) del: br_next.simps)
    qed
  qed
qed simp

section \<open>Opening\<close>

definition index_ok :: "codec \<Rightarrow> rec_section \<Rightarrow> bool" where
  "index_ok co s \<longleftrightarrow> (\<forall>ix. s = SecIndex ix \<longrightarrow> pb_ok (co_index co) ix)"

definition header_ok :: "codec \<Rightarrow> rec_header \<Rightarrow> bool" where
  "header_ok co h \<longleftrightarrow> pb_ok (co_header co) h \<and> pb_ByteSize (co_header co) h \<le> HEADER_LENGTH"

lemma rf_SetPosition_nat [simp]: "rf_SetPosition (int n) f = (True, f\<lparr>rf_pos := n\<rparr>)"
  by (simp add: rf_SetPosition_def)

lemma rf_Reset_eq: "rf_Reset f = (True, f\<lparr>rf_pos := SECTION_LENGTH + HEADER_LENGTH, rf_end_of_file := False\<rparr>)"
  by (simp add: rf_Reset_def rf_SetPosition_def del: rf_SetPosition_nat)

lemma rf_Open_header:
  assumes "length pad = 4" and "header_ok co h"
  shows "rf_Open co (Some (header_area co pad h @ X)) f =
    (True, f\<lparr>rf_bytes := header_area co pad h @ X, rf_pos := SECTION_LENGTH + HEADER_LENGTH, rf_end_of_file := False, rf_header := h\<rparr>)"
proof -
  let ?n = "pb_ByteSize (co_header co) h"
  let ?f = "f\<lparr>rf_bytes := header_area co pad h @ X, rf_pos := 0, rf_end_of_file := False\<rparr>"
  let ?blank = "take (HEADER_LENGTH - ?n) (48 # replicate (HEADER_LENGTH - 1) 0)"
  have "rf_rest ?f = section_struct pad SECTION_HEADER ?n @ pb_bytes (co_header co) h @ ?blank @ X"
    by (simp add: rf_rest_def header_area_def)
  note st = rf_ReadStruct_at [OF assms(1) this]
  have "pb_ok (co_header co) h" using assms(2) by (simp add: header_ok_def)
  note m = rf_ReadMessage_at(1) [OF this st(2)]
  show ?thesis
    unfolding rf_Open_def rf_ReadHeader_def
    by (simp add: st(1) m Let_def del: rf_SetPosition_nat) (simp add: rf_SetPosition_def rf_advance_def)
qed

lemma sections_at_bytes:
  assumes "length pad = 4"
  shows "sections_at (co_size co) p q ss = Some ts \<Longrightarrow> q \<le> p \<Longrightarrow>
    drop (p - q) (concat (map (sec_bytes co pad) ss)) = concat (map (sec_bytes co pad) ts)
    \<and> p - q \<le> length (concat (map (sec_bytes co pad) ss)) \<and> set ts \<subseteq> set ss"
proof (induction ss arbitrary: q)
  case (Cons s ss)
  note len = sec_bytes_length [OF assms, of co s]
  show ?case
  proof (cases "p = q")
    case False
    then have rec: "sections_at (co_size co) p (q + sec_len (co_size co) s) ss = Some ts" using Cons.prems by simp
    have "q + sec_len (co_size co) s \<le> p"
    proof (rule ccontr)
      assume "\<not> ?thesis"
      moreover have "sections_at bsz p' q' us = None" if "p' < q'" for bsz p' q' us
        using that by (induction us arbitrary: q') auto
      ultimately show False using rec by simp
    qed
    from Cons.IH [OF rec this] this show ?thesis by (auto simp: len)
  qed (use Cons.prems in simp)
qed (simp split: if_splits)

lemma rf_ReadIndex_at:
  assumes "length pad = 4" and "length bs < 2 ^ 63" and "bs = file_bytes co pad (h, ss) @ tail" and "header_ok co h"
    and "list_all (index_ok co) ss" and "fr_ReadIndex (co_size co) (h, ss) = Some ix"
    and f: "rf_bytes f = bs" "rf_header f = h"
  shows "\<exists>f'. rf_ReadIndex co f = (True, f') \<and> rf_bytes f' = bs \<and> rf_index f' = ix"
proof -
  let ?p = "unat (hd_index_position h)"
  have complete: "hd_is_complete h" and "\<exists>ts. sections_at (co_size co) ?p (SECTION_LENGTH + HEADER_LENGTH) ss = Some (SecIndex ix # ts)"
    using assms(6) by (auto simp: fr_ReadIndex_def split: if_splits option.splits list.splits rec_section.splits)
  then obtain ts where ts: "sections_at (co_size co) ?p (SECTION_LENGTH + HEADER_LENGTH) ss = Some (SecIndex ix # ts)" by blast
  have ge: "SECTION_LENGTH + HEADER_LENGTH \<le> ?p"
  proof (rule ccontr)
    assume "\<not> ?thesis"
    moreover have "sections_at bsz p' q' us = None" if "p' < q'" for bsz p' q' us
      using that by (induction us arbitrary: q') auto
    ultimately show False using ts by simp
  qed
  have len: "length (header_area co pad h) = SECTION_LENGTH + HEADER_LENGTH"
    using assms(4) by (intro header_area_length [OF assms(1)]) (simp add: header_ok_def)
  note sb = sections_at_bytes [OF assms(1) ts ge]
  have "?p \<le> length bs" using sb [THEN conjunct2, THEN conjunct1] ge unfolding assms(3) by (simp add: file_bytes_def len)
  then have pos: "sint (hd_index_position h) = int ?p"
    using sint_of_nat_offset [of ?p] assms(2) by simp
  let ?f = "f\<lparr>rf_pos := ?p\<rparr>"
  have "rf_rest ?f = drop (?p - (SECTION_LENGTH + HEADER_LENGTH)) (concat (map (sec_bytes co pad) ss) @ tail)"
    using ge by (simp add: rf_rest_def f assms(3) file_bytes_def len del: drop_append) (simp add: len drop_append)
  moreover have "?p - (SECTION_LENGTH + HEADER_LENGTH) \<le> length (concat (map (sec_bytes co pad) ss))" using sb by blast
  ultimately have "rf_rest ?f = section_struct pad SECTION_INDEX (co_size co (SecIndex ix)) @ pb_bytes (co_index co) ix
      @ concat (map (sec_bytes co pad) ts) @ tail"
    using sb by (simp add: sec_bytes_def)
  note st = rf_ReadStruct_at [OF assms(1) this]
  have "pb_ok (co_index co) ix"
    using sb assms(5) by (auto simp: list_all_iff index_ok_def)
  note m = rf_ReadMessage_at(1) [OF this st(2)]
  have "co_size co (SecIndex ix) = pb_ByteSize (co_index co) ix" by (simp add: co_size_def pb_ByteSize_def)
  then show ?thesis
    unfolding rf_ReadIndex_def f(2) pos rf_SetPosition_nat by (simp add: complete st(1) m Let_def rf_Reset_eq f(1))
qed

text \<open>The two readers agree on the file when they have opened it.\<close>

lemma br_new_rel:
  assumes "length pad = 4" and "length bs < 2 ^ 63" and bs: "bs = file_bytes co pad (h, ss) @ tail" and "header_ok co h"
    and "list_all (sec_ok co) ss" and "hd_is_complete h \<Longrightarrow> list_all (index_ok co) ss"
    and tail: "tail = [] \<or> (\<exists>ix. SecIndex ix \<in> set ss)"
    and complete: "hd_is_complete h \<Longrightarrow> fr_ReadIndex (co_size co) (h, ss) \<noteq> None"
  shows "br_rel co pad bs tail (br_new co h0 (Some bs)) (rr_open (co_size co) (h, ss))"
proof -
  let ?init = "\<lparr>rf_bytes = [], rf_pos = 0, rf_end_of_file = False, rf_header = h0, rf_index = []\<rparr>"
  let ?f = "?init\<lparr>rf_bytes := bs, rf_pos := SECTION_LENGTH + HEADER_LENGTH, rf_end_of_file := False, rf_header := h\<rparr>"
  have len: "length (header_area co pad h) = SECTION_LENGTH + HEADER_LENGTH"
    using assms(4) by (intro header_area_length [OF assms(1)]) (simp add: header_ok_def)
  have opened: "rf_Open co (Some bs) ?init = (True, ?f)"
    using rf_Open_header [OF assms(1,4)] by (simp add: bs file_bytes_def)
  have at: "rf_at co pad bs tail ss (snd (rf_Reset f))" if "rf_bytes f = bs" for f
    using tail that by (simp add: rf_at_def rf_Reset_eq rf_rest_def bs file_bytes_def len)
  show ?thesis
  proof (cases "fr_ReadIndex (co_size co) (h, ss)")
    case None
    then have "\<not> hd_is_complete h" using complete by blast
    then have "rf_ReadIndex co ?f = (False, ?f)" by (simp add: rf_ReadIndex_def)
    then show ?thesis using None assms(5) at [of ?f]
      unfolding br_rel_def br_new_def opened Let_def prod.case by (simp add: rr_open_def rf_after_def)
  next
    case (Some ix)
    then have "hd_is_complete h" by (simp add: fr_ReadIndex_def split: if_splits)
    from rf_ReadIndex_at [OF assms(1-4) assms(6) [OF this] Some, of ?f] obtain f'
      where "rf_ReadIndex co ?f = (True, f')" "rf_bytes f' = bs" "rf_index f' = ix" by auto
    then show ?thesis using Some assms(5) at [of f']
      unfolding br_rel_def br_new_def opened by (simp add: rr_open_def rf_after_def)
  qed
qed

section \<open>Reading until nothing is left\<close>

text \<open>The client's loop; \<open>k\<close> is the fuel of each \<open>ReadMessage\<close>, \<open>n\<close> that of the loop itself.\<close>

fun br_read_all :: "codec \<Rightarrow> nat \<Rightarrow> nat \<Rightarrow> u64 \<Rightarrow> u64 \<Rightarrow> byte_reader \<Rightarrow> single_message list option" where
  "br_read_all co k 0 b e r = None"
| "br_read_all co k (Suc n) b e r =
     (case br_ReadMessage co k b e r of
        None \<Rightarrow> None
      | Some (None, _) \<Rightarrow> Some []
      | Some (Some m, r) \<Rightarrow> map_option (Cons m) (br_read_all co k n b e r))"

lemma ReadMessage_rest: "length (rr_rest (snd (rr_ReadMessage b e r))) \<le> length (rr_rest r)"
proof (induction b e r rule: rr_ReadMessage.induct)
  case (1 b e r)
  have shorter: "length (rr_rest r') \<le> length (rr_rest r0)" if "rr_ReadNextChunk b e r0 = (ok, r')" for r0 ok r'
  proof -
    have "length (fst (snd (next_chunk b e skip ss))) \<le> length ss" for skip ss
      by (induction b e skip ss rule: next_chunk.induct) (auto simp: Let_def)
    from this [of False "rr_rest r0"] show ?thesis
      using that by (auto simp: rr_ReadNextChunk_def split: if_splits prod.splits option.splits)
  qed
  show ?case
  proof (cases "rr_is_valid r \<and> \<not> (hd_end_time (rr_header r) < b \<or> e < hd_begin_time (rr_header r))
      \<and> fst (chunk_scan b e (rr_chunk r) (rr_message_index r)) = ChunkEnd")
    case False
    then show ?thesis by (auto simp: rr_ReadMessage.simps [of b e r] split: scan_result.splits prod.splits)
  next
    case True
    then obtain i where scan: "chunk_scan b e (rr_chunk r) (rr_message_index r) = (ChunkEnd, i)"
      by (cases "chunk_scan b e (rr_chunk r) (rr_message_index r)") auto
    obtain ok r' where nxt: "rr_ReadNextChunk b e (r\<lparr>rr_message_index := i\<rparr>) = (ok, r')" by fastforce
    show ?thesis
    proof (cases ok)
      case ok: True
      have "length (rr_rest (snd (rr_ReadMessage b e (r'\<lparr>rr_message_index := 0\<rparr>)))) \<le> length (rr_rest r')"
        using "1" [OF _ _ scan [symmetric] refl refl nxt [symmetric] ok] True by simp
      then show ?thesis using shorter [OF nxt] True ok by (simp add: rr_ReadMessage.simps [of b e r] scan nxt)
    next
      case False
      then show ?thesis using shorter [OF nxt] True by (simp add: rr_ReadMessage.simps [of b e r] scan nxt)
    qed
  qed
qed

lemma br_read_all_refines:
  assumes "length pad = 4" and "length bs < 2 ^ 63"
  shows "br_rel co pad bs tail br rr \<Longrightarrow> length (rr_rest rr) < k \<Longrightarrow> rr_left rr < n \<Longrightarrow>
    br_read_all co k n b e br = Some (fst (rr_read_all b e rr))"
proof (induction n arbitrary: br rr)
  case (Suc n)
  obtain res rr' where rd: "rr_ReadMessage b e rr = (res, rr')" by fastforce
  from br_ReadMessage_refines [OF assms Suc.prems(1,2), of b e] rd obtain br'
    where br': "br_ReadMessage co k b e br = Some (res, br')" "br_rel co pad bs tail br' rr'" by auto
  show ?case
  proof (cases res)
    case None
    then show ?thesis by (simp add: br'(1) rr_read_all.simps [of b e rr] rd)
  next
    case (Some m)
    have "length (rr_rest rr') < k" using ReadMessage_rest [of b e rr] Suc.prems(2) by (simp add: rd)
    moreover have "rr_left rr' < n" using ReadMessage_left [of b e rr m rr'] Suc.prems(3) by (simp add: rd Some)
    ultimately have "br_read_all co k n b e br' = Some (fst (rr_read_all b e rr'))" by (rule Suc.IH [OF br'(2)])
    then show ?thesis by (cases "rr_read_all b e rr'") (simp add: br'(1) rr_read_all.simps [of b e rr] rd Some)
  qed
qed simp

section \<open>Writing the bytes\<close>

text \<open>The file behind the writer's descriptor: its bytes and the position. \<open>Open\<close> does not cut a file that
  exists.\<close>

record disk =
  dk_bytes :: "u8 list"
  dk_pos :: nat

definition dk_Open :: "u8 list option \<Rightarrow> disk" where
  "dk_Open old = \<lparr>dk_bytes = (case old of None \<Rightarrow> [] | Some bs \<Rightarrow> bs), dk_pos = 0\<rparr>"

definition dk_write :: "u8 list \<Rightarrow> disk \<Rightarrow> disk" where
  "dk_write bs d =
     (let old = dk_bytes d @ replicate (dk_pos d - length (dk_bytes d)) 0 in
      \<lparr>dk_bytes = take (dk_pos d) old @ bs @ drop (dk_pos d + length bs) old, dk_pos = dk_pos d + length bs\<rparr>)"

datatype disk_write = WHeader rec_header | WSection rec_section

text \<open>\<open>WriteSection<T>\<close>. A header longer than its area would make the length of \<open>blank\<close> negative.\<close>

fun dk_WriteSection :: "codec \<Rightarrow> u8 list \<Rightarrow> disk_write \<Rightarrow> disk \<Rightarrow> disk option" where
  "dk_WriteSection co pad (WHeader h) d =
     (let sz = pb_ByteSize (co_header co) h;
          d = dk_write (section_struct pad SECTION_HEADER sz) (d\<lparr>dk_pos := 0\<rparr>);
          d = dk_write (pb_bytes (co_header co) h) d in
      if HEADER_LENGTH < sz then None
      else Some (dk_write (take (HEADER_LENGTH - sz) (48 # replicate (HEADER_LENGTH - 1) 0)) d))"
| "dk_WriteSection co pad (WSection s) d =
     Some (dk_write (sec_payload co s) (dk_write (section_struct pad (sec_type s) (co_size co s)) d))"

fun dk_run :: "codec \<Rightarrow> u8 list \<Rightarrow> disk_write list \<Rightarrow> disk \<Rightarrow> disk option" where
  "dk_run co pad [] d = Some d"
| "dk_run co pad (w # ws) d = Option.bind (dk_WriteSection co pad w d) (dk_run co pad ws)"

definition dk_over :: "u8 list \<Rightarrow> nat \<Rightarrow> u8 list \<Rightarrow> disk" where
  "dk_over bs p old = \<lparr>dk_bytes = bs @ drop (length bs) old, dk_pos = p\<rparr>"

lemma dk_write_behind: "dk_write xs (dk_over bs (length bs) old) = dk_over (bs @ xs) (length (bs @ xs)) old"
  by (simp add: dk_write_def dk_over_def Let_def add.commute)

lemma dk_write_within:
  assumes "bs = as @ ys @ zs" and "length xs = length ys"
  shows "dk_write xs (dk_over bs (length as) old) = dk_over (as @ xs @ zs) (length (as @ xs)) old"
  using assms by (simp add: dk_write_def dk_over_def Let_def)

lemma dk_run_append: "dk_run co pad (ws @ vs) d = Option.bind (dk_run co pad ws d) (dk_run co pad vs)"
  by (induction ws arbitrary: d) (auto split: bind_splits)

lemma dk_sections:
  "dk_run co pad (map WSection ss) (dk_over bs (length bs) old)
    = Some (dk_over (bs @ concat (map (sec_bytes co pad) ss)) (length (bs @ concat (map (sec_bytes co pad) ss))) old)"
proof (induction ss arbitrary: bs)
  case (Cons s ss)
  have "dk_write (sec_payload co s) (dk_write (section_struct pad (sec_type s) (co_size co s)) (dk_over bs (length bs) old))
      = dk_over (bs @ sec_bytes co pad s) (length (bs @ sec_bytes co pad s)) old"
    by (simp only: dk_write_behind sec_bytes_def append_assoc)
  then show ?case using Cons [of "bs @ sec_bytes co pad s"] by simp
qed simp

lemma dk_header:
  assumes "length pad = 4" and "header_ok co h" and "bs = [] \<or> (\<exists>h0. header_ok co h0 \<and> bs = header_area co pad h0 @ ys)"
  shows "dk_WriteSection co pad (WHeader h) (dk_over bs p old)
    = Some (dk_over (header_area co pad h @ drop (SECTION_LENGTH + HEADER_LENGTH) bs) (SECTION_LENGTH + HEADER_LENGTH) old)"
proof -
  let ?n = "pb_ByteSize (co_header co) h"
  let ?A = "section_struct pad SECTION_HEADER ?n" and ?B = "pb_bytes (co_header co) h"
  let ?C = "take (HEADER_LENGTH - ?n) (48 # replicate (HEADER_LENGTH - 1) 0)"
  have n: "?n \<le> HEADER_LENGTH" using assms(2) by (simp add: header_ok_def)
  have len: "length ?A = SECTION_LENGTH" "length ?B = ?n" "length ?C = HEADER_LENGTH - ?n"
    "length (header_area co pad h) = SECTION_LENGTH + HEADER_LENGTH"
    using n header_area_length [OF assms(1) n] by (simp_all add: section_struct_props [OF assms(1)] pb_ByteSize_def HEADER_LENGTH_def)
  have hdr: "header_area co pad h = ?A @ ?B @ ?C" by (simp add: header_area_def)
  have start: "dk_over xs p old\<lparr>dk_pos := 0\<rparr> = dk_over xs 0 old" for xs by (simp add: dk_over_def)
  show ?thesis
  proof (cases "bs = []")
    case True
    have "dk_write ?C (dk_write ?B (dk_write ?A (dk_over [] 0 old))) = dk_over (?A @ ?B @ ?C) (length (?A @ ?B @ ?C)) old"
      using dk_write_behind [of ?A "[]" old] dk_write_behind [of ?B ?A old] dk_write_behind [of ?C "?A @ ?B" old] by simp
    then show ?thesis using n len hdr by (simp add: start True Let_def)
  next
    case False
    then obtain h0 where h0: "header_ok co h0" "bs = header_area co pad h0 @ ys" using assms(3) by blast
    have l0: "length (header_area co pad h0) = SECTION_LENGTH + HEADER_LENGTH"
      using h0(1) by (intro header_area_length [OF assms(1)]) (simp add: header_ok_def)
    obtain as cs ds where split: "bs = as @ cs @ ds @ ys" "length as = SECTION_LENGTH" "length cs = ?n" "length ds = HEADER_LENGTH - ?n"
    proof
      show "bs = take SECTION_LENGTH (header_area co pad h0) @ take ?n (drop SECTION_LENGTH (header_area co pad h0))
          @ drop ?n (drop SECTION_LENGTH (header_area co pad h0)) @ ys"
        using h0(2) by (metis append.assoc append_take_drop_id)
    qed (use l0 n in simp_all)
    have "dk_write ?A (dk_over bs 0 old) = dk_over (?A @ cs @ ds @ ys) (length ?A) old"
      using dk_write_within [of bs "[]" as "cs @ ds @ ys" ?A old] split len by simp
    moreover have "dk_write ?B (dk_over (?A @ cs @ ds @ ys) (length ?A) old) = dk_over (?A @ ?B @ ds @ ys) (length (?A @ ?B)) old"
      using dk_write_within [of _ ?A cs "ds @ ys" ?B old] split len by simp
    moreover have "dk_write ?C (dk_over (?A @ ?B @ ds @ ys) (length (?A @ ?B)) old) = dk_over (?A @ ?B @ ?C @ ys) (length (?A @ ?B @ ?C)) old"
      using dk_write_within [of _ "?A @ ?B" ds ys ?C old] split len by simp
    moreover have "drop (SECTION_LENGTH + HEADER_LENGTH) bs = ys" using l0 h0(2) by simp
    ultimately show ?thesis using n len hdr by (simp add: start Let_def)
  qed
qed

text \<open>What a session of writing leaves on the disk.\<close>

lemma dk_session:
  assumes "length pad = 4" and "header_ok co h" and "header_ok co h'"
  shows "dk_run co pad (WHeader h # map WSection ss @ [WHeader h']) (dk_Open old)
    = Some (dk_over (file_bytes co pad (h', ss)) (SECTION_LENGTH + HEADER_LENGTH) (case old of None \<Rightarrow> [] | Some bs \<Rightarrow> bs))"
proof -
  let ?old = "case old of None \<Rightarrow> [] | Some bs \<Rightarrow> bs"
  have l: "length (header_area co pad h) = SECTION_LENGTH + HEADER_LENGTH"
    using assms(2) by (intro header_area_length [OF assms(1)]) (simp add: header_ok_def)
  have "dk_Open old = dk_over [] 0 ?old" by (simp add: dk_Open_def dk_over_def)
  then have 1: "dk_WriteSection co pad (WHeader h) (dk_Open old) = Some (dk_over (header_area co pad h) (length (header_area co pad h)) ?old)"
    using dk_header [OF assms(1,2), of "[]" "[]" 0 ?old] by (simp add: l)
  have 2: "dk_WriteSection co pad (WHeader h') (dk_over (header_area co pad h @ concat (map (sec_bytes co pad) ss)) p ?old)
      = Some (dk_over (file_bytes co pad (h', ss)) (SECTION_LENGTH + HEADER_LENGTH) ?old)" for p
    using dk_header [OF assms(1,3), of "header_area co pad h @ concat (map (sec_bytes co pad) ss)" _ p ?old] assms(2)
    by (auto simp: l file_bytes_def)
  show ?thesis using 2 by (simp add: 1 dk_run_append dk_sections del: dk_WriteSection.simps)
qed

section \<open>From the writer to the reader through the bytes\<close>

lemma file_bytes_length:
  assumes "length pad = 4" and "header_ok co h"
  shows "length (file_bytes co pad (h, ss)) = file_end (co_size co) ss"
proof -
  have "length (header_area co pad h) = SECTION_LENGTH + HEADER_LENGTH"
    using assms by (intro header_area_length) (simp_all add: header_ok_def)
  moreover have "length (concat (map (sec_bytes co pad) ss)) = sum_list (map (sec_len (co_size co)) ss)"
    by (induction ss) (simp_all add: sec_bytes_length [OF assms(1)])
  ultimately show ?thesis by (simp add: file_bytes_def file_end_def)
qed

lemma bodies_messages: "secs_ok ss \<Longrightarrow> bodies (ss @ [SecIndex ix]) = length (sec_messages ss)"
  by (induction ss rule: secs_ok.induct) simp_all

definition co_ok :: "codec \<Rightarrow> rec_section list \<Rightarrow> bool" where
  "co_ok co ss \<longleftrightarrow> list_all (sec_ok co) ss \<and> list_all (index_ok co) ss"

text \<open>The bytes of a session: \<open>Open\<close>, the header, the sections in their order, and the header again.\<close>

definition session_bytes :: "codec \<Rightarrow> u8 list \<Rightarrow> rec_header \<Rightarrow> file_writer \<Rightarrow> u8 list option \<Rightarrow> u8 list option" where
  "session_bytes co pad h w old =
     map_option dk_bytes (dk_run co pad (WHeader h # map WSection (fw_sections w) @ [WHeader (the (fw_stored w))]) (dk_Open old))"

lemma session_bytes_eq:
  assumes "length pad = 4" and "header_ok co h" and "header_ok co (the (fw_stored w))"
  shows "session_bytes co pad h w old =
    Some (file_bytes co pad (fw_file w) @ drop (file_end (co_size co) (fw_sections w)) (case old of None \<Rightarrow> [] | Some bs \<Rightarrow> bs))"
  unfolding session_bytes_def dk_session [OF assms]
  by (simp add: dk_over_def fw_file_def file_bytes_length [OF assms(1,3)])

text \<open>C9: What is recorded survives the disk. The bytes that a session of the writer leaves, whatever file lay
  there before, make a reader that opens them and reads until there is no message give exactly the
  messages that were written, in the order of writing when the flush thread kept up, within as many turns
  of its loops as there are sections and messages.\<close>

theorem record_bytes_roundtrip:
  assumes "reach (fw_start h) (fw_step (co_size co) prompt) (w, l)" and "hd_message_number h = 0" and "length l < 2 ^ 64"
    and "fw_Close (co_size co) w = Some w'" and "length pad = 4" and "header_ok co h" and "header_ok co (the (fw_stored w'))"
    and "co_ok co (fw_sections w')" and "session_bytes co pad h w' old = Some bs" and "length bs < 2 ^ 63"
    and "length (fw_sections w') < k" and "length l < n"
  shows "\<exists>ms. br_read_all co k n 0 (- 1) (br_new co h0 (Some bs)) = Some ms \<and> mset ms = mset l \<and> (prompt \<longrightarrow> ms = l)"
proof -
  have inv: "fw_inv (co_size co) prompt (w, l)" using fw_reach_inv [OF assms(1,2)] assms(3) by simp
  obtain ss ix h' where r: "fw_sections w' = ss @ [SecIndex ix]" "secs_ok ss" "fw_stored w' = Some h'"
    "hd_index_position h' = of_nat (file_end (co_size co) ss)" "mset (sec_messages ss) = mset l"
    using fw_Close_result [OF inv assms(3)] assms(4) by auto
  let ?tail = "drop (file_end (co_size co) (fw_sections w')) (case old of None \<Rightarrow> [] | Some bs \<Rightarrow> bs)"
  have bs: "bs = file_bytes co pad (h', fw_sections w') @ ?tail"
    using assms(9) session_bytes_eq [OF assms(5-7)] by (simp add: fw_file_def r(3))
  then have "file_end (co_size co) (fw_sections w') < 2 ^ 63"
    using assms(5,7,10) by (simp add: file_bytes_length r(3))
  then have size: "file_end (co_size co) (fw_sections w') < 2 ^ 64" and "file_end (co_size co) ss < 2 ^ 64" by (simp_all add: r(1) file_end_snoc)
  then have pos: "unat (hd_index_position h') = file_end (co_size co) ss" unfolding r(4) by (simp add: unat_of_nat)
  note o = record_opened [OF inv assms(3,4) size]
  have "fr_ReadIndex (co_size co) (h', fw_sections w') \<noteq> None" if "hd_is_complete h'"
    using sections_at_end [of "co_size co" "SECTION_LENGTH + HEADER_LENGTH" ss "[SecIndex ix]"] that
    by (simp add: fr_ReadIndex_def r(1) pos) (simp add: file_end_def sections_at_here)
  then have "br_rel co pad bs ?tail (br_new co h0 (Some bs)) (rr_open (co_size co) (fw_file w'))"
    unfolding fw_file_def r(3) option.sel using assms(5,7,8,10) bs r(1,3) by (intro br_new_rel) (auto simp: co_ok_def)
  from br_read_all_refines [OF assms(5,10) this, of k n 0 "- 1"]
  have "br_read_all co k n 0 (- 1) (br_new co h0 (Some bs)) = Some (fst (rr_read_all 0 (- 1) (rr_open (co_size co) (fw_file w'))))"
    using assms(11,12) mset_eq_length [OF r(5)] bodies_messages [OF r(2), of ix]
    by (simp add: rr_open_def fw_file_def rr_left_def r(1))
  then show ?thesis using o(3,4) rr_stream_all [OF o(1) o(5)] unfolding o(2) by simp
qed

section \<open>A recording begun over another\<close>

text \<open>Overwriting a recording shows the old one until the new one is closed. After \<open>Open\<close> on the file of
  another recording and \<open>WriteHeader\<close>, as when the process ends then, the sections of the old recording
  follow the new header, and a reader gives all its messages as those of the new.\<close>

theorem begun_recording_shows_old:
  assumes "length pad = 4" and "header_ok co h1" and "header_ok co h" and "\<not> hd_is_complete h"
    and "list_all (sec_ok co) ss" and "wf_secs (- 1) ss" and "length bs < 2 ^ 63"
    and "map_option dk_bytes (dk_run co pad [WHeader h] (dk_Open (Some (file_bytes co pad (h1, ss))))) = Some bs"
    and "length ss < k" and "bodies ss < n"
  shows "br_read_all co k n 0 (- 1) (br_new co h0 (Some bs)) = Some (sec_messages ss)"
proof -
  let ?X = "concat (map (sec_bytes co pad) ss)"
  have "length (header_area co pad h1) = SECTION_LENGTH + HEADER_LENGTH"
    using assms(2) by (intro header_area_length [OF assms(1)]) (simp add: header_ok_def)
  then have "drop (SECTION_LENGTH + HEADER_LENGTH) (header_area co pad h1 @ ?X) = ?X" by simp
  moreover have "dk_WriteSection co pad (WHeader h) (dk_over (header_area co pad h1 @ ?X) 0 [])
      = Some (dk_over (header_area co pad h @ drop (SECTION_LENGTH + HEADER_LENGTH) (header_area co pad h1 @ ?X)) (SECTION_LENGTH + HEADER_LENGTH) [])"
    using assms(2) by (intro dk_header [OF assms(1,3)]) blast
  moreover have "dk_Open (Some (file_bytes co pad (h1, ss))) = dk_over (header_area co pad h1 @ ?X) 0 []"
    by (simp add: dk_Open_def dk_over_def file_bytes_def)
  ultimately have run: "map_option dk_bytes (dk_run co pad [WHeader h] (dk_Open (Some (file_bytes co pad (h1, ss)))))
      = Some (dk_bytes (dk_over (header_area co pad h @ ?X) (SECTION_LENGTH + HEADER_LENGTH) []))"
    by (simp del: dk_WriteSection.simps)
  have bs: "bs = file_bytes co pad (h, ss) @ []"
    using assms(8) unfolding run by (simp add: dk_over_def file_bytes_def)
  have "br_rel co pad bs [] (br_new co h0 (Some bs)) (rr_open (co_size co) (h, ss))"
    using assms(4) by (intro br_new_rel [OF assms(1,7) bs assms(3,5)]) auto
  from br_read_all_refines [OF assms(1,7) this, of k n 0 "- 1"]
  have "br_read_all co k n 0 (- 1) (br_new co h0 (Some bs)) = Some (fst (rr_read_all 0 (- 1) (rr_open (co_size co) (h, ss))))"
    using assms(9,10) by (simp add: rr_open_def rr_left_def)
  then show ?thesis using rr_stream_all [of "rr_open (co_size co) (h, ss)"] assms(6) by (simp add: rr_open_def rr_stream_def)
qed

section \<open>A section of negative size\<close>

text \<open>A chunk header, then a chunk body whose size leads back to the header.\<close>

definition back_size :: "codec \<Rightarrow> chunk_header \<Rightarrow> i64" where
  "back_size co h = - of_nat (sec_len (co_size co) (SecChunkHeader h) + SECTION_LENGTH)"

definition looping_file :: "codec \<Rightarrow> u8 list \<Rightarrow> rec_header \<Rightarrow> chunk_header \<Rightarrow> u8 list" where
  "looping_file co pad hr h =
     header_area co pad hr @ sec_bytes co pad (SecChunkHeader h) @ section_struct pad SECTION_CHUNK_BODY (unat (back_size co h))"

lemma sint_back_size:
  assumes "pb_ok (co_chunk_header co) h"
  shows "sint (back_size co h) = - int (sec_len (co_size co) (SecChunkHeader h) + SECTION_LENGTH)"
proof -
  let ?k = "sec_len (co_size co) (SecChunkHeader h) + SECTION_LENGTH"
  have "sint (- of_nat k :: i64) = - int k" if "k < 2 ^ 32" for k
  proof -
    have "sint (- of_nat k :: i64) = sint (word_of_int (- int k) :: i64)" by simp
    also have "\<dots> = signed_take_bit 63 (- int k)" by (subst signed_of_int) simp
    also have "\<dots> = - int k" using that by (intro signed_take_bit_int_eq_self) simp_all
    finally show ?thesis .
  qed
  moreover have "?k < 2 ^ 32" using assms by (simp add: pb_ok_def pb_ByteSize_def sec_len_def co_size_def SECTION_LENGTH_def)
  ultimately show ?thesis unfolding back_size_def by blast
qed

lemma br_next_loops:
  assumes "length pad = 4" and "pb_ok (co_chunk_header co) h" and "ck_end_time h < b" and "ck_begin_time h \<le> e"
    and "length bs < 2 ^ 63" and "rf_bytes f = bs" and "rf_pos f \<le> length bs" and "\<not> br_reach_end r"
    and rest: "rf_rest f = sec_bytes co pad (SecChunkHeader h) @ section_struct pad SECTION_CHUNK_BODY (unat (back_size co h))"
  shows "br_next co n b e False (r\<lparr>br_file := f\<rparr>) = None"
proof (induction n rule: less_induct)
  case (less n)
  let ?f = "rf_advance (sec_len (co_size co) (SecChunkHeader h)) f"
  have at: "\<exists>tail. rf_rest f = concat (map (sec_bytes co pad) [SecChunkHeader h]) @ tail" using rest by simp
  have struct: "rf_rest f = section_struct pad SECTION_CHUNK_HEADER (co_size co (SecChunkHeader h)) @ pb_bytes (co_chunk_header co) h
      @ section_struct pad SECTION_CHUNK_BODY (unat (back_size co h))"
    using rest by (simp add: sec_bytes_def)
  note st = rf_ReadStruct_at [OF assms(1) struct]
  note m = rf_ReadMessage_at [OF assms(2) st(2)]
  have size: "co_size co (SecChunkHeader h) = pb_ByteSize (co_chunk_header co) h" by (simp add: co_size_def pb_ByteSize_def)
  have f: "rf_advance (pb_ByteSize (co_chunk_header co) h) (rf_advance SECTION_LENGTH f) = ?f" by (simp add: sec_len_def size)
  have one: "br_next co (Suc k) b e False (r\<lparr>br_file := f\<rparr>) = br_next co k b e True (r\<lparr>br_file := ?f\<rparr>)" for k
    using assms(3,8) leD [OF assms(4)] by (simp add: st(1) size m(1) section_types Let_def) (simp add: sec_len_def size)
  have "rf_rest ?f = section_struct pad SECTION_CHUNK_BODY (unat (back_size co h)) @ []"
    using m(2) unfolding f by simp
  note st2 = rf_ReadStruct_at [OF assms(1) this]
  have "rf_SkipSection (back_size co h) (rf_advance SECTION_LENGTH ?f) = (True, f)"
    using assms(5-7) unfolding rf_SkipSection_def rf_SetPosition_def sint_back_size [OF assms(2)]
    by (simp add: rf_advance_def)
  then have two: "br_next co (Suc k) b e True (r\<lparr>br_file := ?f\<rparr>) = br_next co k b e False (r\<lparr>br_file := f\<rparr>)" for k
    using assms(8) st2(1) by (simp add: section_types Let_def)
  show ?case
  proof (cases n)
    case (Suc k)
    then show ?thesis using one [of k] two less by (cases k) auto
  qed simp
qed

text \<open>C39: A file can hang the reader. A section's size is taken as it comes: a chunk body the reader skips
  with a negative size moves the position back, to the chunk header that made it skip, and \<open>ReadMessage\<close>
  never returns, whatever fuel it is given.\<close>

theorem negative_size_hangs_reader:
  assumes "length pad = 4" and "header_ok co hr" and "pb_ok (co_chunk_header co) h" and "\<not> hd_is_complete hr"
    and "ck_end_time h < b" and "ck_begin_time h \<le> e" and "b \<le> hd_end_time hr" and "hd_begin_time hr \<le> e"
    and "length (looping_file co pad hr h) < 2 ^ 63"
  shows "br_ReadMessage co n b e (br_new co h0 (Some (looping_file co pad hr h))) = None"
proof -
  let ?bs = "looping_file co pad hr h"
  let ?f = "\<lparr>rf_bytes = ?bs, rf_pos = SECTION_LENGTH + HEADER_LENGTH, rf_end_of_file = False, rf_header = hr, rf_index = []\<rparr>"
  let ?r = "br_new co h0 (Some ?bs)"
  have len: "length (header_area co pad hr) = SECTION_LENGTH + HEADER_LENGTH"
    using assms(2) by (intro header_area_length [OF assms(1)]) (simp add: header_ok_def)
  have r: "?r = \<lparr>br_is_valid = True, br_header = hr, br_file = ?f, br_reach_end = False, br_chunk = [],
      br_message_index = 0, br_channel_info = (\<lambda>_. None)\<rparr>"
    using rf_Open_header [OF assms(1,2)] assms(4)
    by (simp add: br_new_def looping_file_def rf_ReadIndex_def rf_Reset_eq Let_def)
  have "br_next co (Suc k) b e False (?r\<lparr>br_message_index := 0, br_file := ?f\<rparr>) = None" for k
  proof (rule br_next_loops [OF assms(1,3,5,6,9)])
    show "rf_rest ?f = sec_bytes co pad (SecChunkHeader h) @ section_struct pad SECTION_CHUNK_BODY (unat (back_size co h))"
      using len by (simp add: rf_rest_def looping_file_def)
  qed (use len r in \<open>simp_all add: looping_file_def\<close>)
  moreover have "?r\<lparr>br_message_index := 0, br_file := ?f\<rparr> = ?r\<lparr>br_message_index := 0\<rparr>" using r by simp
  ultimately have "br_next co (Suc k) b e False (?r\<lparr>br_message_index := 0\<rparr>) = None" for k by simp
  moreover have "chunk_scan b e [] 0 = (ChunkEnd, 0)" by (simp add: chunk_scan.simps)
  moreover have "br_is_valid ?r" "br_header ?r = hr" "br_chunk ?r = []" "br_message_index ?r = 0" using r by simp_all
  ultimately show ?thesis using assms(7,8) by (cases n) (simp_all add: not_less del: br_next.simps)
qed

section \<open>Concrete files\<close>

text \<open>A library whose messages are the entries of a table, each ten bytes long.\<close>

definition ex_table :: "'m list \<Rightarrow> 'm pb_type" where
  "ex_table ms = \<lparr>pb_bytes = (\<lambda>m. of_nat (length (takeWhile (\<lambda>x. x \<noteq> m) ms)) # replicate 9 0),
     pb_Parse = (\<lambda>n bs. \<lparr>pr_ok = True, pr_message = ms ! unat (hd bs), pr_used = nat n, pr_whole = True, pr_end = False\<rparr>)\<rparr>"

lemma ex_table_ok: "m \<in> set ms \<Longrightarrow> length ms < 256 \<Longrightarrow> pb_ok (ex_table ms) m"
proof -
  assume m: "m \<in> set ms" and len: "length ms < 256"
  let ?k = "length (takeWhile (\<lambda>x. x \<noteq> m) ms)"
  have k: "?k < length ms"
    using m by (induction ms) auto
  then have "ms ! ?k = m" using nth_length_takeWhile [of "\<lambda>x. x \<noteq> m" ms] by simp
  moreover have "unat (of_nat ?k :: u8) = ?k" using k len by (simp add: unat_of_nat)
  ultimately show ?thesis by (simp add: pb_ok_def pb_ByteSize_def ex_table_def Let_def)
qed

definition ex_closed :: file_writer where "ex_closed = the (fw_Close rec_size rec_kept_up)"

definition ex_codec :: "rec_header list \<Rightarrow> rec_section list \<Rightarrow> codec" where
  "ex_codec hs ss = \<lparr>co_header = ex_table hs,
     co_channel = ex_table (concat (map (\<lambda>s. case s of SecChannel c \<Rightarrow> [c] | _ \<Rightarrow> []) ss)),
     co_chunk_header = ex_table (concat (map (\<lambda>s. case s of SecChunkHeader h \<Rightarrow> [h] | _ \<Rightarrow> []) ss)),
     co_chunk_body = ex_table (concat (map (\<lambda>s. case s of SecChunkBody b \<Rightarrow> [b] | _ \<Rightarrow> []) ss)),
     co_index = ex_table (concat (map (\<lambda>s. case s of SecIndex ix \<Rightarrow> [ix] | _ \<Rightarrow> []) ss))\<rparr>"

lemma ex_codec_size [simp]: "co_size (ex_codec hs ss) = rec_size"
proof
  fix s show "co_size (ex_codec hs ss) s = rec_size s"
    by (cases s) (simp_all add: co_size_def ex_codec_def ex_table_def rec_size_def)
qed

lemma ex_codec_ok:
  assumes "length ss < 256"
  shows "list_all (sec_ok (ex_codec hs ss)) ss" and "co_ok (ex_codec hs ss) ss"
proof -
  have pick: "pb_ok (ex_table (concat (map f ss))) x" if "s \<in> set ss" "f s = [x]" "\<And>y. length (f y) \<le> 1"
    for f :: "rec_section \<Rightarrow> 'a list" and s x
  proof (rule ex_table_ok)
    show "x \<in> set (concat (map f ss))" using that(1,2) by force
    have "length (concat (map f xs)) \<le> length xs" for xs
    proof (induction xs)
      case (Cons y ys)
      then show ?case using that(3) [of y] by simp
    qed simp
    then show "length (concat (map f ss)) < 256" using assms by (rule le_less_trans)
  qed
  have "sec_ok (ex_codec hs ss) s \<and> index_ok (ex_codec hs ss) s" if s: "s \<in> set ss" for s
    by (cases s; simp add: ex_codec_def index_ok_def; rule pick [OF s]) (simp_all split: rec_section.split)
  then show "list_all (sec_ok (ex_codec hs ss)) ss" "co_ok (ex_codec hs ss) ss" by (simp_all add: list_all_iff co_ok_def)
qed

lemma ex_header_ok: "h \<in> set hs \<Longrightarrow> length hs < 256 \<Longrightarrow> header_ok (ex_codec hs ss) h"
  using ex_table_ok [of h hs] by (simp add: header_ok_def ex_codec_def pb_ByteSize_def HEADER_LENGTH_def ex_table_def)

definition ex_co :: codec where
  "ex_co = ex_codec [rec_h, the (fw_stored ex_closed)] (fw_sections ex_closed)"

lemma ex_co_size [simp]: "co_size ex_co = rec_size" by (simp add: ex_co_def)

lemma ex_closed_sections: "length (fw_sections ex_closed) = 6" unfolding ex_closed_def by code_simp

lemma ex_session:
  "\<exists>bs. session_bytes ex_co [1, 2, 3, 4] rec_h ex_closed None = Some bs \<and> length bs < 2 ^ 63"
proof -
  have h: "header_ok ex_co rec_h" "header_ok ex_co (the (fw_stored ex_closed))" by (simp_all add: ex_co_def ex_header_ok)
  have "length (file_bytes ex_co [1, 2, 3, 4] (fw_file ex_closed)) = file_end rec_size (fw_sections ex_closed)"
    using file_bytes_length [of "[1, 2, 3, 4]" ex_co "the (fw_stored ex_closed)" "fw_sections ex_closed"] h by (simp add: fw_file_def)
  moreover have "file_end rec_size (fw_sections ex_closed) = 2220"
  proof -
    have "sum_list (map (sec_len rec_size) ss) = 26 * length ss" for ss
      by (induction ss) (simp_all add: sec_len_def rec_size_def SECTION_LENGTH_def)
    then show ?thesis by (simp add: file_end_def SECTION_LENGTH_def HEADER_LENGTH_def ex_closed_sections)
  qed
  ultimately show ?thesis
    using session_bytes_eq [of "[1, 2, 3, 4]" ex_co rec_h ex_closed None] h by simp
qed

lemma record_bytes_roundtrip_witness:
  "\<exists>bs. session_bytes ex_co [1, 2, 3, 4] rec_h ex_closed None = Some bs
    \<and> br_read_all ex_co 10 10 0 (- 1) (br_new ex_co GetHeader (Some bs)) = Some [rec_m1, rec_m2]"
proof -
  obtain bs where bs: "session_bytes ex_co [1, 2, 3, 4] rec_h ex_closed None = Some bs" "length bs < 2 ^ 63"
    using ex_session by blast
  have inv: "fw_inv rec_size True (rec_kept_up, [rec_m1, rec_m2])"
    using fw_reach_inv [OF rec_reach_kept_up] by (simp add: rec_h_def GetHeaderWithChunkParams_def)
  have close: "fw_Close (co_size ex_co) rec_kept_up = Some ex_closed"
    using fw_Close_result [OF inv] by (auto simp: ex_closed_def)
  have "reach (fw_start rec_h) (fw_step (co_size ex_co) True) (rec_kept_up, [rec_m1, rec_m2])"
    using rec_reach_kept_up by simp
  from record_bytes_roundtrip [OF this _ _ close, where old = None and pad = "[1, 2, 3, 4]" and bs = bs and k = 10 and n = 10 and ?h0.0 = GetHeader]
  have "\<exists>ms. br_read_all ex_co 10 10 0 (- 1) (br_new ex_co GetHeader (Some bs)) = Some ms \<and> ms = [rec_m1, rec_m2]"
    using bs ex_codec_ok(2) [of "fw_sections ex_closed" "[rec_h, the (fw_stored ex_closed)]"] ex_closed_sections
    by (simp add: rec_h_def [symmetric] ex_co_def ex_header_ok) (simp add: rec_h_def GetHeaderWithChunkParams_def)
  then show ?thesis using bs(1) by blast
qed

definition ex_hdr :: rec_header where "ex_hdr = GetHeader\<lparr>hd_end_time := 9\<rparr>"
definition ex_ckh :: chunk_header where
  "ex_ckh = \<lparr>ck_begin_time = 3, ck_end_time = 3, ck_message_number = 1, ck_raw_size = 2\<rparr>"
definition ex_secs :: "rec_section list" where "ex_secs = [SecChunkHeader ex_ckh, SecChunkBody [rec_m1]]"
definition ex_old_co :: codec where "ex_old_co = ex_codec [GetHeader, ex_hdr] ex_secs"

lemma ex_old_ok: "header_ok ex_old_co GetHeader" "header_ok ex_old_co ex_hdr" "list_all (sec_ok ex_old_co) ex_secs"
  "pb_ok (co_chunk_header ex_old_co) ex_ckh"
proof -
  show s: "list_all (sec_ok ex_old_co) ex_secs"
    unfolding ex_old_co_def by (rule ex_codec_ok) (simp add: ex_secs_def)
  show "header_ok ex_old_co GetHeader" "header_ok ex_old_co ex_hdr" by (simp_all add: ex_old_co_def ex_header_ok)
  show "pb_ok (co_chunk_header ex_old_co) ex_ckh" using s by (simp add: ex_secs_def)
qed

lemma begun_recording_shows_old_witness:
  "\<exists>bs. map_option dk_bytes (dk_run ex_old_co [1, 2, 3, 4] [WHeader GetHeader]
       (dk_Open (Some (file_bytes ex_old_co [1, 2, 3, 4] (ex_hdr, ex_secs))))) = Some bs
     \<and> br_read_all ex_old_co 5 5 0 (- 1) (br_new ex_old_co GetHeader (Some bs)) = Some [rec_m1]"
proof -
  let ?pad = "[1, 2, 3, 4] :: u8 list"
  have "length (header_area ex_old_co ?pad ex_hdr) = SECTION_LENGTH + HEADER_LENGTH"
    using ex_old_ok(2) by (intro header_area_length) (simp_all add: header_ok_def)
  note w = dk_header [of ?pad ex_old_co GetHeader "file_bytes ex_old_co ?pad (ex_hdr, ex_secs)" "concat (map (sec_bytes ex_old_co ?pad) ex_secs)" 0 "[]"]
  obtain bs where bs: "map_option dk_bytes (dk_run ex_old_co ?pad [WHeader GetHeader]
       (dk_Open (Some (file_bytes ex_old_co ?pad (ex_hdr, ex_secs))))) = Some bs" "length bs < 2 ^ 63"
  proof
    let ?d = "dk_over (header_area ex_old_co ?pad GetHeader @ drop (SECTION_LENGTH + HEADER_LENGTH) (file_bytes ex_old_co ?pad (ex_hdr, ex_secs)))
      (SECTION_LENGTH + HEADER_LENGTH) []"
    have "dk_Open (Some (file_bytes ex_old_co ?pad (ex_hdr, ex_secs))) = dk_over (file_bytes ex_old_co ?pad (ex_hdr, ex_secs)) 0 []"
      by (simp add: dk_Open_def dk_over_def)
    moreover have "dk_WriteSection ex_old_co ?pad (WHeader GetHeader) (dk_over (file_bytes ex_old_co ?pad (ex_hdr, ex_secs)) 0 []) = Some ?d"
      using ex_old_ok by (intro w) (auto simp: file_bytes_def)
    ultimately show "map_option dk_bytes (dk_run ex_old_co ?pad [WHeader GetHeader]
       (dk_Open (Some (file_bytes ex_old_co ?pad (ex_hdr, ex_secs))))) = Some (dk_bytes ?d)" by (simp del: dk_WriteSection.simps)
    have "length (file_bytes ex_old_co ?pad (ex_hdr, ex_secs)) = 2116" "length (header_area ex_old_co ?pad GetHeader) = 2064"
      using ex_old_ok header_area_length [of ?pad ex_old_co GetHeader]
      by (simp_all add: file_bytes_length file_end_def ex_secs_def sec_len_def header_ok_def ex_old_co_def rec_size_def SECTION_LENGTH_def HEADER_LENGTH_def)
    then show "length (dk_bytes ?d) < 2 ^ 63" by (simp add: dk_over_def SECTION_LENGTH_def HEADER_LENGTH_def)
  qed
  have "br_read_all ex_old_co 5 5 0 (- 1) (br_new ex_old_co GetHeader (Some bs)) = Some (sec_messages ex_secs)"
  proof (rule begun_recording_shows_old [OF _ ex_old_ok(2,1) _ ex_old_ok(3) _ bs(2,1)])
    show "wf_secs (- 1) ex_secs" by (simp add: ex_secs_def ex_ckh_def rec_m1_def)
  qed (simp_all add: GetHeader_def ex_secs_def)
  then show ?thesis using bs(1) by (intro exI [of _ bs]) (simp add: ex_secs_def)
qed

lemma negative_size_hangs_reader_witness:
  "\<forall>n. br_ReadMessage ex_old_co n 5 9 (br_new ex_old_co GetHeader (Some (looping_file ex_old_co [1, 2, 3, 4] ex_hdr ex_ckh))) = None"
proof
  fix n
  have "length (looping_file ex_old_co [1, 2, 3, 4] ex_hdr ex_ckh) < 2 ^ 63"
  proof -
    have "length (header_area ex_old_co [1, 2, 3, 4] ex_hdr) = 2064"
      using ex_old_ok(2) by (subst header_area_length) (simp_all add: header_ok_def SECTION_LENGTH_def HEADER_LENGTH_def)
    then show ?thesis
      by (simp add: looping_file_def sec_bytes_length section_struct_props sec_len_def ex_old_co_def rec_size_def SECTION_LENGTH_def)
  qed
  then show "br_ReadMessage ex_old_co n 5 9 (br_new ex_old_co GetHeader (Some (looping_file ex_old_co [1, 2, 3, 4] ex_hdr ex_ckh))) = None"
    by (intro negative_size_hangs_reader ex_old_ok) (simp_all add: ex_hdr_def GetHeader_def ex_ckh_def)
qed

end
