(* ===== verification/Transport_Endpoints.thy ===== *)
theory Transport_Endpoints
  imports Hybrid_Delivery Shm_Transport Rtps_Adapter
begin

text \<open>
  The ends of a transport and their lives: the RTPS dispatcher with its subscribers
  (transport/dispatcher/rtps_dispatcher.h, .cc), the receivers of shared memory and of RTPS
  (transport/receiver/shm_receiver.h, rtps_receiver.h), the destructors of the receivers, the tasks
  for the history that a hybrid receiver starts, beside which its destructor runs, the base of the
  transmitters with its sequence numbers (transport/transmitter/transmitter.h, intra_transmitter.h), and
  Transport itself (transport/transport.h, .cc), which makes them and shuts down.
\<close>

section \<open>The RTPS dispatcher\<close>

text \<open>\<open>rd_subs\<close>: for each channel whether its subscriber is not null.\<close>

record 'cb rtps_dispatcher =
  rd_base :: "'cb dispatcher"
  rd_participant :: bool
  rd_subs :: "u64 \<Rightarrow> bool option"

definition rd_new :: "'cb rtps_dispatcher" where
  "rd_new = \<lparr>rd_base = di_new, rd_participant = False, rd_subs = (\<lambda>_. None)\<rparr>"

definition rd_set_participant :: "bool \<Rightarrow> 'cb rtps_dispatcher \<Rightarrow> 'cb rtps_dispatcher" where
  "rd_set_participant p d = d\<lparr>rd_participant := p\<rparr>"

text \<open>\<open>fill\<close> is what \<open>FillInSubAttr\<close> answers, \<open>create\<close> whether the library makes the subscriber; the result
  tells whether it was asked to.\<close>

definition rd_AddSubscriber :: "bool \<Rightarrow> bool \<Rightarrow> u64 \<Rightarrow> 'cb rtps_dispatcher \<Rightarrow> bool \<times> 'cb rtps_dispatcher" where
  "rd_AddSubscriber fill create channel_id d =
     (if \<not> rd_participant d then (False, d)
      else if rd_subs d channel_id \<noteq> None then (False, d)
      else if \<not> fill then (False, d)
      else if \<not> create then (True, d)
      else (True, d\<lparr>rd_subs := (rd_subs d)(channel_id \<mapsto> True)\<rparr>))"

definition rd_AddListener :: "bool \<Rightarrow> bool \<Rightarrow> u64 \<Rightarrow> u64 \<Rightarrow> 'cb \<Rightarrow> 'cb rtps_dispatcher \<Rightarrow> bool \<times> 'cb rtps_dispatcher" where
  "rd_AddListener fill create channel_id self_id cb d =
     rd_AddSubscriber fill create channel_id (d\<lparr>rd_base := di_AddListener StdString channel_id self_id cb (rd_base d)\<rparr>)"

definition rd_AddListener_to :: "bool \<Rightarrow> bool \<Rightarrow> u64 \<Rightarrow> u64 \<Rightarrow> u64 \<Rightarrow> 'cb \<Rightarrow> 'cb rtps_dispatcher \<Rightarrow> bool \<times> 'cb rtps_dispatcher" where
  "rd_AddListener_to fill create channel_id self_id oppo_id cb d =
     rd_AddSubscriber fill create channel_id (d\<lparr>rd_base := di_AddListener_to StdString channel_id self_id oppo_id cb (rd_base d)\<rparr>)"

definition rd_Shutdown :: "'cb rtps_dispatcher \<Rightarrow> 'cb rtps_dispatcher" where
  "rd_Shutdown d =
     (if di_is_shutdown (rd_base d) then d
      else d\<lparr>rd_base := di_Shutdown (rd_base d), rd_subs := (\<lambda>c. map_option (\<lambda>_. False) (rd_subs d c)), rd_participant := False\<rparr>)"

text \<open>The calls of a process, with what the library did in each.\<close>

datatype 'cb rd_op = RdSetParticipant bool | RdListen bool bool u64 u64 'cb | RdListenTo bool bool u64 u64 u64 'cb
  | RdRemove u64 u64 | RdRemoveFrom u64 u64 u64 | RdShutdown

text \<open>A call, and the channel for which a subscriber was made.\<close>

fun rd_call :: "'cb rd_op \<Rightarrow> 'cb rtps_dispatcher \<Rightarrow> u64 option \<times> 'cb rtps_dispatcher" where
  "rd_call (RdSetParticipant p) d = (None, rd_set_participant p d)"
| "rd_call (RdListen f cr c s cb) d =
     (let (asked, d) = rd_AddListener f cr c s cb d in (if asked \<and> cr then Some c else None, d))"
| "rd_call (RdListenTo f cr c s p cb) d =
     (let (asked, d) = rd_AddListener_to f cr c s p cb d in (if asked \<and> cr then Some c else None, d))"
| "rd_call (RdRemove c s) d = (None, d\<lparr>rd_base := di_RemoveListener c s (rd_base d)\<rparr>)"
| "rd_call (RdRemoveFrom c s p) d = (None, d\<lparr>rd_base := di_RemoveListener_from c s p (rd_base d)\<rparr>)"
| "rd_call RdShutdown d = (None, rd_Shutdown d)"

fun rd_calls :: "'cb rd_op list \<Rightarrow> 'cb rtps_dispatcher \<Rightarrow> u64 list \<times> 'cb rtps_dispatcher" where
  "rd_calls [] d = ([], d)"
| "rd_calls (op # ops) d =
     (let (made, d) = rd_call op d; (cs, d) = rd_calls ops d in ((case made of None \<Rightarrow> [] | Some c \<Rightarrow> [c]) @ cs, d))"

lemma rd_AddSubscriber_subs:
  "rd_AddSubscriber f cr c d = (asked, d') \<Longrightarrow>
    rd_subs d' = (if asked \<and> cr then (rd_subs d)(c \<mapsto> True) else rd_subs d) \<and> (asked \<longrightarrow> rd_subs d c = None)"
  by (auto simp: rd_AddSubscriber_def split: if_splits)

lemma rd_call_subs:
  assumes "rd_call op d = (made, d')"
  shows "dom (rd_subs d') = dom (rd_subs d) \<union> set_option made \<and> set_option made \<inter> dom (rd_subs d) = {}"
  using assms
proof -
  have "dom (\<lambda>c. map_option (\<lambda>_. False) (rd_subs d c)) = dom (rd_subs d)" by (auto simp: dom_def)
  then show ?thesis
    using assms by (cases op)
      (auto simp: rd_set_participant_def rd_Shutdown_def rd_AddListener_def rd_AddListener_to_def
        dest!: rd_AddSubscriber_subs split: prod.splits if_splits)
qed

text \<open>A channel has one subscriber of RTPS, however many readers it gets. In any sequence of calls a
  subscriber is made at most once for a channel, and the channels the dispatcher keeps one for are those it
  was made for.\<close>

theorem one_subscriber_per_channel:
  "case rd_calls ops rd_new of (cs, d) \<Rightarrow> distinct cs \<and> dom (rd_subs d) = set cs"
proof -
  have "distinct cs \<and> dom (rd_subs d') = dom (rd_subs d) \<union> set cs \<and> set cs \<inter> dom (rd_subs d) = {}"
    if "rd_calls ops d = (cs, d')" for cs d d'
    using that
  proof (induction ops arbitrary: d d' cs)
    case (Cons op ops)
    obtain made d1 where c: "rd_call op d = (made, d1)" by fastforce
    obtain cs1 d2 where cs: "rd_calls ops d1 = (cs1, d2)" by fastforce
    show ?case using Cons.IH [OF cs] rd_call_subs [OF c] Cons.prems c cs by (cases made) (auto simp: disjoint_iff domIff split: prod.splits)
  qed simp
  then show ?thesis by (auto simp: rd_new_def split: prod.split)
qed

section \<open>The receivers of shared memory and of RTPS\<close>

text \<open>A receiver is its \<open>enabled_\<close>; the dispatcher of shared memory is its table and its segments.\<close>

definition sr_Enable :: "role_attributes \<Rightarrow> 'cb \<Rightarrow> bool \<times> 'cb dispatcher \<times> shm_dispatcher \<Rightarrow> bool \<times> 'cb dispatcher \<times> shm_dispatcher" where
  "sr_Enable attr cb s = (case s of (enabled, d, sd) \<Rightarrow>
     if enabled then s
     else (True, di_AddListener ReadableBlock (ra_channel_id attr) (ra_get_id attr) cb d, sd_AddSegment (ra_channel_id attr) sd))"

definition sr_Disable :: "role_attributes \<Rightarrow> bool \<times> 'cb dispatcher \<times> shm_dispatcher \<Rightarrow> bool \<times> 'cb dispatcher \<times> shm_dispatcher" where
  "sr_Disable attr s = (case s of (enabled, d, sd) \<Rightarrow>
     if \<not> enabled then s else (False, di_RemoveListener (ra_channel_id attr) (ra_get_id attr) d, sd))"

definition sr_Enable_to :: "role_attributes \<Rightarrow> 'cb \<Rightarrow> role_attributes \<Rightarrow> bool \<times> 'cb dispatcher \<times> shm_dispatcher \<Rightarrow> bool \<times> 'cb dispatcher \<times> shm_dispatcher" where
  "sr_Enable_to attr cb oppo s = (case s of (enabled, d, sd) \<Rightarrow>
     (enabled, di_AddListener_to ReadableBlock (ra_channel_id attr) (ra_get_id attr) (ra_get_id oppo) cb d, sd_AddSegment (ra_channel_id attr) sd))"

definition sr_Disable_from :: "role_attributes \<Rightarrow> role_attributes \<Rightarrow> bool \<times> 'cb dispatcher \<times> shm_dispatcher \<Rightarrow> bool \<times> 'cb dispatcher \<times> shm_dispatcher" where
  "sr_Disable_from attr oppo s = (case s of (enabled, d, sd) \<Rightarrow>
     (enabled, di_RemoveListener_from (ra_channel_id attr) (ra_get_id attr) (ra_get_id oppo) d, sd))"

definition sr_destroy :: "role_attributes \<Rightarrow> bool \<times> 'cb dispatcher \<times> shm_dispatcher \<Rightarrow> 'cb dispatcher \<times> shm_dispatcher" where
  "sr_destroy attr s = snd (sr_Disable attr s)"

definition rtr_Enable :: "bool \<Rightarrow> bool \<Rightarrow> role_attributes \<Rightarrow> 'cb \<Rightarrow> bool \<times> 'cb rtps_dispatcher \<Rightarrow> bool \<times> 'cb rtps_dispatcher" where
  "rtr_Enable fill create attr cb s = (case s of (enabled, d) \<Rightarrow>
     if enabled then s else (True, snd (rd_AddListener fill create (ra_channel_id attr) (ra_get_id attr) cb d)))"

definition rtr_Disable :: "role_attributes \<Rightarrow> bool \<times> 'cb rtps_dispatcher \<Rightarrow> bool \<times> 'cb rtps_dispatcher" where
  "rtr_Disable attr s = (case s of (enabled, d) \<Rightarrow>
     if \<not> enabled then s else (False, d\<lparr>rd_base := di_RemoveListener (ra_channel_id attr) (ra_get_id attr) (rd_base d)\<rparr>))"

definition rtr_Enable_to :: "bool \<Rightarrow> bool \<Rightarrow> role_attributes \<Rightarrow> 'cb \<Rightarrow> role_attributes \<Rightarrow> bool \<times> 'cb rtps_dispatcher \<Rightarrow> bool \<times> 'cb rtps_dispatcher" where
  "rtr_Enable_to fill create attr cb oppo s = (case s of (enabled, d) \<Rightarrow>
     (enabled, snd (rd_AddListener_to fill create (ra_channel_id attr) (ra_get_id attr) (ra_get_id oppo) cb d)))"

definition rtr_Disable_from :: "role_attributes \<Rightarrow> role_attributes \<Rightarrow> bool \<times> 'cb rtps_dispatcher \<Rightarrow> bool \<times> 'cb rtps_dispatcher" where
  "rtr_Disable_from attr oppo s = (case s of (enabled, d) \<Rightarrow>
     (enabled, d\<lparr>rd_base := di_RemoveListener_from (ra_channel_id attr) (ra_get_id attr) (ra_get_id oppo) (rd_base d)\<rparr>))"

definition rtr_destroy :: "role_attributes \<Rightarrow> bool \<times> 'cb rtps_dispatcher \<Rightarrow> 'cb rtps_dispatcher" where
  "rtr_destroy attr s = snd (rtr_Disable attr s)"

text \<open>A receiver that was enabled for one peer has to be disabled for it before it goes. The destructor
  calls only \<open>Disable()\<close>, which returns at once since \<open>Enable(opposite_attr)\<close> does not set \<open>enabled_\<close>: the
  listener, bound to the dead receiver, is still called for that peer.\<close>

theorem destroyed_receiver_still_called:
  "di_who (ra_channel_id attr) (ra_get_id oppo)
     (fst (sr_destroy attr (sr_Enable_to attr (ra_get_id attr, x) oppo (False, di_new, sd)))) = [(ra_get_id attr, x)]"
proof -
  have "di_ok (\<lambda>_. ReadableBlock) di_new" by (rule di_new_ok)
  from dt.who_add [OF this, of "ra_get_id attr" "ra_channel_id attr" "ra_get_id oppo" "ra_channel_id attr" "ra_get_id oppo" x]
  show ?thesis by (simp add: di_new_who sr_destroy_def sr_Disable_def sr_Enable_to_def)
qed

section \<open>The destructor of a hybrid receiver\<close>

text \<open>\<open>ClearTransmitters\<close>; \<open>ks\<close> is the order in which the maps are walked.\<close>

fun hr_ClearTransmitters :: "(optional_mode \<times> u64) list \<Rightarrow> hybrid_receiver \<times> 'cb dispatchers \<Rightarrow> (hybrid_receiver \<times> 'cb dispatchers) option" where
  "hr_ClearTransmitters [] (r, d) = Some (r\<lparr>hr_transmitters := (\<lambda>_. None)\<rparr>, d)"
| "hr_ClearTransmitters ((m, i) # ks) (r, d) =
     (case hr_known m r i of
        None \<Rightarrow> hr_ClearTransmitters ks (r, d)
      | Some oppo \<Rightarrow>
          if hr_receivers r m = None then None
          else hr_ClearTransmitters ks (r, d(way m := rc_Disable_from (hr_attr r) oppo (d (way m)))))"

text \<open>\<open>ClearReceivers\<close>: the destructor of each receiver calls its \<open>Disable()\<close>.\<close>

definition hr_ClearReceivers :: "hybrid_receiver \<times> 'cb dispatchers \<Rightarrow> hybrid_receiver \<times> 'cb dispatchers" where
  "hr_ClearReceivers rd = (case hr_Disable_all rd of (r, d) \<Rightarrow> (r\<lparr>hr_receivers := (\<lambda>_. None)\<rparr>, d))"

definition hr_destroy :: "(optional_mode \<times> u64) list \<Rightarrow> hybrid_receiver \<times> 'cb dispatchers \<Rightarrow> 'cb dispatchers option" where
  "hr_destroy ks rd = map_option (\<lambda>rd. snd (hr_ClearReceivers rd)) (hr_ClearTransmitters ks rd)"

definition rx_idle :: "hybrid_receiver \<Rightarrow> bool" where
  "rx_idle r \<longleftrightarrow> (\<forall>m. hr_receivers r m \<noteq> Some True)"

lemma rx_idle_reach:
  "reach (pr_start conf attr) (pr_step ty attr peer) s \<Longrightarrow> rx_idle (pr_rx s r)"
proof (induction rule: reach.induct)
  case reach_init
  obtain x where "hr_new conf (attr r) = Some x" using hr_new_ok [of conf "attr r" peer] by blast
  then show ?case
    by (cases conf)
      (auto simp: pr_start_def rx_idle_def hr_new_def hr_InitReceivers_def hr_InitTransmitters_def hr_ObtainConfig_def hr_InitMode_def split: if_splits)
next
  case (reach_step s s')
  have keep: "hr_receivers x = hr_receivers (pr_rx s q)" if "hr_Enable t cb p (pr_rx s q, pr_disp s) = Some (x, d)" for t cb p q x d
    using that by (auto simp: hr_Enable_def Let_def split: if_splits)
  have keep': "hr_receivers x = hr_receivers (pr_rx s q)" if "hr_Disable p (pr_rx s q, pr_disp s) = Some (x, d)" for p q x d
    using that by (auto simp: hr_Disable_def Let_def split: if_splits)
  show ?case using reach_step(2,3) by (cases rule: pr_step.cases) (auto simp: rx_idle_def keep keep')
qed

lemma known_id_reach:
  "reach (pr_start conf attr) (pr_step ty attr peer) s \<Longrightarrow> hr_known m (pr_rx s r) i = Some a \<Longrightarrow> ra_get_id a = i"
proof (induction arbitrary: m r i a rule: reach.induct)
  case reach_init
  obtain x where "hr_new conf (attr r) = Some x" "\<forall>m. hr_known m x = (\<lambda>_. None)" using hr_new_ok [of conf "attr r" peer] by blast
  then show ?case using reach_init by (simp add: pr_start_def)
next
  case (reach_step s s')
  have enable: "ra_get_id a = i" if "hr_Enable t cb p (pr_rx s q, pr_disp s) = Some (x, d)" "hr_known m x i = Some a" for t cb p q x d m i a
    using that reach_step(3) by (auto simp: hr_Enable_def Let_def hr_known_upd split: if_splits)
  have disable: "ra_get_id a = i" if "hr_Disable p (pr_rx s q, pr_disp s) = Some (x, d)" "hr_known m x i = Some a" for p q x d m i a
    using that reach_step(3) by (auto simp: hr_Disable_def Let_def hr_known_upd split: if_splits)
  show ?case using reach_step(2,4) reach_step(3) enable disable by (cases rule: pr_step.cases) (auto split: if_splits)
qed

lemma hr_Disable_all_idle: "rx_idle r \<Longrightarrow> hr_Disable_all (r, d) = (r, d)"
proof -
  assume idle: "rx_idle r"
  have "hr_each (\<lambda>m. rc_Disable a) ms (r, d) = (r, d)" for a ms
  proof (induction ms)
    case (Cons m ms)
    have "r\<lparr>hr_receivers := (hr_receivers r)(m \<mapsto> False)\<rparr> = r" if "hr_receivers r m = Some False"
      using that fun_upd_idem [of "hr_receivers r" m "Some False"] by simp
    then show ?case using Cons idle by (auto simp: rx_idle_def rc_Disable_def split: option.split)
  qed simp
  then show ?thesis by (simp add: hr_Disable_all_def)
qed

lemma hr_ClearTransmitters_result:
  assumes "\<And>m i. hr_known m r i \<noteq> None \<Longrightarrow> hr_receivers r m \<noteq> None"
    and "\<And>m i a. hr_known m r i = Some a \<Longrightarrow> ra_get_id a = i"
    and "\<And>n. di_ok (\<lambda>c. rc_type (ty c) n) (d n)"
  shows "\<exists>d'. hr_ClearTransmitters ks (r, d) = Some (r\<lparr>hr_transmitters := (\<lambda>_. None)\<rparr>, d')
    \<and> (\<forall>n c p e. e \<in> set (di_who c p (d' n)) \<longleftrightarrow> e \<in> set (di_who c p (d n))
        \<and> \<not> (c = ra_channel_id (hr_attr r) \<and> fst e = ra_get_id (hr_attr r) \<and> (\<exists>m. (m, p) \<in> set ks \<and> hr_known m r p \<noteq> None \<and> way m = n)))"
  using assms(3)
proof (induction ks arbitrary: d)
  case (Cons k ks)
  obtain m i where k: "k = (m, i)" by fastforce
  show ?case
  proof (cases "hr_known m r i")
    case None
    then have "(\<exists>m'. (m', p) \<in> set (k # ks) \<and> hr_known m' r p \<noteq> None \<and> way m' = n)
        \<longleftrightarrow> (\<exists>m'. (m', p) \<in> set ks \<and> hr_known m' r p \<noteq> None \<and> way m' = n)" for p n
      by (auto simp: k)
    then show ?thesis using Cons.IH [OF Cons.prems] None by (simp only: k hr_ClearTransmitters.simps option.case)
  next
    case (Some oppo)
    let ?d = "d(way m := rc_Disable_from (hr_attr r) oppo (d (way m)))"
    have id: "ra_get_id oppo = i" by (rule assms(2) [OF Some])
    have who: "e \<in> set (di_who c p (?d n)) \<longleftrightarrow> e \<in> set (di_who c p (d n))
        \<and> \<not> (n = way m \<and> c = ra_channel_id (hr_attr r) \<and> p = i \<and> fst e = ra_get_id (hr_attr r))" for n c p e
      using dt.who_remove [OF Cons.prems [of "way m"]] by (auto simp: rc_Disable_from_def id ls_drop_def)
    have "di_ok (\<lambda>c. rc_type (ty c) n) (?d n)" for n
      using dt.ok_remove [OF Cons.prems [of "way m"]] Cons.prems [of n] by (simp add: rc_Disable_from_def)
    from Cons.IH [OF this] obtain d' where
      d': "hr_ClearTransmitters ks (r, ?d) = Some (r\<lparr>hr_transmitters := (\<lambda>_. None)\<rparr>, d')"
      "\<forall>n c p e. e \<in> set (di_who c p (d' n)) \<longleftrightarrow> e \<in> set (di_who c p (?d n))
        \<and> \<not> (c = ra_channel_id (hr_attr r) \<and> fst e = ra_get_id (hr_attr r) \<and> (\<exists>m. (m, p) \<in> set ks \<and> hr_known m r p \<noteq> None \<and> way m = n))"
      by blast
    show ?thesis
    proof (intro exI [of _ d'] conjI)
      show "hr_ClearTransmitters (k # ks) (r, d) = Some (r\<lparr>hr_transmitters := (\<lambda>_. None)\<rparr>, d')"
        using d'(1) assms(1) [of m i] Some by (auto simp: k)
      have ex: "(\<exists>m'. (m', p) \<in> set (k # ks) \<and> hr_known m' r p \<noteq> None \<and> way m' = n)
          \<longleftrightarrow> n = way m \<and> p = i \<or> (\<exists>m'. (m', p) \<in> set ks \<and> hr_known m' r p \<noteq> None \<and> way m' = n)" for p n
        using Some by (auto simp: k)
      show "\<forall>n c p e. e \<in> set (di_who c p (d' n)) \<longleftrightarrow> e \<in> set (di_who c p (d n))
          \<and> \<not> (c = ra_channel_id (hr_attr r) \<and> fst e = ra_get_id (hr_attr r)
             \<and> (\<exists>m. (m, p) \<in> set (k # ks) \<and> hr_known m r p \<noteq> None \<and> way m = n))"
      proof (intro allI)
        fix n c p e
        show "e \<in> set (di_who c p (d' n)) \<longleftrightarrow> e \<in> set (di_who c p (d n))
          \<and> \<not> (c = ra_channel_id (hr_attr r) \<and> fst e = ra_get_id (hr_attr r)
             \<and> (\<exists>m. (m, p) \<in> set (k # ks) \<and> hr_known m r p \<noteq> None \<and> way m = n))"
          unfolding ex using d'(2) [rule_format, of e c p n] who [of e c p n] by argo
      qed
    qed
  qed
qed simp

text \<open>Without the tasks for the history the destructor leaves no listener of the receiver.\<close>

lemma hr_destroy_own:
  assumes "world_ok (conf_mode conf) attr peer" and "reach (pr_start conf attr) (pr_step ty attr peer) s"
    and "set ks = {(m, i). hr_known m (pr_rx s r) i \<noteq> None}"
  shows "\<exists>d. hr_destroy ks (pr_rx s r, pr_disp s) = Some d
    \<and> (\<forall>m c p e. e \<in> set (di_who c p (d m)) \<longleftrightarrow> e \<in> set (di_who c p (pr_disp s m)) \<and> snd e \<noteq> r)"
proof -
  let ?x = "pr_rx s r" and ?cm = "conf_mode conf"
  have inv: "pr_inv ?cm ty attr peer s" by (rule pr_reach_inv [OF assms(2,1)])
  have rx: "rx_ok ?cm (attr r) peer ?x" and di: "\<And>m. di_ok (\<lambda>c. rc_type (ty c) m) (pr_disp s m)"
    and li: "\<And>m c i e. e \<in> set (di_who c i (pr_disp s m)) \<longleftrightarrow>
          (\<exists>r. e = (ra_get_id (attr r), r) \<and> c = ra_channel_id (attr r) \<and> hr_known m (pr_rx s r) i \<noteq> None)"
    using inv by (auto simp: pr_inv_def dt.listens_def)
  have mode: "m \<in> modes_of ?cm" if "hr_known m ?x i \<noteq> None" for m i
    using rx that mt_of_mode [of "rel_of (peer i) (attr r)" ?cm] by (auto simp: rx_ok_def mode_for_def)
  then have recv: "hr_known m ?x i \<noteq> None \<Longrightarrow> hr_receivers ?x m \<noteq> None" for m i using rx by (simp add: rx_ok_def)
  have hyb: "hr_known m ?x i \<noteq> None \<Longrightarrow> way m = m" for m i
    using mode [of m i] assms(1) way_id [of m] by (auto simp: world_ok_def)
  obtain d' where d': "hr_ClearTransmitters ks (?x, pr_disp s) = Some (?x\<lparr>hr_transmitters := (\<lambda>_. None)\<rparr>, d')"
    "\<And>n c p e. e \<in> set (di_who c p (d' n)) \<longleftrightarrow> e \<in> set (di_who c p (pr_disp s n))
        \<and> \<not> (c = ra_channel_id (attr r) \<and> fst e = ra_get_id (attr r) \<and> (\<exists>m. (m, p) \<in> set ks \<and> hr_known m ?x p \<noteq> None \<and> way m = n))"
  proof -
    have "\<exists>d'. hr_ClearTransmitters ks (?x, pr_disp s) = Some (?x\<lparr>hr_transmitters := (\<lambda>_. None)\<rparr>, d')
      \<and> (\<forall>n c p e. e \<in> set (di_who c p (d' n)) \<longleftrightarrow> e \<in> set (di_who c p (pr_disp s n))
        \<and> \<not> (c = ra_channel_id (hr_attr ?x) \<and> fst e = ra_get_id (hr_attr ?x) \<and> (\<exists>m. (m, p) \<in> set ks \<and> hr_known m ?x p \<noteq> None \<and> way m = n)))"
      by (rule hr_ClearTransmitters_result) (erule recv, erule known_id_reach [OF assms(2)], rule di)
    moreover have "hr_attr ?x = attr r" using rx by (simp add: rx_ok_def)
    ultimately show thesis using that by metis
  qed
  have "hr_destroy ks (?x, pr_disp s) = Some d'"
    using rx_idle_reach [OF assms(2), of r]
    by (simp add: hr_destroy_def d'(1) hr_ClearReceivers_def hr_Disable_all_idle rx_idle_def)
  moreover have "e \<in> set (di_who c p (d' m)) \<longleftrightarrow> e \<in> set (di_who c p (pr_disp s m)) \<and> snd e \<noteq> r" for m c p e
  proof -
    have "q = r" if "ra_get_id (attr q) = ra_get_id (attr r)" for q
      using assms(1) that by (auto simp: world_ok_def inj_def)
    then show ?thesis unfolding d'(2) li using hyb assms(3) by fastforce
  qed
  ultimately show ?thesis by blast
qed

section \<open>The tasks for the history\<close>

text \<open>\<open>ThreadFunc\<close> of a receiver makes a receiver of RTPS for the channel that only the peer and it know,
  with its own id, the profile of the peer and a listener that is bound to it. \<open>hash\<close> gives the id of a
  channel for its name (\<open>RegisterChannel\<close> is in theory \<open>Process_Setup\<close>).\<close>

definition hr_ThreadFunc_attr :: "(string \<Rightarrow> u64) \<Rightarrow> role_attributes \<Rightarrow> hybrid_receiver \<Rightarrow> role_attributes" where
  "hr_ThreadFunc_attr hash oppo x = (let channel_name = hr_history_channel oppo x; channel_id = hash channel_name in
     (hr_attr x)\<lparr>ra_channel_name := channel_name, ra_channel_id := channel_id, ra_qos := ra_qos oppo\<rparr>)"

definition hr_ThreadFunc_begin :: "(string \<Rightarrow> u64) \<Rightarrow> 'cb \<Rightarrow> role_attributes \<Rightarrow> hybrid_receiver \<Rightarrow> 'cb dispatchers \<Rightarrow> 'cb dispatchers" where
  "hr_ThreadFunc_begin hash cb oppo x d =
     d(RTPS := snd (rc_Enable StdString RTPS (hr_ThreadFunc_attr hash oppo x) cb (False, d RTPS)))"

definition hr_ThreadFunc_end :: "(string \<Rightarrow> u64) \<Rightarrow> role_attributes \<Rightarrow> hybrid_receiver \<Rightarrow> 'cb dispatchers \<Rightarrow> 'cb dispatchers" where
  "hr_ThreadFunc_end hash oppo x d = d(RTPS := snd (rc_Disable (hr_ThreadFunc_attr hash oppo x) (True, d RTPS)))"

text \<open>A process whose receivers are told of peers while their tasks run: \<open>T r k\<close> is where the \<open>k\<close>-th task
  of receiver \<open>r\<close> is, once \<open>Async\<close> has queued it.\<close>

datatype history_task = TaskQueued | TaskListening | TaskEnded

inductive ph_step :: "(string \<Rightarrow> u64) \<Rightarrow> (u64 \<Rightarrow> msg_type) \<Rightarrow> (u64 \<Rightarrow> role_attributes) \<Rightarrow> (u64 \<Rightarrow> role_attributes)
    \<Rightarrow> process \<times> (u64 \<Rightarrow> nat \<Rightarrow> history_task) \<Rightarrow> process \<times> (u64 \<Rightarrow> nat \<Rightarrow> history_task) \<Rightarrow> bool" for hash ty attr peer where
  ph_peer: "pr_step ty attr peer s s' \<Longrightarrow> ph_step hash ty attr peer (s, T) (s', T)"
| ph_listen: "k < length (hr_async (pr_rx s r)) \<Longrightarrow> T r k = TaskQueued \<Longrightarrow>
    ph_step hash ty attr peer (s, T)
      (s\<lparr>pr_disp := hr_ThreadFunc_begin hash (ra_get_id (attr r), r) (hr_async (pr_rx s r) ! k) (pr_rx s r) (pr_disp s)\<rparr>,
       T(r := (T r)(k := TaskListening)))"
| ph_end: "k < length (hr_async (pr_rx s r)) \<Longrightarrow> T r k = TaskListening \<Longrightarrow>
    ph_step hash ty attr peer (s, T)
      (s\<lparr>pr_disp := hr_ThreadFunc_end hash (hr_async (pr_rx s r) ! k) (pr_rx s r) (pr_disp s)\<rparr>, T(r := (T r)(k := TaskEnded)))"

text \<open>The channels of the tasks, and the listeners that the tasks which have begun may have on one.\<close>

definition history_id :: "(string \<Rightarrow> u64) \<Rightarrow> u64 \<Rightarrow> u64 \<Rightarrow> u64" where
  "history_id hash i self = hash (dec (unat i) @ dec (unat self))"

definition task_on :: "(string \<Rightarrow> u64) \<Rightarrow> (u64 \<Rightarrow> role_attributes) \<Rightarrow> hybrid_receiver \<Rightarrow> (nat \<Rightarrow> history_task) \<Rightarrow> u64 \<Rightarrow> bool" where
  "task_on hash peer x T c \<longleftrightarrow> (\<exists>k i. k < length (hr_async x) \<and> hr_async x ! k = peer i
     \<and> qp_durability (ra_qos (peer i)) = DURABILITY_TRANSIENT_LOCAL \<and> T k \<noteq> TaskQueued \<and> c = history_id hash i (ra_get_id (hr_attr x)))"

text \<open>An operation of the dispatcher on one channel.\<close>

definition at_channel :: "u64 \<Rightarrow> ('cb dispatcher \<Rightarrow> 'cb dispatcher) \<Rightarrow> bool" where
  "at_channel c f \<longleftrightarrow> (\<forall>d d0. di_is_shutdown d = di_is_shutdown d0 \<longrightarrow> di_msg_listeners d c = di_msg_listeners d0 c \<longrightarrow>
     di_is_shutdown (f d) = di_is_shutdown d \<and> di_msg_listeners (f d) c = di_msg_listeners (f d0) c
     \<and> (\<forall>c'. c' \<noteq> c \<longrightarrow> di_msg_listeners (f d) c' = di_msg_listeners d c'))"

lemma at_channel_ops:
  "at_channel c (di_AddListener t c s cb)" "at_channel c (di_RemoveListener c s)"
  "at_channel c (di_AddListener_to t c s p cb)" "at_channel c (di_RemoveListener_from c s p)"
  by (auto simp: at_channel_def di_AddListener_def di_AddListener_to_def di_RemoveListener_def di_RemoveListener_from_def
      di_with_handler_def split: option.splits if_splits)

text \<open>The dispatchers \<open>d\<close> are \<open>d0\<close> but for channels \<open>H\<close> of RTPS.\<close>

definition disp_sim :: "u64 set \<Rightarrow> 'cb dispatchers \<Rightarrow> 'cb dispatchers \<Rightarrow> bool" where
  "disp_sim H d d0 \<longleftrightarrow> (\<forall>m. di_is_shutdown (d m) = di_is_shutdown (d0 m)
     \<and> (\<forall>c. \<not> (m = RTPS \<and> c \<in> H) \<longrightarrow> di_msg_listeners (d m) c = di_msg_listeners (d0 m) c))"

definition same_on :: "u64 set \<Rightarrow> 'cb dispatchers \<Rightarrow> 'cb dispatchers \<Rightarrow> bool" where
  "same_on H d d' \<longleftrightarrow> (\<forall>c \<in> H. di_msg_listeners (d RTPS) c = di_msg_listeners (d' RTPS) c)"

lemma at_channel_other: "at_channel c f \<Longrightarrow> c' \<noteq> c \<Longrightarrow> di_msg_listeners (f d) c' = di_msg_listeners d c'"
  and at_channel_down: "at_channel c f \<Longrightarrow> di_is_shutdown (f d) = di_is_shutdown d"
  and at_channel_same: "at_channel c f \<Longrightarrow> di_is_shutdown d = di_is_shutdown d0 \<Longrightarrow> di_msg_listeners d c = di_msg_listeners d0 c \<Longrightarrow>
    di_msg_listeners (f d) c = di_msg_listeners (f d0) c"
  unfolding at_channel_def by blast+

lemma disp_sim_upd:
  assumes "disp_sim H d d0" and f: "at_channel c f" and "c \<notin> H"
  shows "disp_sim H (d(n := f (d n))) (d0(n := f (d0 n)))" and "same_on H (d(n := f (d n))) d"
proof -
  have "di_msg_listeners (f (d n)) c' = di_msg_listeners (f (d0 n)) c'" if "\<not> (n = RTPS \<and> c' \<in> H)" for c'
    using assms(1,3) that at_channel_same [OF f, of "d n" "d0 n"] at_channel_other [OF f, of c'] unfolding disp_sim_def by (cases "c' = c") metis+
  then show "disp_sim H (d(n := f (d n))) (d0(n := f (d0 n)))"
    using assms(1) by (auto simp: disp_sim_def at_channel_down [OF f])
  show "same_on H (d(n := f (d n))) d" using assms(3) at_channel_other [OF f] by (fastforce simp: same_on_def)
qed

lemma same_on_refl [simp]: "same_on H d d" and same_on_trans: "same_on H d d1 \<Longrightarrow> same_on H d1 d2 \<Longrightarrow> same_on H d d2"
  by (simp_all add: same_on_def)

lemma disp_sim_history:
  assumes "disp_sim H d d0" and f: "at_channel c f" and "c \<in> H"
  shows "disp_sim H (d(RTPS := f (d RTPS))) d0"
  using assms at_channel_other [OF f] at_channel_down [OF f] unfolding disp_sim_def by (auto, metis)

lemma hr_Enable_sim:
  assumes "hr_Enable t cb p (x, d) = Some (y, d')" and "disp_sim H d d0" and "ra_channel_id (hr_attr x) \<notin> H"
  shows "\<exists>d0'. hr_Enable t cb p (x, d0) = Some (y, d0') \<and> disp_sim H d' d0' \<and> same_on H d' d"
  using assms(1) disp_sim_upd [OF assms(2) at_channel_ops(3) assms(3)] assms(2)
  by (auto simp: hr_Enable_def rc_Enable_to_def Let_def split: if_splits)

lemma hr_Disable_sim:
  assumes "hr_Disable p (x, d) = Some (y, d')" and "disp_sim H d d0" and "ra_channel_id (hr_attr x) \<notin> H"
  shows "\<exists>d0'. hr_Disable p (x, d0) = Some (y, d0') \<and> disp_sim H d' d0' \<and> same_on H d' d"
  using assms(1) disp_sim_upd [OF assms(2) at_channel_ops(4) assms(3)] assms(2)
  by (auto simp: hr_Disable_def rc_Disable_from_def Let_def split: if_splits)

lemma hr_ClearTransmitters_sim:
  assumes "hr_ClearTransmitters ks (x, d0) = Some (y, d0')" and "disp_sim H d d0" and "ra_channel_id (hr_attr x) \<notin> H"
  shows "\<exists>d'. hr_ClearTransmitters ks (x, d) = Some (y, d') \<and> disp_sim H d' d0' \<and> same_on H d' d"
  using assms(1,2)
proof (induction ks arbitrary: d d0)
  case (Cons k ks)
  obtain m i where k: "k = (m, i)" by fastforce
  show ?case
  proof (cases "hr_known m x i")
    case None
    then show ?thesis using Cons by (simp add: k)
  next
    case (Some oppo)
    let ?f = "rc_Disable_from (hr_attr x) oppo"
    note upd = disp_sim_upd [OF Cons.prems(2), of "ra_channel_id (hr_attr x)" ?f, OF _ assms(3), of "way m"]
    have f: "at_channel (ra_channel_id (hr_attr x)) ?f" by (simp add: rc_Disable_from_def at_channel_ops)
    from Cons.prems(1) Some have "hr_receivers x m \<noteq> None" "hr_ClearTransmitters ks (x, d0(way m := ?f (d0 (way m)))) = Some (y, d0')"
      by (auto simp: k split: if_splits)
    moreover obtain d' where "hr_ClearTransmitters ks (x, d(way m := ?f (d (way m)))) = Some (y, d')" "disp_sim H d' d0'"
      "same_on H d' (d(way m := ?f (d (way m))))"
      using Cons.IH [OF calculation(2) upd(1) [OF f]] by blast
    ultimately show ?thesis using same_on_trans [OF _ upd(2) [OF f]] Some by (intro exI [of _ d']) (auto simp: k)
  qed
qed simp

lemma hr_destroy_sim:
  assumes "hr_destroy ks (x, d0 :: 'cb dispatchers) = Some d0'" and "disp_sim H d d0" and "ra_channel_id (hr_attr x) \<notin> H" and "rx_idle x"
  shows "\<exists>d'. hr_destroy ks (x, d) = Some d' \<and> disp_sim H d' d0' \<and> same_on H d' d"
proof -
  obtain y e0 where y: "hr_ClearTransmitters ks (x, d0) = Some (y, e0)" using assms(1) by (auto simp: hr_destroy_def)
  have "hr_ClearTransmitters ks (x, e) = Some (y, e') \<Longrightarrow> rx_idle y" for e e'
    using assms(4) by (induction ks "(x, e)" arbitrary: e rule: hr_ClearTransmitters.induct) (auto simp: rx_idle_def split: option.splits if_splits)
  then have "rx_idle y" using y by blast
  then have "hr_ClearReceivers (y, e) = (y\<lparr>hr_receivers := \<lambda>_. None\<rparr>, e)" for e :: "'cb dispatchers"
    by (simp add: hr_ClearReceivers_def hr_Disable_all_idle)
  then have "hr_destroy ks (x, e) = Some e'" if "hr_ClearTransmitters ks (x, e) = Some (y, e')" for e e' :: "'cb dispatchers" using that by (simp add: hr_destroy_def)
  then show ?thesis using hr_ClearTransmitters_sim [OF y assms(2,3)] assms(1) y by auto
qed

text \<open>A handler for the listeners \<open>X\<close> to every sender, and to none in particular.\<close>

definition lh_only :: "'cb set \<Rightarrow> 'cb listener_handler \<Rightarrow> bool" where
  "lh_only X h \<longleftrightarrow> (\<forall>i s cb. sg_store (lh_signal h) i = Some s \<and> sl_cb s = Some cb \<longrightarrow> cb \<in> X) \<and> lh_signals h = (\<lambda>_. None)"

lemma lh_only_mono: "lh_only X h \<Longrightarrow> X \<subseteq> Y \<Longrightarrow> lh_only Y h" by (auto simp: lh_only_def)

lemma sg_mark_cb: "sg_store (snd (sg_mark c xs g)) i = Some s \<Longrightarrow> \<exists>s0. sg_store g i = Some s0 \<and> sl_cb s0 = sl_cb s"
proof (induction xs arbitrary: g)
  case (Cons x xs)
  show ?case
  proof (cases "cn_HasSlot c x")
    case True
    then obtain s0 where "sg_store (sg_disc x g) i = Some s0" "sl_cb s0 = sl_cb s"
      using Cons.IH [of "sg_disc x g"] Cons.prems by auto
    then show ?thesis by (auto simp: Slot_Disconnect_def split: if_splits)
  next
    case False
    then show ?thesis using Cons by simp
  qed
qed simp

lemma cn_Disconnect_cb: "sg_store (snd (cn_Disconnect c g)) i = Some s \<Longrightarrow> \<exists>s0. sg_store g i = Some s0 \<and> sl_cb s0 = sl_cb s"
  using sg_mark_cb [of c "sg_slots g" g i s] by (auto simp: cn_Disconnect_def sg_Disconnect_def Let_def split: prod.splits if_splits)

lemma lh_only_ops:
  "lh_only X lh_new" "lh_only X h \<Longrightarrow> cb \<in> X \<Longrightarrow> lh_only X (lh_Connect self cb h)" "lh_only X h \<Longrightarrow> lh_only X (lh_Disconnect self h)"
    apply (simp add: lh_only_def lh_new_def sg_new_def)
   apply (auto simp: lh_only_def lh_Connect_def Slot_new_def sg_Connect_def Let_def split: if_splits)[1]
  subgoal by (simp add: lh_only_def lh_Disconnect_def split: option.split) (metis cn_Disconnect_cb)
  done

lemma lh_only_who:
  assumes "di_msg_listeners d c = Some (t, h)" and "lh_only X h"
  shows "set (di_who c p d) \<subseteq> X"
proof -
  let ?called = "List.map_filter (\<lambda>x. Option.bind (sg_store (lh_signal h) x) Slot_call) (sg_slots (lh_signal h))"
  have "di_who c p d = ?called"
    using assms by (simp add: di_who_def lh_Run_def sg_emit_def fold_log lh_only_def Let_def sg_calls_pure [where h = "\<lambda>cb _ w. w @ [cb]"])
  moreover have "set ?called \<subseteq> X"
    using assms(2) by (fastforce simp: List.map_filter_def lh_only_def Slot_call_def split: if_splits bind_splits)
  ultimately show ?thesis by simp
qed

definition history_listeners :: "(string \<Rightarrow> u64) \<Rightarrow> (u64 \<Rightarrow> role_attributes) \<Rightarrow> (u64 \<Rightarrow> role_attributes)
    \<Rightarrow> process \<times> (u64 \<Rightarrow> nat \<Rightarrow> history_task) \<Rightarrow> u64 \<Rightarrow> (u64 \<times> u64) set" where
  "history_listeners hash attr peer sT c = {e. fst e = ra_get_id (attr (snd e)) \<and> task_on hash peer (pr_rx (fst sT) (snd e)) (snd sT (snd e)) c}"

definition history_ok :: "(string \<Rightarrow> u64) \<Rightarrow> (u64 \<Rightarrow> role_attributes) \<Rightarrow> (u64 \<Rightarrow> role_attributes) \<Rightarrow> u64 set
    \<Rightarrow> process \<times> (u64 \<Rightarrow> nat \<Rightarrow> history_task) \<Rightarrow> bool" where
  "history_ok hash attr peer H sT \<longleftrightarrow> (\<forall>c \<in> H. \<forall>t h. di_msg_listeners (pr_disp (fst sT) RTPS) c = Some (t, h) \<longrightarrow>
     lh_only (history_listeners hash attr peer sT c) h)
   \<and> (\<forall>r. \<forall>a \<in> set (hr_async (pr_rx (fst sT) r)). \<exists>i. a = peer i \<and> qp_durability (ra_qos a) = DURABILITY_TRANSIENT_LOCAL)"

lemma task_on_mono:
  "task_on hash peer x T c \<Longrightarrow> hr_attr y = hr_attr x \<Longrightarrow> (\<And>k. k < length (hr_async x) \<Longrightarrow> k < length (hr_async y) \<and> hr_async y ! k = hr_async x ! k)
    \<Longrightarrow> (\<And>k. T k \<noteq> TaskQueued \<Longrightarrow> T' k \<noteq> TaskQueued) \<Longrightarrow> task_on hash peer y T' c"
  unfolding task_on_def by metis

lemma hr_Enable_async:
  "hr_Enable t cb p (x, d) = Some (y, d') \<Longrightarrow> hr_attr y = hr_attr x
    \<and> (hr_async y = hr_async x \<or> (hr_async y = hr_async x @ [p] \<and> qp_durability (ra_qos p) = DURABILITY_TRANSIENT_LOCAL))"
  by (auto simp: hr_Enable_def hr_ReceiveHistoryMsg_def Let_def split: if_splits)

lemma hr_Disable_async: "hr_Disable p (x, d) = Some (y, d') \<Longrightarrow> hr_attr y = hr_attr x \<and> hr_async y = hr_async x"
  by (auto simp: hr_Disable_def Let_def split: if_splits)

text \<open>The process is one whose tasks never run, but for the channels of the tasks.\<close>

definition ph_inv :: "(string \<Rightarrow> u64) \<Rightarrow> communication_mode option \<Rightarrow> (u64 \<Rightarrow> msg_type) \<Rightarrow> (u64 \<Rightarrow> role_attributes) \<Rightarrow> (u64 \<Rightarrow> role_attributes)
    \<Rightarrow> u64 set \<Rightarrow> process \<times> (u64 \<Rightarrow> nat \<Rightarrow> history_task) \<Rightarrow> bool" where
  "ph_inv hash conf ty attr peer H sT \<longleftrightarrow> (\<exists>s0. reach (pr_start conf attr) (pr_step ty attr peer) s0
     \<and> pr_rx (fst sT) = pr_rx s0 \<and> disp_sim H (pr_disp (fst sT)) (pr_disp s0)) \<and> history_ok hash attr peer H sT"

lemma history_ok_async:
  "history_ok hash attr peer H sT \<Longrightarrow> k < length (hr_async (pr_rx (fst sT) r)) \<Longrightarrow>
    \<exists>i. hr_async (pr_rx (fst sT) r) ! k = peer i \<and> qp_durability (ra_qos (peer i)) = DURABILITY_TRANSIENT_LOCAL"
  unfolding history_ok_def using nth_mem by metis

lemma history_ok_only:
  "history_ok hash attr peer H (s, T) \<Longrightarrow> c \<in> H \<Longrightarrow> di_msg_listeners (pr_disp s RTPS) c = Some (t, h) \<Longrightarrow>
    lh_only (history_listeners hash attr peer (s, T) c) h"
  by (simp add: history_ok_def)

lemma history_ok_peer:
  assumes ok: "history_ok hash attr peer H (s, T)" and same: "same_on H d (pr_disp s)" and at: "hr_attr x = hr_attr (pr_rx s r)"
    and as: "hr_async x = hr_async (pr_rx s r) \<or> (hr_async x = hr_async (pr_rx s r) @ [peer i] \<and> qp_durability (ra_qos (peer i)) = DURABILITY_TRANSIENT_LOCAL)"
  shows "history_ok hash attr peer H (\<lparr>pr_disp = d, pr_rx = (pr_rx s)(r := x)\<rparr>, T)"
proof -
  have "task_on hash peer (pr_rx s q) (T q) c \<Longrightarrow> task_on hash peer (((pr_rx s)(r := x)) q) (T q) c" for q c
    by (cases "q = r", erule task_on_mono) (use at as in \<open>auto simp: nth_append\<close>)
  then have "history_listeners hash attr peer (s, T) c \<subseteq> history_listeners hash attr peer (\<lparr>pr_disp = d, pr_rx = (pr_rx s)(r := x)\<rparr>, T) c" for c
    unfolding history_listeners_def by (simp only: fst_conv snd_conv process.select_convs) blast
  then show ?thesis 
    using ok same as lh_only_mono [OF history_ok_only [OF ok]] by (auto simp: history_ok_def same_on_def)
qed

lemma history_id_attr: "ra_channel_id (hr_ThreadFunc_attr hash (peer i) x) = history_id hash (ra_get_id (peer i)) (ra_get_id (hr_attr x))"
  "ra_get_id (hr_ThreadFunc_attr hash p x) = ra_get_id (hr_attr x)"
  by (simp_all add: hr_ThreadFunc_attr_def history_id_def hr_history_channel_def Let_def ra_get_id_def)

lemma history_ok_task:
  assumes ok: "history_ok hash attr peer H (s, T)" and w: "world_ok cm attr peer" and at: "hr_attr (pr_rx s r) = attr r"
    and k: "k < length (hr_async (pr_rx s r))" and st: "st \<noteq> TaskQueued"
    and c: "c = ra_channel_id (hr_ThreadFunc_attr hash (hr_async (pr_rx s r) ! k) (pr_rx s r))"
    and f: "at_channel c f"
    and h: "\<And>X t h. (\<And>t0 h0. di_msg_listeners (pr_disp s RTPS) c = Some (t0, h0) \<Longrightarrow> lh_only X h0) \<Longrightarrow> (ra_get_id (attr r), r) \<in> X \<Longrightarrow>
      di_msg_listeners (f (pr_disp s RTPS)) c = Some (t, h) \<Longrightarrow> lh_only X h"
  shows "history_ok hash attr peer H (s\<lparr>pr_disp := (pr_disp s)(RTPS := f (pr_disp s RTPS))\<rparr>, T(r := (T r)(k := st)))"
proof -
  let ?T = "T(r := (T r)(k := st))" and ?s = "s\<lparr>pr_disp := (pr_disp s)(RTPS := f (pr_disp s RTPS))\<rparr>"
  obtain i where i: "hr_async (pr_rx s r) ! k = peer i" "qp_durability (ra_qos (peer i)) = DURABILITY_TRANSIENT_LOCAL"
    using history_ok_async [OF ok, of k r] k by auto
  have id: "ra_get_id (peer i) = i" using w by (simp add: world_ok_def)
  have more: "history_listeners hash attr peer (s, T) c' \<subseteq> history_listeners hash attr peer (?s, ?T) c'" for c'
  proof -
    have "task_on hash peer (pr_rx s q) (T q) c' \<Longrightarrow> task_on hash peer (pr_rx s q) (?T q) c'" for q
      by (erule task_on_mono) (auto simp: st)
    then show ?thesis by (auto simp: history_listeners_def simp del: fun_upd_apply)
  qed
  have "task_on hash peer (pr_rx s r) ((T r)(k := st)) c"
    using k i st c history_id_attr(1) [of hash peer i "pr_rx s r"] id unfolding task_on_def by (intro exI [of _ k] exI [of _ i]) simp
  then have new: "(ra_get_id (attr r), r) \<in> history_listeners hash attr peer (?s, ?T) c" by (simp add: history_listeners_def)
  have old: "di_msg_listeners (pr_disp s RTPS) c' = Some (t, h) \<Longrightarrow> c' \<in> H \<Longrightarrow> lh_only (history_listeners hash attr peer (?s, ?T) c') h" for c' t h
    using lh_only_mono [OF history_ok_only [OF ok] more] by blast
  have "lh_only (history_listeners hash attr peer (?s, ?T) c') h"
    if "c' \<in> H" "di_msg_listeners (f (pr_disp s RTPS)) c' = Some (t, h)" for c' t h
  proof (cases "c' = c")
    case True
    then show ?thesis using h [OF _ new, of t h] old that by blast
  next
    case False
    then show ?thesis using old that at_channel_other [OF f False] by metis
  qed
  then show ?thesis using ok by (auto simp: history_ok_def)
qed

lemma ph_inv_facts:
  assumes "ph_inv hash conf ty attr peer H sT" and w: "world_ok (conf_mode conf) attr peer"
  obtains s0 where "reach (pr_start conf attr) (pr_step ty attr peer) s0" "pr_rx (fst sT) = pr_rx s0" "disp_sim H (pr_disp (fst sT)) (pr_disp s0)"
    "history_ok hash attr peer H sT" "\<And>r. hr_attr (pr_rx (fst sT) r) = attr r"
proof -
  obtain s0 where s0: "reach (pr_start conf attr) (pr_step ty attr peer) s0" "pr_rx (fst sT) = pr_rx s0" "disp_sim H (pr_disp (fst sT)) (pr_disp s0)"
    "history_ok hash attr peer H sT" using assms(1) by (auto simp: ph_inv_def)
  moreover have "hr_attr (pr_rx (fst sT) r) = attr r" for r using pr_reach_inv [OF s0(1) w] s0(2) by (simp add: pr_inv_def rx_ok_def)
  ultimately show thesis by (rule that)
qed

lemma ph_inv_task:
  assumes inv: "ph_inv hash conf ty attr peer H (s, T)" and w: "world_ok (conf_mode conf) attr peer"
    and H: "H = (\<Union>i q. {history_id hash i (ra_get_id (attr q))})"
    and k: "k < length (hr_async (pr_rx s r))" and st: "st \<noteq> TaskQueued"
    and c: "c = ra_channel_id (hr_ThreadFunc_attr hash (hr_async (pr_rx s r) ! k) (pr_rx s r))"
    and f: "at_channel c f"
    and h: "\<And>X t h. (\<And>t0 h0. di_msg_listeners (pr_disp s RTPS) c = Some (t0, h0) \<Longrightarrow> lh_only X h0) \<Longrightarrow> (ra_get_id (attr r), r) \<in> X \<Longrightarrow>
      di_msg_listeners (f (pr_disp s RTPS)) c = Some (t, h) \<Longrightarrow> lh_only X h"
  shows "ph_inv hash conf ty attr peer H (s\<lparr>pr_disp := (pr_disp s)(RTPS := f (pr_disp s RTPS))\<rparr>, T(r := (T r)(k := st)))"
proof -
  obtain s0 where s0: "reach (pr_start conf attr) (pr_step ty attr peer) s0" "pr_rx s = pr_rx s0" "disp_sim H (pr_disp s) (pr_disp s0)"
    "history_ok hash attr peer H (s, T)" and at: "\<And>r. hr_attr (pr_rx s r) = attr r" by (rule ph_inv_facts [OF inv w]) simp
  obtain i where "hr_async (pr_rx s r) ! k = peer i" using history_ok_async [OF s0(4), of k r] k by auto
  then have "c \<in> H" using history_id_attr(1) [of hash peer i] at by (auto simp: H c)
  from disp_sim_history [OF s0(3) f this] history_ok_task [OF s0(4) w at k st c f h] s0(1,2) show ?thesis
    unfolding ph_inv_def by (intro conjI exI [of _ s0]) simp_all
qed

lemma ph_inv_peer:
  assumes inv: "ph_inv hash conf ty attr peer H (s, T)" and w: "world_ok (conf_mode conf) attr peer"
    and chan: "\<And>r. ra_channel_id (attr r) \<notin> H" and step: "pr_step ty attr peer s s'"
  shows "ph_inv hash conf ty attr peer H (s', T)"
proof -
  obtain s0 where s0: "reach (pr_start conf attr) (pr_step ty attr peer) s0" "pr_rx s = pr_rx s0" "disp_sim H (pr_disp s) (pr_disp s0)"
    "history_ok hash attr peer H (s, T)" and at: "\<And>r. hr_attr (pr_rx s r) = attr r" by (rule ph_inv_facts [OF inv w]) simp
  have out: "ra_channel_id (hr_attr (pr_rx s r)) \<notin> H" for r using at chan by simp
  have "\<exists>r x d d0 i. s' = \<lparr>pr_disp = d, pr_rx = (pr_rx s)(r := x)\<rparr> \<and> pr_step ty attr peer s0 \<lparr>pr_disp = d0, pr_rx = (pr_rx s0)(r := x)\<rparr>
      \<and> disp_sim H d d0 \<and> same_on H d (pr_disp s) \<and> hr_attr x = hr_attr (pr_rx s r) \<and> (hr_async x = hr_async (pr_rx s r)
        \<or> (hr_async x = hr_async (pr_rx s r) @ [peer i] \<and> qp_durability (ra_qos (peer i)) = DURABILITY_TRANSIENT_LOCAL))"
    using step
  proof cases
    case (ps_enable r i x d)
    obtain d0 where d0: "hr_Enable (ty (ra_channel_id (attr r))) (ra_get_id (attr r), r) (peer i) (pr_rx s r, pr_disp s0) = Some (x, d0)"
      "disp_sim H d d0" "same_on H d (pr_disp s)" using hr_Enable_sim [OF ps_enable(2) s0(3) out] by blast
    have "pr_step ty attr peer s0 \<lparr>pr_disp = d0, pr_rx = (pr_rx s0)(r := x)\<rparr>" using d0(1) s0(2) by (metis pr_step.ps_enable)
    then show ?thesis using d0(2,3) ps_enable(1) hr_Enable_async [OF ps_enable(2)] by blast
  next
    case (ps_disable i r x d)
    obtain d0 where d0: "hr_Disable (peer i) (pr_rx s r, pr_disp s0) = Some (x, d0)"
      "disp_sim H d d0" "same_on H d (pr_disp s)" using hr_Disable_sim [OF ps_disable(2) s0(3) out] by blast
    have "pr_step ty attr peer s0 \<lparr>pr_disp = d0, pr_rx = (pr_rx s0)(r := x)\<rparr>" using d0(1) s0(2) by (metis pr_step.ps_disable)
    then show ?thesis using d0(2,3) ps_disable(1) hr_Disable_async [OF ps_disable(2)] by blast
  qed
  then obtain r x d d0 i where x: "s' = \<lparr>pr_disp = d, pr_rx = (pr_rx s)(r := x)\<rparr>" "pr_step ty attr peer s0 \<lparr>pr_disp = d0, pr_rx = (pr_rx s0)(r := x)\<rparr>"
    "disp_sim H d d0" "same_on H d (pr_disp s)" "hr_attr x = hr_attr (pr_rx s r)" "hr_async x = hr_async (pr_rx s r)
        \<or> (hr_async x = hr_async (pr_rx s r) @ [peer i] \<and> qp_durability (ra_qos (peer i)) = DURABILITY_TRANSIENT_LOCAL)" by blast
  have "reach (pr_start conf attr) (pr_step ty attr peer) \<lparr>pr_disp = d0, pr_rx = (pr_rx s0)(r := x)\<rparr>" using s0(1) x(2) by (rule reach_step)
  then show ?thesis using history_ok_peer [OF s0(4) x(4-6)] x(1,3) s0(2) unfolding ph_inv_def by force
qed

lemma ph_step_inv:
  assumes step: "ph_step hash ty attr peer sT sT'" and inv: "ph_inv hash conf ty attr peer H sT" and w: "world_ok (conf_mode conf) attr peer"
    and H: "H = (\<Union>i q. {history_id hash i (ra_get_id (attr q))})" and chan: "\<And>r. ra_channel_id (attr r) \<notin> H"
  shows "ph_inv hash conf ty attr peer H sT'"
  using step
proof cases
  case (ph_peer s s' T)
  then show ?thesis using ph_inv_peer [OF _ w chan] inv by blast
next
  case (ph_listen k s r T)
  let ?a = "hr_ThreadFunc_attr hash (hr_async (pr_rx s r) ! k) (pr_rx s r)"
  have at: "hr_attr (pr_rx s r) = attr r" by (rule ph_inv_facts [OF inv w]) (simp add: ph_listen(1))
  have "ph_inv hash conf ty attr peer H (s\<lparr>pr_disp := (pr_disp s)(RTPS := di_AddListener StdString (ra_channel_id ?a) (ra_get_id ?a)
      (ra_get_id (attr r), r) (pr_disp s RTPS))\<rparr>, T(r := (T r)(k := TaskListening)))"
    by (rule ph_inv_task [OF _ w H _ _ refl at_channel_ops(1)])
      (use inv at ph_listen in \<open>auto simp: di_AddListener_def di_with_handler_def lh_only_ops split: option.splits if_splits\<close>)
  then show ?thesis by (simp add: ph_listen(2) hr_ThreadFunc_begin_def rc_Enable_def rc_type_def)
next
  case (ph_end k s r T)
  let ?a = "hr_ThreadFunc_attr hash (hr_async (pr_rx s r) ! k) (pr_rx s r)"
  have "ph_inv hash conf ty attr peer H (s\<lparr>pr_disp := (pr_disp s)(RTPS := di_RemoveListener (ra_channel_id ?a) (ra_get_id ?a)
      (pr_disp s RTPS))\<rparr>, T(r := (T r)(k := TaskEnded)))"
    by (rule ph_inv_task [OF _ w H _ _ refl at_channel_ops(2)])
      (use inv ph_end in \<open>auto simp: di_RemoveListener_def lh_only_ops split: option.splits if_splits\<close>)
  then show ?thesis by (simp add: ph_end(2) hr_ThreadFunc_end_def rc_Disable_def)
qed

definition no_task :: "u64 \<Rightarrow> nat \<Rightarrow> history_task" where "no_task r k = TaskQueued"

lemma ph_reach_inv:
  assumes "reach (pr_start conf attr, no_task) (ph_step hash ty attr peer) sT" and w: "world_ok (conf_mode conf) attr peer"
    and H: "H = (\<Union>i q. {history_id hash i (ra_get_id (attr q))})" and chan: "\<And>r. ra_channel_id (attr r) \<notin> H"
  shows "ph_inv hash conf ty attr peer H sT"
  using assms(1)
proof (induction rule: reach.induct)
  case reach_init
  obtain x where "\<And>r. hr_async (pr_rx (pr_start conf attr) r) = []"
    by (cases conf) (auto simp: pr_start_def hr_new_def hr_InitReceivers_def hr_InitTransmitters_def hr_ObtainConfig_def hr_InitMode_def)
  then show ?case using reach.reach_init [of "pr_start conf attr" "pr_step ty attr peer"]
    by (auto simp: ph_inv_def disp_sim_def history_ok_def pr_start_def di_new_def intro!: exI [of _ "pr_start conf attr"])
qed (rule ph_step_inv [OF _ _ w H chan])

text \<open>C21: No listener of a hybrid receiver's own outlives it. Its peers come and go in any order, and the tasks
  that it starts for the history of those with durability \<open>TRANSIENT_LOCAL\<close> begin and end at any time. Then the
  destructor succeeds, in whatever order it walks the maps, and afterwards a dispatcher calls for a sender
  exactly those it called before without the destroyed receiver, save on the channel that a task of the
  receiver which has begun has for the history of such a peer: the listener there is not the destructor's to
  remove. A receiver without such peers is never called again. The channel of a receiver is none of those for
  history: \<open>RegisterChannel\<close> refuses two names with one id.\<close>

theorem destroyed_hybrid_receiver_not_called:
  assumes "world_ok (conf_mode conf) attr peer" and "reach (pr_start conf attr, no_task) (ph_step hash ty attr peer) (s, T)"
    and "\<And>q r i. ra_channel_id (attr q) \<noteq> history_id hash i (ra_get_id (attr r))"
    and "set ks = {(m, i). hr_known m (pr_rx s r) i \<noteq> None}"
  shows "\<exists>d. hr_destroy ks (pr_rx s r, pr_disp s) = Some d
    \<and> (\<forall>m c p e. e \<in> set (di_who c p (d m)) \<longleftrightarrow> e \<in> set (di_who c p (pr_disp s m))
        \<and> (snd e = r \<longrightarrow> m = RTPS \<and> task_on hash peer (pr_rx s r) (T r) c))"
proof -
  define H where "H = (\<Union>i q. {history_id hash i (ra_get_id (attr q))})"
  have chan: "ra_channel_id (attr q) \<notin> H" for q using assms(3) by (auto simp: H_def)
  have inv: "ph_inv hash conf ty attr peer H (s, T)" by (rule ph_reach_inv [OF assms(2,1) H_def chan])
  then obtain s0 where s0: "reach (pr_start conf attr) (pr_step ty attr peer) s0" "pr_rx s = pr_rx s0" "disp_sim H (pr_disp s) (pr_disp s0)"
    and ok: "history_ok hash attr peer H (s, T)" by (auto simp: ph_inv_def)
  have at: "hr_attr (pr_rx s r) = attr r" using pr_reach_inv [OF s0(1) assms(1)] s0(2) by (simp add: pr_inv_def rx_ok_def)
  obtain d0 where d0: "hr_destroy ks (pr_rx s r, pr_disp s0) = Some d0"
    "\<And>m c p e. e \<in> set (di_who c p (d0 m)) \<longleftrightarrow> e \<in> set (di_who c p (pr_disp s0 m)) \<and> snd e \<noteq> r"
    using hr_destroy_own [OF assms(1) s0(1), of ks r] assms(4) s0(2) by auto
  obtain d where d: "hr_destroy ks (pr_rx s r, pr_disp s) = Some d" "disp_sim H d d0" "same_on H d (pr_disp s)"
    using hr_destroy_sim [OF d0(1) s0(3)] at chan rx_idle_reach [OF s0(1), of r] s0(2) by auto
  have "e \<in> set (di_who c p (d m)) \<longleftrightarrow> e \<in> set (di_who c p (pr_disp s m)) \<and> (snd e = r \<longrightarrow> m = RTPS \<and> task_on hash peer (pr_rx s r) (T r) c)"
    for m c p e
  proof (cases "m = RTPS \<and> c \<in> H")
    case True
    have "di_who c p (d m) = di_who c p (pr_disp s m)" using d(3) True by (simp add: same_on_def di_who_def)
    moreover have "snd e = r \<Longrightarrow> task_on hash peer (pr_rx s r) (T r) c" if e: "e \<in> set (di_who c p (pr_disp s m))"
    proof -
      obtain t h where "di_msg_listeners (pr_disp s RTPS) c = Some (t, h)" using e True by (cases "di_msg_listeners (pr_disp s RTPS) c") (auto simp: di_who_def)
      then have "set (di_who c p (pr_disp s RTPS)) \<subseteq> history_listeners hash attr peer (s, T) c"
        using lh_only_who history_ok_only [OF ok] True by blast
      then show "snd e = r \<Longrightarrow> task_on hash peer (pr_rx s r) (T r) c" using e True by (auto simp: history_listeners_def)
    qed
    ultimately show ?thesis using True by auto
  next
    case False
    have "di_who c p (d m) = di_who c p (d0 m)" "di_who c p (pr_disp s m) = di_who c p (pr_disp s0 m)"
      using d(2) s0(3) False by (auto simp: disp_sim_def di_who_def)
    moreover have "\<not> (m = RTPS \<and> task_on hash peer (pr_rx s r) (T r) c)" using False at by (auto simp: task_on_def H_def)
    ultimately show ?thesis using d0(2) [of e c p m] by metis
  qed
  then show ?thesis using d(1) by blast
qed

text \<open>A receiver of reader 3 that was told of a writer 5 in its process, whose history is wanted.\<close>

lemma told_of_history:
  defines "ty \<equiv> \<lambda>_ :: u64. TypedMessage ''string''" and "p0 \<equiv> pr_start None ex_attr"
  obtains s where "pr_step ty ex_attr w_attr p0 s" "pr_disp s RTPS = di_new" "hr_async (pr_rx s 3) = [w_attr 5]"
    "hr_attr (pr_rx s 3) = ex_attr 3" "{(m, i). hr_known m (pr_rx s 3) i \<noteq> None} = {(INTRA, 5)}"
    "world_ok (conf_mode None) ex_attr w_attr"
proof -
  have w: "world_ok (conf_mode None) ex_attr w_attr"
    by (simp add: world_ok_def conf_mode_def cm_default_def modes_of_def ex_attr_def w_attr_def ra_get_id_def inj_def)
  have "\<exists>x d. hr_Enable (ty 7) (3, 3) (w_attr 5) (pr_rx p0 3, pr_disp p0) = Some (x, d)
      \<and> (\<forall>m i. hr_known m x i \<noteq> None \<longleftrightarrow> m = INTRA \<and> i = 5) \<and> d RTPS = di_new \<and> hr_async x = [w_attr 5] \<and> hr_attr x = ex_attr 3"
    by (simp add: p0_def pr_start_def hr_new_def hr_InitReceivers_def hr_InitTransmitters_def hr_ObtainConfig_def hr_InitMode_def
        hr_Enable_def hr_GetRelation_def hr_known_def ex_attr_def w_attr_def ra_get_process_id_def ra_get_id_def mt_at_def mt_of_def
        cm_default_def modes_of_def hr_ReceiveHistoryMsg_def way_def Let_def)
  then obtain x d where x: "hr_Enable (ty 7) (3, 3) (w_attr 5) (pr_rx p0 3, pr_disp p0) = Some (x, d)"
    "\<And>m i. hr_known m x i \<noteq> None \<longleftrightarrow> m = INTRA \<and> i = 5" "d RTPS = di_new" "hr_async x = [w_attr 5]" "hr_attr x = ex_attr 3" by blast
  have "pr_step ty ex_attr w_attr p0 \<lparr>pr_disp = d, pr_rx = (pr_rx p0)(3 := x)\<rparr>"
    by (rule ps_enable [where i = 5]) (use x(1) in \<open>simp add: ex_attr_def ra_get_id_def\<close>)
  then show thesis by (rule that) (use x w in auto)
qed

text \<open>The task uses a destroyed receiver. It is bound to the receiver, nothing waits for it, and a message of
  the writer's history that comes after the destructor is handed to the receiver that is gone.\<close>

theorem history_task_outlives_receiver:
  assumes "hash (dec 5 @ dec 3) \<noteq> 7"
  shows "\<exists>s T d. reach (pr_start None ex_attr, no_task) (ph_step hash (\<lambda>_. TypedMessage ''string'') ex_attr w_attr) (s, T)
    \<and> hr_destroy [(INTRA, 5)] (pr_rx s 3, pr_disp s) = Some d
    \<and> T 3 0 = TaskListening \<and> di_who (history_id hash 5 3) i (d RTPS) = [(3, 3)]"
proof -
  let ?ty = "\<lambda>_ :: u64. TypedMessage ''string''" and ?p0 = "pr_start None ex_attr" and ?c = "history_id hash 5 3"
  obtain s where s: "pr_step ?ty ex_attr w_attr ?p0 s" "pr_disp s RTPS = di_new" "hr_async (pr_rx s 3) = [w_attr 5]"
    "hr_attr (pr_rx s 3) = ex_attr 3" "{(m, i). hr_known m (pr_rx s 3) i \<noteq> None} = {(INTRA, 5)}"
    "world_ok (conf_mode None) ex_attr w_attr" by (rule told_of_history)
  let ?R = "reach (?p0, no_task) (ph_step hash ?ty ex_attr w_attr)"
  have id: "ra_get_id (w_attr 5) = 5" "ra_get_id (ex_attr 3) = 3" "ra_channel_id (ex_attr 3) = 7" by (simp_all add: w_attr_def ex_attr_def ra_get_id_def)
  have attr: "ra_channel_id (hr_ThreadFunc_attr hash (w_attr 5) (pr_rx s 3)) = ?c" "ra_get_id (hr_ThreadFunc_attr hash (w_attr 5) (pr_rx s 3)) = 3"
    using history_id_attr(1) [of hash w_attr 5 "pr_rx s 3"] history_id_attr(2) [of hash "w_attr 5" "pr_rx s 3"] s(4) id by simp_all
  let ?f = "di_AddListener StdString ?c 3 (3, 3)"
  let ?s = "s\<lparr>pr_disp := (pr_disp s)(RTPS := ?f (pr_disp s RTPS))\<rparr>"
  have "?R (s, no_task)" using reach_one ph_peer [OF s(1)] by metis
  moreover have "ph_step hash ?ty ex_attr w_attr (s, no_task) (?s, no_task(3 := (no_task 3)(0 := TaskListening)))"
    using ph_listen [where k = 0 and s = s and r = 3 and T = no_task and hash = hash and ty = ?ty and attr = ex_attr and peer = w_attr] s(3) attr id
    by (simp add: hr_ThreadFunc_begin_def rc_Enable_def rc_type_def no_task_def)
  ultimately have R: "?R (?s, no_task(3 := (no_task 3)(0 := TaskListening)))" by (rule reach_step)
  have s0: "reach ?p0 (pr_step ?ty ex_attr w_attr) s" using s(1) by (rule reach_one)
  obtain d0 where d0: "hr_destroy [(INTRA, 5)] (pr_rx s 3, pr_disp s) = Some d0"
    using hr_destroy_own [OF s(6) s0, of "[(INTRA, 5)]" 3] s(5) by auto
  have "disp_sim {?c} ((pr_disp s)(RTPS := ?f (pr_disp s RTPS))) (pr_disp s)"
    by (rule disp_sim_history [OF _ at_channel_ops(1)]) (simp_all add: disp_sim_def)
  moreover have "ra_channel_id (hr_attr (pr_rx s 3)) \<notin> {?c}" using assms s(4) id by (simp add: history_id_def)
  ultimately obtain d where d: "hr_destroy [(INTRA, 5)] (pr_rx s 3, (pr_disp s)(RTPS := ?f (pr_disp s RTPS))) = Some d"
    "same_on {?c} d ((pr_disp s)(RTPS := ?f (pr_disp s RTPS)))"
    using hr_destroy_sim [OF d0 _ _ rx_idle_reach [OF s0, of 3]] by blast
  have "di_who ?c i (d RTPS) = di_who ?c i (?f di_new)" using d(2) s(2) by (simp add: same_on_def di_who_def)
  also have "\<dots> = [(3, 3)]"
    by (simp add: di_who_def di_AddListener_def di_new_def di_with_handler_def lh_Connect_def lh_new_def sg_new_def sg_Connect_def
        lh_Run_def sg_emit_def Slot_new_def Slot_call_def Let_def)
  finally show ?thesis using R d(1) by (intro exI [of _ ?s] exI [of _ "no_task(3 := (no_task 3)(0 := TaskListening))"] exI [of _ d]) simp
qed

section \<open>The history for a late reader\<close>

text \<open>\<open>ThreadFunc\<close> of the receiver: after each second it looks whether a message arrived in it, and ends
  with the first second without one. \<open>arr\<close> are the times at which messages arrive, in microseconds after
  \<open>Enable\<close>; the result is the time of \<open>Disable\<close>.\<close>

definition arrives_in :: "nat list \<Rightarrow> nat \<Rightarrow> bool" where
  "arrives_in arr k \<longleftrightarrow> list_ex (\<lambda>t. k * 1000000 \<le> t \<and> t < Suc k * 1000000) arr"

function hr_history_end :: "nat list \<Rightarrow> nat \<Rightarrow> nat" where
  "hr_history_end arr k = (if arrives_in arr k then hr_history_end arr (Suc k) else Suc k * 1000000)"
  by auto
termination
proof (relation "measure (\<lambda>(arr, k). length (filter (\<lambda>t. k * 1000000 \<le> t) arr))")
  fix arr k assume "arrives_in arr k"
  then obtain t where t: "t \<in> set arr" "k * 1000000 \<le> t" "t < Suc k * 1000000" by (auto simp: arrives_in_def list_ex_iff)
  have "length (filter (\<lambda>t. Suc k * 1000000 \<le> t) arr) < length (filter (\<lambda>t. k * 1000000 \<le> t) arr)"
    using t(1,2,3)
  proof (induction arr)
    case (Cons a arr)
    have le: "length (filter (\<lambda>t. Suc k * 1000000 \<le> t) arr) \<le> length (filter (\<lambda>t. k * 1000000 \<le> t) arr)"
      by (induction arr) auto
    show ?case
    proof (cases "a = t")
      case True
      then show ?thesis using le Cons.prems by simp
    next
      case False
      then show ?thesis using Cons by simp
    qed
  qed simp
  then show "((arr, Suc k), (arr, k)) \<in> measure (\<lambda>(arr, k). length (filter (\<lambda>t. k * 1000000 \<le> t) arr))" by simp
qed simp

declare hr_history_end.simps [simp del]

definition hr_history_received :: "nat list \<Rightarrow> nat list" where
  "hr_history_received arr = filter (\<lambda>t. t < hr_history_end arr 0) arr"

text \<open>\<open>ThreadFunc\<close> of the transmitter sends message after message with a sleep of a millisecond; \<open>d\<close> is when
  the first arrives.\<close>

definition ht_history_times :: "nat \<Rightarrow> nat \<Rightarrow> nat list" where
  "ht_history_times d n = map (\<lambda>i. d + i * 1000) [0..<n]"

lemma hr_history_end_round: "\<exists>K. k \<le> K \<and> hr_history_end arr k = Suc K * 1000000 \<and> \<not> arrives_in arr K"
proof (induction arr k rule: hr_history_end.induct)
  case (1 arr k)
  then show ?case using Suc_leD by (cases "arrives_in arr k") (auto simp: hr_history_end.simps [of arr k])
qed

text \<open>A late reader gets the history whole or not at all. It gets all of it when the first message
  arrives within a second of its \<open>Enable\<close>, however long the history is, and nothing when it comes later.\<close>

theorem history_whole_or_nothing:
  "hr_history_received (ht_history_times d n) = (if d < 1000000 then ht_history_times d n else [])"
proof (cases "d < 1000000")
  case True
  let ?arr = "ht_history_times d n"
  obtain K where K: "hr_history_end ?arr 0 = Suc K * 1000000" "\<not> arrives_in ?arr K"
    using hr_history_end_round [of 0 ?arr] by blast
  have "d + i * 1000 < Suc K * 1000000" if "i < n" for i
    using that
  proof (induction i)
    case (Suc i)
    then have "d + i * 1000 < Suc K * 1000000" by simp
    moreover have "\<not> (K * 1000000 \<le> d + i * 1000 \<and> d + i * 1000 < Suc K * 1000000)"
      using K(2) Suc.prems by (auto simp: arrives_in_def list_ex_iff ht_history_times_def)
    ultimately have "d + i * 1000 < K * 1000000" by linarith
    then show ?case by simp
  qed (use True in simp)
  then have "\<forall>t \<in> set ?arr. t < hr_history_end ?arr 0" unfolding K(1) by (auto simp: ht_history_times_def)
  then show ?thesis using True by (simp add: hr_history_received_def filter_id_conv)
next
  case False
  have "\<not> arrives_in (ht_history_times d n) 0"
    using False by (auto simp: arrives_in_def list_ex_iff ht_history_times_def)
  then have "hr_history_end (ht_history_times d n) 0 = 1000000" by (simp add: hr_history_end.simps)
  then show ?thesis using False by (auto simp: hr_history_received_def ht_history_times_def filter_empty_conv)
qed

section \<open>Transmitters and their sequence numbers\<close>

record transmitter =
  trm_attr :: role_attributes
  trm_seq_num :: u64
  trm_msg_info :: message_info

definition trm_new :: "identity \<Rightarrow> role_attributes \<Rightarrow> transmitter" where
  "trm_new i attr = \<lparr>trm_attr = attr, trm_seq_num = 0, trm_msg_info = mi_default\<lparr>mi_sender_id := i, mi_seq_num := 0\<rparr>\<rparr>"

definition trm_NextSeqNum :: "transmitter \<Rightarrow> u64 \<times> transmitter" where
  "trm_NextSeqNum t = (trm_seq_num t + 1, t\<lparr>trm_seq_num := trm_seq_num t + 1\<rparr>)"

text \<open>\<open>Transmit(msg)\<close>; \<open>transmit\<close> is the derived class's \<open>Transmit(msg, msg_info)\<close> with the state it works on.\<close>

definition trm_Transmit :: "('m \<Rightarrow> message_info \<Rightarrow> 's \<Rightarrow> bool \<times> 's) \<Rightarrow> 'm \<Rightarrow> transmitter \<times> 's \<Rightarrow> bool \<times> transmitter \<times> 's" where
  "trm_Transmit transmit msg ts = (case ts of (t, s) \<Rightarrow>
     (let (n, t) = trm_NextSeqNum t; t = t\<lparr>trm_msg_info := (trm_msg_info t)\<lparr>mi_seq_num := n\<rparr>\<rparr>;
          (ok, s) = transmit msg (trm_msg_info t) s in (ok, t, s)))"

text \<open>\<open>IntraTransmitter\<close>: its \<open>enabled_\<close> and the process's dispatcher.\<close>

definition it_Disable :: "bool \<Rightarrow> bool" where "it_Disable enabled = (if enabled then False else enabled)"

definition it_Transmit :: "('cb \<Rightarrow> 'm payload \<times> message_info \<Rightarrow> 'w \<Rightarrow> 'w) \<Rightarrow> ('m \<Rightarrow> string) \<Rightarrow> msg_type \<Rightarrow> u64 \<Rightarrow> 'm \<Rightarrow> message_info
    \<Rightarrow> bool \<times> 'cb dispatcher \<times> 'w \<Rightarrow> bool \<times> bool \<times> 'cb dispatcher \<times> 'w" where
  "it_Transmit run ser ty channel_id msg info s = (case s of (enabled, dw) \<Rightarrow>
     if \<not> enabled then (False, s) else (True, enabled, intra_OnMessage run ser ty channel_id msg info dw))"

fun trm_Transmit_all :: "('m \<Rightarrow> message_info \<Rightarrow> 's \<Rightarrow> bool \<times> 's) \<Rightarrow> 'm list \<Rightarrow> transmitter \<times> 's \<Rightarrow> transmitter \<times> 's" where
  "trm_Transmit_all transmit [] ts = ts"
| "trm_Transmit_all transmit (m # ms) ts = trm_Transmit_all transmit ms (snd (trm_Transmit transmit m ts))"

lemma trm_Transmit_all_infos:
  "snd (trm_Transmit_all (\<lambda>m i l. (ok m, l @ [(m, i)])) ms (t, l)) =
     l @ map (\<lambda>k. (ms ! k, (trm_msg_info t)\<lparr>mi_seq_num := trm_seq_num t + 1 + of_nat k\<rparr>)) [0..<length ms]"
proof (induction ms arbitrary: t l)
  case (Cons m ms)
  have shift: "map f [0..<Suc n] = f 0 # map (\<lambda>k. f (Suc k)) [0..<n]" for f :: "nat \<Rightarrow> 'x" and n
    by (simp add: upt_conv_Cons map_Suc_upt [symmetric] del: upt_Suc)
  show ?case by (simp add: trm_Transmit_def trm_NextSeqNum_def Let_def Cons.IH shift ac_simps del: upt_Suc)
qed simp

text \<open>A transmitter numbers its messages from one, without a gap, under its own id, and whether or not
  one could be sent.\<close>

theorem messages_numbered:
  "snd (trm_Transmit_all (\<lambda>m i l. (ok m, l @ [(m, i)])) ms (trm_new ident attr, [])) =
     map (\<lambda>k. (ms ! k, mi_default\<lparr>mi_sender_id := ident, mi_seq_num := of_nat (k + 1)\<rparr>)) [0..<length ms]"
  by (simp add: trm_Transmit_all_infos) (simp add: trm_new_def)

section \<open>Transport\<close>

datatype receiver_kind = IntraReceiver | ShmReceiver | RtpsReceiver | HybridReceiver

record 'cb transport =
  tp_is_shutdown :: bool
  tp_participant :: "bool option"
  tp_notifier_on :: bool
  tp_intra :: "'cb dispatcher"
  tp_shm :: "'cb dispatcher \<times> shm_dispatcher"
  tp_rtps :: "'cb rtps_dispatcher"

text \<open>\<open>CreateParticipant\<close> gives a participant that the RTPS library has not made yet.\<close>

definition transport_new :: "shm_dispatcher \<Rightarrow> 'cb transport" where
  "transport_new sd = \<lparr>tp_is_shutdown = False, tp_participant = Some True, tp_notifier_on = True, tp_intra = di_new,
     tp_shm = (di_new, sd), tp_rtps = rd_set_participant True rd_new\<rparr>"

definition sd_Shutdown :: "'cb dispatcher \<times> shm_dispatcher \<Rightarrow> 'cb dispatcher \<times> shm_dispatcher" where
  "sd_Shutdown s = (case s of (d, sd) \<Rightarrow>
     if di_is_shutdown d then s
     else (di_Shutdown d, sd\<lparr>sd_is_shutdown := True, sd_segments := (\<lambda>_. None)\<rparr>))"

definition transport_Shutdown :: "'cb transport \<Rightarrow> 'cb transport" where
  "transport_Shutdown t =
     (if tp_is_shutdown t then t
      else t\<lparr>tp_is_shutdown := True, tp_intra := di_Shutdown (tp_intra t), tp_shm := sd_Shutdown (tp_shm t),
             tp_rtps := rd_Shutdown (tp_rtps t), tp_notifier_on := False, tp_participant := None\<rparr>)"

text \<open>\<open>CreateReceiver\<close>: the receiver's kind, its attributes and its \<open>enabled_\<close>; \<open>qos\<close> is the profile the
  attributes have, if any.\<close>

definition with_qos :: "qos_profile option \<Rightarrow> role_attributes \<Rightarrow> role_attributes" where
  "with_qos qos attr = attr\<lparr>ra_qos := (case qos of Some q \<Rightarrow> q | None \<Rightarrow> qos_profile.truncate QOS_PROFILE_DEFAULT)\<rparr>"

definition CreateReceiver :: "msg_type \<Rightarrow> bool \<Rightarrow> bool \<Rightarrow> qos_profile option \<Rightarrow> role_attributes \<Rightarrow> 'cb \<Rightarrow> optional_mode \<Rightarrow> 'cb transport
    \<Rightarrow> (receiver_kind \<times> role_attributes \<times> bool) option \<times> 'cb transport" where
  "CreateReceiver ty fill create qos attr cb mode t =
     (if tp_is_shutdown t then (None, t)
      else (let attr = with_qos qos attr in
        case mode of
          INTRA \<Rightarrow> (let (e, d) = rc_Enable ty INTRA attr cb (False, tp_intra t) in (Some (IntraReceiver, attr, e), t\<lparr>tp_intra := d\<rparr>))
        | SHM \<Rightarrow> (let (e, d) = sr_Enable attr cb (False, tp_shm t) in (Some (ShmReceiver, attr, e), t\<lparr>tp_shm := d\<rparr>))
        | RTPS \<Rightarrow> (let (e, d) = rtr_Enable fill create attr cb (False, tp_rtps t) in (Some (RtpsReceiver, attr, e), t\<lparr>tp_rtps := d\<rparr>))
        | HYBRID \<Rightarrow> (Some (HybridReceiver, attr, False), t)))"

datatype transmitter_kind = IntraTransmitter | ShmTransmitter | RtpsTransmitter | HybridTransmitter

text \<open>\<open>CreateTransmitter\<close>: \<open>on\<close> is whether \<open>Enable\<close> of the transmitter succeeds.\<close>

definition CreateTransmitter :: "(transmitter_kind \<Rightarrow> bool) \<Rightarrow> qos_profile option \<Rightarrow> role_attributes \<Rightarrow> optional_mode \<Rightarrow> 'cb transport
    \<Rightarrow> (transmitter_kind \<times> role_attributes \<times> bool) option" where
  "CreateTransmitter on qos attr mode t =
     (if tp_is_shutdown t then None
      else (let attr = with_qos qos attr;
                kind = (case mode of INTRA \<Rightarrow> IntraTransmitter | SHM \<Rightarrow> ShmTransmitter | RTPS \<Rightarrow> RtpsTransmitter | HYBRID \<Rightarrow> HybridTransmitter) in
        Some (kind, attr, mode \<noteq> HYBRID \<and> on kind)))"

text \<open>\<open>Shutdown\<close> is final. Afterwards no receiver is made, a message that still arrives on any way
  reaches nobody, adding a listener has no effect, and a second \<open>Shutdown\<close> changes nothing.\<close>

theorem transport_shutdown_final:
  assumes "\<not> tp_is_shutdown t" and "\<not> di_is_shutdown (rd_base (tp_rtps t))" and "t' = transport_Shutdown t"
  shows "CreateReceiver ty f cr q attr cb mode t' = (None, t') \<and> CreateTransmitter on q attr mode t' = None
    \<and> intra_OnMessage run ser ty c m i (tp_intra t', w) = (tp_intra t', w)
    \<and> bytes_OnMessage ReadableBlock run c b i (fst (tp_shm t'), w) = Some (fst (tp_shm t'), w)
    \<and> bytes_OnMessage StdString run c b i (rd_base (tp_rtps t'), w) = Some (rd_base (tp_rtps t'), w)
    \<and> di_AddListener ty2 c self cb (tp_intra t') = tp_intra t' \<and> rd_AddListener f cr c self cb (tp_rtps t') = (False, tp_rtps t')
    \<and> transport_Shutdown t' = t'"
proof -
  have down: "di_is_shutdown (tp_intra t')" "di_is_shutdown (fst (tp_shm t'))" "di_is_shutdown (rd_base (tp_rtps t'))" "tp_is_shutdown t'"
    using assms by (auto simp: transport_Shutdown_def sd_Shutdown_def rd_Shutdown_def di_Shutdown_def split: prod.splits)
  have "\<not> rd_participant (tp_rtps t')" using assms by (simp add: transport_Shutdown_def rd_Shutdown_def)
  then show ?thesis using down
    by (simp add: CreateReceiver_def CreateTransmitter_def intra_OnMessage_def bytes_OnMessage_def di_AddListener_def
        rd_AddListener_def rd_AddSubscriber_def di_with_handler_def transport_Shutdown_def)
qed

lemma transport_shutdown_final_witness:
  "(let t' = transport_Shutdown (transport_new (sd_new (\<lambda>_. 1) []) :: (u64 \<times> u64) transport) in
     fst (CreateReceiver (TypedMessage ''t'') True True None (ex_attr 3) (3, 3) INTRA t') = None \<and> transport_Shutdown t' = t')"
proof -
  let ?t = "transport_new (sd_new (\<lambda>_. 1) []) :: (u64 \<times> u64) transport"
  have "\<not> tp_is_shutdown ?t" "\<not> di_is_shutdown (rd_base (tp_rtps ?t))"
    by (simp_all add: transport_new_def rd_set_participant_def rd_new_def di_new_def)
  note f = transport_shutdown_final [OF this refl, where ty = "TypedMessage ''t''" and f = True and cr = True and q = None
      and attr = "ex_attr 3" and cb = "(3, 3)" and mode = INTRA]
  have "transport_Shutdown (transport_Shutdown ?t) = transport_Shutdown ?t"
    by (rule f [THEN conjunct2, THEN conjunct2, THEN conjunct2, THEN conjunct2, THEN conjunct2, THEN conjunct2, THEN conjunct2])
  then show ?thesis unfolding Let_def f [THEN conjunct1] by simp
qed

lemma history_task_outlives_receiver_witness:
  "\<exists>(s :: process) d. hr_destroy [(INTRA, 5)] (pr_rx s 3, pr_disp s) = Some d \<and> di_who (history_id (\<lambda>n. 1) 5 3) 0 (d RTPS) = [(3, 3)]"
proof -
  have "(1 :: u64) \<noteq> 7" by simp
  from history_task_outlives_receiver [where hash = "\<lambda>n. 1" and i = 0, OF this] show ?thesis by blast
qed

lemma destroyed_hybrid_receiver_not_called_witness:
  "\<exists>(s :: process) d. (3, 3) \<in> set (di_who 7 5 (pr_disp s INTRA)) \<and> hr_destroy [(INTRA, 5)] (pr_rx s 3, pr_disp s) = Some d
    \<and> (3, 3) \<notin> set (di_who 7 5 (d INTRA))"
proof -
  let ?ty = "\<lambda>_ :: u64. TypedMessage ''string''" and ?p0 = "pr_start None ex_attr"
  obtain s where s: "pr_step ?ty ex_attr w_attr ?p0 s" "hr_async (pr_rx s 3) = [w_attr 5]"
    "{(m, i). hr_known m (pr_rx s 3) i \<noteq> None} = {(INTRA, 5)}" "world_ok (conf_mode None) ex_attr w_attr"
    by (rule told_of_history)
  have "reach (?p0, no_task) (ph_step (\<lambda>n. 1) ?ty ex_attr w_attr) (s, no_task)" using reach_one ph_peer [OF s(1)] by metis
  moreover have "ra_channel_id (ex_attr q) \<noteq> history_id (\<lambda>n. 1) i (ra_get_id (ex_attr r))" for q r i by (simp add: ex_attr_def history_id_def)
  moreover have "set [(INTRA, 5 :: u64)] = {(m, i). hr_known m (pr_rx s 3) i \<noteq> None}" using s(3) by simp
  ultimately obtain d where d: "hr_destroy [(INTRA, 5)] (pr_rx s 3, pr_disp s) = Some d"
    "\<And>m c p e. e \<in> set (di_who c p (d m)) \<longleftrightarrow> e \<in> set (di_who c p (pr_disp s m)) \<and> (snd e = 3 \<longrightarrow> m = RTPS \<and> task_on (\<lambda>n. 1) w_attr (pr_rx s 3) (no_task 3) c)"
    using destroyed_hybrid_receiver_not_called [OF s(4)] by blast
  have "hr_known INTRA (pr_rx s 3) 5 \<noteq> None" using s(3) by blast
  then have "(3, 3) \<in> set (di_who 7 5 (pr_disp s INTRA))"
    using pr_reach_inv [OF reach_one [where step = "pr_step ?ty ex_attr w_attr", OF s(1)] s(4)] by (auto simp: pr_inv_def dt.listens_def ex_attr_def ra_get_id_def)
  moreover have "(3, 3) \<notin> set (di_who 7 5 (d INTRA))" using d(2) by simp
  ultimately show ?thesis using d(1) by blast
qed

end
