(* ===== verification/Processor_Threads.thy ===== *)
theory Processor_Threads
  imports Process_Setup Scheduler_Classic Data_Flow
begin

text \<open>
  The threads of the schedulers: the life of a processor, its affinity and its priority
  (scheduler/processor.h, processor.cc), the threads of the framework and of the process
  (scheduler/scheduler.cc), the tasks made from a routine factory, and the end of the scheduler
  (scheduler/scheduler_factory.cc). What the system is asked for is the result; \<open>None\<close> is undefined
  behaviour or a wait that never ends.
\<close>

section \<open>Affinity and priority\<close>

text \<open>\<open>CPU_SET\<close> ignores a number that is not below \<open>CPU_SETSIZE\<close>.\<close>

definition cpu_set :: "int list \<Rightarrow> int set" where
  "cpu_set cpus = {c \<in> set cpus. 0 \<le> c \<and> c < 1024}"

text \<open>The processors the thread is bound to, \<open>Some None\<close> when it is left as it is. \<open>cpus[p]\<close> is not checked.\<close>

definition SetSchedAffinity :: "int list \<Rightarrow> string \<Rightarrow> nat \<Rightarrow> int set option option" where
  "SetSchedAffinity cpus affinity p =
     (if cpus = [] then Some None
      else if affinity = ''range'' then Some (Some (cpu_set cpus))
      else if affinity = ''1to1'' then (if p < length cpus then Some (Some (cpu_set [cpus ! p])) else None)
      else Some None)"

datatype sched_call = SetFifo int | SetRr int | SetNice int

text \<open>\<open>tid\<close> is the number of the thread, when the thread has stored it or will do so; the loop that waits for
  it does not end without one.\<close>

definition SetSchedPolicy :: "string \<Rightarrow> int \<Rightarrow> int option \<Rightarrow> sched_call option option" where
  "SetSchedPolicy spolicy prio tid =
     (if spolicy = ''SCHED_FIFO'' then Some (Some (SetFifo prio))
      else if spolicy = ''SCHED_RR'' then Some (Some (SetRr prio))
      else if spolicy = ''SCHED_OTHER'' then map_option (\<lambda>_. Some (SetNice prio)) tid
      else Some None)"

definition ProcessLevelResourceControl :: "string \<Rightarrow> int set option" where
  "ProcessLevelResourceControl cpuset = map_option cpu_set (ParseCpuset cpuset [])"

record inner_thread =
  in_cpuset :: string
  in_policy :: string
  in_prio :: int

text \<open>\<open>SetInnerThreadAttr\<close>: the affinity and the policy it asks for; \<open>Some None\<close> when it does nothing.\<close>

definition SetInnerThreadAttr :: "(string \<Rightarrow> inner_thread option) \<Rightarrow> string \<Rightarrow> bool \<Rightarrow> (int set \<times> sched_call option) option option" where
  "SetInnerThreadAttr confs name has_thread =
     (if \<not> has_thread \<or> confs name = None then Some None
      else (let c = the (confs name) in
        map_option (\<lambda>cpus. Some (cpu_set cpus,
          if in_policy c = ''SCHED_FIFO'' then Some (SetFifo (in_prio c))
          else if in_policy c = ''SCHED_RR'' then Some (SetRr (in_prio c)) else None)) (ParseCpuset (in_cpuset c) [])))"

text \<open>What the loops of the two \<open>CreateProcessor\<close> do for the processors of a group: the answers for processor
  0, 1 and so on.\<close>

fun processor_affinities :: "int list \<Rightarrow> string \<Rightarrow> nat list \<Rightarrow> int set option list option" where
  "processor_affinities cpus affinity [] = Some []"
| "processor_affinities cpus affinity (i # is) = do {
     a \<leftarrow> SetSchedAffinity cpus affinity i;
     as \<leftarrow> processor_affinities cpus affinity is;
     Some (a # as) }"

lemma processor_affinities_defined:
  "processor_affinities cpus affinity is \<noteq> None \<longleftrightarrow>
     cpus = [] \<or> affinity \<noteq> ''1to1'' \<or> list_all (\<lambda>i. i < length cpus) is"
proof (induction "is")
  case (Cons i "is")
  have "SetSchedAffinity cpus affinity i \<noteq> None \<longleftrightarrow> cpus = [] \<or> affinity \<noteq> ''1to1'' \<or> i < length cpus"
    by (simp add: SetSchedAffinity_def)
  then show ?case using Cons
    by (cases "SetSchedAffinity cpus affinity i"; cases "processor_affinities cpus affinity is") auto
qed simp

text \<open>A group with the affinity 1to1 has to name a processor for each of its threads. With fewer, and at
  least one, an index behind the list is read; with none, or with another affinity, the configuration is
  safe whatever the number of threads.\<close>

theorem one_to_one_needs_enough_cpus:
  "processor_affinities cpus affinity [0..<n] = None \<longleftrightarrow> affinity = ''1to1'' \<and> cpus \<noteq> [] \<and> length cpus < n"
proof -
  have "list_all (\<lambda>i. i < length cpus) [0..<n] \<longleftrightarrow> n \<le> length cpus"
  proof
    assume *: "list_all (\<lambda>i. i < length cpus) [0..<n]"
    show "n \<le> length cpus"
    proof (rule ccontr)
      assume "\<not> ?thesis"
      then have "length cpus \<in> set [0..<n]" by simp
      with * show False by (auto simp: list_all_iff)
    qed
  qed (auto simp: list_all_iff)
  then show ?thesis using processor_affinities_defined [of cpus affinity "[0..<n]"] by auto
qed

section \<open>The life of a processor\<close>

text \<open>\<open>pt_thread\<close>: no thread, one that can be joined, or one that was. \<open>pt_bound\<close> is the once flag.\<close>

datatype thread_state = NoThread | Joinable | Joined

record processor =
  pt_running :: bool
  pt_bound :: bool
  pt_context :: bool
  pt_shut :: nat
  pt_thread :: thread_state

definition pt_new :: processor where
  "pt_new = \<lparr>pt_running = True, pt_bound = False, pt_context = False, pt_shut = 0, pt_thread = NoThread\<rparr>"

text \<open>\<open>BindContext\<close>, with a context that is not null.\<close>

definition pt_BindContext :: "processor \<Rightarrow> processor" where
  "pt_BindContext p = (if pt_bound p then p else p\<lparr>pt_bound := True, pt_context := True, pt_thread := Joinable\<rparr>)"

definition pt_Stop :: "processor \<Rightarrow> processor" where
  "pt_Stop p =
     (if \<not> pt_running p then p
      else (let p = p\<lparr>pt_running := False\<rparr>; p = (if pt_context p then p\<lparr>pt_shut := pt_shut p + 1\<rparr> else p) in
        if pt_thread p = Joinable then p\<lparr>pt_thread := Joined\<rparr> else p))"

text \<open>The destructor: \<open>Stop\<close>, then that of the thread, which ends the program (\<open>None\<close>) when it can still be
  joined.\<close>

definition pt_destroy :: "processor \<Rightarrow> processor option" where
  "pt_destroy p = (let p = pt_Stop p in if pt_thread p = Joinable then None else Some p)"

datatype pt_op = PtBind | PtStop

fun pt_do :: "pt_op \<Rightarrow> processor \<Rightarrow> processor" where
  "pt_do PtBind p = pt_BindContext p"
| "pt_do PtStop p = pt_Stop p"

text \<open>A first context that comes when the processor was stopped.\<close>

fun late_bind :: "pt_op list \<Rightarrow> bool" where
  "late_bind [] = False"
| "late_bind (PtStop # ops) = list_ex (\<lambda>x. x = PtBind) ops"
| "late_bind (PtBind # ops) = False"

lemma pt_bound_stays: "pt_bound p \<Longrightarrow> pt_thread (fold pt_do ops p) = (if pt_thread p = Joinable \<and> pt_running p \<and> list_ex (\<lambda>x. x = PtStop) ops then Joined else pt_thread p)
    \<and> pt_running (fold pt_do ops p) = (pt_running p \<and> \<not> list_ex (\<lambda>x. x = PtStop) ops)
    \<and> pt_shut (fold pt_do ops p) = pt_shut p + (if pt_running p \<and> pt_context p \<and> list_ex (\<lambda>x. x = PtStop) ops then 1 else 0)
    \<and> pt_context (fold pt_do ops p) = pt_context p"
proof (induction ops arbitrary: p)
  case (Cons op ops)
  show ?case
  proof (cases op)
    case PtBind
    then show ?thesis using Cons by (simp add: pt_BindContext_def)
  next
    case PtStop
    have "pt_bound (pt_Stop p)" using Cons.prems by (simp add: pt_Stop_def Let_def)
    from Cons.IH [OF this] show ?thesis by (auto simp: PtStop pt_Stop_def Let_def)
  qed
qed simp

lemma pt_stopped: "\<not> pt_running p \<Longrightarrow> \<not> pt_bound p \<Longrightarrow> pt_thread p = NoThread \<Longrightarrow>
    pt_thread (fold pt_do ops p) = (if list_ex (\<lambda>x. x = PtBind) ops then Joinable else NoThread) \<and> \<not> pt_running (fold pt_do ops p)"
proof (induction ops arbitrary: p)
  case (Cons op ops)
  show ?case
  proof (cases op)
    case PtBind
    have "pt_bound (pt_BindContext p)" "pt_thread (pt_BindContext p) = Joinable" "\<not> pt_running (pt_BindContext p)"
      using Cons.prems by (simp_all add: pt_BindContext_def)
    then show ?thesis using pt_bound_stays [of "pt_BindContext p" ops] by (simp add: PtBind)
  next
    case PtStop
    then show ?thesis using Cons by (simp add: pt_Stop_def)
  qed
qed simp

text \<open>A processor goes quietly unless it was given its context too late. However often \<open>BindContext\<close> and
  \<open>Stop\<close> are called, the destructor leaves no thread behind and has shut the context down exactly when there
  was one, once; only when the first context came after a \<open>Stop\<close> does it end the program.\<close>

theorem processor_destroyed:
  "pt_destroy (fold pt_do ops pt_new) =
     (if late_bind ops then None
      else Some \<lparr>pt_running = False, pt_bound = list_ex (\<lambda>x. x = PtBind) ops, pt_context = list_ex (\<lambda>x. x = PtBind) ops,
        pt_shut = (if list_ex (\<lambda>x. x = PtBind) ops then 1 else 0),
        pt_thread = (if list_ex (\<lambda>x. x = PtBind) ops then Joined else NoThread)\<rparr>)"
proof (cases ops)
  case Nil
  then show ?thesis by (simp add: pt_destroy_def pt_new_def pt_Stop_def)
next
  case (Cons op rest)
  have bound: "pt_bound (fold pt_do rest p)" if "pt_bound p" for p
    using that
  proof (induction rest arbitrary: p)
    case (Cons x rest)
    then show ?case by (cases x) (simp_all add: pt_BindContext_def pt_Stop_def Let_def)
  qed simp
  show ?thesis
  proof (cases op)
    case PtBind
    let ?p = "pt_BindContext pt_new"
    have p: "pt_bound ?p" "pt_thread ?p = Joinable" "pt_running ?p" "pt_shut ?p = 0" "pt_context ?p"
      by (simp_all add: pt_BindContext_def pt_new_def)
    show ?thesis using pt_bound_stays [OF p(1), of rest] bound [OF p(1)] p
      by (auto simp: Cons PtBind pt_destroy_def pt_Stop_def Let_def intro: processor.equality)
  next
    case PtStop
    let ?p = "pt_Stop pt_new"
    have p: "\<not> pt_running ?p" "\<not> pt_bound ?p" "pt_thread ?p = NoThread"
      by (simp_all add: pt_Stop_def pt_new_def)
    have stays: "fold pt_do rest ?p = ?p" if "\<not> list_ex (\<lambda>x. x = PtBind) rest"
      using that
    proof (induction rest)
      case (Cons x rest)
      then show ?case by (cases x) (simp_all add: pt_Stop_def pt_new_def)
    qed simp
    show ?thesis using pt_stopped [OF p, of rest] stays
      by (auto simp: Cons PtStop pt_destroy_def pt_Stop_def pt_new_def Let_def)
  qed
qed

section \<open>Tasks from a factory\<close>

text \<open>\<open>CreateTask\<close> of a factory: \<open>visitor\<close> is the number of its visitor's notifier, which gets its callback when
  the task could be dispatched.\<close>

definition cs_CreateTask_factory :: "(string \<Rightarrow> u64) \<Rightarrow> nat \<Rightarrow> nat \<Rightarrow> string \<Rightarrow> nat option \<Rightarrow> (u64 \<Rightarrow> string option) \<times> sched_classic \<Rightarrow> 'm data_world
    \<Rightarrow> (bool \<times> ((u64 \<Rightarrow> string option) \<times> sched_classic) \<times> 'm data_world) option" where
  "cs_CreateTask_factory hash now a name visitor ms w = do {
     (ok, ms) \<leftarrow> cs_CreateTask hash now a name ms;
     Some (ok, ms, if ok then (case visitor of None \<Rightarrow> w | Some n \<Rightarrow> dv_RegisterNotifyCallback n w) else w) }"

section \<open>The end of the scheduler\<close>

text \<open>The pointer of the process: never made, made, or deleted and still kept.\<close>

datatype scheduler_instance = NotMade | Made | Dangling

definition sf_Instance :: "scheduler_instance \<Rightarrow> scheduler_instance" where
  "sf_Instance s = (if s = NotMade then Made else s)"

text \<open>\<open>CleanUp\<close>; \<open>None\<close> is a call through a pointer to what was deleted.\<close>

definition sf_CleanUp :: "scheduler_instance \<Rightarrow> scheduler_instance option" where
  "sf_CleanUp s = (case s of NotMade \<Rightarrow> Some NotMade | Made \<Rightarrow> Some Dangling | Dangling \<Rightarrow> None)"

text \<open>The scheduler can be cleaned up once. The pointer is kept after the delete: \<open>Instance\<close> goes on giving
  it out, and a second \<open>CleanUp\<close> is undefined.\<close>

theorem second_scheduler_cleanup_undefined:
  "sf_CleanUp (sf_Instance NotMade) = Some Dangling \<and> sf_Instance Dangling = Dangling \<and> sf_CleanUp (sf_Instance Dangling) = None"
  by (simp add: sf_CleanUp_def sf_Instance_def)

end
