(* ===== verification/Rtps_Participant.thy ===== *)
theory Rtps_Participant
  imports Process_Setup
begin

text \<open>
  The process's participant of RTPS (transport/rtps/participant.h, participant.cc): it is made by the RTPS
  library on first use, with what the environment and the configuration say. The library is a parameter:
  whether an address is one, and whether it makes the participant.
\<close>

section \<open>The attributes\<close>

record participant_conf =
  pc_lease_duration :: i32
  pc_announcement_period :: i32
  pc_domain_id_gain :: u32
  pc_port_base :: u32

definition participant_conf_default :: participant_conf where
  "participant_conf_default = \<lparr>pc_lease_duration = 12, pc_announcement_period = 3, pc_domain_id_gain = 200, pc_port_base = 10000\<rparr>"

record participant_attr =
  pa_defaultSendPort :: int
  pa_domainIDGain :: "16 word"
  pa_portBase :: "16 word"
  pa_domainId :: u32
  pa_lease :: i32
  pa_announcement :: i32
  pa_name :: string
  pa_unicast :: "string list"
  pa_out :: "string list"
  pa_metatraffic_unicast :: "string list"
  pa_metatraffic_multicast :: "string list"

definition CYBER_DOMAIN_DEFAULT :: u32 where "CYBER_DOMAIN_DEFAULT = 80"

text \<open>The attributes the code computes; the switches it sets to constants are left out. There are none if
  \<open>CYBER_DOMAIN_ID\<close> is no number or \<open>CYBER_IP\<close> is empty or no address.\<close>

definition participant_attributes :: "(string \<Rightarrow> bool) \<Rightarrow> string option \<Rightarrow> string option \<Rightarrow> participant_conf option \<Rightarrow> string \<Rightarrow> int
    \<Rightarrow> participant_attr option" where
  "participant_attributes is_ip CYBER_DOMAIN_ID CYBER_IP conf name send_port = do {
     domain_id \<leftarrow> (case CYBER_DOMAIN_ID of None \<Rightarrow> Some CYBER_DOMAIN_DEFAULT | Some val \<Rightarrow> map_option word_of_int (stoi val));
     let c = (case conf of None \<Rightarrow> participant_conf_default | Some c \<Rightarrow> c);
     ip \<leftarrow> (case CYBER_IP of None \<Rightarrow> Some ''127.0.0.1'' | Some ip \<Rightarrow> if ip = [] then None else Some ip);
     if \<not> is_ip ip then None
     else Some \<lparr>pa_defaultSendPort = send_port, pa_domainIDGain = ucast (pc_domain_id_gain c), pa_portBase = ucast (pc_port_base c),
       pa_domainId = domain_id, pa_lease = pc_lease_duration c, pa_announcement = pc_announcement_period c, pa_name = name,
       pa_unicast = [ip], pa_out = [ip], pa_metatraffic_unicast = [ip], pa_metatraffic_multicast = [''239.255.0.1'']\<rparr> }"

section \<open>Making it and shutting it down\<close>

text \<open>\<open>pp_created\<close> and \<open>pp_removed\<close> count the library's participants.\<close>

record participant =
  pp_shutdown :: bool
  pp_made :: bool
  pp_created :: nat
  pp_removed :: nat

definition pp_new :: participant where
  "pp_new = \<lparr>pp_shutdown = False, pp_made = False, pp_created = 0, pp_removed = 0\<rparr>"

definition CreateFastRtpsParticipant :: "(participant_attr \<Rightarrow> bool) \<Rightarrow> participant_attr option \<Rightarrow> participant \<Rightarrow> participant" where
  "CreateFastRtpsParticipant create attr p =
     (case attr of None \<Rightarrow> p
      | Some a \<Rightarrow> if create a then p\<lparr>pp_made := True, pp_created := pp_created p + 1\<rparr> else p\<lparr>pp_made := False\<rparr>)"

text \<open>\<open>fastrtps_participant\<close> behind its look at \<open>shutdown_\<close>, under the lock; the result is whether it gives one.\<close>

definition pp_get_locked :: "(participant_attr \<Rightarrow> bool) \<Rightarrow> participant_attr option \<Rightarrow> participant \<Rightarrow> bool \<times> participant" where
  "pp_get_locked create attr p =
     (if pp_made p then (True, p) else (let p = CreateFastRtpsParticipant create attr p in (pp_made p, p)))"

definition pp_get :: "(participant_attr \<Rightarrow> bool) \<Rightarrow> participant_attr option \<Rightarrow> participant \<Rightarrow> bool \<times> participant" where
  "pp_get create attr p = (if pp_shutdown p then (False, p) else pp_get_locked create attr p)"

definition pp_Shutdown :: "participant \<Rightarrow> participant" where
  "pp_Shutdown p =
     (if pp_shutdown p then p
      else (let p = p\<lparr>pp_shutdown := True\<rparr> in
        if pp_made p then p\<lparr>pp_made := False, pp_removed := pp_removed p + 1\<rparr> else p))"

datatype pp_op = PpGet "participant_attr \<Rightarrow> bool" "participant_attr option" | PpShutdown

fun pp_do :: "pp_op \<Rightarrow> participant \<Rightarrow> participant" where
  "pp_do (PpGet create attr) p = snd (pp_get create attr p)"
| "pp_do PpShutdown p = pp_Shutdown p"

definition pp_inv :: "participant \<Rightarrow> bool" where
  "pp_inv p \<longleftrightarrow> pp_created p = pp_removed p + (if pp_made p then 1 else 0) \<and> pp_created p \<le> 1
     \<and> (pp_made p \<longrightarrow> \<not> pp_shutdown p) \<and> (\<not> pp_shutdown p \<longrightarrow> pp_removed p = 0)"

lemma pp_do_inv: "pp_inv p \<Longrightarrow> pp_inv (pp_do op p)"
  by (cases op) (auto simp: pp_inv_def pp_get_def pp_get_locked_def CreateFastRtpsParticipant_def pp_Shutdown_def Let_def
      split: option.splits)

text \<open>The library makes at most one participant for a process and it is removed by \<open>Shutdown\<close>: whatever
  the calls, one after another, a participant is given out only while there is one, at most one was ever
  made, and after \<open>Shutdown\<close> as many were removed as were made.\<close>

theorem participant_made_once:
  "case fold pp_do ops pp_new of p \<Rightarrow> pp_created p \<le> 1 \<and> (if pp_shutdown p then \<not> pp_made p \<and> pp_removed p = pp_created p
     else pp_removed p = 0) \<and> fst (pp_get create attr p) = pp_made (snd (pp_get create attr p))"
proof -
  have gen: "pp_inv p \<Longrightarrow> pp_inv (fold pp_do ops p)" for p
    by (induction ops arbitrary: p) (simp_all add: pp_do_inv)
  have "pp_inv pp_new" by (simp add: pp_inv_def pp_new_def)
  then have "pp_inv (fold pp_do ops pp_new)" by (rule gen)
  then show ?thesis
    by (auto simp: pp_inv_def pp_get_def pp_get_locked_def CreateFastRtpsParticipant_def Let_def split: option.split)
qed

text \<open>\<open>Shutdown\<close> can be overtaken. The look at \<open>shutdown_\<close> is not under the lock: a thread that looked before
  \<open>Shutdown\<close> and goes on behind it makes a participant nobody removes, not even a second \<open>Shutdown\<close>.\<close>

theorem participant_leaked_by_late_get:
  assumes "create a"
  shows "case pp_get_locked create (Some a) (pp_Shutdown pp_new) of (got, p) \<Rightarrow>
     got \<and> pp_shutdown p \<and> pp_created p = 1 \<and> pp_Shutdown p = p \<and> pp_removed p = 0"
  using assms by (simp add: pp_get_locked_def CreateFastRtpsParticipant_def pp_Shutdown_def pp_new_def Let_def)

definition ex_part_attr :: participant_attr where
  "ex_part_attr = the (participant_attributes (\<lambda>_. True) (Some ''81'') None None ''host+7'' 11512)"

lemma participant_leaked_by_late_get_witness:
  "case pp_get_locked (\<lambda>a. pa_defaultSendPort a = pa_defaultSendPort ex_part_attr) (Some ex_part_attr) (pp_Shutdown pp_new) of (got, p) \<Rightarrow>
     got \<and> pp_created p = 1 \<and> pp_removed p = 0"
  using participant_leaked_by_late_get [of "\<lambda>a. pa_defaultSendPort a = pa_defaultSendPort ex_part_attr" ex_part_attr]
  by (auto split: prod.splits)

end
