(* ===== verification/Perf_Events.thy ===== *)
theory Perf_Events
  imports Process_Setup
begin

text \<open>
  Performance events (event/perf_event.h, perf_event_cache.h, perf_event_cache.cc): events go through a
  bounded queue to a thread that writes them to a file. The queue is its abstract value, a list with a
  capacity; the clock is an argument.
\<close>

section \<open>Events\<close>

datatype event_type = SCHED_EVENT | TRANS_EVENT | TRY_FETCH_EVENT

fun event_type_number :: "event_type \<Rightarrow> int" where
  "event_type_number SCHED_EVENT = 0"
| "event_type_number TRANS_EVENT = 1"
| "event_type_number TRY_FETCH_EVENT = 3"

datatype perf_event =
    SchedEvent (ev_eid: int) (ev_stamp: u64) (ev_cr_id: u64) (ev_proc_id: int) (ev_cr_state: int)
  | TransportEvent (ev_eid: int) (ev_stamp: u64) (ev_channel_id: u64) (ev_msg_seq: u64)

definition show_int :: "int \<Rightarrow> string" where
  "show_int i = (if i < 0 then CHR ''-'' # dec (nat (- i)) else dec (nat i))"

definition TAB :: string where "TAB = [CHR 0x09]"

text \<open>\<open>SerializeToString\<close>, with the names the process knows.\<close>

fun ev_SerializeToString :: "(u64 \<Rightarrow> string) \<Rightarrow> (u64 \<Rightarrow> string) \<Rightarrow> perf_event \<Rightarrow> string" where
  "ev_SerializeToString task_name channel_name (SchedEvent eid stamp cr proc st) =
     show_int (event_type_number SCHED_EVENT) @ TAB @ show_int eid @ TAB @ task_name cr @ TAB @ show_int proc @ TAB
       @ show_int st @ TAB @ dec (unat stamp)"
| "ev_SerializeToString task_name channel_name (TransportEvent eid stamp channel_id msg_seq) =
     show_int (event_type_number TRANS_EVENT) @ TAB @ show_int eid @ TAB @ channel_name channel_id @ TAB @ dec (unat msg_seq) @ TAB
       @ dec (unat stamp)"

section \<open>The cache\<close>

definition kFlushSize :: nat where "kFlushSize = 512"
definition kEventQueueSize :: nat where "kEventQueueSize = 8192"

datatype pf_pc = PfTop | PfWait | PfTry | PfEnd

record perf_cache =
  pf_enable_trans :: bool
  pf_enable_sched :: bool
  pf_shutdown :: bool
  pf_broken :: bool
  pf_queue :: "perf_event list"
  pf_pc :: "pf_pc option"
  pf_lines :: "string list"
  pf_buf_size :: nat
  pf_open :: bool

text \<open>What a variable of the environment switches on; \<open>None\<close> is the exception of a value that is no number.\<close>

definition perf_switch :: "string option \<Rightarrow> bool option" where
  "perf_switch var = (if GetEnv var = [] then Some False else map_option (\<lambda>i. i \<noteq> 0) (stoi (GetEnv var)))"

text \<open>\<open>Start\<close>, with a file that can be opened, and the constructor: without a switch there is neither a thread
  nor a file.\<close>

definition Start :: "u64 \<Rightarrow> perf_cache \<Rightarrow> perf_cache" where
  "Start now p = p\<lparr>pf_open := True, pf_lines := [dec (unat now)], pf_pc := Some PfTop\<rparr>"

definition pf_new :: "string option \<Rightarrow> string option \<Rightarrow> u64 \<Rightarrow> perf_cache option" where
  "pf_new trans_perf sched_perf now = do {
     t \<leftarrow> perf_switch trans_perf;
     s \<leftarrow> perf_switch sched_perf;
     let p = \<lparr>pf_enable_trans = t, pf_enable_sched = s, pf_shutdown = False, pf_broken = False, pf_queue = [],
       pf_pc = None, pf_lines = [], pf_buf_size = 0, pf_open = False\<rparr>;
     Some (if s \<or> t then Start now p else p) }"

text \<open>An event that finds the queue full is dropped; \<open>Enqueue\<close>'s answer is ignored.\<close>

definition pf_put :: "perf_event \<Rightarrow> perf_cache \<Rightarrow> perf_cache" where
  "pf_put e p = (if length (pf_queue p) < kEventQueueSize then p\<lparr>pf_queue := pf_queue p @ [e]\<rparr> else p)"

definition AddSchedEvent :: "int \<Rightarrow> u64 \<Rightarrow> int \<Rightarrow> int \<Rightarrow> u64 \<Rightarrow> perf_cache \<Rightarrow> perf_cache" where
  "AddSchedEvent event_id cr proc st now p =
     (if \<not> pf_enable_sched p then p else pf_put (SchedEvent event_id now cr proc st) p)"

definition AddTransportEvent :: "int \<Rightarrow> u64 \<Rightarrow> u64 \<Rightarrow> u64 \<Rightarrow> perf_cache \<Rightarrow> perf_cache" where
  "AddTransportEvent event_id channel_id msg_seq now p =
     (if \<not> pf_enable_trans p then p else pf_put (TransportEvent event_id now channel_id msg_seq) p)"

text \<open>The thread. \<open>WaitDequeue\<close> of a queue with the sleeping strategy looks whether the waits are broken,
  tries to take an event and sleeps if there is none. \<open>down\<close> is \<open>IsShutdown()\<close> of the process.\<close>

inductive pf_tstep :: "(perf_event \<Rightarrow> string) \<Rightarrow> perf_cache \<Rightarrow> perf_cache \<Rightarrow> bool" for show_event where
  pf_look: "pf_pc p = Some PfTop \<Longrightarrow> \<not> pf_shutdown p \<Longrightarrow> \<not> down \<Longrightarrow> pf_tstep show_event p (p\<lparr>pf_pc := Some PfWait\<rparr>)"
| pf_leave: "pf_pc p = Some PfTop \<Longrightarrow> pf_shutdown p \<or> down \<Longrightarrow> pf_tstep show_event p (p\<lparr>pf_pc := Some PfEnd\<rparr>)"
| pf_none: "pf_pc p = Some PfWait \<Longrightarrow> pf_broken p \<Longrightarrow> pf_tstep show_event p (p\<lparr>pf_pc := Some PfTop\<rparr>)"
| pf_try: "pf_pc p = Some PfWait \<Longrightarrow> \<not> pf_broken p \<Longrightarrow> pf_tstep show_event p (p\<lparr>pf_pc := Some PfTry\<rparr>)"
| pf_sleep: "pf_pc p = Some PfTry \<Longrightarrow> pf_queue p = [] \<Longrightarrow> pf_tstep show_event p (p\<lparr>pf_pc := Some PfWait\<rparr>)"
| pf_take: "pf_pc p = Some PfTry \<Longrightarrow> pf_queue p = e # q \<Longrightarrow>
    pf_tstep show_event p (p\<lparr>pf_queue := q, pf_lines := pf_lines p @ [show_event e],
      pf_buf_size := (if pf_buf_size p + 1 \<ge> kFlushSize then 0 else pf_buf_size p + 1), pf_pc := Some PfTop\<rparr>)"

text \<open>\<open>Shutdown\<close> and the destructor, up to their wait for the thread, and what the destructor does then.\<close>

definition pf_Shutdown :: "perf_cache \<Rightarrow> perf_cache" where
  "pf_Shutdown p = (if pf_shutdown p then p else p\<lparr>pf_shutdown := True\<rparr>)"

definition pf_destroy :: "perf_cache \<Rightarrow> perf_cache" where
  "pf_destroy p =
     (if \<not> pf_enable_sched p \<and> \<not> pf_enable_trans p then p
      else if pf_shutdown p then p else p\<lparr>pf_shutdown := True, pf_broken := True\<rparr>)"

definition pf_close :: "u64 \<Rightarrow> perf_cache \<Rightarrow> perf_cache" where
  "pf_close now p = p\<lparr>pf_lines := pf_lines p @ [dec (unat now)], pf_open := False\<rparr>"

text \<open>The threads of the process that add events, and the thread; \<open>snd\<close> are the events that were taken into
  the queue.\<close>

inductive pf_step :: "(perf_event \<Rightarrow> string) \<Rightarrow> perf_cache \<times> perf_event list \<Rightarrow> perf_cache \<times> perf_event list \<Rightarrow> bool" for show_event where
  pf_thread: "pf_tstep show_event p p' \<Longrightarrow> pf_step show_event (p, l) (p', l)"
| pf_sched: "pf_step show_event (p, l)
    (AddSchedEvent i c r s now p, if pf_enable_sched p \<and> length (pf_queue p) < kEventQueueSize then l @ [SchedEvent i now c r s] else l)"
| pf_trans: "pf_step show_event (p, l)
    (AddTransportEvent i c m now p, if pf_enable_trans p \<and> length (pf_queue p) < kEventQueueSize then l @ [TransportEvent i now c m] else l)"
| pf_down: "pf_step show_event (p, l) (pf_Shutdown p, l)"
| pf_gone: "pf_step show_event (p, l) (pf_destroy p, l)"

text \<open>The file holds the events that were taken, in their order, each once: behind the line with the start
  it is at any time what was taken but for what still waits in the queue, which is never longer than its
  capacity.\<close>

theorem perf_events_written_in_order:
  assumes "pf_new t s now = Some p0" and "pf_open p0" and "reach (p0, []) (pf_step show_event) (p, l)"
  shows "pf_lines p @ map show_event (pf_queue p) = dec (unat now) # map show_event l \<and> length (pf_queue p) \<le> kEventQueueSize
    \<and> pf_buf_size p < kFlushSize"
proof -
  have "pf_lines p0 = [dec (unat now)]" "pf_queue p0 = []" "pf_buf_size p0 = 0"
    using assms(1,2) by (auto simp: pf_new_def Start_def Let_def split: bind_splits if_splits)
  moreover have "pf_lines (fst pl) @ map show_event (pf_queue (fst pl)) = pf_lines p0 @ map show_event (pf_queue p0) @ map show_event (snd pl)
      \<and> length (pf_queue (fst pl)) \<le> kEventQueueSize \<and> pf_buf_size (fst pl) < kFlushSize"
    if "reach (p0, []) (pf_step show_event) pl" for pl
    using that
  proof (induction rule: reach.induct)
    case reach_init
    then show ?case using calculation by (simp add: kFlushSize_def)
  next
    case (reach_step a b)
    from reach_step(2) show ?case
    proof cases
      case (pf_thread p p' l)
      from pf_thread(3) show ?thesis using reach_step(3) unfolding pf_thread(1,2)
        by cases (auto simp: kFlushSize_def)
    qed (use reach_step(3) in \<open>auto simp: AddSchedEvent_def AddTransportEvent_def pf_put_def pf_Shutdown_def pf_destroy_def\<close>)
  qed
  ultimately show ?thesis using assms(3) by force
qed

text \<open>\<open>Shutdown\<close> waits for ever for a thread that waits for an event: it does not break the wait, and
  while no event is added the thread looks, tries and sleeps and never ends. The destructor's \<open>BreakAllWait\<close>
  lets it end.\<close>

theorem perf_shutdown_hangs:
  assumes "pf_pc p = Some PfWait" and "pf_queue p = []" and "\<not> pf_broken p" and "\<not> pf_shutdown p" and "pf_enable_sched p"
  shows "(\<forall>p'. reach (pf_Shutdown p) (pf_tstep show_event) p' \<longrightarrow>
      pf_pc p' \<noteq> Some PfEnd \<and> pf_lines p' = pf_lines p \<and> (\<exists>q. pf_tstep show_event p' q))
    \<and> (\<exists>p1 p2. pf_tstep show_event (pf_destroy p) p1 \<and> pf_tstep show_event p1 p2 \<and> pf_pc p2 = Some PfEnd)"
proof (intro conjI allI impI)
  fix p' assume r: "reach (pf_Shutdown p) (pf_tstep show_event) p'"
  have inv: "(pf_pc p' = Some PfWait \<or> pf_pc p' = Some PfTry) \<and> pf_queue p' = [] \<and> \<not> pf_broken p' \<and> pf_lines p' = pf_lines p"
    using r
  proof (induction rule: reach.induct)
    case reach_init
    then show ?case using assms by (simp add: pf_Shutdown_def)
  next
    case (reach_step a b)
    from reach_step(2,3) show ?case by cases auto
  qed
  then show "pf_pc p' \<noteq> Some PfEnd" "pf_lines p' = pf_lines p" by auto
  from inv show "\<exists>q. pf_tstep show_event p' q" by (blast intro: pf_try pf_sleep)
next
  let ?p1 = "pf_destroy p\<lparr>pf_pc := Some PfTop\<rparr>"
  have "pf_tstep show_event (pf_destroy p) ?p1"
    using assms by (intro pf_none) (simp_all add: pf_destroy_def)
  moreover have "pf_tstep show_event ?p1 (?p1\<lparr>pf_pc := Some PfEnd\<rparr>)"
    using assms by (intro pf_leave [where down = False]) (simp_all add: pf_destroy_def)
  moreover have "pf_pc (?p1\<lparr>pf_pc := Some PfEnd\<rparr>) = Some PfEnd" by simp
  ultimately show "\<exists>p1 p2. pf_tstep show_event (pf_destroy p) p1 \<and> pf_tstep show_event p1 p2 \<and> pf_pc p2 = Some PfEnd"
    by blast
qed

definition ex_perf :: perf_cache where "ex_perf = the (pf_new None (Some ''1'') 7)"

lemma ex_perf_eq: "pf_new None (Some ''1'') 7 = Some ex_perf" unfolding ex_perf_def by code_simp

lemma perf_events_written_in_order_witness:
  "pf_lines (AddSchedEvent 1 2 3 4 5 ex_perf) @ map (ev_SerializeToString (\<lambda>_. ''t'') (\<lambda>_. ''c'')) (pf_queue (AddSchedEvent 1 2 3 4 5 ex_perf))
    = [dec (unat (7 :: u64)), ev_SerializeToString (\<lambda>_. ''t'') (\<lambda>_. ''c'') (SchedEvent 1 5 2 3 4)]"
proof -
  let ?sh = "ev_SerializeToString (\<lambda>_. ''t'') (\<lambda>_. ''c'')"
  have p: "pf_open ex_perf" "pf_enable_sched ex_perf" "pf_queue ex_perf = []" unfolding ex_perf_def by code_simp+
  have "reach (ex_perf, []) (pf_step ?sh) (AddSchedEvent 1 2 3 4 5 ex_perf, [SchedEvent 1 5 2 3 4])"
    using reach_one [of "pf_step ?sh", OF pf_sched [of ?sh ex_perf "[]" 1 2 3 4 5]] p by (simp add: kEventQueueSize_def)
  from perf_events_written_in_order [OF ex_perf_eq p(1) this] show ?thesis by simp
qed

lemma perf_shutdown_hangs_witness:
  "\<exists>p1 p2. pf_tstep (\<lambda>_. ''e'') (pf_destroy (ex_perf\<lparr>pf_pc := Some PfWait\<rparr>)) p1 \<and> pf_tstep (\<lambda>_. ''e'') p1 p2 \<and> pf_pc p2 = Some PfEnd"
proof -
  have "pf_pc (ex_perf\<lparr>pf_pc := Some PfWait\<rparr>) = Some PfWait" "pf_queue (ex_perf\<lparr>pf_pc := Some PfWait\<rparr>) = []"
    "\<not> pf_broken (ex_perf\<lparr>pf_pc := Some PfWait\<rparr>)" "\<not> pf_shutdown (ex_perf\<lparr>pf_pc := Some PfWait\<rparr>)" "pf_enable_sched (ex_perf\<lparr>pf_pc := Some PfWait\<rparr>)"
    unfolding ex_perf_def by code_simp+
  from perf_shutdown_hangs [OF this] show ?thesis by blast
qed

end
