(* ===== verification/Context_Switch.thy ===== *)
theory Context_Switch
  imports Cyber_Prelude
begin

text \<open>
  The switch of stacks under the coroutines (croutine/detail): \<open>MakeContext\<close> lays a stack out and \<open>ctx_swap\<close>,
  in assembly for x86_64 and for aarch64, saves the registers a function call has to keep on the one stack and
  takes them from the other. The two programs are lists of the instructions in their files, run by the part of
  the machines they use. Memory is cells of eight bytes at addresses that are multiples of eight.
\<close>

section \<open>x86_64\<close>

datatype x_reg = RDI | RSI | RSP | RBP | RBX | R12 | R13 | R14 | R15

datatype x_instr =
    PushQ x_reg
  | PopQ x_reg
  | MovTo x_reg x_reg
  | MovFrom x_reg x_reg
  | RetQ

record x86 =
  xr :: "x_reg \<Rightarrow> u64"
  xm :: "u64 \<Rightarrow> u64"
  xip :: u64

text \<open>\<open>MovTo r b\<close> is \<open>movq r, (b)\<close> and \<open>MovFrom b r\<close> is \<open>movq (b), r\<close>.\<close>

fun x_do :: "x_instr \<Rightarrow> x86 \<Rightarrow> x86" where
  "x_do (PushQ r) m = m\<lparr>xr := (xr m)(RSP := xr m RSP - 8), xm := (xm m)(xr m RSP - 8 := xr m r)\<rparr>"
| "x_do (PopQ r) m = m\<lparr>xr := (xr m)(RSP := xr m RSP + 8, r := xm m (xr m RSP))\<rparr>"
| "x_do (MovTo r b) m = m\<lparr>xm := (xm m)(xr m b := xr m r)\<rparr>"
| "x_do (MovFrom b r) m = m\<lparr>xr := (xr m)(r := xm m (xr m b))\<rparr>"
| "x_do RetQ m = m\<lparr>xr := (xr m)(RSP := xr m RSP + 8), xip := xm m (xr m RSP)\<rparr>"

definition ctx_swap_x86 :: "x_instr list" where
  "ctx_swap_x86 = [PushQ RDI, PushQ R12, PushQ R13, PushQ R14, PushQ R15, PushQ RBX, PushQ RBP, MovTo RSP RDI,
     MovFrom RSI RSP, PopQ RBP, PopQ RBX, PopQ R15, PopQ R14, PopQ R13, PopQ R12, PopQ RDI, RetQ]"

text \<open>A call of \<open>SwapContext\<close>, from its first instruction on: \<open>RDI\<close> and \<open>RSI\<close> have the addresses of the two
  stack pointers and the return address is on top of the stack.\<close>

definition x_swap :: "x86 \<Rightarrow> x86" where "x_swap m = fold x_do ctx_swap_x86 m"

definition STACK_SIZE :: u64 where "STACK_SIZE = 2 * 1024 * 1024"
definition REGISTERS_SIZE_x86 :: u64 where "REGISTERS_SIZE_x86 = 56"

text \<open>\<open>memset\<close> of \<open>n\<close> cells.\<close>

fun clear_cells :: "nat \<Rightarrow> u64 \<Rightarrow> (u64 \<Rightarrow> u64) \<Rightarrow> u64 \<Rightarrow> u64" where
  "clear_cells 0 a mem = mem"
| "clear_cells (Suc n) a mem = clear_cells n (a + 8) (mem(a := 0))"

text \<open>\<open>MakeContext\<close> of a stack at address \<open>stack\<close>: the stack pointer and the memory.\<close>

definition MakeContext_x86 :: "u64 \<Rightarrow> u64 \<Rightarrow> u64 \<Rightarrow> (u64 \<Rightarrow> u64) \<Rightarrow> u64 \<times> (u64 \<Rightarrow> u64)" where
  "MakeContext_x86 f1 arg stack mem =
     (let ctx_sp = stack + STACK_SIZE - 16 - REGISTERS_SIZE_x86;
          mem = clear_cells 7 ctx_sp mem;
          sp = stack + STACK_SIZE - 16;
          mem = mem(sp := f1);
          mem = mem(sp - 8 := arg) in
      (ctx_sp, mem))"

text \<open>What a call pushes, the cells from the return address down; and what stays in the registers over a call.\<close>

definition x_pushed :: "u64 \<Rightarrow> u64 list" where
  "x_pushed sp = [sp - 8, sp - 16, sp - 24, sp - 32, sp - 40, sp - 48, sp - 56]"

definition x_saved :: "x_reg list" where "x_saved = [RBX, RBP, R12, R13, R14, R15]"

section \<open>aarch64\<close>

datatype a_reg = X nat | D nat | SP

datatype a_instr =
    StpPush a_reg a_reg
  | MovR a_reg a_reg
  | StrTo a_reg a_reg
  | LdrFrom a_reg a_reg
  | LdpAt u64 a_reg a_reg
  | AddSp u64
  | RetA

record a64 =
  ar :: "a_reg \<Rightarrow> u64"
  am :: "u64 \<Rightarrow> u64"
  apc :: u64

text \<open>\<open>StpPush r s\<close> is \<open>stp r, s, [sp,#-16]!\<close> and \<open>LdpAt n r s\<close> is \<open>ldp r, s, [sp,#n]!\<close>, for 0 without the write.\<close>

fun a_do :: "a_instr \<Rightarrow> a64 \<Rightarrow> a64" where
  "a_do (StpPush r s) m = m\<lparr>ar := (ar m)(SP := ar m SP - 16), am := (am m)(ar m SP - 16 := ar m r, ar m SP - 8 := ar m s)\<rparr>"
| "a_do (MovR r s) m = m\<lparr>ar := (ar m)(r := ar m s)\<rparr>"
| "a_do (StrTo r b) m = m\<lparr>am := (am m)(ar m b := ar m r)\<rparr>"
| "a_do (LdrFrom r b) m = m\<lparr>ar := (ar m)(r := am m (ar m b))\<rparr>"
| "a_do (LdpAt n r s) m = m\<lparr>ar := (ar m)(SP := ar m SP + n, r := am m (ar m SP + n), s := am m (ar m SP + n + 8))\<rparr>"
| "a_do (AddSp n) m = m\<lparr>ar := (ar m)(SP := ar m SP + n)\<rparr>"
| "a_do RetA m = m\<lparr>apc := ar m (X 30)\<rparr>"

definition ctx_swap_aarch64 :: "a_instr list" where
  "ctx_swap_aarch64 = [StpPush (X 0) (X 30), StpPush (D 8) (D 9), StpPush (D 10) (D 11), StpPush (D 12) (D 13), StpPush (D 14) (D 15),
     StpPush (X 1) (X 19), StpPush (X 20) (X 21), StpPush (X 22) (X 23), StpPush (X 24) (X 25), StpPush (X 26) (X 27), StpPush (X 28) (X 29),
     MovR (X 3) SP, StrTo (X 3) (X 0), LdrFrom (X 3) (X 1), MovR SP (X 3),
     LdpAt 0 (X 28) (X 29), LdpAt 16 (X 26) (X 27), LdpAt 16 (X 24) (X 25), LdpAt 16 (X 22) (X 23), LdpAt 16 (X 20) (X 21),
     LdpAt 16 (X 1) (X 19), LdpAt 16 (D 14) (D 15), LdpAt 16 (D 12) (D 13), LdpAt 16 (D 10) (D 11), LdpAt 16 (D 8) (D 9),
     LdpAt 16 (X 0) (X 30), AddSp 16, RetA]"

definition a_swap :: "a64 \<Rightarrow> a64" where "a_swap m = fold a_do ctx_swap_aarch64 m"

definition REGISTERS_SIZE_aarch64 :: u64 where "REGISTERS_SIZE_aarch64 = 160"

definition MakeContext_aarch64 :: "u64 \<Rightarrow> u64 \<Rightarrow> u64 \<Rightarrow> (u64 \<Rightarrow> u64) \<Rightarrow> u64 \<times> (u64 \<Rightarrow> u64)" where
  "MakeContext_aarch64 f1 arg stack mem =
     (let ctx_sp = stack + STACK_SIZE - 16 - REGISTERS_SIZE_aarch64;
          mem = clear_cells 20 ctx_sp mem;
          sp = stack + STACK_SIZE - 8;
          mem = mem(sp := f1);
          mem = mem(sp - 8 := arg) in
      (ctx_sp, mem))"

definition a_pushed :: "u64 \<Rightarrow> u64 list" where
  "a_pushed sp = [sp - 8, sp - 16, sp - 24, sp - 32, sp - 40, sp - 48, sp - 56, sp - 64, sp - 72, sp - 80, sp - 88,
     sp - 96, sp - 104, sp - 112, sp - 120, sp - 128, sp - 136, sp - 144, sp - 152, sp - 160, sp - 168, sp - 176]"

definition a_saved :: "a_reg list" where
  "a_saved = map X [19, 20, 21, 22, 23, 24, 25, 26, 27, 28, 29] @ map D [8, 9, 10, 11, 12, 13, 14, 15]"

section \<open>The switch\<close>

lemmas x_defs = x_swap_def ctx_swap_x86_def x_pushed_def x_saved_def
lemmas a_defs = a_swap_def ctx_swap_aarch64_def a_saved_def

text \<open>A switch saves and then restores.\<close>

definition x_save :: "x86 \<Rightarrow> x86" where "x_save m = fold x_do (take 8 ctx_swap_x86) m"
definition x_load :: "x86 \<Rightarrow> x86" where "x_load m = fold x_do (drop 8 ctx_swap_x86) m"

lemma x_swap_split: "x_swap m = x_load (x_save m)"
  by (simp add: x_swap_def x_save_def x_load_def fold_append [symmetric, THEN fun_cong, simplified comp_def] del: fold_append)

lemma x_save_mem:
  "xm (x_save m) = (xm m)(xr m RSP - 8 := xr m RDI, xr m RSP - 16 := xr m R12, xr m RSP - 24 := xr m R13, xr m RSP - 32 := xr m R14,
     xr m RSP - 40 := xr m R15, xr m RSP - 48 := xr m RBX, xr m RSP - 56 := xr m RBP, xr m RDI := xr m RSP - 56)"
  by (simp add: x_save_def ctx_swap_x86_def)

lemma x_save_reg: "r \<noteq> RSP \<Longrightarrow> xr (x_save m) r = xr m r"
  by (simp add: x_save_def ctx_swap_x86_def)

lemma x_load_mem: "xm (x_load m) = xm m"
  by (simp add: x_load_def ctx_swap_x86_def)

lemma x_load_reg:
  defines "to m \<equiv> xm m (xr m RSI)"
  shows "xr (x_load m) RBP = xm m (to m)" "xr (x_load m) RBX = xm m (to m + 8)" "xr (x_load m) R15 = xm m (to m + 16)"
    "xr (x_load m) R14 = xm m (to m + 24)" "xr (x_load m) R13 = xm m (to m + 32)" "xr (x_load m) R12 = xm m (to m + 40)"
    "xr (x_load m) RDI = xm m (to m + 48)" "xr (x_load m) RSP = to m + 64" "xip (x_load m) = xm m (to m + 56)"
  by (simp_all add: x_load_def ctx_swap_x86_def to_def ac_simps)

text \<open>The cells a switch writes and those that have what it saved: on x86_64 the return address as well.\<close>

definition x_writes :: "x86 \<Rightarrow> u64 set" where "x_writes m = insert (xr m RDI) (set (x_pushed (xr m RSP)))"
definition x_kept :: "x86 \<Rightarrow> u64 set" where "x_kept m = insert (xr m RSP) (x_writes m)"

lemma x_save_other: "a \<notin> x_writes m \<Longrightarrow> xm (x_save m) a = xm m a"
  by (simp add: x_save_mem x_writes_def x_pushed_def)

lemma x_save_at:
  assumes "xr m RDI \<notin> set (x_pushed (xr m RSP)) \<union> {xr m RSP}"
  defines "sp \<equiv> xr m RSP"
  shows "xm (x_save m) (sp - 8) = xr m RDI" "xm (x_save m) (sp - 16) = xr m R12" "xm (x_save m) (sp - 24) = xr m R13"
    "xm (x_save m) (sp - 32) = xr m R14" "xm (x_save m) (sp - 40) = xr m R15" "xm (x_save m) (sp - 48) = xr m RBX"
    "xm (x_save m) (sp - 56) = xr m RBP" "xm (x_save m) sp = xm m sp" "xm (x_save m) (xr m RDI) = sp - 56"
  using assms(1) by (auto simp: x_save_mem x_pushed_def sp_def)

text \<open>A coroutine that switched away comes back as if its call had returned, on x86_64. When some other code,
  which left alone what the first switch saved, switches to where the first switch saved its stack pointer,
  the program goes on at the first call's return address with its stack and with every register a call has to
  keep.\<close>

theorem context_switch_returns_x86:
  assumes own: "xr m RDI \<notin> set (x_pushed (xr m RSP)) \<union> {xr m RSP}" and to: "xr m2 RSI = xr m RDI"
    and kept: "\<forall>a \<in> x_kept m. xm m2 a = xm (x_swap m) a" and apart: "x_kept m \<inter> x_writes m2 = {}"
  shows "xip (x_swap m2) = xm m (xr m RSP) \<and> xr (x_swap m2) RSP = xr m RSP + 8 \<and> (\<forall>r \<in> set x_saved. xr (x_swap m2) r = xr m r)"
proof -
  let ?sp = "xr m RSP"
  have cell: "xm (x_save m2) a = xm (x_save m) a" if a: "a \<in> x_kept m" for a
  proof -
    have "a \<notin> x_writes m2" using apart a by blast
    then have "xm (x_save m2) a = xm m2 a" by (rule x_save_other)
    also have "\<dots> = xm (x_save m) a" using kept a by (simp add: x_swap_split x_load_mem)
    finally show ?thesis .
  qed
  have slot: "xm (x_save m2) (xr (x_save m2) RSI) = ?sp - 56"
    using cell [of "xr m RDI"] x_save_at(9) [OF own] by (simp add: x_save_reg to x_kept_def x_writes_def)
  note c = cell [unfolded x_kept_def x_writes_def x_pushed_def, simplified]
  show ?thesis
    unfolding x_swap_split
    by (simp add: x_load_reg slot x_saved_def c x_save_at [OF own])
qed

section \<open>The switch on aarch64\<close>

definition a_save :: "a64 \<Rightarrow> a64" where "a_save m = fold a_do (take 13 ctx_swap_aarch64) m"
definition a_load :: "a64 \<Rightarrow> a64" where "a_load m = fold a_do (drop 13 ctx_swap_aarch64) m"

lemma a_swap_split: "a_swap m = a_load (a_save m)"
  by (simp add: a_swap_def a_save_def a_load_def fold_append [symmetric, THEN fun_cong, simplified comp_def] del: fold_append)

definition a_writes :: "a64 \<Rightarrow> u64 set" where "a_writes m = insert (ar m (X 0)) (set (a_pushed (ar m SP)))"

lemma a_save_mem:
  "am (a_save m) = (am m)(ar m SP - 16 := ar m (X 0), ar m SP - 8 := ar m (X 30), ar m SP - 32 := ar m (D 8), ar m SP - 24 := ar m (D 9),
     ar m SP - 48 := ar m (D 10), ar m SP - 40 := ar m (D 11), ar m SP - 64 := ar m (D 12), ar m SP - 56 := ar m (D 13),
     ar m SP - 80 := ar m (D 14), ar m SP - 72 := ar m (D 15), ar m SP - 96 := ar m (X 1), ar m SP - 88 := ar m (X 19),
     ar m SP - 112 := ar m (X 20), ar m SP - 104 := ar m (X 21), ar m SP - 128 := ar m (X 22), ar m SP - 120 := ar m (X 23),
     ar m SP - 144 := ar m (X 24), ar m SP - 136 := ar m (X 25), ar m SP - 160 := ar m (X 26), ar m SP - 152 := ar m (X 27),
     ar m SP - 176 := ar m (X 28), ar m SP - 168 := ar m (X 29), ar m (X 0) := ar m SP - 176)"
  by (simp add: a_save_def ctx_swap_aarch64_def)

lemma a_save_reg: "r \<noteq> SP \<Longrightarrow> r \<noteq> X 3 \<Longrightarrow> ar (a_save m) r = ar m r"
  by (simp add: a_save_def ctx_swap_aarch64_def)

lemma a_load_mem: "am (a_load m) = am m"
  by (simp add: a_load_def ctx_swap_aarch64_def)

lemma a_load_reg:
  defines "to m \<equiv> am m (ar m (X 1))"
  shows "ar (a_load m) (X 28) = am m (to m)" "ar (a_load m) (X 29) = am m (to m + 8)"
    "ar (a_load m) (X 26) = am m (to m + 16)" "ar (a_load m) (X 27) = am m (to m + 24)"
    "ar (a_load m) (X 24) = am m (to m + 32)" "ar (a_load m) (X 25) = am m (to m + 40)"
    "ar (a_load m) (X 22) = am m (to m + 48)" "ar (a_load m) (X 23) = am m (to m + 56)"
    "ar (a_load m) (X 20) = am m (to m + 64)" "ar (a_load m) (X 21) = am m (to m + 72)"
    "ar (a_load m) (X 19) = am m (to m + 88)"
    "ar (a_load m) (D 14) = am m (to m + 96)" "ar (a_load m) (D 15) = am m (to m + 104)"
    "ar (a_load m) (D 12) = am m (to m + 112)" "ar (a_load m) (D 13) = am m (to m + 120)"
    "ar (a_load m) (D 10) = am m (to m + 128)" "ar (a_load m) (D 11) = am m (to m + 136)"
    "ar (a_load m) (D 8) = am m (to m + 144)" "ar (a_load m) (D 9) = am m (to m + 152)"
    "ar (a_load m) (X 0) = am m (to m + 160)" "apc (a_load m) = am m (to m + 168)" "ar (a_load m) SP = to m + 176"
  by (simp_all add: a_load_def ctx_swap_aarch64_def to_def ac_simps)

lemma a_save_other: "a \<notin> a_writes m \<Longrightarrow> am (a_save m) a = am m a"
  by (simp add: a_save_mem a_writes_def a_pushed_def)

lemma a_save_slot: "am (a_save m) (ar m (X 0)) = ar m SP - 176"
  by (simp add: a_save_mem)

lemma a_save_at:
  assumes "ar m (X 0) \<notin> set (a_pushed (ar m SP))"
  defines "sp \<equiv> ar m SP"
  shows "am (a_save m) (sp - 16) = ar m (X 0)" "am (a_save m) (sp - 8) = ar m (X 30)"
    "am (a_save m) (sp - 32) = ar m (D 8)" "am (a_save m) (sp - 24) = ar m (D 9)"
    "am (a_save m) (sp - 48) = ar m (D 10)" "am (a_save m) (sp - 40) = ar m (D 11)"
    "am (a_save m) (sp - 64) = ar m (D 12)" "am (a_save m) (sp - 56) = ar m (D 13)"
    "am (a_save m) (sp - 80) = ar m (D 14)" "am (a_save m) (sp - 72) = ar m (D 15)"
    "am (a_save m) (sp - 88) = ar m (X 19)"
    "am (a_save m) (sp - 112) = ar m (X 20)" "am (a_save m) (sp - 104) = ar m (X 21)"
    "am (a_save m) (sp - 128) = ar m (X 22)" "am (a_save m) (sp - 120) = ar m (X 23)"
    "am (a_save m) (sp - 144) = ar m (X 24)" "am (a_save m) (sp - 136) = ar m (X 25)"
    "am (a_save m) (sp - 160) = ar m (X 26)" "am (a_save m) (sp - 152) = ar m (X 27)"
    "am (a_save m) (sp - 176) = ar m (X 28)" "am (a_save m) (sp - 168) = ar m (X 29)"
proof -
  have ne: "(sp - n = ar m (X 0)) = False" if "n \<in> {8, 16, 24, 32, 40, 48, 56, 64, 72, 80, 88, 96, 104, 112, 120, 128, 136, 144, 152, 160, 168, 176}" for n
    using assms(1) that by (auto simp: a_pushed_def sp_def)
  show "am (a_save m) (sp - 16) = ar m (X 0)" "am (a_save m) (sp - 8) = ar m (X 30)"
    "am (a_save m) (sp - 32) = ar m (D 8)" "am (a_save m) (sp - 24) = ar m (D 9)"
    "am (a_save m) (sp - 48) = ar m (D 10)" "am (a_save m) (sp - 40) = ar m (D 11)"
    "am (a_save m) (sp - 64) = ar m (D 12)" "am (a_save m) (sp - 56) = ar m (D 13)"
    "am (a_save m) (sp - 80) = ar m (D 14)" "am (a_save m) (sp - 72) = ar m (D 15)"
    "am (a_save m) (sp - 88) = ar m (X 19)"
    "am (a_save m) (sp - 112) = ar m (X 20)" "am (a_save m) (sp - 104) = ar m (X 21)"
    "am (a_save m) (sp - 128) = ar m (X 22)" "am (a_save m) (sp - 120) = ar m (X 23)"
    "am (a_save m) (sp - 144) = ar m (X 24)" "am (a_save m) (sp - 136) = ar m (X 25)"
    "am (a_save m) (sp - 160) = ar m (X 26)" "am (a_save m) (sp - 152) = ar m (X 27)"
    "am (a_save m) (sp - 176) = ar m (X 28)" "am (a_save m) (sp - 168) = ar m (X 29)"
    by (simp_all add: a_save_mem ne sp_def [symmetric])
qed

text \<open>C2: A coroutine that switched away comes back as if its call had returned, on aarch64: at its return address,
  with its stack and with the registers x19 to x29 and d8 to d15 as they were, whatever the code did that ran
  in between on other stacks.\<close>

theorem context_switch_returns_aarch64:
  assumes own: "ar m (X 0) \<notin> set (a_pushed (ar m SP))" and to: "ar m2 (X 1) = ar m (X 0)"
    and kept: "\<forall>a \<in> a_writes m. am m2 a = am (a_swap m) a" and apart: "a_writes m \<inter> a_writes m2 = {}"
  shows "apc (a_swap m2) = ar m (X 30) \<and> ar (a_swap m2) SP = ar m SP \<and> (\<forall>r \<in> set a_saved. ar (a_swap m2) r = ar m r)"
proof -
  let ?sp = "ar m SP"
  have cell: "am (a_save m2) a = am (a_save m) a" if a: "a \<in> a_writes m" for a
  proof -
    have "a \<notin> a_writes m2" using apart a by blast
    then have "am (a_save m2) a = am m2 a" by (rule a_save_other)
    also have "\<dots> = am (a_save m) a" using kept a by (simp add: a_swap_split a_load_mem)
    finally show ?thesis .
  qed
  have slot: "am (a_save m2) (ar (a_save m2) (X 1)) = ?sp - 176"
    using cell [of "ar m (X 0)"] by (simp add: a_save_reg to [simplified] a_writes_def a_save_slot)
  note c = cell [unfolded a_writes_def a_pushed_def, simplified]
  show ?thesis
    unfolding a_swap_split
    by (simp add: a_load_reg slot [simplified] a_saved_def c a_save_at [OF own])
qed

section \<open>The first switch to a stack\<close>

text \<open>The cells \<open>MakeContext\<close> fills.\<close>

definition x_made :: "u64 \<Rightarrow> u64 list" where
  "x_made stack = map (\<lambda>n. stack + STACK_SIZE - n) [72, 64, 56, 48, 40, 32, 24, 16]"

definition a_made :: "u64 \<Rightarrow> u64 list" where
  "a_made stack = map (\<lambda>n. stack + STACK_SIZE - n)
     [176, 168, 160, 152, 144, 136, 128, 120, 112, 104, 96, 88, 80, 72, 64, 56, 48, 40, 32, 24, 16, 8]"

lemma clear_cells_numeral: "clear_cells (numeral k) a mem = clear_cells (pred_numeral k) (a + 8) (mem(a := 0))"
  by (simp add: numeral_eq_Suc)

lemma MakeContext_x86_cells:
  assumes "MakeContext_x86 f1 arg stack mem = (sp, mem')"
  shows "sp = stack + STACK_SIZE - 72"
    and "mem' (stack + STACK_SIZE - 16) = f1" "mem' (stack + STACK_SIZE - 24) = arg" "mem' (stack + STACK_SIZE - 32) = 0"
    "mem' (stack + STACK_SIZE - 40) = 0" "mem' (stack + STACK_SIZE - 48) = 0" "mem' (stack + STACK_SIZE - 56) = 0"
    "mem' (stack + STACK_SIZE - 64) = 0" "mem' (stack + STACK_SIZE - 72) = 0"
proof -
  define S where "S = stack + STACK_SIZE"
  have "sp = S - 72" "mem' = (clear_cells 7 (S - 72) mem)(S - 16 := f1, S - 24 := arg)"
    using assms by (auto simp: MakeContext_x86_def Let_def REGISTERS_SIZE_x86_def S_def [symmetric])
  then show "sp = stack + STACK_SIZE - 72"
    "mem' (stack + STACK_SIZE - 16) = f1" "mem' (stack + STACK_SIZE - 24) = arg" "mem' (stack + STACK_SIZE - 32) = 0"
    "mem' (stack + STACK_SIZE - 40) = 0" "mem' (stack + STACK_SIZE - 48) = 0" "mem' (stack + STACK_SIZE - 56) = 0"
    "mem' (stack + STACK_SIZE - 64) = 0" "mem' (stack + STACK_SIZE - 72) = 0"
    unfolding S_def [symmetric] by (simp_all add: clear_cells_numeral)
qed

lemma MakeContext_aarch64_cells:
  assumes "MakeContext_aarch64 f1 arg stack mem = (sp, mem')"
  defines "S \<equiv> stack + STACK_SIZE"
  shows "sp = S - 176" and "mem' (S - 8) = f1" and "mem' (S - 16) = arg"
    and "list_all (\<lambda>n. mem' (S - n) = 0)
      [176, 168, 160, 152, 144, 136, 128, 120, 112, 104, 96, 88, 80, 72, 64, 56, 48, 40, 32, 24]"
proof -
  have m: "sp = S - 176" "mem' = (clear_cells 20 (S - 176) mem)(S - 8 := f1, S - 16 := arg)"
    using assms(1) by (auto simp: MakeContext_aarch64_def Let_def REGISTERS_SIZE_aarch64_def S_def)
  then show "sp = S - 176" "mem' (S - 8) = f1" "mem' (S - 16) = arg" by simp_all
  show "list_all (\<lambda>n. mem' (S - n) = 0)
      [176, 168, 160, 152, 144, 136, 128, 120, 112, 104, 96, 88, 80, 72, 64, 56, 48, 40, 32, 24]"
    unfolding m(2) by (simp add: clear_cells_numeral)
qed

text \<open>C13: A new coroutine starts in its entry function, on aarch64: the first switch to a stack that
  \<open>MakeContext\<close> laid out and nobody touched since goes to \<open>f1\<close> with \<open>arg\<close> in the register of the first
  argument, with the registers a call keeps cleared and with the stack pointer at the top of the stack.\<close>

theorem made_context_starts_aarch64:
  assumes mk: "MakeContext_aarch64 f1 arg stack mem = (sp, mem')" and m: "\<forall>a \<in> set (a_made stack). am n a = mem' a"
    and sp: "am n (ar n (X 1)) = sp" and apart: "insert (ar n (X 1)) (set (a_made stack)) \<inter> a_writes n = {}"
  shows "apc (a_swap n) = f1 \<and> ar (a_swap n) (X 0) = arg \<and> ar (a_swap n) SP = stack + STACK_SIZE \<and> (\<forall>r \<in> set a_saved. ar (a_swap n) r = 0)"
proof -
  have cell: "am (a_save n) a = mem' a" if "a \<in> set (a_made stack)" for a
    using that m apart a_save_other [of a n] by auto
  have slot: "am (a_save n) (ar (a_save n) (X 1)) = stack + STACK_SIZE - 176"
    using a_save_other [of "ar n (X 1)" n] apart sp MakeContext_aarch64_cells(1) [OF mk] by (simp add: a_save_reg)
  note c = cell [unfolded a_made_def, simplified]
  note z = MakeContext_aarch64_cells(4) [OF mk, simplified]
  show "apc (a_swap n) = f1 \<and> ar (a_swap n) (X 0) = arg \<and> ar (a_swap n) SP = stack + STACK_SIZE \<and> (\<forall>r \<in> set a_saved. ar (a_swap n) r = 0)"
    unfolding a_swap_split
    by (simp add: a_load_reg slot [simplified] a_saved_def c z MakeContext_aarch64_cells(2,3) [OF mk])
qed

text \<open>On x86_64 it starts as well, with its stack pointer eight bytes below the top, as behind the call of a
  function when the stack is aligned.\<close>

theorem made_context_starts_x86:
  assumes mk: "MakeContext_x86 f1 arg stack mem = (sp, mem')" and m: "\<forall>a \<in> set (x_made stack). xm m a = mem' a"
    and sp: "xm m (xr m RSI) = sp" and apart: "insert (xr m RSI) (set (x_made stack)) \<inter> x_writes m = {}"
  shows "xip (x_swap m) = f1 \<and> xr (x_swap m) RDI = arg \<and> xr (x_swap m) RSP = stack + STACK_SIZE - 8 \<and> (\<forall>r \<in> set x_saved. xr (x_swap m) r = 0)"
proof -
  have cell: "xm (x_save m) a = mem' a" if "a \<in> set (x_made stack)" for a
    using that m apart x_save_other [of a m] by auto
  have slot: "xm (x_save m) (xr (x_save m) RSI) = stack + STACK_SIZE - 72"
    using x_save_other [of "xr m RSI" m] apart sp MakeContext_x86_cells(1) [OF mk] by (simp add: x_save_reg)
  note c = cell [unfolded x_made_def, simplified]
  show "xip (x_swap m) = f1 \<and> xr (x_swap m) RDI = arg \<and> xr (x_swap m) RSP = stack + STACK_SIZE - 8 \<and> (\<forall>r \<in> set x_saved. xr (x_swap m) r = 0)"
    unfolding x_swap_split by (simp add: x_load_reg slot x_saved_def c MakeContext_x86_cells(2-) [OF mk])
qed

section \<open>Examples\<close>

text \<open>A machine that is about to switch, whose other stack pointer is 8192; and the machine that switches back.\<close>

definition ex_x :: x86 where
  "ex_x = \<lparr>xr = (\<lambda>_. 7)(RSP := 4096, RDI := 65536, RSI := 131072), xm = (\<lambda>_. 0)(131072 := 8192, 4096 := 11), xip = 0\<rparr>"

definition ex_x_back :: x86 where
  "ex_x_back = (x_swap ex_x)\<lparr>xr := (xr (x_swap ex_x))(RDI := 131072, RSI := 65536)\<rparr>"

definition ex_a :: a64 where
  "ex_a = \<lparr>ar = (\<lambda>_. 7)(SP := 4096, X 0 := 65536, X 1 := 131072, X 30 := 11), am = (\<lambda>_. 0)(131072 := 8192), apc = 0\<rparr>"

definition ex_a_back :: a64 where
  "ex_a_back = (a_swap ex_a)\<lparr>ar := (ar (a_swap ex_a))(X 0 := 131072, X 1 := 65536)\<rparr>"

lemma context_switch_returns_x86_witness:
  "xip (x_swap ex_x_back) = 11 \<and> xr (x_swap ex_x_back) RSP = 4104 \<and> xr (x_swap ex_x_back) R12 = 7"
proof -
  have "xr ex_x RDI \<notin> set (x_pushed (xr ex_x RSP)) \<union> {xr ex_x RSP}" "xr ex_x_back RSI = xr ex_x RDI"
    by code_simp+
  moreover have "\<forall>a \<in> x_kept ex_x. xm ex_x_back a = xm (x_swap ex_x) a" by (simp add: ex_x_back_def)
  moreover have "x_kept ex_x \<inter> x_writes ex_x_back = {}" by code_simp
  moreover have "xm ex_x (xr ex_x RSP) = 11" "xr ex_x RSP = 4096" "xr ex_x R12 = 7" by code_simp+
  ultimately show ?thesis using context_switch_returns_x86 [of ex_x ex_x_back] by (simp add: x_saved_def)
qed

lemma context_switch_returns_aarch64_witness:
  "apc (a_swap ex_a_back) = 11 \<and> ar (a_swap ex_a_back) SP = 4096 \<and> ar (a_swap ex_a_back) (X 19) = 7"
proof -
  have "ar ex_a (X 0) \<notin> set (a_pushed (ar ex_a SP))" "ar ex_a_back (X 1) = ar ex_a (X 0)" by code_simp+
  moreover have "\<forall>a \<in> a_writes ex_a. am ex_a_back a = am (a_swap ex_a) a" by (simp add: ex_a_back_def)
  moreover have "a_writes ex_a \<inter> a_writes ex_a_back = {}" by code_simp
  moreover have "ar ex_a (X 30) = 11" "ar ex_a SP = 4096" "ar ex_a (X 19) = 7" by code_simp+
  ultimately show ?thesis using context_switch_returns_aarch64 [of ex_a ex_a_back] by (simp add: a_saved_def)
qed

definition ex_made_a :: a64 where
  "ex_made_a = (let (sp, mem) = MakeContext_aarch64 99 5 1048576 (\<lambda>_. 0) in
     \<lparr>ar = (\<lambda>_. 7)(SP := 4096, X 0 := 65536, X 1 := 131072, X 30 := 11), am = mem(131072 := sp), apc = 0\<rparr>)"

definition ex_made_x :: x86 where
  "ex_made_x = (let (sp, mem) = MakeContext_x86 99 5 1048576 (\<lambda>_. 0) in
     \<lparr>xr = (\<lambda>_. 7)(RSP := 4096, RDI := 65536, RSI := 131072), xm = mem(131072 := sp), xip = 0\<rparr>)"

lemma made_context_starts_aarch64_witness: "apc (a_swap ex_made_a) = 99 \<and> ar (a_swap ex_made_a) (X 0) = 5"
proof -
  obtain sp mem' where mk: "MakeContext_aarch64 99 5 1048576 (\<lambda>_. 0) = (sp, mem')" by (cases "MakeContext_aarch64 99 5 1048576 (\<lambda>_. 0)")
  have n: "ex_made_a = \<lparr>ar = (\<lambda>_. 7)(SP := 4096, X 0 := 65536, X 1 := 131072, X 30 := 11), am = mem'(131072 := sp), apc = 0\<rparr>"
    by (simp add: ex_made_a_def mk)
  have "131072 \<notin> set (a_made 1048576)" by code_simp
  then have "\<forall>a \<in> set (a_made 1048576). am ex_made_a a = mem' a" by (auto simp: n)
  moreover have "am ex_made_a (ar ex_made_a (X 1)) = sp" by (simp add: n)
  moreover have "insert (ar ex_made_a (X 1)) (set (a_made 1048576)) \<inter> a_writes ex_made_a = {}" by code_simp
  ultimately show ?thesis using made_context_starts_aarch64 [OF mk] by blast
qed

lemma made_context_starts_x86_witness: "xip (x_swap ex_made_x) = 99 \<and> xr (x_swap ex_made_x) RDI = 5"
proof -
  obtain sp mem' where mk: "MakeContext_x86 99 5 1048576 (\<lambda>_. 0) = (sp, mem')" by (cases "MakeContext_x86 99 5 1048576 (\<lambda>_. 0)")
  have n: "ex_made_x = \<lparr>xr = (\<lambda>_. 7)(RSP := 4096, RDI := 65536, RSI := 131072), xm = mem'(131072 := sp), xip = 0\<rparr>"
    by (simp add: ex_made_x_def mk)
  have "131072 \<notin> set (x_made 1048576)" by code_simp
  then have "\<forall>a \<in> set (x_made 1048576). xm ex_made_x a = mem' a" by (auto simp: n)
  moreover have "xm ex_made_x (xr ex_made_x RSI) = sp" by (simp add: n)
  moreover have "insert (xr ex_made_x RSI) (set (x_made 1048576)) \<inter> x_writes ex_made_x = {}" by code_simp
  ultimately show ?thesis using made_context_starts_x86 [OF mk] by blast
qed

end
