(* ===== verification/Module_Logger.thy ===== *)
theory Module_Logger
  imports Log_File Async_Logger
begin

text \<open>
  The logger that gives each module its own file (logger/logger.cc) and the helpers of the loggers
  (logger/logger_util.cc). The map of file objects is shared by all loggers of the process; a \<open>Write\<close> is one
  step, as the lock of the map and that of the file order it.
\<close>

section \<open>Helpers\<close>

text \<open>\<open>PidHasChanged\<close>, with the process's id now: the answer and the id that is kept.\<close>

definition PidHasChanged :: "int \<Rightarrow> int \<Rightarrow> bool \<times> int" where
  "PidHasChanged pid g_main_thread_pid = (if g_main_thread_pid = pid then (False, g_main_thread_pid) else (True, pid))"

text \<open>\<open>GetLoggingDirectories\<close>, with the flag now: what is kept, and given.\<close>

definition GetLoggingDirectories :: "string \<Rightarrow> string list \<Rightarrow> string list" where
  "GetLoggingDirectories FLAGS_log_dir logging_directories_list =
     (if logging_directories_list = [] then [if FLAGS_log_dir \<noteq> [] then FLAGS_log_dir else ''./''] else logging_directories_list)"

section \<open>Loggers of modules\<close>

type_synonym module_loggers = "string \<Rightarrow> log_file option"

definition lo_object :: "string \<Rightarrow> module_loggers \<Rightarrow> log_file" where
  "lo_object module_name m = (case m module_name of Some f \<Rightarrow> f | None \<Rightarrow> lf_SetSymlinkBasename module_name (lf_new INFO module_name))"

definition lo_Write :: "string \<Rightarrow> log_call \<Rightarrow> bool \<Rightarrow> string \<Rightarrow> module_loggers \<times> log_world \<Rightarrow> module_loggers \<times> log_world" where
  "lo_Write process_group c force_flush message mw = (case mw of (m, w) \<Rightarrow>
     (let (log_message, module_name) = FindModuleName process_group message;
          (f, w) = lf_Write c force_flush log_message (lo_object module_name m, w) in
      (m(module_name \<mapsto> f), w)))"

definition lo_writes :: "string \<Rightarrow> (log_call \<times> bool \<times> string) list \<Rightarrow> module_loggers \<times> log_world \<Rightarrow> module_loggers \<times> log_world" where
  "lo_writes process_group calls mw = fold (\<lambda>(c, force, m). lo_Write process_group c force m) calls mw"

text \<open>What a file object keeps of its making.\<close>

definition lo_named :: "string \<Rightarrow> log_file \<Rightarrow> bool" where
  "lo_named name f \<longleftrightarrow> lf_base_filename f = name \<and> lf_symlink_basename f = name \<and> lf_severity f = INFO \<and> lf_filename_extension f = []"

lemma lf_CreateLogfile_named: "lo_named name f \<Longrightarrow> lo_named name (fst (snd (lf_CreateLogfile s writable (f, w))))"
  by (auto simp: lf_CreateLogfile_def lo_named_def Let_def)

lemma lf_try_dirs_named: "lo_named name f \<Longrightarrow> lo_named name (fst (snd (lf_try_dirs dirs s writable (f, w))))"
proof (induction dirs arbitrary: f w)
  case (Cons d dirs)
  let ?f = "f\<lparr>lf_base_filepath := d @ ''/'' @ lf_base_filename f @ ''.log.'' @ LC_LOG_SEVERITY_NAMES (lf_severity f) @ ''.''\<rparr>"
  obtain ok f' w' where c: "lf_CreateLogfile s writable (?f, w) = (ok, f', w')" by (cases "lf_CreateLogfile s writable (?f, w)")
  have "lo_named name ?f" using Cons.prems by (simp add: lo_named_def)
  from lf_CreateLogfile_named [OF this, of s writable w] have "lo_named name f'" unfolding c by (simp only: fst_conv snd_conv)
  then show ?case using c Cons.IH [of f' w'] by (auto simp: Let_def)
qed simp

lemma lf_Write_named: "lo_named name f \<Longrightarrow> lo_named name (fst (lf_Write c force m (f, w)))"
proof -
  assume n: "lo_named name f"
  have roll: "lo_named name (lf_rollover k f)" for k using n by (simp add: lf_rollover_def lo_named_def)
  have ensure: "lo_named name f \<Longrightarrow> lo_named name (fst (snd (lf_ensure_file c (f, w))))" for f w
    using lf_try_dirs_named [of name "f\<lparr>lf_rollover_attempt := 0\<rparr>" "lc_dirs c" "lf_time_pid c" "lc_writable c" w]
    by (auto simp: lf_ensure_file_def Let_def lo_named_def lf_grow_def split: prod.splits)
  have put: "lo_named name f \<Longrightarrow> lo_named name (fst (lf_put c force m (f, w)))" for f w
    by (auto simp: lf_put_def Let_def lo_named_def lf_grow_def lf_FlushUnlocked_def)
  obtain ok f1 w1 where e: "lf_ensure_file c (lf_rollover (lc_max_log_size c) f, w) = (ok, f1, w1)"
    by (cases "lf_ensure_file c (lf_rollover (lc_max_log_size c) f, w)")
  have "lo_named name f1" using ensure [OF roll, of "lc_max_log_size c" w] unfolding e by (simp only: fst_conv snd_conv)
  with n put show ?thesis by (simp add: lf_Write_def e)
qed

lemma lo_Write_named:
  assumes "\<forall>name f. m name = Some f \<longrightarrow> lo_named name f" and "lo_Write pg c force msg (m, w) = (m', w')"
  shows "\<forall>name f. m' name = Some f \<longrightarrow> lo_named name f"
proof -
  let ?n = "snd (FindModuleName pg msg)"
  have "lo_named ?n (lo_object ?n m)"
    using assms(1) by (cases "m ?n") (auto simp: lo_object_def lo_named_def lf_SetSymlinkBasename_def lf_new_def)
  from lf_Write_named [OF this] assms show ?thesis
    by (auto simp: lo_Write_def Let_def split: prod.splits if_splits) (metis fst_conv)
qed

text \<open>Each module has its own log file. Whatever was written, and however often files were rolled over, the
  file object of a module still has the module's name, so its files and its link are named after the module,
  and objects exist for the modules of the messages and no others.\<close>

theorem module_logs_named:
  "case lo_writes process_group calls (\<lambda>_. None, w) of (m, w') \<Rightarrow>
     dom m = (\<lambda>(c, force, msg). snd (FindModuleName process_group msg)) ` set calls \<and>
     (\<forall>name. case m name of None \<Rightarrow> True | Some f \<Rightarrow> lf_base_filename f = name \<and> lf_symlink_basename f = name)"
proof -
  have gen: "case lo_writes process_group calls (m, w) of (m', w') \<Rightarrow>
      dom m' = dom m \<union> (\<lambda>(c, force, msg). snd (FindModuleName process_group msg)) ` set calls \<and> (\<forall>name f. m' name = Some f \<longrightarrow> lo_named name f)"
    if "\<forall>name f. m name = Some f \<longrightarrow> lo_named name f" for m w
    using that
  proof (induction calls arbitrary: m w)
    case (Cons call calls)
    obtain c force msg where call: "call = (c, force, msg)" by (cases call)
    obtain m1 w1 where s: "lo_Write process_group c force msg (m, w) = (m1, w1)" by (cases "lo_Write process_group c force msg (m, w)")
    have "dom m1 = insert (snd (FindModuleName process_group msg)) (dom m)"
      using s by (auto simp: lo_Write_def Let_def split: prod.splits if_splits)
    with Cons.IH [OF lo_Write_named [OF Cons.prems s], of w1] s show ?case
      by (auto simp: lo_writes_def call split: prod.splits)
  qed (simp add: lo_writes_def)
  from gen [of "\<lambda>_. None" w] show ?thesis
    by (auto simp: lo_named_def split: prod.splits option.splits)
qed

end
