(* ===== verification/Spec2Isabelle.thy ===== *)
theory Spec2Isabelle
  imports Bounded_Queue_Concurrent Linked_Queue Atomic_Map_Concurrent Object_Pools RW_Locks Timing_Wheel Data_Flow Time_Core Signal_Slot Shm_Transport Scheduler_Choreo Record_Writer Hybrid_Delivery Shm_Notifier Rtps_Adapter Io_Session Async_Logger Log_File File_Util Task_Pool Message_Header Message_Factory Process_Setup Multicast_Notifier Record_Bytes Transport_Endpoints Processor_Threads Rtps_Participant Perf_Events Context_Switch Module_Logger
begin

text \<open>
  A verification library of the CyberRT port for the Raspberry Pi, the C++ sources under src/cyber.

  \<^bold>\<open>The program.\<close> CyberRT runs the tasks of a robot. Components exchange messages over channels. A transmitter
  gives a message its info and hands it to the ways its readers need: a call in the process, a block in shared
  memory with a notification of the other processes, or the RTPS library. A dispatcher of the reading process
  gives it to the listeners of its channel, a receiver to the data dispatcher, which stores it in the ring
  buffers of the visitors and notifies the coroutine of the reader. A scheduler's processors look for coroutines
  that can go on, by priority, and switch to their stacks. Around this core stand the queues, maps, pools and
  locks of base, timers on a timing wheel, a poller for descriptors, record files with their viewer, the
  loggers, the file helpers and the set up of a process.

  \<^bold>\<open>How the model reads.\<close> There is one theory for a part of the program and in it a group of definitions for each
  class, in the order and with the names of the code; where a name is used in several classes it has a prefix of
  two or three letters. A class is a record of its fields, a method a function from the state to its results and
  the new state; the clock, what system calls answer and what the environment says are arguments. Machine integers
  are words of their width. A result of type option is \<open>None\<close> where the code has undefined behaviour (a null
  pointer, an index past the end, a use after free, a failed check that ends the program) or never returns.
  What threads do at once is a step relation whose steps are single accesses to what they share, or critical
  sections where a lock makes them one; \<open>reach\<close> of Cyber_Prelude gives the states it leads to. Memory
  orders are taken to be sequentially consistent. The protobuf library, the RTPS library, hash functions and
  the system are parameters, and what is asked of them is a named predicate (\<open>pb_ok\<close> for the codecs of
  record files, \<open>pool_laws\<close> for descriptor pools); each property that asks for one has a witness with a concrete
  function.

  \<^bold>\<open>The theories and their sources.\<close>

  \<^item> Cyber_Prelude: words, windows of remainders, counting of threads, reachable states.
  \<^item> Fifo_Spec: the contract of a queue as the locale \<open>fifo\<close>, with clients of any operations; interpreted on
    Bounded_Queue (base/bounded_queue.h, wait_strategy.h) and twice in Linked_Queue (unbounded_queue.h,
    thread_safe_queue.h). Bounded_Queue_Concurrent takes the compare-and-swap loops of the ring apart for any
    number of threads: no slot is owned twice and the log of the queue is first in, first out.
  \<^item> Hash_Maps: the locale \<open>bucket\<close>, interpreted on the buckets of atomic_hash_map.h and concurrent_hash_map.h, and the
    tables over them. Atomic_Map_Concurrent: a bucket of AtomicHashMap on a heap whose addresses are used again,
    under any number of threads; each call takes effect at one step of its own, inserting never touches freed
    memory and leaks nothing, and what Get hands out may dangle.
  \<^item> Object_Pools: object_pool.h and, as a step relation, concurrent_object_pool.h.
  \<^item> RW_Locks: the locale \<open>rw_lock\<close>, interpreted on atomic_rw_lock.h and on the lock of transport/shm/block.cc; and
    reentrant_rw_lock.h with the guards of rw_lock_guard.h.
  \<^item> Signal_Slot: base/signal.h. Listener_Handler: transport/message/listener_handler.h over it.
  \<^item> Timing_Wheel: timer/timing_wheel, timer_bucket, timer_task and timer; the wheels refine the list of what is
    pending and for how many ticks, and a timer, one-shot or periodic, fires as its own specification says. Time_Core: time/time, duration and rate, common/time_conversion.h.
  \<^item> Data_Flow: data/cache_buffer.h, channel_buffer.h, data_dispatcher.h, data_notifier.h, data_visitor.h and
    fusion/all_latest.h, with buffers on a heap and visitors of one to four channels.
  \<^item> Croutine: croutine/croutine and routine_factory.h, with the reader's loop against processors and dispatchers.
    Context_Switch: croutine/detail, the two assembly programs as lists of instructions and the stacks they switch.
  \<^item> Scheduler_Core: the locale \<open>processor_context\<close>, what a scan for the next routine promises; interpreted in
    Scheduler_Classic (scheduler/policy/scheduler_classic.cc, classic_context.cc, scheduler.cc) and in
    Scheduler_Choreo (scheduler_choreography.cc, choreography_context.cc). In both a dispatch and a removal go
    through their critical sections one by one beside the other threads, a removal waiting for the processor
    that runs the routine. Processor_Threads: scheduler/processor,
    the affinities and priorities that are asked for, scheduler_factory.cc.
  \<^item> Task_Pool: the locale \<open>work_queue\<close>, interpreted on task/task_manager and on base/thread_pool.h; and the processor
    that may miss a notification.
  \<^item> Message_Codec: transport/common/identity, transport/message/message_info, transport/shm/readable_info as bytes.
    Message_Header: message/message_header.h, message_traits.h, raw_message.h. Message_Factory:
    message/protobuf_factory. Message_History: transport/message/history.h.
  \<^item> Shm_Segment and Shm_Transport: transport/shm (shm_conf, state, block, segment), transmitter/shm_transmitter.h,
    dispatcher/shm_dispatcher: a message from the one process to the other, and segments that grow.
    Shm_Notifier: condition_notifier, with its ring under all processes. Multicast_Notifier: multicast_notifier and
    notifier_factory.
  \<^item> Message_Dispatcher: transport/dispatcher; its locale \<open>listener_table\<close> is interpreted on the table of listeners.
    Hybrid_Transport and Hybrid_Delivery: transport/transmitter/hybrid_transmitter.h and
    receiver/hybrid_receiver.h. Transport_Endpoints: the lives of receivers with the tasks for the history,
    transport.h. Rtps_Adapter:
    transport/rtps/attributes_filler, sub_listener, transport/qos. Rtps_Participant: participant.
  \<^item> Record_File, Record_Reader, Record_Roundtrip, Record_Viewer, Record_Writer: src/cyber/record over files of
    typed sections, from one file's writer with its flush thread to sessions of many segments and the viewer over
    them. Record_Bytes: the same files as bytes (record/file/section.h, record_file_base), whose reader refines that
    of Record_Reader.
  \<^item> Io_Poller and Io_Session: io/poller, poll_handler, session, against the kernel's list of interests and
    the readings of a clock in nanoseconds.
  \<^item> Async_Logger, Log_File, Module_Logger: logger. File_Util: common/file over a file system that is a tree.
    Perf_Events: event. Process_Setup: init.cc, state, common/global_data, environment.h, cpu sets and the
    choice of the scheduler.

  \<^bold>\<open>What the lemmas show.\<close> For each state an invariant that every operation keeps; what each operation does on each
  of its branches; and over them, where the part has a contract, that it refines it: queues their list, maps
  their map, buckets under threads the bucket of one thread, wheels their timers, the ways of a hybrid transport
  one delivery to each reader, byte files their sections, files and viewers the messages that were recorded.
  Where the code is wrong a theorem shows the run: a reader that misses a notification, a pointer that dangles,
  a lock that is lost, a shutdown that waits for ever, a task that calls a destroyed receiver. What a theorem about
  recorded files asks of the flush thread, or one about shared memory of the system's calls, the text
  before it says. Codecs and files have round trips, loops that end are
  functions, and loops that may not end are partial functions or have fuel.

  \<^bold>\<open>Bounds and fuel.\<close> Clearing an unbounded queue and destroying a bucket take a round for each entry, and the theorems
  give the number. A copy of directories takes fuel for their depth. The loops of the byte reader take fuel for
  the sections a call skips; the round trip names how much each call and the client's loop need, the number of
  the sections and of the messages, and a section with a negative size uses up every amount. Counters of
  64 bits are assumed not to wrap where a theorem says for how many operations (\<open>fits\<close>, \<open>in_budget\<close>).

  \<^bold>\<open>Not modelled.\<close> The thread functions of task/task.h, CreateNode of cyber.cc (the class it makes is not in
  the repository), macros and headers without state, the bindings of message/py_message.h, the RTPS message type
  that the library's tool generated, the examples, demos and tests. Constructors and conversions through
  double and the printing of times are left out, for they rest on floating point and strftime; so is Glob,
  which only calls glob(3). The library's own threads and the scheduling of the system appear only as the order of
  steps.
\<close>

end
